(* ===== verification/Prelude.thy ===== *)
theory Prelude
  imports Main "HOL-Library.Word" "HOL-Library.List_Lexorder" "HOL-Library.Sublist"
begin

text \<open>
  Shared vocabulary of the development: machine integers and byte strings, little- and
  big-endian encodings (the \<open>to_le_bytes\<close>, \<open>from_le_bytes\<close>, \<open>to_be_bytes\<close> and
  \<open>from_be_bytes\<close> of the Rust standard library), byte slices, the error monad, and the
  order on byte strings. Byte strings are lists of 8-bit words; their order is the
  lexicographic one of \<open>List_Lexorder\<close>, which is the order the Rust type \<open>Vec<u8>\<close>
  (and so \<open>Key\<close>) derives.
\<close>

unbundle bit_operations_syntax

named_theorems codec_simps \<open>unfolding facts of the byte-level codecs\<close>
named_theorems len_simps \<open>lengths of encoded values\<close>

subsection \<open>Types\<close>

type_synonym u8 = "8 word"
type_synonym u16 = "16 word"
type_synonym u32 = "32 word"
type_synonym u64 = "64 word"
type_synonym i64 = "64 word"
type_synonym bytes = "8 word list"

subsection \<open>Fixed-width integers as bytes\<close>

fun le_enc :: "nat \<Rightarrow> nat \<Rightarrow> bytes" where
  "le_enc 0 x = []"
| "le_enc (Suc n) x = word_of_nat (x mod 256) # le_enc n (x div 256)"

fun le_dec :: "bytes \<Rightarrow> nat" where
  "le_dec [] = 0"
| "le_dec (b # bs) = unat b + 256 * le_dec bs"

definition u16_le :: "u16 \<Rightarrow> bytes" where "u16_le w = le_enc 2 (unat w)"
definition u32_le :: "u32 \<Rightarrow> bytes" where "u32_le w = le_enc 4 (unat w)"
definition u64_le :: "u64 \<Rightarrow> bytes" where "u64_le w = le_enc 8 (unat w)"
definition u32_be :: "u32 \<Rightarrow> bytes" where "u32_be w = rev (le_enc 4 (unat w))"
definition u64_be :: "u64 \<Rightarrow> bytes" where "u64_be w = rev (le_enc 8 (unat w))"

definition u16_of_le :: "bytes \<Rightarrow> u16" where "u16_of_le bs = word_of_nat (le_dec bs)"
definition u32_of_le :: "bytes \<Rightarrow> u32" where "u32_of_le bs = word_of_nat (le_dec bs)"
definition u64_of_le :: "bytes \<Rightarrow> u64" where "u64_of_le bs = word_of_nat (le_dec bs)"
definition u32_of_be :: "bytes \<Rightarrow> u32" where "u32_of_be bs = word_of_nat (le_dec (rev bs))"
definition u64_of_be :: "bytes \<Rightarrow> u64" where "u64_of_be bs = word_of_nat (le_dec (rev bs))"

text \<open>A length as a 32-bit field: Rust's \<open>xs.len() as u32\<close>, which truncates.\<close>

definition len32 :: "'a list \<Rightarrow> u32" where
  "len32 xs = word_of_nat (length xs)"

lemma le_enc_numeral:
  "le_enc (numeral k) x = word_of_nat (x mod 256) # le_enc (pred_numeral k) (x div 256)"
  by (simp only: numeral_eq_Suc [of k] le_enc.simps)

lemma length_le_enc [simp]: "length (le_enc n x) = n"
  by (induction n arbitrary: x) auto

lemma le_dec_enc: "le_dec (le_enc n x) = x mod 256 ^ n"
proof (induction n arbitrary: x)
  case (Suc n)
  have "unat (word_of_nat (x mod 256) :: u8) = x mod 256"
    by (simp add: unat_of_nat)
  with Suc show ?case by (simp add: mod_mult2_eq)
qed simp

lemma le_dec_bound: "le_dec bs < 256 ^ length bs"
proof (induction bs)
  case (Cons b bs)
  have "unat b < 256" using unsigned_less [where 'b = 8 and 'a = nat, of b] by simp
  with Cons show ?case by simp
qed simp

lemma le_enc_dec: "le_enc (length bs) (le_dec bs) = bs"
proof (induction bs)
  case (Cons b bs)
  have "unat b < 256" using unsigned_less [where 'b = 8 and 'a = nat, of b] by simp
  with Cons show ?case by simp
qed simp

lemma le_enc_inj:
  assumes "le_enc n x = le_enc n y" "x < 256 ^ n" "y < 256 ^ n"
  shows "x = y"
  by (metis assms le_dec_enc mod_less)

lemma length_u16_le [simp, len_simps]: "length (u16_le w) = 2" by (simp add: u16_le_def)
lemma length_u32_le [simp, len_simps]: "length (u32_le w) = 4" by (simp add: u32_le_def)
lemma length_u64_le [simp, len_simps]: "length (u64_le w) = 8" by (simp add: u64_le_def)
lemma length_u32_be [simp, len_simps]: "length (u32_be w) = 4" by (simp add: u32_be_def)
lemma length_u64_be [simp, len_simps]: "length (u64_be w) = 8" by (simp add: u64_be_def)

lemma u16_of_le_u16_le [simp]: "u16_of_le (u16_le w) = w"
  using unsigned_less [where 'a = nat, of w] by (simp add: u16_of_le_def u16_le_def le_dec_enc)

lemma u32_of_le_u32_le [simp]: "u32_of_le (u32_le w) = w"
  using unsigned_less [where 'a = nat, of w] by (simp add: u32_of_le_def u32_le_def le_dec_enc)

lemma u64_of_le_u64_le [simp]: "u64_of_le (u64_le w) = w"
  using unsigned_less [where 'a = nat, of w] by (simp add: u64_of_le_def u64_le_def le_dec_enc)

lemma u32_of_be_u32_be [simp]: "u32_of_be (u32_be w) = w"
  using unsigned_less [where 'a = nat, of w] by (simp add: u32_of_be_def u32_be_def le_dec_enc)

lemma u64_of_be_u64_be [simp]: "u64_of_be (u64_be w) = w"
  using unsigned_less [where 'a = nat, of w] by (simp add: u64_of_be_def u64_be_def le_dec_enc)

lemma u16_le_of_le: "length bs = 2 \<Longrightarrow> u16_le (u16_of_le bs) = bs"
  using le_dec_bound [of bs] le_enc_dec [of bs]
  by (simp add: u16_of_le_def u16_le_def unat_of_nat)

lemma u32_le_of_le: "length bs = 4 \<Longrightarrow> u32_le (u32_of_le bs) = bs"
  using le_dec_bound [of bs] le_enc_dec [of bs]
  by (simp add: u32_of_le_def u32_le_def unat_of_nat)

lemma u64_le_of_le: "length bs = 8 \<Longrightarrow> u64_le (u64_of_le bs) = bs"
  using le_dec_bound [of bs] le_enc_dec [of bs]
  by (simp add: u64_of_le_def u64_le_def unat_of_nat)

lemma u64_be_of_be: "length bs = 8 \<Longrightarrow> u64_be (u64_of_be bs) = bs"
  using le_dec_bound [of "rev bs"] le_enc_dec [of "rev bs"]
  by (simp add: u64_of_be_def u64_be_def unat_of_nat)

lemma u32_be_of_be: "length bs = 4 \<Longrightarrow> u32_be (u32_of_be bs) = bs"
  using le_dec_bound [of "rev bs"] le_enc_dec [of "rev bs"]
  by (simp add: u32_of_be_def u32_be_def unat_of_nat)

lemma u32_le_inj [simp]: "u32_le a = u32_le b \<longleftrightarrow> a = b"
  by (metis u32_of_le_u32_le)

lemma u32_be_inj [simp]: "u32_be a = u32_be b \<longleftrightarrow> a = b"
  by (metis u32_of_be_u32_be)

lemma u64_be_inj [simp]: "u64_be a = u64_be b \<longleftrightarrow> a = b"
  by (metis u64_of_be_u64_be)

lemma unat_len32 [simp]: "length xs < 2 ^ 32 \<Longrightarrow> unat (len32 xs) = length xs"
  by (simp add: len32_def unat_of_nat)

subsection \<open>Slices\<close>

text \<open>
  \<open>slice a b xs\<close> is Rust's \<open>xs[a..b]\<close>. Rust panics where \<open>b\<close> exceeds the length or
  \<open>a\<close> exceeds \<open>b\<close>; every use in the modelled code stands under a length check that
  excludes it, and the model keeps those checks.
\<close>

definition slice :: "nat \<Rightarrow> nat \<Rightarrow> 'a list \<Rightarrow> 'a list" where
  "slice a b xs = take (b - a) (drop a xs)"

lemma length_slice [simp]: "length (slice a b xs) = min (b - a) (length xs - a)"
  by (simp add: slice_def)

lemma slice_append_left: "b \<le> length xs \<Longrightarrow> slice a b (xs @ ys) = slice a b xs"
  by (simp add: slice_def)

lemma slice_append_right:
  "length xs \<le> a \<Longrightarrow> slice a b (xs @ ys) = slice (a - length xs) (b - length xs) ys"
  by (simp add: slice_def)

lemma slice_mid:
  "length pre = a \<Longrightarrow> length mid = b - a \<Longrightarrow> slice a b (pre @ mid @ post) = mid"
  by (auto simp: slice_def)

lemma slice_end: "length pre = a \<Longrightarrow> length mid = b - a \<Longrightarrow> slice a b (pre @ mid) = mid"
  by (auto simp: slice_def)

lemma slice_0_append: "length pre = b \<Longrightarrow> slice 0 b (pre @ post) = pre"
  by (auto simp: slice_def)

lemma slice_single: "i < length xs \<Longrightarrow> slice i (i + 1) xs = [xs ! i]"
  by (simp add: slice_def flip: Cons_nth_drop_Suc)

lemma slice_split: "a \<le> b \<Longrightarrow> b \<le> c \<Longrightarrow> slice a b xs @ slice b c xs = slice a c xs"
proof -
  assume "a \<le> b" "b \<le> c"
  then have "c - a = (b - a) + (c - b)" and "drop b xs = drop (b - a) (drop a xs)" by auto
  then show ?thesis by (simp only: slice_def take_add)
qed

subsection \<open>Results\<close>

text \<open>
  Rust's \<open>Result<T, E>\<close> is \<open>'e + 'a\<close>: \<open>Inl\<close> is \<open>Err\<close> and \<open>Inr\<close> is \<open>Ok\<close>.
  \<open>rbind\<close> is the \<open>?\<close> operator: stop at the first error.
\<close>

fun rbind :: "'e + 'a \<Rightarrow> ('a \<Rightarrow> 'e + 'b) \<Rightarrow> 'e + 'b" where
  "rbind (Inl e) f = Inl e"
| "rbind (Inr a) f = f a"

lemma rbind_eq_Inr: "rbind m f = Inr b \<longleftrightarrow> (\<exists>a. m = Inr a \<and> f a = Inr b)"
  by (cases m) auto

lemma rbind_cong [fundef_cong]:
  "m = m' \<Longrightarrow> (\<And>a. m' = Inr a \<Longrightarrow> f a = f' a) \<Longrightarrow> rbind m f = rbind m' f'"
  by (cases m') auto

text \<open>A loop that stops at the first error, with its results in order.\<close>

fun rmap :: "('a \<Rightarrow> 'e + 'b) \<Rightarrow> 'a list \<Rightarrow> 'e + 'b list" where
  "rmap f [] = Inr []"
| "rmap f (x # xs) = rbind (f x) (\<lambda>y. rbind (rmap f xs) (\<lambda>ys. Inr (y # ys)))"

lemma rmap_Inr_each: "rmap f xs = Inr ys \<Longrightarrow> x \<in> set xs \<Longrightarrow> \<exists>y. f x = Inr y"
  by (induction xs arbitrary: ys) (auto simp: rbind_eq_Inr)

lemma rmap_all_Inr: "(\<And>x. x \<in> set xs \<Longrightarrow> f x = Inr (g x)) \<Longrightarrow> rmap f xs = Inr (map g xs)"
  by (induction xs) auto

lemma option_eq_by_Some: "(\<And>v. a = Some v \<longleftrightarrow> b = Some v) \<Longrightarrow> a = b"
  by (cases a; cases b) auto

subsection \<open>The order on byte strings\<close>

text \<open>
  Rust compares \<open>Vec<u8>\<close> and \<open>[u8]\<close> lexicographically, a proper prefix being smaller.
\<close>

lemma bytes_less_append: "ys \<noteq> [] \<Longrightarrow> (xs :: 'a :: order list) < xs @ ys"
  by (induction xs) (auto simp: neq_Nil_conv)

lemma bytes_le_append: "(xs :: 'a :: linorder list) \<le> xs @ ys"
  by (cases "ys = []") (auto intro: less_imp_le bytes_less_append)

lemma append_less_same [simp]: "(xs :: 'a :: linorder list) @ ys < xs @ zs \<longleftrightarrow> ys < zs"
  by (induction xs) auto

lemma append_le_same [simp]: "(xs :: 'a :: linorder list) @ ys \<le> xs @ zs \<longleftrightarrow> ys \<le> zs"
  by (induction xs) auto

lemma prefix_le: "prefix xs ys \<Longrightarrow> (xs :: 'a :: linorder list) \<le> ys"
  by (auto simp: prefix_def bytes_le_append)

text \<open>
  Two byte strings of equal length that differ keep their order under any suffixes.
\<close>

lemma less_append_eq_length:
  "length xs = length ys \<Longrightarrow> (xs :: 'a :: linorder list) < ys \<Longrightarrow> xs @ us < ys @ vs"
  by (induction xs ys rule: list_induct2) auto

lemma le_snoc_zero_next:
  fixes f :: bytes
  shows "k < f @ [0] \<longleftrightarrow> k \<le> f"
proof (induction f arbitrary: k)
  case Nil
  show ?case
  proof (cases k)
    case (Cons a k')
    have "\<not> a < 0" by simp
    then show ?thesis using Cons by auto
  qed simp
next
  case (Cons b f)
  show ?case
  proof (cases k)
    case (Cons a k')
    then show ?thesis using Cons.IH by simp
  qed simp
qed

end
