(* ===== verification/Engine_Error.thy ===== *)
theory Engine_Error
  imports Prelude
begin

text \<open>
  The error type of the storage engine (\<open>EngineError\<close> of
  \<open>crates/basemyai-engine/src/error.rs\<close>). The Rust enum has one \<open>Corrupt...\<close> variant and
  one \<open>Unsupported...Version\<close> variant per persisted artifact and one \<open>...KeyTooLong\<close>
  variant per reserved keyspace; here the artifact and the keyspace are arguments:
  \<open>Corrupt SstHeader\<close> is \<open>CorruptSstHeader\<close>, \<open>UnsupportedVersion SstHeader e f\<close> is
  \<open>UnsupportedSstHeaderVersion\<close> with its \<open>expected\<close> and \<open>found\<close>, and
  \<open>KeyTooLong GraphKey n\<close> is \<open>GraphKeyTooLong\<close> with its \<open>len\<close>. The variant
  \<open>UnsupportedFormatVersion\<close>, which the WAL, its envelope and \<open>crypto.meta\<close> share, stays
  one variant. The two purely diagnostic payloads, the path of the file and the formatted
  \<open>reason\<close> text, are left out: nothing in the engine branches on them.
\<close>

datatype artifact =
    Wal | VectorNode | VectorIndexMeta | GraphEntity | GraphEdge
  | MemoryRecord | MemoryVecMap | MemoryIndexMeta
  | FtsPosting | FtsDocTerms | FtsStats
  | CryptoMeta | SstHeader | SstDataBlock | SstBlockIndex | SstBloomFilter | SstFooter
  | StoreMeta | EncryptedSstBlock

datatype keyspace = GraphKey | MemoryKey | FtsKey | TemporalKey

datatype engine_error =
    Io
  | Corrupt artifact
  | UnsupportedVersion artifact (uv_expected: u16) (uv_found: u16)
  | UnsupportedFormatVersion (ufv_expected: u16) (ufv_found: u16)
  | UnsupportedStoreFormat (usf_expected: u16) (usf_found: u16)
  | WalBatchTooLarge (wbtl_len: nat) (wbtl_max: nat)
  | VectorDimensionMismatch (vdm_expected: nat) (vdm_found: nat)
  | DuplicateVectorId u64
  | DuplicateMemoryId (dmi_agent: bytes) (dmi_id: bytes)
  | KeyTooLong keyspace nat
  | MissingEncryptionKey
  | WrongEncryptionKey
  | PlaintextStoreKeySupplied
  | NotEncrypted
  | CryptoFailure
  | UnsupportedMatchExpr bytes

type_synonym 'a engine_result = "engine_error + 'a"

end
