(* ===== verification/Checksum.thy ===== *)
theory Checksum
  imports Prelude
begin

text \<open>
  The CRC-32 of \<open>crates/basemyai-engine/src/format/checksum.rs\<close>: the table (\<open>table\<close>),
  the table-driven routine (\<open>crc32\<close>), a bit-by-bit reference the table is an
  optimisation of, and the error-detection facts every decoder of the engine rests on:
  the update step is injective in the running checksum and in the byte, so changing one
  byte of a checksummed span always changes its checksum.
\<close>

subsection \<open>The routine\<close>

definition POLY :: u32 where
  "POLY = 0xEDB88320"

definition crc_bit :: "u32 \<Rightarrow> u32" where
  "crc_bit c = (if c AND 1 \<noteq> 0 then POLY XOR drop_bit 1 c else drop_bit 1 c)"

definition crc_table :: "u32 list" where
  "crc_table = map (\<lambda>i. (crc_bit ^^ 8) (word_of_nat i)) [0..<256]"

definition crc_step :: "u32 \<Rightarrow> u8 \<Rightarrow> u32" where
  "crc_step crc byte =
     (let idx = unat ((crc XOR ucast byte) AND 0xFF)
      in (crc_table ! idx) XOR drop_bit 8 crc)"

definition crc32 :: "bytes \<Rightarrow> u32" where
  "crc32 bs = NOT (foldl crc_step 0xFFFFFFFF bs)"

subsection \<open>The bit-by-bit reference\<close>

definition crc_step_bitwise :: "u32 \<Rightarrow> u8 \<Rightarrow> u32" where
  "crc_step_bitwise crc byte = (crc_bit ^^ 8) (crc XOR ucast byte)"

definition crc32_bitwise :: "bytes \<Rightarrow> u32" where
  "crc32_bitwise bs = NOT (foldl crc_step_bitwise 0xFFFFFFFF bs)"


text \<open>One bit step is linear over exclusive or, and injective: the polynomial has its top bit
  set, so the top bit of the result tells which branch was taken.\<close>

lemma and_one_bit: "(c :: u32) AND 1 \<noteq> 0 \<longleftrightarrow> bit c 0"
  by (simp add: and_one_eq bit_0 odd_iff_mod_2_eq_one)

lemma crc_bit_alt: "crc_bit c = (if bit c 0 then POLY XOR drop_bit 1 c else drop_bit 1 c)"
  by (simp only: crc_bit_def and_one_bit)

lemma crc_bit_xor: "crc_bit (a XOR b) = crc_bit a XOR crc_bit b"
  by (cases "bit a 0"; cases "bit b 0") (simp_all add: crc_bit_alt bit_xor_iff ac_simps)

lemma crc_bit_0 [simp]: "crc_bit 0 = 0"
  by (simp add: crc_bit_def)

lemma crc_bit_eq_0: "crc_bit c = 0 \<Longrightarrow> c = 0"
proof -
  assume z: "crc_bit c = 0"
  have top: "\<not> bit (drop_bit 1 c) 31"
    by (simp add: bit_drop_bit_eq) (use bit_imp_le_length [of c 32] in auto)
  have poly: "bit POLY 31"
    by (simp add: POLY_def bit_numeral_rec(1))
  show "c = 0"
  proof (cases "bit c 0")
    case True
    with z have "bit (POLY XOR drop_bit 1 c) 31 = bit (0 :: u32) 31"
      by (simp add: crc_bit_def and_one_bit)
    with top poly show ?thesis by (simp add: bit_xor_iff)
  next
    case False
    with z have d: "drop_bit 1 c = 0" by (simp add: crc_bit_def and_one_bit)
    have "bit c n = bit (0 :: u32) n" for n
    proof (cases n)
      case (Suc m)
      have "bit (drop_bit 1 c) m = bit (0 :: u32) m" using d by simp
      then show ?thesis using Suc by (simp add: bit_drop_bit_eq)
    qed (use False in simp)
    then show ?thesis by (rule bit_eqI)
  qed
qed

lemma crc_bits_xor: "(crc_bit ^^ n) (a XOR b) = (crc_bit ^^ n) a XOR (crc_bit ^^ n) b"
  by (induction n) (simp_all add: crc_bit_xor)

lemma crc_bits_inj: "(crc_bit ^^ n) a = (crc_bit ^^ n) b \<Longrightarrow> a = b"
proof -
  have nz: "(crc_bit ^^ n) c = 0 \<Longrightarrow> c = 0" for c
    by (induction n) (auto dest: crc_bit_eq_0)
  assume "(crc_bit ^^ n) a = (crc_bit ^^ n) b"
  then have "(crc_bit ^^ n) (a XOR b) = 0" by (simp add: crc_bits_xor)
  then have "a XOR b = 0" by (rule nz)
  then have "a XOR (a XOR b) = a" by simp
  then show "a = b" by (simp flip: xor.assoc)
qed

lemma crc_bits_drop: "(\<And>m. m < n \<Longrightarrow> \<not> bit c m) \<Longrightarrow> (crc_bit ^^ n) c = drop_bit n c"
proof (induction n)
  case (Suc n)
  then have "(crc_bit ^^ n) c = drop_bit n c" by simp
  moreover have "\<not> bit (drop_bit n c) 0" using Suc.prems [of n] by (simp add: bit_drop_bit_eq)
  ultimately show ?case
    by (simp add: crc_bit_alt [of "drop_bit n c"])
qed simp

lemma low_high_split: "(x :: u32) = (x AND 0xFF) XOR push_bit 8 (drop_bit 8 x)"
proof -
  have "x AND 0xFF = take_bit 8 x"
    by (simp add: take_bit_eq_mask mask_eq_exp_minus_1)
  then show ?thesis
    by (auto intro!: bit_word_eqI
        simp: bit_xor_iff bit_take_bit_iff bit_push_bit_iff bit_drop_bit_eq)
qed

lemma drop_8_ucast_u8: "drop_bit 8 (ucast (b :: u8) :: u32) = 0"
proof (rule bit_eqI)
  fix n
  show "bit (drop_bit 8 (ucast b :: u32)) n = bit (0 :: u32) n"
    using bit_imp_le_length [of b "8 + n"] by (auto simp: bit_drop_bit_eq bit_ucast_iff)
qed

lemma and_255_unat: "unat ((x :: u32) AND 0xFF) < 256"
proof -
  have "unat (x AND 0xFF) \<le> unat (0xFF :: u32)"
    by (rule word_and_le1 [THEN word_le_nat_alt [THEN iffD1]])
  then show ?thesis by simp
qed

lemma ucast_u8_u32_inj: "(ucast (b :: u8) :: u32) = ucast b' \<Longrightarrow> b = b'"
proof -
  assume "(ucast b :: u32) = ucast b'"
  then have eq: "bit (ucast b :: u32) n = bit (ucast b' :: u32) n" for n by simp
  show ?thesis
  proof (rule bit_word_eqI)
    fix n assume "n < LENGTH(8)"
    then show "bit b n = bit b' n" using eq [of n] by (simp add: bit_ucast_iff)
  qed
qed

lemma xor_right_cancel: "(a :: u32) XOR c = b XOR c \<Longrightarrow> a = b"
proof -
  assume "a XOR c = b XOR c"
  then have "(a XOR c) XOR c = (b XOR c) XOR c" by simp
  then show "a = b" by (simp only: xor.assoc xor_self_eq xor.right_neutral)
qed

lemma crc_table_nth: "i < 256 \<Longrightarrow> crc_table ! i = (crc_bit ^^ 8) (word_of_nat i)"
  by (simp add: crc_table_def)

lemma crc_step_eq_bitwise: "crc_step crc b = crc_step_bitwise crc b"
proof -
  define x where "x = crc XOR ucast b"
  have high: "(crc_bit ^^ 8) (push_bit 8 (drop_bit 8 x)) = drop_bit 8 x"
  proof -
    have "(crc_bit ^^ 8) (push_bit 8 (drop_bit 8 x)) = drop_bit 8 (push_bit 8 (drop_bit 8 x))"
      by (rule crc_bits_drop) (simp add: bit_push_bit_iff)
    also have "\<dots> = drop_bit 8 x"
    proof (rule bit_eqI)
      fix n
      show "bit (drop_bit 8 (push_bit 8 (drop_bit 8 x))) n = bit (drop_bit 8 x) n"
        using bit_imp_le_length [of x "8 + n"]
        by (auto simp: bit_drop_bit_eq bit_push_bit_iff)
    qed
    finally show ?thesis .
  qed
  have "(crc_bit ^^ 8) x = (crc_bit ^^ 8) (x AND 0xFF) XOR drop_bit 8 x"
    by (metis low_high_split crc_bits_xor high)
  moreover have "drop_bit 8 x = drop_bit 8 crc"
    by (simp add: x_def drop_bit_xor drop_8_ucast_u8)
  ultimately show ?thesis
    by (simp add: crc_step_def crc_step_bitwise_def Let_def crc_table_nth [OF and_255_unat]
        flip: x_def)
qed

lemma crc_table_driven: "crc32 bs = crc32_bitwise bs"
  by (simp add: crc32_def crc32_bitwise_def crc_step_eq_bitwise [abs_def])

subsection \<open>Error detection\<close>

lemma crc_step_inj_state: "crc_step s b = crc_step s' b \<Longrightarrow> s = s'"
proof -
  assume "crc_step s b = crc_step s' b"
  then have "s XOR ucast b = s' XOR ucast b"
    unfolding crc_step_eq_bitwise crc_step_bitwise_def by (rule crc_bits_inj)
  then show ?thesis by (rule xor_right_cancel)
qed

lemma crc_step_inj_byte: "crc_step s b = crc_step s b' \<Longrightarrow> b = b'"
proof -
  assume "crc_step s b = crc_step s b'"
  then have "s XOR ucast b = s XOR ucast b'"
    unfolding crc_step_eq_bitwise crc_step_bitwise_def by (rule crc_bits_inj)
  then have "(ucast b :: u32) = ucast b'" using xor_right_cancel [of "ucast b" s "ucast b'"]
    by (simp add: xor.commute)
  then show ?thesis by (rule ucast_u8_u32_inj)
qed

lemma foldl_crc_inj: "foldl crc_step s bs = foldl crc_step s' bs \<Longrightarrow> s = s'"
  by (induction bs arbitrary: s s') (auto dest: crc_step_inj_state)

text \<open>Replacing one byte by another always changes the checksum.\<close>

lemma crc32_detects_byte:
  assumes "b \<noteq> b'" shows "crc32 (xs @ b # ys) \<noteq> crc32 (xs @ b' # ys)"
proof
  assume "crc32 (xs @ b # ys) = crc32 (xs @ b' # ys)"
  then have "foldl crc_step (foldl crc_step 0xFFFFFFFF xs) (b # ys)
           = foldl crc_step (foldl crc_step 0xFFFFFFFF xs) (b' # ys)"
    by (simp add: crc32_def)
  then show False using assms by (auto dest!: foldl_crc_inj crc_step_inj_byte)
qed

lemma crc32_detects_update:
  assumes "i < length bs" "bs ! i \<noteq> b"
  shows "crc32 (bs[i := b]) \<noteq> crc32 bs"
  using crc32_detects_byte [OF assms(2) [symmetric], of "take i bs" "drop (Suc i) bs"] assms(1)
  by (simp add: upd_conv_take_nth_drop id_take_nth_drop [symmetric])

lemma crc_step_bitwise_unfold:
  "crc_step_bitwise c b =
     crc_bit (crc_bit (crc_bit (crc_bit (crc_bit (crc_bit (crc_bit (crc_bit (c XOR ucast b))))))))"
  by (simp add: crc_step_bitwise_def numeral_eq_Suc)

lemma crc_bit_even: "c AND 1 = 0 \<Longrightarrow> crc_bit c = drop_bit 1 c"
  and crc_bit_odd: "c AND 1 \<noteq> 0 \<Longrightarrow> crc_bit c = POLY XOR drop_bit 1 c"
  by (simp_all add: crc_bit_def)

lemma crc32_test_vector:
  "crc32 [0x31, 0x32, 0x33, 0x34, 0x35, 0x36, 0x37, 0x38, 0x39] = 0xCBF43926"
proof -
  have s1: "crc_step_bitwise 0xFFFFFFFF 0x31 = 0x7C231048"
    by (simp add: crc_step_bitwise_unfold) (simp add: crc_bit_even crc_bit_odd POLY_def)
  have s2: "crc_step_bitwise 0x7C231048 0x32 = 0xB0ACBB32"
    by (simp add: crc_step_bitwise_unfold) (simp add: crc_bit_even crc_bit_odd POLY_def)
  have s3: "crc_step_bitwise 0xB0ACBB32 0x33 = 0x77B79C2D"
    by (simp add: crc_step_bitwise_unfold) (simp add: crc_bit_even crc_bit_odd POLY_def)
  have s4: "crc_step_bitwise 0x77B79C2D 0x34 = 0x641C1F5C"
    by (simp add: crc_step_bitwise_unfold) (simp add: crc_bit_even crc_bit_odd POLY_def)
  have s5: "crc_step_bitwise 0x641C1F5C 0x35 = 0x340AC5E3"
    by (simp add: crc_step_bitwise_unfold) (simp add: crc_bit_even crc_bit_odd POLY_def)
  have s6: "crc_step_bitwise 0x340AC5E3 0x36 = 0xF68D2C9E"
    by (simp add: crc_step_bitwise_unfold) (simp add: crc_bit_even crc_bit_odd POLY_def)
  have s7: "crc_step_bitwise 0xF68D2C9E 0x37 = 0xAFFC9660"
    by (simp add: crc_step_bitwise_unfold) (simp add: crc_bit_even crc_bit_odd POLY_def)
  have s8: "crc_step_bitwise 0xAFFC9660 0x38 = 0x651F2550"
    by (simp add: crc_step_bitwise_unfold) (simp add: crc_bit_even crc_bit_odd POLY_def)
  have s9: "crc_step_bitwise 0x651F2550 0x39 = 0x340BC6D9"
    by (simp add: crc_step_bitwise_unfold) (simp add: crc_bit_even crc_bit_odd POLY_def)
  show ?thesis
    unfolding crc_table_driven crc32_bitwise_def foldl.simps s1 s2 s3 s4 s5 s6 s7 s8 s9 by simp
qed

subsection \<open>Properties\<close>

text \<open>
  C32. The table-driven \<open>crc32\<close> computes the bit-by-bit CRC-32 division by the reflected
  polynomial, on every input.
\<close>

theorem crc32_is_bitwise: "crc32 bs = crc32_bitwise bs"
  by (rule crc_table_driven)

end
