(* ===== verification/Codec.thy ===== *)
theory Codec
  imports Engine_Error Checksum
begin

text \<open>
  The two interfaces every on-disk layout of the engine implements. A \<^emph>\<open>codec\<close> encodes a
  whole buffer and decodes it back. A \<^emph>\<open>checked\<close> codec also accepts only buffers that end
  in the CRC-32 of what precedes it (followed by a fixed trailer, which only the SST footer
  has), so it refuses any single-byte change. A \<^emph>\<open>framed\<close> codec reads one self-delimited
  frame off the front of a log: a complete frame is decoded with its length, and a proper
  prefix of one is reported as torn, never as an error.
\<close>

locale codec =
  fixes enc :: "'a \<Rightarrow> bytes" and dec :: "bytes \<Rightarrow> 'e + 'a" and wf :: "'a \<Rightarrow> bool"
  assumes dec_enc: "wf x \<Longrightarrow> dec (enc x) = Inr x"
begin

lemma enc_inject: "wf x \<Longrightarrow> wf y \<Longrightarrow> enc x = enc y \<Longrightarrow> x = y"
  by (metis dec_enc sum.inject(2))

end

locale canonical_codec = codec +
  assumes dec_canonical: "dec bs = Inr x \<Longrightarrow> wf x \<and> enc x = bs"
begin

lemma dec_iff: "dec bs = Inr x \<longleftrightarrow> wf x \<and> enc x = bs"
  using dec_enc dec_canonical by auto

lemma dec_injective: "dec bs = Inr x \<Longrightarrow> dec bs' = Inr x \<Longrightarrow> bs = bs'"
  by (auto simp: dec_iff)

end

locale checked_codec = codec +
  fixes trailer :: bytes
  assumes dec_checked: "dec bs = Inr x \<Longrightarrow> \<exists>body. bs = body @ u32_le (crc32 body) @ trailer"
begin

lemma single_byte_change_detected:
  assumes ok: "dec bs = Inr x" and i: "i < length bs" and b: "b \<noteq> bs ! i"
  shows "\<exists>e. dec (bs[i := b]) = Inl e"
proof (rule ccontr)
  assume "\<nexists>e. dec (bs[i := b]) = Inl e"
  then obtain y where "dec (bs[i := b]) = Inr y" by (metis sum.exhaust)
  then obtain body' where bs': "bs[i := b] = body' @ u32_le (crc32 body') @ trailer"
    using dec_checked by blast
  obtain body where bs: "bs = body @ u32_le (crc32 body) @ trailer"
    using dec_checked ok by blast
  have "length (bs[i := b]) = length bs" by simp
  then have len: "length body' = length body" using bs bs' by (metis add_right_cancel length_append length_u32_le)
  consider "i < length body" | "length body \<le> i" "i < length body + 4" | "length body + 4 \<le> i"
    by linarith
  then show False
  proof cases
    case 1
    then have "bs[i := b] = body[i := b] @ u32_le (crc32 body) @ trailer"
      by (simp add: bs list_update_append)
    then have "body' = body[i := b]" "crc32 body' = crc32 body"
      using bs' len by auto
    then show False using crc32_detects_update [OF 1, of b] b bs 1 by (auto simp: nth_append)
  next
    case 2
    then have j: "i - length body < 4" "\<not> i < length body" by arith+
    then have "bs[i := b] = body @ (u32_le (crc32 body))[i - length body := b] @ trailer"
      by (simp add: bs list_update_append)
    then have "(u32_le (crc32 body))[i - length body := b] = u32_le (crc32 body)"
      using bs' len by auto
    then have "u32_le (crc32 body) ! (i - length body) = b"
      using j by (metis length_u32_le nth_list_update_eq)
    then show False using b j bs by (auto simp: nth_append)
  next
    case 3
    then have j: "\<not> i - length body < 4" "\<not> i < length body" by arith+
    then have "bs[i := b] = body @ u32_le (crc32 body) @ trailer[i - length body - 4 := b]"
      by (simp add: bs list_update_append)
    then have "trailer[i - length body - 4 := b] = trailer"
      using bs' len by auto
    moreover have "i - length body - 4 < length trailer" using 3 i bs by auto
    ultimately have "trailer ! (i - length body - 4) = b"
      by (metis nth_list_update_eq)
    then show False using b j bs by (auto simp: nth_append)
  qed
qed

end

text \<open>
  A log of frames: what is read back of a frame is a view of what was written (an encrypted
  frame is written with a nonce that the reader does not return).
\<close>

locale framed_log =
  fixes frame :: "'r \<Rightarrow> bytes" and unframe :: "bytes \<Rightarrow> 'e + ('q \<times> nat) option"
    and view :: "'r \<Rightarrow> 'q" and wf :: "'r \<Rightarrow> bool"
  assumes frame_nonempty: "wf r \<Longrightarrow> frame r \<noteq> []"
    and unframe_frame: "wf r \<Longrightarrow> unframe (frame r @ rest) = Inr (Some (view r, length (frame r)))"
    and unframe_torn: "wf r \<Longrightarrow> strict_prefix bs (frame r) \<Longrightarrow> unframe bs = Inr None"
begin

lemma frame_prefix_view:
  assumes "wf r" "wf s" "prefix (frame r) (frame s)" shows "view r = view s"
proof -
  obtain t where "frame s = frame r @ t" using assms(3) by (auto simp: prefix_def)
  then show ?thesis
    using unframe_frame [OF assms(1), of t] unframe_frame [OF assms(2), of "[]"] by simp
qed

lemma next_frame:
  assumes "wf r" "buf = concat (map frame pre) @ frame r @ rest" "off = length (concat (map frame pre))"
  shows "unframe (drop off buf) = Inr (Some (view r, length (frame r)))"
  using assms by (simp add: unframe_frame)

text \<open>Two readings of one log that both start on frames agree as far as the shorter goes.\<close>

lemma log_prefix_unique:
  assumes "\<forall>r \<in> set rs. wf r" "\<forall>s \<in> set ss. wf s"
    and "concat (map frame rs) @ tl1 = concat (map frame ss)" "\<forall>r \<in> set rs. frame r \<noteq> []"
  shows "map view rs = map view (take (length rs) ss)"
  using assms
proof (induction rs arbitrary: ss)
  case (Cons r rs)
  then obtain s ss' where ss: "ss = s # ss'" by (cases ss) auto
  have "unframe (concat (map frame ss)) = Inr (Some (view r, length (frame r)))"
    using Cons.prems unframe_frame [of r "concat (map frame rs) @ tl1"] by (simp flip: Cons.prems(3))
  moreover have "unframe (concat (map frame ss)) = Inr (Some (view s, length (frame s)))"
    using Cons.prems unframe_frame [of s] by (simp add: ss)
  ultimately have "view r = view s" "length (frame r) = length (frame s)" by simp_all
  moreover have "concat (map frame rs) @ tl1 = concat (map frame ss')"
    using Cons.prems(3) calculation(2) by (simp add: ss)
  ultimately show ?case using Cons.IH [of ss'] Cons.prems ss by simp
qed simp

end

locale framed_codec =
  fixes frame :: "'r \<Rightarrow> bytes" and unframe :: "bytes \<Rightarrow> 'e + ('r \<times> nat) option"
    and wf :: "'r \<Rightarrow> bool"
  assumes frame_nonempty: "wf r \<Longrightarrow> frame r \<noteq> []"
    and unframe_frame: "wf r \<Longrightarrow> unframe (frame r @ rest) = Inr (Some (r, length (frame r)))"
    and unframe_torn: "wf r \<Longrightarrow> strict_prefix bs (frame r) \<Longrightarrow> unframe bs = Inr None"

sublocale framed_codec \<subseteq> log: framed_log frame unframe "\<lambda>r. r" wf
  by unfold_locales (fact frame_nonempty unframe_frame unframe_torn)+

context framed_codec begin

lemma frame_prefix_free: "wf r \<Longrightarrow> wf s \<Longrightarrow> prefix (frame r) (frame s) \<Longrightarrow> r = s"
  by (rule log.frame_prefix_view)

end

end
