(* ===== verification/Wal_Format.thy ===== *)
theory Wal_Format
  imports Codec
begin

text \<open>
  The record layout of the write-ahead log (\<open>crates/basemyai-engine/src/format/wal.rs\<close>):
  \<open>WalOp\<close>, \<open>WalRecord\<close> and \<open>BatchOp\<close>, \<open>encode\<close> and \<open>decode\<close> of one record, and
  \<open>encode_batch\<close> and \<open>decode_batch\<close> of the nested payload of a batch record.
\<close>

subsection \<open>Layout\<close>

definition WAL_MAGIC :: u32 where "WAL_MAGIC = 0x42415345"
definition WAL_RECORD_VERSION :: u16 where "WAL_RECORD_VERSION = 2"
definition HEADER_LEN :: nat where "HEADER_LEN = 4 + 2 + 1 + 4 + 4"
definition CRC_LEN :: nat where "CRC_LEN = 4"
definition MAX_BATCH_OPS :: nat where "MAX_BATCH_OPS = 10000"

datatype wal_op = Put | Delete | Batch

fun wal_op_tag :: "wal_op \<Rightarrow> u8" where
  "wal_op_tag Put = 1"
| "wal_op_tag Delete = 2"
| "wal_op_tag Batch = 3"

definition wal_op_from_tag :: "u8 \<Rightarrow> wal_op option" where
  "wal_op_from_tag tag =
     (if tag = 1 then Some Put else if tag = 2 then Some Delete
      else if tag = 3 then Some Batch else None)"

record wal_record =
  r_op :: wal_op
  r_key :: bytes
  r_value :: "bytes option"

record batch_op =
  b_op :: wal_op
  b_key :: bytes
  b_value :: "bytes option"

definition val_bytes :: "bytes option \<Rightarrow> bytes" where
  "val_bytes v = (case v of None \<Rightarrow> [] | Some bs \<Rightarrow> bs)"

subsection \<open>Batches\<close>

definition encode_batch_op :: "batch_op \<Rightarrow> bytes" where
  "encode_batch_op entry =
     wal_op_tag (b_op entry) # u32_le (len32 (b_key entry))
       @ u32_le (len32 (val_bytes (b_value entry))) @ b_key entry @ val_bytes (b_value entry)"

definition encode_batch :: "batch_op list \<Rightarrow> bytes" where
  "encode_batch ops = u32_le (len32 ops) @ concat (map encode_batch_op ops)"

fun decode_batch_loop :: "nat \<Rightarrow> bytes \<Rightarrow> nat \<Rightarrow> (batch_op list \<times> nat) engine_result" where
  "decode_batch_loop 0 buf offset = Inr ([], offset)"
| "decode_batch_loop (Suc n) buf offset =
     (if length buf < offset + 9 then Inl (Corrupt Wal)
      else case wal_op_from_tag (buf ! offset) of
        None \<Rightarrow> Inl (Corrupt Wal)
      | Some op \<Rightarrow>
          if op = Batch then Inl (Corrupt Wal)
          else
            let key_len = unat (u32_of_le (slice (offset + 1) (offset + 5) buf));
                val_len = unat (u32_of_le (slice (offset + 5) (offset + 9) buf));
                off1 = offset + 9
            in if length buf < off1 + key_len + val_len then Inl (Corrupt Wal)
               else if op = Delete \<and> val_len \<noteq> 0 then Inl (Corrupt Wal)
               else
                 let key = slice off1 (off1 + key_len) buf;
                     off2 = off1 + key_len;
                     val = (if op = Delete then None else Some (slice off2 (off2 + val_len) buf));
                     off3 = off2 + val_len
                 in rbind (decode_batch_loop n buf off3)
                      (\<lambda>(ops, end). Inr (\<lparr>b_op = op, b_key = key, b_value = val\<rparr> # ops, end)))"

definition decode_batch :: "bytes \<Rightarrow> batch_op list engine_result" where
  "decode_batch buf =
     (if length buf < 4 then Inl (Corrupt Wal)
      else
        let count = unat (u32_of_le (slice 0 4 buf))
        in if count > MAX_BATCH_OPS then Inl (Corrupt Wal)
           else rbind (decode_batch_loop count buf 4)
                  (\<lambda>(ops, offset). if offset \<noteq> length buf then Inl (Corrupt Wal) else Inr ops))"

subsection \<open>Records\<close>

definition encode_body :: "wal_op \<Rightarrow> bytes \<Rightarrow> bytes option \<Rightarrow> bytes" where
  "encode_body op key value =
     u32_le WAL_MAGIC @ u16_le WAL_RECORD_VERSION @ [wal_op_tag op] @ u32_le (len32 key)
       @ u32_le (len32 (val_bytes value)) @ key @ val_bytes value"

definition encode :: "wal_op \<Rightarrow> bytes \<Rightarrow> bytes option \<Rightarrow> bytes" where
  "encode op key value =
     (let buf = encode_body op key value in buf @ u32_le (crc32 buf))"

definition decode :: "bytes \<Rightarrow> (wal_record \<times> nat) option engine_result" where
  "decode buf =
     (if length buf < HEADER_LEN then Inr None
      else if u32_of_le (slice 0 4 buf) \<noteq> WAL_MAGIC then Inl (Corrupt Wal)
      else
        let version = u16_of_le (slice 4 6 buf)
        in if version \<noteq> WAL_RECORD_VERSION
           then Inl (UnsupportedFormatVersion WAL_RECORD_VERSION version)
           else case wal_op_from_tag (buf ! 6) of
             None \<Rightarrow> Inl (Corrupt Wal)
           | Some op \<Rightarrow>
               let key_len = unat (u32_of_le (slice 7 11 buf));
                   val_len = unat (u32_of_le (slice 11 15 buf));
                   total = HEADER_LEN + key_len + val_len + CRC_LEN
               in if length buf < total then Inr None
                  else if op = Delete \<and> val_len \<noteq> 0 then Inl (Corrupt Wal)
                  else if op = Batch \<and> key_len \<noteq> 0 then Inl (Corrupt Wal)
                  else
                    let body_end = HEADER_LEN + key_len + val_len;
                        expected_crc = u32_of_le (slice body_end (body_end + CRC_LEN) buf);
                        actual_crc = crc32 (slice 0 body_end buf)
                    in if actual_crc \<noteq> expected_crc then Inl (Corrupt Wal)
                       else
                         let key = slice HEADER_LEN (HEADER_LEN + key_len) buf;
                             value = (if op = Delete then None
                                      else Some (slice (HEADER_LEN + key_len) body_end buf))
                         in Inr (Some (\<lparr>r_op = op, r_key = key, r_value = value\<rparr>, total)))"

subsection \<open>What the writer produces\<close>

text \<open>
  Keys and values whose lengths fit the 32-bit fields; a delete carries no value, a batch no
  key, and a put or a batch carries one.
\<close>

definition fits32 :: "bytes \<Rightarrow> bool" where
  "fits32 bs \<longleftrightarrow> length bs < 2 ^ 32"

definition record_ok :: "wal_record \<Rightarrow> bool" where
  "record_ok r \<longleftrightarrow> fits32 (r_key r) \<and> fits32 (val_bytes (r_value r))
     \<and> (r_op r = Delete \<longleftrightarrow> r_value r = None) \<and> (r_op r = Batch \<longrightarrow> r_key r = [])"

definition batch_op_ok :: "batch_op \<Rightarrow> bool" where
  "batch_op_ok e \<longleftrightarrow> fits32 (b_key e) \<and> fits32 (val_bytes (b_value e))
     \<and> b_op e \<noteq> Batch \<and> (b_op e = Delete \<longleftrightarrow> b_value e = None)"

definition batch_ok :: "batch_op list \<Rightarrow> bool" where
  "batch_ok ops \<longleftrightarrow> length ops \<le> MAX_BATCH_OPS \<and> (\<forall>e \<in> set ops. batch_op_ok e)"

definition encode_record :: "wal_record \<Rightarrow> bytes" where
  "encode_record r = encode (r_op r) (r_key r) (r_value r)"

subsection \<open>Record round trip\<close>

lemma wal_op_from_tag_tag [simp]: "wal_op_from_tag (wal_op_tag op) = Some op"
  by (cases op) (simp_all add: wal_op_from_tag_def)

lemma wal_op_from_tag_SomeD: "wal_op_from_tag t = Some op \<Longrightarrow> t = wal_op_tag op"
  by (auto simp: wal_op_from_tag_def split: if_splits)

lemma length_encode_body:
  "length (encode_body op key value) = HEADER_LEN + length key + length (val_bytes value)"
  by (simp add: encode_body_def HEADER_LEN_def)

lemma length_encode:
  "length (encode op key value)
     = HEADER_LEN + length key + length (val_bytes value) + CRC_LEN"
  by (simp add: encode_def Let_def length_encode_body CRC_LEN_def)

lemma decode_header_fields:
  assumes "buf = encode_body op key value @ rest" "HEADER_LEN \<le> n"
  shows "u32_of_le (slice 0 4 (take n buf)) = WAL_MAGIC"
    and "u16_of_le (slice 4 6 (take n buf)) = WAL_RECORD_VERSION"
    and "take n buf ! 6 = wal_op_tag op"
    and "slice 7 11 (take n buf) = u32_le (len32 key)"
    and "slice 11 15 (take n buf) = u32_le (len32 (val_bytes value))"
  using assms by (simp_all add: slice_def encode_body_def HEADER_LEN_def drop_take min_def nth_append)

lemma decode_encode_append:
  assumes "record_ok r"
  shows "decode (encode_record r @ rest) = Inr (Some (r, length (encode_record r)))"
proof -
  define B where "B = encode_body (r_op r) (r_key r) (r_value r)"
  define buf where "buf = encode_record r @ rest"
  have buf: "buf = B @ u32_le (crc32 B) @ rest"
    by (simp add: buf_def B_def encode_record_def encode_def Let_def)
  have lenB: "length B = HEADER_LEN + length (r_key r) + length (val_bytes (r_value r))"
    by (simp add: B_def length_encode_body)
  note hdr = decode_header_fields [OF buf [unfolded B_def], of "length buf", simplified]
  have H: "HEADER_LEN \<le> length buf" by (simp add: buf lenB)
  have kl: "unat (len32 (r_key r)) = length (r_key r)"
    and vl: "unat (len32 (val_bytes (r_value r))) = length (val_bytes (r_value r))"
    using assms by (simp_all add: record_ok_def fits32_def)
  obtain hd where H0: "B = hd @ r_key r @ val_bytes (r_value r)" "length hd = HEADER_LEN"
    by (simp add: B_def encode_body_def HEADER_LEN_def)
  have key: "slice HEADER_LEN (HEADER_LEN + length (r_key r)) buf = r_key r"
    using H0 by (simp add: buf slice_mid)
  have val: "slice (HEADER_LEN + length (r_key r)) (length B) buf = val_bytes (r_value r)"
    using H0 slice_mid [of "hd @ r_key r" "HEADER_LEN + length (r_key r)"
        "val_bytes (r_value r)" "length B" "u32_le (crc32 B) @ rest"]
    by (simp add: buf lenB)
  have crc: "slice (length B) (length B + CRC_LEN) buf = u32_le (crc32 B)"
    by (simp add: buf slice_mid CRC_LEN_def)
  have body: "slice 0 (length B) buf = B"
    by (simp add: buf slice_0_append)
  have tot: "length (encode_record r) = length B + CRC_LEN"
    by (simp add: encode_record_def length_encode lenB)
  have L: "\<not> length buf < HEADER_LEN"
    "\<not> length buf < length B + CRC_LEN"
    by (simp_all add: buf lenB CRC_LEN_def)
  have ok: "(r_op r = Delete \<and> length (val_bytes (r_value r)) \<noteq> 0) = False"
    "(r_op r = Batch \<and> length (r_key r) \<noteq> 0) = False"
    using assms by (auto simp: record_ok_def val_bytes_def)
  have rec: "\<lparr>r_op = r_op r, r_key = r_key r,
      r_value = if r_op r = Delete then None
                else Some (slice (HEADER_LEN + length (r_key r)) (length B) buf)\<rparr> = r"
    unfolding val using assms by (auto simp: record_ok_def val_bytes_def)
  have "decode buf = Inr (Some (r, length B + CRC_LEN))"
    using H by (simp only: decode_def hdr kl vl Let_def L ok if_False not_True_eq_False
        wal_op_from_tag_tag option.case u32_of_le_u32_le simp_thms flip: lenB)
      (simp add: key crc body rec split del: if_split)
  then show ?thesis by (simp add: buf_def tot)
qed

lemma decode_torn:
  assumes "record_ok r" "strict_prefix bs (encode_record r)"
  shows "decode bs = Inr None"
proof (cases "length bs < HEADER_LEN")
  case True
  then show ?thesis by (simp add: decode_def)
next
  case False
  define B where "B = encode_body (r_op r) (r_key r) (r_value r)"
  obtain t where t: "encode_record r = bs @ t" using assms(2)
    by (auto simp: strict_prefix_def prefix_def)
  have tk: "bs = take (length bs) (encode_record r)" by (simp add: t)
  have enc: "encode_record r = B @ u32_le (crc32 B)"
    by (simp add: B_def encode_record_def encode_def Let_def)
  note hdr = decode_header_fields [OF enc [unfolded B_def], of "length bs", folded tk]
  have kl: "unat (len32 (r_key r)) = length (r_key r)"
    and vl: "unat (len32 (val_bytes (r_value r))) = length (val_bytes (r_value r))"
    using assms by (simp_all add: record_ok_def fits32_def)
  have "length bs < length (encode_record r)"
    using assms(2) by (rule prefix_length_less)
  then have short: "length bs < HEADER_LEN + length (r_key r) + length (val_bytes (r_value r)) + CRC_LEN"
    by (simp add: encode_record_def length_encode)
  show ?thesis using False short
    by (simp add: decode_def hdr kl vl Let_def)
qed

interpretation wal_rec: framed_codec encode_record decode record_ok
proof
  show "record_ok r \<Longrightarrow> encode_record r \<noteq> []" for r
    using length_encode [of "r_op r" "r_key r" "r_value r"]
    by (auto simp: encode_record_def CRC_LEN_def)
qed (simp_all add: decode_encode_append decode_torn)

subsection \<open>Batch round trip\<close>

lemma length_encode_batch_op:
  "length (encode_batch_op e) = 9 + length (b_key e) + length (val_bytes (b_value e))"
  by (simp add: encode_batch_op_def)

lemma decode_batch_loop_encode:
  assumes "\<forall>e \<in> set ops. batch_op_ok e"
  shows "decode_batch_loop (length ops) (pre @ concat (map encode_batch_op ops) @ post) (length pre)
           = Inr (ops, length pre + length (concat (map encode_batch_op ops)))"
  using assms
proof (induction ops arbitrary: pre)
  case (Cons e ops)
  define buf where "buf = pre @ concat (map encode_batch_op (e # ops)) @ post"
  define o1 where "o1 = length pre + 9"
  define o2 where "o2 = o1 + length (b_key e)"
  define o3 where "o3 = o2 + length (val_bytes (b_value e))"
  from Cons.prems have e: "batch_op_ok e" by simp
  have kl: "unat (len32 (b_key e)) = length (b_key e)"
    and vl: "unat (len32 (val_bytes (b_value e))) = length (val_bytes (b_value e))"
    using e by (simp_all add: batch_op_ok_def fits32_def)
  obtain rest where buf': "buf = (pre @ [wal_op_tag (b_op e)]) @ u32_le (len32 (b_key e))
      @ u32_le (len32 (val_bytes (b_value e))) @ b_key e @ val_bytes (b_value e) @ rest"
    by (simp add: buf_def encode_batch_op_def)
  have tag: "buf ! length pre = wal_op_tag (b_op e)" by (simp add: buf')
  have K: "slice (length pre + 1) (length pre + 5) buf = u32_le (len32 (b_key e))"
    unfolding buf' by (rule slice_mid) simp_all
  have V: "slice (length pre + 5) o1 buf = u32_le (len32 (val_bytes (b_value e)))"
    unfolding buf' by (simp add: slice_def o1_def)
  have key: "slice o1 o2 buf = b_key e"
    unfolding buf' by (simp add: slice_def o1_def o2_def)
  have val: "slice o2 o3 buf = val_bytes (b_value e)"
    using slice_mid [of "pre @ [wal_op_tag (b_op e)] @ u32_le (len32 (b_key e))
        @ u32_le (len32 (val_bytes (b_value e))) @ b_key e" o2 "val_bytes (b_value e)" o3 rest]
    by (simp add: buf' o1_def o2_def o3_def)
  have len: "\<not> length buf < o1" "\<not> length buf < o3"
    by (simp_all add: buf' o1_def o2_def o3_def)
  have rec: "\<lparr>b_op = b_op e, b_key = b_key e,
      b_value = if b_op e = Delete then None else Some (slice o2 o3 buf)\<rparr> = e"
    unfolding val using e by (auto simp: batch_op_ok_def val_bytes_def)
  have ok: "(b_op e = Batch) = False"
    "(b_op e = Delete \<and> length (val_bytes (b_value e)) \<noteq> 0) = False"
    using e by (auto simp: batch_op_ok_def val_bytes_def)
  have "length (pre @ encode_batch_op e) = o3"
    by (simp add: length_encode_batch_op o1_def o2_def o3_def)
  moreover have "buf = (pre @ encode_batch_op e) @ concat (map encode_batch_op ops) @ post"
    by (simp add: buf_def)
  ultimately have IH: "decode_batch_loop (length ops) buf o3
      = Inr (ops, o3 + length (concat (map encode_batch_op ops)))"
    using Cons.IH [of "pre @ encode_batch_op e"] Cons.prems by simp
  have "decode_batch_loop (length (e # ops)) buf (length pre)
      = Inr (e # ops, o3 + length (concat (map encode_batch_op ops)))"
    by (simp only: list.size(4) add_0_right add_Suc_right plus_1_eq_Suc add_Suc decode_batch_loop.simps
        len if_False tag wal_op_from_tag_tag option.case ok K V u32_of_le_u32_le kl vl Let_def
        o1_def [symmetric] o2_def [symmetric] o3_def [symmetric] IH rbind.simps prod.case key rec)
  then show ?case
    by (simp add: buf_def o1_def o2_def o3_def length_encode_batch_op)
qed simp

lemma decode_batch_encode: "batch_ok ops \<Longrightarrow> decode_batch (encode_batch ops) = Inr ops"
  using decode_batch_loop_encode [of ops "u32_le (len32 ops)" "[]"]
  by (simp add: batch_ok_def decode_batch_def encode_batch_def MAX_BATCH_OPS_def slice_0_append)

text \<open>Whatever the decoder accepts is the encoding of what it returns.\<close>

lemma u32_of_le_bound: "length bs = 4 \<Longrightarrow> unat (u32_of_le bs) < 2 ^ 32"
  using unsigned_less [where 'a = nat, of "u32_of_le bs"] by simp

lemma word_of_nat_unat_len: "length xs = unat w \<Longrightarrow> len32 xs = w"
  by (simp add: len32_def)

lemma decode_batch_loop_canonical:
  assumes "decode_batch_loop n buf off = Inr (ops, end)" "off \<le> length buf"
  shows "length ops = n \<and> off \<le> end \<and> end \<le> length buf \<and> (\<forall>e \<in> set ops. batch_op_ok e)
    \<and> slice off end buf = concat (map encode_batch_op ops)"
  using assms
proof (induction n arbitrary: off ops)
  case 0
  then show ?case by (simp add: slice_def)
next
  case (Suc n)
  define kw where "kw = u32_of_le (slice (off + 1) (off + 5) buf)"
  define vw where "vw = u32_of_le (slice (off + 5) (off + 9) buf)"
  define k where "k = unat kw" define v where "v = unat vw"
  define o1 where "o1 = off + 9"
  define o2 where "o2 = o1 + k"
  define o3 where "o3 = o2 + v"
  from Suc.prems(1) obtain op ops' where
      len: "off + 9 \<le> length buf" "o3 \<le> length buf"
    and op: "wal_op_from_tag (buf ! off) = Some op" "op \<noteq> Batch" "op = Delete \<Longrightarrow> v = 0"
    and loop: "decode_batch_loop n buf o3 = Inr (ops', end)"
    and ops: "ops = \<lparr>b_op = op, b_key = slice o1 o2 buf,
        b_value = if op = Delete then None else Some (slice o2 o3 buf)\<rparr> # ops'"
    by (auto simp: Let_def rbind_eq_Inr kw_def vw_def k_def v_def o1_def o2_def o3_def
        split: if_splits option.splits)
  have IH: "length ops' = n" "o3 \<le> end" "end \<le> length buf" "\<forall>e \<in> set ops'. batch_op_ok e"
    "slice o3 end buf = concat (map encode_batch_op ops')"
    using Suc.IH [OF loop len(2)] by simp_all
  have off: "off + 1 \<le> o1" "o1 \<le> o2" "o2 \<le> o3" by (simp_all add: o1_def o2_def o3_def)
  have lk: "length (slice o1 o2 buf) = k" and lv: "length (slice o2 o3 buf) = v"
    using len by (simp_all add: o1_def o2_def o3_def)
  have kb: "k < 2 ^ 32" "v < 2 ^ 32"
    using unsigned_less [where 'a = nat, of kw] unsigned_less [where 'a = nat, of vw]
    by (simp_all add: k_def v_def)
  have K: "u32_le (len32 (slice o1 o2 buf)) = slice (off + 1) (off + 5) buf"
    using len lk by (simp add: word_of_nat_unat_len k_def kw_def u32_le_of_le)
  have V: "u32_le (len32 (slice o2 o3 buf)) = slice (off + 5) (off + 9) buf"
    using len lv by (simp add: word_of_nat_unat_len v_def vw_def u32_le_of_le)
  have T: "[wal_op_tag op] = slice off (off + 1) buf"
  proof -
    have "off < length buf" using len by simp
    then have "slice off (off + 1) buf = [buf ! off]" by (rule slice_single)
    then show ?thesis by (simp only: wal_op_from_tag_SomeD [OF op(1)])
  qed
  have val: "val_bytes (if op = Delete then None else Some (slice o2 o3 buf)) = slice o2 o3 buf"
    using op(3) by (auto simp: val_bytes_def o3_def slice_def)
  have "encode_batch_op (hd ops) = slice off (off + 1) buf @ slice (off + 1) (off + 5) buf
      @ slice (off + 5) (off + 9) buf @ slice o1 o2 buf @ slice o2 o3 buf"
    by (simp add: ops encode_batch_op_def val K V T [symmetric, simplified])
  also have "\<dots> = slice off o3 buf"
    using off by (simp add: slice_split o1_def)
  finally have enc: "encode_batch_op (hd ops) = slice off o3 buf" .
  have ok: "batch_op_ok (hd ops)"
    using op kb lk lv by (auto simp: ops batch_op_ok_def fits32_def val)
  show ?case
    using IH enc ok off by (simp add: ops slice_split flip: IH(5))
qed

lemma decode_batch_canonical:
  assumes "decode_batch buf = Inr ops"
  shows "batch_ok ops \<and> encode_batch ops = buf"
proof -
  define c where "c = u32_of_le (slice 0 4 buf)"
  from assms have len: "4 \<le> length buf" and max: "unat c \<le> MAX_BATCH_OPS"
    and loop: "decode_batch_loop (unat c) buf 4 = Inr (ops, length buf)"
    by (auto simp: decode_batch_def Let_def rbind_eq_Inr c_def split: if_splits)
  note L = decode_batch_loop_canonical [OF loop len]
  have "u32_le (len32 ops) = slice 0 4 buf"
    using L len by (simp add: word_of_nat_unat_len c_def u32_le_of_le)
  then have "encode_batch ops = slice 0 4 buf @ slice 4 (length buf) buf"
    using L by (simp add: encode_batch_def)
  also have "\<dots> = buf" using len by (simp add: slice_split) (simp add: slice_def)
  finally show ?thesis using L max by (simp add: batch_ok_def)
qed

interpretation wal_batch: canonical_codec encode_batch decode_batch batch_ok
  by unfold_locales (simp_all add: decode_batch_encode decode_batch_canonical)

subsection \<open>What a successful record decode means\<close>

lemma decode_canonical:
  assumes "decode buf = Inr (Some (r, n))"
  shows "record_ok r \<and> n \<le> length buf \<and> take n buf = encode_record r"
proof -
  define kw where "kw = u32_of_le (slice 7 11 buf)"
  define vw where "vw = u32_of_le (slice 11 15 buf)"
  define k where "k = unat kw" define v where "v = unat vw"
  define o1 where "o1 = 15 + k"
  define o2 where "o2 = o1 + v"
  from assms obtain op where
      magic: "u32_of_le (slice 0 4 buf) = WAL_MAGIC"
    and version: "u16_of_le (slice 4 6 buf) = WAL_RECORD_VERSION"
    and op: "wal_op_from_tag (buf ! 6) = Some op" "op = Delete \<Longrightarrow> v = 0" "op = Batch \<Longrightarrow> k = 0"
    and len: "o2 + 4 \<le> length buf"
    and crc: "crc32 (slice 0 o2 buf) = u32_of_le (slice o2 (o2 + 4) buf)"
    and r: "r = \<lparr>r_op = op, r_key = slice 15 o1 buf,
        r_value = if op = Delete then None else Some (slice o1 o2 buf)\<rparr>"
    and n: "n = o2 + 4"
    by (auto simp: decode_def Let_def HEADER_LEN_def CRC_LEN_def kw_def vw_def k_def v_def o1_def o2_def
        split: if_splits option.splits)
  have lk: "length (slice 15 o1 buf) = k" and lv: "length (slice o1 o2 buf) = v"
    using len by (simp_all add: o1_def o2_def)
  have kb: "k < 2 ^ 32" "v < 2 ^ 32"
    using unsigned_less [where 'a = nat, of kw] unsigned_less [where 'a = nat, of vw]
    by (simp_all add: k_def v_def)
  have off: "15 \<le> o1" "o1 \<le> o2" by (simp_all add: o1_def o2_def)
  have M: "u32_le WAL_MAGIC = slice 0 4 buf" "u16_le WAL_RECORD_VERSION = slice 4 6 buf"
    using len off by (simp_all flip: magic version add: u32_le_of_le u16_le_of_le)
  have T: "[wal_op_tag op] = slice 6 7 buf"
    using slice_single [of 6 buf] wal_op_from_tag_SomeD [OF op(1)] len off by simp
  have T: "wal_op_tag op # xs = slice 6 7 buf @ xs" for xs by (simp flip: T)
  have K: "u32_le (len32 (slice 15 o1 buf)) = slice 7 11 buf"
    using len lk off by (simp add: word_of_nat_unat_len k_def kw_def u32_le_of_le)
  have V: "u32_le (len32 (slice o1 o2 buf)) = slice 11 15 buf"
    using len lv off by (simp add: word_of_nat_unat_len v_def vw_def u32_le_of_le)
  have val: "val_bytes (r_value r) = slice o1 o2 buf"
    using op(2) by (auto simp: r val_bytes_def o2_def slice_def)
  have "encode_body (r_op r) (r_key r) (r_value r) = slice 0 o2 buf"
    using off by (simp add: encode_body_def val) (simp add: r K V M T slice_split)
  moreover have "u32_le (crc32 (slice 0 o2 buf)) = slice o2 (o2 + 4) buf"
    using len by (simp add: crc u32_le_of_le)
  ultimately have "encode_record r = slice 0 n buf"
    by (simp add: encode_record_def encode_def Let_def n slice_split)
  then have "take n buf = encode_record r" by (simp add: slice_def)
  moreover have "op = Batch \<Longrightarrow> slice 15 o1 buf = []"
    using op(3) lk by (metis length_0_conv)
  then have "record_ok r"
    using op kb lk lv val by (auto simp: r record_ok_def fits32_def)
  ultimately show ?thesis using len n by simp
qed

subsection \<open>Properties\<close>

text \<open>
  Decoding finds an encoded record at the front of a log whatever follows it: the record
  itself and its length are returned, so the reader resumes exactly at the next record.
\<close>

theorem wal_record_roundtrip:
  assumes "record_ok r"
  shows "decode (encode_record r @ rest) = Inr (Some (r, length (encode_record r)))"
  using assms by (rule decode_encode_append)

theorem wal_record_roundtrip_witness:
  "decode (encode_record \<lparr>r_op = Put, r_key = [1, 2], r_value = Some [3]\<rparr> @ [7, 7])
     = Inr (Some (\<lparr>r_op = Put, r_key = [1, 2], r_value = Some [3]\<rparr>, 22))"
  using wal_record_roundtrip [of "\<lparr>r_op = Put, r_key = [1, 2], r_value = Some [3]\<rparr>" "[7, 7]"]
  by (simp add: record_ok_def fits32_def val_bytes_def length_encode encode_record_def
      HEADER_LEN_def CRC_LEN_def)

text \<open>
  The batch decoder accepts exactly the encodings of well-formed batches: no nested
  batch, no delete with a payload, no trailing byte, at most \<open>MAX_BATCH_OPS\<close> operations.
\<close>

theorem wal_batch_decode_iff: "decode_batch buf = Inr ops \<longleftrightarrow> batch_ok ops \<and> encode_batch ops = buf"
  by (rule wal_batch.dec_iff)

text \<open>
  A record that decodes was written by the encoder: the consumed bytes are the encoding
  of the returned record, which satisfies the writer's conditions.
\<close>

theorem wal_decode_sound:
  assumes "decode buf = Inr (Some (r, n))"
  shows "record_ok r \<and> n \<le> length buf \<and> take n buf = encode_record r"
  using assms by (rule decode_canonical)

theorem wal_decode_sound_witness:
  "take 19 (encode_record \<lparr>r_op = Delete, r_key = [], r_value = None\<rparr>)
     = encode_record \<lparr>r_op = Delete, r_key = [], r_value = None\<rparr>"
proof -
  have "decode (encode_record \<lparr>r_op = Delete, r_key = [], r_value = None\<rparr>)
      = Inr (Some (\<lparr>r_op = Delete, r_key = [], r_value = None\<rparr>, 19))"
    using decode_encode_append [of "\<lparr>r_op = Delete, r_key = [], r_value = None\<rparr>" "[]"]
    by (simp add: record_ok_def fits32_def val_bytes_def length_encode encode_record_def
        HEADER_LEN_def CRC_LEN_def)
  from wal_decode_sound [OF this] show ?thesis by simp
qed

end
