(* ===== verification/Crypto_Format.thy ===== *)
theory Crypto_Format
  imports Codec
begin

text \<open>
  The three layouts of encryption at rest (\<open>crates/basemyai-engine/src/format/crypto.rs\<close>):
  the key-wrap file \<open>crypto.meta\<close>, the WAL envelope and the envelope of one SST section.
  Bytes in, bytes out; the cipher itself is in theory \<open>Crypto\<close>.
\<close>

definition CRYPTO_META_MAGIC :: u32 where "CRYPTO_META_MAGIC = 0x424B4559"
definition CRYPTO_META_VERSION :: u16 where "CRYPTO_META_VERSION = 1"
definition WAL_ENVELOPE_MAGIC :: u32 where "WAL_ENVELOPE_MAGIC = 0x42574C45"
definition WAL_ENVELOPE_VERSION :: u16 where "WAL_ENVELOPE_VERSION = 1"
definition ENCRYPTED_SST_BLOCK_MAGIC :: u32 where "ENCRYPTED_SST_BLOCK_MAGIC = 0x42534245"
definition ENCRYPTED_SST_BLOCK_VERSION :: u16 where "ENCRYPTED_SST_BLOCK_VERSION = 1"
definition SALT_LEN :: nat where "SALT_LEN = 16"
definition NONCE_LEN :: nat where "NONCE_LEN = 24"
definition AEAD_TAG_LEN :: nat where "AEAD_TAG_LEN = 16"
definition CRYPTO_META_HEADER_LEN :: nat where
  "CRYPTO_META_HEADER_LEN = 4 + 2 + SALT_LEN + NONCE_LEN + 4"
definition CRYPTO_CRC_LEN :: nat where "CRYPTO_CRC_LEN = 4"
definition WAL_ENVELOPE_HEADER_LEN :: nat where "WAL_ENVELOPE_HEADER_LEN = 4 + 2 + NONCE_LEN + 4"
definition ENCRYPTED_SST_BLOCK_HEADER_LEN :: nat where
  "ENCRYPTED_SST_BLOCK_HEADER_LEN = 4 + 2 + NONCE_LEN + 4"

lemmas crypto_len_defs = SALT_LEN_def NONCE_LEN_def AEAD_TAG_LEN_def CRYPTO_META_HEADER_LEN_def
  CRYPTO_CRC_LEN_def WAL_ENVELOPE_HEADER_LEN_def ENCRYPTED_SST_BLOCK_HEADER_LEN_def

subsection \<open>crypto.meta\<close>

record crypto_meta =
  cm_salt :: bytes
  cm_wrap_nonce :: bytes
  cm_wrapped_dek :: bytes

definition wrap_aad :: "crypto_meta \<Rightarrow> bytes" where
  "wrap_aad meta = u32_le CRYPTO_META_MAGIC @ u16_le CRYPTO_META_VERSION @ cm_salt meta"

definition encode_crypto_meta :: "crypto_meta \<Rightarrow> bytes" where
  "encode_crypto_meta meta =
     (let buf = u32_le CRYPTO_META_MAGIC @ u16_le CRYPTO_META_VERSION @ cm_salt meta
            @ cm_wrap_nonce meta @ u32_le (len32 (cm_wrapped_dek meta)) @ cm_wrapped_dek meta
      in buf @ u32_le (crc32 buf))"

definition decode_crypto_meta :: "bytes \<Rightarrow> crypto_meta engine_result" where
  "decode_crypto_meta buf =
     (if length buf < CRYPTO_META_HEADER_LEN + CRYPTO_CRC_LEN then Inl (Corrupt CryptoMeta)
      else
        let crc_at = length buf - CRYPTO_CRC_LEN;
            expected_crc = u32_of_le (drop crc_at buf);
            actual_crc = crc32 (take crc_at buf)
        in if actual_crc \<noteq> expected_crc then Inl (Corrupt CryptoMeta)
           else if u32_of_le (slice 0 4 buf) \<noteq> CRYPTO_META_MAGIC then Inl (Corrupt CryptoMeta)
           else
             let version = u16_of_le (slice 4 6 buf)
             in if version \<noteq> CRYPTO_META_VERSION
                then Inl (UnsupportedFormatVersion CRYPTO_META_VERSION version)
                else
                  let pos0 = 6;
                      salt_wire = slice pos0 (pos0 + SALT_LEN) buf;
                      pos1 = pos0 + SALT_LEN;
                      wrap_nonce_wire = slice pos1 (pos1 + NONCE_LEN) buf;
                      pos2 = pos1 + NONCE_LEN;
                      wrapped_len = unat (u32_of_le (slice pos2 (pos2 + 4) buf));
                      pos3 = pos2 + 4
                  in if wrapped_len \<noteq> crc_at - pos3 then Inl (Corrupt CryptoMeta)
                     else Inr \<lparr>cm_salt = salt_wire, cm_wrap_nonce = wrap_nonce_wire,
                               cm_wrapped_dek = slice pos3 crc_at buf\<rparr>)"

definition crypto_meta_ok :: "crypto_meta \<Rightarrow> bool" where
  "crypto_meta_ok m \<longleftrightarrow> length (cm_salt m) = SALT_LEN \<and> length (cm_wrap_nonce m) = NONCE_LEN
     \<and> length (cm_wrapped_dek m) < 2 ^ 32"

lemma decode_encode_crypto_meta:
  assumes "crypto_meta_ok m"
  shows "decode_crypto_meta (encode_crypto_meta m) = Inr m"
proof -
  define hd where "hd = u32_le CRYPTO_META_MAGIC @ u16_le CRYPTO_META_VERSION @ cm_salt m
            @ cm_wrap_nonce m @ u32_le (len32 (cm_wrapped_dek m))"
  define body where "body = hd @ cm_wrapped_dek m"
  define buf where "buf = body @ u32_le (crc32 body)"
  have enc: "encode_crypto_meta m = buf"
    by (simp add: encode_crypto_meta_def hd_def body_def buf_def Let_def)
  have lens: "length (cm_salt m) = 16" "length (cm_wrap_nonce m) = 24"
    using assms by (simp_all add: crypto_meta_ok_def crypto_len_defs)
  have hd: "length hd = 50" by (simp add: hd_def lens)
  have rd: "slice 0 4 buf = u32_le CRYPTO_META_MAGIC" "slice 4 6 buf = u16_le CRYPTO_META_VERSION"
    "slice 6 22 buf = cm_salt m" "slice 22 46 buf = cm_wrap_nonce m"
    "slice 46 50 buf = u32_le (len32 (cm_wrapped_dek m))"
    by (simp_all add: buf_def body_def hd_def slice_def lens)
  have "slice 50 (50 + length (cm_wrapped_dek m)) buf = cm_wrapped_dek m"
    using hd by (simp add: buf_def body_def slice_mid)
  moreover have "take (50 + length (cm_wrapped_dek m)) buf = body"
    "drop (50 + length (cm_wrapped_dek m)) buf = u32_le (crc32 body)"
    "length buf = 54 + length (cm_wrapped_dek m)"
    using hd by (simp_all add: buf_def body_def)
  ultimately show ?thesis
    using assms by (simp add: enc decode_crypto_meta_def Let_def crypto_len_defs rd crypto_meta_ok_def)
qed

lemma decode_crypto_meta_checked:
  assumes "decode_crypto_meta bs = Inr h"
  shows "\<exists>body. bs = body @ u32_le (crc32 body) @ []"
proof -
  define n where "n = length bs - CRYPTO_CRC_LEN"
  have n: "length bs = n + 4" "crc32 (take n bs) = u32_of_le (drop n bs)"
    using assms by (auto simp: decode_crypto_meta_def Let_def n_def CRYPTO_CRC_LEN_def split: if_splits)
  then have "drop n bs = u32_le (crc32 (take n bs))" by (simp add: u32_le_of_le)
  then show ?thesis by (metis append_Nil2 append_take_drop_id)
qed

interpretation crypto_meta: checked_codec encode_crypto_meta decode_crypto_meta crypto_meta_ok "[]"
  by unfold_locales (erule decode_crypto_meta_checked | simp add: decode_encode_crypto_meta)+

subsection \<open>The WAL envelope\<close>

definition encode_wal_envelope :: "bytes \<Rightarrow> bytes \<Rightarrow> bytes" where
  "encode_wal_envelope nonce ciphertext =
     u32_le WAL_ENVELOPE_MAGIC @ u16_le WAL_ENVELOPE_VERSION @ nonce
       @ u32_le (len32 ciphertext) @ ciphertext"

definition wal_envelope_aad :: bytes where
  "wal_envelope_aad = u32_le WAL_ENVELOPE_MAGIC @ u16_le WAL_ENVELOPE_VERSION"

definition decode_wal_envelope :: "bytes \<Rightarrow> (bytes \<times> bytes \<times> nat) option engine_result" where
  "decode_wal_envelope buf =
     (if length buf < 4 then Inr None
      else if u32_of_le (slice 0 4 buf) \<noteq> WAL_ENVELOPE_MAGIC then Inl (Corrupt Wal)
      else if length buf < WAL_ENVELOPE_HEADER_LEN then Inr None
      else
        let version = u16_of_le (slice 4 6 buf)
        in if version \<noteq> WAL_ENVELOPE_VERSION
           then Inl (UnsupportedFormatVersion WAL_ENVELOPE_VERSION version)
           else
             let pos0 = 6;
                 nonce_wire = slice pos0 (pos0 + NONCE_LEN) buf;
                 pos1 = pos0 + NONCE_LEN;
                 ct_len = unat (u32_of_le (slice pos1 (pos1 + 4) buf));
                 pos2 = pos1 + 4;
                 end = pos2 + ct_len
             in if length buf < end then Inr None
                else Inr (Some (nonce_wire, slice pos2 end buf, end)))"

definition envelope_ok :: "bytes \<Rightarrow> bytes \<Rightarrow> bool" where
  "envelope_ok nonce ct \<longleftrightarrow> length nonce = NONCE_LEN \<and> length ct < 2 ^ 32"

lemma length_encode_wal_envelope:
  "length nonce = NONCE_LEN \<Longrightarrow> length (encode_wal_envelope nonce ct) = 34 + length ct"
  by (simp add: encode_wal_envelope_def crypto_len_defs)

lemma decode_encode_wal_envelope:
  assumes "envelope_ok nonce ct"
  shows "decode_wal_envelope (encode_wal_envelope nonce ct @ rest)
           = Inr (Some (nonce, ct, length (encode_wal_envelope nonce ct)))"
proof -
  define buf where "buf = encode_wal_envelope nonce ct @ rest"
  have ln: "length nonce = 24" and lc: "unat (len32 ct) = length ct"
    using assms by (simp_all add: envelope_ok_def crypto_len_defs)
  have rd: "slice 0 4 buf = u32_le WAL_ENVELOPE_MAGIC" "slice 4 6 buf = u16_le WAL_ENVELOPE_VERSION"
    "slice 6 30 buf = nonce" "slice 30 34 buf = u32_le (len32 ct)"
    "slice 34 (34 + length ct) buf = ct"
    by (simp_all add: buf_def encode_wal_envelope_def slice_def ln)
  have "34 + length ct \<le> length buf" "length (encode_wal_envelope nonce ct) = 34 + length ct"
    by (simp_all add: buf_def encode_wal_envelope_def ln)
  then have "decode_wal_envelope buf = Inr (Some (nonce, ct, length (encode_wal_envelope nonce ct)))"
    by (simp add: decode_wal_envelope_def Let_def crypto_len_defs rd lc)
  then show ?thesis by (simp add: buf_def)
qed

lemma decode_wal_envelope_torn:
  assumes "envelope_ok nonce ct" "strict_prefix bs (encode_wal_envelope nonce ct)"
  shows "decode_wal_envelope bs = Inr None"
proof -
  obtain t where t: "encode_wal_envelope nonce ct = bs @ t" "t \<noteq> []"
    using assms(2) by (auto simp: strict_prefix_def prefix_def)
  have ln: "length nonce = 24" and lc: "unat (len32 ct) = length ct"
    using assms by (simp_all add: envelope_ok_def crypto_len_defs)
  have bs: "bs = take (length bs) (encode_wal_envelope nonce ct)" by (simp add: t)
  have short: "length bs < 34 + length ct"
    using arg_cong [OF t(1), of length] t(2) ln by (simp add: length_encode_wal_envelope crypto_len_defs)
  have magic: "u32_of_le (slice 0 4 bs) = WAL_ENVELOPE_MAGIC" if "4 \<le> length bs"
    using that by (subst bs) (simp add: encode_wal_envelope_def slice_def min_def)
  have rd: "u16_of_le (slice 4 6 bs) = WAL_ENVELOPE_VERSION" "slice 30 34 bs = u32_le (len32 ct)"
    if "34 \<le> length bs"
    using that by (subst bs, simp add: encode_wal_envelope_def slice_def min_def drop_take ln)+
  show ?thesis
    using short magic rd by (auto simp: decode_wal_envelope_def Let_def crypto_len_defs lc)
qed

subsection \<open>The envelope of one SST section\<close>

datatype sst_section = Data | Index | Bloom | Footer

fun section_tag :: "sst_section \<Rightarrow> u8" where
  "section_tag Data = 0"
| "section_tag Index = 1"
| "section_tag Bloom = 2"
| "section_tag Footer = 3"

definition encode_encrypted_sst_block :: "bytes \<Rightarrow> bytes \<Rightarrow> bytes" where
  "encode_encrypted_sst_block nonce ciphertext =
     u32_le ENCRYPTED_SST_BLOCK_MAGIC @ u16_le ENCRYPTED_SST_BLOCK_VERSION @ nonce
       @ u32_le (len32 ciphertext) @ ciphertext"

definition encrypted_sst_block_sealed_len :: "nat \<Rightarrow> nat" where
  "encrypted_sst_block_sealed_len plain_len =
     ENCRYPTED_SST_BLOCK_HEADER_LEN + plain_len + AEAD_TAG_LEN"

definition encrypted_sst_block_aad :: "u64 \<Rightarrow> sst_section \<Rightarrow> u32 \<Rightarrow> bytes" where
  "encrypted_sst_block_aad sst_id section section_no =
     u32_le ENCRYPTED_SST_BLOCK_MAGIC @ u16_le ENCRYPTED_SST_BLOCK_VERSION @ u64_le sst_id
       @ [section_tag section] @ u32_le section_no"

definition decode_encrypted_sst_block :: "bytes \<Rightarrow> (bytes \<times> bytes) engine_result" where
  "decode_encrypted_sst_block buf =
     (if length buf < ENCRYPTED_SST_BLOCK_HEADER_LEN then Inl (Corrupt EncryptedSstBlock)
      else if u32_of_le (slice 0 4 buf) \<noteq> ENCRYPTED_SST_BLOCK_MAGIC
      then Inl (Corrupt EncryptedSstBlock)
      else
        let version = u16_of_le (slice 4 6 buf)
        in if version \<noteq> ENCRYPTED_SST_BLOCK_VERSION
           then Inl (UnsupportedVersion EncryptedSstBlock ENCRYPTED_SST_BLOCK_VERSION version)
           else
             let pos0 = 6;
                 nonce_wire = slice pos0 (pos0 + NONCE_LEN) buf;
                 pos1 = pos0 + NONCE_LEN;
                 ct_len = unat (u32_of_le (slice pos1 (pos1 + 4) buf));
                 pos2 = pos1 + 4
             in if ct_len \<noteq> length buf - pos2 then Inl (Corrupt EncryptedSstBlock)
                else Inr (nonce_wire, drop pos2 buf))"

lemma length_encode_encrypted_sst_block:
  "length nonce = NONCE_LEN \<Longrightarrow> length (encode_encrypted_sst_block nonce ct) = 34 + length ct"
  by (simp add: encode_encrypted_sst_block_def crypto_len_defs)

lemma decode_encode_encrypted_sst_block:
  assumes "envelope_ok nonce ct"
  shows "decode_encrypted_sst_block (encode_encrypted_sst_block nonce ct) = Inr (nonce, ct)"
proof -
  define buf where "buf = encode_encrypted_sst_block nonce ct"
  have ln: "length nonce = 24" and lc: "unat (len32 ct) = length ct"
    using assms by (simp_all add: envelope_ok_def crypto_len_defs)
  have "slice 0 4 buf = u32_le ENCRYPTED_SST_BLOCK_MAGIC"
    "slice 4 6 buf = u16_le ENCRYPTED_SST_BLOCK_VERSION"
    "slice 6 30 buf = nonce" "slice 30 34 buf = u32_le (len32 ct)"
    "drop 34 buf = ct" "length buf = 34 + length ct"
    by (simp_all add: buf_def encode_encrypted_sst_block_def slice_def ln)
  then have "decode_encrypted_sst_block buf = Inr (nonce, ct)"
    by (simp add: decode_encrypted_sst_block_def Let_def crypto_len_defs lc)
  then show ?thesis by (simp add: buf_def)
qed

interpretation sst_envelope: codec "\<lambda>(n, c). encode_encrypted_sst_block n c"
  decode_encrypted_sst_block "\<lambda>(n, c). envelope_ok n c"
  by unfold_locales (auto simp: decode_encode_encrypted_sst_block)

text \<open>
  The additional data of a section names its coordinates: two sections with the same
  additional data have the same table, kind and number.
\<close>

lemma section_tag_inj: "section_tag a = section_tag b \<Longrightarrow> a = b"
  by (cases a; cases b) simp_all

lemma encrypted_sst_block_aad_inj:
  "encrypted_sst_block_aad i s n = encrypted_sst_block_aad i' s' n' \<Longrightarrow> i = i' \<and> s = s' \<and> n = n'"
  by (auto simp: encrypted_sst_block_aad_def dest: section_tag_inj) (metis u64_of_le_u64_le)

end
