(* ===== verification/Crypto.thy ===== *)
theory Crypto
  imports Crypto_Format
begin

text \<open>
  Encryption at rest (\<open>crates/basemyai-engine/src/crypto.rs\<close> and \<open>crypto/material.rs\<close>):
  derivation of the key-encryption key, the envelope of the data-encryption key in
  \<open>crypto.meta\<close>, and the seal and open primitives.

  The third-party cipher (\<open>chacha20poly1305\<close>), the hash function (\<open>sha2\<close>) and the hasher of
  the standard library whose algorithm is unspecified (\<open>DefaultHasher\<close>, used by the bloom
  filter) are parameters: the fields of a record \<open>externals\<close> that every definition using
  them takes. Random values (nonces, salts, data keys) are arguments of the operations that
  draw them.
\<close>

subsection \<open>Code outside the repository\<close>

record externals =
  x_encrypt :: "bytes \<Rightarrow> bytes \<Rightarrow> bytes \<Rightarrow> bytes \<Rightarrow> bytes option"
  x_decrypt :: "bytes \<Rightarrow> bytes \<Rightarrow> bytes \<Rightarrow> bytes \<Rightarrow> bytes option"
  x_sha256 :: "bytes \<Rightarrow> bytes"
  x_hash :: "bytes \<Rightarrow> u64"

text \<open>
  \<open>x_encrypt X key nonce aad msg\<close> and \<open>x_decrypt X key nonce aad ciphertext\<close> are the cipher;
  the documented behaviour the code relies on is that a message below the cipher's limit is
  sealed into itself plus a 16-byte tag and opens again under the same key, nonce and
  additional data, and that SHA-256 has 32 bytes.
\<close>

definition KEY_LEN :: nat where "KEY_LEN = 32"

definition externals_ok :: "externals \<Rightarrow> bool" where
  "externals_ok X \<longleftrightarrow>
     (\<forall>k n a m. length k = KEY_LEN \<and> length n = NONCE_LEN \<and> length m < 2 ^ 32 \<longrightarrow>
        (\<exists>c. x_encrypt X k n a m = Some c \<and> length c = length m + AEAD_TAG_LEN
           \<and> x_decrypt X k n a c = Some m))
     \<and> (\<forall>m. length (x_sha256 X m) = KEY_LEN)"

text \<open>
  The laws of \<open>externals_ok\<close> say nothing of other keys. Where a theorem needs that a key does not open what
  another one sealed, it assumes the authenticity of the cipher for these two keys by name
  (\<open>seals_apart\<close>, and \<open>user_keys_apart\<close> below for the keys derived from two user keys).
\<close>

definition seals_apart :: "externals \<Rightarrow> bytes \<Rightarrow> bytes \<Rightarrow> bool" where
  "seals_apart X k k' \<longleftrightarrow> (\<forall>n a m c. x_encrypt X k n a m = Some c \<longrightarrow> x_decrypt X k' n a c = None)"

text \<open>
  A toy instance, used only to show that the laws can hold: the tag is the sum of all inputs.
\<close>

definition toy_tag :: "bytes \<Rightarrow> bytes \<Rightarrow> bytes \<Rightarrow> bytes \<Rightarrow> bytes" where
  "toy_tag k n a m = replicate AEAD_TAG_LEN (sum_list k + sum_list n + sum_list a + sum_list m)"

definition toy_externals :: externals where
  "toy_externals =
     \<lparr>x_encrypt = (\<lambda>k n a m. Some (m @ toy_tag k n a m)),
      x_decrypt = (\<lambda>k n a c.
        let m = take (length c - AEAD_TAG_LEN) c
        in if c = m @ toy_tag k n a m then Some m else None),
      x_sha256 = (\<lambda>m. replicate KEY_LEN (sum_list m)),
      x_hash = (\<lambda>m. foldl (\<lambda>h b. 31 * h + ucast b) 7 m)\<rparr>"

lemma toy_externals_ok [simp]: "externals_ok toy_externals"
  by (auto simp: externals_ok_def toy_externals_def toy_tag_def KEY_LEN_def)

lemma toy_seals_apart:
  assumes "sum_list k \<noteq> sum_list k'"
  shows "seals_apart toy_externals k k'"
  using assms by (auto simp: seals_apart_def toy_externals_def toy_tag_def AEAD_TAG_LEN_def)

subsection \<open>Contexts\<close>

record crypto_context =
  cc_dek :: bytes

definition context_ok :: "crypto_context \<Rightarrow> bool" where
  "context_ok c \<longleftrightarrow> length (cc_dek c) = KEY_LEN"

text \<open>The mode of a store: plaintext, or encrypted under a well-formed context.\<close>

definition mode_ok :: "externals \<Rightarrow> crypto_context option \<Rightarrow> bool" where
  "mode_ok X crypto \<longleftrightarrow> (case crypto of None \<Rightarrow> True | Some ctx \<Rightarrow> externals_ok X \<and> context_ok ctx)"

definition crypto_seal ::
  "externals \<Rightarrow> crypto_context \<Rightarrow> bytes \<Rightarrow> bytes \<Rightarrow> bytes \<Rightarrow> (bytes \<times> bytes) engine_result" where
  "crypto_seal X ctx nonce plaintext aad =
     (case x_encrypt X (cc_dek ctx) nonce aad plaintext of
        None \<Rightarrow> Inl CryptoFailure
      | Some ciphertext \<Rightarrow> Inr (nonce, ciphertext))"

definition crypto_open ::
  "externals \<Rightarrow> crypto_context \<Rightarrow> bytes \<Rightarrow> bytes \<Rightarrow> bytes \<Rightarrow> bytes option" where
  "crypto_open X ctx nonce ciphertext aad = x_decrypt X (cc_dek ctx) nonce aad ciphertext"

definition KEK_DOMAIN :: bytes where
  "KEK_DOMAIN = map (\<lambda>c. of_char c) ''basemyai-engine/kek/v1''"

definition derive_kek :: "externals \<Rightarrow> bytes \<Rightarrow> bytes \<Rightarrow> bytes" where
  "derive_kek X user_key salt = x_sha256 X (KEK_DOMAIN @ salt @ user_key)"

definition user_keys_apart :: "externals \<Rightarrow> bytes \<Rightarrow> bytes \<Rightarrow> bool" where
  "user_keys_apart X user_key user_key' \<longleftrightarrow> (\<forall>salt. seals_apart X (derive_kek X user_key salt) (derive_kek X user_key' salt))"

text \<open>
  \<open>write_meta\<close> returns the bytes that replace \<open>crypto.meta\<close> (temporary file, fsync, rename);
  \<open>salt\<close> and \<open>wrap_nonce\<close> are the values it draws.
\<close>

definition write_meta ::
  "externals \<Rightarrow> bytes \<Rightarrow> crypto_context \<Rightarrow> bytes \<Rightarrow> bytes \<Rightarrow> bytes engine_result" where
  "write_meta X user_key ctx salt wrap_nonce =
     (let kek = derive_kek X user_key salt;
          aad = wrap_aad \<lparr>cm_salt = salt, cm_wrap_nonce = wrap_nonce, cm_wrapped_dek = []\<rparr>
      in case x_encrypt X kek wrap_nonce aad (cc_dek ctx) of
           None \<Rightarrow> Inl CryptoFailure
         | Some wrapped_dek \<Rightarrow>
             Inr (encode_crypto_meta
                    \<lparr>cm_salt = salt, cm_wrap_nonce = wrap_nonce, cm_wrapped_dek = wrapped_dek\<rparr>))"

definition create_meta ::
  "externals \<Rightarrow> bytes \<Rightarrow> bytes \<Rightarrow> bytes \<Rightarrow> bytes \<Rightarrow> (crypto_context \<times> bytes) engine_result" where
  "create_meta X user_key dek salt wrap_nonce =
     (let ctx = \<lparr>cc_dek = dek\<rparr>
      in rbind (write_meta X user_key ctx salt wrap_nonce) (\<lambda>file. Inr (ctx, file)))"

definition load_meta :: "externals \<Rightarrow> bytes option \<Rightarrow> bytes \<Rightarrow> crypto_context engine_result" where
  "load_meta X file user_key =
     (case file of
        None \<Rightarrow> Inl Io
      | Some buf \<Rightarrow>
          rbind (decode_crypto_meta buf) (\<lambda>meta.
            let kek = derive_kek X user_key (cm_salt meta)
            in case x_decrypt X kek (cm_wrap_nonce meta) (wrap_aad meta) (cm_wrapped_dek meta) of
                 None \<Rightarrow> Inl WrongEncryptionKey
               | Some dek_bytes \<Rightarrow>
                   if length dek_bytes \<noteq> KEY_LEN then Inl (Corrupt CryptoMeta)
                   else Inr \<lparr>cc_dek = dek_bytes\<rparr>))"

subsection \<open>Lemmas\<close>

lemma externals_encrypt:
  assumes "externals_ok X" "length k = KEY_LEN" "length n = NONCE_LEN" "length m < 2 ^ 32"
  obtains c where "x_encrypt X k n a m = Some c" "length c = length m + AEAD_TAG_LEN"
    "x_decrypt X k n a c = Some m"
  using assms unfolding externals_ok_def by blast

lemma length_derive_kek: "externals_ok X \<Longrightarrow> length (derive_kek X key salt) = KEY_LEN"
  by (simp add: externals_ok_def derive_kek_def)

lemma crypto_seal_open:
  assumes "externals_ok X" "context_ok ctx" "length nonce = NONCE_LEN" "length m < 2 ^ 32"
  obtains c where "crypto_seal X ctx nonce m aad = Inr (nonce, c)"
    "length c = length m + AEAD_TAG_LEN" "crypto_open X ctx nonce c aad = Some m"
proof -
  obtain c where "x_encrypt X (cc_dek ctx) nonce aad m = Some c" "length c = length m + AEAD_TAG_LEN"
    "x_decrypt X (cc_dek ctx) nonce aad c = Some m"
    using externals_encrypt assms by (metis context_ok_def)
  then show ?thesis using that by (simp add: crypto_seal_def crypto_open_def)
qed

text \<open>What loading makes of a wrap written under \<open>user_key\<close>, for every key \<open>k\<close> tried.\<close>

lemma wrap_aad_salt: "cm_salt m = cm_salt m' \<Longrightarrow> wrap_aad m = wrap_aad m'"
  by (simp add: wrap_aad_def)

lemma write_meta_ok:
  assumes X: "externals_ok X" and ctx: "context_ok ctx"
    and lens: "length salt = SALT_LEN" "length nonce = NONCE_LEN"
  obtains fl w where "write_meta X user_key ctx salt nonce = Inr fl"
    and "decode_crypto_meta fl = Inr \<lparr>cm_salt = salt, cm_wrap_nonce = nonce, cm_wrapped_dek = w\<rparr>"
    and "load_meta X (Some fl) user_key = Inr ctx"
    and "length w = KEY_LEN + AEAD_TAG_LEN"
proof -
  define aad where "aad = wrap_aad \<lparr>cm_salt = salt, cm_wrap_nonce = nonce, cm_wrapped_dek = []\<rparr>"
  have "length (cc_dek ctx) < 2 ^ 32" using ctx by (simp add: context_ok_def KEY_LEN_def)
  then obtain w where w: "x_encrypt X (derive_kek X user_key salt) nonce aad (cc_dek ctx) = Some w"
      "length w = length (cc_dek ctx) + AEAD_TAG_LEN"
      "x_decrypt X (derive_kek X user_key salt) nonce aad w = Some (cc_dek ctx)"
    using externals_encrypt [OF X length_derive_kek [OF X] lens(2)] by metis
  define m where "m = \<lparr>cm_salt = salt, cm_wrap_nonce = nonce, cm_wrapped_dek = w\<rparr>"
  have lw: "length w = KEY_LEN + AEAD_TAG_LEN" using w(2) ctx by (simp add: context_ok_def)
  then have "crypto_meta_ok m"
    using lens by (simp add: crypto_meta_ok_def m_def KEY_LEN_def AEAD_TAG_LEN_def)
  then have dec: "decode_crypto_meta (encode_crypto_meta m) = Inr m"
    by (rule decode_encode_crypto_meta)
  have "wrap_aad m = aad" by (simp add: aad_def m_def wrap_aad_def)
  then have "load_meta X (Some (encode_crypto_meta m)) user_key = Inr ctx"
    using w ctx dec by (simp add: load_meta_def m_def Let_def context_ok_def)
  moreover have "write_meta X user_key ctx salt nonce = Inr (encode_crypto_meta m)"
    using w by (simp add: write_meta_def Let_def aad_def m_def)
  ultimately show ?thesis using that dec lw by (simp add: m_def)
qed

lemma load_meta_other_key:
  assumes X: "externals_ok X" and ctx: "context_ok ctx"
    and lens: "length salt = SALT_LEN" "length nonce = NONCE_LEN"
    and "write_meta X user_key ctx salt nonce = Inr fl" "user_keys_apart X user_key other_key"
  shows "load_meta X (Some fl) other_key = Inl WrongEncryptionKey"
proof -
  define aad where "aad = wrap_aad \<lparr>cm_salt = salt, cm_wrap_nonce = nonce, cm_wrapped_dek = []\<rparr>"
  have "length (cc_dek ctx) < 2 ^ 32" using ctx by (simp add: context_ok_def KEY_LEN_def)
  then obtain w where w: "x_encrypt X (derive_kek X user_key salt) nonce aad (cc_dek ctx) = Some w" "length w = length (cc_dek ctx) + AEAD_TAG_LEN"
    using externals_encrypt [OF X length_derive_kek [OF X] lens(2)] by metis
  define m where "m = \<lparr>cm_salt = salt, cm_wrap_nonce = nonce, cm_wrapped_dek = w\<rparr>"
  have fl: "fl = encode_crypto_meta m" using assms(5) w(1) by (simp add: write_meta_def Let_def aad_def m_def)
  have "crypto_meta_ok m" using lens w(2) ctx by (simp add: crypto_meta_ok_def m_def KEY_LEN_def AEAD_TAG_LEN_def context_ok_def)
  then have dec: "decode_crypto_meta fl = Inr m" unfolding fl by (rule decode_encode_crypto_meta)
  have "wrap_aad m = aad" by (simp add: aad_def m_def wrap_aad_def)
  moreover have "x_decrypt X (derive_kek X other_key salt) nonce aad w = None"
    using assms(6) w(1) by (auto simp: user_keys_apart_def seals_apart_def)
  ultimately show ?thesis using dec by (simp add: load_meta_def m_def Let_def)
qed

lemma load_meta_InrD:
  "load_meta X file key = Inr ctx \<Longrightarrow> context_ok ctx \<and> file \<noteq> None"
  by (auto simp: load_meta_def rbind_eq_Inr Let_def context_ok_def split: option.splits if_splits)

subsection \<open>Properties\<close>

text \<open>
  Writing \<open>crypto.meta\<close> succeeds, and loading it with the same user key returns the same
  data key; loading it with another key fails with \<open>WrongEncryptionKey\<close> exactly when the
  cipher rejects the wrap under that key's derived key.
\<close>

theorem crypto_meta_write_load:
  assumes "externals_ok X" "context_ok ctx" "length salt = SALT_LEN" "length nonce = NONCE_LEN"
  shows "\<exists>fl w. write_meta X user_key ctx salt nonce = Inr fl
      \<and> load_meta X (Some fl) user_key = Inr ctx
      \<and> (\<forall>k. load_meta X (Some fl) k = Inl WrongEncryptionKey \<longleftrightarrow>
            x_decrypt X (derive_kek X k salt) nonce
              (wrap_aad \<lparr>cm_salt = salt, cm_wrap_nonce = nonce, cm_wrapped_dek = w\<rparr>) w = None)"
proof -
  obtain fl w where "write_meta X user_key ctx salt nonce = Inr fl"
    "decode_crypto_meta fl = Inr \<lparr>cm_salt = salt, cm_wrap_nonce = nonce, cm_wrapped_dek = w\<rparr>"
    "load_meta X (Some fl) user_key = Inr ctx"
    using write_meta_ok [OF assms] by metis
  then show ?thesis
    by (intro exI [of _ fl] exI [of _ w]) (auto simp: load_meta_def Let_def split: option.splits)
qed

theorem crypto_meta_write_load_witness:
  "\<exists>fl. write_meta toy_externals [1, 2, 3] \<lparr>cc_dek = replicate KEY_LEN 9\<rparr>
           (replicate SALT_LEN 4) (replicate NONCE_LEN 5) = Inr fl
     \<and> load_meta toy_externals (Some fl) [1, 2, 3] = Inr \<lparr>cc_dek = replicate KEY_LEN 9\<rparr>"
  using crypto_meta_write_load [of toy_externals "\<lparr>cc_dek = replicate KEY_LEN 9\<rparr>"
      "replicate SALT_LEN 4" "replicate NONCE_LEN 5" "[1, 2, 3]"]
  by (auto simp: context_ok_def)

end
