(* ===== verification/Wal_Store.thy ===== *)
theory Wal_Store
  imports Wal_Format Crypto
begin

text \<open>
  The write-ahead log file (\<open>crates/basemyai-engine/src/store/wal.rs\<close>): sealing and
  appending a record, appending a batch, decoding the next record in plaintext or encrypted
  mode, and the replay that expands batches, stops at a torn tail and truncates it. The
  file is its bytes; \<open>nonce\<close> is the nonce a seal draws.
\<close>

subsection \<open>Writing\<close>

definition seal_record ::
  "externals \<Rightarrow> crypto_context option \<Rightarrow> bytes \<Rightarrow> bytes \<Rightarrow> bytes engine_result" where
  "seal_record X crypto nonce rec =
     (case crypto of
        None \<Rightarrow> Inr rec
      | Some ctx \<Rightarrow>
          rbind (crypto_seal X ctx nonce rec wal_envelope_aad)
            (\<lambda>(n, ct). Inr (encode_wal_envelope n ct)))"

text \<open>
  What becomes of the \<open>write_all\<close> and the \<open>sync_all\<close> of an append: both succeed, the write stops
  with an error after some bytes, or only the sync fails. \<open>write_record_io\<close> returns the result with the
  bytes the file then has; nothing is cut back on an error, and the handle stays in use.
\<close>

datatype write_fate = Synced | Stops nat | Unsynced

definition write_record_io ::
  "externals \<Rightarrow> crypto_context option \<Rightarrow> write_fate \<Rightarrow> bytes \<Rightarrow> bytes \<Rightarrow> bytes \<Rightarrow> nat engine_result \<times> bytes" where
  "write_record_io X crypto fate nonce contents rec =
     (case seal_record X crypto nonce rec of
        Inl e \<Rightarrow> (Inl e, contents)
      | Inr on_disk \<Rightarrow>
          (case fate of
             Synced \<Rightarrow> (Inr (length on_disk), contents @ on_disk)
           | Stops n \<Rightarrow> (Inl Io, contents @ take n on_disk)
           | Unsynced \<Rightarrow> (Inl Io, contents @ on_disk)))"

text \<open>The append of a file system that does not fail, which the engine's operations use.\<close>

definition write_record ::
  "externals \<Rightarrow> crypto_context option \<Rightarrow> bytes \<Rightarrow> bytes \<Rightarrow> bytes \<Rightarrow> (bytes \<times> nat) engine_result" where
  "write_record X crypto nonce contents rec =
     (case write_record_io X crypto Synced nonce contents rec of
        (Inl e, _) \<Rightarrow> Inl e
      | (Inr n, contents') \<Rightarrow> Inr (contents', n))"

definition wal_append ::
  "externals \<Rightarrow> crypto_context option \<Rightarrow> bytes \<Rightarrow> bytes \<Rightarrow> wal_op \<Rightarrow> bytes \<Rightarrow> bytes option
     \<Rightarrow> (bytes \<times> nat) engine_result" where
  "wal_append X crypto nonce contents op key value =
     write_record X crypto nonce contents (encode op key value)"

definition append_batch ::
  "externals \<Rightarrow> crypto_context option \<Rightarrow> bytes \<Rightarrow> bytes \<Rightarrow> batch_op list
     \<Rightarrow> (bytes \<times> nat) engine_result" where
  "append_batch X crypto nonce contents ops =
     (if length ops > MAX_BATCH_OPS then Inl (WalBatchTooLarge (length ops) MAX_BATCH_OPS)
      else write_record X crypto nonce contents (encode Batch [] (Some (encode_batch ops))))"

definition wal_truncate_to :: "bytes \<Rightarrow> nat \<Rightarrow> bytes" where
  "wal_truncate_to contents len = take len contents"

definition wal_reset :: "bytes \<Rightarrow> bytes" where
  "wal_reset contents = wal_truncate_to contents 0"

subsection \<open>Reading\<close>

definition decode_next ::
  "externals \<Rightarrow> crypto_context option \<Rightarrow> bytes \<Rightarrow> (wal_record \<times> nat) option engine_result" where
  "decode_next X crypto buf =
     (case crypto of
        None \<Rightarrow> decode buf
      | Some ctx \<Rightarrow>
          rbind (decode_wal_envelope buf) (\<lambda>env. case env of
            None \<Rightarrow> Inr None
          | Some (nonce, ciphertext, consumed) \<Rightarrow>
              (case crypto_open X ctx nonce ciphertext wal_envelope_aad of
                 None \<Rightarrow> Inl (Corrupt Wal)
               | Some plaintext \<Rightarrow>
                   rbind (decode plaintext) (\<lambda>inner. case inner of
                     Some (rec, inner_consumed) \<Rightarrow>
                       if inner_consumed = length plaintext then Inr (Some (rec, consumed))
                       else Inl (Corrupt Wal)
                   | None \<Rightarrow> Inl (Corrupt Wal)))))"

definition expand_record :: "wal_record \<Rightarrow> wal_record list engine_result" where
  "expand_record rec =
     (case r_op rec of
        Batch \<Rightarrow>
          rbind (decode_batch (val_bytes (r_value rec))) (\<lambda>batch_ops.
            Inr (map (\<lambda>e. \<lparr>r_op = b_op e, r_key = b_key e, r_value = b_value e\<rparr>) batch_ops))
      | _ \<Rightarrow> Inr [rec])"

lemma decode_consumes: "decode buf = Inr (Some (r, n)) \<Longrightarrow> 0 < n"
  by (auto simp: decode_def Let_def CRC_LEN_def split: if_splits option.splits)

lemma decode_wal_envelope_consumes: "decode_wal_envelope buf = Inr (Some (n, c, k)) \<Longrightarrow> 0 < k"
  by (auto simp: decode_wal_envelope_def Let_def split: if_splits)

text \<open>A record read in encrypted mode is the single record an authenticated envelope holds.\<close>

lemma decode_next_encrypted:
  assumes "decode_next X (Some ctx) buf = Inr (Some (r, n))"
  obtains nonce ct plain where "decode_wal_envelope buf = Inr (Some (nonce, ct, n))"
    "crypto_open X ctx nonce ct wal_envelope_aad = Some plain"
    "decode plain = Inr (Some (r, length plain))"
proof (cases "decode_wal_envelope buf")
  case (Inr env)
  then obtain nonce ct k where e: "decode_wal_envelope buf = Inr (Some (nonce, ct, k))"
    using assms by (cases env) (auto simp: decode_next_def)
  obtain plain where p: "crypto_open X ctx nonce ct wal_envelope_aad = Some plain"
    using assms e by (cases "crypto_open X ctx nonce ct wal_envelope_aad") (auto simp: decode_next_def)
  have "decode plain = Inr (Some (r, length plain)) \<and> k = n"
    using assms e p by (auto simp: decode_next_def rbind_eq_Inr split: option.splits if_splits)
  with e p show ?thesis using that by blast
qed (use assms in \<open>simp add: decode_next_def\<close>)

lemma decode_next_consumes: "decode_next X crypto buf = Inr (Some (r, n)) \<Longrightarrow> 0 < n"
proof (cases crypto)
  case None
  then show "decode_next X crypto buf = Inr (Some (r, n)) \<Longrightarrow> 0 < n"
    by (simp add: decode_next_def decode_consumes)
next
  case (Some ctx)
  then show "decode_next X crypto buf = Inr (Some (r, n)) \<Longrightarrow> 0 < n"
    using decode_next_encrypted decode_wal_envelope_consumes by metis
qed

function replay_loop ::
  "externals \<Rightarrow> crypto_context option \<Rightarrow> bytes \<Rightarrow> nat \<Rightarrow> (wal_record list \<times> nat) engine_result" where
  "replay_loop X crypto buf offset =
     (if offset < length buf then
        rbind (decode_next X crypto (drop offset buf)) (\<lambda>next. case next of
          None \<Rightarrow> Inr ([], offset)
        | Some (rec, consumed) \<Rightarrow>
            rbind (expand_record rec) (\<lambda>recs.
              rbind (replay_loop X crypto buf (offset + consumed)) (\<lambda>(records, end).
                Inr (recs @ records, end))))
      else Inr ([], offset))"
  by pat_completeness auto
termination
  by (relation "measure (\<lambda>(X, c, buf, offset). length buf - offset)")
    (auto dest: decode_next_consumes)

declare replay_loop.simps [simp del]

definition wal_replay ::
  "externals \<Rightarrow> crypto_context option \<Rightarrow> bytes \<Rightarrow> (wal_record list \<times> bytes) engine_result" where
  "wal_replay X crypto contents =
     rbind (replay_loop X crypto contents 0) (\<lambda>(records, offset).
       Inr (records, if offset \<noteq> length contents then wal_truncate_to contents offset else contents))"

subsection \<open>What the writer puts in the log\<close>

text \<open>
  A log entry is one put or delete, or one batch; \<open>entry_record\<close> is the outer record that
  carries it and \<open>entry_ops\<close> the operations it stands for.
\<close>

datatype wal_entry = Single bytes "bytes option" | Group "(bytes \<times> bytes option) list"

definition to_batch_op :: "bytes \<times> bytes option \<Rightarrow> batch_op" where
  "to_batch_op = (\<lambda>(k, v). \<lparr>b_op = (if v \<noteq> None then Put else Delete), b_key = k, b_value = v\<rparr>)"

fun entry_record :: "wal_entry \<Rightarrow> wal_record" where
  "entry_record (Single k v) =
     \<lparr>r_op = (if v \<noteq> None then Put else Delete), r_key = k, r_value = v\<rparr>"
| "entry_record (Group ops) =
     \<lparr>r_op = Batch, r_key = [], r_value = Some (encode_batch (map to_batch_op ops))\<rparr>"

fun entry_ops :: "wal_entry \<Rightarrow> (bytes \<times> bytes option) list" where
  "entry_ops (Single k v) = [(k, v)]"
| "entry_ops (Group ops) = ops"

definition op_record :: "bytes \<times> bytes option \<Rightarrow> wal_record" where
  "op_record = (\<lambda>(k, v). \<lparr>r_op = (if v \<noteq> None then Put else Delete), r_key = k, r_value = v\<rparr>)"

text \<open>Bounds under which every length field holds its length.\<close>

definition op_size :: "bytes \<times> bytes option \<Rightarrow> nat" where
  "op_size = (\<lambda>(k, v). 9 + length k + length (val_bytes v))"

definition entry_size :: "wal_entry \<Rightarrow> nat" where
  "entry_size e = sum_list (map op_size (entry_ops e))"

definition entry_ok :: "wal_entry \<Rightarrow> bool" where
  "entry_ok e \<longleftrightarrow> entry_size e < 2 ^ 31
     \<and> (case e of Single k v \<Rightarrow> True | Group ops \<Rightarrow> length ops \<le> MAX_BATCH_OPS)"

definition wal_frame :: "externals \<Rightarrow> crypto_context option \<Rightarrow> bytes \<times> wal_entry \<Rightarrow> bytes" where
  "wal_frame X crypto = (\<lambda>(nonce, e).
     case seal_record X crypto nonce (encode_record (entry_record e)) of Inr b \<Rightarrow> b | Inl _ \<Rightarrow> [])"

definition wal_frame_ok :: "externals \<Rightarrow> crypto_context option \<Rightarrow> bytes \<times> wal_entry \<Rightarrow> bool" where
  "wal_frame_ok X crypto = (\<lambda>(nonce, e).
     entry_ok e \<and> mode_ok X crypto \<and> (crypto \<noteq> None \<longrightarrow> length nonce = NONCE_LEN))"

definition frame_ops :: "bytes \<times> wal_entry \<Rightarrow> (bytes \<times> bytes option) list" where
  "frame_ops = (\<lambda>(nonce, e). entry_ops e)"

lemma frame_ops_simp [simp]: "frame_ops (nonce, e) = entry_ops e"
  by (simp add: frame_ops_def)

text \<open>The log holds the operations \<open>ops\<close>, in order.\<close>

definition wal_holds ::
  "externals \<Rightarrow> crypto_context option \<Rightarrow> bytes \<Rightarrow> (bytes \<times> bytes option) list \<Rightarrow> bool" where
  "wal_holds X crypto contents ops \<longleftrightarrow>
     (\<exists>fs. (\<forall>f \<in> set fs. wal_frame_ok X crypto f) \<and> contents = concat (map (wal_frame X crypto) fs)
        \<and> ops = concat (map frame_ops fs))"

subsection \<open>Frames of the log\<close>

lemma to_batch_op_simps [simp]:
  "b_key (to_batch_op kv) = fst kv" "b_value (to_batch_op kv) = snd kv"
  "b_op (to_batch_op kv) = (if snd kv \<noteq> None then Put else Delete)"
  by (cases kv, simp add: to_batch_op_def)+

lemma length_encode_batch:
  "length (encode_batch (map to_batch_op ops)) = 4 + sum_list (map op_size ops)"
  by (induction ops)
    (auto simp: encode_batch_def length_encode_batch_op op_size_def)

lemma op_size_le_sum: "e \<in> set ops \<Longrightarrow> op_size e \<le> sum_list (map op_size ops)"
  by (simp add: member_le_sum_list)

lemma entry_okD:
  assumes "entry_ok e"
  shows "record_ok (entry_record e)" and "length (encode_record (entry_record e)) < 2 ^ 31 + 30"
    and "expand_record (entry_record e) = Inr (map op_record (entry_ops e))"
proof -
  have "record_ok (entry_record e) \<and> length (encode_record (entry_record e)) < 2 ^ 31 + 30
    \<and> expand_record (entry_record e) = Inr (map op_record (entry_ops e))"
  proof (cases e)
    case (Single k v)
    then show ?thesis using assms
      by (auto simp: entry_ok_def entry_size_def op_size_def record_ok_def fits32_def expand_record_def
          op_record_def encode_record_def length_encode HEADER_LEN_def CRC_LEN_def val_bytes_def
          split: option.splits)
  next
    case (Group ops)
    have sz: "sum_list (map op_size ops) < 2 ^ 31" and n: "length ops \<le> MAX_BATCH_OPS"
      using assms Group by (simp_all add: entry_ok_def entry_size_def)
    have "batch_op_ok (to_batch_op kv)" if "kv \<in> set ops" for kv
      using op_size_le_sum [OF that] sz
      by (cases kv; cases "snd kv") (auto simp: batch_op_ok_def fits32_def op_size_def val_bytes_def)
    then have "batch_ok (map to_batch_op ops)" using n by (auto simp: batch_ok_def)
    then have dec: "decode_batch (encode_batch (map to_batch_op ops)) = Inr (map to_batch_op ops)"
      by (rule decode_batch_encode)
    have "map ((\<lambda>e. \<lparr>r_op = b_op e, r_key = b_key e, r_value = b_value e\<rparr>) \<circ> to_batch_op) ops
        = map op_record ops"
      by (rule map_cong) (auto simp: op_record_def)
    then show ?thesis using Group sz dec
      by (simp add: record_ok_def fits32_def val_bytes_def expand_record_def length_encode_batch
          encode_record_def length_encode HEADER_LEN_def CRC_LEN_def)
  qed
  then show "record_ok (entry_record e)" "length (encode_record (entry_record e)) < 2 ^ 31 + 30"
    "expand_record (entry_record e) = Inr (map op_record (entry_ops e))" by simp_all
qed

lemma wal_frame_plain:
  "wal_frame X None (nonce, e) = encode_record (entry_record e)"
  by (simp add: wal_frame_def seal_record_def)

lemma wal_frame_sealed:
  assumes "wal_frame_ok X (Some ctx) (nonce, e)"
  obtains ct where "seal_record X (Some ctx) nonce (encode_record (entry_record e))
      = Inr (encode_wal_envelope nonce ct)"
    and "wal_frame X (Some ctx) (nonce, e) = encode_wal_envelope nonce ct"
    and "envelope_ok nonce ct"
    and "crypto_open X ctx nonce ct wal_envelope_aad = Some (encode_record (entry_record e))"
proof -
  have ok: "entry_ok e" "externals_ok X" "context_ok ctx" "length nonce = NONCE_LEN"
    using assms by (simp_all add: wal_frame_ok_def mode_ok_def)
  note len = entry_okD(2) [OF ok(1)]
  have "length (encode_record (entry_record e)) < 2 ^ 32" using len by simp
  then obtain ct where ct: "crypto_seal X ctx nonce (encode_record (entry_record e)) wal_envelope_aad
        = Inr (nonce, ct)"
      "length ct = length (encode_record (entry_record e)) + AEAD_TAG_LEN"
      "crypto_open X ctx nonce ct wal_envelope_aad = Some (encode_record (entry_record e))"
    using crypto_seal_open [OF ok(2,3,4)] by metis
  then have "envelope_ok nonce ct" using ok len by (simp add: envelope_ok_def AEAD_TAG_LEN_def)
  then show ?thesis using that ct by (simp add: wal_frame_def seal_record_def)
qed

lemma decode_next_frame:
  assumes "wal_frame_ok X crypto f"
  shows "decode_next X crypto (wal_frame X crypto f @ rest)
           = Inr (Some (entry_record (snd f), length (wal_frame X crypto f)))"
proof -
  obtain nonce e where f: "f = (nonce, e)" by force
  have e: "entry_ok e" using assms by (simp add: f wal_frame_ok_def)
  show ?thesis
  proof (cases crypto)
    case None
    then show ?thesis
      by (simp add: f decode_next_def wal_frame_plain decode_encode_append entry_okD(1) [OF e])
  next
    case (Some ctx)
    obtain ct where ct: "wal_frame X (Some ctx) (nonce, e) = encode_wal_envelope nonce ct"
        "envelope_ok nonce ct"
        "crypto_open X ctx nonce ct wal_envelope_aad = Some (encode_record (entry_record e))"
      using wal_frame_sealed assms by (metis Some f)
    have "decode (encode_record (entry_record e))
        = Inr (Some (entry_record e, length (encode_record (entry_record e))))"
      using decode_encode_append [OF entry_okD(1) [OF e], of "[]"] by simp
    then show ?thesis
      by (simp add: f Some decode_next_def ct decode_encode_wal_envelope)
  qed
qed

lemma decode_next_torn:
  assumes "wal_frame_ok X crypto f" "strict_prefix bs (wal_frame X crypto f)"
  shows "decode_next X crypto bs = Inr None"
proof -
  obtain nonce e where f: "f = (nonce, e)" by force
  show ?thesis
  proof (cases crypto)
    case None
    then show ?thesis using assms entry_okD(1) [of e]
      by (auto simp: f decode_next_def wal_frame_plain wal_frame_ok_def intro: decode_torn)
  next
    case (Some ctx)
    then show ?thesis using assms wal_frame_sealed [of X ctx nonce e]
      by (metis (no_types, lifting) decode_next_def decode_wal_envelope_torn f option.simps(4,5) rbind.simps(2))
  qed
qed

lemma wal_frame_nonempty: "wal_frame_ok X crypto f \<Longrightarrow> wal_frame X crypto f \<noteq> []"
  using decode_next_frame [of X crypto f "[]"] decode_next_consumes by fastforce

interpretation wal_log: framed_log "wal_frame X crypto" "decode_next X crypto" "entry_record \<circ> snd"
  "wal_frame_ok X crypto" for X crypto
  by unfold_locales (simp_all add: wal_frame_nonempty decode_next_frame decode_next_torn)

subsection \<open>Appending\<close>

lemma wal_holds_Nil [simp]: "wal_holds X crypto [] []"
  unfolding wal_holds_def by (rule exI [of _ "[]"]) simp

text \<open>Every append is the append of one entry.\<close>

lemma wal_append_entry:
  "wal_append X crypto nonce contents Put k (Some v)
     = write_record X crypto nonce contents (encode_record (entry_record (Single k (Some v))))"
  "wal_append X crypto nonce contents Delete k None
     = write_record X crypto nonce contents (encode_record (entry_record (Single k None)))"
  "length ops \<le> MAX_BATCH_OPS \<Longrightarrow> append_batch X crypto nonce contents (map to_batch_op ops)
     = write_record X crypto nonce contents (encode_record (entry_record (Group ops)))"
  by (simp_all add: wal_append_def append_batch_def encode_record_def)

lemma seal_record_frame:
  assumes "wal_frame_ok X crypto (nonce, e)"
  shows "seal_record X crypto nonce (encode_record (entry_record e))
           = Inr (wal_frame X crypto (nonce, e))"
proof (cases crypto)
  case None
  then show ?thesis by (simp add: wal_frame_def seal_record_def)
next
  case (Some ctx)
  then show ?thesis using assms wal_frame_sealed by metis
qed

lemma write_record_holds:
  assumes "wal_holds X crypto contents ops" "wal_frame_ok X crypto (nonce, e)"
  shows "write_record X crypto nonce contents (encode_record (entry_record e))
           = Inr (contents @ wal_frame X crypto (nonce, e), length (wal_frame X crypto (nonce, e)))"
    and "wal_holds X crypto (contents @ wal_frame X crypto (nonce, e)) (ops @ entry_ops e)"
proof -
  obtain fs where fs: "\<forall>f \<in> set fs. wal_frame_ok X crypto f" "contents = concat (map (wal_frame X crypto) fs)"
      "ops = concat (map frame_ops fs)"
    using assms(1) by (auto simp: wal_holds_def)
  show "wal_holds X crypto (contents @ wal_frame X crypto (nonce, e)) (ops @ entry_ops e)"
    unfolding wal_holds_def using fs assms(2)
    by (intro exI [of _ "fs @ [(nonce, e)]"]) auto
qed (simp add: write_record_def write_record_io_def seal_record_frame [OF assms(2)])

subsection \<open>Replay\<close>

definition wal_torn :: "externals \<Rightarrow> crypto_context option \<Rightarrow> bytes \<Rightarrow> bool" where
  "wal_torn X crypto torn \<longleftrightarrow>
     torn = [] \<or> (\<exists>f. wal_frame_ok X crypto f \<and> strict_prefix torn (wal_frame X crypto f))"

text \<open>Replay of complete frames followed by bytes that hold no complete record.\<close>

lemma replay_loop_frames:
  assumes "\<forall>f \<in> set fs. wal_frame_ok X crypto f" "rest \<noteq> [] \<Longrightarrow> decode_next X crypto rest = stop" "stop = Inr None \<or> stop = Inl err"
    and "buf = concat (map (wal_frame X crypto) (pre @ fs)) @ rest"
  shows "replay_loop X crypto buf (length (concat (map (wal_frame X crypto) pre)))
    = (if rest = [] \<or> stop = Inr None then Inr (map op_record (concat (map frame_ops fs)), length buf - length rest) else Inl err)"
  using assms
proof (induction fs arbitrary: pre)
  case Nil
  let ?off = "length (concat (map (wal_frame X crypto) pre))"
  show ?case
  proof (cases "rest = []")
    case True
    then show ?thesis using Nil by (simp add: replay_loop.simps)
  next
    case False
    then have "decode_next X crypto rest = stop" by (rule Nil.prems(2))
    moreover have "drop ?off buf = rest" "?off < length buf" using Nil.prems(4) False by auto
    ultimately show ?thesis using Nil.prems(3,4) False by (auto simp: replay_loop.simps [of _ _ _ ?off])
  qed
next
  case (Cons f fs)
  let ?off = "length (concat (map (wal_frame X crypto) pre))"
  obtain nonce e where f: "f = (nonce, e)" by force
  have ok: "wal_frame_ok X crypto f" and e: "entry_ok e"
    using Cons.prems(1) by (simp_all add: wal_frame_ok_def f)
  have "decode_next X crypto (drop ?off buf)
      = Inr (Some (entry_record e, length (wal_frame X crypto f)))"
    using wal_log.next_frame [OF ok, of buf pre "concat (map (wal_frame X crypto) fs) @ rest" ?off]
      Cons.prems(4) by (simp add: f)
  moreover have "replay_loop X crypto buf (?off + length (wal_frame X crypto f))
      = (if rest = [] \<or> stop = Inr None then Inr (map op_record (concat (map frame_ops fs)), length buf - length rest) else Inl err)"
    using Cons.IH [of "pre @ [f]"] Cons.prems by simp
  moreover have "?off < length buf" using Cons.prems(4) wal_frame_nonempty [OF ok] by auto
  ultimately show ?case
    by (simp add: replay_loop.simps [of _ _ _ ?off] entry_okD(3) [OF e] f)
qed

text \<open>
  Replay of a log followed by a torn record returns exactly the operations of the complete
  entries, in order, and leaves the file without the torn suffix.
\<close>

lemma wal_replay_holds:
  assumes "wal_holds X crypto contents ops" "wal_torn X crypto torn"
  shows "wal_replay X crypto (contents @ torn) = Inr (map op_record ops, contents)"
proof -
  obtain fs where fs: "\<forall>f \<in> set fs. wal_frame_ok X crypto f" "contents = concat (map (wal_frame X crypto) fs)"
      "ops = concat (map frame_ops fs)"
    using assms(1) by (auto simp: wal_holds_def)
  have "torn \<noteq> [] \<Longrightarrow> decode_next X crypto torn = Inr None"
    using assms(2) wal_log.unframe_torn by (auto simp: wal_torn_def)
  from replay_loop_frames [OF fs(1) this, where buf = "contents @ torn" and pre = "[]"] fs
  have "replay_loop X crypto (contents @ torn) 0 = Inr (map op_record ops, length contents)" by simp
  then show ?thesis by (simp add: wal_replay_def wal_truncate_to_def)
qed

subsection \<open>A failed append\<close>

text \<open>What follows the frames of a log decides its replay.\<close>

lemma wal_replay_rest:
  assumes "wal_holds X crypto contents ops" "rest \<noteq> []"
  shows "decode_next X crypto rest = Inr None \<Longrightarrow> wal_replay X crypto (contents @ rest) = Inr (map op_record ops, contents)"
    "decode_next X crypto rest = Inl err \<Longrightarrow> wal_replay X crypto (contents @ rest) = Inl err"
proof -
  obtain fs where fs: "\<forall>f \<in> set fs. wal_frame_ok X crypto f" "contents = concat (map (wal_frame X crypto) fs)"
      "ops = concat (map frame_ops fs)"
    using assms(1) by (auto simp: wal_holds_def)
  note loop = replay_loop_frames [OF fs(1), where rest = rest and buf = "contents @ rest" and pre = "[]"]
  show "wal_replay X crypto (contents @ rest) = Inr (map op_record ops, contents)" if "decode_next X crypto rest = Inr None"
    using loop [OF that] fs assms(2) by (simp add: wal_replay_def wal_truncate_to_def)
  show "wal_replay X crypto (contents @ rest) = Inl err" if "decode_next X crypto rest = Inl err"
    using loop [OF that] fs assms(2) by (simp add: wal_replay_def)
qed

lemma encode_record_bytes:
  "\<exists>k0 k1 k2 k3 v0 v1 v2 v3 rest. encode_record r
     = 0x45 # 0x53 # 0x41 # 0x42 # 2 # 0 # wal_op_tag (r_op r) # k0 # k1 # k2 # k3 # v0 # v1 # v2 # v3 # rest \<and> rest \<noteq> []"
proof -
  have "\<exists>a b c d. u32_le w = [a, b, c, d]" for w by (simp add: u32_le_def le_enc_numeral)
  then obtain k0 k1 k2 k3 v0 v1 v2 v3 where "u32_le (len32 (r_key r)) = [k0, k1, k2, k3]" "u32_le (len32 (val_bytes (r_value r))) = [v0, v1, v2, v3]"
    by metis
  moreover have "u32_le w \<noteq> []" for w by (simp add: u32_le_def le_enc_numeral)
  ultimately show ?thesis
    by (simp add: encode_record_def encode_def Let_def encode_body_def)
      (simp add: u32_le_def u16_le_def WAL_MAGIC_def WAL_RECORD_VERSION_def le_enc_numeral)
qed

lemma u32_of_le_large: "0x41 \<le> d \<Longrightarrow> 2 ^ 30 \<le> unat (u32_of_le [a, b, c, d])"
proof -
  assume "0x41 \<le> d"
  then have d: "0x41 \<le> unat d" by (simp add: word_le_nat_alt)
  have "le_dec [a, b, c, d] < 2 ^ 32" using le_dec_bound [of "[a, b, c, d]"] by simp
  then have "unat (u32_of_le [a, b, c, d]) = le_dec [a, b, c, d]"
    unfolding u32_of_le_def by (simp add: unat_of_nat del: le_dec.simps)
  also have "0x41 * 2 ^ 24 \<le> le_dec [a, b, c, d]" using d by simp
  finally show ?thesis by simp
qed

lemma decode_incomplete:
  assumes "HEADER_LEN \<le> length buf" "u32_of_le (slice 0 4 buf) = WAL_MAGIC" "u16_of_le (slice 4 6 buf) = WAL_RECORD_VERSION"
    and "wal_op_from_tag (buf ! 6) = Some op" "length buf < 2 ^ 30"
    and "2 ^ 30 \<le> unat (u32_of_le (slice 7 11 buf)) \<or> 2 ^ 30 \<le> unat (u32_of_le (slice 11 15 buf))"
  shows "decode buf = Inr None"
proof -
  have "length buf < HEADER_LEN + unat (u32_of_le (slice 7 11 buf)) + unat (u32_of_le (slice 11 15 buf)) + CRC_LEN"
    using assms(5,6) by linarith
  then show ?thesis using assms(1-4) by (simp add: decode_def Let_def)
qed

text \<open>
  A header torn after \<open>n\<close> bytes and followed by a complete record: the reader takes the second
  record's first bytes for the rest of the header. Cut before the lengths it finds no header of the
  format; cut inside them it finds a length of more than a gigabyte, which is what a torn tail looks like.
\<close>

lemma decode_torn_header:
  assumes "0 < n" "n < HEADER_LEN" and small: "length (encode_record r2) < 2 ^ 30 - HEADER_LEN"
  shows "if n < 7 then \<exists>err. decode (take n (encode_record r1) @ encode_record r2) = Inl err
    else decode (take n (encode_record r1) @ encode_record r2) = Inr None"
proof -
  obtain k0 k1 k2 k3 v0 v1 v2 v3 rest where r1: "encode_record r1
     = 0x45 # 0x53 # 0x41 # 0x42 # 2 # 0 # wal_op_tag (r_op r1) # k0 # k1 # k2 # k3 # v0 # v1 # v2 # v3 # rest"
    using encode_record_bytes [of r1] by blast
  obtain l0 l1 l2 l3 w0 w1 w2 w3 rest' where r2: "encode_record r2
     = 0x45 # 0x53 # 0x41 # 0x42 # 2 # 0 # wal_op_tag (r_op r2) # l0 # l1 # l2 # l3 # w0 # w1 # w2 # w3 # rest'"
    using encode_record_bytes [of r2] by blast
  have large: "1073741824 \<le> unat (u32_of_le [a, b, c, 0x41])" "1073741824 \<le> unat (u32_of_le [a, b, c, 0x45])"
    "1073741824 \<le> unat (u32_of_le [a, b, c, 0x53])" "1073741824 \<le> unat WAL_MAGIC" for a b c
    using u32_of_le_large [where d = "0x41" and a = a and b = b and c = c] u32_of_le_large [where d = "0x45" and a = a and b = b and c = c] u32_of_le_large [where d = "0x53" and a = a and b = b and c = c] by (simp_all add: WAL_MAGIC_def)
  have m: "u32_of_le [0x45, 0x53, 0x41, 0x42] = WAL_MAGIC" "u16_of_le [2, 0] = WAL_RECORD_VERSION"
    "u32_of_le [0x45, 0x45, 0x53, 0x41] \<noteq> WAL_MAGIC" "u32_of_le [0x45, 0x53, 0x45, 0x53] \<noteq> WAL_MAGIC" "u32_of_le [0x45, 0x53, 0x41, 0x45] \<noteq> WAL_MAGIC"
    "u16_of_le [0x45, 0x53] \<noteq> WAL_RECORD_VERSION" "u16_of_le [2, 0x45] \<noteq> WAL_RECORD_VERSION" "wal_op_from_tag 0x45 = None"
    by (simp_all add: u32_of_le_def u16_of_le_def WAL_MAGIC_def WAL_RECORD_VERSION_def wal_op_from_tag_def)
  have small': "length rest' + 30 < 2 ^ 30" using small by (simp add: r2 HEADER_LEN_def)
  show ?thesis
  proof (cases "n < 7")
    case True
    then have "n \<in> {1, 2, 3, 4, 5, 6}" using assms(1) by (simp; presburger)
    then have "\<exists>err. decode (take n (encode_record r1) @ encode_record r2) = Inl err"
      unfolding r1 r2 decode_def Let_def HEADER_LEN_def by (elim insertE emptyE) (simp_all add: slice_def m)
    then show ?thesis using True by simp
  next
    case False
    then have "n \<in> {7, 8, 9, 10, 11, 12, 13, 14}" using assms(2) by (simp add: HEADER_LEN_def; presburger)
    then have "decode (take n (encode_record r1) @ encode_record r2) = Inr None"
      by (elim insertE emptyE; intro decode_incomplete [where op = "r_op r1"])
        (use small' in \<open>simp_all add: r1 r2 HEADER_LEN_def slice_def m large\<close>)
    then show ?thesis using False by simp
  qed
qed

subsection \<open>Properties\<close>

text \<open>
  C11. Replay after a crash: on a log holding \<open>ops\<close> followed by any torn part of one more
  entry, replay returns exactly \<open>ops\<close> in order and truncates the file to the complete
  entries. A torn batch therefore leaves none of its operations.
\<close>

theorem wal_replay_exact:
  assumes "wal_holds X crypto contents ops" "wal_torn X crypto torn"
  shows "wal_replay X crypto (contents @ torn) = Inr (map op_record ops, contents)"
  using assms by (rule wal_replay_holds)

theorem wal_replay_exact_witness:
  "wal_replay toy_externals None (encode_record (entry_record (Single [1] (Some [2]))) @ take 9 (encode_record (entry_record (Single [3] None))))
     = Inr (map op_record [([1], Some [2])], encode_record (entry_record (Single [1] (Some [2]))))"
proof -
  have ok: "wal_frame_ok toy_externals None ([], Single [1] (Some [2]))" "wal_frame_ok toy_externals None ([], Single [3] None)"
    by (simp_all add: wal_frame_ok_def mode_ok_def entry_ok_def entry_size_def op_size_def val_bytes_def)
  have frame: "wal_frame toy_externals None ([], e) = encode_record (entry_record e)" for e by (simp add: wal_frame_def seal_record_def)
  have "length (encode_record (entry_record (Single [3] None))) = 20"
    by (simp add: encode_record_def length_encode HEADER_LEN_def CRC_LEN_def val_bytes_def)
  then have "strict_prefix (take 9 (encode_record (entry_record (Single [3] None)))) (wal_frame toy_externals None ([], Single [3] None))"
    unfolding frame by (simp add: strict_prefix_def take_is_prefix take_all_iff)
  then have "wal_torn toy_externals None (take 9 (encode_record (entry_record (Single [3] None))))" using ok(2) by (auto simp: wal_torn_def)
  from wal_replay_exact [OF write_record_holds(2) [OF wal_holds_Nil ok(1)] this] show ?thesis by (simp add: frame)
qed

text \<open>
  A successful append is durable: the new contents hold the old operations and then
  those of the entry, so replaying them returns both.
\<close>

theorem wal_append_durable:
  assumes "wal_holds X crypto contents ops" "wal_frame_ok X crypto (nonce, e)"
  shows "\<exists>contents' n.
      write_record X crypto nonce contents (encode_record (entry_record e)) = Inr (contents', n)
      \<and> length contents' = length contents + n
      \<and> wal_replay X crypto contents' = Inr (map op_record (ops @ entry_ops e), contents')"
  using write_record_holds [OF assms] wal_replay_holds [of X crypto _ "ops @ entry_ops e" "[]"]
  by (auto simp: wal_torn_def)

theorem wal_append_durable_witness:
  "\<exists>contents' n.
     write_record toy_externals (Some \<lparr>cc_dek = replicate KEY_LEN 9\<rparr>) (replicate NONCE_LEN 1) []
       (encode_record (entry_record (Group [([1], Some [2]), ([3], None)]))) = Inr (contents', n)
     \<and> wal_replay toy_externals (Some \<lparr>cc_dek = replicate KEY_LEN 9\<rparr>) contents'
         = Inr (map op_record [([1], Some [2]), ([3], None)], contents')"
  using wal_append_durable [of toy_externals "Some \<lparr>cc_dek = replicate KEY_LEN 9\<rparr>" "[]" "[]"
      "replicate NONCE_LEN 1" "Group [([1], Some [2]), ([3], None)]"]
  by (auto simp: wal_frame_ok_def mode_ok_def context_ok_def entry_ok_def entry_size_def op_size_def
      val_bytes_def MAX_BATCH_OPS_def)

text \<open>
  C33. What a failed append leaves behind is not removed, so a later append can be lost although it
  was acknowledged: when the write of a record to a plaintext log stops inside its 15-byte header and the next
  record is written completely, the log either cannot be read at all (up to the sixth byte), or is
  replayed without that record, which is then cut off as if it were torn.
\<close>

theorem torn_append_loses_next:
  assumes "wal_holds X None contents ops" "0 < n" "n < HEADER_LEN" "length (encode_record (entry_record e2)) < 2 ^ 30 - HEADER_LEN"
  shows "\<exists>c1 c2 k. write_record_io X None (Stops n) nonce1 contents (encode_record (entry_record e1)) = (Inl Io, c1)
    \<and> write_record_io X None Synced nonce2 c1 (encode_record (entry_record e2)) = (Inr k, c2)
    \<and> (if n < 7 then \<exists>err. wal_replay X None c2 = Inl err else wal_replay X None c2 = Inr (map op_record ops, contents))"
proof -
  let ?rest = "take n (encode_record (entry_record e1)) @ encode_record (entry_record e2)"
  have ne: "?rest \<noteq> []" using encode_record_bytes [of "entry_record e2"] by auto
  have "if n < 7 then \<exists>err. wal_replay X None (contents @ ?rest) = Inl err else wal_replay X None (contents @ ?rest) = Inr (map op_record ops, contents)"
    using decode_torn_header [OF assms(2-4), of "entry_record e1"] wal_replay_rest [OF assms(1) ne] by (auto simp: decode_next_def split: if_splits)
  then show ?thesis by (simp add: write_record_io_def seal_record_def)
qed

theorem torn_append_loses_next_witness:
  "\<exists>c1 c2 k. write_record_io toy_externals None (Stops 7) [] [] (encode_record (entry_record (Single [1] (Some [2])))) = (Inl Io, c1)
    \<and> write_record_io toy_externals None Synced [] c1 (encode_record (entry_record (Single [3] (Some [4])))) = (Inr k, c2)
    \<and> wal_replay toy_externals None c2 = Inr ([], [])"
proof -
  have "length (encode_record (entry_record (Single [3] (Some [4])))) < 2 ^ 30 - HEADER_LEN"
    by (simp add: encode_record_def length_encode HEADER_LEN_def CRC_LEN_def val_bytes_def)
  from torn_append_loses_next [OF wal_holds_Nil _ _ this, of 7 toy_externals "[]" "Single [1] (Some [2])" "[]"] show ?thesis
    by (simp add: HEADER_LEN_def)
qed

end
