(* ===== verification/Ordered_Map.thy ===== *)
theory Ordered_Map
  imports Prelude
begin

text \<open>
  The standard library's \<open>BTreeMap\<close>, as the sorted association list its iterator yields:
  insertion (which overwrites), lookup (\<open>map_of\<close>), and the facts the storage engine uses:
  a sorted list is determined by the map it denotes, and loading one sorted list over
  another overrides it.
\<close>

definition sorted_keys :: "('k :: linorder \<times> 'v) list \<Rightarrow> bool" where
  "sorted_keys xs \<longleftrightarrow> sorted_wrt (<) (map fst xs)"

fun om_insert :: "'k :: linorder \<Rightarrow> 'v \<Rightarrow> ('k \<times> 'v) list \<Rightarrow> ('k \<times> 'v) list" where
  "om_insert k v [] = [(k, v)]"
| "om_insert k v ((k', v') # xs) =
     (if k < k' then (k, v) # (k', v') # xs
      else if k = k' then (k, v) # xs
      else (k', v') # om_insert k v xs)"

definition om_inserts :: "('k :: linorder \<times> 'v) list \<Rightarrow> ('k \<times> 'v) list \<Rightarrow> ('k \<times> 'v) list" where
  "om_inserts es m = foldl (\<lambda>m (k, v). om_insert k v m) m es"

text \<open>The live entries: those whose value is not a tombstone.\<close>

fun live :: "('k \<times> 'v option) list \<Rightarrow> ('k \<times> 'v) list" where
  "live [] = []"
| "live ((k, None) # xs) = live xs"
| "live ((k, Some v) # xs) = (k, v) # live xs"

subsection \<open>Sortedness\<close>

lemma sorted_keys_Nil [simp]: "sorted_keys []"
  by (simp add: sorted_keys_def)

lemma sorted_keys_Cons [simp]:
  "sorted_keys ((k, v) # xs) \<longleftrightarrow> (\<forall>(k', v') \<in> set xs. k < k') \<and> sorted_keys xs"
  by (auto simp: sorted_keys_def)

lemma sorted_keys_append:
  "sorted_keys (xs @ ys) \<longleftrightarrow> sorted_keys xs \<and> sorted_keys ys
     \<and> (\<forall>e \<in> set xs. \<forall>e' \<in> set ys. fst e < fst e')"
  by (auto simp: sorted_keys_def sorted_wrt_append)

lemma sorted_keys_filter [simp]: "sorted_keys xs \<Longrightarrow> sorted_keys (filter P xs)"
  by (induction xs) auto

lemma sorted_keys_distinct: "sorted_keys xs \<Longrightarrow> distinct (map fst xs)"
  by (induction xs) force+

lemma set_om_insert: "set (om_insert k v xs) \<subseteq> insert (k, v) (set xs)"
  by (induction xs rule: om_insert.induct) auto

lemma sorted_keys_insert [simp]: "sorted_keys xs \<Longrightarrow> sorted_keys (om_insert k v xs)"
  using set_om_insert by (induction k v xs rule: om_insert.induct) fastforce+

lemma map_of_om_insert [simp]: "sorted_keys xs \<Longrightarrow> map_of (om_insert k v xs) = (map_of xs)(k \<mapsto> v)"
  by (induction k v xs rule: om_insert.induct) (auto simp: fun_eq_iff)

lemma length_om_insert:
  "sorted_keys xs \<Longrightarrow> length (om_insert k v xs) = length xs + (if k \<in> dom (map_of xs) then 0 else 1)"
proof (induction k v xs rule: om_insert.induct)
  case (2 k v k' v' xs)
  have "k \<notin> dom (map_of xs)" if "k < k'"
  proof
    assume "k \<in> dom (map_of xs)"
    then have "k \<in> fst ` set xs" by (simp add: dom_map_of_conv_image_fst)
    then show False using 2 that by fastforce
  qed
  moreover have "\<forall>e \<in> set xs. k' < fst e" using 2(2) by auto
  then have "k' \<notin> dom (map_of xs)" by (auto simp: dom_map_of_conv_image_fst)
  ultimately show ?case using 2 by auto
qed simp

lemma om_insert_ne [simp]: "om_insert k v xs \<noteq> []"
  by (cases xs) (auto split: if_splits)

subsection \<open>Sorted lists are determined by their map\<close>

lemma map_of_eq_Some: "sorted_keys xs \<Longrightarrow> map_of xs k = Some v \<longleftrightarrow> (k, v) \<in> set xs"
  by (simp add: sorted_keys_distinct map_of_eq_Some_iff)

lemma sorted_keys_unique:
  assumes "sorted_keys xs" "sorted_keys ys" "map_of xs = map_of ys"
  shows "xs = ys"
proof -
  have "set xs = set ys"
    using assms by (auto simp flip: map_of_eq_Some)
  moreover have "sorted_wrt (\<lambda>a b. fst a < fst b) xs" "sorted_wrt (\<lambda>a b. fst a < fst b) ys"
    using assms(1,2) by (simp_all add: sorted_keys_def sorted_wrt_map)
  ultimately show ?thesis
  proof (induction xs arbitrary: ys)
    case (Cons x xs)
    then obtain y ys' where ys: "ys = y # ys'" by (cases ys) auto
    have "x = y"
    proof (rule ccontr)
      assume "x \<noteq> y"
      then have "fst x < fst y" "fst y < fst x" using Cons.prems ys by auto
      then show False by simp
    qed
    moreover have "x \<notin> set xs" "y \<notin> set ys'" using Cons.prems ys by auto
    then have "set xs = set ys'" using Cons.prems(1) ys \<open>x = y\<close> by auto
    then have "xs = ys'" using Cons.prems ys by (intro Cons.IH) auto
    ultimately show ?case using ys by simp
  qed simp
qed

lemma map_of_filter_key:
  "map_of (filter (\<lambda>(k, v). P k) xs) k = (if P k then map_of xs k else None)"
  by (induction xs) auto

subsection \<open>Loading one list over another\<close>

lemma om_inserts_simps [simp]:
  "om_inserts [] m = m"
  "om_inserts ((k, v) # es) m = om_inserts es (om_insert k v m)"
  by (simp_all add: om_inserts_def)

lemma om_inserts_append: "om_inserts (es @ fs) m = om_inserts fs (om_inserts es m)"
  by (simp add: om_inserts_def)

lemma sorted_keys_om_inserts [simp]: "sorted_keys m \<Longrightarrow> sorted_keys (om_inserts es m)"
  by (induction es arbitrary: m) auto

lemma map_of_om_inserts:
  "sorted_keys m \<Longrightarrow> map_of (om_inserts es m) = map_of m ++ map_of (rev es)"
  by (induction es arbitrary: m) (auto simp: map_add_assoc)

lemma map_of_rev_sorted: "sorted_keys es \<Longrightarrow> map_of (rev es) = map_of es"
  by (rule map_of_inject_set [THEN iffD2]) (simp_all add: sorted_keys_distinct flip: rev_map)

lemma map_of_om_inserts_sorted:
  "sorted_keys m \<Longrightarrow> sorted_keys es \<Longrightarrow> map_of (om_inserts es m) = map_of m ++ map_of es"
  by (simp add: map_of_om_inserts map_of_rev_sorted)

lemma set_om_inserts: "set (om_inserts es m) \<subseteq> set es \<union> set m"
proof (induction es arbitrary: m)
  case (Cons e es)
  obtain k v where "e = (k, v)" by force
  then show ?case using Cons [of "om_insert k v m"] set_om_insert [of k v m] by auto
qed simp

subsection \<open>Live entries\<close>

definition flat :: "('k \<rightharpoonup> 'v option) \<Rightarrow> 'k \<rightharpoonup> 'v" where
  "flat m = (\<lambda>k. case m k of Some (Some v) \<Rightarrow> Some v | _ \<Rightarrow> None)"

lemma flat_simps [simp]:
  "flat (m(k \<mapsto> Some v)) = (flat m)(k \<mapsto> v)"
  "flat (m(k \<mapsto> None)) = (flat m)(k := None)"
  "flat Map.empty = Map.empty"
  by (auto simp: flat_def)

lemma set_live: "(k, v) \<in> set (live xs) \<longleftrightarrow> (k, Some v) \<in> set xs"
  by (induction xs rule: live.induct) auto

lemma sorted_keys_live [simp]: "sorted_keys xs \<Longrightarrow> sorted_keys (live xs)"
  by (induction xs rule: live.induct) (auto simp: set_live)

lemma map_of_live: "sorted_keys xs \<Longrightarrow> map_of (live xs) = flat (map_of xs)"
proof
  fix k assume s: "sorted_keys xs"
  have "map_of (live xs) k = Some v \<longleftrightarrow> flat (map_of xs) k = Some v" for v
  proof -
    have "map_of (live xs) k = Some v \<longleftrightarrow> map_of xs k = Some (Some v)"
      using s by (simp only: map_of_eq_Some sorted_keys_live set_live)
    then show ?thesis by (auto simp: flat_def split: option.splits)
  qed
  then show "map_of (live xs) k = flat (map_of xs) k"
    by (cases "flat (map_of xs) k"; cases "map_of (live xs) k") auto
qed

lemma live_filter: "live (filter (\<lambda>(k, v). P k) xs) = filter (\<lambda>(k, v). P k) (live xs)"
  by (induction xs rule: live.induct) auto

lemma live_append: "live (xs @ ys) = live xs @ live ys"
  by (induction xs rule: live.induct) auto

subsection \<open>Sorting by an injective key\<close>

lemma strict_sort_key:
  assumes "distinct (map f xs)"
  shows "sorted_wrt (\<lambda>a b. f a < f b) (sort_key f xs)"
proof -
  have "distinct (map f (sort_key f xs))" using assms by (simp add: distinct_map)
  then have "sorted_wrt (<) (map f (sort_key f xs))" by (simp add: strict_sorted_iff)
  then show ?thesis by (simp add: sorted_wrt_map)
qed

end
