(* ===== verification/Memtable.thy ===== *)
theory Memtable
  imports Ordered_Map
begin

text \<open>
  The in-memory table of the write path (\<open>crates/basemyai-engine/src/store/memtable.rs\<close>):
  a \<open>BTreeMap\<close> from keys to values where \<open>None\<close> is a tombstone. The locale
  \<open>write_layer\<close> is the contract of a layer that records puts and deletes; its lemma says
  what a layer holds after a list of operations, which is how the write-ahead log is
  replayed and how a batch is applied.
\<close>

subsection \<open>Operations\<close>

record memtable =
  mt_entries :: "(bytes \<times> bytes option) list"

definition mt_new :: memtable where
  "mt_new = \<lparr>mt_entries = []\<rparr>"

definition mt_put :: "bytes \<Rightarrow> bytes \<Rightarrow> memtable \<Rightarrow> memtable" where
  "mt_put k v m = m\<lparr>mt_entries := om_insert k (Some v) (mt_entries m)\<rparr>"

definition mt_delete :: "bytes \<Rightarrow> memtable \<Rightarrow> memtable" where
  "mt_delete k m = m\<lparr>mt_entries := om_insert k None (mt_entries m)\<rparr>"

definition mt_get :: "memtable \<Rightarrow> bytes \<Rightarrow> bytes option option" where
  "mt_get m k = map_of (mt_entries m) k"

definition mt_len :: "memtable \<Rightarrow> nat" where
  "mt_len m = length (mt_entries m)"

definition mt_is_empty :: "memtable \<Rightarrow> bool" where
  "mt_is_empty m \<longleftrightarrow> mt_entries m = []"

definition mt_clear :: "memtable \<Rightarrow> memtable" where
  "mt_clear m = m\<lparr>mt_entries := []\<rparr>"

definition mt_iter :: "memtable \<Rightarrow> (bytes \<times> bytes option) list" where
  "mt_iter m = mt_entries m"

definition mt_ok :: "memtable \<Rightarrow> bool" where
  "mt_ok m \<longleftrightarrow> sorted_keys (mt_entries m)"

subsection \<open>Layers that record puts and deletes\<close>

locale write_layer =
  fixes lput :: "bytes \<Rightarrow> bytes \<Rightarrow> 's \<Rightarrow> 's" and ldel :: "bytes \<Rightarrow> 's \<Rightarrow> 's"
    and look :: "'s \<Rightarrow> bytes \<Rightarrow> bytes option option" and linv :: "'s \<Rightarrow> bool"
  assumes put_inv: "linv s \<Longrightarrow> linv (lput k v s)"
    and del_inv: "linv s \<Longrightarrow> linv (ldel k s)"
    and look_put: "linv s \<Longrightarrow> look (lput k v s) = (look s)(k \<mapsto> Some v)"
    and look_del: "linv s \<Longrightarrow> look (ldel k s) = (look s)(k \<mapsto> None)"
begin

fun apply_op :: "bytes \<times> bytes option \<Rightarrow> 's \<Rightarrow> 's" where
  "apply_op (k, Some v) s = lput k v s"
| "apply_op (k, None) s = ldel k s"

lemma apply_op_inv: "linv s \<Longrightarrow> linv (apply_op e s)"
  by (cases "(e, s)" rule: apply_op.cases) (auto simp: put_inv del_inv)

lemma look_apply_op: "linv s \<Longrightarrow> look (apply_op (k, v) s) = (look s)(k \<mapsto> v)"
  by (cases v) (simp_all add: look_put look_del)

lemma fold_ops:
  assumes "linv s"
  shows "linv (fold apply_op es s) \<and> look (fold apply_op es s) = look s ++ map_of (rev es)"
  using assms
proof (induction es arbitrary: s)
  case (Cons e es)
  obtain k v where e: "e = (k, v)" by force
  have "look s ++ map_of (rev (e # es)) = look (apply_op e s) ++ map_of (rev es)"
    by (simp add: e look_apply_op [OF Cons.prems] map_add_def fun_eq_iff split: option.split)
  then show ?case using Cons.IH [OF apply_op_inv [OF Cons.prems, of e]] by simp
qed simp

lemma fold_ops_inv: "linv s \<Longrightarrow> linv (fold apply_op es s)"
  and look_fold_ops: "linv s \<Longrightarrow> look (fold apply_op es s) = look s ++ map_of (rev es)"
  by (simp_all add: fold_ops)

end

interpretation memtable: write_layer mt_put mt_delete mt_get mt_ok
  by unfold_locales (auto simp: mt_ok_def mt_put_def mt_delete_def mt_get_def)

subsection \<open>Applying operations to the memtable\<close>

definition mt_apply :: "bytes \<times> bytes option \<Rightarrow> memtable \<Rightarrow> memtable" where
  "mt_apply = (\<lambda>(k, v) m. case v of Some x \<Rightarrow> mt_put k x m | None \<Rightarrow> mt_delete k m)"

lemma mt_apply_eq: "mt_apply = memtable.apply_op"
proof (intro ext)
  fix e :: "bytes \<times> bytes option" and m
  obtain k v where "e = (k, v)" by force
  then show "mt_apply e m = memtable.apply_op e m" by (cases v) (simp_all add: mt_apply_def)
qed

lemma mt_apply_entries:
  "mt_entries (mt_apply (k, v) m) = om_insert k v (mt_entries m)"
  by (auto simp: mt_apply_def mt_put_def mt_delete_def split: option.split)

lemma mt_fold_entries: "mt_entries (fold mt_apply es m) = om_inserts es (mt_entries m)"
proof (induction es arbitrary: m)
  case (Cons e es)
  obtain k v where "e = (k, v)" by force
  then show ?case using Cons by (simp add: mt_apply_entries)
qed simp

lemma mt_ok_new [simp]: "mt_ok mt_new"
  by (simp add: mt_ok_def mt_new_def)

lemma mt_ok_apply [simp]: "mt_ok m \<Longrightarrow> mt_ok (mt_apply e m)"
  by (simp add: mt_apply_eq memtable.apply_op_inv)

lemmas mt_ok_fold = memtable.fold_ops_inv [folded mt_apply_eq]
  and mt_get_fold = memtable.look_fold_ops [folded mt_apply_eq]

lemma mt_get_new [simp]: "mt_get mt_new = Map.empty"
  by (auto simp: mt_get_def mt_new_def)

lemma mt_eqI: "mt_ok m \<Longrightarrow> mt_ok n \<Longrightarrow> mt_get m = mt_get n \<Longrightarrow> m = n"
  using sorted_keys_unique [of "mt_entries m" "mt_entries n"]
  by (auto simp: mt_ok_def mt_get_def fun_eq_iff)

end
