(* ===== verification/Sst_Format.thy ===== *)
theory Sst_Format
  imports Codec
begin

text \<open>
  The five sections of a block-based sorted-string table
  (\<open>crates/basemyai-engine/src/format/sst_block.rs\<close>) and the store-generation marker
  \<open>store.meta\<close> (\<open>crates/basemyai-engine/src/format/store_meta.rs\<close>): encoder, decoder and
  error behaviour of each. Every section ends in a CRC-32 that its decoder checks before it
  reads any other field.
\<close>

subsection \<open>Constants\<close>

definition SST_HEADER_MAGIC :: u32 where "SST_HEADER_MAGIC = 0x53424844"
definition SST_HEADER_VERSION :: u16 where "SST_HEADER_VERSION = 2"
definition SST_HEADER_LEN :: nat where "SST_HEADER_LEN = 4 + 2 + 8 + 4 + 8 + 4"
definition SST_HEADER_TOTAL_LEN :: nat where "SST_HEADER_TOTAL_LEN = SST_HEADER_LEN + 4"
definition SST_DATA_BLOCK_MAGIC :: u32 where "SST_DATA_BLOCK_MAGIC = 0x53424C4B"
definition SST_DATA_BLOCK_VERSION :: u16 where "SST_DATA_BLOCK_VERSION = 1"
definition BLOCK_HEADER_LEN :: nat where "BLOCK_HEADER_LEN = 4 + 2 + 4"
definition BLOCK_ENTRY_HEADER_LEN :: nat where "BLOCK_ENTRY_HEADER_LEN = 1 + 4 + 4"
definition SST_CRC_LEN :: nat where "SST_CRC_LEN = 4"
definition SST_BLOCK_INDEX_MAGIC :: u32 where "SST_BLOCK_INDEX_MAGIC = 0x53424958"
definition SST_BLOCK_INDEX_VERSION :: u16 where "SST_BLOCK_INDEX_VERSION = 2"
definition INDEX_HEADER_LEN :: nat where "INDEX_HEADER_LEN = 4 + 2 + 4"
definition INDEX_ENTRY_MIN_LEN :: nat where "INDEX_ENTRY_MIN_LEN = 4 + 4 + 8 + 4 + 4 + 4"
definition SST_BLOOM_MAGIC :: u32 where "SST_BLOOM_MAGIC = 0x53424C4D"
definition SST_BLOOM_VERSION :: u16 where "SST_BLOOM_VERSION = 1"
definition BLOOM_HEADER_LEN :: nat where "BLOOM_HEADER_LEN = 4 + 2 + 8 + 4 + 4"
definition SST_FOOTER_MAGIC :: u32 where "SST_FOOTER_MAGIC = 0x53424654"
definition SST_FOOTER_VERSION :: u16 where "SST_FOOTER_VERSION = 1"
definition SST_FOOTER_LEN :: nat where "SST_FOOTER_LEN = 4 + 2 + 8 + 4 + 8 + 4 + 4 + 4 + 4"
definition STORE_META_MAGIC :: u32 where "STORE_META_MAGIC = 0x424D5354"
definition STORE_FORMAT_VERSION :: u16 where "STORE_FORMAT_VERSION = 2"
definition STORE_META_LEN :: nat where "STORE_META_LEN = 4 + 2"
definition STORE_META_TOTAL_LEN :: nat where "STORE_META_TOTAL_LEN = STORE_META_LEN + 4"

lemmas sst_len_defs = SST_HEADER_TOTAL_LEN_def SST_HEADER_LEN_def BLOCK_HEADER_LEN_def
  BLOCK_ENTRY_HEADER_LEN_def SST_CRC_LEN_def INDEX_HEADER_LEN_def INDEX_ENTRY_MIN_LEN_def
  BLOOM_HEADER_LEN_def SST_FOOTER_LEN_def STORE_META_TOTAL_LEN_def STORE_META_LEN_def

text \<open>Sealing a section's body with its checksum, and the check its decoder starts with.\<close>

definition with_crc :: "bytes \<Rightarrow> bytes" where
  "with_crc body = body @ u32_le (crc32 body)"

subsection \<open>The header\<close>

record sst_header =
  h_sst_id :: u64
  h_block_size :: u32
  h_entry_count :: u64
  h_dim :: u32

definition encode_sst_header :: "sst_header \<Rightarrow> bytes" where
  "encode_sst_header header = with_crc
     (u32_le SST_HEADER_MAGIC @ u16_le SST_HEADER_VERSION @ u64_le (h_sst_id header)
      @ u32_le (h_block_size header) @ u64_le (h_entry_count header) @ u32_le (h_dim header))"

definition decode_sst_header :: "bytes \<Rightarrow> sst_header engine_result" where
  "decode_sst_header buf =
     (if length buf \<noteq> SST_HEADER_TOTAL_LEN then Inl (Corrupt SstHeader)
      else
        let crc_at = SST_HEADER_LEN;
            expected_crc = u32_of_le (drop crc_at buf);
            actual_crc = crc32 (take crc_at buf)
        in if actual_crc \<noteq> expected_crc then Inl (Corrupt SstHeader)
           else if u32_of_le (slice 0 4 buf) \<noteq> SST_HEADER_MAGIC then Inl (Corrupt SstHeader)
           else
             let version = u16_of_le (slice 4 6 buf)
             in if version \<noteq> SST_HEADER_VERSION
                then Inl (UnsupportedVersion SstHeader SST_HEADER_VERSION version)
                else
                  let sst_id = u64_of_le (slice 6 14 buf);
                      block_size = u32_of_le (slice 14 18 buf)
                  in if block_size = 0 then Inl (Corrupt SstHeader)
                     else Inr \<lparr>h_sst_id = sst_id, h_block_size = block_size,
                               h_entry_count = u64_of_le (slice 18 26 buf),
                               h_dim = u32_of_le (slice 26 30 buf)\<rparr>)"

subsection \<open>Data blocks\<close>

datatype sst_op = SstPut | SstTombstone

fun sst_op_tag :: "sst_op \<Rightarrow> u8" where
  "sst_op_tag SstPut = 1"
| "sst_op_tag SstTombstone = 2"

definition sst_op_from_tag :: "u8 \<Rightarrow> sst_op option" where
  "sst_op_from_tag tag =
     (if tag = 1 then Some SstPut else if tag = 2 then Some SstTombstone else None)"

record sst_entry =
  e_key :: bytes
  e_value :: "bytes option"

definition encode_sst_entry :: "sst_entry \<Rightarrow> bytes" where
  "encode_sst_entry entry =
     (let (op, val_bytes) = (case e_value entry of Some v \<Rightarrow> (SstPut, v) | None \<Rightarrow> (SstTombstone, []))
      in sst_op_tag op # u32_le (len32 (e_key entry)) @ u32_le (len32 val_bytes)
           @ e_key entry @ val_bytes)"

definition encode_sst_data_block :: "sst_entry list \<Rightarrow> bytes" where
  "encode_sst_data_block entries = with_crc
     (u32_le SST_DATA_BLOCK_MAGIC @ u16_le SST_DATA_BLOCK_VERSION @ u32_le (len32 entries)
      @ concat (map encode_sst_entry entries))"

fun decode_sst_entries :: "nat \<Rightarrow> bytes \<Rightarrow> nat \<Rightarrow> nat \<Rightarrow> (sst_entry list \<times> nat) engine_result" where
  "decode_sst_entries 0 buf crc_at pos = Inr ([], pos)"
| "decode_sst_entries (Suc n) buf crc_at pos =
     (if pos + BLOCK_ENTRY_HEADER_LEN > crc_at then Inl (Corrupt SstDataBlock)
      else case sst_op_from_tag (buf ! pos) of
        None \<Rightarrow> Inl (Corrupt SstDataBlock)
      | Some op \<Rightarrow>
          let pos1 = pos + 1;
              key_len = unat (u32_of_le (slice pos1 (pos1 + 4) buf));
              pos2 = pos1 + 4;
              val_len = unat (u32_of_le (slice pos2 (pos2 + 4) buf));
              pos3 = pos2 + 4
          in if pos3 + key_len + val_len > crc_at then Inl (Corrupt SstDataBlock)
             else
               let key = slice pos3 (pos3 + key_len) buf;
                   pos4 = pos3 + key_len;
                   val = (case op of SstPut \<Rightarrow> Some (slice pos4 (pos4 + val_len) buf)
                                   | SstTombstone \<Rightarrow> None);
                   pos5 = pos4 + val_len
               in rbind (decode_sst_entries n buf crc_at pos5)
                    (\<lambda>(es, end). Inr (\<lparr>e_key = key, e_value = val\<rparr> # es, end)))"

definition decode_sst_data_block :: "bytes \<Rightarrow> sst_entry list engine_result" where
  "decode_sst_data_block buf =
     (if length buf < BLOCK_HEADER_LEN + SST_CRC_LEN then Inl (Corrupt SstDataBlock)
      else
        let crc_at = length buf - SST_CRC_LEN;
            expected_crc = u32_of_le (drop crc_at buf);
            actual_crc = crc32 (take crc_at buf)
        in if actual_crc \<noteq> expected_crc then Inl (Corrupt SstDataBlock)
           else if u32_of_le (slice 0 4 buf) \<noteq> SST_DATA_BLOCK_MAGIC then Inl (Corrupt SstDataBlock)
           else
             let version = u16_of_le (slice 4 6 buf)
             in if version \<noteq> SST_DATA_BLOCK_VERSION
                then Inl (UnsupportedVersion SstDataBlock SST_DATA_BLOCK_VERSION version)
                else
                  let entry_count = u32_of_le (slice 6 10 buf);
                      remaining = crc_at - BLOCK_HEADER_LEN;
                      max_possible_entries = remaining div BLOCK_ENTRY_HEADER_LEN
                  in if unat entry_count > max_possible_entries then Inl (Corrupt SstDataBlock)
                     else rbind (decode_sst_entries (unat entry_count) buf crc_at BLOCK_HEADER_LEN)
                            (\<lambda>(entries, pos).
                               if pos \<noteq> crc_at then Inl (Corrupt SstDataBlock) else Inr entries))"

subsection \<open>The block index\<close>

record sst_block_index_entry =
  i_first_key :: bytes
  i_last_key :: bytes
  i_offset :: u64
  i_len :: u32
  i_entry_count :: u32
  i_tombstone_count :: u32

definition encode_sst_index_entry :: "sst_block_index_entry \<Rightarrow> bytes" where
  "encode_sst_index_entry entry =
     u32_le (len32 (i_first_key entry)) @ i_first_key entry
     @ u32_le (len32 (i_last_key entry)) @ i_last_key entry
     @ u64_le (i_offset entry) @ u32_le (i_len entry) @ u32_le (i_entry_count entry)
     @ u32_le (i_tombstone_count entry)"

definition encode_sst_block_index :: "sst_block_index_entry list \<Rightarrow> bytes" where
  "encode_sst_block_index entries = with_crc
     (u32_le SST_BLOCK_INDEX_MAGIC @ u16_le SST_BLOCK_INDEX_VERSION @ u32_le (len32 entries)
      @ concat (map encode_sst_index_entry entries))"

fun decode_index_entries ::
  "nat \<Rightarrow> bytes \<Rightarrow> nat \<Rightarrow> nat \<Rightarrow> (sst_block_index_entry list \<times> nat) engine_result" where
  "decode_index_entries 0 buf crc_at pos = Inr ([], pos)"
| "decode_index_entries (Suc n) buf crc_at pos =
     (if pos + 4 > crc_at then Inl (Corrupt SstBlockIndex)
      else
        let first_key_len = unat (u32_of_le (slice pos (pos + 4) buf));
            pos1 = pos + 4
        in if pos1 + first_key_len > crc_at then Inl (Corrupt SstBlockIndex)
           else
             let first_key = slice pos1 (pos1 + first_key_len) buf;
                 pos2 = pos1 + first_key_len
             in if pos2 + 4 > crc_at then Inl (Corrupt SstBlockIndex)
                else
                  let last_key_len = unat (u32_of_le (slice pos2 (pos2 + 4) buf));
                      pos3 = pos2 + 4
                  in if pos3 + last_key_len > crc_at then Inl (Corrupt SstBlockIndex)
                     else
                       let last_key = slice pos3 (pos3 + last_key_len) buf;
                           pos4 = pos3 + last_key_len
                       in if pos4 + 20 > crc_at then Inl (Corrupt SstBlockIndex)
                          else
                            rbind (decode_index_entries n buf crc_at (pos4 + 20))
                              (\<lambda>(es, end). Inr
                                (\<lparr>i_first_key = first_key, i_last_key = last_key,
                                  i_offset = u64_of_le (slice pos4 (pos4 + 8) buf),
                                  i_len = u32_of_le (slice (pos4 + 8) (pos4 + 12) buf),
                                  i_entry_count = u32_of_le (slice (pos4 + 12) (pos4 + 16) buf),
                                  i_tombstone_count = u32_of_le (slice (pos4 + 16) (pos4 + 20) buf)\<rparr>
                                 # es, end)))"

definition decode_sst_block_index :: "bytes \<Rightarrow> sst_block_index_entry list engine_result" where
  "decode_sst_block_index buf =
     (if length buf < INDEX_HEADER_LEN + SST_CRC_LEN then Inl (Corrupt SstBlockIndex)
      else
        let crc_at = length buf - SST_CRC_LEN;
            expected_crc = u32_of_le (drop crc_at buf);
            actual_crc = crc32 (take crc_at buf)
        in if actual_crc \<noteq> expected_crc then Inl (Corrupt SstBlockIndex)
           else if u32_of_le (slice 0 4 buf) \<noteq> SST_BLOCK_INDEX_MAGIC then Inl (Corrupt SstBlockIndex)
           else
             let version = u16_of_le (slice 4 6 buf)
             in if version \<noteq> SST_BLOCK_INDEX_VERSION
                then Inl (UnsupportedVersion SstBlockIndex SST_BLOCK_INDEX_VERSION version)
                else
                  let block_count = u32_of_le (slice 6 10 buf);
                      remaining = crc_at - INDEX_HEADER_LEN;
                      max_possible_entries = remaining div INDEX_ENTRY_MIN_LEN
                  in if unat block_count > max_possible_entries then Inl (Corrupt SstBlockIndex)
                     else rbind (decode_index_entries (unat block_count) buf crc_at INDEX_HEADER_LEN)
                            (\<lambda>(entries, pos).
                               if pos \<noteq> crc_at then Inl (Corrupt SstBlockIndex) else Inr entries))"

subsection \<open>The bloom filter section\<close>

record sst_bloom_filter =
  bf_num_bits :: u64
  bf_num_hashes :: u32
  bf_bits :: bytes

definition encode_sst_bloom_filter :: "sst_bloom_filter \<Rightarrow> bytes" where
  "encode_sst_bloom_filter filt = with_crc
     (u32_le SST_BLOOM_MAGIC @ u16_le SST_BLOOM_VERSION @ u64_le (bf_num_bits filt)
      @ u32_le (bf_num_hashes filt) @ u32_le (len32 (bf_bits filt)) @ bf_bits filt)"

definition div_ceil :: "nat \<Rightarrow> nat \<Rightarrow> nat" where
  "div_ceil a b = (a + b - 1) div b"

definition decode_sst_bloom_filter :: "bytes \<Rightarrow> sst_bloom_filter engine_result" where
  "decode_sst_bloom_filter buf =
     (if length buf < BLOOM_HEADER_LEN + SST_CRC_LEN then Inl (Corrupt SstBloomFilter)
      else
        let crc_at = length buf - SST_CRC_LEN;
            expected_crc = u32_of_le (drop crc_at buf);
            actual_crc = crc32 (take crc_at buf)
        in if actual_crc \<noteq> expected_crc then Inl (Corrupt SstBloomFilter)
           else if u32_of_le (slice 0 4 buf) \<noteq> SST_BLOOM_MAGIC then Inl (Corrupt SstBloomFilter)
           else
             let version = u16_of_le (slice 4 6 buf)
             in if version \<noteq> SST_BLOOM_VERSION
                then Inl (UnsupportedVersion SstBloomFilter SST_BLOOM_VERSION version)
                else
                  let num_bits = u64_of_le (slice 6 14 buf);
                      num_hashes = u32_of_le (slice 14 18 buf);
                      bits_len = unat (u32_of_le (slice 18 22 buf));
                      expected_bits_len = div_ceil (unat num_bits) 8
                  in if bits_len \<noteq> expected_bits_len then Inl (Corrupt SstBloomFilter)
                     else if bits_len \<noteq> crc_at - BLOOM_HEADER_LEN then Inl (Corrupt SstBloomFilter)
                     else Inr \<lparr>bf_num_bits = num_bits, bf_num_hashes = num_hashes,
                               bf_bits = slice BLOOM_HEADER_LEN crc_at buf\<rparr>)"

subsection \<open>The footer\<close>

record sst_footer =
  f_index_offset :: u64
  f_index_len :: u32
  f_bloom_offset :: u64
  f_bloom_len :: u32
  f_block_count :: u32

definition encode_sst_footer :: "sst_footer \<Rightarrow> bytes" where
  "encode_sst_footer footer = with_crc
     (u32_le SST_FOOTER_MAGIC @ u16_le SST_FOOTER_VERSION @ u64_le (f_index_offset footer)
      @ u32_le (f_index_len footer) @ u64_le (f_bloom_offset footer)
      @ u32_le (f_bloom_len footer) @ u32_le (f_block_count footer)) @ u32_le SST_FOOTER_MAGIC"

definition decode_sst_footer :: "bytes \<Rightarrow> sst_footer engine_result" where
  "decode_sst_footer buf =
     (if length buf \<noteq> SST_FOOTER_LEN then Inl (Corrupt SstFooter)
      else
        let footer_magic_at = SST_FOOTER_LEN - 4
        in if u32_of_le (drop footer_magic_at buf) \<noteq> SST_FOOTER_MAGIC then Inl (Corrupt SstFooter)
           else
             let crc_at = footer_magic_at - 4;
                 expected_crc = u32_of_le (slice crc_at footer_magic_at buf);
                 actual_crc = crc32 (take crc_at buf)
             in if actual_crc \<noteq> expected_crc then Inl (Corrupt SstFooter)
                else if u32_of_le (slice 0 4 buf) \<noteq> SST_FOOTER_MAGIC then Inl (Corrupt SstFooter)
                else
                  let version = u16_of_le (slice 4 6 buf)
                  in if version \<noteq> SST_FOOTER_VERSION
                     then Inl (UnsupportedVersion SstFooter SST_FOOTER_VERSION version)
                     else Inr \<lparr>f_index_offset = u64_of_le (slice 6 14 buf),
                               f_index_len = u32_of_le (slice 14 18 buf),
                               f_bloom_offset = u64_of_le (slice 18 26 buf),
                               f_bloom_len = u32_of_le (slice 26 30 buf),
                               f_block_count = u32_of_le (slice 30 34 buf)\<rparr>)"

subsection \<open>The store-generation marker\<close>

record store_meta =
  store_format_version :: u16

definition encode_store_meta :: "store_meta \<Rightarrow> bytes" where
  "encode_store_meta meta =
     with_crc (u32_le STORE_META_MAGIC @ u16_le (store_format_version meta))"

definition decode_store_meta :: "bytes \<Rightarrow> store_meta engine_result" where
  "decode_store_meta buf =
     (if length buf \<noteq> STORE_META_TOTAL_LEN then Inl (Corrupt StoreMeta)
      else
        let crc_at = STORE_META_LEN;
            expected_crc = u32_of_le (drop crc_at buf);
            actual_crc = crc32 (take crc_at buf)
        in if actual_crc \<noteq> expected_crc then Inl (Corrupt StoreMeta)
           else if u32_of_le (slice 0 4 buf) \<noteq> STORE_META_MAGIC then Inl (Corrupt StoreMeta)
           else Inr \<lparr>store_format_version = u16_of_le (slice 4 6 buf)\<rparr>)"

subsection \<open>Facts shared by the sections\<close>

lemma length_with_crc [simp]: "length (with_crc body) = length body + 4"
  by (simp add: with_crc_def)

lemma crc_split:
  assumes "length bs = n + 4" "crc32 (take n bs) = u32_of_le (drop n bs)"
  shows "bs = take n bs @ u32_le (crc32 (take n bs))"
  using assms by (simp add: u32_le_of_le)

lemma take_with_crc: "length body = n \<Longrightarrow> take n (with_crc body) = body"
  by (simp add: with_crc_def)

lemma drop_with_crc: "length body = n \<Longrightarrow> drop n (with_crc body) = u32_le (crc32 body)"
  by (simp add: with_crc_def)

lemma slice_with_crc: "b \<le> length body \<Longrightarrow> slice a b (with_crc body) = slice a b body"
  by (simp add: with_crc_def slice_append_left)

lemma nth_with_crc: "i < length body \<Longrightarrow> with_crc body ! i = body ! i"
  by (simp add: with_crc_def nth_append)

lemmas with_crc_reads = take_with_crc drop_with_crc slice_with_crc nth_with_crc

subsection \<open>Header, footer and store.meta\<close>

definition sst_header_ok :: "sst_header \<Rightarrow> bool" where
  "sst_header_ok h \<longleftrightarrow> h_block_size h \<noteq> 0"

lemma decode_encode_sst_header:
  "sst_header_ok h \<Longrightarrow> decode_sst_header (encode_sst_header h) = Inr h"
  by (simp add: decode_sst_header_def encode_sst_header_def sst_header_ok_def Let_def
      sst_len_defs with_crc_reads) (simp add: slice_def)

lemma decode_sst_header_checked:
  assumes "decode_sst_header bs = Inr h"
  shows "\<exists>body. bs = body @ u32_le (crc32 body) @ []"
proof -
  have "length bs = SST_HEADER_LEN + 4"
    "crc32 (take SST_HEADER_LEN bs) = u32_of_le (drop SST_HEADER_LEN bs)"
    using assms by (auto simp: decode_sst_header_def Let_def SST_HEADER_TOTAL_LEN_def split: if_splits)
  then show ?thesis using crc_split by fastforce
qed

interpretation sst_header: checked_codec encode_sst_header decode_sst_header sst_header_ok "[]"
  by unfold_locales (erule decode_sst_header_checked | simp add: decode_encode_sst_header)+

lemma decode_encode_sst_footer: "decode_sst_footer (encode_sst_footer f) = Inr f"
  by (simp add: decode_sst_footer_def encode_sst_footer_def Let_def sst_len_defs with_crc_def)
    (simp add: slice_def)

lemma decode_sst_footer_checked:
  assumes "decode_sst_footer bs = Inr f"
  shows "\<exists>body. bs = body @ u32_le (crc32 body) @ u32_le SST_FOOTER_MAGIC"
proof -
  define n where "n = SST_FOOTER_LEN - 8"
  have len: "length bs = n + 8" and m: "u32_of_le (drop (n + 4) bs) = SST_FOOTER_MAGIC"
    and c: "crc32 (take n bs) = u32_of_le (slice n (n + 4) bs)"
    using assms by (auto simp: decode_sst_footer_def Let_def n_def SST_FOOTER_LEN_def split: if_splits)
  have "drop (n + 4) bs = u32_le SST_FOOTER_MAGIC"
    using len by (simp flip: m add: u32_le_of_le)
  moreover have "slice n (n + 4) bs = u32_le (crc32 (take n bs))"
    using len by (simp add: c u32_le_of_le)
  moreover have "bs = take n bs @ slice n (n + 4) bs @ drop (n + 4) bs"
    by (simp add: slice_def) (metis append_take_drop_id drop_drop add.commute)
  ultimately show ?thesis by metis
qed

interpretation sst_footer: checked_codec encode_sst_footer decode_sst_footer "\<lambda>_. True"
  "u32_le SST_FOOTER_MAGIC"
  by unfold_locales (erule decode_sst_footer_checked | simp add: decode_encode_sst_footer)+

lemma decode_encode_store_meta: "decode_store_meta (encode_store_meta m) = Inr m"
  by (simp add: decode_store_meta_def encode_store_meta_def Let_def sst_len_defs with_crc_reads)
    (simp add: slice_def)

lemma decode_store_meta_checked:
  assumes "decode_store_meta bs = Inr h"
  shows "\<exists>body. bs = body @ u32_le (crc32 body) @ []"
proof -
  have "length bs = STORE_META_LEN + 4"
    "crc32 (take STORE_META_LEN bs) = u32_of_le (drop STORE_META_LEN bs)"
    using assms by (auto simp: decode_store_meta_def Let_def STORE_META_TOTAL_LEN_def split: if_splits)
  then show ?thesis using crc_split by fastforce
qed

interpretation store_meta: checked_codec encode_store_meta decode_store_meta "\<lambda>_. True" "[]"
  by unfold_locales (erule decode_store_meta_checked | simp add: decode_encode_store_meta)+

subsection \<open>Bloom filter section\<close>

definition sst_bloom_ok :: "sst_bloom_filter \<Rightarrow> bool" where
  "sst_bloom_ok f \<longleftrightarrow> length (bf_bits f) < 2 ^ 32 \<and> length (bf_bits f) = div_ceil (unat (bf_num_bits f)) 8"

lemma decode_encode_sst_bloom_filter:
  assumes "sst_bloom_ok f"
  shows "decode_sst_bloom_filter (encode_sst_bloom_filter f) = Inr f"
proof -
  define hd where "hd = u32_le SST_BLOOM_MAGIC @ u16_le SST_BLOOM_VERSION @ u64_le (bf_num_bits f)
      @ u32_le (bf_num_hashes f) @ u32_le (len32 (bf_bits f))"
  have enc: "encode_sst_bloom_filter f = with_crc (hd @ bf_bits f)"
    by (simp add: encode_sst_bloom_filter_def hd_def)
  have hd: "length hd = 22" "slice 0 4 hd = u32_le SST_BLOOM_MAGIC"
    "slice 4 6 hd = u16_le SST_BLOOM_VERSION" "slice 6 14 hd = u64_le (bf_num_bits f)"
    "slice 14 18 hd = u32_le (bf_num_hashes f)" "slice 18 22 hd = u32_le (len32 (bf_bits f))"
    by (simp_all add: hd_def slice_def)
  have "slice 22 (22 + length (bf_bits f)) (hd @ bf_bits f) = bf_bits f"
    using hd by (intro slice_end) simp_all
  then show ?thesis
    using assms by (simp add: enc decode_sst_bloom_filter_def Let_def sst_len_defs with_crc_reads
        slice_append_left hd sst_bloom_ok_def)
qed

lemma decode_sst_bloom_filter_checked:
  assumes "decode_sst_bloom_filter bs = Inr h"
  shows "\<exists>body. bs = body @ u32_le (crc32 body) @ []"
proof -
  define n where "n = length bs - SST_CRC_LEN"
  have "length bs = n + 4" "crc32 (take n bs) = u32_of_le (drop n bs)"
    using assms by (auto simp: decode_sst_bloom_filter_def Let_def n_def SST_CRC_LEN_def split: if_splits)
  then show ?thesis using crc_split by fastforce
qed

interpretation sst_bloom: checked_codec encode_sst_bloom_filter decode_sst_bloom_filter sst_bloom_ok "[]"
  by unfold_locales (erule decode_sst_bloom_filter_checked | simp add: decode_encode_sst_bloom_filter)+

subsection \<open>Data block section\<close>

definition sst_entry_ok :: "sst_entry \<Rightarrow> bool" where
  "sst_entry_ok e \<longleftrightarrow> length (e_key e) < 2 ^ 32
     \<and> (case e_value e of None \<Rightarrow> True | Some v \<Rightarrow> length v < 2 ^ 32)"

definition sst_data_block_ok :: "sst_entry list \<Rightarrow> bool" where
  "sst_data_block_ok es \<longleftrightarrow> length es < 2 ^ 32 \<and> (\<forall>e \<in> set es. sst_entry_ok e)"

definition entry_value_bytes :: "sst_entry \<Rightarrow> bytes" where
  "entry_value_bytes e = (case e_value e of Some v \<Rightarrow> v | None \<Rightarrow> [])"

definition entry_op :: "sst_entry \<Rightarrow> sst_op" where
  "entry_op e = (case e_value e of Some v \<Rightarrow> SstPut | None \<Rightarrow> SstTombstone)"

lemma sst_op_from_tag_tag [simp]: "sst_op_from_tag (sst_op_tag op) = Some op"
  by (cases op) (simp_all add: sst_op_from_tag_def)

lemma encode_sst_entry_alt:
  "encode_sst_entry e = sst_op_tag (entry_op e) # u32_le (len32 (e_key e))
     @ u32_le (len32 (entry_value_bytes e)) @ e_key e @ entry_value_bytes e"
  by (simp add: encode_sst_entry_def entry_op_def entry_value_bytes_def split: option.split)

lemma length_encode_sst_entry:
  "length (encode_sst_entry e) = 9 + length (e_key e) + length (entry_value_bytes e)"
  by (simp add: encode_sst_entry_alt)

lemma entries_len_bound: "9 * length es \<le> length (concat (map encode_sst_entry es))"
  by (induction es) (simp_all add: length_encode_sst_entry)

lemma decode_sst_entries_encode:
  assumes "\<forall>e \<in> set es. sst_entry_ok e"
    and "length pre + length (concat (map encode_sst_entry es)) \<le> crc_at"
  shows "decode_sst_entries (length es) (pre @ concat (map encode_sst_entry es) @ post) crc_at (length pre)
           = Inr (es, length pre + length (concat (map encode_sst_entry es)))"
  using assms
proof (induction es arbitrary: pre)
  case (Cons e es)
  define buf where "buf = pre @ concat (map encode_sst_entry (e # es)) @ post"
  define p1 where "p1 = length pre + 1"
  define p2 where "p2 = p1 + 4"
  define p3 where "p3 = p2 + 4"
  define p4 where "p4 = p3 + length (e_key e)"
  define p5 where "p5 = p4 + length (entry_value_bytes e)"
  from Cons.prems have e: "sst_entry_ok e" by simp
  have kl: "unat (len32 (e_key e)) = length (e_key e)"
    and vl: "unat (len32 (entry_value_bytes e)) = length (entry_value_bytes e)"
    using e by (simp_all add: sst_entry_ok_def entry_value_bytes_def split: option.splits)
  obtain rest where buf': "buf = (pre @ [sst_op_tag (entry_op e)]) @ u32_le (len32 (e_key e))
      @ u32_le (len32 (entry_value_bytes e)) @ e_key e @ entry_value_bytes e @ rest"
    by (simp add: buf_def encode_sst_entry_alt)
  have tag: "buf ! length pre = sst_op_tag (entry_op e)" by (simp add: buf')
  have K: "slice p1 p2 buf = u32_le (len32 (e_key e))"
    unfolding buf' by (rule slice_mid) (simp_all add: p1_def p2_def)
  have V: "slice p2 p3 buf = u32_le (len32 (entry_value_bytes e))"
    unfolding buf' by (simp add: slice_def p1_def p2_def p3_def)
  have key: "slice p3 p4 buf = e_key e"
    unfolding buf' by (simp add: slice_def p1_def p2_def p3_def p4_def)
  have val: "slice p4 p5 buf = entry_value_bytes e"
    using slice_mid [of "pre @ [sst_op_tag (entry_op e)] @ u32_le (len32 (e_key e))
        @ u32_le (len32 (entry_value_bytes e)) @ e_key e" p4 "entry_value_bytes e" p5 rest]
    by (simp add: buf' p1_def p2_def p3_def p4_def p5_def)
  have p5: "length (pre @ encode_sst_entry e) = p5"
    by (simp add: length_encode_sst_entry p1_def p2_def p3_def p4_def p5_def)
  have le: "(length pre + BLOCK_ENTRY_HEADER_LEN > crc_at) = False" "(p5 > crc_at) = False"
    using Cons.prems(2) p5
    by (simp_all add: length_encode_sst_entry p1_def p2_def p3_def p4_def p5_def sst_len_defs)
  have rec: "\<lparr>e_key = e_key e,
      e_value = case entry_op e of SstPut \<Rightarrow> Some (slice p4 p5 buf) | SstTombstone \<Rightarrow> None\<rparr> = e"
    unfolding val by (cases e) (simp add: entry_op_def entry_value_bytes_def split: option.splits)
  have "buf = (pre @ encode_sst_entry e) @ concat (map encode_sst_entry es) @ post"
    by (simp add: buf_def)
  then have IH: "decode_sst_entries (length es) buf crc_at p5
      = Inr (es, p5 + length (concat (map encode_sst_entry es)))"
    using Cons.IH [of "pre @ encode_sst_entry e"] Cons.prems p5 by simp
  have "decode_sst_entries (Suc (length es)) buf crc_at (length pre)
      = Inr (e # es, p5 + length (concat (map encode_sst_entry es)))"
    by (simp only: decode_sst_entries.simps le if_False tag sst_op_from_tag_tag option.case Let_def
        p1_def [symmetric] p2_def [symmetric] p3_def [symmetric] K V u32_of_le_u32_le kl vl
        p4_def [symmetric] p5_def [symmetric] IH rbind.simps prod.case key rec)
  then show ?case using p5 by (simp add: buf_def length_encode_sst_entry)
qed simp

lemma decode_encode_sst_data_block:
  assumes "sst_data_block_ok es"
  shows "decode_sst_data_block (encode_sst_data_block es) = Inr es"
proof -
  define hd where "hd = u32_le SST_DATA_BLOCK_MAGIC @ u16_le SST_DATA_BLOCK_VERSION @ u32_le (len32 es)"
  define xs where "xs = concat (map encode_sst_entry es)"
  have enc: "encode_sst_data_block es = with_crc (hd @ xs)"
    by (simp add: encode_sst_data_block_def hd_def xs_def)
  have hd: "length hd = 10" "slice 0 4 hd = u32_le SST_DATA_BLOCK_MAGIC"
    "slice 4 6 hd = u16_le SST_DATA_BLOCK_VERSION" "slice 6 10 hd = u32_le (len32 es)"
    by (simp_all add: hd_def slice_def)
  have "decode_sst_entries (length es) (hd @ xs @ u32_le (crc32 (hd @ xs))) (10 + length xs) 10
      = Inr (es, 10 + length xs)"
    using decode_sst_entries_encode [of es hd "10 + length xs"] assms hd
    by (simp add: sst_data_block_ok_def xs_def)
  moreover have "length es \<le> length xs div 9"
    using entries_len_bound [of es] by (simp add: xs_def)
  ultimately show ?thesis
    using assms by (simp add: enc decode_sst_data_block_def Let_def sst_len_defs with_crc_reads
        slice_append_left hd sst_data_block_ok_def) (simp add: with_crc_def)
qed

lemma decode_sst_data_block_checked:
  assumes "decode_sst_data_block bs = Inr h"
  shows "\<exists>body. bs = body @ u32_le (crc32 body) @ []"
proof -
  define n where "n = length bs - SST_CRC_LEN"
  have "length bs = n + 4" "crc32 (take n bs) = u32_of_le (drop n bs)"
    using assms by (auto simp: decode_sst_data_block_def Let_def n_def SST_CRC_LEN_def split: if_splits)
  then show ?thesis using crc_split by fastforce
qed

interpretation sst_data_block: checked_codec encode_sst_data_block decode_sst_data_block
  sst_data_block_ok "[]"
  by unfold_locales (erule decode_sst_data_block_checked | simp add: decode_encode_sst_data_block)+

subsection \<open>Block index section\<close>

definition sst_index_entry_ok :: "sst_block_index_entry \<Rightarrow> bool" where
  "sst_index_entry_ok e \<longleftrightarrow> length (i_first_key e) < 2 ^ 32 \<and> length (i_last_key e) < 2 ^ 32"

definition sst_block_index_ok :: "sst_block_index_entry list \<Rightarrow> bool" where
  "sst_block_index_ok es \<longleftrightarrow> length es < 2 ^ 32 \<and> (\<forall>e \<in> set es. sst_index_entry_ok e)"

lemma length_encode_sst_index_entry:
  "length (encode_sst_index_entry e) = 28 + length (i_first_key e) + length (i_last_key e)"
  by (simp add: encode_sst_index_entry_def)

lemma index_entries_len_bound: "28 * length es \<le> length (concat (map encode_sst_index_entry es))"
  by (induction es) (simp_all add: length_encode_sst_index_entry)

lemma decode_index_entries_encode:
  assumes "\<forall>e \<in> set es. sst_index_entry_ok e"
    and "length pre + length (concat (map encode_sst_index_entry es)) \<le> crc_at"
  shows "decode_index_entries (length es) (pre @ concat (map encode_sst_index_entry es) @ post) crc_at (length pre)
           = Inr (es, length pre + length (concat (map encode_sst_index_entry es)))"
  using assms
proof (induction es arbitrary: pre)
  case (Cons e es)
  define buf where "buf = pre @ concat (map encode_sst_index_entry (e # es)) @ post"
  define p0 where "p0 = length pre"
  define p1 where "p1 = p0 + 4"
  define p2 where "p2 = p1 + length (i_first_key e)"
  define p3 where "p3 = p2 + 4"
  define p4 where "p4 = p3 + length (i_last_key e)"
  define p5 where "p5 = p4 + 20"
  note ps = p0_def p1_def p2_def p3_def p4_def p5_def
  from Cons.prems have e: "sst_index_entry_ok e" by simp
  have kl: "unat (len32 (i_first_key e)) = length (i_first_key e)"
    and vl: "unat (len32 (i_last_key e)) = length (i_last_key e)"
    using e by (simp_all add: sst_index_entry_ok_def)
  define tl where "tl = u64_le (i_offset e) @ u32_le (i_len e) @ u32_le (i_entry_count e)
      @ u32_le (i_tombstone_count e)"
  obtain rest where buf': "buf = pre @ u32_le (len32 (i_first_key e)) @ i_first_key e
      @ u32_le (len32 (i_last_key e)) @ i_last_key e @ tl @ rest"
    by (simp add: buf_def encode_sst_index_entry_def tl_def)
  have F: "slice p0 p1 buf = u32_le (len32 (i_first_key e))"
    unfolding buf' by (rule slice_mid) (simp_all add: ps)
  have first: "slice p1 p2 buf = i_first_key e"
    unfolding buf' by (simp add: slice_def ps)
  have L: "slice p2 p3 buf = u32_le (len32 (i_last_key e))"
    using slice_mid [of "pre @ u32_le (len32 (i_first_key e)) @ i_first_key e" p2
        "u32_le (len32 (i_last_key e))" p3 "i_last_key e @ tl @ rest"] by (simp add: buf' ps)
  have last: "slice p3 p4 buf = i_last_key e"
    using slice_mid [of "pre @ u32_le (len32 (i_first_key e)) @ i_first_key e
        @ u32_le (len32 (i_last_key e))" p3 "i_last_key e" p4 "tl @ rest"] by (simp add: buf' ps)
  obtain q where q: "buf = q @ tl @ rest" "length q = p4"
    by (rule that [of "pre @ u32_le (len32 (i_first_key e)) @ i_first_key e
        @ u32_le (len32 (i_last_key e)) @ i_last_key e"]) (simp_all add: buf' ps)
  have tl: "slice p4 (p4 + 8) buf = u64_le (i_offset e)"
    "slice (p4 + 8) (p4 + 12) buf = u32_le (i_len e)"
    "slice (p4 + 12) (p4 + 16) buf = u32_le (i_entry_count e)"
    "slice (p4 + 16) p5 buf = u32_le (i_tombstone_count e)"
    using q(2) by (simp_all add: q(1) slice_def tl_def p5_def)
  have p5: "length (pre @ encode_sst_index_entry e) = p5"
    by (simp add: length_encode_sst_index_entry ps)
  have le: "(p1 > crc_at) = False" "(p2 > crc_at) = False" "(p3 > crc_at) = False"
    "(p4 > crc_at) = False" "(p5 > crc_at) = False"
    using Cons.prems(2) p5 by (simp_all add: length_encode_sst_index_entry ps)
  have rec: "\<lparr>i_first_key = i_first_key e, i_last_key = i_last_key e, i_offset = i_offset e,
      i_len = i_len e, i_entry_count = i_entry_count e, i_tombstone_count = i_tombstone_count e\<rparr> = e"
    by simp
  have "buf = (pre @ encode_sst_index_entry e) @ concat (map encode_sst_index_entry es) @ post"
    by (simp add: buf_def)
  then have IH: "decode_index_entries (length es) buf crc_at p5
      = Inr (es, p5 + length (concat (map encode_sst_index_entry es)))"
    using Cons.IH [of "pre @ encode_sst_index_entry e"] Cons.prems p5 by simp
  have "decode_index_entries (Suc (length es)) buf crc_at p0
      = Inr (e # es, p5 + length (concat (map encode_sst_index_entry es)))"
    by (simp only: decode_index_entries.simps le if_False Let_def p1_def [symmetric]
        F u32_of_le_u32_le kl p2_def [symmetric] p3_def [symmetric] L vl p4_def [symmetric]
        p5_def [symmetric] IH rbind.simps prod.case first last tl u64_of_le_u64_le rec)
  then show ?case using p5 by (simp add: buf_def length_encode_sst_index_entry p0_def)
qed simp

lemma decode_encode_sst_block_index:
  assumes "sst_block_index_ok es"
  shows "decode_sst_block_index (encode_sst_block_index es) = Inr es"
proof -
  define hd where "hd = u32_le SST_BLOCK_INDEX_MAGIC @ u16_le SST_BLOCK_INDEX_VERSION @ u32_le (len32 es)"
  define xs where "xs = concat (map encode_sst_index_entry es)"
  have enc: "encode_sst_block_index es = with_crc (hd @ xs)"
    by (simp add: encode_sst_block_index_def hd_def xs_def)
  have hd: "length hd = 10" "slice 0 4 hd = u32_le SST_BLOCK_INDEX_MAGIC"
    "slice 4 6 hd = u16_le SST_BLOCK_INDEX_VERSION" "slice 6 10 hd = u32_le (len32 es)"
    by (simp_all add: hd_def slice_def)
  have "decode_index_entries (length es) (hd @ xs @ u32_le (crc32 (hd @ xs))) (10 + length xs) 10
      = Inr (es, 10 + length xs)"
    using decode_index_entries_encode [of es hd "10 + length xs"] assms hd
    by (simp add: sst_block_index_ok_def xs_def)
  moreover have "length es \<le> length xs div 28"
    using index_entries_len_bound [of es] by (simp add: xs_def)
  ultimately show ?thesis
    using assms by (simp add: enc decode_sst_block_index_def Let_def sst_len_defs with_crc_reads
        slice_append_left hd sst_block_index_ok_def) (simp add: with_crc_def)
qed

lemma decode_sst_block_index_checked:
  assumes "decode_sst_block_index bs = Inr h"
  shows "\<exists>body. bs = body @ u32_le (crc32 body) @ []"
proof -
  define n where "n = length bs - SST_CRC_LEN"
  have "length bs = n + 4" "crc32 (take n bs) = u32_of_le (drop n bs)"
    using assms by (auto simp: decode_sst_block_index_def Let_def n_def SST_CRC_LEN_def split: if_splits)
  then show ?thesis using crc_split by fastforce
qed

interpretation sst_block_index: checked_codec encode_sst_block_index decode_sst_block_index
  sst_block_index_ok "[]"
  by unfold_locales (erule decode_sst_block_index_checked | simp add: decode_encode_sst_block_index)+

end
