(* ===== verification/Bloom.thy ===== *)
theory Bloom
  imports Sst_Format Crypto
begin

text \<open>
  The bloom filter of a table (\<open>struct Bloom\<close> in
  \<open>crates/basemyai-engine/src/store/sst_block.rs\<close>): sizing, double hashing, insertion and
  membership over the wire bytes. The hash function is \<open>DefaultHasher\<close>, whose algorithm the
  standard library leaves unspecified; it is the parameter \<open>x_hash\<close> of \<open>externals\<close>, a
  function of the bytes fed to it (a slice feeds its length as eight bytes and then its
  bytes).
\<close>

subsection \<open>Operations\<close>

definition BLOOM_BITS_PER_KEY :: nat where "BLOOM_BITS_PER_KEY = 10"
definition BLOOM_NUM_HASHES :: nat where "BLOOM_NUM_HASHES = 7"

record bloom =
  bl_bits :: bytes
  bl_num_bits :: u64

definition bloom_new :: "nat \<Rightarrow> bloom" where
  "bloom_new expected_keys =
     (let num_bits = max (expected_keys * BLOOM_BITS_PER_KEY) 64;
          num_bytes = div_ceil num_bits 8
      in \<lparr>bl_bits = replicate num_bytes 0, bl_num_bits = word_of_nat (num_bytes * 8)\<rparr>)"

definition slice_hash_input :: "bytes \<Rightarrow> bytes" where
  "slice_hash_input key = u64_le (word_of_nat (length key)) @ key"

definition bloom_hashes :: "externals \<Rightarrow> bytes \<Rightarrow> u64 \<times> u64" where
  "bloom_hashes X key =
     (x_hash X (slice_hash_input key), x_hash X (u64_le 0xB10C5EED @ slice_hash_input key) OR 1)"

definition bloom_bit :: "externals \<Rightarrow> u64 \<Rightarrow> bytes \<Rightarrow> nat \<Rightarrow> nat" where
  "bloom_bit X num_bits key i =
     (let (h1, h2) = bloom_hashes X key in unat ((h1 + word_of_nat i * h2) mod num_bits))"

definition set_bit8 :: "nat \<Rightarrow> bytes \<Rightarrow> bytes" where
  "set_bit8 b bits = bits[b div 8 := (bits ! (b div 8)) OR push_bit (b mod 8) 1]"

definition test_bit8 :: "nat \<Rightarrow> bytes \<Rightarrow> bool" where
  "test_bit8 b bits \<longleftrightarrow> (bits ! (b div 8)) AND push_bit (b mod 8) 1 \<noteq> 0"

definition bloom_insert :: "externals \<Rightarrow> bytes \<Rightarrow> bloom \<Rightarrow> bloom" where
  "bloom_insert X key f =
     f\<lparr>bl_bits := fold (\<lambda>i bits. set_bit8 (bloom_bit X (bl_num_bits f) key i) bits)
                    [0..<BLOOM_NUM_HASHES] (bl_bits f)\<rparr>"

definition bloom_contains :: "externals \<Rightarrow> bloom \<Rightarrow> bytes \<Rightarrow> bool" where
  "bloom_contains X f key =
     list_all (\<lambda>i. test_bit8 (bloom_bit X (bl_num_bits f) key i) (bl_bits f)) [0..<BLOOM_NUM_HASHES]"

definition to_filter :: "bloom \<Rightarrow> sst_bloom_filter" where
  "to_filter f = \<lparr>bf_num_bits = bl_num_bits f, bf_num_hashes = word_of_nat BLOOM_NUM_HASHES,
     bf_bits = bl_bits f\<rparr>"

definition from_filter :: "sst_bloom_filter \<Rightarrow> bloom" where
  "from_filter filt = \<lparr>bl_bits = bf_bits filt, bl_num_bits = bf_num_bits filt\<rparr>"

subsection \<open>Well-formed filters\<close>

text \<open>Rust indexes out of bounds, or divides by zero, when this fails.\<close>

definition bloom_ok :: "bloom \<Rightarrow> bool" where
  "bloom_ok f \<longleftrightarrow> 0 < bl_num_bits f \<and> length (bl_bits f) * 8 = unat (bl_num_bits f)"

lemma bloom_bit_less: "bloom_ok f \<Longrightarrow> bloom_bit X (bl_num_bits f) key i < length (bl_bits f) * 8"
proof -
  assume ok: "bloom_ok f"
  have "w mod bl_num_bits f < bl_num_bits f" for w
    using ok by (simp add: bloom_ok_def word_mod_less_divisor)
  then show ?thesis using ok
    by (simp add: bloom_bit_def Let_def bloom_ok_def word_less_nat_alt split: prod.split)
qed

lemma length_set_bit8 [simp]: "length (set_bit8 b bits) = length bits"
  by (simp add: set_bit8_def)

lemma test_bit8_iff: "test_bit8 b bits \<longleftrightarrow> bit (bits ! (b div 8)) (b mod 8)"
proof -
  have "(x :: u8) AND push_bit n 1 \<noteq> 0 \<longleftrightarrow> bit x n" if "n < 8" for x n
  proof -
    have "x AND push_bit n 1 = (if bit x n then push_bit n 1 else 0)"
      by (rule bit_word_eqI) (auto simp: bit_and_iff bit_exp_iff)
    moreover have "push_bit n 1 \<noteq> (0 :: u8)" using that by simp
    ultimately show ?thesis by simp
  qed
  then show ?thesis by (simp add: test_bit8_def)
qed

lemma test_set_bit8:
  assumes "b < length bits * 8"
  shows "test_bit8 b (set_bit8 b bits)" "test_bit8 c bits \<Longrightarrow> test_bit8 c (set_bit8 b bits)"
proof -
  have lt: "b div 8 < length bits" using assms by simp
  have m: "bit (push_bit n 1 :: u8) n" if "n < 8" for n
    using that by (simp add: bit_exp_iff)
  show "test_bit8 b (set_bit8 b bits)"
    using lt m [of "b mod 8"] by (simp add: test_bit8_iff set_bit8_def bit_or_iff)
  show "test_bit8 c bits \<Longrightarrow> test_bit8 c (set_bit8 b bits)"
    using lt by (cases "c div 8 = b div 8") (simp_all add: test_bit8_iff set_bit8_def bit_or_iff)
qed

lemma fold_set_bit8:
  assumes "\<forall>b \<in> set bs. b < length bits * 8"
  shows "length (fold set_bit8 bs bits) = length bits"
    and "\<forall>b \<in> set bs. test_bit8 b (fold set_bit8 bs bits)"
    and "test_bit8 c bits \<Longrightarrow> test_bit8 c (fold set_bit8 bs bits)"
proof -
  have keep: "test_bit8 c bits \<Longrightarrow> test_bit8 c (fold set_bit8 bs bits)"
    if "\<forall>b \<in> set bs. b < length bits * 8" for c bs bits
    using that by (induction bs arbitrary: bits) (auto simp: test_set_bit8(2))
  show "length (fold set_bit8 bs bits) = length bits"
    by (induction bs arbitrary: bits) auto
  show "\<forall>b \<in> set bs. test_bit8 b (fold set_bit8 bs bits)"
    using assms by (induction bs arbitrary: bits) (auto simp: keep test_set_bit8)
  show "test_bit8 c bits \<Longrightarrow> test_bit8 c (fold set_bit8 bs bits)"
    using keep assms by blast
qed

lemma bloom_insert_fold:
  "bl_bits (bloom_insert X key f)
     = fold set_bit8 (map (bloom_bit X (bl_num_bits f) key) [0..<BLOOM_NUM_HASHES]) (bl_bits f)"
  by (simp add: bloom_insert_def fold_map comp_def)

lemma bloom_insert_ok:
  assumes "bloom_ok f"
  shows "bloom_ok (bloom_insert X key f)" "bloom_contains X (bloom_insert X key f) key"
    and "bloom_contains X f k \<Longrightarrow> bloom_contains X (bloom_insert X key f) k"
proof -
  have b: "\<forall>b \<in> set (map (bloom_bit X (bl_num_bits f) key) [0..<BLOOM_NUM_HASHES]).
      b < length (bl_bits f) * 8"
    using bloom_bit_less [OF assms] by auto
  have n: "bl_num_bits (bloom_insert X key f) = bl_num_bits f" by (simp add: bloom_insert_def)
  note F = fold_set_bit8 [OF b, folded bloom_insert_fold]
  show "bloom_ok (bloom_insert X key f)" using assms F(1) by (simp add: bloom_ok_def n)
  show "bloom_contains X (bloom_insert X key f) key"
    using F(2) by (simp add: bloom_contains_def n list_all_iff)
  show "bloom_contains X f k \<Longrightarrow> bloom_contains X (bloom_insert X key f) k"
    using F(3) by (simp add: bloom_contains_def n list_all_iff)
qed

lemma bloom_new_ok:
  assumes "n < 2 ^ 56" shows "bloom_ok (bloom_new n)"
proof -
  define m where "m = div_ceil (max (n * BLOOM_BITS_PER_KEY) 64) 8"
  define M where "M = max (n * BLOOM_BITS_PER_KEY) 64"
  have "M \<le> 1152921504606846976" "64 \<le> M"
    using assms by (simp_all add: M_def BLOOM_BITS_PER_KEY_def)
  then have "m * 8 < 18446744073709551616" "0 < m"
    unfolding m_def div_ceil_def M_def [symmetric] by (simp_all add: div_greater_zero_iff)
  then have u: "unat (word_of_nat (m * 8) :: u64) = m * 8"
    by (subst unat_of_nat) (simp del: of_nat_mult)
  moreover have "0 < (word_of_nat (m * 8) :: u64)"
    using u \<open>0 < m\<close> by (simp add: word_less_nat_alt del: of_nat_mult)
  ultimately show ?thesis
    by (simp add: bloom_ok_def bloom_new_def Let_def del: of_nat_mult flip: m_def)
qed

definition bloom_of_keys :: "externals \<Rightarrow> bytes list \<Rightarrow> bloom" where
  "bloom_of_keys X keys = fold (bloom_insert X) keys (bloom_new (length keys))"

lemma bloom_fold_insert:
  assumes "bloom_ok f"
  shows "bloom_ok (fold (bloom_insert X) keys f)
    \<and> (\<forall>k. k \<in> set keys \<or> bloom_contains X f k \<longrightarrow> bloom_contains X (fold (bloom_insert X) keys f) k)
    \<and> bl_num_bits (fold (bloom_insert X) keys f) = bl_num_bits f"
  using assms
proof (induction keys arbitrary: f)
  case (Cons key keys)
  have "bl_num_bits (bloom_insert X key f) = bl_num_bits f" by (simp add: bloom_insert_def)
  then show ?case using Cons.IH [OF bloom_insert_ok(1) [OF Cons.prems]] bloom_insert_ok [OF Cons.prems]
    by auto
qed simp

lemma from_to_filter [simp]: "from_filter (to_filter f) = f"
  by (simp add: from_filter_def to_filter_def)

lemma bloom_ok_wire:
  assumes "bloom_ok f" "length (bl_bits f) < 2 ^ 32"
  shows "sst_bloom_ok (to_filter f)"
  using assms by (auto simp: sst_bloom_ok_def to_filter_def bloom_ok_def div_ceil_def)

subsection \<open>Properties\<close>

text \<open>
  The filter has no false negatives, whatever the hash function: every key inserted
  while a table is written is found, also after the filter went through its wire format.
\<close>

theorem bloom_no_false_negative:
  assumes "key \<in> set keys" "length keys < 2 ^ 31"
  shows "bloom_contains X (bloom_of_keys X keys) key
    \<and> (\<exists>filt. decode_sst_bloom_filter (encode_sst_bloom_filter (to_filter (bloom_of_keys X keys))) = Inr filt
        \<and> bloom_contains X (from_filter filt) key)"
proof -
  have ok: "bloom_ok (bloom_new (length keys))" using assms(2) by (intro bloom_new_ok) simp
  note F = bloom_fold_insert [OF ok, of X keys, folded bloom_of_keys_def]
  have "length (bl_bits (bloom_of_keys X keys)) * 8 = unat (bl_num_bits (bloom_new (length keys)))"
    using F by (simp add: bloom_ok_def)
  also have "\<dots> = length (bl_bits (bloom_new (length keys))) * 8" using ok by (simp add: bloom_ok_def)
  finally have "length (bl_bits (bloom_of_keys X keys)) < 2 ^ 32"
    using assms(2) by (simp add: bloom_new_def Let_def div_ceil_def BLOOM_BITS_PER_KEY_def)
  then have "sst_bloom_ok (to_filter (bloom_of_keys X keys))" using F by (intro bloom_ok_wire) auto
  then have "decode_sst_bloom_filter (encode_sst_bloom_filter (to_filter (bloom_of_keys X keys)))
      = Inr (to_filter (bloom_of_keys X keys))"
    by (rule decode_encode_sst_bloom_filter)
  then show ?thesis using F assms(1) by auto
qed

theorem bloom_no_false_negative_witness:
  "bloom_contains toy_externals (bloom_of_keys toy_externals [[1], [2, 3]]) [2, 3]"
  using bloom_no_false_negative [of "[2, 3]" "[[1], [2, 3]]" toy_externals] by simp

end
