(* ===== verification/Block_Cache.thy ===== *)
theory Block_Cache
  imports Prelude
begin

text \<open>
  The bounded cache of decoded data blocks
  (\<open>crates/basemyai-engine/src/store/block_cache.rs\<close>): \<open>get\<close>, \<open>insert\<close> with its
  least-recently-used eviction loop, \<open>invalidate_sst\<close> and the hit and miss counters. The
  \<open>HashMap\<close> is an association list without duplicate keys. The mutex of the Rust type
  serialises the operations; a poisoned lock, which needs a panic inside one of them, is not
  modelled.
\<close>

type_synonym cached_block = "(bytes \<times> bytes option) list"
type_synonym block_id = "nat \<times> nat"

record cache_entry =
  ce_block :: cached_block
  ce_bytes :: nat
  ce_last_used :: nat

record block_cache =
  bc_entries :: "(block_id \<times> cache_entry) list"
  bc_resident_bytes :: nat
  bc_tick :: nat
  bc_hits :: nat
  bc_misses :: nat
  bc_capacity_bytes :: nat

definition block_bytes :: "cached_block \<Rightarrow> nat" where
  "block_bytes entries =
     sum_list (map (\<lambda>(k, v). length k + (case v of None \<Rightarrow> 0 | Some x \<Rightarrow> length x)) entries)"

definition bc_new :: "nat \<Rightarrow> block_cache" where
  "bc_new capacity = \<lparr>bc_entries = [], bc_resident_bytes = 0, bc_tick = 0, bc_hits = 0,
     bc_misses = 0, bc_capacity_bytes = capacity\<rparr>"

definition touch :: "nat \<Rightarrow> block_id \<Rightarrow> (block_id \<times> cache_entry) list
    \<Rightarrow> (block_id \<times> cache_entry) list" where
  "touch tick key es =
     map (\<lambda>(k, e). (k, if k = key then e\<lparr>ce_last_used := tick\<rparr> else e)) es"

definition bc_get :: "block_cache \<Rightarrow> nat \<Rightarrow> nat \<Rightarrow> cached_block option \<times> block_cache" where
  "bc_get c sst_id block_no =
     (let tick = bc_tick c + 1;
          hit = map_option ce_block (map_of (bc_entries c) (sst_id, block_no));
          c' = c\<lparr>bc_tick := tick, bc_entries := touch tick (sst_id, block_no) (bc_entries c)\<rparr>
      in (hit, if hit \<noteq> None then c'\<lparr>bc_hits := bc_hits c + 1\<rparr>
               else c'\<lparr>bc_misses := bc_misses c + 1\<rparr>))"

text \<open>The entry with the smallest tick; the first such in iteration order.\<close>

fun lru_victim :: "(block_id \<times> cache_entry) list \<Rightarrow> block_id option" where
  "lru_victim [] = None"
| "lru_victim ((k, e) # es) =
     (case lru_victim es of
        None \<Rightarrow> Some k
      | Some k' \<Rightarrow>
          (case map_of es k' of
             Some e' \<Rightarrow> if ce_last_used e \<le> ce_last_used e' then Some k else Some k'
           | None \<Rightarrow> Some k))"

lemma lru_victim_mem: "lru_victim es = Some k \<Longrightarrow> k \<in> fst ` set es"
  by (induction es arbitrary: k rule: lru_victim.induct)
    (auto split: option.splits if_splits dest: map_of_SomeD)

definition remove_key :: "block_id \<Rightarrow> (block_id \<times> cache_entry) list
    \<Rightarrow> (block_id \<times> cache_entry) list" where
  "remove_key k es = filter (\<lambda>(k', e). k' \<noteq> k) es"

lemma remove_key_less: "k \<in> fst ` set es \<Longrightarrow> length (remove_key k es) < length es"
proof -
  assume "k \<in> fst ` set es"
  then obtain e where "(k, e) \<in> set es" by (metis imageE prod.collapse)
  then show ?thesis unfolding remove_key_def by (rule length_filter_less) simp
qed

text \<open>The eviction loop: stops when the new block fits or nothing is left.\<close>

function evict :: "nat \<Rightarrow> nat \<Rightarrow> (block_id \<times> cache_entry) list \<Rightarrow> nat
    \<Rightarrow> (block_id \<times> cache_entry) list \<times> nat" where
  "evict cap bytes es resident =
     (if resident + bytes > cap then
        (case lru_victim es of
           None \<Rightarrow> (es, resident)
         | Some victim \<Rightarrow>
             evict cap bytes (remove_key victim es)
               (case map_of es victim of
                  Some e \<Rightarrow> resident - ce_bytes e
                | None \<Rightarrow> resident))
      else (es, resident))"
  by pat_completeness auto
termination
  by (relation "measure (\<lambda>(cap, bytes, es, resident). length es)")
    (auto dest: lru_victim_mem intro: remove_key_less)

declare evict.simps [simp del]

definition bc_insert :: "block_cache \<Rightarrow> nat \<Rightarrow> nat \<Rightarrow> cached_block \<Rightarrow> block_cache" where
  "bc_insert c sst_id block_no block =
     (let bytes = block_bytes block
      in if (sst_id, block_no) \<in> fst ` set (bc_entries c) then c
         else
           let tick = bc_tick c + 1;
               (es, resident) = evict (bc_capacity_bytes c) bytes (bc_entries c) (bc_resident_bytes c)
           in c\<lparr>bc_tick := tick, bc_resident_bytes := resident + bytes,
                bc_entries := ((sst_id, block_no),
                  \<lparr>ce_block = block, ce_bytes = bytes, ce_last_used = tick\<rparr>) # es\<rparr>)"

definition invalidate_sst :: "block_cache \<Rightarrow> nat \<Rightarrow> block_cache" where
  "invalidate_sst c sst_id =
     c\<lparr>bc_entries := filter (\<lambda>x. fst (fst x) \<noteq> sst_id) (bc_entries c),
       bc_resident_bytes := bc_resident_bytes c
         - sum_list (map (\<lambda>(k, e). ce_bytes e) (filter (\<lambda>x. fst (fst x) = sst_id) (bc_entries c)))\<rparr>"

subsection \<open>Invariant\<close>

definition entries_bytes :: "(block_id \<times> cache_entry) list \<Rightarrow> nat" where
  "entries_bytes es = sum_list (map (\<lambda>(k, e). ce_bytes e) es)"

text \<open>
  No block is cached twice, each entry records its block's size, the running total is the
  sum of the sizes, ticks are in the past and no two entries share one (so the victim is
  unique), and the total exceeds the budget only when a single block does.
\<close>

definition entry_stored_ok :: "cache_entry \<Rightarrow> bool" where
  "entry_stored_ok e \<longleftrightarrow> ce_bytes e = block_bytes (ce_block e)"

definition ticks :: "(block_id \<times> cache_entry) list \<Rightarrow> nat list" where
  "ticks es = map (\<lambda>(k, e). ce_last_used e) es"

definition bc_ok :: "block_cache \<Rightarrow> bool" where
  "bc_ok c \<longleftrightarrow> distinct (map fst (bc_entries c))
     \<and> (\<forall>(k, e) \<in> set (bc_entries c). entry_stored_ok e \<and> ce_last_used e \<le> bc_tick c)
     \<and> distinct (ticks (bc_entries c))
     \<and> bc_resident_bytes c = entries_bytes (bc_entries c)
     \<and> (bc_resident_bytes c \<le> bc_capacity_bytes c \<or> length (bc_entries c) = 1)"

lemma entries_bytes_remove:
  assumes "distinct (map fst es)" "map_of es k = Some e"
  shows "entries_bytes (remove_key k es) + ce_bytes e = entries_bytes es"
  using assms
proof (induction es)
  case (Cons x es)
  obtain k' e' where x: "x = (k', e')" by (cases x)
  show ?case
  proof (cases "k' = k")
    case True
    then have "remove_key k es = es"
      using Cons.prems(1) by (auto simp: remove_key_def filter_id_conv x image_iff)
    then show ?thesis using True Cons.prems by (simp add: x entries_bytes_def remove_key_def)
  next
    case False
    then show ?thesis using Cons by (simp add: x entries_bytes_def remove_key_def)
  qed
qed simp

lemma set_remove_key: "set (remove_key k es) \<subseteq> set es"
  by (auto simp: remove_key_def)

text \<open>What the eviction loop guarantees.\<close>

lemma evict_ok:
  assumes "evict cap bytes es resident = (es', resident')"
    and "distinct (map fst es)" "resident = entries_bytes es"
  shows "resident' = entries_bytes es' \<and> (\<exists>P. es' = filter P es)
    \<and> (resident' + bytes \<le> cap \<or> es' = [])"
  using assms
proof (induction cap bytes es resident rule: evict.induct)
  case (1 cap bytes es resident)
  show ?case
  proof (cases "resident + bytes > cap \<and> lru_victim es \<noteq> None")
    case False
    have none: "lru_victim es = None \<Longrightarrow> es = []"
      by (cases es rule: lru_victim.cases) (auto split: option.splits if_splits)
    have eq: "es' = es" "resident' = resident" "resident + bytes \<le> cap \<or> lru_victim es = None"
      using False 1(2) [unfolded evict.simps [of cap bytes es resident]]
      by (auto split: if_splits option.splits)
    have ex: "\<exists>P. es' = filter P es"
      unfolding eq(1) by (rule exI [of _ "\<lambda>_. True"]) (rule filter_True [symmetric], simp)
    have "resident' = entries_bytes es'" "resident' + bytes \<le> cap \<or> es' = []"
      using none eq 1(4) by auto
    with ex show ?thesis by simp
  next
    case True
    then obtain v where v: "lru_victim es = Some v" by auto
    then obtain e where e: "map_of es v = Some e"
      using lru_victim_mem by (metis map_of_eq_None_iff not_None_eq)
    have bytes: "entries_bytes (remove_key v es) = resident - ce_bytes e"
      using entries_bytes_remove [OF 1(3) e] 1(4) by simp
    have ev: "evict cap bytes (remove_key v es) (resident - ce_bytes e) = (es', resident')"
      using 1(2) [unfolded evict.simps [of cap bytes es resident]] True by (simp add: v e)
    have d: "distinct (map fst (remove_key v es))"
      unfolding remove_key_def by (rule distinct_map_filter [OF 1(3)])
    have IH: "resident' = entries_bytes es' \<and> (\<exists>P. es' = filter P (remove_key v es))
        \<and> (resident' + bytes \<le> cap \<or> es' = [])"
      using 1(1) [OF conjunct1 [OF True] v, unfolded e option.case, OF ev d bytes [symmetric]] .
    then obtain P where "es' = filter P (remove_key v es)" by blast
    then have "es' = filter (\<lambda>x. (case x of (k', e) \<Rightarrow> k' \<noteq> v) \<and> P x) es"
      by (simp only: remove_key_def filter_filter)
    then show ?thesis using IH by blast
  qed
qed

subsection \<open>Preservation\<close>

lemma map_of_touch:
  "map_of (touch t k es) = (\<lambda>k'. map_option (\<lambda>e. if k' = k then e\<lparr>ce_last_used := t\<rparr> else e) (map_of es k'))"
  unfolding touch_def by (induction es) (auto simp: fun_eq_iff)

lemma touch_simps:
  "map fst (touch t k es) = map fst es" "entries_bytes (touch t k es) = entries_bytes es"
  "length (touch t k es) = length es"
  by (auto simp: touch_def entries_bytes_def comp_def intro!: arg_cong [of _ _ sum_list])

lemma bc_ok_new [simp]: "bc_ok (bc_new cap)"
  by (simp add: bc_ok_def bc_new_def entries_bytes_def ticks_def)

lemma bc_okD:
  assumes "bc_ok c"
  shows "distinct (map fst (bc_entries c))" "distinct (ticks (bc_entries c))"
    and "\<And>k e. (k, e) \<in> set (bc_entries c) \<Longrightarrow> entry_stored_ok e \<and> ce_last_used e \<le> bc_tick c"
    and "bc_resident_bytes c = entries_bytes (bc_entries c)"
    and "entries_bytes (bc_entries c) \<le> bc_capacity_bytes c \<or> length (bc_entries c) = 1"
  using assms by (auto simp: bc_ok_def)

lemma ticks_filter: "distinct (ticks es) \<Longrightarrow> distinct (ticks (filter P es))"
  unfolding ticks_def by (rule distinct_map_filter)

lemma set_ticks: "set (ticks es) = {ce_last_used e | k e. (k, e) \<in> set es}"
  by (force simp: ticks_def)

lemma distinct_fresh_update:
  assumes "distinct (map fst es)" "distinct (ticks es)" "\<forall>(k, e) \<in> set es. ce_last_used e < t"
  shows "distinct (ticks (touch t key es))"
  using assms
proof (induction es)
  case (Cons x es)
  obtain k e where x: "x = (k, e)" by (cases x)
  have IH: "distinct (ticks (touch t key es))" using Cons by (simp add: ticks_def)
  show ?case
  proof (cases "k = key")
    case True
    then have "touch t key es = es"
      using Cons.prems(1) unfolding touch_def by (intro map_idI) (force simp: x image_iff)
    moreover have "t \<notin> set (ticks es)" using Cons.prems(3) by (auto simp: set_ticks)
    ultimately show ?thesis using Cons.prems True by (simp add: x touch_def ticks_def)
  next
    case False
    have "ce_last_used e \<notin> set (ticks es)" "ce_last_used e \<noteq> t"
      using Cons.prems by (auto simp: x ticks_def)
    then have "ce_last_used e \<notin> set (ticks (touch t key es))"
      by (auto simp: set_ticks touch_def split: if_splits)
    then show ?thesis using IH False by (simp add: x touch_def ticks_def)
  qed
qed (simp add: touch_def ticks_def)

lemma bc_get_ok:
  assumes "bc_ok c" shows "bc_ok (snd (bc_get c i n))"
proof -
  let ?es = "touch (bc_tick c + 1) (i, n) (bc_entries c)"
  note ok = bc_okD [OF assms]
  have "distinct (ticks ?es)"
    by (rule distinct_fresh_update) (use ok in \<open>force+\<close>)
  moreover have "\<forall>(k, e) \<in> set ?es. entry_stored_ok e \<and> ce_last_used e \<le> bc_tick c + 1"
    using ok(3) by (fastforce simp: touch_def entry_stored_ok_def)
  ultimately show ?thesis
    using ok unfolding bc_ok_def bc_get_def Let_def
    by (cases "map_of (bc_entries c) (i, n)") (simp_all add: touch_simps)
qed

lemma evict_filter:
  assumes "bc_ok c"
    and "evict (bc_capacity_bytes c) bytes (bc_entries c) (bc_resident_bytes c) = (es, r)"
  obtains P where "r = entries_bytes es" "es = filter P (bc_entries c)"
    "r + bytes \<le> bc_capacity_bytes c \<or> es = []"
  using evict_ok [OF assms(2)] bc_okD(1,4) [OF assms(1)] that by metis

lemma bc_insert_ok:
  assumes "bc_ok c" shows "bc_ok (bc_insert c i n b)"
proof (cases "(i, n) \<in> fst ` set (bc_entries c)")
  case False
  obtain es r where ev: "evict (bc_capacity_bytes c) (block_bytes b) (bc_entries c) (bc_resident_bytes c) = (es, r)"
    by (metis surj_pair)
  then obtain P where es: "r = entries_bytes es" "es = filter P (bc_entries c)"
      "r + block_bytes b \<le> bc_capacity_bytes c \<or> es = []"
    using evict_filter [OF assms] by blast
  have t: "\<forall>(k, e) \<in> set es. entry_stored_ok e \<and> ce_last_used e \<le> bc_tick c"
    using assms by (auto simp: bc_ok_def es)
  then have "Suc (bc_tick c) \<notin> set (ticks es)" by (auto simp: set_ticks)
  moreover have "distinct (map fst es)" "distinct (ticks es)" "(i, n) \<notin> fst ` set es"
    using assms False by (auto simp: es(2) bc_ok_def distinct_map_filter ticks_filter)
  moreover have "\<forall>(k, e) \<in> set es. entry_stored_ok e \<and> ce_last_used e \<le> Suc (bc_tick c)"
    using t by (auto intro: le_SucI)
  ultimately show ?thesis
    using False es(1,3) by (auto simp: bc_ok_def bc_insert_def ev entries_bytes_def entry_stored_ok_def ticks_def Let_def)
qed (use assms in \<open>simp add: bc_insert_def Let_def\<close>)

lemma entries_bytes_split:
  "entries_bytes es = entries_bytes (filter P es) + entries_bytes (filter (\<lambda>x. \<not> P x) es)"
  by (induction es) (auto simp: entries_bytes_def)

lemma invalidate_sst_ok:
  assumes "bc_ok c" shows "bc_ok (invalidate_sst c i)"
proof -
  let ?P = "\<lambda>x. fst (fst x) \<noteq> i"
  note ok = bc_okD [OF assms]
  have split: "entries_bytes (bc_entries c)
      = entries_bytes (filter ?P (bc_entries c)) + entries_bytes (filter (\<lambda>x. fst (fst x) = i) (bc_entries c))"
    using entries_bytes_split [of "bc_entries c" ?P] by simp
  have "length (filter ?P (bc_entries c)) \<le> length (bc_entries c)" by simp
  then have "entries_bytes (filter ?P (bc_entries c)) \<le> bc_capacity_bytes c
      \<or> length (filter ?P (bc_entries c)) = 1"
    using ok(5) split by (cases "filter ?P (bc_entries c)") (auto simp: entries_bytes_def)
  moreover have "bc_resident_bytes (invalidate_sst c i) = entries_bytes (filter ?P (bc_entries c))"
    using ok(4) split by (simp add: invalidate_sst_def entries_bytes_def)
  ultimately show ?thesis
    using ok(1-3) by (auto simp: bc_ok_def invalidate_sst_def distinct_map_filter ticks_filter)
qed

subsection \<open>What a lookup may return\<close>

text \<open>
  Only what was inserted comes back, and nothing of an invalidated table: for every
  predicate on identified blocks that the inserted block satisfies, the cached blocks do.
\<close>

definition bc_blocks :: "block_cache \<Rightarrow> (block_id \<times> cached_block) set" where
  "bc_blocks c = (\<lambda>(k, e). (k, ce_block e)) ` set (bc_entries c)"

lemma bc_blocks_new [simp]: "bc_blocks (bc_new cap) = {}"
  by (simp add: bc_blocks_def bc_new_def)

lemma bc_blocks_get [simp]: "bc_blocks (snd (bc_get c i n)) = bc_blocks c"
proof -
  have "bc_entries (snd (bc_get c i n)) = touch (bc_tick c + 1) (i, n) (bc_entries c)"
    by (simp add: bc_get_def Let_def)
  moreover have "(\<lambda>(k, e). (k, ce_block e)) ` set (touch t (i, n) es) = (\<lambda>(k, e). (k, ce_block e)) ` set es"
    for t es unfolding touch_def set_map image_image by (rule image_cong) auto
  ultimately show ?thesis by (simp add: bc_blocks_def)
qed

lemma bc_get_hit: "fst (bc_get c i n) = Some b \<Longrightarrow> ((i, n), b) \<in> bc_blocks c"
  by (force simp: bc_blocks_def bc_get_def Let_def dest: map_of_SomeD)

lemma bc_blocks_insert: "bc_ok c \<Longrightarrow> bc_blocks (bc_insert c i n b) \<subseteq> insert ((i, n), b) (bc_blocks c)"
proof -
  assume ok: "bc_ok c"
  obtain es r where ev: "evict (bc_capacity_bytes c) (block_bytes b) (bc_entries c) (bc_resident_bytes c) = (es, r)"
    by (metis surj_pair)
  then obtain P where "es = filter P (bc_entries c)"
    using evict_filter [OF ok] by blast
  then have "set es \<subseteq> set (bc_entries c)" by auto
  then show ?thesis
    by (cases "(i, n) \<in> fst ` set (bc_entries c)") (auto simp: bc_insert_def ev bc_blocks_def Let_def)
qed

lemma bc_blocks_invalidate: "bc_blocks (invalidate_sst c i) = {((j, n), b) \<in> bc_blocks c. j \<noteq> i}"
  by (force simp: bc_blocks_def invalidate_sst_def)

subsection \<open>Any sequence of calls\<close>

datatype cache_call = CGet nat nat | CInsert nat nat cached_block | CInvalidate nat

fun bc_call :: "cache_call \<Rightarrow> block_cache \<Rightarrow> block_cache" where
  "bc_call (CGet i n) c = snd (bc_get c i n)"
| "bc_call (CInsert i n b) c = bc_insert c i n b"
| "bc_call (CInvalidate i) c = invalidate_sst c i"

definition bc_run :: "nat \<Rightarrow> cache_call list \<Rightarrow> block_cache" where
  "bc_run cap calls = fold bc_call calls (bc_new cap)"

lemma bc_call_ok: "bc_ok c \<Longrightarrow> bc_ok (bc_call x c)"
  by (cases x) (simp_all add: bc_get_ok bc_insert_ok invalidate_sst_ok)

lemma bc_run_snoc [simp]: "bc_run cap (calls @ [x]) = bc_call x (bc_run cap calls)"
  by (simp add: bc_run_def)

lemma bc_run_ok: "bc_ok (bc_run cap calls)"
  by (induction calls rule: rev_induct) (simp_all add: bc_call_ok, simp add: bc_run_def)

lemma evict_capacity_unchanged: "bc_capacity_bytes (bc_call x c) = bc_capacity_bytes c"
  by (cases x) (auto simp: bc_get_def bc_insert_def invalidate_sst_def Let_def split: prod.splits)

lemma bc_run_capacity [simp]: "bc_capacity_bytes (bc_run cap calls) = cap"
  by (induction calls rule: rev_induct)
    (simp_all add: evict_capacity_unchanged, simp add: bc_run_def bc_new_def)

definition inserted_last :: "cache_call list \<Rightarrow> nat \<Rightarrow> nat \<Rightarrow> cached_block \<Rightarrow> bool" where
  "inserted_last calls i n b \<longleftrightarrow>
     (\<exists>pre post. calls = pre @ CInsert i n b # post \<and> CInvalidate i \<notin> set post)"

lemma inserted_last_snoc:
  "inserted_last calls i n b \<Longrightarrow> x \<noteq> CInvalidate i \<Longrightarrow> inserted_last (calls @ [x]) i n b"
  unfolding inserted_last_def by (elim exE) (metis append_Cons append_assoc insert_iff list.set(2)
      rotate1.simps(2) set_rotate1)

lemma bc_run_blocks:
  "((i, n), b) \<in> bc_blocks (bc_run cap calls) \<Longrightarrow> inserted_last calls i n b"
proof (induction calls rule: rev_induct)
  case Nil
  then show ?case by (simp add: bc_run_def)
next
  case (snoc x calls)
  show ?case
  proof (cases "((i, n), b) \<in> bc_blocks (bc_run cap calls) \<and> x \<noteq> CInvalidate i")
    case True
    then show ?thesis using snoc.IH inserted_last_snoc by blast
  next
    case False
    then have "x = CInsert i n b"
      using snoc.prems bc_blocks_insert [OF bc_run_ok [of cap calls]]
      by (cases x) (auto simp: bc_blocks_invalidate)
    then show ?thesis unfolding inserted_last_def by fastforce
  qed
qed

subsection \<open>Properties\<close>

text \<open>
  C31. After any sequence of calls the cache's accounting is exact and within budget: no
  block is resident twice, \<open>resident_bytes\<close> is the sum of the resident blocks' sizes, it
  exceeds the capacity only when a single oversized block is cached, and no two entries
  share a tick, so the eviction victim is unique.
\<close>

theorem cache_accounting:
  fixes cap calls
  defines "c \<equiv> bc_run cap calls"
  shows "distinct (map fst (bc_entries c)) \<and> distinct (ticks (bc_entries c))
    \<and> bc_resident_bytes c = sum_list (map (\<lambda>(k, e). block_bytes (ce_block e)) (bc_entries c))
    \<and> (cap < bc_resident_bytes c \<longrightarrow> length (bc_entries c) = 1)"
proof -
  note ok = bc_okD [OF bc_run_ok [of cap calls], folded c_def]
  have "map (\<lambda>(k, e). ce_bytes e) (bc_entries c) = map (\<lambda>(k, e). block_bytes (ce_block e)) (bc_entries c)"
    using ok(3) by (auto simp: entry_stored_ok_def)
  then have "entries_bytes (bc_entries c) = sum_list (map (\<lambda>(k, e). block_bytes (ce_block e)) (bc_entries c))"
    by (simp only: entries_bytes_def)
  then show ?thesis using ok(1,2,4,5) by (auto simp: c_def)
qed

theorem cache_accounting_witness:
  "bc_resident_bytes (bc_run 10 [CInsert 1 0 [([1], Some (replicate 20 2))]]) = 21
     \<and> length (bc_entries (bc_run 10 [CInsert 1 0 [([1], Some (replicate 20 2))]])) = 1"
proof -
  have "bc_resident_bytes (bc_run 10 [CInsert 1 0 [([1], Some (replicate 20 2))]]) = 21"
    by (simp add: bc_run_def bc_insert_def bc_new_def evict.simps block_bytes_def)
  then show ?thesis
    using cache_accounting [of 10 "[CInsert 1 0 [([1], Some (replicate 20 2))]]"] by simp
qed

text \<open>
  A hit returns a block that was inserted under exactly that table and number, and not
  invalidated since: the cache never serves a block of a removed table.
\<close>

theorem cache_hit_sound:
  assumes "fst (bc_get (bc_run cap calls) i n) = Some b"
  shows "\<exists>pre post. calls = pre @ CInsert i n b # post \<and> CInvalidate i \<notin> set post"
  using bc_run_blocks [OF bc_get_hit [OF assms]] by (simp add: inserted_last_def)

theorem cache_hit_sound_witness:
  "\<exists>pre post. [CInsert 3 0 [([1], None)]] = pre @ CInsert 3 0 [([1], None)] # post
     \<and> CInvalidate 3 \<notin> set post"
proof (rule cache_hit_sound [of 100])
  show "fst (bc_get (bc_run 100 [CInsert 3 0 [([1], None)]]) 3 0) = Some [([1], None)]"
    by (simp add: bc_run_def bc_insert_def bc_new_def evict.simps block_bytes_def bc_get_def Let_def)
qed

end
