(* ===== verification/Sst_Read.thy ===== *)
theory Sst_Read
  imports Bloom Block_Cache Ordered_Map
begin

text \<open>
  The reader of block-based tables (\<open>BlockSstFile\<close> in
  \<open>crates/basemyai-engine/src/store/sst_block.rs\<close>): per-section sealing, the verified read
  of one block, point lookup through bloom filter, block index and cache, full, prefix,
  range and limited scans. A table on disk is its bytes, or \<open>None\<close> where the file cannot
  be opened.

  \<open>partition_point\<close> and \<open>binary_search_by\<close> of the standard library are specified only on
  partitioned and sorted slices; the model returns the length of the leading run that
  satisfies the predicate, and the entry with an equal key.
\<close>

type_synonym kv = "bytes \<times> bytes option"

definition partition_point :: "('a \<Rightarrow> bool) \<Rightarrow> 'a list \<Rightarrow> nat" where
  "partition_point P xs = length (takeWhile P xs)"

subsection \<open>Sections\<close>

definition seal_section ::
  "externals \<Rightarrow> crypto_context option \<Rightarrow> bytes \<Rightarrow> bytes \<Rightarrow> nat \<Rightarrow> sst_section \<Rightarrow> nat
     \<Rightarrow> bytes engine_result" where
  "seal_section X crypto nonce plain sst_id section section_no =
     (case crypto of
        None \<Rightarrow> Inr plain
      | Some ctx \<Rightarrow>
          rbind (crypto_seal X ctx nonce plain
                   (encrypted_sst_block_aad (word_of_nat sst_id) section (word_of_nat section_no)))
            (\<lambda>(n, ct). Inr (encode_encrypted_sst_block n ct)))"

definition open_section ::
  "externals \<Rightarrow> crypto_context option \<Rightarrow> bytes \<Rightarrow> nat \<Rightarrow> sst_section \<Rightarrow> nat
     \<Rightarrow> bytes engine_result" where
  "open_section X crypto raw sst_id section section_no =
     (case crypto of
        None \<Rightarrow> Inr raw
      | Some ctx \<Rightarrow>
          rbind (decode_encrypted_sst_block raw) (\<lambda>(nonce, ciphertext).
            case crypto_open X ctx nonce ciphertext
                   (encrypted_sst_block_aad (word_of_nat sst_id) section (word_of_nat section_no)) of
              None \<Rightarrow> Inl (Corrupt EncryptedSstBlock)
            | Some plain \<Rightarrow> Inr plain))"

definition read_span :: "bytes \<Rightarrow> nat \<Rightarrow> nat \<Rightarrow> bytes engine_result" where
  "read_span contents offset len =
     (if len = 0 \<or> offset + len \<le> length contents then Inr (slice offset (offset + len) contents)
      else Inl Io)"

subsection \<open>An open table\<close>

record sst_file =
  s_id :: nat
  s_file_bytes :: nat
  s_tombstones :: nat
  s_bytes_read_at_open :: nat
  s_entry_count :: nat
  s_block_index :: "sst_block_index_entry list"
  s_bloom :: bloom
  s_crypto :: "crypto_context option"

definition read_and_verify_block ::
  "externals \<Rightarrow> sst_file \<Rightarrow> bytes \<Rightarrow> nat \<Rightarrow> sst_block_index_entry \<Rightarrow> kv list engine_result" where
  "read_and_verify_block X s contents block_no entry =
     rbind (read_span contents (unat (i_offset entry)) (unat (i_len entry))) (\<lambda>raw.
     rbind (open_section X (s_crypto s) raw (s_id s) Data block_no) (\<lambda>plain.
     rbind (decode_sst_data_block plain) (\<lambda>decoded.
       if decoded = [] then Inl (Corrupt SstBlockIndex)
       else if e_key (hd decoded) \<noteq> i_first_key entry \<or> e_key (last decoded) \<noteq> i_last_key entry
       then Inl (Corrupt SstBlockIndex)
       else if length decoded \<noteq> unat (i_entry_count entry) then Inl (Corrupt SstBlockIndex)
       else Inr (map (\<lambda>e. (e_key e, e_value e)) decoded))))"

definition open_file :: "bytes option \<Rightarrow> bytes engine_result" where
  "open_file disk_file = (case disk_file of None \<Rightarrow> Inl Io | Some contents \<Rightarrow> Inr contents)"

subsection \<open>Point lookup\<close>

text \<open>Result, number of blocks read from disk, and the cache after the lookup.\<close>

definition sst_get ::
  "externals \<Rightarrow> sst_file \<Rightarrow> bytes option \<Rightarrow> bytes \<Rightarrow> block_cache
     \<Rightarrow> (bytes option option \<times> nat \<times> block_cache) engine_result" where
  "sst_get X s disk_file key cache =
     (if \<not> bloom_contains X (s_bloom s) key then Inr (None, 0, cache)
      else
        let idx = partition_point (\<lambda>e. i_last_key e < key) (s_block_index s)
        in if idx \<ge> length (s_block_index s) then Inr (None, 0, cache)
           else
             let entry = s_block_index s ! idx
             in if key < i_first_key entry then Inr (None, 0, cache)
                else
                  let (hit, cache1) = bc_get cache (s_id s) idx
                  in rbind (case hit of
                              Some cached \<Rightarrow> Inr (cached, 0, cache1)
                            | None \<Rightarrow>
                                rbind (open_file disk_file) (\<lambda>contents.
                                rbind (read_and_verify_block X s contents idx entry) (\<lambda>decoded.
                                  Inr (decoded, 1, bc_insert cache1 (s_id s) idx decoded))))
                       (\<lambda>(block_entries, blocks_read, cache2).
                          Inr (map_option snd (find (\<lambda>(k, v). k = key) block_entries),
                               blocks_read, cache2)))"

subsection \<open>Scans\<close>

fun read_blocks ::
  "externals \<Rightarrow> sst_file \<Rightarrow> bytes \<Rightarrow> nat \<Rightarrow> sst_block_index_entry list \<Rightarrow> kv list engine_result" where
  "read_blocks X s contents block_no [] = Inr []"
| "read_blocks X s contents block_no (e # es) =
     rbind (read_and_verify_block X s contents block_no e) (\<lambda>decoded.
     rbind (read_blocks X s contents (Suc block_no) es) (\<lambda>rest. Inr (decoded @ rest)))"

definition sst_entries :: "externals \<Rightarrow> sst_file \<Rightarrow> bytes option \<Rightarrow> kv list engine_result" where
  "sst_entries X s disk_file =
     rbind (open_file disk_file) (\<lambda>contents. read_blocks X s contents 0 (s_block_index s))"

text \<open>
  The loop the bounded scans share: stop at the first block that \<open>stop\<close> rules out, or, when
  there is a limit, at the first block after \<open>limit\<close> matches were collected; otherwise read
  the block and keep the entries \<open>keep\<close> selects. Returns the matches, whether the limit cut
  the walk short, and the number of blocks read.
\<close>

fun scan_blocks ::
  "externals \<Rightarrow> sst_file \<Rightarrow> bytes \<Rightarrow> (bytes \<Rightarrow> bool) \<Rightarrow> (bytes \<Rightarrow> bool) \<Rightarrow> nat option
     \<Rightarrow> nat \<Rightarrow> sst_block_index_entry list \<Rightarrow> kv list \<Rightarrow> (kv list \<times> bool \<times> nat) engine_result" where
  "scan_blocks X s contents stop keep limit block_no [] out = Inr (out, False, 0)"
| "scan_blocks X s contents stop keep limit block_no (e # es) out =
     (if stop (i_first_key e) then Inr (out, False, 0)
      else if (case limit of Some l \<Rightarrow> l \<le> length out | None \<Rightarrow> False) then Inr (out, True, 0)
      else
        rbind (read_and_verify_block X s contents block_no e) (\<lambda>decoded.
        rbind (scan_blocks X s contents stop keep limit (Suc block_no) es
                 (out @ filter (\<lambda>(k, v). keep k) decoded)) (\<lambda>(res, truncated, blocks_read).
          Inr (res, truncated, Suc blocks_read))))"

definition scan_from ::
  "externals \<Rightarrow> sst_file \<Rightarrow> bytes option \<Rightarrow> bytes \<Rightarrow> (bytes \<Rightarrow> bool) \<Rightarrow> (bytes \<Rightarrow> bool)
     \<Rightarrow> nat option \<Rightarrow> (kv list \<times> bool \<times> nat) engine_result" where
  "scan_from X s disk_file lo stop keep limit =
     (let start = partition_point (\<lambda>e. i_last_key e < lo) (s_block_index s)
      in if start = length (s_block_index s) then Inr ([], False, 0)
         else rbind (open_file disk_file) (\<lambda>contents.
                scan_blocks X s contents stop keep limit start (drop start (s_block_index s)) []))"

definition entries_with_prefix ::
  "externals \<Rightarrow> sst_file \<Rightarrow> bytes option \<Rightarrow> bytes \<Rightarrow> (kv list \<times> nat) engine_result" where
  "entries_with_prefix X s disk_file pre =
     rbind (scan_from X s disk_file pre (\<lambda>first. first > pre \<and> \<not> prefix pre first) (prefix pre) None)
       (\<lambda>(out, truncated, blocks_read). Inr (out, blocks_read))"

definition entries_with_range ::
  "externals \<Rightarrow> sst_file \<Rightarrow> bytes option \<Rightarrow> bytes \<Rightarrow> bytes \<Rightarrow> (kv list \<times> nat) engine_result" where
  "entries_with_range X s disk_file start end =
     (if start \<ge> end then Inr ([], 0)
      else
        rbind (scan_from X s disk_file start (\<lambda>first. first \<ge> end) (\<lambda>k. k \<ge> start \<and> k < end) None)
          (\<lambda>(out, truncated, blocks_read). Inr (out, blocks_read)))"

definition entries_with_range_limited ::
  "externals \<Rightarrow> sst_file \<Rightarrow> bytes option \<Rightarrow> bytes \<Rightarrow> bytes \<Rightarrow> nat
     \<Rightarrow> (kv list \<times> bool \<times> nat) engine_result" where
  "entries_with_range_limited X s disk_file start end limit =
     (if start \<ge> end \<or> limit = 0 then Inr ([], False, 0)
      else scan_from X s disk_file start (\<lambda>first. first \<ge> end) (\<lambda>k. k \<ge> start \<and> k < end) (Some limit))"

subsection \<open>Representation\<close>

text \<open>
  An open table with the blocks its file holds: every index entry reads back its block and
  names its first and last key, keys ascend strictly through the whole table, and the
  filter admits every key.
\<close>

definition index_matches :: "sst_block_index_entry \<Rightarrow> kv list \<Rightarrow> bool" where
  "index_matches e b \<longleftrightarrow> b \<noteq> [] \<and> i_first_key e = fst (hd b) \<and> i_last_key e = fst (last b)"

definition sst_rep :: "externals \<Rightarrow> sst_file \<Rightarrow> bytes \<Rightarrow> kv list list \<Rightarrow> bool" where
  "sst_rep X s contents blocks \<longleftrightarrow>
     list_all2 index_matches (s_block_index s) blocks
     \<and> (\<forall>i < length blocks.
          read_and_verify_block X s contents i (s_block_index s ! i) = Inr (blocks ! i))
     \<and> sorted_keys (concat blocks)
     \<and> (\<forall>(k, v) \<in> set (concat blocks). bloom_contains X (s_bloom s) k)"

subsection \<open>Pruning by the block index\<close>

lemma sorted_block_bounds:
  assumes "sorted_keys b" "(k, v) \<in> set b"
  shows "fst (hd b) \<le> k" "k \<le> fst (last b)"
proof -
  obtain x b' where b: "b = x # b'" using assms(2) by (cases b) auto
  show "fst (hd b) \<le> k" using assms b by (cases x) (auto simp: less_imp_le)
  have snoc: "b = butlast b @ [last b]" using b by simp
  have "sorted_keys (butlast b @ [last b])" "(k, v) \<in> set (butlast b @ [last b])"
    using assms snoc by simp_all
  then show "k \<le> fst (last b)" unfolding sorted_keys_append
    by (cases "last b") (auto simp: less_imp_le)
qed

lemma sorted_concat_take_drop:
  "sorted_keys (concat bs) \<Longrightarrow> sorted_keys (concat (take n bs)) \<and> sorted_keys (concat (drop n bs))"
  by (metis append_take_drop_id concat_append sorted_keys_append)

lemma blocks_before_start:
  assumes "list_all2 index_matches idx bs" "sorted_keys (concat bs)"
    and "(k, v) \<in> set (concat (take (partition_point (\<lambda>e. i_last_key e < lo) idx) bs))"
  shows "k < lo"
  using assms
proof (induction idx bs rule: list_all2_induct)
  case (Cons e idx b bs)
  have le: "i_last_key e < lo"
    using Cons.prems(2) by (auto simp: partition_point_def split: if_splits)
  have "sorted_keys b" "sorted_keys (concat bs)" using Cons.prems(1) by (auto simp: sorted_keys_append)
  then show ?case
    using Cons le sorted_block_bounds(2) [of b k v]
    by (auto simp: partition_point_def index_matches_def)
qed simp

lemma blocks_from_start:
  assumes "list_all2 index_matches (e # es) (b # bs)" "sorted_keys (concat (b # bs))"
    and "(k, v) \<in> set (concat (b # bs))"
  shows "i_first_key e \<le> k"
proof -
  have "concat (b # bs) \<noteq> []" "hd (concat (b # bs)) = hd b" "i_first_key e = fst (hd b)"
    using assms(1) by (auto simp: index_matches_def)
  then show ?thesis using sorted_block_bounds(1) [OF assms(2,3)] by simp
qed

lemma scan_blocks_ok:
  assumes "list_all2 index_matches es bs" "sorted_keys (concat bs)"
    and "\<forall>i < length bs. read_and_verify_block X s contents (no + i) (es ! i) = Inr (bs ! i)"
    and "\<And>f k. stop f \<Longrightarrow> f \<le> k \<Longrightarrow> \<not> keep k"
  shows "\<exists>m t. scan_blocks X s contents stop keep limit no es out
      = Inr (out @ filter (\<lambda>(k, v). keep k) (concat (take m bs)), t, m)
    \<and> m \<le> length bs
    \<and> (\<not> t \<longrightarrow> filter (\<lambda>(k, v). keep k) (concat (drop m bs)) = [])
    \<and> (t \<longrightarrow> (\<exists>l. limit = Some l \<and> l \<le> length out + length (filter (\<lambda>(k, v). keep k) (concat (take m bs)))))"
  using assms(1-3)
proof (induction es bs arbitrary: no out rule: list_all2_induct)
  case (Cons e es b bs)
  have L: "list_all2 index_matches (e # es) (b # bs)" using Cons by simp
  consider "stop (i_first_key e)"
    | "\<not> stop (i_first_key e)" "\<exists>l. limit = Some l \<and> l \<le> length out"
    | "\<not> stop (i_first_key e)" "\<not> (case limit of Some l \<Rightarrow> l \<le> length out | None \<Rightarrow> False)"
    by (cases limit) auto
  then show ?case
  proof cases
    case 1
    have "filter (\<lambda>(k, v). keep k) (concat (b # bs)) = []"
      using blocks_from_start [OF L Cons.prems(1)] assms(4) [OF 1] by (fastforce simp: filter_empty_conv)
    then show ?thesis using 1 by (intro exI [of _ 0] exI [of _ False]) simp
  next
    case 2
    then show ?thesis by (intro exI [of _ 0] exI [of _ True]) auto
  next
    case 3
    have "read_and_verify_block X s contents no e = Inr b"
      using Cons.prems(2) [rule_format, of 0] by simp
    moreover have "\<forall>i < length bs. read_and_verify_block X s contents (Suc no + i) (es ! i) = Inr (bs ! i)"
      using Cons.prems(2) by force
    then obtain m t where "scan_blocks X s contents stop keep limit (Suc no) es (out @ filter (\<lambda>(k, v). keep k) b)
        = Inr ((out @ filter (\<lambda>(k, v). keep k) b) @ filter (\<lambda>(k, v). keep k) (concat (take m bs)), t, m)"
      "m \<le> length bs" "\<not> t \<longrightarrow> filter (\<lambda>(k, v). keep k) (concat (drop m bs)) = []"
      "t \<longrightarrow> (\<exists>l. limit = Some l \<and> l \<le> length (out @ filter (\<lambda>(k, v). keep k) b)
          + length (filter (\<lambda>(k, v). keep k) (concat (take m bs))))"
      using Cons.IH [of "Suc no" "out @ filter (\<lambda>(k, v). keep k) b"] Cons.prems(1)
      by (auto simp: sorted_keys_append)
    ultimately show ?thesis using 3 by (intro exI [of _ "Suc m"] exI [of _ t]) auto
  qed
qed (auto intro: exI [of _ False])

lemma sst_repD:
  assumes "sst_rep X s contents blocks"
  shows "list_all2 index_matches (s_block_index s) blocks" "sorted_keys (concat blocks)"
    and "length (s_block_index s) = length blocks"
    and "\<And>i. i < length blocks \<Longrightarrow>
           read_and_verify_block X s contents i (s_block_index s ! i) = Inr (blocks ! i)"
    and "\<And>k v. (k, v) \<in> set (concat blocks) \<Longrightarrow> bloom_contains X (s_bloom s) k"
  using assms by (auto simp: sst_rep_def dest: list_all2_lengthD)

lemma scan_from_ok:
  assumes rep: "sst_rep X s contents blocks"
    and stop: "\<And>f k. stop f \<Longrightarrow> f \<le> k \<Longrightarrow> \<not> keep k" and lo: "\<And>k. keep k \<Longrightarrow> lo \<le> k"
  obtains out t n where "scan_from X s (Some contents) lo stop keep limit = Inr (out, t, n)"
    "n \<le> length blocks"
    "\<not> t \<Longrightarrow> out = filter (\<lambda>(k, v). keep k) (concat blocks)"
    "t \<Longrightarrow> \<exists>l rest. limit = Some l \<and> l \<le> length out
       \<and> filter (\<lambda>(k, v). keep k) (concat blocks) = out @ rest"
proof -
  note R = sst_repD [OF rep]
  define p where "p = partition_point (\<lambda>e. i_last_key e < lo) (s_block_index s)"
  have p: "p \<le> length blocks" unfolding p_def partition_point_def R(3) [symmetric]
    by (rule length_takeWhile_le)
  have "k < lo" if "(k, v) \<in> set (concat (take p blocks))" for k v
    using blocks_before_start [OF R(1,2) that [unfolded p_def]] .
  then have skip: "filter (\<lambda>(k, v). keep k) (concat (take p blocks)) = []"
    using lo by (fastforce simp: filter_empty_conv)
  have split: "filter (\<lambda>(k, v). keep k) (concat blocks) = filter (\<lambda>(k, v). keep k) (concat (drop p blocks))"
    using skip by (metis append_Nil append_take_drop_id concat_append filter_append)
  show ?thesis
  proof (cases "p = length blocks")
    case True
    then show ?thesis
      using that [of "[]" False 0] split R(3) by (simp add: scan_from_def flip: p_def)
  next
    case False
    have "list_all2 index_matches (drop p (s_block_index s)) (drop p blocks)"
      using R(1) by (rule list_all2_dropI)
    moreover have "sorted_keys (concat (drop p blocks))" using sorted_concat_take_drop R(2) by blast
    moreover have "\<forall>i < length (drop p blocks).
        read_and_verify_block X s contents (p + i) (drop p (s_block_index s) ! i) = Inr (drop p blocks ! i)"
      using R(3,4) p by simp
    ultimately obtain m t where mt: "scan_blocks X s contents stop keep limit p (drop p (s_block_index s)) []
        = Inr (filter (\<lambda>(k, v). keep k) (concat (take m (drop p blocks))), t, m)"
      "m \<le> length (drop p blocks)"
      "\<not> t \<longrightarrow> filter (\<lambda>(k, v). keep k) (concat (drop m (drop p blocks))) = []"
      "t \<longrightarrow> (\<exists>l. limit = Some l \<and> l \<le> length (filter (\<lambda>(k, v). keep k) (concat (take m (drop p blocks)))))"
      using scan_blocks_ok [of "drop p (s_block_index s)" "drop p blocks" X s contents p stop keep limit "[]"] stop
      by auto
    have all: "filter (\<lambda>(k, v). keep k) (concat blocks)
        = filter (\<lambda>(k, v). keep k) (concat (take m (drop p blocks)))
          @ filter (\<lambda>(k, v). keep k) (concat (drop m (drop p blocks)))"
      unfolding split by (metis append_take_drop_id concat_append filter_append)
    show ?thesis
      using that [of "filter (\<lambda>(k, v). keep k) (concat (take m (drop p blocks)))" t m] mt all False R(3)
      by (simp add: scan_from_def open_file_def flip: p_def)
  qed
qed

subsection \<open>What the reader returns\<close>

lemma read_blocks_ok:
  assumes "length es = length bs"
    and "\<forall>i < length bs. read_and_verify_block X s contents (no + i) (es ! i) = Inr (bs ! i)"
  shows "read_blocks X s contents no es = Inr (concat bs)"
  using assms
proof (induction es bs arbitrary: no rule: list_induct2)
  case (Cons e es b bs)
  have "read_and_verify_block X s contents no e = Inr b"
    using Cons.prems [rule_format, of 0] by simp
  moreover have "\<forall>i < length bs. read_and_verify_block X s contents (Suc no + i) (es ! i) = Inr (bs ! i)"
    using Cons.prems by force
  then have "read_blocks X s contents (Suc no) es = Inr (concat bs)" by (rule Cons.IH)
  ultimately show ?case by simp
qed simp

lemma sst_entries_ok:
  "sst_rep X s contents blocks \<Longrightarrow> sst_entries X s (Some contents) = Inr (concat blocks)"
  using read_blocks_ok [of "s_block_index s" blocks X s contents 0] sst_repD [of X s contents blocks]
  by (simp add: sst_entries_def open_file_def)

text \<open>Keys that carry a prefix form an interval: past its end no key carries it.\<close>

lemma prefix_interval:
  fixes pre f k :: bytes
  assumes "f > pre" "\<not> prefix pre f" "f \<le> k"
  shows "\<not> prefix pre k"
  using assms
proof (induction pre arbitrary: f k)
  case (Cons a pre)
  then obtain b f' where f: "f = b # f'" by (cases f) auto
  then obtain c k' where k: "k = c # k'" using Cons.prems by (cases k) auto
  show ?case
  proof (cases "b = a")
    case True
    then show ?thesis using Cons.IH [of f' k'] Cons.prems by (auto simp: f k)
  next
    case False
    then show ?thesis using Cons.prems by (auto simp: f k)
  qed
qed simp

lemma entries_with_prefix_ok:
  assumes "sst_rep X s contents blocks"
  shows "\<exists>n \<le> length blocks. entries_with_prefix X s (Some contents) pre
    = Inr (filter (\<lambda>(k, v). prefix pre k) (concat blocks), n)"
proof -
  obtain out t n where "scan_from X s (Some contents) pre (\<lambda>first. first > pre \<and> \<not> prefix pre first)
      (prefix pre) None = Inr (out, t, n)" "n \<le> length blocks"
    "\<not> t \<Longrightarrow> out = filter (\<lambda>(k, v). prefix pre k) (concat blocks)" "\<not> t"
    by (rule scan_from_ok [OF assms, of "\<lambda>first. first > pre \<and> \<not> prefix pre first" "prefix pre" pre None])
      (auto dest: prefix_interval prefix_le)
  then show ?thesis by (auto simp: entries_with_prefix_def)
qed

lemma entries_with_range_ok:
  assumes "sst_rep X s contents blocks"
  shows "\<exists>n \<le> length blocks. entries_with_range X s (Some contents) a b
    = Inr (filter (\<lambda>(k, v). a \<le> k \<and> k < b) (concat blocks), n)"
proof (cases "a < b")
  case True
  obtain out t n where "scan_from X s (Some contents) a (\<lambda>first. first \<ge> b)
      (\<lambda>k. k \<ge> a \<and> k < b) None = Inr (out, t, n)" "n \<le> length blocks"
    "\<not> t \<Longrightarrow> out = filter (\<lambda>(k, v). a \<le> k \<and> k < b) (concat blocks)" "\<not> t"
    by (rule scan_from_ok [OF assms, of "\<lambda>first. first \<ge> b" "\<lambda>k. k \<ge> a \<and> k < b" a None]) auto
  then show ?thesis using True by (auto simp: entries_with_range_def)
next
  case False
  then have "filter (\<lambda>(k, v). a \<le> k \<and> k < b) (concat blocks) = []"
    by (auto simp: filter_empty_conv)
  then show ?thesis using False by (auto simp: entries_with_range_def)
qed

text \<open>
  A limited scan returns a leading part of the matches; cut short only when it has at least
  \<open>limit\<close> of them.
\<close>

lemma entries_with_range_limited_ok:
  assumes "sst_rep X s contents blocks"
  obtains out t n where "entries_with_range_limited X s (Some contents) a b limit = Inr (out, t, n)"
    "n \<le> length blocks"
    "prefix out (filter (\<lambda>(k, v). a \<le> k \<and> k < b) (concat blocks))"
    "\<not> t \<longrightarrow> 0 < limit \<longrightarrow> out = filter (\<lambda>(k, v). a \<le> k \<and> k < b) (concat blocks)"
    "t \<longrightarrow> 0 < limit \<and> limit \<le> length out"
proof (cases "a < b \<and> 0 < limit")
  case True
  obtain out t n where "scan_from X s (Some contents) a (\<lambda>first. first \<ge> b)
      (\<lambda>k. k \<ge> a \<and> k < b) (Some limit) = Inr (out, t, n)" "n \<le> length blocks"
    "\<not> t \<Longrightarrow> out = filter (\<lambda>(k, v). a \<le> k \<and> k < b) (concat blocks)"
    "t \<Longrightarrow> \<exists>l rest. Some limit = Some l \<and> l \<le> length out
       \<and> filter (\<lambda>(k, v). a \<le> k \<and> k < b) (concat blocks) = out @ rest"
    by (rule scan_from_ok [OF assms, of "\<lambda>first. first \<ge> b" "\<lambda>k. k \<ge> a \<and> k < b" a "Some limit"]) auto
  moreover have "\<not> b \<le> a" using True by (simp add: not_le)
  ultimately show ?thesis using True that [of out t n]
    by (cases t) (auto simp: entries_with_range_limited_def)
next
  case False
  then have "a < b \<or> filter (\<lambda>(k, v). a \<le> k \<and> k < b) (concat blocks) = []"
    by (auto simp: filter_empty_conv)
  moreover have "b \<le> a \<or> limit = 0" using False by (simp add: not_less)
  ultimately show ?thesis using that [of "[]" False 0]
    by (auto simp: entries_with_range_limited_def)
qed

lemma find_map_of: "map_option snd (find (\<lambda>(k', v). k' = k) xs) = map_of xs k"
  by (induction xs) auto

lemma map_of_None_if: "(\<And>v. (k, v) \<notin> set xs) \<Longrightarrow> map_of xs k = None"
  by (meson map_of_SomeD not_None_eq)

text \<open>The blocks a cache may hold for this table.\<close>

definition cache_agrees :: "sst_file \<Rightarrow> kv list list \<Rightarrow> block_cache \<Rightarrow> bool" where
  "cache_agrees s blocks c \<longleftrightarrow>
     (\<forall>n b. ((s_id s, n), b) \<in> bc_blocks c \<longrightarrow> n < length blocks \<and> b = blocks ! n)"

lemma sst_get_ok:
  assumes rep: "sst_rep X s contents blocks" and c: "bc_ok cache" "cache_agrees s blocks cache"
  obtains n cache' where "sst_get X s (Some contents) key cache = Inr (map_of (concat blocks) key, n, cache')"
    "n \<le> 1" "bc_ok cache'"
    "bc_blocks cache' \<subseteq> bc_blocks cache \<union> {((s_id s, i), blocks ! i) | i. i < length blocks}"
proof -
  note R = sst_repD [OF rep]
  define p where "p = partition_point (\<lambda>e. i_last_key e < key) (s_block_index s)"
  have p: "p \<le> length blocks" unfolding p_def partition_point_def R(3) [symmetric]
    by (rule length_takeWhile_le)
  have before: "k < key" if "(k, v) \<in> set (concat (take p blocks))" for k v
    using blocks_before_start [OF R(1,2) that [unfolded p_def]] .
  have split: "map_of (concat blocks) key = map_of (concat (drop p blocks)) key"
  proof -
    have "map_of (concat (take p blocks)) key = None" by (rule map_of_None_if) (use before in blast)
    then show ?thesis
      by (metis (no_types, lifting) append_take_drop_id concat_append map_add_None map_add_def map_of_append
          option.case_eq_if option.collapse)
  qed
  show ?thesis
  proof (cases "bloom_contains X (s_bloom s) key \<and> p < length blocks \<and> \<not> key < i_first_key (s_block_index s ! p)")
    case False
    have "map_of (concat blocks) key = None"
    proof (cases "bloom_contains X (s_bloom s) key")
      case True
      have "(key, v) \<notin> set (concat (drop p blocks))" for v
      proof
        assume v: "(key, v) \<in> set (concat (drop p blocks))"
        then have lt: "p < length blocks" by (cases "p < length blocks") auto
        then have d: "drop p (s_block_index s) = s_block_index s ! p # drop (Suc p) (s_block_index s)"
          "drop p blocks = blocks ! p # drop (Suc p) blocks" using R(3) by (simp_all add: Cons_nth_drop_Suc)
        have "i_first_key (s_block_index s ! p) \<le> key"
        proof (rule blocks_from_start)
          show "list_all2 index_matches (s_block_index s ! p # drop (Suc p) (s_block_index s))
              (blocks ! p # drop (Suc p) blocks)"
            using list_all2_dropI [OF R(1), of p] by (simp only: d)
          show "sorted_keys (concat (blocks ! p # drop (Suc p) blocks))"
            using sorted_concat_take_drop [OF R(2), of p] by (simp only: d)
          show "(key, v) \<in> set (concat (blocks ! p # drop (Suc p) blocks))" using v by (simp only: d)
        qed
        then show False using True lt \<open>\<not> (_ \<and> _ \<and> _)\<close> by auto
      qed
      then show ?thesis unfolding split by (rule map_of_None_if)
    next
      case False
      then show ?thesis using R(5) by (intro map_of_None_if) blast
    qed
    moreover have "sst_get X s (Some contents) key cache = Inr (None, 0, cache)"
      using False p R(3) by (auto simp: sst_get_def Let_def simp flip: p_def)
    ultimately show ?thesis using that [of 0 cache] c by auto
  next
    case True
    then have lt: "p < length blocks" by simp
    have m: "index_matches (s_block_index s ! p) (blocks ! p)"
      using R(1,3) lt by (simp add: list_all2_conv_all_nth)
    have d: "concat (drop p blocks) = blocks ! p @ concat (drop (Suc p) blocks)"
      using lt by (simp add: Cons_nth_drop_Suc [symmetric])
    have "key \<le> i_last_key (s_block_index s ! p)"
      using nth_length_takeWhile [of "\<lambda>e. i_last_key e < key" "s_block_index s"] lt R(3)
      by (simp add: p_def partition_point_def)
    moreover have "fst (last (blocks ! p)) < k" if "(k, v) \<in> set (concat (drop (Suc p) blocks))" for k v
    proof -
      have "sorted_keys (blocks ! p @ concat (drop (Suc p) blocks))"
        using sorted_concat_take_drop [OF R(2), of p] by (simp only: d)
      then show ?thesis using that m by (force simp: sorted_keys_append index_matches_def)
    qed
    ultimately have "map_of (concat (drop (Suc p) blocks)) key = None"
      using m by (intro map_of_None_if) (fastforce simp: index_matches_def)
    then have hit: "map_of (concat blocks) key = map_of (blocks ! p) key"
      unfolding split d by (simp add: map_add_def split: option.split)
    obtain h c1 where g: "bc_get cache (s_id s) p = (h, c1)" by (metis surj_pair)
    have c1: "bc_ok c1" "bc_blocks c1 = bc_blocks cache"
      using bc_get_ok [OF c(1), of "s_id s" p] bc_blocks_get [of cache "s_id s" p] by (simp_all add: g)
    show ?thesis
    proof (cases h)
      case None
      have "sst_get X s (Some contents) key cache
          = Inr (map_of (blocks ! p) key, 1, bc_insert c1 (s_id s) p (blocks ! p))"
        using True R(3,4) None
        by (simp add: sst_get_def Let_def g open_file_def find_map_of flip: p_def)
      moreover have "bc_blocks (bc_insert c1 (s_id s) p (blocks ! p))
          \<subseteq> bc_blocks cache \<union> {((s_id s, i), blocks ! i) | i. i < length blocks}"
        using bc_blocks_insert [OF c1(1), of "s_id s" p "blocks ! p"] lt c1(2) by auto
      ultimately show ?thesis
        using that hit bc_insert_ok [OF c1(1)] by simp
    next
      case (Some b)
      have "((s_id s, p), b) \<in> bc_blocks cache" using bc_get_hit [of cache "s_id s" p b] g Some by simp
      then have "b = blocks ! p" using c(2) by (simp add: cache_agrees_def)
      then have "sst_get X s (Some contents) key cache = Inr (map_of (blocks ! p) key, 0, c1)"
        using True R(3) Some by (simp add: sst_get_def Let_def g find_map_of flip: p_def)
      then show ?thesis using that [of 0 c1] hit c1 by simp
    qed
  qed
qed

end
