(* ===== verification/Sst_Write.thy ===== *)
theory Sst_Write
  imports Sst_Read
begin

text \<open>
  Writing and opening a table (\<open>write_new\<close>, \<open>flush_block\<close>, \<open>load\<close> and \<open>scan_existing\<close> in
  \<open>crates/basemyai-engine/src/store/sst_block.rs\<close>). \<open>write_new\<close> returns the open table and
  the bytes of the file it publishes (temporary file, fsync, rename); \<open>ns n\<close> is the nonce of
  the \<open>n\<close>th seal. The main result: what was written loads, and both the written and the
  loaded table represent exactly the entries.
\<close>

subsection \<open>The writer\<close>

definition entry_wire_size :: "kv \<Rightarrow> nat" where
  "entry_wire_size = (\<lambda>(k, v). 9 + length k + (case v of None \<Rightarrow> 0 | Some x \<Rightarrow> length x))"

definition to_sst_entry :: "kv \<Rightarrow> sst_entry" where
  "to_sst_entry = (\<lambda>(k, v). \<lparr>e_key = k, e_value = v\<rparr>)"

record sst_writer =
  w_current :: "sst_entry list"
  w_current_size :: nat
  w_bytes :: bytes
  w_cursor :: nat
  w_index :: "sst_block_index_entry list"
  w_block_no :: nat

definition flush_block ::
  "externals \<Rightarrow> crypto_context option \<Rightarrow> (nat \<Rightarrow> bytes) \<Rightarrow> nat \<Rightarrow> sst_writer
     \<Rightarrow> sst_writer engine_result" where
  "flush_block X crypto ns sst_id w =
     (if w_current w = [] then Inr w
      else
        let current = w_current w;
            first_key = e_key (hd current);
            last_key = e_key (last current);
            entry_count = len32 current;
            tombstone_count = len32 (filter (\<lambda>e. e_value e = None) current);
            plain = encode_sst_data_block current
        in rbind (seal_section X crypto (ns (w_block_no w)) plain sst_id Data (w_block_no w)) (\<lambda>sealed.
             let len = len32 sealed
             in Inr \<lparr>w_current = [], w_current_size = 0, w_bytes = w_bytes w @ sealed,
                  w_cursor = w_cursor w + unat len,
                  w_index = w_index w @ [\<lparr>i_first_key = first_key, i_last_key = last_key,
                     i_offset = word_of_nat (w_cursor w), i_len = len,
                     i_entry_count = entry_count, i_tombstone_count = tombstone_count\<rparr>],
                  w_block_no = w_block_no w + 1\<rparr>))"

fun write_loop ::
  "externals \<Rightarrow> crypto_context option \<Rightarrow> (nat \<Rightarrow> bytes) \<Rightarrow> nat \<Rightarrow> u32 \<Rightarrow> kv list
     \<Rightarrow> sst_writer \<Rightarrow> bloom \<Rightarrow> (sst_writer \<times> bloom) engine_result" where
  "write_loop X crypto ns sst_id block_size [] w bl = Inr (w, bl)"
| "write_loop X crypto ns sst_id block_size (e # es) w bl =
     (let bl1 = bloom_insert X (fst e) bl;
          size1 = w_current_size w + entry_wire_size e;
          w1 = w\<lparr>w_current_size := size1, w_current := w_current w @ [to_sst_entry e]\<rparr>
      in rbind (if size1 \<ge> unat block_size then flush_block X crypto ns sst_id w1 else Inr w1)
           (\<lambda>w2. write_loop X crypto ns sst_id block_size es w2 bl1))"

definition sum_entries :: "sst_block_index_entry list \<Rightarrow> nat" where
  "sum_entries idx = sum_list (map (\<lambda>e. unat (i_entry_count e)) idx)"

definition sum_tombstones :: "sst_block_index_entry list \<Rightarrow> nat" where
  "sum_tombstones idx = sum_list (map (\<lambda>e. unat (i_tombstone_count e)) idx)"

definition write_new ::
  "externals \<Rightarrow> nat \<Rightarrow> kv list \<Rightarrow> u32 \<Rightarrow> crypto_context option \<Rightarrow> (nat \<Rightarrow> bytes)
     \<Rightarrow> (sst_file \<times> bytes) engine_result" where
  "write_new X sst_id entries block_size crypto ns =
     (let w0 = \<lparr>w_current = [], w_current_size = 0, w_bytes = [], w_cursor = SST_HEADER_TOTAL_LEN,
            w_index = [], w_block_no = 0\<rparr>
      in rbind (write_loop X crypto ns sst_id block_size entries w0 (bloom_new (length entries))) (\<lambda>(w1, bl).
         rbind (flush_block X crypto ns sst_id w1) (\<lambda>w.
         let block_count = length (w_index w)
         in rbind (seal_section X crypto (ns block_count) (encode_sst_block_index (w_index w))
                     sst_id Index 0) (\<lambda>index_sealed.
         rbind (seal_section X crypto (ns (block_count + 1)) (encode_sst_bloom_filter (to_filter bl))
                     sst_id Bloom 0) (\<lambda>bloom_sealed.
         let header_bytes = encode_sst_header
               \<lparr>h_sst_id = word_of_nat sst_id, h_block_size = block_size,
                h_entry_count = word_of_nat (length entries), h_dim = 0\<rparr>;
             index_offset = w_cursor w;
             bloom_offset = index_offset + length index_sealed;
             footer_plain = encode_sst_footer
               \<lparr>f_index_offset = word_of_nat index_offset, f_index_len = len32 index_sealed,
                f_bloom_offset = word_of_nat bloom_offset, f_bloom_len = len32 bloom_sealed,
                f_block_count = word_of_nat block_count\<rparr>
         in rbind (seal_section X crypto (ns (block_count + 2)) footer_plain sst_id Footer 0)
              (\<lambda>footer_sealed.
         let file_bytes = header_bytes @ w_bytes w @ index_sealed @ bloom_sealed @ footer_sealed
         in Inr (\<lparr>s_id = sst_id, s_file_bytes = length file_bytes,
                  s_tombstones = sum_tombstones (w_index w), s_bytes_read_at_open = 0,
                  s_entry_count = length entries, s_block_index = w_index w, s_bloom = bl,
                  s_crypto = crypto\<rparr>, file_bytes)))))))"

subsection \<open>Opening\<close>

definition footer_on_disk_len :: "crypto_context option \<Rightarrow> nat" where
  "footer_on_disk_len crypto =
     (case crypto of None \<Rightarrow> SST_FOOTER_LEN
      | Some _ \<Rightarrow> encrypted_sst_block_sealed_len SST_FOOTER_LEN)"

definition sst_load ::
  "externals \<Rightarrow> bytes option \<Rightarrow> nat \<Rightarrow> crypto_context option \<Rightarrow> sst_file engine_result" where
  "sst_load X disk_file sst_id crypto =
     rbind (open_file disk_file) (\<lambda>contents.
     let file_len = length contents
     in if file_len < SST_HEADER_TOTAL_LEN then Inl (Corrupt SstHeader)
        else rbind (read_span contents 0 SST_HEADER_TOTAL_LEN) (\<lambda>header_bytes.
             rbind (decode_sst_header header_bytes) (\<lambda>header.
        if unat (h_sst_id header) \<noteq> sst_id then Inl (Corrupt SstHeader)
        else let footer_len = footer_on_disk_len crypto
        in if file_len < footer_len then Inl (Corrupt SstFooter)
        else rbind (read_span contents (file_len - footer_len) footer_len) (\<lambda>footer_raw.
             rbind (open_section X crypto footer_raw sst_id Footer 0) (\<lambda>footer_plain.
             rbind (decode_sst_footer footer_plain) (\<lambda>footer.
             rbind (read_span contents (unat (f_index_offset footer)) (unat (f_index_len footer))) (\<lambda>index_raw.
             rbind (open_section X crypto index_raw sst_id Index 0) (\<lambda>index_plain.
             rbind (decode_sst_block_index index_plain) (\<lambda>block_index.
             rbind (read_span contents (unat (f_bloom_offset footer)) (unat (f_bloom_len footer))) (\<lambda>bloom_raw.
             rbind (open_section X crypto bloom_raw sst_id Bloom 0) (\<lambda>bloom_plain.
             rbind (decode_sst_bloom_filter bloom_plain) (\<lambda>filt.
             if len32 block_index \<noteq> f_block_count footer then Inl (Corrupt SstBlockIndex)
             else let total_entries = sum_entries block_index
             in if total_entries \<noteq> unat (h_entry_count header) then Inl (Corrupt SstHeader)
             else Inr \<lparr>s_id = sst_id, s_file_bytes = file_len, s_tombstones = sum_tombstones block_index,
                    s_bytes_read_at_open =
                      length header_bytes + length footer_raw + length index_raw + length bloom_raw,
                    s_entry_count = unat (h_entry_count header), s_block_index = block_index,
                    s_bloom = from_filter filt, s_crypto = crypto\<rparr>))))))))))))"

subsection \<open>Sizes and sections\<close>

definition kvs_size :: "kv list \<Rightarrow> nat" where
  "kvs_size es = sum_list (map entry_wire_size es)"

lemma kvs_size_simps [simp]:
  "kvs_size [] = 0" "kvs_size (e # es) = entry_wire_size e + kvs_size es"
  "kvs_size (xs @ ys) = kvs_size xs + kvs_size ys"
  by (simp_all add: kvs_size_def)

lemma entry_wire_size_ge: "9 + length k \<le> entry_wire_size (k, v)" "9 \<le> entry_wire_size e"
  by (auto simp: entry_wire_size_def split: prod.split)

lemma length_le_kvs_size: "9 * length es \<le> kvs_size es"
  by (induction es) (auto intro: add_mono entry_wire_size_ge(2))

lemma kvs_size_mem: "e \<in> set es \<Longrightarrow> entry_wire_size e \<le> kvs_size es"
  by (simp add: kvs_size_def member_le_sum_list)

lemma length_encode_to_sst_entry: "length (encode_sst_entry (to_sst_entry e)) = entry_wire_size e"
  by (cases e; cases "snd e")
    (auto simp: length_encode_sst_entry to_sst_entry_def entry_value_bytes_def entry_wire_size_def)

lemma length_data_block:
  "length (encode_sst_data_block (map to_sst_entry es)) = 14 + kvs_size es"
proof -
  have "length (concat (map encode_sst_entry (map to_sst_entry es))) = kvs_size es"
    by (induction es) (simp_all add: length_encode_to_sst_entry)
  then show ?thesis by (simp add: encode_sst_data_block_def)
qed

lemma kvs_data_block_ok: "kvs_size es < 2 ^ 32 \<Longrightarrow> sst_data_block_ok (map to_sst_entry es)"
proof -
  assume sz: "kvs_size es < 2 ^ 32"
  have "sst_entry_ok (to_sst_entry e)" if "e \<in> set es" for e
    using kvs_size_mem [OF that] sz
    by (cases e; cases "snd e") (auto simp: sst_entry_ok_def to_sst_entry_def entry_wire_size_def)
  then show ?thesis using length_le_kvs_size [of es] sz by (auto simp: sst_data_block_ok_def)
qed

lemma map_from_to_sst_entry [simp]: "map (\<lambda>e. (e_key e, e_value e)) (map to_sst_entry es) = es"
  by (induction es) (auto simp: to_sst_entry_def)

lemma to_sst_entry_simps [simp]:
  "e_key (to_sst_entry e) = fst e" "e_value (to_sst_entry e) = snd e"
  by (cases e, simp add: to_sst_entry_def)+

definition nonces_ok :: "crypto_context option \<Rightarrow> (nat \<Rightarrow> bytes) \<Rightarrow> bool" where
  "nonces_ok crypto ns \<longleftrightarrow> crypto = None \<or> (\<forall>n. length (ns n) = NONCE_LEN)"

definition section_overhead :: "crypto_context option \<Rightarrow> nat" where
  "section_overhead crypto = (case crypto of None \<Rightarrow> 0 | Some _ \<Rightarrow> 50)"

lemma section_overhead_le: "section_overhead crypto \<le> 50"
  by (cases crypto) (simp_all add: section_overhead_def)

lemma seal_section_ok:
  assumes "mode_ok X crypto" "nonces_ok crypto ns" "length plain < 2 ^ 32 - 16"
  obtains raw where "seal_section X crypto (ns n) plain sst_id section no = Inr raw"
    "open_section X crypto raw sst_id section no = Inr plain"
    "length raw = length plain + section_overhead crypto"
proof (cases crypto)
  case None
  then show ?thesis using that [of plain]
    by (simp add: seal_section_def open_section_def section_overhead_def)
next
  case (Some ctx)
  let ?aad = "encrypted_sst_block_aad (word_of_nat sst_id) section (word_of_nat no)"
  have ok: "externals_ok X" "context_ok ctx" "length (ns n) = NONCE_LEN" "length plain < 2 ^ 32"
    using assms Some by (simp_all add: mode_ok_def nonces_ok_def)
  obtain c where c: "crypto_seal X ctx (ns n) plain ?aad = Inr (ns n, c)"
    "length c = length plain + AEAD_TAG_LEN" "crypto_open X ctx (ns n) c ?aad = Some plain"
    using crypto_seal_open [OF ok] by metis
  have "envelope_ok (ns n) c" using ok(3) c(2) assms(3) by (simp add: envelope_ok_def AEAD_TAG_LEN_def)
  then have "decode_encrypted_sst_block (encode_encrypted_sst_block (ns n) c) = Inr (ns n, c)"
    by (rule decode_encode_encrypted_sst_block)
  then show ?thesis
    using that [of "encode_encrypted_sst_block (ns n) c"] Some c ok(3)
    by (simp add: seal_section_def open_section_def section_overhead_def
        length_encode_encrypted_sst_block AEAD_TAG_LEN_def)
qed

subsection \<open>The writer's invariant\<close>

text \<open>
  \<open>blocks\<close> are the blocks flushed so far and \<open>S\<close> their bytes on disk; the index entry of
  block \<open>i\<close> points at \<open>S ! i\<close> behind the header.
\<close>

definition index_entry_of :: "kv list \<Rightarrow> nat \<Rightarrow> nat \<Rightarrow> sst_block_index_entry" where
  "index_entry_of b offset len =
     \<lparr>i_first_key = fst (hd b), i_last_key = fst (last b), i_offset = word_of_nat offset,
      i_len = word_of_nat len, i_entry_count = word_of_nat (length b),
      i_tombstone_count = word_of_nat (length (filter (\<lambda>e. snd e = None) b))\<rparr>"

definition block_offset :: "bytes list \<Rightarrow> nat \<Rightarrow> nat" where
  "block_offset S i = SST_HEADER_TOTAL_LEN + length (concat (take i S))"

definition blocks_sealed ::
  "externals \<Rightarrow> crypto_context option \<Rightarrow> nat \<Rightarrow> kv list list \<Rightarrow> bytes list \<Rightarrow> bool" where
  "blocks_sealed X crypto sst_id blocks S \<longleftrightarrow>
     length S = length blocks
     \<and> (\<forall>i < length blocks. blocks ! i \<noteq> []
          \<and> open_section X crypto (S ! i) sst_id Data i
              = Inr (encode_sst_data_block (map to_sst_entry (blocks ! i)))
          \<and> length (S ! i) = 14 + kvs_size (blocks ! i) + section_overhead crypto)"

definition index_of :: "kv list list \<Rightarrow> bytes list \<Rightarrow> sst_block_index_entry list" where
  "index_of blocks S =
     map (\<lambda>i. index_entry_of (blocks ! i) (block_offset S i) (length (S ! i))) [0..<length blocks]"

definition writer_inv ::
  "externals \<Rightarrow> crypto_context option \<Rightarrow> nat \<Rightarrow> sst_writer \<Rightarrow> kv list list \<Rightarrow> bytes list
     \<Rightarrow> kv list \<Rightarrow> bool" where
  "writer_inv X crypto sst_id w blocks S cur \<longleftrightarrow>
     w_current w = map to_sst_entry cur \<and> w_bytes w = concat S
     \<and> w_cursor w = block_offset S (length S) \<and> w_block_no w = length blocks
     \<and> w_index w = index_of blocks S \<and> blocks_sealed X crypto sst_id blocks S"

lemma blocks_sealed_snoc:
  assumes "blocks_sealed X crypto sst_id blocks S" "b \<noteq> []"
    and "open_section X crypto raw sst_id Data (length blocks) = Inr (encode_sst_data_block (map to_sst_entry b))"
    and "length raw = 14 + kvs_size b + section_overhead crypto"
  shows "blocks_sealed X crypto sst_id (blocks @ [b]) (S @ [raw])"
  using assms by (auto simp: blocks_sealed_def nth_append less_Suc_eq)

lemma index_of_snoc:
  assumes "length S = length blocks"
  shows "index_of (blocks @ [b]) (S @ [raw])
    = index_of blocks S @ [index_entry_of b (block_offset S (length S)) (length raw)]"
  using assms by (auto simp: index_of_def block_offset_def nth_append intro!: map_cong)

lemma flush_block_ok:
  assumes inv: "writer_inv X crypto sst_id w blocks S cur"
    and ok: "mode_ok X crypto" "nonces_ok crypto ns" and sz: "kvs_size cur < 2 ^ 29"
  obtains w' blocks' S' where "flush_block X crypto ns sst_id w = Inr w'"
    "writer_inv X crypto sst_id w' blocks' S' []" "concat blocks' = concat blocks @ cur"
proof (cases "cur = []")
  case True
  then show ?thesis using that [of w blocks S] inv by (simp add: flush_block_def writer_inv_def)
next
  case False
  have len: "length (encode_sst_data_block (map to_sst_entry cur)) < 2 ^ 32 - 16"
    using sz by (simp add: length_data_block)
  obtain raw where raw: "seal_section X crypto (ns (length blocks)) (encode_sst_data_block (map to_sst_entry cur))
        sst_id Data (length blocks) = Inr raw"
      "open_section X crypto raw sst_id Data (length blocks) = Inr (encode_sst_data_block (map to_sst_entry cur))"
      "length raw = 14 + kvs_size cur + section_overhead crypto"
    using seal_section_ok [OF ok len] by (metis length_data_block)
  have rl: "length raw < 2 ^ 32" using raw(3) sz section_overhead_le [of crypto] by simp
  define w' where "w' = \<lparr>w_current = [], w_current_size = 0, w_bytes = w_bytes w @ raw,
      w_cursor = w_cursor w + length raw,
      w_index = w_index w @ [index_entry_of cur (w_cursor w) (length raw)],
      w_block_no = w_block_no w + 1\<rparr>"
  have h: "e_key (hd (map to_sst_entry cur)) = fst (hd cur)"
    "e_key (last (map to_sst_entry cur)) = fst (last cur)"
    using False by (simp_all add: hd_map last_map)
  have "flush_block X crypto ns sst_id w = Inr w'"
    using inv False raw(1) rl h
    by (simp add: flush_block_def writer_inv_def Let_def w'_def index_entry_of_def len32_def
        unat_of_nat filter_map comp_def)
  moreover have "writer_inv X crypto sst_id w' (blocks @ [cur]) (S @ [raw]) []"
    using inv blocks_sealed_snoc [OF _ False raw(2,3)] index_of_snoc [of S blocks cur raw]
    by (auto simp: writer_inv_def w'_def block_offset_def blocks_sealed_def)
  ultimately show ?thesis using that [of w' "blocks @ [cur]" "S @ [raw]"] by simp
qed

lemma write_loop_ok:
  assumes "writer_inv X crypto sst_id w blocks S cur" "mode_ok X crypto" "nonces_ok crypto ns"
    and "kvs_size cur + kvs_size es < 2 ^ 29"
  shows "\<exists>w' blocks' S' cur'.
      write_loop X crypto ns sst_id block_size es w bl
        = Inr (w', fold (bloom_insert X) (map fst es) bl)
      \<and> writer_inv X crypto sst_id w' blocks' S' cur'
      \<and> concat blocks' @ cur' = concat blocks @ cur @ es \<and> kvs_size cur' < 2 ^ 29"
  using assms
proof (induction es arbitrary: w blocks S cur bl)
  case Nil
  then show ?case by (intro exI [of _ w] exI [of _ blocks] exI [of _ S] exI [of _ cur]) simp
next
  case (Cons e es)
  define w1 where "w1 = w\<lparr>w_current_size := w_current_size w + entry_wire_size e,
      w_current := w_current w @ [to_sst_entry e]\<rparr>"
  have w1: "writer_inv X crypto sst_id w1 blocks S (cur @ [e])"
    using Cons.prems(1) by (simp add: writer_inv_def w1_def)
  have sz: "kvs_size (cur @ [e]) < 2 ^ 29" using Cons.prems(4) by simp
  obtain w2 blocks2 S2 cur2 where w2: "(if w_current_size w1 \<ge> unat block_size
        then flush_block X crypto ns sst_id w1 else Inr w1) = Inr w2"
      "writer_inv X crypto sst_id w2 blocks2 S2 cur2" "concat blocks2 @ cur2 = concat blocks @ cur @ [e]"
      "kvs_size cur2 + kvs_size es < 2 ^ 29"
  proof (cases "w_current_size w1 \<ge> unat block_size")
    case True
    obtain w2 blocks2 S2 where "flush_block X crypto ns sst_id w1 = Inr w2"
      "writer_inv X crypto sst_id w2 blocks2 S2 []" "concat blocks2 = concat blocks @ cur @ [e]"
      using flush_block_ok [OF w1 Cons.prems(2,3) sz] by metis
    then show ?thesis using that [of w2 blocks2 S2 "[]"] True Cons.prems(4) by simp
  next
    case False
    then show ?thesis using that [of w1 blocks S "cur @ [e]"] w1 Cons.prems(4) by simp
  qed
  have "write_loop X crypto ns sst_id block_size (e # es) w bl
      = write_loop X crypto ns sst_id block_size es w2 (bloom_insert X (fst e) bl)"
    using w2(1) unfolding w1_def by (auto simp: Let_def split: if_splits)
  moreover have "concat blocks2 @ cur2 @ es = concat blocks @ cur @ e # es"
    using arg_cong [OF w2(3), of "\<lambda>xs. xs @ es"] by simp
  moreover note Cons.IH [OF w2(2) Cons.prems(2,3) w2(4), of "bloom_insert X (fst e) bl"]
  ultimately show ?case by (simp only: list.map fold_simps)
qed

subsection \<open>Sizes of the whole table\<close>

lemma length_concat_sealed:
  assumes "blocks_sealed X crypto sst_id blocks S" "n \<le> length blocks"
  shows "length (concat (take n S)) \<le> 9 * kvs_size (concat (take n blocks))"
  using assms(2)
proof (induction n)
  case (Suc n)
  have n: "n < length blocks" "n < length S" using Suc.prems assms(1) by (simp_all add: blocks_sealed_def)
  have b: "blocks ! n \<noteq> []" "length (S ! n) = 14 + kvs_size (blocks ! n) + section_overhead crypto"
    using assms(1) n by (simp_all add: blocks_sealed_def)
  have "9 \<le> kvs_size (blocks ! n)" using length_le_kvs_size [of "blocks ! n"] b(1)
    by (cases "blocks ! n") simp_all
  then have "length (S ! n) \<le> 9 * kvs_size (blocks ! n)"
    using b(2) section_overhead_le [of crypto] by linarith
  then show ?case using Suc n by (simp add: take_Suc_conv_app_nth)
qed simp

lemma block_offset_le:
  assumes "blocks_sealed X crypto sst_id blocks S" "n \<le> length blocks"
  shows "block_offset S n \<le> 34 + 9 * kvs_size (concat blocks)"
proof -
  have "kvs_size (concat blocks) = kvs_size (concat (take n blocks)) + kvs_size (concat (drop n blocks))"
    by (metis append_take_drop_id concat_append kvs_size_simps(3))
  then show ?thesis using length_concat_sealed [OF assms]
    by (simp add: block_offset_def sst_len_defs)
qed

lemma blocks_mem_size: "b \<in> set blocks \<Longrightarrow> kvs_size b \<le> kvs_size (concat blocks)"
  by (induction blocks) auto

lemma block_key_lengths:
  "b \<noteq> [] \<Longrightarrow> 28 + length (fst (hd b)) + length (fst (last b)) \<le> 4 * kvs_size b"
proof (cases b)
  case (Cons e b')
  have l: "9 + length (fst x) \<le> kvs_size b" if "x \<in> set b" for x
    using entry_wire_size_ge(1) [of "fst x" "snd x"] kvs_size_mem [OF that] by simp
  have "b \<noteq> []" using Cons by simp
  then have "hd b \<in> set b" "last b \<in> set b" by simp_all
  then show ?thesis using l [of "hd b"] l [of "last b"] by linarith
qed simp

lemma length_encode_index_of:
  assumes "\<forall>b \<in> set blocks. b \<noteq> []"
  shows "length (encode_sst_block_index (index_of blocks S)) \<le> 14 + 4 * kvs_size (concat blocks)"
proof -
  have "length (concat (map encode_sst_index_entry (index_of blocks S)))
      = sum_list (map (\<lambda>i. 28 + length (fst (hd (blocks ! i))) + length (fst (last (blocks ! i)))) [0..<length blocks])"
    by (simp add: length_concat index_of_def comp_def length_encode_sst_index_entry index_entry_of_def)
  also have "\<dots> = sum_list (map (\<lambda>b. 28 + length (fst (hd b)) + length (fst (last b))) (map ((!) blocks) [0..<length blocks]))"
    by (simp add: comp_def)
  also have "\<dots> = sum_list (map (\<lambda>b. 28 + length (fst (hd b)) + length (fst (last b))) blocks)"
    by (simp only: map_nth)
  also have "\<dots> \<le> 4 * kvs_size (concat blocks)"
    using assms
  proof (induction blocks)
    case (Cons b blocks)
    then show ?case using block_key_lengths [of b] by simp
  qed simp
  finally show ?thesis by (simp add: encode_sst_block_index_def)
qed

lemma length_blocks_le:
  "\<forall>b \<in> set blocks. b \<noteq> [] \<Longrightarrow> 9 * length blocks \<le> kvs_size (concat blocks)"
proof (induction blocks)
  case (Cons b blocks)
  then show ?case using length_le_kvs_size [of b] by (cases b) auto
qed simp

lemma index_of_ok:
  assumes "\<forall>b \<in> set blocks. b \<noteq> []" "kvs_size (concat blocks) < 2 ^ 29"
  shows "sst_block_index_ok (index_of blocks S)"
proof -
  have "sst_index_entry_ok (index_entry_of b off len)" if "b \<in> set blocks" for b off len
    using block_key_lengths [of b] blocks_mem_size [OF that] assms that
    by (auto simp: sst_index_entry_ok_def index_entry_of_def)
  then show ?thesis using length_blocks_le [OF assms(1)] assms(2)
    by (auto simp: sst_block_index_ok_def index_of_def)
qed

lemma sum_entries_index_of:
  assumes "kvs_size (concat blocks) < 2 ^ 29"
  shows "sum_entries (index_of blocks S) = length (concat blocks)"
proof -
  have "unat (word_of_nat (length b) :: u32) = length b" if "b \<in> set blocks" for b
    using blocks_mem_size [OF that] length_le_kvs_size [of b] assms by (simp add: unat_of_nat)
  then have "sum_entries (index_of blocks S) = sum_list (map (\<lambda>i. length (blocks ! i)) [0..<length blocks])"
    by (auto simp: sum_entries_def index_of_def index_entry_of_def comp_def intro!: arg_cong [of _ _ sum_list])
  also have "\<dots> = sum_list (map length (map ((!) blocks) [0..<length blocks]))" by (simp add: comp_def)
  also have "\<dots> = length (concat blocks)" by (simp only: map_nth length_concat)
  finally show ?thesis .
qed

text \<open>Reading one section out of the whole file.\<close>

lemma read_span_mid:
  "length pre = offset \<Longrightarrow> length mid = len \<Longrightarrow> read_span (pre @ mid @ post) offset len = Inr mid"
  by (simp add: read_span_def slice_mid)

lemma read_span_block:
  assumes "i < length S" "length hdr = SST_HEADER_TOTAL_LEN"
  shows "read_span (hdr @ concat S @ post) (block_offset S i) (length (S ! i)) = Inr (S ! i)"
proof -
  have "concat S = concat (take i S) @ S ! i @ concat (drop (Suc i) S)"
    using assms(1) by (metis concat.simps(2) concat_append id_take_nth_drop)
  then have "hdr @ concat S @ post = (hdr @ concat (take i S)) @ S ! i @ (concat (drop (Suc i) S) @ post)"
    by simp
  then show ?thesis
    using assms(2) read_span_mid [of "hdr @ concat (take i S)" "block_offset S i" "S ! i" "length (S ! i)"]
    by (simp add: block_offset_def)
qed

subsection \<open>Written tables\<close>

lemma length_encode_sst_header: "length (encode_sst_header h) = SST_HEADER_TOTAL_LEN"
  by (simp add: encode_sst_header_def sst_len_defs)

lemma length_encode_sst_footer: "length (encode_sst_footer f) = SST_FOOTER_LEN"
  by (simp add: encode_sst_footer_def sst_len_defs)

lemma bloom_of_keys_bits:
  assumes "length keys < 2 ^ 29"
  shows "bloom_ok (bloom_of_keys X keys)" "length (bl_bits (bloom_of_keys X keys)) < 2 ^ 31"
proof -
  have ok: "bloom_ok (bloom_new (length keys))" using assms by (intro bloom_new_ok) simp
  note F = bloom_fold_insert [OF ok, of X keys, folded bloom_of_keys_def]
  show "bloom_ok (bloom_of_keys X keys)" using F by simp
  have "length (bl_bits (bloom_of_keys X keys)) * 8 = length (bl_bits (bloom_new (length keys))) * 8"
    using F ok by (simp add: bloom_ok_def)
  then show "length (bl_bits (bloom_of_keys X keys)) < 2 ^ 31"
    using assms by (simp add: bloom_new_def Let_def div_ceil_def BLOOM_BITS_PER_KEY_def)
qed

lemma bloom_of_keys_contains:
  assumes "k \<in> set keys" "length keys < 2 ^ 29"
  shows "bloom_contains X (bloom_of_keys X keys) k"
proof -
  have "bloom_ok (bloom_new (length keys))" using assms(2) by (intro bloom_new_ok) simp
  then show ?thesis using bloom_fold_insert [of "bloom_new (length keys)" X keys] assms(1)
    by (simp add: bloom_of_keys_def)
qed

lemma blocks_sealed_rep:
  assumes sealed: "blocks_sealed X crypto sst_id blocks S"
    and small: "kvs_size (concat blocks) < 2 ^ 29" and sorted: "sorted_keys (concat blocks)"
    and hdr: "length hdr = SST_HEADER_TOTAL_LEN"
    and s: "s_id s = sst_id" "s_crypto s = crypto" "s_block_index s = index_of blocks S"
      "s_bloom s = bloom_of_keys X (map fst (concat blocks))"
  shows "sst_rep X s (hdr @ concat S @ post) blocks"
  unfolding sst_rep_def
proof (intro conjI allI impI)
  have ne: "blocks ! i \<noteq> []" if "i < length blocks" for i using sealed that by (simp add: blocks_sealed_def)
  show "list_all2 index_matches (s_block_index s) blocks"
    using ne by (auto simp: list_all2_conv_all_nth s index_of_def index_matches_def index_entry_of_def)
  show "sorted_keys (concat blocks)" by (fact sorted)
  show "\<forall>(k, v) \<in> set (concat blocks). bloom_contains X (s_bloom s) k"
    using bloom_of_keys_contains [of _ "map fst (concat blocks)" X] length_le_kvs_size [of "concat blocks"] small
    by (fastforce simp: s simp del: set_concat)
  fix i assume i: "i < length blocks"
  have S: "length S = length blocks" "open_section X crypto (S ! i) sst_id Data i
        = Inr (encode_sst_data_block (map to_sst_entry (blocks ! i)))"
      "length (S ! i) = 14 + kvs_size (blocks ! i) + section_overhead crypto"
    using sealed i by (simp_all add: blocks_sealed_def)
  have bsz: "kvs_size (blocks ! i) < 2 ^ 29" "length (blocks ! i) < 2 ^ 29"
    using blocks_mem_size [of "blocks ! i" blocks] small i length_le_kvs_size [of "blocks ! i"] by auto
  have off: "block_offset S i < 2 ^ 64"
    using block_offset_le [OF sealed, of i] i small by simp
  have e: "s_block_index s ! i = index_entry_of (blocks ! i) (block_offset S i) (length (S ! i))"
    using i by (simp add: s index_of_def)
  have len: "length (S ! i) < 2 ^ 32" using bsz S(3) section_overhead_le [of crypto] by simp
  have u: "unat (i_offset (s_block_index s ! i)) = block_offset S i"
    "unat (i_len (s_block_index s ! i)) = length (S ! i)"
    "unat (i_entry_count (s_block_index s ! i)) = length (blocks ! i)"
    using off bsz(2) len by (simp_all add: e index_entry_of_def unat_of_nat)
  have dec: "decode_sst_data_block (encode_sst_data_block (map to_sst_entry (blocks ! i)))
      = Inr (map to_sst_entry (blocks ! i))"
    using bsz by (intro decode_encode_sst_data_block kvs_data_block_ok) simp
  have "read_span (hdr @ concat S @ post) (block_offset S i) (length (S ! i)) = Inr (S ! i)"
    using i S(1) hdr by (intro read_span_block) simp_all
  then show "read_and_verify_block X s (hdr @ concat S @ post) i (s_block_index s ! i) = Inr (blocks ! i)"
    using ne [OF i] S(2) dec
    by (simp add: read_and_verify_block_def u s(1,2) del: map_map)
      (simp add: e index_entry_of_def hd_map last_map del: map_map)
qed

lemma open_index_bloom_footer:
  assumes ok: "mode_ok X crypto" "nonces_ok crypto ns" and small: "kvs_size es < 2 ^ 29"
    and idx: "length (encode_sst_block_index idx) \<le> 14 + 4 * kvs_size es"
  obtains ix bx where
    "seal_section X crypto (ns n) (encode_sst_block_index idx) sst_id Index 0 = Inr ix"
    "open_section X crypto ix sst_id Index 0 = Inr (encode_sst_block_index idx)"
    "length ix < 2 ^ 32"
    "seal_section X crypto (ns m) (encode_sst_bloom_filter (to_filter (bloom_of_keys X (map fst es)))) sst_id Bloom 0
       = Inr bx"
    "open_section X crypto bx sst_id Bloom 0
       = Inr (encode_sst_bloom_filter (to_filter (bloom_of_keys X (map fst es))))"
    "length bx < 2 ^ 32"
    "decode_sst_bloom_filter (encode_sst_bloom_filter (to_filter (bloom_of_keys X (map fst es))))
       = Inr (to_filter (bloom_of_keys X (map fst es)))"
proof -
  let ?f = "to_filter (bloom_of_keys X (map fst es))"
  have n: "length (map fst es) < 2 ^ 29" using length_le_kvs_size [of es] small by simp
  note bits = bloom_of_keys_bits [OF n, of X]
  have l: "length (encode_sst_block_index idx) < 2 ^ 32 - 16" "length (encode_sst_bloom_filter ?f) < 2 ^ 32 - 16"
    using idx small bits(2) by (simp_all add: encode_sst_bloom_filter_def to_filter_def)
  obtain ix where ix: "seal_section X crypto (ns n) (encode_sst_block_index idx) sst_id Index 0 = Inr ix"
    "open_section X crypto ix sst_id Index 0 = Inr (encode_sst_block_index idx)"
    "length ix = length (encode_sst_block_index idx) + section_overhead crypto"
    using seal_section_ok [OF ok l(1)] by metis
  obtain bx where bx: "seal_section X crypto (ns m) (encode_sst_bloom_filter ?f) sst_id Bloom 0 = Inr bx"
    "open_section X crypto bx sst_id Bloom 0 = Inr (encode_sst_bloom_filter ?f)"
    "length bx = length (encode_sst_bloom_filter ?f) + section_overhead crypto"
    using seal_section_ok [OF ok l(2)] by metis
  have "length ix < 2 ^ 32" "length bx < 2 ^ 32"
    using idx small bits(2) ix(3) bx(3) section_overhead_le [of crypto]
    by (simp_all add: encode_sst_bloom_filter_def to_filter_def)
  moreover have "decode_sst_bloom_filter (encode_sst_bloom_filter ?f) = Inr ?f"
    using bits by (intro decode_encode_sst_bloom_filter bloom_ok_wire) simp_all
  ultimately show ?thesis using that ix bx by metis
qed

lemma writer_start:
  "writer_inv X crypto sst_id \<lparr>w_current = [], w_current_size = 0, w_bytes = [],
     w_cursor = SST_HEADER_TOTAL_LEN, w_index = [], w_block_no = 0\<rparr> [] [] []"
  by (simp add: writer_inv_def block_offset_def index_of_def blocks_sealed_def)

lemma footer_on_disk: "footer_on_disk_len crypto = SST_FOOTER_LEN + section_overhead crypto"
  by (cases crypto)
    (simp_all add: footer_on_disk_len_def section_overhead_def encrypted_sst_block_sealed_len_def
      crypto_len_defs)

text \<open>The shape of a written file, and the metadata the footer names.\<close>

lemma write_new_shape:
  assumes ok: "mode_ok X crypto" "nonces_ok crypto ns" and small: "kvs_size entries < 2 ^ 29"
  obtains blocks S ix bx ft where
    "concat blocks = entries" "blocks_sealed X crypto sst_id blocks S"
    "write_new X sst_id entries block_size crypto ns =
       (let contents = encode_sst_header \<lparr>h_sst_id = word_of_nat sst_id, h_block_size = block_size,
                         h_entry_count = word_of_nat (length entries), h_dim = 0\<rparr>
                       @ concat S @ ix @ bx @ ft
        in Inr (\<lparr>s_id = sst_id, s_file_bytes = length contents,
             s_tombstones = sum_tombstones (index_of blocks S), s_bytes_read_at_open = 0,
             s_entry_count = length entries, s_block_index = index_of blocks S,
             s_bloom = bloom_of_keys X (map fst entries), s_crypto = crypto\<rparr>, contents))"
    "open_section X crypto ix sst_id Index 0 = Inr (encode_sst_block_index (index_of blocks S))"
    "open_section X crypto bx sst_id Bloom 0
       = Inr (encode_sst_bloom_filter (to_filter (bloom_of_keys X (map fst entries))))"
    "decode_sst_bloom_filter (encode_sst_bloom_filter (to_filter (bloom_of_keys X (map fst entries))))
       = Inr (to_filter (bloom_of_keys X (map fst entries)))"
    "open_section X crypto ft sst_id Footer 0 = Inr (encode_sst_footer
       \<lparr>f_index_offset = word_of_nat (block_offset S (length S)), f_index_len = word_of_nat (length ix),
        f_bloom_offset = word_of_nat (block_offset S (length S) + length ix),
        f_bloom_len = word_of_nat (length bx), f_block_count = word_of_nat (length blocks)\<rparr>)"
    "length ix < 2 ^ 32" "length bx < 2 ^ 32" "length ft = footer_on_disk_len crypto"
proof -
  let ?w0 = "\<lparr>w_current = [], w_current_size = 0, w_bytes = [],
     w_cursor = SST_HEADER_TOTAL_LEN, w_index = [], w_block_no = 0\<rparr>"
  obtain w1 blocks1 S1 cur1 where loop: "write_loop X crypto ns sst_id block_size entries ?w0 (bloom_new (length entries))
        = Inr (w1, bloom_of_keys X (map fst entries))"
      "writer_inv X crypto sst_id w1 blocks1 S1 cur1" "concat blocks1 @ cur1 = entries" "kvs_size cur1 < 2 ^ 29"
    using write_loop_ok [OF writer_start ok, of entries sst_id block_size "bloom_new (length entries)"] small
    by (auto simp: bloom_of_keys_def)
  obtain w blocks S where fl: "flush_block X crypto ns sst_id w1 = Inr w"
      "writer_inv X crypto sst_id w blocks S []" "concat blocks = entries"
    using flush_block_ok [OF loop(2) ok loop(4)] loop(3) by metis
  have W: "w_index w = index_of blocks S" "w_bytes w = concat S" "w_cursor w = block_offset S (length S)"
      "blocks_sealed X crypto sst_id blocks S" "length (index_of blocks S) = length blocks"
    using fl(2) by (simp_all add: writer_inv_def index_of_def)
  have "\<forall>b \<in> set blocks. b \<noteq> []" using W(4) by (auto simp: blocks_sealed_def in_set_conv_nth)
  then have il: "length (encode_sst_block_index (index_of blocks S)) \<le> 14 + 4 * kvs_size entries"
    using length_encode_index_of fl(3) by blast
  obtain ix bx where ib:
    "seal_section X crypto (ns (length blocks)) (encode_sst_block_index (index_of blocks S)) sst_id Index 0 = Inr ix"
    "open_section X crypto ix sst_id Index 0 = Inr (encode_sst_block_index (index_of blocks S))"
    "length ix < 2 ^ 32"
    "seal_section X crypto (ns (length blocks + 1))
       (encode_sst_bloom_filter (to_filter (bloom_of_keys X (map fst entries)))) sst_id Bloom 0 = Inr bx"
    "open_section X crypto bx sst_id Bloom 0
       = Inr (encode_sst_bloom_filter (to_filter (bloom_of_keys X (map fst entries))))"
    "length bx < 2 ^ 32"
    "decode_sst_bloom_filter (encode_sst_bloom_filter (to_filter (bloom_of_keys X (map fst entries))))
       = Inr (to_filter (bloom_of_keys X (map fst entries)))"
    by (rule open_index_bloom_footer [OF ok small il])
  define footer where "footer = \<lparr>f_index_offset = word_of_nat (block_offset S (length S)),
      f_index_len = word_of_nat (length ix),
      f_bloom_offset = word_of_nat (block_offset S (length S) + length ix),
      f_bloom_len = word_of_nat (length bx), f_block_count = word_of_nat (length blocks)\<rparr>"
  have "length (encode_sst_footer footer) < 2 ^ 32 - 16"
    by (simp add: length_encode_sst_footer sst_len_defs)
  then obtain ft where ft: "seal_section X crypto (ns (length blocks + 2)) (encode_sst_footer footer) sst_id Footer 0 = Inr ft"
      "open_section X crypto ft sst_id Footer 0 = Inr (encode_sst_footer footer)"
      "length ft = length (encode_sst_footer footer) + section_overhead crypto"
    using seal_section_ok [OF ok] by metis
  have "write_new X sst_id entries block_size crypto ns =
       (let contents = encode_sst_header \<lparr>h_sst_id = word_of_nat sst_id, h_block_size = block_size,
                         h_entry_count = word_of_nat (length entries), h_dim = 0\<rparr>
                       @ concat S @ ix @ bx @ ft
        in Inr (\<lparr>s_id = sst_id, s_file_bytes = length contents,
             s_tombstones = sum_tombstones (index_of blocks S), s_bytes_read_at_open = 0,
             s_entry_count = length entries, s_block_index = index_of blocks S,
             s_bloom = bloom_of_keys X (map fst entries), s_crypto = crypto\<rparr>, contents))"
    using ib(1,4) ft(1) unfolding footer_def
    by (simp only: write_new_def Let_def loop(1) fl(1) W(1,2,3,5) rbind.simps prod.case len32_def)
  then show ?thesis
    using that [of blocks S ix bx ft] fl(3) W(4) ib ft
    by (simp add: footer_on_disk length_encode_sst_footer footer_def)
qed

text \<open>
  A table loads back from a file of the written shape; only the count of bytes read at open
  differs from what the writer returned.
\<close>

lemma sst_load_shape:
  assumes sealed: "blocks_sealed X crypto sst_id blocks S"
    and small: "kvs_size (concat blocks) < 2 ^ 29" and sid: "sst_id < 2 ^ 64" and bs: "block_size \<noteq> 0"
    and ix: "open_section X crypto ix sst_id Index 0 = Inr (encode_sst_block_index (index_of blocks S))"
      "length ix < 2 ^ 32"
    and bx: "open_section X crypto bx sst_id Bloom 0 = Inr (encode_sst_bloom_filter (to_filter bl))"
      "decode_sst_bloom_filter (encode_sst_bloom_filter (to_filter bl)) = Inr (to_filter bl)"
      "length bx < 2 ^ 32"
    and ft: "open_section X crypto ft sst_id Footer 0 = Inr (encode_sst_footer
       \<lparr>f_index_offset = word_of_nat (block_offset S (length S)), f_index_len = word_of_nat (length ix),
        f_bloom_offset = word_of_nat (block_offset S (length S) + length ix),
        f_bloom_len = word_of_nat (length bx), f_block_count = word_of_nat (length blocks)\<rparr>)"
      "length ft = footer_on_disk_len crypto"
    and contents: "contents = encode_sst_header \<lparr>h_sst_id = word_of_nat sst_id, h_block_size = block_size,
                         h_entry_count = word_of_nat (length (concat blocks)), h_dim = 0\<rparr>
                       @ concat S @ ix @ bx @ ft"
  shows "\<exists>r. sst_load X (Some contents) sst_id crypto
    = Inr \<lparr>s_id = sst_id, s_file_bytes = length contents,
        s_tombstones = sum_tombstones (index_of blocks S), s_bytes_read_at_open = r,
        s_entry_count = length (concat blocks), s_block_index = index_of blocks S,
        s_bloom = bl, s_crypto = crypto\<rparr>"
proof -
  define header where "header = \<lparr>h_sst_id = word_of_nat sst_id, h_block_size = block_size,
      h_entry_count = word_of_nat (length (concat blocks)), h_dim = 0\<rparr>"
  define hdr where "hdr = encode_sst_header header"
  define footer where "footer = \<lparr>f_index_offset = word_of_nat (block_offset S (length S)),
      f_index_len = word_of_nat (length ix),
      f_bloom_offset = word_of_nat (block_offset S (length S) + length ix),
      f_bloom_len = word_of_nat (length bx), f_block_count = word_of_nat (length blocks)\<rparr>"
  have hl: "length hdr = SST_HEADER_TOTAL_LEN" by (simp add: hdr_def length_encode_sst_header)
  have c: "contents = hdr @ concat S @ ix @ bx @ ft" using contents by (simp add: hdr_def header_def)
  have ne: "\<forall>b \<in> set blocks. b \<noteq> []" using sealed by (auto simp: blocks_sealed_def in_set_conv_nth)
  have n: "length (concat blocks) < 2 ^ 29" "length blocks < 2 ^ 29"
    using length_le_kvs_size [of "concat blocks"] small length_blocks_le [OF ne] by linarith+
  have off: "block_offset S (length S) = length hdr + length (concat S)"
    by (simp add: block_offset_def hl)
  have offb: "block_offset S (length S) < 2 ^ 63"
    using block_offset_le [OF sealed, of "length S"] sealed small by (simp add: blocks_sealed_def)
  have u: "unat (h_sst_id header) = sst_id" "unat (h_entry_count header) = length (concat blocks)"
    "unat (f_index_offset footer) = length hdr + length (concat S)"
    "unat (f_index_len footer) = length ix"
    "unat (f_bloom_offset footer) = length hdr + length (concat S) + length ix"
    "unat (f_bloom_len footer) = length bx"
    using sid n ix(2) bx(3) offb
    by (simp_all add: header_def footer_def off unat_of_nat del: of_nat_add length_concat)
  have dh: "decode_sst_header hdr = Inr header"
    unfolding hdr_def by (rule decode_encode_sst_header) (use bs in \<open>simp add: sst_header_ok_def header_def\<close>)
  have di: "decode_sst_block_index (encode_sst_block_index (index_of blocks S)) = Inr (index_of blocks S)"
    by (rule decode_encode_sst_block_index, rule index_of_ok)
      (use sealed small in \<open>auto simp: blocks_sealed_def in_set_conv_nth\<close>)
  have rs: "read_span contents 0 SST_HEADER_TOTAL_LEN = Inr hdr"
    "read_span contents (length hdr + length (concat S)) (length ix) = Inr ix"
    "read_span contents (length hdr + length (concat S) + length ix) (length bx) = Inr bx"
    "read_span contents (length contents - footer_on_disk_len crypto) (footer_on_disk_len crypto) = Inr ft"
    using read_span_mid [of "[]" 0 hdr SST_HEADER_TOTAL_LEN "concat S @ ix @ bx @ ft"]
      read_span_mid [of "hdr @ concat S" _ ix _ "bx @ ft"]
      read_span_mid [of "hdr @ concat S @ ix" _ bx _ ft]
      read_span_mid [of "hdr @ concat S @ ix @ bx" _ ft _ "[]"]
    by (simp_all add: c hl ft(2) del: length_concat)
  have "\<not> length contents < SST_HEADER_TOTAL_LEN" "\<not> length contents < footer_on_disk_len crypto"
    using hl ft(2) by (simp_all add: c)
  moreover have "len32 (index_of blocks S) = f_block_count footer"
    by (simp add: len32_def footer_def index_of_def)
  moreover note sum_entries_index_of [OF small, of S]
  ultimately show ?thesis
    using rs dh di ix(1) bx(1,2) ft(1) [folded footer_def] u
    by (simp add: sst_load_def open_file_def Let_def decode_encode_sst_footer del: length_concat)
qed

lemma sst_rep_cong:
  "s_id s = s_id t \<Longrightarrow> s_crypto s = s_crypto t \<Longrightarrow> s_block_index s = s_block_index t
     \<Longrightarrow> s_bloom s = s_bloom t \<Longrightarrow> sst_rep X s contents blocks \<longleftrightarrow> sst_rep X t contents blocks"
  by (simp add: sst_rep_def read_and_verify_block_def)

lemma write_new_ok:
  assumes "sorted_keys entries" "kvs_size entries < 2 ^ 29" "mode_ok X crypto" "nonces_ok crypto ns"
  obtains s contents blocks where
    "write_new X sst_id entries block_size crypto ns = Inr (s, contents)"
    "concat blocks = entries" "sst_rep X s contents blocks"
    "s_id s = sst_id" "s_crypto s = crypto"
    "sst_id < 2 ^ 64 \<Longrightarrow> block_size \<noteq> 0 \<Longrightarrow>
       \<exists>r. sst_load X (Some contents) sst_id crypto = Inr (s\<lparr>s_bytes_read_at_open := r\<rparr>)"
proof -
  obtain blocks S ix bx ft where sh:
    "concat blocks = entries" "blocks_sealed X crypto sst_id blocks S"
    "write_new X sst_id entries block_size crypto ns =
       (let contents = encode_sst_header \<lparr>h_sst_id = word_of_nat sst_id, h_block_size = block_size,
                         h_entry_count = word_of_nat (length entries), h_dim = 0\<rparr>
                       @ concat S @ ix @ bx @ ft
        in Inr (\<lparr>s_id = sst_id, s_file_bytes = length contents,
             s_tombstones = sum_tombstones (index_of blocks S), s_bytes_read_at_open = 0,
             s_entry_count = length entries, s_block_index = index_of blocks S,
             s_bloom = bloom_of_keys X (map fst entries), s_crypto = crypto\<rparr>, contents))"
    "open_section X crypto ix sst_id Index 0 = Inr (encode_sst_block_index (index_of blocks S))"
    "open_section X crypto bx sst_id Bloom 0
       = Inr (encode_sst_bloom_filter (to_filter (bloom_of_keys X (map fst entries))))"
    "decode_sst_bloom_filter (encode_sst_bloom_filter (to_filter (bloom_of_keys X (map fst entries))))
       = Inr (to_filter (bloom_of_keys X (map fst entries)))"
    "open_section X crypto ft sst_id Footer 0 = Inr (encode_sst_footer
       \<lparr>f_index_offset = word_of_nat (block_offset S (length S)), f_index_len = word_of_nat (length ix),
        f_bloom_offset = word_of_nat (block_offset S (length S) + length ix),
        f_bloom_len = word_of_nat (length bx), f_block_count = word_of_nat (length blocks)\<rparr>)"
    "length ix < 2 ^ 32" "length bx < 2 ^ 32" "length ft = footer_on_disk_len crypto"
    by (rule write_new_shape [OF assms(3,4,2)])
  define contents where "contents = encode_sst_header \<lparr>h_sst_id = word_of_nat sst_id,
      h_block_size = block_size, h_entry_count = word_of_nat (length entries), h_dim = 0\<rparr>
      @ concat S @ ix @ bx @ ft"
  define s where "s = \<lparr>s_id = sst_id, s_file_bytes = length contents,
      s_tombstones = sum_tombstones (index_of blocks S), s_bytes_read_at_open = 0,
      s_entry_count = length entries, s_block_index = index_of blocks S,
      s_bloom = bloom_of_keys X (map fst entries), s_crypto = crypto\<rparr>"
  have "write_new X sst_id entries block_size crypto ns = Inr (s, contents)"
    by (simp only: sh(3) Let_def contents_def [symmetric] s_def)
  moreover have "sst_rep X s contents blocks"
    unfolding contents_def
    by (rule blocks_sealed_rep [OF sh(2)])
      (use assms(1,2) sh(1) in \<open>simp_all add: length_encode_sst_header s_def\<close>)
  moreover have "\<exists>r. sst_load X (Some contents) sst_id crypto = Inr (s\<lparr>s_bytes_read_at_open := r\<rparr>)"
    if "sst_id < 2 ^ 64" "block_size \<noteq> 0"
    using sst_load_shape [OF sh(2) _ that sh(4,8,5,6,9,7,10), of contents] assms(2) sh(1)
    by (simp add: s_def contents_def del: length_concat)
  ultimately show ?thesis using that sh(1) by (simp add: s_def)
qed

subsection \<open>Existing tables\<close>

text \<open>
  \<open>scan_existing\<close> opens every \<open>*.sst\<close> file of a directory, here its numbers and contents
  in the order the directory lists them, and sorts the result by number.
\<close>

fun insert_by_id :: "sst_file \<Rightarrow> sst_file list \<Rightarrow> sst_file list" where
  "insert_by_id s [] = [s]"
| "insert_by_id s (t # ts) = (if s_id s \<le> s_id t then s # t # ts else t # insert_by_id s ts)"

definition sort_by_id :: "sst_file list \<Rightarrow> sst_file list" where
  "sort_by_id ss = foldr insert_by_id ss []"

definition scan_existing ::
  "externals \<Rightarrow> (nat \<times> bytes) list \<Rightarrow> crypto_context option \<Rightarrow> sst_file list engine_result" where
  "scan_existing X dir crypto =
     rbind (rmap (\<lambda>(n, contents). sst_load X (Some contents) n crypto) dir)
       (\<lambda>found. Inr (sort_by_id found))"

lemma set_insert_by_id: "set (insert_by_id s ts) = insert s (set ts)"
  by (induction ts) auto

lemma insert_by_id_sorted:
  "sorted (map s_id ts) \<Longrightarrow> sorted (map s_id (insert_by_id s ts))"
  by (induction ts) (auto simp: set_insert_by_id)

lemma sort_by_id_sorted: "sorted (map s_id (sort_by_id ss))"
  by (induction ss) (simp_all add: sort_by_id_def insert_by_id_sorted)

lemma mset_insert_by_id: "set (sort_by_id ss) = set ss" "length (sort_by_id ss) = length ss"
proof -
  have "length (insert_by_id s ts) = Suc (length ts)" for s ts by (induction ts) auto
  then show "length (sort_by_id ss) = length ss" by (induction ss) (simp_all add: sort_by_id_def)
  show "set (sort_by_id ss) = set ss"
    by (induction ss) (simp_all add: sort_by_id_def set_insert_by_id)
qed

subsection \<open>Properties\<close>

text \<open>
  C30. A written table loads back: for sorted entries below the size bound, in plaintext or
  encrypted mode, \<open>write_new\<close> succeeds, \<open>load\<close> accepts the file, and a full scan of the
  loaded table returns exactly the entries.
\<close>

theorem sst_write_load:
  assumes "sorted_keys entries" "kvs_size entries < 2 ^ 29" "mode_ok X crypto" "nonces_ok crypto ns"
    and "sst_id < 2 ^ 64" "block_size \<noteq> 0"
  shows "\<exists>s contents t. write_new X sst_id entries block_size crypto ns = Inr (s, contents)
    \<and> sst_load X (Some contents) sst_id crypto = Inr t
    \<and> sst_entries X s (Some contents) = Inr entries \<and> sst_entries X t (Some contents) = Inr entries"
proof -
  obtain s contents blocks r where w: "write_new X sst_id entries block_size crypto ns = Inr (s, contents)"
    "concat blocks = entries" "sst_rep X s contents blocks"
    "sst_load X (Some contents) sst_id crypto = Inr (s\<lparr>s_bytes_read_at_open := r\<rparr>)"
    using write_new_ok [OF assms(1-4), of sst_id block_size] assms(5,6) by metis
  have "sst_rep X (s\<lparr>s_bytes_read_at_open := r\<rparr>) contents blocks"
    using w(3) by (subst sst_rep_cong [of _ s]) simp_all
  then show ?thesis using w sst_entries_ok by metis
qed

definition toy_ctx :: crypto_context where
  "toy_ctx = \<lparr>cc_dek = replicate KEY_LEN 9\<rparr>"

lemma toy_mode [simp]: "mode_ok toy_externals (Some toy_ctx)" "nonces_ok c (\<lambda>n. replicate NONCE_LEN 3)"
  by (simp_all add: mode_ok_def context_ok_def toy_ctx_def nonces_ok_def)

theorem sst_write_load_witness:
  "\<exists>s contents t. write_new toy_externals 5 [([1], Some [7]), ([2], None)] 1 (Some toy_ctx)
        (\<lambda>n. replicate NONCE_LEN 3) = Inr (s, contents)
     \<and> sst_load toy_externals (Some contents) 5 (Some toy_ctx) = Inr t
     \<and> sst_entries toy_externals t (Some contents) = Inr [([1], Some [7]), ([2], None)]"
  using sst_write_load [of "[([1], Some [7]), ([2], None)]" toy_externals "Some toy_ctx"
      "\<lambda>n. replicate NONCE_LEN 3" 5 1]
  by (auto simp: entry_wire_size_def)

text \<open>
  A point lookup in a written table returns exactly what its entries say of the key
  (value, tombstone or nothing), whatever the hash function, with an empty cache and with the
  cache a lookup leaves, and reads at most one data block.
\<close>

theorem sst_point_lookup:
  assumes "sorted_keys entries" "kvs_size entries < 2 ^ 29" "mode_ok X crypto" "nonces_ok crypto ns"
    and "write_new X sst_id entries block_size crypto ns = Inr (s, contents)"
  shows "\<exists>n cache. sst_get X s (Some contents) key (bc_new cap) = Inr (map_of entries key, n, cache)
    \<and> n \<le> 1
    \<and> (\<forall>key'. \<exists>n' cache'. sst_get X s (Some contents) key' cache = Inr (map_of entries key', n', cache') \<and> n' \<le> 1)"
proof -
  obtain blocks where b: "concat blocks = entries" "sst_rep X s contents blocks"
    using write_new_ok [OF assms(1-4), of sst_id block_size] assms(5) by auto
  have "cache_agrees s blocks (bc_new cap)" by (simp add: cache_agrees_def)
  then obtain n cache where g: "sst_get X s (Some contents) key (bc_new cap) = Inr (map_of entries key, n, cache)"
    "n \<le> 1" "bc_ok cache"
    "bc_blocks cache \<subseteq> {((s_id s, i), blocks ! i) | i. i < length blocks}"
    using sst_get_ok [OF b(2), of "bc_new cap" key] b(1) by auto
  then have "cache_agrees s blocks cache" by (auto simp: cache_agrees_def)
  then have "\<exists>n' cache'. sst_get X s (Some contents) key' cache = Inr (map_of entries key', n', cache') \<and> n' \<le> 1"
    for key' using sst_get_ok [OF b(2) g(3), of key'] b(1) by metis
  then show ?thesis using g by blast
qed

theorem sst_point_lookup_witness:
  "\<exists>s contents n cache. write_new toy_externals 5 [([1], Some [7]), ([2], None)] 1 (Some toy_ctx)
        (\<lambda>n. replicate NONCE_LEN 3) = Inr (s, contents)
     \<and> sst_get toy_externals s (Some contents) [2] (bc_new 100) = Inr (Some None, n, cache) \<and> n \<le> 1"
proof -
  have s: "sorted_keys [([1 :: u8], Some [7 :: u8]), ([2], None)]" "kvs_size [([1], Some [7]), ([2], None)] < 2 ^ 29"
    by (simp_all add: entry_wire_size_def)
  obtain s contents where w: "write_new toy_externals 5 [([1], Some [7]), ([2], None)] 1 (Some toy_ctx)
        (\<lambda>n. replicate NONCE_LEN 3) = Inr (s, contents)"
    using write_new_ok [OF s toy_mode(1) toy_mode(2)] by metis
  show ?thesis using sst_point_lookup [OF s toy_mode(1) toy_mode(2) w, of "[2]" 100] w by auto
qed

text \<open>
  Bounded scans of a written table: prefix and range scans return exactly the entries
  in the prefix or range, in order, skipping blocks by the index only; a limited scan
  returns a leading part of the range's entries, complete unless it reports truncation, and
  truncated only once at least \<open>limit\<close> entries were found.
\<close>

theorem sst_bounded_scans:
  assumes "sorted_keys entries" "kvs_size entries < 2 ^ 29" "mode_ok X crypto" "nonces_ok crypto ns"
    and "write_new X sst_id entries block_size crypto ns = Inr (s, contents)" "0 < limit"
  shows "(\<exists>n. entries_with_prefix X s (Some contents) pre = Inr (filter (\<lambda>(k, v). prefix pre k) entries, n))
    \<and> (\<exists>n. entries_with_range X s (Some contents) a b = Inr (filter (\<lambda>(k, v). a \<le> k \<and> k < b) entries, n))
    \<and> (\<exists>out t n. entries_with_range_limited X s (Some contents) a b limit = Inr (out, t, n)
         \<and> prefix out (filter (\<lambda>(k, v). a \<le> k \<and> k < b) entries)
         \<and> (if t then limit \<le> length out else out = filter (\<lambda>(k, v). a \<le> k \<and> k < b) entries))"
proof -
  obtain blocks where b: "concat blocks = entries" "sst_rep X s contents blocks"
    using write_new_ok [OF assms(1-4), of sst_id block_size] assms(5) by auto
  obtain out t n where "entries_with_range_limited X s (Some contents) a b limit = Inr (out, t, n)"
    "n \<le> length blocks" "prefix out (filter (\<lambda>(k, v). a \<le> k \<and> k < b) (concat blocks))"
    "\<not> t \<longrightarrow> 0 < limit \<longrightarrow> out = filter (\<lambda>(k, v). a \<le> k \<and> k < b) (concat blocks)"
    "t \<longrightarrow> 0 < limit \<and> limit \<le> length out"
    by (rule entries_with_range_limited_ok [OF b(2), of a b limit])
  then show ?thesis
    using entries_with_prefix_ok [OF b(2), of pre] entries_with_range_ok [OF b(2), of a b] b(1) assms(6) by auto
qed

theorem sst_bounded_scans_witness:
  "\<exists>s contents n. write_new toy_externals 5 [([1], Some [7]), ([2], None), ([2, 4], Some [])] 1 (Some toy_ctx)
        (\<lambda>n. replicate NONCE_LEN 3) = Inr (s, contents)
     \<and> entries_with_prefix toy_externals s (Some contents) [2] = Inr ([([2], None), ([2, 4], Some [])], n)"
proof -
  let ?es = "[([1 :: u8], Some [7 :: u8]), ([2], None), ([2, 4], Some [])]"
  have s: "sorted_keys ?es" "kvs_size ?es < 2 ^ 29"
    by (simp_all add: entry_wire_size_def)
  obtain s contents where w: "write_new toy_externals 5 ?es 1 (Some toy_ctx)
        (\<lambda>n. replicate NONCE_LEN 3) = Inr (s, contents)"
    using write_new_ok [OF s toy_mode(1) toy_mode(2)] by metis
  show ?thesis using sst_bounded_scans [OF s toy_mode(1) toy_mode(2) w, of 1 "[2]"] w by auto
qed

text \<open>
  The writer accepts a target block size of zero, but writes it into the header, where
  the reader rejects it: a table written with \<open>block_size = 0\<close> can never be opened again.
\<close>

theorem zero_block_size_unreadable:
  assumes "kvs_size entries < 2 ^ 29" "mode_ok X crypto" "nonces_ok crypto ns"
  shows "\<exists>s contents. write_new X sst_id entries 0 crypto ns = Inr (s, contents)
    \<and> sst_load X (Some contents) sst_id crypto = Inl (Corrupt SstHeader)"
proof -
  obtain S ix bx ft s where w: "write_new X sst_id entries 0 crypto ns
      = Inr (s, encode_sst_header \<lparr>h_sst_id = word_of_nat sst_id, h_block_size = 0,
               h_entry_count = word_of_nat (length entries), h_dim = 0\<rparr> @ concat S @ ix @ bx @ ft)"
    by (rule write_new_shape [OF assms(2,3,1), of sst_id 0]) (simp add: Let_def)
  let ?h = "\<lparr>h_sst_id = word_of_nat sst_id, h_block_size = 0, h_entry_count = word_of_nat (length entries), h_dim = 0\<rparr>"
  have "decode_sst_header (encode_sst_header ?h) = Inl (Corrupt SstHeader)"
    by (simp add: decode_sst_header_def encode_sst_header_def Let_def sst_len_defs with_crc_reads)
      (simp add: slice_def)
  moreover have "read_span (encode_sst_header ?h @ concat S @ ix @ bx @ ft) 0 SST_HEADER_TOTAL_LEN
      = Inr (encode_sst_header ?h)"
    using read_span_mid [of "[]" 0 "encode_sst_header ?h" SST_HEADER_TOTAL_LEN]
    by (simp add: length_encode_sst_header)
  ultimately have "sst_load X (Some (encode_sst_header ?h @ concat S @ ix @ bx @ ft)) sst_id crypto
      = Inl (Corrupt SstHeader)"
    by (simp add: sst_load_def open_file_def Let_def length_encode_sst_header)
  then show ?thesis using w by blast
qed

theorem zero_block_size_unreadable_witness:
  "\<exists>s contents. write_new toy_externals 0 [([1], Some [2])] 0 None (\<lambda>n. []) = Inr (s, contents)
    \<and> sst_load toy_externals (Some contents) 0 None = Inl (Corrupt SstHeader)"
  by (rule zero_block_size_unreadable) (simp_all add: entry_wire_size_def mode_ok_def nonces_ok_def)

text \<open>
  Every encrypted section is bound to its table, kind and number: what the reader hands
  the cipher as additional data determines all three, so a section moved to another place
  is opened with additional data it was not sealed with.
\<close>

theorem section_coordinates_bound:
  assumes "open_section X (Some ctx) raw sst_id section no = Inr plain"
  shows "\<exists>nonce ct. decode_encrypted_sst_block raw = Inr (nonce, ct)
    \<and> x_decrypt X (cc_dek ctx) nonce
        (encrypted_sst_block_aad (word_of_nat sst_id) section (word_of_nat no)) ct = Some plain
    \<and> (\<forall>i s n. (i, s, n) \<noteq> (word_of_nat sst_id, section, word_of_nat no) \<longrightarrow>
          encrypted_sst_block_aad i s n
            \<noteq> encrypted_sst_block_aad (word_of_nat sst_id) section (word_of_nat no))"
  using assms encrypted_sst_block_aad_inj
  by (fastforce simp: open_section_def crypto_open_def rbind_eq_Inr split: option.splits)

theorem section_coordinates_bound_witness:
  "encrypted_sst_block_aad 5 Data 1 \<noteq> encrypted_sst_block_aad 5 Data 0"
proof -
  have lenb: "Suc 0 < 2 ^ 32 - 16" by simp
  obtain raw where "open_section toy_externals (Some toy_ctx) raw 5 Data 0 = Inr [1]"
    using seal_section_ok [OF toy_mode(1) toy_mode(2), of "[1]"] by (metis length_Cons list.size(3) lenb)
  from section_coordinates_bound [OF this] show ?thesis by auto
qed

end
