(* ===== verification/Engine.thy ===== *)
theory Engine
  imports Wal_Store Memtable Sst_Write
begin

text \<open>
  The key-value engine (\<open>crates/basemyai-engine/src/store/engine.rs\<close>): batches, options,
  opening a directory (generation check, encryption mode, loading of tables, replay of the
  log), put, delete, batch, get, scans and pages, flush, compaction, key rotation and
  statistics.

  The directory is a record of its files' bytes. Whatever reaches the disk goes through
  \<open>emit\<close>, which applies one atomic file operation and records it in a trace, so that a crash
  is a prefix of the trace. An operation of the engine returns its result and the store it
  leaves, also when it fails. The random values an operation draws are the argument \<open>rnd\<close>:
  \<open>rnd 0\<close> serves the log, \<open>rnd 1\<close> the flushed and \<open>rnd 2\<close> the compacted table.
\<close>

subsection \<open>Batches\<close>

type_synonym batch = "kv list"

definition batch_new :: batch where "batch_new = []"
definition batch_put :: "bytes \<Rightarrow> bytes \<Rightarrow> batch \<Rightarrow> batch" where "batch_put k v b = b @ [(k, Some v)]"
definition batch_delete :: "bytes \<Rightarrow> batch \<Rightarrow> batch" where "batch_delete k b = b @ [(k, None)]"
definition batch_extend_from :: "batch \<Rightarrow> batch \<Rightarrow> batch" where "batch_extend_from other b = b @ other"

definition approx_wire_bytes :: "batch \<Rightarrow> nat" where
  "approx_wire_bytes b =
     sum_list (map (\<lambda>(k, v). length k + (case v of None \<Rightarrow> 0 | Some x \<Rightarrow> length x) + 16) b)"

subsection \<open>The directory\<close>

record disk =
  d_store_meta :: "bytes option"
  d_crypto_meta :: "bytes option"
  d_wal :: "bytes option"
  d_ssts :: "(nat \<times> bytes) list"

datatype disk_op =
    StoreMetaPublish bytes
  | CryptoMetaPublish bytes
  | WalCreate
  | WalAppend bytes
  | WalSetLen nat
  | SstPublish nat bytes
  | SstRemove nat

definition wal_contents :: "disk \<Rightarrow> bytes" where
  "wal_contents d = (case d_wal d of None \<Rightarrow> [] | Some c \<Rightarrow> c)"

definition dir_put :: "nat \<Rightarrow> bytes \<Rightarrow> (nat \<times> bytes) list \<Rightarrow> (nat \<times> bytes) list" where
  "dir_put n c dir = filter (\<lambda>(m, c). m \<noteq> n) dir @ [(n, c)]"

fun apply_disk_op :: "disk_op \<Rightarrow> disk \<Rightarrow> disk" where
  "apply_disk_op (StoreMetaPublish b) d = d\<lparr>d_store_meta := Some b\<rparr>"
| "apply_disk_op (CryptoMetaPublish b) d = d\<lparr>d_crypto_meta := Some b\<rparr>"
| "apply_disk_op WalCreate d = d\<lparr>d_wal := Some (wal_contents d)\<rparr>"
| "apply_disk_op (WalAppend b) d = d\<lparr>d_wal := Some (wal_contents d @ b)\<rparr>"
| "apply_disk_op (WalSetLen n) d = d\<lparr>d_wal := Some (wal_truncate_to (wal_contents d) n)\<rparr>"
| "apply_disk_op (SstPublish n c) d = d\<lparr>d_ssts := dir_put n c (d_ssts d)\<rparr>"
| "apply_disk_op (SstRemove n) d = d\<lparr>d_ssts := filter (\<lambda>(m, c). m \<noteq> n) (d_ssts d)\<rparr>"

subsection \<open>The open engine\<close>

record engine_options =
  memtable_flush_threshold :: nat
  compaction_sst_threshold :: nat
  block_size :: u32
  block_cache_capacity_bytes :: nat

definition default_options :: engine_options where
  "default_options = \<lparr>memtable_flush_threshold = 1000, compaction_sst_threshold = 4,
     block_size = 16 * 1024, block_cache_capacity_bytes = 32 * 1024 * 1024\<rparr>"

record counters =
  wal_records :: nat
  flush_count :: nat
  compaction_count :: nat
  compaction_input_bytes :: nat
  compaction_output_bytes :: nat
  bytes_read :: nat
  bytes_written :: nat

record store =
  memtable :: memtable
  ssts :: "sst_file list"
  next_sst_id :: nat
  options :: engine_options
  crypto :: "crypto_context option"
  counters :: counters
  point_lookup_full_sst_read :: nat
  block_cache :: block_cache
  disk :: disk
  trace :: "disk_op list"

type_synonym 'a outcome = "'a engine_result \<times> store"

definition emit :: "disk_op \<Rightarrow> store \<Rightarrow> store" where
  "emit f st = st\<lparr>disk := apply_disk_op f (disk st), trace := trace st @ [f]\<rparr>"

text \<open>The file of an open table.\<close>

definition sst_disk_file :: "store \<Rightarrow> sst_file \<Rightarrow> bytes option" where
  "sst_disk_file st s = map_of (d_ssts (disk st)) (s_id s)"

subsection \<open>Flush and compaction\<close>

definition note_flush :: "nat \<Rightarrow> store \<Rightarrow> store" where
  "note_flush n st = st\<lparr>counters := (counters st)\<lparr>flush_count := flush_count (counters st) + 1,
     bytes_written := bytes_written (counters st) + n\<rparr>\<rparr>"

definition note_compaction :: "nat \<Rightarrow> nat \<Rightarrow> store \<Rightarrow> store" where
  "note_compaction input_bytes output_bytes st =
     st\<lparr>counters := (counters st)\<lparr>compaction_count := compaction_count (counters st) + 1,
       compaction_input_bytes := compaction_input_bytes (counters st) + input_bytes,
       compaction_output_bytes := compaction_output_bytes (counters st) + output_bytes,
       bytes_written := bytes_written (counters st) + output_bytes\<rparr>\<rparr>"

fun merge_tables :: "kv list list \<Rightarrow> kv list" where
  "merge_tables rs = foldl (\<lambda>merged es. om_inserts es merged) [] rs"

definition remove_table :: "sst_file \<Rightarrow> store \<Rightarrow> store" where
  "remove_table old st =
     (let st1 = emit (SstRemove (s_id old)) st
      in st1\<lparr>block_cache := invalidate_sst (block_cache st1) (s_id old)\<rparr>)"

definition engine_compact :: "externals \<Rightarrow> (nat \<Rightarrow> nat \<Rightarrow> bytes) \<Rightarrow> store \<Rightarrow> unit outcome" where
  "engine_compact X rnd st =
     (let input_bytes = sum_list (map s_file_bytes (ssts st))
      in case rmap (\<lambda>s. sst_entries X s (sst_disk_file st s)) (ssts st) of
           Inl e \<Rightarrow> (Inl e, st)
         | Inr tables \<Rightarrow>
             let entries = filter (\<lambda>(k, v). v \<noteq> None) (merge_tables tables);
                 sst_id = next_sst_id st
             in case write_new X sst_id entries (block_size (options st)) (crypto st) (rnd 2) of
                  Inl e \<Rightarrow> (Inl e, st)
                | Inr (new_sst, contents) \<Rightarrow>
                    let st1 = emit (SstPublish sst_id contents) st;
                        st2 = note_compaction input_bytes (s_file_bytes new_sst)
                                (st1\<lparr>next_sst_id := next_sst_id st1 + 1\<rparr>);
                        old_ssts = ssts st2;
                        st3 = st2\<lparr>ssts := [new_sst]\<rparr>
                    in (Inr (), fold remove_table old_ssts st3))"

definition engine_flush :: "externals \<Rightarrow> (nat \<Rightarrow> nat \<Rightarrow> bytes) \<Rightarrow> store \<Rightarrow> unit outcome" where
  "engine_flush X rnd st =
     (if mt_is_empty (memtable st) then (Inr (), st)
      else
        let entries = mt_iter (memtable st);
            sst_id = next_sst_id st
        in case write_new X sst_id entries (block_size (options st)) (crypto st) (rnd 1) of
             Inl e \<Rightarrow> (Inl e, st)
           | Inr (new_sst, contents) \<Rightarrow>
               let st1 = note_flush (s_file_bytes new_sst) (emit (SstPublish sst_id contents) st);
                   st2 = emit (WalSetLen 0) st1;
                   st3 = st2\<lparr>next_sst_id := next_sst_id st2 + 1, ssts := ssts st2 @ [new_sst],
                             memtable := mt_clear (memtable st2)\<rparr>
               in if length (ssts st3) > compaction_sst_threshold (options st3)
                  then engine_compact X rnd st3
                  else (Inr (), st3))"

definition maybe_flush :: "externals \<Rightarrow> (nat \<Rightarrow> nat \<Rightarrow> bytes) \<Rightarrow> store \<Rightarrow> unit outcome" where
  "maybe_flush X rnd st =
     (if mt_len (memtable st) \<ge> memtable_flush_threshold (options st) then engine_flush X rnd st
      else (Inr (), st))"

definition compact_now :: "externals \<Rightarrow> (nat \<Rightarrow> nat \<Rightarrow> bytes) \<Rightarrow> (nat \<Rightarrow> nat \<Rightarrow> bytes) \<Rightarrow> store \<Rightarrow> unit outcome" where
  "compact_now X rnd rnd' st =
     (case engine_flush X rnd st of
        (Inl e, st1) \<Rightarrow> (Inl e, st1)
      | (Inr u, st1) \<Rightarrow> if ssts st1 = [] then (Inr (), st1) else engine_compact X rnd' st1)"

definition engine_close :: "externals \<Rightarrow> (nat \<Rightarrow> nat \<Rightarrow> bytes) \<Rightarrow> store \<Rightarrow> unit outcome" where
  "engine_close X rnd st = engine_flush X rnd st"

subsection \<open>Writes\<close>

definition note_wal_record :: "nat \<Rightarrow> store \<Rightarrow> store" where
  "note_wal_record n st = st\<lparr>counters := (counters st)\<lparr>wal_records := wal_records (counters st) + 1,
     bytes_written := bytes_written (counters st) + n\<rparr>\<rparr>"

text \<open>Append to the log file what \<open>Wal\<close> appended, or fail before anything happened.\<close>

definition log_append ::
  "(bytes \<times> nat) engine_result \<Rightarrow> store \<Rightarrow> (store \<Rightarrow> unit outcome) \<Rightarrow> unit outcome" where
  "log_append appended st k =
     (case appended of
        Inl e \<Rightarrow> (Inl e, st)
      | Inr (contents, written) \<Rightarrow>
          k (note_wal_record written
               (emit (WalAppend (drop (length (wal_contents (disk st))) contents)) st)))"

definition engine_put ::
  "externals \<Rightarrow> (nat \<Rightarrow> nat \<Rightarrow> bytes) \<Rightarrow> bytes \<Rightarrow> bytes \<Rightarrow> store \<Rightarrow> unit outcome" where
  "engine_put X rnd key v st =
     log_append (wal_append X (crypto st) (rnd 0 0) (wal_contents (disk st)) Put key (Some v)) st
       (\<lambda>st1. maybe_flush X rnd (st1\<lparr>memtable := mt_put key v (memtable st1)\<rparr>))"

definition engine_delete ::
  "externals \<Rightarrow> (nat \<Rightarrow> nat \<Rightarrow> bytes) \<Rightarrow> bytes \<Rightarrow> store \<Rightarrow> unit outcome" where
  "engine_delete X rnd key st =
     log_append (wal_append X (crypto st) (rnd 0 0) (wal_contents (disk st)) Delete key None) st
       (\<lambda>st1. maybe_flush X rnd (st1\<lparr>memtable := mt_delete key (memtable st1)\<rparr>))"

definition apply_batch ::
  "externals \<Rightarrow> (nat \<Rightarrow> nat \<Rightarrow> bytes) \<Rightarrow> batch \<Rightarrow> store \<Rightarrow> unit outcome" where
  "apply_batch X rnd b st =
     (if b = [] then (Inr (), st)
      else
        let wal_ops = map (\<lambda>(k, v). \<lparr>b_op = (if v \<noteq> None then Put else Delete), b_key = k, b_value = v\<rparr>) b
        in log_append (append_batch X (crypto st) (rnd 0 0) (wal_contents (disk st)) wal_ops) st
             (\<lambda>st1. maybe_flush X rnd (st1\<lparr>memtable := fold mt_apply b (memtable st1)\<rparr>)))"

subsection \<open>Reads\<close>

text \<open>The walk over the tables from newest to oldest.\<close>

fun get_from_tables ::
  "externals \<Rightarrow> bytes \<Rightarrow> sst_file list \<Rightarrow> store \<Rightarrow> bytes option outcome" where
  "get_from_tables X key [] st = (Inr None, st)"
| "get_from_tables X key (s # ss) st =
     (case sst_get X s (sst_disk_file st s) key (block_cache st) of
        Inl e \<Rightarrow> (Inl e, st)
      | Inr (hit, blocks_read, cache) \<Rightarrow>
          let st1 = st\<lparr>block_cache := cache\<rparr>;
              st2 = (if blocks_read > 1
                     then st1\<lparr>point_lookup_full_sst_read := point_lookup_full_sst_read st1 + 1\<rparr>
                     else st1)
          in case hit of
               Some v \<Rightarrow> (Inr v, st2)
             | None \<Rightarrow> get_from_tables X key ss st2)"

definition engine_get :: "externals \<Rightarrow> bytes \<Rightarrow> store \<Rightarrow> bytes option outcome" where
  "engine_get X key st =
     (case mt_get (memtable st) key of
        Some hit \<Rightarrow> (Inr hit, st)
      | None \<Rightarrow> get_from_tables X key (rev (ssts st)) st)"

definition scan_prefix :: "externals \<Rightarrow> bytes \<Rightarrow> store \<Rightarrow> (bytes \<times> bytes) list engine_result" where
  "scan_prefix X pre st =
     rbind (rmap (\<lambda>s. rbind (entries_with_prefix X s (sst_disk_file st s) pre)
                        (\<lambda>(matches, blocks_read). Inr matches)) (ssts st)) (\<lambda>tables.
       Inr (live (om_inserts (filter (\<lambda>(k, v). prefix pre k) (mt_iter (memtable st)))
                    (merge_tables tables))))"

definition scan_range ::
  "externals \<Rightarrow> bytes \<Rightarrow> bytes \<Rightarrow> store \<Rightarrow> (bytes \<times> bytes) list engine_result" where
  "scan_range X start end st =
     (if start \<ge> end then Inr []
      else
        rbind (rmap (\<lambda>s. rbind (entries_with_range X s (sst_disk_file st s) start end)
                           (\<lambda>(matches, blocks_read). Inr matches)) (ssts st)) (\<lambda>tables.
          Inr (live (om_inserts (filter (\<lambda>(k, v). k \<ge> start \<and> k < end) (mt_iter (memtable st)))
                       (merge_tables tables)))))"

subsection \<open>Pages\<close>

record scan_page =
  p_entries :: "(bytes \<times> bytes) list"
  p_next_start :: "bytes option"

definition clip :: "bytes option \<Rightarrow> bytes option \<Rightarrow> bytes option" where
  "clip candidate current =
     (case (candidate, current) of
        (Some c, Some f) \<Rightarrow> Some (min c f)
      | (Some c, None) \<Rightarrow> Some c
      | (None, f) \<Rightarrow> f)"

text \<open>The pass over the tables: what they contribute, and the frontier.\<close>

fun page_tables ::
  "externals \<Rightarrow> bytes \<Rightarrow> bytes \<Rightarrow> nat \<Rightarrow> store \<Rightarrow> sst_file list \<Rightarrow> kv list \<Rightarrow> bytes option
     \<Rightarrow> (kv list \<times> bytes option) engine_result" where
  "page_tables X start end limit st [] merged frontier = Inr (merged, frontier)"
| "page_tables X start end limit st (s # ss) merged frontier =
     rbind (entries_with_range_limited X s (sst_disk_file st s) start end limit)
       (\<lambda>(matches, truncated, blocks_read).
          page_tables X start end limit st ss (om_inserts matches merged)
            (if truncated
             then clip (if matches = [] then None else Some (fst (last matches))) frontier
             else frontier))"

text \<open>The pass over the memtable, entry by entry.\<close>

fun page_memtable ::
  "bytes \<Rightarrow> bytes \<Rightarrow> nat \<Rightarrow> kv list \<Rightarrow> nat \<Rightarrow> bytes option \<Rightarrow> kv list \<Rightarrow> bytes option
     \<Rightarrow> kv list \<times> bytes option" where
  "page_memtable start end limit [] taken last_taken merged frontier = (merged, frontier)"
| "page_memtable start end limit ((k, v) # es) taken last_taken merged frontier =
     (if k < start \<or> k \<ge> end
      then page_memtable start end limit es taken last_taken merged frontier
      else if taken = limit then (merged, clip last_taken frontier)
      else page_memtable start end limit es (taken + 1) (Some k) (om_insert k v merged) frontier)"

definition scan_range_page ::
  "externals \<Rightarrow> bytes \<Rightarrow> bytes \<Rightarrow> nat \<Rightarrow> store \<Rightarrow> scan_page engine_result" where
  "scan_range_page X start end limit st =
     (if start \<ge> end \<or> limit = 0 then Inr \<lparr>p_entries = [], p_next_start = None\<rparr>
      else
        rbind (page_tables X start end limit st (ssts st) [] None) (\<lambda>(merged1, frontier1).
          let (merged, frontier) =
                page_memtable start end limit (mt_iter (memtable st)) 0 None merged1 frontier1
          in Inr (case frontier of
               None \<Rightarrow> \<lparr>p_entries = live merged, p_next_start = None\<rparr>
             | Some f \<Rightarrow>
                 \<lparr>p_entries = live (takeWhile (\<lambda>(k, v). k \<le> f) merged),
                  p_next_start = Some (f @ [0])\<rparr>)))"

subsection \<open>Keys and statistics\<close>

definition is_encrypted :: "store \<Rightarrow> bool" where
  "is_encrypted st \<longleftrightarrow> crypto st \<noteq> None"

definition rotate_key :: "externals \<Rightarrow> bytes \<Rightarrow> bytes \<Rightarrow> bytes \<Rightarrow> store \<Rightarrow> unit outcome" where
  "rotate_key X new_key salt nonce st =
     (case crypto st of
        None \<Rightarrow> (Inl NotEncrypted, st)
      | Some ctx \<Rightarrow>
          (case write_meta X new_key ctx salt nonce of
             Inl e \<Rightarrow> (Inl e, st)
           | Inr meta \<Rightarrow> (Inr (), emit (CryptoMetaPublish meta) st)))"

record engine_stats =
  es_wal_bytes :: nat
  es_wal_records :: nat
  es_memtable_bytes :: nat
  es_sst_count :: nat
  es_sst_bytes :: nat
  es_tombstone_count :: nat
  es_flush_count :: nat
  es_compaction_count :: nat
  es_compaction_input_bytes :: nat
  es_compaction_output_bytes :: nat
  es_bytes_read :: nat
  es_bytes_written :: nat
  es_block_cache_hits :: nat
  es_block_cache_misses :: nat
  es_point_lookup_full_sst_read :: nat

definition stats :: "store \<Rightarrow> engine_stats" where
  "stats st =
     (let memtable_bytes = sum_list (map (\<lambda>(k, v). length k
             + (case v of Some x \<Rightarrow> length x | None \<Rightarrow> 0)) (mt_iter (memtable st)));
          memtable_tombstones = length (filter (\<lambda>(k, v). v = None) (mt_iter (memtable st)));
          c = counters st
      in \<lparr>es_wal_bytes = length (wal_contents (disk st)), es_wal_records = wal_records c,
          es_memtable_bytes = memtable_bytes, es_sst_count = length (ssts st),
          es_sst_bytes = sum_list (map s_file_bytes (ssts st)),
          es_tombstone_count = memtable_tombstones + sum_list (map s_tombstones (ssts st)),
          es_flush_count = flush_count c, es_compaction_count = compaction_count c,
          es_compaction_input_bytes = compaction_input_bytes c,
          es_compaction_output_bytes = compaction_output_bytes c,
          es_bytes_read = bytes_read c, es_bytes_written = bytes_written c,
          es_block_cache_hits = bc_hits (block_cache st),
          es_block_cache_misses = bc_misses (block_cache st),
          es_point_lookup_full_sst_read = point_lookup_full_sst_read st\<rparr>)"

subsection \<open>Opening\<close>

definition sst_files_present :: "disk \<Rightarrow> bool" where
  "sst_files_present d \<longleftrightarrow> d_ssts d \<noteq> []"

text \<open>Returns the file operation it performs, if any.\<close>

definition check_or_create_store_meta :: "disk \<Rightarrow> disk_op list engine_result" where
  "check_or_create_store_meta d =
     (case d_store_meta d of
        Some buf \<Rightarrow>
          rbind (decode_store_meta buf) (\<lambda>meta.
            if store_format_version meta \<noteq> STORE_FORMAT_VERSION
            then Inl (UnsupportedStoreFormat STORE_FORMAT_VERSION (store_format_version meta))
            else Inr [])
      | None \<Rightarrow>
          if d_wal d \<noteq> None \<or> sst_files_present d
          then Inl (UnsupportedStoreFormat STORE_FORMAT_VERSION 0)
          else Inr [StoreMetaPublish (encode_store_meta
                      \<lparr>store_format_version = STORE_FORMAT_VERSION\<rparr>)])"

text \<open>\<open>fresh\<close> holds the data key, salt and nonce a first encrypted open draws.\<close>

definition open_crypto ::
  "externals \<Rightarrow> disk \<Rightarrow> bytes option \<Rightarrow> bytes \<times> bytes \<times> bytes
     \<Rightarrow> (crypto_context option \<times> disk_op list) engine_result" where
  "open_crypto X d key fresh =
     (case (d_crypto_meta d, key) of
        (Some meta, Some k) \<Rightarrow> rbind (load_meta X (Some meta) k) (\<lambda>ctx. Inr (Some ctx, []))
      | (Some meta, None) \<Rightarrow> Inl MissingEncryptionKey
      | (None, Some k) \<Rightarrow>
          if d_wal d \<noteq> None \<or> sst_files_present d then Inl PlaintextStoreKeySupplied
          else
            let (dek, salt, nonce) = fresh
            in rbind (create_meta X k dek salt nonce)
                 (\<lambda>(ctx, meta). Inr (Some ctx, [CryptoMetaPublish meta]))
      | (None, None) \<Rightarrow> Inr (None, []))"

definition replay_record :: "wal_record \<Rightarrow> memtable \<Rightarrow> memtable" where
  "replay_record r m =
     (case r_op r of
        Put \<Rightarrow> mt_put (r_key r) (val_bytes (r_value r)) m
      | Delete \<Rightarrow> mt_delete (r_key r) m
      | Batch \<Rightarrow> m)"

text \<open>
  \<open>engine_open_io\<close> returns the result with the file operations that were performed up to the return, on
  the errors too; the directory is left as these operations make it.
\<close>

definition engine_open_io ::
  "externals \<Rightarrow> engine_options \<Rightarrow> bytes option \<Rightarrow> bytes \<times> bytes \<times> bytes \<Rightarrow> disk
     \<Rightarrow> store engine_result \<times> disk_op list" where
  "engine_open_io X opts key fresh d0 =
     (case check_or_create_store_meta d0 of Inl e \<Rightarrow> (Inl e, []) | Inr ops1 \<Rightarrow>
     let d1 = fold apply_disk_op ops1 d0
     in (case open_crypto X d1 key fresh of Inl e \<Rightarrow> (Inl e, ops1) | Inr (mode, ops2) \<Rightarrow>
     let d2 = fold apply_disk_op ops2 d1
     in (case scan_existing X (d_ssts d2) mode of Inl e \<Rightarrow> (Inl e, ops1 @ ops2) | Inr tables \<Rightarrow>
     let next_id = Max (insert 0 ((\<lambda>s. s_id s + 1) ` set tables));
         d3 = apply_disk_op WalCreate d2
     in (case wal_replay X mode (wal_contents d3) of Inl e \<Rightarrow> (Inl e, ops1 @ ops2 @ [WalCreate]) | Inr (records, contents) \<Rightarrow>
     let ops4 = (if length contents \<noteq> length (wal_contents d3) then [WalSetLen (length contents)] else []);
         d4 = fold apply_disk_op ops4 d3;
         memtable = fold replay_record records mt_new
     in (Inr \<lparr>memtable = memtable, ssts = tables, next_sst_id = next_id, options = opts,
           crypto = mode,
           counters = \<lparr>wal_records = 0, flush_count = 0, compaction_count = 0,
             compaction_input_bytes = 0, compaction_output_bytes = 0,
             bytes_read = sum_list (map s_bytes_read_at_open tables) + length (wal_contents d3),
             bytes_written = 0\<rparr>,
           point_lookup_full_sst_read = 0,
           block_cache = bc_new (block_cache_capacity_bytes opts),
           disk = d4, trace = ops1 @ ops2 @ [WalCreate] @ ops4\<rparr>, ops1 @ ops2 @ [WalCreate] @ ops4)))))"

definition engine_open ::
  "externals \<Rightarrow> engine_options \<Rightarrow> bytes option \<Rightarrow> bytes \<times> bytes \<times> bytes \<Rightarrow> disk
     \<Rightarrow> store engine_result" where
  "engine_open X opts key fresh d0 = fst (engine_open_io X opts key fresh d0)"

text \<open>The result, stage by stage; a store that was opened has performed exactly the operations returned.\<close>

lemma engine_open_stages:
  "engine_open X opts key fresh d0 =
     rbind (check_or_create_store_meta d0) (\<lambda>ops1.
     let d1 = fold apply_disk_op ops1 d0
     in rbind (open_crypto X d1 key fresh) (\<lambda>(crypto, ops2).
     let d2 = fold apply_disk_op ops2 d1
     in rbind (scan_existing X (d_ssts d2) crypto) (\<lambda>ssts.
     let next_id = Max (insert 0 ((\<lambda>s. s_id s + 1) ` set ssts));
         d3 = apply_disk_op WalCreate d2
     in rbind (wal_replay X crypto (wal_contents d3)) (\<lambda>(records, contents).
     let ops4 = (if length contents \<noteq> length (wal_contents d3) then [WalSetLen (length contents)] else []);
         d4 = fold apply_disk_op ops4 d3;
         memtable = fold replay_record records mt_new
     in Inr \<lparr>memtable = memtable, ssts = ssts, next_sst_id = next_id, options = opts,
           crypto = crypto,
           counters = \<lparr>wal_records = 0, flush_count = 0, compaction_count = 0,
             compaction_input_bytes = 0, compaction_output_bytes = 0,
             bytes_read = sum_list (map s_bytes_read_at_open ssts) + length (wal_contents d3),
             bytes_written = 0\<rparr>,
           point_lookup_full_sst_read = 0,
           block_cache = bc_new (block_cache_capacity_bytes opts),
           disk = d4, trace = ops1 @ ops2 @ [WalCreate] @ ops4\<rparr>))))"
  unfolding engine_open_def engine_open_io_def Let_def
  by (simp add: case_prod_unfold split: sum.split)

lemma engine_open_performed:
  "engine_open_io X opts key fresh d0 = (Inr st, ops) \<Longrightarrow> trace st = ops \<and> disk st = fold apply_disk_op ops d0"
  by (auto simp: engine_open_io_def Let_def split: sum.splits prod.splits)

end
