(* ===== verification/Engine_Inv.thy ===== *)
theory Engine_Inv
  imports Engine
begin

text \<open>
  The abstraction of the engine and its invariant. \<open>runs\<close> are the tables of the store,
  oldest first, with their entries; the content of a store is the finite map obtained by
  laying the runs and then the memtable over each other and dropping tombstones. The
  on-disk half of the invariant (\<open>disk_rep\<close>) is what opening needs, and it is what every
  crash leaves.
\<close>

subsection \<open>Abstraction\<close>

type_synonym run = "nat \<times> kv list"

fun layers :: "run list \<Rightarrow> bytes \<rightharpoonup> bytes option" where
  "layers [] = Map.empty"
| "layers ((n, es) # rs) = map_of es ++ layers rs"

definition store_map :: "run list \<Rightarrow> memtable \<Rightarrow> bytes \<rightharpoonup> bytes" where
  "store_map runs mt = flat (layers runs ++ mt_get mt)"

definition table_ok :: "externals \<Rightarrow> crypto_context option \<Rightarrow> nat \<Rightarrow> bytes \<Rightarrow> kv list \<Rightarrow> bool" where
  "table_ok X cr n contents es \<longleftrightarrow>
     (\<exists>s blocks. sst_load X (Some contents) n cr = Inr s \<and> sst_rep X s contents blocks
        \<and> concat blocks = es)"

definition dir_rep ::
  "externals \<Rightarrow> crypto_context option \<Rightarrow> (nat \<times> bytes) list \<Rightarrow> run list \<Rightarrow> bool" where
  "dir_rep X cr dir runs \<longleftrightarrow> distinct (map fst dir) \<and> sorted_keys runs
     \<and> fst ` set dir = fst ` set runs
     \<and> (\<forall>(n, es) \<in> set runs. \<exists>contents. map_of dir n = Some contents \<and> table_ok X cr n contents es)"

definition table_rep :: "externals \<Rightarrow> (nat \<times> bytes) list \<Rightarrow> sst_file \<Rightarrow> run \<Rightarrow> bool" where
  "table_rep X dir s r \<longleftrightarrow> s_id s = fst r
     \<and> (\<exists>contents blocks. map_of dir (fst r) = Some contents \<and> sst_rep X s contents blocks
          \<and> concat blocks = snd r)"

definition cache_rep :: "externals \<Rightarrow> (nat \<times> bytes) list \<Rightarrow> sst_file list \<Rightarrow> block_cache \<Rightarrow> bool" where
  "cache_rep X dir ss c \<longleftrightarrow> bc_ok c
     \<and> (\<forall>((i, n), b) \<in> bc_blocks c. \<exists>s contents. s \<in> set ss \<and> s_id s = i \<and> map_of dir i = Some contents
          \<and> n < length (s_block_index s)
          \<and> read_and_verify_block X s contents n (s_block_index s ! n) = Inr b)"

definition store_meta_bytes :: bytes where
  "store_meta_bytes = encode_store_meta \<lparr>store_format_version = STORE_FORMAT_VERSION\<rparr>"

definition disk_rep ::
  "externals \<Rightarrow> crypto_context option \<Rightarrow> disk \<Rightarrow> run list \<Rightarrow> kv list \<Rightarrow> bool" where
  "disk_rep X cr d runs ops \<longleftrightarrow> d_store_meta d = Some store_meta_bytes
     \<and> dir_rep X cr (d_ssts d) runs
     \<and> (\<exists>contents torn. wal_contents d = contents @ torn \<and> wal_holds X cr contents ops
          \<and> wal_torn X cr torn)"

definition disk_map :: "run list \<Rightarrow> kv list \<Rightarrow> bytes \<rightharpoonup> bytes" where
  "disk_map runs ops = flat (layers runs ++ map_of (rev ops))"

definition store_inv :: "externals \<Rightarrow> store \<Rightarrow> run list \<Rightarrow> bool" where
  "store_inv X st runs \<longleftrightarrow> mode_ok X (crypto st) \<and> block_size (options st) \<noteq> 0
     \<and> d_store_meta (disk st) = Some store_meta_bytes
     \<and> dir_rep X (crypto st) (d_ssts (disk st)) runs
     \<and> list_all2 (table_rep X (d_ssts (disk st))) (ssts st) runs
     \<and> (\<forall>(n, es) \<in> set runs. n < next_sst_id st)
     \<and> cache_rep X (d_ssts (disk st)) (ssts st) (block_cache st)
     \<and> (\<exists>ops. wal_holds X (crypto st) (wal_contents (disk st)) ops
          \<and> memtable st = fold mt_apply ops mt_new)"

text \<open>Sizes: the bound under which every 32-bit length on disk holds its value.\<close>

definition runs_size :: "run list \<Rightarrow> nat" where
  "runs_size runs = sum_list (map (\<lambda>(n, es). kvs_size es) runs)"

definition store_size :: "store \<Rightarrow> run list \<Rightarrow> nat" where
  "store_size st runs = runs_size runs + kvs_size (mt_entries (memtable st))"

definition STORE_LIMIT :: nat where "STORE_LIMIT = 2 ^ 29"

text \<open>What reopening needs to find, for the content \<open>m\<close>.\<close>

definition recoverable ::
  "externals \<Rightarrow> crypto_context option \<Rightarrow> bytes option \<Rightarrow> disk \<Rightarrow> (bytes \<rightharpoonup> bytes) \<Rightarrow> bool" where
  "recoverable X cr cm d m \<longleftrightarrow> d_crypto_meta d = cm
     \<and> (\<exists>runs ops. disk_rep X cr d runs ops \<and> disk_map runs ops = m)"

text \<open>
  The states a crash can leave while the file operations \<open>fs\<close> are performed: any prefix of
  them, the last append possibly torn.
\<close>

fun torn_states :: "disk_op \<Rightarrow> disk \<Rightarrow> disk set" where
  "torn_states (WalAppend b) d = {apply_disk_op (WalAppend t) d | t. strict_prefix t b}"
| "torn_states _ d = {}"

fun crash_states :: "disk \<Rightarrow> disk_op list \<Rightarrow> disk set" where
  "crash_states d [] = {d}"
| "crash_states d (f # fs) = {d} \<union> torn_states f d \<union> crash_states (apply_disk_op f d) fs"

lemma crash_states_append:
  "crash_states d (xs @ ys) = crash_states d xs \<union> crash_states (fold apply_disk_op xs d) ys"
proof (induction xs arbitrary: d)
  case Nil
  then show ?case by (cases ys) auto
qed auto

lemma crash_states_last: "fold apply_disk_op fs d \<in> crash_states d fs"
  by (induction fs arbitrary: d) auto

subsection \<open>Layers\<close>

lemma layers_append: "layers (xs @ ys) = layers xs ++ layers ys"
  by (induction xs rule: layers.induct) (simp_all add: map_add_assoc)

lemma layers_snoc [simp]: "layers (xs @ [(n, es)]) = layers xs ++ map_of es"
  by (simp add: layers_append)

lemma store_map_put [simp]:
  "mt_ok mt \<Longrightarrow> store_map runs (mt_put k v mt) = (store_map runs mt)(k \<mapsto> v)"
  "mt_ok mt \<Longrightarrow> store_map runs (mt_delete k mt) = (store_map runs mt)(k := None)"
  by (simp_all add: store_map_def memtable.look_put memtable.look_del)

definition apply_kv :: "kv \<Rightarrow> (bytes \<rightharpoonup> bytes) \<Rightarrow> bytes \<rightharpoonup> bytes" where
  "apply_kv = (\<lambda>(k, v) m. m(k := v))"

lemma store_map_apply:
  "mt_ok mt \<Longrightarrow> store_map runs (mt_apply (k, v) mt) = apply_kv (k, v) (store_map runs mt)"
  by (cases v) (simp_all add: mt_apply_def apply_kv_def)

lemma store_map_fold:
  "mt_ok mt \<Longrightarrow> store_map runs (fold mt_apply b mt) = fold apply_kv b (store_map runs mt)"
proof (induction b arbitrary: mt)
  case (Cons e b)
  obtain k v where "e = (k, v)" by (cases e)
  then show ?case using Cons by (simp add: store_map_apply)
qed simp

lemma disk_map_store: "disk_map runs ops = store_map runs (fold mt_apply ops mt_new)"
  by (simp add: disk_map_def store_map_def mt_get_fold)

text \<open>Merging the runs computes their layers.\<close>

lemma merge_foldl:
  "(\<forall>(n, es) \<in> set runs. sorted_keys es) \<Longrightarrow> sorted_keys m \<Longrightarrow>
     sorted_keys (foldl (\<lambda>merged es. om_inserts es merged) m (map snd runs))
     \<and> map_of (foldl (\<lambda>merged es. om_inserts es merged) m (map snd runs)) = map_of m ++ layers runs"
proof (induction runs arbitrary: m)
  case (Cons r runs)
  obtain n es where r: "r = (n, es)" by (cases r)
  then show ?case using Cons.IH [of "om_inserts es m"] Cons.prems
    by (simp add: map_of_om_inserts_sorted map_add_assoc)
qed simp

lemma merge_tables_runs:
  assumes "\<forall>(n, es) \<in> set runs. sorted_keys es"
  shows "sorted_keys (merge_tables (map snd runs))" "map_of (merge_tables (map snd runs)) = layers runs"
  using merge_foldl [OF assms, of "[]"] by simp_all

lemma kvs_size_insert: "kvs_size (om_insert k v m) \<le> entry_wire_size (k, v) + kvs_size m"
  by (induction k v m rule: om_insert.induct) auto

lemma kvs_size_inserts: "kvs_size (om_inserts es m) \<le> kvs_size es + kvs_size m"
proof (induction es arbitrary: m)
  case (Cons e es)
  obtain k v where "e = (k, v)" by (cases e)
  then show ?case using Cons [of "om_insert k v m"] kvs_size_insert [of k v m] by simp
qed simp

lemma kvs_size_filter: "kvs_size (filter P es) \<le> kvs_size es"
  by (induction es) auto

lemma kvs_size_merge: "kvs_size (merge_tables (map snd runs)) \<le> runs_size runs"
proof -
  have "kvs_size (foldl (\<lambda>merged es. om_inserts es merged) m (map snd runs)) \<le> runs_size runs + kvs_size m" for m
  proof (induction runs arbitrary: m)
    case (Cons r runs)
    show ?case using Cons.IH [of "om_inserts (snd r) m"] kvs_size_inserts [of "snd r" m]
      by (cases r) (simp add: runs_size_def)
  qed (simp add: runs_size_def)
  from this [of "[]"] show ?thesis by simp
qed

text \<open>
  The merged table without tombstones may replace any oldest part of the runs: what is left
  of them cannot resurrect a key.
\<close>

definition live_kvs :: "kv list \<Rightarrow> kv list" where
  "live_kvs es = filter (\<lambda>(k, v). v \<noteq> None) es"

lemma map_of_live_kvs:
  "sorted_keys es \<Longrightarrow> map_of (live_kvs es) k = (case map_of es k of Some (Some v) \<Rightarrow> Some (Some v) | _ \<Rightarrow> None)"
proof (rule option_eq_by_Some)
  fix v
  assume s: "sorted_keys es"
  have "map_of (live_kvs es) k = Some v \<longleftrightarrow> map_of es k = Some v \<and> v \<noteq> None"
    using s by (simp add: map_of_eq_Some live_kvs_def)
  then show "map_of (live_kvs es) k = Some v
      \<longleftrightarrow> (case map_of es k of Some (Some v) \<Rightarrow> Some (Some v) | _ \<Rightarrow> None) = Some v"
    by (cases "map_of es k") (auto split: option.split)
qed

lemma flat_compacted:
  assumes "sorted_keys es" "map_of es = A ++ B"
  shows "flat (B ++ map_of (live_kvs es) ++ M) = flat (A ++ B ++ M)"
proof
  fix k
  show "flat (B ++ map_of (live_kvs es) ++ M) k = flat (A ++ B ++ M) k"
    by (cases "M k"; cases "B k"; cases "A k")
      (auto simp: flat_def map_add_def map_of_live_kvs [OF assms(1)] assms(2) split: option.splits)
qed

end
