(* ===== verification/Engine_Open.thy ===== *)
theory Engine_Open
  imports Engine_Inv
begin

text \<open>
  Opening a directory: what \<open>Engine::open\<close> returns on every mode mismatch, and that a
  directory satisfying the on-disk invariant opens to a store with the same content, the
  torn tail of its log removed.
\<close>

lemma sst_load_fields:
  "sst_load X f n cr = Inr s \<Longrightarrow> s_id s = n \<and> s_crypto s = cr"
  by (auto simp: sst_load_def rbind_eq_Inr Let_def split: if_splits)

lemma replay_records: "fold replay_record (map op_record ops) m = fold mt_apply ops m"
proof (induction ops arbitrary: m)
  case (Cons e ops)
  obtain k v where "e = (k, v)" by (cases e)
  then show ?case using Cons
    by (cases v) (simp_all add: op_record_def replay_record_def mt_apply_def val_bytes_def)
qed simp

lemma table_rep_ids: "list_all2 (table_rep X dir) ss runs \<Longrightarrow> map s_id ss = map fst runs"
  by (induction rule: list_all2_induct) (auto simp: table_rep_def)

lemma scan_existing_ok:
  assumes "dir_rep X cr dir runs"
  obtains ss where "scan_existing X dir cr = Inr ss" "list_all2 (table_rep X dir) ss runs"
proof -
  define g where "g = (\<lambda>(n, contents). projr (sst_load X (Some contents) n cr))"
  define found where "found = map g dir"
  define ss where "ss = sort_by_id found"
  have D: "distinct (map fst dir)" "sorted_keys runs" "fst ` set dir = fst ` set runs"
    "\<And>n es. (n, es) \<in> set runs \<Longrightarrow> \<exists>contents. map_of dir n = Some contents \<and> table_ok X cr n contents es"
    using assms by (auto simp: dir_rep_def)
  have load: "sst_load X (Some c) n cr = Inr (g (n, c)) \<and> s_id (g (n, c)) = n" if "(n, c) \<in> set dir" for n c
  proof -
    have "n \<in> fst ` set runs" using that D(3) by force
    then obtain es where "(n, es) \<in> set runs" by force
    then obtain c' where "map_of dir n = Some c'" "table_ok X cr n c' es" using D(4) by blast
    moreover have "c' = c" using calculation(1) that D(1) by (simp add: map_of_eq_Some_iff)
    ultimately obtain s where "sst_load X (Some c) n cr = Inr s" by (auto simp: table_ok_def)
    then show ?thesis using sst_load_fields by (force simp: g_def)
  qed
  have "rmap (\<lambda>(n, contents). sst_load X (Some contents) n cr) dir = Inr found"
    unfolding found_def by (rule rmap_all_Inr) (use load in auto)
  then have scan: "scan_existing X dir cr = Inr ss" by (simp add: scan_existing_def ss_def)
  have ids: "map s_id found = map fst dir" unfolding found_def map_map
    by (rule map_cong) (use load in auto)
  have "set (map s_id ss) = fst ` set dir"
    using arg_cong [OF ids, of set] by (simp add: ss_def mset_insert_by_id)
  then have set_ids: "set (map s_id ss) = set (map fst runs)" using D(3) by simp
  have "length ss = length dir" by (simp add: ss_def found_def mset_insert_by_id)
  then have "distinct (map s_id ss)"
    using D(1) \<open>set (map s_id ss) = fst ` set dir\<close>
    by (intro card_distinct) (metis distinct_card length_map set_map)
  moreover have "sorted (map s_id ss)" by (simp add: ss_def sort_by_id_sorted)
  moreover have "sorted (map fst runs)" "distinct (map fst runs)"
    using D(2) by (auto simp: sorted_keys_def strict_sorted_iff)
  ultimately have eq: "map s_id ss = map fst runs" using set_ids by (intro sorted_distinct_set_unique) auto
  have "list_all2 (table_rep X dir) ss runs"
  proof (rule list_all2_all_nthI)
    show len: "length ss = length runs" using arg_cong [OF eq, of length] by simp
    fix i assume i: "i < length ss"
    obtain n es where r: "runs ! i = (n, es)" by (cases "runs ! i")
    have n: "s_id (ss ! i) = n" using arg_cong [OF eq, of "\<lambda>xs. xs ! i"] i len r by simp
    have "ss ! i \<in> set found" using i by (metis mset_insert_by_id(1) nth_mem ss_def)
    then obtain m c where mc: "(m, c) \<in> set dir" "ss ! i = g (m, c)" by (auto simp: found_def)
    then have m: "m = n" using load n by metis
    have "(n, es) \<in> set runs" using i len r by (metis nth_mem)
    then obtain c' where c': "map_of dir n = Some c'" "table_ok X cr n c' es" using D(4) by blast
    have "map_of dir n = Some c" using map_of_is_SomeI [OF D(1) mc(1)] m by simp
    then have "c' = c" using c'(1) by simp
    then obtain s blocks where "sst_load X (Some c) n cr = Inr s" "sst_rep X s c blocks" "concat blocks = es"
      using c'(2) by (auto simp: table_ok_def)
    moreover have "s = ss ! i" using load [OF mc(1)] mc(2) m calculation(1) by simp
    ultimately show "table_rep X dir (ss ! i) (runs ! i)"
      using c' \<open>c' = c\<close> n r by (auto simp: table_rep_def)
  qed
  then show ?thesis using that scan by blast
qed

text \<open>The key with which a directory opens.\<close>

definition opens_with :: "externals \<Rightarrow> bytes option \<Rightarrow> bytes option \<Rightarrow> crypto_context option \<Rightarrow> bool" where
  "opens_with X cm key cr \<longleftrightarrow>
     (case (cm, key, cr) of
        (None, None, None) \<Rightarrow> True
      | (Some meta, Some k, Some ctx) \<Rightarrow> load_meta X (Some meta) k = Inr ctx
      | _ \<Rightarrow> False)"

lemma opens_with_crypto:
  "opens_with X (d_crypto_meta d) key cr \<Longrightarrow> open_crypto X d key fresh = Inr (cr, [])"
  by (auto simp: opens_with_def open_crypto_def split: option.splits)

lemma check_store_meta_ok:
  "d_store_meta d = Some store_meta_bytes \<Longrightarrow> check_or_create_store_meta d = Inr []"
  by (simp add: check_or_create_store_meta_def store_meta_bytes_def decode_encode_store_meta)

lemma wal_create_id [simp]:
  "d_store_meta (apply_disk_op WalCreate d) = d_store_meta d"
  "d_ssts (apply_disk_op WalCreate d) = d_ssts d"
  "wal_contents (apply_disk_op WalCreate d) = wal_contents d"
  by (simp_all add: wal_contents_def)

lemma engine_open_ok:
  assumes rep: "disk_rep X cr d runs ops" and key: "opens_with X (d_crypto_meta d) key cr"
    and mode: "mode_ok X cr" and bs: "block_size opts \<noteq> 0"
  obtains st where "engine_open X opts key fresh d = Inr st" "store_inv X st runs"
    "memtable st = fold mt_apply ops mt_new" "options st = opts" "crypto st = cr"
    "d_crypto_meta (disk st) = d_crypto_meta d"
    "next_sst_id st = Max (insert 0 (Suc ` fst ` set runs))"
    "wal_contents d = [] \<Longrightarrow> trace st = [WalCreate]"
proof -
  obtain contents torn where w: "wal_contents d = contents @ torn" "wal_holds X cr contents ops" "wal_torn X cr torn"
    using rep by (auto simp: disk_rep_def)
  have dir: "dir_rep X cr (d_ssts d) runs" using rep by (simp add: disk_rep_def)
  obtain ss where ss: "scan_existing X (d_ssts d) cr = Inr ss" "list_all2 (table_rep X (d_ssts d)) ss runs"
    using scan_existing_ok [OF dir] by blast
  have replay: "wal_replay X cr (wal_contents d) = Inr (map op_record ops, contents)"
    using wal_replay_holds [OF w(2,3)] w(1) by simp
  define ops4 where "ops4 = (if length contents \<noteq> length (wal_contents d) then [WalSetLen (length contents)] else [])"
  define d3 where "d3 = apply_disk_op WalCreate d"
  define d4 where "d4 = fold apply_disk_op ops4 d3"
  have d4: "d_store_meta d4 = d_store_meta d" "d_ssts d4 = d_ssts d" "wal_contents d4 = contents"
    "d_crypto_meta d4 = d_crypto_meta d"
    using w(1) by (auto simp: d4_def d3_def ops4_def wal_contents_def wal_truncate_to_def split: option.splits)
  define st where "st = \<lparr>memtable = fold mt_apply ops mt_new, ssts = ss,
      next_sst_id = Max (insert 0 ((\<lambda>s. s_id s + 1) ` set ss)), options = opts, crypto = cr,
      counters = \<lparr>wal_records = 0, flush_count = 0, compaction_count = 0,
             compaction_input_bytes = 0, compaction_output_bytes = 0,
             bytes_read = sum_list (map s_bytes_read_at_open ss) + length (wal_contents d),
             bytes_written = 0\<rparr>,
      point_lookup_full_sst_read = 0, block_cache = bc_new (block_cache_capacity_bytes opts),
      disk = d4, trace = [WalCreate] @ ops4\<rparr>"
  have "engine_open X opts key fresh d = Inr st"
    using check_store_meta_ok [of d] rep opens_with_crypto [OF key, of fresh] ss(1) replay
    by (simp add: engine_open_stages Let_def disk_rep_def replay_records st_def d4_def d3_def ops4_def
        del: apply_disk_op.simps)
  moreover have ids: "s_id ` set ss = fst ` set runs"
    using arg_cong [OF table_rep_ids [OF ss(2)], of set] by simp
  have next_id: "next_sst_id st = Max (insert 0 (Suc ` fst ` set runs))"
    by (simp add: st_def flip: ids) (simp add: image_image)
  moreover have "\<forall>(n, es) \<in> set runs. n < next_sst_id st"
  proof clarify
    fix n es assume "(n, es) \<in> set runs"
    then have "Suc n \<le> Max (insert 0 (Suc ` fst ` set runs))" by (intro Max_ge) force+
    then show "n < next_sst_id st" by (simp add: next_id)
  qed
  moreover have "store_inv X st runs"
    using calculation(3) mode bs rep dir ss(2) w(2) d4
    by (auto simp: store_inv_def st_def cache_rep_def disk_rep_def)
  moreover have "trace st = [WalCreate]" if "wal_contents d = []"
    using that w(1) by (simp add: st_def ops4_def)
  ultimately show ?thesis using that d4 by (simp add: st_def)
qed

lemma store_inv_disk_rep:
  assumes "store_inv X st runs"
  obtains ops where "disk_rep X (crypto st) (disk st) runs ops" "memtable st = fold mt_apply ops mt_new"
proof -
  obtain ops where "wal_holds X (crypto st) (wal_contents (disk st)) ops" "memtable st = fold mt_apply ops mt_new"
    using assms by (auto simp: store_inv_def)
  moreover have "wal_torn X (crypto st) []" by (simp add: wal_torn_def)
  ultimately have "disk_rep X (crypto st) (disk st) runs ops"
    using assms unfolding disk_rep_def store_inv_def by (metis append_Nil2)
  then show ?thesis using that \<open>memtable st = _\<close> by blast
qed

text \<open>Whatever is recoverable opens to its content.\<close>

lemma recoverable_opens:
  assumes "recoverable X cr cm d m" "opens_with X cm key cr" "mode_ok X cr" "block_size opts \<noteq> 0"
  shows "\<exists>st runs. engine_open X opts key fresh d = Inr st \<and> store_inv X st runs
    \<and> store_map runs (memtable st) = m"
proof -
  obtain runs ops where r: "disk_rep X cr d runs ops" "disk_map runs ops = m" "d_crypto_meta d = cm"
    using assms(1) by (auto simp: recoverable_def)
  obtain st where "engine_open X opts key fresh d = Inr st" "store_inv X st runs"
    "memtable st = fold mt_apply ops mt_new"
    using engine_open_ok [OF r(1) _ assms(3,4), of key fresh] assms(2) r(3) by metis
  then show ?thesis using r(2) by (auto simp: disk_map_store)
qed

end
