(* ===== verification/Engine_Write.thy ===== *)
theory Engine_Write
  imports Engine_Open
begin

text \<open>
  The operations that change a store: flush and compaction keep its content, put, delete and
  batch change it exactly as the finite map changes, and at every point of the sequence of
  file operations a crash leaves a directory that reopens to the content before or after.
\<close>

subsection \<open>The tables of a store\<close>

definition tables_inv ::
  "externals \<Rightarrow> crypto_context option \<Rightarrow> (nat \<times> bytes) list \<Rightarrow> sst_file list \<Rightarrow> run list \<Rightarrow> nat
     \<Rightarrow> block_cache \<Rightarrow> bool" where
  "tables_inv X cr dir ss runs nxt cache \<longleftrightarrow> dir_rep X cr dir runs
     \<and> list_all2 (table_rep X dir) ss runs \<and> (\<forall>(n, es) \<in> set runs. n < nxt)
     \<and> cache_rep X dir ss cache"

definition wal_ok :: "externals \<Rightarrow> crypto_context option \<Rightarrow> disk \<Rightarrow> kv list \<Rightarrow> bool" where
  "wal_ok X cr d ops \<longleftrightarrow> (\<exists>contents torn. wal_contents d = contents @ torn
     \<and> wal_holds X cr contents ops \<and> wal_torn X cr torn)"

lemma disk_rep_iff:
  "disk_rep X cr d runs ops \<longleftrightarrow> d_store_meta d = Some store_meta_bytes
     \<and> dir_rep X cr (d_ssts d) runs \<and> wal_ok X cr d ops"
  by (simp add: disk_rep_def wal_ok_def)

lemma store_inv_iff:
  "store_inv X st runs \<longleftrightarrow> mode_ok X (crypto st) \<and> block_size (options st) \<noteq> 0
     \<and> d_store_meta (disk st) = Some store_meta_bytes
     \<and> tables_inv X (crypto st) (d_ssts (disk st)) (ssts st) runs (next_sst_id st) (block_cache st)
     \<and> (\<exists>ops. wal_holds X (crypto st) (wal_contents (disk st)) ops
          \<and> memtable st = fold mt_apply ops mt_new)"
  unfolding store_inv_def tables_inv_def by blast

lemma store_inv_mt_ok: "store_inv X st runs \<Longrightarrow> mt_ok (memtable st)"
  by (auto simp: store_inv_def mt_ok_fold)

lemma table_rep_cong: "map_of dir' (fst r) = map_of dir (fst r) \<Longrightarrow> table_rep X dir' s r = table_rep X dir s r"
  by (simp add: table_rep_def)

lemma dir_put_new: "n \<notin> fst ` set dir \<Longrightarrow> dir_put n c dir = dir @ [(n, c)]"
  by (force simp: dir_put_def filter_id_conv)

lemma map_of_filter_ne: "map_of (filter (\<lambda>(m, c). m \<noteq> n) dir) k = (if k = n then None else map_of dir k)"
  using map_of_filter_key [of "\<lambda>m. m \<noteq> n" dir k] by simp

lemma run_sorted: "table_ok X cr n c es \<Longrightarrow> sorted_keys es"
  by (auto simp: table_ok_def sst_rep_def)

lemma tables_inv_sorted:
  "tables_inv X cr dir ss runs nxt cache \<Longrightarrow> \<forall>(n, es) \<in> set runs. sorted_keys es"
  by (fastforce simp: tables_inv_def dir_rep_def dest: run_sorted)

lemma table_entries:
  "table_rep X dir s r \<Longrightarrow> sst_entries X s (map_of dir (s_id s)) = Inr (snd r)"
  by (auto simp: table_rep_def sst_entries_ok)

lemma rmap_list_all2:
  "list_all2 (\<lambda>s r. f s = Inr (g r)) ss rs \<Longrightarrow> rmap f ss = Inr (map g rs)"
  by (induction rule: list_all2_induct) auto

definition cached_ok :: "externals \<Rightarrow> (nat \<times> bytes) list \<Rightarrow> sst_file list \<Rightarrow> nat \<Rightarrow> nat \<Rightarrow> cached_block \<Rightarrow> bool" where
  "cached_ok X dir ss i n b \<longleftrightarrow> (\<exists>s contents. s \<in> set ss \<and> s_id s = i \<and> map_of dir i = Some contents
     \<and> n < length (s_block_index s)
     \<and> read_and_verify_block X s contents n (s_block_index s ! n) = Inr b)"

lemma cache_rep_iff:
  "cache_rep X dir ss c \<longleftrightarrow> bc_ok c \<and> (\<forall>i n b. ((i, n), b) \<in> bc_blocks c \<longrightarrow> cached_ok X dir ss i n b)"
  unfolding cache_rep_def cached_ok_def by (auto; fastforce)

lemma cached_ok_mono:
  "cached_ok X dir ss i n b \<Longrightarrow> \<forall>s \<in> set ss. s_id s = i \<longrightarrow> s \<in> set ss' \<Longrightarrow>
     map_of dir' i = map_of dir i \<Longrightarrow> cached_ok X dir' ss' i n b"
  unfolding cached_ok_def by metis

text \<open>Publishing a new table.\<close>

lemma publish_tables:
  assumes inv: "tables_inv X cr dir ss runs nxt cache"
    and w: "write_new X nxt es bs cr ns = Inr (s, contents)"
    and es: "sorted_keys es" "kvs_size es < 2 ^ 29"
    and ok: "mode_ok X cr" "nonces_ok cr ns" "nxt < 2 ^ 64" "bs \<noteq> 0"
  shows "tables_inv X cr (dir_put nxt contents dir) (ss @ [s]) (runs @ [(nxt, es)]) (Suc nxt) cache"
proof -
  obtain s' c' blocks r where w': "write_new X nxt es bs cr ns = Inr (s', c')" "concat blocks = es"
      "sst_rep X s' c' blocks" "s_id s' = nxt"
      "sst_load X (Some c') nxt cr = Inr (s'\<lparr>s_bytes_read_at_open := r\<rparr>)"
    using write_new_ok [OF es ok(1,2), of nxt bs] ok(3,4) by metis
  have sc: "s' = s" "c' = contents" using w w'(1) by auto
  have D: "distinct (map fst dir)" "sorted_keys runs" "fst ` set dir = fst ` set runs"
    "\<forall>(n, es) \<in> set runs. \<exists>c. map_of dir n = Some c \<and> table_ok X cr n c es"
    "\<forall>(n, es) \<in> set runs. n < nxt"
    using inv unfolding tables_inv_def dir_rep_def by blast+
  have fresh: "nxt \<notin> fst ` set dir" using D(3,5) by force
  note put = dir_put_new [OF fresh, of contents]
  have m: "map_of (dir_put nxt contents dir) n = (if n = nxt then Some contents else map_of dir n)" for n
    using fresh by (auto simp: put map_add_def dom_map_of_conv_image_fst [symmetric] split: option.split)
  have "table_ok X cr nxt contents es"
    unfolding table_ok_def using w'(2,3,5) sc sst_rep_cong [of "s\<lparr>s_bytes_read_at_open := r\<rparr>" s] by auto
  then have "dir_rep X cr (dir_put nxt contents dir) (runs @ [(nxt, es)])"
    using D fresh m unfolding dir_rep_def
    by (auto simp: put sorted_keys_append)
  moreover have "list_all2 (table_rep X (dir_put nxt contents dir)) (ss @ [s]) (runs @ [(nxt, es)])"
  proof (rule list_all2_appendI)
    have old: "list_all2 (table_rep X dir) ss runs" using inv by (simp add: tables_inv_def)
    show "list_all2 (table_rep X (dir_put nxt contents dir)) ss runs"
      using old D(5) m by (auto simp: list_all2_conv_all_nth table_rep_def) (metis nth_mem case_prodD prod.collapse less_irrefl)
    show "list_all2 (table_rep X (dir_put nxt contents dir)) [s] [(nxt, es)]"
      using w' sc m by (auto simp: table_rep_def)
  qed
  moreover have "cache_rep X (dir_put nxt contents dir) (ss @ [s]) cache"
  proof -
    have c: "cache_rep X dir ss cache" and ids: "map s_id ss = map fst runs"
      using inv table_rep_ids by (auto simp: tables_inv_def)
    have ne: "s_id s' \<noteq> nxt" if "s' \<in> set ss" for s'
    proof -
      have "s_id s' \<in> fst ` set runs" using that arg_cong [OF ids, of set] by auto
      then show ?thesis using D(5) by force
    qed
    have "cached_ok X (dir_put nxt contents dir) (ss @ [s]) i n b" if "cached_ok X dir ss i n b" for i n b
    proof (rule cached_ok_mono [OF that])
      have "i \<noteq> nxt" using that ne by (auto simp: cached_ok_def)
      then show "map_of (dir_put nxt contents dir) i = map_of dir i" by (simp add: m)
    qed simp
    then show ?thesis using c by (simp add: cache_rep_iff)
  qed
  ultimately show ?thesis using D(5) by (auto simp: tables_inv_def)
qed

text \<open>Removing the oldest one.\<close>

lemma remove_oldest:
  assumes inv: "tables_inv X cr dir (s # ss) (r # runs) nxt cache"
  shows "tables_inv X cr (filter (\<lambda>(m, c). m \<noteq> s_id s) dir) ss runs nxt (invalidate_sst cache (s_id s))"
proof -
  let ?dir = "filter (\<lambda>(m, c). m \<noteq> s_id s) dir"
  have id: "s_id s = fst r" using inv by (simp add: tables_inv_def table_rep_def)
  have D: "distinct (map fst dir)" "sorted_keys (r # runs)" "fst ` set dir = fst ` set (r # runs)"
    "\<forall>(n, es) \<in> set (r # runs). \<exists>c. map_of dir n = Some c \<and> table_ok X cr n c es"
    using inv unfolding tables_inv_def dir_rep_def by blast+
  have gt: "fst r < n" if "(n, es) \<in> set runs" for n es
    using D(2) that by (cases r) auto
  have m: "map_of ?dir n = map_of dir n" if "n \<noteq> fst r" for n
    using that by (simp add: map_of_filter_ne id)
  have "fst ` set ?dir = fst ` set dir - {fst r}" by (force simp: id)
  also have "\<dots> = fst ` set runs" using D(3) gt by force
  finally have "dir_rep X cr ?dir runs"
    using D m gt unfolding dir_rep_def by (cases r) (fastforce simp: distinct_map_filter)
  moreover have "list_all2 (table_rep X ?dir) ss runs"
  proof -
    have "list_all2 (table_rep X dir) ss runs" using inv by (simp add: tables_inv_def)
    then show ?thesis using m gt
      by (auto simp: list_all2_conv_all_nth table_rep_def) (metis nth_mem prod.collapse less_irrefl)
  qed
  moreover have "cache_rep X ?dir ss (invalidate_sst cache (s_id s))"
  proof -
    have c: "cache_rep X dir (s # ss) cache" using inv by (simp add: tables_inv_def)
    have "cached_ok X ?dir ss i n b" if "cached_ok X dir (s # ss) i n b" "i \<noteq> s_id s" for i n b
      using that(2) m id by (intro cached_ok_mono [OF that(1)]) auto
    then show ?thesis using c by (auto simp: cache_rep_iff invalidate_sst_ok bc_blocks_invalidate)
  qed
  ultimately show ?thesis using inv by (auto simp: tables_inv_def)
qed

subsection \<open>What an operation achieves\<close>

text \<open>
  \<open>steps_to X st m st' runs' m'\<close>: from content \<open>m\<close> the store reaches a store with runs
  \<open>runs'\<close> and content \<open>m'\<close>, and each state a crash on the way can leave reopens to \<open>m\<close>
  or to \<open>m'\<close>.
\<close>

definition recovers_to :: "externals \<Rightarrow> store \<Rightarrow> (bytes \<rightharpoonup> bytes) set \<Rightarrow> disk \<Rightarrow> bool" where
  "recovers_to X st ms d \<longleftrightarrow> (\<exists>m \<in> ms. recoverable X (crypto st) (d_crypto_meta (disk st)) d m)"

definition steps_to ::
  "externals \<Rightarrow> store \<Rightarrow> (bytes \<rightharpoonup> bytes) \<Rightarrow> store \<Rightarrow> run list \<Rightarrow> (bytes \<rightharpoonup> bytes) \<Rightarrow> bool" where
  "steps_to X st m st' runs' m' \<longleftrightarrow> store_inv X st' runs' \<and> store_map runs' (memtable st') = m'
     \<and> crypto st' = crypto st \<and> options st' = options st
     \<and> d_crypto_meta (disk st') = d_crypto_meta (disk st)
     \<and> (\<exists>fs. trace st' = trace st @ fs \<and> disk st' = fold apply_disk_op fs (disk st)
          \<and> (\<forall>d \<in> crash_states (disk st) fs. recovers_to X st {m, m'} d))"

lemma recoverableI:
  "d_crypto_meta d = cm \<Longrightarrow> disk_rep X cr d runs ops \<Longrightarrow> disk_map runs ops = m \<Longrightarrow> recoverable X cr cm d m"
  by (auto simp: recoverable_def)

lemma store_inv_recoverable:
  assumes "store_inv X st runs"
  shows "recoverable X (crypto st) (d_crypto_meta (disk st)) (disk st) (store_map runs (memtable st))"
proof -
  obtain ops where "disk_rep X (crypto st) (disk st) runs ops" "memtable st = fold mt_apply ops mt_new"
    using store_inv_disk_rep [OF assms] by blast
  then show ?thesis by (auto simp: recoverable_def disk_map_store)
qed

lemma steps_to_refl:
  "store_inv X st runs \<Longrightarrow> store_map runs (memtable st) = m \<Longrightarrow> steps_to X st m st runs m"
  using store_inv_recoverable [of X st runs]
  by (auto simp: steps_to_def recovers_to_def intro!: exI [of _ "[]"])

lemma steps_to_trans:
  assumes "steps_to X st m st1 runs1 m1" "steps_to X st1 m1 st2 runs2 m2" "m1 = m \<or> m2 = m1"
  shows "steps_to X st m st2 runs2 m2"
proof -
  obtain fs where fs: "trace st1 = trace st @ fs" "disk st1 = fold apply_disk_op fs (disk st)"
    "\<forall>d \<in> crash_states (disk st) fs. recovers_to X st {m, m1} d"
    using assms(1) by (auto simp: steps_to_def)
  obtain gs where gs: "trace st2 = trace st1 @ gs" "disk st2 = fold apply_disk_op gs (disk st1)"
    "\<forall>d \<in> crash_states (disk st1) gs. recovers_to X st1 {m1, m2} d"
    using assms(2) by (auto simp: steps_to_def)
  have same: "crypto st1 = crypto st" "d_crypto_meta (disk st1) = d_crypto_meta (disk st)"
    using assms(1) by (simp_all add: steps_to_def)
  have "\<forall>d \<in> crash_states (disk st) (fs @ gs). recovers_to X st {m, m2} d"
    using fs gs(3) same assms(3) unfolding crash_states_append fs(2) [symmetric] recovers_to_def by auto
  then show ?thesis using assms(1,2) fs gs
    by (auto simp: steps_to_def intro!: exI [of _ "fs @ gs"])
qed

subsection \<open>Compaction\<close>

lemma fold_remove_table:
  "fold remove_table old st = st\<lparr>disk := fold apply_disk_op (map (\<lambda>s. SstRemove (s_id s)) old) (disk st),
     trace := trace st @ map (\<lambda>s. SstRemove (s_id s)) old,
     block_cache := fold (\<lambda>s c. invalidate_sst c (s_id s)) old (block_cache st)\<rparr>"
  by (induction old arbitrary: st) (simp_all add: remove_table_def emit_def Let_def del: apply_disk_op.simps)

lemma wal_ok_other:
  "wal_contents d' = wal_contents d \<Longrightarrow> wal_ok X cr d' ops \<longleftrightarrow> wal_ok X cr d ops"
  by (simp add: wal_ok_def)

lemma disk_op_other [simp]:
  "d_store_meta (apply_disk_op (SstRemove n) d) = d_store_meta d"
  "d_crypto_meta (apply_disk_op (SstRemove n) d) = d_crypto_meta d"
  "wal_contents (apply_disk_op (SstRemove n) d) = wal_contents d"
  "d_ssts (apply_disk_op (SstRemove n) d) = filter (\<lambda>(m, c). m \<noteq> n) (d_ssts d)"
  "d_store_meta (apply_disk_op (SstPublish n c) d) = d_store_meta d"
  "d_crypto_meta (apply_disk_op (SstPublish n c) d) = d_crypto_meta d"
  "wal_contents (apply_disk_op (SstPublish n c) d) = wal_contents d"
  "d_ssts (apply_disk_op (SstPublish n c) d) = dir_put n c (d_ssts d)"
  "d_store_meta (apply_disk_op (WalAppend b) d) = d_store_meta d"
  "d_crypto_meta (apply_disk_op (WalAppend b) d) = d_crypto_meta d"
  "wal_contents (apply_disk_op (WalAppend b) d) = wal_contents d @ b"
  "d_ssts (apply_disk_op (WalAppend b) d) = d_ssts d"
  "d_store_meta (apply_disk_op (WalSetLen k) d) = d_store_meta d"
  "d_crypto_meta (apply_disk_op (WalSetLen k) d) = d_crypto_meta d"
  "wal_contents (apply_disk_op (WalSetLen k) d) = take k (wal_contents d)"
  "d_ssts (apply_disk_op (WalSetLen k) d) = d_ssts d"
  by (simp_all add: wal_contents_def wal_truncate_to_def)

declare apply_disk_op.simps [simp del] merge_tables.simps [simp del]

text \<open>
  While the old tables are removed, oldest first, every directory on the way still has the
  store's content: \<open>gone\<close> are the runs already removed.
\<close>

lemma remove_tables_crash:
  assumes "tables_inv X cr (d_ssts d) (old @ [new]) (runs @ [(n, live_kvs es)]) nxt cache"
    and "d_store_meta d = Some store_meta_bytes" "wal_ok X cr d ops"
    and "sorted_keys es" "map_of es = gone ++ layers runs"
  shows "(\<forall>d' \<in> crash_states d (map (\<lambda>s. SstRemove (s_id s)) old).
      recoverable X cr (d_crypto_meta d) d' (flat (gone ++ layers runs ++ map_of (rev ops))))
    \<and> (let d' = fold apply_disk_op (map (\<lambda>s. SstRemove (s_id s)) old) d
       in tables_inv X cr (d_ssts d') [new] [(n, live_kvs es)] nxt
            (fold (\<lambda>s c. invalidate_sst c (s_id s)) old cache)
          \<and> d_store_meta d' = Some store_meta_bytes \<and> d_crypto_meta d' = d_crypto_meta d
          \<and> wal_contents d' = wal_contents d)"
  using assms
proof (induction old arbitrary: d runs gone cache)
  case Nil
  have "length [new] = length (runs @ [(n, live_kvs es)])"
    using Nil.prems(1) by (auto simp: tables_inv_def dest: list_all2_lengthD)
  then have r: "runs = []" by simp
  have "disk_rep X cr d [(n, live_kvs es)] ops"
    using Nil.prems r by (simp add: disk_rep_iff tables_inv_def)
  moreover have "disk_map [(n, live_kvs es)] ops = flat (gone ++ layers runs ++ map_of (rev ops))"
    using flat_compacted [OF Nil.prems(4), of gone Map.empty "map_of (rev ops)"] Nil.prems(5)
    by (simp add: disk_map_def r)
  ultimately show ?case using Nil.prems r by (auto simp: recoverable_def)
next
  case (Cons s old)
  have "length (s # old @ [new]) = length (runs @ [(n, live_kvs es)])"
    using Cons.prems(1) by (auto simp: tables_inv_def dest: list_all2_lengthD)
  then obtain r runs' where runs: "runs = r # runs'" by (cases runs) auto
  let ?d = "apply_disk_op (SstRemove (s_id s)) d"
  have inv': "tables_inv X cr (d_ssts ?d) (old @ [new]) (runs' @ [(n, live_kvs es)]) nxt
      (invalidate_sst cache (s_id s))"
    using remove_oldest [of X cr "d_ssts d" s "old @ [new]" r "runs' @ [(n, live_kvs es)]" nxt cache]
      Cons.prems(1) by (simp add: runs)
  have lay: "layers runs = map_of (snd r) ++ layers runs'" by (cases r) (simp add: runs)
  have wal: "wal_ok X cr ?d ops" 
    using Cons.prems(3) wal_ok_other [of ?d d X cr ops] disk_op_other(3) by blast
  note IH = Cons.IH [OF inv' _ wal Cons.prems(4), of "gone ++ map_of (snd r)"]
  have "disk_rep X cr d (runs @ [(n, live_kvs es)]) ops"
    using Cons.prems by (simp add: disk_rep_iff tables_inv_def)
  moreover have "disk_map (runs @ [(n, live_kvs es)]) ops = flat (gone ++ layers runs ++ map_of (rev ops))"
    using flat_compacted [OF Cons.prems(4), of gone "layers runs" "map_of (rev ops)"] Cons.prems(5)
    by (simp add: disk_map_def)
  ultimately have now: "recoverable X cr (d_crypto_meta d) d (flat (gone ++ layers runs ++ map_of (rev ops)))"
    by (rule recoverableI [OF refl])
  show ?case using IH now Cons.prems(2,5)
    by (simp add: lay map_add_assoc)
qed


lemma note_fields [simp]:
  "disk (note_compaction i j st) = disk st" "memtable (note_compaction i j st) = memtable st"
  "ssts (note_compaction i j st) = ssts st" "next_sst_id (note_compaction i j st) = next_sst_id st"
  "options (note_compaction i j st) = options st" "crypto (note_compaction i j st) = crypto st"
  "block_cache (note_compaction i j st) = block_cache st" "trace (note_compaction i j st) = trace st"
  "disk (note_flush i st) = disk st" "memtable (note_flush i st) = memtable st"
  "ssts (note_flush i st) = ssts st" "next_sst_id (note_flush i st) = next_sst_id st"
  "options (note_flush i st) = options st" "crypto (note_flush i st) = crypto st"
  "block_cache (note_flush i st) = block_cache st" "trace (note_flush i st) = trace st"
  "disk (note_wal_record i st) = disk st" "memtable (note_wal_record i st) = memtable st"
  "ssts (note_wal_record i st) = ssts st" "next_sst_id (note_wal_record i st) = next_sst_id st"
  "options (note_wal_record i st) = options st" "crypto (note_wal_record i st) = crypto st"
  "block_cache (note_wal_record i st) = block_cache st" "trace (note_wal_record i st) = trace st"
  by (simp_all add: note_compaction_def note_flush_def note_wal_record_def)

lemma store_inv_tables:
  "store_inv X st runs \<Longrightarrow>
     rmap (\<lambda>s. sst_entries X s (sst_disk_file st s)) (ssts st) = Inr (map snd runs)"
  unfolding store_inv_def sst_disk_file_def
  by (auto intro!: rmap_list_all2 elim!: list_all2_mono dest: table_entries)

lemma store_inv_sorted: "store_inv X st runs \<Longrightarrow> \<forall>(n, es) \<in> set runs. sorted_keys es"
  by (erule tables_inv_sorted [OF conjunct1 [OF conjunct2 [OF conjunct2 [OF conjunct2
        [OF store_inv_iff [THEN iffD1]]]]]])

definition compacted :: "run list \<Rightarrow> kv list" where
  "compacted runs = live_kvs (merge_tables (map snd runs))"

lemma kvs_size_compacted: "kvs_size (compacted runs) \<le> runs_size runs"
  using kvs_size_merge [of runs] kvs_size_filter [of "\<lambda>(k, v). v \<noteq> None" "merge_tables (map snd runs)"]
  by (simp add: compacted_def live_kvs_def)

lemma wal_holds_ok: "wal_contents d = contents \<Longrightarrow> wal_holds X cr contents ops \<Longrightarrow> wal_ok X cr d ops"
  unfolding wal_ok_def by (intro exI [of _ contents] exI [of _ "[]"]) (simp add: wal_torn_def)

lemma compact_steps:
  assumes inv: "store_inv X st runs" and size: "runs_size runs < 2 ^ 29"
    and ok: "next_sst_id st < 2 ^ 64" "nonces_ok (crypto st) (rnd 2)"
  obtains st' where "engine_compact X rnd st = (Inr (), st')"
    "steps_to X st (store_map runs (memtable st)) st' [(next_sst_id st, compacted runs)]
       (store_map runs (memtable st))"
    "next_sst_id st' = Suc (next_sst_id st)" "memtable st' = memtable st"
proof -
  let ?n = "next_sst_id st" and ?es = "merge_tables (map snd runs)" and ?cr = "crypto st"
    and ?m = "store_map runs (memtable st)"
  have I: "mode_ok X ?cr" "block_size (options st) \<noteq> 0" "d_store_meta (disk st) = Some store_meta_bytes"
    "tables_inv X ?cr (d_ssts (disk st)) (ssts st) runs ?n (block_cache st)"
    using inv by (simp_all add: store_inv_iff)
  obtain ops where ops: "wal_holds X ?cr (wal_contents (disk st)) ops" "memtable st = fold mt_apply ops mt_new"
    using inv by (auto simp: store_inv_iff)
  note merged = merge_tables_runs [OF store_inv_sorted [OF inv]]
  have es: "sorted_keys (compacted runs)" "kvs_size (compacted runs) < 2 ^ 29"
    using merged(1) kvs_size_compacted [of runs] size by (simp_all add: compacted_def live_kvs_def)
  obtain s contents where w: "write_new X ?n (compacted runs) (block_size (options st)) ?cr (rnd 2) = Inr (s, contents)"
    using write_new_ok [OF es I(1) ok(2)] by metis
  let ?d1 = "apply_disk_op (SstPublish ?n contents) (disk st)"
  let ?rm = "map (\<lambda>s. SstRemove (s_id s)) (ssts st)"
  have pub: "tables_inv X ?cr (d_ssts ?d1) (ssts st @ [s]) (runs @ [(?n, live_kvs ?es)]) (Suc ?n) (block_cache st)"
    using publish_tables [OF I(4) w es I(1) ok(2,1) I(2)] by (simp add: compacted_def)
  have wal: "wal_ok X ?cr ?d1 ops" using ops(1) by (intro wal_holds_ok) simp
  have m: "flat (layers runs ++ map_of (rev ops)) = ?m"
    using disk_map_store [of runs ops] by (simp add: disk_map_def ops(2))
  have R: "\<forall>d' \<in> crash_states ?d1 ?rm. recoverable X ?cr (d_crypto_meta (disk st)) d' ?m"
    and F: "tables_inv X ?cr (d_ssts (fold apply_disk_op ?rm ?d1)) [s] [(?n, live_kvs ?es)] (Suc ?n)
        (fold (\<lambda>s c. invalidate_sst c (s_id s)) (ssts st) (block_cache st))"
      "d_store_meta (fold apply_disk_op ?rm ?d1) = Some store_meta_bytes"
      "d_crypto_meta (fold apply_disk_op ?rm ?d1) = d_crypto_meta (disk st)"
      "wal_contents (fold apply_disk_op ?rm ?d1) = wal_contents (disk st)"
    using remove_tables_crash [OF pub _ wal merged(1), of Map.empty] merged(2) I(3) m
    by (simp_all add: Let_def)
  define st3 where "st3 = note_compaction (sum_list (map s_file_bytes (ssts st))) (s_file_bytes s)
      (emit (SstPublish ?n contents) st\<lparr>next_sst_id := Suc ?n\<rparr>)\<lparr>ssts := [s]\<rparr>"
  define st' where "st' = fold remove_table (ssts st) st3"
  have run: "engine_compact X rnd st = (Inr (), st')"
    using w by (simp add: engine_compact_def store_inv_tables [OF inv] st'_def st3_def emit_def
        compacted_def live_kvs_def Let_def)
  have st': "memtable st' = memtable st" "ssts st' = [s]" "next_sst_id st' = Suc ?n" "options st' = options st"
    "crypto st' = ?cr" "disk st' = fold apply_disk_op ?rm ?d1"
    "trace st' = trace st @ (SstPublish ?n contents # ?rm)"
    "block_cache st' = fold (\<lambda>s c. invalidate_sst c (s_id s)) (ssts st) (block_cache st)"
    by (simp_all add: st'_def st3_def fold_remove_table emit_def)
  have inv': "store_inv X st' [(?n, compacted runs)]"
    unfolding store_inv_iff using F I(1,2) ops
    by (simp add: st' compacted_def) blast
  have same: "store_map [(?n, compacted runs)] (memtable st') = ?m"
    using flat_compacted [OF merged(1), of "layers runs" Map.empty "mt_get (memtable st)"] merged(2)
    by (simp add: store_map_def st' compacted_def)
  have "\<forall>d \<in> crash_states (disk st) (SstPublish ?n contents # ?rm). recovers_to X st {?m, ?m} d"
    using R store_inv_recoverable [OF inv] by (simp add: recovers_to_def)
  then have "steps_to X st ?m st' [(?n, compacted runs)] ?m"
    unfolding steps_to_def using inv' same F(3) st'
    by (auto intro!: exI [of _ "SstPublish ?n contents # ?rm"])
  then show ?thesis using that run st' by blast
qed

subsection \<open>Flush\<close>

lemma mt_clear_new [simp]: "mt_clear m = mt_new"
  by (simp add: mt_clear_def mt_new_def)

lemma runs_size_snoc [simp]: "runs_size (runs @ [(n, es)]) = runs_size runs + kvs_size es"
  "runs_size [(n, es)] = kvs_size es"
  by (simp_all add: runs_size_def)

lemma map_add_twice: "A ++ B ++ B = A ++ B"
  by (auto simp: map_add_def fun_eq_iff split: option.split)

text \<open>The flush itself, before a compaction: the log is emptied only after the table is on disk.\<close>

lemma flush_table_steps:
  assumes inv: "store_inv X st runs" and size: "kvs_size (mt_entries (memtable st)) < 2 ^ 29"
    and ok: "next_sst_id st < 2 ^ 64" "nonces_ok (crypto st) (rnd 1)"
  obtains s contents st3 where
    "write_new X (next_sst_id st) (mt_iter (memtable st)) (block_size (options st)) (crypto st) (rnd 1)
       = Inr (s, contents)"
    "st3 = (emit (WalSetLen 0) (note_flush (s_file_bytes s) (emit (SstPublish (next_sst_id st) contents) st)))
       \<lparr>next_sst_id := Suc (next_sst_id st), ssts := ssts st @ [s], memtable := mt_new\<rparr>"
    "steps_to X st (store_map runs (memtable st)) st3 (runs @ [(next_sst_id st, mt_entries (memtable st))])
       (store_map runs (memtable st))"
proof -
  let ?n = "next_sst_id st" and ?es = "mt_entries (memtable st)" and ?cr = "crypto st"
    and ?m = "store_map runs (memtable st)"
  have I: "mode_ok X ?cr" "block_size (options st) \<noteq> 0" "d_store_meta (disk st) = Some store_meta_bytes"
    "tables_inv X ?cr (d_ssts (disk st)) (ssts st) runs ?n (block_cache st)"
    using inv by (simp_all add: store_inv_iff)
  obtain ops where ops: "wal_holds X ?cr (wal_contents (disk st)) ops" "memtable st = fold mt_apply ops mt_new"
    using inv by (auto simp: store_inv_iff)
  have es: "sorted_keys ?es" using store_inv_mt_ok [OF inv] by (simp add: mt_ok_def)
  obtain s contents where w: "write_new X ?n ?es (block_size (options st)) ?cr (rnd 1) = Inr (s, contents)"
    using write_new_ok [OF es size I(1) ok(2)] by metis
  let ?d1 = "apply_disk_op (SstPublish ?n contents) (disk st)"
  let ?d2 = "apply_disk_op (WalSetLen 0) ?d1"
  define st3 where "st3 = (emit (WalSetLen 0) (note_flush (s_file_bytes s) (emit (SstPublish ?n contents) st)))
       \<lparr>next_sst_id := Suc ?n, ssts := ssts st @ [s], memtable := mt_new\<rparr>"
  have st3: "memtable st3 = mt_new" "ssts st3 = ssts st @ [s]" "next_sst_id st3 = Suc ?n" "options st3 = options st"
    "crypto st3 = ?cr" "disk st3 = ?d2" "trace st3 = trace st @ [SstPublish ?n contents, WalSetLen 0]"
    "block_cache st3 = block_cache st"
    by (simp_all add: st3_def emit_def)
  have pub: "tables_inv X ?cr (dir_put ?n contents (d_ssts (disk st))) (ssts st @ [s]) (runs @ [(?n, ?es)])
      (Suc ?n) (block_cache st)"
    using publish_tables [OF I(4) w es size I(1) ok(2,1) I(2)] .
  have mt: "mt_get (memtable st) = map_of ?es" by (simp add: mt_get_def fun_eq_iff)
  then have rev_ops: "map_of (rev ops) = map_of ?es" by (simp add: ops(2) mt_get_fold)
  have m: "flat (layers runs ++ map_of ?es) = ?m" by (simp add: store_map_def mt)
  have inv3: "store_inv X st3 (runs @ [(?n, ?es)])"
    unfolding store_inv_iff using pub I(1-3) by (auto simp: st3 intro!: exI [of _ "[]"])
  have same: "store_map (runs @ [(?n, ?es)]) (memtable st3) = ?m"
    by (simp add: store_map_def st3 mt)
  have "disk_rep X ?cr ?d1 (runs @ [(?n, ?es)]) ops"
    using pub I(3) ops(1) by (auto simp: disk_rep_iff tables_inv_def intro: wal_holds_ok)
  moreover have "disk_map (runs @ [(?n, ?es)]) ops = ?m"
    using m by (simp add: disk_map_def rev_ops map_add_twice)
  ultimately have "recoverable X ?cr (d_crypto_meta (disk st)) ?d1 ?m"
    by (intro recoverableI) simp_all
  moreover have "recoverable X ?cr (d_crypto_meta (disk st)) ?d2 ?m"
    using store_inv_recoverable [OF inv3] unfolding same by (simp add: st3)
  ultimately have "\<forall>d \<in> crash_states (disk st) [SstPublish ?n contents, WalSetLen 0]. recovers_to X st {?m, ?m} d"
    using store_inv_recoverable [OF inv] by (simp add: recovers_to_def)
  then have "steps_to X st ?m st3 (runs @ [(?n, ?es)]) ?m"
    unfolding steps_to_def using inv3 same st3
    by (auto intro!: exI [of _ "[SstPublish ?n contents, WalSetLen 0]"])
  then show ?thesis using that [OF _ st3_def] w by (simp add: mt_iter_def)
qed

text \<open>
  The bound on what a store may hold before the next operation: the sizes stay below the
  32-bit lengths of the formats, and the table numbers below 64 bits.
\<close>

definition roomy :: "store \<Rightarrow> run list \<Rightarrow> nat \<Rightarrow> bool" where
  "roomy st runs extra \<longleftrightarrow> store_size st runs + extra < STORE_LIMIT \<and> next_sst_id st + 2 \<le> 2 ^ 64"

definition draws_ok :: "crypto_context option \<Rightarrow> (nat \<Rightarrow> nat \<Rightarrow> bytes) \<Rightarrow> bool" where
  "draws_ok cr rnd \<longleftrightarrow> (\<forall>i. nonces_ok cr (rnd i))"

lemma flush_steps:
  assumes inv: "store_inv X st runs" and room: "roomy st runs 0" and rnd: "draws_ok (crypto st) rnd"
  obtains st' runs' where "engine_flush X rnd st = (Inr (), st')"
    "steps_to X st (store_map runs (memtable st)) st' runs' (store_map runs (memtable st))"
    "store_size st' runs' \<le> store_size st runs" "next_sst_id st' \<le> next_sst_id st + 2"
    "mt_entries (memtable st') = []"
proof (cases "mt_is_empty (memtable st)")
  case True
  then show ?thesis
    using that [of st runs] steps_to_refl [OF inv refl] by (simp add: engine_flush_def mt_is_empty_def)
next
  case False
  let ?n = "next_sst_id st" and ?es = "mt_entries (memtable st)" and ?m = "store_map runs (memtable st)"
  have sz: "kvs_size ?es < 2 ^ 29" "?n < 2 ^ 64" "nonces_ok (crypto st) (rnd 1)"
    using room rnd by (simp_all add: roomy_def store_size_def STORE_LIMIT_def draws_ok_def)
  obtain s contents st3 where f: "write_new X ?n (mt_iter (memtable st)) (block_size (options st)) (crypto st) (rnd 1)
        = Inr (s, contents)"
      "st3 = (emit (WalSetLen 0) (note_flush (s_file_bytes s) (emit (SstPublish ?n contents) st)))
         \<lparr>next_sst_id := Suc ?n, ssts := ssts st @ [s], memtable := mt_new\<rparr>"
      "steps_to X st ?m st3 (runs @ [(?n, ?es)]) ?m"
    using flush_table_steps [of X st runs rnd, OF inv sz] by blast
  have st3: "memtable st3 = mt_new" "next_sst_id st3 = Suc ?n" "crypto st3 = crypto st"
    by (simp_all add: f(2) emit_def)
  have "engine_flush X rnd st = (if length (ssts st3) > compaction_sst_threshold (options st3)
      then engine_compact X rnd st3 else (Inr (), st3))"
    using False f(1) by (simp add: engine_flush_def f(2) emit_def Let_def)
  moreover have "store_size st3 (runs @ [(?n, ?es)]) = store_size st runs"
    by (simp add: store_size_def st3 mt_new_def)
  moreover obtain st4 where "engine_compact X rnd st3 = (Inr (), st4)"
      "steps_to X st3 (store_map (runs @ [(?n, ?es)]) (memtable st3)) st4
         [(Suc ?n, compacted (runs @ [(?n, ?es)]))] (store_map (runs @ [(?n, ?es)]) (memtable st3))"
      "next_sst_id st4 = Suc (Suc ?n)" "memtable st4 = mt_new"
  proof (rule compact_steps [of X st3 "runs @ [(?n, ?es)]" rnd])
    show "store_inv X st3 (runs @ [(?n, ?es)])" using f(3) by (simp add: steps_to_def)
    show "runs_size (runs @ [(?n, ?es)]) < 2 ^ 29" "next_sst_id st3 < 2 ^ 64" "nonces_ok (crypto st3) (rnd 2)"
      using room rnd by (simp_all add: roomy_def store_size_def STORE_LIMIT_def draws_ok_def st3)
  qed (simp add: st3)
  moreover have "store_map (runs @ [(?n, ?es)]) (memtable st3) = ?m" using f(3) by (simp add: steps_to_def)
  moreover have "kvs_size (compacted (runs @ [(?n, ?es)])) \<le> store_size st runs"
    using kvs_size_compacted [of "runs @ [(?n, ?es)]"] by (simp add: store_size_def)
  ultimately show ?thesis
    using that [of st3 "runs @ [(?n, ?es)]"] that [of st4 "[(Suc ?n, compacted (runs @ [(?n, ?es)]))]"]
      f(3) steps_to_trans [of X st ?m st3 "runs @ [(?n, ?es)]" ?m st4]
    by (auto simp: st3 store_size_def mt_new_def split: if_splits)
qed

lemma maybe_flush_steps:
  assumes "store_inv X st runs" "roomy st runs 0" "draws_ok (crypto st) rnd"
  obtains st' runs' where "maybe_flush X rnd st = (Inr (), st')"
    "steps_to X st (store_map runs (memtable st)) st' runs' (store_map runs (memtable st))"
    "store_size st' runs' \<le> store_size st runs" "next_sst_id st' \<le> next_sst_id st + 2"
proof (cases "mt_len (memtable st) \<ge> memtable_flush_threshold (options st)")
  case True
  then show ?thesis using flush_steps [OF assms] that by (auto simp: maybe_flush_def)
next
  case False
  then show ?thesis using that [of st runs] steps_to_refl [OF assms(1) refl] by (simp add: maybe_flush_def)
qed

subsection \<open>Writing to the log\<close>

lemma entry_size_ops: "entry_size e = kvs_size (entry_ops e)"
proof -
  have "op_size = entry_wire_size"
    by (auto simp: fun_eq_iff op_size_def entry_wire_size_def val_bytes_def split: option.split)
  then show ?thesis by (simp add: entry_size_def kvs_size_def)
qed

definition group_ok :: "wal_entry \<Rightarrow> bool" where
  "group_ok e \<longleftrightarrow> (case e of Single k v \<Rightarrow> True | Group ops \<Rightarrow> length ops \<le> MAX_BATCH_OPS)"

lemma log_append_steps:
  assumes inv: "store_inv X st runs" and e: "group_ok e"
    and room: "roomy st runs (kvs_size (entry_ops e))" and rnd: "draws_ok (crypto st) rnd"
  obtains st1 where
    "log_append (write_record X (crypto st) (rnd 0 0) (wal_contents (disk st)) (encode_record (entry_record e))) st k
       = k st1"
    "memtable st1 = memtable st"
    "steps_to X st (store_map runs (memtable st)) (st1\<lparr>memtable := fold mt_apply (entry_ops e) (memtable st1)\<rparr>)
       runs (fold apply_kv (entry_ops e) (store_map runs (memtable st)))"
    "roomy (st1\<lparr>memtable := fold mt_apply (entry_ops e) (memtable st1)\<rparr>) runs 0"
    "store_size (st1\<lparr>memtable := fold mt_apply (entry_ops e) (memtable st1)\<rparr>) runs
       \<le> store_size st runs + kvs_size (entry_ops e)"
    "next_sst_id st1 = next_sst_id st"
proof -
  let ?cr = "crypto st" and ?w = "wal_contents (disk st)" and ?f = "wal_frame X (crypto st) (rnd 0 0, e)"
  let ?m = "store_map runs (memtable st)"
  let ?m' = "fold apply_kv (entry_ops e) ?m"
  have I: "mode_ok X ?cr" "block_size (options st) \<noteq> 0" "d_store_meta (disk st) = Some store_meta_bytes"
    "tables_inv X ?cr (d_ssts (disk st)) (ssts st) runs (next_sst_id st) (block_cache st)"
    using inv by (simp_all add: store_inv_iff)
  obtain ops where ops: "wal_holds X ?cr ?w ops" "memtable st = fold mt_apply ops mt_new"
    using inv by (auto simp: store_inv_iff)
  have frame: "wal_frame_ok X ?cr (rnd 0 0, e)"
    using I(1) e room rnd
    by (auto simp: wal_frame_ok_def entry_ok_def entry_size_ops group_ok_def roomy_def STORE_LIMIT_def
        draws_ok_def nonces_ok_def)
  note W = write_record_holds [OF ops(1) frame]
  define st1 where "st1 = note_wal_record (length ?f) (emit (WalAppend ?f) st)"
  let ?st = "st1\<lparr>memtable := fold mt_apply (entry_ops e) (memtable st1)\<rparr>"
  have st1: "memtable st1 = memtable st" "ssts st1 = ssts st" "next_sst_id st1 = next_sst_id st"
    "options st1 = options st" "crypto st1 = ?cr" "disk st1 = apply_disk_op (WalAppend ?f) (disk st)"
    "trace st1 = trace st @ [WalAppend ?f]" "block_cache st1 = block_cache st"
    by (simp_all add: st1_def emit_def)
  have inv1: "store_inv X ?st runs"
    unfolding store_inv_iff using I W(2) ops(2)
    by (auto simp: st1 intro!: exI [of _ "ops @ entry_ops e"])
  have m': "store_map runs (memtable ?st) = ?m'"
    using store_map_fold [OF store_inv_mt_ok [OF inv]] by (simp add: st1)
  have "recoverable X ?cr (d_crypto_meta (disk st)) d ?m" if d: "d \<in> torn_states (WalAppend ?f) (disk st)" for d
  proof -
    obtain t where t: "strict_prefix t ?f" "d = apply_disk_op (WalAppend t) (disk st)"
      using d by auto
    then have "wal_torn X ?cr t" using frame unfolding wal_torn_def by blast
    then have "wal_ok X ?cr d ops" using ops(1) t(2) by (auto simp: wal_ok_def)
    then have "disk_rep X ?cr d runs ops" using I by (simp add: t(2) disk_rep_iff tables_inv_def)
    then show ?thesis by (intro recoverableI) (simp_all add: t(2) disk_map_store ops(2))
  qed
  moreover have "recoverable X ?cr (d_crypto_meta (disk st)) (apply_disk_op (WalAppend ?f) (disk st)) ?m'"
    using store_inv_recoverable [OF inv1] unfolding m' by (simp add: st1)
  ultimately have "\<forall>d \<in> crash_states (disk st) [WalAppend ?f]. recovers_to X st {?m, ?m'} d"
    using store_inv_recoverable [OF inv] by (auto simp: recovers_to_def)
  then have steps: "steps_to X st ?m ?st runs ?m'"
    unfolding steps_to_def using inv1 m' by (auto simp: st1 intro!: exI [of _ "[WalAppend ?f]"])
  have size: "store_size ?st runs \<le> store_size st runs + kvs_size (entry_ops e)"
    using kvs_size_inserts [of "entry_ops e" "mt_entries (memtable st)"]
    by (simp add: store_size_def st1 mt_fold_entries)
  show ?thesis
  proof (rule that [of st1])
    show "roomy ?st runs 0" using room size by (simp add: roomy_def st1)
  qed (use steps size W(1) in \<open>simp_all add: log_append_def st1_def emit_def\<close>)
qed

lemma write_then_flush:
  assumes inv: "store_inv X st runs" and e: "group_ok e"
    and room: "roomy st runs (kvs_size (entry_ops e))" and rnd: "draws_ok (crypto st) rnd"
  shows "\<exists>st' runs'.
    log_append (write_record X (crypto st) (rnd 0 0) (wal_contents (disk st)) (encode_record (entry_record e))) st
      (\<lambda>st1. maybe_flush X rnd (st1\<lparr>memtable := fold mt_apply (entry_ops e) (memtable st1)\<rparr>)) = (Inr (), st')
    \<and> steps_to X st (store_map runs (memtable st)) st' runs' (fold apply_kv (entry_ops e) (store_map runs (memtable st)))
    \<and> store_size st' runs' \<le> store_size st runs + kvs_size (entry_ops e) \<and> next_sst_id st' \<le> next_sst_id st + 2"
proof -
  let ?m = "store_map runs (memtable st)" and ?upd = "\<lambda>st1. st1\<lparr>memtable := fold mt_apply (entry_ops e) (memtable st1)\<rparr>"
  let ?m' = "fold apply_kv (entry_ops e) ?m"
  obtain st1 where s1:
    "log_append (write_record X (crypto st) (rnd 0 0) (wal_contents (disk st)) (encode_record (entry_record e))) st
       (\<lambda>st1. maybe_flush X rnd (?upd st1)) = maybe_flush X rnd (?upd st1)"
    "steps_to X st ?m (?upd st1) runs ?m'" "roomy (?upd st1) runs 0"
    "store_size (?upd st1) runs \<le> store_size st runs + kvs_size (entry_ops e)" "next_sst_id st1 = next_sst_id st"
    by (rule log_append_steps [OF inv e room rnd, of "\<lambda>st1. maybe_flush X rnd (?upd st1)"])
  have s: "store_inv X (?upd st1) runs" "store_map runs (memtable (?upd st1)) = ?m'"
    "draws_ok (crypto (?upd st1)) rnd"
    using s1(2) rnd unfolding steps_to_def by simp_all
  obtain st' runs' where s2: "maybe_flush X rnd (?upd st1) = (Inr (), st')"
      "steps_to X (?upd st1) ?m' st' runs' ?m'"
      "store_size st' runs' \<le> store_size (?upd st1) runs" "next_sst_id st' \<le> next_sst_id (?upd st1) + 2"
    by (rule maybe_flush_steps [OF s(1) s1(3) s(3), unfolded s(2)])
  show ?thesis
    using s1(1,4,5) s2 steps_to_trans [OF s1(2) s2(2)] by (intro exI [of _ st'] exI [of _ runs']) simp
qed

subsection \<open>Put, delete and batch\<close>

lemma engine_put_steps:
  assumes "store_inv X st runs" "roomy st runs (entry_wire_size (k, Some v))" "draws_ok (crypto st) rnd"
    and "store_map runs (memtable st) = m"
  shows "\<exists>st' runs'. engine_put X rnd k v st = (Inr (), st') \<and> steps_to X st m st' runs' (m(k \<mapsto> v))
    \<and> store_size st' runs' \<le> store_size st runs + entry_wire_size (k, Some v)
    \<and> next_sst_id st' \<le> next_sst_id st + 2"
  using write_then_flush [of X st runs "Single k (Some v)" rnd] assms
  by (simp add: engine_put_def wal_append_entry group_ok_def apply_kv_def mt_apply_def)

text \<open>
  \<open>Engine::put\<close> is an atomic update of the map the store denotes: it succeeds, the
  store it leaves denotes the old map with the key set, the invariant is kept, and a crash
  anywhere among its file operations (log append, possibly torn, flush, compaction) leaves a
  directory that recovers to the old or to the new map.
\<close>

theorem engine_put_refines:
  assumes "store_inv X st runs" "roomy st runs (entry_wire_size (k, Some v))" "draws_ok (crypto st) rnd"
    and "store_map runs (memtable st) = m"
  shows "\<exists>st' runs'. engine_put X rnd k v st = (Inr (), st') \<and> steps_to X st m st' runs' (m(k \<mapsto> v))
    \<and> store_size st' runs' \<le> store_size st runs + entry_wire_size (k, Some v)
    \<and> next_sst_id st' \<le> next_sst_id st + 2"
  by (rule engine_put_steps [OF assms])

lemma engine_delete_steps:
  assumes "store_inv X st runs" "roomy st runs (entry_wire_size (k, None))" "draws_ok (crypto st) rnd"
    and "store_map runs (memtable st) = m"
  shows "\<exists>st' runs'. engine_delete X rnd k st = (Inr (), st') \<and> steps_to X st m st' runs' (m(k := None))
    \<and> store_size st' runs' \<le> store_size st runs + entry_wire_size (k, None)
    \<and> next_sst_id st' \<le> next_sst_id st + 2"
  using write_then_flush [of X st runs "Single k None" rnd] assms
  by (simp add: engine_delete_def wal_append_entry group_ok_def apply_kv_def mt_apply_def)

text \<open>
  \<open>Engine::delete\<close> removes the key from the map the store denotes, with the same
  guarantees; deleting an absent key leaves the map as it is.
\<close>

theorem engine_delete_refines:
  assumes "store_inv X st runs" "roomy st runs (entry_wire_size (k, None))" "draws_ok (crypto st) rnd"
    and "store_map runs (memtable st) = m"
  shows "\<exists>st' runs'. engine_delete X rnd k st = (Inr (), st') \<and> steps_to X st m st' runs' (m(k := None))
    \<and> store_size st' runs' \<le> store_size st runs + entry_wire_size (k, None)
    \<and> next_sst_id st' \<le> next_sst_id st + 2"
  by (rule engine_delete_steps [OF assms])

lemma batch_ops_eq:
  "map (\<lambda>(k, v). \<lparr>b_op = (if v \<noteq> None then Put else Delete), b_key = k, b_value = v\<rparr>) b = map to_batch_op b"
  by (simp add: to_batch_op_def)

lemma apply_batch_eq:
  assumes "b \<noteq> []" "length b \<le> MAX_BATCH_OPS"
  shows "apply_batch X rnd b st =
    log_append (write_record X (crypto st) (rnd 0 0) (wal_contents (disk st)) (encode_record (entry_record (Group b)))) st
      (\<lambda>st1. maybe_flush X rnd (st1\<lparr>memtable := fold mt_apply b (memtable st1)\<rparr>))"
  unfolding apply_batch_def Let_def batch_ops_eq wal_append_entry(3) [OF assms(2)] using assms(1) by simp

lemma apply_batch_steps:
  assumes "store_inv X st runs" "roomy st runs (kvs_size b)" "draws_ok (crypto st) rnd"
    and "store_map runs (memtable st) = m"
  shows "if length b > MAX_BATCH_OPS
    then apply_batch X rnd b st = (Inl (WalBatchTooLarge (length b) MAX_BATCH_OPS), st)
    else \<exists>st' runs'. apply_batch X rnd b st = (Inr (), st') \<and> steps_to X st m st' runs' (fold apply_kv b m)
      \<and> store_size st' runs' \<le> store_size st runs + kvs_size b
      \<and> next_sst_id st' \<le> next_sst_id st + 2"
proof (cases "b = [] \<or> length b > MAX_BATCH_OPS")
  case True
  then show ?thesis using steps_to_refl [OF assms(1,4)]
    by (auto simp: apply_batch_def Let_def append_batch_def log_append_def MAX_BATCH_OPS_def)
next
  case False
  then have b: "b \<noteq> []" "length b \<le> MAX_BATCH_OPS" by simp_all
  show ?thesis using write_then_flush [of X st runs "Group b" rnd] assms b
    by (simp add: apply_batch_eq group_ok_def)
qed

text \<open>
  C10. \<open>Engine::apply_batch\<close> is atomic: its operations are applied in order, and a crash
  recovers to the map before the whole batch or to the map after all of it, never to a part;
  a batch over the format's limit fails and changes nothing.
\<close>

theorem apply_batch_refines:
  assumes "store_inv X st runs" "roomy st runs (kvs_size b)" "draws_ok (crypto st) rnd"
    and "store_map runs (memtable st) = m"
  shows "if length b > MAX_BATCH_OPS
    then apply_batch X rnd b st = (Inl (WalBatchTooLarge (length b) MAX_BATCH_OPS), st)
    else \<exists>st' runs'. apply_batch X rnd b st = (Inr (), st') \<and> steps_to X st m st' runs' (fold apply_kv b m)
      \<and> store_size st' runs' \<le> store_size st runs + kvs_size b
      \<and> next_sst_id st' \<le> next_sst_id st + 2"
  by (rule apply_batch_steps [OF assms])

lemma engine_flush_steps:
  assumes "store_inv X st runs" "roomy st runs 0" "draws_ok (crypto st) rnd"
    and "store_map runs (memtable st) = m"
  shows "\<exists>st' runs'. engine_flush X rnd st = (Inr (), st') \<and> mt_is_empty (memtable st')
      \<and> steps_to X st m st' runs' m \<and> store_size st' runs' \<le> store_size st runs
      \<and> next_sst_id st' \<le> next_sst_id st + 2"
  using flush_steps [OF assms(1-3), unfolded assms(4)] by (metis mt_is_empty_def)

lemma compact_now_steps:
  assumes "store_inv X st runs" "roomy st runs 0" "next_sst_id st + 3 \<le> 2 ^ 64"
    and "draws_ok (crypto st) rnd" "draws_ok (crypto st) rnd'" "store_map runs (memtable st) = m"
  shows "\<exists>st' runs'. compact_now X rnd rnd' st = (Inr (), st') \<and> mt_is_empty (memtable st')
      \<and> length (ssts st') \<le> 1 \<and> steps_to X st m st' runs' m \<and> store_size st' runs' \<le> store_size st runs
      \<and> next_sst_id st' \<le> next_sst_id st + 3"
proof -
  obtain st' runs' where f: "engine_flush X rnd st = (Inr (), st')" "mt_is_empty (memtable st')"
    "steps_to X st m st' runs' m" "store_size st' runs' \<le> store_size st runs" "next_sst_id st' \<le> next_sst_id st + 2"
    using engine_flush_steps [OF assms(1,2,4,6)] by blast
  have s: "store_inv X st' runs'" "store_map runs' (memtable st') = m" "crypto st' = crypto st"
    using f(3) by (simp_all add: steps_to_def)
  show ?thesis
  proof (cases "ssts st' = []")
    case True
    then show ?thesis using f by (intro exI [of _ st'] exI [of _ runs']) (simp add: compact_now_def)
  next
    case False
    have sz: "runs_size runs' < 2 ^ 29" "next_sst_id st' < 2 ^ 64" "nonces_ok (crypto st') (rnd' 2)"
      using f(4,5) assms(2,3,5) s(3) by (simp_all add: roomy_def store_size_def STORE_LIMIT_def draws_ok_def)
    let ?runs = "[(next_sst_id st', compacted runs')]"
    obtain st'' where c: "engine_compact X rnd' st' = (Inr (), st'')" "steps_to X st' m st'' ?runs m"
      "next_sst_id st'' = Suc (next_sst_id st')" "memtable st'' = memtable st'"
      by (rule compact_steps [of X st' runs' rnd', OF s(1) sz, unfolded s(2)])
    have "store_inv X st'' ?runs" using c(2) by (simp add: steps_to_def)
    then have "length (ssts st'') = 1" by (auto simp: store_inv_def dest: list_all2_lengthD)
    moreover have "store_size st'' ?runs \<le> store_size st' runs'"
      using kvs_size_compacted [of runs'] c(4) by (simp add: store_size_def)
    ultimately show ?thesis using f c False steps_to_trans [OF f(3) c(2)]
      by (intro exI [of _ st''] exI [of _ ?runs]) (simp add: compact_now_def)
  qed
qed

text \<open>
  \<open>Engine::flush\<close> and \<open>Engine::compact_now\<close> change no content: they succeed, the map
  the store denotes stays the same, both leave the memtable empty, \<open>compact_now\<close> leaves at
  most one table, and a crash anywhere in them recovers to that map.
\<close>

theorem flush_compact_refine:
  assumes "store_inv X st runs" "roomy st runs 0" "next_sst_id st + 3 \<le> 2 ^ 64"
    and "draws_ok (crypto st) rnd" "draws_ok (crypto st) rnd'" "store_map runs (memtable st) = m"
  shows "(\<exists>st' runs'. engine_flush X rnd st = (Inr (), st') \<and> mt_is_empty (memtable st')
        \<and> steps_to X st m st' runs' m)
    \<and> (\<exists>st' runs'. compact_now X rnd rnd' st = (Inr (), st') \<and> mt_is_empty (memtable st')
        \<and> length (ssts st') \<le> 1 \<and> steps_to X st m st' runs' m)"
  using engine_flush_steps [OF assms(1,2,4,6)] compact_now_steps [OF assms] by blast

subsection \<open>An encrypted store to apply the properties to\<close>

definition toy_meta :: bytes where
  "toy_meta = projr (write_meta toy_externals [1] toy_ctx (replicate SALT_LEN 4) (replicate NONCE_LEN 5))"

lemma toy_opens: "opens_with toy_externals (Some toy_meta) (Some [1]) (Some toy_ctx)"
proof -
  have "externals_ok toy_externals" "context_ok toy_ctx" using toy_mode(1) by (simp_all add: mode_ok_def)
  then obtain fl where "write_meta toy_externals [1] toy_ctx (replicate SALT_LEN 4) (replicate NONCE_LEN 5) = Inr fl"
    "load_meta toy_externals (Some fl) [1] = Inr toy_ctx"
    by (rule write_meta_ok [of _ _ "replicate SALT_LEN 4" "replicate NONCE_LEN 5" "[1]"]) simp_all
  then show ?thesis by (simp add: opens_with_def toy_meta_def)
qed

definition toy_store :: store where
  "toy_store = \<lparr>memtable = mt_new, ssts = [], next_sst_id = 0, options = default_options\<lparr>memtable_flush_threshold := 2\<rparr>,
     crypto = Some toy_ctx, counters = \<lparr>wal_records = 0, flush_count = 0, compaction_count = 0,
       compaction_input_bytes = 0, compaction_output_bytes = 0, bytes_read = 0, bytes_written = 0\<rparr>,
     point_lookup_full_sst_read = 0, block_cache = bc_new 4096,
     disk = \<lparr>d_store_meta = Some store_meta_bytes, d_crypto_meta = Some toy_meta, d_wal = Some [], d_ssts = []\<rparr>,
     trace = []\<rparr>"

definition toy_rnd :: "nat \<Rightarrow> nat \<Rightarrow> bytes" where
  "toy_rnd i n = replicate NONCE_LEN (word_of_nat (i + n))"

lemma toy_draws [simp]: "draws_ok cr toy_rnd"
  by (simp add: draws_ok_def nonces_ok_def toy_rnd_def)

lemma toy_store_inv: "store_inv toy_externals toy_store []"
  by (auto simp: store_inv_iff toy_store_def default_options_def tables_inv_def dir_rep_def
      cache_rep_iff wal_contents_def intro!: exI [of _ "[]"])

lemma toy_store_map: "store_map [] (memtable toy_store) = Map.empty"
  by (simp add: store_map_def toy_store_def)

lemma toy_roomy: "n < 2 ^ 29 \<Longrightarrow> roomy toy_store [] n"
  by (simp add: roomy_def toy_store_def store_size_def runs_size_def mt_new_def STORE_LIMIT_def)

lemma toy_fields [simp]:
  "crypto toy_store = Some toy_ctx" "d_crypto_meta (disk toy_store) = Some toy_meta" "next_sst_id toy_store = 0"
  by (simp_all add: toy_store_def)

lemmas toy_facts = toy_store_inv toy_store_map toy_roomy toy_draws

theorem engine_put_refines_witness:
  "\<exists>st' runs'. engine_put toy_externals toy_rnd [1, 2] [3] toy_store = (Inr (), st')
     \<and> steps_to toy_externals toy_store Map.empty st' runs' [[1, 2] \<mapsto> [3]]"
  using engine_put_refines [OF toy_store_inv toy_roomy toy_draws toy_store_map, of "[1, 2]" "[3]"]
  by (auto simp: entry_wire_size_def)

theorem engine_delete_refines_witness:
  "\<exists>st' runs'. engine_delete toy_externals toy_rnd [1, 2] toy_store = (Inr (), st')
     \<and> steps_to toy_externals toy_store Map.empty st' runs' Map.empty"
  using engine_delete_refines [OF toy_store_inv toy_roomy toy_draws toy_store_map, of "[1, 2]"]
  by (auto simp: entry_wire_size_def)

theorem apply_batch_refines_witness:
  "\<exists>st' runs'. apply_batch toy_externals toy_rnd [([1], Some [5]), ([2], Some [6]), ([1], None)] toy_store
       = (Inr (), st')
     \<and> steps_to toy_externals toy_store Map.empty st' runs' [[2] \<mapsto> [6]]"
  using apply_batch_refines [OF toy_store_inv toy_roomy toy_draws toy_store_map,
      of "[([1], Some [5]), ([2], Some [6]), ([1], None)]"]
  by (auto simp: entry_wire_size_def MAX_BATCH_OPS_def apply_kv_def fun_upd_twist)

theorem flush_compact_refine_witness:
  "\<exists>st' runs'. compact_now toy_externals toy_rnd toy_rnd toy_store = (Inr (), st')
     \<and> steps_to toy_externals toy_store Map.empty st' runs' Map.empty"
proof -
  have "next_sst_id toy_store + 3 \<le> 2 ^ 64" by (simp add: toy_store_def)
  from flush_compact_refine [OF toy_store_inv toy_roomy this toy_draws toy_draws toy_store_map]
  show ?thesis by auto
qed

end
