(* ===== verification/Engine_Read.thy ===== *)
theory Engine_Read
  imports Engine_Write
begin

text \<open>
  The reading operations against the map a store denotes: the point lookup with its walk
  over the tables and the shared block cache, the prefix and range scans, and the bounded
  pages, whose frontier argument is proved and whose chaining yields the whole range.
\<close>

subsection \<open>Point lookups\<close>

lemma table_rep_nth:
  "list_all2 (table_rep X dir) ss runs \<Longrightarrow> s \<in> set ss \<Longrightarrow>
     \<exists>contents blocks. map_of dir (s_id s) = Some contents \<and> sst_rep X s contents blocks"
  by (fastforce simp: list_all2_conv_all_nth in_set_conv_nth table_rep_def)

lemma cache_agrees_table:
  assumes "cache_rep X dir ss c" "s \<in> set ss" "distinct (map s_id ss)"
    and "map_of dir (s_id s) = Some contents" "sst_rep X s contents blocks"
  shows "cache_agrees s blocks c"
  unfolding cache_agrees_def
proof (intro allI impI)
  fix n b
  assume "((s_id s, n), b) \<in> bc_blocks c"
  then have "cached_ok X dir ss (s_id s) n b" using assms(1) by (simp add: cache_rep_iff)
  then obtain s' where s': "s' \<in> set ss" "s_id s' = s_id s" "n < length (s_block_index s')"
    "read_and_verify_block X s' contents n (s_block_index s' ! n) = Inr b"
    using assms(4) by (auto simp: cached_ok_def)
  have "s' = s" using s'(1,2) assms(2,3) by (auto simp: distinct_map dest: inj_onD)
  moreover have "length (s_block_index s) = length blocks"
    "\<forall>i < length blocks. read_and_verify_block X s contents i (s_block_index s ! i) = Inr (blocks ! i)"
    using assms(5) by (auto simp: sst_rep_def dest: list_all2_lengthD)
  ultimately show "n < length blocks \<and> b = blocks ! n" using s'(3,4) by auto
qed

lemma cache_rep_grow:
  assumes "cache_rep X dir ss c" "s \<in> set ss"
    and "map_of dir (s_id s) = Some contents" "sst_rep X s contents blocks" "bc_ok c'"
    and "bc_blocks c' \<subseteq> bc_blocks c \<union> {((s_id s, i), blocks ! i) | i. i < length blocks}"
  shows "cache_rep X dir ss c'"
  unfolding cache_rep_iff
proof (intro conjI allI impI)
  fix i n b
  assume "((i, n), b) \<in> bc_blocks c'"
  then consider "((i, n), b) \<in> bc_blocks c" | "i = s_id s" "n < length blocks" "b = blocks ! n"
    using assms(6) by blast
  then show "cached_ok X dir ss i n b"
  proof cases
    case 1
    then show ?thesis using assms(1) by (simp add: cache_rep_iff)
  next
    case 2
    have "length (s_block_index s) = length blocks"
      "\<forall>i < length blocks. read_and_verify_block X s contents i (s_block_index s ! i) = Inr (blocks ! i)"
      using assms(4) by (auto simp: sst_rep_def dest: list_all2_lengthD)
    then show ?thesis using assms(2,3) 2 unfolding cached_ok_def by auto
  qed
qed (rule assms(5))

lemma store_update_cache [simp]:
  "sst_disk_file (st\<lparr>block_cache := c\<rparr>) s = sst_disk_file st s"
  by (simp add: sst_disk_file_def)

lemma get_from_tables_ok:
  assumes "list_all2 (table_rep X dir) ss rs" "d_ssts (disk st) = dir" "set ss \<subseteq> set (ssts st)"
    and "distinct (map s_id (ssts st))" "cache_rep X dir (ssts st) (block_cache st)"
  shows "\<exists>c. get_from_tables X k ss st
      = (Inr (case layers (rev rs) k of None \<Rightarrow> None | Some v \<Rightarrow> v), st\<lparr>block_cache := c\<rparr>)
    \<and> cache_rep X dir (ssts st) c"
  using assms
proof (induction ss rs arbitrary: st rule: list_all2_induct)
  case Nil
  have "st = st\<lparr>block_cache := block_cache st\<rparr>" by simp
  then show ?case using Nil by force
next
  case (Cons s ss r rs)
  obtain contents blocks where s: "map_of dir (s_id s) = Some contents" "sst_rep X s contents blocks"
    "concat blocks = snd r" "s_id s = fst r"
    using Cons.hyps(1) unfolding table_rep_def by metis
  have "s \<in> set (ssts st)" using Cons.prems(2) by simp
  note agree = cache_agrees_table [OF Cons.prems(4) this Cons.prems(3) s(1,2)]
    and grow = cache_rep_grow [OF Cons.prems(4) this s(1,2)]
  have bc: "bc_ok (block_cache st)" using Cons.prems(4) by (simp add: cache_rep_def)
  obtain n c where g: "sst_get X s (Some contents) k (block_cache st) = Inr (map_of (snd r) k, n, c)" "n \<le> 1"
      "bc_ok c" "bc_blocks c \<subseteq> bc_blocks (block_cache st) \<union> {((s_id s, i), blocks ! i) | i. i < length blocks}"
    by (rule sst_get_ok [OF s(2) bc agree, of k, unfolded s(3)])
  have c: "cache_rep X dir (ssts st) c" using grow g(3,4) by blast
  have run: "get_from_tables X k (s # ss) st = (case map_of (snd r) k of
      Some v \<Rightarrow> (Inr v, st\<lparr>block_cache := c\<rparr>) | None \<Rightarrow> get_from_tables X k ss (st\<lparr>block_cache := c\<rparr>))"
    using g(1,2) s(1) Cons.prems(1) by (simp add: sst_disk_file_def Let_def)
  have lay: "layers (rev (r # rs)) = layers (rev rs) ++ map_of (snd r)"
    by (cases r) (simp add: layers_append)
  show ?case
  proof (cases "map_of (snd r) k")
    case None
    moreover obtain c' where "get_from_tables X k ss (st\<lparr>block_cache := c\<rparr>)
        = (Inr (case layers (rev rs) k of None \<Rightarrow> None | Some v \<Rightarrow> v), st\<lparr>block_cache := c'\<rparr>)"
      "cache_rep X dir (ssts st) c'"
      using Cons.IH [of "st\<lparr>block_cache := c\<rparr>"] Cons.prems(1-3) c by auto
    ultimately show ?thesis using run lay by (auto simp: map_add_def)
  next
    case (Some v)
    then show ?thesis using run lay c by (auto simp: map_add_def)
  qed
qed

lemma store_inv_ids: "store_inv X st runs \<Longrightarrow> distinct (map s_id (ssts st))"
proof -
  assume inv: "store_inv X st runs"
  then have "map s_id (ssts st) = map fst runs" using table_rep_ids by (auto simp: store_inv_def)
  then show ?thesis using inv sorted_keys_distinct [of runs] by (simp add: store_inv_def dir_rep_def)
qed

lemma engine_get_map:
  assumes "store_inv X st runs"
  shows "\<exists>c. engine_get X k st = (Inr (store_map runs (memtable st) k), st\<lparr>block_cache := c\<rparr>)
    \<and> store_inv X (st\<lparr>block_cache := c\<rparr>) runs"
proof -
  have inv: "list_all2 (table_rep X (d_ssts (disk st))) (rev (ssts st)) (rev runs)"
    "cache_rep X (d_ssts (disk st)) (ssts st) (block_cache st)"
    using assms by (simp_all add: store_inv_def list_all2_rev)
  obtain c where c: "get_from_tables X k (rev (ssts st)) st
      = (Inr (case layers runs k of None \<Rightarrow> None | Some v \<Rightarrow> v), st\<lparr>block_cache := c\<rparr>)"
    "cache_rep X (d_ssts (disk st)) (ssts st) c"
    using get_from_tables_ok [OF inv(1) refl _ store_inv_ids [OF assms] inv(2), of k] by auto
  have same: "st = st\<lparr>block_cache := block_cache st\<rparr>" by simp
  have inv': "store_inv X (st\<lparr>block_cache := c'\<rparr>) runs"
    if "cache_rep X (d_ssts (disk st)) (ssts st) c'" for c'
    using assms that by (simp add: store_inv_def)
  show ?thesis
  proof (cases "mt_get (memtable st) k")
    case None
    then show ?thesis using c inv' by (auto simp: engine_get_def store_map_def flat_def map_add_def split: option.split)
  next
    case (Some v)
    then have "engine_get X k st = (Inr (store_map runs (memtable st) k), st\<lparr>block_cache := block_cache st\<rparr>)"
      by (simp add: engine_get_def store_map_def flat_def map_add_def split: option.split)
    then show ?thesis using inv' inv(2) by blast
  qed
qed

text \<open>
  C3. \<open>Engine::get\<close> returns what the map the store denotes holds at the key, whatever
  blocks the cache holds from earlier lookups: a tombstone in a newer layer hides every older
  value. It keeps the invariant and changes nothing but the cache; in particular the counter
  of lookups that read more than one block of a table never moves.
\<close>

theorem engine_get_correct:
  assumes "store_inv X st runs"
  shows "\<exists>c. engine_get X k st = (Inr (store_map runs (memtable st) k), st\<lparr>block_cache := c\<rparr>)
    \<and> store_inv X (st\<lparr>block_cache := c\<rparr>) runs"
  by (rule engine_get_map [OF assms])

theorem engine_get_correct_witness:
  "\<exists>c. engine_get toy_externals [7] toy_store = (Inr None, toy_store\<lparr>block_cache := c\<rparr>)"
  using engine_get_correct [OF toy_store_inv, of "[7]"] by (auto simp: toy_store_map)

subsection \<open>Scans\<close>

definition select_runs :: "(bytes \<Rightarrow> bool) \<Rightarrow> run list \<Rightarrow> run list" where
  "select_runs P runs = map (\<lambda>(n, es). (n, filter (\<lambda>(k, v). P k) es)) runs"

lemma select_runs_simps [simp]:
  "select_runs P [] = []"
  "select_runs P ((n, es) # runs) = (n, filter (\<lambda>(k, v). P k) es) # select_runs P runs"
  by (simp_all add: select_runs_def)

lemma layers_select [simp]: "layers (select_runs P runs) k = (if P k then layers runs k else None)"
  by (induction runs rule: layers.induct) (auto simp: map_add_def map_of_filter_key split: option.split)

lemma select_sorted:
  "\<forall>(n, es) \<in> set runs. sorted_keys es \<Longrightarrow> \<forall>(n, es) \<in> set (select_runs P runs). sorted_keys es"
  by (auto simp: select_runs_def)

text \<open>The merge of what the layers hold in a set of keys.\<close>

definition restricted :: "(bytes \<Rightarrow> bool) \<Rightarrow> (bytes \<rightharpoonup> bytes) \<Rightarrow> bytes \<rightharpoonup> bytes" where
  "restricted P m = (\<lambda>k. if P k then m k else None)"

lemma merged_selection:
  assumes "\<forall>(n, es) \<in> set runs. sorted_keys es" "mt_ok mt"
  shows "sorted_keys (om_inserts (filter (\<lambda>(k, v). P k) (mt_iter mt)) (merge_tables (map snd (select_runs P runs))))"
    and "map_of (om_inserts (filter (\<lambda>(k, v). P k) (mt_iter mt)) (merge_tables (map snd (select_runs P runs)))) k
      = (if P k then (layers runs ++ mt_get mt) k else None)"
proof -
  note M = merge_tables_runs [OF select_sorted [OF assms(1)], of P]
  have mt: "sorted_keys (mt_iter mt)" using assms(2) by (simp add: mt_ok_def mt_iter_def)
  show "sorted_keys (om_inserts (filter (\<lambda>(k, v). P k) (mt_iter mt)) (merge_tables (map snd (select_runs P runs))))"
    by (simp add: M)
  show "map_of (om_inserts (filter (\<lambda>(k, v). P k) (mt_iter mt)) (merge_tables (map snd (select_runs P runs)))) k
      = (if P k then (layers runs ++ mt_get mt) k else None)"
    using mt by (simp add: map_of_om_inserts_sorted M map_add_def map_of_filter_key mt_get_def mt_iter_def split: option.split)
qed

lemma live_selection:
  assumes "\<forall>(n, es) \<in> set runs. sorted_keys es" "mt_ok mt"
  shows "sorted_keys (live (om_inserts (filter (\<lambda>(k, v). P k) (mt_iter mt)) (merge_tables (map snd (select_runs P runs)))))"
    and "map_of (live (om_inserts (filter (\<lambda>(k, v). P k) (mt_iter mt)) (merge_tables (map snd (select_runs P runs)))))
      = restricted P (store_map runs mt)"
  using merged_selection [OF assms, of P]
  by (auto simp: map_of_live restricted_def store_map_def flat_def fun_eq_iff)

lemma tables_selection:
  assumes "store_inv X st runs"
    and "\<And>s contents blocks. sst_rep X s contents blocks \<Longrightarrow>
      \<exists>n. walk s (Some contents) = Inr (filter (\<lambda>(k, v). P k) (concat blocks), n)"
  shows "rmap (\<lambda>s. rbind (walk s (sst_disk_file st s)) (\<lambda>(matches, blocks_read). Inr matches)) (ssts st)
    = Inr (map snd (select_runs P runs))"
proof -
  have "list_all2 (\<lambda>s r. rbind (walk s (sst_disk_file st s)) (\<lambda>(matches, blocks_read). Inr matches)
      = Inr (filter (\<lambda>(k, v). P k) (snd r))) (ssts st) runs"
  proof (rule list_all2_mono [of "table_rep X (d_ssts (disk st))"])
    show "list_all2 (table_rep X (d_ssts (disk st))) (ssts st) runs" using assms(1) by (simp add: store_inv_def)
    fix s r
    assume "table_rep X (d_ssts (disk st)) s r"
    then obtain contents blocks where "sst_disk_file st s = Some contents" "sst_rep X s contents blocks"
      "concat blocks = snd r"
      by (auto simp: table_rep_def sst_disk_file_def)
    then show "rbind (walk s (sst_disk_file st s)) (\<lambda>(matches, blocks_read). Inr matches)
      = Inr (filter (\<lambda>(k, v). P k) (snd r))" using assms(2) by fastforce
  qed
  from rmap_list_all2 [OF this] show ?thesis
    by (simp add: select_runs_def case_prod_beta comp_def)
qed

lemma scans_ok:
  assumes "store_inv X st runs"
  shows "(\<exists>es. scan_prefix X pre st = Inr es \<and> sorted_keys es
      \<and> map_of es = restricted (\<lambda>k. prefix pre k) (store_map runs (memtable st)))
    \<and> (\<exists>es. scan_range X a b st = Inr es \<and> sorted_keys es
      \<and> map_of es = restricted (\<lambda>k. a \<le> k \<and> k < b) (store_map runs (memtable st)))"
proof -
  note sel = live_selection [OF store_inv_sorted [OF assms] store_inv_mt_ok [OF assms]]
  have "scan_prefix X pre st = Inr (live (om_inserts (filter (\<lambda>(k, v). prefix pre k) (mt_iter (memtable st)))
      (merge_tables (map snd (select_runs (prefix pre) runs)))))"
    unfolding scan_prefix_def
    by (subst tables_selection [OF assms, of "\<lambda>s d. entries_with_prefix X s d pre"])
      (use entries_with_prefix_ok in \<open>fastforce\<close>, simp)
  then have P: "\<exists>es. scan_prefix X pre st = Inr es \<and> sorted_keys es
      \<and> map_of es = restricted (\<lambda>k. prefix pre k) (store_map runs (memtable st))"
    using sel [of "prefix pre"] by simp
  have T: "rmap (\<lambda>s. rbind (entries_with_range X s (sst_disk_file st s) a b) (\<lambda>(matches, blocks_read). Inr matches)) (ssts st)
      = Inr (map snd (select_runs (\<lambda>k. a \<le> k \<and> k < b) runs))"
    by (rule tables_selection [OF assms]) (use entries_with_range_ok in fastforce)
  have "scan_range X a b st = Inr (live (om_inserts (filter (\<lambda>(k, v). a \<le> k \<and> k < b) (mt_iter (memtable st)))
      (merge_tables (map snd (select_runs (\<lambda>k. a \<le> k \<and> k < b) runs)))))" if "a < b"
    using that not_le [of b a] by (simp add: scan_range_def T)
  moreover have "scan_range X a b st = Inr []" if "\<not> a < b"
    using that not_less [of a b] by (simp add: scan_range_def)
  moreover have "restricted (\<lambda>k. a \<le> k \<and> k < b) (store_map runs (memtable st)) = Map.empty" if "\<not> a < b"
    using that le_less_trans [of a _ b] by (auto simp: restricted_def fun_eq_iff)
  ultimately show ?thesis
    using P sel [of "\<lambda>k. a \<le> k \<and> k < b"] by (cases "a < b") simp_all
qed

lemmas scan_range_ok = scans_ok [THEN conjunct2]

text \<open>
  C5. \<open>Engine::scan_prefix\<close> and \<open>Engine::scan_range\<close> return, in ascending key order and
  without duplicates, exactly the entries of the store's map whose key carries the prefix, or
  lies in the half-open range; an empty range yields the empty list.
\<close>

theorem scans_correct:
  assumes "store_inv X st runs"
  shows "(\<exists>es. scan_prefix X pre st = Inr es \<and> sorted_keys es
      \<and> map_of es = restricted (\<lambda>k. prefix pre k) (store_map runs (memtable st)))
    \<and> (\<exists>es. scan_range X a b st = Inr es \<and> sorted_keys es
      \<and> map_of es = restricted (\<lambda>k. a \<le> k \<and> k < b) (store_map runs (memtable st)))"
  by (rule scans_ok [OF assms])

theorem scans_correct_witness:
  "scan_prefix toy_externals [1] toy_store = Inr [] \<and> scan_range toy_externals [1] [2] toy_store = Inr []"
  using scans_correct [of toy_externals toy_store "[]" "[1]" "[1]" "[2]", OF toy_store_inv]
  by (auto simp: toy_store_map restricted_def fun_eq_iff map_of_eq_None_iff)

subsection \<open>Pages\<close>

definition within :: "bytes option \<Rightarrow> bytes \<Rightarrow> bool" where
  "within frontier k \<longleftrightarrow> (case frontier of None \<Rightarrow> True | Some f \<Rightarrow> k \<le> f)"

lemma within_simps [simp]: "within None k" "within (Some f) k \<longleftrightarrow> k \<le> f"
  by (simp_all add: within_def)

lemma within_clip: "within (clip (Some c) f) k \<longleftrightarrow> k \<le> c \<and> within f k"
  by (auto simp: clip_def split: option.split)

text \<open>
  What the pass over the sources has gathered: every key up to the frontier is as the
  sources seen so far (\<open>m\<close>) say, and the frontier is one of their keys.
\<close>

definition gathered ::
  "(bytes \<Rightarrow> bool) \<Rightarrow> (bytes \<rightharpoonup> bytes option) \<Rightarrow> kv list \<Rightarrow> bytes option \<Rightarrow> bool" where
  "gathered P m merged frontier \<longleftrightarrow> sorted_keys merged \<and> (\<forall>(k, v) \<in> set merged. P k)
     \<and> (\<forall>k. P k \<longrightarrow> within frontier k \<longrightarrow> map_of merged k = m k)
     \<and> (\<forall>f. frontier = Some f \<longrightarrow> P f \<and> f \<in> dom m)"

lemma map_of_prefix_sorted:
  assumes "sorted_keys S" "prefix out S" "out \<noteq> []" "k \<le> fst (last out)"
  shows "map_of out k = map_of S k"
proof -
  obtain r where r: "S = out @ r" using assms(2) by (auto elim: prefixE)
  have "fst (last out) < fst e" if "e \<in> set r" for e
    using assms(1,3) that by (auto simp: r sorted_keys_append)
  then have "map_of r k = None" using assms(4) by (force simp: map_of_eq_None_iff)
  then show ?thesis by (simp add: r map_add_def split: option.split)
qed

lemma gather_source:
  assumes G: "gathered P m merged frontier" and S: "sorted_keys S" "\<forall>(k, v) \<in> set S. P k"
    and out: "prefix out S" "t \<longrightarrow> out \<noteq> []" "\<not> t \<longrightarrow> out = S"
  shows "gathered P (m ++ map_of S) (om_inserts out merged)
    (if t then clip (if out = [] then None else Some (fst (last out))) frontier else frontier)"
proof -
  have so: "sorted_keys out" using S(1) out(1) by (auto simp: sorted_keys_append elim: prefixE)
  have sub: "set out \<subseteq> set S" using out(1) by (auto dest: set_mono_prefix)
  have g: "sorted_keys merged" "\<forall>(k, v) \<in> set merged. P k"
    "\<And>k. P k \<Longrightarrow> within frontier k \<Longrightarrow> map_of merged k = m k"
    "\<And>f. frontier = Some f \<Longrightarrow> P f \<and> f \<in> dom m"
    using G by (auto simp: gathered_def)
  have m: "map_of (om_inserts out merged) k = (map_of merged ++ map_of out) k" for k
    using g(1) so by (simp add: map_of_om_inserts_sorted)
  have P: "\<forall>(k, v) \<in> set (om_inserts out merged). P k"
    using set_om_inserts [of out merged] sub S(2) g(2) by blast
  show ?thesis
  proof (cases t)
    case True
    let ?c = "fst (last out)"
    have ne: "out \<noteq> []" using out(2) True by simp
    have eq: "map_of out k = map_of S k" if "k \<le> ?c" for k
      using map_of_prefix_sorted [OF S(1) out(1) ne that] .
    have "last out \<in> set S" using sub last_in_set [OF ne] by blast
    then have c: "?c \<in> dom (map_of S)" "P ?c" using S(2) by (auto simp: dom_map_of_conv_image_fst)
    have "clip (Some ?c) frontier = Some f \<Longrightarrow> P f \<and> f \<in> dom (m ++ map_of S)" for f
      using c g(4) by (auto simp: clip_def min_def split: option.splits if_splits)
    then show ?thesis using True ne g(1,3) P m eq
      by (auto simp: gathered_def within_clip map_add_def split: option.split)
  next
    case False
    then show ?thesis using out(3) g P m by (auto simp: gathered_def map_add_def split: option.split)
  qed
qed

lemma takeWhile_le_sorted:
  "sorted_keys es \<Longrightarrow> takeWhile (\<lambda>(k, v). k \<le> (f :: bytes)) es = filter (\<lambda>(k, v). k \<le> f) es"
proof (induction es)
  case (Cons e es)
  obtain k v where e: "e = (k, v)" by (cases e)
  show ?case
  proof (cases "k \<le> f")
    case False
    then have "\<forall>(k', v') \<in> set es. \<not> k' \<le> f" using Cons.prems by (force simp: e)
    then have "filter (\<lambda>(k, v). k \<le> f) es = []" by (auto simp: filter_empty_conv)
    then show ?thesis using False by (simp add: e)
  qed (use Cons e in simp)
qed simp

lemma page_tables_ok:
  assumes "list_all2 (table_rep X dir) ss rs" "d_ssts (disk st) = dir" "\<forall>(n, es) \<in> set rs. sorted_keys es"
    and "0 < limit" "gathered (\<lambda>k. a \<le> k \<and> k < b) m merged frontier"
  shows "\<exists>merged' frontier'. page_tables X a b limit st ss merged frontier = Inr (merged', frontier')
    \<and> gathered (\<lambda>k. a \<le> k \<and> k < b) (m ++ layers (select_runs (\<lambda>k. a \<le> k \<and> k < b) rs)) merged' frontier'"
  using assms
proof (induction ss rs arbitrary: m merged frontier rule: list_all2_induct)
  case (Cons s ss r rs)
  let ?P = "\<lambda>k. a \<le> k \<and> k < b"
  obtain i es where r: "r = (i, es)" by (cases r)
  let ?S = "filter (\<lambda>(k, v). ?P k) es"
  obtain contents blocks where s: "sst_disk_file st s = Some contents" "sst_rep X s contents blocks"
    "concat blocks = es"
    using Cons.hyps(1) Cons.prems(1) unfolding table_rep_def sst_disk_file_def r fst_conv snd_conv by metis
  obtain out t n where o: "entries_with_range_limited X s (Some contents) a b limit = Inr (out, t, n)"
    "prefix out ?S" "\<not> t \<longrightarrow> 0 < limit \<longrightarrow> out = ?S" "t \<longrightarrow> 0 < limit \<and> limit \<le> length out"
    by (rule entries_with_range_limited_ok [OF s(2), of a b limit, unfolded s(3)])
  have S: "sorted_keys ?S" "\<forall>(k, v) \<in> set ?S. ?P k"
    using Cons.prems(2) by (auto simp: r)
  have t: "t \<longrightarrow> out \<noteq> []" "\<not> t \<longrightarrow> out = ?S" using o(3,4) Cons.prems(3) by auto
  have G: "gathered ?P (m ++ map_of ?S) (om_inserts out merged)
    (if t then clip (if out = [] then None else Some (fst (last out))) frontier else frontier)"
    by (rule gather_source [OF Cons.prems(4) S o(2) t])
  have rest: "\<forall>(n, es) \<in> set rs. sorted_keys es" using Cons.prems(2) by simp
  have step: "page_tables X a b limit st (s # ss) merged frontier = page_tables X a b limit st ss (om_inserts out merged)
      (if t then clip (if out = [] then None else Some (fst (last out))) frontier else frontier)"
    using o(1) s(1) by simp
  have lay: "layers (select_runs ?P (r # rs)) = map_of ?S ++ layers (select_runs ?P rs)" by (simp add: r)
  show ?case
    using Cons.IH [OF Cons.prems(1) rest Cons.prems(3) G] unfolding step lay map_add_assoc .
qed simp

lemma page_memtable_ok:
  assumes "taken \<le> limit" "last_taken = (if taken = 0 then None else Some c)"
  shows "page_memtable a b limit es taken last_taken merged frontier =
    (let M = filter (\<lambda>(k, v). a \<le> k \<and> k < b) es; out = take (limit - taken) M
     in (om_inserts out merged,
         if length M > limit - taken
         then clip (if out = [] then last_taken else Some (fst (last out))) frontier else frontier))"
  using assms
proof (induction es arbitrary: taken last_taken merged c)
  case (Cons e es)
  obtain k v where e: "e = (k, v)" by (cases e)
  show ?case
  proof (cases "k < a \<or> k \<ge> b")
    case True
    then show ?thesis using Cons.IH [OF Cons.prems] by (auto simp: e Let_def not_le not_less)
  next
    case False
    show ?thesis
    proof (cases "taken = limit")
      case True
      then show ?thesis using False by (auto simp: e Let_def not_le not_less)
    next
      case F: False
      then obtain d where d: "limit - taken = Suc d" "limit - Suc taken = d"
        using Cons.prems(1) by (metis Suc_diff_Suc le_neq_implies_less)
      show ?thesis using False F Cons.IH [of "taken + 1" "Some k" k "om_insert k v merged"] Cons.prems(1)
        by (auto simp: e Let_def not_le not_less d)
    qed
  qed
qed simp

lemma scan_range_page_ok:
  assumes "store_inv X st runs"
  shows "\<exists>p. scan_range_page X a b limit st = Inr p \<and> sorted_keys (p_entries p)
    \<and> (case p_next_start p of
         None \<Rightarrow> map_of (p_entries p)
           = (if limit = 0 then Map.empty else restricted (\<lambda>k. a \<le> k \<and> k < b) (store_map runs (memtable st)))
       | Some n \<Rightarrow> map_of (p_entries p) = restricted (\<lambda>k. a \<le> k \<and> k < n) (store_map runs (memtable st))
           \<and> a < n \<and> n \<le> b
           \<and> (\<exists>f. n = f @ [0] \<and> a \<le> f \<and> f < b \<and> f \<in> dom (layers runs) \<union> dom (mt_get (memtable st))))"
proof (cases "a < b \<and> 0 < limit")
  case False
  have "restricted (\<lambda>k. a \<le> k \<and> k < b) m = Map.empty" if "\<not> a < b" for m
    using that le_less_trans [of a _ b] by (auto simp: restricted_def fun_eq_iff)
  then show ?thesis using False not_less [of a b] by (auto simp: scan_range_page_def)
next
  case True
  let ?P = "\<lambda>k. a \<le> k \<and> k < b" and ?mt = "mt_iter (memtable st)" and ?m = "store_map runs (memtable st)"
  let ?M = "filter (\<lambda>(k, v). ?P k) ?mt"
  let ?all = "layers (select_runs ?P runs) ++ map_of ?M"
  have sorted: "sorted_keys ?mt" using store_inv_mt_ok [OF assms] by (simp add: mt_ok_def mt_iter_def)
  have rep: "list_all2 (table_rep X (d_ssts (disk st))) (ssts st) runs" using assms by (simp add: store_inv_def)
  have start: "gathered ?P Map.empty [] None" by (simp add: gathered_def)
  have lim: "0 < limit" using True by simp
  obtain merged1 frontier1 where t: "page_tables X a b limit st (ssts st) [] None = Inr (merged1, frontier1)"
    "gathered ?P (layers (select_runs ?P runs)) merged1 frontier1"
    using page_tables_ok [OF rep refl store_inv_sorted [OF assms] lim start] unfolding empty_map_add by blast
  obtain merged frontier where mf: "page_memtable a b limit ?mt 0 None merged1 frontier1 = (merged, frontier)"
    by (cases "page_memtable a b limit ?mt 0 None merged1 frontier1")
  have "merged = om_inserts (take limit ?M) merged1"
    "frontier = (if length ?M > limit then clip (if take limit ?M = [] then None else Some (fst (last (take limit ?M)))) frontier1 else frontier1)"
    using mf page_memtable_ok [of 0 limit None undefined a b ?mt merged1 frontier1] by (simp_all add: Let_def)
  moreover have "gathered ?P ?all (om_inserts (take limit ?M) merged1)
    (if length ?M > limit then clip (if take limit ?M = [] then None else Some (fst (last (take limit ?M)))) frontier1 else frontier1)"
    by (rule gather_source [OF t(2)])
      (use sorted True in \<open>auto simp: take_is_prefix\<close>)
  ultimately have G: "gathered ?P ?all merged frontier" by simp
  have flat: "flat ?all k = restricted ?P ?m k" for k
    by (auto simp: flat_def restricted_def store_map_def map_add_def map_of_filter_key mt_get_def mt_iter_def
        split: option.split)
  have L: "map_of (live (filter (\<lambda>(k, v). within frontier k) merged)) k
      = (if within frontier k then restricted ?P ?m k else None)" for k
  proof -
    have "map_of merged k = ?all k" if "?P k" "within frontier k" using G that by (simp add: gathered_def)
    moreover have "map_of merged k = None" if "\<not> ?P k"
    proof -
      have "\<forall>(k, v) \<in> set merged. ?P k" using G by (simp add: gathered_def)
      then show ?thesis using that by (cases "map_of merged k") (auto dest!: map_of_SomeD)
    qed
    ultimately show ?thesis using G flat [of k]
      by (auto simp: map_of_live gathered_def flat_def map_of_filter_key restricted_def)
  qed
  have run: "scan_range_page X a b limit st = Inr (case frontier of
       None \<Rightarrow> \<lparr>p_entries = live merged, p_next_start = None\<rparr>
     | Some f \<Rightarrow> \<lparr>p_entries = live (takeWhile (\<lambda>(k, v). k \<le> f) merged), p_next_start = Some (f @ [0])\<rparr>)"
    using True t(1) mf not_le [of b a] by (simp add: scan_range_page_def)
  show ?thesis
  proof (cases frontier)
    case None
    have "map_of (live merged) = restricted ?P ?m" using L by (simp add: None fun_eq_iff)
    then show ?thesis using run G True by (simp add: None gathered_def)
  next
    case (Some f)
    have sorted_m: "sorted_keys merged" using G by (simp add: gathered_def)
    note cut = takeWhile_le_sorted [OF sorted_m, of f]
    have "map_of (live (takeWhile (\<lambda>(k, v). k \<le> f) merged)) k
        = restricted (\<lambda>k. a \<le> k \<and> k < f @ [0]) ?m k" for k
    proof -
      have "k < b" if "k \<le> f" using that G by (auto simp: gathered_def Some)
      then show ?thesis using L [of k] le_snoc_zero_next [of k f] by (auto simp: cut Some restricted_def)
    qed
    then have "map_of (live (takeWhile (\<lambda>(k, v). k \<le> f) merged)) = restricted (\<lambda>k. a \<le> k \<and> k < f @ [0]) ?m"
      by (rule ext)
    moreover have "sorted_keys (live (takeWhile (\<lambda>(k, v). k \<le> f) merged))"
      using sorted_m by (simp add: cut)
    moreover have f: "a \<le> f" "f < b" "f \<in> dom ?all" using G by (simp_all add: gathered_def Some)
    moreover have "f \<in> dom (layers runs) \<union> dom (mt_get (memtable st))"
      using f(3) by (auto simp: map_of_filter_key mt_get_def mt_iter_def split: if_splits)
    moreover have "a < f @ [0]" using f(1) le_snoc_zero_next by blast
    moreover have "f @ [0] \<le> b" using f(2) le_snoc_zero_next [of b f] not_less not_le by blast
    ultimately show ?thesis using run by (simp add: Some)
  qed
qed

text \<open>
  C6. \<open>Engine::scan_range_page\<close> is exact up to its cursor: a page that ends the scan holds
  every entry of the range; one that returns a cursor holds exactly the entries below it, the
  cursor advances past the start and stays within the range, and it is the successor of a key
  some layer holds. An empty range or a zero limit yields an empty last page.
\<close>

theorem scan_range_page_correct:
  assumes "store_inv X st runs"
  shows "\<exists>p. scan_range_page X a b limit st = Inr p \<and> sorted_keys (p_entries p)
    \<and> (case p_next_start p of
         None \<Rightarrow> map_of (p_entries p)
           = (if limit = 0 then Map.empty else restricted (\<lambda>k. a \<le> k \<and> k < b) (store_map runs (memtable st)))
       | Some n \<Rightarrow> map_of (p_entries p) = restricted (\<lambda>k. a \<le> k \<and> k < n) (store_map runs (memtable st))
           \<and> a < n \<and> n \<le> b
           \<and> (\<exists>f. n = f @ [0] \<and> a \<le> f \<and> f < b \<and> f \<in> dom (layers runs) \<union> dom (mt_get (memtable st))))"
  by (rule scan_range_page_ok [OF assms])

theorem scan_range_page_correct_witness:
  "\<exists>p. scan_range_page toy_externals [1] [9] 1 toy_store = Inr p \<and> sorted_keys (p_entries p)"
  using scan_range_page_correct [OF toy_store_inv, of "[1]" "[9]" 1] by blast

text \<open>
  Following the cursor until there is none, as the protocol of \<open>scan_range_page\<close> says
  (\<open>fuel\<close> bounds the number of pages).
\<close>

fun drain_pages ::
  "externals \<Rightarrow> bytes \<Rightarrow> nat \<Rightarrow> store \<Rightarrow> nat \<Rightarrow> bytes \<Rightarrow> (bytes \<times> bytes) list engine_result option" where
  "drain_pages X end limit st 0 cursor = None"
| "drain_pages X end limit st (Suc fuel) cursor =
     (case scan_range_page X cursor end limit st of
        Inl e \<Rightarrow> Some (Inl e)
      | Inr p \<Rightarrow>
          (case p_next_start p of
             None \<Rightarrow> Some (Inr (p_entries p))
           | Some next \<Rightarrow>
               map_option (\<lambda>r. rbind r (\<lambda>rest. Inr (p_entries p @ rest)))
                 (drain_pages X end limit st fuel next)))"

definition raw_keys :: "store \<Rightarrow> run list \<Rightarrow> bytes set" where
  "raw_keys st runs = dom (layers runs) \<union> dom (mt_get (memtable st))"

lemma finite_layers: "finite (dom (layers runs))"
  by (induction runs rule: layers.induct) (auto simp: finite_dom_map_of)

lemma finite_raw_keys: "finite (raw_keys st runs)"
proof -
  have "mt_get (memtable st) = map_of (mt_entries (memtable st))" by (rule ext) (simp add: mt_get_def)
  then show ?thesis by (simp add: raw_keys_def finite_layers finite_dom_map_of)
qed

lemma restricted_append:
  assumes "sorted_keys es" "sorted_keys es'" "a < n" "n \<le> b"
    and "map_of es = restricted (\<lambda>k. a \<le> k \<and> k < n) m" "map_of es' = restricted (\<lambda>k. n \<le> k \<and> k < b) m"
  shows "sorted_keys (es @ es')" "map_of (es @ es') = restricted (\<lambda>k. a \<le> k \<and> k < (b :: bytes)) m"
proof -
  have "k < n" if "(k, v) \<in> set es" for k v
    using map_of_eq_Some [OF assms(1), of k v] that assms(5) by (auto simp: restricted_def split: if_splits)
  moreover have "n \<le> k" if "(k, v) \<in> set es'" for k v
    using map_of_eq_Some [OF assms(2), of k v] that assms(6) by (auto simp: restricted_def split: if_splits)
  ultimately show "sorted_keys (es @ es')"
    using assms(1,2) by (fastforce simp: sorted_keys_append intro: less_le_trans)
  show "map_of (es @ es') = restricted (\<lambda>k. a \<le> k \<and> k < b) m"
  proof
    fix k
    have "k < n \<or> n \<le> k" "a < n" "n \<le> b" using assms(3,4) by auto
    then show "map_of (es @ es') k = restricted (\<lambda>k. a \<le> k \<and> k < b) m k"
      unfolding map_of_append map_add_def assms(5,6) restricted_def
      by (auto split: option.split dest: leD intro: less_le_trans le_less_trans less_imp_le)
  qed
qed

text \<open>
  C4. Chaining pages terminates and yields the whole range: with any positive limit, and more
  fuel than there are keys in the range (tombstones included), following the cursor returns
  what \<open>scan_range\<close> returns, no entry lost, duplicated or out of order.
\<close>

theorem chained_pages_complete:
  assumes "store_inv X st runs" "0 < limit" "fuel > card {k \<in> raw_keys st runs. a \<le> k \<and> k < b}"
  shows "drain_pages X b limit st fuel a = Some (scan_range X a b st)"
proof -
  have positive: "(limit = 0) = False" using assms(2) by simp
  have "\<exists>es. drain_pages X b limit st fuel a = Some (Inr es) \<and> sorted_keys es
      \<and> map_of es = restricted (\<lambda>k. a \<le> k \<and> k < b) (store_map runs (memtable st))"
    using assms(3)
  proof (induction fuel arbitrary: a)
    case (Suc fuel)
    let ?m = "store_map runs (memtable st)"
    obtain p where p: "scan_range_page X a b limit st = Inr p" "sorted_keys (p_entries p)"
      "case p_next_start p of
         None \<Rightarrow> map_of (p_entries p) = restricted (\<lambda>k. a \<le> k \<and> k < b) ?m
       | Some n \<Rightarrow> map_of (p_entries p) = restricted (\<lambda>k. a \<le> k \<and> k < n) ?m \<and> a < n \<and> n \<le> b
           \<and> (\<exists>f. n = f @ [0] \<and> a \<le> f \<and> f < b \<and> f \<in> raw_keys st runs)"
      using scan_range_page_ok [OF assms(1), of a b limit]
      unfolding raw_keys_def [symmetric] positive if_False by blast
    show ?case
    proof (cases "p_next_start p")
      case None
      then show ?thesis using p by simp
    next
      case (Some n)
      then obtain f where f: "n = f @ [0]" "a \<le> f" "f < b" "f \<in> raw_keys st runs" "a < n" "n \<le> b"
        "map_of (p_entries p) = restricted (\<lambda>k. a \<le> k \<and> k < n) ?m"
        using p(3) by auto
      have "{k \<in> raw_keys st runs. n \<le> k \<and> k < b} \<subset> {k \<in> raw_keys st runs. a \<le> k \<and> k < b}"
        using f le_snoc_zero_next [of f f] by (auto dest: leD intro: less_imp_le less_le_trans)
      then have "card {k \<in> raw_keys st runs. n \<le> k \<and> k < b} < card {k \<in> raw_keys st runs. a \<le> k \<and> k < b}"
        by (intro psubset_card_mono) (simp_all add: finite_raw_keys)
      then have "fuel > card {k \<in> raw_keys st runs. n \<le> k \<and> k < b}" using Suc.prems by simp
      then obtain rest where r: "drain_pages X b limit st fuel n = Some (Inr rest)" "sorted_keys rest"
          "map_of rest = restricted (\<lambda>k. n \<le> k \<and> k < b) ?m"
        using Suc.IH by blast
      show ?thesis using restricted_append [OF p(2) r(2) f(5,6,7) r(3)] p(1) Some r(1) by simp
    qed
  qed simp
  moreover obtain es' where "scan_range X a b st = Inr es'" "sorted_keys es'"
      "map_of es' = restricted (\<lambda>k. a \<le> k \<and> k < b) (store_map runs (memtable st))"
    using scan_range_ok [OF assms(1)] by blast
  ultimately show ?thesis using sorted_keys_unique by metis
qed

theorem chained_pages_complete_witness:
  "drain_pages toy_externals [9] 1 toy_store 1 [1] = Some (scan_range toy_externals [1] [9] toy_store)"
proof (rule chained_pages_complete [OF toy_store_inv])
  show "card {k \<in> raw_keys toy_store []. [1] \<le> k \<and> k < [9]} < 1"
    by (simp add: raw_keys_def toy_store_def)
qed simp

end
