(* ===== verification/Engine_Session.thy ===== *)
theory Engine_Session
  imports Engine_Read
begin

text \<open>
  Whole sessions with the engine: the calls a client makes as a step relation on stores, what
  every reachable store denotes, what a client's reads answer, and what a crash in the middle of a call leaves.
\<close>

subsection \<open>Calls and their meaning\<close>

datatype engine_call = CPut bytes bytes | CDelete bytes | CBatch batch | CFlush | CCompact

fun call_map :: "engine_call \<Rightarrow> (bytes \<rightharpoonup> bytes) \<Rightarrow> bytes \<rightharpoonup> bytes" where
  "call_map (CPut k v) m = m(k \<mapsto> v)"
| "call_map (CDelete k) m = m(k := None)"
| "call_map (CBatch b) m = (if length b > MAX_BATCH_OPS then m else fold apply_kv b m)"
| "call_map CFlush m = m"
| "call_map CCompact m = m"

text \<open>What the client is told: everything succeeds but a batch with too many operations.\<close>

fun call_result :: "engine_call \<Rightarrow> unit engine_result" where
  "call_result (CBatch b) = (if length b > MAX_BATCH_OPS then Inl (WalBatchTooLarge (length b) MAX_BATCH_OPS) else Inr ())"
| "call_result _ = Inr ()"

fun call_size :: "engine_call \<Rightarrow> nat" where
  "call_size (CPut k v) = entry_wire_size (k, Some v)"
| "call_size (CDelete k) = entry_wire_size (k, None)"
| "call_size (CBatch b) = kvs_size b"
| "call_size CFlush = 0"
| "call_size CCompact = 0"

fun run_call ::
  "externals \<Rightarrow> (nat \<Rightarrow> nat \<Rightarrow> bytes) \<Rightarrow> (nat \<Rightarrow> nat \<Rightarrow> bytes) \<Rightarrow> engine_call \<Rightarrow> store \<Rightarrow> unit outcome" where
  "run_call X rnd rnd' (CPut k v) st = engine_put X rnd k v st"
| "run_call X rnd rnd' (CDelete k) st = engine_delete X rnd k st"
| "run_call X rnd rnd' (CBatch b) st = apply_batch X rnd b st"
| "run_call X rnd rnd' CFlush st = engine_flush X rnd st"
| "run_call X rnd rnd' CCompact st = compact_now X rnd rnd' st"

inductive engine_step :: "externals \<Rightarrow> store \<Rightarrow> engine_call \<Rightarrow> store \<Rightarrow> bool" for X where
  step: "run_call X rnd rnd' c st = (r, st') \<Longrightarrow> draws_ok (crypto st) rnd \<Longrightarrow> draws_ok (crypto st) rnd' \<Longrightarrow>
    engine_step X st c st'"

inductive engine_steps :: "externals \<Rightarrow> store \<Rightarrow> engine_call list \<Rightarrow> store \<Rightarrow> bool" for X where
  steps_none: "engine_steps X st [] st"
| steps_more: "engine_steps X st cs st1 \<Longrightarrow> engine_step X st1 c st2 \<Longrightarrow> engine_steps X st (cs @ [c]) st2"

inductive_cases engine_step_cases: "engine_step X st c st'"
inductive_simps engine_steps_empty: "engine_steps X st [] st'"

text \<open>Room for a list of calls.\<close>

definition session_room :: "store \<Rightarrow> run list \<Rightarrow> engine_call list \<Rightarrow> bool" where
  "session_room st runs cs \<longleftrightarrow> store_size st runs + sum_list (map call_size cs) < STORE_LIMIT
     \<and> next_sst_id st + 3 * length cs \<le> 2 ^ 64"

lemma run_call_steps:
  assumes inv: "store_inv X st runs" and m: "store_map runs (memtable st) = m"
    and room: "store_size st runs + call_size c < STORE_LIMIT" "next_sst_id st + 3 \<le> 2 ^ 64"
    and rnd: "draws_ok (crypto st) rnd" "draws_ok (crypto st) rnd'"
  shows "\<exists>st' runs'. run_call X rnd rnd' c st = (call_result c, st') \<and> steps_to X st m st' runs' (call_map c m)
    \<and> store_size st' runs' \<le> store_size st runs + call_size c \<and> next_sst_id st' \<le> next_sst_id st + 3"
proof -
  have roomy: "roomy st runs (call_size c)" "roomy st runs 0" using room by (simp_all add: roomy_def)
  show ?thesis
  proof (cases c)
    case (CPut k v)
    have "roomy st runs (entry_wire_size (k, Some v))" using roomy(1) by (simp add: CPut)
    from engine_put_steps [OF inv this rnd(1) m] show ?thesis by (fastforce simp: CPut)
  next
    case (CDelete k)
    have "roomy st runs (entry_wire_size (k, None))" using roomy(1) by (simp add: CDelete)
    from engine_delete_steps [OF inv this rnd(1) m] show ?thesis by (fastforce simp: CDelete)
  next
    case (CBatch b)
    have "roomy st runs (kvs_size b)" using roomy(1) by (simp add: CBatch)
    note batch = apply_batch_steps [OF inv this rnd(1) m]
    show ?thesis
    proof (cases "length b > MAX_BATCH_OPS")
      case True
      then show ?thesis using batch steps_to_refl [OF inv m]
        by (intro exI [of _ st] exI [of _ runs])
          (simp add: CBatch)
    next
      case False
      then show ?thesis using batch by (fastforce simp: CBatch)
    qed
  next
    case CFlush
    then show ?thesis using engine_flush_steps [OF inv roomy(2) rnd(1) m] by fastforce
  next
    case CCompact
    then show ?thesis using compact_now_steps [OF inv roomy(2) room(2) rnd m] by fastforce
  qed
qed

lemma engine_step_steps:
  assumes "engine_step X st c st'" "store_inv X st runs" "store_map runs (memtable st) = m"
    and "store_size st runs + call_size c < STORE_LIMIT" "next_sst_id st + 3 \<le> 2 ^ 64"
  obtains runs' where "steps_to X st m st' runs' (call_map c m)"
    "store_size st' runs' \<le> store_size st runs + call_size c" "next_sst_id st' \<le> next_sst_id st + 3"
  using assms(1)
proof (rule engine_step_cases)
  fix rnd rnd' r
  assume "run_call X rnd rnd' c st = (r, st')" "draws_ok (crypto st) rnd" "draws_ok (crypto st) rnd'"
  then show thesis using run_call_steps [OF assms(2-5), of rnd rnd'] that by auto
qed

lemma engine_steps_ok:
  assumes "engine_steps X st cs st'" "store_inv X st runs" "store_map runs (memtable st) = m"
    and "session_room st runs cs"
  shows "\<exists>runs'. store_inv X st' runs' \<and> store_map runs' (memtable st') = fold call_map cs m
    \<and> store_size st' runs' \<le> store_size st runs + sum_list (map call_size cs)
    \<and> next_sst_id st' \<le> next_sst_id st + 3 * length cs
    \<and> crypto st' = crypto st \<and> options st' = options st \<and> d_crypto_meta (disk st') = d_crypto_meta (disk st)"
  using assms
proof (induction rule: engine_steps.induct)
  case (steps_none st)
  then show ?case by auto
next
  case (steps_more st cs st1 c st2)
  have "session_room st runs cs" using steps_more.prems(3) by (simp add: session_room_def)
  then obtain runs1 where r1: "store_inv X st1 runs1" "store_map runs1 (memtable st1) = fold call_map cs m"
    "store_size st1 runs1 \<le> store_size st runs + sum_list (map call_size cs)"
    "next_sst_id st1 \<le> next_sst_id st + 3 * length cs"
    "crypto st1 = crypto st" "options st1 = options st" "d_crypto_meta (disk st1) = d_crypto_meta (disk st)"
    using steps_more.IH steps_more.prems(1,2) by blast
  have room: "store_size st1 runs1 + call_size c < STORE_LIMIT" "next_sst_id st1 + 3 \<le> 2 ^ 64"
    using r1(3,4) steps_more.prems(3) by (simp_all add: session_room_def)
  obtain runs2 where r2: "steps_to X st1 (fold call_map cs m) st2 runs2 (call_map c (fold call_map cs m))"
    "store_size st2 runs2 \<le> store_size st1 runs1 + call_size c" "next_sst_id st2 \<le> next_sst_id st1 + 3"
    by (rule engine_step_steps [OF steps_more.hyps(2) r1(1,2) room])
  show ?case using r1 r2 by (intro exI [of _ runs2]) (simp add: steps_to_def)
qed

subsection \<open>Sessions and crashes\<close>

text \<open>
  A client's view of a session: its calls are the writes above and the reads, and it sees their answers.
  \<open>answer_of\<close> is what a finite map answers, and \<open>map_session\<close> the session of a map.
\<close>

datatype client_call = Call engine_call | Get bytes | ScanPrefix bytes | ScanRange bytes bytes

datatype answer = Done "unit engine_result" | Value "bytes option engine_result" | Entries "(bytes \<times> bytes) list engine_result"

fun client_step ::
  "externals \<Rightarrow> (nat \<Rightarrow> nat \<Rightarrow> bytes) \<Rightarrow> (nat \<Rightarrow> nat \<Rightarrow> bytes) \<Rightarrow> client_call \<Rightarrow> store \<Rightarrow> answer \<times> store" where
  "client_step X rnd rnd' (Call c) st = (case run_call X rnd rnd' c st of (r, st') \<Rightarrow> (Done r, st'))"
| "client_step X rnd rnd' (Get k) st = (case engine_get X k st of (r, st') \<Rightarrow> (Value r, st'))"
| "client_step X rnd rnd' (ScanPrefix p) st = (Entries (scan_prefix X p st), st)"
| "client_step X rnd rnd' (ScanRange a b) st = (Entries (scan_range X a b st), st)"

inductive client_session :: "externals \<Rightarrow> store \<Rightarrow> client_call list \<Rightarrow> answer list \<Rightarrow> store \<Rightarrow> bool" for X where
  session_none: "client_session X st [] [] st"
| session_more: "client_step X rnd rnd' c st = (a, st1) \<Longrightarrow> draws_ok (crypto st) rnd \<Longrightarrow> draws_ok (crypto st) rnd' \<Longrightarrow>
    client_session X st1 cs as st2 \<Longrightarrow> client_session X st (c # cs) (a # as) st2"

inductive_simps client_session_empty: "client_session X st [] as st'"
inductive_cases client_session_call: "client_session X st (c # cs) as st'"

text \<open>The entries of a map whose key satisfies \<open>P\<close>, in key order.\<close>

definition entries_of :: "(bytes \<Rightarrow> bool) \<Rightarrow> (bytes \<rightharpoonup> bytes) \<Rightarrow> (bytes \<times> bytes) list" where
  "entries_of P m = map (\<lambda>k. (k, the (m k))) (sorted_list_of_set {k \<in> dom m. P k})"

lemma sorted_keys_entries_of [simp]: "sorted_keys (entries_of P m)"
  by (simp add: sorted_keys_def entries_of_def comp_def)

lemma distinct_entries_of: "distinct (entries_of P m)"
  using sorted_keys_distinct [OF sorted_keys_entries_of] by (simp add: distinct_map)

lemma map_of_entries_of:
  assumes "finite {k \<in> dom m. P k}"
  shows "map_of (entries_of P m) = restricted P m"
proof
  fix k
  have "map_of (map (\<lambda>k. (k, the (m k))) ks) k = (if k \<in> set ks then Some (the (m k)) else None)" for ks
    by (induction ks) auto
  then show "map_of (entries_of P m) k = restricted P m k"
    using assms by (auto simp: entries_of_def restricted_def domIff)
qed

lemma set_entries_of: "finite {k \<in> dom m. P k} \<Longrightarrow> set (entries_of P m) = {(k, v). P k \<and> m k = Some v}"
  by (force simp: entries_of_def)

lemma entries_of_unique:
  assumes "sorted_keys es" "map_of es = restricted P m"
  shows "es = entries_of P m"
proof -
  have "{k \<in> dom m. P k} = dom (map_of es)" by (auto simp: assms(2) restricted_def split: if_splits)
  then have "finite {k \<in> dom m. P k}" by (simp add: finite_dom_map_of)
  then show ?thesis using assms sorted_keys_unique [of es "entries_of P m"] by (simp add: map_of_entries_of)
qed

fun answer_of :: "client_call \<Rightarrow> (bytes \<rightharpoonup> bytes) \<Rightarrow> answer" where
  "answer_of (Call c) m = Done (call_result c)"
| "answer_of (Get k) m = Value (Inr (m k))"
| "answer_of (ScanPrefix p) m = Entries (Inr (entries_of (prefix p) m))"
| "answer_of (ScanRange a b) m = Entries (Inr (entries_of (\<lambda>k. a \<le> k \<and> k < b) m))"

fun client_map :: "client_call \<Rightarrow> (bytes \<rightharpoonup> bytes) \<Rightarrow> bytes \<rightharpoonup> bytes" where
  "client_map (Call c) m = call_map c m"
| "client_map _ m = m"

fun map_session :: "client_call list \<Rightarrow> (bytes \<rightharpoonup> bytes) \<Rightarrow> answer list \<times> (bytes \<rightharpoonup> bytes)" where
  "map_session [] m = ([], m)"
| "map_session (c # cs) m = (case map_session cs (client_map c m) of (as, m') \<Rightarrow> (answer_of c m # as, m'))"

fun client_size :: "client_call \<Rightarrow> nat" where
  "client_size (Call c) = call_size c"
| "client_size _ = 0"

definition client_room :: "store \<Rightarrow> run list \<Rightarrow> client_call list \<Rightarrow> bool" where
  "client_room st runs cs \<longleftrightarrow> store_size st runs + sum_list (map client_size cs) < STORE_LIMIT
     \<and> next_sst_id st + 3 * length cs \<le> 2 ^ 64"

lemma client_step_ok:
  assumes inv: "store_inv X st runs" and m: "store_map runs (memtable st) = m"
    and room: "store_size st runs + client_size c < STORE_LIMIT" "next_sst_id st + 3 \<le> 2 ^ 64"
    and rnd: "draws_ok (crypto st) rnd" "draws_ok (crypto st) rnd'" and step: "client_step X rnd rnd' c st = (a, st')"
  obtains runs' where "a = answer_of c m" "store_inv X st' runs'" "store_map runs' (memtable st') = client_map c m"
    "store_size st' runs' \<le> store_size st runs + client_size c" "next_sst_id st' \<le> next_sst_id st + 3"
proof (cases c)
  case (Call w)
  obtain st1 runs' where "run_call X rnd rnd' w st = (call_result w, st1)" "steps_to X st m st1 runs' (call_map w m)"
    "store_size st1 runs' \<le> store_size st runs + call_size w" "next_sst_id st1 \<le> next_sst_id st + 3"
    using run_call_steps [OF inv m room(1) [unfolded Call client_size.simps] room(2) rnd] by blast
  then show thesis using that [of runs'] step by (auto simp: Call steps_to_def)
next
  case (Get k)
  obtain ca where "engine_get X k st = (Inr (m k), st\<lparr>block_cache := ca\<rparr>)" "store_inv X (st\<lparr>block_cache := ca\<rparr>) runs"
    using engine_get_map [OF inv, of k] m by blast
  then show thesis using that [of runs] step m by (auto simp: Get store_size_def)
next
  case (ScanPrefix p)
  have "scan_prefix X p st = Inr (entries_of (prefix p) m)"
    using scans_ok [OF inv, of p] entries_of_unique m by fastforce
  then show thesis using that [of runs] step m inv by (auto simp: ScanPrefix)
next
  case (ScanRange lo hi)
  have "scan_range X lo hi st = Inr (entries_of (\<lambda>k. lo \<le> k \<and> k < hi) m)"
    using scans_ok [OF inv, of _ lo hi] entries_of_unique m by fastforce
  then show thesis using that [of runs] step m inv by (auto simp: ScanRange)
qed

lemma client_session_ok:
  assumes "client_session X st cs as st'" "store_inv X st runs" "store_map runs (memtable st) = m" "client_room st runs cs"
  shows "\<exists>runs'. store_inv X st' runs' \<and> (as, store_map runs' (memtable st')) = map_session cs m"
  using assms
proof (induction arbitrary: runs m rule: client_session.induct)
  case (session_none st)
  then show ?case by auto
next
  case (session_more rnd rnd' c st a st1 cs as st2)
  have room: "store_size st runs + client_size c < STORE_LIMIT" "next_sst_id st + 3 \<le> 2 ^ 64"
    using session_more.prems(3) by (simp_all add: client_room_def)
  obtain runs1 where r: "a = answer_of c m" "store_inv X st1 runs1" "store_map runs1 (memtable st1) = client_map c m"
    "store_size st1 runs1 \<le> store_size st runs + client_size c" "next_sst_id st1 \<le> next_sst_id st + 3"
    by (rule client_step_ok [OF session_more.prems(1,2) room session_more.hyps(2,3,1)])
  have "client_room st1 runs1 cs" using r(4,5) session_more.prems(3) by (simp add: client_room_def)
  then obtain runs2 where "store_inv X st2 runs2" "(as, store_map runs2 (memtable st2)) = map_session cs (client_map c m)"
    using session_more.IH [OF r(2,3)] by blast
  then show ?case using r(1) by (intro exI [of _ runs2]) (auto split: prod.split dest: sym)
qed

text \<open>
  C2. Every session refines the finite map: whatever sequence of puts, deletes, batches, flushes,
  compactions, lookups, prefix scans and range scans a client makes (with whatever automatic flushes and
  compactions they trigger), every answer it sees is the answer the map gives at that point, an oversized
  batch being refused, and the store then satisfies its invariant and denotes the map the calls produce.
\<close>

theorem session_refines_map:
  assumes "client_session X st cs as st'" "store_inv X st runs" "store_map runs (memtable st) = m"
    and "client_room st runs cs"
  shows "as = fst (map_session cs m) \<and> (\<exists>runs'. store_inv X st' runs' \<and> store_map runs' (memtable st') = snd (map_session cs m))"
  using client_session_ok [OF assms] by (metis fst_conv snd_conv)

text \<open>
  C1. Durability and atomicity across a crash: if a session has completed the calls \<open>cs\<close> and
  the process stops at any point of the next call \<open>c\<close> (between two file operations, or inside
  a log append), the directory opens with the store's key, to a store that satisfies the
  invariant and denotes the map after \<open>cs\<close> or the map after \<open>cs\<close> and \<open>c\<close>.
\<close>

theorem session_crash_recovery:
  assumes "engine_steps X st cs st1" "engine_step X st1 c st2"
    and "store_inv X st runs" "store_map runs (memtable st) = m" "session_room st runs (cs @ [c])"
    and "trace st2 = trace st1 @ fs" "d \<in> crash_states (disk st1) fs"
    and "opens_with X (d_crypto_meta (disk st)) key (crypto st)" "block_size opts \<noteq> 0"
  shows "\<exists>st' runs'. engine_open X opts key fresh d = Inr st' \<and> store_inv X st' runs'
    \<and> store_map runs' (memtable st') \<in> {fold call_map cs m, fold call_map (cs @ [c]) m}"
proof -
  have "session_room st runs cs" using assms(5) by (simp add: session_room_def)
  from engine_steps_ok [OF assms(1,3,4) this]
  obtain runs1 where r1: "store_inv X st1 runs1" "store_map runs1 (memtable st1) = fold call_map cs m"
    "store_size st1 runs1 \<le> store_size st runs + sum_list (map call_size cs)"
    "next_sst_id st1 \<le> next_sst_id st + 3 * length cs"
    "crypto st1 = crypto st" "d_crypto_meta (disk st1) = d_crypto_meta (disk st)" by blast
  have room: "store_size st1 runs1 + call_size c < STORE_LIMIT" "next_sst_id st1 + 3 \<le> 2 ^ 64"
    using r1(3,4) assms(5) by (simp_all add: session_room_def)
  obtain runs2 where "steps_to X st1 (fold call_map cs m) st2 runs2 (call_map c (fold call_map cs m))"
    by (rule engine_step_steps [OF assms(2) r1(1,2) room])
  then obtain m' where m': "m' \<in> {fold call_map cs m, call_map c (fold call_map cs m)}"
    "recoverable X (crypto st1) (d_crypto_meta (disk st1)) d m'"
    using assms(6,7) by (auto simp: steps_to_def recovers_to_def)
  have "mode_ok X (crypto st1)" using r1(1) by (simp add: store_inv_iff)
  from recoverable_opens [OF m'(2) _ this assms(9), of key fresh] show ?thesis
    using m'(1) assms(8) r1(5,6) by auto
qed

subsection \<open>A session to apply them to\<close>

lemma engine_step_toy: "\<exists>st'. engine_step X st c st'"
  by (metis engine_step.intros prod.collapse toy_draws)

lemma client_session_toy: "\<exists>as st'. client_session X st cs as st'"
proof (induction cs arbitrary: st)
  case (Cons c cs)
  obtain a st1 where "client_step X toy_rnd toy_rnd c st = (a, st1)" by (cases "client_step X toy_rnd toy_rnd c st")
  then show ?case using Cons [of st1] session_more [OF _ toy_draws toy_draws] by blast
qed (auto intro: session_none)

lemma toy_session_room: "sum_list (map call_size cs) < 2 ^ 20 \<Longrightarrow> length cs < 1000 \<Longrightarrow> session_room toy_store [] cs"
  using toy_roomy [of "sum_list (map call_size cs)"] by (simp add: session_room_def roomy_def)

theorem session_refines_map_witness:
  "\<exists>st'. client_session toy_externals toy_store [Call (CPut [1] [2]), Call (CBatch [([3], Some [4]), ([1], None)]), Call CCompact, Get [3], Get [1], ScanPrefix []]
     [Done (Inr ()), Done (Inr ()), Done (Inr ()), Value (Inr (Some [4])), Value (Inr None), Entries (Inr [([3], [4])])] st'"
proof -
  let ?cs = "[Call (CPut [1] [2]), Call (CBatch [([3], Some [4]), ([1], None)]), Call CCompact, Get [3], Get [1], ScanPrefix []]"
  obtain as st' where s: "client_session toy_externals toy_store ?cs as st'" using client_session_toy by blast
  have room: "client_room toy_store [] ?cs"
    using toy_roomy [of "sum_list (map client_size ?cs)"] by (simp add: client_room_def roomy_def entry_wire_size_def)
  have m: "fold apply_kv [([3], Some [4]), ([1], None)] [[1] \<mapsto> [2]] = [[3] \<mapsto> [4]]" by (auto simp: apply_kv_def fun_eq_iff)
  have "{k \<in> dom [[3 :: u8] \<mapsto> [4 :: u8]]. prefix [] k} = {[3]}" by auto
  then have "entries_of (prefix []) [[3] \<mapsto> [4]] = [([3], [4])]" by (simp add: entries_of_def)
  then have "fst (map_session ?cs Map.empty) = [Done (Inr ()), Done (Inr ()), Done (Inr ()), Value (Inr (Some [4])), Value (Inr None), Entries (Inr [([3], [4])])]"
    using m by (simp add: MAX_BATCH_OPS_def)
  with session_refines_map [OF s toy_store_inv toy_store_map room] s show ?thesis by auto
qed

theorem session_crash_recovery_witness:
  "\<exists>st1 st2 st'. engine_steps toy_externals toy_store [CPut [1] [2]] st1
     \<and> engine_step toy_externals st1 (CDelete [1]) st2
     \<and> engine_open toy_externals default_options (Some [1]) ([], [], []) (disk st2) = Inr st'"
proof -
  let ?cs = "[CPut [1] [2]] @ [CDelete [1]]"
  obtain st1 st2 where s: "engine_step toy_externals toy_store (CPut [1] [2]) st1"
    "engine_step toy_externals st1 (CDelete [1]) st2"
    using engine_step_toy by meson
  have steps: "engine_steps toy_externals toy_store [CPut [1] [2]] st1"
    using steps_more [OF steps_none s(1)] by simp
  have room: "session_room toy_store [] ?cs" "session_room toy_store [] [CPut [1] [2]]"
    by (rule toy_session_room; simp add: entry_wire_size_def)+
  obtain runs1 where r: "store_inv toy_externals st1 runs1"
    "store_map runs1 (memtable st1) = fold call_map [CPut [1] [2]] Map.empty"
    "store_size st1 runs1 \<le> store_size toy_store [] + call_size (CPut [1] [2])" "next_sst_id st1 \<le> 3"
    using engine_steps_ok [OF steps toy_store_inv toy_store_map room(2)] by auto
  have r1: "store_size st1 runs1 + call_size (CDelete [1]) < STORE_LIMIT" "next_sst_id st1 + 3 \<le> 2 ^ 64"
    using r(3,4) room(1) by (simp_all add: session_room_def)
  obtain runs2 m2 where "steps_to toy_externals st1 (fold call_map [CPut [1] [2]] Map.empty) st2 runs2 m2"
    by (rule engine_step_steps [OF s(2) r(1,2) r1])
  then obtain fs where fs: "trace st2 = trace st1 @ fs" "disk st2 = fold apply_disk_op fs (disk st1)"
    by (auto simp: steps_to_def)
  have bs: "block_size default_options \<noteq> 0" by (simp add: default_options_def)
  have key: "opens_with toy_externals (d_crypto_meta (disk toy_store)) (Some [1]) (crypto toy_store)"
    using toy_opens by simp
  have "disk st2 \<in> crash_states (disk st1) fs" using fs(2) crash_states_last by simp
  from session_crash_recovery [OF steps s(2) toy_store_inv toy_store_map room(1) fs(1) this key bs, of "([], [], [])"]
  show ?thesis using steps s(2) by blast
qed

end
