(* ===== verification/Engine_Access.thy ===== *)
theory Engine_Access
  imports Engine_Session
begin

text \<open>
  Who may open a directory: the first open of an empty one in either mode (also after a crash
  in the middle of it), the refusals of \<open>Engine::open\<close>, and the rotation of the user key.
\<close>

subsection \<open>First opens\<close>

definition empty_dir :: disk where
  "empty_dir = \<lparr>d_store_meta = None, d_crypto_meta = None, d_wal = None, d_ssts = []\<rparr>"

lemma store_inv_trace [simp]: "store_inv X (st\<lparr>trace := fs\<rparr>) runs = store_inv X st runs"
  by (simp add: store_inv_def)

text \<open>Opening with file operations on the way is opening the directory they leave.\<close>

lemma engine_open_after:
  assumes "check_or_create_store_meta d0 = Inr ops1" "d1 = fold apply_disk_op ops1 d0"
    and "open_crypto X d1 key fresh = Inr (cr, ops2)" "d2 = fold apply_disk_op ops2 d1"
    and "check_or_create_store_meta d2 = Inr []" "open_crypto X d2 key fresh = Inr (cr, [])"
    and "engine_open X opts key fresh d2 = Inr st"
  shows "engine_open X opts key fresh d0 = Inr (st\<lparr>trace := ops1 @ ops2 @ trace st\<rparr>)"
proof -
  show ?thesis
    using assms(7) unfolding engine_open_stages assms(1,5) rbind.simps Let_def fold_simps id_apply assms(6)
      assms(2) [symmetric] assms(3) split_beta fst_conv snd_conv assms(4) [symmetric]
    by (cases "scan_existing X (d_ssts d2) cr"; cases "wal_replay X cr (wal_contents (apply_disk_op WalCreate d2))")
      auto
qed

text \<open>An empty store on the way to being opened with a key, or without one.\<close>

definition blank_dir :: "externals \<Rightarrow> bytes option \<Rightarrow> disk \<Rightarrow> bool" where
  "blank_dir X key d \<longleftrightarrow> d_ssts d = [] \<and> d_wal d \<in> {None, Some []}
     \<and> (d_store_meta d = Some store_meta_bytes \<or> d_store_meta d = None \<and> d_wal d = None)
     \<and> (case key of
          None \<Rightarrow> d_crypto_meta d = None
        | Some k \<Rightarrow> externals_ok X \<and> (case d_crypto_meta d of
              None \<Rightarrow> d_wal d = None
            | Some cm \<Rightarrow> \<exists>ctx. load_meta X (Some cm) k = Inr ctx))"

definition fresh_ok :: "bytes \<times> bytes \<times> bytes \<Rightarrow> bool" where
  "fresh_ok = (\<lambda>(dek, salt, nonce). length dek = KEY_LEN \<and> length salt = SALT_LEN \<and> length nonce = NONCE_LEN)"

lemma apply_meta_ops [simp]:
  "apply_disk_op (StoreMetaPublish b) d = d\<lparr>d_store_meta := Some b\<rparr>"
  "apply_disk_op (CryptoMetaPublish b) d = d\<lparr>d_crypto_meta := Some b\<rparr>"
  by (simp_all add: apply_disk_op.simps)

lemma open_blank_dir:
  assumes blank: "blank_dir X key d" and fresh: "key \<noteq> None \<longrightarrow> fresh_ok fresh" and bs: "block_size opts \<noteq> 0"
  obtains st where "engine_open X opts key fresh d = Inr st" "store_inv X st []"
    "memtable st = mt_new" "opens_with X (d_crypto_meta (disk st)) key (crypto st)"
    "is_encrypted st \<longleftrightarrow> key \<noteq> None" "\<forall>d' \<in> crash_states d (trace st). blank_dir X key d'"
proof -
  define ops1 where "ops1 = (if d_store_meta d = None then [StoreMetaPublish store_meta_bytes] else [])"
  define d1 where "d1 = fold apply_disk_op ops1 d"
  have c1: "check_or_create_store_meta d = Inr ops1"
    using blank check_store_meta_ok [of d]
    by (auto simp: blank_dir_def ops1_def check_or_create_store_meta_def sst_files_present_def store_meta_bytes_def)
  have d1: "d_store_meta d1 = Some store_meta_bytes" "d_crypto_meta d1 = d_crypto_meta d" "d_wal d1 = d_wal d"
    "d_ssts d1 = []" "blank_dir X key d1"
    using blank by (auto simp: d1_def ops1_def blank_dir_def split: option.splits)
  obtain cr ops2 where c2: "open_crypto X d1 key fresh = Inr (cr, ops2)" "mode_ok X cr" "cr \<noteq> None \<longleftrightarrow> key \<noteq> None"
    and d2: "opens_with X (d_crypto_meta (fold apply_disk_op ops2 d1)) key cr"
      "d_store_meta (fold apply_disk_op ops2 d1) = Some store_meta_bytes"
      "d_wal (fold apply_disk_op ops2 d1) = d_wal d" "d_ssts (fold apply_disk_op ops2 d1) = []"
      "blank_dir X key (fold apply_disk_op ops2 d1)" "ops2 = [] \<or> (\<exists>b. ops2 = [CryptoMetaPublish b])"
  proof (cases key)
    case None
    then show ?thesis using that [of None "[]"] d1 blank
      by (auto simp: open_crypto_def opens_with_def mode_ok_def blank_dir_def)
  next
    case (Some k)
    then have X: "externals_ok X" using blank by (simp add: blank_dir_def)
    show ?thesis
    proof (cases "d_crypto_meta d")
      case (Some cm)
      then obtain ctx where "load_meta X (Some cm) k = Inr ctx"
        using blank \<open>key = Some k\<close> by (auto simp: blank_dir_def)
      then show ?thesis using that [of "Some ctx" "[]"] d1 X Some \<open>key = Some k\<close> load_meta_InrD [of X "Some cm" k ctx]
        by (auto simp: open_crypto_def opens_with_def mode_ok_def)
    next
      case None
      obtain dek salt nonce where f: "fresh = (dek, salt, nonce)" by (cases fresh)
      then have lens: "context_ok \<lparr>cc_dek = dek\<rparr>" "length salt = SALT_LEN" "length nonce = NONCE_LEN"
        using fresh \<open>key = Some k\<close> by (simp_all add: fresh_ok_def context_ok_def)
      obtain fl where w: "write_meta X k \<lparr>cc_dek = dek\<rparr> salt nonce = Inr fl"
        "load_meta X (Some fl) k = Inr \<lparr>cc_dek = dek\<rparr>"
        by (rule write_meta_ok [OF X lens, of k])
      have "d_wal d = None" using blank None \<open>key = Some k\<close> by (simp add: blank_dir_def)
      then show ?thesis using that [of "Some \<lparr>cc_dek = dek\<rparr>" "[CryptoMetaPublish fl]"] w d1 X None \<open>key = Some k\<close> f lens
        by (auto simp: open_crypto_def create_meta_def opens_with_def mode_ok_def sst_files_present_def blank_dir_def)
    qed
  qed
  define d2' where "d2' = fold apply_disk_op ops2 d1"
  note d2 = d2 [folded d2'_def]
  have rep: "disk_rep X cr d2' [] []"
    using d2(2-5) by (auto simp: disk_rep_def dir_rep_def wal_contents_def wal_torn_def blank_dir_def
        intro!: exI [of _ "[]"])
  have wal: "wal_contents d2' = []" using d2(5) by (auto simp: blank_dir_def wal_contents_def)
  obtain st where st: "engine_open X opts key fresh d2' = Inr st" "store_inv X st []" "memtable st = mt_new"
      "crypto st = cr" "d_crypto_meta (disk st) = d_crypto_meta d2'" "trace st = [WalCreate]"
    using engine_open_ok [OF rep d2(1) c2(2) bs, of fresh] wal by (metis fold_simps(1))
  have open_d: "engine_open X opts key fresh d = Inr (st\<lparr>trace := ops1 @ ops2 @ trace st\<rparr>)"
    by (rule engine_open_after [OF c1 d1_def c2(1) d2'_def _ _ st(1)])
      (use d2(1,2) opens_with_crypto check_store_meta_ok in auto)
  have "blank_dir X key (apply_disk_op WalCreate d2')"
    using d2 by (auto simp: blank_dir_def apply_disk_op.simps wal_contents_def opens_with_def split: option.splits)
  then have "\<forall>d' \<in> crash_states d (ops1 @ ops2 @ [WalCreate]). blank_dir X key d'"
    using blank d1(5) d2(5,6) by (auto simp: crash_states_append d1_def d2'_def ops1_def)
  then show ?thesis using that [OF open_d] st d2(1) c2(3) by (simp add: is_encrypted_def)
qed

text \<open>
  The first open of an empty directory succeeds and yields an empty store in the mode
  the key asks for; a crash anywhere in it leaves a directory whose next open with the same
  key succeeds with an empty store again.
\<close>

theorem first_open_empty:
  assumes "key \<noteq> None \<longrightarrow> externals_ok X \<and> fresh_ok fresh \<and> fresh_ok fresh'" "block_size opts \<noteq> 0"
  shows "\<exists>st. engine_open X opts key fresh empty_dir = Inr st \<and> store_inv X st []
    \<and> store_map [] (memtable st) = Map.empty \<and> (is_encrypted st \<longleftrightarrow> key \<noteq> None)
    \<and> opens_with X (d_crypto_meta (disk st)) key (crypto st)
    \<and> (\<forall>d \<in> crash_states empty_dir (trace st). \<exists>st'. engine_open X opts key fresh' d = Inr st'
         \<and> store_inv X st' [] \<and> store_map [] (memtable st') = Map.empty)"
proof -
  have blank: "blank_dir X key empty_dir"
    using assms(1) by (auto simp: blank_dir_def empty_dir_def split: option.split)
  have fresh: "key \<noteq> None \<longrightarrow> fresh_ok fresh" "key \<noteq> None \<longrightarrow> fresh_ok fresh'" using assms(1) by auto
  have empty: "store_map [] mt_new = Map.empty" by (simp add: store_map_def)
  obtain st where st: "engine_open X opts key fresh empty_dir = Inr st" "store_inv X st []" "memtable st = mt_new"
    "opens_with X (d_crypto_meta (disk st)) key (crypto st)" "is_encrypted st \<longleftrightarrow> key \<noteq> None"
    "\<forall>d' \<in> crash_states empty_dir (trace st). blank_dir X key d'"
    by (rule open_blank_dir [OF blank fresh(1) assms(2)])
  have "\<exists>st'. engine_open X opts key fresh' d = Inr st' \<and> store_inv X st' [] \<and> store_map [] (memtable st') = Map.empty"
    if "d \<in> crash_states empty_dir (trace st)" for d
    by (rule open_blank_dir [OF bspec [OF st(6) that] fresh(2) assms(2)]) (use empty in auto)
  then show ?thesis using st empty by auto
qed

theorem first_open_empty_witness:
  "\<exists>st. engine_open toy_externals default_options (Some [1, 2])
        (replicate KEY_LEN 1, replicate SALT_LEN 2, replicate NONCE_LEN 3) empty_dir = Inr st
     \<and> is_encrypted st \<and> store_map [] (memtable st) = Map.empty"
  using first_open_empty [of "Some [1, 2]" toy_externals
      "(replicate KEY_LEN 1, replicate SALT_LEN 2, replicate NONCE_LEN 3)"
      "(replicate KEY_LEN 1, replicate SALT_LEN 2, replicate NONCE_LEN 3)" default_options]
  by (auto simp: fresh_ok_def default_options_def)

subsection \<open>Refusals\<close>

lemma open_refused:
  "check_or_create_store_meta d = Inl e \<Longrightarrow> engine_open_io X opts key fresh d = (Inl e, [])"
  "check_or_create_store_meta d = Inr [] \<Longrightarrow> open_crypto X d key fresh = Inl e \<Longrightarrow> engine_open_io X opts key fresh d = (Inl e, [])"
  by (simp_all add: engine_open_io_def Let_def)

lemma open_wrong_key:
  assumes "d_store_meta d = Some store_meta_bytes" "d_crypto_meta d = Some meta" "write_meta X owner_key ctx salt nonce = Inr meta"
    and "externals_ok X" "context_ok ctx" "length salt = SALT_LEN" "length nonce = NONCE_LEN" "user_keys_apart X owner_key k"
  shows "engine_open_io X opts (Some k) fresh d = (Inl WrongEncryptionKey, [])"
  using open_refused(2) [OF check_store_meta_ok [OF assms(1)]] load_meta_other_key [OF assms(4-7,3,8)] assms(2)
  by (simp add: open_crypto_def)

text \<open>
  C34. What \<open>Engine::open\<close> refuses, in the order of its checks: a directory with data but no
  \<open>store.meta\<close>, another store generation, an unreadable \<open>store.meta\<close>, an encrypted store without a key, a key for a
  plaintext store, an unreadable \<open>crypto.meta\<close>, and a key other than the one the store was written with
  (where the cipher is authentic for the two keys). It answers each with its own error and performs no
  file operation, so the directory stays as it is.
\<close>

theorem open_refusals:
  "(d_store_meta d = None \<and> (d_wal d \<noteq> None \<or> d_ssts d \<noteq> []) \<longrightarrow>
      engine_open_io X opts key fresh d = (Inl (UnsupportedStoreFormat STORE_FORMAT_VERSION 0), []))
   \<and> (\<forall>v. d_store_meta d = Some (encode_store_meta \<lparr>store_format_version = v\<rparr>) \<and> v \<noteq> STORE_FORMAT_VERSION \<longrightarrow>
      engine_open_io X opts key fresh d = (Inl (UnsupportedStoreFormat STORE_FORMAT_VERSION v), []))
   \<and> (\<forall>buf e. d_store_meta d = Some buf \<and> decode_store_meta buf = Inl e \<longrightarrow>
      engine_open_io X opts key fresh d = (Inl e, []))
   \<and> (d_store_meta d = Some store_meta_bytes \<longrightarrow>
        (d_crypto_meta d \<noteq> None \<and> key = None \<longrightarrow>
           engine_open_io X opts key fresh d = (Inl MissingEncryptionKey, []))
      \<and> (d_crypto_meta d = None \<and> key \<noteq> None \<and> (d_wal d \<noteq> None \<or> d_ssts d \<noteq> []) \<longrightarrow>
           engine_open_io X opts key fresh d = (Inl PlaintextStoreKeySupplied, []))
      \<and> (\<forall>meta e. d_crypto_meta d = Some meta \<and> key \<noteq> None \<and> decode_crypto_meta meta = Inl e \<longrightarrow>
           engine_open_io X opts key fresh d = (Inl e, []))
      \<and> (\<forall>meta k owner_key ctx salt nonce. d_crypto_meta d = Some meta \<and> key = Some k
           \<and> externals_ok X \<and> context_ok ctx \<and> length salt = SALT_LEN \<and> length nonce = NONCE_LEN
           \<and> write_meta X owner_key ctx salt nonce = Inr meta \<and> user_keys_apart X owner_key k \<longrightarrow>
           engine_open_io X opts key fresh d = (Inl WrongEncryptionKey, [])))"
proof -
  let ?open = "engine_open_io X opts key fresh d"
  note meta = check_store_meta_ok [of d] and check = check_or_create_store_meta_def [of d]
  have "d_store_meta d = None \<Longrightarrow> d_wal d \<noteq> None \<or> d_ssts d \<noteq> [] \<Longrightarrow> ?open = (Inl (UnsupportedStoreFormat STORE_FORMAT_VERSION 0), [])"
    by (rule open_refused(1)) (simp add: check sst_files_present_def)
  moreover have "d_store_meta d = Some (encode_store_meta \<lparr>store_format_version = v\<rparr>) \<Longrightarrow> v \<noteq> STORE_FORMAT_VERSION \<Longrightarrow>
      ?open = (Inl (UnsupportedStoreFormat STORE_FORMAT_VERSION v), [])" for v
    by (rule open_refused(1)) (simp add: check decode_encode_store_meta)
  moreover have "d_store_meta d = Some buf \<Longrightarrow> decode_store_meta buf = Inl e \<Longrightarrow> ?open = (Inl e, [])" for buf e
    by (rule open_refused(1)) (simp add: check)
  moreover have "d_store_meta d = Some store_meta_bytes \<Longrightarrow> d_crypto_meta d \<noteq> None \<Longrightarrow> key = None \<Longrightarrow> ?open = (Inl MissingEncryptionKey, [])"
    by (rule open_refused(2) [OF meta]) (auto simp: open_crypto_def)
  moreover have "d_store_meta d = Some store_meta_bytes \<Longrightarrow> d_crypto_meta d = None \<Longrightarrow> key \<noteq> None \<Longrightarrow> d_wal d \<noteq> None \<or> d_ssts d \<noteq> [] \<Longrightarrow>
      ?open = (Inl PlaintextStoreKeySupplied, [])"
    by (rule open_refused(2) [OF meta]) (auto simp: open_crypto_def sst_files_present_def)
  moreover have "d_store_meta d = Some store_meta_bytes \<Longrightarrow> d_crypto_meta d = Some cm \<Longrightarrow> key \<noteq> None \<Longrightarrow> decode_crypto_meta cm = Inl e \<Longrightarrow>
      ?open = (Inl e, [])" for cm e
    by (rule open_refused(2) [OF meta]) (auto simp: open_crypto_def load_meta_def)
  moreover have "d_store_meta d = Some store_meta_bytes \<Longrightarrow> d_crypto_meta d = Some cm \<Longrightarrow> key = Some k \<Longrightarrow> externals_ok X \<Longrightarrow> context_ok ctx \<Longrightarrow>
      length salt = SALT_LEN \<Longrightarrow> length nonce = NONCE_LEN \<Longrightarrow> write_meta X owner_key ctx salt nonce = Inr cm \<Longrightarrow> user_keys_apart X owner_key k \<Longrightarrow>
      ?open = (Inl WrongEncryptionKey, [])" for cm k owner_key ctx salt nonce
    using open_wrong_key [of d cm] by simp
  ultimately show ?thesis by blast
qed

lemma toy_user_keys_apart: "32 * sum_list u \<noteq> (32 * sum_list u' :: u8) \<Longrightarrow> user_keys_apart toy_externals u u'"
  unfolding user_keys_apart_def
  by (intro allI toy_seals_apart) (simp add: derive_kek_def toy_externals_def KEY_LEN_def sum_list_replicate distrib_left)

text \<open>The metadata a store with the key \<open>[1]\<close> has.\<close>

lemma toy_meta_written: "write_meta toy_externals [1] toy_ctx (replicate SALT_LEN 4) (replicate NONCE_LEN 5) = Inr toy_meta"
  "externals_ok toy_externals" "context_ok toy_ctx"
proof -
  show ok: "externals_ok toy_externals" "context_ok toy_ctx" using toy_mode(1) by (simp_all add: mode_ok_def)
  obtain fl where "write_meta toy_externals [1] toy_ctx (replicate SALT_LEN 4) (replicate NONCE_LEN 5) = Inr fl"
    by (rule write_meta_ok [OF ok, of "replicate SALT_LEN 4" "replicate NONCE_LEN 5" "[1]"]) simp_all
  then show "write_meta toy_externals [1] toy_ctx (replicate SALT_LEN 4) (replicate NONCE_LEN 5) = Inr toy_meta" by (simp add: toy_meta_def)
qed

theorem open_refusals_witness:
  "engine_open_io toy_externals default_options (Some [1]) ([], [], [])
     \<lparr>d_store_meta = Some store_meta_bytes, d_crypto_meta = None, d_wal = Some [], d_ssts = []\<rparr>
       = (Inl PlaintextStoreKeySupplied, [])
   \<and> engine_open_io toy_externals default_options (Some [8, 8]) ([], [], []) (disk toy_store) = (Inl WrongEncryptionKey, [])"
proof
  show "engine_open_io toy_externals default_options (Some [1]) ([], [], [])
     \<lparr>d_store_meta = Some store_meta_bytes, d_crypto_meta = None, d_wal = Some [], d_ssts = []\<rparr>
       = (Inl PlaintextStoreKeySupplied, [])"
    using open_refusals [of "\<lparr>d_store_meta = Some store_meta_bytes, d_crypto_meta = None, d_wal = Some [], d_ssts = []\<rparr>"
      toy_externals default_options "Some [1]" "([], [], [])"] by auto
  have "user_keys_apart toy_externals [1] [8, 8]" by (rule toy_user_keys_apart) simp
  moreover have "d_store_meta (disk toy_store) = Some store_meta_bytes" by (simp add: toy_store_def)
  ultimately show "engine_open_io toy_externals default_options (Some [8, 8]) ([], [], []) (disk toy_store) = (Inl WrongEncryptionKey, [])"
    using open_refusals [of "disk toy_store" toy_externals default_options "Some [8, 8]" "([], [], [])"] toy_meta_written
    by (metis length_replicate toy_fields(2))
qed

subsection \<open>Rotation of the user key\<close>

lemma store_inv_crypto_meta:
  "store_inv X (emit (CryptoMetaPublish meta) st) runs = store_inv X st runs"
  by (simp add: store_inv_def emit_def wal_contents_def)

text \<open>
  C35. \<open>Engine::rotate_key\<close> on an encrypted store replaces \<open>crypto.meta\<close> and nothing else: the
  open store stays usable, the new key opens the directory to the same content, every other key for
  which the cipher is authentic is refused from then on, the old one too, and after a
  crash in the middle the old key or the new one opens it. A plaintext store is refused and left
  as it is.
\<close>

theorem rotate_key_correct:
  assumes "store_inv X st runs" "length salt = SALT_LEN" "length nonce = NONCE_LEN" "block_size opts \<noteq> 0"
  shows "case crypto st of
      None \<Rightarrow> rotate_key X new_key salt nonce st = (Inl NotEncrypted, st)
    | Some ctx \<Rightarrow> \<exists>st' meta. rotate_key X new_key salt nonce st = (Inr (), st') \<and> store_inv X st' runs
        \<and> st' = emit (CryptoMetaPublish meta) st
        \<and> (\<exists>st'' runs''. engine_open X opts (Some new_key) fresh (disk st') = Inr st'' \<and> store_inv X st'' runs''
             \<and> store_map runs'' (memtable st'') = store_map runs (memtable st))
        \<and> (\<forall>other_key. user_keys_apart X new_key other_key \<longrightarrow>
             engine_open_io X opts (Some other_key) fresh (disk st') = (Inl WrongEncryptionKey, []))
        \<and> (\<forall>old_key. opens_with X (d_crypto_meta (disk st)) (Some old_key) (crypto st) \<longrightarrow>
             (\<forall>d \<in> crash_states (disk st) [CryptoMetaPublish meta].
                \<exists>k \<in> {old_key, new_key}. \<exists>st'' runs''. engine_open X opts (Some k) fresh d = Inr st''
                  \<and> store_map runs'' (memtable st'') = store_map runs (memtable st)))"
proof (cases "crypto st")
  case None
  then show ?thesis by (simp add: rotate_key_def)
next
  case (Some ctx)
  have mode: "mode_ok X (crypto st)" using assms(1) by (simp add: store_inv_iff)
  then have X: "externals_ok X" "context_ok ctx" by (simp_all add: Some mode_ok_def)
  obtain fl where w: "write_meta X new_key ctx salt nonce = Inr fl" "load_meta X (Some fl) new_key = Inr ctx"
    by (rule write_meta_ok [OF X assms(2,3), of new_key])
  define st' where "st' = emit (CryptoMetaPublish fl) st"
  have inv': "store_inv X st' runs" using assms(1) by (simp add: st'_def store_inv_crypto_meta)
  have st': "memtable st' = memtable st" "crypto st' = crypto st"
    "disk st' = apply_disk_op (CryptoMetaPublish fl) (disk st)"
    by (simp_all add: st'_def emit_def)
  have new: "opens_with X (d_crypto_meta (disk st')) (Some new_key) (crypto st')"
    using w(2) by (simp add: st' opens_with_def Some)
  note open_new = recoverable_opens [OF store_inv_recoverable [OF inv'] new _ assms(4), of fresh, unfolded st'(1,2)]
    and open_old = recoverable_opens [OF store_inv_recoverable [OF assms(1)] _ mode assms(4), of _ fresh]
  have "rotate_key X new_key salt nonce st = (Inr (), st')" by (simp add: rotate_key_def Some w(1) st'_def)
  moreover have "\<exists>k \<in> {old_key, new_key}. \<exists>st'' runs''. engine_open X opts (Some k) fresh d = Inr st''
      \<and> store_map runs'' (memtable st'') = store_map runs (memtable st)"
    if "opens_with X (d_crypto_meta (disk st)) (Some old_key) (crypto st)"
      "d \<in> crash_states (disk st) [CryptoMetaPublish fl]" for old_key d
  proof -
    have "d = disk st \<or> d = disk st'" using that(2) st'(3) by auto
    then show ?thesis using open_new [OF mode] open_old [OF that(1)] by blast
  qed
  moreover have "engine_open_io X opts (Some other_key) fresh (disk st') = (Inl WrongEncryptionKey, [])"
    if "user_keys_apart X new_key other_key" for other_key
  proof (rule open_wrong_key [OF _ _ w(1) X assms(2,3) that])
    show "d_store_meta (disk st') = Some store_meta_bytes" using inv' by (simp add: store_inv_def disk_rep_def)
  qed (simp add: st'(3))
  ultimately show ?thesis using inv' open_new [OF mode] st'_def unfolding Some option.case by blast
qed

theorem rotate_key_correct_witness:
  "\<exists>st' st''. rotate_key toy_externals [8, 8] (replicate SALT_LEN 1) (replicate NONCE_LEN 2) toy_store = (Inr (), st')
     \<and> store_inv toy_externals st' [] \<and> engine_open toy_externals default_options (Some [8, 8]) ([], [], []) (disk st') = Inr st''
     \<and> engine_open_io toy_externals default_options (Some [1]) ([], [], []) (disk st') = (Inl WrongEncryptionKey, [])"
proof -
  have "block_size default_options \<noteq> 0" by (simp add: default_options_def)
  moreover have "user_keys_apart toy_externals [8, 8] [1]" by (rule toy_user_keys_apart) simp
  ultimately show ?thesis
    using rotate_key_correct [OF toy_store_inv length_replicate length_replicate, of default_options "[8, 8]" 1 2 "([], [], [])"]
    unfolding toy_fields option.case by blast
qed

end
