(* ===== verification/Engine_Removal.thy ===== *)
theory Engine_Removal
  imports Engine_Access
begin

text \<open>
  The removal of superseded tables after a compaction is best effort in the code: an error of
  \<open>remove_file\<close> is dropped. As long as the tables that remain are the newest ones this is a
  leak only (\<open>remove_tables_crash\<close>); this theory shows the order matters: when an old table
  survives the table that held its tombstone, a deleted key is back at the next open.
\<close>

lemma dir_rep_remove:
  assumes "dir_rep X cr dir (rs1 @ r # rs2)"
  shows "dir_rep X cr (filter (\<lambda>(m, c). m \<noteq> fst r) dir) (rs1 @ rs2)"
proof -
  let ?dir = "filter (\<lambda>(m, c). m \<noteq> fst r) dir"
  have D: "distinct (map fst dir)" "sorted_keys (rs1 @ r # rs2)" "fst ` set dir = fst ` set (rs1 @ r # rs2)"
    "\<forall>(n, es) \<in> set (rs1 @ r # rs2). \<exists>c. map_of dir n = Some c \<and> table_ok X cr n c es"
    using assms unfolding dir_rep_def by blast+
  have ne: "\<forall>(n, es) \<in> set (rs1 @ rs2). n \<noteq> fst r"
    using sorted_keys_distinct [OF D(2)] by (auto simp: image_iff)
  have "fst ` set ?dir = fst ` set dir - {fst r}" by force
  also have "\<dots> = fst ` set (rs1 @ rs2)" using D(3) ne by force
  finally have "fst ` set ?dir = fst ` set (rs1 @ rs2)" .
  moreover have "distinct (map fst ?dir)" using D(1) by (simp add: distinct_map_filter)
  moreover have "sorted_keys (rs1 @ rs2)" using D(2) by (cases r) (auto simp: sorted_keys_append)
  moreover have "\<forall>(n, es) \<in> set (rs1 @ rs2). \<exists>c. map_of ?dir n = Some c \<and> table_ok X cr n c es"
    using D(4) ne by (fastforce simp: map_of_filter_ne)
  ultimately show ?thesis by (simp add: dir_rep_def)
qed

lemma compacted_deletion: "compacted [(i, [(k, Some v)]), (j, [(k, None)])] = []"
  by (simp add: compacted_def merge_tables.simps live_kvs_def)

lemma failed_removal:
  assumes inv: "store_inv X st [(i, [(k, Some v)]), (j, [(k, None)])]" and idle: "memtable st = mt_new"
    "wal_contents (disk st) = []"
    and ok: "next_sst_id st < 2 ^ 64" "nonces_ok (crypto st) (rnd 2)"
    and key: "opens_with X (d_crypto_meta (disk st)) key (crypto st)" and bs: "block_size opts \<noteq> 0"
  shows "\<exists>st' fs. engine_compact X rnd st = (Inr (), st') \<and> trace st' = trace st @ fs \<and> SstRemove i \<in> set fs
      \<and> (\<exists>st'' runs''. engine_open X opts key fresh (fold apply_disk_op (removeAll (SstRemove i) fs) (disk st)) = Inr st''
           \<and> store_inv X st'' runs'' \<and> store_map runs'' (memtable st'') k = Some v)"
proof -
  let ?runs = "[(i, [(k, Some v)]), (j, [(k, None)])]" and ?n = "next_sst_id st"
  have I: "mode_ok X (crypto st)" "block_size (options st) \<noteq> 0" "d_store_meta (disk st) = Some store_meta_bytes"
    "tables_inv X (crypto st) (d_ssts (disk st)) (ssts st) ?runs ?n (block_cache st)"
    using inv by (simp_all add: store_inv_iff)
  obtain s contents where w: "write_new X ?n [] (block_size (options st)) (crypto st) (rnd 2) = Inr (s, contents)"
    using write_new_ok [of "[]" X "crypto st" "rnd 2" ?n "block_size (options st)", OF _ _ I(1) ok(2)]
      sorted_keys_Nil by (metis kvs_size_simps(1) zero_less_numeral zero_less_power)
  let ?d1 = "apply_disk_op (SstPublish ?n contents) (disk st)"
  have pub: "tables_inv X (crypto st) (d_ssts ?d1) (ssts st @ [s]) (?runs @ [(?n, [])]) (Suc ?n) (block_cache st)"
    using publish_tables [OF I(4) w _ _ I(1) ok(2,1) I(2)] by simp
  have ids: "map s_id (ssts st) = [i, j]" using inv table_rep_ids [of X "d_ssts (disk st)" "ssts st" ?runs]
    by (simp add: store_inv_def)
  have "i < j" using inv by (simp add: store_inv_def dir_rep_def)
  let ?fs = "SstPublish ?n contents # map (\<lambda>s. SstRemove (s_id s)) (ssts st)"
  have fs: "?fs = [SstPublish ?n contents, SstRemove i, SstRemove j]"
    using arg_cong [OF ids, of "map SstRemove"] by (simp add: comp_def)
  have run: "\<exists>st'. engine_compact X rnd st = (Inr (), st') \<and> trace st' = trace st @ ?fs"
    using w compacted_deletion [of i k v j]
    by (simp add: engine_compact_def store_inv_tables [OF inv] compacted_def live_kvs_def Let_def
        fold_remove_table emit_def)
  let ?d = "fold apply_disk_op (removeAll (SstRemove i) ?fs) (disk st)"
  have d: "?d = apply_disk_op (SstRemove j) ?d1" using \<open>i < j\<close> by (simp add: fs)
  have "dir_rep X (crypto st) (d_ssts ?d1) ([(i, [(k, Some v)])] @ (j, [(k, None)]) # [(?n, [])])"
    using pub by (simp add: tables_inv_def)
  from dir_rep_remove [OF this] have "disk_rep X (crypto st) ?d [(i, [(k, Some v)]), (?n, [])] []"
    unfolding d using I(3) idle(2) by (auto simp: disk_rep_iff intro!: wal_holds_ok)
  moreover have "opens_with X (d_crypto_meta ?d) key (crypto st)" using key unfolding d by simp
  ultimately obtain st'' where st'': "engine_open X opts key fresh ?d = Inr st''"
    "store_inv X st'' [(i, [(k, Some v)]), (?n, [])]" "memtable st'' = mt_new"
    using engine_open_ok [of X "crypto st" ?d _ "[]" key opts fresh] I(1) bs by (metis fold_simps(1))
  have "store_map [(i, [(k, Some v)]), (?n, [])] (memtable st'') k = Some v"
    by (simp add: store_map_def flat_def st''(3))
  moreover have "SstRemove i \<in> set ?fs" by (simp add: fs)
  ultimately show ?thesis using run st''(1,2) by blast
qed

text \<open>
  C36. A failed removal brings a deleted key back. Take a store whose two tables hold a put of
  \<open>k\<close> and, in the newer one, its tombstone, so that \<open>k\<close> is absent. If of the removals
  \<open>Engine::compact\<close> performs and whose errors it drops the one of the older table fails, the
  compaction still reports success and the directory opens to a store in which \<open>k\<close> is present.
\<close>

theorem failed_removal_resurrects:
  assumes "store_inv X st [(i, [(k, Some v)]), (j, [(k, None)])]" "memtable st = mt_new"
    "wal_contents (disk st) = []" "next_sst_id st < 2 ^ 64" "nonces_ok (crypto st) (rnd 2)"
    "opens_with X (d_crypto_meta (disk st)) key (crypto st)" "block_size opts \<noteq> 0"
  shows "store_map [(i, [(k, Some v)]), (j, [(k, None)])] (memtable st) k = None
    \<and> (\<exists>st' fs. engine_compact X rnd st = (Inr (), st') \<and> trace st' = trace st @ fs \<and> SstRemove i \<in> set fs
      \<and> (\<exists>st'' runs''. engine_open X opts key fresh (fold apply_disk_op (removeAll (SstRemove i) fs) (disk st)) = Inr st''
           \<and> store_inv X st'' runs'' \<and> store_map runs'' (memtable st'') k = Some v))"
  using failed_removal [where rnd = rnd and fresh = fresh, OF assms] assms(2) by (simp add: store_map_def flat_def)

subsection \<open>A store with a put and its tombstone in two tables\<close>

lemma write_and_flush:
  assumes inv: "store_inv X st runs" and idle: "memtable st = mt_new"
    and room: "roomy st runs (entry_wire_size e)" and rnd: "draws_ok (crypto st) rnd"
  shows "\<exists>st'. store_inv X st' (runs @ [(next_sst_id st, [e])]) \<and> memtable st' = mt_new
    \<and> wal_contents (disk st') = [] \<and> next_sst_id st' = Suc (next_sst_id st)
    \<and> crypto st' = crypto st \<and> d_crypto_meta (disk st') = d_crypto_meta (disk st)
    \<and> store_size st' (runs @ [(next_sst_id st, [e])]) \<le> store_size st runs + entry_wire_size e"
proof -
  obtain k v where e: "e = (k, v)" by (cases e)
  let ?e = "Single k v"
  have room': "roomy st runs (kvs_size (entry_ops ?e))" and "group_ok ?e" using room by (simp_all add: e group_ok_def)
  obtain st1 where s1: "memtable st1 = memtable st"
    "steps_to X st (store_map runs (memtable st)) (st1\<lparr>memtable := fold mt_apply (entry_ops ?e) (memtable st1)\<rparr>)
       runs (fold apply_kv (entry_ops ?e) (store_map runs (memtable st)))"
    "roomy (st1\<lparr>memtable := fold mt_apply (entry_ops ?e) (memtable st1)\<rparr>) runs 0" "next_sst_id st1 = next_sst_id st"
    by (rule log_append_steps [OF inv \<open>group_ok ?e\<close> room' rnd, of "\<lambda>st. (Inr (), st)"]) blast
  define st2 where "st2 = st1\<lparr>memtable := fold mt_apply (entry_ops ?e) (memtable st1)\<rparr>"
  have st2: "store_inv X st2 runs" "mt_entries (memtable st2) = [e]" "next_sst_id st2 = next_sst_id st"
    "crypto st2 = crypto st" "d_crypto_meta (disk st2) = d_crypto_meta (disk st)"
    using s1 by (simp_all add: st2_def steps_to_def idle e mt_apply_entries mt_new_def)
  have sz: "kvs_size (mt_entries (memtable st2)) < 2 ^ 29" "next_sst_id st2 < 2 ^ 64" "nonces_ok (crypto st2) (rnd 1)"
    using room rnd st2 by (simp_all add: roomy_def STORE_LIMIT_def draws_ok_def)
  obtain s contents st3 where f: "st3 = (emit (WalSetLen 0) (note_flush (s_file_bytes s)
        (emit (SstPublish (next_sst_id st2) contents) st2)))
       \<lparr>next_sst_id := Suc (next_sst_id st2), ssts := ssts st2 @ [s], memtable := mt_new\<rparr>"
    "steps_to X st2 (store_map runs (memtable st2)) st3 (runs @ [(next_sst_id st2, mt_entries (memtable st2))])
       (store_map runs (memtable st2))"
    by (rule flush_table_steps [of X st2 runs rnd, OF st2(1) sz]) blast
  have "store_inv X st3 (runs @ [(next_sst_id st, [e])])" "crypto st3 = crypto st"
    "d_crypto_meta (disk st3) = d_crypto_meta (disk st)"
    using f(2) st2 by (simp_all add: steps_to_def)
  moreover have "memtable st3 = mt_new" "next_sst_id st3 = Suc (next_sst_id st)" "wal_contents (disk st3) = []"
    using st2(3) by (simp_all add: f(1) emit_def)
  ultimately show ?thesis
    by (intro exI [of _ st3]) (simp add: store_size_def idle mt_new_def)
qed

theorem failed_removal_resurrects_witness:
  "\<exists>st st' fs st'' runs''. engine_compact toy_externals toy_rnd st = (Inr (), st') \<and> trace st' = trace st @ fs
     \<and> store_inv toy_externals st [(0, [([7], Some [8])]), (1, [([7], None)])]
     \<and> engine_open toy_externals default_options (Some [1]) ([], [], [])
         (fold apply_disk_op (removeAll (SstRemove 0) fs) (disk st)) = Inr st''
     \<and> store_map runs'' (memtable st'') [7] = Some [8]"
proof -
  have "memtable toy_store = mt_new" by (simp add: toy_store_def)
  note first = write_and_flush [OF toy_store_inv this toy_roomy toy_draws, of "([7], Some [8])"]
  obtain a where a: "store_inv toy_externals a [(0, [([7], Some [8])])]" "memtable a = mt_new"
    "next_sst_id a = 1" "crypto a = Some toy_ctx" "d_crypto_meta (disk a) = Some toy_meta"
    "store_size a [(0, [([7], Some [8])])] \<le> 11"
    using first by (auto simp: entry_wire_size_def store_size_def runs_size_def toy_store_def mt_new_def)
  have room: "roomy a [(0, [([7], Some [8])])] (entry_wire_size ([7], None))"
    using a(3,6) by (simp add: roomy_def entry_wire_size_def STORE_LIMIT_def)
  obtain b where b: "store_inv toy_externals b [(0, [([7], Some [8])]), (1, [([7], None)])]" "memtable b = mt_new"
    "wal_contents (disk b) = []" "next_sst_id b = 2" "crypto b = Some toy_ctx" "d_crypto_meta (disk b) = Some toy_meta"
    using write_and_flush [OF a(1,2) room, of toy_rnd] a by auto
  have hyps: "next_sst_id b < 2 ^ 64" "nonces_ok (crypto b) (toy_rnd 2)"
    "opens_with toy_externals (d_crypto_meta (disk b)) (Some [1]) (crypto b)" "block_size default_options \<noteq> 0"
    using b(4-6) toy_opens toy_draws [of "crypto b"] by (simp_all add: default_options_def draws_ok_def)
  from failed_removal_resurrects [where rnd = toy_rnd and fresh = "([], [], [])", OF b(1-3) hyps] b(1) show ?thesis by blast
qed

end
