(* ===== verification/Keys.thy ===== *)
theory Keys
  imports Engine_Error
begin

text \<open>
  The keyspaces of the native indexes (\<open>crates/basemyai-engine/src/key/mod.rs\<close>): the key of
  every record kind, the prefixes that scan them, the upper bounds of range scans and the
  decoders. Strings are their UTF-8 bytes; \<open>from_utf8\<close> is \<open>String::from_utf8\<close> of the Rust
  standard library. A function of the modules \<open>vector_index\<close>, \<open>graph_index\<close>,
  \<open>memory_index\<close>, \<open>fts_index\<close>, \<open>temporal_index\<close> and \<open>agent_registry\<close> has the module's
  name in its own where two modules share it.
\<close>

subsection \<open>Strings\<close>

definition utf8_cont :: "u8 \<Rightarrow> bool" where
  "utf8_cont b \<longleftrightarrow> 0x80 \<le> b \<and> b \<le> 0xBF"

text \<open>What follows the continuation bytes of a sequence with lead byte \<open>b\<close>.\<close>

definition utf8_tail :: "u8 \<Rightarrow> bytes \<Rightarrow> bytes option" where
  "utf8_tail b bs =
     (case bs of [] \<Rightarrow> None
      | b1 # r1 \<Rightarrow>
          if 0xC2 \<le> b \<and> b \<le> 0xDF then (if utf8_cont b1 then Some r1 else None)
          else
            (case r1 of [] \<Rightarrow> None
             | b2 # r2 \<Rightarrow>
                 if 0xE0 \<le> b \<and> b \<le> 0xEF then
                   (if utf8_cont b1 \<and> utf8_cont b2 \<and> (b = 0xE0 \<longrightarrow> 0xA0 \<le> b1) \<and> (b = 0xED \<longrightarrow> b1 \<le> 0x9F)
                    then Some r2 else None)
                 else
                   (case r2 of [] \<Rightarrow> None
                    | b3 # r3 \<Rightarrow>
                        if 0xF0 \<le> b \<and> b \<le> 0xF4 \<and> utf8_cont b1 \<and> utf8_cont b2 \<and> utf8_cont b3
                           \<and> (b = 0xF0 \<longrightarrow> 0x90 \<le> b1) \<and> (b = 0xF4 \<longrightarrow> b1 \<le> 0x8F)
                        then Some r3 else None)))"

lemma utf8_tail_shorter: "utf8_tail b bs = Some r \<Longrightarrow> length r < length bs"
  by (auto simp: utf8_tail_def split: list.splits if_splits)

function utf8_valid :: "bytes \<Rightarrow> bool" where
  "utf8_valid [] = True"
| "utf8_valid (b # bs) =
     (if b < 0x80 then utf8_valid bs
      else (case utf8_tail b bs of None \<Rightarrow> False | Some r \<Rightarrow> utf8_valid r))"
  by pat_completeness auto
termination
  by (relation "measure length") (auto dest: utf8_tail_shorter)

definition from_utf8 :: "bytes \<Rightarrow> bytes option" where
  "from_utf8 bs = (if utf8_valid bs then Some bs else None)"

lemma from_utf8_Some [simp]: "from_utf8 bs = Some s \<longleftrightarrow> s = bs \<and> utf8_valid bs"
  by (auto simp: from_utf8_def)

lemma from_utf8_valid [simp]: "utf8_valid s \<Longrightarrow> from_utf8 s = Some s"
  by simp

text \<open>An ASCII literal.\<close>

definition ascii :: "string \<Rightarrow> bytes" where
  "ascii s = map (\<lambda>c. of_char c) s"

subsection \<open>Fields\<close>

text \<open>\<open>&buf[from..]\<close> and \<open>&buf[..to]\<close> as \<open>get\<close> returns them: \<open>None\<close> out of range.\<close>

definition get_from :: "nat \<Rightarrow> bytes \<Rightarrow> bytes option" where
  "get_from n bs = (if n \<le> length bs then Some (drop n bs) else None)"

definition get_to :: "nat \<Rightarrow> bytes \<Rightarrow> bytes option" where
  "get_to n bs = (if n \<le> length bs then Some (take n bs) else None)"

definition strip_prefix :: "bytes \<Rightarrow> bytes \<Rightarrow> bytes option" where
  "strip_prefix p bs = (if prefix p bs then Some (drop (length p) bs) else None)"

definition push_len_prefixed :: "keyspace \<Rightarrow> bytes \<Rightarrow> bytes \<Rightarrow> bytes engine_result" where
  "push_len_prefixed ks buf field =
     (if length field < 2 ^ 32 then Inr (buf @ u32_be (len32 field) @ field)
      else Inl (KeyTooLong ks (length field)))"

text \<open>\<open>u64::from_be_bytes\<close> of exactly eight bytes.\<close>

definition be_id :: "bytes \<Rightarrow> u64 option" where
  "be_id raw = (if length raw = 8 then Some (u64_of_be raw) else None)"

text \<open>A 32-bit length read from the front.\<close>

definition read_len :: "bytes \<Rightarrow> nat option" where
  "read_len bs = map_option (\<lambda>raw. unat (u32_of_be raw)) (get_to 4 bs)"

subsection \<open>Vector index\<close>

definition VECTOR_INDEX_PREFIX :: bytes where "VECTOR_INDEX_PREFIX = ascii ''idx/vector/''"
definition NODE_PREFIX :: bytes where "NODE_PREFIX = ascii ''idx/vector/node/''"
definition VECTOR_META_KEY :: bytes where "VECTOR_META_KEY = ascii ''idx/vector/meta''"

definition node_key :: "u64 \<Rightarrow> bytes" where "node_key i = NODE_PREFIX @ u64_be i"
definition vector_meta_key :: bytes where "vector_meta_key = VECTOR_META_KEY"

definition node_id :: "bytes \<Rightarrow> u64 option" where
  "node_id key_bytes = Option.bind (strip_prefix NODE_PREFIX key_bytes) be_id"

subsection \<open>Graph index\<close>

definition GRAPH_INDEX_PREFIX :: bytes where "GRAPH_INDEX_PREFIX = ascii ''idx/graph/''"
definition ENTITY_PREFIX :: bytes where "ENTITY_PREFIX = ascii ''idx/graph/entity/''"
definition EDGE_PREFIX :: bytes where "EDGE_PREFIX = ascii ''idx/graph/edge/''"

definition entity_agent_prefix :: "bytes \<Rightarrow> bytes engine_result" where
  "entity_agent_prefix agent = push_len_prefixed GraphKey ENTITY_PREFIX agent"

definition entity_key :: "bytes \<Rightarrow> bytes \<Rightarrow> bytes engine_result" where
  "entity_key agent i = rbind (entity_agent_prefix agent) (\<lambda>buf. Inr (buf @ i))"

definition entity_id :: "nat \<Rightarrow> bytes \<Rightarrow> bytes option" where
  "entity_id prefix_len key_bytes =
     (if \<not> prefix ENTITY_PREFIX key_bytes \<or> length key_bytes < prefix_len then None
      else Option.bind (get_from prefix_len key_bytes) from_utf8)"

definition edge_agent_prefix :: "bytes \<Rightarrow> bytes engine_result" where
  "edge_agent_prefix agent = push_len_prefixed GraphKey EDGE_PREFIX agent"

definition edge_src_prefix :: "bytes \<Rightarrow> bytes \<Rightarrow> bytes engine_result" where
  "edge_src_prefix agent src =
     rbind (push_len_prefixed GraphKey EDGE_PREFIX agent) (\<lambda>buf. push_len_prefixed GraphKey buf src)"

definition edge_key :: "bytes \<Rightarrow> bytes \<Rightarrow> bytes \<Rightarrow> bytes \<Rightarrow> bytes engine_result" where
  "edge_key agent src relation dst =
     rbind (edge_src_prefix agent src) (\<lambda>buf.
     rbind (push_len_prefixed GraphKey buf relation) (\<lambda>buf. Inr (buf @ dst)))"

definition edge_relation_dst :: "nat \<Rightarrow> bytes \<Rightarrow> (bytes \<times> bytes) option" where
  "edge_relation_dst prefix_len key_bytes =
     Option.bind (get_from prefix_len key_bytes) (\<lambda>suffix.
     Option.bind (read_len suffix) (\<lambda>relation_len.
     Option.bind (get_from 4 suffix) (\<lambda>rest.
     Option.bind (get_to relation_len rest) (\<lambda>relation_bytes.
     Option.bind (get_from relation_len rest) (\<lambda>dst_bytes.
     Option.bind (from_utf8 relation_bytes) (\<lambda>relation.
     Option.bind (from_utf8 dst_bytes) (\<lambda>dst. Some (relation, dst))))))))"

definition edge_src_relation_dst :: "nat \<Rightarrow> bytes \<Rightarrow> (bytes \<times> bytes \<times> bytes) option" where
  "edge_src_relation_dst prefix_len key_bytes =
     Option.bind (get_from prefix_len key_bytes) (\<lambda>suffix.
     Option.bind (read_len suffix) (\<lambda>src_len.
     Option.bind (get_from 4 suffix) (\<lambda>rest.
     Option.bind (get_to src_len rest) (\<lambda>src_bytes.
     Option.bind (from_utf8 src_bytes) (\<lambda>src.
     Option.bind (get_from src_len rest) (\<lambda>tail.
     Option.bind (edge_relation_dst 0 tail) (\<lambda>(relation, dst). Some (src, relation, dst))))))))"

subsection \<open>Memory index\<close>

definition MEMORY_INDEX_PREFIX :: bytes where "MEMORY_INDEX_PREFIX = ascii ''idx/memory/''"
definition RECORD_PREFIX :: bytes where "RECORD_PREFIX = ascii ''idx/memory/rec/''"
definition VECMAP_PREFIX :: bytes where "VECMAP_PREFIX = ascii ''idx/memory/vecmap/''"
definition MEMORY_META_KEY :: bytes where "MEMORY_META_KEY = ascii ''idx/memory/meta''"

definition record_agent_prefix :: "bytes \<Rightarrow> bytes engine_result" where
  "record_agent_prefix agent = push_len_prefixed MemoryKey RECORD_PREFIX agent"

definition record_key :: "bytes \<Rightarrow> bytes \<Rightarrow> bytes engine_result" where
  "record_key agent i = rbind (record_agent_prefix agent) (\<lambda>buf. Inr (buf @ i))"

definition record_id :: "nat \<Rightarrow> bytes \<Rightarrow> bytes option" where
  "record_id prefix_len key_bytes =
     (if \<not> prefix RECORD_PREFIX key_bytes \<or> length key_bytes < prefix_len then None
      else Option.bind (get_from prefix_len key_bytes) from_utf8)"

text \<open>The loop that pops \<open>0xff\<close> bytes and increments the first other one, from the back.\<close>

fun bump_last :: "bytes \<Rightarrow> bytes option" where
  "bump_last [] = None"
| "bump_last (b # rev_rest) = (if b < 0xff then Some ((b + 1) # rev_rest) else bump_last rev_rest)"

definition record_agent_upper_bound :: "bytes \<Rightarrow> bytes engine_result" where
  "record_agent_upper_bound agent =
     rbind (record_agent_prefix agent) (\<lambda>bound.
       case bump_last (rev bound) of
         Some up \<Rightarrow> Inr (rev up)
       | None \<Rightarrow> Inl (Corrupt MemoryRecord))"

definition vecmap_key :: "u64 \<Rightarrow> bytes" where "vecmap_key vec_id = VECMAP_PREFIX @ u64_be vec_id"

definition vecmap_id :: "bytes \<Rightarrow> u64 option" where
  "vecmap_id key_bytes = Option.bind (strip_prefix VECMAP_PREFIX key_bytes) be_id"

definition memory_meta_key :: bytes where "memory_meta_key = MEMORY_META_KEY"

subsection \<open>Full-text index\<close>

definition FTS_INDEX_PREFIX :: bytes where "FTS_INDEX_PREFIX = ascii ''idx/fts/''"
definition POSTINGS_PREFIX :: bytes where "POSTINGS_PREFIX = ascii ''idx/fts/postings/''"
definition DOCTERMS_PREFIX :: bytes where "DOCTERMS_PREFIX = ascii ''idx/fts/docterms/''"
definition FTS_META_PREFIX :: bytes where "FTS_META_PREFIX = ascii ''idx/fts/meta/''"

definition postings_agent_prefix :: "bytes \<Rightarrow> bytes engine_result" where
  "postings_agent_prefix agent = push_len_prefixed FtsKey POSTINGS_PREFIX agent"

definition postings_term_prefix :: "bytes \<Rightarrow> bytes \<Rightarrow> bytes engine_result" where
  "postings_term_prefix agent t =
     rbind (postings_agent_prefix agent) (\<lambda>buf. push_len_prefixed FtsKey buf t)"

definition postings_key :: "bytes \<Rightarrow> bytes \<Rightarrow> u64 \<Rightarrow> bytes engine_result" where
  "postings_key agent t vec_id =
     rbind (postings_term_prefix agent t) (\<lambda>buf. Inr (buf @ u64_be vec_id))"

definition postings_vec_id :: "nat \<Rightarrow> bytes \<Rightarrow> u64 option" where
  "postings_vec_id prefix_len key_bytes = Option.bind (get_from prefix_len key_bytes) be_id"

definition docterms_agent_prefix :: "bytes \<Rightarrow> bytes engine_result" where
  "docterms_agent_prefix agent = push_len_prefixed FtsKey DOCTERMS_PREFIX agent"

definition docterms_key :: "bytes \<Rightarrow> u64 \<Rightarrow> bytes engine_result" where
  "docterms_key agent vec_id =
     rbind (docterms_agent_prefix agent) (\<lambda>buf. Inr (buf @ u64_be vec_id))"

definition fts_meta_key :: "bytes \<Rightarrow> bytes engine_result" where
  "fts_meta_key agent = push_len_prefixed FtsKey FTS_META_PREFIX agent"

subsection \<open>Temporal index\<close>

definition TEMPORAL_INDEX_PREFIX :: bytes where "TEMPORAL_INDEX_PREFIX = ascii ''idx/temporal/expiry/''"

definition SIGN_BIT :: u64 where "SIGN_BIT = push_bit 63 1"

definition sortable :: "i64 \<Rightarrow> bytes" where
  "sortable value = u64_be (value XOR SIGN_BIT)"

definition from_sortable :: "bytes \<Rightarrow> i64" where
  "from_sortable raw = u64_of_be raw XOR SIGN_BIT"

definition expiry_agent_prefix :: "bytes \<Rightarrow> bytes engine_result" where
  "expiry_agent_prefix agent = push_len_prefixed TemporalKey TEMPORAL_INDEX_PREFIX agent"

definition expiry_key :: "bytes \<Rightarrow> i64 \<Rightarrow> bytes \<Rightarrow> bytes engine_result" where
  "expiry_key agent valid_until i =
     rbind (expiry_agent_prefix agent) (\<lambda>buf. Inr (buf @ sortable valid_until @ i))"

definition I64_MAX :: i64 where "I64_MAX = 2 ^ 63 - 1"

definition saturating_succ :: "i64 \<Rightarrow> i64" where
  "saturating_succ v = (if v = I64_MAX then v else v + 1)"

definition expiry_upper_bound :: "bytes \<Rightarrow> i64 \<Rightarrow> bytes engine_result" where
  "expiry_upper_bound agent at =
     rbind (expiry_agent_prefix agent) (\<lambda>buf. Inr (buf @ sortable (saturating_succ at)))"

definition expiry_decode :: "nat \<Rightarrow> bytes \<Rightarrow> (i64 \<times> bytes) option" where
  "expiry_decode prefix_len key_bytes =
     (if \<not> prefix TEMPORAL_INDEX_PREFIX key_bytes \<or> length key_bytes < prefix_len + 8 then None
      else Option.bind (get_from prefix_len key_bytes) (\<lambda>rest.
           Option.bind (from_utf8 (drop 8 rest)) (\<lambda>i. Some (from_sortable (take 8 rest), i))))"

subsection \<open>Agent registry\<close>

definition REGISTRY_PREFIX :: bytes where "REGISTRY_PREFIX = ascii ''meta/agents/''"

definition agent_key :: "bytes \<Rightarrow> bytes engine_result" where
  "agent_key agent = push_len_prefixed MemoryKey REGISTRY_PREFIX agent"

definition agent_decode :: "bytes \<Rightarrow> bytes option" where
  "agent_decode key_bytes =
     Option.bind (strip_prefix REGISTRY_PREFIX key_bytes) (\<lambda>suffix.
     Option.bind (read_len suffix) (\<lambda>len.
     Option.bind (get_from 4 suffix) (\<lambda>rest.
       if length rest \<noteq> len then None else from_utf8 rest)))"

subsection \<open>Facts about the fields\<close>

lemma len_prefixed_inj:
  assumes "length a < 2 ^ 32" "length b < 2 ^ 32"
  shows "u32_be (len32 a) @ a @ r = u32_be (len32 b) @ b @ q \<longleftrightarrow> a = b \<and> r = q"
proof
  assume e: "u32_be (len32 a) @ a @ r = u32_be (len32 b) @ b @ q"
  then have "u32_be (len32 a) = u32_be (len32 b)" by (simp add: append_eq_append_conv)
  then have "unat (len32 a) = unat (len32 b)" by simp
  then have "length a = length b" using assms by simp
  then show "a = b \<and> r = q" using e by (simp add: append_eq_append_conv)
qed simp

lemma push_len_prefixed_Inr:
  "push_len_prefixed ks buf f = Inr b \<longleftrightarrow> length f < 2 ^ 32 \<and> b = buf @ u32_be (len32 f) @ f"
  by (auto simp: push_len_prefixed_def)

lemma read_len_enc: "length f < 2 ^ 32 \<Longrightarrow> read_len (u32_be (len32 f) @ r) = Some (length f)"
  by (simp add: read_len_def get_to_def)

lemma get_from_append [simp]: "get_from (length a) (a @ b) = Some b"
  by (simp add: get_from_def)

lemma get_to_append [simp]: "get_to (length a) (a @ b) = Some a"
  by (simp add: get_to_def)

lemma get_from_4 [simp]: "get_from 4 (u32_be w @ r) = Some r"
  using get_from_append [of "u32_be w" r] by simp

lemma get_from_add [simp]:
  "get_from (length a + n) (a @ b) = get_from n b" "get_from (4 + n) (u32_be w @ b) = get_from n b"
  by (auto simp: get_from_def)

lemma strip_prefix_append [simp]: "strip_prefix p (p @ r) = Some r"
  by (simp add: strip_prefix_def)

lemma be_id_enc [simp]: "be_id (u64_be w) = Some w"
  by (simp add: be_id_def)

lemma sortable_inverse [simp]: "from_sortable (sortable v) = v"
  by (simp add: sortable_def from_sortable_def xor.assoc)

lemma length_sortable [simp]: "length (sortable v) = 8"
  by (simp add: sortable_def)

text \<open>Big-endian bytes compare like the numbers they stand for.\<close>

lemma snoc_less_snoc:
  "length xs = length ys \<Longrightarrow> (xs @ [a] < ys @ [b]) \<longleftrightarrow> xs < ys \<or> xs = ys \<and> (a :: 'a :: linorder) < b"
  by (induction xs ys rule: list_induct2) auto

lemma div_mod_less:
  assumes "x = 256 * a + b" "y = 256 * c + d" "b < 256" "d < (256 :: nat)"
  shows "(a < c \<or> a = c \<and> b < d) \<longleftrightarrow> x < y"
  using assms by (cases a c rule: linorder_cases) auto

lemma be_less_iff:
  "x < 256 ^ n \<Longrightarrow> y < 256 ^ n \<Longrightarrow> rev (le_enc n x) < rev (le_enc n y) \<longleftrightarrow> x < y"
proof (induction n arbitrary: x y)
  case (Suc n)
  have "x div 256 < 256 ^ n" "y div 256 < 256 ^ n"
    using Suc.prems by (simp_all add: div_less_iff_less_mult mult.commute)
  note IH = Suc.IH [OF this]
  have inj: "le_enc n (x div 256) = le_enc n (y div 256) \<longleftrightarrow> x div 256 = y div 256"
    using le_enc_inj \<open>x div 256 < 256 ^ n\<close> \<open>y div 256 < 256 ^ n\<close> by metis
  have "(word_of_nat (x mod 256) :: u8) < word_of_nat (y mod 256) \<longleftrightarrow> x mod 256 < y mod 256"
    by (simp add: word_less_nat_alt unat_of_nat)
  then have "rev (le_enc (Suc n) x) < rev (le_enc (Suc n) y)
      \<longleftrightarrow> x div 256 < y div 256 \<or> x div 256 = y div 256 \<and> x mod 256 < y mod 256"
    by (simp add: snoc_less_snoc IH inj)
  also have "\<dots> \<longleftrightarrow> x < y"
    using div_mod_less [of x "x div 256" "x mod 256" y "y div 256" "y mod 256"] by simp
  finally show ?case .
qed simp

lemma u64_be_less [simp]: "u64_be v < u64_be w \<longleftrightarrow> v < w"
  unfolding u64_be_def using be_less_iff [of "unat v" 8 "unat w"] unsigned_less [of v] unsigned_less [of w]
  by (simp add: word_less_nat_alt)

lemma uint_flip_sign: "uint (u XOR SIGN_BIT :: i64) = sint u + 2 ^ 63"
proof -
  have "take_bit 64 (uint u) = uint u"
    by (rule take_bit_int_eq_self) (use uint_lt2p [of u] in simp_all)
  then have s: "sint u = uint u - 2 ^ 64 * of_bool (bit (uint u) 63)"
    by (simp add: sint_uint signed_take_bit_eq_take_bit_minus)
  have "uint SIGN_BIT = push_bit 63 1" by (simp add: SIGN_BIT_def)
  then have "uint (u XOR SIGN_BIT) = flip_bit 63 (uint u)"
    by (simp add: uint_xor flip_bit_eq_xor)
  also have "\<dots> = uint u + 2 ^ 63 - 2 ^ 64 * of_bool (bit (uint u) 63)"
    by (simp add: flip_bit_eq_if unset_bit_eq set_bit_eq)
  finally show ?thesis using s by simp
qed

lemma sortable_less [simp]: "sortable v < sortable w \<longleftrightarrow> v <s w"
  by (simp add: sortable_def word_less_def uint_flip_sign word_sless_alt)

lemma sortable_le [simp]: "sortable v \<le> sortable w \<longleftrightarrow> v \<le>s w"
  using sortable_less [of w v] by (simp add: not_less [symmetric] word_sle_eq word_sless_alt)

subsection \<open>Keys of the reserved keyspaces\<close>

datatype logical_key =
    KVectorNode u64 | KVectorMeta
  | KEntity bytes bytes | KEdge bytes bytes bytes bytes
  | KRecord bytes bytes | KVecmap u64 | KMemoryMeta
  | KPosting bytes bytes u64 | KDocTerms bytes u64 | KFtsMeta bytes
  | KExpiry bytes i64 bytes | KAgent bytes

fun encode_key :: "logical_key \<Rightarrow> bytes engine_result" where
  "encode_key (KVectorNode i) = Inr (node_key i)"
| "encode_key KVectorMeta = Inr vector_meta_key"
| "encode_key (KEntity agent i) = entity_key agent i"
| "encode_key (KEdge agent src relation dst) = edge_key agent src relation dst"
| "encode_key (KRecord agent i) = record_key agent i"
| "encode_key (KVecmap i) = Inr (vecmap_key i)"
| "encode_key KMemoryMeta = Inr memory_meta_key"
| "encode_key (KPosting agent t i) = postings_key agent t i"
| "encode_key (KDocTerms agent i) = docterms_key agent i"
| "encode_key (KFtsMeta agent) = fts_meta_key agent"
| "encode_key (KExpiry agent valid_until i) = expiry_key agent valid_until i"
| "encode_key (KAgent agent) = agent_key agent"

text \<open>The literal that starts a key, and the rest.\<close>

definition lp :: "bytes \<Rightarrow> bytes" where "lp f = u32_be (len32 f) @ f"

fun key_space :: "logical_key \<Rightarrow> bytes" where
  "key_space (KVectorNode i) = NODE_PREFIX"
| "key_space KVectorMeta = VECTOR_META_KEY"
| "key_space (KEntity agent i) = ENTITY_PREFIX"
| "key_space (KEdge agent src relation dst) = EDGE_PREFIX"
| "key_space (KRecord agent i) = RECORD_PREFIX"
| "key_space (KVecmap i) = VECMAP_PREFIX"
| "key_space KMemoryMeta = MEMORY_META_KEY"
| "key_space (KPosting agent t i) = POSTINGS_PREFIX"
| "key_space (KDocTerms agent i) = DOCTERMS_PREFIX"
| "key_space (KFtsMeta agent) = FTS_META_PREFIX"
| "key_space (KExpiry agent valid_until i) = TEMPORAL_INDEX_PREFIX"
| "key_space (KAgent agent) = REGISTRY_PREFIX"

fun key_rest :: "logical_key \<Rightarrow> bytes" where
  "key_rest (KVectorNode i) = u64_be i"
| "key_rest KVectorMeta = []"
| "key_rest (KEntity agent i) = lp agent @ i"
| "key_rest (KEdge agent src relation dst) = lp agent @ lp src @ lp relation @ dst"
| "key_rest (KRecord agent i) = lp agent @ i"
| "key_rest (KVecmap i) = u64_be i"
| "key_rest KMemoryMeta = []"
| "key_rest (KPosting agent t i) = lp agent @ lp t @ u64_be i"
| "key_rest (KDocTerms agent i) = lp agent @ u64_be i"
| "key_rest (KFtsMeta agent) = lp agent"
| "key_rest (KExpiry agent valid_until i) = lp agent @ sortable valid_until @ i"
| "key_rest (KAgent agent) = lp agent"

fun key_fields :: "logical_key \<Rightarrow> bytes list" where
  "key_fields (KEntity agent i) = [agent]"
| "key_fields (KEdge agent src relation dst) = [agent, src, relation]"
| "key_fields (KRecord agent i) = [agent]"
| "key_fields (KPosting agent t i) = [agent, t]"
| "key_fields (KDocTerms agent i) = [agent]"
| "key_fields (KFtsMeta agent) = [agent]"
| "key_fields (KExpiry agent valid_until i) = [agent]"
| "key_fields (KAgent agent) = [agent]"
| "key_fields k = []"

lemmas key_defs = node_key_def vector_meta_key_def entity_key_def entity_agent_prefix_def edge_key_def edge_src_prefix_def
  edge_agent_prefix_def record_key_def record_agent_prefix_def vecmap_key_def memory_meta_key_def postings_key_def
  postings_term_prefix_def postings_agent_prefix_def docterms_key_def docterms_agent_prefix_def fts_meta_key_def
  expiry_key_def expiry_agent_prefix_def agent_key_def

lemmas space_defs = NODE_PREFIX_def VECTOR_META_KEY_def ENTITY_PREFIX_def EDGE_PREFIX_def RECORD_PREFIX_def
  VECMAP_PREFIX_def MEMORY_META_KEY_def POSTINGS_PREFIX_def DOCTERMS_PREFIX_def FTS_META_PREFIX_def
  TEMPORAL_INDEX_PREFIX_def REGISTRY_PREFIX_def

lemma encode_key_Inr:
  "encode_key k = Inr b \<longleftrightarrow> (\<forall>f \<in> set (key_fields k). length f < 2 ^ 32) \<and> b = key_space k @ key_rest k"
  by (cases k) (auto simp: key_defs rbind_eq_Inr push_len_prefixed_Inr lp_def)

lemma lp_inj [simp]:
  "length a < 2 ^ 32 \<Longrightarrow> length b < 2 ^ 32 \<Longrightarrow> lp a @ r = lp b @ q \<longleftrightarrow> a = b \<and> r = q"
  using len_prefixed_inj by (simp add: lp_def)

lemma lp_inj' [simp]: "length a < 2 ^ 32 \<Longrightarrow> length b < 2 ^ 32 \<Longrightarrow> lp a = lp b \<longleftrightarrow> a = b"
  using lp_inj [of a b "[]" "[]"] by simp

text \<open>No keyspace literal is a prefix of another.\<close>

definition spaces :: "bytes list" where
  "spaces = [NODE_PREFIX, VECTOR_META_KEY, ENTITY_PREFIX, EDGE_PREFIX, RECORD_PREFIX, VECMAP_PREFIX, MEMORY_META_KEY,
     POSTINGS_PREFIX, DOCTERMS_PREFIX, FTS_META_PREFIX, TEMPORAL_INDEX_PREFIX, REGISTRY_PREFIX]"

lemma spaces_apart: "list_all (\<lambda>p. list_all (\<lambda>q. p = q \<or> \<not> prefix p q) spaces) spaces"
  by (simp add: spaces_def space_defs ascii_def)

lemma key_space_in: "key_space k \<in> set spaces"
  by (cases k) (simp_all add: spaces_def)

lemma spaces_comparable:
  assumes "p \<in> set spaces" "q \<in> set spaces" "prefix p b" "prefix q b"
  shows "p = q"
proof -
  have "prefix p q \<or> prefix q p" using assms(3,4) prefix_same_cases by blast
  then show ?thesis using spaces_apart assms(1,2) by (auto simp: list_all_iff)
qed

lemma key_space_eq:
  assumes "encode_key k = Inr b" "prefix p b" "p \<in> set spaces"
  shows "key_space k = p"
  using spaces_comparable [OF key_space_in assms(3), of k b] assms(1,2) by (simp add: encode_key_Inr)

lemma key_bytes_inj_raw:
  assumes "encode_key k1 = Inr b" "encode_key k2 = Inr b"
  shows "k1 = k2"
proof -
  have b: "b = key_space k1 @ key_rest k1" "b = key_space k2 @ key_rest k2"
    and f: "\<forall>f \<in> set (key_fields k1 @ key_fields k2). length f < 2 ^ 32"
    using assms by (auto simp: encode_key_Inr)
  have s: "key_space k1 = key_space k2"
  proof (rule key_space_eq [OF assms(1) _ key_space_in])
    show "prefix (key_space k2) b" unfolding b(2) by simp
  qed
  then have "key_rest k1 = key_rest k2" using b by simp
  moreover have "sortable v = sortable w \<longleftrightarrow> v = w" for v w by (metis sortable_inverse)
  ultimately show ?thesis using s f
    by (cases k1; cases k2) (simp_all add: space_defs ascii_def append_eq_append_conv)
qed

text \<open>
  C9. No two keys collide: across all twelve record kinds of the reserved keyspaces, and
  whatever bytes agents, ids, terms and relations contain, equal key bytes mean the same kind
  and the same fields.
\<close>

theorem key_encoding_injective:
  assumes "encode_key k1 = Inr b" "encode_key k2 = Inr b"
  shows "k1 = k2"
  using assms by (rule key_bytes_inj_raw)

theorem key_encoding_injective_witness:
  "\<not> (\<exists>b. entity_key (ascii ''ab'') (ascii ''c'') = Inr b \<and> entity_key (ascii ''a'') (ascii ''bc'') = Inr b)"
  using key_encoding_injective [of "KEntity (ascii ''ab'') (ascii ''c'')" _ "KEntity (ascii ''a'') (ascii ''bc'')"]
  by (auto simp: ascii_def)

text \<open>The prefix scans.\<close>

datatype key_scan =
    SEntities bytes | SEdges bytes | SEdgesFrom bytes bytes | SRecords bytes
  | SPostings bytes | STerm bytes bytes | SDocTerms bytes | SExpiry bytes

fun scan_bytes :: "key_scan \<Rightarrow> bytes engine_result" where
  "scan_bytes (SEntities agent) = entity_agent_prefix agent"
| "scan_bytes (SEdges agent) = edge_agent_prefix agent"
| "scan_bytes (SEdgesFrom agent src) = edge_src_prefix agent src"
| "scan_bytes (SRecords agent) = record_agent_prefix agent"
| "scan_bytes (SPostings agent) = postings_agent_prefix agent"
| "scan_bytes (STerm agent t) = postings_term_prefix agent t"
| "scan_bytes (SDocTerms agent) = docterms_agent_prefix agent"
| "scan_bytes (SExpiry agent) = expiry_agent_prefix agent"

fun in_scan :: "key_scan \<Rightarrow> logical_key \<Rightarrow> bool" where
  "in_scan (SEntities agent) (KEntity a i) \<longleftrightarrow> agent = a"
| "in_scan (SEdges agent) (KEdge a s r d) \<longleftrightarrow> agent = a"
| "in_scan (SEdgesFrom agent src) (KEdge a s r d) \<longleftrightarrow> agent = a \<and> src = s"
| "in_scan (SRecords agent) (KRecord a i) \<longleftrightarrow> agent = a"
| "in_scan (SPostings agent) (KPosting a t i) \<longleftrightarrow> agent = a"
| "in_scan (STerm agent t) (KPosting a u i) \<longleftrightarrow> agent = a \<and> t = u"
| "in_scan (SDocTerms agent) (KDocTerms a i) \<longleftrightarrow> agent = a"
| "in_scan (SExpiry agent) (KExpiry a v i) \<longleftrightarrow> agent = a"
| "in_scan _ _ \<longleftrightarrow> False"

fun scan_space :: "key_scan \<Rightarrow> bytes" where
  "scan_space (SEntities agent) = ENTITY_PREFIX"
| "scan_space (SEdges agent) = EDGE_PREFIX"
| "scan_space (SEdgesFrom agent src) = EDGE_PREFIX"
| "scan_space (SRecords agent) = RECORD_PREFIX"
| "scan_space (SPostings agent) = POSTINGS_PREFIX"
| "scan_space (STerm agent t) = POSTINGS_PREFIX"
| "scan_space (SDocTerms agent) = DOCTERMS_PREFIX"
| "scan_space (SExpiry agent) = TEMPORAL_INDEX_PREFIX"

fun scan_fields :: "key_scan \<Rightarrow> bytes list" where
  "scan_fields (SEdgesFrom agent src) = [agent, src]"
| "scan_fields (STerm agent t) = [agent, t]"
| "scan_fields (SEntities agent) = [agent]"
| "scan_fields (SEdges agent) = [agent]"
| "scan_fields (SRecords agent) = [agent]"
| "scan_fields (SPostings agent) = [agent]"
| "scan_fields (SDocTerms agent) = [agent]"
| "scan_fields (SExpiry agent) = [agent]"

lemma scan_bytes_Inr:
  "scan_bytes s = Inr p \<longleftrightarrow> (\<forall>f \<in> set (scan_fields s). length f < 2 ^ 32)
     \<and> p = scan_space s @ concat (map lp (scan_fields s))"
  by (cases s) (auto simp: key_defs edge_agent_prefix_def rbind_eq_Inr push_len_prefixed_Inr lp_def)

lemma prefix_lp [simp]:
  "length a < 2 ^ 32 \<Longrightarrow> length b < 2 ^ 32 \<Longrightarrow> prefix (lp a @ r) (lp b @ q) \<longleftrightarrow> a = b \<and> prefix r q"
  by (auto simp: prefix_def)

lemma prefix_lp' [simp]:
  "length a < 2 ^ 32 \<Longrightarrow> length b < 2 ^ 32 \<Longrightarrow> prefix (lp a) (lp b @ q) \<longleftrightarrow> a = b"
  using prefix_lp [of a b "[]" q] by simp

lemma scan_exact:
  assumes "encode_key k = Inr b" "scan_bytes s = Inr p"
  shows "prefix p b \<longleftrightarrow> in_scan s k"
proof (cases "key_space k = scan_space s")
  case True
  have f: "\<forall>f \<in> set (key_fields k @ scan_fields s). length f < 2 ^ 32"
    and e: "prefix p b \<longleftrightarrow> prefix (concat (map lp (scan_fields s))) (key_rest k)"
    using assms True by (auto simp: encode_key_Inr scan_bytes_Inr)
  show ?thesis unfolding e using True f
    by (cases s; cases k) (simp_all add: space_defs ascii_def)
next
  case False
  have "scan_space s \<in> set spaces" by (cases s) (simp_all add: spaces_def)
  then have "\<not> prefix p b" using key_space_eq [OF assms(1), of "scan_space s"] False assms(2)
    by (auto simp: scan_bytes_Inr dest: append_prefixD)
  moreover have "\<not> in_scan s k" using False by (cases "(s, k)" rule: in_scan.cases) simp_all
  ultimately show ?thesis by simp
qed

text \<open>
  C8. Isolation by agent is structural: the bytes of a scan prefix start the bytes of a key
  exactly when the key is of the scanned kind and carries the scan's agent (and its source
  node, or its term), so no scan of one agent meets a key of another.
\<close>

theorem scan_isolation:
  assumes "encode_key k = Inr b" "scan_bytes s = Inr p"
  shows "prefix p b \<longleftrightarrow> in_scan s k"
  using assms by (rule scan_exact)

theorem scan_isolation_witness:
  "\<exists>b p. encode_key (KEdge (ascii ''a'') (ascii ''bs'') (ascii ''r'') (ascii ''d'')) = Inr b
     \<and> scan_bytes (SEdgesFrom (ascii ''ab'') (ascii ''s'')) = Inr p \<and> \<not> prefix p b"
proof -
  obtain b where b: "encode_key (KEdge (ascii ''a'') (ascii ''bs'') (ascii ''r'') (ascii ''d'')) = Inr b"
    by (auto simp: encode_key_Inr ascii_def simp del: encode_key.simps)
  moreover obtain p where p: "scan_bytes (SEdgesFrom (ascii ''ab'') (ascii ''s'')) = Inr p"
    by (auto simp: scan_bytes_Inr ascii_def simp del: scan_bytes.simps)
  ultimately show ?thesis using scan_isolation [OF b p] by (auto simp: ascii_def)
qed

subsection \<open>Decoders\<close>

lemma be_id_Some: "be_id raw = Some i \<longleftrightarrow> raw = u64_be i"
  by (auto simp: be_id_def u64_be_of_be)

lemma strip_prefix_Some: "strip_prefix p b = Some r \<longleftrightarrow> b = p @ r"
  by (auto simp: strip_prefix_def prefix_def)

lemma decode_ids: "node_id b = Some n \<longleftrightarrow> b = node_key n" "vecmap_id b = Some n \<longleftrightarrow> b = vecmap_key n"
  by (simp_all add: node_id_def node_key_def vecmap_id_def vecmap_key_def be_id_Some strip_prefix_Some bind_eq_Some_conv)

lemma decode_agent: "agent_key agent = Inr b \<Longrightarrow> utf8_valid agent \<Longrightarrow> agent_decode b = Some agent"
  by (auto simp: agent_key_def agent_decode_def read_len_enc push_len_prefixed_Inr)

lemma decode_entity:
  "entity_agent_prefix agent = Inr p \<Longrightarrow> entity_key agent i = Inr b \<Longrightarrow> utf8_valid i \<Longrightarrow> entity_id (length p) b = Some i"
  by (auto simp: entity_key_def entity_id_def entity_agent_prefix_def rbind_eq_Inr push_len_prefixed_Inr)

lemma decode_record:
  "record_agent_prefix agent = Inr p \<Longrightarrow> record_key agent i = Inr b \<Longrightarrow> utf8_valid i \<Longrightarrow> record_id (length p) b = Some i"
  by (auto simp: record_key_def record_id_def record_agent_prefix_def rbind_eq_Inr push_len_prefixed_Inr)

lemma decode_posting:
  "postings_term_prefix agent t = Inr p \<Longrightarrow> postings_key agent t n = Inr b \<Longrightarrow> postings_vec_id (length p) b = Some n"
  by (auto simp: postings_key_def postings_vec_id_def)

lemma decode_expiry:
  "expiry_agent_prefix agent = Inr p \<Longrightarrow> expiry_key agent v i = Inr b \<Longrightarrow> utf8_valid i \<Longrightarrow> expiry_decode (length p) b = Some (v, i)"
  by (auto simp: expiry_key_def rbind_eq_Inr expiry_decode_def expiry_agent_prefix_def push_len_prefixed_Inr)

lemma decode_edge_rest:
  "length relation < 2 ^ 32 \<Longrightarrow> utf8_valid relation \<Longrightarrow> utf8_valid dst \<Longrightarrow>
    edge_relation_dst (length q) (q @ u32_be (len32 relation) @ relation @ dst) = Some (relation, dst)"
  by (simp add: edge_relation_dst_def read_len_enc)

lemma decode_edge_from:
  "edge_src_prefix agent src = Inr p \<Longrightarrow> edge_key agent src relation dst = Inr b \<Longrightarrow> utf8_valid relation \<Longrightarrow> utf8_valid dst
    \<Longrightarrow> edge_relation_dst (length p) b = Some (relation, dst)"
  using decode_edge_rest [of relation dst p] by (auto simp: edge_key_def rbind_eq_Inr push_len_prefixed_Inr)

lemma decode_edge:
  "edge_agent_prefix agent = Inr p \<Longrightarrow> edge_key agent src relation dst = Inr b \<Longrightarrow> utf8_valid src \<Longrightarrow> utf8_valid relation
    \<Longrightarrow> utf8_valid dst \<Longrightarrow> edge_src_relation_dst (length p) b = Some (src, relation, dst)"
  using decode_edge_rest [of relation dst "[]"]
  by (auto simp: edge_key_def edge_src_prefix_def edge_agent_prefix_def rbind_eq_Inr push_len_prefixed_Inr
      edge_src_relation_dst_def read_len_enc)

text \<open>
  The decoders return the fields a key was made of, and what they accept they give back:
  an id decoded from a node, vector-map or registry key determines the key, a record, entity,
  posting, expiry or edge key decodes, under the prefix it was scanned by, to its fields.
\<close>

theorem key_decoders:
  assumes "utf8_valid i" "utf8_valid src" "utf8_valid relation" "utf8_valid dst" "utf8_valid agent"
  shows "(node_id b = Some n \<longleftrightarrow> b = node_key n) \<and> (vecmap_id b = Some n \<longleftrightarrow> b = vecmap_key n)
    \<and> (agent_key agent = Inr b \<longrightarrow> agent_decode b = Some agent)
    \<and> (entity_agent_prefix agent = Inr p \<and> entity_key agent i = Inr b \<longrightarrow> entity_id (length p) b = Some i)
    \<and> (record_agent_prefix agent = Inr p \<and> record_key agent i = Inr b \<longrightarrow> record_id (length p) b = Some i)
    \<and> (edge_src_prefix agent src = Inr p \<and> edge_key agent src relation dst = Inr b \<longrightarrow>
         edge_relation_dst (length p) b = Some (relation, dst))
    \<and> (edge_agent_prefix agent = Inr p \<and> edge_key agent src relation dst = Inr b \<longrightarrow>
         edge_src_relation_dst (length p) b = Some (src, relation, dst))
    \<and> (postings_term_prefix agent t = Inr p \<and> postings_key agent t n = Inr b \<longrightarrow> postings_vec_id (length p) b = Some n)
    \<and> (expiry_agent_prefix agent = Inr p \<and> expiry_key agent v i = Inr b \<longrightarrow> expiry_decode (length p) b = Some (v, i))"
  using assms by (auto simp: decode_ids decode_agent
      intro: decode_entity decode_record decode_posting decode_expiry decode_edge_from decode_edge)

theorem key_decoders_witness:
  "agent_decode [109, 101, 116, 97, 47, 97, 103, 101, 110, 116, 115, 47, 0, 0, 0, 2, 98, 111] = Some [98, 111]"
  using key_decoders [of "[]" "[]" "[]" "[]" "[98, 111]"
      "[109, 101, 116, 97, 47, 97, 103, 101, 110, 116, 115, 47, 0, 0, 0, 2, 98, 111]"]
  by (simp add: agent_key_def push_len_prefixed_def REGISTRY_PREFIX_def ascii_def u32_be_def len32_def le_enc_numeral)

subsection \<open>Range bounds\<close>

lemma between_prefix:
  fixes p :: bytes
  shows "p \<le> b \<Longrightarrow> b < p @ q \<Longrightarrow> prefix p b"
proof (induction p arbitrary: b)
  case (Cons x p)
  then show ?case by (cases b) auto
qed simp

lemma byte_le_max: "(x :: u8) \<le> 0xff"
proof -
  have "(0xff :: u8) = - 1" by simp
  then show ?thesis by (metis word_order.extremum)
qed

lemma bump_last_bound:
  "bump_last (rev p) = Some up \<Longrightarrow> p \<le> b \<and> b < rev up \<longleftrightarrow> prefix p b"
proof (induction p arbitrary: up b rule: rev_induct)
  case (snoc x p)
  show ?case
  proof (cases "x < 0xff")
    case True
    then have up: "rev up = p @ [x + 1]" using snoc.prems by auto
    have "x < x + 1" using True by (simp add: word_less_nat_alt unat_arith_simps)
    have step: "c < x + 1 \<longleftrightarrow> c \<le> x" for c
      using True by (simp add: unat_arith_simps less_Suc_eq_le)
    show ?thesis
    proof
      assume b: "p @ [x] \<le> b \<and> b < rev up"
      then have "prefix p b" using between_prefix [of p b "[x + 1]"] bytes_le_append [of p "[x]"] up by auto
      then obtain r where r: "b = p @ r" by (auto elim: prefixE)
      then have "[x] \<le> r" "r < [x + 1]" using b up by auto
      then obtain c r' where "r = c # r'" "x \<le> c" "c < x + 1 \<or> c = x + 1 \<and> r' < []"
        by (cases r) auto
      then have "c = x" using step [of c] by auto
      then show "prefix (p @ [x]) b" using r \<open>r = c # r'\<close> by simp
    next
      assume "prefix (p @ [x]) b"
      then obtain r where "b = (p @ [x]) @ r" by (auto elim: prefixE)
      then show "p @ [x] \<le> b \<and> b < rev up"
        using bytes_le_append [of "p @ [x]" r] \<open>x < x + 1\<close> by (simp add: up)
    qed
  next
    case False
    then have x: "x = 0xff" using byte_le_max [of x] by simp
    have rec: "bump_last (rev p) = Some up" using snoc.prems x by simp
    note IH = snoc.IH [OF rec]
    show ?thesis
    proof
      assume b: "p @ [x] \<le> b \<and> b < rev up"
      then have "prefix p b" using IH [of b] bytes_le_append [of p "[x]"] by auto
      then obtain r where r: "b = p @ r" by (auto elim: prefixE)
      then have "[x] \<le> r" using b by auto
      then obtain c r' where "r = c # r'" "x \<le> c" by (cases r) auto
      moreover have "c \<le> x" unfolding x by (rule byte_le_max)
      ultimately show "prefix (p @ [x]) b" using r by simp
    next
      assume "prefix (p @ [x]) b"
      then show "p @ [x] \<le> b \<and> b < rev up" using IH [of b] prefix_le [of "p @ [x]" b] append_prefixD by blast
    qed
  qed
qed simp

lemma sless_succ: "at \<noteq> I64_MAX \<Longrightarrow> v <s at + 1 \<longleftrightarrow> v \<le>s at"
proof -
  assume ne: "at \<noteq> I64_MAX"
  have "sint at \<noteq> 2 ^ 63 - 1"
  proof
    assume "sint at = 2 ^ 63 - 1"
    then have "sint at = sint I64_MAX" by (simp add: I64_MAX_def)
    then show False using ne by (simp add: signed_word_eqI)
  qed
  then have "sint (at + 1) = sint at + 1"
    using sint_ge [of at] sint_lt [of at] by (simp add: sint_word_ariths signed_take_bit_int_eq_self)
  then show ?thesis by (simp add: word_sless_alt word_sle_eq)
qed

text \<open>
  C7. The bounds of the range scans are exact. The keys from an agent's record prefix up to
  \<open>record_agent_upper_bound\<close> are exactly the byte strings that start with the prefix. The keys
  from an agent's expiry prefix up to \<open>expiry_upper_bound\<close> for an instant below the largest
  one are, among all keys of all keyspaces, exactly the agent's expiry entries that are due,
  over the whole signed range.
\<close>

theorem range_bounds_exact:
  assumes "record_agent_prefix agent = Inr p" "record_agent_upper_bound agent = Inr e"
    and "expiry_agent_prefix agent = Inr q" "expiry_upper_bound agent at = Inr u" "at \<noteq> I64_MAX"
    and "encode_key k = Inr b"
  shows "(p \<le> x \<and> x < e \<longleftrightarrow> prefix p x)
    \<and> (q \<le> b \<and> b < u \<longleftrightarrow> (\<exists>v i. k = KExpiry agent v i \<and> v \<le>s at))"
proof
  obtain up where "bump_last (rev p) = Some up" "e = rev up"
    using assms(1,2) by (auto simp: record_agent_upper_bound_def split: option.splits)
  then show "p \<le> x \<and> x < e \<longleftrightarrow> prefix p x" using bump_last_bound by simp
  have u: "u = q @ sortable (at + 1)"
    using assms(3-5) by (auto simp: expiry_upper_bound_def saturating_succ_def)
  have scan: "prefix q b \<longleftrightarrow> (\<exists>v i. k = KExpiry agent v i)"
    using scan_exact [OF assms(6), of "SExpiry agent" q] assms(3) by (cases k) auto
  have less: "sortable v @ i < sortable (at + 1) \<longleftrightarrow> v \<le>s at" for v i
  proof -
    have "v <s at + 1 \<longleftrightarrow> v \<le>s at" using assms(5) by (rule sless_succ)
    moreover have "sortable v @ i < sortable (at + 1) \<longleftrightarrow> sortable v < sortable (at + 1)"
    proof (cases "sortable v = sortable (at + 1)")
      case True
      then show ?thesis using append_less_same [of "sortable v" i "[]"] by simp
    next
      case False
      then consider "sortable v < sortable (at + 1)" | "sortable (at + 1) < sortable v"
        using linorder_less_linear by blast
      then show ?thesis
        using less_append_eq_length [of "sortable v" "sortable (at + 1)" i "[]"]
          less_append_eq_length [of "sortable (at + 1)" "sortable v" "[]" i] by cases auto
    qed
    ultimately show ?thesis by simp
  qed
  have enc: "b = q @ sortable v @ i" if "k = KExpiry agent v i" for v i
    using that assms(3,6) by (auto simp: expiry_key_def)
  show "q \<le> b \<and> b < u \<longleftrightarrow> (\<exists>v i. k = KExpiry agent v i \<and> v \<le>s at)"
  proof
    assume "q \<le> b \<and> b < u"
    then obtain v i where k: "k = KExpiry agent v i" using between_prefix u scan by blast
    then show "\<exists>v i. k = KExpiry agent v i \<and> v \<le>s at" using \<open>q \<le> b \<and> b < u\<close> enc [OF k] u less [of v i] by auto
  next
    assume "\<exists>v i. k = KExpiry agent v i \<and> v \<le>s at"
    then obtain v i where k: "k = KExpiry agent v i" "v \<le>s at" by blast
    then show "q \<le> b \<and> b < u" using enc [OF k(1)] u less [of v i] bytes_le_append by auto
  qed
qed

theorem range_bounds_exact_witness:
  "\<exists>q u b. expiry_agent_prefix [97] = Inr q \<and> expiry_upper_bound [97] 5 = Inr u
     \<and> expiry_key [97] (- 3) [1] = Inr b \<and> q \<le> b \<and> b < u"
proof -
  obtain p where p: "record_agent_prefix [97] = Inr p" by (simp add: record_agent_prefix_def push_len_prefixed_def)
  have "p = (RECORD_PREFIX @ u32_be 1) @ [97]"
    using p by (simp add: record_agent_prefix_def push_len_prefixed_Inr len32_def)
  then obtain e where e: "record_agent_upper_bound [97] = Inr e"
    by (simp add: record_agent_upper_bound_def p)
  obtain q where q: "expiry_agent_prefix [97] = Inr q" by (simp add: expiry_agent_prefix_def push_len_prefixed_def)
  then obtain u b where u: "expiry_upper_bound [97] 5 = Inr u" "encode_key (KExpiry [97] (- 3) [1]) = Inr b"
    by (simp add: expiry_upper_bound_def expiry_key_def)
  have "(5 :: i64) \<noteq> I64_MAX" "(- 3 :: i64) \<le>s 5" by (simp_all add: I64_MAX_def word_sle_eq)
  then show ?thesis using range_bounds_exact [OF p e q u(1) _ u(2)] q u by auto
qed

end
