(* ===== verification/Record_Codecs.thy ===== *)
theory Record_Codecs
  imports Codec Sst_Format Keys
begin

text \<open>
  The value layouts of the native indexes (\<open>crates/basemyai-engine/src/idx\<close>): graph entity
  and edge, memory record, vector-map entry and allocator metadata, full-text posting, document
  terms and statistics, vector node and vector-index metadata. Each is a fixed header, its
  variable part, and a CRC-32; the decoders' common first checks are \<open>block_open\<close>. Floats are
  carried as their bit patterns (\<open>to_le_bytes\<close> and \<open>from_le_bytes\<close> keep every bit).
\<close>

type_synonym f32 = "32 word"
type_synonym f64 = "64 word"

subsection \<open>What the layouts share\<close>

text \<open>Length, checksum, magic and version, in this order.\<close>

definition block_open :: "artifact \<Rightarrow> bool \<Rightarrow> u32 \<Rightarrow> u16 \<Rightarrow> bytes \<Rightarrow> unit engine_result" where
  "block_open art len_ok magic version buf =
     (if \<not> len_ok then Inl (Corrupt art)
      else
        let crc_at = length buf - 4
        in if crc32 (take crc_at buf) \<noteq> u32_of_le (drop crc_at buf) then Inl (Corrupt art)
           else if u32_of_le (slice 0 4 buf) \<noteq> magic then Inl (Corrupt art)
           else if u16_of_le (slice 4 6 buf) \<noteq> version
             then Inl (UnsupportedVersion art version (u16_of_le (slice 4 6 buf)))
           else Inr ())"

text \<open>The validity end: a flag byte and the instant, 0 when there is none.\<close>

definition encode_until :: "i64 option \<Rightarrow> bytes" where
  "encode_until valid_until =
     (case valid_until of Some v \<Rightarrow> 1 # u64_le v | None \<Rightarrow> 0 # u64_le 0)"

definition decode_until :: "artifact \<Rightarrow> u8 \<Rightarrow> bytes \<Rightarrow> i64 option engine_result" where
  "decode_until art has_valid_until raw =
     (if has_valid_until > 1 then Inl (Corrupt art)
      else Inr (if has_valid_until = 1 then Some (u64_of_le raw) else None))"

definition read_text :: "artifact \<Rightarrow> bytes \<Rightarrow> nat \<Rightarrow> nat \<Rightarrow> bytes engine_result" where
  "read_text art buf pos len =
     (case from_utf8 (slice pos (pos + len) buf) of None \<Rightarrow> Inl (Corrupt art) | Some s \<Rightarrow> Inr s)"

definition len16 :: "'a list \<Rightarrow> u16" where "len16 xs = word_of_nat (length xs)"

definition fits16 :: "'a list \<Rightarrow> bool" where "fits16 xs \<longleftrightarrow> length xs < 2 ^ 16"
definition fits32 :: "'a list \<Rightarrow> bool" where "fits32 xs \<longleftrightarrow> length xs < 2 ^ 32"

subsection \<open>Graph edge\<close>

definition GRAPH_EDGE_MAGIC :: u32 where "GRAPH_EDGE_MAGIC = 0x47454447"
definition GRAPH_EDGE_VERSION :: u16 where "GRAPH_EDGE_VERSION = 1"
definition EDGE_RECORD_LEN :: nat where "EDGE_RECORD_LEN = 4 + 2 + 8 + 8 + 1 + 8 + 4"

record graph_edge_meta =
  ge_weight :: f64
  ge_valid_from :: i64
  ge_valid_until :: "i64 option"

definition encode_graph_edge :: "graph_edge_meta \<Rightarrow> bytes" where
  "encode_graph_edge edge = with_crc
     (u32_le GRAPH_EDGE_MAGIC @ u16_le GRAPH_EDGE_VERSION @ u64_le (ge_weight edge)
      @ u64_le (ge_valid_from edge) @ encode_until (ge_valid_until edge))"

definition decode_graph_edge :: "bytes \<Rightarrow> graph_edge_meta engine_result" where
  "decode_graph_edge buf =
     rbind (block_open GraphEdge (length buf = EDGE_RECORD_LEN) GRAPH_EDGE_MAGIC GRAPH_EDGE_VERSION buf) (\<lambda>_.
     rbind (decode_until GraphEdge (buf ! 22) (slice 23 31 buf)) (\<lambda>valid_until.
       Inr \<lparr>ge_weight = u64_of_le (slice 6 14 buf), ge_valid_from = u64_of_le (slice 14 22 buf),
            ge_valid_until = valid_until\<rparr>))"

subsection \<open>Graph entity\<close>

definition GRAPH_ENTITY_MAGIC :: u32 where "GRAPH_ENTITY_MAGIC = 0x47454E54"
definition GRAPH_ENTITY_VERSION :: u16 where "GRAPH_ENTITY_VERSION = 1"
definition ENTITY_HEADER_LEN :: nat where "ENTITY_HEADER_LEN = 4 + 2 + 2 + 4 + 8 + 1 + 8"

record graph_entity =
  gn_kind :: bytes
  gn_label :: bytes
  gn_valid_from :: i64
  gn_valid_until :: "i64 option"

definition encode_graph_entity :: "graph_entity \<Rightarrow> bytes engine_result" where
  "encode_graph_entity entity =
     (if \<not> fits16 (gn_kind entity) then Inl (Corrupt GraphEntity)
      else if \<not> fits32 (gn_label entity) then Inl (Corrupt GraphEntity)
      else Inr (with_crc
        (u32_le GRAPH_ENTITY_MAGIC @ u16_le GRAPH_ENTITY_VERSION @ u16_le (len16 (gn_kind entity))
         @ u32_le (len32 (gn_label entity)) @ u64_le (gn_valid_from entity)
         @ encode_until (gn_valid_until entity) @ gn_kind entity @ gn_label entity)))"

definition decode_graph_entity :: "bytes \<Rightarrow> graph_entity engine_result" where
  "decode_graph_entity buf =
     rbind (block_open GraphEntity (length buf \<ge> ENTITY_HEADER_LEN + 4) GRAPH_ENTITY_MAGIC GRAPH_ENTITY_VERSION buf) (\<lambda>_.
     let kind_len = unat (u16_of_le (slice 6 8 buf));
         label_len = unat (u32_of_le (slice 8 12 buf))
     in rbind (decode_until GraphEntity (buf ! 20) (slice 21 29 buf)) (\<lambda>valid_until.
        if length buf \<noteq> ENTITY_HEADER_LEN + kind_len + label_len + 4 then Inl (Corrupt GraphEntity)
        else
          rbind (read_text GraphEntity buf ENTITY_HEADER_LEN kind_len) (\<lambda>kind.
          rbind (read_text GraphEntity buf (ENTITY_HEADER_LEN + kind_len) label_len) (\<lambda>label.
            Inr \<lparr>gn_kind = kind, gn_label = label, gn_valid_from = u64_of_le (slice 12 20 buf),
                 gn_valid_until = valid_until\<rparr>))))"

subsection \<open>Memory record\<close>

definition MEMORY_RECORD_MAGIC :: u32 where "MEMORY_RECORD_MAGIC = 0x4D524543"
definition MEMORY_RECORD_VERSION :: u16 where "MEMORY_RECORD_VERSION = 1"
definition RECORD_HEADER_LEN :: nat where "RECORD_HEADER_LEN = 4 + 2 + 2 + 4 + 2 + 8 + 1 + 8 + 8 + 8 + 8"

record memory_record =
  mr_layer :: bytes
  mr_content :: bytes
  mr_source :: bytes
  mr_valid_from :: i64
  mr_valid_until :: "i64 option"
  mr_importance :: f64
  mr_last_access :: i64
  mr_vec_id :: u64

definition encode_memory_record :: "memory_record \<Rightarrow> bytes engine_result" where
  "encode_memory_record r =
     (if \<not> fits16 (mr_layer r) then Inl (Corrupt MemoryRecord)
      else if \<not> fits32 (mr_content r) then Inl (Corrupt MemoryRecord)
      else if \<not> fits16 (mr_source r) then Inl (Corrupt MemoryRecord)
      else Inr (with_crc
        (u32_le MEMORY_RECORD_MAGIC @ u16_le MEMORY_RECORD_VERSION @ u16_le (len16 (mr_layer r))
         @ u32_le (len32 (mr_content r)) @ u16_le (len16 (mr_source r)) @ u64_le (mr_valid_from r)
         @ encode_until (mr_valid_until r) @ u64_le (mr_importance r) @ u64_le (mr_last_access r)
         @ u64_le (mr_vec_id r) @ mr_layer r @ mr_content r @ mr_source r)))"

definition decode_memory_record :: "bytes \<Rightarrow> memory_record engine_result" where
  "decode_memory_record buf =
     rbind (block_open MemoryRecord (length buf \<ge> RECORD_HEADER_LEN + 4) MEMORY_RECORD_MAGIC MEMORY_RECORD_VERSION buf) (\<lambda>_.
     let layer_len = unat (u16_of_le (slice 6 8 buf));
         content_len = unat (u32_of_le (slice 8 12 buf));
         source_len = unat (u16_of_le (slice 12 14 buf))
     in rbind (decode_until MemoryRecord (buf ! 22) (slice 23 31 buf)) (\<lambda>valid_until.
        if length buf \<noteq> RECORD_HEADER_LEN + layer_len + content_len + source_len + 4
        then Inl (Corrupt MemoryRecord)
        else
          rbind (read_text MemoryRecord buf RECORD_HEADER_LEN layer_len) (\<lambda>layer.
          rbind (read_text MemoryRecord buf (RECORD_HEADER_LEN + layer_len) content_len) (\<lambda>content.
          rbind (read_text MemoryRecord buf (RECORD_HEADER_LEN + layer_len + content_len) source_len) (\<lambda>source.
            Inr \<lparr>mr_layer = layer, mr_content = content, mr_source = source,
                 mr_valid_from = u64_of_le (slice 14 22 buf), mr_valid_until = valid_until,
                 mr_importance = u64_of_le (slice 31 39 buf), mr_last_access = u64_of_le (slice 39 47 buf),
                 mr_vec_id = u64_of_le (slice 47 55 buf)\<rparr>)))))"

subsection \<open>Vector map\<close>

definition MEMORY_VECMAP_MAGIC :: u32 where "MEMORY_VECMAP_MAGIC = 0x4D564D50"
definition MEMORY_VECMAP_VERSION :: u16 where "MEMORY_VECMAP_VERSION = 1"
definition VECMAP_HEADER_LEN :: nat where "VECMAP_HEADER_LEN = 4 + 2 + 4 + 4"

record vec_map_entry =
  vm_agent :: bytes
  vm_id :: bytes

definition encode_vec_map :: "vec_map_entry \<Rightarrow> bytes engine_result" where
  "encode_vec_map entry =
     (if \<not> fits32 (vm_agent entry) then Inl (Corrupt MemoryVecMap)
      else if \<not> fits32 (vm_id entry) then Inl (Corrupt MemoryVecMap)
      else Inr (with_crc
        (u32_le MEMORY_VECMAP_MAGIC @ u16_le MEMORY_VECMAP_VERSION @ u32_le (len32 (vm_agent entry))
         @ u32_le (len32 (vm_id entry)) @ vm_agent entry @ vm_id entry)))"

definition decode_vec_map :: "bytes \<Rightarrow> vec_map_entry engine_result" where
  "decode_vec_map buf =
     rbind (block_open MemoryVecMap (length buf \<ge> VECMAP_HEADER_LEN + 4) MEMORY_VECMAP_MAGIC MEMORY_VECMAP_VERSION buf) (\<lambda>_.
     let agent_len = unat (u32_of_le (slice 6 10 buf));
         id_len = unat (u32_of_le (slice 10 14 buf))
     in if length buf \<noteq> VECMAP_HEADER_LEN + agent_len + id_len + 4 then Inl (Corrupt MemoryVecMap)
        else
          rbind (read_text MemoryVecMap buf VECMAP_HEADER_LEN agent_len) (\<lambda>agent.
          rbind (read_text MemoryVecMap buf (VECMAP_HEADER_LEN + agent_len) id_len) (\<lambda>i.
            Inr \<lparr>vm_agent = agent, vm_id = i\<rparr>)))"

subsection \<open>Allocator metadata\<close>

definition MEMORY_INDEX_META_MAGIC :: u32 where "MEMORY_INDEX_META_MAGIC = 0x4D4D4554"
definition MEMORY_INDEX_META_VERSION :: u16 where "MEMORY_INDEX_META_VERSION = 1"
definition MEMORY_META_LEN :: nat where "MEMORY_META_LEN = 4 + 2 + 8 + 4"

record memory_index_meta =
  mm_next_vec_id :: u64

definition encode_memory_meta :: "memory_index_meta \<Rightarrow> bytes engine_result" where
  "encode_memory_meta meta = Inr (with_crc
     (u32_le MEMORY_INDEX_META_MAGIC @ u16_le MEMORY_INDEX_META_VERSION @ u64_le (mm_next_vec_id meta)))"

definition decode_memory_meta :: "bytes \<Rightarrow> memory_index_meta engine_result" where
  "decode_memory_meta buf =
     rbind (block_open MemoryIndexMeta (length buf = MEMORY_META_LEN) MEMORY_INDEX_META_MAGIC
              MEMORY_INDEX_META_VERSION buf) (\<lambda>_.
       Inr \<lparr>mm_next_vec_id = u64_of_le (slice 6 14 buf)\<rparr>)"

subsection \<open>Full-text posting and statistics\<close>

definition FTS_POSTING_MAGIC :: u32 where "FTS_POSTING_MAGIC = 0x46505354"
definition FTS_POSTING_VERSION :: u16 where "FTS_POSTING_VERSION = 1"
definition POSTING_LEN :: nat where "POSTING_LEN = 4 + 2 + 4 + 4"

record fts_posting =
  fp_tf :: u32

definition encode_fts_posting :: "fts_posting \<Rightarrow> bytes engine_result" where
  "encode_fts_posting posting = Inr (with_crc
     (u32_le FTS_POSTING_MAGIC @ u16_le FTS_POSTING_VERSION @ u32_le (fp_tf posting)))"

definition decode_fts_posting :: "bytes \<Rightarrow> fts_posting engine_result" where
  "decode_fts_posting buf =
     rbind (block_open FtsPosting (length buf = POSTING_LEN) FTS_POSTING_MAGIC FTS_POSTING_VERSION buf) (\<lambda>_.
       Inr \<lparr>fp_tf = u32_of_le (slice 6 10 buf)\<rparr>)"

definition FTS_STATS_MAGIC :: u32 where "FTS_STATS_MAGIC = 0x46535453"
definition FTS_STATS_VERSION :: u16 where "FTS_STATS_VERSION = 1"
definition STATS_LEN :: nat where "STATS_LEN = 4 + 2 + 8 + 8 + 4"

record fts_stats =
  fs_doc_count :: u64
  fs_total_terms :: u64

definition encode_fts_stats :: "fts_stats \<Rightarrow> bytes engine_result" where
  "encode_fts_stats s = Inr (with_crc
     (u32_le FTS_STATS_MAGIC @ u16_le FTS_STATS_VERSION @ u64_le (fs_doc_count s) @ u64_le (fs_total_terms s)))"

definition decode_fts_stats :: "bytes \<Rightarrow> fts_stats engine_result" where
  "decode_fts_stats buf =
     rbind (block_open FtsStats (length buf = STATS_LEN) FTS_STATS_MAGIC FTS_STATS_VERSION buf) (\<lambda>_.
       Inr \<lparr>fs_doc_count = u64_of_le (slice 6 14 buf), fs_total_terms = u64_of_le (slice 14 22 buf)\<rparr>)"

subsection \<open>Document terms\<close>

definition FTS_DOCTERMS_MAGIC :: u32 where "FTS_DOCTERMS_MAGIC = 0x46445443"
definition FTS_DOCTERMS_VERSION :: u16 where "FTS_DOCTERMS_VERSION = 1"
definition DOCTERMS_HEADER_LEN :: nat where "DOCTERMS_HEADER_LEN = 4 + 2 + 4"
definition MIN_ENTRY_LEN :: nat where "MIN_ENTRY_LEN = 2 + 4"

record doc_term =
  dt_term :: bytes
  dt_tf :: u32

type_synonym fts_doc_terms = "doc_term list"

definition encode_doc_term :: "doc_term \<Rightarrow> bytes engine_result" where
  "encode_doc_term e =
     (if \<not> fits16 (dt_term e) then Inl (Corrupt FtsDocTerms)
      else Inr (u16_le (len16 (dt_term e)) @ u32_le (dt_tf e) @ dt_term e))"

definition encode_doc_terms :: "fts_doc_terms \<Rightarrow> bytes engine_result" where
  "encode_doc_terms doc =
     (if \<not> fits32 doc then Inl (Corrupt FtsDocTerms)
      else rbind (rmap encode_doc_term doc) (\<lambda>entries.
        Inr (with_crc (u32_le FTS_DOCTERMS_MAGIC @ u16_le FTS_DOCTERMS_VERSION @ u32_le (len32 doc)
                       @ concat entries))))"

fun decode_doc_entries :: "nat \<Rightarrow> bytes \<Rightarrow> nat \<Rightarrow> nat \<Rightarrow> (fts_doc_terms \<times> nat) engine_result" where
  "decode_doc_entries 0 buf crc_at pos = Inr ([], pos)"
| "decode_doc_entries (Suc n) buf crc_at pos =
     (if pos + MIN_ENTRY_LEN > crc_at then Inl (Corrupt FtsDocTerms)
      else
        let term_len = unat (u16_of_le (slice pos (pos + 2) buf));
            tf = u32_of_le (slice (pos + 2) (pos + 6) buf)
        in if pos + 6 + term_len > crc_at then Inl (Corrupt FtsDocTerms)
           else
             rbind (read_text FtsDocTerms buf (pos + 6) term_len) (\<lambda>t.
             rbind (decode_doc_entries n buf crc_at (pos + 6 + term_len)) (\<lambda>(rest, end).
               Inr (\<lparr>dt_term = t, dt_tf = tf\<rparr> # rest, end))))"

definition decode_doc_terms :: "bytes \<Rightarrow> fts_doc_terms engine_result" where
  "decode_doc_terms buf =
     rbind (block_open FtsDocTerms (length buf \<ge> DOCTERMS_HEADER_LEN + 4) FTS_DOCTERMS_MAGIC
              FTS_DOCTERMS_VERSION buf) (\<lambda>_.
     let crc_at = length buf - 4;
         count = unat (u32_of_le (slice 6 10 buf));
         max_possible_entries = (crc_at - DOCTERMS_HEADER_LEN) div MIN_ENTRY_LEN
     in if count > max_possible_entries then Inl (Corrupt FtsDocTerms)
        else rbind (decode_doc_entries count buf crc_at DOCTERMS_HEADER_LEN) (\<lambda>(terms, pos).
          if pos \<noteq> crc_at then Inl (Corrupt FtsDocTerms) else Inr terms))"

definition doc_length :: "fts_doc_terms \<Rightarrow> nat" where
  "doc_length doc = sum_list (map (\<lambda>t. unat (dt_tf t)) doc)"

subsection \<open>Vector node\<close>

definition VECTOR_NODE_MAGIC :: u32 where "VECTOR_NODE_MAGIC = 0x564E4F44"
definition VECTOR_NODE_VERSION :: u16 where "VECTOR_NODE_VERSION = 2"
definition FLAG_DELETED :: u8 where "FLAG_DELETED = 1"
definition FLAG_MASK :: u8 where "FLAG_MASK = FLAG_DELETED"
definition NODE_HEADER_LEN :: nat where "NODE_HEADER_LEN = 4 + 2 + 1 + 2 + 2"

record vector_node =
  vn_vector :: "f32 list"
  vn_neighbors :: "u64 list"
  vn_deleted :: bool

definition encode_vector_node :: "vector_node \<Rightarrow> bytes engine_result" where
  "encode_vector_node node =
     (if \<not> fits16 (vn_vector node) then Inl (Corrupt VectorNode)
      else if \<not> fits16 (vn_neighbors node) then Inl (Corrupt VectorNode)
      else Inr (with_crc
        (u32_le VECTOR_NODE_MAGIC @ u16_le VECTOR_NODE_VERSION
         @ [if vn_deleted node then FLAG_DELETED else 0] @ u16_le (len16 (vn_vector node))
         @ u16_le (len16 (vn_neighbors node)) @ concat (map u32_le (vn_vector node))
         @ concat (map u64_le (vn_neighbors node)))))"

fun read_f32s :: "nat \<Rightarrow> bytes \<Rightarrow> nat \<Rightarrow> f32 list" where
  "read_f32s 0 buf pos = []"
| "read_f32s (Suc n) buf pos = u32_of_le (slice pos (pos + 4) buf) # read_f32s n buf (pos + 4)"

fun read_u64s :: "nat \<Rightarrow> bytes \<Rightarrow> nat \<Rightarrow> u64 list" where
  "read_u64s 0 buf pos = []"
| "read_u64s (Suc n) buf pos = u64_of_le (slice pos (pos + 8) buf) # read_u64s n buf (pos + 8)"

definition decode_vector_node :: "bytes \<Rightarrow> vector_node engine_result" where
  "decode_vector_node buf =
     rbind (block_open VectorNode (length buf \<ge> NODE_HEADER_LEN + 4) VECTOR_NODE_MAGIC VECTOR_NODE_VERSION buf) (\<lambda>_.
     let flags = buf ! 6;
         dim = unat (u16_of_le (slice 7 9 buf));
         neighbor_count = unat (u16_of_le (slice 9 11 buf))
     in if flags AND NOT FLAG_MASK \<noteq> 0 then Inl (Corrupt VectorNode)
        else if length buf \<noteq> NODE_HEADER_LEN + dim * 4 + neighbor_count * 8 + 4 then Inl (Corrupt VectorNode)
        else Inr \<lparr>vn_vector = read_f32s dim buf NODE_HEADER_LEN,
                  vn_neighbors = read_u64s neighbor_count buf (NODE_HEADER_LEN + dim * 4),
                  vn_deleted = (flags AND FLAG_DELETED \<noteq> 0)\<rparr>)"

subsection \<open>Vector-index metadata\<close>

definition VECTOR_INDEX_META_MAGIC :: u32 where "VECTOR_INDEX_META_MAGIC = 0x564D4554"
definition VECTOR_INDEX_META_VERSION :: u16 where "VECTOR_INDEX_META_VERSION = 1"
definition VECTOR_META_LEN :: nat where "VECTOR_META_LEN = 4 + 2 + 2 + 2 + 2 + 4 + 8 + 8 + 8 + 4"

record vector_index_params =
  vp_dim :: nat
  vp_max_degree :: nat
  vp_beam_width :: nat
  vp_alpha :: f32

record vector_index_meta =
  vx_params :: vector_index_params
  vx_epoch :: u64
  vx_count :: u64
  vx_entry_point :: "u64 option"

definition encode_vector_meta :: "vector_index_meta \<Rightarrow> bytes engine_result" where
  "encode_vector_meta meta =
     (let p = vx_params meta
      in if vp_dim p \<ge> 2 ^ 16 \<or> vp_max_degree p \<ge> 2 ^ 16 \<or> vp_beam_width p \<ge> 2 ^ 16
         then Inl (Corrupt VectorIndexMeta)
         else Inr (with_crc
           (u32_le VECTOR_INDEX_META_MAGIC @ u16_le VECTOR_INDEX_META_VERSION
            @ u16_le (word_of_nat (vp_dim p)) @ u16_le (word_of_nat (vp_max_degree p))
            @ u16_le (word_of_nat (vp_beam_width p)) @ u32_le (vp_alpha p) @ u64_le (vx_epoch meta)
            @ u64_le (vx_count meta)
            @ u64_le (case vx_entry_point meta of Some e \<Rightarrow> e | None \<Rightarrow> 0))))"

definition decode_vector_meta :: "bytes \<Rightarrow> vector_index_meta engine_result" where
  "decode_vector_meta buf =
     rbind (block_open VectorIndexMeta (length buf = VECTOR_META_LEN) VECTOR_INDEX_META_MAGIC
              VECTOR_INDEX_META_VERSION buf) (\<lambda>_.
     let count = u64_of_le (slice 24 32 buf)
     in Inr \<lparr>vx_params = \<lparr>vp_dim = unat (u16_of_le (slice 6 8 buf)), vp_max_degree = unat (u16_of_le (slice 8 10 buf)),
               vp_beam_width = unat (u16_of_le (slice 10 12 buf)), vp_alpha = u32_of_le (slice 12 16 buf)\<rparr>,
             vx_epoch = u64_of_le (slice 16 24 buf), vx_count = count,
             vx_entry_point = (if count > 0 then Some (u64_of_le (slice 32 40 buf)) else None)\<rparr>)"

subsection \<open>The contract of a record codec\<close>

text \<open>
  Encoding succeeds exactly on what fits the width of the length fields; what was encoded is
  decoded back; whatever decodes carries its checksum. A record codec is a checked codec, so
  it detects every single-byte change.
\<close>

locale record_codec =
  fixes enc :: "'a \<Rightarrow> 'e + bytes" and dec :: "bytes \<Rightarrow> 'e + 'a" and fits :: "'a \<Rightarrow> bool" and text_ok :: "'a \<Rightarrow> bool"
    and magic :: u32
  assumes enc_fits: "fits x \<longleftrightarrow> (\<exists>b. enc x = Inr b)"
    and dec_enc: "enc x = Inr b \<Longrightarrow> text_ok x \<Longrightarrow> dec b = Inr x"
    and dec_checked: "dec bs = Inr x \<Longrightarrow> \<exists>body. bs = body @ u32_le (crc32 body)"
    and dec_magic: "dec bs = Inr x \<Longrightarrow> u32_of_le (slice 0 4 bs) = magic"

sublocale record_codec \<subseteq> checked: checked_codec "\<lambda>x. projr (enc x)" dec "\<lambda>x. fits x \<and> text_ok x" "[]"
proof unfold_locales
  show "dec (projr (enc x)) = Inr x" if "fits x \<and> text_ok x" for x
    using that enc_fits [of x] dec_enc [of x] by auto
  show "\<exists>body. bs = body @ u32_le (crc32 body) @ []" if "dec bs = Inr x" for bs x
    using dec_checked [OF that] by simp
qed

context record_codec begin

lemma enc_injective: "enc x = Inr b \<Longrightarrow> enc y = Inr b \<Longrightarrow> text_ok x \<Longrightarrow> text_ok y \<Longrightarrow> x = y"
  using dec_enc [of x b] dec_enc [of y b] by simp

lemma change_detected:
  assumes "enc x = Inr b" "text_ok x" "i < length b" "c \<noteq> b ! i"
  shows "\<exists>e. dec (b[i := c]) = Inl e"
  using checked.single_byte_change_detected [OF dec_enc [OF assms(1,2)] assms(3,4)] .

end

subsection \<open>Facts the layouts share\<close>

lemma block_open_with_crc [simp]:
  "block_open art True m v (with_crc (u32_le m @ u16_le v @ rest)) = Inr ()"
  by (simp add: block_open_def with_crc_def slice_append_left slice_def)

lemma block_open_checked:
  assumes "block_open art ok m v buf = Inr u" "ok \<Longrightarrow> 4 \<le> length buf"
  shows "\<exists>body. buf = body @ u32_le (crc32 body)"
proof -
  have "4 \<le> length buf" "crc32 (take (length buf - 4) buf) = u32_of_le (drop (length buf - 4) buf)"
    using assms by (auto simp: block_open_def Let_def split: if_splits)
  then have "buf = take (length buf - 4) buf @ u32_le (crc32 (take (length buf - 4) buf))"
    by (simp add: u32_le_of_le)
  then show ?thesis by blast
qed

lemma decoded_checked:
  assumes "rbind (block_open art ok m v buf) k = Inr x" "ok \<Longrightarrow> 4 \<le> length buf"
  shows "\<exists>body. buf = body @ u32_le (crc32 body)"
  using assms block_open_checked by (auto simp: rbind_eq_Inr)

lemma decoded_magic:
  "rbind (block_open art ok m v buf) k = Inr x \<Longrightarrow> u32_of_le (slice 0 4 buf) = m"
  by (auto simp: block_open_def rbind_eq_Inr Let_def split: if_splits)

lemma length_encode_until [simp]: "length (encode_until v) = 9"
  by (simp add: encode_until_def split: option.split)

lemma decode_encode_until [simp]:
  "decode_until art (encode_until v ! 0) (drop 1 (encode_until v)) = Inr v"
  by (cases v) (simp_all add: encode_until_def decode_until_def)

lemma unat_len16 [simp]: "fits16 xs \<Longrightarrow> unat (len16 xs) = length xs"
  by (simp add: fits16_def len16_def unat_of_nat)

lemma unat_len32' [simp]: "fits32 xs \<Longrightarrow> unat (len32 xs) = length xs"
  by (simp add: fits32_def)

lemmas record_lens = EDGE_RECORD_LEN_def ENTITY_HEADER_LEN_def RECORD_HEADER_LEN_def VECMAP_HEADER_LEN_def
  MEMORY_META_LEN_def POSTING_LEN_def STATS_LEN_def DOCTERMS_HEADER_LEN_def MIN_ENTRY_LEN_def NODE_HEADER_LEN_def
  VECTOR_META_LEN_def

lemma until_at:
  "length pre = n \<Longrightarrow> decode_until art ((pre @ encode_until v @ post) ! n) (slice (Suc n) (n + 9) (pre @ encode_until v @ post)) = Inr v"
  by (cases v) (simp_all add: encode_until_def decode_until_def slice_def nth_append)

lemma read_text_at:
  "length pre = n \<Longrightarrow> utf8_valid t \<Longrightarrow> read_text art (pre @ t @ post) n (length t) = Inr t"
  by (simp add: read_text_def slice_def)

lemma with_crc_split: "with_crc (pre @ mid @ post) = pre @ mid @ post @ u32_le (crc32 (pre @ mid @ post))"
  by (simp add: with_crc_def)

text \<open>Reading a field at a known position.\<close>

lemma field_at: "length pre = n \<Longrightarrow> length f = k \<Longrightarrow> slice n (n + k) (pre @ f @ post) = f"
  by (simp add: slice_def)

lemma graph_edge_roundtrip: "decode_graph_edge (encode_graph_edge e) = Inr e"
proof -
  define b where "b = encode_graph_edge e"
  have "decode_until GraphEdge (b ! 22) (slice 23 31 b) = Inr (ge_valid_until e)"
    using until_at [of "u32_le GRAPH_EDGE_MAGIC @ u16_le GRAPH_EDGE_VERSION @ u64_le (ge_weight e) @ u64_le (ge_valid_from e)" 22]
    by (simp add: b_def encode_graph_edge_def with_crc_def)
  moreover have "u64_of_le (slice 6 14 b) = ge_weight e" "u64_of_le (slice 14 22 b) = ge_valid_from e"
    by (simp_all add: b_def encode_graph_edge_def with_crc_def slice_def)
  moreover have "block_open GraphEdge True GRAPH_EDGE_MAGIC GRAPH_EDGE_VERSION b = Inr ()" "length b = 35"
    by (simp_all add: b_def encode_graph_edge_def)
  ultimately show ?thesis by (simp add: decode_graph_edge_def record_lens flip: b_def)
qed

lemma graph_entity_roundtrip:
  assumes "encode_graph_entity e = Inr b" "utf8_valid (gn_kind e)" "utf8_valid (gn_label e)"
  shows "decode_graph_entity b = Inr e"
proof -
  let ?h = "u32_le GRAPH_ENTITY_MAGIC @ u16_le GRAPH_ENTITY_VERSION @ u16_le (len16 (gn_kind e))
         @ u32_le (len32 (gn_label e)) @ u64_le (gn_valid_from e)"
  have f: "fits16 (gn_kind e)" "fits32 (gn_label e)"
    and b: "b = with_crc (?h @ encode_until (gn_valid_until e) @ gn_kind e @ gn_label e)"
    using assms(1) by (auto simp: encode_graph_entity_def split: if_splits)
  have "decode_until GraphEntity (b ! 20) (slice 21 29 b) = Inr (gn_valid_until e)"
    using until_at [of ?h 20] by (simp add: b with_crc_def)
  moreover have "read_text GraphEntity b 29 (length (gn_kind e)) = Inr (gn_kind e)"
    using read_text_at [of "?h @ encode_until (gn_valid_until e)" 29 "gn_kind e"] assms(2) by (simp add: b with_crc_def)
  moreover have "read_text GraphEntity b (29 + length (gn_kind e)) (length (gn_label e)) = Inr (gn_label e)"
    using read_text_at [of "?h @ encode_until (gn_valid_until e) @ gn_kind e" _ "gn_label e"] assms(3) by (simp add: b with_crc_def)
  moreover have "unat (u16_of_le (slice 6 8 b)) = length (gn_kind e)" "unat (u32_of_le (slice 8 12 b)) = length (gn_label e)"
    "u64_of_le (slice 12 20 b) = gn_valid_from e"
    using f by (simp_all add: b with_crc_def slice_def)
  moreover have "block_open GraphEntity True GRAPH_ENTITY_MAGIC GRAPH_ENTITY_VERSION b = Inr ()"
    "length b = 33 + length (gn_kind e) + length (gn_label e)"
    by (simp_all add: b)
  ultimately show ?thesis by (simp add: decode_graph_entity_def record_lens)
qed

lemma memory_record_roundtrip:
  assumes "encode_memory_record r = Inr b"
    and "utf8_valid (mr_layer r)" "utf8_valid (mr_content r)" "utf8_valid (mr_source r)"
  shows "decode_memory_record b = Inr r"
proof -
  let ?h = "u32_le MEMORY_RECORD_MAGIC @ u16_le MEMORY_RECORD_VERSION @ u16_le (len16 (mr_layer r))
         @ u32_le (len32 (mr_content r)) @ u16_le (len16 (mr_source r)) @ u64_le (mr_valid_from r)"
  let ?t = "u64_le (mr_importance r) @ u64_le (mr_last_access r) @ u64_le (mr_vec_id r)"
  let ?e = "encode_until (mr_valid_until r)" and ?a = "mr_layer r" and ?c = "mr_content r" and ?s = "mr_source r"
  have f: "fits16 ?a" "fits32 ?c" "fits16 ?s" and b: "b = with_crc (?h @ ?e @ ?t @ ?a @ ?c @ ?s)"
    using assms(1) by (auto simp: encode_memory_record_def split: if_splits)
  have "decode_until MemoryRecord (b ! 22) (slice 23 31 b) = Inr (mr_valid_until r)"
    using until_at [of ?h 22] by (simp add: b with_crc_def)
  moreover have "read_text MemoryRecord b 55 (length ?a) = Inr ?a"
    using read_text_at [of "?h @ ?e @ ?t" 55 ?a] assms(2) by (simp add: b with_crc_def)
  moreover have "read_text MemoryRecord b (55 + length ?a) (length ?c) = Inr ?c"
    using read_text_at [of "?h @ ?e @ ?t @ ?a" _ ?c] assms(3) by (simp add: b with_crc_def)
  moreover have "read_text MemoryRecord b (55 + length ?a + length ?c) (length ?s) = Inr ?s"
    using read_text_at [of "?h @ ?e @ ?t @ ?a @ ?c" _ ?s] assms(4) by (simp add: b with_crc_def add.assoc)
  moreover have "unat (u16_of_le (slice 6 8 b)) = length ?a" "unat (u32_of_le (slice 8 12 b)) = length ?c"
    "unat (u16_of_le (slice 12 14 b)) = length ?s" "u64_of_le (slice 14 22 b) = mr_valid_from r"
    "u64_of_le (slice 31 39 b) = mr_importance r" "u64_of_le (slice 39 47 b) = mr_last_access r"
    "u64_of_le (slice 47 55 b) = mr_vec_id r"
    using f by (simp_all add: b with_crc_def slice_def)
  moreover have "block_open MemoryRecord True MEMORY_RECORD_MAGIC MEMORY_RECORD_VERSION b = Inr ()"
    "length b = 59 + length ?a + length ?c + length ?s"
    by (simp_all add: b)
  ultimately show ?thesis by (simp add: decode_memory_record_def record_lens)
qed

lemma vec_map_roundtrip:
  assumes "encode_vec_map m = Inr b" "utf8_valid (vm_agent m)" "utf8_valid (vm_id m)"
  shows "decode_vec_map b = Inr m"
proof -
  let ?h = "u32_le MEMORY_VECMAP_MAGIC @ u16_le MEMORY_VECMAP_VERSION @ u32_le (len32 (vm_agent m)) @ u32_le (len32 (vm_id m))"
  have f: "fits32 (vm_agent m)" "fits32 (vm_id m)" and b: "b = with_crc (?h @ vm_agent m @ vm_id m)"
    using assms(1) by (auto simp: encode_vec_map_def split: if_splits)
  have "read_text MemoryVecMap b 14 (length (vm_agent m)) = Inr (vm_agent m)"
    using read_text_at [of ?h 14 "vm_agent m"] assms(2) by (simp add: b with_crc_def)
  moreover have "read_text MemoryVecMap b (14 + length (vm_agent m)) (length (vm_id m)) = Inr (vm_id m)"
    using read_text_at [of "?h @ vm_agent m" _ "vm_id m"] assms(3) by (simp add: b with_crc_def)
  moreover have "unat (u32_of_le (slice 6 10 b)) = length (vm_agent m)" "unat (u32_of_le (slice 10 14 b)) = length (vm_id m)"
    using f by (simp_all add: b with_crc_def slice_def)
  moreover have "block_open MemoryVecMap True MEMORY_VECMAP_MAGIC MEMORY_VECMAP_VERSION b = Inr ()"
    "length b = 18 + length (vm_agent m) + length (vm_id m)"
    by (simp_all add: b)
  ultimately show ?thesis by (simp add: decode_vec_map_def record_lens)
qed

lemma memory_meta_roundtrip: "encode_memory_meta m = Inr b \<Longrightarrow> decode_memory_meta b = Inr m"
proof -
  assume b: "encode_memory_meta m = Inr b"
  have "block_open MemoryIndexMeta True MEMORY_INDEX_META_MAGIC MEMORY_INDEX_META_VERSION b = Inr ()" "length b = 18"
    "u64_of_le (slice 6 14 b) = mm_next_vec_id m"
    using b by (auto simp: encode_memory_meta_def) (simp add: with_crc_def slice_def)
  then show ?thesis by (simp add: decode_memory_meta_def record_lens)
qed

lemma fts_posting_roundtrip: "encode_fts_posting m = Inr b \<Longrightarrow> decode_fts_posting b = Inr m"
proof -
  assume b: "encode_fts_posting m = Inr b"
  have "block_open FtsPosting True FTS_POSTING_MAGIC FTS_POSTING_VERSION b = Inr ()" "length b = 14"
    "u32_of_le (slice 6 10 b) = fp_tf m"
    using b by (auto simp: encode_fts_posting_def) (simp add: with_crc_def slice_def)
  then show ?thesis by (simp add: decode_fts_posting_def record_lens)
qed

lemma fts_stats_roundtrip: "encode_fts_stats m = Inr b \<Longrightarrow> decode_fts_stats b = Inr m"
proof -
  assume b: "encode_fts_stats m = Inr b"
  have "block_open FtsStats True FTS_STATS_MAGIC FTS_STATS_VERSION b = Inr ()" "length b = 26"
    "u64_of_le (slice 6 14 b) = fs_doc_count m" "u64_of_le (slice 14 22 b) = fs_total_terms m"
    using b by (auto simp: encode_fts_stats_def) (simp_all add: with_crc_def slice_def)
  then show ?thesis by (simp add: decode_fts_stats_def record_lens)
qed

lemma read_f32s_at: "length pre = n \<Longrightarrow> read_f32s (length fs) (pre @ concat (map u32_le fs) @ post) n = fs"
proof (induction fs arbitrary: pre n)
  case (Cons f fs)
  have "read_f32s (length fs) ((pre @ u32_le f) @ concat (map u32_le fs) @ post) (n + 4) = fs"
    by (rule Cons.IH) (use Cons.prems in simp)
  then show ?case using field_at [OF Cons.prems, of "u32_le f" 4 "concat (map u32_le fs) @ post"] by simp
qed simp

lemma read_u64s_at: "length pre = n \<Longrightarrow> read_u64s (length fs) (pre @ concat (map u64_le fs) @ post) n = fs"
proof (induction fs arbitrary: pre n)
  case (Cons f fs)
  have "read_u64s (length fs) ((pre @ u64_le f) @ concat (map u64_le fs) @ post) (n + 8) = fs"
    by (rule Cons.IH) (use Cons.prems in simp)
  then show ?case using field_at [OF Cons.prems, of "u64_le f" 8 "concat (map u64_le fs) @ post"] by simp
qed simp

lemma length_concat_u32s [simp]: "length (concat (map u32_le fs)) = length fs * 4"
  by (induction fs) simp_all

lemma length_concat_u64s [simp]: "length (concat (map u64_le fs)) = length fs * 8"
  by (induction fs) simp_all

lemma vector_node_roundtrip:
  assumes "encode_vector_node v = Inr b"
  shows "decode_vector_node b = Inr v"
proof -
  let ?fl = "if vn_deleted v then FLAG_DELETED else 0" and ?fs = "vn_vector v" and ?ns = "vn_neighbors v"
  let ?h = "u32_le VECTOR_NODE_MAGIC @ u16_le VECTOR_NODE_VERSION @ [?fl] @ u16_le (len16 ?fs) @ u16_le (len16 ?ns)"
  have f: "fits16 ?fs" "fits16 ?ns" and b: "b = with_crc (?h @ concat (map u32_le ?fs) @ concat (map u64_le ?ns))"
    using assms by (auto simp: encode_vector_node_def split: if_splits)
  have "read_f32s (length ?fs) b 11 = ?fs" using read_f32s_at [of ?h 11 ?fs] by (simp add: b with_crc_def)
  moreover have "read_u64s (length ?ns) b (11 + length ?fs * 4) = ?ns"
    using read_u64s_at [of "?h @ concat (map u32_le ?fs)" _ ?ns] by (simp add: b with_crc_def)
  moreover have "b ! 6 = ?fl" "unat (u16_of_le (slice 7 9 b)) = length ?fs" "unat (u16_of_le (slice 9 11 b)) = length ?ns"
    using f by (simp_all add: b with_crc_def slice_def nth_append)
  moreover have "block_open VectorNode True VECTOR_NODE_MAGIC VECTOR_NODE_VERSION b = Inr ()"
    "length b = 15 + length ?fs * 4 + length ?ns * 8"
    by (simp_all add: b)
  moreover have "?fl AND NOT FLAG_MASK = 0" "?fl AND FLAG_DELETED \<noteq> 0 \<longleftrightarrow> vn_deleted v"
    by (simp_all add: FLAG_MASK_def FLAG_DELETED_def)
  ultimately show ?thesis by (simp add: decode_vector_node_def record_lens Let_def)
qed

definition vector_meta_ok :: "vector_index_meta \<Rightarrow> bool" where
  "vector_meta_ok m \<longleftrightarrow> (vx_entry_point m = None \<longleftrightarrow> vx_count m = 0)"

lemma vector_meta_roundtrip:
  assumes "encode_vector_meta m = Inr b" "vector_meta_ok m"
  shows "decode_vector_meta b = Inr m"
proof -
  let ?p = "vx_params m"
  have f: "vp_dim ?p < 2 ^ 16" "vp_max_degree ?p < 2 ^ 16" "vp_beam_width ?p < 2 ^ 16"
    and b: "b = with_crc (u32_le VECTOR_INDEX_META_MAGIC @ u16_le VECTOR_INDEX_META_VERSION
            @ u16_le (word_of_nat (vp_dim ?p)) @ u16_le (word_of_nat (vp_max_degree ?p))
            @ u16_le (word_of_nat (vp_beam_width ?p)) @ u32_le (vp_alpha ?p) @ u64_le (vx_epoch m)
            @ u64_le (vx_count m) @ u64_le (case vx_entry_point m of Some e \<Rightarrow> e | None \<Rightarrow> 0))"
    using assms(1) by (auto simp: encode_vector_meta_def Let_def split: if_splits)
  have "block_open VectorIndexMeta True VECTOR_INDEX_META_MAGIC VECTOR_INDEX_META_VERSION b = Inr ()" "length b = 44"
    by (simp_all add: b)
  moreover have "unat (u16_of_le (slice 6 8 b)) = vp_dim ?p" "unat (u16_of_le (slice 8 10 b)) = vp_max_degree ?p"
    "unat (u16_of_le (slice 10 12 b)) = vp_beam_width ?p" "u32_of_le (slice 12 16 b) = vp_alpha ?p"
    "u64_of_le (slice 16 24 b) = vx_epoch m" "u64_of_le (slice 24 32 b) = vx_count m"
    "u64_of_le (slice 32 40 b) = (case vx_entry_point m of Some e \<Rightarrow> e | None \<Rightarrow> 0)"
    using f by (simp_all add: b with_crc_def slice_def unat_of_nat)
  moreover have "(if vx_count m > 0 then Some (case vx_entry_point m of Some e \<Rightarrow> e | None \<Rightarrow> 0) else None) = vx_entry_point m"
    using assms(2) by (auto simp: vector_meta_ok_def word_gt_0 split: option.split)
  ultimately show ?thesis
    by (cases m; cases "vx_params m") (simp add: decode_vector_meta_def record_lens Let_def split: if_splits)
qed

text \<open>Document terms.\<close>

definition doc_term_bytes :: "doc_term \<Rightarrow> bytes" where
  "doc_term_bytes e = u16_le (len16 (dt_term e)) @ u32_le (dt_tf e) @ dt_term e"

lemma length_doc_term_bytes [simp]: "length (doc_term_bytes e) = 6 + length (dt_term e)"
  by (simp add: doc_term_bytes_def)

lemma encode_terms_bytes:
  "rmap encode_doc_term doc = Inr bs \<longleftrightarrow> (\<forall>e \<in> set doc. fits16 (dt_term e)) \<and> bs = map doc_term_bytes doc"
  by (induction doc arbitrary: bs) (auto simp: encode_doc_term_def doc_term_bytes_def rbind_eq_Inr)

lemma decode_doc_entries_at:
  assumes "\<forall>e \<in> set doc. fits16 (dt_term e) \<and> utf8_valid (dt_term e)" "length pre = n"
    and "buf = pre @ concat (map doc_term_bytes doc) @ post" "crc_at = n + length (concat (map doc_term_bytes doc))"
  shows "decode_doc_entries (length doc) buf crc_at n = Inr (doc, crc_at)"
  using assms
proof (induction doc arbitrary: pre n)
  case (Cons e doc)
  let ?t = "dt_term e"
  have buf: "buf = pre @ doc_term_bytes e @ concat (map doc_term_bytes doc) @ post" using Cons.prems(3) by simp
  have fields: "slice n (n + 2) buf = u16_le (len16 ?t)" "slice (n + 2) (n + 6) buf = u32_le (dt_tf e)"
    using field_at [of pre n "u16_le (len16 ?t)" 2] field_at [of "pre @ u16_le (len16 ?t)" "n + 2" "u32_le (dt_tf e)" 4]
      Cons.prems(2) by (simp_all add: buf doc_term_bytes_def add.commute)
  have len: "unat (len16 ?t) = length ?t" using Cons.prems(1) by simp
  have rd: "read_text FtsDocTerms buf (n + 6) (length ?t) = Inr ?t"
    using read_text_at [of "pre @ u16_le (len16 ?t) @ u32_le (dt_tf e)" "n + 6" ?t] Cons.prems(1,2)
    by (simp add: buf doc_term_bytes_def)
  have "decode_doc_entries (length doc) buf crc_at (n + 6 + length ?t) = Inr (doc, crc_at)"
    by (rule Cons.IH [of "pre @ doc_term_bytes e"]) (use Cons.prems in auto)
  then show ?case using fields len rd Cons.prems(4) by (simp add: MIN_ENTRY_LEN_def)
qed simp

lemma doc_terms_roundtrip:
  assumes "encode_doc_terms doc = Inr b" "\<forall>e \<in> set doc. utf8_valid (dt_term e)"
  shows "decode_doc_terms b = Inr doc"
proof -
  let ?h = "u32_le FTS_DOCTERMS_MAGIC @ u16_le FTS_DOCTERMS_VERSION @ u32_le (len32 doc)"
    and ?es = "concat (map doc_term_bytes doc)"
  have f: "fits32 doc" "\<forall>e \<in> set doc. fits16 (dt_term e)" and b: "b = with_crc (?h @ ?es)"
    using assms(1) by (auto simp: encode_doc_terms_def rbind_eq_Inr encode_terms_bytes split: if_splits)
  have len: "length b = 14 + length ?es" by (simp add: b)
  have "6 * length doc \<le> length ?es" by (induction doc) auto
  then have "length doc \<le> (length b - 4 - 10) div 6" using len by simp
  moreover have "decode_doc_entries (length doc) b (length b - 4) 10 = Inr (doc, length b - 4)"
    by (rule decode_doc_entries_at [of doc ?h 10 b "u32_le (crc32 (?h @ ?es))"])
      (use f assms(2) in \<open>auto simp: b with_crc_def\<close>)
  moreover have "unat (u32_of_le (slice 6 10 b)) = length doc"
    using f by (simp add: b with_crc_def slice_def)
  moreover have "block_open FtsDocTerms True FTS_DOCTERMS_MAGIC FTS_DOCTERMS_VERSION b = Inr ()"
    by (simp add: b)
  ultimately show ?thesis using len by (simp add: decode_doc_terms_def record_lens Let_def)
qed

subsection \<open>The codecs meet the contract\<close>

interpretation graph_edge: record_codec "\<lambda>e. Inr (encode_graph_edge e)" decode_graph_edge
  "\<lambda>_. True" "\<lambda>_. True" GRAPH_EDGE_MAGIC
proof unfold_locales
  show "\<exists>body. bs = body @ u32_le (crc32 body)" if "decode_graph_edge bs = Inr x" for bs x
    using that unfolding decode_graph_edge_def by (rule decoded_checked) (simp add: record_lens)
  show "u32_of_le (slice 0 4 bs) = GRAPH_EDGE_MAGIC" if "decode_graph_edge bs = Inr x" for bs x
    using that unfolding decode_graph_edge_def by (rule decoded_magic)
qed (auto simp: graph_edge_roundtrip intro: graph_edge_roundtrip)

interpretation graph_entity: record_codec encode_graph_entity decode_graph_entity
  "\<lambda>e. fits16 (gn_kind e) \<and> fits32 (gn_label e)" "\<lambda>e. utf8_valid (gn_kind e) \<and> utf8_valid (gn_label e)" GRAPH_ENTITY_MAGIC
proof unfold_locales
  show "\<exists>body. bs = body @ u32_le (crc32 body)" if "decode_graph_entity bs = Inr x" for bs x
    using that unfolding decode_graph_entity_def by (rule decoded_checked) (simp add: record_lens)
  show "u32_of_le (slice 0 4 bs) = GRAPH_ENTITY_MAGIC" if "decode_graph_entity bs = Inr x" for bs x
    using that unfolding decode_graph_entity_def by (rule decoded_magic)
qed (auto simp: encode_graph_entity_def intro: graph_entity_roundtrip)

interpretation memory_record: record_codec encode_memory_record decode_memory_record
  "\<lambda>r. fits16 (mr_layer r) \<and> fits32 (mr_content r) \<and> fits16 (mr_source r)" "\<lambda>r. utf8_valid (mr_layer r) \<and> utf8_valid (mr_content r) \<and> utf8_valid (mr_source r)" MEMORY_RECORD_MAGIC
proof unfold_locales
  show "\<exists>body. bs = body @ u32_le (crc32 body)" if "decode_memory_record bs = Inr x" for bs x
    using that unfolding decode_memory_record_def by (rule decoded_checked) (simp add: record_lens)
  show "u32_of_le (slice 0 4 bs) = MEMORY_RECORD_MAGIC" if "decode_memory_record bs = Inr x" for bs x
    using that unfolding decode_memory_record_def by (rule decoded_magic)
qed (auto simp: encode_memory_record_def intro: memory_record_roundtrip)

interpretation vec_map: record_codec encode_vec_map decode_vec_map
  "\<lambda>m. fits32 (vm_agent m) \<and> fits32 (vm_id m)" "\<lambda>m. utf8_valid (vm_agent m) \<and> utf8_valid (vm_id m)" MEMORY_VECMAP_MAGIC
proof unfold_locales
  show "\<exists>body. bs = body @ u32_le (crc32 body)" if "decode_vec_map bs = Inr x" for bs x
    using that unfolding decode_vec_map_def by (rule decoded_checked) (simp add: record_lens)
  show "u32_of_le (slice 0 4 bs) = MEMORY_VECMAP_MAGIC" if "decode_vec_map bs = Inr x" for bs x
    using that unfolding decode_vec_map_def by (rule decoded_magic)
qed (auto simp: encode_vec_map_def intro: vec_map_roundtrip)

interpretation memory_meta: record_codec encode_memory_meta decode_memory_meta
  "\<lambda>_. True" "\<lambda>_. True" MEMORY_INDEX_META_MAGIC
proof unfold_locales
  show "\<exists>body. bs = body @ u32_le (crc32 body)" if "decode_memory_meta bs = Inr x" for bs x
    using that unfolding decode_memory_meta_def by (rule decoded_checked) (simp add: record_lens)
  show "u32_of_le (slice 0 4 bs) = MEMORY_INDEX_META_MAGIC" if "decode_memory_meta bs = Inr x" for bs x
    using that unfolding decode_memory_meta_def by (rule decoded_magic)
qed (auto simp: encode_memory_meta_def intro: memory_meta_roundtrip)

interpretation fts_posting: record_codec encode_fts_posting decode_fts_posting
  "\<lambda>_. True" "\<lambda>_. True" FTS_POSTING_MAGIC
proof unfold_locales
  show "\<exists>body. bs = body @ u32_le (crc32 body)" if "decode_fts_posting bs = Inr x" for bs x
    using that unfolding decode_fts_posting_def by (rule decoded_checked) (simp add: record_lens)
  show "u32_of_le (slice 0 4 bs) = FTS_POSTING_MAGIC" if "decode_fts_posting bs = Inr x" for bs x
    using that unfolding decode_fts_posting_def by (rule decoded_magic)
qed (auto simp: encode_fts_posting_def intro: fts_posting_roundtrip)

interpretation fts_stats: record_codec encode_fts_stats decode_fts_stats
  "\<lambda>_. True" "\<lambda>_. True" FTS_STATS_MAGIC
proof unfold_locales
  show "\<exists>body. bs = body @ u32_le (crc32 body)" if "decode_fts_stats bs = Inr x" for bs x
    using that unfolding decode_fts_stats_def by (rule decoded_checked) (simp add: record_lens)
  show "u32_of_le (slice 0 4 bs) = FTS_STATS_MAGIC" if "decode_fts_stats bs = Inr x" for bs x
    using that unfolding decode_fts_stats_def by (rule decoded_magic)
qed (auto simp: encode_fts_stats_def intro: fts_stats_roundtrip)

interpretation doc_terms: record_codec encode_doc_terms decode_doc_terms
  "\<lambda>doc. fits32 doc \<and> (\<forall>e \<in> set doc. fits16 (dt_term e))" "\<lambda>doc. \<forall>e \<in> set doc. utf8_valid (dt_term e)" FTS_DOCTERMS_MAGIC
proof unfold_locales
  show "\<exists>body. bs = body @ u32_le (crc32 body)" if "decode_doc_terms bs = Inr x" for bs x
    using that unfolding decode_doc_terms_def by (rule decoded_checked) (simp add: record_lens)
  show "u32_of_le (slice 0 4 bs) = FTS_DOCTERMS_MAGIC" if "decode_doc_terms bs = Inr x" for bs x
    using that unfolding decode_doc_terms_def by (rule decoded_magic)
qed (auto simp: encode_doc_terms_def rbind_eq_Inr encode_terms_bytes intro: doc_terms_roundtrip)

interpretation vector_node: record_codec encode_vector_node decode_vector_node
  "\<lambda>v. fits16 (vn_vector v) \<and> fits16 (vn_neighbors v)" "\<lambda>_. True" VECTOR_NODE_MAGIC
proof unfold_locales
  show "\<exists>body. bs = body @ u32_le (crc32 body)" if "decode_vector_node bs = Inr x" for bs x
    using that unfolding decode_vector_node_def by (rule decoded_checked) (simp add: record_lens)
  show "u32_of_le (slice 0 4 bs) = VECTOR_NODE_MAGIC" if "decode_vector_node bs = Inr x" for bs x
    using that unfolding decode_vector_node_def by (rule decoded_magic)
qed (auto simp: encode_vector_node_def intro: vector_node_roundtrip)

interpretation vector_meta: record_codec encode_vector_meta decode_vector_meta
  "\<lambda>m. vp_dim (vx_params m) < 2 ^ 16 \<and> vp_max_degree (vx_params m) < 2 ^ 16 \<and> vp_beam_width (vx_params m) < 2 ^ 16" vector_meta_ok VECTOR_INDEX_META_MAGIC
proof unfold_locales
  show "\<exists>body. bs = body @ u32_le (crc32 body)" if "decode_vector_meta bs = Inr x" for bs x
    using that unfolding decode_vector_meta_def by (rule decoded_checked) (simp add: record_lens)
  show "u32_of_le (slice 0 4 bs) = VECTOR_INDEX_META_MAGIC" if "decode_vector_meta bs = Inr x" for bs x
    using that unfolding decode_vector_meta_def by (rule decoded_magic)
qed (auto simp: encode_vector_meta_def Let_def intro: vector_meta_roundtrip)

subsection \<open>All index values\<close>

text \<open>The ten kinds of value an index keyspace holds, as one type: what an entry of the store
  can decode to, whichever reader opens it.\<close>

datatype index_value =
    VEdge graph_edge_meta | VEntity graph_entity | VRecord memory_record | VVecMap vec_map_entry
  | VMemoryMeta memory_index_meta | VPosting fts_posting | VStats fts_stats | VDocTerms fts_doc_terms
  | VNode vector_node | VVectorMeta vector_index_meta

datatype value_kind =
    EdgeKind | EntityKind | RecordKind | VecMapKind | MemoryMetaKind | PostingKind | StatsKind
  | DocTermsKind | NodeKind | VectorMetaKind

fun value_kind_of :: "index_value \<Rightarrow> value_kind" where
  "value_kind_of (VEdge _) = EdgeKind"
| "value_kind_of (VEntity _) = EntityKind"
| "value_kind_of (VRecord _) = RecordKind"
| "value_kind_of (VVecMap _) = VecMapKind"
| "value_kind_of (VMemoryMeta _) = MemoryMetaKind"
| "value_kind_of (VPosting _) = PostingKind"
| "value_kind_of (VStats _) = StatsKind"
| "value_kind_of (VDocTerms _) = DocTermsKind"
| "value_kind_of (VNode _) = NodeKind"
| "value_kind_of (VVectorMeta _) = VectorMetaKind"

fun encode_value :: "index_value \<Rightarrow> bytes engine_result" where
  "encode_value (VEdge e) = Inr (encode_graph_edge e)"
| "encode_value (VEntity e) = encode_graph_entity e"
| "encode_value (VRecord r) = encode_memory_record r"
| "encode_value (VVecMap m) = encode_vec_map m"
| "encode_value (VMemoryMeta m) = encode_memory_meta m"
| "encode_value (VPosting p) = encode_fts_posting p"
| "encode_value (VStats m) = encode_fts_stats m"
| "encode_value (VDocTerms d) = encode_doc_terms d"
| "encode_value (VNode v) = encode_vector_node v"
| "encode_value (VVectorMeta m) = encode_vector_meta m"

fun decode_value :: "value_kind \<Rightarrow> bytes \<Rightarrow> index_value engine_result" where
  "decode_value EdgeKind bs = map_sum id VEdge (decode_graph_edge bs)"
| "decode_value EntityKind bs = map_sum id VEntity (decode_graph_entity bs)"
| "decode_value RecordKind bs = map_sum id VRecord (decode_memory_record bs)"
| "decode_value VecMapKind bs = map_sum id VVecMap (decode_vec_map bs)"
| "decode_value MemoryMetaKind bs = map_sum id VMemoryMeta (decode_memory_meta bs)"
| "decode_value PostingKind bs = map_sum id VPosting (decode_fts_posting bs)"
| "decode_value StatsKind bs = map_sum id VStats (decode_fts_stats bs)"
| "decode_value DocTermsKind bs = map_sum id VDocTerms (decode_doc_terms bs)"
| "decode_value NodeKind bs = map_sum id VNode (decode_vector_node bs)"
| "decode_value VectorMetaKind bs = map_sum id VVectorMeta (decode_vector_meta bs)"

text \<open>The text fields are UTF-8 (Rust's \<open>String\<close>), and a vector index without entry point is
  empty: the two facts about a value that its type does not carry here.\<close>

fun value_ok :: "index_value \<Rightarrow> bool" where
  "value_ok (VEntity e) = (utf8_valid (gn_kind e) \<and> utf8_valid (gn_label e))"
| "value_ok (VRecord r) = (utf8_valid (mr_layer r) \<and> utf8_valid (mr_content r) \<and> utf8_valid (mr_source r))"
| "value_ok (VVecMap m) = (utf8_valid (vm_agent m) \<and> utf8_valid (vm_id m))"
| "value_ok (VDocTerms d) = (\<forall>e \<in> set d. utf8_valid (dt_term e))"
| "value_ok (VVectorMeta m) = vector_meta_ok m"
| "value_ok _ = True"

fun kind_magic :: "value_kind \<Rightarrow> u32" where
  "kind_magic EdgeKind = GRAPH_EDGE_MAGIC"
| "kind_magic EntityKind = GRAPH_ENTITY_MAGIC"
| "kind_magic RecordKind = MEMORY_RECORD_MAGIC"
| "kind_magic VecMapKind = MEMORY_VECMAP_MAGIC"
| "kind_magic MemoryMetaKind = MEMORY_INDEX_META_MAGIC"
| "kind_magic PostingKind = FTS_POSTING_MAGIC"
| "kind_magic StatsKind = FTS_STATS_MAGIC"
| "kind_magic DocTermsKind = FTS_DOCTERMS_MAGIC"
| "kind_magic NodeKind = VECTOR_NODE_MAGIC"
| "kind_magic VectorMetaKind = VECTOR_INDEX_META_MAGIC"

lemma map_sum_eq_Inr: "map_sum id f r = Inr y \<longleftrightarrow> (\<exists>x. r = Inr x \<and> y = f x)"
  by (cases r) auto

lemma kind_magic_inj: "kind_magic k = kind_magic k' \<longleftrightarrow> k = k'"
  by (cases k; cases k') (simp_all add: GRAPH_EDGE_MAGIC_def GRAPH_ENTITY_MAGIC_def MEMORY_RECORD_MAGIC_def
    MEMORY_VECMAP_MAGIC_def MEMORY_INDEX_META_MAGIC_def FTS_POSTING_MAGIC_def FTS_STATS_MAGIC_def
    FTS_DOCTERMS_MAGIC_def VECTOR_NODE_MAGIC_def VECTOR_INDEX_META_MAGIC_def)

lemma decode_encode_value:
  "encode_value v = Inr b \<Longrightarrow> value_ok v \<Longrightarrow> decode_value (value_kind_of v) b = Inr v"
  using graph_edge.dec_enc graph_entity.dec_enc memory_record.dec_enc vec_map.dec_enc memory_meta.dec_enc
    fts_posting.dec_enc fts_stats.dec_enc doc_terms.dec_enc vector_node.dec_enc vector_meta.dec_enc
  by (cases v) (auto simp: graph_edge_roundtrip)

lemma decode_value_magic: "decode_value k b = Inr v \<Longrightarrow> u32_of_le (slice 0 4 b) = kind_magic k"
  using graph_edge.dec_magic graph_entity.dec_magic memory_record.dec_magic vec_map.dec_magic memory_meta.dec_magic
    fts_posting.dec_magic fts_stats.dec_magic doc_terms.dec_magic vector_node.dec_magic vector_meta.dec_magic
  by (cases k) (auto simp: map_sum_eq_Inr)

lemma decode_value_checked: "decode_value k b = Inr v \<Longrightarrow> \<exists>body. b = body @ u32_le (crc32 body)"
  using graph_edge.dec_checked graph_entity.dec_checked memory_record.dec_checked vec_map.dec_checked
    memory_meta.dec_checked fts_posting.dec_checked fts_stats.dec_checked doc_terms.dec_checked
    vector_node.dec_checked vector_meta.dec_checked
  by (cases k) (auto simp: map_sum_eq_Inr)

lemma decode_value_kind: "decode_value k b = Inr v \<Longrightarrow> value_kind_of v = k"
  by (cases k) (auto simp: map_sum_eq_Inr)

interpretation index_value: checked_codec "\<lambda>v. projr (encode_value v)" "decode_value k"
  "\<lambda>v. value_kind_of v = k \<and> value_ok v \<and> (\<exists>b. encode_value v = Inr b)" "[]" for k
proof unfold_locales
  show "decode_value k (projr (encode_value v)) = Inr v"
    if "value_kind_of v = k \<and> value_ok v \<and> (\<exists>b. encode_value v = Inr b)" for v
    using that decode_encode_value by auto
  show "\<exists>body. bs = body @ u32_le (crc32 body) @ []" if "decode_value k bs = Inr v" for bs v
    using decode_value_checked [OF that] by simp
qed

text \<open>C12: an index value that was written is read back by the reader of its kind and by no
  other: each of the ten layouts round-trips, two values never share an encoding, and opening the
  bytes as another kind of value is an error, because the ten magic numbers differ.\<close>

theorem index_values_roundtrip:
  assumes "encode_value v = Inr b" "value_ok v"
  shows "decode_value k b = Inr w \<longleftrightarrow> k = value_kind_of v \<and> w = v"
proof
  assume w: "decode_value k b = Inr w"
  then have "kind_magic k = kind_magic (value_kind_of v)"
    using decode_value_magic [OF w] decode_value_magic [OF decode_encode_value [OF assms]] by simp
  then show "k = value_kind_of v \<and> w = v"
    using w decode_encode_value [OF assms] by (simp add: kind_magic_inj)
qed (use decode_encode_value [OF assms] in simp)

theorem index_values_roundtrip_witness:
  "\<exists>b. encode_value (VDocTerms [\<lparr>dt_term = [97], dt_tf = 2\<rparr>]) = Inr b
     \<and> decode_value DocTermsKind b = Inr (VDocTerms [\<lparr>dt_term = [97], dt_tf = 2\<rparr>])
     \<and> (\<forall>w. decode_value StatsKind b \<noteq> Inr w)"
proof -
  let ?v = "VDocTerms [\<lparr>dt_term = [97], dt_tf = 2\<rparr>]"
  obtain b where b: "encode_value ?v = Inr b"
    by (simp add: encode_doc_terms_def encode_doc_term_def fits16_def fits32_def)
  then show ?thesis using index_values_roundtrip [OF b] b by (simp del: decode_value.simps)
qed

text \<open>C13: a stored index value in which one byte was changed, whichever byte and whatever its new
  value, is rejected by its reader, and never decoded to a wrong value.\<close>

theorem index_value_corruption_detected:
  assumes "encode_value v = Inr b" "value_ok v" "i < length b" "c \<noteq> b ! i"
  shows "\<exists>e. decode_value (value_kind_of v) (b[i := c]) = Inl e"
  using index_value.single_byte_change_detected [OF decode_encode_value [OF assms(1,2)] assms(3,4)] .

theorem index_value_corruption_detected_witness:
  "\<exists>b e. encode_value (VStats \<lparr>fs_doc_count = 3, fs_total_terms = 7\<rparr>) = Inr b
     \<and> decode_value StatsKind (b[6 := 4]) = Inl e"
proof -
  let ?v = "VStats \<lparr>fs_doc_count = 3, fs_total_terms = 7\<rparr>"
  obtain b where b: "encode_value ?v = Inr b" by (simp add: encode_fts_stats_def)
  then have "6 < length b" "(4 :: u8) \<noteq> b ! 6"
    by (auto simp: encode_fts_stats_def with_crc_def nth_append u64_le_def le_enc_numeral)
  then show ?thesis using index_value_corruption_detected [OF b, of 6 4] b by auto
qed

end
