(* ===== verification/Index_Ops.thy ===== *)
theory Index_Ops
  imports Engine_Session Record_Codecs
begin

text \<open>
  How the index layers (\<open>crates/basemyai-engine/src/idx\<close>) call the engine: operations that read
  and change a state and may fail, composed by the \<open>?\<close> operator, and the engine's calls as such
  operations. The contract of a read, \<open>reads\<close>, is stated once and composed by rules: under a
  state predicate \<open>I\<close> the operation returns a fixed result and keeps \<open>I\<close>. The interface an
  index uses is the locale \<open>kv_engine\<close>, whose laws say that the reads of the engine are functions
  of the map it denotes and that a batch is one atomic update of it.
\<close>

named_theorems reads_intros \<open>rules of the contract of reads\<close>

subsection \<open>Operations\<close>

type_synonym ('s, 'a) op = "'s \<Rightarrow> 'a engine_result \<times> 's"

definition oret :: "'a \<Rightarrow> ('s, 'a) op" where
  "oret x s = (Inr x, s)"

definition olift :: "'a engine_result \<Rightarrow> ('s, 'a) op" where
  "olift r s = (r, s)"

definition obind :: "('s, 'a) op \<Rightarrow> ('a \<Rightarrow> ('s, 'b) op) \<Rightarrow> ('s, 'b) op" where
  "obind p k s = (case p s of (Inl e, s') \<Rightarrow> (Inl e, s') | (Inr x, s') \<Rightarrow> k x s')"

fun omap :: "('a \<Rightarrow> ('s, 'b) op) \<Rightarrow> 'a list \<Rightarrow> ('s, 'b list) op" where
  "omap f [] = oret []"
| "omap f (x # xs) = obind (f x) (\<lambda>y. obind (omap f xs) (\<lambda>ys. oret (y # ys)))"

fun ofold :: "('a \<Rightarrow> 'b \<Rightarrow> ('s, 'b) op) \<Rightarrow> 'a list \<Rightarrow> 'b \<Rightarrow> ('s, 'b) op" where
  "ofold f [] acc = oret acc"
| "ofold f (x # xs) acc = obind (f x acc) (ofold f xs)"

fun rfold :: "('a \<Rightarrow> 'b \<Rightarrow> 'e + 'b) \<Rightarrow> 'a list \<Rightarrow> 'b \<Rightarrow> 'e + 'b" where
  "rfold f [] acc = Inr acc"
| "rfold f (x # xs) acc = rbind (f x acc) (rfold f xs)"

lemma obind_cong [fundef_cong]:
  "p = p' \<Longrightarrow> s = s' \<Longrightarrow> (\<And>x t. p' s' = (Inr x, t) \<Longrightarrow> k x t = k' x t) \<Longrightarrow> obind p k s = obind p' k' s'"
  by (auto simp: obind_def split: prod.split sum.split)

lemma obind_simps [simp]:
  "obind (oret x) k = k x"
  "obind (olift (Inr x)) k = k x"
  "obind (olift (Inl e)) k = olift (Inl e)"
  by (simp_all add: fun_eq_iff obind_def oret_def olift_def)

lemma omap_cong [fundef_cong]:
  "xs = ys \<Longrightarrow> (\<And>x. x \<in> set ys \<Longrightarrow> f x = g x) \<Longrightarrow> omap f xs = omap g ys"
  by (induction xs arbitrary: ys) auto

subsection \<open>The contract of a read\<close>

definition reads :: "('s \<Rightarrow> bool) \<Rightarrow> ('s, 'a) op \<Rightarrow> 'a engine_result \<Rightarrow> bool" where
  "reads I p r \<longleftrightarrow> (\<forall>s. I s \<longrightarrow> (\<exists>s'. p s = (r, s') \<and> I s'))"

lemma readsD: "reads I p r \<Longrightarrow> I s \<Longrightarrow> \<exists>s'. p s = (r, s') \<and> I s'"
  by (simp add: reads_def)

lemma reads_oret [simp, reads_intros]: "reads I (oret x) (Inr x)"
  by (simp add: reads_def oret_def)

lemma reads_olift [simp, reads_intros]: "reads I (olift r) r"
  by (simp add: reads_def olift_def)

lemma reads_obind:
  assumes "reads I p r" "\<And>x. r = Inr x \<Longrightarrow> reads I (k x) (q x)"
  shows "reads I (obind p k) (rbind r q)"
proof (unfold reads_def, intro allI impI)
  fix s assume "I s"
  then obtain s' where "p s = (r, s')" "I s'" using assms(1) by (auto simp: reads_def)
  then show "\<exists>s'. obind p k s = (rbind r q, s') \<and> I s'"
    using assms(2) by (cases r) (auto simp: obind_def reads_def)
qed

lemma reads_obind_Inr: "reads I p (Inr x) \<Longrightarrow> reads I (k x) r \<Longrightarrow> reads I (obind p k) r"
  using reads_obind [of I p "Inr x" k "\<lambda>_. r"] by simp

lemma reads_omap:
  "(\<And>x. x \<in> set xs \<Longrightarrow> reads I (f x) (g x)) \<Longrightarrow> reads I (omap f xs) (rmap g xs)"
  by (induction xs) (simp_all add: reads_obind)

lemma reads_omap_Inr:
  assumes "\<And>x. x \<in> set xs \<Longrightarrow> reads I (f x) (Inr (g x))"
  shows "reads I (omap f xs) (Inr (map g xs))"
  using reads_omap [of xs I f "\<lambda>x. Inr (g x)"] assms by (simp add: rmap_all_Inr [of xs _ g])

lemma reads_ofold:
  assumes "P acc" "\<And>x acc. x \<in> set xs \<Longrightarrow> P acc \<Longrightarrow> reads I (f x acc) (Inr (g x acc)) \<and> P (g x acc)"
  shows "reads I (ofold f xs acc) (Inr (fold g xs acc))"
  using assms by (induction xs arbitrary: acc) (auto intro!: reads_obind_Inr)

subsection \<open>The engine's calls\<close>

definition kv_get :: "externals \<Rightarrow> bytes \<Rightarrow> (store, bytes option) op" where
  "kv_get X k = engine_get X k"

definition kv_scan :: "externals \<Rightarrow> bytes \<Rightarrow> (store, (bytes \<times> bytes) list) op" where
  "kv_scan X pre st = (scan_prefix X pre st, st)"

definition kv_range :: "externals \<Rightarrow> bytes \<Rightarrow> bytes \<Rightarrow> (store, (bytes \<times> bytes) list) op" where
  "kv_range X a b st = (scan_range X a b st, st)"

text \<open>Look a key up and decode what it holds, if anything: the shape of every point read.\<close>

definition decoded :: "('s, bytes option) op \<Rightarrow> (bytes \<Rightarrow> 'a engine_result) \<Rightarrow> ('s, 'a option) op" where
  "decoded look dec = obind look (\<lambda>found. case found of
     None \<Rightarrow> oret None
   | Some bs \<Rightarrow> obind (olift (dec bs)) (\<lambda>x. oret (Some x)))"

subsection \<open>The interface of the indexes\<close>

text \<open>
  What an index may rely on when it reads: while the store denotes the map \<open>m\<close>, a lookup returns
  what \<open>m\<close> holds and a scan lists the matching part of \<open>m\<close>.
\<close>

locale kv_engine =
  fixes get :: "bytes \<Rightarrow> ('s, bytes option) op"
    and scan :: "bytes \<Rightarrow> ('s, (bytes \<times> bytes) list) op"
    and range :: "bytes \<Rightarrow> bytes \<Rightarrow> ('s, (bytes \<times> bytes) list) op"
    and is_map :: "(bytes \<rightharpoonup> bytes) \<Rightarrow> 's \<Rightarrow> bool"
  assumes get_map: "reads (is_map m) (get k) (Inr (m k))"
    and scan_map: "reads (is_map m) (scan pre) (Inr (entries_of (prefix pre) m))"
    and range_map: "reads (is_map m) (range a b) (Inr (entries_of (\<lambda>k. a \<le> k \<and> k < b) m))"
    and map_finite: "is_map m s \<Longrightarrow> finite (dom m)"
begin

lemma decoded_map:
  "reads (is_map m) (decoded (get k) dec)
     (case m k of None \<Rightarrow> Inr None | Some bs \<Rightarrow> rbind (dec bs) (\<lambda>x. Inr (Some x)))"
  unfolding decoded_def
  by (rule reads_obind_Inr [OF get_map]) (auto intro: reads_obind split: option.split)

lemma scan_mapped:
  assumes "\<And>k v. prefix pre k \<Longrightarrow> m k = Some v \<Longrightarrow> f (k, v) = Inr (g (k, v))" "is_map m s"
  shows "\<exists>s'. obind (scan pre) (\<lambda>es. olift (rmap f es)) s = (Inr (map g (entries_of (prefix pre) m)), s') \<and> is_map m s'"
proof -
  have "rmap f (entries_of (prefix pre) m) = Inr (map g (entries_of (prefix pre) m))"
    using assms(1) map_finite [OF assms(2)] by (intro rmap_all_Inr) (auto simp: set_entries_of)
  then have "reads (is_map m) (obind (scan pre) (\<lambda>es. olift (rmap f es))) (Inr (map g (entries_of (prefix pre) m)))"
    by (intro reads_obind_Inr [OF scan_map]) simp
  then show ?thesis using assms(2) by (rule readsD)
qed

end

text \<open>The store denotes \<open>m\<close>, and differs from \<open>st\<close> only in what its block cache holds.\<close>

definition peeks :: "externals \<Rightarrow> run list \<Rightarrow> store \<Rightarrow> (bytes \<rightharpoonup> bytes) \<Rightarrow> store \<Rightarrow> bool" where
  "peeks X runs st m s \<longleftrightarrow> store_inv X s runs \<and> store_map runs (memtable s) = m \<and> (\<exists>c. s = st\<lparr>block_cache := c\<rparr>)"

lemma peeks_refl: "store_inv X st runs \<Longrightarrow> store_map runs (memtable st) = m \<Longrightarrow> peeks X runs st m st"
  unfolding peeks_def by (auto intro!: exI [of _ "block_cache st"])

lemma finite_store_map: "finite (dom (store_map runs mt))"
proof -
  have "dom (store_map runs mt) \<subseteq> dom (layers runs) \<union> dom (mt_get mt)"
    by (auto simp: store_map_def flat_def domIff map_add_def split: option.splits)
  moreover have "mt_get mt = map_of (mt_entries mt)" by (rule ext) (simp add: mt_get_def)
  ultimately show ?thesis by (elim finite_subset) (simp add: finite_layers finite_dom_map_of)
qed

interpretation engine: kv_engine "kv_get X" "kv_scan X" "kv_range X" "peeks X runs st" for X runs st
proof unfold_locales
  show "reads (peeks X runs st m) (kv_get X k) (Inr (m k))" for m k
    unfolding reads_def
  proof (intro allI impI)
    fix s assume s: "peeks X runs st m s"
    obtain c where "engine_get X k s = (Inr (m k), s\<lparr>block_cache := c\<rparr>)" "store_inv X (s\<lparr>block_cache := c\<rparr>) runs"
      using engine_get_map [of X s runs k] s by (auto simp: peeks_def)
    then show "\<exists>s'. kv_get X k s = (Inr (m k), s') \<and> peeks X runs st m s'"
      using s by (auto simp: peeks_def kv_get_def)
  qed
  show "reads (peeks X runs st m) (kv_scan X pre) (Inr (entries_of (prefix pre) m))" for m pre
    using scans_ok [of X _ runs pre] entries_of_unique by (fastforce simp: reads_def kv_scan_def peeks_def)
  show "reads (peeks X runs st m) (kv_range X a b) (Inr (entries_of (\<lambda>k. a \<le> k \<and> k < b) m))" for m a b
    using scans_ok [of X _ runs _ a b] entries_of_unique by (fastforce simp: reads_def kv_range_def peeks_def)
  show "finite (dom m)" if "peeks X runs st m s" for m s
    using that finite_store_map by (auto simp: peeks_def)
qed

end
