(* ===== verification/Graph_Traverse.thy ===== *)
theory Graph_Traverse
  imports Index_Ops "HOL-Library.Multiset" "HOL-Library.Product_Lexorder"
begin

text \<open>
  The breadth-first traversal of the memory graph (\<open>idx/graph/traverse.rs\<close>), written as in the
  source against an abstract provider of entities and outgoing edges: the trait
  \<open>GraphProvider\<close> is the locale \<open>graph_provider\<close>, and the traversal takes the provider's two
  methods as arguments. Main result: whatever the provider, the traversal returns exactly the
  visible entities whose shortest visible path from the start has between one and \<open>max_depth\<close>
  edges, with that length, ordered by length and id.
\<close>

subsection \<open>The algorithm\<close>

record reached =
  r_id :: bytes
  r_kind :: bytes
  r_label :: bytes
  r_depth :: nat

type_synonym out_edge = "bytes \<times> bytes \<times> graph_edge_meta"

definition visible_at :: "i64 option \<Rightarrow> i64 \<Rightarrow> bool" where
  "visible_at valid_until now = (case valid_until of None \<Rightarrow> True | Some until \<Rightarrow> now <s until)"

text \<open>The maps and the queue of the loop: \<open>depth_of\<close> in insertion order, \<open>visited\<close>, \<open>frontier\<close>.\<close>

type_synonym search = "(bytes \<times> nat) list \<times> bytes list \<times> (bytes \<times> nat) list"

fun expand_edges :: "i64 \<Rightarrow> nat \<Rightarrow> out_edge list \<Rightarrow> search \<Rightarrow> search" where
  "expand_edges now depth [] st = st"
| "expand_edges now depth ((relation, dst, meta) # edges) (depth_of, visited, frontier) =
     (if \<not> visible_at (ge_valid_until meta) now
      then expand_edges now depth edges (depth_of, visited, frontier)
      else if dst \<in> set visited
      then expand_edges now depth edges (depth_of, visited, frontier)
      else expand_edges now depth edges
             (depth_of @ [(dst, depth + 1)], dst # visited, frontier @ [(dst, depth + 1)]))"

text \<open>The visible targets an expansion discovers, in the order of the edges.\<close>

fun discovered :: "i64 \<Rightarrow> out_edge list \<Rightarrow> bytes list \<Rightarrow> bytes list" where
  "discovered now [] visited = []"
| "discovered now ((relation, dst, meta) # edges) visited =
     (if visible_at (ge_valid_until meta) now \<and> dst \<notin> set visited
      then dst # discovered now edges (dst # visited)
      else discovered now edges visited)"

lemma expand_edges_eq:
  "expand_edges now d edges (dm, vis, fr) =
     (dm @ map (\<lambda>v. (v, d + 1)) (discovered now edges vis), rev (discovered now edges vis) @ vis,
      fr @ map (\<lambda>v. (v, d + 1)) (discovered now edges vis))"
  by (induction now edges vis arbitrary: dm fr rule: discovered.induct) auto

lemma discovered_ok:
  "distinct (discovered now edges vis) \<and> set (discovered now edges vis) \<inter> set vis = {}
   \<and> set (discovered now edges vis) = {v. \<exists>r meta. (r, v, meta) \<in> set edges \<and> visible_at (ge_valid_until meta) now} - set vis"
  by (induction now edges vis rule: discovered.induct) auto

text \<open>
  The loop. It ends because every popped node of depth \<open>d < max_depth\<close> is replaced by finitely
  many nodes of depth \<open>d + 1\<close>: the multiset of remaining depths decreases.
\<close>

function walk_frontier ::
  "(bytes \<Rightarrow> bytes \<Rightarrow> ('s, out_edge list) op) \<Rightarrow> bytes \<Rightarrow> nat \<Rightarrow> i64 \<Rightarrow> search \<Rightarrow> ('s, (bytes \<times> nat) list) op" where
  "walk_frontier out_edges agent max_depth now (depth_of, visited, []) s = (Inr depth_of, s)"
| "walk_frontier out_edges agent max_depth now (depth_of, visited, (node, depth) # frontier) s =
     (if depth \<ge> max_depth
      then walk_frontier out_edges agent max_depth now (depth_of, visited, frontier) s
      else obind (out_edges agent node)
             (\<lambda>edges. walk_frontier out_edges agent max_depth now
                         (expand_edges now depth edges (depth_of, visited, frontier))) s)"
  by pat_completeness auto
termination
proof (relation "inv_image (mult less_than)
    (\<lambda>(out_edges, agent, max_depth, now, (depth_of, visited, frontier), s).
       mset (map (\<lambda>(node, depth). Suc max_depth - depth) frontier))", goal_cases)
  case 1
  then show ?case by (simp add: wf_mult)
next
  case (2 out_edges agent max_depth now depth_of visited node depth frontier s)
  then show ?case
    using one_step_implies_mult [of "{#Suc max_depth - depth#}" "{#}" less_than "mset (map (\<lambda>(node, depth). Suc max_depth - depth) frontier)"]
    by simp
next
  case (3 out_edges agent max_depth now depth_of visited node depth frontier s edges t)
  let ?rest = "mset (map (\<lambda>(node, depth). Suc max_depth - depth) frontier)"
    and ?new = "mset (map (\<lambda>(node, depth). Suc max_depth - depth) (map (\<lambda>v. (v, depth + 1)) (discovered now edges visited)))"
  have "(?rest + ?new, ?rest + {#Suc max_depth - depth#}) \<in> mult less_than"
    by (rule one_step_implies_mult) (use 3 in auto)
  then have "(?rest + ?new, add_mset (Suc max_depth - depth) ?rest) \<in> mult less_than" by simp
  then show ?case by (simp only: in_inv_image expand_edges_eq prod.case map_append mset_append list.map mset.simps)
qed

text \<open>The output: the recorded ids in byte order, those with a visible entity, by depth and id.\<close>

definition reach_one ::
  "(bytes \<Rightarrow> bytes \<Rightarrow> ('s, graph_entity option) op) \<Rightarrow> bytes \<Rightarrow> i64 \<Rightarrow> bytes \<times> nat \<Rightarrow> ('s, reached list) op" where
  "reach_one entity agent now = (\<lambda>(i, depth). obind (entity agent i) (\<lambda>found. case found of
     None \<Rightarrow> oret []
   | Some e \<Rightarrow>
       if visible_at (gn_valid_until e) now
       then oret [\<lparr>r_id = i, r_kind = gn_kind e, r_label = gn_label e, r_depth = depth\<rparr>]
       else oret []))"

definition graph_run ::
  "(bytes \<Rightarrow> bytes \<Rightarrow> ('s, graph_entity option) op) \<Rightarrow> (bytes \<Rightarrow> bytes \<Rightarrow> ('s, out_edge list) op)
     \<Rightarrow> bytes \<Rightarrow> bytes \<Rightarrow> nat \<Rightarrow> i64 \<Rightarrow> ('s, reached list) op" where
  "graph_run entity out_edges agent start max_depth now =
     obind (walk_frontier out_edges agent max_depth now ([], [start], [(start, 0)])) (\<lambda>depth_of.
     obind (omap (reach_one entity agent now) (sort_key fst depth_of)) (\<lambda>out.
       oret (sort_key (\<lambda>r. (r_depth r, r_id r)) (concat out))))"

subsection \<open>The specification\<close>

text \<open>A path of \<open>n\<close> visible edges, in a graph given by its outgoing edges.\<close>

inductive path :: "(bytes \<Rightarrow> out_edge list) \<Rightarrow> i64 \<Rightarrow> nat \<Rightarrow> bytes \<Rightarrow> bytes \<Rightarrow> bool" for outs now where
  path_here: "path outs now 0 v v"
| path_step: "path outs now n u v \<Longrightarrow> (r, w, meta) \<in> set (outs v) \<Longrightarrow> visible_at (ge_valid_until meta) now
    \<Longrightarrow> path outs now (Suc n) u w"

inductive_cases path_SucE: "path outs now (Suc n) u w"
inductive_simps path_zero [simp]: "path outs now 0 u v"

text \<open>The node is at distance \<open>d\<close>: the shortest path.\<close>

definition at_distance :: "(bytes \<Rightarrow> out_edge list) \<Rightarrow> i64 \<Rightarrow> bytes \<Rightarrow> bytes \<Rightarrow> nat \<Rightarrow> bool" where
  "at_distance outs now start v d \<longleftrightarrow> path outs now d start v \<and> (\<forall>n < d. \<not> path outs now n start v)"

text \<open>What a traversal returns, as a set and an order.\<close>

definition is_traversal ::
  "(bytes \<Rightarrow> graph_entity option) \<Rightarrow> (bytes \<Rightarrow> out_edge list) \<Rightarrow> bytes \<Rightarrow> nat \<Rightarrow> i64 \<Rightarrow> reached list \<Rightarrow> bool" where
  "is_traversal ents outs start max_depth now rs \<longleftrightarrow>
     sorted_wrt (\<lambda>a b. r_depth a < r_depth b \<or> r_depth a = r_depth b \<and> r_id a < r_id b) rs
     \<and> set rs = {\<lparr>r_id = v, r_kind = gn_kind e, r_label = gn_label e, r_depth = d\<rparr> | v e d.
         v \<noteq> start \<and> d \<le> max_depth \<and> at_distance outs now start v d
         \<and> ents v = Some e \<and> visible_at (gn_valid_until e) now}"

lemma sorted_unique_list:
  assumes "sorted_wrt P xs" "sorted_wrt P ys" "set xs = set ys" "irreflp P" "transp P"
  shows "xs = ys"
proof -
  have asym: "\<not> P y x" if "P x y" for x y
    using transpD [OF assms(5) that] irreflpD [OF assms(4)] by blast
  show ?thesis using assms(1-3)
  proof (induction xs arbitrary: ys)
    case Nil
    then show ?case by simp
  next
    case (Cons x xs)
    then obtain y ys' where ys: "ys = y # ys'" by (cases ys) auto
    have "x = y" using Cons.prems asym unfolding ys by (metis insertE list.set_intros(1) list.simps(15) sorted_wrt.simps(2))
    moreover have "x \<notin> set xs" "y \<notin> set ys'"
      using Cons.prems(1,2) assms(4) unfolding ys by (auto simp: irreflp_def)
    ultimately have "set xs = set ys'" using Cons.prems(3) unfolding ys by auto
    then show ?case using Cons.IH [of ys'] Cons.prems(1,2) \<open>x = y\<close> unfolding ys by simp
  qed
qed

lemma traversal_unique:
  "is_traversal ents outs start d now rs \<Longrightarrow> is_traversal ents outs start d now rs' \<Longrightarrow> rs = rs'"
  by (rule sorted_unique_list [of "\<lambda>a b. r_depth a < r_depth b \<or> r_depth a = r_depth b \<and> r_id a < r_id b"])
    (auto simp: is_traversal_def irreflp_def intro!: transpI)

text \<open>Which edges there are matters, and not their order.\<close>

lemma path_cong:
  assumes "path outs now n u v" "\<And>v. set (outs v) = set (outs' v)"
  shows "path outs' now n u v"
  using assms(1) by (induction rule: path.induct) (use assms(2) in \<open>auto intro: path.intros\<close>)

lemma path_invariant:
  assumes "path outs now n u v" "P u" "\<And>r u v meta. P u \<Longrightarrow> (r, v, meta) \<in> set (outs u) \<Longrightarrow> P v"
  shows "P v"
  using assms(1,2) by (induction rule: path.induct) (use assms(3) in blast)+

lemma traversal_cong:
  assumes "\<And>v. set (outs v) = set (outs' v)"
  shows "is_traversal ents outs start d now rs = is_traversal ents outs' start d now rs"
proof -
  have "path outs now n u v = path outs' now n u v" for n u v
    using path_cong assms by metis
  then show ?thesis by (simp add: is_traversal_def at_distance_def)
qed

subsection \<open>The loop invariant\<close>

definition search_inv :: "(bytes \<Rightarrow> out_edge list) \<Rightarrow> i64 \<Rightarrow> bytes \<Rightarrow> nat \<Rightarrow> search \<Rightarrow> bool" where
  "search_inv outs now start max_depth = (\<lambda>(depth_of, visited, frontier).
     let found = (start, 0) # depth_of in
       distinct (map fst found) \<and> set visited = fst ` set found
     \<and> (\<forall>(v, d) \<in> set found. path outs now d start v \<and> d \<le> max_depth)
     \<and> set frontier \<subseteq> set found \<and> sorted (map snd frontier)
     \<and> (\<forall>(v, d) \<in> set found. \<forall>(u, c) \<in> set frontier. d \<le> c + 1)
     \<and> (\<forall>(u, c) \<in> set found - set frontier. c < max_depth \<longrightarrow>
          (\<forall>(r, v, meta) \<in> set (outs u). visible_at (ge_valid_until meta) now \<longrightarrow>
             (\<exists>d. (v, d) \<in> set found \<and> d \<le> c + 1))))"

lemma search_inv_init: "search_inv outs now start max_depth ([], [start], [(start, 0)])"
  by (simp add: search_inv_def)

lemma search_inv_skip:
  assumes "search_inv outs now start max_depth (dm, vis, (node, d) # fr)" "max_depth \<le> d"
  shows "search_inv outs now start max_depth (dm, vis, fr)"
  using assms by (auto simp: search_inv_def Let_def)

lemma search_inv_expand:
  assumes inv: "search_inv outs now start max_depth (dm, vis, (node, d) # fr)" and d: "d < max_depth"
  shows "search_inv outs now start max_depth (expand_edges now d (outs node) (dm, vis, fr))"
proof -
  let ?found = "(start, 0) # dm" and ?ds = "discovered now (outs node) vis"
  let ?new = "map (\<lambda>v. (v, d + 1)) ?ds"
  note ds = discovered_ok [of now "outs node" vis]
  have old: "distinct (map fst ?found)" "set vis = fst ` set ?found" "set ((node, d) # fr) \<subseteq> set ?found"
      "sorted (map snd ((node, d) # fr))"
    and sound: "\<And>v c. (v, c) \<in> set ?found \<Longrightarrow> path outs now c start v \<and> c \<le> max_depth"
    and near: "\<And>v c u e. (v, c) \<in> set ?found \<Longrightarrow> (u, e) \<in> set ((node, d) # fr) \<Longrightarrow> c \<le> e + 1"
    and closed: "\<And>u c r v meta. (u, c) \<in> set ?found - set ((node, d) # fr) \<Longrightarrow> c < max_depth \<Longrightarrow>
      (r, v, meta) \<in> set (outs u) \<Longrightarrow> visible_at (ge_valid_until meta) now \<Longrightarrow>
      \<exists>e. (v, e) \<in> set ?found \<and> e \<le> c + 1"
    using inv unfolding search_inv_def Let_def prod.case by (blast+)
  have node: "(node, d) \<in> set ?found" using old(3) by simp
  have "distinct (map fst (?found @ ?new))" using old(1,2) ds by (auto simp: comp_def)
  moreover have "set (rev ?ds @ vis) = fst ` set (?found @ ?new)" using old(2) by (auto simp: image_image image_Un)
  moreover have "path outs now c start v \<and> c \<le> max_depth" if "(v, c) \<in> set (?found @ ?new)" for v c
  proof (cases "(v, c) \<in> set ?found")
    case False
    then have v: "v \<in> set ?ds" "c = d + 1" using that by auto
    then obtain r meta where "(r, v, meta) \<in> set (outs node)" "visible_at (ge_valid_until meta) now"
      using ds by auto
    then show ?thesis using path_step [of outs now d start node] sound [OF node] v(2) d by auto
  qed (use sound in blast)
  moreover have "set (fr @ ?new) \<subseteq> set (?found @ ?new)" using old(3) by auto
  moreover have "sorted (map snd (fr @ ?new))"
  proof -
    have "c \<le> d + 1" if "(v, c) \<in> set fr" for v c
      using near [of v c node d] old(3) that by auto
    then show ?thesis using old(4) by (auto simp: sorted_append comp_def map_replicate_const)
  qed
  moreover have "c \<le> e + 1" if "(v, c) \<in> set (?found @ ?new)" "(u, e) \<in> set (fr @ ?new)" for v c u e
  proof -
    have "c \<le> d + 1" using that(1) near [of v c node d] by auto
    moreover have "d \<le> e" using that(2) old(4) by auto
    ultimately show ?thesis by simp
  qed
  moreover have "\<exists>e. (v, e) \<in> set (?found @ ?new) \<and> e \<le> c + 1"
    if "(u, c) \<in> set (?found @ ?new) - set (fr @ ?new)" "c < max_depth"
      "(r, v, meta) \<in> set (outs u)" "visible_at (ge_valid_until meta) now" for u c r v meta
  proof (cases "(u, c) = (node, d)")
    case True
    note edge = that(3,4)
    consider "v \<in> set vis" | "v \<in> set ?ds" using ds edge True by auto
    then show ?thesis
    proof cases
      case 1
      then obtain e where "(v, e) \<in> set ?found" unfolding old(2) by (auto simp del: list.set)
      then show ?thesis using near [of v e node d] True by auto
    next
      case 2
      then show ?thesis using True by auto
    qed
  next
    case False
    then have "(u, c) \<in> set ?found - set ((node, d) # fr)" using that(1) by auto
    then show ?thesis using closed [OF _ that(2-4)] by auto
  qed
  ultimately show ?thesis
    unfolding search_inv_def expand_edges_eq Let_def prod.case append_Cons [symmetric] by blast
qed

text \<open>When the queue is empty, every node within \<open>max_depth\<close> edges is recorded at its distance.\<close>

lemma search_inv_done:
  assumes "search_inv outs now start max_depth (dm, vis, [])"
  shows "distinct (map fst dm)"
    and "(v, d) \<in> set dm \<longleftrightarrow> v \<noteq> start \<and> d \<le> max_depth \<and> at_distance outs now start v d"
proof -
  let ?found = "(start, 0) # dm"
  have dist: "distinct (map fst ?found)"
    and sound: "\<And>v c. (v, c) \<in> set ?found \<Longrightarrow> path outs now c start v \<and> c \<le> max_depth"
    and closed: "\<And>u c r v meta. (u, c) \<in> set ?found \<Longrightarrow> c < max_depth \<Longrightarrow>
      (r, v, meta) \<in> set (outs u) \<Longrightarrow> visible_at (ge_valid_until meta) now \<Longrightarrow>
      \<exists>e. (v, e) \<in> set ?found \<and> e \<le> c + 1"
    using assms unfolding search_inv_def Let_def prod.case list.set(1) Diff_empty by blast+
  have reach: "\<exists>e. (w, e) \<in> set ?found \<and> e \<le> n" if "path outs now n start w" "n \<le> max_depth" for n w
    using that
  proof (induction n arbitrary: w)
    case 0
    then show ?case by auto
  next
    case (Suc n)
    from Suc.prems(1) obtain u r meta where u: "path outs now n start u" "(r, w, meta) \<in> set (outs u)"
      "visible_at (ge_valid_until meta) now" by (rule path_SucE)
    obtain e where e: "(u, e) \<in> set ?found" "e \<le> n" using Suc.IH [OF u(1)] Suc.prems(2) by auto
    then have "e < max_depth" using Suc.prems(2) by simp
    then show ?case using closed [OF e(1) _ u(2,3)] e(2) by fastforce
  qed
  have uniq: "c = e" if "(w, c) \<in> set ?found" "(w, e) \<in> set ?found" for w c e
    using dist that by (meson eq_key_imp_eq_value)
  show "distinct (map fst dm)" using dist by simp
  have shortest: "at_distance outs now start v d" if "(v, d) \<in> set ?found" for v d
    unfolding at_distance_def
  proof (intro conjI allI impI notI)
    show "path outs now d start v" using sound [OF that] by simp
    fix n assume "n < d" "path outs now n start v"
    moreover have "n \<le> max_depth" using sound [OF that] \<open>n < d\<close> by simp
    ultimately obtain e where "(v, e) \<in> set ?found" "e \<le> n" using reach by blast
    then show False using uniq [OF that, of e] \<open>n < d\<close> by simp
  qed
  show "(v, d) \<in> set dm \<longleftrightarrow> v \<noteq> start \<and> d \<le> max_depth \<and> at_distance outs now start v d"
  proof
    assume "(v, d) \<in> set dm"
    moreover from this have "v \<noteq> start" using dist by force
    ultimately show "v \<noteq> start \<and> d \<le> max_depth \<and> at_distance outs now start v d"
      using sound [of v d] shortest by simp
  next
    assume v: "v \<noteq> start \<and> d \<le> max_depth \<and> at_distance outs now start v d"
    then obtain e where e: "(v, e) \<in> set ?found" "e \<le> d" using reach [of d v] by (auto simp: at_distance_def)
    have "path outs now e start v" using sound [OF e(1)] by simp
    then have "e = d" using v e(2) by (auto simp: at_distance_def le_less)
    then show "(v, d) \<in> set dm" using e(1) v by auto
  qed
qed

lemma walk_frontier_ok:
  assumes "search_inv outs now start max_depth st" "name_ok start" "I s"
    and "\<And>i. name_ok i \<Longrightarrow> reads I (out_edges agent i) (Inr (outs i))"
    and "\<And>r u v meta. name_ok u \<Longrightarrow> (r, v, meta) \<in> set (outs u) \<Longrightarrow> name_ok v"
  shows "\<exists>dm vis s'. walk_frontier out_edges agent max_depth now st s = (Inr dm, s') \<and> I s'
     \<and> search_inv outs now start max_depth (dm, vis, [])"
  using assms
proof (induction out_edges agent max_depth now st s rule: walk_frontier.induct)
  case (1 out_edges agent max_depth now depth_of visited s)
  then show ?case by auto
next
  case (2 out_edges agent max_depth now dm vis node d fr s)
  show ?case
  proof (cases "d \<ge> max_depth")
    case True
    then show ?thesis using "2.IH"(1) [OF True search_inv_skip [OF "2.prems"(1) True] "2.prems"(2-5)] by simp
  next
    case False
    then have d: "d < max_depth" by simp
    have "(node, d) \<in> set ((start, 0) # dm)"
      and "\<And>v c. (v, c) \<in> set ((start, 0) # dm) \<Longrightarrow> path outs now c start v \<and> c \<le> max_depth"
      using "2.prems"(1) unfolding search_inv_def Let_def prod.case by auto
    then have "path outs now d start node" by blast
    then have "name_ok node" using path_invariant [of outs now d start node name_ok] "2.prems"(2,5) by blast
    then obtain s1 where s1: "out_edges agent node s = (Inr (outs node), s1)" "I s1"
      using readsD [OF "2.prems"(4) "2.prems"(3)] by blast
    from "2.IH"(2) [OF False s1(1) search_inv_expand [OF "2.prems"(1) d] "2.prems"(2) s1(2) "2.prems"(4,5)]
    show ?thesis using False s1(1) by (simp add: obind_def)
  qed
qed

subsection \<open>Providers\<close>

text \<open>
  The contract of the trait \<open>GraphProvider\<close>: while the state satisfies \<open>I\<close>, the methods
  return the entity and the edges of a fixed graph. \<open>name_ok\<close> are the names a provider accepts (a
  key field longer than \<open>u32::MAX\<close> bytes is refused by the persisted one).
\<close>

locale graph_provider =
  fixes entity :: "bytes \<Rightarrow> bytes \<Rightarrow> ('s, graph_entity option) op"
    and out_edges :: "bytes \<Rightarrow> bytes \<Rightarrow> ('s, out_edge list) op"
    and I :: "'s \<Rightarrow> bool"
    and ents :: "bytes \<Rightarrow> bytes \<Rightarrow> graph_entity option"
    and outs :: "bytes \<Rightarrow> bytes \<Rightarrow> out_edge list"
    and name_ok :: "bytes \<Rightarrow> bool"
  assumes entity_reads: "name_ok agent \<Longrightarrow> name_ok i \<Longrightarrow> reads I (entity agent i) (Inr (ents agent i))"
    and out_edges_reads: "name_ok agent \<Longrightarrow> name_ok i \<Longrightarrow> reads I (out_edges agent i) (Inr (outs agent i))"
    and targets_ok: "I s \<Longrightarrow> name_ok agent \<Longrightarrow> name_ok u \<Longrightarrow> (r, v, meta) \<in> set (outs agent u) \<Longrightarrow> name_ok v"
begin

lemma traversal_correct:
  assumes "name_ok agent" "name_ok start" "I s"
  shows "\<exists>rs s'. graph_run entity out_edges agent start max_depth now s = (Inr rs, s') \<and> I s'
    \<and> is_traversal (ents agent) (outs agent) start max_depth now rs"
proof -
  obtain dm vis s1 where w: "walk_frontier out_edges agent max_depth now ([], [start], [(start, 0)]) s = (Inr dm, s1)"
    "I s1" "search_inv (outs agent) now start max_depth (dm, vis, [])"
    using walk_frontier_ok [of "outs agent" now start max_depth _ name_ok I s out_edges agent]
      search_inv_init assms out_edges_reads [OF assms(1)] targets_ok [OF assms(3,1)] by blast
  note dm = search_inv_done [OF w(3)]
  have ok: "name_ok v" if "(v, d) \<in> set dm" for v d
    using that dm(2) path_invariant [of "outs agent" now d start v name_ok] targets_ok [OF assms(3,1)] assms(2)
    by (auto simp: at_distance_def)
  define one where "one = (\<lambda>(i, d). case ents agent i of None \<Rightarrow> [] | Some e \<Rightarrow>
    if visible_at (gn_valid_until e) now then [\<lparr>r_id = i, r_kind = gn_kind e, r_label = gn_label e, r_depth = d\<rparr>] else [])"
  have "reads I (reach_one entity agent now x) (Inr (one x))" if x: "x \<in> set (sort_key fst dm)" for x
  proof (cases x)
    case (Pair i d)
    then have "name_ok i" using x ok by auto
    then show ?thesis unfolding Pair reach_one_def one_def prod.case
      by (intro reads_obind_Inr [OF entity_reads [OF assms(1)]]) (auto split: option.split)
  qed
  then have "reads I (omap (reach_one entity agent now) (sort_key fst dm)) (Inr (map one (sort_key fst dm)))"
    by (rule reads_omap_Inr)
  then obtain s2 where s2: "omap (reach_one entity agent now) (sort_key fst dm) s1 = (Inr (map one (sort_key fst dm)), s2)"
    "I s2" using w(2) by (auto simp: reads_def)
  define rs where "rs = sort_key (\<lambda>r. (r_depth r, r_id r)) (concat (map one (sort_key fst dm)))"
  have "graph_run entity out_edges agent start max_depth now s = (Inr rs, s2)"
    using w(1) s2(1) by (simp add: graph_run_def obind_def oret_def rs_def)
  moreover have "is_traversal (ents agent) (outs agent) start max_depth now rs"
  proof -
    have "set rs = {\<lparr>r_id = v, r_kind = gn_kind e, r_label = gn_label e, r_depth = d\<rparr> | v e d.
         (v, d) \<in> set dm \<and> ents agent v = Some e \<and> visible_at (gn_valid_until e) now}"
      by (auto 0 4 simp: rs_def one_def eq_commute [of "Some _" "ents agent _"] split: option.splits if_splits)
    moreover have "sorted_wrt (\<lambda>a b. r_depth a < r_depth b \<or> r_depth a = r_depth b \<and> r_id a < r_id b) rs"
    proof -
      have "distinct (map r_id (concat (map one xs)))" if "distinct (map fst xs)" for xs
      proof -
        have "r_id ` set (one x) \<subseteq> {fst x}" for x by (auto simp: one_def split: option.splits prod.splits)
        then show ?thesis using that
          by (induction xs) (auto simp: one_def image_iff split: option.splits if_splits; fastforce)+
      qed
      then have "distinct (map r_id (concat (map one (sort_key fst dm))))" using dm(1) by (simp add: distinct_map)
      then have "distinct (map (\<lambda>r. (r_depth r, r_id r)) (concat (map one (sort_key fst dm))))"
        by (auto simp: distinct_map inj_on_def)
      from strict_sort_key [OF this] show ?thesis by (auto simp: rs_def elim!: sorted_wrt_mono_rel [rotated])
    qed
    ultimately show ?thesis using dm(2) by (auto simp: is_traversal_def)
  qed
  ultimately show ?thesis using s2(2) by blast
qed

end

end
