(* ===== verification/Index_Store.thy ===== *)
theory Index_Store
  imports Index_Ops
begin

text \<open>
  The map a store denotes, seen as index entries: every key of a reserved keyspace is the bytes
  of a \<open>logical_key\<close>, and its value is an \<open>index_value\<close> of the kind that keyspace holds
  (\<open>typed_map\<close>, the well-formedness the index layers establish and rely on). \<open>held\<close> looks a
  logical key up, and the scans of the indexes list the logical keys of one agent.
\<close>

subsection \<open>Typed maps\<close>

fun key_texts :: "logical_key \<Rightarrow> bytes list" where
  "key_texts (KEntity agent i) = [agent, i]"
| "key_texts (KEdge agent src relation dst) = [agent, src, relation, dst]"
| "key_texts (KRecord agent i) = [agent, i]"
| "key_texts (KPosting agent t i) = [agent, t]"
| "key_texts (KDocTerms agent i) = [agent]"
| "key_texts (KFtsMeta agent) = [agent]"
| "key_texts (KExpiry agent valid_until i) = [agent, i]"
| "key_texts (KAgent agent) = [agent]"
| "key_texts k = []"

text \<open>The bytes of a key, whether or not its fields fit their length prefixes.\<close>

definition key_bytes :: "logical_key \<Rightarrow> bytes" where
  "key_bytes k = key_space k @ key_rest k"

text \<open>A text a key field holds: UTF-8, and short enough for its length prefix.\<close>

definition name_fits :: "bytes \<Rightarrow> bool" where
  "name_fits t \<longleftrightarrow> utf8_valid t \<and> length t < 2 ^ 32"

definition key_ok :: "logical_key \<Rightarrow> bool" where
  "key_ok k \<longleftrightarrow> (\<forall>t \<in> set (key_texts k). name_fits t)"

fun kind_of_key :: "logical_key \<Rightarrow> value_kind option" where
  "kind_of_key (KVectorNode i) = Some NodeKind"
| "kind_of_key KVectorMeta = Some VectorMetaKind"
| "kind_of_key (KEntity agent i) = Some EntityKind"
| "kind_of_key (KEdge agent src relation dst) = Some EdgeKind"
| "kind_of_key (KRecord agent i) = Some RecordKind"
| "kind_of_key (KVecmap i) = Some VecMapKind"
| "kind_of_key KMemoryMeta = Some MemoryMetaKind"
| "kind_of_key (KPosting agent t i) = Some PostingKind"
| "kind_of_key (KDocTerms agent i) = Some DocTermsKind"
| "kind_of_key (KFtsMeta agent) = Some StatsKind"
| "kind_of_key (KExpiry agent valid_until i) = None"
| "kind_of_key (KAgent agent) = None"

definition value_fits :: "logical_key \<Rightarrow> bytes \<Rightarrow> bool" where
  "value_fits k v \<longleftrightarrow> (case kind_of_key k of
     None \<Rightarrow> v = []
   | Some kd \<Rightarrow> \<exists>iv. value_kind_of iv = kd \<and> (kd = VectorMetaKind \<or> value_ok iv) \<and> encode_value iv = Inr v)"

definition reserved :: "bytes \<Rightarrow> bool" where
  "reserved b \<longleftrightarrow> (\<exists>p \<in> set spaces. prefix p b)"

definition typed_map :: "(bytes \<rightharpoonup> bytes) \<Rightarrow> bool" where
  "typed_map m \<longleftrightarrow> (\<forall>b v. m b = Some v \<longrightarrow> reserved b \<longrightarrow> (\<exists>k. key_ok k \<and> b = key_bytes k \<and> value_fits k v))"

definition held :: "(bytes \<rightharpoonup> bytes) \<Rightarrow> logical_key \<Rightarrow> bytes option" where
  "held m k = m (key_bytes k)"

lemma encode_key_ok: "key_ok k \<Longrightarrow> encode_key k = Inr (key_bytes k)"
  by (cases k) (simp_all add: key_ok_def name_fits_def encode_key_Inr key_bytes_def del: encode_key.simps)

lemma encode_key_bytes: "encode_key k = Inr b \<Longrightarrow> b = key_bytes k"
  by (simp add: encode_key_Inr key_bytes_def)

lemma reserved_key [simp]: "reserved (key_bytes k)"
  unfolding reserved_def key_bytes_def by (rule bexI [of _ "key_space k"]) (simp_all add: key_space_in)

lemma key_bytes_inj:
  assumes "key_ok k" "key_ok k'"
  shows "key_bytes k = key_bytes k' \<longleftrightarrow> k = k'"
  using key_bytes_inj_raw [OF encode_key_ok [OF assms(1)]] encode_key_ok [OF assms(2)] by auto

lemma typed_mapD:
  assumes "typed_map m" "m b = Some v" "reserved b"
  obtains k where "key_ok k" "b = key_bytes k" "value_fits k v"
  using assms unfolding typed_map_def by blast

lemma typed_held:
  assumes "typed_map m" "key_ok k" "held m k = Some v"
  shows "value_fits k v"
proof -
  obtain k' where "key_ok k'" "key_bytes k = key_bytes k'" "value_fits k' v"
    using typed_mapD [OF assms(1) assms(3) [unfolded held_def]] by auto
  then show ?thesis using key_bytes_inj [OF assms(2)] by auto
qed

text \<open>Updates of one logical key.\<close>

definition put_key :: "logical_key \<Rightarrow> bytes \<Rightarrow> (bytes \<rightharpoonup> bytes) \<Rightarrow> bytes \<rightharpoonup> bytes" where
  "put_key k v m = m(key_bytes k \<mapsto> v)"

definition drop_key :: "logical_key \<Rightarrow> (bytes \<rightharpoonup> bytes) \<Rightarrow> bytes \<rightharpoonup> bytes" where
  "drop_key k m = m(key_bytes k := None)"

lemma typed_put: "typed_map m \<Longrightarrow> key_ok k \<Longrightarrow> value_fits k v \<Longrightarrow> typed_map (put_key k v m)"
  by (auto simp: typed_map_def put_key_def)

lemma typed_drop: "typed_map m \<Longrightarrow> typed_map (drop_key k m)"
  by (auto simp: typed_map_def drop_key_def)

lemma held_put: "key_ok k \<Longrightarrow> key_ok k' \<Longrightarrow> held (put_key k v m) k' = (if k' = k then Some v else held m k')"
  using key_bytes_inj [of k' k] by (simp add: held_def put_key_def)

lemma held_drop: "key_ok k \<Longrightarrow> key_ok k' \<Longrightarrow> held (drop_key k m) k' = (if k' = k then None else held m k')"
  using key_bytes_inj [of k' k] by (simp add: held_def drop_key_def)

subsection \<open>Scans of one agent\<close>

fun scan_texts :: "key_scan \<Rightarrow> bytes list" where
  "scan_texts (SEdgesFrom agent src) = [agent, src]"
| "scan_texts (STerm agent t) = [agent, t]"
| "scan_texts (SEntities agent) = [agent]"
| "scan_texts (SEdges agent) = [agent]"
| "scan_texts (SRecords agent) = [agent]"
| "scan_texts (SPostings agent) = [agent]"
| "scan_texts (SDocTerms agent) = [agent]"
| "scan_texts (SExpiry agent) = [agent]"

lemma scan_reserved:
  assumes "scan_bytes s = Inr p" "prefix p b"
  shows "reserved b"
proof -
  have "scan_space s \<in> set spaces" by (cases s) (simp_all add: spaces_def)
  moreover have "prefix (scan_space s) b" using assms by (auto simp: scan_bytes_Inr dest: append_prefixD)
  ultimately show ?thesis by (auto simp: reserved_def)
qed

lemma scanned_entry:
  assumes "typed_map m" "finite (dom m)" "scan_bytes s = Inr p" "(b, v) \<in> set (entries_of (prefix p) m)"
  obtains k where "key_ok k" "b = key_bytes k" "in_scan s k" "held m k = Some v" "value_fits k v"
proof -
  have b: "prefix p b" "m b = Some v" using assms(2,4) by (auto simp: set_entries_of)
  then obtain k where k: "key_ok k" "b = key_bytes k" "value_fits k v"
    using typed_mapD [OF assms(1)] scan_reserved [OF assms(3)] by metis
  moreover have "in_scan s k" using scan_exact [OF encode_key_ok [OF k(1)] assms(3)] b(1) k(2) by simp
  ultimately show ?thesis using that b(2) by (simp add: held_def)
qed

lemma entry_scanned:
  assumes "finite (dom m)" "scan_bytes s = Inr p" "key_ok k" "in_scan s k" "held m k = Some v"
  shows "(key_bytes k, v) \<in> set (entries_of (prefix p) m)"
  using assms scan_exact [OF encode_key_ok [OF assms(3)] assms(2)] by (simp add: set_entries_of held_def)

subsection \<open>Atomic writes\<close>

text \<open>
  The operation returns \<open>r\<close> and takes the store from the map \<open>m\<close> to \<open>m'\<close> as one atomic step,
  growing it by at most \<open>extra\<close> bytes: a crash at any point leaves a directory that recovers to
  \<open>m\<close> or to \<open>m'\<close> (\<open>steps_to\<close>).
\<close>

definition commits ::
  "externals \<Rightarrow> store \<Rightarrow> run list \<Rightarrow> (bytes \<rightharpoonup> bytes) \<Rightarrow> (store, 'a) op \<Rightarrow> 'a \<Rightarrow> (bytes \<rightharpoonup> bytes) \<Rightarrow> nat \<Rightarrow> bool" where
  "commits X st runs m p r m' extra \<longleftrightarrow>
     (\<exists>st' runs'. p st = (Inr r, st') \<and> steps_to X st m st' runs' m'
        \<and> store_size st' runs' \<le> store_size st runs + extra \<and> next_sst_id st' \<le> next_sst_id st + 2)"

lemma cache_irrelevant:
  "steps_to X (st\<lparr>block_cache := c\<rparr>) m st' runs' m' = steps_to X st m st' runs' m'"
  "roomy (st\<lparr>block_cache := c\<rparr>) runs n = roomy st runs n"
  "store_size (st\<lparr>block_cache := c\<rparr>) runs = store_size st runs"
  by (simp_all add: steps_to_def roomy_def store_size_def recovers_to_def)

lemma commits_none: "store_inv X st runs \<Longrightarrow> store_map runs (memtable st) = m \<Longrightarrow> p st = (Inr r, st) \<Longrightarrow> commits X st runs m p r m extra"
  using steps_to_refl by (fastforce simp: commits_def)

text \<open>Reads before a write: only the cache changes.\<close>

lemma commits_after_reads:
  assumes "p st = (Inr x, s)" "peeks X runs st m s" "commits X s runs m (k x) r m' extra"
  shows "commits X st runs m (obind p k) r m' extra"
proof -
  obtain c where "s = st\<lparr>block_cache := c\<rparr>" using assms(2) by (auto simp: peeks_def)
  then show ?thesis using assms(1,3)
    by (auto simp: commits_def obind_def cache_irrelevant)
qed

lemma commits_obind_read:
  assumes "reads (peeks X runs st m) p (Inr x)" "store_inv X st runs" "store_map runs (memtable st) = m"
    and "\<And>s. peeks X runs st m s \<Longrightarrow> commits X s runs m (k x) r m' extra"
  shows "commits X st runs m (obind p k) r m' extra"
proof -
  obtain s where "p st = (Inr x, s)" "peeks X runs st m s"
    using readsD [OF assms(1) peeks_refl [OF assms(2,3)]] by blast
  then show ?thesis using commits_after_reads [of p st x s X runs m k r m' extra] assms(4) by blast
qed

lemma commits_map_result:
  "commits X st runs m p r m' extra \<Longrightarrow> commits X st runs m (obind p (\<lambda>x. oret (f x))) (f r) m' extra"
  by (auto simp: commits_def obind_def oret_def)

lemma commits_put:
  assumes "store_inv X st runs" "store_map runs (memtable st) = m"
    and "roomy st runs (entry_wire_size (k, Some v))" "draws_ok (crypto st) rnd"
  shows "commits X st runs m (engine_put X rnd k v) () (m(k \<mapsto> v)) (entry_wire_size (k, Some v))"
  using engine_put_steps [OF assms(1,3,4,2)] by (auto simp: commits_def)

lemma commits_batch:
  assumes "store_inv X st runs" "store_map runs (memtable st) = m"
    and "roomy st runs (kvs_size b)" "draws_ok (crypto st) rnd" "length b \<le> MAX_BATCH_OPS"
  shows "commits X st runs m (apply_batch X rnd b) () (fold apply_kv b m) (kvs_size b)"
  using apply_batch_steps [OF assms(1,3,4,2)] assms(5) by (auto simp: commits_def)

text \<open>Batches of deletions.\<close>

lemma fold_batch_delete: "fold (\<lambda>(key, value). batch_delete key) es b = b @ map (\<lambda>(key, value). (key, None)) es"
  by (induction es arbitrary: b) (auto simp: batch_delete_def)

lemma apply_deletes:
  "fold apply_kv (map (\<lambda>(key, value). (key, None)) es) m = (\<lambda>b. if b \<in> fst ` set es then None else m b)"
  by (induction es arbitrary: m) (auto simp: apply_kv_def fun_eq_iff)

lemma typed_restrict: "typed_map m \<Longrightarrow> typed_map (\<lambda>b. if P b then None else m b)"
  by (auto simp: typed_map_def)

lemma length_entries_of: "length (entries_of P m) = card {b \<in> dom m. P b}"
  by (simp add: entries_of_def)

text \<open>What is stored under a scan prefix is what has a key of that scan.\<close>

lemma prefix_scanned:
  assumes "typed_map m" "scan_bytes s = Inr p" "m b = Some v"
  shows "prefix p b \<longleftrightarrow> (\<exists>k. key_ok k \<and> b = key_bytes k \<and> in_scan s k)"
proof
  assume b: "prefix p b"
  then obtain k where "key_ok k" "b = key_bytes k"
    using typed_mapD [OF assms(1,3)] scan_reserved [OF assms(2)] by metis
  then show "\<exists>k. key_ok k \<and> b = key_bytes k \<and> in_scan s k"
    using scan_exact [OF encode_key_ok assms(2)] b by blast
next
  assume "\<exists>k. key_ok k \<and> b = key_bytes k \<and> in_scan s k"
  then show "prefix p b" using scan_exact [OF encode_key_ok assms(2)] by blast
qed

subsection \<open>Batches of index entries\<close>

type_synonym key_op = "logical_key \<times> bytes option"

definition key_batch :: "key_op list \<Rightarrow> batch" where
  "key_batch ops = map (\<lambda>(k, v). (key_bytes k, v)) ops"

definition apply_keys :: "key_op list \<Rightarrow> (bytes \<rightharpoonup> bytes) \<Rightarrow> bytes \<rightharpoonup> bytes" where
  "apply_keys ops m = fold apply_kv (key_batch ops) m"

definition op_ok :: "key_op \<Rightarrow> bool" where
  "op_ok = (\<lambda>(k, v). key_ok k \<and> (case v of None \<Rightarrow> True | Some b \<Rightarrow> value_fits k b))"

lemma key_batch_simps [simp]:
  "key_batch [] = []" "key_batch ((k, v) # ops) = (key_bytes k, v) # key_batch ops"
  "key_batch (ops @ ops') = key_batch ops @ key_batch ops'"
  by (simp_all add: key_batch_def)

lemma length_key_batch [simp]: "length (key_batch ops) = length ops"
  by (simp add: key_batch_def)

lemma key_batch_Nil [simp]: "key_batch ops = [] \<longleftrightarrow> ops = []"
  by (simp add: key_batch_def)

lemma apply_keys_simps [simp]:
  "apply_keys [] m = m" "apply_keys ((k, v) # ops) m = apply_keys ops (m(key_bytes k := v))"
  "apply_keys (ops @ ops') m = apply_keys ops' (apply_keys ops m)"
  by (simp_all add: apply_keys_def apply_kv_def)

lemma typed_apply_keys: "typed_map m \<Longrightarrow> \<forall>oper \<in> set ops. op_ok oper \<Longrightarrow> typed_map (apply_keys ops m)"
proof (induction ops arbitrary: m)
  case (Cons kv ops)
  obtain k v where kv: "kv = (k, v)" by (cases kv)
  have "typed_map (m(key_bytes k := v))"
    using Cons.prems typed_put [of m k] typed_drop [of m k]
    by (cases v) (auto simp: kv op_ok_def put_key_def drop_key_def)
  then show ?case using Cons by (simp add: kv)
qed simp

lemma held_apply_keys:
  assumes "\<forall>(k, v) \<in> set ops. key_ok k" "key_ok k'"
  shows "held (apply_keys ops m) k' = (case map_of (rev ops) k' of None \<Rightarrow> held m k' | Some v \<Rightarrow> v)"
  using assms(1)
proof (induction ops arbitrary: m)
  case (Cons kv ops)
  obtain k v where kv: "kv = (k, v)" by (cases kv)
  have "held (m(key_bytes k := v)) k' = (if k' = k then v else held m k')"
    using key_bytes_inj [OF assms(2), of k] Cons.prems by (auto simp: kv held_def)
  then show ?case using Cons by (auto simp: kv map_add_def split: option.split)
qed simp

lemma held_apply_distinct:
  assumes "\<forall>(k, v) \<in> set ops. key_ok k" "key_ok k'" "distinct (map fst ops)"
  shows "(k', v) \<in> set ops \<Longrightarrow> held (apply_keys ops m) k' = v"
    and "k' \<notin> fst ` set ops \<Longrightarrow> held (apply_keys ops m) k' = held m k'"
proof -
  have d: "distinct (map fst (rev ops))" using assms(3) by (simp add: rev_map [symmetric])
  show "held (apply_keys ops m) k' = v" if "(k', v) \<in> set ops"
    using that map_of_is_SomeI [OF d, of k' v] by (simp add: held_apply_keys [OF assms(1,2)])
  show "held (apply_keys ops m) k' = held m k'" if "k' \<notin> fst ` set ops"
  proof -
    have "map_of (rev ops) k' = None" using that by (simp add: map_of_eq_None_iff)
    then show ?thesis by (simp add: held_apply_keys [OF assms(1,2)])
  qed
qed

lemma finite_apply_keys: "finite (dom m) \<Longrightarrow> finite (dom (apply_keys ops m))"
proof (induction ops arbitrary: m)
  case (Cons kv ops)
  obtain k v where kv: "kv = (k, v)" by (cases kv)
  have "dom (m(key_bytes k := v)) \<subseteq> insert (key_bytes k) (dom m)" by auto
  then have "finite (dom (m(key_bytes k := v)))" using Cons.prems by (meson finite.insertI finite_subset)
  then have "finite (dom (apply_keys ops (m(key_bytes k := v))))" by (rule Cons.IH)
  then show ?case by (simp only: kv apply_keys_simps)
qed simp

text \<open>One batch of index entries, as an atomic write.\<close>

lemma commits_keys:
  assumes "store_inv X st runs" "store_map runs (memtable st) = m" "draws_ok (crypto st) rnd"
    and "roomy st runs (kvs_size (key_batch ops))" "length ops \<le> MAX_BATCH_OPS"
  shows "commits X st runs m (apply_batch X rnd (key_batch ops)) () (apply_keys ops m) (kvs_size (key_batch ops))"
  using commits_batch [OF assms(1,2,4,3)] assms(5) by (simp add: apply_keys_def)

end
