(* ===== verification/Graph_Index.thy ===== *)
theory Graph_Index
  imports Graph_Traverse Index_Store
begin

text \<open>
  The two flavours of the memory graph: in RAM (\<open>idx/graph/ram.rs\<close>) and persisted in the
  key-value store (\<open>idx/graph/persistent.rs\<close>). Both provide the traversal with entities and
  edges (an interpretation of \<open>graph_provider\<close> each), so both return the traversal of the graph
  they hold; and the same upserts keep the two graphs equal.
\<close>

subsection \<open>In RAM\<close>

record ram_graph =
  ram_entities :: "bytes \<times> bytes \<rightharpoonup> graph_entity"
  ram_edges :: "bytes \<times> bytes \<rightharpoonup> out_edge list"

definition ram_new :: ram_graph where
  "ram_new = \<lparr>ram_entities = Map.empty, ram_edges = Map.empty\<rparr>"

definition ram_upsert_entity :: "bytes \<Rightarrow> bytes \<Rightarrow> graph_entity \<Rightarrow> ram_graph \<Rightarrow> ram_graph" where
  "ram_upsert_entity agent i e g = g\<lparr>ram_entities := (ram_entities g)((agent, i) \<mapsto> e)\<rparr>"

fun replace_edge :: "bytes \<Rightarrow> bytes \<Rightarrow> graph_edge_meta \<Rightarrow> out_edge list \<Rightarrow> out_edge list" where
  "replace_edge relation dst meta [] = [(relation, dst, meta)]"
| "replace_edge relation dst meta ((r, d, m) # edges) =
     (if r = relation \<and> d = dst then (r, d, meta) # edges
      else (r, d, m) # replace_edge relation dst meta edges)"

definition ram_upsert_edge :: "bytes \<Rightarrow> bytes \<Rightarrow> bytes \<Rightarrow> bytes \<Rightarrow> graph_edge_meta \<Rightarrow> ram_graph \<Rightarrow> ram_graph" where
  "ram_upsert_edge agent src relation dst meta g =
     g\<lparr>ram_edges := (ram_edges g)((agent, src) \<mapsto>
        replace_edge relation dst meta (case ram_edges g (agent, src) of None \<Rightarrow> [] | Some edges \<Rightarrow> edges))\<rparr>"

definition ram_entity :: "bytes \<Rightarrow> bytes \<Rightarrow> (ram_graph, graph_entity option) op" where
  "ram_entity agent i g = (Inr (ram_entities g (agent, i)), g)"

definition ram_out_edges :: "bytes \<Rightarrow> bytes \<Rightarrow> (ram_graph, out_edge list) op" where
  "ram_out_edges agent src g = (Inr (case ram_edges g (agent, src) of None \<Rightarrow> [] | Some edges \<Rightarrow> edges), g)"

definition ram_traverse :: "bytes \<Rightarrow> bytes \<Rightarrow> nat \<Rightarrow> i64 \<Rightarrow> (ram_graph, reached list) op" where
  "ram_traverse = graph_run ram_entity ram_out_edges"

subsection \<open>Persisted\<close>

definition graph_upsert_entity ::
  "externals \<Rightarrow> (nat \<Rightarrow> nat \<Rightarrow> bytes) \<Rightarrow> bytes \<Rightarrow> bytes \<Rightarrow> graph_entity \<Rightarrow> (store, unit) op" where
  "graph_upsert_entity X rnd agent i e =
     obind (olift (entity_key agent i)) (\<lambda>key.
     obind (olift (encode_graph_entity e)) (\<lambda>value. engine_put X rnd key value))"

definition graph_upsert_edge ::
  "externals \<Rightarrow> (nat \<Rightarrow> nat \<Rightarrow> bytes) \<Rightarrow> bytes \<Rightarrow> bytes \<Rightarrow> bytes \<Rightarrow> bytes \<Rightarrow> graph_edge_meta \<Rightarrow> (store, unit) op" where
  "graph_upsert_edge X rnd agent src relation dst meta =
     obind (olift (edge_key agent src relation dst)) (\<lambda>key. engine_put X rnd key (encode_graph_edge meta))"

definition graph_entity_of :: "externals \<Rightarrow> bytes \<Rightarrow> bytes \<Rightarrow> (store, graph_entity option) op" where
  "graph_entity_of X agent i =
     obind (olift (entity_key agent i)) (\<lambda>key. decoded (kv_get X key) decode_graph_entity)"

definition graph_edge_meta_of ::
  "externals \<Rightarrow> bytes \<Rightarrow> bytes \<Rightarrow> bytes \<Rightarrow> bytes \<Rightarrow> (store, graph_edge_meta option) op" where
  "graph_edge_meta_of X agent src relation dst =
     obind (olift (edge_key agent src relation dst)) (\<lambda>key. decoded (kv_get X key) decode_graph_edge)"

definition out_edge_entry :: "bytes \<Rightarrow> bytes \<times> bytes \<Rightarrow> out_edge engine_result" where
  "out_edge_entry pre = (\<lambda>(key, value). case edge_relation_dst (length pre) key of
     None \<Rightarrow> Inl (Corrupt GraphEdge)
   | Some (relation, dst) \<Rightarrow> rbind (decode_graph_edge value) (\<lambda>meta. Inr (relation, dst, meta)))"

definition graph_out_edges :: "externals \<Rightarrow> bytes \<Rightarrow> bytes \<Rightarrow> (store, out_edge list) op" where
  "graph_out_edges X agent src =
     obind (olift (edge_src_prefix agent src)) (\<lambda>pre.
     obind (kv_scan X pre) (\<lambda>entries. olift (rmap (out_edge_entry pre) entries)))"

definition graph_traverse :: "externals \<Rightarrow> bytes \<Rightarrow> bytes \<Rightarrow> nat \<Rightarrow> i64 \<Rightarrow> (store, reached list) op" where
  "graph_traverse X = graph_run (graph_entity_of X) (graph_out_edges X)"

definition entity_entry :: "bytes \<Rightarrow> bytes \<times> bytes \<Rightarrow> (bytes \<times> graph_entity) engine_result" where
  "entity_entry pre = (\<lambda>(key, value). case entity_id (length pre) key of
     None \<Rightarrow> Inl (Corrupt GraphEntity)
   | Some i \<Rightarrow> rbind (decode_graph_entity value) (\<lambda>e. Inr (i, e)))"

definition graph_entities :: "externals \<Rightarrow> bytes \<Rightarrow> (store, (bytes \<times> graph_entity) list) op" where
  "graph_entities X agent =
     obind (olift (entity_agent_prefix agent)) (\<lambda>pre.
     obind (kv_scan X pre) (\<lambda>entries. olift (rmap (entity_entry pre) entries)))"

definition edge_entry :: "bytes \<Rightarrow> bytes \<times> bytes \<Rightarrow> (bytes \<times> bytes \<times> bytes \<times> graph_edge_meta) engine_result" where
  "edge_entry pre = (\<lambda>(key, value). case edge_src_relation_dst (length pre) key of
     None \<Rightarrow> Inl (Corrupt GraphEdge)
   | Some (src, relation, dst) \<Rightarrow> rbind (decode_graph_edge value) (\<lambda>meta. Inr (src, relation, dst, meta)))"

definition graph_edges :: "externals \<Rightarrow> bytes \<Rightarrow> (store, (bytes \<times> bytes \<times> bytes \<times> graph_edge_meta) list) op" where
  "graph_edges X agent =
     obind (olift (edge_agent_prefix agent)) (\<lambda>pre.
     obind (kv_scan X pre) (\<lambda>entries. olift (rmap (edge_entry pre) entries)))"

definition graph_purge_agent :: "externals \<Rightarrow> (nat \<Rightarrow> nat \<Rightarrow> bytes) \<Rightarrow> bytes \<Rightarrow> (store, nat) op" where
  "graph_purge_agent X rnd agent =
     obind (olift (entity_agent_prefix agent)) (\<lambda>entities.
     obind (olift (edge_agent_prefix agent)) (\<lambda>edges.
     obind (kv_scan X entities) (\<lambda>es.
     obind (kv_scan X edges) (\<lambda>fs.
       let batch = fold (\<lambda>(key, value). batch_delete key) (es @ fs) batch_new
       in if batch = [] then oret 0
          else obind (apply_batch X rnd batch) (\<lambda>_. oret (length batch))))))"

subsection \<open>The graph a map holds\<close>

definition map_entity :: "(bytes \<rightharpoonup> bytes) \<Rightarrow> bytes \<Rightarrow> bytes \<Rightarrow> graph_entity option" where
  "map_entity m agent i = (case held m (KEntity agent i) of
     None \<Rightarrow> None | Some v \<Rightarrow> (case decode_graph_entity v of Inl e \<Rightarrow> None | Inr e \<Rightarrow> Some e))"

definition map_out_edges :: "(bytes \<rightharpoonup> bytes) \<Rightarrow> bytes \<Rightarrow> bytes \<Rightarrow> out_edge list" where
  "map_out_edges m agent src =
     (let pre = projr (edge_src_prefix agent src) in map (projr \<circ> out_edge_entry pre) (entries_of (prefix pre) m))"

lemma value_fits_entity: "value_fits (KEntity a i) v \<Longrightarrow> \<exists>e. decode_graph_entity v = Inr e \<and> encode_graph_entity e = Inr v"
  by (auto simp: value_fits_def elim!: value_kind_of.elims intro!: graph_entity_roundtrip)

lemma value_fits_edge: "value_fits (KEdge a s r d) v \<Longrightarrow> \<exists>e. decode_graph_edge v = Inr e \<and> encode_graph_edge e = v"
  by (auto simp: value_fits_def graph_edge_roundtrip elim!: value_kind_of.elims)

lemma out_edge_scanned:
  assumes "typed_map m" "finite (dom m)" "name_fits agent" "name_fits src" "edge_src_prefix agent src = Inr pre"
    and "(b, v) \<in> set (entries_of (prefix pre) m)"
  shows "\<exists>r d e. out_edge_entry pre (b, v) = Inr (r, d, e) \<and> key_ok (KEdge agent src r d)
    \<and> b = key_bytes (KEdge agent src r d) \<and> held m (KEdge agent src r d) = Some v \<and> v = encode_graph_edge e"
proof -
  have "scan_bytes (SEdgesFrom agent src) = Inr pre" by (simp add: assms(5))
  then obtain k where k: "key_ok k" "b = key_bytes k" "in_scan (SEdgesFrom agent src) k" "held m k = Some v" "value_fits k v"
    using scanned_entry [OF assms(1,2) _ assms(6)] by blast
  then obtain r d where kk: "k = KEdge agent src r d" by (cases k) auto
  obtain e where "decode_graph_edge v = Inr e" "encode_graph_edge e = v"
    using value_fits_edge k(5) unfolding kk by blast
  moreover have "edge_relation_dst (length pre) b = Some (r, d)"
    using decode_edge_from [OF assms(5)] encode_key_ok [OF k(1)] k(1,2) by (simp add: kk key_ok_def name_fits_def)
  ultimately show ?thesis using k by (auto simp: kk out_edge_entry_def)
qed

lemma edge_src_prefix_ok: "name_fits agent \<Longrightarrow> name_fits src \<Longrightarrow> \<exists>pre. edge_src_prefix agent src = Inr pre"
  using scan_bytes_Inr [of "SEdgesFrom agent src"] by (simp add: name_fits_def)

lemma set_map_out_edges:
  assumes "typed_map m" "finite (dom m)" "name_fits agent" "name_fits src"
  shows "set (map_out_edges m agent src) =
    {(r, d, e). name_fits r \<and> name_fits d \<and> held m (KEdge agent src r d) = Some (encode_graph_edge e)}"
proof -
  obtain pre where pre: "edge_src_prefix agent src = Inr pre" using edge_src_prefix_ok [OF assms(3,4)] by blast
  note scanned = out_edge_scanned [OF assms pre]
  have "(r, d, e) \<in> set (map_out_edges m agent src)"
    if "name_fits r" "name_fits d" "held m (KEdge agent src r d) = Some (encode_graph_edge e)" for r d e
  proof -
    have ok: "key_ok (KEdge agent src r d)" using that assms(3,4) by (simp add: key_ok_def)
    then have mem: "(key_bytes (KEdge agent src r d), encode_graph_edge e) \<in> set (entries_of (prefix pre) m)"
      using entry_scanned [of m "SEdgesFrom agent src" pre] assms(2) pre that(3) by simp
    obtain r' d' e' where "out_edge_entry pre (key_bytes (KEdge agent src r d), encode_graph_edge e) = Inr (r', d', e')"
      "key_ok (KEdge agent src r' d')" "key_bytes (KEdge agent src r d) = key_bytes (KEdge agent src r' d')"
      "encode_graph_edge e = encode_graph_edge e'"
      using scanned [OF mem] by blast
    moreover from this have "r' = r" "d' = d" using key_bytes_inj [OF ok] by auto
    moreover have "e' = e" using calculation(4) graph_edge_roundtrip by (metis sum.inject(2))
    ultimately show ?thesis using mem by (force simp: map_out_edges_def pre)
  qed
  moreover have "name_fits r \<and> name_fits d \<and> held m (KEdge agent src r d) = Some (encode_graph_edge e)"
    if edge: "(r, d, e) \<in> set (map_out_edges m agent src)" for r d e
  proof -
    obtain b v where "(b, v) \<in> set (entries_of (prefix pre) m)" "(r, d, e) = projr (out_edge_entry pre (b, v))"
      using edge by (auto simp: map_out_edges_def pre)
    then obtain r' d' e' where "out_edge_entry pre (b, v) = Inr (r', d', e')" "(r, d, e) = projr (out_edge_entry pre (b, v))"
      "key_ok (KEdge agent src r' d')" "held m (KEdge agent src r' d') = Some v" "v = encode_graph_edge e'"
      using scanned by blast
    then show ?thesis by (simp add: key_ok_def)
  qed
  ultimately show ?thesis by blast
qed

lemma graph_entity_reads:
  assumes "typed_map m" "name_fits agent" "name_fits i"
  shows "reads (peeks X runs st m) (graph_entity_of X agent i) (Inr (map_entity m agent i))"
proof -
  have ok: "key_ok (KEntity agent i)" using assms by (simp add: key_ok_def)
  then have key: "entity_key agent i = Inr (key_bytes (KEntity agent i))" using encode_key_ok by fastforce
  show ?thesis
  proof (cases "held m (KEntity agent i)")
    case None
    then show ?thesis using engine.decoded_map [of X runs st m "key_bytes (KEntity agent i)" decode_graph_entity]
      by (simp add: graph_entity_of_def key map_entity_def held_def)
  next
    case (Some v)
    then obtain e where "decode_graph_entity v = Inr e" using value_fits_entity typed_held [OF assms(1) ok] by blast
    then show ?thesis using Some engine.decoded_map [of X runs st m "key_bytes (KEntity agent i)" decode_graph_entity]
      by (simp add: graph_entity_of_def key map_entity_def held_def)
  qed
qed

lemma graph_out_edges_reads:
  assumes "typed_map m" "name_fits agent" "name_fits src"
  shows "reads (peeks X runs st m) (graph_out_edges X agent src) (Inr (map_out_edges m agent src))"
  unfolding reads_def
proof (intro allI impI)
  fix s assume s: "peeks X runs st m s"
  obtain pre where pre: "edge_src_prefix agent src = Inr pre" using edge_src_prefix_ok [OF assms(2,3)] by blast
  have fin: "finite (dom m)" using engine.map_finite [OF s] .
  have "out_edge_entry pre (k, v) = Inr (projr (out_edge_entry pre (k, v)))" if "prefix pre k" "m k = Some v" for k v
    using out_edge_scanned [OF assms(1) fin assms(2,3) pre, of k v] that fin by (auto simp: set_entries_of)
  from engine.scan_mapped [where f = "out_edge_entry pre" and g = "projr \<circ> out_edge_entry pre", OF _ s] this
  show "\<exists>s'. graph_out_edges X agent src s = (Inr (map_out_edges m agent src), s') \<and> peeks X runs st m s'"
    by (simp add: graph_out_edges_def pre map_out_edges_def)
qed

subsection \<open>Both flavours are providers\<close>

interpretation ram: graph_provider ram_entity ram_out_edges "\<lambda>s. s = g" "\<lambda>agent i. ram_entities g (agent, i)"
  "\<lambda>agent src. case ram_edges g (agent, src) of None \<Rightarrow> [] | Some edges \<Rightarrow> edges" "\<lambda>_. True" for g
  by unfold_locales (auto simp: reads_def ram_entity_def ram_out_edges_def)

interpretation persisted: graph_provider "graph_entity_of X" "graph_out_edges X"
  "\<lambda>s. typed_map m \<and> peeks X runs st m s" "map_entity m" "map_out_edges m" name_fits for X m runs st
proof unfold_locales
  show "reads (\<lambda>s. typed_map m \<and> peeks X runs st m s) (graph_entity_of X agent i) (Inr (map_entity m agent i))"
    if "name_fits agent" "name_fits i" for agent i
    using graph_entity_reads [OF _ that] by (auto simp: reads_def)
  show "reads (\<lambda>s. typed_map m \<and> peeks X runs st m s) (graph_out_edges X agent i) (Inr (map_out_edges m agent i))"
    if "name_fits agent" "name_fits i" for agent i
    using graph_out_edges_reads [OF _ that] by (auto simp: reads_def)
  show "name_fits v" if "typed_map m \<and> peeks X runs st m s" "name_fits agent" "name_fits u"
    "(r, v, meta) \<in> set (map_out_edges m agent u)" for s agent u r v meta
  proof -
    have "finite (dom m)" using that(1) engine.map_finite by blast
    then show ?thesis using set_map_out_edges [of m agent u] that by auto
  qed
qed

subsection \<open>Traversals\<close>

lemma persisted_traversal:
  assumes "typed_map m" "store_inv X st runs" "store_map runs (memtable st) = m" "name_fits agent" "name_fits start"
  shows "\<exists>rs st'. graph_traverse X agent start max_depth now st = (Inr rs, st') \<and> peeks X runs st m st'
    \<and> is_traversal (map_entity m agent) (map_out_edges m agent) start max_depth now rs"
  using persisted.traversal_correct [OF assms(4,5), of m X runs st st max_depth now] assms(1) peeks_refl [OF assms(2,3)]
  by (auto simp: graph_traverse_def)

text \<open>
  C37. The persisted traversal returns, for whatever graph the store holds, exactly the visible
  entities whose shortest path of visible edges from the start has at least one and at most
  \<open>max_depth\<close> edges, each once, with that length, ordered by length and then by id; it ends on
  cyclic graphs, and it leaves the content of the store as it is.
\<close>

theorem graph_traverse_correct:
  assumes "typed_map m" "store_inv X st runs" "store_map runs (memtable st) = m" "name_fits agent" "name_fits start"
  shows "\<exists>rs st'. graph_traverse X agent start max_depth now st = (Inr rs, st') \<and> peeks X runs st m st'
    \<and> is_traversal (map_entity m agent) (map_out_edges m agent) start max_depth now rs"
  using assms by (rule persisted_traversal)

subsection \<open>The same upserts on both\<close>

definition ram_edges_of :: "ram_graph \<Rightarrow> bytes \<Rightarrow> bytes \<Rightarrow> out_edge list" where
  "ram_edges_of g agent src = (case ram_edges g (agent, src) of None \<Rightarrow> [] | Some edges \<Rightarrow> edges)"

definition same_graph :: "(bytes \<rightharpoonup> bytes) \<Rightarrow> ram_graph \<Rightarrow> bool" where
  "same_graph m g \<longleftrightarrow> (\<forall>agent i. name_fits agent \<longrightarrow> name_fits i \<longrightarrow>
     ram_entities g (agent, i) = map_entity m agent i
     \<and> set (ram_edges_of g agent i) = set (map_out_edges m agent i)
     \<and> distinct (map (\<lambda>(r, d, e). (r, d)) (ram_edges_of g agent i)))"

lemma ram_edges_upsert:
  "ram_edges_of (ram_upsert_edge agent src r d e g) a s =
     (if (a, s) = (agent, src) then replace_edge r d e (ram_edges_of g a s) else ram_edges_of g a s)"
  "ram_edges_of (ram_upsert_entity agent i en g) a s = ram_edges_of g a s"
  by (simp_all add: ram_edges_of_def ram_upsert_edge_def ram_upsert_entity_def)

lemma set_replace_edge:
  "distinct (map (\<lambda>(r, d, e). (r, d)) es) \<Longrightarrow>
    set (replace_edge r d e es) = insert (r, d, e) {(r', d', e') \<in> set es. (r', d') \<noteq> (r, d)}
    \<and> distinct (map (\<lambda>(r, d, e). (r, d)) (replace_edge r d e es))"
  by (induction r d e es rule: replace_edge.induct) (auto simp: image_iff)

lemma upsert_entity_commits:
  assumes "store_inv X st runs" "store_map runs (memtable st) = m" "draws_ok (crypto st) rnd"
    and "name_fits agent" "name_fits i" "value_ok (VEntity e)" "encode_graph_entity e = Inr v"
    and "roomy st runs (entry_wire_size (key_bytes (KEntity agent i), Some v))"
  shows "commits X st runs m (graph_upsert_entity X rnd agent i e) () (put_key (KEntity agent i) v m)
      (entry_wire_size (key_bytes (KEntity agent i), Some v))"
proof -
  have "key_ok (KEntity agent i)" using assms by (simp add: key_ok_def)
  then have "entity_key agent i = Inr (key_bytes (KEntity agent i))" using encode_key_ok by fastforce
  then show ?thesis using commits_put [OF assms(1,2,8,3)] assms(7) by (simp add: graph_upsert_entity_def put_key_def)
qed

lemma upsert_edge_commits:
  assumes "store_inv X st runs" "store_map runs (memtable st) = m" "draws_ok (crypto st) rnd"
    and "name_fits agent" "name_fits src" "name_fits relation" "name_fits dst"
    and "roomy st runs (entry_wire_size (key_bytes (KEdge agent src relation dst), Some (encode_graph_edge e)))"
  shows "commits X st runs m (graph_upsert_edge X rnd agent src relation dst e) ()
      (put_key (KEdge agent src relation dst) (encode_graph_edge e) m)
      (entry_wire_size (key_bytes (KEdge agent src relation dst), Some (encode_graph_edge e)))"
proof -
  have "key_ok (KEdge agent src relation dst)" using assms by (simp add: key_ok_def)
  then have "edge_key agent src relation dst = Inr (key_bytes (KEdge agent src relation dst))" using encode_key_ok by fastforce
  then show ?thesis using commits_put [OF assms(1,2,8,3)] by (simp add: graph_upsert_edge_def put_key_def)
qed

lemma entity_fits: "value_ok (VEntity e) \<Longrightarrow> encode_graph_entity e = Inr v \<Longrightarrow> value_fits (KEntity a i) v"
  by (auto simp: value_fits_def intro!: exI [of _ "VEntity e"])

lemma edge_fits: "value_fits (KEdge a s r d) (encode_graph_edge e)"
  by (auto simp: value_fits_def intro!: exI [of _ "VEdge e"])

lemma same_graph_entity:
  assumes "same_graph m g" "typed_map m" "finite (dom m)" "name_fits agent" "name_fits i"
    and "value_ok (VEntity e)" "encode_graph_entity e = Inr v"
  shows "same_graph (put_key (KEntity agent i) v m) (ram_upsert_entity agent i e g)"
proof -
  let ?m = "put_key (KEntity agent i) v m"
  have ok: "key_ok (KEntity a j)" if "name_fits a" "name_fits j" for a j using that by (simp add: key_ok_def)
  have typed: "typed_map ?m" using typed_put [OF assms(2) ok [OF assms(4,5)] entity_fits [OF assms(6,7)]] .
  have fin: "finite (dom ?m)" using assms(3) by (simp add: put_key_def)
  have "map_entity ?m a j = (if (a, j) = (agent, i) then Some e else map_entity m a j)" if "name_fits a" "name_fits j" for a j
    using graph_entity_roundtrip [OF assms(7)] assms(6) held_put [OF ok [OF assms(4,5)] ok [OF that]]
    by (simp add: map_entity_def)
  moreover have "set (map_out_edges ?m a s) = set (map_out_edges m a s)" if "name_fits a" "name_fits s" for a s
  proof -
    have "held ?m (KEdge a s r d) = held m (KEdge a s r d)" if "name_fits r" "name_fits d" for r d
      using held_put [OF ok [OF assms(4,5)], of "KEdge a s r d" v m] that \<open>name_fits a\<close> \<open>name_fits s\<close> by (simp add: key_ok_def)
    then show ?thesis
      by (auto simp: set_map_out_edges [OF typed fin that] set_map_out_edges [OF assms(2,3) that])
  qed
  ultimately show ?thesis using assms(1)
    by (auto simp: same_graph_def ram_edges_upsert) (simp_all add: ram_upsert_entity_def)
qed

lemma same_graph_edge:
  assumes "same_graph m g" "typed_map m" "finite (dom m)" "name_fits agent" "name_fits src" "name_fits relation" "name_fits dst"
  shows "same_graph (put_key (KEdge agent src relation dst) (encode_graph_edge e) m) (ram_upsert_edge agent src relation dst e g)"
proof -
  let ?k = "KEdge agent src relation dst"
  let ?m = "put_key ?k (encode_graph_edge e) m"
  have k: "key_ok ?k" using assms by (simp add: key_ok_def)
  have typed: "typed_map ?m" using typed_put [OF assms(2) k edge_fits] .
  have fin: "finite (dom ?m)" using assms(3) by (simp add: put_key_def)
  have "map_entity ?m a j = map_entity m a j" if "name_fits a" "name_fits j" for a j
    using held_put [OF k, of "KEntity a j" "encode_graph_edge e" m] that by (simp add: map_entity_def key_ok_def)
  moreover have "set (map_out_edges ?m a s) = (if (a, s) = (agent, src)
      then insert (relation, dst, e) {(r, d, e') \<in> set (map_out_edges m a s). (r, d) \<noteq> (relation, dst)}
      else set (map_out_edges m a s))" if "name_fits a" "name_fits s" for a s
  proof -
    have "held ?m (KEdge a s r d) = (if KEdge a s r d = ?k then Some (encode_graph_edge e) else held m (KEdge a s r d))"
      if "name_fits r" "name_fits d" for r d
      using held_put [OF k, of "KEdge a s r d" "encode_graph_edge e" m] that \<open>name_fits a\<close> \<open>name_fits s\<close> by (simp add: key_ok_def)
    moreover have "encode_graph_edge e = encode_graph_edge e' \<longleftrightarrow> e = e'" for e'
      using graph_edge_roundtrip by (metis sum.inject(2))
    ultimately show ?thesis using assms(6,7)
      unfolding set_map_out_edges [OF typed fin that] set_map_out_edges [OF assms(2,3) that]
      by (auto split: if_splits)
  qed
  moreover have "ram_entities (ram_upsert_edge agent src relation dst e g) = ram_entities g"
    by (simp add: ram_upsert_edge_def)
  ultimately show ?thesis using assms(1) set_replace_edge [of "ram_edges_of g agent src" relation dst e] assms(4,5)
    unfolding same_graph_def ram_edges_upsert by (auto split: if_splits)
qed

lemma same_graph_traversal:
  assumes "same_graph m g" "typed_map m" "finite (dom m)" "name_fits agent" "name_fits start"
  shows "is_traversal (\<lambda>i. ram_entities g (agent, i)) (ram_edges_of g agent) start max_depth now rs
    = is_traversal (map_entity m agent) (map_out_edges m agent) start max_depth now rs"
proof -
  let ?ram = "ram_edges_of g agent" and ?map = "map_out_edges m agent"
  have edges: "set (?ram u) = set (?map u)" if "name_fits u" for u
    using assms(1,4) that by (simp add: same_graph_def)
  have next_fits: "name_fits v" if "name_fits u" "(r, v, e) \<in> set (?map u)" for u r v e
    using set_map_out_edges [OF assms(2-4) that(1)] that(2) by auto
  have map_ram: "path ?ram now n start v" if "path ?map now n start v" for n v
    using that
  proof (induction n arbitrary: v)
    case (Suc n)
    then obtain u r e where u: "path ?map now n start u" "(r, v, e) \<in> set (?map u)" "visible_at (ge_valid_until e) now"
      by (auto elim: path_SucE)
    have "name_fits u" using path_invariant [OF u(1), of name_fits] next_fits assms(5) by blast
    then show ?case using path_step [OF Suc.IH [OF u(1)]] u(2,3) edges by blast
  qed simp
  have "path ?map now n start v \<and> name_fits v" if "path ?ram now n start v" for n v
    using that
  proof (induction n arbitrary: v)
    case (Suc n)
    then obtain u r e where u: "path ?ram now n start u" "(r, v, e) \<in> set (?ram u)" "visible_at (ge_valid_until e) now"
      by (auto elim: path_SucE)
    then show ?case using path_step [of ?map now n start u r v e] Suc.IH [OF u(1)] edges [of u] next_fits [of u r v e] by blast
  qed (simp add: assms(5))
  then have same: "path ?ram now n start v = path ?map now n start v" for n v using map_ram by blast
  have "ram_entities g (agent, v) = map_entity m agent v" if "at_distance ?map now start v d" for v d
    using path_invariant [of ?map now d start v name_fits] next_fits that assms(1,4,5)
    by (auto simp: at_distance_def same_graph_def)
  then have "(v \<noteq> start \<and> d \<le> max_depth \<and> at_distance ?ram now start v d \<and> ram_entities g (agent, v) = Some e
      \<and> visible_at (gn_valid_until e) now)
    = (v \<noteq> start \<and> d \<le> max_depth \<and> at_distance ?map now start v d \<and> map_entity m agent v = Some e
      \<and> visible_at (gn_valid_until e) now)" for v d e
    using same by (auto simp: at_distance_def)
  then show ?thesis unfolding is_traversal_def by simp
qed

text \<open>
  C38. The two flavours agree: when the RAM graph and the store hold the same graph, every
  traversal returns the same list on both.
\<close>

theorem graph_flavours_agree:
  assumes "same_graph m g" "typed_map m" "store_inv X st runs" "store_map runs (memtable st) = m"
    and "name_fits agent" "name_fits start"
  shows "\<exists>rs st'. graph_traverse X agent start max_depth now st = (Inr rs, st')
    \<and> ram_traverse agent start max_depth now g = (Inr rs, g)"
proof -
  have fin: "finite (dom m)" using finite_store_map assms(4) by metis
  obtain rs st' where p: "graph_traverse X agent start max_depth now st = (Inr rs, st')"
    "is_traversal (map_entity m agent) (map_out_edges m agent) start max_depth now rs"
    using persisted_traversal [OF assms(2-6)] by blast
  obtain rs' where r: "ram_traverse agent start max_depth now g = (Inr rs', g)"
    "is_traversal (\<lambda>i. ram_entities g (agent, i)) (ram_edges_of g agent) start max_depth now rs'"
    using ram.traversal_correct [where agent = agent and start = start and max_depth = max_depth and now = now, OF TrueI TrueI refl] by (auto simp: ram_traverse_def ram_edges_of_def [abs_def])
  have "rs' = rs"
    using same_graph_traversal [OF assms(1,2) fin assms(5,6)] p(2) r(2) traversal_unique by blast
  then show ?thesis using p(1) r(1) by blast
qed

text \<open>
  C39. An upsert of an entity or an edge is one atomic write of the store: after a crash the
  graph is the one before or the one after, it stays well formed, and it stays equal to the
  RAM graph that received the same upsert.
\<close>

theorem graph_upserts_refine:
  assumes "same_graph m g" "typed_map m" "store_inv X st runs" "store_map runs (memtable st) = m"
    and "draws_ok (crypto st) rnd" "name_fits agent" "name_fits i"
  shows "(value_ok (VEntity e) \<and> encode_graph_entity e = Inr v
        \<and> roomy st runs (entry_wire_size (key_bytes (KEntity agent i), Some v)) \<longrightarrow>
      (\<exists>st' runs' m'. graph_upsert_entity X rnd agent i e st = (Inr (), st') \<and> steps_to X st m st' runs' m'
        \<and> typed_map m' \<and> same_graph m' (ram_upsert_entity agent i e g)))
    \<and> (name_fits relation \<and> name_fits dst
        \<and> roomy st runs (entry_wire_size (key_bytes (KEdge agent i relation dst), Some (encode_graph_edge meta))) \<longrightarrow>
      (\<exists>st' runs' m'. graph_upsert_edge X rnd agent i relation dst meta st = (Inr (), st') \<and> steps_to X st m st' runs' m'
        \<and> typed_map m' \<and> same_graph m' (ram_upsert_edge agent i relation dst meta g)))"
proof -
  have fin: "finite (dom m)" using finite_store_map assms(4) by metis
  show ?thesis
  proof (intro conjI impI; elim conjE)
    assume a: "value_ok (VEntity e)" "encode_graph_entity e = Inr v"
      "roomy st runs (entry_wire_size (key_bytes (KEntity agent i), Some v))"
    have "typed_map (put_key (KEntity agent i) v m)"
      using typed_put [OF assms(2) _ entity_fits [OF a(1,2)]] assms(6,7) by (simp add: key_ok_def)
    then show "\<exists>st' runs' m'. graph_upsert_entity X rnd agent i e st = (Inr (), st') \<and> steps_to X st m st' runs' m'
        \<and> typed_map m' \<and> same_graph m' (ram_upsert_entity agent i e g)"
      using upsert_entity_commits [OF assms(3-7) a] same_graph_entity [OF assms(1,2) fin assms(6,7) a(1,2)]
      unfolding commits_def by blast
  next
    assume a: "name_fits relation" "name_fits dst"
      "roomy st runs (entry_wire_size (key_bytes (KEdge agent i relation dst), Some (encode_graph_edge meta)))"
    have "typed_map (put_key (KEdge agent i relation dst) (encode_graph_edge meta) m)"
      using typed_put [OF assms(2) _ edge_fits] assms(6,7) a by (simp add: key_ok_def)
    then show "\<exists>st' runs' m'. graph_upsert_edge X rnd agent i relation dst meta st = (Inr (), st') \<and> steps_to X st m st' runs' m'
        \<and> typed_map m' \<and> same_graph m' (ram_upsert_edge agent i relation dst meta g)"
      using upsert_edge_commits [OF assms(3-7) a] same_graph_edge [OF assms(1,2) fin assms(6,7) a(1,2)]
      unfolding commits_def by blast
  qed
qed

subsection \<open>Purging an agent\<close>

definition graph_key_of :: "bytes \<Rightarrow> bytes \<Rightarrow> bool" where
  "graph_key_of agent b \<longleftrightarrow> (\<exists>k. key_ok k \<and> b = key_bytes k \<and> (in_scan (SEntities agent) k \<or> in_scan (SEdges agent) k))"

definition purge_size :: "(bytes \<rightharpoonup> bytes) \<Rightarrow> bytes \<Rightarrow> nat" where
  "purge_size m agent = (\<Sum>b \<in> {b \<in> dom m. graph_key_of agent b}. entry_wire_size (b, None))"

lemma purge_reads:
  assumes "typed_map m" "finite (dom m)" "name_fits agent"
  obtains p q where "entity_agent_prefix agent = Inr p" "edge_agent_prefix agent = Inr q"
    "fst ` set (entries_of (prefix p) m @ entries_of (prefix q) m) = {b \<in> dom m. graph_key_of agent b}"
    "length (entries_of (prefix p) m @ entries_of (prefix q) m) = card {b \<in> dom m. graph_key_of agent b}"
proof -
  obtain p q where pq: "scan_bytes (SEntities agent) = Inr p" "scan_bytes (SEdges agent) = Inr q"
    using scan_bytes_Inr [of "SEntities agent"] scan_bytes_Inr [of "SEdges agent"] assms(3) by (simp add: name_fits_def)
  have P: "prefix p b \<longleftrightarrow> (\<exists>k. key_ok k \<and> b = key_bytes k \<and> in_scan (SEntities agent) k)"
    and Q: "prefix q b \<longleftrightarrow> (\<exists>k. key_ok k \<and> b = key_bytes k \<and> in_scan (SEdges agent) k)" if "b \<in> dom m" for b
    using that prefix_scanned [OF assms(1) pq(1)] prefix_scanned [OF assms(1) pq(2)] by auto
  have keys: "{b \<in> dom m. graph_key_of agent b} = {b \<in> dom m. prefix p b} \<union> {b \<in> dom m. prefix q b}"
    using P Q unfolding graph_key_of_def by blast
  have "\<not> (in_scan (SEntities agent) k \<and> in_scan (SEdges agent) k)" for k by (cases k) auto
  then have "{b \<in> dom m. prefix p b} \<inter> {b \<in> dom m. prefix q b} = {}"
    using P Q key_bytes_inj by blast
  then have "card {b \<in> dom m. graph_key_of agent b} = card {b \<in> dom m. prefix p b} + card {b \<in> dom m. prefix q b}"
    unfolding keys using assms(2) by (intro card_Un_disjoint) auto
  moreover have "fst ` set (entries_of R m) = {b \<in> dom m. R b}" for R
    using assms(2) by (force simp: set_entries_of)
  ultimately show ?thesis using that [of p q] pq keys by (simp add: image_Un length_entries_of)
qed

text \<open>
  C40. \<open>purge_agent\<close> removes, in one atomic write, every entity and edge of the agent and no
  other key, and returns how many there were: but only for an agent with at most
  \<open>MAX_BATCH_OPS\<close> graph records. For a larger graph it fails and removes nothing, on every
  attempt.
\<close>

theorem graph_purge_agent_correct:
  assumes "typed_map m" "store_inv X st runs" "store_map runs (memtable st) = m" "draws_ok (crypto st) rnd"
    and "name_fits agent" "n = card {b \<in> dom m. graph_key_of agent b}"
    and "roomy st runs (purge_size m agent)"
  shows "if n > MAX_BATCH_OPS
    then graph_purge_agent X rnd agent st = (Inl (WalBatchTooLarge n MAX_BATCH_OPS), st)
    else \<exists>st' runs'. graph_purge_agent X rnd agent st = (Inr n, st')
      \<and> steps_to X st m st' runs' (\<lambda>b. if graph_key_of agent b then None else m b)"
proof -
  have fin: "finite (dom m)" using finite_store_map assms(3) by metis
  let ?keys = "{b \<in> dom m. graph_key_of agent b}"
  obtain p q where pq: "entity_agent_prefix agent = Inr p" "edge_agent_prefix agent = Inr q"
    "fst ` set (entries_of (prefix p) m @ entries_of (prefix q) m) = ?keys"
    "length (entries_of (prefix p) m @ entries_of (prefix q) m) = card ?keys"
    by (rule purge_reads [OF assms(1) fin assms(5)])
  define es where "es = entries_of (prefix p) m @ entries_of (prefix q) m"
  define b where "b = map (\<lambda>(key, value). (key, None :: bytes option)) es"
  have es: "fst ` set es = ?keys" "length es = n" using pq(3,4) assms(6) by (simp_all add: es_def)
  have scan: "kv_scan X pre st = (Inr (entries_of (prefix pre) m), st)" for pre
    using engine.scan_map [of X runs st m pre] peeks_refl [OF assms(2,3)] by (auto simp: reads_def kv_scan_def)
  have then_scan: "obind (kv_scan X pre) k st = k (entries_of (prefix pre) m) st" for pre k
    by (simp add: obind_def scan)
  have purge: "graph_purge_agent X rnd agent st =
      (if b = [] then (Inr 0, st) else obind (apply_batch X rnd b) (\<lambda>_. oret (length b)) st)"
    by (simp add: graph_purge_agent_def pq then_scan oret_def fold_batch_delete batch_new_def b_def es_def Let_def)
  have "distinct (map fst es)" using es assms(6) by (simp add: card_distinct)
  then have "(\<Sum>k \<leftarrow> map fst es. entry_wire_size (k, None)) = (\<Sum>k \<in> set (map fst es). entry_wire_size (k, None))"
    by (rule sum_list_distinct_conv_sum_set)
  then have size: "kvs_size b = purge_size m agent"
    using es(1) by (simp add: b_def purge_size_def kvs_size_def case_prod_beta comp_def)
  have room: "roomy st runs (kvs_size b)" using assms(7) size by simp
  have m': "fold apply_kv b m = (\<lambda>b. if graph_key_of agent b then None else m b)"
    unfolding b_def apply_deletes es(1) by (auto simp: fun_eq_iff domIff)
  have len: "length b = n" using es(2) by (simp add: b_def)
  note batch = apply_batch_steps [OF assms(2) room assms(4,3)]
  show ?thesis
  proof (cases "n > MAX_BATCH_OPS")
    case True
    then show ?thesis using batch len purge by (auto simp: obind_def)
  next
    case False
    then show ?thesis
      using batch len m' purge steps_to_refl [OF assms(2,3)] by (cases "b = []") (auto simp: obind_def oret_def)
  qed
qed

subsection \<open>Concrete instances\<close>

lemma toy_typed: "typed_map Map.empty" by (simp add: typed_map_def)

lemma toy_name: "name_fits [97]" "name_fits [98]" by (simp_all add: name_fits_def)

lemma toy_same: "same_graph Map.empty ram_new"
proof -
  have "map_out_edges Map.empty a s = []" for a s by (simp add: map_out_edges_def entries_of_def Let_def)
  then show ?thesis by (simp add: same_graph_def ram_new_def ram_edges_of_def map_entity_def held_def)
qed

definition toy_entity :: graph_entity where
  "toy_entity = \<lparr>gn_kind = [107], gn_label = [108], gn_valid_from = 0, gn_valid_until = None\<rparr>"

theorem graph_traverse_correct_witness:
  "\<exists>st'. graph_traverse toy_externals [97] [98] 3 5 toy_store = (Inr [], st')"
  using graph_traverse_correct [OF toy_typed toy_store_inv toy_store_map toy_name, of 3 5]
  by (auto simp: is_traversal_def map_entity_def held_def)

theorem graph_flavours_agree_witness:
  "\<exists>rs st'. graph_traverse toy_externals [97] [98] 3 5 toy_store = (Inr rs, st')
     \<and> ram_traverse [97] [98] 3 5 ram_new = (Inr rs, ram_new)"
  using graph_flavours_agree [OF toy_same toy_typed toy_store_inv toy_store_map toy_name] .

theorem graph_upserts_refine_witness:
  "\<exists>st' runs' m'. graph_upsert_entity toy_externals toy_rnd [97] [98] toy_entity toy_store = (Inr (), st')
     \<and> steps_to toy_externals toy_store Map.empty st' runs' m' \<and> same_graph m' (ram_upsert_entity [97] [98] toy_entity ram_new)"
proof -
  obtain v where v: "encode_graph_entity toy_entity = Inr v" "length v < 100"
    by (auto simp: encode_graph_entity_def toy_entity_def fits16_def fits32_def)
  moreover have "value_ok (VEntity toy_entity)" by (simp add: toy_entity_def)
  moreover have "roomy toy_store [] (entry_wire_size (key_bytes (KEntity [97] [98]), Some v))"
    using v(2) by (intro toy_roomy) (simp add: entry_wire_size_def key_bytes_def lp_def ENTITY_PREFIX_def ascii_def)
  ultimately show ?thesis
    using graph_upserts_refine [OF toy_same toy_typed toy_store_inv toy_store_map toy_draws toy_name] by blast
qed

theorem graph_purge_agent_correct_witness:
  "\<exists>st'. graph_purge_agent toy_externals toy_rnd [97] toy_store = (Inr 0, st')"
proof -
  have "roomy toy_store [] (purge_size Map.empty [97])" by (rule toy_roomy) (simp add: purge_size_def)
  from graph_purge_agent_correct [OF toy_typed toy_store_inv toy_store_map toy_draws toy_name(1) refl this]
  show ?thesis by (auto simp: MAX_BATCH_OPS_def)
qed

end
