(* ===== verification/Tokenizer.thy ===== *)
theory Tokenizer
  imports Keys Ordered_Map Record_Codecs
begin

text \<open>
  The full-text tokenizer (\<open>idx/fts/tokenizer.rs\<close>), the term counts of a document
  (\<open>docterms::from_content\<close>), the match expressions of queries (\<open>fts_match_expr\<close> of
  \<open>crates/basemyai/src/memory/mod.rs\<close>) and their parser (\<open>parse_match_expr\<close> of
  \<open>idx/fts/persistent.rs\<close>). Text is a list of code points here; \<open>utf8\<close> gives the bytes Rust stores.
  The Unicode tables of the standard library (\<open>char::is_alphanumeric\<close>, \<open>char::to_lowercase\<close> and
  the contextual rule of \<open>str::to_lowercase\<close>) are the parameter \<open>unicode\<close>.
\<close>

subsection \<open>Code points and UTF-8\<close>

type_synonym chars = "nat list"

definition scalar :: "nat \<Rightarrow> bool" where
  "scalar c \<longleftrightarrow> c < 0x110000 \<and> \<not> (0xD800 \<le> c \<and> c < 0xE000)"

definition utf8_char :: "nat \<Rightarrow> bytes" where
  "utf8_char c =
     (if c < 0x80 then [word_of_nat c]
      else if c < 0x800 then [word_of_nat (0xC0 + c div 0x40), word_of_nat (0x80 + c mod 0x40)]
      else if c < 0x10000
      then [word_of_nat (0xE0 + c div 0x1000), word_of_nat (0x80 + c div 0x40 mod 0x40), word_of_nat (0x80 + c mod 0x40)]
      else [word_of_nat (0xF0 + c div 0x40000), word_of_nat (0x80 + c div 0x1000 mod 0x40),
            word_of_nat (0x80 + c div 0x40 mod 0x40), word_of_nat (0x80 + c mod 0x40)])"

definition utf8 :: "chars \<Rightarrow> bytes" where
  "utf8 cs = concat (map utf8_char cs)"

lemma utf8_simps [simp]:
  "utf8 [] = []" "utf8 (c # cs) = utf8_char c @ utf8 cs" "utf8 (cs @ ds) = utf8 cs @ utf8 ds"
  by (simp_all add: utf8_def)

lemma byte_of_nat: "n < 256 \<Longrightarrow> unat (word_of_nat n :: u8) = n"
  by (simp add: unat_of_nat)

lemma split_64: "(c :: nat) = c div 0x40 * 0x40 + c mod 0x40" "c div 0x40 div 0x40 = c div 0x1000" "c div 0x1000 div 0x40 = c div 0x40000"
  by (simp_all add: div_mult2_eq [symmetric])

lemma utf8_valid_char:
  assumes "scalar c"
  shows "utf8_valid (utf8_char c @ bs) = utf8_valid bs"
proof -
  have m: "x mod 0x40 < 0x40" for x :: nat by simp
  consider "c < 0x80" | "0x80 \<le> c" "c < 0x800" | "0x800 \<le> c" "c < 0x10000" | "0x10000 \<le> c" "c < 0x110000"
    using assms unfolding scalar_def by linarith
  then show ?thesis
  proof cases
    case 1
    define b0 :: u8 where "b0 = word_of_nat c"
    have u: "unat b0 = c" unfolding b0_def using 1 by (intro byte_of_nat) simp
    have "utf8_char c = [b0]" using 1 by (simp add: utf8_char_def b0_def)
    then show ?thesis using 1 u by (simp add: word_less_nat_alt)
  next
    case 2
    define b0 b1 :: u8 where "b0 = word_of_nat (0xC0 + c div 0x40)" and "b1 = word_of_nat (0x80 + c mod 0x40)"
    have q: "c div 0x40 < 0x20" "2 \<le> c div 0x40" using 2 by auto
    have u: "unat b0 = 0xC0 + c div 0x40" "unat b1 = 0x80 + c mod 0x40"
      unfolding b0_def b1_def using q m [of c] by (intro byte_of_nat; linarith)+
    have "utf8_tail b0 (b1 # bs) = Some bs" "\<not> b0 < 0x80"
      using q m [of c] u by (simp_all add: utf8_tail_def utf8_cont_def word_le_nat_alt word_less_nat_alt)
    moreover have "utf8_char c = [b0, b1]" using 2 by (simp add: utf8_char_def b0_def b1_def)
    ultimately show ?thesis by simp
  next
    case 3
    define h i j where "h = c div 0x1000" and "i = c div 0x40 mod 0x40" and "j = c mod 0x40"
    define b0 b1 b2 :: u8 where "b0 = word_of_nat (0xE0 + h)" and "b1 = word_of_nat (0x80 + i)" and "b2 = word_of_nat (0x80 + j)"
    have c: "c = h * 0x1000 + i * 0x40 + j" "i < 0x40" "j < 0x40"
      using split_64 [of c] split_64(1) [of "c div 0x40"] unfolding h_def i_def j_def by (linarith, simp_all)
    have h: "h < 0x10" "h = 0 \<longrightarrow> 0x20 \<le> i" "h = 0xD \<longrightarrow> i < 0x20" using 3 c assms by (auto simp: scalar_def)
    have u: "unat b0 = 0xE0 + h" "unat b1 = 0x80 + i" "unat b2 = 0x80 + j"
      unfolding b0_def b1_def b2_def using h c(2,3) by (intro byte_of_nat; linarith)+
    have "utf8_tail b0 (b1 # b2 # bs) = Some bs" "\<not> b0 < 0x80"
      using h c(2,3) u by (auto simp: utf8_tail_def utf8_cont_def word_le_nat_alt word_less_nat_alt word_unat_eq_iff)
    moreover have "utf8_char c = [b0, b1, b2]" using 3 by (simp add: utf8_char_def h_def i_def j_def b0_def b1_def b2_def)
    ultimately show ?thesis by simp
  next
    case 4
    define g h i j where "g = c div 0x40000" and "h = c div 0x1000 mod 0x40" and "i = c div 0x40 mod 0x40" and "j = c mod 0x40"
    define b0 b1 b2 b3 :: u8 where "b0 = word_of_nat (0xF0 + g)" and "b1 = word_of_nat (0x80 + h)"
      and "b2 = word_of_nat (0x80 + i)" and "b3 = word_of_nat (0x80 + j)"
    have c: "c = g * 0x40000 + h * 0x1000 + i * 0x40 + j" "h < 0x40" "i < 0x40" "j < 0x40"
      using split_64 [of c] split_64(1) [of "c div 0x40"] split_64(1) [of "c div 0x1000"]
      unfolding g_def h_def i_def j_def by (linarith, simp_all)
    have g: "g < 5" "g = 0 \<longrightarrow> 0x10 \<le> h" "g = 4 \<longrightarrow> h < 0x10" using 4 c by auto
    have u: "unat b0 = 0xF0 + g" "unat b1 = 0x80 + h" "unat b2 = 0x80 + i" "unat b3 = 0x80 + j"
      unfolding b0_def b1_def b2_def b3_def using g c(2-4) by (intro byte_of_nat; linarith)+
    have "utf8_tail b0 (b1 # b2 # b3 # bs) = Some bs" "\<not> b0 < 0x80"
      using g c(2-4) u by (auto simp: utf8_tail_def utf8_cont_def word_le_nat_alt word_less_nat_alt word_unat_eq_iff)
    moreover have "utf8_char c = [b0, b1, b2, b3]"
      using 4 by (simp add: utf8_char_def g_def h_def i_def j_def b0_def b1_def b2_def b3_def)
    ultimately show ?thesis by simp
  qed
qed

lemma utf8_valid_utf8: "\<forall>c \<in> set cs. scalar c \<Longrightarrow> utf8_valid (utf8 cs)"
  by (induction cs) (simp_all add: utf8_valid_char)

subsection \<open>The tokenizer\<close>

record unicode =
  alnum :: "nat \<Rightarrow> bool"
  lower :: "nat \<Rightarrow> chars"
  cased :: "nat \<Rightarrow> bool"
  ignorable :: "nat \<Rightarrow> bool"

text \<open>\<open>str::split\<close> by a predicate, and the non-empty pieces.\<close>

fun pieces :: "(nat \<Rightarrow> bool) \<Rightarrow> chars \<Rightarrow> chars list" where
  "pieces sep [] = [[]]"
| "pieces sep (c # cs) =
     (if sep c then [] # pieces sep cs
      else (case pieces sep cs of [] \<Rightarrow> [[c]] | p # ps \<Rightarrow> (c # p) # ps))"

definition words :: "unicode \<Rightarrow> chars \<Rightarrow> chars list" where
  "words U text_chars = filter (\<lambda>p. p \<noteq> []) (pieces (\<lambda>c. \<not> alnum U c) text_chars)"

definition fold_char :: "nat \<Rightarrow> nat" where
  "fold_char c =
     (if c \<in> set [0xE0, 0xE1, 0xE2, 0xE3, 0xE4, 0xE5, 0x101, 0x103, 0x105] then 97
     else if c \<in> set [0xE8, 0xE9, 0xEA, 0xEB, 0x113, 0x115, 0x117, 0x119, 0x11B] then 101
     else if c \<in> set [0xEC, 0xED, 0xEE, 0xEF, 0x129, 0x12B, 0x12D, 0x12F] then 105
     else if c \<in> set [0xF2, 0xF3, 0xF4, 0xF5, 0xF6, 0xF8, 0x14D, 0x14F, 0x151] then 111
     else if c \<in> set [0xF9, 0xFA, 0xFB, 0xFC, 0x169, 0x16B, 0x16D, 0x16F, 0x171, 0x173] then 117
     else if c \<in> set [0xFD, 0xFF, 0x177] then 121
     else if c \<in> set [0xE7, 0x107, 0x109, 0x10B, 0x10D] then 99
     else if c \<in> set [0xF1, 0x144, 0x146, 0x148] then 110
     else if c \<in> set [0xDF] then 115
     else if c \<in> set [0xE6] then 97
     else if c \<in> set [0x153] then 111
     else c)"

definition fold_token :: "chars \<Rightarrow> chars" where
  "fold_token cs = map fold_char cs"

definition tokenize :: "unicode \<Rightarrow> chars \<Rightarrow> chars list" where
  "tokenize U cs = map (\<lambda>p. map fold_char (concat (map (lower U) p))) (words U cs)"

text \<open>Term frequencies in term order: the \<open>BTreeMap\<close> of \<open>from_content\<close>.\<close>

definition count_token :: "bytes \<Rightarrow> (bytes \<times> u32) list \<Rightarrow> (bytes \<times> u32) list" where
  "count_token t counts = om_insert t (case map_of counts t of None \<Rightarrow> 1 | Some n \<Rightarrow> n + 1) counts"

definition from_content :: "unicode \<Rightarrow> chars \<Rightarrow> fts_doc_terms" where
  "from_content U content =
     map (\<lambda>(t, n). \<lparr>dt_term = t, dt_tf = n\<rparr>) (fold count_token (map utf8 (tokenize U content)) [])"

subsection \<open>Match expressions\<close>

text \<open>\<open>str::to_lowercase\<close>: as \<open>char::to_lowercase\<close>, except a capital sigma at the end of a word.\<close>

definition FINAL_SIGMA :: nat where "FINAL_SIGMA = 0x3A3"

definition ignorable_then_cased :: "unicode \<Rightarrow> chars \<Rightarrow> bool" where
  "ignorable_then_cased U cs = (case dropWhile (ignorable U) cs of [] \<Rightarrow> False | c # _ \<Rightarrow> cased U c)"

fun str_lower_at :: "unicode \<Rightarrow> chars \<Rightarrow> chars \<Rightarrow> chars" where
  "str_lower_at U before [] = []"
| "str_lower_at U before (c # cs) =
     (if c = FINAL_SIGMA
      then (if ignorable_then_cased U before \<and> \<not> ignorable_then_cased U cs then [0x3C2] else [0x3C3])
      else lower U c) @ str_lower_at U (c # before) cs"

definition str_lower :: "unicode \<Rightarrow> chars \<Rightarrow> chars" where
  "str_lower U cs = str_lower_at U [] cs"

definition QUOTE :: nat where "QUOTE = 34"
definition OR_SEP :: chars where "OR_SEP = [32, 79, 82, 32]"

fun join :: "chars \<Rightarrow> chars list \<Rightarrow> chars" where
  "join sep [] = []"
| "join sep [t] = t"
| "join sep (t # ts) = t @ sep @ join sep ts"

definition fts_match_expr :: "unicode \<Rightarrow> chars \<Rightarrow> chars option" where
  "fts_match_expr U query =
     (let tokens = map (\<lambda>t. QUOTE # str_lower U t @ [QUOTE]) (take 32 (words U query))
      in if tokens = [] then None else Some (join OR_SEP tokens))"

text \<open>\<open>str::split\<close> by the separator.\<close>

function split_or :: "chars \<Rightarrow> chars list" where
  "split_or cs =
     (if prefix OR_SEP cs then [] # split_or (drop 4 cs)
      else (case cs of [] \<Rightarrow> [[]]
            | c # rest \<Rightarrow> (case split_or rest of [] \<Rightarrow> [[c]] | p # ps \<Rightarrow> (c # p) # ps)))"
  by pat_completeness auto
termination
  by (relation "measure length") (auto simp: OR_SEP_def prefix_def)

declare split_or.simps [simp del]

definition parse_segment :: "chars \<Rightarrow> chars \<Rightarrow> chars engine_result" where
  "parse_segment match_expr segment =
     (if segment = [] \<or> hd segment \<noteq> QUOTE \<or> tl segment = [] \<or> last (tl segment) \<noteq> QUOTE
      then Inl (UnsupportedMatchExpr (utf8 match_expr))
      else
        let inner = butlast (tl segment)
        in if inner = [] \<or> QUOTE \<in> set inner then Inl (UnsupportedMatchExpr (utf8 match_expr))
           else Inr (fold_token inner))"

definition parse_match_expr :: "chars \<Rightarrow> chars list engine_result" where
  "parse_match_expr match_expr =
     (if match_expr = [] then Inl (UnsupportedMatchExpr (utf8 match_expr))
      else rmap (parse_segment match_expr) (split_or match_expr))"

subsection \<open>Queries and documents meet\<close>

text \<open>What the tables say of the two characters match expressions are built with.\<close>

definition unicode_ok :: "unicode \<Rightarrow> bool" where
  "unicode_ok U \<longleftrightarrow> (\<forall>c. alnum U c \<longrightarrow> lower U c \<noteq> [] \<and> 34 \<notin> set (lower U c) \<and> 32 \<notin> set (lower U c))"

lemma pieces_ne [simp]: "pieces sep cs \<noteq> []"
  by (induction cs) (auto split: list.split)

lemma set_pieces: "p \<in> set (pieces sep cs) \<Longrightarrow> \<forall>c \<in> set p. c \<in> set cs \<and> \<not> sep c"
  by (induction cs arbitrary: p) (fastforce split: if_splits list.splits)+

lemma words_alnum: "t \<in> set (words U cs) \<Longrightarrow> t \<noteq> [] \<and> (\<forall>c \<in> set t. c \<in> set cs \<and> alnum U c)"
  using set_pieces [of t "\<lambda>c. \<not> alnum U c" cs] by (auto simp: words_def)

lemma str_lower_plain: "FINAL_SIGMA \<notin> set cs \<Longrightarrow> str_lower_at U before cs = concat (map (lower U) cs)"
  by (induction cs arbitrary: before) auto

lemma split_or_token:
  assumes "32 \<notin> set t"
  shows "split_or (t @ OR_SEP @ rest) = t # split_or rest" "split_or t = [t]"
proof -
  have no: "\<not> prefix OR_SEP (c # cs)" if "c \<noteq> 32" for c cs using that by (simp add: OR_SEP_def)
  show "split_or (t @ OR_SEP @ rest) = t # split_or rest"
    using assms
  proof (induction t)
    case Nil
    have "prefix OR_SEP (OR_SEP @ rest)" "drop 4 (OR_SEP @ rest) = rest" by (simp_all add: OR_SEP_def)
    then show ?case by (simp add: split_or.simps [of "OR_SEP @ rest"])
  next
    case (Cons c t)
    then show ?case using no [of c] by (simp add: split_or.simps [of "c # t @ OR_SEP @ rest"])
  qed
  show "split_or t = [t]"
    using assms
  proof (induction t)
    case Nil
    then show ?case by (simp add: split_or.simps [of "[]"] OR_SEP_def)
  next
    case (Cons c t)
    then show ?case using no [of c] by (simp add: split_or.simps [of "c # t"])
  qed
qed

lemma split_join: "ts \<noteq> [] \<Longrightarrow> \<forall>t \<in> set ts. 32 \<notin> set t \<Longrightarrow> split_or (join OR_SEP ts) = ts"
proof (induction OR_SEP ts rule: join.induct)
  case (3 t u ts)
  then show ?case using split_or_token(1) [of t] by simp
qed (auto simp: split_or_token)

lemma join_ne: "ts \<noteq> [] \<Longrightarrow> hd ts \<noteq> [] \<Longrightarrow> join sep ts \<noteq> []"
  by (cases "(sep, ts)" rule: join.cases) auto

text \<open>
  C17. Queries and documents are tokenized alike: for a query without a capital sigma, parsing
  the match expression built from it yields the tokens the indexer extracts from the same text,
  the first 32 of them; only a query without any token has no match expression.
\<close>

theorem query_terms_agree:
  assumes "unicode_ok U" "FINAL_SIGMA \<notin> set q"
  shows "case fts_match_expr U q of
      None \<Rightarrow> tokenize U q = []
    | Some e \<Rightarrow> parse_match_expr e = Inr (take 32 (tokenize U q))"
proof (cases "words U q = []")
  case True
  then show ?thesis by (simp add: fts_match_expr_def tokenize_def)
next
  case False
  define ws where "ws = take 32 (words U q)"
  define quoted where "quoted = (\<lambda>t. QUOTE # str_lower U t @ [QUOTE])"
  have w: "t \<noteq> []" "\<forall>c \<in> set t. alnum U c" "str_lower U t = concat (map (lower U) t)" if "t \<in> set ws" for t
    using that words_alnum [of t U q] assms(2) str_lower_plain [of t U "[]"]
    by (auto simp: ws_def str_lower_def dest!: in_set_takeD)
  have ok: "34 \<notin> set (str_lower U t) \<and> 32 \<notin> set (str_lower U t) \<and> str_lower U t \<noteq> []" if "t \<in> set ws" for t
    using w [OF that] assms(1) by (cases t) (auto simp: unicode_ok_def)
  have e: "fts_match_expr U q = Some (join OR_SEP (map quoted ws))"
    using False by (simp add: fts_match_expr_def ws_def quoted_def)
  have "map quoted ws \<noteq> []" using False by (simp add: ws_def)
  moreover have "\<forall>t \<in> set (map quoted ws). 32 \<notin> set t" using ok by (auto simp: quoted_def QUOTE_def)
  ultimately have "split_or (join OR_SEP (map quoted ws)) = map quoted ws" by (rule split_join)
  moreover have "join OR_SEP (map quoted ws) \<noteq> []"
    using False by (intro join_ne) (auto simp: ws_def quoted_def hd_map)
  moreover have "rmap (parse_segment x) (map quoted ws) = Inr (map (\<lambda>t. fold_token (str_lower U t)) ws)" for x
    using ok by (induction ws) (auto simp: parse_segment_def quoted_def QUOTE_def butlast_append Let_def)
  ultimately have "parse_match_expr (join OR_SEP (map quoted ws)) = Inr (map (\<lambda>t. fold_token (str_lower U t)) ws)"
    by (simp add: parse_match_expr_def)
  also have "map (\<lambda>t. fold_token (str_lower U t)) ws = take 32 (tokenize U q)"
    using w(3) by (simp add: tokenize_def ws_def fold_token_def take_map)
  finally show ?thesis by (simp add: e)
qed

definition toy_unicode :: unicode where
  "toy_unicode = \<lparr>alnum = \<lambda>c. 97 \<le> c \<and> c \<le> 122 \<or> c \<in> {0x391, 0x3A3, 0xE9}, lower = \<lambda>c. if c = 0x391 then [0x3B1] else if c = 0x3A3 then [0x3C3] else [c],
     cased = \<lambda>c. c \<noteq> 32, ignorable = \<lambda>c. False\<rparr>"

theorem query_terms_agree_witness:
  "case fts_match_expr toy_unicode [0xE9, 116, 101, 32, 97] of None \<Rightarrow> False
   | Some e \<Rightarrow> parse_match_expr e = Inr [[101, 116, 101], [97]]"
proof -
  have "unicode_ok toy_unicode" by (auto simp: unicode_ok_def toy_unicode_def)
  moreover have "tokenize toy_unicode [0xE9, 116, 101, 32, 97] = [[101, 116, 101], [97]]"
    by (simp add: tokenize_def words_def toy_unicode_def fold_char_def)
  moreover have "fts_match_expr toy_unicode [0xE9, 116, 101, 32, 97] \<noteq> None"
    by (simp add: fts_match_expr_def words_def toy_unicode_def)
  ultimately show ?thesis
    using query_terms_agree [of toy_unicode "[0xE9, 116, 101, 32, 97]"] by (auto simp: FINAL_SIGMA_def)
qed

text \<open>
  A two-letter word of a cased letter and a capital sigma is not found by its own text: the indexer lowercases
  character by character (\<open>char::to_lowercase\<close>), the query builder the whole word
  (\<open>str::to_lowercase\<close>), and only the latter writes the final sigma.
\<close>

theorem final_sigma_mismatch:
  assumes "alnum U a" "a \<noteq> FINAL_SIGMA" "alnum U FINAL_SIGMA" "cased U a" "\<not> ignorable U a"
    and "lower U a = [b]" "b \<noteq> 34" "b \<noteq> 32" "lower U FINAL_SIGMA = [0x3C3]"
  shows "tokenize U [a, FINAL_SIGMA] = [[fold_char b, 0x3C3]]
    \<and> (\<exists>e. fts_match_expr U [a, FINAL_SIGMA] = Some e \<and> parse_match_expr e = Inr [[fold_char b, 0x3C2]])"
proof
  have w: "words U [a, FINAL_SIGMA] = [[a, FINAL_SIGMA]]" using assms by (simp add: words_def)
  show "tokenize U [a, FINAL_SIGMA] = [[fold_char b, 0x3C3]]"
    using assms by (simp add: tokenize_def w fold_char_def)
  have low: "str_lower U [a, FINAL_SIGMA] = [b, 0x3C2]"
    using assms by (simp add: str_lower_def ignorable_then_cased_def)
  have "parse_match_expr [QUOTE, b, 0x3C2, QUOTE] = Inr [[fold_char b, 0x3C2]]"
    using split_or_token(2) [of "[QUOTE, b, 0x3C2, QUOTE]"] assms(7,8)
    by (simp add: parse_match_expr_def parse_segment_def fold_token_def fold_char_def QUOTE_def)
  then show "\<exists>e. fts_match_expr U [a, FINAL_SIGMA] = Some e \<and> parse_match_expr e = Inr [[fold_char b, 0x3C2]]"
    by (simp add: fts_match_expr_def w low)
qed

theorem final_sigma_mismatch_witness:
  "tokenize toy_unicode [0x391, FINAL_SIGMA] = [[0x3B1, 0x3C3]]
     \<and> (\<exists>e. fts_match_expr toy_unicode [0x391, FINAL_SIGMA] = Some e \<and> parse_match_expr e = Inr [[0x3B1, 0x3C2]])"
  using final_sigma_mismatch [of toy_unicode "0x391" "0x3B1"] by (simp add: toy_unicode_def FINAL_SIGMA_def fold_char_def)

end
