(* ===== verification/Fts_Index.thy ===== *)
theory Fts_Index
  imports Index_Store Tokenizer "HOL-Library.Product_Lexorder"
begin

text \<open>
  The persisted full-text index (\<open>idx/fts/persistent.rs\<close>): the per-agent statistics and their
  healing, the staging of insertions and deletions into a batch of the caller, and the BM25
  search. The corpus of an agent is the map from document ids to their terms (\<open>corpus\<close>);
  \<open>fts_ok\<close> says that postings and statistics are those of the corpus. Floating-point arithmetic
  is external: \<open>float_ops\<close> holds its operations and nothing is assumed about them, except that
  \<open>f64::total_cmp\<close> is the order its documentation defines on the bits.
\<close>

subsection \<open>Floating point\<close>

record float_ops =
  fl_of_u64 :: "u64 \<Rightarrow> f64"
  fl_of_u32 :: "u32 \<Rightarrow> f64"
  fl_add :: "f64 \<Rightarrow> f64 \<Rightarrow> f64"
  fl_sub :: "f64 \<Rightarrow> f64 \<Rightarrow> f64"
  fl_mul :: "f64 \<Rightarrow> f64 \<Rightarrow> f64"
  fl_div :: "f64 \<Rightarrow> f64 \<Rightarrow> f64"
  fl_ln :: "f64 \<Rightarrow> f64"
  fl_narrow :: "f64 \<Rightarrow> f32"

definition F_0 :: f64 where "F_0 = 0"
definition F_HALF :: f64 where "F_HALF = 0x3FE0000000000000"
definition F_1 :: f64 where "F_1 = 0x3FF0000000000000"

text \<open>\<open>K1\<close> is 1.2 and \<open>B\<close> is 0.75, as their bits.\<close>

definition K1 :: f64 where "K1 = 0x3FF3333333333333"
definition BM_B :: f64 where "BM_B = 0x3FE8000000000000"

text \<open>The integer \<open>total_cmp\<close> compares: the bits, with the magnitude flipped under a set sign.\<close>

definition total_key :: "f64 \<Rightarrow> int" where
  "total_key x = sint (if bit x 63 then x XOR 0x7FFFFFFFFFFFFFFF else x)"

subsection \<open>Statistics\<close>

definition fts_stats_default :: fts_stats where
  "fts_stats_default = \<lparr>fs_doc_count = 0, fs_total_terms = 0\<rparr>"

definition avgdl :: "float_ops \<Rightarrow> fts_stats \<Rightarrow> f64" where
  "avgdl F s = (if fs_doc_count s = 0 then F_0 else fl_div F (fl_of_u64 F (fs_total_terms s)) (fl_of_u64 F (fs_doc_count s)))"

definition count_doc :: "fts_doc_terms \<Rightarrow> fts_stats \<Rightarrow> fts_stats" where
  "count_doc doc s =
     \<lparr>fs_doc_count = fs_doc_count s + 1, fs_total_terms = fs_total_terms s + word_of_nat (doc_length doc)\<rparr>"

definition saturating_sub :: "u64 \<Rightarrow> u64 \<Rightarrow> u64" where
  "saturating_sub a b = (if a < b then 0 else a - b)"

definition uncount_doc :: "fts_doc_terms \<Rightarrow> fts_stats \<Rightarrow> fts_stats" where
  "uncount_doc doc s =
     \<lparr>fs_doc_count = saturating_sub (fs_doc_count s) 1,
      fs_total_terms = saturating_sub (fs_total_terms s) (word_of_nat (doc_length doc))\<rparr>"

definition fts_heal_stats :: "externals \<Rightarrow> bytes \<Rightarrow> (store, fts_stats) op" where
  "fts_heal_stats X agent =
     obind (olift (docterms_agent_prefix agent)) (\<lambda>pre.
     obind (kv_scan X pre) (\<lambda>entries.
       olift (rfold (\<lambda>(_, value) healed. rbind (decode_doc_terms value) (\<lambda>doc. Inr (count_doc doc healed)))
                entries fts_stats_default)))"

definition fts_load_stats :: "externals \<Rightarrow> bytes \<Rightarrow> (store, fts_stats) op" where
  "fts_load_stats X agent =
     obind (olift (fts_meta_key agent)) (\<lambda>key.
     obind (kv_get X key) (\<lambda>found. case found of
       None \<Rightarrow> oret fts_stats_default
     | Some bs \<Rightarrow> (case decode_fts_stats bs of
         Inr loaded \<Rightarrow> oret loaded
       | Inl e \<Rightarrow> if e = Corrupt FtsStats then fts_heal_stats X agent else olift (Inl e))))"

subsection \<open>Staging\<close>

definition stage_posting :: "bytes \<Rightarrow> u64 \<Rightarrow> doc_term \<Rightarrow> batch \<Rightarrow> batch engine_result" where
  "stage_posting agent vec_id t batch =
     rbind (postings_key agent (dt_term t) vec_id) (\<lambda>key.
     rbind (encode_fts_posting \<lparr>fp_tf = dt_tf t\<rparr>) (\<lambda>value. Inr (batch_put key value batch)))"

definition stage_doc :: "bytes \<Rightarrow> u64 \<Rightarrow> fts_doc_terms \<Rightarrow> batch \<Rightarrow> batch engine_result" where
  "stage_doc agent vec_id doc batch =
     rbind (rfold (stage_posting agent vec_id) doc batch) (\<lambda>batch.
     rbind (docterms_key agent vec_id) (\<lambda>key.
     rbind (encode_doc_terms doc) (\<lambda>value. Inr (batch_put key value batch))))"

definition stage_stats :: "bytes \<Rightarrow> fts_stats \<Rightarrow> bool \<Rightarrow> batch \<Rightarrow> batch engine_result" where
  "stage_stats agent s staged_any batch =
     (if staged_any
      then rbind (fts_meta_key agent) (\<lambda>key.
           rbind (encode_fts_stats s) (\<lambda>value. Inr (batch_put key value batch)))
      else Inr batch)"

definition stage_content ::
  "unicode \<Rightarrow> bytes \<Rightarrow> u64 \<times> chars \<Rightarrow> fts_stats \<times> bool \<times> batch \<Rightarrow> (fts_stats \<times> bool \<times> batch) engine_result" where
  "stage_content U agent = (\<lambda>(vec_id, content) (s, staged_any, batch).
     let doc = from_content U content
     in if doc = [] then Inr (s, staged_any, batch)
        else rbind (stage_doc agent vec_id doc batch) (\<lambda>batch. Inr (count_doc doc s, True, batch)))"

definition stage_insert_many :: "unicode \<Rightarrow> externals \<Rightarrow> bytes \<Rightarrow> (u64 \<times> chars) list \<Rightarrow> batch \<Rightarrow> (store, batch) op" where
  "stage_insert_many U X agent docs batch =
     obind (fts_load_stats X agent) (\<lambda>agent_stats.
     obind (olift (rfold (stage_content U agent) docs (agent_stats, False, batch))) (\<lambda>(s, staged_any, batch).
       olift (stage_stats agent s staged_any batch)))"

definition stage_insert :: "unicode \<Rightarrow> externals \<Rightarrow> bytes \<Rightarrow> u64 \<Rightarrow> chars \<Rightarrow> batch \<Rightarrow> (store, batch) op" where
  "stage_insert U X agent vec_id content = stage_insert_many U X agent [(vec_id, content)]"

definition unstage_posting :: "bytes \<Rightarrow> u64 \<Rightarrow> doc_term \<Rightarrow> batch \<Rightarrow> batch engine_result" where
  "unstage_posting agent vec_id t batch =
     rbind (postings_key agent (dt_term t) vec_id) (\<lambda>key. Inr (batch_delete key batch))"

definition unstage_doc ::
  "externals \<Rightarrow> bytes \<Rightarrow> u64 \<Rightarrow> fts_stats \<times> bool \<times> u64 set \<times> batch \<Rightarrow> (store, fts_stats \<times> bool \<times> u64 set \<times> batch) op" where
  "unstage_doc X agent vec_id = (\<lambda>(s, staged_any, seen, batch).
     if vec_id \<in> seen then oret (s, staged_any, seen, batch)
     else
       obind (olift (docterms_key agent vec_id)) (\<lambda>key.
       obind (kv_get X key) (\<lambda>found. case found of
         None \<Rightarrow> oret (s, staged_any, insert vec_id seen, batch)
       | Some bs \<Rightarrow>
           obind (olift (decode_doc_terms bs)) (\<lambda>doc.
           obind (olift (rfold (unstage_posting agent vec_id) doc batch)) (\<lambda>batch.
             oret (uncount_doc doc s, True, insert vec_id seen, batch_delete key batch))))))"

definition stage_delete_many :: "externals \<Rightarrow> bytes \<Rightarrow> u64 list \<Rightarrow> batch \<Rightarrow> (store, batch) op" where
  "stage_delete_many X agent vec_ids batch =
     obind (fts_load_stats X agent) (\<lambda>agent_stats.
     obind (ofold (unstage_doc X agent) vec_ids (agent_stats, False, {}, batch)) (\<lambda>(s, staged_any, seen, batch).
       olift (stage_stats agent s staged_any batch)))"

definition stage_delete :: "externals \<Rightarrow> bytes \<Rightarrow> u64 \<Rightarrow> batch \<Rightarrow> (store, batch) op" where
  "stage_delete X agent vec_id = stage_delete_many X agent [vec_id]"

definition delete_footprint :: "externals \<Rightarrow> bytes \<Rightarrow> u64 \<Rightarrow> (store, nat) op" where
  "delete_footprint X agent vec_id =
     obind (olift (docterms_key agent vec_id)) (\<lambda>docterms_key.
     obind (kv_get X docterms_key) (\<lambda>found. case found of
       None \<Rightarrow> oret 0
     | Some bs \<Rightarrow>
         obind (olift (decode_doc_terms bs)) (\<lambda>doc.
           olift (rfold (\<lambda>t total. rbind (postings_key agent (dt_term t) vec_id) (\<lambda>key. Inr (total + length key)))
                    doc (length docterms_key)))))"

subsection \<open>Search\<close>

definition doc_length_of :: "externals \<Rightarrow> bytes \<Rightarrow> (store, nat option) op" where
  "doc_length_of X doc_key =
     obind (kv_get X doc_key) (\<lambda>found. case found of
       None \<Rightarrow> oret None
     | Some bs \<Rightarrow> obind (olift (decode_doc_terms bs)) (\<lambda>doc. oret (Some (doc_length doc))))"

text \<open>The inverse document frequency of a term with \<open>df\<close> hits, and the score of one hit.\<close>

definition bm25_idf :: "float_ops \<Rightarrow> fts_stats \<Rightarrow> nat \<Rightarrow> f64" where
  "bm25_idf F s hits =
     (let n = fl_of_u64 F (fs_doc_count s); df = fl_of_u64 F (word_of_nat hits)
      in fl_ln F (fl_add F F_1 (fl_div F (fl_add F (fl_sub F n df) F_HALF) (fl_add F df F_HALF))))"

definition bm25_term_score :: "float_ops \<Rightarrow> f64 \<Rightarrow> f64 \<Rightarrow> u32 \<Rightarrow> nat \<Rightarrow> f64" where
  "bm25_term_score F avg idf tf_bits doc_len =
     (let tf = fl_of_u32 F tf_bits;
          ratio = fl_div F (fl_of_u64 F (word_of_nat doc_len)) avg;
          denom = fl_add F tf (fl_mul F K1 (fl_add F (fl_sub F F_1 BM_B) (fl_mul F BM_B ratio)))
      in fl_div F (fl_mul F idf (fl_mul F tf (fl_add F K1 F_1))) denom)"

definition add_score :: "float_ops \<Rightarrow> u64 \<Rightarrow> f64 \<Rightarrow> (u64 \<times> f64) list \<Rightarrow> (u64 \<times> f64) list" where
  "add_score F vec_id x scores =
     om_insert vec_id (fl_add F (case map_of scores vec_id of None \<Rightarrow> F_0 | Some y \<Rightarrow> y) x) scores"

type_synonym bm25_acc = "(u64 \<times> f64) list \<times> (u64 \<times> nat) list"

definition bm25_hit ::
  "float_ops \<Rightarrow> externals \<Rightarrow> bytes \<Rightarrow> nat \<Rightarrow> f64 \<Rightarrow> f64 \<Rightarrow> bytes \<times> bytes \<Rightarrow> bm25_acc \<Rightarrow> (store, bm25_acc) op" where
  "bm25_hit F X agent pre_len avg idf = (\<lambda>(key, value) (scores, lengths).
     case postings_vec_id pre_len key of
       None \<Rightarrow> oret (scores, lengths)
     | Some vec_id \<Rightarrow>
         obind (olift (decode_fts_posting value)) (\<lambda>posting.
         case map_of lengths vec_id of
           Some len \<Rightarrow> oret (add_score F vec_id (bm25_term_score F avg idf (fp_tf posting) len) scores, lengths)
         | None \<Rightarrow>
             obind (olift (docterms_key agent vec_id)) (\<lambda>doc_key.
             obind (doc_length_of X doc_key) (\<lambda>found. case found of
               None \<Rightarrow> oret (scores, lengths)
             | Some len \<Rightarrow>
                 oret (add_score F vec_id (bm25_term_score F avg idf (fp_tf posting) len) scores,
                       om_insert vec_id len lengths)))))"

definition bm25_term ::
  "float_ops \<Rightarrow> externals \<Rightarrow> bytes \<Rightarrow> fts_stats \<Rightarrow> chars \<Rightarrow> bm25_acc \<Rightarrow> (store, bm25_acc) op" where
  "bm25_term F X agent s t acc =
     obind (olift (postings_term_prefix agent (utf8 t))) (\<lambda>pre.
     obind (kv_scan X pre) (\<lambda>hits.
       if hits = [] then oret acc
       else ofold (bm25_hit F X agent (length pre) (avgdl F s) (bm25_idf F s (length hits))) hits acc))"

text \<open>Best score first, ids ascending among equals: the order of \<open>sort_by\<close>, total on distinct ids.\<close>

definition bm25_rank :: "(u64 \<times> f64) list \<Rightarrow> (u64 \<times> f64) list" where
  "bm25_rank = sort_key (\<lambda>(vec_id, x). (- total_key x, vec_id))"

definition search_bm25 :: "float_ops \<Rightarrow> externals \<Rightarrow> bytes \<Rightarrow> chars \<Rightarrow> nat \<Rightarrow> (store, (u64 \<times> f32) list) op" where
  "search_bm25 F X agent match_expr k =
     obind (olift (parse_match_expr match_expr)) (\<lambda>terms.
       if terms = [] \<or> k = 0 then oret []
       else
         obind (fts_load_stats X agent) (\<lambda>agent_stats.
           if fs_doc_count agent_stats = 0 then oret []
           else
             obind (ofold (bm25_term F X agent agent_stats) terms ([], [])) (\<lambda>(scores, lengths).
               oret (map (\<lambda>(vec_id, x). (vec_id, fl_narrow F x)) (take k (bm25_rank scores))))))"


subsection \<open>The corpus of an agent\<close>

type_synonym corpus = "u64 \<rightharpoonup> fts_doc_terms"

definition corpus_of :: "(bytes \<rightharpoonup> bytes) \<Rightarrow> bytes \<Rightarrow> corpus" where
  "corpus_of m agent i = (case held m (KDocTerms agent i) of
     None \<Rightarrow> None | Some v \<Rightarrow> (case decode_doc_terms v of Inl e \<Rightarrow> None | Inr d \<Rightarrow> Some d))"

definition corpus_terms :: "corpus \<Rightarrow> nat" where
  "corpus_terms C = (\<Sum>i \<in> dom C. doc_length (the (C i)))"

definition counts :: "fts_stats \<Rightarrow> corpus \<Rightarrow> bool" where
  "counts s C \<longleftrightarrow> unat (fs_doc_count s) = card (dom C) \<and> unat (fs_total_terms s) = corpus_terms C"

definition doc_ok :: "fts_doc_terms \<Rightarrow> bool" where
  "doc_ok d \<longleftrightarrow> d \<noteq> [] \<and> distinct (map dt_term d) \<and> (\<forall>t \<in> set d. name_fits (dt_term t))"

definition tf_of :: "fts_doc_terms \<Rightarrow> bytes \<Rightarrow> u32 option" where
  "tf_of d t = map_of (map (\<lambda>e. (dt_term e, dt_tf e)) d) t"

definition posting_bytes :: "u32 \<Rightarrow> bytes" where
  "posting_bytes tf = projr (encode_fts_posting \<lparr>fp_tf = tf\<rparr>)"

definition stats_of :: "(bytes \<rightharpoonup> bytes) \<Rightarrow> bytes \<Rightarrow> fts_stats" where
  "stats_of m agent = (case held m (KFtsMeta agent) of
     None \<Rightarrow> fts_stats_default | Some v \<Rightarrow> projr (decode_fts_stats v))"

text \<open>The tf of a term in a document of the corpus, and what the postings must hold.\<close>

definition posting_in :: "corpus \<Rightarrow> bytes \<Rightarrow> u64 \<Rightarrow> u32 option" where
  "posting_in C t i = Option.bind (C i) (\<lambda>d. tf_of d t)"

definition entries_ok :: "(bytes \<rightharpoonup> bytes) \<Rightarrow> bytes \<Rightarrow> bool" where
  "entries_ok m agent \<longleftrightarrow>
     (\<forall>i d. corpus_of m agent i = Some d \<longrightarrow> doc_ok d)
     \<and> (\<forall>t i. name_fits t \<longrightarrow>
          held m (KPosting agent t i) = map_option posting_bytes (posting_in (corpus_of m agent) t i))"

definition fts_ok :: "(bytes \<rightharpoonup> bytes) \<Rightarrow> bytes \<Rightarrow> bool" where
  "fts_ok m agent \<longleftrightarrow> entries_ok m agent \<and> counts (stats_of m agent) (corpus_of m agent)"

text \<open>What the full-text index of an agent depends on.\<close>

fun fts_key :: "bytes \<Rightarrow> logical_key \<Rightarrow> bool" where
  "fts_key agent (KPosting a t i) \<longleftrightarrow> a = agent"
| "fts_key agent (KDocTerms a i) \<longleftrightarrow> a = agent"
| "fts_key agent (KFtsMeta a) \<longleftrightarrow> a = agent"
| "fts_key agent _ \<longleftrightarrow> False"

lemma fts_frame:
  assumes "\<And>k. key_ok k \<Longrightarrow> fts_key agent k \<Longrightarrow> held m' k = held m k" "name_fits agent"
  shows "corpus_of m' agent = corpus_of m agent" "stats_of m' agent = stats_of m agent"
    "entries_ok m' agent = entries_ok m agent" "fts_ok m' agent = fts_ok m agent"
proof -
  have "held m' (KDocTerms agent i) = held m (KDocTerms agent i)" for i using assms by (simp add: key_ok_def)
  then show c: "corpus_of m' agent = corpus_of m agent" by (simp add: fun_eq_iff corpus_of_def)
  show s: "stats_of m' agent = stats_of m agent" using assms by (simp add: stats_of_def key_ok_def)
  have "held m' (KPosting agent t i) = held m (KPosting agent t i)" if "name_fits t" for t i
    using assms that by (simp add: key_ok_def)
  then show "entries_ok m' agent = entries_ok m agent" by (auto simp: entries_ok_def c)
  then show "fts_ok m' agent = fts_ok m agent" by (simp add: fts_ok_def c s)
qed

lemma value_fits_doc:
  "value_fits (KDocTerms a i) v \<longleftrightarrow> (\<exists>d. encode_doc_terms d = Inr v \<and> (\<forall>e \<in> set d. utf8_valid (dt_term e)))"
proof
  assume "value_fits (KDocTerms a i) v"
  then show "\<exists>d. encode_doc_terms d = Inr v \<and> (\<forall>e \<in> set d. utf8_valid (dt_term e))"
    by (auto simp: value_fits_def elim!: value_kind_of.elims)
next
  assume "\<exists>d. encode_doc_terms d = Inr v \<and> (\<forall>e \<in> set d. utf8_valid (dt_term e))"
  then obtain d where "encode_doc_terms d = Inr v" "\<forall>e \<in> set d. utf8_valid (dt_term e)" by blast
  then show "value_fits (KDocTerms a i) v" by (auto simp: value_fits_def intro!: exI [of _ "VDocTerms d"])
qed

lemma corpus_of_held:
  assumes "typed_map m" "name_fits agent"
  shows "corpus_of m agent i = Some d \<longleftrightarrow> (\<exists>v. held m (KDocTerms agent i) = Some v \<and> decode_doc_terms v = Inr d)"
    and "held m (KDocTerms agent i) = Some v \<Longrightarrow> \<exists>d. decode_doc_terms v = Inr d \<and> corpus_of m agent i = Some d"
proof -
  show "corpus_of m agent i = Some d \<longleftrightarrow> (\<exists>v. held m (KDocTerms agent i) = Some v \<and> decode_doc_terms v = Inr d)"
    by (auto simp: corpus_of_def split: option.splits sum.splits)
  show "\<exists>d. decode_doc_terms v = Inr d \<and> corpus_of m agent i = Some d" if h: "held m (KDocTerms agent i) = Some v"
  proof -
    have "value_fits (KDocTerms agent i) v" using typed_held [OF assms(1) _ h] assms(2) by (simp add: key_ok_def)
    then obtain d where "decode_doc_terms v = Inr d" using doc_terms_roundtrip unfolding value_fits_doc by blast
    then show ?thesis using h by (simp add: corpus_of_def)
  qed
qed

lemma corpus_None: "typed_map m \<Longrightarrow> name_fits agent \<Longrightarrow> corpus_of m agent i = None \<longleftrightarrow> held m (KDocTerms agent i) = None"
  using corpus_of_held(2) by (fastforce simp: corpus_of_def split: option.splits)

lemma posting_roundtrip: "decode_fts_posting (posting_bytes tf) = Inr \<lparr>fp_tf = tf\<rparr>"
  by (rule fts_posting_roundtrip) (simp add: posting_bytes_def encode_fts_posting_def)

lemma posting_encoded: "encode_fts_posting \<lparr>fp_tf = tf\<rparr> = Inr (posting_bytes tf)"
  by (simp add: posting_bytes_def encode_fts_posting_def)

lemma posting_fits: "value_fits (KPosting a t i) (posting_bytes tf)"
  by (auto simp: value_fits_def posting_encoded intro!: exI [of _ "VPosting \<lparr>fp_tf = tf\<rparr>"])

lemma stats_fit: "encode_fts_stats s = Inr v \<Longrightarrow> value_fits (KFtsMeta a) v"
  by (auto simp: value_fits_def intro!: exI [of _ "VStats s"])

lemma stats_held:
  assumes "typed_map m" "name_fits agent" "held m (KFtsMeta agent) = Some v"
  shows "decode_fts_stats v = Inr (stats_of m agent)"
proof -
  have "value_fits (KFtsMeta agent) v" using typed_held [OF assms(1) _ assms(3)] assms(2) by (simp add: key_ok_def)
  then obtain s where "encode_fts_stats s = Inr v" by (auto simp: value_fits_def elim!: value_kind_of.elims)
  then show ?thesis using fts_stats_roundtrip [of s v] assms(3) by (simp add: stats_of_def)
qed

subsection \<open>Statistics are those of the corpus\<close>

lemma fts_meta_key_ok: "name_fits agent \<Longrightarrow> fts_meta_key agent = Inr (key_bytes (KFtsMeta agent))"
  using encode_key_ok [of "KFtsMeta agent"] by (simp add: key_ok_def)

lemma docterms_key_ok: "name_fits agent \<Longrightarrow> docterms_key agent i = Inr (key_bytes (KDocTerms agent i))"
  using encode_key_ok [of "KDocTerms agent i"] by (simp add: key_ok_def)

lemma postings_key_ok:
  "name_fits agent \<Longrightarrow> name_fits t \<Longrightarrow> postings_key agent t i = Inr (key_bytes (KPosting agent t i))"
  using encode_key_ok [of "KPosting agent t i"] by (simp add: key_ok_def)

lemma load_stats_reads:
  assumes "typed_map m" "name_fits agent"
  shows "reads (peeks X runs st m) (fts_load_stats X agent) (Inr (stats_of m agent))"
proof -
  have get: "reads (peeks X runs st m) (kv_get X (key_bytes (KFtsMeta agent))) (Inr (held m (KFtsMeta agent)))"
    using engine.get_map by (simp add: held_def)
  show ?thesis
  proof (cases "held m (KFtsMeta agent)")
    case None
    then have "stats_of m agent = fts_stats_default" by (simp add: stats_of_def)
    then show ?thesis unfolding fts_load_stats_def fts_meta_key_ok [OF assms(2)] obind_simps
      using None by (intro reads_obind_Inr [OF get]) simp
  next
    case (Some v)
    show ?thesis unfolding fts_load_stats_def fts_meta_key_ok [OF assms(2)] obind_simps
      by (rule reads_obind_Inr [OF get]) (simp add: Some stats_held [OF assms Some])
  qed
qed

lemma counts_unique: "counts s C \<Longrightarrow> counts s' C \<Longrightarrow> s = s'"
  by (simp add: counts_def fts_stats.equality word_unat_eq_iff)

lemma rfold_count:
  assumes "\<And>k v. (k, v) \<in> set es \<Longrightarrow> decode_doc_terms v = Inr (D v)"
  shows "rfold (\<lambda>(_, v) healed. rbind (decode_doc_terms v) (\<lambda>doc. Inr (count_doc doc healed))) es s =
    Inr \<lparr>fs_doc_count = fs_doc_count s + word_of_nat (length es),
         fs_total_terms = fs_total_terms s + word_of_nat (\<Sum>(k, v) \<leftarrow> es. doc_length (D v))\<rparr>"
  using assms
proof (induction es arbitrary: s)
  case (Cons e es)
  obtain k v where e: "e = (k, v)" by (cases e)
  have "decode_doc_terms v = Inr (D v)" using Cons.prems [of k v] e by simp
  then have "rfold (\<lambda>(_, v) healed. rbind (decode_doc_terms v) (\<lambda>doc. Inr (count_doc doc healed))) (e # es) s
      = rfold (\<lambda>(_, v) healed. rbind (decode_doc_terms v) (\<lambda>doc. Inr (count_doc doc healed))) es (count_doc (D v) s)"
    by (simp add: e)
  also have "\<dots> = Inr \<lparr>fs_doc_count = fs_doc_count (count_doc (D v) s) + word_of_nat (length es),
      fs_total_terms = fs_total_terms (count_doc (D v) s) + word_of_nat (\<Sum>(k, v) \<leftarrow> es. doc_length (D v))\<rparr>"
    by (rule Cons.IH) (use Cons.prems in auto)
  finally show ?case by (simp add: count_doc_def e ac_simps)
qed simp

lemma docterms_scanned:
  assumes "typed_map m" "finite (dom m)" "name_fits agent" "docterms_agent_prefix agent = Inr pre"
  shows "set (entries_of (prefix pre) m) =
      (\<lambda>i. (key_bytes (KDocTerms agent i), the (held m (KDocTerms agent i)))) ` dom (corpus_of m agent)"
proof -
  have scan: "scan_bytes (SDocTerms agent) = Inr pre" by (simp add: assms(4))
  have ok: "key_ok (KDocTerms agent i)" for i using assms(3) by (simp add: key_ok_def)
  have "\<exists>i \<in> dom (corpus_of m agent). e = (key_bytes (KDocTerms agent i), the (held m (KDocTerms agent i)))"
    if e: "e \<in> set (entries_of (prefix pre) m)" for e
  proof -
    obtain b v where bv: "e = (b, v)" by (cases e)
    then obtain k where k: "b = key_bytes k" "in_scan (SDocTerms agent) k" "held m k = Some v"
      using scanned_entry [OF assms(1,2) scan] e by metis
    then obtain i where "k = KDocTerms agent i" by (cases k) auto
    then show ?thesis using k corpus_of_held(2) [OF assms(1,3)] by (force simp: bv)
  qed
  moreover have "(key_bytes (KDocTerms agent i), the (held m (KDocTerms agent i))) \<in> set (entries_of (prefix pre) m)"
    if i: "i \<in> dom (corpus_of m agent)" for i
  proof -
    obtain v where "held m (KDocTerms agent i) = Some v"
      using i corpus_None [OF assms(1,3), of i] by (cases "held m (KDocTerms agent i)") (auto simp: domIff)
    then show ?thesis using entry_scanned [OF assms(2) scan ok] by simp
  qed
  ultimately show ?thesis by blast
qed

lemma finite_corpus:
  assumes "finite (dom m)" "name_fits agent"
  shows "finite (dom (corpus_of m agent))"
proof -
  have "(\<lambda>i. key_bytes (KDocTerms agent i)) ` dom (corpus_of m agent) \<subseteq> dom m"
    by (auto simp: corpus_of_def held_def split: option.splits)
  moreover have "inj_on (\<lambda>i. key_bytes (KDocTerms agent i)) (dom (corpus_of m agent))"
    using key_bytes_inj assms(2) by (auto simp: inj_on_def key_ok_def)
  ultimately show ?thesis using assms(1) inj_on_finite by blast
qed

lemma heal_stats_reads:
  assumes "typed_map m" "name_fits agent" "counts s (corpus_of m agent)"
    and "\<And>b. prefix (projr (docterms_agent_prefix agent)) b \<Longrightarrow> m' b = m b" "finite (dom m)"
  shows "reads (peeks X runs st m') (fts_heal_stats X agent) (Inr s)"
proof -
  let ?C = "corpus_of m agent"
  let ?g = "\<lambda>i. (key_bytes (KDocTerms agent i), the (held m (KDocTerms agent i)))"
  obtain pre where pre: "docterms_agent_prefix agent = Inr pre"
    using scan_bytes_Inr [of "SDocTerms agent"] assms(2) by (simp add: name_fits_def)
  have "{k \<in> dom m'. prefix pre k} = {k \<in> dom m. prefix pre k}" using assms(4) by (auto simp: pre domIff)
  then have same: "entries_of (prefix pre) m' = entries_of (prefix pre) m"
    using assms(4,5) by (auto simp: entries_of_def pre)
  let ?es = "entries_of (prefix pre) m"
  have es: "set ?es = ?g ` dom ?C" using docterms_scanned [OF assms(1,5,2) pre] .
  have inj: "inj_on ?g (dom ?C)" using key_bytes_inj assms(2) by (auto simp: inj_on_def key_ok_def)
  have dec: "decode_doc_terms (the (held m (KDocTerms agent i))) = Inr (the (?C i))" if i: "i \<in> dom ?C" for i
  proof -
    obtain d where d: "?C i = Some d" using i by blast
    then show ?thesis using corpus_of_held(1) [OF assms(1,2), of i d] by auto
  qed
  have "(\<Sum>(k, v) \<leftarrow> ?es. doc_length (projr (decode_doc_terms v))) = (\<Sum>(k, v) \<in> ?g ` dom ?C. doc_length (projr (decode_doc_terms v)))"
    using distinct_entries_of es by (simp add: sum_list_distinct_conv_sum_set case_prod_beta)
  also have "\<dots> = corpus_terms ?C" by (simp add: sum.reindex [OF inj] corpus_terms_def dec)
  finally have total: "(\<Sum>(k, v) \<leftarrow> ?es. doc_length (projr (decode_doc_terms v))) = corpus_terms ?C" .
  have len: "length ?es = card (dom ?C)"
    using distinct_card [OF distinct_entries_of, of "prefix pre" m] es card_image [OF inj] by simp
  have vals: "\<And>k v. (k, v) \<in> set ?es \<Longrightarrow> decode_doc_terms v = Inr (projr (decode_doc_terms v))"
    by (auto simp: es dec [OF domI])
  have s: "card (dom ?C) = unat (fs_doc_count s)" "corpus_terms ?C = unat (fs_total_terms s)"
    using assms(3) by (simp_all add: counts_def)
  have "rfold (\<lambda>(_, v) healed. rbind (decode_doc_terms v) (\<lambda>doc. Inr (count_doc doc healed))) ?es fts_stats_default = Inr s"
    by (subst rfold_count [where D = "\<lambda>v. projr (decode_doc_terms v)", OF vals])
      (assumption, unfold total len s, simp add: fts_stats_default_def)
  then have "reads (peeks X runs st m') (obind (kv_scan X pre) (\<lambda>entries. olift (rfold (\<lambda>(_, value) healed.
      rbind (decode_doc_terms value) (\<lambda>doc. Inr (count_doc doc healed))) entries fts_stats_default))) (Inr s)"
    by (intro reads_obind_Inr [OF engine.scan_map]) (simp add: same)
  then show ?thesis by (simp add: fts_heal_stats_def pre)
qed

subsection \<open>What an insertion stages\<close>

definition doc_bytes :: "fts_doc_terms \<Rightarrow> bytes" where
  "doc_bytes d = projr (encode_doc_terms d)"

definition insert_ops :: "bytes \<Rightarrow> u64 \<times> fts_doc_terms \<Rightarrow> key_op list" where
  "insert_ops agent = (\<lambda>(i, d).
     map (\<lambda>t. (KPosting agent (dt_term t) i, Some (posting_bytes (dt_tf t)))) d @ [(KDocTerms agent i, Some (doc_bytes d))])"

definition stats_ops :: "bytes \<Rightarrow> fts_stats \<Rightarrow> bool \<Rightarrow> key_op list" where
  "stats_ops agent s staged_any = (if staged_any then [(KFtsMeta agent, Some (projr (encode_fts_stats s)))] else [])"

text \<open>A document the format can hold.\<close>

definition storable :: "fts_doc_terms \<Rightarrow> bool" where
  "storable d \<longleftrightarrow> doc_ok d \<and> (\<exists>v. encode_doc_terms d = Inr v)"

lemma storable_fits: "storable d \<Longrightarrow> encode_doc_terms d = Inr (doc_bytes d) \<and> value_fits (KDocTerms a i) (doc_bytes d)
    \<and> decode_doc_terms (doc_bytes d) = Inr d"
  using doc_terms_roundtrip [of d] by (auto simp: storable_def doc_bytes_def value_fits_doc doc_ok_def name_fits_def)

lemma stage_postings:
  "name_fits agent \<Longrightarrow> \<forall>t \<in> set d. name_fits (dt_term t) \<Longrightarrow> rfold (stage_posting agent i) d batch =
    Inr (batch @ key_batch (map (\<lambda>t. (KPosting agent (dt_term t) i, Some (posting_bytes (dt_tf t)))) d))"
  by (induction d arbitrary: batch) (simp_all add: stage_posting_def postings_key_ok posting_encoded batch_put_def)

lemma stage_doc_ops:
  "name_fits agent \<Longrightarrow> storable d \<Longrightarrow> stage_doc agent i d batch = Inr (batch @ key_batch (insert_ops agent (i, d)))"
  using storable_fits [of d agent i]
  by (simp add: stage_doc_def stage_postings storable_def doc_ok_def docterms_key_ok batch_put_def insert_ops_def)

lemma stage_stats_ops:
  "name_fits agent \<Longrightarrow> stage_stats agent s any batch = Inr (batch @ key_batch (stats_ops agent s any))"
  by (simp add: stage_stats_def stats_ops_def fts_meta_key_ok encode_fts_stats_def batch_put_def)

text \<open>The documents with a term, and the statistics after them.\<close>

definition indexed_docs :: "unicode \<Rightarrow> (u64 \<times> chars) list \<Rightarrow> (u64 \<times> fts_doc_terms) list" where
  "indexed_docs U docs = filter (\<lambda>(i, d). d \<noteq> []) (map (\<lambda>(i, content). (i, from_content U content)) docs)"

lemma stage_contents:
  assumes "name_fits agent" "\<forall>(i, d) \<in> set (indexed_docs U docs). storable d"
  shows "rfold (stage_content U agent) docs (s, any, batch) =
    Inr (fold (\<lambda>(i, d). count_doc d) (indexed_docs U docs) s, any \<or> indexed_docs U docs \<noteq> [],
         batch @ key_batch (concat (map (insert_ops agent) (indexed_docs U docs))))"
  using assms(2)
proof (induction docs arbitrary: s any batch)
  case (Cons x docs)
  obtain i content where x: "x = (i, content)" by (cases x)
  show ?case
  proof (cases "from_content U content = []")
    case True
    then show ?thesis using Cons by (simp add: x stage_content_def indexed_docs_def)
  next
    case False
    then have "storable (from_content U content)" using Cons.prems by (simp add: x indexed_docs_def)
    then show ?thesis using False Cons stage_doc_ops [OF assms(1)] by (simp add: x stage_content_def indexed_docs_def Let_def)
  qed
qed (simp add: indexed_docs_def)

definition insert_many_ops :: "bytes \<Rightarrow> (bytes \<rightharpoonup> bytes) \<Rightarrow> (u64 \<times> fts_doc_terms) list \<Rightarrow> key_op list" where
  "insert_many_ops agent m ds =
     concat (map (insert_ops agent) ds) @ stats_ops agent (fold (\<lambda>(i, d). count_doc d) ds (stats_of m agent)) (ds \<noteq> [])"

lemma stage_insert_many_reads:
  assumes "typed_map m" "name_fits agent" "\<forall>(i, d) \<in> set (indexed_docs U docs). storable d"
  shows "reads (peeks X runs st m) (stage_insert_many U X agent docs batch)
    (Inr (batch @ key_batch (insert_many_ops agent m (indexed_docs U docs))))"
  unfolding stage_insert_many_def
  by (rule reads_obind_Inr [OF load_stats_reads [OF assms(1,2)]])
    (simp add: stage_contents [OF assms(2,3)] stage_stats_ops [OF assms(2)] insert_many_ops_def)

subsection \<open>What a deletion stages\<close>

definition delete_ops :: "bytes \<Rightarrow> u64 \<times> fts_doc_terms \<Rightarrow> key_op list" where
  "delete_ops agent = (\<lambda>(i, d). map (\<lambda>t. (KPosting agent (dt_term t) i, None)) d @ [(KDocTerms agent i, None)])"

fun picked :: "corpus \<Rightarrow> u64 set \<Rightarrow> u64 list \<Rightarrow> (u64 \<times> fts_doc_terms) list" where
  "picked C seen [] = []"
| "picked C seen (i # is) =
     (if i \<in> seen then picked C seen is
      else (case C i of None \<Rightarrow> [] | Some d \<Rightarrow> [(i, d)]) @ picked C (insert i seen) is)"

lemma set_picked: "set (picked C seen is) = {(i, d). i \<in> set is - seen \<and> C i = Some d}"
  by (induction C seen "is" rule: picked.induct) (auto split: option.splits)

lemma distinct_picked: "distinct (map fst (picked C seen is))"
  by (induction C seen "is" rule: picked.induct) (auto simp: set_picked split: option.splits)

definition delete_many_ops :: "bytes \<Rightarrow> (bytes \<rightharpoonup> bytes) \<Rightarrow> u64 list \<Rightarrow> key_op list" where
  "delete_many_ops agent m is =
     (let ds = picked (corpus_of m agent) {} is
      in concat (map (delete_ops agent) ds)
         @ stats_ops agent (fold (\<lambda>(i, d). uncount_doc d) ds (stats_of m agent)) (ds \<noteq> []))"

lemma unstage_postings:
  "name_fits agent \<Longrightarrow> \<forall>t \<in> set d. name_fits (dt_term t) \<Longrightarrow> rfold (unstage_posting agent i) d batch =
    Inr (batch @ key_batch (map (\<lambda>t. (KPosting agent (dt_term t) i, None)) d))"
  by (induction d arbitrary: batch) (simp_all add: unstage_posting_def postings_key_ok batch_delete_def)

lemma doc_key_reads:
  assumes "name_fits agent"
  shows "reads (peeks X runs st m) (kv_get X (key_bytes (KDocTerms agent i))) (Inr (held m (KDocTerms agent i)))"
  using engine.get_map by (simp add: held_def)

definition unstaged ::
  "bytes \<Rightarrow> corpus \<Rightarrow> u64 \<Rightarrow> fts_stats \<times> bool \<times> u64 set \<times> batch \<Rightarrow> fts_stats \<times> bool \<times> u64 set \<times> batch" where
  "unstaged agent C i = (\<lambda>(s, any, seen, batch).
     if i \<in> seen then (s, any, seen, batch)
     else (case C i of None \<Rightarrow> (s, any, insert i seen, batch)
           | Some d \<Rightarrow> (uncount_doc d s, True, insert i seen, batch @ key_batch (delete_ops agent (i, d)))))"

lemma unstage_doc_reads:
  assumes "typed_map m" "name_fits agent" "entries_ok m agent"
  shows "reads (peeks X runs st m) (unstage_doc X agent i acc) (Inr (unstaged agent (corpus_of m agent) i acc))"
proof -
  obtain s any seen batch where acc: "acc = (s, any, seen, batch)" by (metis prod_cases4)
  show ?thesis
  proof (cases "i \<in> seen")
    case False
    note get = doc_key_reads [OF assms(2), of X runs st m i]
    show ?thesis
    proof (cases "corpus_of m agent i")
      case None
      then have "held m (KDocTerms agent i) = None" using corpus_None [OF assms(1,2)] by simp
      then show ?thesis using False None
        by (simp add: acc unstage_doc_def unstaged_def docterms_key_ok [OF assms(2)] reads_obind_Inr [OF get])
    next
      case (Some d)
      then obtain v where v: "held m (KDocTerms agent i) = Some v" "decode_doc_terms v = Inr d"
        using corpus_of_held(1) [OF assms(1,2)] by blast
      have "\<forall>t \<in> set d. name_fits (dt_term t)" using assms(3) Some by (auto simp: entries_ok_def doc_ok_def)
      then show ?thesis using False Some v
        by (simp add: acc unstage_doc_def unstaged_def docterms_key_ok [OF assms(2)] reads_obind_Inr [OF get]
            unstage_postings [OF assms(2)] delete_ops_def batch_delete_def)
    qed
  qed (simp add: acc unstage_doc_def unstaged_def)
qed

lemma fold_unstaged:
  "fold (unstaged agent C) is (s, any, seen, batch) =
    (let ds = picked C seen is
     in (fold (\<lambda>(i, d). uncount_doc d) ds s, any \<or> ds \<noteq> [], seen \<union> set is, batch @ key_batch (concat (map (delete_ops agent) ds))))"
  by (induction "is" arbitrary: s any seen batch) (auto simp: unstaged_def Let_def split: option.split)

lemma stage_delete_many_reads:
  assumes "typed_map m" "name_fits agent" "entries_ok m agent"
  shows "reads (peeks X runs st m) (stage_delete_many X agent is batch) (Inr (batch @ key_batch (delete_many_ops agent m is)))"
proof -
  have "reads (peeks X runs st m) (ofold (unstage_doc X agent) is (stats_of m agent, False, {}, batch))
      (Inr (fold (unstaged agent (corpus_of m agent)) is (stats_of m agent, False, {}, batch)))"
    using unstage_doc_reads [OF assms] by (intro reads_ofold [where P = "\<lambda>_. True"]) auto
  then have "reads (peeks X runs st m)
      (obind (ofold (unstage_doc X agent) is (stats_of m agent, False, {}, batch))
        (\<lambda>(s, any, seen, b). olift (stage_stats agent s any b)))
      (Inr (batch @ key_batch (delete_many_ops agent m is)))"
    by (rule reads_obind_Inr)
      (simp add: fold_unstaged Let_def stage_stats_ops [OF assms(2)] delete_many_ops_def)
  then show ?thesis unfolding stage_delete_many_def by (rule reads_obind_Inr [OF load_stats_reads [OF assms(1,2)]])
qed

subsection \<open>What the staged entries do to the corpus\<close>

text \<open>Insertion and deletion of one document set all its entries; \<open>r\<close> is what the corpus holds after.\<close>

definition doc_entries :: "bytes \<Rightarrow> u64 \<Rightarrow> fts_doc_terms \<Rightarrow> fts_doc_terms option \<Rightarrow> key_op list" where
  "doc_entries agent i d r =
     map (\<lambda>t. (KPosting agent (dt_term t) i, map_option (\<lambda>_. posting_bytes (dt_tf t)) r)) d
     @ [(KDocTerms agent i, map_option doc_bytes r)]"

lemma ops_doc_entries:
  "insert_ops agent (i, d) = doc_entries agent i d (Some d)" "delete_ops agent (i, d) = doc_entries agent i d None"
  by (simp_all add: insert_ops_def delete_ops_def doc_entries_def)

lemma tf_of_Some: "distinct (map dt_term d) \<Longrightarrow> tf_of d t = Some tf \<longleftrightarrow> (\<exists>e \<in> set d. dt_term e = t \<and> dt_tf e = tf)"
  by (auto simp: tf_of_def map_of_eq_Some_iff comp_def)

lemma tf_of_None: "tf_of d t = None \<longleftrightarrow> t \<notin> dt_term ` set d"
  by (simp add: tf_of_def map_of_eq_None_iff image_image)

lemma held_doc_entries:
  assumes "name_fits agent" "doc_ok d" "key_ok k"
  shows "held (apply_keys (doc_entries agent i d r) m) k =
    (case k of
       KPosting a t j \<Rightarrow> if a = agent \<and> j = i \<and> tf_of d t \<noteq> None then map_option (\<lambda>_. posting_bytes (the (tf_of d t))) r else held m k
     | KDocTerms a j \<Rightarrow> if a = agent \<and> j = i then map_option doc_bytes r else held m k
     | _ \<Rightarrow> held m k)"
proof -
  let ?ops = "doc_entries agent i d r"
  have keys: "\<forall>(k, v) \<in> set ?ops. key_ok k" using assms(1,2) by (auto simp: doc_entries_def key_ok_def doc_ok_def)
  have "distinct (map fst ?ops)"
    using assms(2) by (auto simp: doc_entries_def comp_def distinct_map doc_ok_def inj_on_def)
  note held = held_apply_distinct [OF keys assms(3) this]
  show ?thesis
  proof (cases "k \<in> fst ` set ?ops")
    case False
    then show ?thesis using held(2) by (force simp: doc_entries_def tf_of_None split: logical_key.split)
  next
    case True
    then consider "k = KDocTerms agent i" | e where "e \<in> set d" "k = KPosting agent (dt_term e) i"
      by (auto simp: doc_entries_def)
    then show ?thesis
    proof cases
      case 1
      then show ?thesis using held(1) [of "map_option doc_bytes r"] by (simp add: doc_entries_def)
    next
      case (2 e)
      then have "tf_of d (dt_term e) = Some (dt_tf e)" using tf_of_Some assms(2) by (auto simp: doc_ok_def)
      then show ?thesis using 2 held(1) [of "map_option (\<lambda>_. posting_bytes (dt_tf e)) r"] by (auto simp: doc_entries_def)
    qed
  qed
qed

lemma apply_doc_entries:
  assumes "typed_map m" "name_fits agent" "entries_ok m agent" "doc_ok d"
    and "corpus_of m agent i = None \<or> corpus_of m agent i = Some d" "r = None \<or> r = Some d \<and> storable d"
  shows "typed_map (apply_keys (doc_entries agent i d r) m)"
    and "corpus_of (apply_keys (doc_entries agent i d r) m) agent = (corpus_of m agent)(i := r)"
    and "entries_ok (apply_keys (doc_entries agent i d r) m) agent"
    and "key_ok k \<Longrightarrow> \<not> fts_key agent k \<Longrightarrow> held (apply_keys (doc_entries agent i d r) m) k = held m k"
    and "held (apply_keys (doc_entries agent i d r) m) (KFtsMeta agent) = held m (KFtsMeta agent)"
proof -
  let ?m = "apply_keys (doc_entries agent i d r) m"
  note held = held_doc_entries [OF assms(2,4), of _ i r m]
  have "\<forall>oper \<in> set (doc_entries agent i d r). op_ok oper"
    using assms(2,4,6) posting_fits storable_fits [of d agent i]
    by (auto simp: doc_entries_def op_ok_def key_ok_def doc_ok_def split: option.split)
  then show "typed_map ?m" using typed_apply_keys assms(1) by blast
  show c: "corpus_of ?m agent = (corpus_of m agent)(i := r)"
  proof
    fix j
    have "held ?m (KDocTerms agent j) = (if j = i then map_option doc_bytes r else held m (KDocTerms agent j))"
      using held [of "KDocTerms agent j"] assms(2) by (simp add: key_ok_def)
    then show "corpus_of ?m agent j = ((corpus_of m agent)(i := r)) j"
      using assms(6) storable_fits [of d agent i] by (auto simp: corpus_of_def)
  qed
  have "held ?m (KPosting agent t j) = map_option posting_bytes (posting_in ((corpus_of m agent)(i := r)) t j)"
    if t: "name_fits t" for t j
  proof -
    have "held ?m (KPosting agent t j) = (if j = i \<and> tf_of d t \<noteq> None
        then map_option (\<lambda>_. posting_bytes (the (tf_of d t))) r else held m (KPosting agent t j))"
      using held [of "KPosting agent t j"] assms(2) t by (simp add: key_ok_def)
    moreover have "held m (KPosting agent t j) = map_option posting_bytes (posting_in (corpus_of m agent) t j)"
      using assms(3) t by (simp add: entries_ok_def)
    ultimately show ?thesis using assms(5,6) by (auto simp: posting_in_def)
  qed
  then show "entries_ok ?m agent"
    using assms(3,4,6) unfolding entries_ok_def c by (auto split: if_splits)
  show "held ?m k = held m k" if "key_ok k" "\<not> fts_key agent k" for k
    using held [OF that(1)] that(2) by (auto split: logical_key.splits)
  show "held ?m (KFtsMeta agent) = held m (KFtsMeta agent)"
    using held [of "KFtsMeta agent"] assms(2) by (simp add: key_ok_def)
qed

subsection \<open>Groups of documents\<close>

lemma map_add_Cons: "i \<notin> fst ` set ds \<Longrightarrow> C ++ map_of ((i, d) # ds) = C(i \<mapsto> d) ++ map_of ds"
proof -
  assume "i \<notin> fst ` set ds"
  then have "map_of ds i = None" by (simp add: map_of_eq_None_iff)
  then show ?thesis by (auto simp: fun_eq_iff map_add_def split: option.split)
qed

lemma restrict_insert: "C |` (- insert i A) = (C(i := None)) |` (- A)"
  by (auto simp: restrict_map_def fun_eq_iff)

lemma apply_inserts:
  assumes "typed_map m" "name_fits agent" "entries_ok m agent" "\<forall>(i, d) \<in> set ds. storable d"
    and "distinct (map fst ds)" "fst ` set ds \<inter> dom (corpus_of m agent) = {}"
  shows "let m' = apply_keys (concat (map (insert_ops agent) ds)) m
    in typed_map m' \<and> entries_ok m' agent \<and> corpus_of m' agent = corpus_of m agent ++ map_of ds
       \<and> held m' (KFtsMeta agent) = held m (KFtsMeta agent)
       \<and> (\<forall>k. key_ok k \<longrightarrow> \<not> fts_key agent k \<longrightarrow> held m' k = held m k)"
  using assms(1,3-6)
proof (induction ds arbitrary: m)
  case (Cons x ds)
  obtain i d where x: "x = (i, d)" by (cases x)
  have st: "storable d" "doc_ok d" and new: "corpus_of m agent i = None" using Cons.prems by (auto simp: x storable_def)
  let ?m = "apply_keys (doc_entries agent i d (Some d)) m"
  have step: "typed_map ?m" "corpus_of ?m agent = (corpus_of m agent)(i \<mapsto> d)" "entries_ok ?m agent"
    "held ?m (KFtsMeta agent) = held m (KFtsMeta agent)"
    "\<And>k. key_ok k \<Longrightarrow> \<not> fts_key agent k \<Longrightarrow> held ?m k = held m k"
    using apply_doc_entries [OF Cons.prems(1) assms(2) Cons.prems(2) st(2), of i "Some d"] new st by simp_all
  have "corpus_of m agent ++ map_of ((i, d) # ds) = corpus_of ?m agent ++ map_of ds"
    using Cons.prems(4) by (simp add: x step(2) map_add_Cons del: map_of.simps)
  moreover have "fst ` set ds \<inter> dom (corpus_of ?m agent) = {}" using Cons.prems(4,5) by (auto simp: x step(2))
  ultimately show ?case using Cons.IH [OF step(1,3)] Cons.prems(3,4) step(4,5) by (simp add: x ops_doc_entries Let_def del: map_of.simps)
qed simp

lemma apply_deletes_docs:
  assumes "typed_map m" "name_fits agent" "entries_ok m agent" "\<forall>(i, d) \<in> set ds. corpus_of m agent i = Some d"
    and "distinct (map fst ds)"
  shows "let m' = apply_keys (concat (map (delete_ops agent) ds)) m
    in typed_map m' \<and> entries_ok m' agent \<and> corpus_of m' agent = corpus_of m agent |` (- fst ` set ds)
       \<and> held m' (KFtsMeta agent) = held m (KFtsMeta agent)
       \<and> (\<forall>k. key_ok k \<longrightarrow> \<not> fts_key agent k \<longrightarrow> held m' k = held m k)"
  using assms(1,3-5)
proof (induction ds arbitrary: m)
  case (Cons x ds)
  obtain i d where x: "x = (i, d)" by (cases x)
  have d: "corpus_of m agent i = Some d" "doc_ok d" using Cons.prems(2,3) by (auto simp: x entries_ok_def)
  let ?m = "apply_keys (doc_entries agent i d None) m"
  have step: "typed_map ?m" "corpus_of ?m agent = (corpus_of m agent)(i := None)" "entries_ok ?m agent"
    "held ?m (KFtsMeta agent) = held m (KFtsMeta agent)"
    "\<And>k. key_ok k \<Longrightarrow> \<not> fts_key agent k \<Longrightarrow> held ?m k = held m k"
    using apply_doc_entries [OF Cons.prems(1) assms(2) Cons.prems(2) d(2), of i None] d(1) by simp_all
  have "corpus_of m agent |` (- fst ` set (x # ds)) = corpus_of ?m agent |` (- fst ` set ds)"
    by (simp add: x step(2) restrict_insert)
  moreover have "\<forall>(j, e) \<in> set ds. corpus_of ?m agent j = Some e" using Cons.prems(3,4) by (force simp: x step(2))
  ultimately show ?case using Cons.IH [OF step(1,3)] Cons.prems(4) step(4,5) by (simp add: x ops_doc_entries Let_def)
qed (simp add: restrict_map_def)

text \<open>The counters.\<close>

definition corpus_fits :: "corpus \<Rightarrow> bool" where
  "corpus_fits C \<longleftrightarrow> card (dom C) < 2 ^ 64 \<and> corpus_terms C < 2 ^ 64"

lemma counts_words:
  "counts s C \<longleftrightarrow> corpus_fits C \<and> fs_doc_count s = word_of_nat (card (dom C)) \<and> fs_total_terms s = word_of_nat (corpus_terms C)"
proof
  assume c: "counts s C"
  then have "card (dom C) = unat (fs_doc_count s)" "corpus_terms C = unat (fs_total_terms s)" by (simp_all add: counts_def)
  then show "corpus_fits C \<and> fs_doc_count s = word_of_nat (card (dom C)) \<and> fs_total_terms s = word_of_nat (corpus_terms C)"
    using unsigned_less [of "fs_doc_count s"] unsigned_less [of "fs_total_terms s"] by (simp add: corpus_fits_def)
next
  assume "corpus_fits C \<and> fs_doc_count s = word_of_nat (card (dom C)) \<and> fs_total_terms s = word_of_nat (corpus_terms C)"
  then show "counts s C" by (simp add: counts_def corpus_fits_def unat_of_nat)
qed

lemma corpus_terms_update:
  assumes "finite (dom C)" "C i = None"
  shows "card (dom (C(i \<mapsto> d))) = Suc (card (dom C))" "corpus_terms (C(i \<mapsto> d)) = corpus_terms C + doc_length d"
proof -
  have i: "i \<notin> dom C" using assms(2) by auto
  show "card (dom (C(i \<mapsto> d))) = Suc (card (dom C))" using assms(1) i by simp
  have "(\<Sum>j \<in> dom C. doc_length (the ((C(i \<mapsto> d)) j))) = corpus_terms C"
    unfolding corpus_terms_def using i by (intro sum.cong) auto
  then show "corpus_terms (C(i \<mapsto> d)) = corpus_terms C + doc_length d"
    using assms(1) i by (simp add: corpus_terms_def)
qed

lemma count_docs:
  assumes "finite (dom C)" "distinct (map fst ds)" "fst ` set ds \<inter> dom C = {}"
    and "fs_doc_count s = word_of_nat (card (dom C))" "fs_total_terms s = word_of_nat (corpus_terms C)"
  shows "fs_doc_count (fold (\<lambda>(i, d). count_doc d) ds s) = word_of_nat (card (dom (C ++ map_of ds)))
    \<and> fs_total_terms (fold (\<lambda>(i, d). count_doc d) ds s) = word_of_nat (corpus_terms (C ++ map_of ds))"
  using assms
proof (induction ds arbitrary: s C)
  case (Cons x ds)
  obtain i d where x: "x = (i, d)" by (cases x)
  have "C i = None" using Cons.prems(3) by (auto simp: x)
  note upd = corpus_terms_update [OF Cons.prems(1) this, of d]
  define C' where "C' = C(i \<mapsto> d)"
  have "C ++ map_of (x # ds) = C' ++ map_of ds"
    using Cons.prems(2) by (simp add: x C'_def map_add_Cons del: map_of.simps)
  moreover have "fst ` set ds \<inter> dom C' = {}" using Cons.prems(2,3) by (auto simp: x C'_def)
  moreover have "finite (dom C')" using Cons.prems(1) by (simp add: C'_def)
  moreover have "fs_doc_count (count_doc d s) = word_of_nat (card (dom C'))"
    unfolding C'_def upd by (simp add: count_doc_def Cons.prems(4))
  moreover have "fs_total_terms (count_doc d s) = word_of_nat (corpus_terms C')"
    unfolding C'_def upd by (simp add: count_doc_def Cons.prems(5))
  moreover have "fold (\<lambda>(i, d). count_doc d) (x # ds) s = fold (\<lambda>(i, d). count_doc d) ds (count_doc d s)" by (simp add: x)
  moreover have "distinct (map fst ds)" using Cons.prems(2) by simp
  ultimately show ?case using Cons.IH [of C' "count_doc d s"] by metis
qed simp

lemma uncount_one:
  assumes "counts s C" "finite (dom C)" "C i = Some d"
  shows "counts (uncount_doc d s) (C(i := None))"
proof -
  have C: "C = (C(i := None))(i \<mapsto> d)" using assms(3) by auto
  have "finite (dom (C(i := None)))" using assms(2) by simp
  then have "corpus_terms ((C(i := None))(i \<mapsto> d)) = corpus_terms (C(i := None)) + doc_length d"
    by (rule corpus_terms_update(2)) simp
  then have "corpus_terms C = corpus_terms (C(i := None)) + doc_length d" using C by simp
  moreover have "card (dom C) = Suc (card (dom (C(i := None))))"
    using card_Suc_Diff1 [OF assms(2), of i] assms(3) domI [of C i d] by (simp del: card_Suc_Diff1 card_Diff_insert)
  ultimately have "card (dom C) = Suc (card (dom (C(i := None))))" "corpus_terms C = corpus_terms (C(i := None)) + doc_length d"
    by simp_all
  with assms(1) have u: "unat (fs_doc_count s) = Suc (card (dom (C(i := None))))"
    "unat (fs_total_terms s) = corpus_terms (C(i := None)) + doc_length d"
    by (simp_all add: counts_def)
  have "doc_length d < 2 ^ 64" using unsigned_less [where 'a = nat, of "fs_total_terms s"] u(2) by simp
  then have "unat (word_of_nat (doc_length d) :: u64) = doc_length d" by (simp add: unat_of_nat)
  then show ?thesis using u
    by (auto simp: counts_def uncount_doc_def saturating_sub_def word_less_nat_alt unat_sub word_le_nat_alt)
qed

lemma uncount_docs:
  assumes "counts s C" "finite (dom C)" "\<forall>(i, d) \<in> set ds. C i = Some d" "distinct (map fst ds)"
  shows "counts (fold (\<lambda>(i, d). uncount_doc d) ds s) (C |` (- fst ` set ds))"
  using assms
proof (induction ds arbitrary: s C)
  case (Cons x ds)
  obtain i d where x: "x = (i, d)" by (cases x)
  have "C i = Some d" using Cons.prems(3) by (simp add: x)
  note one = uncount_one [OF Cons.prems(1,2) this]
  define C' where "C' = C(i := None)"
  have "counts (uncount_doc d s) C'" using one by (simp add: C'_def)
  moreover have "finite (dom C')" using Cons.prems(2) by (simp add: C'_def)
  moreover have "\<forall>(j, e) \<in> set ds. C' j = Some e" using Cons.prems(3,4) by (force simp: x C'_def)
  moreover have "C |` (- fst ` set (x # ds)) = C' |` (- fst ` set ds)"
    unfolding C'_def restrict_insert [symmetric] by (simp add: x)
  moreover have "fold (\<lambda>(i, d). uncount_doc d) (x # ds) s = fold (\<lambda>(i, d). uncount_doc d) ds (uncount_doc d s)" by (simp add: x)
  ultimately show ?case using Cons.IH [of "uncount_doc d s" C'] Cons.prems(4) by simp
qed (simp add: restrict_map_def)

subsection \<open>The documents the tokenizer produces\<close>

definition chars_ok :: "chars \<Rightarrow> bool" where
  "chars_ok cs \<longleftrightarrow> (\<forall>c \<in> set cs. scalar c)"

text \<open>A \<open>char\<close> lowercases to \<open>char\<close>s.\<close>

definition unicode_chars :: "unicode \<Rightarrow> bool" where
  "unicode_chars U \<longleftrightarrow> (\<forall>c. scalar c \<longrightarrow> chars_ok (lower U c))"

lemma scalar_fold: "scalar c \<Longrightarrow> scalar (fold_char c)"
  by (simp add: fold_char_def scalar_def)

lemma tokenize_chars: "unicode_chars U \<Longrightarrow> chars_ok cs \<Longrightarrow> t \<in> set (tokenize U cs) \<Longrightarrow> chars_ok t"
proof -
  assume U: "unicode_chars U" "chars_ok cs" and "t \<in> set (tokenize U cs)"
  then obtain p where p: "p \<in> set (words U cs)" "t = map fold_char (concat (map (lower U) p))" by (auto simp: tokenize_def)
  have "\<forall>c \<in> set p. scalar c" using words_alnum [OF p(1)] U(2) by (auto simp: chars_ok_def)
  then have "\<forall>c \<in> set (concat (map (lower U) p)). scalar c" using U(1) by (auto simp: unicode_chars_def chars_ok_def)
  then show ?thesis by (auto simp: p(2) chars_ok_def intro!: scalar_fold)
qed

lemma count_tokens:
  assumes "sorted_keys ns"
  shows "sorted_keys (fold count_token ts ns)" "fst ` set (fold count_token ts ns) \<subseteq> set ts \<union> fst ` set ns"
proof -
  have "sorted_keys (fold count_token ts ns) \<and> fst ` set (fold count_token ts ns) \<subseteq> set ts \<union> fst ` set ns"
    using assms
  proof (induction ts arbitrary: ns)
    case (Cons t ts)
    have "sorted_keys (count_token t ns)" using Cons.prems by (simp add: count_token_def)
    moreover have "fst ` set (count_token t ns) \<subseteq> insert t (fst ` set ns)"
      using set_om_insert [of t "case map_of ns t of None \<Rightarrow> 1 | Some n \<Rightarrow> n + 1" ns] by (auto simp: count_token_def)
    ultimately show ?case using Cons.IH [of "count_token t ns"] unfolding fold_simps list.set by blast
  qed simp
  then show "sorted_keys (fold count_token ts ns)" "fst ` set (fold count_token ts ns) \<subseteq> set ts \<union> fst ` set ns"
    by blast+
qed

lemma from_content_storable:
  assumes "unicode_chars U" "chars_ok content" "from_content U content \<noteq> []" "encode_doc_terms (from_content U content) = Inr v"
  shows "storable (from_content U content)"
proof -
  let ?d = "from_content U content" and ?ts = "map utf8 (tokenize U content)"
  note counted = count_tokens [OF sorted_keys_Nil, of ?ts]
  have terms: "map dt_term ?d = map fst (fold count_token ?ts [])"
    by (simp add: from_content_def case_prod_beta comp_def)
  then have "distinct (map dt_term ?d)" using sorted_keys_distinct [OF counted(1)] by simp
  moreover have "name_fits (dt_term e)" if e: "e \<in> set ?d" for e
  proof -
    have "dt_term e \<in> set (map dt_term ?d)" using e by simp
    then have "dt_term e \<in> set ?ts" unfolding terms using counted(2) by auto
    then obtain t where "t \<in> set (tokenize U content)" "dt_term e = utf8 t" by auto
    then have "utf8_valid (dt_term e)" using tokenize_chars [OF assms(1,2)] utf8_valid_utf8 by (auto simp: chars_ok_def)
    moreover obtain entries where "rmap encode_doc_term ?d = Inr entries"
      using assms(4) by (auto simp: encode_doc_terms_def rbind_eq_Inr split: if_splits)
    then have "fits16 (dt_term e)" using rmap_Inr_each [OF _ e] by (fastforce simp: encode_doc_term_def split: if_splits)
    ultimately show ?thesis by (simp add: name_fits_def fits16_def)
  qed
  ultimately show ?thesis using assms(3,4) by (auto simp: storable_def doc_ok_def)
qed

lemma indexed_storable:
  assumes "unicode_chars U" "\<forall>(i, content) \<in> set docs. chars_ok content \<and> (\<exists>v. encode_doc_terms (from_content U content) = Inr v)"
  shows "\<forall>(i, d) \<in> set (indexed_docs U docs). storable d"
  using assms from_content_storable [OF assms(1)] by (fastforce simp: indexed_docs_def)

lemma fst_indexed: "fst ` set (indexed_docs U docs) \<subseteq> fst ` set docs" "distinct (map fst docs) \<Longrightarrow> distinct (map fst (indexed_docs U docs))"
  by (force simp: indexed_docs_def) (induction docs, auto simp: indexed_docs_def image_iff)

subsection \<open>The invariant\<close>

lemma apply_stats:
  assumes "typed_map m" "name_fits agent" "entries_ok m agent"
  shows "let m' = apply_keys (stats_ops agent s any) m
    in typed_map m' \<and> entries_ok m' agent \<and> corpus_of m' agent = corpus_of m agent
       \<and> stats_of m' agent = (if any then s else stats_of m agent)
       \<and> (\<forall>k. key_ok k \<longrightarrow> \<not> fts_key agent k \<longrightarrow> held m' k = held m k)"
proof (cases any)
  case True
  let ?v = "projr (encode_fts_stats s)"
  let ?m = "put_key (KFtsMeta agent) ?v m"
  have ok: "key_ok (KFtsMeta agent)" using assms(2) by (simp add: key_ok_def)
  have enc: "encode_fts_stats s = Inr ?v" by (simp add: encode_fts_stats_def)
  have m: "apply_keys (stats_ops agent s any) m = ?m" using True by (simp add: stats_ops_def put_key_def)
  have held: "held ?m k = (if k = KFtsMeta agent then Some ?v else held m k)" if "key_ok k" for k
    using held_put [OF ok that] .
  have c: "corpus_of ?m agent = corpus_of m agent"
    using held assms(2) by (simp add: fun_eq_iff corpus_of_def key_ok_def)
  have "held ?m (KPosting agent t i) = held m (KPosting agent t i)" if "name_fits t" for t i
    using held assms(2) that by (simp add: key_ok_def)
  then have "entries_ok ?m agent" using assms(3) by (simp add: entries_ok_def c)
  moreover have "stats_of ?m agent = s" using held [OF ok] fts_stats_roundtrip [OF enc] by (simp add: stats_of_def)
  moreover have "typed_map ?m" using typed_put [OF assms(1) ok stats_fit [OF enc]] .
  ultimately show ?thesis unfolding m Let_def using True c held by auto
qed (use assms in \<open>simp add: stats_ops_def\<close>)

lemma insert_many_correct:
  assumes "typed_map m" "name_fits agent" "fts_ok m agent" "\<forall>(i, d) \<in> set ds. storable d"
    and "distinct (map fst ds)" "fst ` set ds \<inter> dom (corpus_of m agent) = {}"
    and "finite (dom m)" "corpus_fits (corpus_of m agent ++ map_of ds)"
  shows "let m' = apply_keys (insert_many_ops agent m ds) m
    in typed_map m' \<and> fts_ok m' agent \<and> corpus_of m' agent = corpus_of m agent ++ map_of ds
       \<and> (\<forall>k. key_ok k \<longrightarrow> \<not> fts_key agent k \<longrightarrow> held m' k = held m k)"
proof -
  let ?s = "fold (\<lambda>(i, d). count_doc d) ds (stats_of m agent)"
  let ?m1 = "apply_keys (concat (map (insert_ops agent) ds)) m"
  have ok: "entries_ok m agent" "counts (stats_of m agent) (corpus_of m agent)" using assms(3) by (simp_all add: fts_ok_def)
  note docs = apply_inserts [OF assms(1,2) ok(1) assms(4-6), unfolded Let_def]
  have "counts ?s (corpus_of m agent ++ map_of ds)"
    using count_docs [OF finite_corpus [OF assms(7,2)] assms(5,6)] ok(2) assms(8) unfolding counts_words by blast
  moreover have "stats_of ?m1 agent = stats_of m agent" using docs by (simp add: stats_of_def)
  moreover have "?s = stats_of m agent" if "ds = []" using that by simp
  ultimately show ?thesis
    using docs apply_stats [of ?m1 agent ?s "ds \<noteq> []"] assms(2) unfolding insert_many_ops_def apply_keys_simps Let_def fts_ok_def
    by (metis (no_types, lifting))
qed

lemma delete_many_correct:
  assumes "typed_map m" "name_fits agent" "fts_ok m agent" "finite (dom m)"
  shows "let m' = apply_keys (delete_many_ops agent m is) m
    in typed_map m' \<and> fts_ok m' agent \<and> corpus_of m' agent = corpus_of m agent |` (- set is)
       \<and> (\<forall>k. key_ok k \<longrightarrow> \<not> fts_key agent k \<longrightarrow> held m' k = held m k)"
proof -
  let ?C = "corpus_of m agent"
  let ?ds = "picked ?C {} is"
  let ?s = "fold (\<lambda>(i, d). uncount_doc d) ?ds (stats_of m agent)"
  let ?m1 = "apply_keys (concat (map (delete_ops agent) ?ds)) m"
  have ok: "entries_ok m agent" "counts (stats_of m agent) ?C" using assms(3) by (simp_all add: fts_ok_def)
  have ds: "\<forall>(i, d) \<in> set ?ds. ?C i = Some d" "distinct (map fst ?ds)" by (auto simp: set_picked distinct_picked)
  have rest: "?C |` (- fst ` set ?ds) = ?C |` (- set is)"
  proof
    fix i
    have "fst ` set ?ds = {i \<in> set is. ?C i \<noteq> None}" by (force simp: set_picked)
    then show "(?C |` (- fst ` set ?ds)) i = (?C |` (- set is)) i" by (auto simp: restrict_map_def)
  qed
  note docs = apply_deletes_docs [OF assms(1,2) ok(1) ds, unfolded Let_def rest]
  have "counts ?s (?C |` (- set is))"
    using uncount_docs [OF ok(2) finite_corpus [OF assms(4,2)] ds] unfolding rest .
  moreover have "stats_of ?m1 agent = stats_of m agent" using docs by (simp add: stats_of_def)
  moreover have "?s = stats_of m agent" if "?ds = []" using that by simp
  ultimately show ?thesis
    using docs apply_stats [of ?m1 agent ?s "?ds \<noteq> []"] assms(2) unfolding delete_many_ops_def apply_keys_simps Let_def fts_ok_def
    by (metis (no_types, lifting))
qed

subsection \<open>The BM25 score of a document of a corpus\<close>

definition hits_of :: "corpus \<Rightarrow> bytes \<Rightarrow> u64 set" where
  "hits_of C t = {i. posting_in C t i \<noteq> None}"

definition term_contribution :: "float_ops \<Rightarrow> fts_stats \<Rightarrow> corpus \<Rightarrow> bytes \<Rightarrow> u64 \<Rightarrow> u32 \<Rightarrow> f64" where
  "term_contribution F s C t i tf =
     bm25_term_score F (avgdl F s) (bm25_idf F s (card (hits_of C t))) tf (doc_length (the (C i)))"

definition score_term :: "float_ops \<Rightarrow> fts_stats \<Rightarrow> corpus \<Rightarrow> u64 \<Rightarrow> bytes \<Rightarrow> f64 option \<Rightarrow> f64 option" where
  "score_term F s C i t acc = (case posting_in C t i of
     None \<Rightarrow> acc
   | Some tf \<Rightarrow> Some (fl_add F (case acc of None \<Rightarrow> F_0 | Some y \<Rightarrow> y) (term_contribution F s C t i tf)))"

definition bm25_score :: "float_ops \<Rightarrow> fts_stats \<Rightarrow> corpus \<Rightarrow> bytes list \<Rightarrow> u64 \<Rightarrow> f64 option" where
  "bm25_score F s C terms i = fold (score_term F s C i) terms None"

lemma bm25_score_matches: "bm25_score F s C terms i \<noteq> None \<longleftrightarrow> (\<exists>t \<in> set terms. i \<in> hits_of C t)"
proof -
  have "fold (score_term F s C i) terms acc \<noteq> None \<longleftrightarrow> acc \<noteq> None \<or> (\<exists>t \<in> set terms. i \<in> hits_of C t)" for acc
    by (induction terms arbitrary: acc) (auto simp: score_term_def hits_of_def split: option.splits)
  then show ?thesis by (simp add: bm25_score_def)
qed

subsection \<open>Search computes it\<close>

definition hit_of :: "nat \<Rightarrow> bytes \<times> bytes \<Rightarrow> u64 \<times> u32" where
  "hit_of n = (\<lambda>(key, value). (the (postings_vec_id n key), fp_tf (projr (decode_fts_posting value))))"

definition pure_hit :: "float_ops \<Rightarrow> corpus \<Rightarrow> f64 \<Rightarrow> f64 \<Rightarrow> u64 \<times> u32 \<Rightarrow> bm25_acc \<Rightarrow> bm25_acc" where
  "pure_hit F C avg idf = (\<lambda>(i, tf) (scores, lengths).
     (add_score F i (bm25_term_score F avg idf tf (doc_length (the (C i)))) scores,
      case map_of lengths i of Some len \<Rightarrow> lengths | None \<Rightarrow> om_insert i (doc_length (the (C i))) lengths))"

definition lengths_ok :: "corpus \<Rightarrow> bm25_acc \<Rightarrow> bool" where
  "lengths_ok C = (\<lambda>(scores, lengths). sorted_keys lengths \<and> (\<forall>i len. map_of lengths i = Some len \<longrightarrow> len = doc_length (the (C i))))"

lemma term_scanned:
  assumes "typed_map m" "finite (dom m)" "name_fits agent" "name_fits t" "entries_ok m agent"
    and "postings_term_prefix agent t = Inr pre"
  shows "(key, val) \<in> set (entries_of (prefix pre) m) \<Longrightarrow> \<exists>i tf. hit_of (length pre) (key, val) = (i, tf)
        \<and> postings_vec_id (length pre) key = Some i \<and> decode_fts_posting val = Inr \<lparr>fp_tf = tf\<rparr>
        \<and> key = key_bytes (KPosting agent t i) \<and> posting_in (corpus_of m agent) t i = Some tf"
    and "set (map (hit_of (length pre)) (entries_of (prefix pre) m)) = {(i, tf). posting_in (corpus_of m agent) t i = Some tf}"
    and "distinct (map fst (map (hit_of (length pre)) (entries_of (prefix pre) m)))"
proof -
  let ?C = "corpus_of m agent" and ?es = "entries_of (prefix pre) m"
  have scan: "scan_bytes (STerm agent t) = Inr pre" using assms(6) by simp
  have ok: "key_ok (KPosting agent t i)" for i using assms(3,4) by (simp add: key_ok_def)
  have vec: "postings_vec_id (length pre) (key_bytes (KPosting agent t i)) = Some i" for i
    using decode_posting [OF assms(6)] postings_key_ok [OF assms(3,4)] by simp
  have posting: "held m (KPosting agent t i) = map_option posting_bytes (posting_in ?C t i)" for i
    using assms(4,5) by (simp add: entries_ok_def)
  show each: "\<exists>i tf. hit_of (length pre) (key, val) = (i, tf)
        \<and> postings_vec_id (length pre) key = Some i \<and> decode_fts_posting val = Inr \<lparr>fp_tf = tf\<rparr>
        \<and> key = key_bytes (KPosting agent t i) \<and> posting_in ?C t i = Some tf"
    if e: "(key, val) \<in> set ?es" for key val
  proof -
    obtain k where k: "key = key_bytes k" "in_scan (STerm agent t) k" "held m k = Some val"
      using scanned_entry [OF assms(1,2) scan e] by metis
    then obtain i where kk: "k = KPosting agent t i" by (cases k) auto
    then obtain tf where "posting_in ?C t i = Some tf" "val = posting_bytes tf" using k(3) posting by auto
    then show ?thesis using k(1) vec by (simp add: kk hit_of_def posting_roundtrip)
  qed
  show "set (map (hit_of (length pre)) ?es) = {(i, tf). posting_in ?C t i = Some tf}"
  proof (intro set_eqI iffI)
    fix x assume "x \<in> set (map (hit_of (length pre)) ?es)"
    then show "x \<in> {(i, tf). posting_in ?C t i = Some tf}" using each by fastforce
  next
    fix x assume "x \<in> {(i, tf). posting_in ?C t i = Some tf}"
    then obtain i tf where x: "x = (i, tf)" "posting_in ?C t i = Some tf" by blast
    then have e: "(key_bytes (KPosting agent t i), posting_bytes tf) \<in> set ?es"
      using entry_scanned [OF assms(2) scan ok] posting by simp
    have "x = hit_of (length pre) (key_bytes (KPosting agent t i), posting_bytes tf)"
      using vec by (simp add: x hit_of_def posting_roundtrip)
    then show "x \<in> set (map (hit_of (length pre)) ?es)" unfolding set_map by (rule image_eqI) (rule e)
  qed
  have "inj_on (\<lambda>e. fst (hit_of (length pre) e)) (set ?es)"
  proof (rule inj_onI)
    fix e e' assume e: "e \<in> set ?es" "e' \<in> set ?es" "fst (hit_of (length pre) e) = fst (hit_of (length pre) e')"
    obtain i where i: "fst (hit_of (length pre) e) = i" "fst e = key_bytes (KPosting agent t i)"
      using each [of "fst e" "snd e"] e(1) by auto
    obtain j where j: "fst (hit_of (length pre) e') = j" "fst e' = key_bytes (KPosting agent t j)"
      using each [of "fst e'" "snd e'"] e(2) by auto
    have "fst e = fst e'" using e(3) i j by simp
    then show "e = e'" using e(1,2) sorted_keys_distinct [OF sorted_keys_entries_of, of "prefix pre" m]
      by (metis eq_key_imp_eq_value prod.collapse)
  qed
  then show "distinct (map fst (map (hit_of (length pre)) ?es))"
    using distinct_entries_of by (simp add: distinct_map comp_def)
qed

lemma bm25_hit_reads:
  assumes "typed_map m" "finite (dom m)" "name_fits agent" "name_fits t" "entries_ok m agent"
    and "postings_term_prefix agent t = Inr pre" "e \<in> set (entries_of (prefix pre) m)" "lengths_ok (corpus_of m agent) acc"
  shows "reads (peeks X runs st m) (bm25_hit F X agent (length pre) avg idf e acc)
      (Inr (pure_hit F (corpus_of m agent) avg idf (hit_of (length pre) e) acc))
    \<and> lengths_ok (corpus_of m agent) (pure_hit F (corpus_of m agent) avg idf (hit_of (length pre) e) acc)"
proof -
  let ?C = "corpus_of m agent"
  obtain key val where e: "e = (key, val)" by (cases e)
  obtain i tf where i: "hit_of (length pre) (key, val) = (i, tf)" "postings_vec_id (length pre) key = Some i"
    "decode_fts_posting val = Inr \<lparr>fp_tf = tf\<rparr>" "posting_in ?C t i = Some tf"
    using term_scanned(1) [OF assms(1-6), of key val] assms(7) unfolding e by blast
  obtain d where d: "?C i = Some d" using i(4) by (cases "?C i") (auto simp: posting_in_def)
  obtain v where v: "held m (KDocTerms agent i) = Some v" "decode_doc_terms v = Inr d"
    using corpus_of_held(1) [OF assms(1,3)] d by blast
  have len: "reads (peeks X runs st m) (doc_length_of X (key_bytes (KDocTerms agent i))) (Inr (Some (doc_length d)))"
    unfolding doc_length_of_def using v by (intro reads_obind_Inr [OF doc_key_reads [OF assms(3)]]) simp
  obtain scores lengths where acc: "acc = (scores, lengths)" by (cases acc)
  have "reads (peeks X runs st m) (bm25_hit F X agent (length pre) avg idf e acc) (Inr (pure_hit F ?C avg idf (i, tf) acc))"
  proof (cases "map_of lengths i")
    case None
    then show ?thesis using i d
      by (simp add: e acc bm25_hit_def pure_hit_def docterms_key_ok [OF assms(3)] reads_obind_Inr [OF len])
  next
    case (Some n)
    then have "n = doc_length (the (?C i))" using assms(8) unfolding lengths_ok_def acc by blast
    then have "n = doc_length d" using d by simp
    then show ?thesis using Some i d by (simp add: e acc bm25_hit_def pure_hit_def)
  qed
  moreover have "lengths_ok ?C (pure_hit F ?C avg idf (i, tf) acc)"
    using assms(8) by (auto simp: lengths_ok_def pure_hit_def acc split: option.split)
  ultimately show ?thesis using i(1) by (simp add: e)
qed

lemma fold_pure_hits:
  assumes "distinct (map fst hs)" "sorted_keys (fst acc)"
  shows "sorted_keys (fst (fold (pure_hit F C avg idf) hs acc))
    \<and> map_of (fst (fold (pure_hit F C avg idf) hs acc)) i = (case map_of hs i of
        None \<Rightarrow> map_of (fst acc) i
      | Some tf \<Rightarrow> Some (fl_add F (case map_of (fst acc) i of None \<Rightarrow> F_0 | Some y \<Rightarrow> y)
                    (bm25_term_score F avg idf tf (doc_length (the (C i))))))"
  using assms
proof (induction hs arbitrary: acc)
  case (Cons h hs)
  obtain j tf where h: "h = (j, tf)" by (cases h)
  obtain scores lengths where acc: "acc = (scores, lengths)" by (cases acc)
  have "map_of hs j = None" using Cons.prems(1) by (simp add: h map_of_eq_None_iff)
  moreover have "sorted_keys (fst (pure_hit F C avg idf (j, tf) acc))"
    using Cons.prems(2) by (simp add: acc pure_hit_def add_score_def)
  ultimately show ?case using Cons.IH [of "pure_hit F C avg idf h acc"] Cons.prems
    by (auto simp: h acc pure_hit_def add_score_def split: option.split)
qed simp

lemma bm25_term_reads:
  assumes "typed_map m" "finite (dom m)" "name_fits agent" "name_fits (utf8 t)" "entries_ok m agent"
    and "lengths_ok (corpus_of m agent) acc" "sorted_keys (fst acc)"
  shows "\<exists>acc'. reads (peeks X runs st m) (bm25_term F X agent s t acc) (Inr acc')
    \<and> lengths_ok (corpus_of m agent) acc' \<and> sorted_keys (fst acc')
    \<and> (\<forall>i. map_of (fst acc') i = score_term F s (corpus_of m agent) i (utf8 t) (map_of (fst acc) i))"
proof -
  let ?C = "corpus_of m agent"
  obtain pre where pre: "postings_term_prefix agent (utf8 t) = Inr pre"
    using scan_bytes_Inr [of "STerm agent (utf8 t)"] assms(3,4) by (simp add: name_fits_def)
  let ?es = "entries_of (prefix pre) m"
  define hs where "hs = map (hit_of (length pre)) ?es"
  note scanned = term_scanned [OF assms(1-5) pre]
  have hs: "set hs = {(i, tf). posting_in ?C (utf8 t) i = Some tf}" "distinct (map fst hs)"
    using scanned(2,3) unfolding hs_def by blast+
  have map_hs: "map_of hs i = posting_in ?C (utf8 t) i" for i
  proof (cases "posting_in ?C (utf8 t) i")
    case None
    then have "i \<notin> fst ` set hs" by (auto simp: hs(1))
    then show ?thesis using None by (simp add: map_of_eq_None_iff)
  next
    case (Some tf)
    then show ?thesis using hs by (simp add: map_of_eq_Some_iff)
  qed
  have "set (map fst hs) = hits_of ?C (utf8 t)" by (force simp: hs(1) hits_of_def)
  then have df: "length ?es = card (hits_of ?C (utf8 t))"
    using distinct_card [OF hs(2)] by (simp add: hs_def)
  let ?f = "pure_hit F ?C (avgdl F s) (bm25_idf F s (length ?es))"
  have fold_reads: "reads (peeks X runs st m) (ofold (bm25_hit F X agent (length pre) (avgdl F s) (bm25_idf F s (length ?es))) es acc)
      (Inr (fold ?f (map (hit_of (length pre)) es) acc)) \<and> lengths_ok ?C (fold ?f (map (hit_of (length pre)) es) acc)"
    if "set es \<subseteq> set ?es" "lengths_ok ?C acc" for es acc
    using that
  proof (induction es arbitrary: acc)
    case (Cons e es)
    have "e \<in> set ?es" using Cons.prems(1) by simp
    note step = bm25_hit_reads [OF assms(1-5) pre this Cons.prems(2), of X runs st F "avgdl F s" "bm25_idf F s (length ?es)"]
    have sub: "set es \<subseteq> set ?es" using Cons.prems(1) by simp
    show ?case using Cons.IH [OF sub conjunct2 [OF step]] by (simp add: reads_obind_Inr [OF conjunct1 [OF step]])
  qed simp
  let ?acc = "fold ?f hs acc"
  have "reads (peeks X runs st m) (bm25_term F X agent s t acc) (Inr ?acc)"
    unfolding bm25_term_def pre obind_simps
    by (rule reads_obind_Inr [OF engine.scan_map]) (use fold_reads [OF subset_refl assms(6)] in \<open>auto simp: hs_def\<close>)
  moreover have "lengths_ok ?C ?acc" using fold_reads [OF subset_refl assms(6)] by (simp add: hs_def)
  moreover have "sorted_keys (fst ?acc)" "map_of (fst ?acc) i = score_term F s ?C i (utf8 t) (map_of (fst acc) i)" for i
    using fold_pure_hits [OF hs(2) assms(7), of F ?C "avgdl F s" "bm25_idf F s (length ?es)" i]
    by (simp_all add: map_hs score_term_def term_contribution_def df split: option.split)
  ultimately show ?thesis by blast
qed

lemma bm25_terms_read:
  assumes "typed_map m" "finite (dom m)" "name_fits agent" "\<forall>t \<in> set ts. name_fits (utf8 t)" "entries_ok m agent"
    and "lengths_ok (corpus_of m agent) acc" "sorted_keys (fst acc)"
  shows "\<exists>acc'. reads (peeks X runs st m) (ofold (bm25_term F X agent s) ts acc) (Inr acc') \<and> sorted_keys (fst acc')
    \<and> (\<forall>i. map_of (fst acc') i = fold (score_term F s (corpus_of m agent) i) (map utf8 ts) (map_of (fst acc) i))"
  using assms(4,6,7)
proof (induction ts arbitrary: acc)
  case (Cons t ts)
  obtain acc1 where one: "reads (peeks X runs st m) (bm25_term F X agent s t acc) (Inr acc1)" "lengths_ok (corpus_of m agent) acc1"
    "sorted_keys (fst acc1)" "\<forall>i. map_of (fst acc1) i = score_term F s (corpus_of m agent) i (utf8 t) (map_of (fst acc) i)"
    using bm25_term_reads [OF assms(1-3) _ assms(5) Cons.prems(2,3), of t X runs st F s] Cons.prems(1) by auto
  obtain acc2 where two: "reads (peeks X runs st m) (ofold (bm25_term F X agent s) ts acc1) (Inr acc2)" "sorted_keys (fst acc2)"
    "\<forall>i. map_of (fst acc2) i = fold (score_term F s (corpus_of m agent) i) (map utf8 ts) (map_of (fst acc1) i)"
    using Cons.IH [OF _ one(2,3)] Cons.prems(1) by auto
  have "reads (peeks X runs st m) (ofold (bm25_term F X agent s) (t # ts) acc) (Inr acc2)"
    by (simp add: reads_obind_Inr [OF one(1)] two(1))
  then show ?case using two(2,3) one(4) by (intro exI [of _ acc2]) simp
next
  case Nil
  then show ?case by (intro exI [of _ acc]) simp
qed

text \<open>The order of the results.\<close>

definition ranks_before :: "u64 \<times> f64 \<Rightarrow> u64 \<times> f64 \<Rightarrow> bool" where
  "ranks_before = (\<lambda>(i, x) (j, y). total_key x > total_key y \<or> total_key x = total_key y \<and> i < j)"

lemma bm25_rank_sorted:
  assumes "distinct (map fst xs)"
  shows "sorted_wrt ranks_before (bm25_rank xs)" "set (bm25_rank xs) = set xs"
proof -
  have "inj_on (\<lambda>(i, x). (- total_key x, i)) (set xs)" by (rule inj_onI) (auto intro: eq_key_imp_eq_value [OF assms])
  then have "distinct (map (\<lambda>(i, x). (- total_key x, i)) xs)" using assms by (simp add: distinct_map)
  from strict_sort_key [OF this] show "sorted_wrt ranks_before (bm25_rank xs)"
    by (auto simp: bm25_rank_def ranks_before_def less_prod_def elim!: sorted_wrt_mono_rel [rotated])
qed (simp add: bm25_rank_def)

lemma search_reads:
  assumes "typed_map m" "finite (dom m)" "name_fits agent" "fts_ok m agent"
    and "parse_match_expr e = Inr ts" "\<forall>t \<in> set ts. name_fits (utf8 t)"
  shows "\<exists>R. reads (peeks X runs st m) (search_bm25 F X agent e k) (Inr (map (\<lambda>(i, x). (i, fl_narrow F x)) (take k R)))
    \<and> set R = {(i, x). bm25_score F (stats_of m agent) (corpus_of m agent) (map utf8 ts) i = Some x} \<and> sorted_wrt ranks_before R"
proof -
  let ?C = "corpus_of m agent" and ?s = "stats_of m agent"
  have ok: "entries_ok m agent" "counts ?s ?C" using assms(4) by (simp_all add: fts_ok_def)
  obtain acc where acc: "reads (peeks X runs st m) (ofold (bm25_term F X agent ?s) ts ([], [])) (Inr acc)" "sorted_keys (fst acc)"
    "\<forall>i. map_of (fst acc) i = bm25_score F ?s ?C (map utf8 ts) i"
    using bm25_terms_read [OF assms(1-3,6) ok(1), of "([], [])" X runs st F ?s] by (auto simp: lengths_ok_def bm25_score_def)
  let ?R = "bm25_rank (fst acc)"
  have "set (fst acc) = {(i, x). bm25_score F ?s ?C (map utf8 ts) i = Some x}"
    using map_of_eq_Some [OF acc(2)] acc(3) by force
  then have R: "set ?R = {(i, x). bm25_score F ?s ?C (map utf8 ts) i = Some x}" "sorted_wrt ranks_before ?R"
    using bm25_rank_sorted [OF sorted_keys_distinct [OF acc(2)]] by simp_all
  have empty: "?R = []" if "fs_doc_count ?s = 0"
  proof -
    have "card (dom ?C) = 0" using ok(2) that by (simp add: counts_def)
    then have "?C = Map.empty" using finite_corpus [OF assms(2,3)] by simp
    then have "hits_of ?C t = {}" for t by (simp add: hits_of_def posting_in_def)
    then have "bm25_score F ?s ?C (map utf8 ts) i = None" for i using bm25_score_matches [of F ?s ?C "map utf8 ts" i] by simp
    then have "set ?R = {}" by (simp add: R(1))
    then show ?thesis by simp
  qed
  have nil: "?R = []" if "ts = []"
  proof -
    have "set ?R = {}" using that by (simp add: R(1) bm25_score_def)
    then show ?thesis by simp
  qed
  have "reads (peeks X runs st m) (search_bm25 F X agent e k) (Inr (map (\<lambda>(i, x). (i, fl_narrow F x)) (take k ?R)))"
  proof (cases "ts = [] \<or> k = 0")
    case True
    then show ?thesis using nil by (auto simp: search_bm25_def assms(5))
  next
    case False
    then show ?thesis
      unfolding search_bm25_def assms(5) obind_simps
      using empty by (auto intro!: reads_obind_Inr [OF load_stats_reads [OF assms(1,3)]] reads_obind_Inr [OF acc(1)] split: prod.split)
  qed
  then show ?thesis using R by blast
qed

subsection \<open>Properties\<close>

text \<open>Nothing outside the full-text index of the agent changes.\<close>

definition only_fts :: "bytes \<Rightarrow> (bytes \<rightharpoonup> bytes) \<Rightarrow> (bytes \<rightharpoonup> bytes) \<Rightarrow> bool" where
  "only_fts agent m m' \<longleftrightarrow> (\<forall>k. key_ok k \<longrightarrow> \<not> fts_key agent k \<longrightarrow> held m' k = held m k)"

lemma only_fts_other:
  assumes "only_fts agent m m'" "name_fits other" "other \<noteq> agent"
  shows "corpus_of m' other = corpus_of m other" "fts_ok m' other = fts_ok m other"
proof -
  have "held m' k = held m k" if "key_ok k" "fts_key other k" for k
    using assms(1,3) that by (cases k) (auto simp: only_fts_def)
  then show "corpus_of m' other = corpus_of m other" "fts_ok m' other = fts_ok m other"
    using fts_frame [OF _ assms(2)] by metis+
qed

lemma inserts_commit:
  assumes "store_inv X st runs" "store_map runs (memtable st) = m" "draws_ok (crypto st) rnd" "typed_map m"
    and "name_fits agent" "fts_ok m agent" "unicode_chars U" "distinct (map fst docs)"
    and "\<forall>(i, content) \<in> set docs. chars_ok content \<and> (\<exists>v. encode_doc_terms (from_content U content) = Inr v)
           \<and> corpus_of m agent i = None"
    and "corpus_fits (corpus_of m agent ++ map_of (indexed_docs U docs))"
    and "ops = insert_many_ops agent m (indexed_docs U docs)" "length ops \<le> MAX_BATCH_OPS"
    and "roomy st runs (kvs_size (key_batch ops))"
  shows "\<exists>m'. commits X st runs m (obind (stage_insert_many U X agent docs []) (apply_batch X rnd)) () m' (kvs_size (key_batch ops))
    \<and> typed_map m' \<and> fts_ok m' agent \<and> only_fts agent m m'
    \<and> corpus_of m' agent = corpus_of m agent ++ map_of (indexed_docs U docs)"
proof -
  let ?ds = "indexed_docs U docs"
  have ds: "\<forall>(i, d) \<in> set ?ds. storable d" using indexed_storable [OF assms(7)] assms(9) by fastforce
  have fresh: "fst ` set ?ds \<inter> dom (corpus_of m agent) = {}" using assms(9) fst_indexed(1) by fastforce
  have fin: "finite (dom m)" using finite_store_map assms(2) by metis
  have reads: "reads (peeks X runs st m) (stage_insert_many U X agent docs []) (Inr (key_batch ops))"
    using stage_insert_many_reads [OF assms(4,5) ds, of X runs st "[]"] assms(11) by simp
  have "commits X s runs m (apply_batch X rnd (key_batch ops)) () (apply_keys ops m) (kvs_size (key_batch ops))"
    if "peeks X runs st m s" for s
    using that assms(3,12,13) by (auto simp: peeks_def cache_irrelevant intro!: commits_keys)
  then have "commits X st runs m (obind (stage_insert_many U X agent docs []) (apply_batch X rnd)) () (apply_keys ops m)
      (kvs_size (key_batch ops))"
    by (rule commits_obind_read [OF reads assms(1,2)])
  then show ?thesis
    using insert_many_correct [OF assms(4-6) ds fst_indexed(2) [OF assms(8)] fresh fin assms(10)] unfolding assms(11) only_fts_def Let_def
    by blast
qed

text \<open>
  C15. Indexing a group of new documents is one atomic write: after a crash the index is the one
  before or the one after; the postings stay exactly those of the corpus and the statistics its
  document count and its total length, whatever the documents repeat; the corpus gains exactly
  the documents that have a term, and nothing else of the store changes.
\<close>

theorem fts_insert_refines:
  assumes "store_inv X st runs" "store_map runs (memtable st) = m" "draws_ok (crypto st) rnd" "typed_map m"
    and "name_fits agent" "fts_ok m agent" "unicode_chars U" "distinct (map fst docs)"
    and "\<forall>(i, content) \<in> set docs. chars_ok content \<and> (\<exists>v. encode_doc_terms (from_content U content) = Inr v)
           \<and> corpus_of m agent i = None"
    and "corpus_fits (corpus_of m agent ++ map_of (indexed_docs U docs))"
    and "ops = insert_many_ops agent m (indexed_docs U docs)" "length ops \<le> MAX_BATCH_OPS"
    and "roomy st runs (kvs_size (key_batch ops))"
  shows "\<exists>m'. commits X st runs m (obind (stage_insert_many U X agent docs []) (apply_batch X rnd)) () m' (kvs_size (key_batch ops))
    \<and> typed_map m' \<and> fts_ok m' agent \<and> only_fts agent m m'
    \<and> corpus_of m' agent = corpus_of m agent ++ map_of (indexed_docs U docs)"
  using assms by (rule inserts_commit)

text \<open>
  C16. Removing a group of documents, in which documents may be missing or repeated, is one atomic
  write: the corpus loses exactly the documents of the group, their postings go with them, and the
  statistics stay those of the corpus; nothing else of the store changes.
\<close>

theorem fts_delete_refines:
  assumes "store_inv X st runs" "store_map runs (memtable st) = m" "draws_ok (crypto st) rnd" "typed_map m"
    and "name_fits agent" "fts_ok m agent"
    and "ops = delete_many_ops agent m vec_ids" "length ops \<le> MAX_BATCH_OPS" "roomy st runs (kvs_size (key_batch ops))"
  shows "\<exists>m'. commits X st runs m (obind (stage_delete_many X agent vec_ids []) (apply_batch X rnd)) () m' (kvs_size (key_batch ops))
    \<and> typed_map m' \<and> fts_ok m' agent \<and> only_fts agent m m'
    \<and> corpus_of m' agent = corpus_of m agent |` (- set vec_ids)"
proof -
  have fin: "finite (dom m)" using finite_store_map assms(2) by metis
  have entries: "entries_ok m agent" using assms(6) by (simp add: fts_ok_def)
  have reads: "reads (peeks X runs st m) (stage_delete_many X agent vec_ids []) (Inr (key_batch ops))"
    using stage_delete_many_reads [OF assms(4,5) entries, of X runs st vec_ids "[]"] assms(7) by simp
  have "commits X s runs m (apply_batch X rnd (key_batch ops)) () (apply_keys ops m) (kvs_size (key_batch ops))"
    if "peeks X runs st m s" for s
    using that assms(3,8,9) by (auto simp: peeks_def cache_irrelevant intro!: commits_keys)
  then have "commits X st runs m (obind (stage_delete_many X agent vec_ids []) (apply_batch X rnd)) () (apply_keys ops m)
      (kvs_size (key_batch ops))"
    by (rule commits_obind_read [OF reads assms(1,2)])
  then show ?thesis
    using delete_many_correct [OF assms(4-6) fin, of vec_ids] unfolding assms(7) only_fts_def Let_def by blast
qed

text \<open>
  C14. The search returns the \<open>k\<close> best documents by BM25 computed directly from the corpus (hits,
  frequencies, lengths and averages of the documents themselves), best score first and ids
  ascending among equal scores; a document is ranked exactly when it holds a term of the query.
\<close>

theorem search_bm25_correct:
  assumes "store_inv X st runs" "store_map runs (memtable st) = m" "typed_map m" "name_fits agent" "fts_ok m agent"
    and "parse_match_expr e = Inr ts" "\<forall>t \<in> set ts. name_fits (utf8 t)"
  shows "\<exists>R st'. search_bm25 F X agent e k st = (Inr (map (\<lambda>(i, x). (i, fl_narrow F x)) (take k R)), st')
    \<and> peeks X runs st m st' \<and> sorted_wrt ranks_before R
    \<and> set R = {(i, x). bm25_score F (stats_of m agent) (corpus_of m agent) (map utf8 ts) i = Some x}
    \<and> fst ` set R = (\<Union>t \<in> set ts. hits_of (corpus_of m agent) (utf8 t))
    \<and> counts (stats_of m agent) (corpus_of m agent)"
proof -
  have fin: "finite (dom m)" using finite_store_map assms(2) by metis
  obtain R where R: "reads (peeks X runs st m) (search_bm25 F X agent e k) (Inr (map (\<lambda>(i, x). (i, fl_narrow F x)) (take k R)))"
    "set R = {(i, x). bm25_score F (stats_of m agent) (corpus_of m agent) (map utf8 ts) i = Some x}" "sorted_wrt ranks_before R"
    using search_reads [OF assms(3) fin assms(4-7)] by blast
  have "fst ` set R = {i. bm25_score F (stats_of m agent) (corpus_of m agent) (map utf8 ts) i \<noteq> None}"
    by (force simp: R(2))
  then have "fst ` set R = (\<Union>t \<in> set ts. hits_of (corpus_of m agent) (utf8 t))"
    unfolding bm25_score_matches by auto
  moreover obtain st' where "search_bm25 F X agent e k st = (Inr (map (\<lambda>(i, x). (i, fl_narrow F x)) (take k R)), st')"
    "peeks X runs st m st'"
    using readsD [OF R(1) peeks_refl [OF assms(1,2)]] by blast
  moreover have "counts (stats_of m agent) (corpus_of m agent)" using assms(5) by (simp add: fts_ok_def)
  ultimately show ?thesis using R(2,3) by blast
qed

text \<open>
  A statistics record that no longer decodes is recomputed from the documents of the agent,
  and the result is the record that was lost.
\<close>

theorem fts_stats_heal:
  assumes "typed_map m" "name_fits agent" "fts_ok m agent"
    and "store_inv X st runs" "store_map runs (memtable st) = m(key_bytes (KFtsMeta agent) \<mapsto> v)"
    and "decode_fts_stats v = Inl (Corrupt FtsStats)"
  shows "\<exists>st'. fts_load_stats X agent st = (Inr (stats_of m agent), st')
    \<and> peeks X runs st (m(key_bytes (KFtsMeta agent) \<mapsto> v)) st'"
proof -
  let ?m = "m(key_bytes (KFtsMeta agent) \<mapsto> v)"
  have "finite (dom ?m)" using finite_store_map assms(5) by metis
  then have fin: "finite (dom m)" by (simp del: fun_upd_apply)
  obtain pre where pre: "docterms_agent_prefix agent = Inr pre"
    using scan_bytes_Inr [of "SDocTerms agent"] assms(2) by (simp add: name_fits_def)
  have ok: "key_ok (KFtsMeta agent)" using assms(2) by (simp add: key_ok_def)
  have "\<not> prefix pre (key_bytes (KFtsMeta agent))"
    using scan_exact [OF encode_key_ok [OF ok], of "SDocTerms agent" pre] pre by simp
  then have same: "?m b = m b" if "prefix (projr (docterms_agent_prefix agent)) b" for b using that pre by auto
  have heal: "reads (peeks X runs st ?m) (fts_heal_stats X agent) (Inr (stats_of m agent))"
    by (rule heal_stats_reads [OF assms(1,2) _ same fin]) (use assms(3) in \<open>simp_all add: fts_ok_def\<close>)
  have "reads (peeks X runs st ?m) (kv_get X (key_bytes (KFtsMeta agent))) (Inr (Some v))"
    using engine.get_map [of X runs st ?m "key_bytes (KFtsMeta agent)"] by simp
  then have "reads (peeks X runs st ?m) (fts_load_stats X agent) (Inr (stats_of m agent))"
    unfolding fts_load_stats_def fts_meta_key_ok [OF assms(2)] obind_simps
    by (rule reads_obind_Inr) (simp add: assms(6) heal)
  then show ?thesis using peeks_refl [OF assms(4,5)] unfolding reads_def by blast
qed

subsection \<open>Concrete instances\<close>

lemma toy_fts: "name_fits [97]" "typed_map Map.empty" "fts_ok Map.empty [97]" "corpus_of Map.empty [97] = Map.empty"
  by (simp_all add: name_fits_def typed_map_def fts_ok_def entries_ok_def counts_def stats_of_def held_def corpus_of_def
      fun_eq_iff posting_in_def fts_stats_default_def corpus_terms_def)

lemma toy_chars: "unicode_chars toy_unicode"
  by (auto simp: unicode_chars_def chars_ok_def toy_unicode_def scalar_def)

definition toy_doc :: fts_doc_terms where
  "toy_doc = [\<lparr>dt_term = [97, 98], dt_tf = 2\<rparr>]"

lemma toy_content: "from_content toy_unicode [97, 98, 32, 97, 98] = toy_doc"
  by (simp add: from_content_def tokenize_def words_def toy_unicode_def fold_char_def utf8_char_def count_token_def toy_doc_def)

lemma toy_indexed: "indexed_docs toy_unicode [(7, [97, 98, 32, 97, 98])] = [(7, toy_doc)]"
  by (simp add: indexed_docs_def toy_content) (simp add: toy_doc_def)

definition toy_ops :: "key_op list" where
  "toy_ops = insert_many_ops [97] Map.empty [(7, toy_doc)]"

lemma toy_insert_facts:
  "\<forall>(i, content) \<in> set [(7, [97, 98, 32, 97, 98])]. chars_ok content
     \<and> (\<exists>v. encode_doc_terms (from_content toy_unicode content) = Inr v) \<and> corpus_of Map.empty [97] i = None"
  "corpus_fits (corpus_of Map.empty [97] ++ map_of (indexed_docs toy_unicode [(7, [97, 98, 32, 97, 98])]))"
  "toy_ops = insert_many_ops [97] Map.empty (indexed_docs toy_unicode [(7, [97, 98, 32, 97, 98])])"
  "length toy_ops \<le> MAX_BATCH_OPS" "roomy toy_store [] (kvs_size (key_batch toy_ops))"
  "kvs_size (key_batch toy_ops) < 2 ^ 20"
proof -
  have enc: "\<exists>v. encode_doc_terms toy_doc = Inr v" "length (doc_bytes toy_doc) < 100"
    by (simp_all add: toy_doc_def doc_bytes_def encode_doc_terms_def encode_doc_term_def fits32_def fits16_def)
  then show "\<forall>(i, content) \<in> set [(7, [97, 98, 32, 97, 98])]. chars_ok content
     \<and> (\<exists>v. encode_doc_terms (from_content toy_unicode content) = Inr v) \<and> corpus_of Map.empty [97] i = None"
    by (simp add: toy_fts toy_content chars_ok_def scalar_def)
  show "length toy_ops \<le> MAX_BATCH_OPS"
    by (simp add: toy_ops_def insert_many_ops_def insert_ops_def stats_ops_def toy_doc_def MAX_BATCH_OPS_def)
  show size: "kvs_size (key_batch toy_ops) < 2 ^ 20"
    using enc(2) by (simp add: toy_ops_def insert_many_ops_def insert_ops_def stats_ops_def toy_doc_def entry_wire_size_def
        key_bytes_def lp_def space_defs ascii_def posting_bytes_def encode_fts_posting_def encode_fts_stats_def)
  show "roomy toy_store [] (kvs_size (key_batch toy_ops))" by (rule toy_roomy) (use size in simp)
  show "corpus_fits (corpus_of Map.empty [97] ++ map_of (indexed_docs toy_unicode [(7, [97, 98, 32, 97, 98])]))"
    by (simp add: toy_fts toy_indexed corpus_fits_def corpus_terms_def doc_length_def toy_doc_def)
qed (simp add: toy_ops_def toy_indexed)

lemma toy_inserted:
  obtains st runs m where "store_inv toy_externals st runs" "store_map runs (memtable st) = m" "typed_map m" "fts_ok m [97]"
    "corpus_of m [97] = [7 \<mapsto> toy_doc]" "roomy st runs (2 ^ 20)"
proof -
  obtain m where m: "commits toy_externals toy_store [] Map.empty
      (obind (stage_insert_many toy_unicode toy_externals [97] [(7, [97, 98, 32, 97, 98])] []) (apply_batch toy_externals toy_rnd)) () m
      (kvs_size (key_batch toy_ops))"
    "typed_map m" "fts_ok m [97]" "corpus_of m [97] = [7 \<mapsto> toy_doc]"
    using inserts_commit [OF toy_store_inv toy_store_map toy_draws toy_fts(2,1,3) toy_chars _ toy_insert_facts(1-5)]
    by (auto simp: toy_fts toy_indexed)
  obtain st runs where st: "steps_to toy_externals toy_store Map.empty st runs m" "next_sst_id st \<le> 2"
    "store_size st runs \<le> store_size toy_store [] + kvs_size (key_batch toy_ops)"
    using m(1) by (auto simp: commits_def)
  have "store_size toy_store [] = 0" by (simp add: store_size_def runs_size_def toy_store_def mt_new_def)
  then have "roomy st runs (2 ^ 20)" using st(2,3) toy_insert_facts(6) by (simp add: roomy_def STORE_LIMIT_def)
  then show ?thesis using that [of st runs m] st(1) m(2-4) by (simp add: steps_to_def)
qed

theorem fts_insert_refines_witness:
  "\<exists>m' extra. commits toy_externals toy_store [] Map.empty
     (obind (stage_insert_many toy_unicode toy_externals [97] [(7, [97, 98, 32, 97, 98])] []) (apply_batch toy_externals toy_rnd)) () m' extra
   \<and> fts_ok m' [97] \<and> corpus_of m' [97] = [7 \<mapsto> toy_doc]"
  using fts_insert_refines [OF toy_store_inv toy_store_map toy_draws toy_fts(2,1,3) toy_chars _ toy_insert_facts(1-5)]
  by (auto simp: toy_fts toy_indexed)

lemma toy_delete_facts:
  assumes "corpus_of m [97] = [7 \<mapsto> toy_doc]" "roomy st runs (2 ^ 20)"
  shows "length (delete_many_ops [97] m [9, 7, 7]) \<le> MAX_BATCH_OPS"
    "roomy st runs (kvs_size (key_batch (delete_many_ops [97] m [9, 7, 7])))"
proof -
  have ops: "delete_many_ops [97] m [9, 7, 7] = delete_ops [97] (7, toy_doc) @ stats_ops [97] (uncount_doc toy_doc (stats_of m [97])) True"
    by (simp add: delete_many_ops_def assms(1))
  show "length (delete_many_ops [97] m [9, 7, 7]) \<le> MAX_BATCH_OPS"
    by (simp add: ops delete_ops_def stats_ops_def toy_doc_def MAX_BATCH_OPS_def)
  have "kvs_size (key_batch (delete_many_ops [97] m [9, 7, 7])) \<le> 2 ^ 20"
    by (simp add: ops delete_ops_def stats_ops_def toy_doc_def entry_wire_size_def key_bytes_def lp_def space_defs
        ascii_def encode_fts_stats_def)
  then show "roomy st runs (kvs_size (key_batch (delete_many_ops [97] m [9, 7, 7])))"
    using assms(2) by (simp add: roomy_def)
qed

theorem fts_delete_refines_witness:
  "\<exists>st runs m m' extra. corpus_of m [97] = [7 \<mapsto> toy_doc]
     \<and> commits toy_externals st runs m (obind (stage_delete_many toy_externals [97] [9, 7, 7] []) (apply_batch toy_externals toy_rnd)) () m' extra
     \<and> fts_ok m' [97] \<and> corpus_of m' [97] = Map.empty"
proof -
  obtain st runs m where s: "store_inv toy_externals st runs" "store_map runs (memtable st) = m" "typed_map m" "fts_ok m [97]"
    "corpus_of m [97] = [7 \<mapsto> toy_doc]" "roomy st runs (2 ^ 20)"
    by (rule toy_inserted)
  have none: "[7 \<mapsto> toy_doc] |` (- set [9, 7, 7]) = Map.empty" by (auto simp: restrict_map_def)
  have "\<exists>m' extra. commits toy_externals st runs m
      (obind (stage_delete_many toy_externals [97] [9, 7, 7] []) (apply_batch toy_externals toy_rnd)) () m' extra
      \<and> fts_ok m' [97] \<and> corpus_of m' [97] = Map.empty"
    using fts_delete_refines [OF s(1,2) toy_draws s(3) toy_fts(1) s(4) refl toy_delete_facts [OF s(5,6)]]
    unfolding s(5) none by blast
  then show ?thesis using s(5) by blast
qed

definition toy_floats :: float_ops where
  "toy_floats = \<lparr>fl_of_u64 = id, fl_of_u32 = ucast, fl_add = (+), fl_sub = (-), fl_mul = (*), fl_div = (div), fl_ln = id, fl_narrow = ucast\<rparr>"

theorem search_bm25_correct_witness:
  "\<exists>st st' x. search_bm25 toy_floats toy_externals [97] [34, 97, 98, 34] 3 st = (Inr [(7, x)], st')"
proof -
  obtain st runs m where s: "store_inv toy_externals st runs" "store_map runs (memtable st) = m" "typed_map m" "fts_ok m [97]"
    "corpus_of m [97] = [7 \<mapsto> toy_doc]" "roomy st runs (2 ^ 20)"
    by (rule toy_inserted)
  have parse: "parse_match_expr [34, 97, 98, 34] = Inr [[97, 98]]"
    using split_or_token(2) [of "[34, 97, 98, 34]"]
    by (simp add: parse_match_expr_def parse_segment_def fold_token_def fold_char_def QUOTE_def)
  have "\<forall>t \<in> set [[97, 98]]. name_fits (utf8 t)" by (simp add: name_fits_def utf8_char_def)
  from search_bm25_correct [OF s(1-3) toy_fts(1) s(4) parse this, of toy_floats 3] obtain R st' where
    R: "search_bm25 toy_floats toy_externals [97] [34, 97, 98, 34] 3 st = (Inr (map (\<lambda>(i, x). (i, fl_narrow toy_floats x)) (take 3 R)), st')"
    "sorted_wrt ranks_before R" "fst ` set R = hits_of [7 \<mapsto> toy_doc] [97, 98]"
    "set R = {(i, x). bm25_score toy_floats (stats_of m [97]) [7 \<mapsto> toy_doc] [[97, 98]] i = Some x}"
    by (auto simp: s(5) utf8_char_def)
  have "hits_of [7 \<mapsto> toy_doc] [97, 98] = {7}" by (auto simp: hits_of_def posting_in_def tf_of_def toy_doc_def split: if_splits)
  then have R7: "fst ` set R = {7}" using R(3) by simp
  obtain a R' where "R = a # R'" using R7 by (cases R) auto
  moreover have "R' = []"
  proof (cases R')
    case (Cons b R'')
    then have "fst a = 7" "fst b = 7" "ranks_before a b" "a \<in> set R" "b \<in> set R"
      using R7 R(2) \<open>R = a # R'\<close> by auto
    then show ?thesis by (cases a, cases b) (simp add: R(4) ranks_before_def)
  qed
  ultimately have "R = [(7, snd a)]" using R7 by (cases a) simp
  then show ?thesis using R(1) by auto
qed

theorem fts_stats_heal_witness:
  "\<exists>st st' m. fts_load_stats toy_externals [97] st = (Inr (stats_of m [97]), st') \<and> corpus_of m [97] = [7 \<mapsto> toy_doc]
     \<and> (\<exists>runs. store_map runs (memtable st) (key_bytes (KFtsMeta [97])) = Some [1])"
proof -
  obtain st runs m where s: "store_inv toy_externals st runs" "store_map runs (memtable st) = m" "typed_map m" "fts_ok m [97]"
    "corpus_of m [97] = [7 \<mapsto> toy_doc]" "roomy st runs (2 ^ 20)"
    by (rule toy_inserted)
  have "roomy st runs (entry_wire_size (key_bytes (KFtsMeta [97]), Some [1]))"
    using s(6) by (simp add: roomy_def entry_wire_size_def key_bytes_def lp_def FTS_META_PREFIX_def ascii_def)
  from commits_put [OF s(1,2) this toy_draws]
  obtain st1 runs1 where st1: "store_inv toy_externals st1 runs1"
    "store_map runs1 (memtable st1) = m(key_bytes (KFtsMeta [97]) \<mapsto> [1])"
    by (auto simp: commits_def steps_to_def)
  have "decode_fts_stats [1] = Inl (Corrupt FtsStats)" by (simp add: decode_fts_stats_def block_open_def STATS_LEN_def)
  from fts_stats_heal [OF s(3) toy_fts(1) s(4) st1 this]
  obtain st' where "fts_load_stats toy_externals [97] st1 = (Inr (stats_of m [97]), st')" by blast
  moreover have "store_map runs1 (memtable st1) (key_bytes (KFtsMeta [97])) = Some [1]" by (simp add: st1(2))
  ultimately show ?thesis using s(5) by blast
qed

end
