(* ===== verification/Index_Chunks.thy ===== *)
theory Index_Chunks
  imports Index_Store
begin

text \<open>
  Operations of an index that keeps a handle beside the store, and operations made of several
  batches. \<open>passes\<close> generalises \<open>steps_to\<close>: a crash on the way may leave any map of a set
  behind, so that operations compose by union; \<open>achieves\<close> is the contract of a write over store
  and handle. A file of chunks is written batch by batch.
\<close>

subsection \<open>Operations over a store and a handle\<close>

definition on_store :: "(store, 'a) op \<Rightarrow> (store \<times> 'h, 'a) op" where
  "on_store p = (\<lambda>(s, h). case p s of (r, s') \<Rightarrow> (r, (s', h)))"

definition handle :: "(store \<times> 'h, 'h) op" where
  "handle = (\<lambda>(s, h). (Inr h, (s, h)))"

definition set_handle :: "'h \<Rightarrow> (store \<times> 'h, unit) op" where
  "set_handle h' = (\<lambda>(s, h). (Inr (), (s, h')))"

text \<open>The part of a larger handle a component works on.\<close>

definition on_part :: "('h \<Rightarrow> 'p) \<Rightarrow> ('p \<Rightarrow> 'h \<Rightarrow> 'h) \<Rightarrow> (store \<times> 'p, 'a) op \<Rightarrow> (store \<times> 'h, 'a) op" where
  "on_part part put p = (\<lambda>(s, h). case p (s, part h) of (r, (s', x)) \<Rightarrow> (r, (s', put x h)))"

subsection \<open>Several atomic steps\<close>

definition passes :: "externals \<Rightarrow> store \<Rightarrow> (bytes \<rightharpoonup> bytes) set \<Rightarrow> store \<Rightarrow> run list \<Rightarrow> (bytes \<rightharpoonup> bytes) \<Rightarrow> bool" where
  "passes X st ms st' runs' m' \<longleftrightarrow> store_inv X st' runs' \<and> store_map runs' (memtable st') = m'
     \<and> crypto st' = crypto st \<and> options st' = options st \<and> d_crypto_meta (disk st') = d_crypto_meta (disk st)
     \<and> (\<exists>fs. trace st' = trace st @ fs \<and> disk st' = fold apply_disk_op fs (disk st)
          \<and> (\<forall>d \<in> crash_states (disk st) fs. recovers_to X st ms d))"

lemma passes_steps: "steps_to X st m st' runs' m' \<longleftrightarrow> passes X st {m, m'} st' runs' m'"
  by (simp add: steps_to_def passes_def)

lemma passes_mono: "passes X st ms st' runs' m' \<Longrightarrow> ms \<subseteq> ms' \<Longrightarrow> passes X st ms' st' runs' m'"
  unfolding passes_def recovers_to_def by blast

lemma passes_trans:
  assumes "passes X st ms st1 runs1 m1" "passes X st1 ms st2 runs2 m2"
  shows "passes X st ms st2 runs2 m2"
proof -
  obtain fs where fs: "trace st1 = trace st @ fs" "disk st1 = fold apply_disk_op fs (disk st)"
    "\<forall>d \<in> crash_states (disk st) fs. recovers_to X st ms d"
    using assms(1) by (auto simp: passes_def)
  obtain gs where gs: "trace st2 = trace st1 @ gs" "disk st2 = fold apply_disk_op gs (disk st1)"
    "\<forall>d \<in> crash_states (disk st1) gs. recovers_to X st1 ms d"
    using assms(2) by (auto simp: passes_def)
  have same: "crypto st1 = crypto st" "d_crypto_meta (disk st1) = d_crypto_meta (disk st)"
    using assms(1) by (simp_all add: passes_def)
  have "\<forall>d \<in> crash_states (disk st) (fs @ gs). recovers_to X st ms d"
    using fs gs(3) same unfolding crash_states_append fs(2) [symmetric] recovers_to_def by auto
  then show ?thesis using assms fs gs unfolding passes_def by (auto intro!: exI [of _ "fs @ gs"])
qed

lemma passes_refl: "store_inv X st runs \<Longrightarrow> store_map runs (memtable st) = m \<Longrightarrow> m \<in> ms \<Longrightarrow> passes X st ms st runs m"
  using steps_to_refl [of X st runs m] passes_mono [of X st "{m, m}"] by (simp add: passes_steps)

text \<open>
  The contract of a write: from the map \<open>m\<close> and a handle, the operation returns \<open>r\<close>, leaves the map
  \<open>m'\<close> and a handle that satisfies \<open>H\<close>, grows the store by at most \<open>extra\<close> bytes and \<open>n\<close>
  batches, and a crash on the way recovers to a map of \<open>ms\<close>.
\<close>

definition at :: "externals \<Rightarrow> (bytes \<rightharpoonup> bytes) \<Rightarrow> ('h \<Rightarrow> bool) \<Rightarrow> run list \<Rightarrow> store \<times> 'h \<Rightarrow> bool" where
  "at X m H runs = (\<lambda>(st, h). store_inv X st runs \<and> store_map runs (memtable st) = m \<and> H h)"

definition achieves :: "externals \<Rightarrow> (bytes \<rightharpoonup> bytes) set \<Rightarrow> run list \<Rightarrow> store \<times> 'h \<Rightarrow> (store \<times> 'h, 'a) op \<Rightarrow> 'a \<Rightarrow>
    (bytes \<rightharpoonup> bytes) \<Rightarrow> ('h \<Rightarrow> bool) \<Rightarrow> nat \<Rightarrow> nat \<Rightarrow> bool" where
  "achieves X ms runs sh p r m' H extra n \<longleftrightarrow>
     (\<exists>st' runs' h'. p sh = (Inr r, (st', h')) \<and> passes X (fst sh) ms st' runs' m' \<and> H h'
        \<and> store_size st' runs' \<le> store_size (fst sh) runs + extra \<and> next_sst_id st' \<le> next_sst_id (fst sh) + 2 * n)"

text \<open>Room for \<open>extra\<close> bytes in \<open>n\<close> batches.\<close>

definition room_for :: "store \<Rightarrow> run list \<Rightarrow> nat \<Rightarrow> nat \<Rightarrow> bool" where
  "room_for st runs extra n \<longleftrightarrow> store_size st runs + extra < STORE_LIMIT \<and> next_sst_id st + 2 * n \<le> 2 ^ 64"

lemma roomy_room: "roomy st runs extra \<longleftrightarrow> room_for st runs extra 1"
  by (simp add: roomy_def room_for_def)

lemma room_mono: "room_for st runs e n \<Longrightarrow> e' \<le> e \<Longrightarrow> n' \<le> n \<Longrightarrow> room_for st runs e' n'"
  by (simp add: room_for_def)

lemma achieves_ret: "at X m H runs sh \<Longrightarrow> m \<in> ms \<Longrightarrow> achieves X ms runs sh (oret r) r m H extra n"
  unfolding achieves_def at_def oret_def using passes_refl [of X "fst sh" runs m ms] by (cases sh) auto

lemma achieves_mono:
  assumes "achieves X ms runs sh p r m' H e n" "ms \<subseteq> ms'" "\<And>h. H h \<Longrightarrow> H' h" "e \<le> e'" "n \<le> n'"
  shows "achieves X ms' runs sh p r m' H' e' n'"
proof -
  obtain st' runs' h' where s: "p sh = (Inr r, (st', h'))" "passes X (fst sh) ms st' runs' m'" "H h'"
    "store_size st' runs' \<le> store_size (fst sh) runs + e" "next_sst_id st' \<le> next_sst_id (fst sh) + 2 * n"
    using assms(1) by (auto simp: achieves_def)
  then show ?thesis using passes_mono [OF s(2) assms(2)] assms(3-5) unfolding achieves_def
    by (intro exI [of _ st'] exI [of _ runs'] exI [of _ h']) simp
qed

lemma achieves_at: "achieves X ms runs sh p r m' H e n \<Longrightarrow> \<exists>sh' runs'. p sh = (Inr r, sh') \<and> at X m' H runs' sh'"
  unfolding achieves_def at_def passes_def by fastforce

lemma achieves_bind:
  assumes "achieves X ms runs sh p x m1 H1 e1 n1"
    and "\<And>sh' runs'. at X m1 H1 runs' sh' \<Longrightarrow> crypto (fst sh') = crypto (fst sh) \<Longrightarrow>
      (\<And>e n. room_for (fst sh) runs (e1 + e) (n1 + n) \<Longrightarrow> room_for (fst sh') runs' e n) \<Longrightarrow> achieves X ms runs' sh' (k x) r m2 H2 e2 n2"
    and "e1 + e2 \<le> e" "n1 + n2 \<le> n"
  shows "achieves X ms runs sh (obind p k) r m2 H2 e n"
proof -
  obtain st1 runs1 h1 where s: "p sh = (Inr x, (st1, h1))" "passes X (fst sh) ms st1 runs1 m1" "H1 h1"
    "store_size st1 runs1 \<le> store_size (fst sh) runs + e1" "next_sst_id st1 \<le> next_sst_id (fst sh) + 2 * n1"
    using assms(1) by (auto simp: achieves_def)
  have "at X m1 H1 runs1 (st1, h1)" "crypto st1 = crypto (fst sh)" using s(2,3) by (simp_all add: at_def passes_def)
  moreover have "room_for (fst sh) runs (e1 + e') (n1 + n') \<Longrightarrow> room_for st1 runs1 e' n'" for e' n'
    using s(4,5) by (simp add: room_for_def)
  ultimately obtain st2 runs2 h2 where t: "k x (st1, h1) = (Inr r, (st2, h2))" "passes X st1 ms st2 runs2 m2" "H2 h2"
    "store_size st2 runs2 \<le> store_size st1 runs1 + e2" "next_sst_id st2 \<le> next_sst_id st1 + 2 * n2"
    using assms(2) [of runs1 "(st1, h1)"] by (auto simp: achieves_def)
  have "passes X (fst sh) ms st2 runs2 m2" by (rule passes_trans [OF s(2) t(2)])
  then show ?thesis using s(1,4,5) t(1,3-5) assms(3,4) unfolding achieves_def obind_def
    by (intro exI [of _ st2] exI [of _ runs2] exI [of _ h2]) simp
qed

subsection \<open>Reads over a store and a handle\<close>

text \<open>The store denotes \<open>m\<close> and differs from \<open>st\<close> only in its block cache; the handle satisfies \<open>H\<close>.\<close>

definition peeks_with :: "externals \<Rightarrow> run list \<Rightarrow> store \<Rightarrow> (bytes \<rightharpoonup> bytes) \<Rightarrow> ('h \<Rightarrow> bool) \<Rightarrow> store \<times> 'h \<Rightarrow> bool" where
  "peeks_with X runs st m H = (\<lambda>(s, h). peeks X runs st m s \<and> H h)"

lemma reads_on_store: "reads (peeks X runs st m) p r \<Longrightarrow> reads (peeks_with X runs st m H) (on_store p) r"
  unfolding reads_def peeks_with_def on_store_def by (fastforce split: prod.split)

lemma reads_obind_Inl: "reads I p (Inl e) \<Longrightarrow> reads I (obind p k) (Inl e)"
  using reads_obind [of I p "Inl e" k "\<lambda>_. Inl e"] by simp

lemma peeks_with_refl: "at X m H runs (st, h) \<Longrightarrow> peeks_with X runs st m H (st, h)"
  using peeks_refl by (auto simp: at_def peeks_with_def)

lemma peeks_passes:
  assumes "peeks X runs st m s"
  shows "passes X s ms st' runs' m' \<longleftrightarrow> passes X st ms st' runs' m'" "store_size s runs = store_size st runs"
    "next_sst_id s = next_sst_id st" "crypto s = crypto st" "room_for s runs e n \<longleftrightarrow> room_for st runs e n"
  using assms by (auto simp: peeks_def passes_def recovers_to_def store_size_def room_for_def)

lemma achieves_after_read:
  assumes "reads (peeks_with X runs (fst sh) m H) p (Inr x)" "at X m H runs sh"
    and "\<And>sh'. peeks_with X runs (fst sh) m H sh' \<Longrightarrow> at X m H runs sh' \<Longrightarrow> crypto (fst sh') = crypto (fst sh) \<Longrightarrow>
      (\<And>e n. room_for (fst sh) runs e n \<Longrightarrow> room_for (fst sh') runs e n) \<Longrightarrow> achieves X ms runs sh' (k x) r m' H' e n"
  shows "achieves X ms runs sh (obind p k) r m' H' e n"
proof -
  obtain st h where sh: "sh = (st, h)" by (cases sh)
  obtain s h1 where s: "p sh = (Inr x, (s, h1))" "peeks X runs st m s" "H h1"
    using readsD [OF assms(1), of sh] peeks_with_refl [of X m H runs st h] assms(2) by (auto simp: sh peeks_with_def)
  have "at X m H runs (s, h1)" using s(2,3) by (simp add: at_def peeks_def)
  then have "achieves X ms runs (s, h1) (k x) r m' H' e n"
    using assms(3) [of "(s, h1)"] s(2,3) peeks_passes(4,5) [OF s(2)] by (simp add: sh peeks_with_def)
  then show ?thesis using s(1) peeks_passes [OF s(2)] by (auto simp: achieves_def obind_def sh)
qed

lemma achieves_set_handle: "at X m H0 runs sh \<Longrightarrow> H h \<Longrightarrow> m \<in> ms \<Longrightarrow> achieves X ms runs sh (set_handle h) () m H e n"
  unfolding achieves_def at_def set_handle_def using passes_refl [of X "fst sh" runs m ms] by (cases sh) auto

lemma achieves_obind_oret: "achieves X ms runs sh (obind (oret x) k) r m H e n \<longleftrightarrow> achieves X ms runs sh (k x) r m H e n"
  by simp

text \<open>One batch of index entries.\<close>

lemma achieves_batch:
  assumes "at X m H runs sh" "draws_ok (crypto (fst sh)) rnd" "room_for (fst sh) runs (kvs_size (key_batch ops)) 1"
    and "length ops \<le> MAX_BATCH_OPS" "{m, apply_keys ops m} \<subseteq> ms"
  shows "achieves X ms runs sh (on_store (apply_batch X rnd (key_batch ops))) () (apply_keys ops m) H (kvs_size (key_batch ops)) 1"
proof -
  obtain st h where sh: "sh = (st, h)" by (cases sh)
  have "commits X st runs m (apply_batch X rnd (key_batch ops)) () (apply_keys ops m) (kvs_size (key_batch ops))"
    using assms(1-4) by (intro commits_keys) (simp_all add: sh at_def roomy_room)
  then obtain st' runs' where "apply_batch X rnd (key_batch ops) st = (Inr (), st')" "passes X st {m, apply_keys ops m} st' runs' (apply_keys ops m)"
    "store_size st' runs' \<le> store_size st runs + kvs_size (key_batch ops)" "next_sst_id st' \<le> next_sst_id st + 2"
    by (auto simp: commits_def passes_steps)
  then show ?thesis using passes_mono [OF _ assms(5)] assms(1)
    unfolding achieves_def sh on_store_def at_def by (intro exI [of _ st'] exI [of _ runs'] exI [of _ h]) auto
qed

subsection \<open>Chunks\<close>

function chunks_of :: "nat \<Rightarrow> 'a list \<Rightarrow> 'a list list" where
  "chunks_of n xs = (if xs = [] \<or> n = 0 then [] else take n xs # chunks_of n (drop n xs))"
  by pat_completeness auto
termination by (relation "measure (length \<circ> snd)") auto

declare chunks_of.simps [simp del]

lemma chunks_of_Nil [simp]: "chunks_of n [] = []"
  by (simp add: chunks_of.simps)

lemma chunks_of_Cons: "0 < n \<Longrightarrow> xs \<noteq> [] \<Longrightarrow> chunks_of n xs = take n xs # chunks_of n (drop n xs)"
  by (simp add: chunks_of.simps)

lemma concat_chunks_of: "0 < n \<Longrightarrow> concat (chunks_of n xs) = xs"
  by (induction n xs rule: chunks_of.induct) (subst chunks_of.simps, auto)

lemma chunks_of_length: "c \<in> set (chunks_of n xs) \<Longrightarrow> length c \<le> n"
  by (induction n xs rule: chunks_of.induct) (subst (asm) chunks_of.simps, auto split: if_splits)

text \<open>Batches one after the other; each draws its own nonces.\<close>

fun write_batches :: "externals \<Rightarrow> (nat \<Rightarrow> nat \<Rightarrow> nat \<Rightarrow> bytes) \<Rightarrow> ('a list \<Rightarrow> batch engine_result) \<Rightarrow> nat \<Rightarrow> 'a list list \<Rightarrow> (store \<times> 'h, nat) op" where
  "write_batches X rnds stage j [] = oret j"
| "write_batches X rnds stage j (c # cs) =
     obind (olift (stage c)) (\<lambda>batch.
     obind (on_store (apply_batch X (rnds j) batch)) (\<lambda>_. write_batches X rnds stage (j + 1) cs))"

text \<open>The maps between the batches of a sequence of chunks.\<close>

fun stages_of :: "('a list \<Rightarrow> key_op list) \<Rightarrow> 'a list list \<Rightarrow> (bytes \<rightharpoonup> bytes) \<Rightarrow> (bytes \<rightharpoonup> bytes) set" where
  "stages_of ops [] m = {m}"
| "stages_of ops (c # cs) m = insert m (stages_of ops cs (apply_keys (ops c) m))"

lemma stages_of_start: "m \<in> stages_of ops cs m"
  by (cases cs) simp_all

lemma stages_of_prefix: "m' \<in> stages_of ops cs m \<Longrightarrow> \<exists>as bs. cs = as @ bs \<and> m' = apply_keys (concat (map ops as)) m"
proof (induction cs arbitrary: m)
  case (Cons c cs)
  show ?case
  proof (cases "m' = m")
    case True
    then show ?thesis by (intro exI [of _ "[]"] exI [of _ "c # cs"]) simp
  next
    case False
    then have "m' \<in> stages_of ops cs (apply_keys (ops c) m)" using Cons.prems by simp
    from Cons.IH [OF this] obtain as bs where "cs = as @ bs" "m' = apply_keys (concat (map ops as)) (apply_keys (ops c) m)"
      by blast
    then show ?thesis by (intro exI [of _ "c # as"] exI [of _ bs]) simp
  qed
qed simp

definition batches_size :: "('a list \<Rightarrow> key_op list) \<Rightarrow> 'a list list \<Rightarrow> nat" where
  "batches_size ops cs = kvs_size (key_batch (concat (map ops cs)))"

lemma batches_size_simps [simp]:
  "batches_size ops [] = 0" "batches_size ops (c # cs) = kvs_size (key_batch (ops c)) + batches_size ops cs"
  by (simp_all add: batches_size_def)

lemma write_batches_achieves:
  assumes "at X m H runs sh" "\<And>j. draws_ok (crypto (fst sh)) (rnds j)"
    and "\<And>c. c \<in> set cs \<Longrightarrow> stage c = Inr (key_batch (ops c)) \<and> length (ops c) \<le> MAX_BATCH_OPS"
    and "room_for (fst sh) runs (batches_size ops cs) (length cs)" "stages_of ops cs m \<subseteq> ms"
  shows "achieves X ms runs sh (write_batches X rnds stage j cs) (j + length cs) (apply_keys (concat (map ops cs)) m) H
    (batches_size ops cs) (length cs)"
  using assms
proof (induction cs arbitrary: m runs sh j)
  case Nil
  then show ?case by (simp add: achieves_ret)
next
  case (Cons c cs)
  let ?m = "apply_keys (ops c) m" and ?n = "kvs_size (key_batch (ops c))"
  have stage: "stage c = Inr (key_batch (ops c))" and len: "length (ops c) \<le> MAX_BATCH_OPS"
    using Cons.prems(3) by auto
  have one: "achieves X ms runs sh (on_store (apply_batch X (rnds j) (key_batch (ops c)))) () ?m H ?n 1"
  proof (rule achieves_batch [OF Cons.prems(1,2) _ len])
    show "room_for (fst sh) runs ?n 1" by (rule room_mono [OF Cons.prems(4)]) simp_all
    show "{m, ?m} \<subseteq> ms" using Cons.prems(5) stages_of_start [of ?m ops cs] by auto
  qed
  have "achieves X ms runs sh (obind (on_store (apply_batch X (rnds j) (key_batch (ops c)))) (\<lambda>_. write_batches X rnds stage (j + 1) cs))
    (j + 1 + length cs) (apply_keys (concat (map ops cs)) ?m) H (batches_size ops (c # cs)) (length (c # cs))"
  proof (rule achieves_bind [OF one])
    fix sh' runs'
    assume at: "at X ?m H runs' sh'" and cr: "crypto (fst sh') = crypto (fst sh)"
      and room: "\<And>e n. room_for (fst sh) runs (?n + e) (1 + n) \<Longrightarrow> room_for (fst sh') runs' e n"
    show "achieves X ms runs' sh' (write_batches X rnds stage (j + 1) cs) (j + 1 + length cs) (apply_keys (concat (map ops cs)) ?m) H
        (batches_size ops cs) (length cs)"
      by (rule Cons.IH [OF at]) (use Cons.prems cr room [of "batches_size ops cs" "length cs"] in simp_all)
  qed simp_all
  then show ?case by (simp add: stage)
qed

text \<open>The maps a chunked write passes are those of its prefixes.\<close>

lemma chunked_stages:
  assumes "0 < n" "\<And>cs. ops' (concat cs) = concat (map ops' cs)" "m'' \<in> stages_of ops' (chunks_of n xs) m"
  shows "\<exists>ys zs. xs = ys @ zs \<and> m'' = apply_keys (ops' ys) m"
proof -
  obtain as bs where "chunks_of n xs = as @ bs" "m'' = apply_keys (concat (map ops' as)) m" using stages_of_prefix [OF assms(3)] by blast
  then show ?thesis using concat_chunks_of [OF assms(1), of xs] assms(2) [of as]
    by (intro exI [of _ "concat as"] exI [of _ "concat bs"]) simp
qed

lemma length_chunks_of: "0 < n \<Longrightarrow> length (chunks_of n xs) \<le> length xs"
proof (induction n xs rule: chunks_of.induct)
  case (1 n xs)
  show ?case
  proof (cases "xs = []")
    case False
    then have "length (chunks_of n (drop n xs)) \<le> length xs - n" using 1 by simp
    moreover have "Suc (length xs - n) \<le> length xs" using False 1(2) by (cases xs) auto
    ultimately show ?thesis using False 1(2) by (subst chunks_of_Cons) simp_all
  qed simp
qed

lemma achieves_handle: "achieves X ms runs sh (obind handle k) r m H e n \<longleftrightarrow> achieves X ms runs sh (k (snd sh)) r m H e n"
  by (cases sh) (simp add: achieves_def obind_def handle_def)

lemma achieves_olift: "achieves X ms runs sh (obind (olift (Inr x)) k) r m H e n \<longleftrightarrow> achieves X ms runs sh (k x) r m H e n"
  by simp

text \<open>A change of the handle alone.\<close>

lemma achieves_modify:
  assumes "at X m H0 runs sh" "\<And>s h. p (s, h) = (Inr r, (s, f h))" "\<And>h. H0 h \<Longrightarrow> H (f h)" "m \<in> ms"
  shows "achieves X ms runs sh p r m H e n"
proof -
  obtain st h where sh: "sh = (st, h)" by (cases sh)
  then show ?thesis using assms passes_refl [of X st runs m ms] unfolding achieves_def at_def by auto
qed

text \<open>A batch and the change of the handle that follows it.\<close>

lemma achieves_batch_then:
  assumes "at X m H0 runs sh" "draws_ok (crypto (fst sh)) rnd" "room_for (fst sh) runs (kvs_size (key_batch ops)) 1"
    and "length ops \<le> MAX_BATCH_OPS" "{m, apply_keys ops m} \<subseteq> ms"
    and "\<And>s h. k () (s, h) = (Inr r, (s, f h))" "\<And>h. H0 h \<Longrightarrow> H (f h)" "kvs_size (key_batch ops) \<le> e"
  shows "achieves X ms runs sh (obind (on_store (apply_batch X rnd (key_batch ops))) k) r (apply_keys ops m) H e 1"
proof (rule achieves_bind [OF achieves_batch [OF assms(1-5)]])
  fix sh' runs' assume at: "at X (apply_keys ops m) H0 runs' sh'"
  show "achieves X ms runs' sh' (k ()) r (apply_keys ops m) H 0 0"
    by (rule achieves_modify [OF at, where f = f]) (use assms(5-7) in simp_all)
qed (use assms(8) in simp_all)

end
