(* ===== verification/Vector_Graph.thy ===== *)
theory Vector_Graph
  imports Index_Ops "HOL-Library.Product_Lexorder"
begin

text \<open>
  The Vamana graph algorithms (\<open>idx/vector/graph.rs\<close>, \<open>idx/vector/distance.rs\<close>), written as in
  the code against the trait \<open>NodeProvider\<close>: greedy beam search, robust prune, the planning of
  an insertion over an overlay, and the planning of a repair. A provider is an operation that
  reads a node by id; \<open>simulates\<close> says that two operations return the same under related states,
  and every algorithm takes related providers to related results (\<open>sim_*\<close>), which is why the
  in-RAM and the persisted index cannot drift apart. Single-precision arithmetic is external
  (\<open>f32_ops\<close>); nothing is assumed about it.
\<close>

subsection \<open>Arithmetic and distance\<close>

record f32_ops =
  f_add :: "f32 \<Rightarrow> f32 \<Rightarrow> f32"
  f_sub :: "f32 \<Rightarrow> f32 \<Rightarrow> f32"
  f_mul :: "f32 \<Rightarrow> f32 \<Rightarrow> f32"
  f_div :: "f32 \<Rightarrow> f32 \<Rightarrow> f32"
  f_sqrt :: "f32 \<Rightarrow> f32"
  f_le :: "f32 \<Rightarrow> f32 \<Rightarrow> bool"
  f_gt :: "f32 \<Rightarrow> f32 \<Rightarrow> bool"

definition F32_0 :: f32 where "F32_0 = 0"
definition F32_1 :: f32 where "F32_1 = 0x3F800000"
definition F32_EPSILON :: f32 where "F32_EPSILON = 0x34000000"

definition cosine_distance :: "f32_ops \<Rightarrow> f32 list \<Rightarrow> f32 list \<Rightarrow> f32" where
  "cosine_distance F a b =
     (let (dot, norm_a, norm_b) = fold (\<lambda>(x, y) (dot, norm_a, norm_b).
            (f_add F dot (f_mul F x y), f_add F norm_a (f_mul F x x), f_add F norm_b (f_mul F y y)))
          (zip a b) (F32_0, F32_0, F32_0);
          denom = f_sqrt F (f_mul F norm_a norm_b)
      in if f_le F denom F32_EPSILON then F32_1 else f_sub F F32_1 (f_div F dot denom))"

text \<open>The order of \<open>f32::total_cmp\<close>, and the stable sort by it.\<close>

definition dist_key :: "f32 \<Rightarrow> int" where
  "dist_key x = sint (if bit x 31 then x XOR 0x7FFFFFFF else x)"

type_synonym scored = "(u64 \<times> f32) list"

definition by_distance :: "scored \<Rightarrow> scored" where
  "by_distance = sort_key (\<lambda>(i, d). dist_key d)"

subsection \<open>Providers\<close>

type_synonym 's node_provider = "u64 \<Rightarrow> ('s, vector_node option) op"
type_synonym pending = "(u64 \<times> vector_node) list"

definition live_node :: "f32 list \<Rightarrow> u64 list \<Rightarrow> vector_node" where
  "live_node vector neighbors = \<lparr>vn_vector = vector, vn_neighbors = neighbors, vn_deleted = False\<rparr>"

definition overlay_node :: "'s node_provider \<Rightarrow> ('s \<times> pending) node_provider" where
  "overlay_node node i = (\<lambda>(s, changed). case map_of changed i of
     Some n \<Rightarrow> (Inr (Some n), (s, changed))
   | None \<Rightarrow> (case node i s of (r, s') \<Rightarrow> (r, (s', changed))))"

definition overlay_put :: "u64 \<Rightarrow> vector_node \<Rightarrow> ('s \<times> pending, unit) op" where
  "overlay_put i n = (\<lambda>(s, changed). (Inr (), (s, om_insert i n changed)))"

text \<open>Run an operation over a fresh overlay and take what it changed.\<close>

definition with_overlay :: "('s \<times> pending, 'a) op \<Rightarrow> ('s, 'a \<times> pending) op" where
  "with_overlay p s = (case p (s, []) of (r, (s', changed)) \<Rightarrow> (map_sum id (\<lambda>x. (x, changed)) r, s'))"

subsection \<open>Greedy search\<close>

definition offer :: "f32_ops \<Rightarrow> 's node_provider \<Rightarrow> f32 list \<Rightarrow> u64 \<Rightarrow> u64 set \<times> scored \<Rightarrow> ('s, u64 set \<times> scored) op" where
  "offer F node query neighbor_id = (\<lambda>(seen, frontier).
     if neighbor_id \<in> seen then oret (seen, frontier)
     else obind (node neighbor_id) (\<lambda>found. oret (insert neighbor_id seen, case found of
            None \<Rightarrow> frontier
          | Some state \<Rightarrow> frontier @ [(neighbor_id, cosine_distance F query (vn_vector state))])))"

text \<open>Ids are 64-bit words and every iteration expands a new one, so the loop ends.\<close>

lemma expanded_decreases:
  assumes "find (\<lambda>(i, d). i \<notin> expanded) frontier = Some (current, dist)"
  shows "card (UNIV - insert current expanded :: u64 set) < card (UNIV - expanded)"
proof -
  have "current \<notin> expanded" using assms by (auto simp: find_Some_iff)
  then show ?thesis by (intro psubset_card_mono) auto
qed

function greedy_loop ::
  "f32_ops \<Rightarrow> 's node_provider \<Rightarrow> f32 list \<Rightarrow> nat \<Rightarrow> u64 set \<Rightarrow> u64 set \<Rightarrow> scored \<Rightarrow> scored \<Rightarrow> ('s, scored \<times> scored) op" where
  "greedy_loop F node query beam seen expanded frontier visited =
     (case find (\<lambda>(i, d). i \<notin> expanded) frontier of
        None \<Rightarrow> oret (frontier, visited)
      | Some (current, dist) \<Rightarrow>
          obind (node current) (\<lambda>found. case found of
            None \<Rightarrow> greedy_loop F node query beam seen (insert current expanded) frontier (visited @ [(current, dist)])
          | Some state \<Rightarrow>
              obind (ofold (offer F node query) (vn_neighbors state) (seen, frontier)) (\<lambda>(seen, frontier).
                greedy_loop F node query beam seen (insert current expanded) (take beam (by_distance frontier))
                  (visited @ [(current, dist)]))))"
  by pat_completeness auto
termination
  by (relation "measure (\<lambda>(F, node, query, beam, seen, expanded, frontier, visited). card (UNIV - expanded))")
    (auto intro: expanded_decreases)

declare greedy_loop.simps [simp del]

definition greedy_search ::
  "f32_ops \<Rightarrow> 's node_provider \<Rightarrow> u64 \<Rightarrow> f32 list \<Rightarrow> nat \<Rightarrow> ('s, scored \<times> scored) op" where
  "greedy_search F node entry query beam =
     obind (node entry) (\<lambda>found. case found of
       None \<Rightarrow> oret ([], [])
     | Some entry_state \<Rightarrow>
         greedy_loop F node query beam {entry} {} [(entry, cosine_distance F query (vn_vector entry_state))] [])"

fun live_results :: "'s node_provider \<Rightarrow> nat \<Rightarrow> scored \<Rightarrow> scored \<Rightarrow> ('s, scored) op" where
  "live_results node k [] out = oret out"
| "live_results node k ((i, d) # frontier) out =
     obind (node i) (\<lambda>found.
       if (case found of None \<Rightarrow> False | Some n \<Rightarrow> \<not> vn_deleted n)
       then (if length (out @ [(i, d)]) = k then oret (out @ [(i, d)]) else live_results node k frontier (out @ [(i, d)]))
       else live_results node k frontier out)"

definition search_live_scored ::
  "f32_ops \<Rightarrow> 's node_provider \<Rightarrow> u64 \<Rightarrow> f32 list \<Rightarrow> nat \<Rightarrow> nat \<Rightarrow> ('s, scored) op" where
  "search_live_scored F node entry query beam k =
     obind (greedy_search F node entry query beam) (\<lambda>(frontier, visited). live_results node k frontier [])"

subsection \<open>Robust prune\<close>

text \<open>\<open>dedup_by_key\<close>: of a run of equal ids the first stays.\<close>

fun dedup_by_id :: "scored \<Rightarrow> scored" where
  "dedup_by_id [] = []"
| "dedup_by_id [x] = [x]"
| "dedup_by_id (x # y # xs) = (if fst x = fst y then dedup_by_id (x # xs) else x # dedup_by_id (y # xs))"

definition prefetch ::
  "'s node_provider \<Rightarrow> u64 \<times> f32 \<Rightarrow> (u64 \<times> f32 list) list \<times> scored \<Rightarrow> ('s, (u64 \<times> f32 list) list \<times> scored) op" where
  "prefetch node = (\<lambda>(i, dist) (vectors, pool).
     obind (node i) (\<lambda>found. case found of
       None \<Rightarrow> oret (vectors, pool)
     | Some n \<Rightarrow> if vn_deleted n then oret (vectors, pool)
                 else oret (om_insert i (vn_vector n) vectors, pool @ [(i, dist)])))"

function prune_loop ::
  "f32_ops \<Rightarrow> nat \<Rightarrow> f32 \<Rightarrow> (u64 \<times> f32 list) list \<Rightarrow> scored \<Rightarrow> u64 list \<Rightarrow> u64 list" where
  "prune_loop F max_degree alpha vectors pool result =
     (case pool of [] \<Rightarrow> result
      | (best, _) # _ \<Rightarrow>
          if length (result @ [best]) \<ge> max_degree then result @ [best]
          else
            let best_vector = the (map_of vectors best)
            in prune_loop F max_degree alpha vectors
                 (filter (\<lambda>(i, dist_to_base). i \<noteq> best \<and> (case map_of vectors i of
                      None \<Rightarrow> False
                    | Some vector \<Rightarrow> f_gt F (f_mul F alpha (cosine_distance F best_vector vector)) dist_to_base)) pool)
                 (result @ [best]))"
  by pat_completeness auto
termination
  by (relation "measure (\<lambda>(F, max_degree, alpha, vectors, pool, result). length pool)") (auto simp: less_Suc_eq_le)

declare prune_loop.simps [simp del]

definition robust_prune :: "f32_ops \<Rightarrow> vector_index_params \<Rightarrow> 's node_provider \<Rightarrow> scored \<Rightarrow> ('s, u64 list) op" where
  "robust_prune F params node candidates =
     obind (ofold (prefetch node) (dedup_by_id (sort_key fst candidates)) ([], [])) (\<lambda>(vectors, pool).
       oret (prune_loop F (vp_max_degree params) (vp_alpha params) vectors (by_distance pool) []))"

subsection \<open>Planning an insertion\<close>

definition measure_neighbor ::
  "f32_ops \<Rightarrow> 's node_provider \<Rightarrow> u64 \<Rightarrow> f32 list \<Rightarrow> u64 \<Rightarrow> scored \<Rightarrow> ('s, scored) op" where
  "measure_neighbor F node i vector neighbor_id candidates =
     (if neighbor_id = i then oret candidates
      else obind (node neighbor_id) (\<lambda>found. oret (case found of
             None \<Rightarrow> candidates
           | Some state \<Rightarrow> candidates @ [(neighbor_id, cosine_distance F vector (vn_vector state))])))"

definition reprune_node :: "f32_ops \<Rightarrow> vector_index_params \<Rightarrow> 's node_provider \<Rightarrow> u64 \<Rightarrow> ('s \<times> pending, unit) op" where
  "reprune_node F params node i =
     obind (overlay_node node i) (\<lambda>found. case found of
       None \<Rightarrow> oret ()
     | Some state \<Rightarrow>
         obind (ofold (measure_neighbor F (overlay_node node) i (vn_vector state)) (vn_neighbors state) []) (\<lambda>candidates.
         obind (robust_prune F params (overlay_node node) candidates) (\<lambda>pruned.
           overlay_put i \<lparr>vn_vector = vn_vector state, vn_neighbors = pruned, vn_deleted = vn_deleted state\<rparr>)))"

definition link_back ::
  "f32_ops \<Rightarrow> vector_index_params \<Rightarrow> 's node_provider \<Rightarrow> u64 \<Rightarrow> u64 \<Rightarrow> unit \<Rightarrow> ('s \<times> pending, unit) op" where
  "link_back F params node i neighbor_id = (\<lambda>_.
     obind (overlay_node node neighbor_id) (\<lambda>found. case found of
       None \<Rightarrow> oret ()
     | Some state \<Rightarrow>
         let neighbors = (if i \<in> set (vn_neighbors state) then vn_neighbors state else vn_neighbors state @ [i])
         in obind (overlay_put neighbor_id (state\<lparr>vn_neighbors := neighbors\<rparr>)) (\<lambda>_.
              if length neighbors > vp_max_degree params then reprune_node F params node neighbor_id else oret ())))"

definition plan_linked ::
  "f32_ops \<Rightarrow> vector_index_params \<Rightarrow> 's node_provider \<Rightarrow> u64 \<Rightarrow> u64 \<Rightarrow> f32 list \<Rightarrow> ('s \<times> pending, unit) op" where
  "plan_linked F params node entry i vector =
     obind (greedy_search F (overlay_node node) entry vector (vp_beam_width params)) (\<lambda>(frontier, all_visited).
     let visited = filter (\<lambda>(vid, d). vid \<noteq> i) all_visited
     in obind (robust_prune F params (overlay_node node) visited) (\<lambda>pruned.
        let neighbors = (if pruned = [] \<and> visited \<noteq> [] then map fst (take (vp_max_degree params) (by_distance visited)) else pruned)
        in obind (overlay_put i (live_node vector neighbors)) (\<lambda>_.
             ofold (link_back F params node i) neighbors ())))"

text \<open>The blocks an insertion writes, and the entry point after it.\<close>

definition plan_insert ::
  "f32_ops \<Rightarrow> vector_index_params \<Rightarrow> 's node_provider \<Rightarrow> u64 option \<Rightarrow> u64 \<Rightarrow> f32 list \<Rightarrow> ('s, pending \<times> u64) op" where
  "plan_insert F params node entry_point i vector =
     (if length vector \<noteq> vp_dim params then olift (Inl (VectorDimensionMismatch (vp_dim params) (length vector)))
      else obind (node i) (\<lambda>existing.
        if (case existing of None \<Rightarrow> False | Some n \<Rightarrow> \<not> vn_deleted n) then olift (Inl (DuplicateVectorId i))
        else (case entry_point of
            None \<Rightarrow> oret ([(i, live_node vector [])], i)
          | Some entry \<Rightarrow>
              obind (with_overlay (plan_linked F params node entry i vector)) (\<lambda>(_, changed). oret (changed, entry)))))"

subsection \<open>Planning a repair\<close>

definition repair_pool :: "'s node_provider \<Rightarrow> u64 \<Rightarrow> u64 \<Rightarrow> bool \<times> u64 list \<Rightarrow> ('s, bool \<times> u64 list) op" where
  "repair_pool node i neighbor_id = (\<lambda>(has_dead, pool_ids).
     obind (node neighbor_id) (\<lambda>found. oret (case found of
       None \<Rightarrow> (True, pool_ids)
     | Some neighbor \<Rightarrow>
         if vn_deleted neighbor then (True, pool_ids @ filter (\<lambda>t. t \<noteq> i) (vn_neighbors neighbor))
         else (has_dead, pool_ids @ [neighbor_id]))))"

definition repair_candidate ::
  "f32_ops \<Rightarrow> 's node_provider \<Rightarrow> u64 \<Rightarrow> f32 list \<Rightarrow> u64 \<Rightarrow> scored \<Rightarrow> ('s, scored) op" where
  "repair_candidate F node i vector candidate_id candidates =
     (if candidate_id = i then oret candidates
      else obind (node candidate_id) (\<lambda>found. oret (case found of
          None \<Rightarrow> candidates
        | Some c \<Rightarrow> if vn_deleted c then candidates
                    else candidates @ [(candidate_id, cosine_distance F vector (vn_vector c))])))"

definition plan_repair :: "f32_ops \<Rightarrow> vector_index_params \<Rightarrow> 's node_provider \<Rightarrow> u64 \<Rightarrow> ('s, vector_node option) op" where
  "plan_repair F params node i =
     obind (node i) (\<lambda>found. case found of
       None \<Rightarrow> oret None
     | Some n \<Rightarrow>
         if vn_deleted n then oret None
         else
           obind (ofold (repair_pool node i) (vn_neighbors n) (False, [])) (\<lambda>(has_dead, pool_ids).
             if \<not> has_dead then oret None
             else
               obind (ofold (repair_candidate F node i (vn_vector n)) (remdups_adj (sort pool_ids)) []) (\<lambda>candidates.
               obind (robust_prune F params node candidates) (\<lambda>pruned.
                 oret (Some (live_node (vn_vector n) pruned))))))"

subsection \<open>Related providers give related results\<close>

definition simulates :: "('s \<Rightarrow> 't \<Rightarrow> bool) \<Rightarrow> ('s, 'a) op \<Rightarrow> ('t, 'a) op \<Rightarrow> bool" where
  "simulates R p q \<longleftrightarrow> (\<forall>s t. R s t \<longrightarrow> fst (p s) = fst (q t) \<and> R (snd (p s)) (snd (q t)))"

named_theorems sim_intros \<open>rules of the simulation of operations\<close>

lemma sim_oret [sim_intros]: "simulates R (oret x) (oret x)"
  by (simp add: simulates_def oret_def)

lemma sim_olift [sim_intros]: "simulates R (olift r) (olift r)"
  by (simp add: simulates_def olift_def)

lemma sim_obind [sim_intros]:
  assumes "simulates R p q" "\<And>x. simulates R (k x) (h x)"
  shows "simulates R (obind p k) (obind q h)"
  unfolding simulates_def
proof (intro allI impI)
  fix s t assume "R s t"
  then have "fst (p s) = fst (q t)" "R (snd (p s)) (snd (q t))" using assms(1) by (simp_all add: simulates_def)
  then show "fst (obind p k s) = fst (obind q h t) \<and> R (snd (obind p k s)) (snd (obind q h t))"
    using assms(2) by (cases "p s"; cases "q t") (auto simp: obind_def simulates_def split: sum.split)
qed

lemma sim_cases [sim_intros]:
  "simulates R p q \<Longrightarrow> simulates R p' q' \<Longrightarrow> simulates R (if b then p else p') (if b then q else q')"
  "simulates R p q \<Longrightarrow> (\<And>x. simulates R (k x) (h x)) \<Longrightarrow>
    simulates R (case y of None \<Rightarrow> p | Some x \<Rightarrow> k x) (case y of None \<Rightarrow> q | Some x \<Rightarrow> h x)"
  "(\<And>a b. simulates R (f a b) (g a b)) \<Longrightarrow> simulates R (case z of (a, b) \<Rightarrow> f a b) (case z of (a, b) \<Rightarrow> g a b)"
  "(\<And>a b. simulates R (k' a b acc) (h' a b acc)) \<Longrightarrow>
    simulates R ((case z of (a, b) \<Rightarrow> k' a b) acc) ((case z of (a, b) \<Rightarrow> h' a b) acc)"
  "simulates R u v \<Longrightarrow> simulates R (case w of () \<Rightarrow> u) (case w of () \<Rightarrow> v)"
  by (simp_all split: option.split prod.split unit.split)

lemma sim_ofold [sim_intros]:
  assumes "\<And>x acc. simulates R (f x acc) (g x acc)"
  shows "simulates R (ofold f xs acc) (ofold g xs acc)"
  using assms by (induction xs arbitrary: acc) (auto intro!: sim_intros)

lemma sim_overlay_node [sim_intros]:
  assumes "\<And>i. simulates R (node i) (node' i)"
  shows "simulates (rel_prod R (=)) (overlay_node node i) (overlay_node node' i)"
proof -
  have "fst (node i s) = fst (node' i t) \<and> R (snd (node i s)) (snd (node' i t))" if "R s t" for s t
    using assms [of i] that by (simp add: simulates_def)
  then show ?thesis by (fastforce simp: simulates_def overlay_node_def split: option.split prod.split)
qed

lemma sim_overlay_put [sim_intros]: "simulates (rel_prod R (=)) (overlay_put i n) (overlay_put i n)"
  by (auto simp: simulates_def overlay_put_def)

lemma sim_with_overlay [sim_intros]:
  assumes "simulates (rel_prod R (=)) p q"
  shows "simulates R (with_overlay p) (with_overlay q)"
  unfolding simulates_def
proof (intro allI impI)
  fix s t assume "R s t"
  then have "fst (p (s, [])) = fst (q (t, []))" "rel_prod R (=) (snd (p (s, []))) (snd (q (t, [])))"
    using assms by (simp_all add: simulates_def)
  then show "fst (with_overlay p s) = fst (with_overlay q t) \<and> R (snd (with_overlay p s)) (snd (with_overlay q t))"
    by (cases "p (s, [])"; cases "q (t, [])") (auto simp: with_overlay_def)
qed

lemma sim_offer [sim_intros]:
  assumes "\<And>i. simulates R (node i) (node' i)"
  shows "simulates R (offer F node query n acc) (offer F node' query n acc)"
  unfolding offer_def by (intro sim_intros assms)

lemma sim_greedy_loop [sim_intros]:
  assumes "\<And>i. simulates R (node i) (node' i)"
  shows "simulates R (greedy_loop F node query beam seen expanded frontier visited)
    (greedy_loop F node' query beam seen expanded frontier visited)"
proof (induction "card (UNIV - expanded)" arbitrary: seen expanded frontier visited rule: less_induct)
  case less
  show ?case
  proof (cases "find (\<lambda>(i, d). i \<notin> expanded) frontier")
    case None
    then show ?thesis by (simp add: greedy_loop.simps [of F _ query beam seen expanded] sim_oret)
  next
    case (Some x)
    obtain current dist where x: "x = (current, dist)" by (cases x)
    note IH = less.hyps [OF expanded_decreases [OF Some [unfolded x]]]
    show ?thesis
      unfolding greedy_loop.simps [of F _ query beam seen expanded] Some x option.case prod.case
      by (intro sim_intros assms IH)
  qed
qed

lemma sim_greedy_search [sim_intros]:
  assumes "\<And>i. simulates R (node i) (node' i)"
  shows "simulates R (greedy_search F node entry query beam) (greedy_search F node' entry query beam)"
  unfolding greedy_search_def by (intro sim_intros assms)

lemma sim_live_results [sim_intros]:
  assumes "\<And>i. simulates R (node i) (node' i)"
  shows "simulates R (live_results node k xs out) (live_results node' k xs out)"
proof (induction xs arbitrary: out)
  case (Cons x xs)
  obtain i d where "x = (i, d)" by (cases x)
  then show ?case unfolding live_results.simps by (simp only: live_results.simps) (intro sim_intros assms Cons.IH)
qed (simp add: sim_oret)

lemma sim_search_live_scored [sim_intros]:
  assumes "\<And>i. simulates R (node i) (node' i)"
  shows "simulates R (search_live_scored F node entry query beam k) (search_live_scored F node' entry query beam k)"
  unfolding search_live_scored_def by (intro sim_intros assms)

lemma sim_robust_prune [sim_intros]:
  assumes "\<And>i. simulates R (node i) (node' i)"
  shows "simulates R (robust_prune F params node xs) (robust_prune F params node' xs)"
  unfolding robust_prune_def prefetch_def by (intro sim_intros assms)

lemma sim_reprune [sim_intros]:
  assumes "\<And>i. simulates R (node i) (node' i)"
  shows "simulates (rel_prod R (=)) (reprune_node F params node i) (reprune_node F params node' i)"
  unfolding reprune_node_def measure_neighbor_def by (intro sim_intros assms)

lemma sim_link_back [sim_intros]:
  assumes "\<And>i. simulates R (node i) (node' i)"
  shows "simulates (rel_prod R (=)) (link_back F params node i n u) (link_back F params node' i n u)"
  unfolding link_back_def Let_def by (intro sim_intros assms)

lemma sim_plan_insert [sim_intros]:
  assumes "\<And>i. simulates R (node i) (node' i)"
  shows "simulates R (plan_insert F params node entry_point i vector) (plan_insert F params node' entry_point i vector)"
  unfolding plan_insert_def plan_linked_def Let_def by (intro sim_intros assms)

lemma sim_plan_repair [sim_intros]:
  assumes "\<And>i. simulates R (node i) (node' i)"
  shows "simulates R (plan_repair F params node i) (plan_repair F params node' i)"
  unfolding plan_repair_def repair_pool_def repair_candidate_def by (intro sim_intros assms)

subsection \<open>The contract of a provider\<close>

type_synonym node_map = "u64 \<rightharpoonup> vector_node"

text \<open>Each id of the list with its distance to the query, and no id twice.\<close>

definition measured :: "f32_ops \<Rightarrow> node_map \<Rightarrow> f32 list \<Rightarrow> scored \<Rightarrow> bool" where
  "measured F G query xs \<longleftrightarrow> distinct (map fst xs)
     \<and> (\<forall>(i, d) \<in> set xs. \<exists>n. G i = Some n \<and> d = cosine_distance F query (vn_vector n))"

definition sorted_scored :: "scored \<Rightarrow> bool" where
  "sorted_scored xs \<longleftrightarrow> sorted (map (\<lambda>(i, d). dist_key d) xs)"

definition graph_edge_rel :: "node_map \<Rightarrow> (u64 \<times> u64) set" where
  "graph_edge_rel G = {(u, v). \<exists>n. G u = Some n \<and> v \<in> set (vn_neighbors n) \<and> G v \<noteq> None}"

text \<open>What a greedy walk from \<open>entry\<close> can come to.\<close>

definition reach :: "node_map \<Rightarrow> u64 \<Rightarrow> u64 set" where
  "reach G entry = {v. (entry, v) \<in> (graph_edge_rel G)\<^sup>*}"

lemma measured_by_distance:
  "measured F G q xs \<Longrightarrow> measured F G q (take b (by_distance xs))" "sorted_scored (take b (by_distance xs))"
  "set (by_distance xs) = set xs" "length (by_distance xs) = length xs" "measured F G q xs \<Longrightarrow> measured F G q (by_distance xs)"
proof -
  have d: "distinct (map fst (by_distance xs))" if "distinct (map fst xs)"
    using that by (simp add: by_distance_def distinct_map)
  show "measured F G q xs \<Longrightarrow> measured F G q (take b (by_distance xs))"
    using d by (auto simp: measured_def by_distance_def take_map [symmetric] dest!: in_set_takeD)
  show "measured F G q xs \<Longrightarrow> measured F G q (by_distance xs)"
    using d by (auto simp: measured_def by_distance_def)
  have "sorted (map (\<lambda>(i, d). dist_key d) (by_distance xs))"
    unfolding by_distance_def by (rule sorted_sort_key)
  then show "sorted_scored (take b (by_distance xs))" by (simp add: sorted_scored_def sorted_wrt_take flip: take_map)
qed (simp_all add: by_distance_def)

lemma find_member: "find P xs = Some x \<Longrightarrow> x \<in> set xs \<and> P x"
  by (auto simp: find_Some_iff in_set_conv_nth)

lemma measuredD: "measured F G query xs \<Longrightarrow> (i, d) \<in> set xs \<Longrightarrow> \<exists>n. G i = Some n \<and> d = cosine_distance F query (vn_vector n)"
  by (auto simp: measured_def)

locale node_view =
  fixes node :: "'s node_provider" and I :: "'s \<Rightarrow> bool" and G :: node_map
  assumes node_reads: "reads I (node i) (Inr (G i))"
begin

definition offered :: "f32_ops \<Rightarrow> f32 list \<Rightarrow> u64 \<Rightarrow> u64 set \<times> scored \<Rightarrow> u64 set \<times> scored" where
  "offered F query n = (\<lambda>(seen, frontier).
     if n \<in> seen then (seen, frontier)
     else (insert n seen, case G n of None \<Rightarrow> frontier | Some st \<Rightarrow> frontier @ [(n, cosine_distance F query (vn_vector st))]))"

lemma offer_reads: "reads I (offer F node query n acc) (Inr (offered F query n acc))"
  by (cases acc) (auto simp: offer_def offered_def intro!: reads_obind_Inr [OF node_reads])

lemma offers_read: "reads I (ofold (offer F node query) ns acc) (Inr (fold (offered F query) ns acc))"
  using offer_reads by (intro reads_ofold [where P = "\<lambda>_. True"]) auto

lemma offers_ok:
  assumes "fst ` set frontier \<subseteq> seen" "measured F G query frontier"
  shows "case fold (offered F query) ns (seen, frontier) of (seen', frontier') \<Rightarrow>
    seen' = seen \<union> set ns \<and> measured F G query frontier'
    \<and> fst ` set frontier' = fst ` set frontier \<union> (set ns - seen) \<inter> dom G"
  using assms
proof (induction ns arbitrary: seen frontier)
  case (Cons n ns)
  show ?case
  proof (cases "n \<in> seen")
    case True
    then show ?thesis using Cons.IH [OF Cons.prems] by (simp add: offered_def insert_absorb split: prod.splits)
  next
    case new: False
    show ?thesis
    proof (cases "G n")
      case None
      have "fst ` set frontier \<subseteq> insert n seen" using Cons.prems(1) by blast
      from Cons.IH [OF this Cons.prems(2)] None new show ?thesis by (auto simp: offered_def split: prod.splits)
    next
      case (Some st)
      let ?fr = "frontier @ [(n, cosine_distance F query (vn_vector st))]"
      have "measured F G query ?fr" using Cons.prems new Some by (auto simp: measured_def)
      moreover have "fst ` set ?fr \<subseteq> insert n seen" using Cons.prems(1) by auto
      ultimately show ?thesis using Cons.IH [of ?fr "insert n seen"] Some new by (auto simp: offered_def split: prod.splits)
    qed
  qed
qed simp

text \<open>The state of the walk between two iterations.\<close>

definition walk_ok :: "f32_ops \<Rightarrow> f32 list \<Rightarrow> u64 \<Rightarrow> nat \<Rightarrow> u64 set \<Rightarrow> u64 set \<Rightarrow> scored \<Rightarrow> scored \<Rightarrow> bool" where
  "walk_ok F query entry beam seen expanded frontier visited \<longleftrightarrow>
     measured F G query frontier \<and> sorted_scored frontier \<and> length frontier \<le> max 1 beam \<and> fst ` set frontier \<subseteq> seen
     \<and> measured F G query visited \<and> fst ` set visited = expanded \<and> expanded \<union> seen \<inter> dom G \<subseteq> reach G entry
     \<and> (card (reach G entry) \<le> beam \<longrightarrow>
          fst ` set frontier = seen \<inter> dom G
          \<and> (\<forall>u \<in> expanded. \<forall>n. G u = Some n \<longrightarrow> set (vn_neighbors n) \<subseteq> seen))"

lemma greedy_step:
  assumes "walk_ok F query entry beam seen expanded frontier visited"
    and "find (\<lambda>(i, d). i \<notin> expanded) frontier = Some (current, dist)" "G current = Some state"
    and "fold (offered F query) (vn_neighbors state) (seen, frontier) = (seen', frontier')"
  shows "walk_ok F query entry beam seen' (insert current expanded) (take beam (by_distance frontier')) (visited @ [(current, dist)])"
proof -
  note ok = assms(1) [unfolded walk_ok_def]
  have cur: "(current, dist) \<in> set frontier" "current \<notin> expanded" using find_member [OF assms(2)] by simp_all
  have off: "seen' = seen \<union> set (vn_neighbors state)" "measured F G query frontier'"
    "fst ` set frontier' = fst ` set frontier \<union> (set (vn_neighbors state) - seen) \<inter> dom G"
    using offers_ok [of frontier seen F query "vn_neighbors state"] ok assms(4) by auto
  have "current \<in> seen \<inter> dom G" using ok assms(3) imageI [OF cur(1), of fst] by auto
  then have here: "current \<in> reach G entry" using ok by blast
  then have nbrs: "set (vn_neighbors state) \<inter> dom G \<subseteq> reach G entry"
    using assms(3) by (auto simp: reach_def graph_edge_rel_def intro: rtrancl_into_rtrancl)
  then have seen': "seen' \<inter> dom G \<subseteq> reach G entry" using ok by (auto simp: off(1))
  have vis: "measured F G query (visited @ [(current, dist)])" "fst ` set (visited @ [(current, dist)]) = insert current expanded"
    using ok cur by (auto simp: measured_def)
  have "fst ` set (take beam (by_distance frontier')) = seen' \<inter> dom G
      \<and> (\<forall>u \<in> insert current expanded. \<forall>n. G u = Some n \<longrightarrow> set (vn_neighbors n) \<subseteq> seen')"
    if beam: "card (reach G entry) \<le> beam"
  proof -
    have all: "fst ` set frontier' = seen' \<inter> dom G" using ok beam by (auto simp: off(1,3))
    have "length frontier' = card (fst ` set frontier')" using off(2) distinct_card [of "map fst frontier'"] by (simp add: measured_def)
    also have "\<dots> \<le> card (reach G entry)" unfolding all by (rule card_mono [OF _ seen']) simp
    finally have "take beam (by_distance frontier') = by_distance frontier'"
      using beam by (simp add: measured_by_distance)
    moreover have "set (vn_neighbors n) \<subseteq> seen'" if u: "u \<in> insert current expanded" "G u = Some n" for u n
    proof (cases "u = current")
      case True
      then show ?thesis using u(2) assms(3) by (simp add: off(1))
    next
      case False
      have "\<forall>u \<in> expanded. \<forall>n. G u = Some n \<longrightarrow> set (vn_neighbors n) \<subseteq> seen" using ok beam by simp
      then show ?thesis using False u unfolding off(1) by blast
    qed
    ultimately show ?thesis using all by (simp add: measured_by_distance(3))
  qed
  moreover have "fst ` set (take beam (by_distance frontier')) \<subseteq> seen'"
  proof -
    have "set (take beam (by_distance frontier')) \<subseteq> set frontier'"
      using set_take_subset [of beam "by_distance frontier'"] by (simp add: measured_by_distance(3))
    then have "fst ` set (take beam (by_distance frontier')) \<subseteq> fst ` set frontier'" by (rule image_mono)
    moreover have "fst ` set frontier \<subseteq> seen" using ok by simp
    ultimately show ?thesis unfolding off(1,3) by blast
  qed
  ultimately show ?thesis
    using vis seen' here ok measured_by_distance(1) [OF off(2)] measured_by_distance(2) by (simp add: walk_ok_def)
qed

lemma greedy_loop_reads:
  assumes "walk_ok F query entry beam seen expanded frontier visited"
  shows "\<exists>frontier' visited' seen' expanded'. reads I (greedy_loop F node query beam seen expanded frontier visited) (Inr (frontier', visited'))
    \<and> walk_ok F query entry beam seen' expanded' frontier' visited' \<and> fst ` set frontier' \<subseteq> expanded' \<and> seen \<subseteq> seen'"
  using assms
proof (induction "card (UNIV - expanded)" arbitrary: seen expanded frontier visited rule: less_induct)
  case less
  show ?case
  proof (cases "find (\<lambda>(i, d). i \<notin> expanded) frontier")
    case None
    then have "fst ` set frontier \<subseteq> expanded" by (auto simp: find_None_iff)
    moreover have "reads I (greedy_loop F node query beam seen expanded frontier visited) (Inr (frontier, visited))"
      by (simp add: greedy_loop.simps [of F _ query beam seen expanded] None)
    ultimately show ?thesis using less.prems by blast
  next
    case (Some x)
    obtain current dist where x: "x = (current, dist)" by (cases x)
    note found = Some [unfolded x]
    obtain state where st: "G current = Some state"
      using less.prems conjunct1 [OF find_member [OF found]] measuredD [of F G query frontier current dist]
      by (auto simp: walk_ok_def)
    obtain seen' frontier' where off: "fold (offered F query) (vn_neighbors state) (seen, frontier) = (seen', frontier')"
      by (cases "fold (offered F query) (vn_neighbors state) (seen, frontier)")
    have sub: "seen \<subseteq> seen'" using offers_ok [of frontier seen F query "vn_neighbors state"] less.prems off
      by (auto simp: walk_ok_def)
    obtain fr vi se ex where IH: "reads I (greedy_loop F node query beam seen' (insert current expanded)
        (take beam (by_distance frontier')) (visited @ [(current, dist)])) (Inr (fr, vi))"
      "walk_ok F query entry beam se ex fr vi" "fst ` set fr \<subseteq> ex" "seen' \<subseteq> se"
      using less.hyps [OF expanded_decreases [OF found] greedy_step [OF less.prems found st off]] by blast
    have "reads I (ofold (offer F node query) (vn_neighbors state) (seen, frontier)) (Inr (seen', frontier'))"
      using offers_read [of F query "vn_neighbors state" "(seen, frontier)"] off by simp
    then have "reads I (greedy_loop F node query beam seen expanded frontier visited) (Inr (fr, vi))"
      unfolding greedy_loop.simps [of F _ query beam seen expanded] found option.case prod.case
      by (intro reads_obind_Inr [OF node_reads]) (simp add: st, erule reads_obind_Inr, simp add: IH(1))
    then show ?thesis using IH(2-4) sub by blast
  qed
qed

text \<open>
  The frontier of a greedy search: distinct existing ids with their distances, ascending, at most
  \<open>max 1 beam\<close> of them; all that can be reached from the entry when the beam is that wide.
\<close>

lemma greedy_search_reads:
  assumes "G entry = Some e"
  shows "\<exists>frontier visited. reads I (greedy_search F node entry query beam) (Inr (frontier, visited))
    \<and> measured F G query frontier \<and> sorted_scored frontier \<and> length frontier \<le> max 1 beam
    \<and> measured F G query visited \<and> fst ` set frontier \<subseteq> fst ` set visited \<and> fst ` set visited \<subseteq> reach G entry
    \<and> (card (reach G entry) \<le> beam \<longrightarrow> fst ` set frontier = reach G entry)"
proof -
  let ?fr = "[(entry, cosine_distance F query (vn_vector e))]"
  have entry: "entry \<in> reach G entry" by (simp add: reach_def)
  have "walk_ok F query entry beam {entry} {} ?fr []"
    using assms entry by (auto simp: walk_ok_def measured_def sorted_scored_def)
  from greedy_loop_reads [OF this] obtain fr vi se ex where loop:
    "reads I (greedy_loop F node query beam {entry} {} ?fr []) (Inr (fr, vi))"
    "walk_ok F query entry beam se ex fr vi" "fst ` set fr \<subseteq> ex" "{entry} \<subseteq> se" by blast
  have "reads I (greedy_search F node entry query beam) (Inr (fr, vi))"
    unfolding greedy_search_def by (rule reads_obind_Inr [OF node_reads]) (simp add: assms loop(1))
  moreover have "fst ` set vi \<subseteq> reach G entry" using loop(2) by (simp add: walk_ok_def)
  moreover have "fst ` set fr = reach G entry" if "card (reach G entry) \<le> beam"
  proof -
    have fr: "fst ` set fr = se \<inter> dom G" and closed: "\<forall>u \<in> ex. \<forall>n. G u = Some n \<longrightarrow> set (vn_neighbors n) \<subseteq> se"
      using loop(2) that by (simp_all add: walk_ok_def)
    have "v \<in> fst ` set fr" if "(entry, v) \<in> (graph_edge_rel G)\<^sup>*" for v
      using that
    proof (induction rule: rtrancl_induct)
      case base
      then show ?case using fr loop(4) assms by auto
    next
      case (step u v)
      then obtain n where n: "G u = Some n" "v \<in> set (vn_neighbors n)" "v \<in> dom G" by (auto simp: graph_edge_rel_def)
      have "u \<in> ex" using step.IH loop(3) by blast
      then have "v \<in> se" using closed n by blast
      then show ?case using fr n(3) by simp
    qed
    then show ?thesis using fr loop(2) by (auto simp: reach_def walk_ok_def)
  qed
  moreover have "measured F G query fr \<and> sorted_scored fr \<and> length fr \<le> max 1 beam \<and> measured F G query vi
      \<and> fst ` set fr \<subseteq> fst ` set vi"
    using loop(2,3) by (simp add: walk_ok_def)
  ultimately show ?thesis by blast
qed

text \<open>Filtering the tombstones out of a frontier.\<close>

definition live :: "u64 \<Rightarrow> bool" where
  "live i \<longleftrightarrow> (\<exists>n. G i = Some n \<and> \<not> vn_deleted n)"

lemma live_results_read:
  assumes "length out < k"
  shows "reads I (live_results node k xs out) (Inr (out @ take (k - length out) (filter (\<lambda>(i, d). live i) xs)))"
  using assms
proof (induction xs arbitrary: out)
  case (Cons x xs)
  obtain i d where x: "x = (i, d)" by (cases x)
  have l: "(case G i of None \<Rightarrow> False | Some n \<Rightarrow> \<not> vn_deleted n) = live i" by (auto simp: live_def split: option.split)
  show ?case
  proof (cases "live i \<and> Suc (length out) = k")
    case True
    then show ?thesis unfolding x live_results.simps
      by (intro reads_obind_Inr [OF node_reads]) (auto simp: l)
  next
    case False
    then have "live i \<Longrightarrow> length (out @ [(i, d)]) < k" using Cons.prems by auto
    then show ?thesis unfolding x live_results.simps
      using Cons.IH [OF Cons.prems] Cons.IH [of "out @ [(i, d)]"] False Cons.prems
      by (intro reads_obind_Inr [OF node_reads]) (auto simp: l take_Cons' Suc_diff_Suc)
  qed
qed simp

lemma walk_search_reads:
  assumes "G entry = Some e" "0 < k" "k \<le> beam"
  shows "\<exists>xs. reads I (search_live_scored F node entry query beam k) (Inr (take k xs))
    \<and> measured F G query xs \<and> sorted_scored xs \<and> (\<forall>(i, d) \<in> set xs. live i) \<and> fst ` set xs \<subseteq> reach G entry
    \<and> (card (reach G entry) \<le> beam \<longrightarrow> fst ` set xs = {i \<in> reach G entry. live i})"
proof -
  obtain fr vi where s: "reads I (greedy_search F node entry query beam) (Inr (fr, vi))"
    "measured F G query fr" "sorted_scored fr" "fst ` set fr \<subseteq> fst ` set vi" "fst ` set vi \<subseteq> reach G entry"
    "card (reach G entry) \<le> beam \<longrightarrow> fst ` set fr = reach G entry"
    using greedy_search_reads [OF assms(1), of F query beam] by (elim exE conjE) (rule that)
  have in_reach: "fst ` set fr \<subseteq> reach G entry" using s(4,5) by (rule order_trans)
  let ?xs = "filter (\<lambda>(i, d). live i) fr"
  have "reads I (search_live_scored F node entry query beam k) (Inr (take k ?xs))"
    unfolding search_live_scored_def using live_results_read [of "[]" k fr] assms(2)
    by (intro reads_obind_Inr [OF s(1)]) simp
  moreover have "measured F G query ?xs" using s(2) by (auto simp: measured_def distinct_map_filter)
  moreover have "sorted_scored ?xs" using s(3) by (simp add: sorted_scored_def sorted_filter)
  moreover have ids: "fst ` set ?xs = {i \<in> fst ` set fr. live i}" by force
  moreover have "fst ` set ?xs \<subseteq> reach G entry" using in_reach unfolding ids by blast
  moreover have "card (reach G entry) \<le> beam \<longrightarrow> fst ` set ?xs = {i \<in> reach G entry. live i}" using s(6) unfolding ids by simp
  moreover have "\<forall>(i, d) \<in> set ?xs. live i" by simp
  ultimately show ?thesis by blast
qed

text \<open>The robust prune.\<close>

definition vec :: "u64 \<Rightarrow> f32 list" where
  "vec i = vn_vector (the (G i))"

definition prefetched :: "u64 \<times> f32 \<Rightarrow> (u64 \<times> f32 list) list \<times> scored \<Rightarrow> (u64 \<times> f32 list) list \<times> scored" where
  "prefetched = (\<lambda>(i, d) (vectors, pool).
     if live i then (om_insert i (vec i) vectors, pool @ [(i, d)]) else (vectors, pool))"

lemma prefetch_reads: "reads I (ofold (prefetch node) xs acc) (Inr (fold prefetched xs acc))"
proof (rule reads_ofold [where P = "\<lambda>_. True"])
  fix x :: "u64 \<times> f32" and acc :: "(u64 \<times> f32 list) list \<times> scored"
  obtain i d where x: "x = (i, d)" by (cases x)
  obtain vs pool where acc: "acc = (vs, pool)" by (cases acc)
  show "reads I (prefetch node x acc) (Inr (prefetched x acc)) \<and> True"
    unfolding x acc prefetch_def prefetched_def prod.case
    by (intro conjI TrueI reads_obind_Inr [OF node_reads]) (auto simp: live_def vec_def split: option.split)
qed simp_all

lemma fold_prefetched:
  assumes "sorted_keys vs" "\<forall>(i, d) \<in> set pool. map_of vs i = Some (vec i)"
  shows "case fold prefetched xs (vs, pool) of (vs', pool') \<Rightarrow>
    pool' = pool @ filter (\<lambda>(i, d). live i) xs \<and> sorted_keys vs' \<and> (\<forall>(i, d) \<in> set pool'. map_of vs' i = Some (vec i))"
  using assms
proof (induction xs arbitrary: vs pool)
  case (Cons x xs)
  obtain i d where x: "x = (i, d)" by (cases x)
  show ?case
  proof (cases "live i")
    case True
    have "\<forall>(j, e) \<in> set (pool @ [(i, d)]). map_of (om_insert i (vec i) vs) j = Some (vec j)"
      using Cons.prems by auto
    then show ?thesis using True Cons.prems(1) Cons.IH [of "om_insert i (vec i) vs" "pool @ [(i, d)]"]
      by (simp add: x prefetched_def split: prod.splits)
  next
    case False
    then show ?thesis using Cons by (simp add: x prefetched_def split: prod.splits)
  qed
qed simp

end

text \<open>No kept neighbor is dominated by one kept before it.\<close>

definition spread_out :: "f32_ops \<Rightarrow> f32 \<Rightarrow> (u64 \<Rightarrow> f32 list) \<Rightarrow> (u64 \<Rightarrow> f32) \<Rightarrow> u64 list \<Rightarrow> bool" where
  "spread_out F alpha V D ids \<longleftrightarrow> sorted_wrt (\<lambda>p q. f_gt F (f_mul F alpha (cosine_distance F (V p) (V q))) (D q)) ids"

lemma prune_loop_spec:
  assumes "distinct (map fst pool)" "\<forall>(i, d) \<in> set pool. map_of vectors i = Some (V i) \<and> D i = d"
  shows "\<exists>kept. prune_loop F R alpha vectors pool result = result @ kept \<and> set kept \<subseteq> fst ` set pool \<and> distinct kept
    \<and> (pool \<noteq> [] \<longrightarrow> kept \<noteq> [] \<and> hd kept = fst (hd pool)) \<and> length (result @ kept) \<le> max R (Suc (length result))
    \<and> spread_out F alpha V D kept"
  using assms
proof (induction "length pool" arbitrary: pool result rule: less_induct)
  case less
  show ?case
  proof (cases pool)
    case Nil
    then show ?thesis by (intro exI [of _ "[]"]) (simp add: prune_loop.simps [of F R alpha vectors "[]"] spread_out_def)
  next
    case (Cons x rest)
    obtain best d where x: "x = (best, d)" by (cases x)
    show ?thesis
    proof (cases "length (result @ [best]) \<ge> R")
      case True
      then have "prune_loop F R alpha vectors pool result = result @ [best]"
        by (subst prune_loop.simps) (simp add: Cons x)
      then show ?thesis by (intro exI [of _ "[best]"]) (simp add: Cons x spread_out_def)
    next
      case False
      let ?far = "\<lambda>(i, e). f_gt F (f_mul F alpha (cosine_distance F (V best) (V i))) e"
      define rest' where "rest' = filter (\<lambda>(i, dist_to_base). i \<noteq> best \<and> (case map_of vectors i of None \<Rightarrow> False
          | Some vector \<Rightarrow> f_gt F (f_mul F alpha (cosine_distance F (the (map_of vectors best)) vector)) dist_to_base)) pool"
      have best: "map_of vectors best = Some (V best)" using less.prems(2) by (simp add: Cons x)
      have mem: "(i, e) \<in> set rest' \<longleftrightarrow> (i, e) \<in> set pool \<and> i \<noteq> best \<and> ?far (i, e)" for i e
        using less.prems(2) best by (auto simp: rest'_def)
      have "length rest' < length pool" by (simp add: rest'_def Cons x less_Suc_eq_le)
      moreover have "distinct (map fst rest')" using less.prems(1) by (simp add: rest'_def distinct_map_filter)
      moreover have "\<forall>(i, e) \<in> set rest'. map_of vectors i = Some (V i) \<and> D i = e" using less.prems(2) mem by fastforce
      ultimately obtain kept where kept: "prune_loop F R alpha vectors rest' (result @ [best]) = (result @ [best]) @ kept"
        "set kept \<subseteq> fst ` set rest'" "distinct kept" "length ((result @ [best]) @ kept) \<le> max R (Suc (length (result @ [best])))"
        "spread_out F alpha V D kept"
        using less.hyps [of rest' "result @ [best]"] by blast
      have "prune_loop F R alpha vectors pool result = prune_loop F R alpha vectors rest' (result @ [best])"
        using False by (subst prune_loop.simps) (simp add: Cons x rest'_def)
      moreover have "q \<noteq> best \<and> f_gt F (f_mul F alpha (cosine_distance F (V best) (V q))) (D q)" if "q \<in> set kept" for q
        using that kept(2) mem less.prems(2) by fastforce
      moreover have "set kept \<subseteq> fst ` set pool"
      proof -
        have "fst ` set rest' \<subseteq> fst ` set pool" by (rule image_mono) (auto simp: rest'_def)
        then show ?thesis using kept(2) by (rule order_trans [rotated])
      qed
      moreover have "length ((result @ [best]) @ kept) \<le> max R (Suc (length result))" using kept(4) False by simp
      ultimately show ?thesis using kept
        by (intro exI [of _ "best # kept"]) (auto simp: spread_out_def Cons x)
    qed
  qed
qed

lemma dedup_by_id:
  "sorted (map fst xs) \<Longrightarrow> sorted_wrt (<) (map fst (dedup_by_id xs)) \<and> set (dedup_by_id xs) \<subseteq> set xs
     \<and> fst ` set (dedup_by_id xs) = fst ` set xs"
proof (induction xs rule: dedup_by_id.induct)
  case (3 x y xs)
  show ?case
  proof (cases "fst x = fst y")
    case True
    then show ?thesis using 3 by auto
  next
    case False
    have "sorted (map fst (y # xs))" using "3.prems" by simp
    note IH = "3.IH"(2) [OF False this]
    have "fst x < z" if "z \<in> fst ` set (dedup_by_id (y # xs))" for z
      using that IH "3.prems" False by (auto simp: less_le)
    then show ?thesis using False IH by auto
  qed
qed simp_all

text \<open>
  The result of a robust prune: at most \<open>max 1 R\<close> distinct live candidates, the nearest one first,
  none when there is no live candidate and only then, and spread out.
\<close>

definition pruned_from :: "f32_ops \<Rightarrow> vector_index_params \<Rightarrow> node_map \<Rightarrow> scored \<Rightarrow> u64 list \<Rightarrow> bool" where
  "pruned_from F P G cs ids \<longleftrightarrow>
     distinct ids \<and> length ids \<le> max 1 (vp_max_degree P)
     \<and> set ids \<subseteq> {i \<in> fst ` set cs. \<exists>n. G i = Some n \<and> \<not> vn_deleted n}
     \<and> (ids = [] \<longleftrightarrow> {i \<in> fst ` set cs. \<exists>n. G i = Some n \<and> \<not> vn_deleted n} = {})
     \<and> (\<exists>D. (\<forall>i \<in> set ids. (i, D i) \<in> set cs)
          \<and> spread_out F (vp_alpha P) (\<lambda>i. vn_vector (the (G i))) D ids
          \<and> (\<forall>(i, d) \<in> set cs. distinct (map fst cs) \<longrightarrow> (\<exists>n. G i = Some n \<and> \<not> vn_deleted n) \<longrightarrow> dist_key (D (hd ids)) \<le> dist_key d))"

context node_view begin

lemma robust_prune_reads: "\<exists>ids. reads I (robust_prune F P node cs) (Inr ids) \<and> pruned_from F P G cs ids"
proof -
  define xs where "xs = dedup_by_id (sort_key fst cs)"
  have xs: "sorted_wrt (<) (map fst xs)" "set xs \<subseteq> set cs" "fst ` set xs = fst ` set cs"
    using dedup_by_id [of "sort_key fst cs"] by (simp_all add: xs_def)
  obtain vectors pool where fp: "fold prefetched xs ([], []) = (vectors, pool)" by (cases "fold prefetched xs ([], [])")
  have pool: "pool = filter (\<lambda>(i, d). live i) xs" "\<forall>(i, d) \<in> set pool. map_of vectors i = Some (vec i)"
    using fold_prefetched [of "[]" "[]" xs] by (simp_all add: fp)
  define near where "near = by_distance pool"
  have near: "set near = set pool" "distinct (map fst near)"
    using xs(1) by (auto simp: near_def by_distance_def pool(1) distinct_map strict_sorted_iff intro: inj_on_subset)
  define D where "D i = the (map_of near i)" for i
  have D: "D i = d" if "(i, d) \<in> set near" for i d using that near(2) by (simp add: D_def)
  have "\<forall>(i, d) \<in> set near. map_of vectors i = Some (vec i) \<and> D i = d" using pool(2) near(1) D by auto
  from prune_loop_spec [OF near(2) this, of F "vp_max_degree P" "vp_alpha P" "[]"] obtain ids where
    ids: "prune_loop F (vp_max_degree P) (vp_alpha P) vectors near [] = ids" "set ids \<subseteq> fst ` set near" "distinct ids"
    "near \<noteq> [] \<longrightarrow> ids \<noteq> [] \<and> hd ids = fst (hd near)" "length ids \<le> max (vp_max_degree P) 1"
    "spread_out F (vp_alpha P) vec D ids" by auto
  have reads: "reads I (robust_prune F P node cs) (Inr ids)"
    unfolding robust_prune_def xs_def [symmetric]
    by (rule reads_obind_Inr [OF prefetch_reads]) (simp add: fp ids(1) near_def [symmetric])
  have cands: "fst ` set near = {i \<in> fst ` set cs. \<exists>n. G i = Some n \<and> \<not> vn_deleted n}"
  proof -
    have "fst ` set near = {i \<in> fst ` set xs. live i}" unfolding near(1) pool(1) by force
    then show ?thesis unfolding xs(3) live_def .
  qed
  moreover have "(i, D i) \<in> set cs" if i: "i \<in> set ids" for i
  proof -
    have "i \<in> fst ` set near" using i ids(2) by blast
    then obtain d where d: "(i, d) \<in> set near" by auto
    then have "(i, d) \<in> set cs" using xs(2) by (auto simp: near(1) pool(1))
    then show ?thesis using D [OF d] by simp
  qed
  moreover have "dist_key (D (hd ids)) \<le> dist_key d"
    if c: "(i, d) \<in> set cs" "distinct (map fst cs)" "\<exists>n. G i = Some n \<and> \<not> vn_deleted n" for i d
  proof -
    have "i \<in> fst ` set xs" unfolding xs(3) using imageI [OF c(1), of fst] by simp
    then obtain e where e: "(i, e) \<in> set xs" by auto
    then have "(i, e) \<in> set cs" using xs(2) by blast
    then have "e = d" using eq_key_imp_eq_value [OF c(2,1)] by simp
    then have "(i, d) \<in> set xs" using e by simp
    then have mem: "(i, d) \<in> set near" using c(3) by (simp add: near(1) pool(1) live_def)
    have "sorted (map (\<lambda>(i, d). dist_key d) near)" unfolding near_def by_distance_def by (rule sorted_sort_key)
    then have "dist_key (snd (hd near)) \<le> dist_key d" using mem by (cases near) (auto simp: case_prod_beta)
    moreover have "D (hd ids) = snd (hd near)"
      using ids(4) mem D [of "fst (hd near)" "snd (hd near)"] by (cases near) auto
    ultimately show ?thesis by simp
  qed
  moreover have "ids = [] \<longleftrightarrow> fst ` set near = {}" using ids(2,4) by auto
  moreover have "set ids \<subseteq> fst ` set near" by (rule ids(2))
  ultimately have "pruned_from F P G cs ids"
    using ids(3,5,6) unfolding pruned_from_def cands vec_def [abs_def] by (intro conjI exI [of _ D]) (auto simp: max.commute)
  then show ?thesis using reads by blast
qed

end

subsection \<open>Planning keeps the graph well formed\<close>

text \<open>An operation that succeeds with \<open>r\<close> and takes \<open>I\<close> states to \<open>J\<close> states.\<close>

definition moves :: "('s \<Rightarrow> bool) \<Rightarrow> ('s, 'a) op \<Rightarrow> 'a \<Rightarrow> ('s \<Rightarrow> bool) \<Rightarrow> bool" where
  "moves I p r J \<longleftrightarrow> (\<forall>s. I s \<longrightarrow> (\<exists>s'. p s = (Inr r, s') \<and> J s'))"

lemma moves_reads: "moves I p r I \<longleftrightarrow> reads I p (Inr r)"
  by (simp add: moves_def reads_def)

lemma moves_oret: "moves I (oret r) r I"
  by (simp add: moves_reads)

lemma moves_obind: "moves I p x J \<Longrightarrow> moves J (k x) r K \<Longrightarrow> moves I (obind p k) r K"
  unfolding moves_def obind_def by fastforce

text \<open>The state of a plan: the provider as it was, and what was changed so far.\<close>

definition planning :: "('s \<Rightarrow> bool) \<Rightarrow> pending \<Rightarrow> 's \<times> pending \<Rightarrow> bool" where
  "planning I changed = (\<lambda>(s, c). I s \<and> c = changed)"

lemma planning_put: "moves (planning I c) (overlay_put i n) () (planning I (om_insert i n c))"
  by (auto simp: moves_def planning_def overlay_put_def)

lemma planning_done: "moves (planning I []) p r (planning I c) \<Longrightarrow> reads I (with_overlay p) (Inr (r, c))"
  unfolding moves_def reads_def planning_def with_overlay_def by force

lemma overlay_view:
  assumes "node_view node I G"
  shows "node_view (overlay_node node) (planning I c) (G ++ map_of c)"
proof
  fix i
  show "reads (planning I c) (overlay_node node i) (Inr ((G ++ map_of c) i))"
    unfolding reads_def
  proof (intro allI impI)
    fix s assume "planning I c s"
    then obtain t where s: "s = (t, c)" "I t" by (cases s) (simp add: planning_def)
    then obtain t' where "node i t = (Inr (G i), t')" "I t'"
      using node_view.node_reads [OF assms, of i] by (auto simp: reads_def)
    then show "\<exists>s'. overlay_node node i s = (Inr ((G ++ map_of c) i), s') \<and> planning I c s'"
      using s by (auto simp: overlay_node_def planning_def map_add_def split: option.split)
  qed
qed

text \<open>
  A well-formed graph: vectors of the right dimension; neighbor lists without repeats, without the
  node itself, of at most \<open>max 1 R\<close> ids, and of existing nodes where the node is live.
\<close>

definition node_ok :: "vector_index_params \<Rightarrow> node_map \<Rightarrow> u64 \<Rightarrow> vector_node \<Rightarrow> bool" where
  "node_ok P G i n \<longleftrightarrow> length (vn_vector n) = vp_dim P \<and> distinct (vn_neighbors n) \<and> i \<notin> set (vn_neighbors n)
     \<and> length (vn_neighbors n) \<le> max 1 (vp_max_degree P) \<and> (\<not> vn_deleted n \<longrightarrow> set (vn_neighbors n) \<subseteq> dom G)"

definition graph_ok :: "vector_index_params \<Rightarrow> node_map \<Rightarrow> bool" where
  "graph_ok P G \<longleftrightarrow> (\<forall>i n. G i = Some n \<longrightarrow> node_ok P G i n)"

text \<open>The data of a node, which a plan leaves alone: its vector and its tombstone.\<close>

definition node_data :: "vector_node \<Rightarrow> f32 list \<times> bool" where
  "node_data n = (vn_vector n, vn_deleted n)"

lemma node_ok_mono: "node_ok P G i n \<Longrightarrow> dom G \<subseteq> dom G' \<Longrightarrow> node_ok P G' i n"
  unfolding node_ok_def using order_trans by blast

lemma graph_ok_update: "graph_ok P G \<Longrightarrow> node_ok P (G(i \<mapsto> n)) i n \<Longrightarrow> graph_ok P (G(i \<mapsto> n))"
  using node_ok_mono [of P G _ _ "G(i \<mapsto> n)"] by (auto simp: graph_ok_def)

context node_view begin

lemma measures_read:
  "\<exists>cs. reads I (ofold (measure_neighbor F node i v) ns acc) (Inr cs) \<and> fst ` set cs = fst ` set acc \<union> (set ns - {i}) \<inter> dom G"
proof (induction ns arbitrary: acc)
  case (Cons n ns)
  define acc' where "acc' = (if n = i then acc else case G n of None \<Rightarrow> acc
    | Some st \<Rightarrow> acc @ [(n, cosine_distance F v (vn_vector st))])"
  have "reads I (measure_neighbor F node i v n acc) (Inr acc')"
    by (auto simp: measure_neighbor_def acc'_def intro!: reads_obind_Inr [OF node_reads])
  moreover obtain cs where "reads I (ofold (measure_neighbor F node i v) ns acc') (Inr cs)"
    "fst ` set cs = fst ` set acc' \<union> (set ns - {i}) \<inter> dom G"
    using Cons.IH by blast
  moreover have "fst ` set acc' = fst ` set acc \<union> ({n} - {i}) \<inter> dom G" by (auto simp: acc'_def split: option.split)
  ultimately show ?case by (intro exI [of _ cs]) (auto intro: reads_obind_Inr)
next
  case Nil
  show ?case by (intro exI [of _ acc]) simp
qed

end

lemma reprune_moves:
  assumes "node_view node I G" "(G ++ map_of c) n = Some st"
  shows "\<exists>ids. moves (planning I c) (reprune_node F P node n) () (planning I (om_insert n (st\<lparr>vn_neighbors := ids\<rparr>) c))
    \<and> distinct ids \<and> length ids \<le> max 1 (vp_max_degree P) \<and> set ids \<subseteq> (set (vn_neighbors st) - {n}) \<inter> dom (G ++ map_of c)"
proof -
  note view = overlay_view [OF assms(1), of c]
  obtain cs where cs: "reads (planning I c) (ofold (measure_neighbor F (overlay_node node) n (vn_vector st)) (vn_neighbors st) []) (Inr cs)"
    "fst ` set cs = (set (vn_neighbors st) - {n}) \<inter> dom (G ++ map_of c)"
    using node_view.measures_read [OF view, of F n "vn_vector st" "vn_neighbors st" "[]"] by auto
  obtain ids where ids: "reads (planning I c) (robust_prune F P (overlay_node node) cs) (Inr ids)" "pruned_from F P (G ++ map_of c) cs ids"
    using node_view.robust_prune_reads [OF view] by blast
  have same: "\<lparr>vn_vector = vn_vector st, vn_neighbors = ids, vn_deleted = vn_deleted st\<rparr> = st\<lparr>vn_neighbors := ids\<rparr>" by simp
  have "moves (planning I c) (reprune_node F P node n) () (planning I (om_insert n (st\<lparr>vn_neighbors := ids\<rparr>) c))"
    unfolding reprune_node_def
    apply (rule moves_obind [OF node_view.node_reads [OF view, folded moves_reads, of n]])
    apply (simp add: assms(2) same del: vector_node.update_convs)
    apply (rule moves_obind [OF cs(1) [folded moves_reads]])
    apply (rule moves_obind [OF ids(1) [folded moves_reads]])
    using planning_put [of I c n "st\<lparr>vn_neighbors := ids\<rparr>"] same by metis
  then show ?thesis using ids(2) cs(2) by (auto simp: pruned_from_def)
qed

text \<open>Linking one neighbor back: only its list changes, by at most the new edge.\<close>

lemma link_back_moves:
  assumes "node_view node I G" "sorted_keys c" "(G ++ map_of c) n = Some st" "node_ok P (G ++ map_of c) n st"
    and "i \<in> dom (G ++ map_of c)" "i \<noteq> n"
  shows "\<exists>ids c'. moves (planning I c) (link_back F P node i n u) () (planning I c')
    \<and> sorted_keys c' \<and> map_of c' = (map_of c)(n \<mapsto> st\<lparr>vn_neighbors := ids\<rparr>)
    \<and> node_ok P (G ++ map_of c) n (st\<lparr>vn_neighbors := ids\<rparr>)"
proof -
  note view = overlay_view [OF assms(1), of c]
  let ?ns = "if i \<in> set (vn_neighbors st) then vn_neighbors st else vn_neighbors st @ [i]"
  let ?st = "st\<lparr>vn_neighbors := ?ns\<rparr>"
  have ns: "distinct ?ns" "n \<notin> set ?ns" "set ?ns = insert i (set (vn_neighbors st))" using assms(4,6) by (auto simp: node_ok_def)
  have sub: "\<not> vn_deleted st \<longrightarrow> set ?ns \<subseteq> dom (G ++ map_of c)" using assms(4,5) unfolding ns(3) by (simp add: node_ok_def)
  have look: "moves (planning I c) (overlay_node node n) (Some st) (planning I c)"
    using node_view.node_reads [OF view, of n] assms(3) by (simp add: moves_reads)
  show ?thesis
  proof (cases "length ?ns > vp_max_degree P")
    case False
    have "moves (planning I c) (link_back F P node i n u) () (planning I (om_insert n ?st c))"
      unfolding link_back_def Let_def
      apply (rule moves_obind [OF look])
      apply (simp only: option.case)
      apply (rule moves_obind [OF planning_put])
      using False by (simp add: moves_oret)
    moreover have "node_ok P (G ++ map_of c) n ?st"
    proof -
      have "length ?ns \<le> max 1 (vp_max_degree P)" using False by simp
      then show ?thesis using ns(1,2) sub assms(4) by (simp add: node_ok_def)
    qed
    ultimately show ?thesis using assms(2) by (intro exI [of _ ?ns] exI [of _ "om_insert n ?st c"]) simp
  next
    case True
    let ?c = "om_insert n ?st c"
    have step: "G ++ map_of ?c = (G ++ map_of c)(n \<mapsto> ?st)" using assms(2) by simp
    then have at: "(G ++ map_of ?c) n = Some ?st" by simp
    have dom: "dom (G ++ map_of ?c) = dom (G ++ map_of c)" unfolding step using assms(3) by (simp only: dom_fun_upd) auto
    obtain ids where ids: "moves (planning I ?c) (reprune_node F P node n) () (planning I (om_insert n (?st\<lparr>vn_neighbors := ids\<rparr>) ?c))"
      "distinct ids" "length ids \<le> max 1 (vp_max_degree P)" "set ids \<subseteq> (set (vn_neighbors ?st) - {n}) \<inter> dom (G ++ map_of ?c)"
      using reprune_moves [OF assms(1) at] by blast
    have "moves (planning I c) (link_back F P node i n u) () (planning I (om_insert n (?st\<lparr>vn_neighbors := ids\<rparr>) ?c))"
      unfolding link_back_def Let_def
      apply (rule moves_obind [OF look])
      apply (simp only: option.case)
      apply (rule moves_obind [OF planning_put])
      using True ids(1) by simp
    moreover have "node_ok P (G ++ map_of c) n (st\<lparr>vn_neighbors := ids\<rparr>)"
      using ids(2-4) assms(4) unfolding dom by (auto simp: node_ok_def)
    ultimately show ?thesis using assms(2)
      by (intro exI [of _ ids] exI [of _ "om_insert n (?st\<lparr>vn_neighbors := ids\<rparr>) ?c"]) simp
  qed
qed

lemma map_add_upd_dom: "(G ++ m)(n \<mapsto> x) = G ++ m(n \<mapsto> x)"
  by simp

lemma links_back:
  assumes "node_view node I G" "sorted_keys c" "graph_ok P (G ++ map_of c)" "set ns \<subseteq> dom (G ++ map_of c) - {i}"
    and "i \<in> dom (G ++ map_of c)"
  shows "\<exists>c'. moves (planning I c) (ofold (link_back F P node i) ns u) () (planning I c') \<and> sorted_keys c'
    \<and> graph_ok P (G ++ map_of c') \<and> dom (map_of c') \<subseteq> dom (map_of c) \<union> set ns
    \<and> (\<forall>j. j \<notin> set ns \<longrightarrow> map_of c' j = map_of c j)
    \<and> (\<forall>j. map_option node_data ((G ++ map_of c') j) = map_option node_data ((G ++ map_of c) j))"
  using assms(2-5)
proof (induction ns arbitrary: c u)
  case Nil
  have "moves (planning I c) (ofold (link_back F P node i) [] u) () (planning I c)" by (cases u) (simp add: moves_oret)
  then show ?case using Nil.prems by blast
next
  case (Cons n ns)
  let ?G = "G ++ map_of c"
  have "n \<in> dom ?G" using Cons.prems(3) by (simp del: dom_map_add)
  then obtain st where st: "?G n = Some st" unfolding domIff by (cases "?G n") simp_all
  have ok: "node_ok P ?G n st" using Cons.prems(2) st by (simp add: graph_ok_def)
  have "i \<noteq> n" using Cons.prems(3) by auto
  from link_back_moves [OF assms(1) Cons.prems(1) st ok Cons.prems(4) this, of F u] obtain ids c1 where
    one: "moves (planning I c) (link_back F P node i n u) () (planning I c1)" "sorted_keys c1"
      "map_of c1 = (map_of c)(n \<mapsto> st\<lparr>vn_neighbors := ids\<rparr>)" "node_ok P ?G n (st\<lparr>vn_neighbors := ids\<rparr>)"
    by (elim exE conjE) (rule that)
  have G1: "G ++ map_of c1 = ?G(n \<mapsto> st\<lparr>vn_neighbors := ids\<rparr>)" by (simp add: one(3))
  have dom: "dom (G ++ map_of c1) = dom ?G" unfolding G1 using st by auto
  have ok1: "graph_ok P (G ++ map_of c1)"
    unfolding G1 using graph_ok_update [OF Cons.prems(2), of n "st\<lparr>vn_neighbors := ids\<rparr>"] one(4) dom G1
      node_ok_mono [OF one(4), of "?G(n \<mapsto> st\<lparr>vn_neighbors := ids\<rparr>)"] by auto
  have "set ns \<subseteq> dom (G ++ map_of c1) - {i}" "i \<in> dom (G ++ map_of c1)" unfolding dom using Cons.prems(3,4) by auto
  from Cons.IH [OF one(2) ok1 this, of "()"] obtain c' where rest: "moves (planning I c1) (ofold (link_back F P node i) ns ()) () (planning I c')" "sorted_keys c'"
    "graph_ok P (G ++ map_of c')" "dom (map_of c') \<subseteq> dom (map_of c1) \<union> set ns"
    "\<forall>j. j \<notin> set ns \<longrightarrow> map_of c' j = map_of c1 j"
    "\<forall>j. map_option node_data ((G ++ map_of c') j) = map_option node_data ((G ++ map_of c1) j)"
    by (elim exE conjE) (rule that)
  have "moves (planning I c) (ofold (link_back F P node i) (n # ns) u) () (planning I c')"
    unfolding ofold.simps by (rule moves_obind [OF one(1)]) (rule rest(1))
  moreover have "dom (map_of c') \<subseteq> dom (map_of c) \<union> set (n # ns)" using rest(4) one(3) by auto
  moreover have "\<forall>j. j \<notin> set (n # ns) \<longrightarrow> map_of c' j = map_of c j" using rest(5) one(3) by auto
  moreover have "\<forall>j. map_option node_data ((G ++ map_of c') j) = map_option node_data (?G j)"
    using rest(6) st unfolding G1 by (simp add: node_data_def)
  ultimately show ?case using rest(2,3) by blast
qed

text \<open>
  What a planned insertion does to the graph: it stays well formed, the node is live with its
  vector, every other node keeps its vector and tombstone, and the plan has \<open>R + 1\<close> blocks at most.
\<close>

definition planned :: "vector_index_params \<Rightarrow> node_map \<Rightarrow> u64 \<Rightarrow> f32 list \<Rightarrow> pending \<Rightarrow> bool" where
  "planned P G i vector changed \<longleftrightarrow> sorted_keys changed \<and> graph_ok P (G ++ map_of changed)
     \<and> length changed \<le> Suc (max 1 (vp_max_degree P))
     \<and> (\<exists>n. map_of changed i = Some n \<and> node_data n = (vector, False))
     \<and> (\<forall>j. j \<noteq> i \<longrightarrow> map_option node_data ((G ++ map_of changed) j) = map_option node_data (G j))"

lemma first_planned:
  assumes "graph_ok P G" "length vector = vp_dim P"
  shows "planned P G i vector [(i, live_node vector [])]"
proof -
  have "node_ok P (G(i \<mapsto> live_node vector [])) i (live_node vector [])" using assms(2) by (simp add: node_ok_def live_node_def)
  then show ?thesis using graph_ok_update [OF assms(1)] by (simp add: planned_def node_data_def live_node_def)
qed

lemma chosen_neighbors:
  assumes "measured F G vector visited" "pruned_from F P G (filter (\<lambda>(vid, d). vid \<noteq> i) visited) pruned"
  shows "let visited' = filter (\<lambda>(vid, d). vid \<noteq> i) visited;
      ns = if pruned = [] \<and> visited' \<noteq> [] then map fst (take (vp_max_degree P) (by_distance visited')) else pruned
    in distinct ns \<and> set ns \<subseteq> dom G - {i} \<and> length ns \<le> max 1 (vp_max_degree P)"
proof -
  define vs where "vs = filter (\<lambda>(vid, d). vid \<noteq> i) visited"
  have vs: "measured F G vector vs" "\<forall>(j, d) \<in> set vs. j \<noteq> i" using assms(1) by (auto simp: vs_def measured_def distinct_map_filter)
  have near: "measured F G vector (take b (by_distance vs))" "set (take b (by_distance vs)) \<subseteq> set vs" for b
    using measured_by_distance(1) [OF vs(1)] set_take_subset [of b "by_distance vs"] by (simp_all add: measured_by_distance(3))
  have "set pruned \<subseteq> fst ` set vs \<inter> dom G" "distinct pruned" "length pruned \<le> max 1 (vp_max_degree P)"
    using assms(2) by (auto simp: pruned_from_def vs_def [symmetric])
  moreover have "set (map fst (take b (by_distance vs))) \<subseteq> dom G - {i}" for b
    using near [of b] vs(2) by (fastforce simp: measured_def)
  moreover have "distinct (map fst (take b (by_distance vs)))" for b using near(1) [of b] by (simp add: measured_def)
  moreover have "fst ` set vs \<subseteq> - {i}" using vs(2) by auto
  ultimately show ?thesis unfolding Let_def vs_def [symmetric] by auto
qed

lemma plan_linked_spec:
  assumes "node_view node I G" "graph_ok P G" "G entry = Some e" "length vector = vp_dim P"
  shows "\<exists>c. moves (planning I []) (plan_linked F P node entry i vector) () (planning I c) \<and> planned P G i vector c"
proof -
  note view = overlay_view [OF assms(1), of "[]", simplified]
  obtain fr vi where g: "reads (planning I []) (greedy_search F (overlay_node node) entry vector (vp_beam_width P)) (Inr (fr, vi))"
    "measured F G vector vi"
    using node_view.greedy_search_reads [OF view assms(3), of F vector "vp_beam_width P"] by (elim exE conjE) (rule that)
  define vs where "vs = filter (\<lambda>(vid, d). vid \<noteq> i) vi"
  obtain pruned where p: "reads (planning I []) (robust_prune F P (overlay_node node) vs) (Inr pruned)" "pruned_from F P G vs pruned"
    using node_view.robust_prune_reads [OF view] by blast
  define ns where "ns = (if pruned = [] \<and> vs \<noteq> [] then map fst (take (vp_max_degree P) (by_distance vs)) else pruned)"
  have ns: "distinct ns" "set ns \<subseteq> dom G - {i}" "length ns \<le> max 1 (vp_max_degree P)"
    using chosen_neighbors [OF g(2), of P i pruned] p(2) by (simp_all only: vs_def [symmetric] Let_def ns_def [symmetric])
  let ?n = "live_node vector ns" and ?c = "[(i, live_node vector ns)]"
  have G1: "G ++ map_of ?c = G(i \<mapsto> ?n)" by simp
  have "node_ok P (G(i \<mapsto> ?n)) i ?n" using ns assms(4) by (auto simp: node_ok_def live_node_def)
  then have ok: "graph_ok P (G ++ map_of ?c)" unfolding G1 by (rule graph_ok_update [OF assms(2)])
  have "set ns \<subseteq> dom (G ++ map_of ?c) - {i}" "i \<in> dom (G ++ map_of ?c)" using ns(2) by auto
  from links_back [OF assms(1) _ ok this, of F "()"] obtain c where
    c: "moves (planning I ?c) (ofold (link_back F P node i) ns ()) () (planning I c)" "sorted_keys c" "graph_ok P (G ++ map_of c)"
      "dom (map_of c) \<subseteq> dom (map_of ?c) \<union> set ns" "\<forall>j. j \<notin> set ns \<longrightarrow> map_of c j = map_of ?c j"
      "\<forall>j. map_option node_data ((G ++ map_of c) j) = map_option node_data ((G ++ map_of ?c) j)"
    by auto
  have "moves (planning I []) (plan_linked F P node entry i vector) () (planning I c)"
    unfolding plan_linked_def
    apply (rule moves_obind [OF g(1) [folded moves_reads]])
    apply (simp only: prod.case vs_def [symmetric] Let_def)
    apply (rule moves_obind [OF p(1) [folded moves_reads]])
    apply (simp only: ns_def [symmetric])
    apply (rule moves_obind [OF planning_put])
    using c(1) by simp
  moreover have "length c \<le> Suc (max 1 (vp_max_degree P))"
  proof -
    have "length c = card (dom (map_of c))" using sorted_keys_distinct [OF c(2)] distinct_card [of "map fst c"] by (simp add: dom_map_of_conv_image_fst)
    also have "\<dots> \<le> card (insert i (set ns))" using c(4) by (intro card_mono) auto
    also have "\<dots> \<le> Suc (length ns)" by (simp add: card_insert_if card_length le_SucI)
    finally show ?thesis using ns(3) by simp
  qed
  moreover have "map_of c i = Some ?n" using c(5) ns(2) by auto
  moreover have "map_option node_data ((G ++ map_of c) j) = map_option node_data (G j)" if "j \<noteq> i" for j using c(6) that by simp
  ultimately show ?thesis using c(2,3) by (intro exI [of _ c]) (auto simp: planned_def live_node_def node_data_def)
qed

text \<open>Every branch of the planning of an insertion.\<close>

lemma plan_insert_reads:
  assumes "node_view node I G" "graph_ok P G" "\<And>e. entry_point = Some e \<Longrightarrow> G e \<noteq> None"
  shows "\<exists>r. reads I (plan_insert F P node entry_point i vector) r \<and>
    (if length vector \<noteq> vp_dim P then r = Inl (VectorDimensionMismatch (vp_dim P) (length vector))
     else if \<exists>n. G i = Some n \<and> \<not> vn_deleted n then r = Inl (DuplicateVectorId i)
     else \<exists>changed. r = Inr (changed, case entry_point of None \<Rightarrow> i | Some e \<Rightarrow> e) \<and> planned P G i vector changed)"
proof (cases "length vector = vp_dim P \<and> \<not> (\<exists>n. G i = Some n \<and> \<not> vn_deleted n)")
  case False
  then show ?thesis
    unfolding plan_insert_def using node_view.node_reads [OF assms(1), of i]
    by (cases "length vector = vp_dim P") (auto intro!: reads_obind_Inr exI split: option.splits)
next
  case True
  then have free: "length vector = vp_dim P" "\<not> (case G i of None \<Rightarrow> False | Some n \<Rightarrow> \<not> vn_deleted n)" by (auto split: option.split)
  have "\<exists>changed. reads I (plan_insert F P node entry_point i vector) (Inr (changed, case entry_point of None \<Rightarrow> i | Some e \<Rightarrow> e))
      \<and> planned P G i vector changed"
  proof (cases entry_point)
    case None
    then show ?thesis using first_planned [OF assms(2) free(1), of i] free
      by (intro exI [of _ "[(i, live_node vector [])]"]) (simp add: plan_insert_def reads_obind_Inr [OF node_view.node_reads [OF assms(1)]])
  next
    case (Some entry)
    obtain e where e: "G entry = Some e" using assms(3) [OF Some] by blast
    obtain c where c: "moves (planning I []) (plan_linked F P node entry i vector) () (planning I c)" "planned P G i vector c"
      using plan_linked_spec [OF assms(1,2) e free(1)] by blast
    have "reads I (plan_insert F P node entry_point i vector) (Inr (c, entry))"
      unfolding plan_insert_def using free Some
      apply simp
      apply (rule reads_obind_Inr [OF node_view.node_reads [OF assms(1)]])
      using reads_obind_Inr [OF planning_done [OF c(1)], of "\<lambda>(u, changed). oret (changed, entry)"] by simp
    then show ?thesis using c(2) Some by auto
  qed
  then show ?thesis using True by auto
qed

subsection \<open>Repairing a node\<close>

context node_view begin

text \<open>What a repair may link to: live neighbors, and live neighbors of tombstoned neighbors.\<close>

definition patch :: "u64 \<Rightarrow> u64 list \<Rightarrow> u64 set" where
  "patch i ns = {j. j \<noteq> i \<and> live j \<and> (j \<in> set ns \<or> (\<exists>t \<in> set ns. \<exists>m. G t = Some m \<and> vn_deleted m \<and> j \<in> set (vn_neighbors m)))}"

definition pooled :: "u64 \<Rightarrow> u64 \<Rightarrow> bool \<times> u64 list \<Rightarrow> bool \<times> u64 list" where
  "pooled i j = (\<lambda>(has_dead, pool). case G j of
       None \<Rightarrow> (True, pool)
     | Some n \<Rightarrow> if vn_deleted n then (True, pool @ filter (\<lambda>t. t \<noteq> i) (vn_neighbors n)) else (has_dead, pool @ [j]))"

lemma repair_pool_reads: "reads I (ofold (repair_pool node i) ns acc) (Inr (fold (pooled i) ns acc))"
proof (rule reads_ofold [where P = "\<lambda>_. True"])
  fix j and acc :: "bool \<times> u64 list"
  show "reads I (repair_pool node i j acc) (Inr (pooled i j acc)) \<and> True"
    by (cases acc) (auto simp: repair_pool_def pooled_def intro!: reads_obind_Inr [OF node_reads] split: option.split)
qed simp_all

lemma fold_pooled:
  "fold (pooled i) ns (b, pool) = (b \<or> (\<exists>j \<in> set ns. \<not> live j),
     pool @ concat (map (\<lambda>j. case G j of None \<Rightarrow> [] | Some n \<Rightarrow> if vn_deleted n then filter (\<lambda>t. t \<noteq> i) (vn_neighbors n) else [j]) ns))"
  by (induction ns arbitrary: b pool) (auto simp: pooled_def live_def split: option.split)

definition candidate :: "f32_ops \<Rightarrow> u64 \<Rightarrow> f32 list \<Rightarrow> u64 \<Rightarrow> scored \<Rightarrow> scored" where
  "candidate F i v j cs = (if j \<noteq> i \<and> live j then cs @ [(j, cosine_distance F v (vec j))] else cs)"

lemma candidates_read: "reads I (ofold (repair_candidate F node i v) js cs) (Inr (fold (candidate F i v) js cs))"
proof (rule reads_ofold [where P = "\<lambda>_. True"])
  fix j cs
  show "reads I (repair_candidate F node i v j cs) (Inr (candidate F i v j cs)) \<and> True"
    by (auto simp: repair_candidate_def candidate_def live_def vec_def intro!: reads_obind_Inr [OF node_reads] split: option.split)
qed simp_all

lemma fold_candidate: "fst ` set (fold (candidate F i v) js cs) = fst ` set cs \<union> {j \<in> set js. j \<noteq> i \<and> live j}"
  by (induction js arbitrary: cs) (auto simp: candidate_def)

lemma plan_repair_reads:
  assumes "graph_ok P G"
  shows "\<exists>r. reads I (plan_repair F P node i) (Inr r) \<and>
    (case G i of None \<Rightarrow> r = None
     | Some n \<Rightarrow> if vn_deleted n \<or> (\<forall>j \<in> set (vn_neighbors n). live j) then r = None
                 else \<exists>ids. r = Some (live_node (vn_vector n) ids) \<and> distinct ids \<and> length ids \<le> max 1 (vp_max_degree P)
                   \<and> set ids \<subseteq> patch i (vn_neighbors n) \<and> (ids = [] \<longleftrightarrow> patch i (vn_neighbors n) = {}))"
proof (cases "\<exists>n. G i = Some n \<and> \<not> vn_deleted n \<and> (\<exists>j \<in> set (vn_neighbors n). \<not> live j)")
  case False
  have "reads I (plan_repair F P node i) (Inr None)"
    unfolding plan_repair_def
  proof (rule reads_obind_Inr [OF node_reads])
    show "reads I (case G i of None \<Rightarrow> oret None | Some n \<Rightarrow> if vn_deleted n then oret None
        else obind (ofold (repair_pool node i) (vn_neighbors n) (False, [])) (\<lambda>(has_dead, pool_ids).
          if \<not> has_dead then oret None
          else obind (ofold (repair_candidate F node i (vn_vector n)) (remdups_adj (sort pool_ids)) []) (\<lambda>candidates.
            obind (robust_prune F P node candidates) (\<lambda>pruned. oret (Some (live_node (vn_vector n) pruned)))))) (Inr None)"
    proof (cases "G i")
      case (Some n)
      show ?thesis
      proof (cases "vn_deleted n")
        case live: False
        then have "\<forall>j \<in> set (vn_neighbors n). live j" using Some False by auto
        then show ?thesis using Some live
          by (simp, intro reads_obind_Inr [OF repair_pool_reads]) (simp add: fold_pooled)
      qed (simp add: Some)
    qed simp
  qed
  then show ?thesis using False by (intro exI [of _ None]) (auto split: option.split)
next
  case True
  then obtain n where n: "G i = Some n" "\<not> vn_deleted n" "\<exists>j \<in> set (vn_neighbors n). \<not> live j" by blast
  define pool where "pool = snd (fold (pooled i) (vn_neighbors n) (False, []))"
  have pool: "fold (pooled i) (vn_neighbors n) (False, []) = (True, pool)" using n(3) by (simp add: pool_def fold_pooled)
  define cs where "cs = fold (candidate F i (vn_vector n)) (remdups_adj (sort pool)) []"
  obtain ids where ids: "reads I (robust_prune F P node cs) (Inr ids)" "pruned_from F P G cs ids"
    using robust_prune_reads by blast
  have "j \<in> set pool \<longleftrightarrow> (\<exists>t \<in> set (vn_neighbors n). \<exists>m. G t = Some m \<and>
      (if vn_deleted m then j \<noteq> i \<and> j \<in> set (vn_neighbors m) else j = t))" for j
    unfolding pool_def fold_pooled by (auto split: option.splits if_splits) (metis option.distinct(1) option.inject)+
  then have "j \<in> set pool \<and> j \<noteq> i \<and> live j \<longleftrightarrow> j \<in> patch i (vn_neighbors n)" for j
    unfolding patch_def live_def mem_Collect_eq by (metis option.inject)
  then have patch: "fst ` set cs = patch i (vn_neighbors n)" by (auto simp: cs_def fold_candidate)
  have "live j" if "j \<in> patch i (vn_neighbors n)" for j using that by (simp add: patch_def)
  then have eq: "{j \<in> fst ` set cs. \<exists>n. G j = Some n \<and> \<not> vn_deleted n} = patch i (vn_neighbors n)"
    unfolding patch by (auto simp: live_def)
  have "reads I (plan_repair F P node i) (Inr (Some (live_node (vn_vector n) ids)))"
    unfolding plan_repair_def
    apply (rule reads_obind_Inr [OF node_reads])
    apply (simp add: n(1,2))
    apply (rule reads_obind_Inr [OF repair_pool_reads])
    apply (simp add: pool)
    apply (rule reads_obind_Inr [OF candidates_read])
    apply (rule reads_obind_Inr [OF ids(1) [unfolded cs_def]])
    by simp
  moreover have "distinct ids" "length ids \<le> max 1 (vp_max_degree P)" "set ids \<subseteq> patch i (vn_neighbors n)"
    "ids = [] \<longleftrightarrow> patch i (vn_neighbors n) = {}"
    using ids(2) unfolding pruned_from_def eq by simp_all
  ultimately show ?thesis using n by auto
qed

end

end
