(* ===== verification/Vector_Ram.thy ===== *)
theory Vector_Ram
  imports Vector_Graph
begin

text \<open>
  The in-RAM vector index (\<open>VectorIndex\<close> of \<open>idx/vector/graph.rs\<close>): insertion, tombstoning,
  consolidation and search over a map of nodes, which a provider reads. What it promises is a map
  from ids to vectors and a set of tombstoned ids (\<open>vectors_spec\<close>); every sequence of calls
  answers as that specification does, and the graph stays well formed. The node table is an
  association list in key order: the code iterates over a \<open>HashMap\<close>, in an order nothing
  depends on.
\<close>

subsection \<open>The index\<close>

record vector_index =
  vi_params :: vector_index_params
  vi_nodes :: pending
  vi_live_count :: nat
  vi_entry_point :: "u64 option"

definition vi_new :: "vector_index_params \<Rightarrow> vector_index" where
  "vi_new params = \<lparr>vi_params = params, vi_nodes = [], vi_live_count = 0, vi_entry_point = None\<rparr>"

definition map_node :: "pending \<Rightarrow> unit node_provider" where
  "map_node nodes i = oret (map_of nodes i)"

text \<open>An operation over a provider that has no state of its own.\<close>

definition in_ram :: "(unit, 'a) op \<Rightarrow> 'a engine_result" where
  "in_ram p = fst (p ())"

definition vi_insert :: "f32_ops \<Rightarrow> u64 \<Rightarrow> f32 list \<Rightarrow> vector_index \<Rightarrow> vector_index engine_result" where
  "vi_insert F i vector idx =
     rbind (in_ram (plan_insert F (vi_params idx) (map_node (vi_nodes idx)) (vi_entry_point idx) i vector)) (\<lambda>(changed, entry).
       Inr (idx\<lparr>vi_nodes := om_inserts changed (vi_nodes idx), vi_entry_point := Some entry,
                vi_live_count := vi_live_count idx + 1\<rparr>))"

definition vi_delete :: "u64 \<Rightarrow> vector_index \<Rightarrow> bool \<times> vector_index" where
  "vi_delete i idx = (case map_of (vi_nodes idx) i of
       None \<Rightarrow> (False, idx)
     | Some n \<Rightarrow>
         if vn_deleted n then (False, idx)
         else (True, idx\<lparr>vi_nodes := om_insert i (n\<lparr>vn_deleted := True\<rparr>) (vi_nodes idx),
                          vi_live_count := vi_live_count idx - 1\<rparr>))"

text \<open>The live node nearest to a reference, ids breaking ties; the least live id without one.\<close>

definition nearest_live :: "f32_ops \<Rightarrow> pending \<Rightarrow> f32 list option \<Rightarrow> u64 option" where
  "nearest_live F nodes reference =
     (let live = filter (\<lambda>(i, n). \<not> vn_deleted n) nodes
      in case reference of
           Some v \<Rightarrow> (case sort_key (\<lambda>(i, d). (dist_key d, i)) (map (\<lambda>(i, n). (i, cosine_distance F v (vn_vector n))) live) of
               [] \<Rightarrow> None | (i, d) # _ \<Rightarrow> Some i)
         | None \<Rightarrow> (case sort (map fst live) of [] \<Rightarrow> None | i # _ \<Rightarrow> Some i))"

text \<open>The repairs of the nodes \<open>ids\<close>, all planned on the graph as it is.\<close>

definition push_repair :: "f32_ops \<Rightarrow> vector_index_params \<Rightarrow> 's node_provider \<Rightarrow> u64 \<Rightarrow> pending \<Rightarrow> ('s, pending) op" where
  "push_repair F params node i repaired =
     obind (plan_repair F params node i) (\<lambda>found. oret (case found of None \<Rightarrow> repaired | Some n \<Rightarrow> repaired @ [(i, n)]))"

definition vi_consolidate :: "f32_ops \<Rightarrow> vector_index \<Rightarrow> (nat \<times> vector_index) engine_result" where
  "vi_consolidate F idx =
     (let nodes = vi_nodes idx;
          dead = map fst (filter (\<lambda>(i, n). vn_deleted n) nodes);
          live_ids = map fst (filter (\<lambda>(i, n). \<not> vn_deleted n) nodes)
      in if dead = [] then Inr (0, idx)
         else rbind (in_ram (ofold (push_repair F (vi_params idx) (map_node nodes)) live_ids [])) (\<lambda>repaired.
           let nodes = om_inserts repaired nodes;
               entry = (case vi_entry_point idx of
                   None \<Rightarrow> None
                 | Some e \<Rightarrow>
                     if (case map_of nodes e of None \<Rightarrow> True | Some n \<Rightarrow> vn_deleted n)
                     then nearest_live F nodes (map_option vn_vector (map_of nodes e))
                     else Some e)
           in Inr (length dead, idx\<lparr>vi_nodes := filter (\<lambda>(i, n). i \<notin> set dead) nodes, vi_entry_point := entry\<rparr>)))"

definition vi_search_scored :: "f32_ops \<Rightarrow> vector_index \<Rightarrow> f32 list \<Rightarrow> nat \<Rightarrow> scored engine_result" where
  "vi_search_scored F idx query k =
     (if length query \<noteq> vp_dim (vi_params idx)
      then Inl (VectorDimensionMismatch (vp_dim (vi_params idx)) (length query))
      else case vi_entry_point idx of
          None \<Rightarrow> Inr []
        | Some entry \<Rightarrow>
            if k = 0 then Inr []
            else in_ram (search_live_scored F (map_node (vi_nodes idx)) entry query (max (vp_beam_width (vi_params idx)) k) k))"

definition vi_search :: "f32_ops \<Rightarrow> vector_index \<Rightarrow> f32 list \<Rightarrow> nat \<Rightarrow> u64 list engine_result" where
  "vi_search F idx query k = rbind (vi_search_scored F idx query k) (\<lambda>xs. Inr (map fst xs))"

subsection \<open>Live vectors and tombstones\<close>

definition live_vectors :: "node_map \<Rightarrow> u64 \<rightharpoonup> f32 list" where
  "live_vectors G i = (case G i of None \<Rightarrow> None | Some n \<Rightarrow> if vn_deleted n then None else Some (vn_vector n))"

definition tombstones :: "node_map \<Rightarrow> u64 set" where
  "tombstones G = {i. \<exists>n. G i = Some n \<and> vn_deleted n}"

lemma live_vectors_data:
  "map_option node_data (G i) = map_option node_data (G' i) \<Longrightarrow> live_vectors G i = live_vectors G' i \<and> (i \<in> tombstones G \<longleftrightarrow> i \<in> tombstones G')"
  by (cases "G i"; cases "G' i") (auto simp: live_vectors_def tombstones_def node_data_def)

lemma dom_live: "dom (live_vectors G) = {i. \<exists>n. G i = Some n \<and> \<not> vn_deleted n}"
  by (auto simp: live_vectors_def split: option.splits if_splits)

lemma dom_split: "dom G = dom (live_vectors G) \<union> tombstones G" "dom (live_vectors G) \<inter> tombstones G = {}"
  by (auto simp: dom_live tombstones_def)

lemma planned_data:
  assumes "planned P G i vector changed"
  shows "live_vectors (G ++ map_of changed) = (live_vectors G)(i \<mapsto> vector)"
    "tombstones (G ++ map_of changed) = tombstones G - {i}"
proof -
  let ?G = "G ++ map_of changed"
  obtain n where n: "map_of changed i = Some n" "vn_vector n = vector" "\<not> vn_deleted n"
    using assms by (auto simp: planned_def node_data_def)
  have other: "live_vectors ?G j = live_vectors G j \<and> (j \<in> tombstones ?G \<longleftrightarrow> j \<in> tombstones G)" if "j \<noteq> i" for j
    using live_vectors_data [of ?G j G] assms that unfolding planned_def by blast
  have self: "live_vectors ?G i = Some vector" "i \<notin> tombstones ?G" using n by (simp_all add: live_vectors_def tombstones_def)
  show "live_vectors ?G = (live_vectors G)(i \<mapsto> vector)" using other self(1) by (auto simp: fun_eq_iff)
  show "tombstones ?G = tombstones G - {i}" 
  proof (rule set_eqI)
    fix j show "j \<in> tombstones ?G \<longleftrightarrow> j \<in> tombstones G - {i}" using other [of j] self(2) by (cases "j = i") auto
  qed
qed

text \<open>Tombstoning a node.\<close>

lemma deleted_data:
  assumes "G i = Some n" "\<not> vn_deleted n"
  shows "live_vectors (G(i \<mapsto> n\<lparr>vn_deleted := True\<rparr>)) = (live_vectors G)(i := None)"
    "tombstones (G(i \<mapsto> n\<lparr>vn_deleted := True\<rparr>)) = insert i (tombstones G)"
    "graph_ok P G \<Longrightarrow> graph_ok P (G(i \<mapsto> n\<lparr>vn_deleted := True\<rparr>))"
proof -
  show "live_vectors (G(i \<mapsto> n\<lparr>vn_deleted := True\<rparr>)) = (live_vectors G)(i := None)" by (auto simp: live_vectors_def fun_eq_iff)
  show "tombstones (G(i \<mapsto> n\<lparr>vn_deleted := True\<rparr>)) = insert i (tombstones G)" using assms by (auto simp: tombstones_def)
  show "graph_ok P (G(i \<mapsto> n\<lparr>vn_deleted := True\<rparr>))" if "graph_ok P G"
    by (rule graph_ok_update [OF that]) (use that assms in \<open>simp add: graph_ok_def node_ok_def\<close>)
qed

text \<open>Repairing every live node leaves no reference to a tombstone, which can then go.\<close>

definition repairs :: "vector_index_params \<Rightarrow> node_map \<Rightarrow> u64 list \<Rightarrow> pending \<Rightarrow> bool" where
  "repairs P G ids rs \<longleftrightarrow> distinct (map fst rs) \<and> fst ` set rs \<subseteq> set ids
     \<and> (\<forall>(i, n) \<in> set rs. node_ok P G i n \<and> set (vn_neighbors n) \<subseteq> dom (live_vectors G)
          \<and> map_option node_data (G i) = Some (node_data n))
     \<and> (\<forall>i \<in> set ids. i \<notin> fst ` set rs \<longrightarrow> (\<forall>n. G i = Some n \<longrightarrow> \<not> vn_deleted n \<longrightarrow> set (vn_neighbors n) \<subseteq> dom (live_vectors G)))"

lemma repairs_read:
  assumes "node_view node I G" "graph_ok P G" "distinct ids"
  shows "\<exists>rs. reads I (ofold (push_repair F P node) ids acc) (Inr (acc @ rs)) \<and> repairs P G ids rs"
  using assms(3)
proof (induction ids arbitrary: acc)
  case Nil
  then show ?case by (intro exI [of _ "[]"]) (simp add: repairs_def)
next
  case (Cons i ids)
  have live: "node_view.live G j \<longleftrightarrow> j \<in> dom (live_vectors G)" for j
    by (simp add: node_view.live_def [OF assms(1)] dom_live)
  obtain r where r: "reads I (plan_repair F P node i) (Inr r)"
    "case G i of None \<Rightarrow> r = None
     | Some n \<Rightarrow> if vn_deleted n \<or> (\<forall>j \<in> set (vn_neighbors n). j \<in> dom (live_vectors G)) then r = None
                 else \<exists>ids. r = Some (live_node (vn_vector n) ids) \<and> distinct ids \<and> length ids \<le> max 1 (vp_max_degree P)
                   \<and> set ids \<subseteq> node_view.patch G i (vn_neighbors n) \<and> (ids = [] \<longleftrightarrow> node_view.patch G i (vn_neighbors n) = {})"
    using node_view.plan_repair_reads [OF assms(1,2), of F i] unfolding live by (elim exE conjE) (rule that)
  have patch: "node_view.patch G i ns \<subseteq> dom (live_vectors G) - {i}" for ns
    using live by (auto simp: node_view.patch_def [OF assms(1)])
  let ?acc = "case r of None \<Rightarrow> acc | Some n \<Rightarrow> acc @ [(i, n)]"
  obtain rs where rs: "reads I (ofold (push_repair F P node) ids ?acc) (Inr (?acc @ rs))" "repairs P G ids rs"
    using Cons.IH [of ?acc] Cons.prems by auto
  define rs' where "rs' = (case r of None \<Rightarrow> rs | Some n \<Rightarrow> (i, n) # rs)"
  have same: "?acc @ rs = acc @ rs'" by (simp add: rs'_def split: option.split)
  have "reads I (push_repair F P node i acc) (Inr ?acc)"
    unfolding push_repair_def by (rule reads_obind_Inr [OF r(1)]) simp
  then have "reads I (ofold (push_repair F P node) (i # ids) acc) (Inr (acc @ rs'))"
    unfolding ofold.simps same [symmetric] by (rule reads_obind_Inr) (rule rs(1))
  moreover have "repairs P G (i # ids) rs'"
  proof (cases r)
    case None
    have "set (vn_neighbors n) \<subseteq> dom (live_vectors G)" if "G i = Some n" "\<not> vn_deleted n" for n
      using r(2) that None by (auto split: if_splits)
    then show ?thesis using rs(2) None Cons.prems unfolding rs'_def repairs_def by (auto simp del: dom_eq_empty_conv)
  next
    case (Some m)
    then obtain n where n0: "G i = Some n" "\<not> vn_deleted n" using r(2) by (cases "G i") (auto split: if_splits)
    then obtain ids' where ids': "m = live_node (vn_vector n) ids'" "distinct ids'"
      "length ids' \<le> max 1 (vp_max_degree P)" "set ids' \<subseteq> node_view.patch G i (vn_neighbors n)"
      using r(2) Some by (simp split: if_splits) (elim exE conjE, rule that, simp_all)
    note n = n0 ids'(1-3) order_trans [OF ids'(4) patch]
    have "length (vn_vector n) = vp_dim P" using assms(2) n(1) by (simp add: graph_ok_def node_ok_def)
    moreover have "set ids' \<subseteq> dom G" using n(6) dom_split(1) [of G] by blast
    ultimately have "node_ok P G i m" using n(3-6) by (auto simp: node_ok_def live_node_def)
    moreover have "set (vn_neighbors m) \<subseteq> dom (live_vectors G)" "node_data m = node_data n"
      using n by (auto simp: live_node_def node_data_def)
    moreover have "i \<notin> fst ` set rs" using rs(2) Cons.prems by (auto simp: repairs_def)
    ultimately show ?thesis using rs(2) n(1) Cons.prems unfolding rs'_def repairs_def Some by auto
  qed
  ultimately show ?case by blast
qed

text \<open>The graph once the repairs are in and the tombstones are gone.\<close>

definition purged :: "node_map \<Rightarrow> node_map" where
  "purged G i = (case G i of None \<Rightarrow> None | Some n \<Rightarrow> if vn_deleted n then None else Some n)"

lemma live_vectors_purged [simp]: "live_vectors (purged G) = live_vectors G" "tombstones (purged G) = {}" "dom (purged G) = dom (live_vectors G)"
  by (auto simp: fun_eq_iff live_vectors_def purged_def tombstones_def split: option.splits if_splits)

lemma repairs_patch: "repairs P G ids rs \<Longrightarrow> \<forall>(i, n) \<in> set rs. node_ok P G i n \<and> map_option node_data (G i) = Some (node_data n)"
  by (auto simp: repairs_def)

lemma repaired_data:
  assumes "\<forall>(i, n) \<in> set rs. node_ok P G i n \<and> map_option node_data (G i) = Some (node_data n)" "graph_ok P G"
  shows "graph_ok P (G ++ map_of rs)" "live_vectors (G ++ map_of rs) = live_vectors G" "tombstones (G ++ map_of rs) = tombstones G"
    "dom (G ++ map_of rs) = dom G"
proof -
  have at: "(i, n) \<in> set rs \<Longrightarrow> map_option node_data (G i) = Some (node_data n) \<and> node_ok P G i n" for i n
    using assms(1) by auto
  have data: "map_option node_data ((G ++ map_of rs) i) = map_option node_data (G i)" for i
  proof (cases "map_of rs i")
    case (Some n)
    then obtain z where "G i = Some z" "node_data z = node_data n" using at [OF map_of_SomeD [OF Some]] by auto
    then show ?thesis by (simp add: Some map_add_def)
  qed (simp add: map_add_def)
  then show "live_vectors (G ++ map_of rs) = live_vectors G" "tombstones (G ++ map_of rs) = tombstones G"
    using live_vectors_data [of "G ++ map_of rs" _ G] by blast+
  have "(G ++ map_of rs) i = None \<longleftrightarrow> G i = None" for i using data [of i] by (metis option.map_disc_iff)
  then show dom: "dom (G ++ map_of rs) = dom G" by (simp only: dom_def)
  show "graph_ok P (G ++ map_of rs)"
    unfolding graph_ok_def
  proof (intro allI impI)
    fix i n assume n: "(G ++ map_of rs) i = Some n"
    have "node_ok P G i n"
    proof (cases "map_of rs i")
      case None
      then show ?thesis using n assms(2) by (simp add: map_add_def graph_ok_def)
    next
      case (Some m)
      then show ?thesis using n at [OF map_of_SomeD [OF Some]] by (simp add: map_add_def)
    qed
    then show "node_ok P (G ++ map_of rs) i n" by (rule node_ok_mono [OF _ equalityD2 [OF dom]])
  qed
qed

lemma drop_tombstones:
  "tombstones (\<lambda>i. if i \<in> D then None else G i) = tombstones G - D"
  "purged G = (\<lambda>i. if i \<in> tombstones G then None else G i)"
  by (auto simp: fun_eq_iff purged_def tombstones_def split: option.split)

text \<open>With all repairs in, any of the tombstones can go.\<close>

lemma partly_purged:
  assumes "repairs P G ids rs" "graph_ok P G" "dom (live_vectors G) \<subseteq> set ids" "D \<subseteq> tombstones G"
  shows "graph_ok P (\<lambda>i. if i \<in> D then None else (G ++ map_of rs) i)"
    "live_vectors (\<lambda>i. if i \<in> D then None else (G ++ map_of rs) i) = live_vectors G"
    "tombstones (\<lambda>i. if i \<in> D then None else (G ++ map_of rs) i) = tombstones G - D"
proof -
  let ?G = "G ++ map_of rs" and ?G' = "\<lambda>i. if i \<in> D then None else (G ++ map_of rs) i"
  note data = repaired_data [OF repairs_patch [OF assms(1)] assms(2)]
  have dead: "i \<in> D \<Longrightarrow> live_vectors G i = None \<and> live_vectors ?G i = None" for i
  proof -
    assume "i \<in> D"
    then have "i \<notin> dom (live_vectors G)" using assms(4) dom_split(2) [of G] by blast
    then show "live_vectors G i = None \<and> live_vectors ?G i = None" unfolding data(2) by (simp add: domIff)
  qed
  show live: "live_vectors ?G' = live_vectors G"
  proof
    fix i show "live_vectors ?G' i = live_vectors G i"
      using dead [of i] fun_cong [OF data(2), of i] by (cases "i \<in> D") (simp_all add: live_vectors_def)
  qed
  show "tombstones ?G' = tombstones G - D" unfolding data(3) [symmetric] by (rule drop_tombstones)
  show "graph_ok P ?G'"
    unfolding graph_ok_def
  proof (intro allI impI)
    fix i n assume "?G' i = Some n"
    then have n: "?G i = Some n" "i \<notin> D" by (auto split: if_splits)
    then have ok: "node_ok P ?G i n" using data(1) by (simp add: graph_ok_def)
    have "set (vn_neighbors n) \<subseteq> dom (live_vectors G)" if "\<not> vn_deleted n"
    proof (cases "map_of rs i")
      case None
      then have "G i = Some n" using n(1) by (simp add: map_add_def)
      moreover have "i \<notin> fst ` set rs" using None by (simp add: map_of_eq_None_iff)
      ultimately have G: "G i = Some n" "i \<notin> fst ` set rs" by blast+
      then have "i \<in> set ids" using that assms(3) by (auto simp: dom_live)
      then show ?thesis using assms(1) G that unfolding repairs_def by blast
    next
      case (Some m)
      then have "(i, n) \<in> set rs" using n(1) map_of_SomeD [OF Some] by (simp add: map_add_def)
      then show ?thesis using assms(1) unfolding repairs_def by blast
    qed
    moreover have "dom (live_vectors G) \<subseteq> dom ?G'" using dom_split(1) [of ?G'] live by auto
    ultimately show "node_ok P ?G' i n" using ok unfolding node_ok_def by blast
  qed
qed

lemma purged_ok:
  assumes "repairs P G ids rs" "graph_ok P G" "dom (live_vectors G) \<subseteq> set ids"
  shows "graph_ok P (purged (G ++ map_of rs))"
proof -
  note data = repaired_data [OF repairs_patch [OF assms(1)] assms(2)]
  have "purged (G ++ map_of rs) = (\<lambda>i. if i \<in> tombstones G then None else (G ++ map_of rs) i)"
    unfolding data(3) [symmetric] by (rule drop_tombstones)
  then show ?thesis using partly_purged(1) [OF assms order_refl] by simp
qed

subsection \<open>What the index promises\<close>

text \<open>The calls of a vector index, their answers, and what each does to vectors and tombstones.\<close>

datatype vector_call = VInsert u64 "f32 list" | VDelete u64 | VConsolidate

datatype vector_answer = VDone | VDeleted bool | VPurged nat | VFailed engine_error

fun vectors_spec :: "nat \<Rightarrow> vector_call \<Rightarrow> (u64 \<rightharpoonup> f32 list) \<times> u64 set \<Rightarrow> vector_answer \<times> (u64 \<rightharpoonup> f32 list) \<times> u64 set" where
  "vectors_spec d (VInsert i v) (M, T) =
     (if length v \<noteq> d then (VFailed (VectorDimensionMismatch d (length v)), M, T)
      else if i \<in> dom M then (VFailed (DuplicateVectorId i), M, T)
      else (VDone, M(i \<mapsto> v), T - {i}))"
| "vectors_spec d (VDelete i) (M, T) = (if i \<in> dom M then (VDeleted True, M(i := None), insert i T) else (VDeleted False, M, T))"
| "vectors_spec d VConsolidate (M, T) = (VPurged (card T), M, {})"

fun vi_call :: "f32_ops \<Rightarrow> vector_call \<Rightarrow> vector_index \<Rightarrow> vector_answer \<times> vector_index" where
  "vi_call F (VInsert i v) idx = (case vi_insert F i v idx of Inl e \<Rightarrow> (VFailed e, idx) | Inr idx' \<Rightarrow> (VDone, idx'))"
| "vi_call F (VDelete i) idx = (case vi_delete i idx of (b, idx') \<Rightarrow> (VDeleted b, idx'))"
| "vi_call F VConsolidate idx = (case vi_consolidate F idx of Inl e \<Rightarrow> (VFailed e, idx) | Inr (n, idx') \<Rightarrow> (VPurged n, idx'))"

text \<open>Calls one after the other, against any object with calls.\<close>

fun run_calls :: "('c \<Rightarrow> 's \<Rightarrow> 'a \<times> 's) \<Rightarrow> 'c list \<Rightarrow> 's \<Rightarrow> 'a list \<times> 's" where
  "run_calls step [] s = ([], s)"
| "run_calls step (c # cs) s = (case step c s of (a, s') \<Rightarrow> (case run_calls step cs s' of (as, s'') \<Rightarrow> (a # as, s'')))"

lemma run_calls_simulated:
  assumes "R s t" "\<And>c s t. R s t \<Longrightarrow> c \<in> set cs \<Longrightarrow> fst (step c s) = fst (spec c t) \<and> R (snd (step c s)) (snd (spec c t))"
  shows "fst (run_calls step cs s) = fst (run_calls spec cs t) \<and> R (snd (run_calls step cs s)) (snd (run_calls spec cs t))"
  using assms
proof (induction cs arbitrary: s t)
  case (Cons c cs)
  have "fst (step c s) = fst (spec c t) \<and> R (snd (step c s)) (snd (spec c t))" using Cons.prems by simp
  then show ?case using Cons.IH [of "snd (step c s)" "snd (spec c t)"] Cons.prems(2) by (simp add: case_prod_beta)
qed simp

definition vi_ok :: "vector_index \<Rightarrow> bool" where
  "vi_ok idx \<longleftrightarrow> sorted_keys (vi_nodes idx) \<and> graph_ok (vi_params idx) (map_of (vi_nodes idx))
     \<and> vi_live_count idx = card (dom (live_vectors (map_of (vi_nodes idx))))
     \<and> (case vi_entry_point idx of None \<Rightarrow> vi_nodes idx = [] | Some e \<Rightarrow> e \<in> dom (map_of (vi_nodes idx)))"

definition vi_denotes :: "vector_index \<Rightarrow> (u64 \<rightharpoonup> f32 list) \<times> u64 set \<Rightarrow> bool" where
  "vi_denotes idx = (\<lambda>(M, T). vi_ok idx \<and> live_vectors (map_of (vi_nodes idx)) = M \<and> tombstones (map_of (vi_nodes idx)) = T)"

interpretation ram: node_view "map_node nodes" "\<lambda>_. True" "map_of nodes" for nodes
  by unfold_locales (simp add: map_node_def)

lemma in_ram_reads: "reads (\<lambda>_. True) p r \<Longrightarrow> in_ram p = r"
  by (auto simp: reads_def in_ram_def)

lemma finite_live [simp]: "finite (dom (live_vectors G))" for G :: node_map
  by simp

lemma card_update:
  assumes "finite (dom M)"
  shows "i \<notin> dom M \<Longrightarrow> card (dom (M(i \<mapsto> v))) = card (dom M) + 1" "i \<in> dom M \<Longrightarrow> card (dom (M(i := None))) = card (dom M) - 1"
  using assms by (simp_all add: card_insert_if)

lemma vi_new_denotes: "vi_denotes (vi_new params) (Map.empty, {})"
  by (simp add: vi_denotes_def vi_ok_def vi_new_def graph_ok_def live_vectors_def tombstones_def fun_eq_iff)

lemma vi_insert_denotes:
  assumes "vi_denotes idx (M, T)"
  shows "case vectors_spec (vp_dim (vi_params idx)) (VInsert i v) (M, T) of
      (VFailed e, M', T') \<Rightarrow> vi_insert F i v idx = Inl e
    | (a, M', T') \<Rightarrow> \<exists>idx'. vi_insert F i v idx = Inr idx' \<and> vi_params idx' = vi_params idx \<and> vi_denotes idx' (M', T')"
proof -
  let ?P = "vi_params idx" and ?G = "map_of (vi_nodes idx)"
  have ok: "sorted_keys (vi_nodes idx)" "graph_ok ?P ?G" "vi_live_count idx = card (dom M)" "live_vectors ?G = M" "tombstones ?G = T"
    using assms by (auto simp: vi_denotes_def vi_ok_def)
  have entry: "\<And>e. vi_entry_point idx = Some e \<Longrightarrow> ?G e \<noteq> None" using assms by (auto simp: vi_denotes_def vi_ok_def)
  obtain r where r: "in_ram (plan_insert F ?P (map_node (vi_nodes idx)) (vi_entry_point idx) i v) = r"
    "if length v \<noteq> vp_dim ?P then r = Inl (VectorDimensionMismatch (vp_dim ?P) (length v))
     else if \<exists>n. ?G i = Some n \<and> \<not> vn_deleted n then r = Inl (DuplicateVectorId i)
     else \<exists>changed. r = Inr (changed, case vi_entry_point idx of None \<Rightarrow> i | Some e \<Rightarrow> e) \<and> planned ?P ?G i v changed"
    using plan_insert_reads [OF ram.node_view_axioms ok(2) entry, where F = F and i = i and vector = v] in_ram_reads by blast
  have dup: "(\<exists>n. ?G i = Some n \<and> \<not> vn_deleted n) \<longleftrightarrow> i \<in> dom M" by (auto simp: dom_live simp flip: ok(4))
  show ?thesis
  proof (cases "length v = vp_dim ?P \<and> i \<notin> dom M")
    case False
    then show ?thesis using r dup by (auto simp: vi_insert_def)
  next
    case True
    then obtain changed where c: "r = Inr (changed, case vi_entry_point idx of None \<Rightarrow> i | Some e \<Rightarrow> e)" "planned ?P ?G i v changed"
      using r(2) dup by auto
    let ?idx = "idx\<lparr>vi_nodes := om_inserts changed (vi_nodes idx),
      vi_entry_point := Some (case vi_entry_point idx of None \<Rightarrow> i | Some e \<Rightarrow> e), vi_live_count := vi_live_count idx + 1\<rparr>"
    have ins: "vi_insert F i v idx = Inr ?idx" by (simp add: vi_insert_def r(1) c(1))
    have nodes: "map_of (vi_nodes ?idx) = ?G ++ map_of changed" "sorted_keys (vi_nodes ?idx)"
      using ok(1) c(2) by (simp_all add: planned_def map_of_om_inserts_sorted)
    have data: "live_vectors (map_of (vi_nodes ?idx)) = M(i \<mapsto> v)" "tombstones (map_of (vi_nodes ?idx)) = T - {i}"
      unfolding nodes(1) using planned_data [OF c(2)] ok(4,5) by simp_all
    have "graph_ok ?P (map_of (vi_nodes ?idx))" unfolding nodes(1) using c(2) by (simp add: planned_def)
    moreover have "finite (dom M)" by simp
    then have "vi_live_count ?idx = card (dom (M(i \<mapsto> v)))" using ok(3) True by (subst card_update(1)) simp_all
    moreover have "(case vi_entry_point idx of None \<Rightarrow> i | Some e \<Rightarrow> e) \<in> dom (map_of (vi_nodes ?idx))"
      unfolding nodes(1) using entry c(2) by (auto simp: planned_def split: option.split)
    ultimately have "vi_denotes ?idx (M(i \<mapsto> v), T - {i})" using nodes(2) data unfolding vi_denotes_def vi_ok_def prod.case by simp
    then show ?thesis using True ins by (auto intro!: exI [of _ ?idx])
  qed
qed

lemma vi_delete_denotes:
  assumes "vi_denotes idx (M, T)"
  shows "\<exists>idx'. vi_delete i idx = (i \<in> dom M, idx') \<and> vi_params idx' = vi_params idx
    \<and> vi_denotes idx' (if i \<in> dom M then (M(i := None), insert i T) else (M, T))"
proof -
  let ?P = "vi_params idx" and ?G = "map_of (vi_nodes idx)"
  have ok: "sorted_keys (vi_nodes idx)" "graph_ok ?P ?G" "vi_live_count idx = card (dom M)" "live_vectors ?G = M" "tombstones ?G = T"
    using assms by (auto simp: vi_denotes_def vi_ok_def)
  have dup: "(\<exists>n. ?G i = Some n \<and> \<not> vn_deleted n) \<longleftrightarrow> i \<in> dom M" by (auto simp: dom_live simp flip: ok(4))
  show ?thesis
  proof (cases "i \<in> dom M")
    case False
    then have "vi_delete i idx = (False, idx)" using dup by (auto simp: vi_delete_def split: option.split)
    then show ?thesis using False assms by auto
  next
    case True
    then obtain n where n: "?G i = Some n" "\<not> vn_deleted n" using dup by blast
    let ?idx = "idx\<lparr>vi_nodes := om_insert i (n\<lparr>vn_deleted := True\<rparr>) (vi_nodes idx), vi_live_count := vi_live_count idx - 1\<rparr>"
    have nodes: "map_of (vi_nodes ?idx) = ?G(i \<mapsto> n\<lparr>vn_deleted := True\<rparr>)" using ok(1) by simp
    have data: "live_vectors (map_of (vi_nodes ?idx)) = M(i := None)" "tombstones (map_of (vi_nodes ?idx)) = insert i T"
      "graph_ok ?P (map_of (vi_nodes ?idx))"
      unfolding nodes using deleted_data [of ?G i n] n ok(2,4,5) by simp_all
    have "finite (dom M)" unfolding ok(4) [symmetric] by simp
    then have "vi_live_count ?idx = card (dom (M(i := None)))" using ok(3) True by (subst card_update(2)) simp_all
    moreover have "case vi_entry_point ?idx of None \<Rightarrow> vi_nodes ?idx = [] | Some e \<Rightarrow> e \<in> dom (map_of (vi_nodes ?idx))"
      using assms n(1) ok(1) by (auto simp: vi_denotes_def vi_ok_def split: option.splits)
    ultimately have "vi_denotes ?idx (M(i := None), insert i T)"
      using ok(1) data unfolding vi_denotes_def vi_ok_def prod.case by simp
    then show ?thesis using True n by (auto simp: vi_delete_def)
  qed
qed

lemma nearest_live_spec:
  "case nearest_live F nodes ref of None \<Rightarrow> filter (\<lambda>(i, n). \<not> vn_deleted n) nodes = []
   | Some e \<Rightarrow> \<exists>n. (e, n) \<in> set nodes \<and> \<not> vn_deleted n"
proof -
  define live where "live = filter (\<lambda>(i, n). \<not> vn_deleted n) nodes"
  have mem: "\<exists>n. (e, n) \<in> set nodes \<and> \<not> vn_deleted n" if "e \<in> fst ` set live" for e
    using that by (auto simp: live_def)
  show ?thesis
  proof (cases ref)
    case None
    show ?thesis
    proof (cases "sort (map fst live)")
      case Nil
      then have "live = []" by (metis length_0_conv length_map length_sort)
      then show ?thesis using None Nil by (simp add: nearest_live_def live_def [symmetric])
    next
      case (Cons e es)
      then have "e \<in> set (map fst live)" by (metis list.set_intros(1) set_sort)
      then have "e \<in> fst ` set live" by simp
      then show ?thesis using None Cons mem by (simp add: nearest_live_def live_def [symmetric])
    qed
  next
    case (Some v)
    define ds where "ds = map (\<lambda>(i, n). (i, cosine_distance F v (vn_vector n))) live"
    have ids: "fst ` set ds = fst ` set live" "ds = [] \<longleftrightarrow> live = []" by (force simp: ds_def)+
    show ?thesis
    proof (cases "sort_key (\<lambda>(i, d). (dist_key d, i)) ds")
      case Nil
      then have "ds = []" by (metis length_0_conv length_sort)
      then show ?thesis using Some Nil ids(2) by (simp add: nearest_live_def live_def [symmetric] ds_def [symmetric])
    next
      case (Cons x es)
      then have "x \<in> set ds" by (metis list.set_intros(1) set_sort)
      then have "fst x \<in> fst ` set live" using ids(1) by (metis imageI)
      then show ?thesis using Some Cons mem [of "fst x"]
        by (cases x) (simp add: nearest_live_def live_def [symmetric] ds_def [symmetric])
    qed
  qed
qed

lemma map_of_rev:
  assumes "distinct (map fst xs)"
  shows "map_of (rev xs) = map_of xs"
  by (rule map_of_inject_set [THEN iffD2]) (use assms in \<open>simp_all flip: rev_map\<close>)

lemma map_of_filter_live:
  assumes "sorted_keys nodes" "set dead = tombstones (map_of nodes)"
  shows "map_of (filter (\<lambda>(i, n). i \<notin> set dead) nodes) = purged (map_of nodes)"
proof
  fix i
  have s: "sorted_keys (filter (\<lambda>(i, n). i \<notin> set dead) nodes)" using assms(1) by simp
  have "map_of (filter (\<lambda>(i, n). i \<notin> set dead) nodes) i = Some n \<longleftrightarrow> purged (map_of nodes) i = Some n" for n
  proof -
    have "map_of (filter (\<lambda>(i, n). i \<notin> set dead) nodes) i = Some n \<longleftrightarrow> map_of nodes i = Some n \<and> i \<notin> set dead"
      by (simp add: map_of_eq_Some [OF s] map_of_eq_Some [OF assms(1)])
    also have "\<dots> \<longleftrightarrow> purged (map_of nodes) i = Some n"
      unfolding assms(2) by (auto simp: purged_def tombstones_def split: option.split)
    finally show ?thesis .
  qed
  then show "map_of (filter (\<lambda>(i, n). i \<notin> set dead) nodes) i = purged (map_of nodes) i"
    by (cases "purged (map_of nodes) i") (metis option.exhaust)+
qed

text \<open>The node ids of a table, by their tombstone.\<close>

lemma ids_by_flag:
  assumes "sorted_keys nodes"
  shows "set (map fst (filter (\<lambda>(i, n). vn_deleted n) nodes)) = tombstones (map_of nodes)"
    "set (map fst (filter (\<lambda>(i, n). \<not> vn_deleted n) nodes)) = dom (live_vectors (map_of nodes))"
    "distinct (map fst (filter (\<lambda>(i, n). vn_deleted n) nodes))" "distinct (map fst (filter (\<lambda>(i, n). \<not> vn_deleted n) nodes))"
proof -
  show "set (map fst (filter (\<lambda>(i, n). vn_deleted n) nodes)) = tombstones (map_of nodes)"
    "set (map fst (filter (\<lambda>(i, n). \<not> vn_deleted n) nodes)) = dom (live_vectors (map_of nodes))"
    by (force simp: tombstones_def dom_live map_of_eq_Some [OF assms])+
  show "distinct (map fst (filter (\<lambda>(i, n). vn_deleted n) nodes))" "distinct (map fst (filter (\<lambda>(i, n). \<not> vn_deleted n) nodes))"
    using sorted_keys_distinct [OF assms] by (simp_all add: distinct_map_filter)
qed

lemma vi_consolidate_denotes:
  assumes "vi_denotes idx (M, T)"
  shows "\<exists>idx'. vi_consolidate F idx = Inr (card T, idx') \<and> vi_params idx' = vi_params idx \<and> vi_denotes idx' (M, {})"
proof -
  let ?P = "vi_params idx" and ?nodes = "vi_nodes idx" and ?G = "map_of (vi_nodes idx)"
  define dead where "dead = map fst (filter (\<lambda>(i, n). vn_deleted n) ?nodes)"
  define ids where "ids = map fst (filter (\<lambda>(i, n). \<not> vn_deleted n) ?nodes)"
  have ok: "sorted_keys ?nodes" "graph_ok ?P ?G" "vi_live_count idx = card (dom M)" "live_vectors ?G = M" "tombstones ?G = T"
    using assms by (auto simp: vi_denotes_def vi_ok_def)
  have dead: "set dead = T" "distinct dead" and ids: "set ids = dom M" "distinct ids"
    using ids_by_flag [OF ok(1)] ok(4,5) by (simp_all add: dead_def ids_def)
  then have len: "length dead = card T" using distinct_card by fastforce
  show ?thesis
  proof (cases "dead = []")
    case True
    then have "vi_consolidate F idx = Inr (0, idx)" unfolding vi_consolidate_def Let_def dead_def [symmetric] by simp
    then show ?thesis using True dead assms len by auto
  next
    case False
    obtain rs where rs: "in_ram (ofold (push_repair F ?P (map_node ?nodes)) ids []) = Inr rs" "repairs ?P ?G ids rs"
      using repairs_read [OF ram.node_view_axioms ok(2) ids(2), where F = F and acc = "[]"] in_ram_reads by auto
    define nodes where "nodes = om_inserts rs ?nodes"
    have nodes: "sorted_keys nodes" "map_of nodes = ?G ++ map_of rs"
      using ok(1) map_of_rev [of rs] rs(2) by (simp_all add: nodes_def map_of_om_inserts repairs_def)
    note data = repaired_data [OF repairs_patch [OF rs(2)] ok(2), folded nodes(2)]
    define entry where "entry = (case vi_entry_point idx of None \<Rightarrow> None
       | Some e \<Rightarrow> if (case map_of nodes e of None \<Rightarrow> True | Some n \<Rightarrow> vn_deleted n)
                   then nearest_live F nodes (map_option vn_vector (map_of nodes e)) else Some e)"
    let ?nodes' = "filter (\<lambda>(i, n). i \<notin> set dead) nodes"
    let ?idx = "idx\<lparr>vi_nodes := ?nodes', vi_entry_point := entry\<rparr>"
    have run: "vi_consolidate F idx = Inr (card T, ?idx)"
      using False unfolding vi_consolidate_def Let_def dead_def [symmetric] ids_def [symmetric] entry_def nodes_def
      by (simp add: rs(1) len)
    have purged: "map_of ?nodes' = purged (map_of nodes)"
      using map_of_filter_live [OF nodes(1), of dead] data(3) dead(1) ok(5) by simp
    have good: "graph_ok ?P (purged (map_of nodes))"
      unfolding nodes(2) by (rule purged_ok [OF rs(2) ok(2)]) (simp add: ids(1) ok(4))
    have live: "live_vectors (purged (map_of nodes)) = M" using data(2) ok(4) by simp
    have entry: "case entry of None \<Rightarrow> ?nodes' = [] | Some e \<Rightarrow> e \<in> dom (purged (map_of nodes))"
    proof (cases "vi_entry_point idx")
      case None
      then have "?nodes = []" using assms by (simp add: vi_denotes_def vi_ok_def)
      then show ?thesis using False by (simp add: dead_def)
    next
      case (Some e)
      show ?thesis
      proof (cases "case map_of nodes e of None \<Rightarrow> True | Some n \<Rightarrow> vn_deleted n")
        case dead_entry: True
        then have "entry = nearest_live F nodes (map_option vn_vector (map_of nodes e))" by (simp add: entry_def Some)
        then have spec: "case entry of None \<Rightarrow> filter (\<lambda>(i, n). \<not> vn_deleted n) nodes = []
            | Some e \<Rightarrow> \<exists>n. (e, n) \<in> set nodes \<and> \<not> vn_deleted n"
          by (simp only: nearest_live_spec)
        show ?thesis
        proof (cases entry)
          case None
          then have "filter (\<lambda>(i, n). \<not> vn_deleted n) nodes = []" using spec by simp
          then have "\<forall>(i, n) \<in> set nodes. i \<in> tombstones (map_of nodes)"
            using map_of_eq_Some [OF nodes(1)] by (fastforce simp: filter_empty_conv tombstones_def)
          then have "?nodes' = []" using data(3) dead(1) ok(5) by (auto simp: filter_empty_conv)
          then show ?thesis using None by simp
        next
          case some: (Some a)
          then obtain n where "(a, n) \<in> set nodes" "\<not> vn_deleted n"
            using spec by auto
          then have "map_of nodes a = Some n" "\<not> vn_deleted n" using map_of_eq_Some [OF nodes(1)] by blast+
          then show ?thesis using some by (simp add: purged_def dom_def)
        qed
      next
        case False
        then show ?thesis by (auto simp: entry_def Some live_vectors_def split: option.splits)
      qed
    qed
    have "vi_denotes ?idx (M, {})"
      using nodes(1) good live ok(3) entry unfolding vi_denotes_def vi_ok_def prod.case by (simp add: purged cong: option.case_cong)
    then show ?thesis using run by auto
  qed
qed

lemma vi_call_denotes:
  assumes "vi_denotes idx S" "vp_dim (vi_params idx) = d"
  shows "fst (vi_call F c idx) = fst (vectors_spec d c S) \<and> vi_denotes (snd (vi_call F c idx)) (snd (vectors_spec d c S))
    \<and> vp_dim (vi_params (snd (vi_call F c idx))) = d"
proof -
  obtain M T where S: "S = (M, T)" by (cases S)
  note D = assms(1) [unfolded S]
  show ?thesis
  proof (cases c)
    case (VInsert i v)
    show ?thesis using vi_insert_denotes [OF D, where i = i and v = v and F = F] D assms(2)
      by (auto simp: VInsert S split: if_splits)
  next
    case (VDelete i)
    show ?thesis using vi_delete_denotes [OF D, of i] assms(2) by (cases "i \<in> dom M") (auto simp: VDelete S simp del: domIff not_None_eq)
  next
    case VConsolidate
    show ?thesis using vi_consolidate_denotes [OF D, where F = F] assms(2) by (auto simp: VConsolidate S)
  qed
qed

text \<open>
  C18. Any sequence of insertions, deletions and consolidations on a new index answers as the plain map of
  vectors with its set of tombstones does, wrong dimensions and duplicate ids included, and leaves a
  well-formed graph: degrees bounded, no node its own neighbor, every edge of a live node at an existing
  node, the entry point an existing node, and the live count that of the map.
\<close>

theorem vector_index_refines:
  "fst (run_calls (vi_call F) cs (vi_new P)) = fst (run_calls (vectors_spec (vp_dim P)) cs (Map.empty, {}))
   \<and> vi_denotes (snd (run_calls (vi_call F) cs (vi_new P))) (snd (run_calls (vectors_spec (vp_dim P)) cs (Map.empty, {})))"
proof -
  let ?R = "\<lambda>idx S. vi_denotes idx S \<and> vp_dim (vi_params idx) = vp_dim P"
  have "?R (vi_new P) (Map.empty, {})" using vi_new_denotes by (simp add: vi_new_def)
  then have "fst (run_calls (vi_call F) cs (vi_new P)) = fst (run_calls (vectors_spec (vp_dim P)) cs (Map.empty, {}))
     \<and> ?R (snd (run_calls (vi_call F) cs (vi_new P))) (snd (run_calls (vectors_spec (vp_dim P)) cs (Map.empty, {})))"
    by (rule run_calls_simulated) (use vi_call_denotes in blast)
  then show ?thesis by blast
qed

text \<open>What a search returns: the live nodes a greedy walk can come to, nearest first.\<close>

definition ranked_live :: "f32_ops \<Rightarrow> node_map \<Rightarrow> u64 \<Rightarrow> f32 list \<Rightarrow> nat \<Rightarrow> scored \<Rightarrow> bool" where
  "ranked_live F G entry query beam xs \<longleftrightarrow> measured F G query xs \<and> sorted_scored xs
     \<and> fst ` set xs \<subseteq> dom (live_vectors G) \<inter> reach G entry
     \<and> (card (reach G entry) \<le> beam \<longrightarrow> fst ` set xs = dom (live_vectors G) \<inter> reach G entry)"

lemma search_ranked:
  assumes "node_view node I G" "G entry = Some e" "0 < k" "k \<le> beam"
  shows "\<exists>xs. reads I (search_live_scored F node entry query beam k) (Inr (take k xs)) \<and> ranked_live F G entry query beam xs"
proof -
  have live: "node_view.live G j \<longleftrightarrow> j \<in> dom (live_vectors G)" for j
    by (simp add: node_view.live_def [OF assms(1)] dom_live)
  obtain xs where xs: "reads I (search_live_scored F node entry query beam k) (Inr (take k xs))" "measured F G query xs"
    "sorted_scored xs" "\<forall>(i, d) \<in> set xs. i \<in> dom (live_vectors G)" "fst ` set xs \<subseteq> reach G entry"
    "card (reach G entry) \<le> beam \<longrightarrow> fst ` set xs = {i \<in> reach G entry. i \<in> dom (live_vectors G)}"
    using node_view.walk_search_reads [OF assms, of F query] unfolding live by (elim exE conjE) (rule that)
  have "fst ` set xs \<subseteq> dom (live_vectors G)" using xs(4) by (force simp del: domIff)
  then have "ranked_live F G entry query beam xs" using xs(2,3,5,6) unfolding ranked_live_def by blast
  then show ?thesis using xs(1) by blast
qed

text \<open>
  C19. A search over a well-formed index fails on a query of the wrong dimension, and otherwise returns the
  first \<open>k\<close> of a ranking of live nodes by their distance to the query, without repeats and
  ascending; when the beam is as wide as what can be reached from the entry point, the
  ranking is of all live nodes that can be reached, so the result is the exact \<open>k\<close> nearest.
\<close>

theorem vector_search_correct:
  assumes "vi_ok idx"
  shows "if length query \<noteq> vp_dim (vi_params idx)
    then vi_search_scored F idx query k = Inl (VectorDimensionMismatch (vp_dim (vi_params idx)) (length query))
    else case vi_entry_point idx of
        None \<Rightarrow> vi_search_scored F idx query k = Inr [] \<and> vi_nodes idx = []
      | Some entry \<Rightarrow> \<exists>xs. vi_search_scored F idx query k = Inr (take k xs)
          \<and> ranked_live F (map_of (vi_nodes idx)) entry query (max (vp_beam_width (vi_params idx)) k) xs"
proof (cases "length query = vp_dim (vi_params idx)")
  case dim: True
  show ?thesis
  proof (cases "vi_entry_point idx")
    case None
    then show ?thesis using assms dim by (simp add: vi_search_scored_def vi_ok_def)
  next
    case (Some entry)
    let ?G = "map_of (vi_nodes idx)" and ?b = "max (vp_beam_width (vi_params idx)) k"
    obtain e where e: "?G entry = Some e" using assms Some by (auto simp: vi_ok_def)
    have "\<exists>xs. vi_search_scored F idx query k = Inr (take k xs) \<and> ranked_live F ?G entry query ?b xs"
    proof (cases "k = 0")
      case True
      obtain xs where "ranked_live F ?G entry query ?b xs"
      proof (cases "?b = 0")
        case b: True
        have "reach ?G entry \<noteq> {}" by (auto simp: reach_def)
        then have "\<not> card (reach ?G entry) \<le> ?b" using b by simp
        then show ?thesis using that [of "[]"] by (simp add: ranked_live_def measured_def sorted_scored_def)
      next
        case False
        then have "0 < (1 :: nat)" "1 \<le> ?b" by linarith+
        from search_ranked [OF ram.node_view_axioms e this, of F query] show ?thesis using that by blast
      qed
      then show ?thesis using True dim Some by (auto simp: vi_search_scored_def)
    next
      case False
      then show ?thesis
        using search_ranked [OF ram.node_view_axioms e, of k ?b F query] dim Some in_ram_reads
        by (auto simp: vi_search_scored_def)
    qed
    then show ?thesis using dim Some by simp
  qed
qed (simp add: vi_search_scored_def)

subsection \<open>A concrete index\<close>

definition toy_f32 :: f32_ops where
  "toy_f32 = \<lparr>f_add = (+), f_sub = (-), f_mul = (*), f_div = (div), f_sqrt = id, f_le = (\<le>), f_gt = (>)\<rparr>"

definition toy_params :: vector_index_params where
  "toy_params = \<lparr>vp_dim = 1, vp_max_degree = 2, vp_beam_width = 4, vp_alpha = 1\<rparr>"

definition toy_graph :: vector_index where
  "toy_graph = \<lparr>vi_params = toy_params,
     vi_nodes = [(7, live_node [3] [9]), (9, \<lparr>vn_vector = [5], vn_neighbors = [7], vn_deleted = True\<rparr>)],
     vi_live_count = 1, vi_entry_point = Some 9\<rparr>"

lemma toy_graph_ok: "vi_ok toy_graph"
proof -
  have "live_vectors (map_of (vi_nodes toy_graph)) = [7 \<mapsto> [3]]"
    by (auto simp: fun_eq_iff live_vectors_def toy_graph_def live_node_def)
  moreover have "graph_ok toy_params (map_of (vi_nodes toy_graph))"
    by (auto simp: graph_ok_def node_ok_def toy_graph_def toy_params_def live_node_def split: if_splits)
  ultimately show ?thesis by (simp add: vi_ok_def toy_graph_def)
qed

lemma toy_reach: "reach (map_of (vi_nodes toy_graph)) 9 = {7, 9}"
proof
  have edge: "graph_edge_rel (map_of (vi_nodes toy_graph)) = {(7, 9), (9, 7)}"
    by (auto simp: graph_edge_rel_def toy_graph_def live_node_def split: if_splits)
  have "v \<in> {7, 9}" if "(9, v) \<in> (graph_edge_rel (map_of (vi_nodes toy_graph)))\<^sup>*" for v
    using that by (induction rule: rtrancl_induct) (auto simp: edge)
  then show "reach (map_of (vi_nodes toy_graph)) 9 \<subseteq> {7, 9}" unfolding reach_def by blast
  show "{7, 9} \<subseteq> reach (map_of (vi_nodes toy_graph)) 9" by (auto simp: reach_def edge)
qed

theorem vector_search_correct_witness:
  "\<exists>d. vi_search_scored toy_f32 toy_graph [4] 3 = Inr [(7, d)]"
proof -
  obtain xs where xs: "vi_search_scored toy_f32 toy_graph [4] 3 = Inr (take 3 xs)"
    "ranked_live toy_f32 (map_of (vi_nodes toy_graph)) 9 [4] 4 xs"
    using vector_search_correct [OF toy_graph_ok, of "[4]" toy_f32 3] by (auto simp: toy_graph_def toy_params_def)
  have "dom (live_vectors (map_of (vi_nodes toy_graph))) = {7}"
    by (auto simp: dom_live toy_graph_def live_node_def split: if_splits)
  then have "fst ` set xs = {7}" "distinct (map fst xs)" using xs(2) by (auto simp: ranked_live_def toy_reach measured_def)
  then have "length xs = 1" using distinct_card [of "map fst xs"] by simp
  then obtain x where "xs = [x]" by (auto simp: length_Suc_conv)
  then show ?thesis using xs(1) \<open>fst ` set xs = {7}\<close> by (cases x) auto
qed

end
