(* ===== verification/Vector_Index.thy ===== *)
theory Vector_Index
  imports Index_Chunks Vector_Ram
begin

text \<open>
  The persisted vector index (\<open>idx/vector/persistent.rs\<close>): one record per node and one metadata
  record in the store, a handle with the entry point, the live count and a bounded cache of
  decoded nodes. Insertions and deletions, alone or in groups and with operations of the caller
  in the same batch, consolidation and rebuild in chunks, opening with its fall-back to a
  rebuild, and search. The graph is what the store holds (\<open>vector_nodes\<close>); the handle is a view of
  it (\<open>handle_ok\<close>). Tables are kept in key order, where the code uses a \<open>HashMap\<close>.
\<close>

subsection \<open>The handle\<close>

definition CACHE_CAP :: nat where "CACHE_CAP = 4096"
definition REBUILD_CHUNK :: nat where "REBUILD_CHUNK = 512"

record vector_handle =
  ph_params :: vector_index_params
  ph_entry_point :: "u64 option"
  ph_epoch :: u64
  ph_count :: u64
  ph_rebuilt_on_open :: bool
  ph_cache :: pending

type_synonym vstate = "store \<times> vector_handle"

definition cache_put :: "u64 \<Rightarrow> vector_node \<Rightarrow> pending \<Rightarrow> pending" where
  "cache_put i n cache =
     om_insert i n (if map_of cache i = None \<and> length cache \<ge> CACHE_CAP then [] else cache)"

definition cache_node :: "u64 \<Rightarrow> vector_node \<Rightarrow> (vstate, unit) op" where
  "cache_node i n = (\<lambda>(s, h). (Inr (), (s, h\<lparr>ph_cache := cache_put i n (ph_cache h)\<rparr>)))"

definition engine_node :: "externals \<Rightarrow> vstate node_provider" where
  "engine_node X i =
     obind handle (\<lambda>h. case map_of (ph_cache h) i of
       Some hit \<Rightarrow> oret (Some hit)
     | None \<Rightarrow>
         obind (on_store (kv_get X (node_key i))) (\<lambda>found. case found of
           None \<Rightarrow> oret None
         | Some bs \<Rightarrow>
             obind (olift (decode_vector_node bs)) (\<lambda>decoded.
             obind (cache_node i decoded) (\<lambda>_. oret (Some decoded)))))"

definition pending_node :: "externals \<Rightarrow> pending \<Rightarrow> vstate node_provider" where
  "pending_node X pend i = (case map_of pend i of Some hit \<Rightarrow> oret (Some hit) | None \<Rightarrow> engine_node X i)"

text \<open>The handle after a committed change.\<close>

definition adopt :: "u64 \<Rightarrow> u64 option \<Rightarrow> pending \<Rightarrow> (vstate, unit) op" where
  "adopt count entry changed = (\<lambda>(s, h). (Inr (), (s, h\<lparr>ph_count := count, ph_entry_point := entry,
     ph_cache := fold (\<lambda>(i, n). cache_put i n) changed (ph_cache h)\<rparr>)))"

subsection \<open>Staging\<close>

definition stage_node :: "u64 \<times> vector_node \<Rightarrow> batch \<Rightarrow> batch engine_result" where
  "stage_node = (\<lambda>(i, n) batch. rbind (encode_vector_node n) (\<lambda>bs. Inr (batch_put (node_key i) bs batch)))"

definition handle_meta :: "vector_handle \<Rightarrow> u64 \<Rightarrow> u64 option \<Rightarrow> vector_index_meta" where
  "handle_meta h count entry =
     \<lparr>vx_params = ph_params h, vx_epoch = ph_epoch h, vx_count = count, vx_entry_point = entry\<rparr>"

definition stage_vector_meta :: "vector_index_meta \<Rightarrow> batch \<Rightarrow> batch engine_result" where
  "stage_vector_meta meta batch = rbind (encode_vector_meta meta) (\<lambda>bs. Inr (batch_put vector_meta_key bs batch))"

text \<open>Companion operations of the caller on their own, when there are any.\<close>

definition apply_extra :: "externals \<Rightarrow> (nat \<Rightarrow> nat \<Rightarrow> bytes) \<Rightarrow> batch \<Rightarrow> (store \<times> 'h, unit) op" where
  "apply_extra X rnd extra = (if extra = [] then oret () else on_store (apply_batch X rnd extra))"

subsection \<open>Insertion\<close>

definition pv_insert_with ::
  "f32_ops \<Rightarrow> externals \<Rightarrow> (nat \<Rightarrow> nat \<Rightarrow> bytes) \<Rightarrow> u64 \<Rightarrow> f32 list \<Rightarrow> batch \<Rightarrow> (vstate, unit) op" where
  "pv_insert_with F X rnd i vector extra =
     obind handle (\<lambda>h.
     obind (plan_insert F (ph_params h) (engine_node X) (ph_entry_point h) i vector) (\<lambda>(changed, entry).
     obind (olift (rfold stage_node changed [])) (\<lambda>batch.
     obind (olift (stage_vector_meta (handle_meta h (ph_count h + 1) (Some entry)) batch)) (\<lambda>batch.
     obind (on_store (apply_batch X rnd (batch_extend_from extra batch))) (\<lambda>_.
       adopt (ph_count h + 1) (Some entry) changed)))))"

definition pv_insert :: "f32_ops \<Rightarrow> externals \<Rightarrow> (nat \<Rightarrow> nat \<Rightarrow> bytes) \<Rightarrow> u64 \<Rightarrow> f32 list \<Rightarrow> (vstate, unit) op" where
  "pv_insert F X rnd i vector = pv_insert_with F X rnd i vector []"

definition plan_item ::
  "f32_ops \<Rightarrow> externals \<Rightarrow> vector_index_params \<Rightarrow> u64 \<times> f32 list \<Rightarrow> pending \<times> u64 option \<times> batch \<Rightarrow> (vstate, pending \<times> u64 option \<times> batch) op" where
  "plan_item F X params = (\<lambda>(i, vector) (pend, entry_point, batch).
     obind (plan_insert F params (pending_node X pend) entry_point i vector) (\<lambda>(changed, entry).
     obind (olift (rfold stage_node changed batch)) (\<lambda>batch.
       oret (om_inserts changed pend, Some entry, batch))))"

definition pv_insert_many_with ::
  "f32_ops \<Rightarrow> externals \<Rightarrow> (nat \<Rightarrow> nat \<Rightarrow> bytes) \<Rightarrow> (u64 \<times> f32 list) list \<Rightarrow> batch \<Rightarrow> (vstate, unit) op" where
  "pv_insert_many_with F X rnd items extra =
     (if items = [] then apply_extra X rnd extra
      else
        obind handle (\<lambda>h.
        obind (ofold (plan_item F X (ph_params h)) items ([], ph_entry_point h, [])) (\<lambda>(pend, entry_point, batch).
        let count = ph_count h + word_of_nat (length items)
        in obind (olift (stage_vector_meta (handle_meta h count entry_point) batch)) (\<lambda>batch.
           obind (on_store (apply_batch X rnd (batch_extend_from extra batch))) (\<lambda>_.
             adopt count entry_point pend)))))"

subsection \<open>Deletion\<close>

definition u64_saturating_sub :: "u64 \<Rightarrow> u64 \<Rightarrow> u64" where
  "u64_saturating_sub a b = (if a < b then 0 else a - b)"

definition pv_delete_with :: "externals \<Rightarrow> (nat \<Rightarrow> nat \<Rightarrow> bytes) \<Rightarrow> u64 \<Rightarrow> batch \<Rightarrow> (vstate, bool) op" where
  "pv_delete_with X rnd i extra =
     obind (engine_node X i) (\<lambda>existing.
     case (case existing of None \<Rightarrow> None | Some n \<Rightarrow> if vn_deleted n then None else Some n) of
       None \<Rightarrow> obind (apply_extra X rnd extra) (\<lambda>_. oret False)
     | Some n \<Rightarrow>
         obind handle (\<lambda>h.
         let tombstoned = n\<lparr>vn_deleted := True\<rparr>;
             count = u64_saturating_sub (ph_count h) 1
         in obind (olift (stage_node (i, tombstoned) [])) (\<lambda>batch.
            obind (olift (stage_vector_meta (handle_meta h count (ph_entry_point h)) batch)) (\<lambda>batch.
            obind (on_store (apply_batch X rnd (batch_extend_from extra batch))) (\<lambda>_.
            obind (adopt count (ph_entry_point h) [(i, tombstoned)]) (\<lambda>_. oret True))))))"

definition pv_delete :: "externals \<Rightarrow> (nat \<Rightarrow> nat \<Rightarrow> bytes) \<Rightarrow> u64 \<Rightarrow> (vstate, bool) op" where
  "pv_delete X rnd i = pv_delete_with X rnd i []"

definition collect_live :: "externals \<Rightarrow> u64 \<Rightarrow> pending \<times> u64 set \<Rightarrow> (vstate, pending \<times> u64 set) op" where
  "collect_live X i = (\<lambda>(pend, seen).
     if i \<in> seen then oret (pend, seen)
     else obind (engine_node X i) (\<lambda>existing. oret (case existing of
            None \<Rightarrow> pend
          | Some n \<Rightarrow> if vn_deleted n then pend else pend @ [(i, n\<lparr>vn_deleted := True\<rparr>)], insert i seen)))"

definition pv_delete_many_with :: "externals \<Rightarrow> (nat \<Rightarrow> nat \<Rightarrow> bytes) \<Rightarrow> u64 list \<Rightarrow> batch \<Rightarrow> (vstate, u64) op" where
  "pv_delete_many_with X rnd is extra =
     obind (ofold (collect_live X) is ([], {})) (\<lambda>(pend, seen).
       if pend = [] then obind (apply_extra X rnd extra) (\<lambda>_. oret 0)
       else
         obind handle (\<lambda>h.
         let removed = word_of_nat (length pend);
             count = u64_saturating_sub (ph_count h) removed
         in obind (olift (rfold stage_node pend [])) (\<lambda>batch.
            obind (olift (stage_vector_meta (handle_meta h count (ph_entry_point h)) batch)) (\<lambda>batch.
            obind (on_store (apply_batch X rnd (batch_extend_from extra batch))) (\<lambda>_.
            obind (adopt count (ph_entry_point h) pend) (\<lambda>_. oret removed))))))"

definition approx_tombstone_wire_bytes :: "vector_handle \<Rightarrow> nat" where
  "approx_tombstone_wire_bytes h = length (node_key 0) + vp_dim (ph_params h) * 4 + vp_max_degree (ph_params h) * 8 + 64"

subsection \<open>Search\<close>

definition pv_search_scored :: "f32_ops \<Rightarrow> externals \<Rightarrow> f32 list \<Rightarrow> nat \<Rightarrow> (vstate, scored) op" where
  "pv_search_scored F X query k =
     obind handle (\<lambda>h.
       if length query \<noteq> vp_dim (ph_params h)
       then olift (Inl (VectorDimensionMismatch (vp_dim (ph_params h)) (length query)))
       else case ph_entry_point h of
           None \<Rightarrow> oret []
         | Some entry \<Rightarrow>
             if k = 0 then oret []
             else search_live_scored F (engine_node X) entry query (max (vp_beam_width (ph_params h)) k) k)"

definition pv_search :: "f32_ops \<Rightarrow> externals \<Rightarrow> f32 list \<Rightarrow> nat \<Rightarrow> (vstate, u64 list) op" where
  "pv_search F X query k = obind (pv_search_scored F X query k) (\<lambda>xs. oret (map fst xs))"

subsection \<open>Consolidation\<close>

definition read_node :: "bytes \<times> bytes \<Rightarrow> pending \<Rightarrow> pending engine_result" where
  "read_node = (\<lambda>(key, value) nodes. case node_id key of
       None \<Rightarrow> Inl (Corrupt VectorNode)
     | Some i \<Rightarrow> rbind (decode_vector_node value) (\<lambda>n. Inr (om_insert i n nodes)))"

definition stage_nodes :: "pending \<Rightarrow> batch engine_result" where
  "stage_nodes chunk = rfold stage_node chunk []"

definition stage_removals :: "u64 list \<Rightarrow> batch engine_result" where
  "stage_removals chunk = Inr (fold (\<lambda>i batch. batch_delete (node_key i) batch) chunk [])"

definition pv_consolidate :: "f32_ops \<Rightarrow> externals \<Rightarrow> (nat \<Rightarrow> nat \<Rightarrow> nat \<Rightarrow> bytes) \<Rightarrow> (vstate, u64) op" where
  "pv_consolidate F X rnds =
     obind (on_store (kv_scan X NODE_PREFIX)) (\<lambda>entries.
     obind (olift (rfold read_node entries [])) (\<lambda>nodes.
     obind handle (\<lambda>h.
     let dead_ids = map fst (filter (\<lambda>(i, n). vn_deleted n) nodes);
         live_ids = map fst (filter (\<lambda>(i, n). \<not> vn_deleted n) nodes);
         live_count = word_of_nat (length live_ids)
     in if dead_ids = [] then obind (set_handle (h\<lparr>ph_count := live_count\<rparr>)) (\<lambda>_. oret 0)
        else
          obind (olift (in_ram (ofold (push_repair F (ph_params h) (map_node nodes)) live_ids []))) (\<lambda>repaired.
          obind (write_batches X rnds stage_nodes 0 (chunks_of REBUILD_CHUNK repaired)) (\<lambda>j.
          let entry_point = (case ph_entry_point h of
                Some e \<Rightarrow> if e \<notin> set dead_ids \<and> map_of nodes e \<noteq> None then Some e
                          else nearest_live F nodes (map_option vn_vector (map_of nodes e))
              | None \<Rightarrow> nearest_live F nodes None)
          in obind (olift (stage_vector_meta (handle_meta h live_count entry_point) [])) (\<lambda>meta_batch.
             obind (on_store (apply_batch X (rnds j) meta_batch)) (\<lambda>_.
             obind (write_batches X rnds stage_removals (j + 1) (chunks_of REBUILD_CHUNK dead_ids)) (\<lambda>_.
             obind (set_handle (h\<lparr>ph_entry_point := entry_point, ph_count := live_count, ph_cache := []\<rparr>)) (\<lambda>_.
               oret (word_of_nat (length dead_ids)))))))))))"

subsection \<open>Rebuild and open\<close>

definition read_vector ::
  "vector_index_params \<Rightarrow> bytes \<times> bytes \<Rightarrow> (u64 \<times> f32 list) list \<times> u64 list \<Rightarrow> ((u64 \<times> f32 list) list \<times> u64 list) engine_result" where
  "read_vector params = (\<lambda>(key, value) (vectors, tombs). case node_id key of
       None \<Rightarrow> Inl (Corrupt VectorNode)
     | Some i \<Rightarrow> rbind (decode_vector_node value) (\<lambda>n.
         if vn_deleted n then Inr (vectors, tombs @ [i])
         else if length (vn_vector n) \<noteq> vp_dim params
              then Inl (VectorDimensionMismatch (vp_dim params) (length (vn_vector n)))
         else Inr (vectors @ [(i, vn_vector n)], tombs)))"

definition pv_rebuild_from_store ::
  "f32_ops \<Rightarrow> externals \<Rightarrow> (nat \<Rightarrow> nat \<Rightarrow> nat \<Rightarrow> bytes) \<Rightarrow> vector_index_params \<Rightarrow> u64 option \<Rightarrow> (store \<times> 'h, vector_handle) op" where
  "pv_rebuild_from_store F X rnds params prior_epoch =
     obind (on_store (apply_batch X (rnds 0) (batch_delete vector_meta_key []))) (\<lambda>_.
     obind (on_store (kv_scan X NODE_PREFIX)) (\<lambda>entries.
     obind (olift (rfold (read_vector params) entries ([], []))) (\<lambda>(vectors, tombs).
     obind (olift (rfold (\<lambda>(i, v). vi_insert F i v) vectors (vi_new params))) (\<lambda>ram.
     obind (write_batches X rnds stage_nodes 1 (chunks_of REBUILD_CHUNK (vi_nodes ram))) (\<lambda>j.
     obind (write_batches X rnds stage_removals j (chunks_of REBUILD_CHUNK tombs)) (\<lambda>j.
     let epoch = (case prior_epoch of None \<Rightarrow> 1 | Some e \<Rightarrow> e + 1);
         count = word_of_nat (vi_live_count ram)
     in obind (olift (stage_vector_meta \<lparr>vx_params = params, vx_epoch = epoch, vx_count = count, vx_entry_point = vi_entry_point ram\<rparr> [])) (\<lambda>meta_batch.
        obind (on_store (apply_batch X (rnds j) meta_batch)) (\<lambda>_.
          oret \<lparr>ph_params = params, ph_entry_point = vi_entry_point ram, ph_epoch = epoch, ph_count = count,
                ph_rebuilt_on_open = True, ph_cache = []\<rparr>))))))))"

definition pv_rebuild :: "f32_ops \<Rightarrow> externals \<Rightarrow> (nat \<Rightarrow> nat \<Rightarrow> nat \<Rightarrow> bytes) \<Rightarrow> (vstate, unit) op" where
  "pv_rebuild F X rnds =
     obind handle (\<lambda>h. obind (pv_rebuild_from_store F X rnds (ph_params h) (Some (ph_epoch h))) set_handle)"

definition opened :: "vector_index_params \<Rightarrow> u64 option \<Rightarrow> u64 \<Rightarrow> u64 \<Rightarrow> vector_handle" where
  "opened params entry epoch count = \<lparr>ph_params = params, ph_entry_point = entry, ph_epoch = epoch, ph_count = count,
     ph_rebuilt_on_open = False, ph_cache = []\<rparr>"

definition pv_open ::
  "f32_ops \<Rightarrow> externals \<Rightarrow> (nat \<Rightarrow> nat \<Rightarrow> nat \<Rightarrow> bytes) \<Rightarrow> vector_index_params \<Rightarrow> (store \<times> 'h, vector_handle) op" where
  "pv_open F X rnds params =
     obind (on_store (kv_get X vector_meta_key)) (\<lambda>found. case found of
       Some bs \<Rightarrow> (case decode_vector_meta bs of
           Inr stored \<Rightarrow>
             if vp_dim (vx_params stored) \<noteq> vp_dim params
             then olift (Inl (VectorDimensionMismatch (vp_dim (vx_params stored)) (vp_dim params)))
             else
               obind (case vx_entry_point stored of
                   Some entry \<Rightarrow> obind (on_store (kv_get X (node_key entry))) (\<lambda>block. oret (block \<noteq> None))
                 | None \<Rightarrow> oret (vx_count stored = 0)) (\<lambda>entry_resolves.
                 if \<not> entry_resolves then pv_rebuild_from_store F X rnds params (Some (vx_epoch stored))
                 else oret (opened (vx_params stored) (vx_entry_point stored) (vx_epoch stored) (vx_count stored)))
         | Inl e \<Rightarrow>
             if (case e of Corrupt a \<Rightarrow> a = VectorIndexMeta | UnsupportedVersion a _ _ \<Rightarrow> a = VectorIndexMeta | _ \<Rightarrow> False)
             then pv_rebuild_from_store F X rnds params None
             else olift (Inl e))
     | None \<Rightarrow>
         obind (on_store (kv_scan X NODE_PREFIX)) (\<lambda>entries.
           if entries = [] then oret (opened params None 0 0)
           else pv_rebuild_from_store F X rnds params None))"

subsection \<open>The graph a store holds\<close>

definition vector_nodes :: "(bytes \<rightharpoonup> bytes) \<Rightarrow> node_map" where
  "vector_nodes m i = (case held m (KVectorNode i) of
     None \<Rightarrow> None | Some v \<Rightarrow> (case decode_vector_node v of Inl e \<Rightarrow> None | Inr n \<Rightarrow> Some n))"

fun vector_key :: "logical_key \<Rightarrow> bool" where
  "vector_key (KVectorNode i) \<longleftrightarrow> True"
| "vector_key KVectorMeta \<longleftrightarrow> True"
| "vector_key _ \<longleftrightarrow> False"

lemma vector_key_ok [simp]: "key_ok (KVectorNode i)" "key_ok KVectorMeta"
  by (simp_all add: key_ok_def)

lemma key_bytes_vector [simp]: "key_bytes (KVectorNode i) = node_key i" "key_bytes KVectorMeta = vector_meta_key"
  by (simp_all add: key_bytes_def node_key_def vector_meta_key_def)

definition node_bytes :: "vector_node \<Rightarrow> bytes" where
  "node_bytes n = projr (encode_vector_node n)"

lemma vector_nodes_held:
  assumes "typed_map m"
  shows "vector_nodes m i = Some n \<longleftrightarrow> (\<exists>v. m (node_key i) = Some v \<and> decode_vector_node v = Inr n)"
    and "m (node_key i) = Some v \<Longrightarrow> \<exists>n. decode_vector_node v = Inr n \<and> vector_nodes m i = Some n"
proof -
  show "vector_nodes m i = Some n \<longleftrightarrow> (\<exists>v. m (node_key i) = Some v \<and> decode_vector_node v = Inr n)"
    by (auto simp: vector_nodes_def held_def split: option.splits sum.splits)
  show "\<exists>n. decode_vector_node v = Inr n \<and> vector_nodes m i = Some n" if h: "m (node_key i) = Some v"
  proof -
    have "value_fits (KVectorNode i) v" using typed_held [OF assms, of "KVectorNode i" v] h by (simp add: held_def)
    then obtain n where "encode_vector_node n = Inr v" by (auto simp: value_fits_def elim!: value_kind_of.elims)
    then show ?thesis using vector_node_roundtrip h by (auto simp: vector_nodes_def held_def)
  qed
qed

lemma vector_nodes_None: "typed_map m \<Longrightarrow> vector_nodes m i = None \<longleftrightarrow> m (node_key i) = None"
  using vector_nodes_held(2) by (fastforce simp: vector_nodes_def held_def split: option.splits)

lemma vector_frame:
  assumes "\<And>k. key_ok k \<Longrightarrow> vector_key k \<Longrightarrow> held m' k = held m k"
  shows "vector_nodes m' = vector_nodes m" "held m' KVectorMeta = held m KVectorMeta"
  using assms by (simp_all add: fun_eq_iff vector_nodes_def)

text \<open>What the handle must agree with: the nodes of the store, and its metadata record.\<close>

definition coherent :: "node_map \<Rightarrow> pending \<Rightarrow> bool" where
  "coherent G cache \<longleftrightarrow> sorted_keys cache \<and> length cache \<le> CACHE_CAP \<and> (\<forall>(i, n) \<in> set cache. G i = Some n)"

definition params_fit :: "vector_index_params \<Rightarrow> bool" where
  "params_fit P \<longleftrightarrow> vp_dim P < 2 ^ 16 \<and> vp_max_degree P < 2 ^ 16 \<and> vp_beam_width P < 2 ^ 16"

definition meta_matches :: "(bytes \<rightharpoonup> bytes) \<Rightarrow> vector_handle \<Rightarrow> bool" where
  "meta_matches m h \<longleftrightarrow> (case held m KVectorMeta of
     None \<Rightarrow> vector_nodes m = Map.empty \<and> ph_entry_point h = None \<and> ph_epoch h = 0
   | Some v \<Rightarrow> decode_vector_meta v =
       Inr (handle_meta h (ph_count h) (if ph_count h = 0 then None else ph_entry_point h)))"

definition handle_ok :: "(bytes \<rightharpoonup> bytes) \<Rightarrow> vector_handle \<Rightarrow> bool" where
  "handle_ok m h \<longleftrightarrow> typed_map m \<and> params_fit (ph_params h) \<and> graph_ok (ph_params h) (vector_nodes m)
     \<and> unat (ph_count h) = card (dom (live_vectors (vector_nodes m)))
     \<and> (case ph_entry_point h of None \<Rightarrow> dom (live_vectors (vector_nodes m)) = {} | Some e \<Rightarrow> e \<in> dom (vector_nodes m))
     \<and> meta_matches m h \<and> coherent (vector_nodes m) (ph_cache h)"

lemma handle_ok_frame:
  assumes "handle_ok m h" "\<And>k. key_ok k \<Longrightarrow> vector_key k \<Longrightarrow> held m' k = held m k" "typed_map m'"
  shows "handle_ok m' h"
proof -
  have eq: "vector_nodes m' = vector_nodes m" "held m' KVectorMeta = held m KVectorMeta" using assms(2) by (simp_all add: fun_eq_iff vector_nodes_def)
  show ?thesis using assms(1,3) unfolding handle_ok_def meta_matches_def eq by blast
qed

subsection \<open>The cached provider\<close>

lemma cache_put_update:
  assumes "coherent G cache"
  shows "coherent (G(i \<mapsto> n)) (cache_put i n cache)"
proof -
  let ?c = "if map_of cache i = None \<and> length cache \<ge> CACHE_CAP then [] else cache"
  have c: "sorted_keys ?c" "\<forall>(j, n) \<in> set ?c. G j = Some n" "length ?c \<le> CACHE_CAP"
    and room: "map_of ?c i = None \<Longrightarrow> length ?c < CACHE_CAP"
    using assms by (auto simp: coherent_def CACHE_CAP_def)
  have "length (om_insert i n ?c) \<le> CACHE_CAP"
    using length_om_insert [OF c(1), of i n] c(3) room by (cases "map_of ?c i") (auto simp del: if_split_asm split: if_splits)
  moreover have "(G(i \<mapsto> n)) j = Some x" if x: "(j, x) \<in> set (om_insert i n ?c)" for j x
  proof -
    have "map_of (om_insert i n ?c) j = Some x" using x c(1) by (subst map_of_eq_Some) simp_all
    then have "((map_of ?c)(i \<mapsto> n)) j = Some x" using c(1) by simp
    then show ?thesis using c(2) map_of_SomeD [of ?c j x] by (cases "j = i") auto
  qed
  ultimately show ?thesis using c(1) unfolding coherent_def cache_put_def by auto
qed

lemma cache_put_coherent: "coherent G cache \<Longrightarrow> G i = Some n \<Longrightarrow> coherent G (cache_put i n cache)"
  using cache_put_update [of G cache i n] by (simp add: fun_upd_idem)

lemma cache_puts_update: "coherent G cache \<Longrightarrow> coherent (G ++ map_of (rev changed)) (fold (\<lambda>(i, n). cache_put i n) changed cache)"
proof (induction changed arbitrary: G cache)
  case (Cons x xs)
  obtain i n where x: "x = (i, n)" by (cases x)
  have "coherent (G(i \<mapsto> n) ++ map_of (rev xs)) (fold (\<lambda>(i, n). cache_put i n) xs (cache_put i n cache))"
    by (rule Cons.IH [OF cache_put_update [OF Cons.prems]])
  then show ?case by (simp add: x map_add_assoc [symmetric])
qed simp

text \<open>The handle up to its cache.\<close>

definition same_index :: "(bytes \<rightharpoonup> bytes) \<Rightarrow> vector_handle \<Rightarrow> vector_handle \<Rightarrow> bool" where
  "same_index m h0 h \<longleftrightarrow> (\<exists>c. h = h0\<lparr>ph_cache := c\<rparr> \<and> coherent (vector_nodes m) c)"

lemma same_index_fields:
  "same_index m h0 h \<Longrightarrow> ph_params h = ph_params h0 \<and> ph_entry_point h = ph_entry_point h0 \<and> ph_epoch h = ph_epoch h0
     \<and> ph_count h = ph_count h0 \<and> ph_rebuilt_on_open h = ph_rebuilt_on_open h0"
  by (auto simp: same_index_def)

definition vpeeks :: "externals \<Rightarrow> run list \<Rightarrow> store \<Rightarrow> (bytes \<rightharpoonup> bytes) \<Rightarrow> vector_handle \<Rightarrow> vstate \<Rightarrow> bool" where
  "vpeeks X runs st m h0 sh \<longleftrightarrow> typed_map m \<and> peeks_with X runs st m (same_index m h0) sh"

lemma same_index_ok: "handle_ok m h \<Longrightarrow> same_index m h h" "handle_ok m h \<Longrightarrow> same_index m h h' \<Longrightarrow> handle_ok m h'"
proof -
  show "same_index m h h" if "handle_ok m h" using that by (auto simp: same_index_def handle_ok_def intro!: exI [of _ "ph_cache h"])
  show "handle_ok m h'" if "handle_ok m h" "same_index m h h'"
    using that by (auto simp: same_index_def handle_ok_def meta_matches_def handle_meta_def split: option.splits)
qed

lemma engine_node_reads: "reads (vpeeks X runs st m h0) (engine_node X i) (Inr (vector_nodes m i))"
  unfolding reads_def
proof (intro allI impI)
  fix sh assume v: "vpeeks X runs st m h0 sh"
  obtain s h where sh: "sh = (s, h)" by (cases sh)
  obtain c where c: "h = h0\<lparr>ph_cache := c\<rparr>" "coherent (vector_nodes m) c" and s: "peeks X runs st m s" and t: "typed_map m"
    using v by (auto simp: vpeeks_def peeks_with_def sh same_index_def)
  show "\<exists>sh'. engine_node X i sh = (Inr (vector_nodes m i), sh') \<and> vpeeks X runs st m h0 sh'"
  proof (cases "map_of c i")
    case (Some n)
    then have "vector_nodes m i = Some n" using c(2) map_of_SomeD [OF Some] by (auto simp: coherent_def)
    then show ?thesis using Some c v by (simp add: engine_node_def obind_def handle_def sh oret_def)
  next
    case None
    obtain s' where s': "kv_get X (node_key i) s = (Inr (m (node_key i)), s')" "peeks X runs st m s'"
      using readsD [OF engine.get_map s] by blast
    show ?thesis
    proof (cases "m (node_key i)")
      case none: None
      then show ?thesis using None c s' v vector_nodes_None [OF t, of i]
        by (auto simp: engine_node_def obind_def handle_def sh oret_def on_store_def vpeeks_def peeks_with_def)
    next
      case (Some bs)
      obtain n where n: "decode_vector_node bs = Inr n" "vector_nodes m i = Some n" using vector_nodes_held(2) [OF t Some] by blast
      have "same_index m h0 (h0\<lparr>ph_cache := cache_put i n c\<rparr>)" using cache_put_coherent [OF c(2) n(2)] by (auto simp: same_index_def)
      then show ?thesis using None Some c s' n t
        by (simp add: engine_node_def obind_def handle_def sh oret_def olift_def on_store_def vpeeks_def peeks_with_def cache_node_def)
    qed
  qed
qed

interpretation stored: node_view "engine_node X" "vpeeks X runs st m h0" "vector_nodes m" for X runs st m h0
  by unfold_locales (rule engine_node_reads)

interpretation pended: node_view "pending_node X pend" "vpeeks X runs st m h0" "vector_nodes m ++ map_of pend" for X pend runs st m h0
  by unfold_locales (auto simp: pending_node_def map_add_def engine_node_reads split: option.split)

interpretation snapshot: node_view "map_node nodes" "\<lambda>_. True" "map_of nodes" for nodes
  by (rule ram.node_view_axioms)

subsection \<open>Batches of nodes\<close>

definition node_ops :: "pending \<Rightarrow> key_op list" where
  "node_ops changed = map (\<lambda>(i, n). (KVectorNode i, Some (node_bytes n))) changed"

definition removal_ops :: "u64 list \<Rightarrow> key_op list" where
  "removal_ops is = map (\<lambda>i. (KVectorNode i, None)) is"

definition meta_ops :: "vector_index_meta \<Rightarrow> key_op list" where
  "meta_ops meta = [(KVectorMeta, Some (projr (encode_vector_meta meta)))]"

definition node_fits :: "vector_index_params \<Rightarrow> vector_node \<Rightarrow> bool" where
  "node_fits P n \<longleftrightarrow> length (vn_vector n) = vp_dim P \<and> length (vn_neighbors n) \<le> max 1 (vp_max_degree P)"

lemma node_ok_fits: "node_ok P G i n \<Longrightarrow> node_fits P n"
  by (simp add: node_ok_def node_fits_def)

lemma node_encodes:
  assumes "node_fits P n" "params_fit P"
  shows "encode_vector_node n = Inr (node_bytes n)" "value_fits (KVectorNode i) (node_bytes n)"
    "decode_vector_node (node_bytes n) = Inr n" "length (node_bytes n) \<le> 15 + 4 * vp_dim P + 8 * max 1 (vp_max_degree P)"
proof -
  have f: "fits16 (vn_vector n)" "fits16 (vn_neighbors n)" using assms by (auto simp: node_fits_def params_fit_def fits16_def max_def split: if_splits)
  then show e: "encode_vector_node n = Inr (node_bytes n)" by (simp add: node_bytes_def encode_vector_node_def)
  then show "value_fits (KVectorNode i) (node_bytes n)" by (auto simp: value_fits_def intro!: exI [of _ "VNode n"])
  show "decode_vector_node (node_bytes n) = Inr n" by (rule vector_node_roundtrip [OF e])
  have "length (node_bytes n) = 15 + 4 * length (vn_vector n) + 8 * length (vn_neighbors n)"
    using f by (simp add: node_bytes_def encode_vector_node_def with_crc_def)
  then show "length (node_bytes n) \<le> 15 + 4 * vp_dim P + 8 * max 1 (vp_max_degree P)" using assms(1) by (simp add: node_fits_def)
qed

lemma meta_encodes:
  assumes "params_fit (vx_params meta)"
  shows "encode_vector_meta meta = Inr (projr (encode_vector_meta meta))" "value_fits KVectorMeta (projr (encode_vector_meta meta))"
    "length (projr (encode_vector_meta meta)) = 44"
proof -
  have f: "\<not> (vp_dim (vx_params meta) \<ge> 2 ^ 16 \<or> vp_max_degree (vx_params meta) \<ge> 2 ^ 16 \<or> vp_beam_width (vx_params meta) \<ge> 2 ^ 16)"
    using assms by (simp add: params_fit_def)
  then show e: "encode_vector_meta meta = Inr (projr (encode_vector_meta meta))" by (simp add: encode_vector_meta_def Let_def)
  then show "value_fits KVectorMeta (projr (encode_vector_meta meta))" by (auto simp: value_fits_def intro!: exI [of _ "VVectorMeta meta"])
  show "length (projr (encode_vector_meta meta)) = 44" using f by (simp add: encode_vector_meta_def Let_def with_crc_def)
qed

text \<open>What the metadata record decodes to: no entry point when the count is zero.\<close>

lemma meta_decodes:
  assumes "encode_vector_meta meta = Inr v"
  shows "decode_vector_meta v = Inr (meta\<lparr>vx_entry_point := if vx_count meta = 0 then None else Some (case vx_entry_point meta of Some e \<Rightarrow> e | None \<Rightarrow> 0)\<rparr>)"
proof -
  let ?m = "meta\<lparr>vx_entry_point := if vx_count meta = 0 then None else Some (case vx_entry_point meta of Some e \<Rightarrow> e | None \<Rightarrow> 0)\<rparr>"
  show ?thesis
  proof (cases "vx_count meta = 0 \<and> vx_entry_point meta \<noteq> None")
    case False
    then have "encode_vector_meta ?m = Inr v" using assms by (auto simp: encode_vector_meta_def Let_def split: option.splits)
    then show ?thesis by (rule vector_meta_roundtrip) (simp add: vector_meta_ok_def)
  next
    case True
    then obtain e where e: "vx_entry_point meta = Some e" "vx_count meta = 0" by auto
    define p where "p = vx_params meta"
    have f: "vp_dim p < 2 ^ 16" "vp_max_degree p < 2 ^ 16" "vp_beam_width p < 2 ^ 16"
      and v: "v = with_crc (u32_le VECTOR_INDEX_META_MAGIC @ u16_le VECTOR_INDEX_META_VERSION
            @ u16_le (word_of_nat (vp_dim p)) @ u16_le (word_of_nat (vp_max_degree p))
            @ u16_le (word_of_nat (vp_beam_width p)) @ u32_le (vp_alpha p) @ u64_le (vx_epoch meta)
            @ u64_le 0 @ u64_le e)"
      using assms by (auto simp: encode_vector_meta_def Let_def e p_def split: if_splits)
    have "block_open VectorIndexMeta True VECTOR_INDEX_META_MAGIC VECTOR_INDEX_META_VERSION v = Inr ()" "length v = 44"
      by (simp_all add: v)
    moreover have "unat (u16_of_le (slice 6 8 v)) = vp_dim p" "unat (u16_of_le (slice 8 10 v)) = vp_max_degree p"
      "unat (u16_of_le (slice 10 12 v)) = vp_beam_width p" "u32_of_le (slice 12 16 v) = vp_alpha p"
      "u64_of_le (slice 16 24 v) = vx_epoch meta" "u64_of_le (slice 24 32 v) = 0"
      using f by (simp_all add: v with_crc_def slice_def unat_of_nat)
    ultimately show ?thesis using e
      by (cases meta; cases "vx_params meta") (simp add: decode_vector_meta_def record_lens Let_def p_def split: if_splits)
  qed
qed

lemma stage_node_ops:
  assumes "\<forall>(i, n) \<in> set changed. node_fits P n" "params_fit P"
  shows "rfold stage_node changed batch = Inr (batch @ key_batch (node_ops changed))"
  using assms(1)
proof (induction changed arbitrary: batch)
  case (Cons x xs)
  obtain i n where x: "x = (i, n)" by (cases x)
  have "stage_node x batch = Inr (batch @ [(node_key i, Some (node_bytes n))])"
    using Cons.prems node_encodes(1) [OF _ assms(2), of n] by (simp add: stage_node_def x batch_put_def)
  then show ?case using Cons by (simp add: node_ops_def x)
qed (simp add: node_ops_def)

lemma stage_meta_ops:
  "params_fit (vx_params meta) \<Longrightarrow> stage_vector_meta meta batch = Inr (batch @ key_batch (meta_ops meta))"
  using meta_encodes(1) [of meta] by (cases "encode_vector_meta meta") (simp_all add: stage_vector_meta_def meta_ops_def batch_put_def)

lemma vector_ops_ok:
  "\<forall>(i, n) \<in> set changed. node_fits P n \<Longrightarrow> params_fit P \<Longrightarrow> \<forall>oper \<in> set (node_ops changed). op_ok oper"
  "\<forall>oper \<in> set (removal_ops is). op_ok oper"
  "params_fit (vx_params meta) \<Longrightarrow> \<forall>oper \<in> set (meta_ops meta). op_ok oper"
  using node_encodes(2) meta_encodes(2) by (auto simp: op_ok_def node_ops_def removal_ops_def meta_ops_def)

lemma held_keys_other:
  assumes "\<forall>(k, v) \<in> set ops. key_ok k" "key_ok k'" "k' \<notin> fst ` set ops"
  shows "held (apply_keys ops m) k' = held m k'"
proof -
  have "map_of (rev ops) k' = None" using assms(3) by (simp add: map_of_eq_None_iff)
  then show ?thesis by (simp add: held_apply_keys [OF assms(1,2)])
qed

lemma node_ops_keys: "fst ` set (node_ops changed) = KVectorNode ` fst ` set changed" "fst ` set (removal_ops is) = KVectorNode ` set is"
  "fst ` set (meta_ops meta) = {KVectorMeta}"
  by (simp_all add: node_ops_def removal_ops_def meta_ops_def image_image case_prod_beta)

text \<open>The graph after a batch of nodes: the last write to an id counts.\<close>

lemma apply_node_ops:
  assumes "\<forall>(i, n) \<in> set changed. node_fits P n" "params_fit P"
  shows "vector_nodes (apply_keys (node_ops changed) m) = vector_nodes m ++ map_of (rev changed)"
    "held (apply_keys (node_ops changed) m) KVectorMeta = held m KVectorMeta"
proof -
  have keys: "\<forall>(k, v) \<in> set (node_ops changed). key_ok k" by (auto simp: node_ops_def)
  have look: "map_of (rev (node_ops changed)) (KVectorNode i) = map_option (\<lambda>n. Some (node_bytes n)) (map_of (rev changed) i)" for i
  proof -
    have "map_of (map (\<lambda>(i, n). (KVectorNode i, Some (node_bytes n))) ns) (KVectorNode i) = map_option (\<lambda>n. Some (node_bytes n)) (map_of ns i)" for ns
      by (induction ns) auto
    then show ?thesis by (simp add: node_ops_def rev_map)
  qed
  show "vector_nodes (apply_keys (node_ops changed) m) = vector_nodes m ++ map_of (rev changed)"
  proof
    fix i
    show "vector_nodes (apply_keys (node_ops changed) m) i = (vector_nodes m ++ map_of (rev changed)) i"
    proof (cases "map_of (rev changed) i")
      case None
      then show ?thesis by (simp add: vector_nodes_def held_apply_keys [OF keys] look map_add_def)
    next
      case (Some n)
      then have "(i, n) \<in> set changed" using map_of_SomeD [OF Some] by simp
      then have "decode_vector_node (node_bytes n) = Inr n" using node_encodes(3) [OF _ assms(2)] assms(1) by auto
      then show ?thesis by (simp add: vector_nodes_def held_apply_keys [OF keys] look Some map_add_def)
    qed
  qed
  show "held (apply_keys (node_ops changed) m) KVectorMeta = held m KVectorMeta"
    by (rule held_keys_other [OF keys]) (auto simp: node_ops_keys)
qed

lemma apply_removal_ops:
  "vector_nodes (apply_keys (removal_ops is) m) = (\<lambda>i. if i \<in> set is then None else vector_nodes m i)"
  "held (apply_keys (removal_ops is) m) KVectorMeta = held m KVectorMeta"
proof -
  have keys: "\<forall>(k, v) \<in> set (removal_ops is). key_ok k" by (auto simp: removal_ops_def)
  have look: "map_of (rev (removal_ops is)) (KVectorNode i) = (if i \<in> set is then Some None else None)" for i
  proof -
    have "map_of (map (\<lambda>i. (KVectorNode i, None)) js) (KVectorNode i) = (if i \<in> set js then Some (None :: bytes option) else None)" for js
      by (induction js) auto
    then show ?thesis by (simp add: removal_ops_def rev_map)
  qed
  show "vector_nodes (apply_keys (removal_ops is) m) = (\<lambda>i. if i \<in> set is then None else vector_nodes m i)"
    by (rule ext) (simp add: vector_nodes_def held_apply_keys [OF keys] look)
  show "held (apply_keys (removal_ops is) m) KVectorMeta = held m KVectorMeta"
    by (rule held_keys_other [OF keys]) (auto simp: node_ops_keys)
qed

lemma vector_meta_applied:
  assumes "params_fit (vx_params meta)"
  shows "vector_nodes (apply_keys (meta_ops meta) m) = vector_nodes m"
    "held (apply_keys (meta_ops meta) m) KVectorMeta = Some (projr (encode_vector_meta meta))"
proof -
  have "held (apply_keys (meta_ops meta) m) (KVectorNode i) = held m (KVectorNode i)" for i
    by (rule held_keys_other) (auto simp: meta_ops_def)
  then show "vector_nodes (apply_keys (meta_ops meta) m) = vector_nodes m" by (simp add: fun_eq_iff vector_nodes_def)
  show "held (apply_keys (meta_ops meta) m) KVectorMeta = Some (projr (encode_vector_meta meta))"
    by (subst held_apply_keys) (simp_all add: meta_ops_def)
qed

subsection \<open>One committed change\<close>

text \<open>Operations of the caller that travel in the batch: any entries but those of the vector index.\<close>

definition companion :: "key_op list \<Rightarrow> bool" where
  "companion ex \<longleftrightarrow> (\<forall>(k, v) \<in> set ex. op_ok (k, v) \<and> \<not> vector_key k)"

lemma companion_keys: "companion ex \<Longrightarrow> \<forall>(k, v) \<in> set ex. key_ok k"
  by (auto simp: companion_def op_ok_def)

lemma companion_frame:
  assumes "companion ex" "key_ok k" "vector_key k"
  shows "held (apply_keys ex m) k = held m k"
  using assms by (intro held_keys_other companion_keys) (auto simp: companion_def)

lemma companion_typed: "companion ex \<Longrightarrow> typed_map m \<Longrightarrow> typed_map (apply_keys ex m)"
  by (intro typed_apply_keys) (auto simp: companion_def)

lemma companion_after:
  assumes "companion ex" "\<forall>(k, v) \<in> set ops. key_ok k \<and> vector_key k" "key_ok k" "\<not> vector_key k"
  shows "held (apply_keys (ops @ ex) m) k = held (apply_keys ex m) k"
proof -
  have "k \<notin> fst ` set ops" using assms(2,4) by auto
  then have none: "map_of (rev ops) k = None" by (simp add: map_of_eq_None_iff)
  have "\<forall>(k, v) \<in> set (ops @ ex). key_ok k" using assms(2) companion_keys [OF assms(1)] by auto
  then show ?thesis using none
    by (simp add: held_apply_keys [OF _ assms(3)] companion_keys [OF assms(1)] map_add_def split: option.split)
qed

definition start_ok :: "node_map \<Rightarrow> u64 option \<Rightarrow> bool" where
  "start_ok G entry \<longleftrightarrow> (case entry of None \<Rightarrow> dom (live_vectors G) = {} | Some e \<Rightarrow> e \<in> dom G)"

definition vector_commit_ops :: "vector_handle \<Rightarrow> u64 \<Rightarrow> u64 option \<Rightarrow> pending \<Rightarrow> key_op list \<Rightarrow> key_op list" where
  "vector_commit_ops h count entry changed ex = node_ops changed @ meta_ops (handle_meta h count entry) @ ex"

lemma meta_after:
  assumes "params_fit (ph_params h)" "held m KVectorMeta = Some (projr (encode_vector_meta (handle_meta h count entry)))"
    "unat count = card (dom (live_vectors G))" "start_ok G entry" "h' = h\<lparr>ph_count := count, ph_entry_point := entry, ph_cache := c\<rparr>"
  shows "meta_matches m h'"
proof -
  have fit: "params_fit (vx_params (handle_meta h count entry))" using assms(1) by (simp add: handle_meta_def)
  have "entry \<noteq> None" if "count \<noteq> 0"
  proof -
    have "unat count \<noteq> 0" using that by (simp add: unat_eq_0)
    then have "dom (live_vectors G) \<noteq> {}" using assms(3) by (metis card.empty)
    then show ?thesis using assms(4) unfolding start_ok_def by (cases entry) simp_all
  qed
  then show ?thesis using meta_decodes [OF meta_encodes(1) [OF fit]]
    unfolding meta_matches_def assms(2) option.case assms(5) by (auto simp: handle_meta_def)
qed

lemma vector_commit:
  assumes "handle_ok m h" "companion ex" "\<forall>(i, n) \<in> set changed. node_fits (ph_params h) n"
    and "G' = vector_nodes m ++ map_of (rev changed)" "graph_ok (ph_params h) G'" "unat count = card (dom (live_vectors G'))" "start_ok G' entry"
    and "m' = apply_keys (vector_commit_ops h count entry changed ex) m"
    and "h' = h\<lparr>ph_count := count, ph_entry_point := entry, ph_cache := c'\<rparr>" "coherent G' c'"
  shows "handle_ok m' h' \<and> vector_nodes m' = G' \<and> (\<forall>k. key_ok k \<longrightarrow> \<not> vector_key k \<longrightarrow> held m' k = held (apply_keys ex m) k)"
proof -
  let ?meta = "handle_meta h count entry" and ?own = "node_ops changed @ meta_ops (handle_meta h count entry)"
  have fit: "params_fit (ph_params h)" "params_fit (vx_params ?meta)" and t: "typed_map m"
    using assms(1) by (simp_all add: handle_ok_def handle_meta_def)
  define m1 where "m1 = apply_keys (node_ops changed) m"
  define m2 where "m2 = apply_keys (meta_ops ?meta) m1"
  have m': "m' = apply_keys ex m2" by (simp add: assms(8) vector_commit_ops_def m1_def m2_def)
  have nodes2: "vector_nodes m2 = G'" and meta2: "held m2 KVectorMeta = Some (projr (encode_vector_meta ?meta))"
    using apply_node_ops [OF assms(3) fit(1), of m] vector_meta_applied [OF fit(2), of m1] assms(4) by (simp_all add: m1_def m2_def)
  have same: "vector_nodes m' = G'" "held m' KVectorMeta = Some (projr (encode_vector_meta ?meta))"
    using vector_frame [of m' m2, OF companion_frame [OF assms(2), of _ m2, folded m']] nodes2 meta2 by simp_all
  have "typed_map m'" unfolding m' m2_def m1_def
    by (intro companion_typed [OF assms(2)] typed_apply_keys vector_ops_ok(3) [OF fit(2)] vector_ops_ok(1) [OF assms(3) fit(1)] t)
  moreover have "meta_matches m' h'" by (rule meta_after [OF fit(1) same(2) assms(6,7,9)])
  ultimately have "handle_ok m' h'"
    using assms(5,6,7,10) fit(1) unfolding handle_ok_def same(1) start_ok_def by (simp add: assms(9))
  moreover have "held m' k = held (apply_keys ex m) k" if "key_ok k" "\<not> vector_key k" for k
  proof -
    have "\<forall>(k, v) \<in> set ?own. key_ok k \<and> vector_key k" by (auto simp: node_ops_def meta_ops_def)
    from companion_after [OF assms(2) this that, of m] show ?thesis by (simp add: assms(8) vector_commit_ops_def)
  qed
  ultimately show ?thesis using same(1) by blast
qed

text \<open>The bytes a change takes.\<close>

definition node_room :: "vector_index_params \<Rightarrow> nat" where
  "node_room P = 48 + 4 * vp_dim P + 8 * max 1 (vp_max_degree P)"

definition vector_room :: "vector_index_params \<Rightarrow> nat \<Rightarrow> nat" where
  "vector_room P n = n * node_room P + 68"

lemma length_node_key [simp]: "length (node_key i) = 24"
  by (simp add: node_key_def NODE_PREFIX_def ascii_def)

lemma length_vector_meta_key [simp]: "length vector_meta_key = 15"
  by (simp add: vector_meta_key_def VECTOR_META_KEY_def ascii_def)

lemma size_node_ops:
  assumes "\<forall>(i, n) \<in> set changed. node_fits P n" "params_fit P"
  shows "kvs_size (key_batch (node_ops changed)) \<le> length changed * node_room P"
  using assms(1)
proof (induction changed)
  case (Cons x xs)
  obtain i n where x: "x = (i, n)" by (cases x)
  have "length (node_bytes n) \<le> 15 + 4 * vp_dim P + 8 * max 1 (vp_max_degree P)"
    using node_encodes(4) [OF _ assms(2)] Cons.prems by (simp add: x)
  then show ?case using Cons by (simp add: x node_ops_def entry_wire_size_def node_room_def)
qed (simp add: node_ops_def)

lemma size_meta_ops: "params_fit (vx_params meta) \<Longrightarrow> kvs_size (key_batch (meta_ops meta)) = 68"
  using meta_encodes(3) by (simp add: meta_ops_def entry_wire_size_def)

lemma size_commit_ops:
  assumes "\<forall>(i, n) \<in> set changed. node_fits (ph_params h) n" "params_fit (ph_params h)"
  shows "kvs_size (key_batch (vector_commit_ops h count entry changed ex)) \<le> vector_room (ph_params h) (length changed) + kvs_size (key_batch ex)"
    "length (vector_commit_ops h count entry changed ex) = length changed + 1 + length ex"
proof -
  have "params_fit (vx_params (handle_meta h count entry))" using assms(2) by (simp add: handle_meta_def)
  then show "kvs_size (key_batch (vector_commit_ops h count entry changed ex)) \<le> vector_room (ph_params h) (length changed) + kvs_size (key_batch ex)"
    using size_node_ops [OF assms] by (simp add: vector_commit_ops_def size_meta_ops vector_room_def)
qed (simp add: vector_commit_ops_def node_ops_def meta_ops_def)

subsection \<open>Insertions\<close>

text \<open>What an insertion does to the map of vectors.\<close>

definition add_vector :: "nat \<Rightarrow> u64 \<times> f32 list \<Rightarrow> (u64 \<rightharpoonup> f32 list) \<Rightarrow> (u64 \<rightharpoonup> f32 list) engine_result" where
  "add_vector d = (\<lambda>(i, v) M.
     if length v \<noteq> d then Inl (VectorDimensionMismatch d (length v))
     else if i \<in> dom M then Inl (DuplicateVectorId i)
     else Inr (M(i \<mapsto> v)))"

text \<open>The planned state of a group: the nodes to be written and in which order they are staged.\<close>

definition plan_state :: "vector_index_params \<Rightarrow> node_map \<Rightarrow> nat \<Rightarrow> pending \<Rightarrow> u64 option \<Rightarrow> pending \<Rightarrow> bool" where
  "plan_state P G k pend entry staged \<longleftrightarrow> sorted_keys pend \<and> graph_ok P (G ++ map_of pend) \<and> start_ok (G ++ map_of pend) entry
     \<and> map_of pend = map_of (rev staged) \<and> (\<forall>(i, n) \<in> set staged. node_fits P n) \<and> length staged \<le> k * Suc (max 1 (vp_max_degree P))"

lemma graph_node_fits: "graph_ok P (G ++ map_of c) \<Longrightarrow> sorted_keys c \<Longrightarrow> \<forall>(i, n) \<in> set c. node_fits P n"
proof (intro ballI, clarify)
  fix i n assume ok: "graph_ok P (G ++ map_of c)" "sorted_keys c" "(i, n) \<in> set c"
  then have "(G ++ map_of c) i = Some n" using map_of_eq_Some [OF ok(2), of i n] by simp
  from ok(1) [unfolded graph_ok_def, rule_format, OF this] have "node_ok P (G ++ map_of c) i n" .
  then show "node_fits P n" by (rule node_ok_fits)
qed

lemma plan_state_step:
  assumes "plan_state P G k pend entry staged" "planned P (G ++ map_of pend) i v changed"
    and "entry' = Some (case entry of None \<Rightarrow> i | Some e \<Rightarrow> e)"
  shows "plan_state P G (Suc k) (om_inserts changed pend) entry' (staged @ changed)"
proof -
  have c: "sorted_keys changed" "graph_ok P ((G ++ map_of pend) ++ map_of changed)" "length changed \<le> Suc (max 1 (vp_max_degree P))"
    using assms(2) by (simp_all add: planned_def)
  obtain n where "map_of changed i = Some n" using assms(2) by (auto simp: planned_def)
  then have "i \<in> dom (map_of changed)" by blast
  moreover have p: "map_of (om_inserts changed pend) = map_of pend ++ map_of changed" "map_of (rev changed) = map_of changed"
    using assms(1) c(1) map_of_rev_sorted by (simp_all add: plan_state_def map_of_om_inserts_sorted)
  moreover have "start_ok (G ++ map_of pend) entry" using assms(1) unfolding plan_state_def by blast
  ultimately have "start_ok ((G ++ map_of pend) ++ map_of changed) entry'" unfolding assms(3) by (cases entry) (auto simp: start_ok_def)
  then show ?thesis using assms(1) c p graph_node_fits [OF c(2,1)] by (auto simp: plan_state_def)
qed

lemma plan_items_read:
  assumes "plan_state P (vector_nodes m) k pend entry staged" "params_fit P"
  shows "case rfold (add_vector (vp_dim P)) items (live_vectors (vector_nodes m ++ map_of pend)) of
      Inl e \<Rightarrow> reads (vpeeks X runs st m h0) (ofold (plan_item F X P) items (pend, entry, batch)) (Inl e)
    | Inr M \<Rightarrow> \<exists>pend' entry' more. reads (vpeeks X runs st m h0) (ofold (plan_item F X P) items (pend, entry, batch))
          (Inr (pend', entry', batch @ key_batch (node_ops more)))
        \<and> plan_state P (vector_nodes m) (k + length items) pend' entry' (staged @ more)
        \<and> live_vectors (vector_nodes m ++ map_of pend') = M
        \<and> tombstones (vector_nodes m ++ map_of pend') = tombstones (vector_nodes m ++ map_of pend) - fst ` set items"
  using assms(1)
proof (induction items arbitrary: k pend entry staged batch)
  case Nil
  then show ?case unfolding rfold.simps sum.case
    by (intro exI [of _ pend] exI [of _ entry] exI [of _ "[]"]) (simp add: node_ops_def)
next
  case (Cons x items)
  obtain i v where x: "x = (i, v)" by (cases x)
  let ?G = "vector_nodes m ++ map_of pend" and ?I = "vpeeks X runs st m h0"
  have ok: "graph_ok P ?G" and ent: "\<And>e. entry = Some e \<Longrightarrow> ?G e \<noteq> None" using Cons.prems by (auto simp: plan_state_def start_ok_def)
  obtain r where r: "reads ?I (plan_insert F P (pending_node X pend) entry i v) r"
    "if length v \<noteq> vp_dim P then r = Inl (VectorDimensionMismatch (vp_dim P) (length v))
     else if \<exists>n. ?G i = Some n \<and> \<not> vn_deleted n then r = Inl (DuplicateVectorId i)
     else \<exists>changed. r = Inr (changed, case entry of None \<Rightarrow> i | Some e \<Rightarrow> e) \<and> planned P ?G i v changed"
    using plan_insert_reads [OF pended.node_view_axioms ok ent, where F = F and i = i and vector = v] by blast
  have dup: "(\<exists>n. ?G i = Some n \<and> \<not> vn_deleted n) \<longleftrightarrow> i \<in> dom (live_vectors ?G)" by (auto simp: dom_live)
  have fail: "reads ?I (ofold (plan_item F X P) (x # items) (pend, entry, batch)) (Inl e)" if "r = Inl e" for e
    using r(1) unfolding that by (simp add: plan_item_def x reads_obind_Inl)
  show ?case
  proof (cases "length v = vp_dim P \<and> i \<notin> dom (live_vectors ?G)")
    case False
    then show ?thesis using r(2) dup fail by (auto simp: x add_vector_def)
  next
    case True
    then obtain changed where c: "r = Inr (changed, case entry of None \<Rightarrow> i | Some e \<Rightarrow> e)" "planned P ?G i v changed"
      using r(2) dup by auto
    let ?pend = "om_inserts changed pend" and ?entry = "Some (case entry of None \<Rightarrow> i | Some e \<Rightarrow> e)"
      and ?batch = "batch @ key_batch (node_ops changed)"
    have step: "plan_state P (vector_nodes m) (Suc k) ?pend ?entry (staged @ changed)" by (rule plan_state_step [OF Cons.prems c(2) refl])
    then have fits: "\<forall>(i, n) \<in> set changed. node_fits P n" by (auto simp: plan_state_def)
    have maps: "vector_nodes m ++ map_of ?pend = ?G ++ map_of changed"
      using Cons.prems c(2) by (simp add: plan_state_def planned_def map_of_om_inserts_sorted)
    note data = planned_data [OF c(2), folded maps]
    have one: "reads ?I (plan_item F X P x (pend, entry, batch)) (Inr (?pend, ?entry, ?batch))"
      unfolding plan_item_def x prod.case
      by (rule reads_obind_Inr [OF r(1) [unfolded c(1)]]) (simp add: stage_node_ops [OF fits assms(2)])
    have spec: "rfold (add_vector (vp_dim P)) (x # items) (live_vectors ?G) = rfold (add_vector (vp_dim P)) items (live_vectors (vector_nodes m ++ map_of ?pend))"
      using True by (simp add: x add_vector_def data(1))
    show ?thesis
    proof (cases "rfold (add_vector (vp_dim P)) items (live_vectors (vector_nodes m ++ map_of ?pend))")
      case (Inl e)
      then have "reads ?I (ofold (plan_item F X P) items (?pend, ?entry, ?batch)) (Inl e)"
        using Cons.IH [OF step, of ?batch] by simp
      then have "reads ?I (ofold (plan_item F X P) (x # items) (pend, entry, batch)) (Inl e)"
        unfolding ofold.simps by (rule reads_obind_Inr [OF one])
      then show ?thesis unfolding spec Inl by simp
    next
      case (Inr M)
      then obtain pend' entry' more where rest: "reads ?I (ofold (plan_item F X P) items (?pend, ?entry, ?batch))
          (Inr (pend', entry', ?batch @ key_batch (node_ops more)))"
        "plan_state P (vector_nodes m) (Suc k + length items) pend' entry' ((staged @ changed) @ more)"
        "live_vectors (vector_nodes m ++ map_of pend') = M"
        "tombstones (vector_nodes m ++ map_of pend') = tombstones (vector_nodes m ++ map_of ?pend) - fst ` set items"
        using Cons.IH [OF step, of ?batch] by auto
      have "reads ?I (ofold (plan_item F X P) (x # items) (pend, entry, batch)) (Inr (pend', entry', batch @ key_batch (node_ops (changed @ more))))"
        unfolding ofold.simps using rest(1) by (intro reads_obind_Inr [OF one]) (simp add: node_ops_def)
      moreover have "tombstones (vector_nodes m ++ map_of pend') = tombstones ?G - fst ` set (x # items)"
        using rest(4) data(2) by (auto simp: x)
      moreover have "plan_state P (vector_nodes m) (k + length (x # items)) pend' entry' (staged @ changed @ more)" using rest(2) by simp
      ultimately show ?thesis unfolding spec Inr sum.case using rest(3) by blast
    qed
  qed
qed

lemma at_vpeeks: "at X m (handle_ok m) runs (st, h) \<Longrightarrow> vpeeks X runs st m h (st, h)"
  using same_index_ok(1) peeks_refl by (auto simp: at_def vpeeks_def peeks_with_def handle_ok_def)

lemma vpeeks_at: "vpeeks X runs st m h sh \<Longrightarrow> at X m (same_index m h) runs sh"
  by (auto simp: at_def vpeeks_def peeks_with_def peeks_def)

text \<open>Reads of the index before a write.\<close>

lemma achieves_after_vread:
  assumes "reads (vpeeks X runs st m h0) p (Inr x)" "vpeeks X runs st m h0 sh"
    and "\<And>sh'. vpeeks X runs st m h0 sh' \<Longrightarrow> at X m (same_index m h0) runs sh' \<Longrightarrow> crypto (fst sh') = crypto st \<Longrightarrow>
      (\<And>e n. room_for (fst sh') runs e n \<longleftrightarrow> room_for st runs e n) \<Longrightarrow> achieves X ms runs sh' (k x) r m' H e n"
  shows "achieves X ms runs sh (obind p k) r m' H e n"
proof -
  obtain sh' where sh': "p sh = (Inr x, sh')" "vpeeks X runs st m h0 sh'" using readsD [OF assms(1,2)] by blast
  have P: "peeks X runs st m (fst sh)" "peeks X runs st m (fst sh')" using assms(2) sh'(2) by (auto simp: vpeeks_def peeks_with_def split: prod.splits)
  have "achieves X ms runs sh' (k x) r m' H e n"
    using assms(3) [OF sh'(2) vpeeks_at [OF sh'(2)]] peeks_passes(4,5) [OF P(2)] by simp
  then show ?thesis using sh'(1) peeks_passes [OF P(1)] peeks_passes [OF P(2)] by (auto simp: achieves_def obind_def)
qed

lemma unat_count_add:
  assumes "unat c = card A" "card A + n < 2 ^ 64"
  shows "unat (c + word_of_nat n :: u64) = card A + n"
proof -
  have "unat (word_of_nat n :: u64) = n" using assms(2) by (simp add: unat_of_nat)
  then show ?thesis using assms by (subst unat_add_lem [THEN iffD1]) simp_all
qed

lemma card_added: "rfold (add_vector d) items M = Inr M' \<Longrightarrow> finite (dom M) \<Longrightarrow> card (dom M') = card (dom M) + length items \<and> finite (dom M')"
proof (induction items arbitrary: M)
  case (Cons x items)
  obtain i v where x: "x = (i, v)" by (cases x)
  have free: "i \<notin> dom M" and rest: "rfold (add_vector d) items (M(i \<mapsto> v)) = Inr M'"
    using Cons.prems(1) by (auto simp: x add_vector_def split: if_splits)
  have "card (dom (M(i \<mapsto> v))) = Suc (card (dom M))" using free Cons.prems(2) by (simp add: card_insert_if)
  moreover have "finite (dom (M(i \<mapsto> v)))" using Cons.prems(2) by simp
  ultimately show ?case using Cons.IH [OF rest] by (simp only: list.size) simp
qed simp

lemma insert_many_achieves:
  assumes "at X m (handle_ok m) runs (st, h)" "draws_ok (crypto st) rnd" "companion ex" "items \<noteq> []"
    and "rfold (add_vector (vp_dim (ph_params h))) items (live_vectors (vector_nodes m)) = Inr M"
    and "card (dom M) < 2 ^ 64" "length items * Suc (max 1 (vp_max_degree (ph_params h))) + 1 + length ex \<le> MAX_BATCH_OPS"
    and "room_for st runs (vector_room (ph_params h) (length items * Suc (max 1 (vp_max_degree (ph_params h)))) + kvs_size (key_batch ex)) 1"
  shows "\<exists>m'. achieves X {m, m'} runs (st, h) (pv_insert_many_with F X rnd items (key_batch ex)) () m'
      (\<lambda>h'. handle_ok m' h' \<and> ph_params h' = ph_params h)
      (vector_room (ph_params h) (length items * Suc (max 1 (vp_max_degree (ph_params h)))) + kvs_size (key_batch ex)) 1
    \<and> live_vectors (vector_nodes m') = M \<and> tombstones (vector_nodes m') = tombstones (vector_nodes m) - fst ` set items
    \<and> (\<forall>k. key_ok k \<longrightarrow> \<not> vector_key k \<longrightarrow> held m' k = held (apply_keys ex m) k)"
proof -
  let ?P = "ph_params h" and ?G = "vector_nodes m" and ?R = "Suc (max 1 (vp_max_degree (ph_params h)))"
  have ok: "handle_ok m h" using assms(1) by (simp add: at_def)
  then have fit: "params_fit ?P" and start: "plan_state ?P ?G 0 [] (ph_entry_point h) []"
    by (auto simp: handle_ok_def plan_state_def start_ok_def)
  obtain pend entry staged where
    plan: "reads (vpeeks X runs st m h) (ofold (plan_item F X ?P) items ([], ph_entry_point h, [])) (Inr (pend, entry, key_batch (node_ops staged)))"
    and after: "plan_state ?P ?G (length items) pend entry staged"
    and data: "live_vectors (?G ++ map_of pend) = M" "tombstones (?G ++ map_of pend) = tombstones ?G - fst ` set items"
    using plan_items_read [OF start fit, where items = items and batch = "[]" and F = F and X = X and runs = runs and st = st and ?h0.0 = h]
    by (auto simp: assms(5))
  define count where "count = ph_count h + word_of_nat (length items)"
  define ops where "ops = vector_commit_ops h count entry staged ex"
  define m' where "m' = apply_keys ops m"
  have staged: "\<forall>(i, n) \<in> set staged. node_fits ?P n" "length staged \<le> length items * ?R"
    "?G ++ map_of pend = ?G ++ map_of (rev staged)" "sorted_keys pend" "graph_ok ?P (?G ++ map_of pend)" "start_ok (?G ++ map_of pend) entry"
    using after unfolding plan_state_def by (blast, blast, simp only:, blast, blast, blast)
  have "card (dom M) = card (dom (live_vectors ?G)) + length items" using card_added [OF assms(5)] by simp
  then have count: "unat count = card (dom (live_vectors (?G ++ map_of pend)))"
    unfolding count_def data(1) using ok assms(6) by (subst unat_count_add) (simp_all add: handle_ok_def)
  have pfits: "map_of (rev pend) = map_of pend" using staged(4) by (rule map_of_rev_sorted)
  let ?H = "\<lambda>h'. handle_ok m' h' \<and> ph_params h' = ph_params h"
  let ?f = "\<lambda>h1. h1\<lparr>ph_count := count, ph_entry_point := entry, ph_cache := fold (\<lambda>(i, n). cache_put i n) pend (ph_cache h1)\<rparr>"
  have commit: "handle_ok m' (?f h1) \<and> vector_nodes m' = ?G ++ map_of pend
      \<and> (\<forall>k. key_ok k \<longrightarrow> \<not> vector_key k \<longrightarrow> held m' k = held (apply_keys ex m) k)" if "same_index m h h1" for h1
  proof (rule vector_commit [OF ok assms(3) staged(1,3,5) count staged(6)])
    show "m' = apply_keys (vector_commit_ops h count entry staged ex) m" by (simp add: m'_def ops_def)
    show "?f h1 = h\<lparr>ph_count := count, ph_entry_point := entry, ph_cache := fold (\<lambda>(i, n). cache_put i n) pend (ph_cache h1)\<rparr>"
      using that by (auto simp: same_index_def)
    show "coherent (?G ++ map_of pend) (fold (\<lambda>(i, n). cache_put i n) pend (ph_cache h1))"
      using cache_puts_update [of ?G "ph_cache h1" pend] that pfits by (auto simp: same_index_def)
  qed
  have size: "kvs_size (key_batch ops) \<le> vector_room ?P (length items * ?R) + kvs_size (key_batch ex)" "length ops \<le> MAX_BATCH_OPS"
  proof -
    have "length staged * node_room ?P \<le> length items * ?R * node_room ?P" using staged(2) by (rule mult_le_mono1)
    then have "vector_room ?P (length staged) \<le> vector_room ?P (length items * ?R)" by (simp only: vector_room_def)
    then show "kvs_size (key_batch ops) \<le> vector_room ?P (length items * ?R) + kvs_size (key_batch ex)"
      using size_commit_ops(1) [OF staged(1) fit, of count entry ex] unfolding ops_def by linarith
    show "length ops \<le> MAX_BATCH_OPS" using size_commit_ops(2) [OF staged(1) fit, of count entry ex] staged(2) assms(7) unfolding ops_def by linarith
  qed
  have meta: "stage_vector_meta (handle_meta h count entry) (key_batch (node_ops staged)) = Inr (key_batch (node_ops staged @ meta_ops (handle_meta h count entry)))"
    using stage_meta_ops [of "handle_meta h count entry"] fit by (simp add: handle_meta_def)
  have "achieves X {m, m'} runs (st, h) (pv_insert_many_with F X rnd items (key_batch ex)) () m' ?H (vector_room ?P (length items * ?R) + kvs_size (key_batch ex)) 1"
    unfolding pv_insert_many_with_def
  proof (simp only: assms(4) if_False achieves_handle snd_conv, rule achieves_after_vread [OF plan at_vpeeks [OF assms(1)]])
    fix sh' assume s: "at X m (same_index m h) runs sh'" "crypto (fst sh') = crypto st" "\<And>e n. room_for (fst sh') runs e n \<longleftrightarrow> room_for st runs e n"
    have "achieves X {m, m'} runs sh' (obind (on_store (apply_batch X rnd (key_batch ops))) (\<lambda>_. adopt count entry pend)) () (apply_keys ops m) ?H
        (vector_room ?P (length items * ?R) + kvs_size (key_batch ex)) 1"
    proof (rule achieves_batch_then [OF s(1) _ _ size(2)])
      show "draws_ok (crypto (fst sh')) rnd" using assms(2) s(2) by simp
      show "room_for (fst sh') runs (kvs_size (key_batch ops)) 1" unfolding s(3) by (rule room_mono [OF assms(8) size(1)]) simp
      show "adopt count entry pend (s, h1) = (Inr (), (s, ?f h1))" for s h1 by (simp add: adopt_def)
      show "?H (?f h1)" if "same_index m h h1" for h1 using commit [OF that] same_index_fields [OF that] by simp
    qed (use size(1) in \<open>simp_all add: m'_def\<close>)
    then show "achieves X {m, m'} runs sh' (case (pend, entry, key_batch (node_ops staged)) of (pend, entry_point, batch) \<Rightarrow>
        let count = ph_count h + word_of_nat (length items)
        in obind (olift (stage_vector_meta (handle_meta h count entry_point) batch)) (\<lambda>batch.
           obind (on_store (apply_batch X rnd (batch_extend_from (key_batch ex) batch))) (\<lambda>_.
             adopt count entry_point pend))) () m' ?H (vector_room ?P (length items * ?R) + kvs_size (key_batch ex)) 1"
      unfolding prod.case Let_def count_def [symmetric] meta obind_simps
      by (simp add: batch_extend_from_def ops_def vector_commit_ops_def m'_def)
  qed
  moreover have "vector_nodes m' = ?G ++ map_of pend" "\<forall>k. key_ok k \<longrightarrow> \<not> vector_key k \<longrightarrow> held m' k = held (apply_keys ex m) k"
    using commit [OF same_index_ok(1) [OF ok]] by blast+
  ultimately show ?thesis using data by (intro exI [of _ m']) simp
qed

lemma insert_many_fails:
  assumes "handle_ok m h" "rfold (add_vector (vp_dim (ph_params h))) items (live_vectors (vector_nodes m)) = Inl e"
  shows "reads (vpeeks X runs st m h) (pv_insert_many_with F X rnd items extra) (Inl e)"
proof -
  have fit: "params_fit (ph_params h)" and start: "plan_state (ph_params h) (vector_nodes m) 0 [] (ph_entry_point h) []"
    using assms(1) by (auto simp: handle_ok_def plan_state_def start_ok_def)
  have ne: "items \<noteq> []" using assms(2) by auto
  have plan: "reads (vpeeks X runs st m h) (ofold (plan_item F X (ph_params h)) items ([], ph_entry_point h, [])) (Inl e)"
    using plan_items_read [OF start fit, where items = items and batch = "[]" and F = F and X = X and runs = runs and st = st and ?h0.0 = h]
    by (simp add: assms(2))
  show ?thesis
    unfolding reads_def
  proof (intro allI impI)
    fix sh assume v: "vpeeks X runs st m h sh"
    then have f: "ph_params (snd sh) = ph_params h \<and> ph_entry_point (snd sh) = ph_entry_point h"
      using same_index_fields by (auto simp: vpeeks_def peeks_with_def)
    obtain sh' where "ofold (plan_item F X (ph_params h)) items ([], ph_entry_point h, []) sh = (Inl e, sh')" "vpeeks X runs st m h sh'"
      using readsD [OF plan v] by blast
    then show "\<exists>sh'. pv_insert_many_with F X rnd items extra sh = (Inl e, sh') \<and> vpeeks X runs st m h sh'"
      using ne f by (cases sh) (simp add: pv_insert_many_with_def obind_def handle_def)
  qed
qed

text \<open>A single insertion is a group of one.\<close>

lemma om_inserts_sorted: "sorted_keys xs \<Longrightarrow> om_inserts xs [] = xs"
  by (rule sorted_keys_unique) (simp_all add: map_of_om_inserts_sorted)

lemma insert_one_group:
  assumes "at X m (handle_ok m) runs (st, h)"
  shows "pv_insert_with F X rnd i v extra (st, h) = pv_insert_many_with F X rnd [(i, v)] extra (st, h)"
proof -
  have ok: "graph_ok (ph_params h) (vector_nodes m)" "\<And>e. ph_entry_point h = Some e \<Longrightarrow> vector_nodes m e \<noteq> None"
    using assms by (auto simp: at_def handle_ok_def)
  have pend: "pending_node X [] = engine_node X" by (simp add: fun_eq_iff pending_node_def)
  obtain r sh' where r: "plan_insert F (ph_params h) (engine_node X) (ph_entry_point h) i v (st, h) = (r, sh')"
    "\<And>changed entry. r = Inr (changed, entry) \<Longrightarrow> sorted_keys changed"
  proof -
    obtain r where r: "reads (vpeeks X runs st m h) (plan_insert F (ph_params h) (engine_node X) (ph_entry_point h) i v) r"
      "if length v \<noteq> vp_dim (ph_params h) then r = Inl (VectorDimensionMismatch (vp_dim (ph_params h)) (length v))
       else if \<exists>n. vector_nodes m i = Some n \<and> \<not> vn_deleted n then r = Inl (DuplicateVectorId i)
       else \<exists>changed. r = Inr (changed, case ph_entry_point h of None \<Rightarrow> i | Some e \<Rightarrow> e) \<and> planned (ph_params h) (vector_nodes m) i v changed"
      using plan_insert_reads [OF stored.node_view_axioms ok, where F = F and i = i and vector = v] by blast
    obtain sh' where "plan_insert F (ph_params h) (engine_node X) (ph_entry_point h) i v (st, h) = (r, sh')"
      using readsD [OF r(1) at_vpeeks [OF assms]] by blast
    moreover have "sorted_keys changed" if "r = Inr (changed, entry)" for changed entry
      using r(2) that by (auto simp: planned_def split: if_splits)
    ultimately show ?thesis using that by blast
  qed
  show ?thesis
  proof (cases r)
    case (Inl e)
    then show ?thesis using r(1) by (simp add: pv_insert_with_def pv_insert_many_with_def plan_item_def obind_def handle_def pend)
  next
    case (Inr x)
    obtain changed entry where x: "x = (changed, entry)" by (cases x)
    then have "om_inserts changed [] = changed" using r(2) Inr om_inserts_sorted by blast
    then show ?thesis using r(1) Inr x
      by (simp add: pv_insert_with_def pv_insert_many_with_def plan_item_def obind_def handle_def pend olift_def oret_def Let_def
          split: sum.split)
  qed
qed

subsection \<open>Deletions\<close>

text \<open>Tombstones for live nodes.\<close>

definition buried :: "node_map \<Rightarrow> pending \<Rightarrow> bool" where
  "buried G pend \<longleftrightarrow> distinct (map fst pend) \<and> (\<forall>(i, n) \<in> set pend. \<exists>l. G i = Some l \<and> \<not> vn_deleted l \<and> n = l\<lparr>vn_deleted := True\<rparr>)"

lemma buried_data:
  assumes "buried G pend" "graph_ok P G"
  shows "live_vectors (G ++ map_of pend) = live_vectors G |` (- fst ` set pend)" "tombstones (G ++ map_of pend) = tombstones G \<union> fst ` set pend"
    "graph_ok P (G ++ map_of pend)" "dom (G ++ map_of pend) = dom G" "fst ` set pend \<subseteq> dom (live_vectors G)" "\<forall>(i, n) \<in> set pend. node_fits P n"
proof -
  have at: "\<exists>l. G i = Some l \<and> \<not> vn_deleted l \<and> n = l\<lparr>vn_deleted := True\<rparr>" if "map_of pend i = Some n" for i n
    using map_of_SomeD [OF that] assms(1) by (auto simp: buried_def)
  have none: "map_of pend i = None \<longleftrightarrow> i \<notin> fst ` set pend" for i by (rule map_of_eq_None_iff)
  show sub: "fst ` set pend \<subseteq> dom (live_vectors G)" using assms(1) by (auto simp: buried_def dom_live)
  then have "fst ` set pend \<subseteq> dom G" using dom_split(1) by blast
  then show dom: "dom (G ++ map_of pend) = dom G" by (auto simp: dom_map_of_conv_image_fst)
  have cases: "(G ++ map_of pend) i = (case map_of pend i of None \<Rightarrow> G i | Some n \<Rightarrow> Some n)" for i by (simp add: map_add_def)
  show "live_vectors (G ++ map_of pend) = live_vectors G |` (- fst ` set pend)"
  proof
    fix i show "live_vectors (G ++ map_of pend) i = (live_vectors G |` (- fst ` set pend)) i"
      using at [of i] none [of i] by (cases "map_of pend i") (auto simp: live_vectors_def cases restrict_map_def)
  qed
  show "tombstones (G ++ map_of pend) = tombstones G \<union> fst ` set pend"
  proof (rule set_eqI)
    fix i show "i \<in> tombstones (G ++ map_of pend) \<longleftrightarrow> i \<in> tombstones G \<union> fst ` set pend"
      using at [of i] none [of i] by (cases "map_of pend i") (auto simp: tombstones_def cases)
  qed
  have node: "node_ok P G i l \<Longrightarrow> node_ok P (G ++ map_of pend) i (l\<lparr>vn_deleted := b\<rparr>)" if "\<not> vn_deleted l \<or> b" for i l b
    using that dom by (auto simp: node_ok_def)
  show "graph_ok P (G ++ map_of pend)"
    unfolding graph_ok_def
  proof (intro allI impI)
    fix i n assume n: "(G ++ map_of pend) i = Some n"
    show "node_ok P (G ++ map_of pend) i n"
    proof (cases "map_of pend i")
      case None
      then have "node_ok P G i n" using n assms(2) by (simp add: cases graph_ok_def)
      then show ?thesis by (rule node_ok_mono [OF _ equalityD2 [OF dom]])
    next
      case (Some x)
      then obtain l where l: "G i = Some l" "\<not> vn_deleted l" "n = l\<lparr>vn_deleted := True\<rparr>" using at [OF Some] n by (auto simp: cases)
      then have "node_ok P G i l" using assms(2) by (simp add: graph_ok_def)
      then show ?thesis using node l by auto
    qed
  qed
  show "\<forall>(i, n) \<in> set pend. node_fits P n" using assms by (fastforce simp: buried_def graph_ok_def node_ok_def node_fits_def)
qed

lemma card_restrict: "finite (dom M) \<Longrightarrow> A \<subseteq> dom M \<Longrightarrow> card (dom (M |` (- A))) = card (dom M) - card A"
proof -
  assume "finite (dom M)" "A \<subseteq> dom M"
  moreover have "dom (M |` (- A)) = dom M - A" by (auto simp: restrict_map_def split: if_splits)
  ultimately show ?thesis by (simp add: card_Diff_subset finite_subset)
qed

lemma u64_saturating_sub: "b \<le> a \<Longrightarrow> unat (u64_saturating_sub a b) = unat a - unat b"
  by (simp add: u64_saturating_sub_def unat_sub not_less)

text \<open>The batch of a deletion, from the tombstones it writes.\<close>

lemma bury_achieves:
  assumes "vpeeks X runs st m h sh" "handle_ok m h" "draws_ok (crypto st) rnd" "companion ex" "buried (vector_nodes m) pend"
    and "length pend + 1 + length ex \<le> MAX_BATCH_OPS"
    and "room_for st runs (vector_room (ph_params h) (length pend) + kvs_size (key_batch ex)) 1"
    and "count = u64_saturating_sub (ph_count h) (word_of_nat (length pend))"
    and "ops = vector_commit_ops h count (ph_entry_point h) pend ex" "m' = apply_keys ops m"
  shows "achieves X {m, m'} runs sh (obind (on_store (apply_batch X rnd (key_batch ops))) (\<lambda>_. obind (adopt count (ph_entry_point h) pend) (\<lambda>_. oret r)))
      r m' (\<lambda>h'. handle_ok m' h' \<and> ph_params h' = ph_params h) (vector_room (ph_params h) (length pend) + kvs_size (key_batch ex)) 1
    \<and> live_vectors (vector_nodes m') = live_vectors (vector_nodes m) |` (- fst ` set pend)
    \<and> tombstones (vector_nodes m') = tombstones (vector_nodes m) \<union> fst ` set pend
    \<and> (\<forall>k. key_ok k \<longrightarrow> \<not> vector_key k \<longrightarrow> held m' k = held (apply_keys ex m) k)"
proof -
  let ?P = "ph_params h" and ?G = "vector_nodes m"
  have fit: "params_fit ?P" and good: "graph_ok ?P ?G" using assms(2) by (simp_all add: handle_ok_def)
  note data = buried_data [OF assms(5) good]
  have rev: "map_of (rev pend) = map_of pend" using assms(5) by (intro map_of_rev) (simp add: buried_def)
  have cardp: "card (fst ` set pend) = length pend" using assms(5) distinct_card [of "map fst pend"] by (simp add: buried_def)
  have count0: "unat (ph_count h) = card (dom (live_vectors ?G))" using assms(2) by (simp add: handle_ok_def)
  have le: "length pend \<le> card (dom (live_vectors ?G))" unfolding cardp [symmetric] by (rule card_mono [OF _ data(5)]) simp
  then have small: "length pend < 2 ^ 64" using count0 unsigned_less [of "ph_count h", where 'a = nat] by simp
  have w: "unat (word_of_nat (length pend) :: u64) = length pend" using small by (simp add: unat_of_nat)
  have "unat count = card (dom (live_vectors ?G)) - length pend"
    unfolding assms(8) using le count0 w by (subst u64_saturating_sub) (simp_all add: word_le_nat_alt)
  then have count: "unat count = card (dom (live_vectors (?G ++ map_of pend)))"
    unfolding data(1) using card_restrict [OF _ data(5)] cardp by simp
  have start: "start_ok (?G ++ map_of pend) (ph_entry_point h)"
  proof (cases "ph_entry_point h")
    case None
    then have "dom (live_vectors ?G) = {}" using assms(2) by (simp add: handle_ok_def)
    then show ?thesis unfolding start_ok_def None option.case data(1) by (simp add: restrict_map_def)
  next
    case (Some e)
    then have "e \<in> dom ?G" using assms(2) by (auto simp: handle_ok_def simp del: domIff)
    then show ?thesis unfolding start_ok_def Some option.case data(4) .
  qed
  let ?H = "\<lambda>h'. handle_ok m' h' \<and> ph_params h' = ph_params h"
  let ?f = "\<lambda>h1. h1\<lparr>ph_count := count, ph_entry_point := ph_entry_point h, ph_cache := fold (\<lambda>(i, n). cache_put i n) pend (ph_cache h1)\<rparr>"
  have commit: "handle_ok m' (?f h1) \<and> vector_nodes m' = ?G ++ map_of pend
      \<and> (\<forall>k. key_ok k \<longrightarrow> \<not> vector_key k \<longrightarrow> held m' k = held (apply_keys ex m) k)" if "same_index m h h1" for h1
  proof (rule vector_commit [OF assms(2,4) data(6) _ data(3) count start])
    show "?G ++ map_of pend = ?G ++ map_of (rev pend)" by (simp add: rev)
    show "m' = apply_keys (vector_commit_ops h count (ph_entry_point h) pend ex) m" by (simp add: assms(9,10))
    show "?f h1 = h\<lparr>ph_count := count, ph_entry_point := ph_entry_point h, ph_cache := fold (\<lambda>(i, n). cache_put i n) pend (ph_cache h1)\<rparr>"
      using that by (auto simp: same_index_def)
    show "coherent (?G ++ map_of pend) (fold (\<lambda>(i, n). cache_put i n) pend (ph_cache h1))"
      using cache_puts_update [of ?G "ph_cache h1" pend] that rev by (auto simp: same_index_def)
  qed
  have P: "peeks X runs st m (fst sh)" using assms(1) by (auto simp: vpeeks_def peeks_with_def split: prod.splits)
  have size: "kvs_size (key_batch ops) \<le> vector_room ?P (length pend) + kvs_size (key_batch ex)" "length ops \<le> MAX_BATCH_OPS"
    using size_commit_ops [OF data(6) fit, of count "ph_entry_point h" ex] assms(6) by (simp_all add: assms(9))
  have "achieves X {m, m'} runs sh (obind (on_store (apply_batch X rnd (key_batch ops))) (\<lambda>_. obind (adopt count (ph_entry_point h) pend) (\<lambda>_. oret r)))
      r (apply_keys ops m) ?H (vector_room ?P (length pend) + kvs_size (key_batch ex)) 1"
  proof (rule achieves_batch_then [OF vpeeks_at [OF assms(1)] _ _ size(2)])
    show "draws_ok (crypto (fst sh)) rnd" using assms(3) peeks_passes(4) [OF P] by simp
    show "room_for (fst sh) runs (kvs_size (key_batch ops)) 1"
      unfolding peeks_passes(5) [OF P] by (rule room_mono [OF assms(7) size(1)]) simp
    show "obind (adopt count (ph_entry_point h) pend) (\<lambda>_. oret r) (s, h1) = (Inr r, (s, ?f h1))" for s h1 by (simp add: adopt_def obind_def oret_def)
    show "?H (?f h1)" if "same_index m h h1" for h1 using commit [OF that] same_index_fields [OF that] by simp
  qed (use size(1) assms(10) in simp_all)
  moreover have "vector_nodes m' = ?G ++ map_of pend" "\<forall>k. key_ok k \<longrightarrow> \<not> vector_key k \<longrightarrow> held m' k = held (apply_keys ex m) k"
    using commit [OF same_index_ok(1) [OF assms(2)]] by blast+
  ultimately show ?thesis using data(1,2) assms(10) by simp
qed

text \<open>Companion operations without any change of the index.\<close>

lemma handle_ok_companion:
  assumes "handle_ok m h" "companion ex"
  shows "handle_ok (apply_keys ex m) h" "vector_nodes (apply_keys ex m) = vector_nodes m"
proof -
  have f: "\<And>k. key_ok k \<Longrightarrow> vector_key k \<Longrightarrow> held (apply_keys ex m) k = held m k" by (rule companion_frame [OF assms(2)])
  have "typed_map (apply_keys ex m)" using assms by (intro companion_typed) (simp_all add: handle_ok_def)
  with f show "handle_ok (apply_keys ex m) h" by (intro handle_ok_frame [OF assms(1)]) simp_all
  show "vector_nodes (apply_keys ex m) = vector_nodes m" by (rule vector_frame(1)) (rule f)
qed

lemma extra_achieves:
  assumes "vpeeks X runs st m h sh" "handle_ok m h" "draws_ok (crypto st) rnd" "companion ex" "length ex \<le> MAX_BATCH_OPS"
    and "room_for st runs (kvs_size (key_batch ex)) 1"
  shows "achieves X {m, apply_keys ex m} runs sh (obind (apply_extra X rnd (key_batch ex)) (\<lambda>_. oret r)) r (apply_keys ex m)
      (\<lambda>h'. handle_ok (apply_keys ex m) h' \<and> ph_params h' = ph_params h) (kvs_size (key_batch ex)) 1"
proof -
  have P: "peeks X runs st m (fst sh)" using assms(1) by (auto simp: vpeeks_def peeks_with_def split: prod.splits)
  note at = vpeeks_at [OF assms(1)]
  have H: "handle_ok (apply_keys ex m) h1 \<and> ph_params h1 = ph_params h" if "same_index m h h1" for h1
    using handle_ok_companion(1) [OF same_index_ok(2) [OF assms(2) that] assms(4)] same_index_fields [OF that] by simp
  show ?thesis
  proof (cases "ex = []")
    case True
    have "at X m (\<lambda>h'. handle_ok m h' \<and> ph_params h' = ph_params h) runs sh" using at H by (auto simp: at_def True split: prod.splits)
    then show ?thesis by (simp add: True apply_extra_def achieves_ret)
  next
    case False
    have "achieves X {m, apply_keys ex m} runs sh (obind (on_store (apply_batch X rnd (key_batch ex))) (\<lambda>_. oret r)) r (apply_keys ex m)
      (\<lambda>h'. handle_ok (apply_keys ex m) h' \<and> ph_params h' = ph_params h) (kvs_size (key_batch ex)) 1"
      by (rule achieves_batch_then [OF at, where f = "\<lambda>h. h"])
        (use assms(3,5,6) peeks_passes(4,5) [OF P] H in \<open>simp_all add: oret_def\<close>)
    then show ?thesis using False by (simp add: apply_extra_def)
  qed
qed

lemma collect_reads:
  "\<exists>pend. reads (vpeeks X runs st m h) (ofold (collect_live X) js (p, seen)) (Inr (p @ pend, seen \<union> set js))
     \<and> buried (vector_nodes m) pend \<and> fst ` set pend = (set js - seen) \<inter> dom (live_vectors (vector_nodes m)) \<and> length pend \<le> length js"
proof (induction js arbitrary: p seen)
  case Nil
  show ?case by (intro exI [of _ "[]"]) (simp add: buried_def)
next
  case (Cons i js)
  show ?case
  proof (cases "i \<in> seen")
    case True
    then have same: "insert i seen = seen" by blast
    have "reads (vpeeks X runs st m h) (collect_live X i (p, seen)) (Inr (p, seen))" using True by (simp add: collect_live_def)
    moreover obtain pend where "reads (vpeeks X runs st m h) (ofold (collect_live X) js (p, seen)) (Inr (p @ pend, seen \<union> set js))"
      "buried (vector_nodes m) pend" "fst ` set pend = (set js - seen) \<inter> dom (live_vectors (vector_nodes m))" "length pend \<le> length js"
      using Cons.IH [of p seen] by blast
    moreover have "seen \<union> set (i # js) = seen \<union> set js" "set (i # js) - seen = set js - seen" using True by auto
    ultimately show ?thesis unfolding ofold.simps by (intro exI [of _ pend]) (auto intro: reads_obind_Inr)
  next
    case new: False
    define now where "now = (case vector_nodes m i of None \<Rightarrow> [] | Some n \<Rightarrow> if vn_deleted n then [] else [(i, n\<lparr>vn_deleted := True\<rparr>)])"
    have now: "reads (vpeeks X runs st m h) (collect_live X i (p, seen)) (Inr (p @ now, insert i seen))"
      using new unfolding collect_live_def by (simp, intro reads_obind_Inr [OF engine_node_reads]) (simp add: now_def split: option.split)
    obtain pend where pend: "reads (vpeeks X runs st m h) (ofold (collect_live X) js (p @ now, insert i seen)) (Inr ((p @ now) @ pend, insert i seen \<union> set js))"
      "buried (vector_nodes m) pend" "fst ` set pend = (set js - insert i seen) \<inter> dom (live_vectors (vector_nodes m))" "length pend \<le> length js"
      using Cons.IH [of "p @ now" "insert i seen"] by blast
    have now_cases: "now = [] \<and> i \<notin> dom (live_vectors (vector_nodes m))
        \<or> (\<exists>n. vector_nodes m i = Some n \<and> \<not> vn_deleted n \<and> now = [(i, n\<lparr>vn_deleted := True\<rparr>)] \<and> i \<in> dom (live_vectors (vector_nodes m)))"
      unfolding dom_live now_def by (cases "vector_nodes m i") auto
    then have ids: "fst ` set now = {i} \<inter> dom (live_vectors (vector_nodes m))" and b: "buried (vector_nodes m) now" and "length now \<le> 1"
      by (auto simp: buried_def simp del: domIff)
    have "fst ` set now \<inter> fst ` set pend = {}" unfolding ids pend(3) by blast
    then have "buried (vector_nodes m) (now @ pend)" using b pend(2) by (auto simp: buried_def)
    moreover have "fst ` set (now @ pend) = (set (i # js) - seen) \<inter> dom (live_vectors (vector_nodes m))"
      unfolding set_append image_Un ids pend(3) using new by auto
    moreover have "reads (vpeeks X runs st m h) (ofold (collect_live X) (i # js) (p, seen)) (Inr (p @ now @ pend, seen \<union> set (i # js)))"
      unfolding ofold.simps using pend(1) by (intro reads_obind_Inr [OF now]) simp
    ultimately show ?thesis using pend(4) \<open>length now \<le> 1\<close> by (intro exI [of _ "now @ pend"]) simp
  qed
qed

lemma delete_many_achieves:
  assumes "at X m (handle_ok m) runs (st, h)" "draws_ok (crypto st) rnd" "companion ex"
    and "length js + 1 + length ex \<le> MAX_BATCH_OPS"
    and "room_for st runs (vector_room (ph_params h) (length js) + kvs_size (key_batch ex)) 1"
  shows "\<exists>m' r. achieves X {m, m'} runs (st, h) (pv_delete_many_with X rnd js (key_batch ex)) r m'
      (\<lambda>h'. handle_ok m' h' \<and> ph_params h' = ph_params h) (vector_room (ph_params h) (length js) + kvs_size (key_batch ex)) 1
    \<and> unat r = card (set js \<inter> dom (live_vectors (vector_nodes m)))
    \<and> live_vectors (vector_nodes m') = live_vectors (vector_nodes m) |` (- set js)
    \<and> tombstones (vector_nodes m') = tombstones (vector_nodes m) \<union> set js \<inter> dom (live_vectors (vector_nodes m))
    \<and> (\<forall>k. key_ok k \<longrightarrow> \<not> vector_key k \<longrightarrow> held m' k = held (apply_keys ex m) k)"
proof -
  have ok: "handle_ok m h" using assms(1) by (simp add: at_def)
  let ?V = "live_vectors (vector_nodes m)" and ?e = "vector_room (ph_params h) (length js) + kvs_size (key_batch ex)"
  obtain pend where read: "reads (vpeeks X runs st m h) (ofold (collect_live X) js ([], {})) (Inr (pend, set js))"
    and pend: "buried (vector_nodes m) pend" "fst ` set pend = set js \<inter> dom ?V" "length pend \<le> length js"
    using collect_reads [where p = "[]" and seen = "{}" and X = X and runs = runs and st = st and m = m and h = h and js = js] by auto
  have cut: "?V |` (- fst ` set pend) = ?V |` (- set js)" unfolding pend(2) by (auto simp: restrict_map_def fun_eq_iff)
  show ?thesis
  proof (cases "pend = []")
    case True
    have none: "set js \<inter> dom ?V = {}" using pend(2) True by auto
    let ?m = "apply_keys ex m"
    have "achieves X {m, ?m} runs (st, h) (pv_delete_many_with X rnd js (key_batch ex)) 0 ?m
        (\<lambda>h'. handle_ok ?m h' \<and> ph_params h' = ph_params h) ?e 1"
      unfolding pv_delete_many_with_def
    proof (rule achieves_after_vread [OF read at_vpeeks [OF assms(1)]])
      fix sh' assume "vpeeks X runs st m h sh'"
      have "room_for st runs (kvs_size (key_batch ex)) 1" by (rule room_mono [OF assms(5)]) simp_all
      from extra_achieves [OF \<open>vpeeks X runs st m h sh'\<close> ok assms(2,3) _ this, of "0 :: u64"] assms(4)
      have "achieves X {m, ?m} runs sh' (obind (apply_extra X rnd (key_batch ex)) (\<lambda>_. oret (0 :: u64))) 0 ?m
          (\<lambda>h'. handle_ok ?m h' \<and> ph_params h' = ph_params h) (kvs_size (key_batch ex)) 1" by simp
      then show "achieves X {m, ?m} runs sh' (case (pend, set js) of (pend, seen) \<Rightarrow>
          if pend = [] then obind (apply_extra X rnd (key_batch ex)) (\<lambda>_. oret 0)
          else obind handle (\<lambda>h. let removed = word_of_nat (length pend); count = u64_saturating_sub (ph_count h) removed
            in obind (olift (rfold stage_node pend [])) (\<lambda>batch.
               obind (olift (stage_vector_meta (handle_meta h count (ph_entry_point h)) batch)) (\<lambda>batch.
               obind (on_store (apply_batch X rnd (batch_extend_from (key_batch ex) batch))) (\<lambda>_.
               obind (adopt count (ph_entry_point h) pend) (\<lambda>_. oret removed)))))) 0 ?m
          (\<lambda>h'. handle_ok ?m h' \<and> ph_params h' = ph_params h) ?e 1"
        unfolding prod.case True by (simp only: simp_thms if_True) (erule achieves_mono, simp_all)
    qed
    moreover have "?V |` (- set js) = ?V"
    proof
      fix i show "(?V |` (- set js)) i = ?V i" using none by (cases "?V i") (auto simp: restrict_map_def)
    qed
    ultimately show ?thesis using none handle_ok_companion(2) [OF ok assms(3)]
      by (intro exI [of _ ?m] exI [of _ 0]) simp
  next
    case False
    define removed :: u64 where "removed = word_of_nat (length pend)"
    define count where "count = u64_saturating_sub (ph_count h) removed"
    define ops where "ops = vector_commit_ops h count (ph_entry_point h) pend ex"
    define m' where "m' = apply_keys ops m"
    have fit: "params_fit (ph_params h)" and good: "graph_ok (ph_params h) (vector_nodes m)" using ok by (simp_all add: handle_ok_def)
    note fits = buried_data(6) [OF pend(1) good]
    have room: "vector_room (ph_params h) (length pend) \<le> vector_room (ph_params h) (length js)"
      using pend(3) by (simp add: vector_room_def mult_le_mono1)
    have bury: "achieves X {m, m'} runs sh' (obind (on_store (apply_batch X rnd (key_batch ops))) (\<lambda>_. obind (adopt count (ph_entry_point h) pend) (\<lambda>_. oret removed)))
        removed m' (\<lambda>h'. handle_ok m' h' \<and> ph_params h' = ph_params h) (vector_room (ph_params h) (length pend) + kvs_size (key_batch ex)) 1
      \<and> live_vectors (vector_nodes m') = ?V |` (- fst ` set pend)
      \<and> tombstones (vector_nodes m') = tombstones (vector_nodes m) \<union> fst ` set pend
      \<and> (\<forall>k. key_ok k \<longrightarrow> \<not> vector_key k \<longrightarrow> held m' k = held (apply_keys ex m) k)" if "vpeeks X runs st m h sh'" for sh'
    proof (rule bury_achieves [OF that ok assms(2,3) pend(1) _ _ _ ops_def m'_def])
      show "length pend + 1 + length ex \<le> MAX_BATCH_OPS" using assms(4) pend(3) by simp
      show "room_for st runs (vector_room (ph_params h) (length pend) + kvs_size (key_batch ex)) 1"
        by (rule room_mono [OF assms(5)]) (use room in simp_all)
    qed (simp add: count_def removed_def)
    have meta: "stage_vector_meta (handle_meta h1 count (ph_entry_point h)) (key_batch (node_ops pend))
        = Inr (key_batch (node_ops pend @ meta_ops (handle_meta h count (ph_entry_point h))))" if "same_index m h h1" for h1
      using stage_meta_ops [of "handle_meta h count (ph_entry_point h)"] fit same_index_fields [OF that] by (simp add: handle_meta_def)
    have "achieves X {m, m'} runs (st, h) (pv_delete_many_with X rnd js (key_batch ex)) removed m'
        (\<lambda>h'. handle_ok m' h' \<and> ph_params h' = ph_params h) ?e 1"
      unfolding pv_delete_many_with_def
    proof (rule achieves_after_vread [OF read at_vpeeks [OF assms(1)]])
      fix sh' assume v: "vpeeks X runs st m h sh'"
      then have si: "same_index m h (snd sh')" by (auto simp: vpeeks_def peeks_with_def split: prod.splits)
      have "achieves X {m, m'} runs sh' (obind (on_store (apply_batch X rnd (key_batch ops))) (\<lambda>_. obind (adopt count (ph_entry_point h) pend) (\<lambda>_. oret removed)))
        removed m' (\<lambda>h'. handle_ok m' h' \<and> ph_params h' = ph_params h) ?e 1"
        using bury [OF v, THEN conjunct1] by (rule achieves_mono) (use room in simp_all)
      then show "achieves X {m, m'} runs sh' (case (pend, set js) of (pend, seen) \<Rightarrow>
          if pend = [] then obind (apply_extra X rnd (key_batch ex)) (\<lambda>_. oret 0)
          else obind handle (\<lambda>h. let removed = word_of_nat (length pend); count = u64_saturating_sub (ph_count h) removed
            in obind (olift (rfold stage_node pend [])) (\<lambda>batch.
               obind (olift (stage_vector_meta (handle_meta h count (ph_entry_point h)) batch)) (\<lambda>batch.
               obind (on_store (apply_batch X rnd (batch_extend_from (key_batch ex) batch))) (\<lambda>_.
               obind (adopt count (ph_entry_point h) pend) (\<lambda>_. oret removed)))))) removed m'
          (\<lambda>h'. handle_ok m' h' \<and> ph_params h' = ph_params h) ?e 1"
        unfolding prod.case using False
        by (simp add: achieves_handle Let_def removed_def [symmetric] same_index_fields [OF si] count_def [symmetric]
            stage_node_ops [OF fits fit] meta [OF si] batch_extend_from_def ops_def vector_commit_ops_def)
    qed
    moreover have "unat removed = card (set js \<inter> dom ?V)"
    proof -
      have "card (fst ` set pend) = length pend" using pend(1) distinct_card [of "map fst pend"] by (simp add: buried_def)
      moreover have "length pend < 2 ^ 64" using pend(3) assms(4) by (simp add: MAX_BATCH_OPS_def)
      ultimately show ?thesis unfolding pend(2) removed_def by (simp add: unat_of_nat)
    qed
    ultimately show ?thesis using bury [OF at_vpeeks [OF assms(1)]] cut pend(2)
      by (intro exI [of _ m'] exI [of _ removed]) simp
  qed
qed

lemma delete_one_group: "pv_delete_with X rnd i extra = obind (pv_delete_many_with X rnd [i] extra) (\<lambda>r. oret (r \<noteq> 0))"
proof
  fix sh :: vstate
  obtain r sh1 where n: "engine_node X i sh = (r, sh1)" by (cases "engine_node X i sh")
  show "pv_delete_with X rnd i extra sh = obind (pv_delete_many_with X rnd [i] extra) (\<lambda>r. oret (r \<noteq> 0)) sh"
  proof (cases r)
    case (Inl e)
    then show ?thesis by (simp add: pv_delete_with_def pv_delete_many_with_def collect_live_def obind_def n)
  next
    case (Inr found)
    show ?thesis
    proof (cases "case found of None \<Rightarrow> None | Some n \<Rightarrow> if vn_deleted n then None else Some n")
      case None
      then have "(case found of None \<Rightarrow> [] | Some n \<Rightarrow> if vn_deleted n then [] else [] @ [(i, n\<lparr>vn_deleted := True\<rparr>)]) = []"
        by (auto split: option.splits if_splits)
      with None show ?thesis
        by (simp add: pv_delete_with_def pv_delete_many_with_def collect_live_def obind_def n Inr oret_def split: prod.split sum.split)
    next
      case (Some node)
      then have "found = Some node" "\<not> vn_deleted node" by (auto split: option.splits if_splits)
      then show ?thesis
        by (auto simp: pv_delete_with_def pv_delete_many_with_def collect_live_def obind_def n Inr oret_def handle_def Let_def olift_def
            rbind_eq_Inr split: prod.split sum.split)
    qed
  qed
qed

lemma delete_achieves:
  assumes "at X m (handle_ok m) runs (st, h)" "draws_ok (crypto st) rnd" "companion ex"
    and "2 + length ex \<le> MAX_BATCH_OPS" "room_for st runs (vector_room (ph_params h) 1 + kvs_size (key_batch ex)) 1"
  shows "\<exists>m'. achieves X {m, m'} runs (st, h) (pv_delete_with X rnd i (key_batch ex)) (i \<in> dom (live_vectors (vector_nodes m))) m'
      (\<lambda>h'. handle_ok m' h' \<and> ph_params h' = ph_params h) (vector_room (ph_params h) 1 + kvs_size (key_batch ex)) 1
    \<and> live_vectors (vector_nodes m') = (live_vectors (vector_nodes m))(i := None)
    \<and> tombstones (vector_nodes m') = tombstones (vector_nodes m) \<union> {i} \<inter> dom (live_vectors (vector_nodes m))
    \<and> (\<forall>k. key_ok k \<longrightarrow> \<not> vector_key k \<longrightarrow> held m' k = held (apply_keys ex m) k)"
proof -
  let ?V = "live_vectors (vector_nodes m)" and ?e = "vector_room (ph_params h) 1 + kvs_size (key_batch ex)"
  obtain m' r where d: "achieves X {m, m'} runs (st, h) (pv_delete_many_with X rnd [i] (key_batch ex)) r m'
      (\<lambda>h'. handle_ok m' h' \<and> ph_params h' = ph_params h) ?e 1"
    "unat r = card ({i} \<inter> dom ?V)" "live_vectors (vector_nodes m') = ?V |` (- {i})"
    "tombstones (vector_nodes m') = tombstones (vector_nodes m) \<union> {i} \<inter> dom ?V"
    "\<forall>k. key_ok k \<longrightarrow> \<not> vector_key k \<longrightarrow> held m' k = held (apply_keys ex m) k"
    using delete_many_achieves [OF assms(1-3), of "[i]"] assms(4,5) by auto
  have "r \<noteq> 0 \<longleftrightarrow> i \<in> dom ?V" using d(2) by (cases "i \<in> dom ?V") (auto simp: unat_eq_0 [symmetric] simp del: domIff)
  then have "achieves X {m, m'} runs (st, h) (pv_delete_with X rnd i (key_batch ex)) (i \<in> dom ?V) m'
      (\<lambda>h'. handle_ok m' h' \<and> ph_params h' = ph_params h) ?e 1"
    unfolding delete_one_group
    by (intro achieves_bind [OF d(1), where ?e2.0 = 0 and ?n2.0 = 0]) (auto intro: achieves_ret)
  moreover have "?V |` (- {i}) = ?V(i := None)" by (auto simp: restrict_map_def fun_eq_iff)
  ultimately show ?thesis using d(3-5) by (intro exI [of _ m']) simp
qed

subsection \<open>Search\<close>

lemma pv_search_reads:
  assumes "handle_ok m h" "vi_params idx = ph_params h" "vi_entry_point idx = ph_entry_point h" "map_of (vi_nodes idx) = vector_nodes m"
  shows "reads (vpeeks X runs st m h) (pv_search_scored F X query k) (vi_search_scored F idx query k)"
  unfolding reads_def
proof (intro allI impI)
  fix sh assume v: "vpeeks X runs st m h sh"
  obtain s h1 where sh: "sh = (s, h1)" by (cases sh)
  have f: "ph_params h1 = ph_params h" "ph_entry_point h1 = ph_entry_point h" using v same_index_fields by (auto simp: sh vpeeks_def peeks_with_def)
  let ?b = "max (vp_beam_width (ph_params h)) k"
  show "\<exists>sh'. pv_search_scored F X query k sh = (vi_search_scored F idx query k, sh') \<and> vpeeks X runs st m h sh'"
  proof (cases "length query = vp_dim (ph_params h) \<and> ph_entry_point h \<noteq> None \<and> 0 < k")
    case False
    then show ?thesis using v f assms(2,3)
      by (auto simp: pv_search_scored_def vi_search_scored_def obind_def handle_def sh olift_def oret_def split: option.split)
  next
    case True
    then obtain entry where e: "ph_entry_point h = Some entry" by blast
    have sim: "simulates (\<lambda>(u :: unit) sh. vpeeks X runs st m h sh) (map_node (vi_nodes idx) i) (engine_node X i)" for i
      using engine_node_reads [of X runs st m h i] unfolding reads_def simulates_def map_node_def oret_def
      by (metis assms(4) fst_conv snd_conv)
    have "fst (search_live_scored F (map_node (vi_nodes idx)) entry query ?b k ()) = fst (search_live_scored F (engine_node X) entry query ?b k sh)
      \<and> vpeeks X runs st m h (snd (search_live_scored F (engine_node X) entry query ?b k sh))"
      using sim_search_live_scored [of "\<lambda>(u :: unit) sh. vpeeks X runs st m h sh" "map_node (vi_nodes idx)" "engine_node X" F entry query ?b k]
        sim v unfolding simulates_def by blast
    then show ?thesis using True e f assms(2,3)
      by (cases "search_live_scored F (engine_node X) entry query ?b k sh")
        (auto simp: pv_search_scored_def vi_search_scored_def obind_def handle_def sh in_ram_def)
  qed
qed

subsection \<open>Scanning the nodes\<close>

lemma node_key_inj [simp]: "node_key i = node_key j \<longleftrightarrow> i = j"
  using decode_ids(1) by (metis option.inject)

lemma node_prefix [simp]: "prefix NODE_PREFIX (node_key i)"
  by (simp add: node_key_def)

lemma node_prefix_key:
  assumes "typed_map m" "m b = Some v" "prefix NODE_PREFIX b"
  shows "\<exists>i. b = node_key i"
proof -
  have space: "NODE_PREFIX \<in> set spaces" by (simp add: spaces_def)
  then have "reserved b" using assms(3) by (auto simp: reserved_def)
  then obtain k where k: "key_ok k" "b = key_bytes k" using typed_mapD [OF assms(1,2)] by blast
  have "key_space k = NODE_PREFIX" by (rule key_space_eq [OF encode_key_ok [OF k(1)] _ space]) (use assms(3) k(2) in simp)
  then obtain i where "k = KVectorNode i" by (cases k) (simp_all add: space_defs ascii_def)
  then show ?thesis using k(2) by auto
qed

lemma rfold_read_node:
  assumes "\<forall>(b, v) \<in> set es. \<exists>i n. b = node_key i \<and> decode_vector_node v = Inr n" "distinct (map fst es)" "sorted_keys acc"
  shows "\<exists>nodes. rfold read_node es acc = Inr nodes \<and> sorted_keys nodes
    \<and> (\<forall>i. map_of nodes i = (case map_of es (node_key i) of Some v \<Rightarrow> Some (projr (decode_vector_node v)) | None \<Rightarrow> map_of acc i))"
  using assms
proof (induction es arbitrary: acc)
  case (Cons e es)
  obtain i n v where e: "e = (node_key i, v)" "decode_vector_node v = Inr n" using Cons.prems(1) by (cases e) auto
  have id: "node_id (node_key i) = Some i" by (simp add: decode_ids)
  have none: "map_of es (node_key i) = None" using Cons.prems(2) by (simp add: e map_of_eq_None_iff)
  have "sorted_keys (om_insert i n acc)" using Cons.prems(3) by simp
  then obtain nodes where nodes: "rfold read_node es (om_insert i n acc) = Inr nodes" "sorted_keys nodes"
    "\<forall>j. map_of nodes j = (case map_of es (node_key j) of Some v \<Rightarrow> Some (projr (decode_vector_node v)) | None \<Rightarrow> map_of (om_insert i n acc) j)"
    using Cons.IH [of "om_insert i n acc"] Cons.prems(1,2) by auto
  moreover have "rfold read_node (e # es) acc = rfold read_node es (om_insert i n acc)" by (simp add: read_node_def e id)
  moreover have "map_of nodes j = (case map_of (e # es) (node_key j) of Some v \<Rightarrow> Some (projr (decode_vector_node v)) | None \<Rightarrow> map_of acc j)" for j
    using nodes(3) none Cons.prems(3) e by (cases "j = i") (auto split: option.split)
  ultimately show ?case by auto
qed simp

lemma node_entries:
  assumes "typed_map m" "finite (dom m)"
  shows "\<forall>(b, v) \<in> set (entries_of (prefix NODE_PREFIX) m). \<exists>i n. b = node_key i \<and> decode_vector_node v = Inr n \<and> vector_nodes m i = Some n"
    "map_of (entries_of (prefix NODE_PREFIX) m) (node_key i) = m (node_key i)" "distinct (map fst (entries_of (prefix NODE_PREFIX) m))"
proof -
  have fin: "finite {k \<in> dom m. prefix NODE_PREFIX k}" using assms(2) by simp
  show "\<forall>(b, v) \<in> set (entries_of (prefix NODE_PREFIX) m). \<exists>i n. b = node_key i \<and> decode_vector_node v = Inr n \<and> vector_nodes m i = Some n"
  proof clarify
    fix b v assume "(b, v) \<in> set (entries_of (prefix NODE_PREFIX) m)"
    then have b: "prefix NODE_PREFIX b" "m b = Some v" by (simp_all add: set_entries_of [OF fin])
    then show "\<exists>i n. b = node_key i \<and> decode_vector_node v = Inr n \<and> vector_nodes m i = Some n"
      using node_prefix_key [OF assms(1) b(2,1)] vector_nodes_held(2) [OF assms(1)] by blast
  qed
  show "map_of (entries_of (prefix NODE_PREFIX) m) (node_key i) = m (node_key i)"
    by (simp add: map_of_entries_of [OF fin] restricted_def)
  show "distinct (map fst (entries_of (prefix NODE_PREFIX) m))" by (intro sorted_keys_distinct) simp
qed

lemma nodes_read:
  assumes "typed_map m" "finite (dom m)"
  shows "\<exists>nodes. rfold read_node (entries_of (prefix NODE_PREFIX) m) [] = Inr nodes \<and> sorted_keys nodes \<and> map_of nodes = vector_nodes m"
proof -
  let ?es = "entries_of (prefix NODE_PREFIX) m"
  have "\<forall>(b, v) \<in> set ?es. \<exists>i n. b = node_key i \<and> decode_vector_node v = Inr n" using node_entries(1) [OF assms] by fastforce
  from rfold_read_node [OF this node_entries(3) [OF assms] sorted_keys_Nil] obtain nodes where
    nodes: "rfold read_node ?es [] = Inr nodes" "sorted_keys nodes"
      "\<forall>i. map_of nodes i = (case map_of ?es (node_key i) of Some v \<Rightarrow> Some (projr (decode_vector_node v)) | None \<Rightarrow> map_of [] i)" by blast
  have "map_of nodes i = vector_nodes m i" for i
    using nodes(3) vector_nodes_held(2) [OF assms(1)] vector_nodes_None [OF assms(1), of i]
    by (cases "m (node_key i)") (force simp: node_entries(2) [OF assms])+
  then show ?thesis using nodes(1,2) by blast
qed

lemma reads_vpeeks_store: "reads (peeks X runs st m) p r \<Longrightarrow> reads (vpeeks X runs st m h) (on_store p) r"
  using reads_on_store [of X runs st m p r "same_index m h"] by (auto simp: reads_def vpeeks_def)

subsection \<open>Consolidation\<close>

text \<open>A map in which the index is intact: it has the same live vectors, and nothing else changed.\<close>

definition index_intact :: "(bytes \<rightharpoonup> bytes) \<Rightarrow> vector_handle \<Rightarrow> (bytes \<rightharpoonup> bytes) \<Rightarrow> bool" where
  "index_intact m h m' \<longleftrightarrow> (\<exists>h'. handle_ok m' h' \<and> ph_params h' = ph_params h)
     \<and> live_vectors (vector_nodes m') = live_vectors (vector_nodes m)
     \<and> (\<forall>k. key_ok k \<longrightarrow> \<not> vector_key k \<longrightarrow> held m' k = held m k)"

lemma other_keys_held:
  assumes "\<forall>(k, v) \<in> set ops. key_ok k \<and> vector_key k" "key_ok k" "\<not> vector_key k"
  shows "held (apply_keys ops m) k = held m k"
  using assms by (intro held_keys_other) auto

lemma own_ops: "\<forall>(k, v) \<in> set (node_ops ns). key_ok k \<and> vector_key k" "\<forall>(k, v) \<in> set (removal_ops is). key_ok k \<and> vector_key k"
  "\<forall>(k, v) \<in> set (meta_ops meta). key_ok k \<and> vector_key k"
  by (auto simp: node_ops_def removal_ops_def meta_ops_def)

lemma chunked_ops: "node_ops (concat cs) = concat (map node_ops cs)" "removal_ops (concat js) = concat (map removal_ops js)"
  unfolding node_ops_def [abs_def] removal_ops_def [abs_def] by (simp_all add: map_concat)

lemma stage_removals_ops: "stage_removals c = Inr (key_batch (removal_ops c))"
proof -
  have "fold (\<lambda>i batch. batch_delete (node_key i) batch) c b = b @ key_batch (removal_ops c)" for b
    by (induction c arbitrary: b) (simp_all add: batch_delete_def removal_ops_def)
  then show ?thesis by (simp add: stage_removals_def)
qed

lemma size_removal_ops: "kvs_size (key_batch (removal_ops is)) = length is * 33"
  by (induction "is") (simp_all add: removal_ops_def entry_wire_size_def)

text \<open>Part of the repairs written.\<close>

lemma patched_ok:
  assumes "handle_ok m h" "\<forall>(i, n) \<in> set ys. node_ok (ph_params h) (vector_nodes m) i n \<and> map_option node_data (vector_nodes m i) = Some (node_data n)"
    and "m' = apply_keys (node_ops ys) m"
  shows "handle_ok m' (h\<lparr>ph_cache := []\<rparr>)" "vector_nodes m' = vector_nodes m ++ map_of (rev ys)" "live_vectors (vector_nodes m') = live_vectors (vector_nodes m)"
    "index_intact m h m'"
proof -
  let ?P = "ph_params h" and ?G = "vector_nodes m"
  have fit: "params_fit ?P" and good: "graph_ok ?P ?G" using assms(1) by (simp_all add: handle_ok_def)
  have fits: "\<forall>(i, n) \<in> set ys. node_fits ?P n" using assms(2) node_ok_fits by fastforce
  note nodes = apply_node_ops [OF fits fit, of m, folded assms(3)]
  show G': "vector_nodes m' = ?G ++ map_of (rev ys)" by (rule nodes(1))
  have "\<forall>(i, n) \<in> set (rev ys). node_ok ?P ?G i n \<and> map_option node_data (?G i) = Some (node_data n)" using assms(2) by simp
  note data = repaired_data [OF this good, folded G']
  show live: "live_vectors (vector_nodes m') = live_vectors ?G" by (rule data(2))
  have "typed_map m'" unfolding assms(3) using assms(1) by (intro typed_apply_keys vector_ops_ok(1) [OF fits fit]) (simp add: handle_ok_def)
  moreover have "vector_nodes m' = Map.empty" if "?G = Map.empty" using data(4) that by simp
  ultimately show ok: "handle_ok m' (h\<lparr>ph_cache := []\<rparr>)"
    using assms(1) data(1) unfolding handle_ok_def meta_matches_def nodes(2) live data(4)
    by (auto simp: handle_meta_def coherent_def split: option.splits)
  have "\<forall>k. key_ok k \<longrightarrow> \<not> vector_key k \<longrightarrow> held m' k = held m k" unfolding assms(3) using other_keys_held [OF own_ops(1)] by blast
  then show "index_intact m h m'" unfolding index_intact_def using ok live by auto
qed

text \<open>The bytes and batches of a consolidation.\<close>

definition consolidate_room :: "vector_index_params \<Rightarrow> nat \<Rightarrow> nat" where
  "consolidate_room P nodes = nodes * (node_room P + 33) + 68"

text \<open>
  Metadata written for a patched graph, with tombstones gone: the maps of the later phases.
\<close>

lemma purged_phase_ok:
  assumes "handle_ok m h" "repairs (ph_params h) (vector_nodes m) ids rs" "dom (live_vectors (vector_nodes m)) \<subseteq> set ids"
    and "D \<subseteq> tombstones (vector_nodes m)" "set ds = D"
    and "unat count = card (dom (live_vectors (vector_nodes m)))"
    and "case entry of None \<Rightarrow> dom (live_vectors (vector_nodes m)) = {} | Some e \<Rightarrow> e \<in> dom (live_vectors (vector_nodes m))"
    and "m' = apply_keys (node_ops rs @ meta_ops (handle_meta h count entry) @ removal_ops ds) m"
  shows "handle_ok m' (h\<lparr>ph_entry_point := entry, ph_count := count, ph_cache := []\<rparr>)" "live_vectors (vector_nodes m') = live_vectors (vector_nodes m)"
    "tombstones (vector_nodes m') = tombstones (vector_nodes m) - D" "index_intact m h m'"
proof -
  let ?P = "ph_params h" and ?G = "vector_nodes m" and ?meta = "handle_meta h count entry" and ?ops = "node_ops rs @ meta_ops (handle_meta h count entry) @ removal_ops ds"
  let ?h = "h\<lparr>ph_entry_point := entry, ph_count := count, ph_cache := []\<rparr>"
  have fit: "params_fit ?P" "params_fit (vx_params ?meta)" and good: "graph_ok ?P ?G" using assms(1) by (simp_all add: handle_ok_def handle_meta_def)
  have fits: "\<forall>(i, n) \<in> set rs. node_fits ?P n" using repairs_patch [OF assms(2)] node_ok_fits by fastforce
  have rev: "map_of (rev rs) = map_of rs" using assms(2) by (intro map_of_rev) (simp add: repairs_def)
  define m1 where "m1 = apply_keys (node_ops rs) m"
  define m2 where "m2 = apply_keys (meta_ops ?meta) m1"
  have m': "m' = apply_keys (removal_ops ds) m2" by (simp add: assms(8) m1_def m2_def)
  have m1: "vector_nodes m1 = ?G ++ map_of rs" using apply_node_ops [OF fits fit(1), of m] by (simp add: m1_def rev)
  have m2: "vector_nodes m2 = ?G ++ map_of rs" "held m2 KVectorMeta = Some (projr (encode_vector_meta ?meta))"
    using vector_meta_applied [OF fit(2), of m1] by (simp_all add: m2_def m1)
  have nodes: "vector_nodes m' = (\<lambda>i. if i \<in> D then None else (?G ++ map_of rs) i)"
    and meta: "held m' KVectorMeta = Some (projr (encode_vector_meta ?meta))"
    using apply_removal_ops [of ds m2] by (simp_all only: m' m2 assms(5))
  note data = partly_purged [OF assms(2) good assms(3,4), folded nodes]
  show live: "live_vectors (vector_nodes m') = live_vectors ?G" by (rule data(2))
  show "tombstones (vector_nodes m') = tombstones ?G - D" by (rule data(3))
  have start: "start_ok (vector_nodes m') entry"
    using assms(7) dom_split(1) [of "vector_nodes m'"] unfolding start_ok_def live by (cases entry) auto
  have "typed_map m'" unfolding m' m2_def m1_def using assms(1)
    by (intro typed_apply_keys vector_ops_ok(2) vector_ops_ok(3) [OF fit(2)] vector_ops_ok(1) [OF fits fit(1)]) (simp add: handle_ok_def)
  moreover have "meta_matches m' ?h"
    by (rule meta_after [OF fit(1) meta _ start, where c = "[]"]) (use assms(6) live in simp_all)
  moreover have "case entry of None \<Rightarrow> dom (live_vectors (vector_nodes m')) = {} | Some e \<Rightarrow> e \<in> dom (vector_nodes m')"
    using start by (simp add: start_ok_def)
  ultimately show ok: "handle_ok m' ?h" using assms(6) data(1) fit(1) unfolding handle_ok_def by (simp add: live coherent_def cong: option.case_cong)
  have "\<forall>(k, v) \<in> set ?ops. key_ok k \<and> vector_key k" using own_ops by fastforce
  then have "\<forall>k. key_ok k \<longrightarrow> \<not> vector_key k \<longrightarrow> held m' k = held m k" unfolding assms(8) using other_keys_held by blast
  then show "index_intact m h m'" unfolding index_intact_def using ok live by auto
qed

lemma nearest_live_entry:
  assumes "sorted_keys nodes"
  shows "case nearest_live F nodes ref of None \<Rightarrow> dom (live_vectors (map_of nodes)) = {} | Some e \<Rightarrow> e \<in> dom (live_vectors (map_of nodes))"
proof (cases "nearest_live F nodes ref")
  case None
  have "filter (\<lambda>(i, n). \<not> vn_deleted n) nodes = []" using nearest_live_spec [where F = F and nodes = nodes and ref = ref] None by simp
  then show ?thesis using ids_by_flag(2) [OF assms] None by simp
next
  case (Some e)
  obtain n where "(e, n) \<in> set nodes" "\<not> vn_deleted n" using nearest_live_spec [where F = F and nodes = nodes and ref = ref] Some by auto
  then show ?thesis using map_of_eq_Some [OF assms] by (auto simp: Some dom_live simp del: domIff)
qed

lemma achieves_handle_change:
  "at X m H0 runs sh \<Longrightarrow> H h \<Longrightarrow> m \<in> ms \<Longrightarrow> achieves X ms runs sh (obind (set_handle h) (\<lambda>_. oret r)) r m H e n"
  by (rule achieves_modify [where f = "\<lambda>_. h" and ?H0.0 = H0]) (auto simp: set_handle_def obind_def oret_def)

lemma consolidate_achieves:
  assumes "at X m (handle_ok m) runs (st, h)" "\<And>j. draws_ok (crypto st) (rnds j)"
    and "N = card (dom (vector_nodes m))" "room_for st runs (consolidate_room (ph_params h) N) (2 * N + 1)"
  shows "\<exists>m'. achieves X {m'. index_intact m h m'} runs (st, h) (pv_consolidate F X rnds) (word_of_nat (card (tombstones (vector_nodes m)))) m'
      (\<lambda>h'. handle_ok m' h' \<and> ph_params h' = ph_params h) (consolidate_room (ph_params h) N) (2 * N + 1)
    \<and> index_intact m h m' \<and> tombstones (vector_nodes m') = {}"
proof -
  let ?P = "ph_params h" and ?G = "vector_nodes m" and ?ms = "{m'. index_intact m h m'}" and ?room = "consolidate_room (ph_params h) N"
  have ok: "handle_ok m h" using assms(1) by (simp add: at_def)
  have t: "typed_map m" and fit: "params_fit ?P" and good: "graph_ok ?P ?G" and count: "unat (ph_count h) = card (dom (live_vectors ?G))"
    using ok by (simp_all add: handle_ok_def)
  have "finite (dom m)" using assms(1) finite_store_map by (auto simp: at_def)
  then obtain nodes where nodes: "rfold read_node (entries_of (prefix NODE_PREFIX) m) [] = Inr nodes" "sorted_keys nodes" "map_of nodes = ?G"
    using nodes_read [OF t] by blast
  define dead where "dead = map fst (filter (\<lambda>(i, n). vn_deleted n) nodes)"
  define ids where "ids = map fst (filter (\<lambda>(i, n). \<not> vn_deleted n) nodes)"
  have dead: "set dead = tombstones ?G" "distinct dead" and ids: "set ids = dom (live_vectors ?G)" "distinct ids"
    using ids_by_flag [OF nodes(2)] nodes(3) by (simp_all add: dead_def ids_def)
  have lens: "length dead = card (tombstones ?G)" "length ids = card (dom (live_vectors ?G))"
    using distinct_card [OF dead(2)] distinct_card [OF ids(2)] dead(1) ids(1) by simp_all
  have N: "N = length ids + length dead"
    unfolding assms(3) lens dom_split(1) [of ?G] by (rule card_Un_disjoint) (simp_all add: dom_split(2))
  define live_count :: u64 where "live_count = word_of_nat (length ids)"
  have lc: "live_count = ph_count h" unfolding live_count_def lens count [symmetric] by simp
  have intact: "index_intact m h m" using ok by (auto simp: index_intact_def)
  have scan: "reads (vpeeks X runs st m h) (on_store (kv_scan X NODE_PREFIX)) (Inr (entries_of (prefix NODE_PREFIX) m))"
    by (rule reads_vpeeks_store [OF engine.scan_map])
  show ?thesis
  proof (cases "dead = []")
    case True
    have "achieves X ?ms runs (st, h) (pv_consolidate F X rnds) 0 m (\<lambda>h'. handle_ok m h' \<and> ph_params h' = ph_params h) ?room (2 * N + 1)"
      unfolding pv_consolidate_def
    proof (rule achieves_after_vread [OF scan at_vpeeks [OF assms(1)]], goal_cases)
      case (1 sh')
      have f: "same_index m h (snd sh')" using 1(2) by (auto simp: at_def split: prod.splits)
      have "(snd sh')\<lparr>ph_count := live_count\<rparr> = snd sh'" using same_index_fields [OF f] lc by simp
      then show ?case
        unfolding nodes(1) obind_simps achieves_handle Let_def dead_def [symmetric] ids_def [symmetric] live_count_def [symmetric]
        using True same_index_ok(2) [OF ok f] same_index_fields [OF f] intact by (simp, intro achieves_handle_change [OF 1(2)]) simp_all
    qed
    then show ?thesis using True dead intact lens by (intro exI [of _ m]) auto
  next
    case False
    obtain rs where rs: "in_ram (ofold (push_repair F ?P (map_node nodes)) ids []) = Inr rs" "repairs ?P ?G ids rs"
      using repairs_read [OF ram.node_view_axioms _ ids(2), of ?P nodes F "[]"] in_ram_reads good nodes(3) by auto
    define entry where "entry = (case ph_entry_point h of
          Some e \<Rightarrow> if e \<notin> set dead \<and> map_of nodes e \<noteq> None then Some e else nearest_live F nodes (map_option vn_vector (map_of nodes e))
        | None \<Rightarrow> nearest_live F nodes None)"
    have entry: "case entry of None \<Rightarrow> dom (live_vectors ?G) = {} | Some e \<Rightarrow> e \<in> dom (live_vectors ?G)"
    proof (cases "\<exists>e. ph_entry_point h = Some e \<and> e \<notin> set dead \<and> map_of nodes e \<noteq> None")
      case True
      then obtain e where e: "ph_entry_point h = Some e" "e \<notin> set dead" "map_of nodes e \<noteq> None" by blast
      then have "entry = Some e" "e \<notin> tombstones ?G" "e \<in> dom ?G" using dead(1) nodes(3) by (simp_all add: entry_def domIff del: not_None_eq)
      then show ?thesis using dom_split(1) [of ?G] by auto
    next
      case none: False
      then have "\<exists>ref. entry = nearest_live F nodes ref" unfolding entry_def by (cases "ph_entry_point h") auto
      then obtain ref where "entry = nearest_live F nodes ref" by blast
      then show ?thesis using nearest_live_entry [OF nodes(2), where F = F and ref = ref] by (simp only: nodes(3))
    qed
    let ?meta = "handle_meta h live_count entry" and ?cs = "chunks_of REBUILD_CHUNK rs" and ?ds = "chunks_of REBUILD_CHUNK dead"
    define m1 where "m1 = apply_keys (node_ops rs) m"
    define m2 where "m2 = apply_keys (meta_ops ?meta) m1"
    define m3 where "m3 = apply_keys (removal_ops dead) m2"
    have chunk: "0 < REBUILD_CHUNK" by (simp add: REBUILD_CHUNK_def)
    have cat: "concat (map node_ops ?cs) = node_ops rs" "concat (map removal_ops ?ds) = removal_ops dead"
      by (simp_all add: chunked_ops [symmetric] concat_chunks_of [OF chunk])
    have fits: "\<forall>(i, n) \<in> set rs. node_fits ?P n" using repairs_patch [OF rs(2)] node_ok_fits by fastforce
    have "length rs = card (fst ` set rs)" using rs(2) distinct_card [of "map fst rs"] by (simp add: repairs_def)
    also have "\<dots> \<le> card (set ids)" using rs(2) by (intro card_mono) (auto simp: repairs_def)
    finally have rs_len: "length rs \<le> length ids" using lens ids(1) by simp
    have cs_len: "length ?cs \<le> length ids" "length ?ds \<le> length dead" using length_chunks_of [OF chunk, of rs] length_chunks_of [OF chunk, of dead] rs_len by simp_all
    have phase1: "index_intact m h (apply_keys (node_ops ys) m)" if "rs = ys @ zs" for ys zs
      by (rule patched_ok(4) [OF ok _ refl]) (use repairs_patch [OF rs(2)] that in auto)
    have uc: "unat live_count = card (dom (live_vectors ?G))" using lc count by simp
    have phase3: "index_intact m h (apply_keys (removal_ops ys) m2)"
      "handle_ok (apply_keys (removal_ops ys) m2) (h\<lparr>ph_entry_point := entry, ph_count := live_count, ph_cache := []\<rparr>)"
      "tombstones (vector_nodes (apply_keys (removal_ops ys) m2)) = tombstones ?G - set ys"
      if "dead = ys @ zs" for ys zs
    proof -
      have sub: "set ys \<subseteq> tombstones ?G" using that dead(1) by auto
      have m': "apply_keys (removal_ops ys) m2 = apply_keys (node_ops rs @ meta_ops ?meta @ removal_ops ys) m" by (simp add: m2_def m1_def)
      note ph = purged_phase_ok [OF ok rs(2) _ sub refl uc entry m']
      show "index_intact m h (apply_keys (removal_ops ys) m2)"
        "handle_ok (apply_keys (removal_ops ys) m2) (h\<lparr>ph_entry_point := entry, ph_count := live_count, ph_cache := []\<rparr>)"
        "tombstones (vector_nodes (apply_keys (removal_ops ys) m2)) = tombstones ?G - set ys"
        using ph(1,3,4) ids(1) by simp_all
    qed
    have st1: "stages_of node_ops ?cs m \<subseteq> ?ms"
      using chunked_stages [OF chunk chunked_ops(1)] phase1 by blast
    have st3: "stages_of removal_ops ?ds m2 \<subseteq> ?ms"
      using chunked_stages [OF chunk chunked_ops(2)] phase3(1) by blast
    have in1: "m1 \<in> ?ms" using phase1 [of rs "[]"] by (simp add: m1_def)
    have in2: "m2 \<in> ?ms" using phase3(1) [of "[]" dead] by (simp add: removal_ops_def)
    have in3: "m3 \<in> ?ms" using phase3(1) [of dead "[]"] by (simp add: m3_def)
    have size1: "batches_size node_ops ?cs \<le> length ids * node_room ?P"
      using size_node_ops [OF fits fit] rs_len mult_le_mono1 [of "length rs" "length ids" "node_room ?P"] unfolding batches_size_def cat(1) by linarith
    have size3: "batches_size removal_ops ?ds = length dead * 33" by (simp add: batches_size_def cat(2) size_removal_ops)
    have fitm: "params_fit (vx_params ?meta)" using fit by (simp add: handle_meta_def)
    have total: "batches_size node_ops ?cs + (68 + batches_size removal_ops ?ds) \<le> ?room"
      using size1 size3 unfolding consolidate_room_def N by (simp add: algebra_simps)
    have calls: "length ?cs + (1 + length ?ds) \<le> 2 * N + 1" using cs_len unfolding N by simp
    let ?h3 = "h\<lparr>ph_entry_point := entry, ph_count := live_count, ph_cache := []\<rparr>" and ?H = "\<lambda>h'. handle_ok m3 h' \<and> ph_params h' = ph_params h"
    let ?tail = "\<lambda>h1 j. obind (olift (stage_vector_meta (handle_meta h1 live_count entry) [])) (\<lambda>meta_batch.
             obind (on_store (apply_batch X (rnds j) meta_batch)) (\<lambda>_.
             obind (write_batches X rnds stage_removals (j + 1) ?ds) (\<lambda>_.
             obind (set_handle (h1\<lparr>ph_entry_point := entry, ph_count := live_count, ph_cache := []\<rparr>)) (\<lambda>_. oret (word_of_nat (length dead) :: u64)))))"
    have tail: "achieves X ?ms runs1 sh1 (?tail h1 j) (word_of_nat (length dead)) m3 ?H (68 + batches_size removal_ops ?ds) (1 + length ?ds)"
      if at1: "at X m1 (same_index m h) runs1 sh1" and cr1: "crypto (fst sh1) = crypto st"
        and room1: "room_for (fst sh1) runs1 (68 + batches_size removal_ops ?ds) (1 + length ?ds)" and h1: "same_index m h h1" for runs1 sh1 h1 j
    proof -
      have hm: "handle_meta h1 live_count entry = ?meta" "h1\<lparr>ph_entry_point := entry, ph_count := live_count, ph_cache := []\<rparr> = ?h3"
        using h1 by (auto simp: handle_meta_def same_index_def)
      have meta: "stage_vector_meta ?meta [] = Inr (key_batch (meta_ops ?meta))" using stage_meta_ops [OF fitm, of "[]"] by simp
      have b: "achieves X ?ms runs1 sh1 (on_store (apply_batch X (rnds j) (key_batch (meta_ops ?meta)))) () m2 (same_index m h) 68 1"
        using achieves_batch [OF at1, of "rnds j" "meta_ops ?meta" ?ms] assms(2) [of j] cr1 room_mono [OF room1, of 68 1] in1 in2
        by (simp add: size_meta_ops [OF fitm] m2_def) (simp add: meta_ops_def MAX_BATCH_OPS_def)
      show ?thesis
        unfolding hm meta obind_simps
      proof (rule achieves_bind [OF b, where ?e2.0 = "batches_size removal_ops ?ds" and ?n2.0 = "length ?ds"], goal_cases)
        case (1 sh2 runs2)
        have r2: "room_for (fst sh2) runs2 (batches_size removal_ops ?ds) (length ?ds)" by (rule 1(3)) (use room1 in simp)
        have w: "achieves X ?ms runs2 sh2 (write_batches X rnds stage_removals (j + 1) ?ds) (j + 1 + length ?ds) m3 (same_index m h) (batches_size removal_ops ?ds) (length ?ds)"
          unfolding m3_def cat(2) [symmetric]
        proof (rule write_batches_achieves [OF 1(1) _ _ _ st3])
          show "draws_ok (crypto (fst sh2)) (rnds k)" for k using assms(2) 1(2) cr1 by simp
          show "room_for (fst sh2) runs2 (batches_size removal_ops ?ds) (length ?ds)" by (rule r2)
          show "stage_removals c = Inr (key_batch (removal_ops c)) \<and> length (removal_ops c) \<le> MAX_BATCH_OPS" if "c \<in> set ?ds" for c
            using chunks_of_length [OF that] by (simp add: stage_removals_ops removal_ops_def REBUILD_CHUNK_def MAX_BATCH_OPS_def)
        qed
        show ?case
        proof (rule achieves_bind [OF w, where ?e2.0 = 0 and ?n2.0 = 0], goal_cases)
          case (1 sh3 runs3)
          show ?case by (rule achieves_handle_change [OF 1(1)]) (use phase3(2) [of dead "[]"] in3 in \<open>simp_all add: m3_def\<close>)
        qed simp_all
      qed simp_all
    qed
    have "achieves X ?ms runs (st, h) (pv_consolidate F X rnds) (word_of_nat (length dead)) m3 ?H ?room (2 * N + 1)"
      unfolding pv_consolidate_def
    proof (rule achieves_after_vread [OF scan at_vpeeks [OF assms(1)]], goal_cases)
      case (1 sh')
      have si: "same_index m h (snd sh')" using 1(2) by (auto simp: at_def split: prod.splits)
      note f = same_index_fields [OF si]
      have room: "room_for (fst sh') runs (batches_size node_ops ?cs + (68 + batches_size removal_ops ?ds)) (length ?cs + (1 + length ?ds))"
        unfolding 1(4) by (rule room_mono [OF assms(4) total calls])
      have w: "achieves X ?ms runs sh' (write_batches X rnds stage_nodes 0 ?cs) (0 + length ?cs) m1 (same_index m h) (batches_size node_ops ?cs) (length ?cs)"
        unfolding m1_def cat(1) [symmetric]
      proof (rule write_batches_achieves [OF 1(2) _ _ _ st1])
        show "draws_ok (crypto (fst sh')) (rnds j)" for j using assms(2) 1(3) by simp
        show "room_for (fst sh') runs (batches_size node_ops ?cs) (length ?cs)" by (rule room_mono [OF room]) simp_all
        fix c assume c: "c \<in> set ?cs"
        then have "set c \<subseteq> set rs" using concat_chunks_of [OF chunk, of rs] by (metis Union_upper imageI set_concat)
        then have "\<forall>(i, n) \<in> set c. node_fits ?P n" using fits by blast
        then show "stage_nodes c = Inr (key_batch (node_ops c)) \<and> length (node_ops c) \<le> MAX_BATCH_OPS"
          using stage_node_ops [OF _ fit, of c "[]"] chunks_of_length [OF c] by (simp add: stage_nodes_def node_ops_def REBUILD_CHUNK_def MAX_BATCH_OPS_def)
      qed
      have "achieves X ?ms runs sh' (obind (write_batches X rnds stage_nodes 0 ?cs) (?tail (snd sh'))) (word_of_nat (length dead)) m3 ?H ?room (2 * N + 1)"
      proof (rule achieves_bind [OF w _ total calls], goal_cases)
        case (1 sh1 runs1)
        show ?case by (rule tail [OF 1(1) _ 1(3) [OF room] si]) (use 1(2) \<open>crypto (fst sh') = crypto st\<close> in simp)
      qed
      then show ?case
        unfolding nodes(1) obind_simps achieves_handle Let_def dead_def [symmetric] ids_def [symmetric] live_count_def [symmetric]
        using False by (simp add: f rs(1) entry_def)
    qed
    moreover have "tombstones (vector_nodes m3) = {}" using phase3(3) [of dead "[]"] dead(1) by (simp add: m3_def)
    ultimately show ?thesis using in3 lens by (intro exI [of _ m3]) simp
  qed
qed

end
