(* ===== verification/Vector_Open.thy ===== *)
theory Vector_Open
  imports Vector_Index
begin

text \<open>
  Opening and rebuilding the persisted vector index (idx/vector/persistent.rs: open,
  rebuild_from_store, rebuild). A rebuild drops the metadata record first, so a crash in the middle
  of it leaves a store without one, which the next open rebuilds again; the live vectors are the
  same at every step.
\<close>

subsection \<open>Stores that open\<close>

definition unopened :: "(bytes \<rightharpoonup> bytes) \<Rightarrow> (bytes \<rightharpoonup> bytes)" where
  "unopened m = apply_keys [(KVectorMeta, None)] m"

text \<open>The live vectors fit the parameters, and every value but the metadata record decodes.\<close>

definition rebuildable :: "vector_index_params \<Rightarrow> (bytes \<rightharpoonup> bytes) \<Rightarrow> bool" where
  "rebuildable P m \<longleftrightarrow> params_fit P \<and> typed_map (unopened m)
     \<and> (\<forall>v \<in> ran (live_vectors (vector_nodes m)). length v = vp_dim P) \<and> card (dom (live_vectors (vector_nodes m))) < 2 ^ 64"

text \<open>A later stage of the store: the same live vectors and, when there is metadata, an intact index.\<close>

definition salvaged :: "vector_index_params \<Rightarrow> (bytes \<rightharpoonup> bytes) \<Rightarrow> (bytes \<rightharpoonup> bytes) \<Rightarrow> bool" where
  "salvaged P m m' \<longleftrightarrow> typed_map m' \<and> live_vectors (vector_nodes m') = live_vectors (vector_nodes m)
     \<and> (\<forall>k. key_ok k \<longrightarrow> \<not> vector_key k \<longrightarrow> held m' k = held m k)
     \<and> (held m' KVectorMeta = None \<or> (\<exists>h. handle_ok m' h \<and> ph_params h = P))"

lemma unopened_simps [simp]:
  "held (unopened m) KVectorMeta = None" "vector_nodes (unopened m) = vector_nodes m"
  "key_ok k \<Longrightarrow> \<not> vector_key k \<Longrightarrow> held (unopened m) k = held m k"
proof -
  have keys: "\<forall>(k, v) \<in> set [(KVectorMeta, None :: bytes option)]. key_ok k" by simp
  have look: "held (unopened m) k = (if k = KVectorMeta then None else held m k)" if "key_ok k" for k
    using held_apply_keys [OF keys that, of m] by (simp add: unopened_def)
  show "held (unopened m) KVectorMeta = None" "vector_nodes (unopened m) = vector_nodes m"
    by (simp_all add: look vector_nodes_def fun_eq_iff)
  show "held (unopened m) k = held m k" if "key_ok k" "\<not> vector_key k" using that look by auto
qed

lemma salvaged_unopened: "rebuildable P m \<Longrightarrow> salvaged P m (unopened m)"
  by (simp add: salvaged_def rebuildable_def)

text \<open>An opened handle: no metadata is a store without nodes.\<close>

lemma decode_meta_errors:
  assumes "decode_vector_meta v = Inl e"
  shows "case e of Corrupt a \<Rightarrow> a = VectorIndexMeta | UnsupportedVersion a _ _ \<Rightarrow> a = VectorIndexMeta | _ \<Rightarrow> False"
proof -
  have "block_open VectorIndexMeta (length v = VECTOR_META_LEN) VECTOR_INDEX_META_MAGIC VECTOR_INDEX_META_VERSION v = Inl e"
    using assms unfolding decode_vector_meta_def Let_def
    by (cases "block_open VectorIndexMeta (length v = VECTOR_META_LEN) VECTOR_INDEX_META_MAGIC VECTOR_INDEX_META_VERSION v") simp_all
  then show ?thesis by (auto simp: block_open_def Let_def split: if_splits)
qed

subsection \<open>The nodes in scan order\<close>

lemma node_id_key [simp]: "node_id (node_key i) = Some i"
  by (simp add: decode_ids)

definition scanned :: "(bytes \<times> bytes) list \<Rightarrow> (u64 \<times> vector_node) list" where
  "scanned es = map (\<lambda>(b, v). (the (node_id b), projr (decode_vector_node v))) es"

lemma rfold_read_vector:
  assumes "\<forall>(b, v) \<in> set es. \<exists>i n. b = node_key i \<and> decode_vector_node v = Inr n"
    and "\<forall>(i, n) \<in> set (scanned es). \<not> vn_deleted n \<longrightarrow> length (vn_vector n) = vp_dim P"
  shows "rfold (read_vector P) es (vs, ts) =
    Inr (vs @ map (\<lambda>(i, n). (i, vn_vector n)) (filter (\<lambda>(i, n). \<not> vn_deleted n) (scanned es)),
         ts @ map fst (filter (\<lambda>(i, n). vn_deleted n) (scanned es)))"
  using assms
proof (induction es arbitrary: vs ts)
  case (Cons e es)
  obtain i n v where e: "e = (node_key i, v)" "decode_vector_node v = Inr n" using Cons.prems(1) by (cases e) auto
  have s: "scanned (e # es) = (i, n) # scanned es" by (simp add: scanned_def e)
  have step: "read_vector P e (vs, ts) = Inr (if vn_deleted n then (vs, ts @ [i]) else (vs @ [(i, vn_vector n)], ts))"
    using Cons.prems(2) unfolding s by (simp add: read_vector_def e)
  have IH: "rfold (read_vector P) es (vs', ts') =
    Inr (vs' @ map (\<lambda>(i, n). (i, vn_vector n)) (filter (\<lambda>(i, n). \<not> vn_deleted n) (scanned es)),
         ts' @ map fst (filter (\<lambda>(i, n). vn_deleted n) (scanned es)))" for vs' ts'
    using Cons.IH Cons.prems unfolding s by simp
  show ?case unfolding s rfold.simps step rbind.simps by (simp add: IH)
qed (simp add: scanned_def)

lemma scanned_nodes:
  assumes "typed_map m" "finite (dom m)"
  shows "map_of (scanned (entries_of (prefix NODE_PREFIX) m)) = vector_nodes m" "distinct (map fst (scanned (entries_of (prefix NODE_PREFIX) m)))"
proof -
  let ?es = "entries_of (prefix NODE_PREFIX) m"
  have keyed: "\<forall>(b, v) \<in> set ?es. \<exists>i. b = node_key i" using node_entries(1) [OF assms] by fastforce
  have look: "\<forall>(b, v) \<in> set es. \<exists>i. b = node_key i \<Longrightarrow>
      map_of (scanned es) i = map_option (\<lambda>v. projr (decode_vector_node v)) (map_of es (node_key i))" for es i
    by (induction es) (auto simp: scanned_def)
  have "map_of (scanned ?es) i = vector_nodes m i" for i
    using vector_nodes_held(2) [OF assms(1), of i] vector_nodes_None [OF assms(1), of i]
    by (cases "m (node_key i)") (force simp: look [OF keyed] node_entries(2) [OF assms])+
  then show "map_of (scanned ?es) = vector_nodes m" by blast
  have "\<forall>(b, v) \<in> set es. \<exists>i. b = node_key i \<Longrightarrow> distinct (map fst es) \<Longrightarrow> distinct (map fst (scanned es))" for es
  proof (induction es)
    case (Cons e es)
    obtain i v where e: "e = (node_key i, v)" using Cons.prems(1) by (cases e) auto
    have "i \<notin> fst ` set (scanned es)"
    proof
      assume "i \<in> fst ` set (scanned es)"
      then obtain b w where b: "(b, w) \<in> set es" "the (node_id b) = i" by (auto simp: scanned_def)
      then have "b = node_key i" using Cons.prems(1) by (auto)
      then show False using b(1) Cons.prems(2) by (force simp: e)
    qed
    moreover have "distinct (map fst (scanned es))" using Cons by simp
    moreover have "scanned (e # es) = (i, projr (decode_vector_node v)) # scanned es" by (simp add: scanned_def e)
    ultimately show ?case by simp
  qed (simp add: scanned_def)
  from this [OF keyed node_entries(3) [OF assms]] show "distinct (map fst (scanned ?es))" .
qed

text \<open>The live vectors and the tombstones of a node list.\<close>

lemma scanned_split:
  assumes "distinct (map fst ns)"
  shows "map_of (map (\<lambda>(i, n). (i, vn_vector n)) (filter (\<lambda>(i, n). \<not> vn_deleted n) ns)) = live_vectors (map_of ns)"
    "distinct (map fst (map (\<lambda>(i, n). (i, vn_vector n)) (filter (\<lambda>(i, n). \<not> vn_deleted n) ns)))"
    "set (map fst (filter (\<lambda>(i, n). vn_deleted n) ns)) = tombstones (map_of ns)"
  using assms
proof (induction ns)
  case Nil
  case 1 show ?case by (simp add: live_vectors_def fun_eq_iff)
  case 2 show ?case by simp
  case 3 show ?case by (simp add: tombstones_def)
next
  case (Cons x ns)
  obtain i n where x: "x = (i, n)" by (cases x)
  have none: "map_of ns i = None" if "distinct (map fst (x # ns))" using that by (simp add: x map_of_eq_None_iff)
  case 1
  then show ?case using Cons.IH(1) none [OF 1] by (auto simp: x live_vectors_def fun_eq_iff)
  case 2
  then have "distinct (map fst ns)" "i \<notin> fst ` set ns" by (simp_all add: x)
  then show ?case using Cons.IH(2) by (auto simp: x rev_image_eqI)
  case 3
  then show ?case using Cons.IH(3) none [OF 3] by (auto simp: x tombstones_def)
qed

subsection \<open>The graph built in memory\<close>

lemma rebuilt_ram:
  assumes "vi_denotes idx (M, {})" "distinct (map fst vs)" "\<forall>(i, v) \<in> set vs. length v = vp_dim (vi_params idx) \<and> i \<notin> dom M"
  shows "\<exists>idx'. rfold (\<lambda>(i, v). vi_insert F i v) vs idx = Inr idx' \<and> vi_params idx' = vi_params idx \<and> vi_denotes idx' (M ++ map_of vs, {})"
  using assms
proof (induction vs arbitrary: idx M)
  case (Cons x vs)
  obtain i v where x: "x = (i, v)" by (cases x)
  have ok: "length v = vp_dim (vi_params idx)" "i \<notin> dom M" using Cons.prems(3) by (auto simp: x)
  then obtain idx1 where idx1: "vi_insert F i v idx = Inr idx1" "vi_params idx1 = vi_params idx" "vi_denotes idx1 (M(i \<mapsto> v), {})"
    using vi_insert_denotes [OF Cons.prems(1), where i = i and v = v and F = F] by (auto simp del: domIff)
  have "\<forall>(j, w) \<in> set vs. length w = vp_dim (vi_params idx1) \<and> j \<notin> dom (M(i \<mapsto> v))"
    using Cons.prems(2,3) by (force simp: x idx1(2))
  from Cons.IH [OF idx1(3) _ this] obtain idx' where idx': "rfold (\<lambda>(i, v). vi_insert F i v) vs idx1 = Inr idx'"
    "vi_params idx' = vi_params idx" "vi_denotes idx' (M(i \<mapsto> v) ++ map_of vs, {})" using Cons.prems(2) idx1(2) by (auto simp del: fun_upd_apply)
  have "M(i \<mapsto> v) ++ map_of vs = M ++ map_of (x # vs)"
    using Cons.prems(2) map_add_upd_left [of i "map_of vs" M v] by (simp add: x dom_map_of_conv_image_fst)
  then show ?case using idx' idx1(1) by (simp add: x del: fun_upd_apply)
qed simp

subsection \<open>Rebuilding\<close>

definition rebuild_room :: "vector_index_params \<Rightarrow> nat \<Rightarrow> nat" where
  "rebuild_room P nodes = nodes * (node_room P + 33) + 92"

text \<open>The maps between the first write of a rebuild and its metadata record.\<close>

lemma rebuild_stages:
  assumes "rebuildable P m" "m0 = unopened m" "G = vector_nodes m" "graph_ok P R" "live_vectors R = live_vectors G" "tombstones R = {}"
    and "sorted_keys ns" "map_of ns = R" "set ts = tombstones G"
  shows "ns = ys @ zs \<Longrightarrow> salvaged P m (apply_keys (node_ops ys) m0)"
    "ts = ys' @ zs' \<Longrightarrow> salvaged P m (apply_keys (removal_ops ys') (apply_keys (node_ops ns) m0))"
    "vector_nodes (apply_keys (removal_ops ts) (apply_keys (node_ops ns) m0)) = R"
proof -
  have fit: "params_fit P" and t0: "typed_map m0" and G0: "vector_nodes m0 = G" "held m0 KVectorMeta = None"
    using assms(1) by (simp_all add: rebuildable_def assms(2,3))
  have dist: "distinct (map fst ns)" by (rule sorted_keys_distinct [OF assms(7)])
  have fits: "\<forall>(i, n) \<in> set ns. node_fits P n"
    using assms(4) map_of_eq_Some [OF assms(7)] node_ok_fits unfolding graph_ok_def assms(8) by fast
  have same: "map_option node_data (G i) = Some (node_data n)" if "R i = Some n" for i n
  proof -
    have "\<not> vn_deleted n" using assms(6) that by (auto simp: tombstones_def)
    then have "live_vectors G i = Some (vn_vector n)" unfolding assms(5) [symmetric] using that by (simp add: live_vectors_def)
    then show ?thesis using \<open>\<not> vn_deleted n\<close> by (auto simp: live_vectors_def node_data_def split: option.splits if_splits)
  qed
  have part: "typed_map (apply_keys (node_ops ys) m0)" "held (apply_keys (node_ops ys) m0) KVectorMeta = None"
      "vector_nodes (apply_keys (node_ops ys) m0) = G ++ map_of ys"
      "live_vectors (G ++ map_of ys) = live_vectors G" "tombstones (G ++ map_of ys) = tombstones G" if "ns = ys @ zs" for ys zs
  proof -
    have f: "\<forall>(i, n) \<in> set ys. node_fits P n" and d: "distinct (map fst ys)" using fits dist that by auto
    show "typed_map (apply_keys (node_ops ys) m0)" by (intro typed_apply_keys t0 vector_ops_ok(1) [OF f fit])
    show "held (apply_keys (node_ops ys) m0) KVectorMeta = None" "vector_nodes (apply_keys (node_ops ys) m0) = G ++ map_of ys"
      using apply_node_ops [OF f fit, of m0] G0 map_of_rev [OF d] by simp_all
    have data: "map_option node_data ((G ++ map_of ys) i) = map_option node_data (G i)" for i
    proof (cases "map_of ys i")
      case (Some n)
      then have "R i = Some n" using that assms(8) map_of_eq_Some [OF assms(7)] map_of_SomeD [OF Some] by auto
      then show ?thesis using same [of i n] Some by (auto simp: map_add_def)
    qed (simp add: map_add_def)
    show "live_vectors (G ++ map_of ys) = live_vectors G" "tombstones (G ++ map_of ys) = tombstones G"
      using live_vectors_data [where G = "G ++ map_of ys" and G' = G, OF data] by blast+
  qed
  have others: "held (apply_keys ops m0) k = held m k" if "\<forall>(k, v) \<in> set ops. key_ok k \<and> vector_key k" "key_ok k" "\<not> vector_key k" for ops k
    using other_keys_held [OF that] that(2,3) by (simp add: assms(2))
  show "salvaged P m (apply_keys (node_ops ys) m0)" if "ns = ys @ zs" for ys zs
    unfolding salvaged_def using part [OF that] others [OF own_ops(1)] assms(3) by auto
  note full = part [of ns "[]", simplified]
  let ?m1 = "apply_keys (node_ops ns) m0"
  have drop: "typed_map (apply_keys (removal_ops ks) ?m1)" "held (apply_keys (removal_ops ks) ?m1) KVectorMeta = None"
      "vector_nodes (apply_keys (removal_ops ks) ?m1) = (\<lambda>i. if i \<in> set ks then None else (G ++ R) i)" for ks
    using apply_removal_ops(2) [of ks ?m1] full(2) typed_apply_keys [OF full(1) vector_ops_ok(2) [of ks]]
    by (simp_all add: apply_removal_ops(1) full(3) assms(8) cong: if_cong)
  show "salvaged P m (apply_keys (removal_ops ks) ?m1)" if "ts = ks @ zs" for ks zs
  proof -
    have "set ks \<subseteq> tombstones (G ++ R)" using that assms(9) full(5) assms(8) by auto
    then have "live_vectors (\<lambda>i. if i \<in> set ks then None else (G ++ R) i) i = live_vectors (G ++ R) i" for i
      by (auto simp: live_vectors_def tombstones_def split: option.split)
    then have "live_vectors (vector_nodes (apply_keys (removal_ops ks) ?m1)) = live_vectors G"
      unfolding drop(3) using full(4) assms(8) by (simp add: fun_eq_iff)
    moreover have "\<forall>(k, v) \<in> set (node_ops ns @ removal_ops ks). key_ok k \<and> vector_key k" using own_ops(1,2) by fastforce
    then have "\<forall>k. key_ok k \<longrightarrow> \<not> vector_key k \<longrightarrow> held (apply_keys (removal_ops ks) ?m1) k = held m k"
      using others [of "node_ops ns @ removal_ops ks"] by simp
    ultimately show ?thesis unfolding salvaged_def using drop(1,2) assms(3) by simp
  qed
  have "(if i \<in> set ts then None else (G ++ R) i) = R i" for i
  proof (cases "R i")
    case None
    then have "i \<notin> dom (live_vectors G)" using dom_split(1) [of R] by (metis UnI1 assms(5) domIff)
    then have "i \<in> set ts \<or> G i = None" using dom_split(1) [of G] assms(9) by (metis UnE domIff)
    then show ?thesis using None by (auto simp: map_add_def)
  next
    case (Some n)
    have "i \<in> dom R" using Some by blast
    then have "i \<in> dom (live_vectors G)" using dom_split(1) [of R] by (simp only: assms(5,6) Un_empty_right)
    then have "i \<notin> set ts" using dom_split(2) [of G] assms(9) by blast
    then show ?thesis using Some by simp
  qed
  then show "vector_nodes (apply_keys (removal_ops ts) ?m1) = R" by (simp add: drop(3))
qed

text \<open>The rebuild: it salvages every live vector, and every crash on the way leaves a store that opens again.\<close>

lemma rebuild_achieves:
  assumes "at X m H runs sh" "\<And>j. draws_ok (crypto (fst sh)) (rnds j)" "rebuildable P m"
    and "N = card (dom (vector_nodes m))" "room_for (fst sh) runs (rebuild_room P N) (2 * N + 2)"
  shows "\<exists>m' r. achieves X (insert m {m'. salvaged P m m'}) runs sh (pv_rebuild_from_store F X rnds P prior) r m' H (rebuild_room P N) (2 * N + 2)
    \<and> handle_ok m' r \<and> ph_params r = P \<and> salvaged P m m' \<and> tombstones (vector_nodes m') = {}
    \<and> ph_epoch r = (case prior of None \<Rightarrow> 1 | Some e \<Rightarrow> e + 1)"
proof -
  let ?m0 = "unopened m" and ?G = "vector_nodes m" and ?ms = "insert m {m'. salvaged P m m'}"
  have fit: "params_fit P" and t0: "typed_map ?m0" and dims: "\<forall>v \<in> ran (live_vectors ?G). length v = vp_dim P"
    and few: "card (dom (live_vectors ?G)) < 2 ^ 64" using assms(3) by (simp_all add: rebuildable_def)
  have "finite (dom m)" using assms(1) finite_store_map by (auto simp: at_def split: prod.splits)
  then have fin: "finite (dom ?m0)" by (simp add: unopened_def)
  let ?es = "entries_of (prefix NODE_PREFIX) ?m0"
  define ns where "ns = scanned ?es"
  have ns: "map_of ns = ?G" "distinct (map fst ns)" using scanned_nodes [OF t0 fin] by (simp_all add: ns_def)
  define vs where "vs = map (\<lambda>(i, n). (i, vn_vector n)) (filter (\<lambda>(i, n). \<not> vn_deleted n) ns)"
  define ts where "ts = map fst (filter (\<lambda>(i, n). vn_deleted n) ns)"
  have vs: "map_of vs = live_vectors ?G" "distinct (map fst vs)" and ts: "set ts = tombstones ?G"
    using scanned_split [OF ns(2)] by (simp_all add: vs_def ts_def ns(1))
  have vdim: "\<forall>(i, v) \<in> set vs. length v = vp_dim P"
    using dims vs map_of_is_SomeI [OF vs(2)] by (fastforce intro: ranI)
  have ndim: "length (vn_vector n) = vp_dim P" if "(i, n) \<in> set ns" "\<not> vn_deleted n" for i n
  proof -
    have "(i, vn_vector n) \<in> set vs" using that by (force simp: vs_def)
    then show ?thesis using vdim by blast
  qed
  have read: "rfold (read_vector P) ?es ([], []) = Inr (vs, ts)"
  proof -
    have "\<forall>(b, v) \<in> set ?es. \<exists>i n. b = node_key i \<and> decode_vector_node v = Inr n" using node_entries(1) [OF t0 fin] by fast
    from rfold_read_vector [OF this, of P "[]" "[]"] ndim show ?thesis unfolding vs_def ts_def ns_def by auto
  qed
  obtain ram where ram: "rfold (\<lambda>(i, v). vi_insert F i v) vs (vi_new P) = Inr ram" "vi_params ram = P" "vi_denotes ram (live_vectors ?G, {})"
    using rebuilt_ram [OF vi_new_denotes [of P] vs(2), of F] vdim by (auto simp: vi_new_def vs(1) split: prod.splits)
  define nodes where "nodes = vi_nodes ram"
  define R where "R = map_of nodes"
  have R: "graph_ok P R" "live_vectors R = live_vectors ?G" "tombstones R = {}" and sorted: "sorted_keys nodes"
    and count: "vi_live_count ram = card (dom (live_vectors ?G))"
    and start: "case vi_entry_point ram of None \<Rightarrow> nodes = [] | Some e \<Rightarrow> e \<in> dom R"
    using ram(2,3) unfolding R_def nodes_def vi_denotes_def vi_ok_def by simp_all
  have "live_vectors Map.empty = Map.empty" by (simp add: live_vectors_def fun_eq_iff)
  then have entry: "start_ok R (vi_entry_point ram)" using start by (auto simp: start_ok_def R_def split: option.splits)
  note stages = rebuild_stages [OF assms(3) refl refl R sorted R_def [symmetric] ts]
  define epoch where "epoch = (case prior of None \<Rightarrow> 1 | Some e \<Rightarrow> e + 1)"
  define r where "r = \<lparr>ph_params = P, ph_entry_point = vi_entry_point ram, ph_epoch = epoch, ph_count = word_of_nat (vi_live_count ram),
    ph_rebuilt_on_open = True, ph_cache = []\<rparr>"
  let ?meta = "handle_meta r (ph_count r) (ph_entry_point r)" and ?cs = "chunks_of REBUILD_CHUNK nodes" and ?ds = "chunks_of REBUILD_CHUNK ts"
  define m1 where "m1 = apply_keys (node_ops nodes) ?m0"
  define m2 where "m2 = apply_keys (removal_ops ts) m1"
  define m3 where "m3 = apply_keys (meta_ops ?meta) m2"
  have fitm: "params_fit (vx_params ?meta)" using fit by (simp add: handle_meta_def r_def)
  have uc: "unat (ph_count r) = card (dom (live_vectors R))" using few by (simp add: r_def R(2) count unat_of_nat)
  have s2: "salvaged P m m2" using stages(2) [of ts "[]"] by (simp add: m1_def m2_def)
  have m3: "vector_nodes m3 = R" "held m3 KVectorMeta = Some (projr (encode_vector_meta ?meta))"
    using vector_meta_applied [OF fitm, of m2] stages(3) by (simp_all add: m1_def m2_def m3_def)
  have t3: "typed_map m3" unfolding m3_def using s2 by (intro typed_apply_keys vector_ops_ok(3) [OF fitm]) (simp add: salvaged_def)
  have "meta_matches m3 r" by (rule meta_after [OF _ m3(2) uc, where c = "[]"]) (use fit entry in \<open>simp_all add: r_def\<close>)
  then have ok: "handle_ok m3 r" unfolding handle_ok_def m3(1) using t3 fit R(1) uc entry by (simp add: r_def start_ok_def coherent_def)
  have s3: "salvaged P m m3"
  proof -
    have "held m3 k = held m k" if "key_ok k" "\<not> vector_key k" for k
      using s2 that other_keys_held [OF own_ops(3) that, of ?meta m2] unfolding salvaged_def m3_def by simp
    moreover have "ph_params r = P" by (simp add: r_def)
    ultimately show ?thesis using t3 ok R(2) unfolding salvaged_def m3(1) by blast
  qed
  have chunk: "0 < REBUILD_CHUNK" by (simp add: REBUILD_CHUNK_def)
  have cat: "concat (map node_ops ?cs) = node_ops nodes" "concat (map removal_ops ?ds) = removal_ops ts"
    by (simp_all add: chunked_ops [symmetric] concat_chunks_of [OF chunk])
  have st1: "stages_of node_ops ?cs ?m0 \<subseteq> ?ms" using chunked_stages [OF chunk chunked_ops(1)] stages(1) by blast
  have st2: "stages_of removal_ops ?ds m1 \<subseteq> ?ms" using chunked_stages [OF chunk chunked_ops(2)] stages(2) unfolding m1_def by blast
  have fits: "\<forall>(i, n) \<in> set nodes. node_fits P n"
    using R(1) map_of_eq_Some [OF sorted] node_ok_fits unfolding graph_ok_def R_def by fast
  have lens: "N = length nodes + length ts"
  proof -
    have "dom R = dom (live_vectors ?G)" using dom_split(1) [of R] R(2,3) by simp
    then have "length nodes = card (dom (live_vectors ?G))"
      using distinct_card [OF sorted_keys_distinct [OF sorted]] by (simp add: R_def dom_map_of_conv_image_fst)
    moreover have "distinct ts" using ns(2) by (simp add: ts_def distinct_map_filter)
    then have "length ts = card (tombstones ?G)" using distinct_card ts by metis
    moreover have "finite (dom ?G)" using finite_dom_map_of [of ns] ns(1) by simp
    then have "card (dom ?G) = card (dom (live_vectors ?G)) + card (tombstones ?G)"
      using dom_split [of ?G] by (metis card_Un_disjoint finite_Un)
    ultimately show ?thesis by (simp add: assms(4))
  qed
  have calls: "length ?cs \<le> length nodes" "length ?ds \<le> length ts" by (simp_all add: length_chunks_of [OF chunk])
  have size1: "batches_size node_ops ?cs \<le> length nodes * node_room P"
    using size_node_ops [OF fits fit] unfolding batches_size_def cat(1) .
  have size2: "batches_size removal_ops ?ds = length ts * 33" by (simp add: batches_size_def cat(2) size_removal_ops)
  have size0: "kvs_size (key_batch [(KVectorMeta, None)]) = 24" by (simp add: entry_wire_size_def)
  have total: "24 + (batches_size node_ops ?cs + (batches_size removal_ops ?ds + 68)) \<le> rebuild_room P N"
    using size1 size2 unfolding rebuild_room_def lens by (simp add: algebra_simps)
  have "achieves X ?ms runs sh (pv_rebuild_from_store F X rnds P prior) r m3 H (rebuild_room P N) (2 * N + 2)"
    unfolding pv_rebuild_from_store_def
  proof -
    let ?k1 = "\<lambda>_ :: unit. obind (on_store (kv_scan X NODE_PREFIX)) (\<lambda>entries.
      obind (olift (rfold (read_vector P) entries ([], []))) (\<lambda>(vectors, tombs).
      obind (olift (rfold (\<lambda>(i, v). vi_insert F i v) vectors (vi_new P))) (\<lambda>ram.
      obind (write_batches X rnds stage_nodes 1 (chunks_of REBUILD_CHUNK (vi_nodes ram))) (\<lambda>j.
      obind (write_batches X rnds stage_removals j (chunks_of REBUILD_CHUNK tombs)) (\<lambda>j.
      let epoch = (case prior of None \<Rightarrow> 1 | Some e \<Rightarrow> e + 1);
          count = word_of_nat (vi_live_count ram)
      in obind (olift (stage_vector_meta \<lparr>vx_params = P, vx_epoch = epoch, vx_count = count, vx_entry_point = vi_entry_point ram\<rparr> [])) (\<lambda>meta_batch.
         obind (on_store (apply_batch X (rnds j) meta_batch)) (\<lambda>_.
           oret \<lparr>ph_params = P, ph_entry_point = vi_entry_point ram, ph_epoch = epoch, ph_count = count,
                 ph_rebuilt_on_open = True, ph_cache = []\<rparr>)))))))"
    have drop: "achieves X ?ms runs sh (on_store (apply_batch X (rnds 0) (batch_delete vector_meta_key []))) () ?m0 H 24 1"
    proof -
      have b: "batch_delete vector_meta_key [] = key_batch [(KVectorMeta, None)]" by (simp add: batch_delete_def)
      have room0: "room_for (fst sh) runs (kvs_size (key_batch [(KVectorMeta, None)])) 1"
        unfolding size0 by (rule room_mono [OF assms(5)]) (use total in simp_all)
      have sub: "{m, apply_keys [(KVectorMeta, None)] m} \<subseteq> ?ms" using salvaged_unopened [OF assms(3)] unfolding unopened_def by blast
      show ?thesis unfolding b unopened_def size0 [symmetric]
        by (rule achieves_batch [OF assms(1,2) room0 _ sub]) (simp add: MAX_BATCH_OPS_def)
    qed
    show "achieves X ?ms runs sh (obind (on_store (apply_batch X (rnds 0) (batch_delete vector_meta_key []))) ?k1) r m3 H (rebuild_room P N) (2 * N + 2)"
    proof (rule achieves_bind [OF drop _ total, where ?n2.0 = "length ?cs + (length ?ds + 1)"], goal_cases)
      case (1 sh1 runs1)
      have room1: "room_for (fst sh1) runs1 (batches_size node_ops ?cs + (batches_size removal_ops ?ds + 68)) (length ?cs + (length ?ds + 1))"
        by (rule 1(3), rule room_mono [OF assms(5) total]) (use calls lens in simp)
      have scan: "reads (peeks_with X runs1 (fst sh1) ?m0 H) (on_store (kv_scan X NODE_PREFIX)) (Inr ?es)"
        by (rule reads_on_store [OF engine.scan_map])
      show ?case
      proof (rule achieves_after_read [OF scan 1(1)], goal_cases)
        case (1 sh2)
        note r2 = 1(4) [OF room1]
        have cr2: "crypto (fst sh2) = crypto (fst sh)" using 1(3) \<open>crypto (fst sh1) = crypto (fst sh)\<close> by simp
        have w1: "achieves X ?ms runs1 sh2 (write_batches X rnds stage_nodes 1 ?cs) (1 + length ?cs) m1 H (batches_size node_ops ?cs) (length ?cs)"
          unfolding m1_def cat(1) [symmetric]
        proof (rule write_batches_achieves [OF 1(2) _ _ _ st1])
          show "draws_ok (crypto (fst sh2)) (rnds j)" for j using assms(2) cr2 by simp
          show "room_for (fst sh2) runs1 (batches_size node_ops ?cs) (length ?cs)" by (rule room_mono [OF r2]) simp_all
          fix c assume c: "c \<in> set ?cs"
          then have "set c \<subseteq> set nodes" using concat_chunks_of [OF chunk, of nodes] by (metis Union_upper imageI set_concat)
          then have "\<forall>(i, n) \<in> set c. node_fits P n" using fits by blast
          then show "stage_nodes c = Inr (key_batch (node_ops c)) \<and> length (node_ops c) \<le> MAX_BATCH_OPS"
            using stage_node_ops [OF _ fit, of c "[]"] chunks_of_length [OF c] by (simp add: stage_nodes_def node_ops_def REBUILD_CHUNK_def MAX_BATCH_OPS_def)
        qed
        have meta: "\<lparr>vx_params = P, vx_epoch = epoch, vx_count = word_of_nat (vi_live_count ram), vx_entry_point = vi_entry_point ram\<rparr> = ?meta"
          by (simp add: handle_meta_def r_def)
        have tail: "achieves X ?ms runs3 sh3 (obind (write_batches X rnds stage_removals j ?ds) (\<lambda>j.
            obind (olift (stage_vector_meta ?meta [])) (\<lambda>meta_batch. obind (on_store (apply_batch X (rnds j) meta_batch)) (\<lambda>_. oret r)))) r m3 H
            (batches_size removal_ops ?ds + 68) (length ?ds + 1)"
          if at3: "at X m1 H runs3 sh3" "crypto (fst sh3) = crypto (fst sh)"
            "room_for (fst sh3) runs3 (batches_size removal_ops ?ds + 68) (length ?ds + 1)" for runs3 sh3 j
        proof -
          have w2: "achieves X ?ms runs3 sh3 (write_batches X rnds stage_removals j ?ds) (j + length ?ds) m2 H (batches_size removal_ops ?ds) (length ?ds)"
            unfolding m2_def cat(2) [symmetric]
          proof (rule write_batches_achieves [OF at3(1) _ _ _ st2])
            show "draws_ok (crypto (fst sh3)) (rnds j)" for j using assms(2) at3(2) by simp
            show "room_for (fst sh3) runs3 (batches_size removal_ops ?ds) (length ?ds)" by (rule room_mono [OF at3(3)]) simp_all
            show "stage_removals c = Inr (key_batch (removal_ops c)) \<and> length (removal_ops c) \<le> MAX_BATCH_OPS" if "c \<in> set ?ds" for c
              using chunks_of_length [OF that] by (simp add: stage_removals_ops removal_ops_def REBUILD_CHUNK_def MAX_BATCH_OPS_def)
          qed
          show ?thesis
          proof (rule achieves_bind [OF w2, where ?e2.0 = 68 and ?n2.0 = 1], goal_cases)
            case (1 sh4 runs4)
            have st: "stage_vector_meta ?meta [] = Inr (key_batch (meta_ops ?meta))" using stage_meta_ops [OF fitm, of "[]"] by simp
            have r4: "room_for (fst sh4) runs4 68 1" by (rule 1(3)) (use at3(3) in simp)
            have d4: "draws_ok (crypto (fst sh4)) rnd" if "rnd = rnds (j + length ?ds)" for rnd
              using assms(2) 1(2) at3(2) by (simp add: that)
            show ?case unfolding st obind_simps m3_def
              by (rule achieves_batch_then [OF 1(1) d4 [OF refl], where f = "\<lambda>h. h"])
                (use r4 s2 s3 in \<open>simp_all add: size_meta_ops [OF fitm] m3_def [symmetric] oret_def\<close>, simp_all add: meta_ops_def MAX_BATCH_OPS_def)
          qed simp_all
        qed
        show ?case unfolding read obind_simps prod.case ram(1) nodes_def [symmetric] epoch_def [symmetric] Let_def meta r_def [symmetric]
        proof (rule achieves_bind [OF w1, where ?e2.0 = "batches_size removal_ops ?ds + 68" and ?n2.0 = "length ?ds + 1"], goal_cases)
          case (1 sh3 runs3)
          have "room_for (fst sh3) runs3 (batches_size removal_ops ?ds + 68) (length ?ds + 1)" by (rule 1(3)) (use r2 in simp)
          from tail [OF 1(1) _ this] 1(2) cr2 show ?case by simp
        qed simp_all
      qed
    qed (use calls lens in simp)
  qed
  moreover have "ph_params r = P" "ph_epoch r = epoch" by (simp_all add: r_def)
  ultimately show ?thesis using ok s3 m3(1) R(3) unfolding epoch_def by blast
qed

text \<open>The rebuild a handle asks for: the same live vectors under a new epoch, and no tombstone.\<close>

lemma handle_rebuild:
  assumes "at X m (handle_ok m) runs (st, h)" "\<And>j. draws_ok (crypto st) (rnds j)"
    and "N = card (dom (vector_nodes m))" "room_for st runs (rebuild_room (ph_params h) N) (2 * N + 2)"
  shows "\<exists>m'. achieves X (insert m {m'. salvaged (ph_params h) m m'}) runs (st, h) (pv_rebuild F X rnds) () m'
      (\<lambda>h'. handle_ok m' h' \<and> ph_params h' = ph_params h \<and> ph_epoch h' = ph_epoch h + 1) (rebuild_room (ph_params h) N) (2 * N + 2)
    \<and> salvaged (ph_params h) m m' \<and> tombstones (vector_nodes m') = {}"
proof -
  let ?P = "ph_params h"
  have ok: "handle_ok m h" using assms(1) by (simp add: at_def)
  have "length v = vp_dim ?P" if "live_vectors (vector_nodes m) i = Some v" for i v
    using ok that by (auto simp: handle_ok_def graph_ok_def node_ok_def live_vectors_def split: option.splits if_splits)
  moreover have "card (dom (live_vectors (vector_nodes m))) < 2 ^ 64"
  proof -
    have "unat (ph_count h) < 2 ^ 64" by (rule order_less_le_trans [OF unsigned_less]) simp
    then show ?thesis using ok by (simp add: handle_ok_def)
  qed
  moreover have "typed_map (unopened m)" using ok unfolding unopened_def by (intro typed_apply_keys) (simp_all add: handle_ok_def op_ok_def)
  ultimately have reb: "rebuildable ?P m" using ok by (auto simp: rebuildable_def handle_ok_def ran_def)
  have draws: "draws_ok (crypto (fst (st, h))) (rnds j)" for j using assms(2) by simp
  obtain m' r where r: "achieves X (insert m {m'. salvaged ?P m m'}) runs (st, h) (pv_rebuild_from_store F X rnds ?P (Some (ph_epoch h))) r m' (handle_ok m) (rebuild_room ?P N) (2 * N + 2)"
    "handle_ok m' r" "ph_params r = ?P" "salvaged ?P m m'" "tombstones (vector_nodes m') = {}" "ph_epoch r = ph_epoch h + 1"
    using rebuild_achieves [where rnds = rnds and F = F and prior = "Some (ph_epoch h)", OF assms(1) draws reb assms(3)] assms(4)
    by (auto simp: option.case)
  have "achieves X (insert m {m'. salvaged ?P m m'}) runs (st, h) (pv_rebuild F X rnds) () m'
      (\<lambda>h'. handle_ok m' h' \<and> ph_params h' = ph_params h \<and> ph_epoch h' = ph_epoch h + 1) (rebuild_room ?P N) (2 * N + 2)"
    unfolding pv_rebuild_def achieves_handle snd_conv
  proof (rule achieves_bind [OF r(1), where ?e2.0 = 0 and ?n2.0 = 0], goal_cases)
    case (1 sh1 runs1)
    show ?case by (rule achieves_modify [OF 1(1), where f = "\<lambda>_. r"]) (use r in \<open>simp_all add: set_handle_def\<close>)
  qed simp_all
  then show ?thesis using r(4,5) by blast
qed

subsection \<open>Opening\<close>

text \<open>
  A store that opens with the parameters \<open>P\<close>: its metadata record is missing or does not decode, and
  the index can be rebuilt; or it decodes and the index is intact, with vectors of the same dimension.
\<close>

definition openable :: "vector_index_params \<Rightarrow> (bytes \<rightharpoonup> bytes) \<Rightarrow> bool" where
  "openable P m \<longleftrightarrow> (case held m KVectorMeta of
     None \<Rightarrow> rebuildable P m
   | Some v \<Rightarrow> (case decode_vector_meta v of
       Inl e \<Rightarrow> rebuildable P m
     | Inr meta \<Rightarrow> \<exists>h. handle_ok m h \<and> vp_dim (ph_params h) = vp_dim P))"

definition resumes :: "vector_index_params \<Rightarrow> (bytes \<rightharpoonup> bytes) \<Rightarrow> (bytes \<rightharpoonup> bytes) \<Rightarrow> bool" where
  "resumes P m m' \<longleftrightarrow> openable P m' \<and> live_vectors (vector_nodes m') = live_vectors (vector_nodes m)
     \<and> (\<forall>k. key_ok k \<longrightarrow> \<not> vector_key k \<longrightarrow> held m' k = held m k)"

lemma unopened_same: "held m KVectorMeta = None \<Longrightarrow> unopened m = m"
  by (auto simp: unopened_def held_def)

lemma handle_ok_openable:
  assumes "handle_ok m h" "vp_dim (ph_params h) = vp_dim P" "params_fit P"
  shows "openable P m"
proof (cases "held m KVectorMeta")
  case None
  then have "vector_nodes m = Map.empty" using assms(1) by (simp add: handle_ok_def meta_matches_def)
  then have "live_vectors (vector_nodes m) = Map.empty" by (simp add: live_vectors_def fun_eq_iff)
  then have "rebuildable P m" using assms(1,3) unopened_same [OF None] by (simp add: rebuildable_def handle_ok_def)
  then show ?thesis by (simp add: openable_def None)
next
  case (Some v)
  then have "\<exists>meta. decode_vector_meta v = Inr meta" using assms(1) by (auto simp: handle_ok_def meta_matches_def)
  then show ?thesis using assms by (auto simp: openable_def Some)
qed

lemma salvaged_resumes:
  assumes "rebuildable P m" "salvaged P m m'"
  shows "resumes P m m'"
proof -
  have s: "typed_map m'" "live_vectors (vector_nodes m') = live_vectors (vector_nodes m)"
    "\<forall>k. key_ok k \<longrightarrow> \<not> vector_key k \<longrightarrow> held m' k = held m k" using assms(2) by (simp_all add: salvaged_def)
  have "openable P m'"
  proof (cases "held m' KVectorMeta = None")
    case True
    then show ?thesis using assms(1) s(1,2) unopened_same [OF True] by (simp add: openable_def rebuildable_def)
  next
    case False
    then obtain h where "handle_ok m' h" "ph_params h = P" using assms(2) by (auto simp: salvaged_def)
    then show ?thesis using handle_ok_openable [of m' h P] by (simp add: handle_ok_def)
  qed
  then show ?thesis using s by (simp add: resumes_def)
qed

lemma opened_intact:
  assumes "handle_ok m h" "held m KVectorMeta = Some v" "decode_vector_meta v = Inr meta"
  shows "vx_params meta = ph_params h"
    and "case vx_entry_point meta of None \<Rightarrow> vx_count meta = 0 | Some e \<Rightarrow> m (node_key e) \<noteq> None"
    and "handle_ok m (opened (vx_params meta) (vx_entry_point meta) (vx_epoch meta) (vx_count meta))"
proof -
  have meta: "meta = handle_meta h (ph_count h) (if ph_count h = 0 then None else ph_entry_point h)"
    using assms by (simp add: handle_ok_def meta_matches_def)
  show "vx_params meta = ph_params h" by (simp add: meta handle_meta_def)
  have t: "typed_map m" and start: "case ph_entry_point h of None \<Rightarrow> dom (live_vectors (vector_nodes m)) = {} | Some e \<Rightarrow> e \<in> dom (vector_nodes m)"
    and count: "unat (ph_count h) = card (dom (live_vectors (vector_nodes m)))" using assms(1) by (simp_all add: handle_ok_def)
  have fin: "finite (dom (live_vectors (vector_nodes m)))" by simp
  have zero: "ph_count h = 0 \<longleftrightarrow> dom (live_vectors (vector_nodes m)) = {}" using count fin by (metis card_0_eq unat_eq_zero)
  have stored: "e \<in> dom (vector_nodes m) \<Longrightarrow> \<exists>v. m (node_key e) = Some v" for e using vector_nodes_None [OF t, of e] by auto
  show "case vx_entry_point meta of None \<Rightarrow> vx_count meta = 0 | Some e \<Rightarrow> m (node_key e) \<noteq> None"
    using start zero stored by (auto simp: meta handle_meta_def simp del: domIff split: option.splits)
  show "handle_ok m (opened (vx_params meta) (vx_entry_point meta) (vx_epoch meta) (vx_count meta))"
    using assms start zero unfolding handle_ok_def meta_matches_def coherent_def
    by (auto simp: meta handle_meta_def opened_def split: option.splits)
qed

lemma obind_assoc: "obind (obind p f) k = obind p (\<lambda>x. obind (f x) k)"
  by (auto simp: obind_def fun_eq_iff split: sum.split prod.split)

lemma read_then_achieves:
  assumes "reads (peeks_with X runs (fst sh) m H) p (Inr x)" "at X m H runs sh"
    and "\<And>sh'. at X m H runs sh' \<Longrightarrow> crypto (fst sh') = crypto (fst sh) \<Longrightarrow>
      (\<And>e n. room_for (fst sh) runs e n \<Longrightarrow> room_for (fst sh') runs e n) \<Longrightarrow> \<exists>m' r. achieves X (ms m') runs sh' (k x) r m' (H' m') e n \<and> Q m' r"
  shows "\<exists>m' r. achieves X (ms m') runs sh (obind p k) r m' (H' m') e n \<and> Q m' r"
proof -
  obtain st h where sh: "sh = (st, h)" by (cases sh)
  obtain s h1 where s: "p sh = (Inr x, (s, h1))" "peeks X runs st m s" "H h1"
    using readsD [OF assms(1), of sh] peeks_with_refl [of X m H runs st h] assms(2) by (auto simp: sh peeks_with_def)
  have "at X m H runs (s, h1)" using s(2,3) by (simp add: at_def peeks_def)
  then obtain m' r where r: "achieves X (ms m') runs (s, h1) (k x) r m' (H' m') e n" "Q m' r"
    using assms(3) [of "(s, h1)"] s(2,3) peeks_passes(4,5) [OF s(2)] by (auto simp: sh)
  have "achieves X (ms m') runs sh (obind p k) r m' (H' m') e n"
    using r(1) s(1) peeks_passes [OF s(2)] by (auto simp: achieves_def obind_def sh)
  then show ?thesis using r(2) by blast
qed

lemma open_achieves:
  assumes "at X m H runs sh" "\<And>j. draws_ok (crypto (fst sh)) (rnds j)" "openable P m"
    and "N = card (dom (vector_nodes m))" "room_for (fst sh) runs (rebuild_room P N) (2 * N + 2)"
  shows "\<exists>m' r. achieves X {m'. resumes P m m'} runs sh (pv_open F X rnds P) r m' H (rebuild_room P N) (2 * N + 2)
    \<and> handle_ok m' r \<and> vp_dim (ph_params r) = vp_dim P \<and> resumes P m m'"
proof -
  let ?ms = "{m'. resumes P m m'}"
  have self: "m \<in> ?ms" using assms(3) by (simp add: resumes_def)
  have get: "reads (peeks_with X runs s m H) (on_store (kv_get X k)) (Inr (m k))" for s k
    by (rule reads_on_store [OF engine.get_map])
  have scan: "reads (peeks_with X runs s m H) (on_store (kv_scan X NODE_PREFIX)) (Inr (entries_of (prefix NODE_PREFIX) m))" for s
    by (rule reads_on_store [OF engine.scan_map])
  have held: "held m KVectorMeta = m vector_meta_key" by (simp add: held_def)
  have rebuild: "\<exists>m' r. achieves X ?ms runs sh' (pv_rebuild_from_store F X rnds P prior) r m' H (rebuild_room P N) (2 * N + 2)
      \<and> handle_ok m' r \<and> vp_dim (ph_params r) = vp_dim P \<and> resumes P m m'"
    if "rebuildable P m" "at X m H runs sh'" "crypto (fst sh') = crypto (fst sh)" "room_for (fst sh') runs (rebuild_room P N) (2 * N + 2)" for sh' prior
  proof -
    have "\<And>j. draws_ok (crypto (fst sh')) (rnds j)" using assms(2) that(3) by simp
    from rebuild_achieves [where F = F and prior = prior and rnds = rnds, OF that(2) this that(1) assms(4) that(4)] obtain m' r where
      r: "achieves X (insert m {m'. salvaged P m m'}) runs sh' (pv_rebuild_from_store F X rnds P prior) r m' H (rebuild_room P N) (2 * N + 2)"
        "handle_ok m' r" "ph_params r = P" "salvaged P m m'" by blast
    have "insert m {m'. salvaged P m m'} \<subseteq> ?ms" using salvaged_resumes [OF that(1)] self by blast
    from achieves_mono [OF r(1) this] have "achieves X ?ms runs sh' (pv_rebuild_from_store F X rnds P prior) r m' H (rebuild_room P N) (2 * N + 2)" by simp
    then show ?thesis using r(2-4) salvaged_resumes [OF that(1) r(4)] by blast
  qed
  have stay: "\<exists>m' r. achieves X ?ms runs sh' (oret r0) r m' H (rebuild_room P N) (2 * N + 2)
      \<and> handle_ok m' r \<and> vp_dim (ph_params r) = vp_dim P \<and> resumes P m m'"
    if "handle_ok m r0" "vp_dim (ph_params r0) = vp_dim P" "at X m H runs sh'" for r0 sh'
    by (intro exI [of _ m] exI [of _ r0] conjI achieves_ret [OF that(3) self]) (use that(1,2) self in simp_all)
  show ?thesis
    unfolding pv_open_def
  proof (rule read_then_achieves [OF get assms(1)], goal_cases)
    case (1 sh1)
    note room1 = 1(3) [OF assms(5)]
    show ?case
    proof (cases "m vector_meta_key")
      case None
      then have ok: "rebuildable P m" using assms(3) by (simp add: openable_def held)
      show ?thesis unfolding None option.case
      proof (rule read_then_achieves [OF scan 1(1)], goal_cases)
        case (1 sh2)
        show ?case
        proof (cases "entries_of (prefix NODE_PREFIX) m = []")
          case True
          have t: "typed_map m" using ok unopened_same [of m] None by (simp add: rebuildable_def held)
          have "finite (dom m)" using assms(1) finite_store_map by (auto simp: at_def split: prod.splits)
          from scanned_nodes(1) [OF t this] have "vector_nodes m = Map.empty" by (simp add: True scanned_def)
          then have "handle_ok m (opened P None 0 0)" using t ok None
            by (simp add: handle_ok_def rebuildable_def graph_ok_def meta_matches_def held coherent_def opened_def live_vectors_def dom_def)
          then show ?thesis using stay [OF _ _ 1(1)] by (simp add: True opened_def)
        next
          case False
          then show ?thesis using rebuild [OF ok 1(1)] 1(2) 1(3) [OF room1] \<open>crypto (fst sh1) = crypto (fst sh)\<close> by simp
        qed
      qed
    next
      case (Some v)
      show ?thesis
      proof (cases "decode_vector_meta v")
        case (Inl e)
        then have ok: "rebuildable P m" using assms(3) by (simp add: openable_def held Some)
        show ?thesis using rebuild [OF ok 1(1,2) room1] decode_meta_errors [OF Inl] by (simp add: Some Inl)
      next
        case (Inr meta)
        then obtain h where h: "handle_ok m h" "vp_dim (ph_params h) = vp_dim P" using assms(3) by (auto simp: openable_def held Some)
        note i = opened_intact [OF h(1) _ Inr, unfolded held, OF Some]
        note st = stay [OF i(3)]
        show ?thesis
        proof (cases "vx_entry_point meta")
          case None
          then show ?thesis using i(1,2) st [OF _ 1(1)] h(2) by (simp add: Some Inr opened_def)
        next
          case entry: (Some e)
          show ?thesis unfolding Some Inr option.case sum.case i(1) h(2) entry obind_assoc simp_thms if_False if_True
          proof (rule read_then_achieves [OF get 1(1)], goal_cases)
            case (1 sh2)
            then show ?case using st [OF _ 1(1)] i(1,2) h(2) by (auto simp: entry opened_def)
          qed
        qed
      qed
    qed
  qed
qed

subsection \<open>What the index promises\<close>

text \<open>The room and the batch size of a group of insertions.\<close>

definition inserts_fit :: "store \<Rightarrow> run list \<Rightarrow> vector_index_params \<Rightarrow> nat \<Rightarrow> key_op list \<Rightarrow> bool" where
  "inserts_fit st runs P n ex \<longleftrightarrow> n * Suc (max 1 (vp_max_degree P)) + 1 + length ex \<le> MAX_BATCH_OPS
     \<and> room_for st runs (vector_room P (n * Suc (max 1 (vp_max_degree P))) + kvs_size (key_batch ex)) 1"

text \<open>
  C20. Inserting a group of vectors is atomic and refines the map of live vectors: every vector of the
  group enters it in one batch with the caller's own operations, a crash on the way finds the group
  entirely absent or entirely present, and the handle agrees with the store. A vector of the wrong
  dimension or a live id is refused with the source's error, and nothing is written.
\<close>

theorem vector_inserts_refine:
  assumes "at X m (handle_ok m) runs (st, h)" "draws_ok (crypto st) rnd" "companion ex" "items \<noteq> []"
    and "card (dom (live_vectors (vector_nodes m))) + length items < 2 ^ 64" "inserts_fit st runs (ph_params h) (length items) ex"
  shows "case rfold (add_vector (vp_dim (ph_params h))) items (live_vectors (vector_nodes m)) of
      Inl e \<Rightarrow> \<exists>sh'. pv_insert_many_with F X rnd items (key_batch ex) (st, h) = (Inl e, sh') \<and> at X m (handle_ok m) runs sh'
    | Inr M \<Rightarrow> \<exists>m' extra. achieves X {m, m'} runs (st, h) (pv_insert_many_with F X rnd items (key_batch ex)) () m'
          (\<lambda>h'. handle_ok m' h' \<and> ph_params h' = ph_params h) extra 1
        \<and> live_vectors (vector_nodes m') = M
        \<and> (\<forall>k. key_ok k \<longrightarrow> \<not> vector_key k \<longrightarrow> held m' k = held (apply_keys ex m) k)"
proof (cases "rfold (add_vector (vp_dim (ph_params h))) items (live_vectors (vector_nodes m))")
  case (Inl e)
  have ok: "handle_ok m h" using assms(1) by (simp add: at_def)
  obtain sh' where sh': "pv_insert_many_with F X rnd items (key_batch ex) (st, h) = (Inl e, sh')" "vpeeks X runs st m h sh'"
    using readsD [OF insert_many_fails [OF ok Inl] at_vpeeks [OF assms(1)]] by blast
  have "at X m (handle_ok m) runs sh'" using vpeeks_at [OF sh'(2)] same_index_ok(2) [OF ok] by (auto simp: at_def)
  then show ?thesis using sh'(1) by (simp add: Inl)
next
  case (Inr M)
  have "card (dom M) < 2 ^ 64" using card_added [OF Inr] assms(5) by simp
  from insert_many_achieves [OF assms(1-4) Inr this, of F] assms(6) show ?thesis
    unfolding inserts_fit_def by (auto simp: Inr)
qed

definition toy_handle :: vector_handle where
  "toy_handle = opened toy_params None 0 0"

lemma no_vectors [simp]: "vector_nodes Map.empty = Map.empty" "live_vectors Map.empty = Map.empty" "tombstones Map.empty = {}"
  by (simp_all add: fun_eq_iff vector_nodes_def held_def live_vectors_def tombstones_def)

lemma toy_handle_ok: "handle_ok Map.empty toy_handle"
  by (simp add: handle_ok_def toy_handle_def opened_def typed_map_def params_fit_def toy_params_def graph_ok_def held_def meta_matches_def coherent_def)

lemma toy_vector_at: "at toy_externals Map.empty (handle_ok Map.empty) [] (toy_store, toy_handle)"
  using toy_store_inv toy_store_map toy_handle_ok by (simp add: at_def)

lemma toy_room: "room_for toy_store [] 4096 64"
  by (simp add: room_for_def toy_store_def store_size_def runs_size_def mt_new_def STORE_LIMIT_def)

definition toy_vectors :: "(u64 \<times> f32 list) list" where
  "toy_vectors = [(7, [1]), (9, [2])]"

lemma toy_added: "rfold (add_vector (vp_dim (ph_params toy_handle))) toy_vectors (live_vectors (vector_nodes Map.empty)) = Inr [7 \<mapsto> [1], 9 \<mapsto> [2]]"
  by (simp add: toy_vectors_def add_vector_def toy_handle_def opened_def toy_params_def)

lemma toy_vector_room: "vector_room toy_params (length toy_vectors * Suc (max 1 (vp_max_degree toy_params))) + kvs_size (key_batch []) \<le> 2048"
  "length toy_vectors * Suc (max 1 (vp_max_degree toy_params)) + 1 + length [] \<le> MAX_BATCH_OPS"
  by (simp_all add: vector_room_def node_room_def toy_params_def MAX_BATCH_OPS_def toy_vectors_def)

lemma toy_vector_fits: "inserts_fit toy_store [] (ph_params toy_handle) (length toy_vectors) []" "companion []" "toy_vectors \<noteq> []"
  "card (dom (live_vectors (vector_nodes Map.empty))) + length toy_vectors < 2 ^ 64" "ph_params toy_handle = toy_params"
proof -
  show P: "ph_params toy_handle = toy_params" by (simp add: toy_handle_def opened_def)
  show "inserts_fit toy_store [] (ph_params toy_handle) (length toy_vectors) []"
    unfolding inserts_fit_def P by (intro conjI toy_vector_room(2) room_mono [OF toy_room]) (use toy_vector_room(1) in simp_all)
qed (simp_all add: companion_def toy_vectors_def)

theorem vector_inserts_refine_witness:
  "\<exists>m' extra. achieves toy_externals {Map.empty, m'} [] (toy_store, toy_handle) (pv_insert_many_with toy_f32 toy_externals toy_rnd [(7, [1]), (9, [2])] (key_batch [])) ()
      m' (\<lambda>h'. handle_ok m' h' \<and> ph_params h' = ph_params toy_handle) extra 1 \<and> live_vectors (vector_nodes m') = [7 \<mapsto> [1], 9 \<mapsto> [2]]"
  using vector_inserts_refine [OF toy_vector_at toy_draws toy_vector_fits(2,3,4,1), of toy_f32]
  unfolding toy_added sum.case unfolding toy_vectors_def by blast

text \<open>A store with two vectors.\<close>

lemma toy_indexed_vectors:
  obtains st runs m h where "at toy_externals m (handle_ok m) runs (st, h)" "ph_params h = toy_params" "live_vectors (vector_nodes m) = [7 \<mapsto> [1], 9 \<mapsto> [2]]"
    "tombstones (vector_nodes m) = {}" "room_for st runs 2048 32"
proof -
  have room: "room_for toy_store [] (vector_room toy_params (length toy_vectors * Suc (max 1 (vp_max_degree toy_params))) + kvs_size (key_batch [])) 1"
    by (rule room_mono [OF toy_room]) (use toy_vector_room(1) in simp_all)
  have few: "card (dom ([7 \<mapsto> [1], 9 \<mapsto> [2]] :: u64 \<rightharpoonup> f32 list)) < 2 ^ 64" by simp
  obtain m' where m': "achieves toy_externals {Map.empty, m'} [] (toy_store, toy_handle) (pv_insert_many_with toy_f32 toy_externals toy_rnd toy_vectors (key_batch [])) ()
      m' (\<lambda>h'. handle_ok m' h' \<and> ph_params h' = toy_params) (vector_room toy_params (length toy_vectors * Suc (max 1 (vp_max_degree toy_params))) + kvs_size (key_batch [])) 1"
      "live_vectors (vector_nodes m') = [7 \<mapsto> [1], 9 \<mapsto> [2]]" "tombstones (vector_nodes m') = {} - fst ` set toy_vectors"
    using insert_many_achieves [OF toy_vector_at toy_draws toy_vector_fits(2,3) toy_added few, of toy_f32] toy_vector_room(2) room
    unfolding toy_vector_fits(5) no_vectors by auto
  then obtain sh runs where sh: "passes toy_externals toy_store {Map.empty, m'} (fst sh) runs m'" "handle_ok m' (snd sh)" "ph_params (snd sh) = toy_params"
    "store_size (fst sh) runs \<le> store_size toy_store [] + 2048" "next_sst_id (fst sh) \<le> next_sst_id toy_store + 2"
    using toy_vector_room(1) unfolding achieves_def by fastforce
  show thesis
  proof (rule that [of m' runs "fst sh" "snd sh"])
    show "at toy_externals m' (handle_ok m') runs (fst sh, snd sh)" using sh(1,2) by (cases sh) (simp add: at_def passes_def)
    show "room_for (fst sh) runs 2048 32" using sh(4,5) toy_room by (simp add: room_for_def)
  qed (use sh(3) m'(2,3) in simp_all)
qed

text \<open>
  C21. Deleting a group of ids removes exactly those of them that are live, each of which becomes a
  tombstone, and answers with their number; duplicates and unknown ids count for nothing. It is one
  batch, with the caller's own operations, which are written even when no id is live.
\<close>

theorem vector_deletes_refine:
  assumes "at X m (handle_ok m) runs (st, h)" "draws_ok (crypto st) rnd" "companion ex"
    and "length ids + 1 + length ex \<le> MAX_BATCH_OPS" "room_for st runs (vector_room (ph_params h) (length ids) + kvs_size (key_batch ex)) 1"
  shows "\<exists>m' r. achieves X {m, m'} runs (st, h) (pv_delete_many_with X rnd ids (key_batch ex)) r m'
      (\<lambda>h'. handle_ok m' h' \<and> ph_params h' = ph_params h) (vector_room (ph_params h) (length ids) + kvs_size (key_batch ex)) 1
    \<and> unat r = card (set ids \<inter> dom (live_vectors (vector_nodes m)))
    \<and> live_vectors (vector_nodes m') = live_vectors (vector_nodes m) |` (- set ids)
    \<and> tombstones (vector_nodes m') = tombstones (vector_nodes m) \<union> set ids \<inter> dom (live_vectors (vector_nodes m))
    \<and> (\<forall>k. key_ok k \<longrightarrow> \<not> vector_key k \<longrightarrow> held m' k = held (apply_keys ex m) k)"
  by (rule delete_many_achieves [OF assms])

theorem vector_deletes_refine_witness:
  "\<exists>st runs m h m' r extra. achieves toy_externals {m, m'} runs (st, h) (pv_delete_many_with toy_externals toy_rnd [7, 8, 7] (key_batch [])) r m'
      (\<lambda>h'. handle_ok m' h' \<and> ph_params h' = ph_params h) extra 1
    \<and> unat r = 1 \<and> live_vectors (vector_nodes m') = [9 \<mapsto> [2]] \<and> tombstones (vector_nodes m') = {7}"
proof -
  obtain st runs m h where s: "at toy_externals m (handle_ok m) runs (st, h)" "ph_params h = toy_params" "live_vectors (vector_nodes m) = [7 \<mapsto> [1], 9 \<mapsto> [2]]"
    "tombstones (vector_nodes m) = {}" "room_for st runs 2048 32" by (rule toy_indexed_vectors)
  have fit: "length [7, 8, 7 :: u64] + 1 + length [] \<le> MAX_BATCH_OPS"
    "room_for st runs (vector_room (ph_params h) (length [7, 8, 7 :: u64]) + kvs_size (key_batch [])) 1"
    by (simp add: MAX_BATCH_OPS_def) (rule room_mono [OF s(5)], simp_all add: s(2) toy_params_def vector_room_def node_room_def)
  have eqs: "set [7, 8, 7] \<inter> dom ([7 \<mapsto> [1], 9 \<mapsto> [2]] :: u64 \<rightharpoonup> f32 list) = {7}"
    "([7 \<mapsto> [1], 9 \<mapsto> [2]] :: u64 \<rightharpoonup> f32 list) |` (- set [7, 8, 7]) = [9 \<mapsto> [2]]" by (auto simp: restrict_map_def fun_eq_iff)
  have "unat r = card {7 :: u64} \<Longrightarrow> unat r = 1" for r :: u64 by simp
  then show ?thesis using vector_deletes_refine [OF s(1) toy_draws toy_vector_fits(2) fit] unfolding s(3,4) eqs by blast
qed

text \<open>
  C22. The persisted index and the RAM index answer alike: over a store whose nodes and entry point are
  those of a RAM index, a search returns the same ranked results or the same error, and leaves the
  store as it was.
\<close>

theorem vector_search_flavours_agree:
  assumes "at X m (handle_ok m) runs (st, h)"
    and "vi_params idx = ph_params h" "vi_entry_point idx = ph_entry_point h" "map_of (vi_nodes idx) = vector_nodes m"
  shows "\<exists>sh'. pv_search_scored F X query k (st, h) = (vi_search_scored F idx query k, sh') \<and> at X m (handle_ok m) runs sh'"
proof -
  have ok: "handle_ok m h" using assms(1) by (simp add: at_def)
  obtain sh' where sh': "pv_search_scored F X query k (st, h) = (vi_search_scored F idx query k, sh')" "vpeeks X runs st m h sh'"
    using readsD [OF pv_search_reads [OF ok assms(2-4)] at_vpeeks [OF assms(1)]] by blast
  have "at X m (handle_ok m) runs sh'" using vpeeks_at [OF sh'(2)] same_index_ok(2) [OF ok] by (auto simp: at_def)
  then show ?thesis using sh'(1) by blast
qed

theorem vector_search_flavours_agree_witness:
  "\<exists>st h idx sh'. dom (live_vectors (map_of (vi_nodes idx))) = {7, 9}
    \<and> pv_search_scored toy_f32 toy_externals [4] 3 (st, h) = (vi_search_scored toy_f32 idx [4] 3, sh')"
proof -
  obtain st runs m h where s: "at toy_externals m (handle_ok m) runs (st, h)" "live_vectors (vector_nodes m) = [7 \<mapsto> [1], 9 \<mapsto> [2]]"
    by (rule toy_indexed_vectors)
  have "typed_map m" "finite (dom m)" using s(1) finite_store_map by (auto simp: at_def handle_ok_def)
  then obtain nodes where nodes: "map_of nodes = vector_nodes m" using nodes_read by blast
  define idx where "idx = \<lparr>vi_params = ph_params h, vi_nodes = nodes, vi_live_count = 2, vi_entry_point = ph_entry_point h\<rparr>"
  have "dom (live_vectors (map_of (vi_nodes idx))) = {7, 9}" by (auto simp: idx_def nodes s(2) split: if_splits)
  moreover obtain sh' where "pv_search_scored toy_f32 toy_externals [4] 3 (st, h) = (vi_search_scored toy_f32 idx [4] 3, sh')"
    using vector_search_flavours_agree [OF s(1), of idx toy_f32 "[4]" 3] by (auto simp: idx_def nodes)
  ultimately show ?thesis by blast
qed

text \<open>
  C23. Consolidation is crash-safe: it drops every tombstone, keeps every live vector and answers with
  the number of tombstones, and at every point between its batches a crash finds an intact index with
  the same live vectors and every other key untouched.
\<close>

theorem vector_consolidate_safe:
  assumes "at X m (handle_ok m) runs (st, h)" "\<And>j. draws_ok (crypto st) (rnds j)"
    and "N = card (dom (vector_nodes m))" "room_for st runs (consolidate_room (ph_params h) N) (2 * N + 1)"
  shows "\<exists>m'. achieves X {m'. index_intact m h m'} runs (st, h) (pv_consolidate F X rnds) (word_of_nat (card (tombstones (vector_nodes m)))) m'
      (\<lambda>h'. handle_ok m' h' \<and> ph_params h' = ph_params h) (consolidate_room (ph_params h) N) (2 * N + 1)
    \<and> index_intact m h m' \<and> tombstones (vector_nodes m') = {}"
  by (rule consolidate_achieves [OF assms])

text \<open>A store with a live vector and a tombstone.\<close>

lemma toy_buried:
  obtains st runs m h where "at toy_externals m (handle_ok m) runs (st, h)" "ph_params h = toy_params" "live_vectors (vector_nodes m) = [9 \<mapsto> [2]]"
    "tombstones (vector_nodes m) = {7}" "room_for st runs 1024 16"
proof -
  obtain st runs m h where s: "at toy_externals m (handle_ok m) runs (st, h)" "ph_params h = toy_params" "live_vectors (vector_nodes m) = [7 \<mapsto> [1], 9 \<mapsto> [2]]"
    "tombstones (vector_nodes m) = {}" "room_for st runs 2048 32" by (rule toy_indexed_vectors)
  have fit: "2 + length [] \<le> MAX_BATCH_OPS" "room_for st runs (vector_room (ph_params h) 1 + kvs_size (key_batch [])) 1"
    and size: "vector_room (ph_params h) 1 + kvs_size (key_batch []) \<le> 1024"
    by (simp add: MAX_BATCH_OPS_def) (rule room_mono [OF s(5)], simp_all add: s(2) toy_params_def vector_room_def node_room_def)
  have eqs: "{7} \<inter> dom ([7 \<mapsto> [1], 9 \<mapsto> [2]] :: u64 \<rightharpoonup> f32 list) = {7}"
    "([7 \<mapsto> [1], 9 \<mapsto> [2]] :: u64 \<rightharpoonup> f32 list)(7 := None) = [9 \<mapsto> [2]]" by (auto simp: fun_eq_iff)
  obtain m' where m': "achieves toy_externals {m, m'} runs (st, h) (pv_delete_with toy_externals toy_rnd 7 (key_batch [])) (7 \<in> dom (live_vectors (vector_nodes m)))
      m' (\<lambda>h'. handle_ok m' h' \<and> ph_params h' = ph_params h) (vector_room (ph_params h) 1 + kvs_size (key_batch [])) 1"
      "live_vectors (vector_nodes m') = [9 \<mapsto> [2]]" "tombstones (vector_nodes m') = {7}"
    using delete_achieves [OF s(1) toy_draws toy_vector_fits(2) fit, of 7] unfolding s(3,4) eqs by auto
  then obtain sh runs' where sh: "passes toy_externals st {m, m'} (fst sh) runs' m'" "handle_ok m' (snd sh)" "ph_params (snd sh) = toy_params"
    "store_size (fst sh) runs' \<le> store_size st runs + 1024" "next_sst_id (fst sh) \<le> next_sst_id st + 2"
    using size s(2) unfolding achieves_def by fastforce
  show thesis
  proof (rule that [of m' runs' "fst sh" "snd sh"])
    show "at toy_externals m' (handle_ok m') runs' (fst sh, snd sh)" using sh(1,2) by (cases sh) (simp add: at_def passes_def)
    show "room_for (fst sh) runs' 1024 16" using sh(4,5) s(5) by (simp add: room_for_def)
  qed (use sh(3) m'(2,3) in simp_all)
qed

lemma toy_nodes: "live_vectors G = [9 \<mapsto> [2]] \<Longrightarrow> tombstones G = {7} \<Longrightarrow> card (dom G) = 2" for G :: node_map
  by (simp add: dom_split(1) [of G])

theorem vector_consolidate_safe_witness:
  "\<exists>st runs m h m' extra n. achieves toy_externals {m'. index_intact m h m'} runs (st, h) (pv_consolidate toy_f32 toy_externals (\<lambda>_. toy_rnd)) 1 m'
      (\<lambda>h'. handle_ok m' h' \<and> ph_params h' = ph_params h) extra n
    \<and> tombstones (vector_nodes m) = {7} \<and> live_vectors (vector_nodes m') = [9 \<mapsto> [2]] \<and> tombstones (vector_nodes m') = {}"
proof -
  obtain st runs m h where s: "at toy_externals m (handle_ok m) runs (st, h)" "ph_params h = toy_params" "live_vectors (vector_nodes m) = [9 \<mapsto> [2]]"
    "tombstones (vector_nodes m) = {7}" "room_for st runs 1024 16" by (rule toy_buried)
  have N: "2 = card (dom (vector_nodes m))" using toy_nodes [OF s(3,4)] by simp
  have room: "room_for st runs (consolidate_room (ph_params h) 2) (2 * 2 + 1)"
    by (rule room_mono [OF s(5)]) (simp_all add: s(2) toy_params_def consolidate_room_def node_room_def)
  have one: "word_of_nat (card {7 :: u64}) = (1 :: u64)" by simp
  have draws: "draws_ok (crypto st) toy_rnd" for j :: nat by (rule toy_draws)
  obtain m' where m': "achieves toy_externals {m'. index_intact m h m'} runs (st, h) (pv_consolidate toy_f32 toy_externals (\<lambda>_. toy_rnd)) 1 m'
      (\<lambda>h'. handle_ok m' h' \<and> ph_params h' = ph_params h) (consolidate_room (ph_params h) 2) (2 * 2 + 1)"
    "index_intact m h m'" "tombstones (vector_nodes m') = {}"
    using vector_consolidate_safe [where rnds = "\<lambda>_. toy_rnd" and F = toy_f32, OF s(1) draws N room] unfolding s(4) one by (elim exE conjE) (rule that)
  moreover have "live_vectors (vector_nodes m') = [9 \<mapsto> [2]]" using m'(2) s(3) by (simp add: index_intact_def)
  ultimately show ?thesis using s(4) by blast
qed

text \<open>
  C24. Opening always yields a usable index: from a store whose metadata record is intact, missing or
  damaged, open returns a handle that agrees with the store and with every live vector, rebuilding the
  graph when it must, and a crash in the middle leaves a store that opens in the same way.
\<close>

theorem vector_open_recovers:
  assumes "at X m H runs sh" "\<And>j. draws_ok (crypto (fst sh)) (rnds j)" "openable P m"
    and "N = card (dom (vector_nodes m))" "room_for (fst sh) runs (rebuild_room P N) (2 * N + 2)"
  shows "\<exists>m' r. achieves X {m'. resumes P m m'} runs sh (pv_open F X rnds P) r m' H (rebuild_room P N) (2 * N + 2)
    \<and> handle_ok m' r \<and> vp_dim (ph_params r) = vp_dim P \<and> resumes P m m'"
  by (rule open_achieves [OF assms])

text \<open>A store whose metadata record is damaged.\<close>

lemma toy_damaged:
  obtains st runs m where "at toy_externals m (\<lambda>_ :: vector_handle. True) runs (st, toy_handle)" "openable toy_params m" "held m KVectorMeta = Some [1]"
    "live_vectors (vector_nodes m) = [9 \<mapsto> [2]]" "tombstones (vector_nodes m) = {7}" "room_for st runs 800 8"
proof -
  obtain st runs m h where s: "at toy_externals m (handle_ok m) runs (st, h)" "ph_params h = toy_params" "live_vectors (vector_nodes m) = [9 \<mapsto> [2]]"
    "tombstones (vector_nodes m) = {7}" "room_for st runs 1024 16" by (rule toy_buried)
  define m1 where "m1 = m(vector_meta_key \<mapsto> [1])"
  have size: "entry_wire_size (vector_meta_key, Some [1]) \<le> 64" by (simp add: entry_wire_size_def)
  have inv: "store_inv toy_externals st runs" "store_map runs (memtable st) = m" and ok: "handle_ok m h" using s(1) by (simp_all add: at_def)
  have "roomy st runs (entry_wire_size (vector_meta_key, Some [1]))" unfolding roomy_room by (rule room_mono [OF s(5)]) (use size in simp_all)
  from commits_put [OF inv this toy_draws] obtain st1 runs1 where st1: "store_inv toy_externals st1 runs1"
    "store_map runs1 (memtable st1) = m1" "store_size st1 runs1 \<le> store_size st runs + 64" "next_sst_id st1 \<le> next_sst_id st + 2"
    using size unfolding commits_def steps_to_def m1_def by fastforce
  have held: "held m1 KVectorMeta = Some [1]" "held m1 (KVectorNode i) = held m (KVectorNode i)" for i
  proof -
    have "length (node_key i) \<noteq> length vector_meta_key" by simp
    then have "node_key i \<noteq> vector_meta_key" by metis
    then show "held m1 (KVectorNode i) = held m (KVectorNode i)" by (simp add: held_def m1_def)
  qed (simp add: held_def m1_def)
  then have nodes: "vector_nodes m1 = vector_nodes m" by (simp add: fun_eq_iff vector_nodes_def)
  have "unopened m1 = unopened m" by (simp add: unopened_def m1_def)
  moreover have "typed_map (unopened m)" using ok unfolding unopened_def by (intro typed_apply_keys) (simp_all add: handle_ok_def op_ok_def)
  ultimately have "rebuildable toy_params m1"
    using s(2,3) by (simp add: rebuildable_def nodes params_fit_def toy_params_def)
  moreover have "\<exists>e. decode_vector_meta [1] = Inl e" by (simp add: decode_vector_meta_def block_open_def VECTOR_META_LEN_def)
  ultimately have "openable toy_params m1" by (auto simp: openable_def held)
  then show thesis
    using that [of m1 runs1 st1] st1 s(3-5) held(1) by (simp add: at_def nodes room_for_def)
qed

theorem vector_open_recovers_witness:
  "\<exists>st runs m m' r extra n. achieves toy_externals {m'. resumes toy_params m m'} runs (st, toy_handle)
      (pv_open toy_f32 toy_externals (\<lambda>_. toy_rnd) toy_params) r m' (\<lambda>_. True) extra n
    \<and> held m KVectorMeta = Some [1] \<and> handle_ok m' r \<and> live_vectors (vector_nodes m') = [9 \<mapsto> [2]]"
proof -
  obtain st runs m where s: "at toy_externals m (\<lambda>_ :: vector_handle. True) runs (st, toy_handle)" "openable toy_params m" "held m KVectorMeta = Some [1]"
    "live_vectors (vector_nodes m) = [9 \<mapsto> [2]]" "tombstones (vector_nodes m) = {7}" "room_for st runs 800 8" by (rule toy_damaged)
  have N: "2 = card (dom (vector_nodes m))" using toy_nodes [OF s(4,5)] by simp
  have room: "room_for (fst (st, toy_handle)) runs (rebuild_room toy_params 2) (2 * 2 + 2)"
    unfolding fst_conv by (rule room_mono [OF s(6)]) (simp_all add: toy_params_def rebuild_room_def node_room_def)
  have draws: "draws_ok (crypto (fst (st, toy_handle))) toy_rnd" for j :: nat by (rule toy_draws)
  obtain m' r where m': "achieves toy_externals {m'. resumes toy_params m m'} runs (st, toy_handle)
      (pv_open toy_f32 toy_externals (\<lambda>_. toy_rnd) toy_params) r m' (\<lambda>_. True) (rebuild_room toy_params 2) (2 * 2 + 2)"
    "handle_ok m' r" "resumes toy_params m m'"
    using vector_open_recovers [where rnds = "\<lambda>_. toy_rnd" and F = toy_f32, OF s(1) draws s(2) N room] by (elim exE conjE) (rule that)
  moreover have "live_vectors (vector_nodes m') = [9 \<mapsto> [2]]" using m'(3) s(4) by (simp add: resumes_def)
  ultimately show ?thesis using s(3) by blast
qed

end
