(* ===== verification/Memory_Index.thy ===== *)
theory Memory_Index
  imports Vector_Open Fts_Index
begin

text \<open>
  The persisted memory index (idx/memory/persistent.rs): the records of the memories, the map from
  vector ids back to them, the expiry entries, the agent registry and the id allocator. It composes
  the vector index and the full-text index: the operations of one memory travel in one batch.
  \<open>PersistentMemoryIndex\<close> holds one field, the next vector id, which a successful put replaces.
\<close>

record new_memory =
  nm_layer :: bytes
  nm_content :: chars
  nm_source :: bytes
  nm_valid_from :: i64
  nm_valid_until :: "i64 option"
  nm_importance :: f64
  nm_last_access :: i64

record forget_options =
  fo_max_items :: nat
  fo_max_wal_bytes :: nat

definition default_forget_options :: forget_options where
  "default_forget_options = \<lparr>fo_max_items = 256, fo_max_wal_bytes = 4 * 1024 * 1024\<rparr>"

subsection \<open>Staging\<close>

definition stage_expiry_insert :: "bytes \<Rightarrow> bytes \<Rightarrow> i64 option \<Rightarrow> batch \<Rightarrow> batch engine_result" where
  "stage_expiry_insert agent i valid_until batch = (case valid_until of
     None \<Rightarrow> Inr batch
   | Some t \<Rightarrow> rbind (expiry_key agent t i) (\<lambda>key. Inr (batch_put key [] batch)))"

definition stage_expiry_delete :: "bytes \<Rightarrow> bytes \<Rightarrow> i64 option \<Rightarrow> batch \<Rightarrow> batch engine_result" where
  "stage_expiry_delete agent i valid_until batch = (case valid_until of
     None \<Rightarrow> Inr batch
   | Some t \<Rightarrow> rbind (expiry_key agent t i) (\<lambda>key. Inr (batch_delete key batch)))"

subsection \<open>Opening\<close>

definition max_seen :: "(bytes \<Rightarrow> u64 option) \<Rightarrow> (bytes \<times> bytes) list \<Rightarrow> u64 option \<Rightarrow> u64 option" where
  "max_seen id_of entries seen = fold (\<lambda>(key, _) seen. case id_of key of
       None \<Rightarrow> seen
     | Some i \<Rightarrow> Some (case seen of None \<Rightarrow> i | Some m \<Rightarrow> max m i)) entries seen"

definition heal_next_vec_id :: "externals \<Rightarrow> (store, u64) op" where
  "heal_next_vec_id X =
     obind (kv_scan X NODE_PREFIX) (\<lambda>nodes.
     obind (kv_scan X VECMAP_PREFIX) (\<lambda>maps.
       oret (case max_seen vecmap_id maps (max_seen node_id nodes None) of None \<Rightarrow> 0 | Some m \<Rightarrow> m + 1)))"

definition mi_open :: "externals \<Rightarrow> (store, u64) op" where
  "mi_open X =
     obind (kv_get X memory_meta_key) (\<lambda>found. case found of
       Some bs \<Rightarrow> (case decode_memory_meta bs of
           Inr stored \<Rightarrow> oret (mm_next_vec_id stored)
         | Inl e \<Rightarrow> if e = Corrupt MemoryIndexMeta then heal_next_vec_id X else olift (Inl e))
     | None \<Rightarrow> heal_next_vec_id X)"

subsection \<open>Puts\<close>

type_synonym put_item = "bytes \<times> new_memory \<times> f32 list"

definition stored_record :: "new_memory \<Rightarrow> u64 \<Rightarrow> memory_record" where
  "stored_record new vec_id = \<lparr>mr_layer = nm_layer new, mr_content = utf8 (nm_content new), mr_source = nm_source new,
     mr_valid_from = nm_valid_from new, mr_valid_until = nm_valid_until new, mr_importance = nm_importance new,
     mr_last_access = nm_last_access new, mr_vec_id = vec_id\<rparr>"

text \<open>The duplicate check of an item, against the store and the ids before it.\<close>

definition check_fresh :: "externals \<Rightarrow> bytes \<Rightarrow> put_item \<Rightarrow> bytes list \<Rightarrow> (vstate, bytes list) op" where
  "check_fresh X agent = (\<lambda>(i, new, vector) prior.
     obind (olift (record_key agent i)) (\<lambda>key.
     obind (on_store (kv_get X key)) (\<lambda>found.
       if found \<noteq> None \<or> i \<in> set prior then olift (Inl (DuplicateMemoryId agent i)) else oret (prior @ [i]))))"

type_synonym staged_puts = "u64 \<times> batch \<times> (u64 \<times> chars) list \<times> (u64 \<times> f32 list) list"

definition stage_memory :: "bytes \<Rightarrow> put_item \<Rightarrow> staged_puts \<Rightarrow> staged_puts engine_result" where
  "stage_memory agent = (\<lambda>(i, new, vector) (vec_id, extra, docs, vectors).
     rbind (record_key agent i) (\<lambda>key.
     rbind (encode_memory_record (stored_record new vec_id)) (\<lambda>value.
     rbind (encode_vec_map \<lparr>vm_agent = agent, vm_id = i\<rparr>) (\<lambda>mapping.
     rbind (stage_expiry_insert agent i (nm_valid_until new) (batch_put (vecmap_key vec_id) mapping (batch_put key value extra))) (\<lambda>extra.
       Inr (vec_id + 1, extra, docs @ [(vec_id, nm_content new)], vectors @ [(vec_id, vector)]))))))"

definition id_range :: "u64 \<Rightarrow> u64 \<Rightarrow> u64 list" where
  "id_range first next = (if first \<le> next then map (\<lambda>j. first + word_of_nat j) [0..<unat (next - first)] else [])"

definition mi_put_many ::
  "unicode \<Rightarrow> f32_ops \<Rightarrow> externals \<Rightarrow> (nat \<Rightarrow> nat \<Rightarrow> bytes) \<Rightarrow> bytes \<Rightarrow> put_item list \<Rightarrow> u64 \<Rightarrow> (vstate, u64 list \<times> u64) op" where
  "mi_put_many U F X rnd agent items next =
     (if items = [] then oret ([], next)
      else
        obind (ofold (check_fresh X agent) items []) (\<lambda>_.
        obind (olift (rfold (stage_memory agent) items (next, [], [], []))) (\<lambda>(_, extra, docs, vectors).
        let next' = next + word_of_nat (length items)
        in obind (olift (encode_memory_meta \<lparr>mm_next_vec_id = next'\<rparr>)) (\<lambda>meta.
           obind (olift (agent_key agent)) (\<lambda>registry.
           obind (on_store (stage_insert_many U X agent docs (batch_put registry [] (batch_put memory_meta_key meta extra)))) (\<lambda>extra.
           obind (pv_insert_many_with F X rnd vectors extra) (\<lambda>_.
             oret (id_range next next', next'))))))))"

definition mi_put ::
  "unicode \<Rightarrow> f32_ops \<Rightarrow> externals \<Rightarrow> (nat \<Rightarrow> nat \<Rightarrow> bytes) \<Rightarrow> bytes \<Rightarrow> bytes \<Rightarrow> new_memory \<Rightarrow> f32 list \<Rightarrow> u64 \<Rightarrow> (vstate, u64 \<times> u64) op" where
  "mi_put U F X rnd agent i new vector next =
     obind (mi_put_many U F X rnd agent [(i, new, vector)] next) (\<lambda>(ids, next'). oret (hd ids, next'))"

subsection \<open>Single records\<close>

definition mi_get :: "externals \<Rightarrow> bytes \<Rightarrow> bytes \<Rightarrow> (store, memory_record option) op" where
  "mi_get X agent i = obind (olift (record_key agent i)) (\<lambda>key. decoded (kv_get X key) decode_memory_record)"

definition mi_update :: "externals \<Rightarrow> (nat \<Rightarrow> nat \<Rightarrow> bytes) \<Rightarrow> bytes \<Rightarrow> bytes \<Rightarrow> memory_record \<Rightarrow> (store, unit) op" where
  "mi_update X rnd agent i updated =
     obind (olift (record_key agent i)) (\<lambda>key.
     obind (olift (encode_memory_record updated)) (\<lambda>value.
     obind (mi_get X agent i) (\<lambda>previous.
     let batch = batch_put key value [];
         previous_until = Option.bind previous mr_valid_until
     in obind (olift (if previous_until \<noteq> mr_valid_until updated
            then rbind (stage_expiry_delete agent i previous_until batch) (stage_expiry_insert agent i (mr_valid_until updated))
            else Inr batch)) (apply_batch X rnd))))"

definition touch_one :: "externals \<Rightarrow> bytes \<Rightarrow> i64 \<Rightarrow> bytes \<Rightarrow> batch \<Rightarrow> (store, batch) op" where
  "touch_one X agent now i batch =
     obind (mi_get X agent i) (\<lambda>found. case found of
       None \<Rightarrow> oret batch
     | Some stored \<Rightarrow>
         obind (olift (record_key agent i)) (\<lambda>key.
         obind (olift (encode_memory_record (stored\<lparr>mr_last_access := now\<rparr>))) (\<lambda>value.
           oret (batch_put key value batch))))"

definition touch_last_access :: "externals \<Rightarrow> (nat \<Rightarrow> nat \<Rightarrow> bytes) \<Rightarrow> bytes \<Rightarrow> bytes list \<Rightarrow> i64 \<Rightarrow> (store, unit) op" where
  "touch_last_access X rnd agent ids now =
     obind (ofold (touch_one X agent now) ids []) (\<lambda>batch. if batch = [] then oret () else apply_batch X rnd batch)"

subsection \<open>Forgetting\<close>

text \<open>The companion deletes of one memory.\<close>

definition stage_forget :: "bytes \<Rightarrow> bytes \<Rightarrow> u64 \<Rightarrow> i64 option \<Rightarrow> batch \<Rightarrow> batch engine_result" where
  "stage_forget agent i vec_id valid_until extra =
     rbind (record_key agent i) (\<lambda>key.
       stage_expiry_delete agent i valid_until (batch_delete (vecmap_key vec_id) (batch_delete key extra)))"

definition mi_forget :: "externals \<Rightarrow> (nat \<Rightarrow> nat \<Rightarrow> bytes) \<Rightarrow> bytes \<Rightarrow> bytes \<Rightarrow> (vstate, bool) op" where
  "mi_forget X rnd agent i =
     obind (on_store (mi_get X agent i)) (\<lambda>found. case found of
       None \<Rightarrow> oret False
     | Some stored \<Rightarrow>
         obind (olift (stage_forget agent i (mr_vec_id stored) (mr_valid_until stored) [])) (\<lambda>extra.
         obind (on_store (stage_delete X agent (mr_vec_id stored) extra)) (\<lambda>extra.
         obind (pv_delete_with X rnd (mr_vec_id stored) extra) (\<lambda>_. oret True))))"

type_synonym forget_item = "bytes \<times> u64 \<times> i64 option"

definition apply_forget_chunk :: "externals \<Rightarrow> (nat \<Rightarrow> nat \<Rightarrow> bytes) \<Rightarrow> bytes \<Rightarrow> forget_item list \<Rightarrow> (vstate, u64) op" where
  "apply_forget_chunk X rnd agent chunk =
     obind (olift (rfold (\<lambda>(i, vec_id, valid_until). stage_forget agent i vec_id valid_until) chunk [])) (\<lambda>extra.
     let vec_ids = map (\<lambda>(i, vec_id, valid_until). vec_id) chunk
     in obind (on_store (stage_delete_many X agent vec_ids extra)) (\<lambda>extra.
        obind (pv_delete_many_with X rnd vec_ids extra) (\<lambda>_. oret (word_of_nat (length chunk)))))"

definition CHUNK_OVERHEAD_BYTES :: nat where "CHUNK_OVERHEAD_BYTES = 256"

text \<open>The loop's variables: the ids seen, the pending chunk with its bytes, the memories removed and the batches written.\<close>

record forget_state =
  fs_seen :: "bytes set"
  fs_chunk :: "forget_item list"
  fs_bytes :: nat
  fs_removed :: u64
  fs_batches :: nat

definition forget_item_bytes :: "externals \<Rightarrow> bytes \<Rightarrow> bytes \<Rightarrow> memory_record \<Rightarrow> (vstate, nat) op" where
  "forget_item_bytes X agent i stored =
     obind (olift (record_key agent i)) (\<lambda>key.
     obind handle (\<lambda>h.
     obind (on_store (delete_footprint X agent (mr_vec_id stored))) (\<lambda>footprint.
     let item_bytes = length key + length (vecmap_key (mr_vec_id stored)) + approx_tombstone_wire_bytes h + footprint
     in olift (case mr_valid_until stored of
          None \<Rightarrow> Inr item_bytes
        | Some until \<Rightarrow> rbind (expiry_key agent until i) (\<lambda>key. Inr (item_bytes + length key))))))"

definition flush_forgets :: "externals \<Rightarrow> (nat \<Rightarrow> nat \<Rightarrow> nat \<Rightarrow> bytes) \<Rightarrow> bytes \<Rightarrow> forget_state \<Rightarrow> (vstate, forget_state) op" where
  "flush_forgets X rnds agent fs =
     obind (apply_forget_chunk X (rnds (fs_batches fs)) agent (fs_chunk fs)) (\<lambda>n.
       oret (fs\<lparr>fs_removed := fs_removed fs + n, fs_chunk := [], fs_bytes := CHUNK_OVERHEAD_BYTES, fs_batches := fs_batches fs + 1\<rparr>))"

definition forget_next ::
  "externals \<Rightarrow> (nat \<Rightarrow> nat \<Rightarrow> nat \<Rightarrow> bytes) \<Rightarrow> bytes \<Rightarrow> forget_options \<Rightarrow> bytes \<Rightarrow> forget_state \<Rightarrow> (vstate, forget_state) op" where
  "forget_next X rnds agent opts i fs =
     (if i \<in> fs_seen fs then oret fs
      else
        let fs = fs\<lparr>fs_seen := insert i (fs_seen fs)\<rparr>
        in obind (on_store (mi_get X agent i)) (\<lambda>found. case found of
             None \<Rightarrow> oret fs
           | Some stored \<Rightarrow>
               obind (forget_item_bytes X agent i stored) (\<lambda>item_bytes.
               obind (if fs_chunk fs \<noteq> [] \<and> (length (fs_chunk fs) \<ge> max 1 (fo_max_items opts)
                          \<or> fs_bytes fs + item_bytes > fo_max_wal_bytes opts)
                      then flush_forgets X rnds agent fs else oret fs) (\<lambda>fs.
                 oret (fs\<lparr>fs_chunk := fs_chunk fs @ [(i, mr_vec_id stored, mr_valid_until stored)],
                          fs_bytes := fs_bytes fs + item_bytes\<rparr>)))))"

definition mi_forget_many ::
  "externals \<Rightarrow> (nat \<Rightarrow> nat \<Rightarrow> nat \<Rightarrow> bytes) \<Rightarrow> bytes \<Rightarrow> bytes list \<Rightarrow> forget_options \<Rightarrow> (vstate, u64) op" where
  "mi_forget_many X rnds agent ids opts =
     obind (ofold (forget_next X rnds agent opts) ids
       \<lparr>fs_seen = {}, fs_chunk = [], fs_bytes = CHUNK_OVERHEAD_BYTES, fs_removed = 0, fs_batches = 0\<rparr>) (\<lambda>fs.
     obind (if fs_chunk fs \<noteq> [] then flush_forgets X rnds agent fs else oret fs) (\<lambda>fs. oret (fs_removed fs)))"

subsection \<open>Listings\<close>

definition list_agents :: "externals \<Rightarrow> (store, bytes list) op" where
  "list_agents X = obind (kv_scan X REGISTRY_PREFIX) (\<lambda>entries.
     olift (rmap (\<lambda>(key, value). case agent_decode key of None \<Rightarrow> Inl (Corrupt MemoryRecord) | Some agent \<Rightarrow> Inr agent) entries))"

definition record_entry :: "nat \<Rightarrow> bytes \<times> bytes \<Rightarrow> (bytes \<times> memory_record) engine_result" where
  "record_entry prefix_len = (\<lambda>(key, value). case record_id prefix_len key of
     None \<Rightarrow> Inl (Corrupt MemoryRecord)
   | Some i \<Rightarrow> rbind (decode_memory_record value) (\<lambda>r. Inr (i, r)))"

definition scan_agent :: "externals \<Rightarrow> bytes \<Rightarrow> (store, (bytes \<times> memory_record) list) op" where
  "scan_agent X agent = obind (olift (record_agent_prefix agent)) (\<lambda>pre.
     obind (kv_scan X pre) (\<lambda>entries. olift (rmap (record_entry (length pre)) entries)))"

text \<open>The loop over the engine's pages; \<open>None\<close> when the fuel does not suffice.\<close>

fun agent_pages ::
  "externals \<Rightarrow> nat \<Rightarrow> bytes \<Rightarrow> nat \<Rightarrow> store \<Rightarrow> nat \<Rightarrow> bytes \<Rightarrow> (bytes \<times> memory_record) list \<Rightarrow> (bytes \<times> memory_record) list engine_result option" where
  "agent_pages X prefix_len stop limit st 0 start out = None"
| "agent_pages X prefix_len stop limit st (Suc fuel) start out =
     (if length out \<ge> limit then Some (Inr out)
      else case scan_range_page X start stop (limit - length out) st of
        Inl e \<Rightarrow> Some (Inl e)
      | Inr page \<Rightarrow> (case rmap (record_entry prefix_len) (take (limit - length out) (p_entries page)) of
            Inl e \<Rightarrow> Some (Inl e)
          | Inr es \<Rightarrow> (case p_next_start page of
                None \<Rightarrow> Some (Inr (out @ es))
              | Some next \<Rightarrow> agent_pages X prefix_len stop limit st fuel next (out @ es))))"

definition scan_agent_page ::
  "externals \<Rightarrow> nat \<Rightarrow> bytes \<Rightarrow> bytes option \<Rightarrow> nat \<Rightarrow> store \<Rightarrow> (bytes \<times> memory_record) list engine_result option" where
  "scan_agent_page X fuel agent after_id limit st =
     (case rbind (record_agent_prefix agent) (\<lambda>pre.
           rbind (record_agent_upper_bound agent) (\<lambda>stop.
           rbind (case after_id of Some i \<Rightarrow> rbind (record_key agent i) (\<lambda>key. Inr (key @ [0])) | None \<Rightarrow> Inr pre) (\<lambda>start.
             Inr (length pre, stop, start)))) of
        Inl e \<Rightarrow> Some (Inl e)
      | Inr (prefix_len, stop, start) \<Rightarrow> agent_pages X prefix_len stop limit st fuel start [])"

definition scan_expiring :: "externals \<Rightarrow> bytes \<Rightarrow> i64 \<Rightarrow> (store, (bytes \<times> i64) list) op" where
  "scan_expiring X agent at_time =
     obind (olift (expiry_agent_prefix agent)) (\<lambda>start.
     obind (olift (expiry_upper_bound agent at_time)) (\<lambda>stop.
     obind (kv_range X start stop) (\<lambda>entries.
       olift (rmap (\<lambda>(key, value). case expiry_decode (length start) key of
           None \<Rightarrow> Inl (Corrupt MemoryRecord)
         | Some (valid_until, i) \<Rightarrow> Inr (i, valid_until)) entries))))"

definition count_all :: "externals \<Rightarrow> (store, u64) op" where
  "count_all X = obind (kv_scan X RECORD_PREFIX) (\<lambda>entries. oret (word_of_nat (length entries)))"

definition mi_resolve :: "externals \<Rightarrow> u64 \<Rightarrow> (store, vec_map_entry option) op" where
  "mi_resolve X vec_id = decoded (kv_get X (vecmap_key vec_id)) decode_vec_map"

subsection \<open>Purging an agent\<close>

definition purge_one :: "externals \<Rightarrow> (nat \<Rightarrow> nat \<Rightarrow> nat \<Rightarrow> bytes) \<Rightarrow> bytes \<Rightarrow> bytes \<times> memory_record \<Rightarrow> nat \<Rightarrow> (vstate, nat) op" where
  "purge_one X rnds agent = (\<lambda>(i, stored) purged.
     obind (olift (stage_forget agent i (mr_vec_id stored) (mr_valid_until stored) [])) (\<lambda>extra.
     obind (on_store (stage_delete X agent (mr_vec_id stored) extra)) (\<lambda>extra.
     obind (pv_delete_with X (rnds purged) (mr_vec_id stored) extra) (\<lambda>_. oret (purged + 1)))))"

definition mi_purge_agent :: "externals \<Rightarrow> (nat \<Rightarrow> nat \<Rightarrow> nat \<Rightarrow> bytes) \<Rightarrow> bytes \<Rightarrow> (vstate, u64) op" where
  "mi_purge_agent X rnds agent =
     obind (on_store (scan_agent X agent)) (\<lambda>memories.
     obind (ofold (purge_one X rnds agent) memories 0) (\<lambda>purged.
     obind (olift (agent_key agent)) (\<lambda>key.
     obind (on_store (engine_delete X (rnds purged) key)) (\<lambda>_. oret (word_of_nat purged :: u64)))))"

end
