(* ===== verification/Memory_Inv.thy ===== *)
theory Memory_Inv
  imports Memory_Index
begin

text \<open>
  The invariant of the memory index over the map of a store, and what the entries staged by a put or
  a forget do to it. Every memory has its record, its mapping from the vector id, its expiry entry, its
  document and its live vector, or none of them.
\<close>

subsection \<open>What a map holds\<close>

definition memories :: "(bytes \<rightharpoonup> bytes) \<Rightarrow> bytes \<Rightarrow> bytes \<rightharpoonup> memory_record" where
  "memories m agent i = (case held m (KRecord agent i) of
     None \<Rightarrow> None | Some v \<Rightarrow> (case decode_memory_record v of Inl e \<Rightarrow> None | Inr r \<Rightarrow> Some r))"

definition owner :: "(bytes \<rightharpoonup> bytes) \<Rightarrow> u64 \<rightharpoonup> vec_map_entry" where
  "owner m v = (case held m (KVecmap v) of
     None \<Rightarrow> None | Some b \<Rightarrow> (case decode_vec_map b of Inl e \<Rightarrow> None | Inr e \<Rightarrow> Some e))"

text \<open>The document the full-text index keeps for a memory: none when the content has no term.\<close>

definition document :: "unicode \<Rightarrow> bytes \<Rightarrow> fts_doc_terms option \<Rightarrow> bool" where
  "document U content d \<longleftrightarrow> (\<exists>cs. chars_ok cs \<and> content = utf8 cs
     \<and> d = (if from_content U cs = [] then None else Some (from_content U cs)))"

definition memory_linked :: "unicode \<Rightarrow> (bytes \<rightharpoonup> bytes) \<Rightarrow> bytes \<Rightarrow> bytes \<Rightarrow> memory_record \<Rightarrow> bool" where
  "memory_linked U m agent i r \<longleftrightarrow> owner m (mr_vec_id r) = Some \<lparr>vm_agent = agent, vm_id = i\<rparr>
     \<and> document U (mr_content r) (corpus_of m agent (mr_vec_id r)) \<and> held m (KAgent agent) = Some []"

definition mem_ok :: "unicode \<Rightarrow> (bytes \<rightharpoonup> bytes) \<Rightarrow> u64 \<Rightarrow> bool" where
  "mem_ok U m next \<longleftrightarrow> typed_map m \<and> (\<forall>agent. name_fits agent \<longrightarrow> fts_ok m agent)
     \<and> (\<forall>agent i r. name_fits agent \<longrightarrow> name_fits i \<longrightarrow> memories m agent i = Some r \<longrightarrow> memory_linked U m agent i r)
     \<and> (\<forall>v e. owner m v = Some e \<longrightarrow> name_fits (vm_agent e) \<and> name_fits (vm_id e)
          \<and> (\<exists>r. memories m (vm_agent e) (vm_id e) = Some r \<and> mr_vec_id r = v))
     \<and> dom (owner m) = dom (live_vectors (vector_nodes m))
     \<and> (\<forall>v \<in> dom (vector_nodes m). v < next)
     \<and> (\<forall>agent t i. name_fits agent \<longrightarrow> name_fits i \<longrightarrow>
          held m (KExpiry agent t i) = (if \<exists>r. memories m agent i = Some r \<and> mr_valid_until r = Some t then Some [] else None))
     \<and> (\<forall>agent v d. name_fits agent \<longrightarrow> corpus_of m agent v = Some d \<longrightarrow> (\<exists>i. owner m v = Some \<lparr>vm_agent = agent, vm_id = i\<rparr>))
     \<and> (case held m KMemoryMeta of None \<Rightarrow> next = 0 | Some b \<Rightarrow> decode_memory_meta b = Inr \<lparr>mm_next_vec_id = next\<rparr>)"

lemma mem_okD:
  assumes "mem_ok U m next"
  shows "typed_map m" "name_fits agent \<Longrightarrow> fts_ok m agent"
    "name_fits agent \<Longrightarrow> name_fits i \<Longrightarrow> memories m agent i = Some r \<Longrightarrow> memory_linked U m agent i r"
    "owner m v = Some e \<Longrightarrow> name_fits (vm_agent e) \<and> name_fits (vm_id e) \<and> (\<exists>r. memories m (vm_agent e) (vm_id e) = Some r \<and> mr_vec_id r = v)"
    "dom (owner m) = dom (live_vectors (vector_nodes m))" "v \<in> dom (vector_nodes m) \<Longrightarrow> v < next"
    "name_fits agent \<Longrightarrow> name_fits i \<Longrightarrow>
       held m (KExpiry agent t i) = (if \<exists>r. memories m agent i = Some r \<and> mr_valid_until r = Some t then Some [] else None)"
    "name_fits agent \<Longrightarrow> corpus_of m agent v = Some d \<Longrightarrow> \<exists>i. owner m v = Some \<lparr>vm_agent = agent, vm_id = i\<rparr>"
    "case held m KMemoryMeta of None \<Rightarrow> next = 0 | Some b \<Rightarrow> decode_memory_meta b = Inr \<lparr>mm_next_vec_id = next\<rparr>"
  using assms unfolding mem_ok_def by blast+

lemma memories_held:
  assumes "typed_map m" "name_fits agent" "name_fits i"
  shows "held m (KRecord agent i) = Some v \<Longrightarrow> \<exists>r. decode_memory_record v = Inr r \<and> memories m agent i = Some r"
    "memories m agent i = None \<longleftrightarrow> held m (KRecord agent i) = None"
proof -
  show "\<exists>r. decode_memory_record v = Inr r \<and> memories m agent i = Some r" if h: "held m (KRecord agent i) = Some v" for v
  proof -
    have "value_fits (KRecord agent i) v" using typed_held [OF assms(1) _ h] assms(2,3) by (simp add: key_ok_def)
    then obtain r where "encode_memory_record r = Inr v" "utf8_valid (mr_layer r)" "utf8_valid (mr_content r)" "utf8_valid (mr_source r)"
      by (auto simp: value_fits_def elim!: value_kind_of.elims)
    then show ?thesis using memory_record_roundtrip h by (auto simp: memories_def)
  qed
  then show "memories m agent i = None \<longleftrightarrow> held m (KRecord agent i) = None"
    by (cases "held m (KRecord agent i)") (auto simp: memories_def)
qed

lemma owner_held:
  assumes "typed_map m"
  shows "held m (KVecmap v) = Some b \<Longrightarrow> \<exists>e. decode_vec_map b = Inr e \<and> owner m v = Some e"
    "owner m v = None \<longleftrightarrow> held m (KVecmap v) = None"
proof -
  show "\<exists>e. decode_vec_map b = Inr e \<and> owner m v = Some e" if h: "held m (KVecmap v) = Some b" for b
  proof -
    have "value_fits (KVecmap v) b" using typed_held [OF assms(1) _ h] by (simp add: key_ok_def)
    then obtain e where "encode_vec_map e = Inr b" "utf8_valid (vm_agent e)" "utf8_valid (vm_id e)"
      by (auto simp: value_fits_def elim!: value_kind_of.elims)
    then show ?thesis using vec_map_roundtrip h by (auto simp: owner_def)
  qed
  then show "owner m v = None \<longleftrightarrow> held m (KVecmap v) = None" by (cases "held m (KVecmap v)") (auto simp: owner_def)
qed

subsection \<open>Keys and values\<close>

lemma memory_keys_ok:
  assumes "name_fits agent" "name_fits i"
  shows "record_key agent i = Inr (key_bytes (KRecord agent i))" "expiry_key agent t i = Inr (key_bytes (KExpiry agent t i))"
    "key_ok (KRecord agent i)" "key_ok (KExpiry agent t i)"
  using encode_key_ok [of "KRecord agent i"] encode_key_ok [of "KExpiry agent t i"] assms by (simp_all add: key_ok_def)

lemma registry_key_ok: "name_fits agent \<Longrightarrow> agent_key agent = Inr (key_bytes (KAgent agent)) \<and> key_ok (KAgent agent)"
  using encode_key_ok [of "KAgent agent"] by (simp add: key_ok_def)

lemma plain_keys [simp]: "key_bytes (KVecmap v) = vecmap_key v" "key_bytes KMemoryMeta = memory_meta_key" "key_ok (KVecmap v)" "key_ok KMemoryMeta"
  by (simp_all add: key_bytes_def vecmap_key_def memory_meta_key_def key_ok_def)

definition record_bytes :: "memory_record \<Rightarrow> bytes" where "record_bytes r = projr (encode_memory_record r)"
definition mapping_bytes :: "bytes \<Rightarrow> bytes \<Rightarrow> bytes" where "mapping_bytes agent i = projr (encode_vec_map \<lparr>vm_agent = agent, vm_id = i\<rparr>)"
definition memory_meta_bytes :: "u64 \<Rightarrow> bytes" where "memory_meta_bytes next = projr (encode_memory_meta \<lparr>mm_next_vec_id = next\<rparr>)"

definition record_fits :: "memory_record \<Rightarrow> bool" where
  "record_fits r \<longleftrightarrow> utf8_valid (mr_layer r) \<and> utf8_valid (mr_content r) \<and> utf8_valid (mr_source r) \<and> (\<exists>v. encode_memory_record r = Inr v)"

lemma record_encoded:
  assumes "record_fits r"
  shows "encode_memory_record r = Inr (record_bytes r)" "decode_memory_record (record_bytes r) = Inr r" "value_fits (KRecord agent i) (record_bytes r)"
proof -
  show e: "encode_memory_record r = Inr (record_bytes r)" using assms by (auto simp: record_fits_def record_bytes_def)
  then show "decode_memory_record (record_bytes r) = Inr r" using memory_record_roundtrip assms by (simp add: record_fits_def)
  show "value_fits (KRecord agent i) (record_bytes r)"
    using e assms by (auto simp: value_fits_def record_fits_def intro!: exI [of _ "VRecord r"])
qed

lemma mapping_encoded:
  assumes "name_fits agent" "name_fits i"
  shows "encode_vec_map \<lparr>vm_agent = agent, vm_id = i\<rparr> = Inr (mapping_bytes agent i)"
    "decode_vec_map (mapping_bytes agent i) = Inr \<lparr>vm_agent = agent, vm_id = i\<rparr>" "value_fits (KVecmap v) (mapping_bytes agent i)"
proof -
  show e: "encode_vec_map \<lparr>vm_agent = agent, vm_id = i\<rparr> = Inr (mapping_bytes agent i)"
    using assms by (simp add: mapping_bytes_def encode_vec_map_def name_fits_def Record_Codecs.fits32_def)
  then show "decode_vec_map (mapping_bytes agent i) = Inr \<lparr>vm_agent = agent, vm_id = i\<rparr>"
    using vec_map_roundtrip assms by (simp add: name_fits_def)
  show "value_fits (KVecmap v) (mapping_bytes agent i)"
    using e assms by (auto simp: value_fits_def name_fits_def intro!: exI [of _ "VVecMap \<lparr>vm_agent = agent, vm_id = i\<rparr>"])
qed

lemma memory_meta_encoded:
  "encode_memory_meta \<lparr>mm_next_vec_id = next\<rparr> = Inr (memory_meta_bytes next)"
  "decode_memory_meta (memory_meta_bytes next) = Inr \<lparr>mm_next_vec_id = next\<rparr>" "value_fits KMemoryMeta (memory_meta_bytes next)"
proof -
  show e: "encode_memory_meta \<lparr>mm_next_vec_id = next\<rparr> = Inr (memory_meta_bytes next)" by (simp add: memory_meta_bytes_def encode_memory_meta_def)
  then show "decode_memory_meta (memory_meta_bytes next) = Inr \<lparr>mm_next_vec_id = next\<rparr>" by (rule memory_meta_roundtrip)
  show "value_fits KMemoryMeta (memory_meta_bytes next)" using e by (auto simp: value_fits_def intro!: exI [of _ "VMemoryMeta \<lparr>mm_next_vec_id = next\<rparr>"])
qed

subsection \<open>Numbered items\<close>

text \<open>The items of a put with the vector ids they get, and the entries each of them stages.\<close>

fun numbered :: "u64 \<Rightarrow> 'a list \<Rightarrow> (u64 \<times> 'a) list" where
  "numbered v [] = []"
| "numbered v (x # xs) = (v, x) # numbered (v + 1) xs"

lemma length_numbered [simp]: "length (numbered v xs) = length xs" "map snd (numbered v xs) = xs"
  by (induction xs arbitrary: v) simp_all

lemma unat_next: "unat (v :: u64) + Suc n < 2 ^ 64 \<Longrightarrow> unat (v + 1) = Suc (unat v)"
  by (subst unat_add_lem [THEN iffD1]) simp_all

lemma numbered_bounds:
  assumes "unat v + length xs < 2 ^ 64"
  shows "\<forall>w \<in> fst ` set (numbered v xs). v \<le> w \<and> unat w < unat v + length xs" "distinct (map fst (numbered v xs))"
proof -
  have "(\<forall>w \<in> fst ` set (numbered v xs). v \<le> w \<and> unat w < unat v + length xs) \<and> distinct (map fst (numbered v xs))"
    using assms
  proof (induction xs arbitrary: v)
    case (Cons x xs)
    have s: "unat (v + 1) = Suc (unat v)" using unat_next [of v "length xs"] Cons.prems by simp
    have IH: "\<forall>w \<in> fst ` set (numbered (v + 1) xs). v + 1 \<le> w \<and> unat w < unat (v + 1) + length xs" "distinct (map fst (numbered (v + 1) xs))"
      using Cons.IH [of "v + 1"] Cons.prems s by simp_all
    have above: "v < w \<and> unat w < unat v + length (x # xs)" if "w \<in> fst ` set (numbered (v + 1) xs)" for w
      using IH(1) that s by (fastforce simp: word_le_nat_alt word_less_nat_alt)
    then have "v \<notin> fst ` set (numbered (v + 1) xs)" by blast
    then show ?case using above IH(2) by (auto simp: order_less_imp_le simp del: image_iff)
  qed simp
  then show "\<forall>w \<in> fst ` set (numbered v xs). v \<le> w \<and> unat w < unat v + length xs" "distinct (map fst (numbered v xs))" by simp_all
qed

subsection \<open>The entries of a put\<close>

definition put_one_ops :: "bytes \<Rightarrow> u64 \<times> put_item \<Rightarrow> key_op list" where
  "put_one_ops agent = (\<lambda>(v, i, new, vector).
     [(KRecord agent i, Some (record_bytes (stored_record new v))), (KVecmap v, Some (mapping_bytes agent i))]
     @ (case nm_valid_until new of None \<Rightarrow> [] | Some t \<Rightarrow> [(KExpiry agent t i, Some [])]))"

definition put_ops :: "bytes \<Rightarrow> u64 \<Rightarrow> (u64 \<times> put_item) list \<Rightarrow> key_op list" where
  "put_ops agent next ns = concat (map (put_one_ops agent) ns) @ [(KMemoryMeta, Some (memory_meta_bytes next)), (KAgent agent, Some [])]"

text \<open>The records, the mappings, the documents and the vectors of the numbered items.\<close>

definition new_records :: "(u64 \<times> put_item) list \<Rightarrow> (bytes \<times> memory_record) list" where
  "new_records ns = map (\<lambda>(v, i, new, vector). (i, stored_record new v)) ns"

definition new_owners :: "bytes \<Rightarrow> (u64 \<times> put_item) list \<Rightarrow> (u64 \<times> vec_map_entry) list" where
  "new_owners agent ns = map (\<lambda>(v, i, new, vector). (v, \<lparr>vm_agent = agent, vm_id = i\<rparr>)) ns"

definition new_docs :: "(u64 \<times> put_item) list \<Rightarrow> (u64 \<times> chars) list" where
  "new_docs ns = map (\<lambda>(v, i, new, vector). (v, nm_content new)) ns"

definition new_vectors :: "(u64 \<times> put_item) list \<Rightarrow> (u64 \<times> f32 list) list" where
  "new_vectors ns = map (\<lambda>(v, i, new, vector). (v, vector)) ns"

definition item_fits :: "bytes \<Rightarrow> put_item \<Rightarrow> bool" where
  "item_fits agent = (\<lambda>(i, new, vector). name_fits i \<and> chars_ok (nm_content new) \<and> record_fits (stored_record new 0))"

lemma record_fits_any: "record_fits (stored_record new v) \<longleftrightarrow> record_fits (stored_record new 0)"
  by (auto simp: record_fits_def stored_record_def encode_memory_record_def)

lemma new_lists [simp]:
  "map fst (new_records ns) = map (\<lambda>(v, i, new, vector). i) ns" "map fst (new_owners agent ns) = map fst ns"
  "map fst (new_docs ns) = map fst ns" "map fst (new_vectors ns) = map fst ns"
  by (simp_all add: new_records_def new_owners_def new_docs_def new_vectors_def comp_def case_prod_unfold)

lemma map_of_put_ops:
  "map_of (put_ops agent next ns) (KRecord a j) = (if a = agent then map_option (\<lambda>r. Some (record_bytes r)) (map_of (new_records ns) j) else None)"
  "map_of (put_ops agent next ns) (KVecmap v) = map_option (\<lambda>e. Some (mapping_bytes agent (vm_id e))) (map_of (new_owners agent ns) v)"
  "map_of (put_ops agent next ns) (KExpiry a t j) =
     (if a = agent \<and> (\<exists>v new vector. (v, j, new, vector) \<in> set ns \<and> nm_valid_until new = Some t) then Some (Some []) else None)"
  "map_of (put_ops agent next ns) KMemoryMeta = Some (Some (memory_meta_bytes next))"
  "map_of (put_ops agent next ns) (KAgent a) = (if a = agent then Some (Some []) else None)"
proof -
  have "map_of (concat (map (put_one_ops agent) ns) @ t) (KRecord a j) = (case map_of (new_records ns) j of Some r \<Rightarrow>
      if a = agent then Some (Some (record_bytes r)) else map_of t (KRecord a j) | None \<Rightarrow> map_of t (KRecord a j))" for t
    by (induction ns) (auto simp: put_one_ops_def new_records_def split: option.split)
  note eq = this [of "[(KMemoryMeta, Some (memory_meta_bytes next)), (KAgent agent, Some [])]", folded put_ops_def]
  show "map_of (put_ops agent next ns) (KRecord a j) = (if a = agent then map_option (\<lambda>r. Some (record_bytes r)) (map_of (new_records ns) j) else None)"
    using eq by (simp split: option.split)
  have "map_of (concat (map (put_one_ops agent) ns) @ t) (KVecmap v) = (case map_of (new_owners agent ns) v of Some e \<Rightarrow>
      Some (Some (mapping_bytes agent (vm_id e))) | None \<Rightarrow> map_of t (KVecmap v))" for t
    by (induction ns) (auto simp: put_one_ops_def new_owners_def split: option.split)
  note eq = this [of "[(KMemoryMeta, Some (memory_meta_bytes next)), (KAgent agent, Some [])]", folded put_ops_def]
  show "map_of (put_ops agent next ns) (KVecmap v) = map_option (\<lambda>e. Some (mapping_bytes agent (vm_id e))) (map_of (new_owners agent ns) v)"
    using eq by (simp split: option.split)
  have "map_of (concat (map (put_one_ops agent) ns) @ ts) (KExpiry a t j) =
     (if a = agent \<and> list_ex (\<lambda>(v, i, new, vector). i = j \<and> nm_valid_until new = Some t) ns then Some (Some []) else map_of ts (KExpiry a t j))" for ts
  proof (induction ns)
    case (Cons x ns)
    have "map_of (put_one_ops agent x @ rest) (KExpiry a t j) = (if a = agent \<and> (\<lambda>(v, i, new, vector). i = j \<and> nm_valid_until new = Some t) x
        then Some (Some []) else map_of rest (KExpiry a t j))" for rest
      by (cases x) (auto simp: put_one_ops_def split: option.split)
    then show ?case by (simp only: list.map concat.simps append_assoc Cons list_ex_Cons_iff) auto
  qed simp
  note eq = this [of "[(KMemoryMeta, Some (memory_meta_bytes next)), (KAgent agent, Some [])]", folded put_ops_def]
  have ex: "list_ex (\<lambda>(v, i, new, vector). i = j \<and> nm_valid_until new = Some t) ns
      \<longleftrightarrow> (\<exists>v new vector. (v, j, new, vector) \<in> set ns \<and> nm_valid_until new = Some t)" by (force simp: list_ex_iff)
  show "map_of (put_ops agent next ns) (KExpiry a t j) =
     (if a = agent \<and> (\<exists>v new vector. (v, j, new, vector) \<in> set ns \<and> nm_valid_until new = Some t) then Some (Some []) else None)"
    using eq unfolding ex by simp
  have "map_of (concat (map (put_one_ops agent) ns) @ t) KMemoryMeta = map_of t KMemoryMeta"
    "map_of (concat (map (put_one_ops agent) ns) @ t) (KAgent a) = map_of t (KAgent a)" for t
    by (induction ns) (auto simp: put_one_ops_def split: option.split)
  note eq = this [of "[(KMemoryMeta, Some (memory_meta_bytes next)), (KAgent agent, Some [])]", folded put_ops_def]
  show "map_of (put_ops agent next ns) KMemoryMeta = Some (Some (memory_meta_bytes next))"
    "map_of (put_ops agent next ns) (KAgent a) = (if a = agent then Some (Some []) else None)"
    using eq by simp_all
qed

lemma put_ops_keys:
  assumes "name_fits agent" "\<forall>(v, x) \<in> set ns. item_fits agent x"
  shows "\<forall>oper \<in> set (put_ops agent next ns). op_ok oper" "\<forall>(k, v) \<in> set (put_ops agent next ns). key_ok k \<and> \<not> vector_key k \<and> \<not> fts_key a k"
proof -
  have one: "op_ok oper \<and> \<not> vector_key (fst oper) \<and> \<not> fts_key a (fst oper)" if "oper \<in> set (put_one_ops agent (v, x))" "(v, x) \<in> set ns" for oper v x
  proof -
    obtain i new vector where x: "x = (i, new, vector)" by (cases x)
    have f: "name_fits i" "record_fits (stored_record new v)"
      using assms(2) that(2) record_fits_any [of new v] by (auto simp: x item_fits_def)
    have e: "value_fits (KExpiry agent t i) []" for t by (simp add: value_fits_def)
    show ?thesis using that(1) memory_keys_ok [OF assms(1) f(1)] record_encoded(3) [OF f(2)] mapping_encoded(3) [OF assms(1) f(1)] e
      by (auto simp: x put_one_ops_def op_ok_def split: option.splits)
  qed
  have tail: "value_fits (KAgent agent) []" by (simp add: value_fits_def)
  show all: "\<forall>oper \<in> set (put_ops agent next ns). op_ok oper"
    using one registry_key_ok [OF assms(1)] memory_meta_encoded(3) tail by (fastforce simp: put_ops_def op_ok_def)
  have "\<not> vector_key k \<and> \<not> fts_key a k" if "(k, v) \<in> set (put_ops agent next ns)" for k v
    using that one by (fastforce simp: put_ops_def)
  then show "\<forall>(k, v) \<in> set (put_ops agent next ns). key_ok k \<and> \<not> vector_key k \<and> \<not> fts_key a k"
    using all by (auto simp: op_ok_def)
qed

lemma distinct_put_ops:
  assumes "distinct (map fst ns)" "distinct (map (\<lambda>(v, i, new, vector). i) ns)"
  shows "distinct (map fst (put_ops agent next ns))"
proof -
  have "set (map fst (concat (map (put_one_ops agent) ns))) \<subseteq> {k. \<exists>v i new vector. (v, i, new, vector) \<in> set ns
      \<and> (k = KRecord agent i \<or> k = KVecmap v \<or> (\<exists>t. k = KExpiry agent t i))}" for ns
    by (fastforce simp: put_one_ops_def split: option.splits)
  note keys = this
  have "distinct (map fst (concat (map (put_one_ops agent) ns)))"
    using assms
  proof (induction ns)
    case (Cons x ns)
    obtain v i new vector where x: "x = (v, i, new, vector)" by (cases x)
    have fresh: "v \<notin> fst ` set ns" "\<forall>(w, j, y) \<in> set ns. j \<noteq> i" using Cons.prems by (simp add: x, fastforce simp: x image_iff)
    then have "set (map fst (put_one_ops agent x)) \<inter> set (map fst (concat (map (put_one_ops agent) ns))) = {}"
      using keys [of ns] by (fastforce simp: x put_one_ops_def image_iff split: option.splits)
    moreover have "distinct (map fst (put_one_ops agent x))" by (auto simp: x put_one_ops_def split: option.split)
    ultimately show ?case using Cons by simp
  qed simp
  then show ?thesis using keys [of ns] by (fastforce simp: put_ops_def)
qed

lemma held_distinct_ops:
  assumes "\<forall>(k, v) \<in> set ops. key_ok k" "distinct (map fst ops)" "key_ok k"
  shows "held (apply_keys ops m) k = (case map_of ops k of None \<Rightarrow> held m k | Some v \<Rightarrow> v)"
proof -
  have "map_of (rev ops) = map_of ops" by (rule map_of_rev [OF assms(2)])
  then show ?thesis by (simp add: held_apply_keys [OF assms(1,3)])
qed

text \<open>A map that agrees with \<open>m\<close> on the keys of the memory index.\<close>

definition memory_agrees :: "(bytes \<rightharpoonup> bytes) \<Rightarrow> (bytes \<rightharpoonup> bytes) \<Rightarrow> bool" where
  "memory_agrees m' m \<longleftrightarrow> (\<forall>k. key_ok k \<longrightarrow> \<not> vector_key k \<longrightarrow> (\<forall>a. \<not> fts_key a k) \<longrightarrow> held m' k = held m k)"

lemma put_views:
  assumes "name_fits agent" "\<forall>(v, x) \<in> set ns. item_fits agent x" "distinct (map fst ns)" "distinct (map (\<lambda>(v, i, new, vector). i) ns)"
    and "memory_agrees m' (apply_keys (put_ops agent next ns) m)"
  shows "name_fits a \<Longrightarrow> name_fits j \<Longrightarrow> memories m' a j = (if a = agent then (memories m agent ++ map_of (new_records ns)) j else memories m a j)"
    "owner m' = owner m ++ map_of (new_owners agent ns)"
    "name_fits a \<Longrightarrow> name_fits j \<Longrightarrow> held m' (KExpiry a t j) =
      (if a = agent \<and> (\<exists>v new vector. (v, j, new, vector) \<in> set ns \<and> nm_valid_until new = Some t) then Some [] else held m (KExpiry a t j))"
    "held m' KMemoryMeta = Some (memory_meta_bytes next)"
    "name_fits a \<Longrightarrow> held m' (KAgent a) = (if a = agent then Some [] else held m (KAgent a))"
proof -
  let ?ops = "put_ops agent next ns"
  have keys: "\<forall>(k, v) \<in> set ?ops. key_ok k" using put_ops_keys(2) [OF assms(1,2)] by fast
  have held: "held m' k = (case map_of ?ops k of None \<Rightarrow> held m k | Some v \<Rightarrow> v)"
    if "key_ok k" "\<not> vector_key k" "\<And>a. \<not> fts_key a k" for k
    using assms(5) that held_distinct_ops [OF keys distinct_put_ops [OF assms(3,4)] that(1)] by (simp add: memory_agrees_def)
  show "memories m' a j = (if a = agent then (memories m agent ++ map_of (new_records ns)) j else memories m a j)"
    if n: "name_fits a" "name_fits j" for a j
  proof -
    have h: "held m' (KRecord a j) = (case map_of ?ops (KRecord a j) of None \<Rightarrow> held m (KRecord a j) | Some v \<Rightarrow> v)"
      by (rule held) (use memory_keys_ok n in simp_all)
    show ?thesis
    proof (cases "a = agent \<and> map_of (new_records ns) j \<noteq> None")
      case True
      then obtain r where r: "map_of (new_records ns) j = Some r" "a = agent" by auto
      then have "\<exists>v new vector. (v, j, new, vector) \<in> set ns \<and> r = stored_record new v" using map_of_SomeD [OF r(1)] by (auto simp: new_records_def)
      then have "record_fits r" using assms(2) record_fits_any by (fastforce simp: item_fits_def)
      then show ?thesis using h r record_encoded(2) [of r] by (simp add: memories_def map_of_put_ops)
    next
      case False
      then have "held m' (KRecord a j) = held m (KRecord a j)" using h by (auto simp: map_of_put_ops)
      then show ?thesis using False by (auto simp: memories_def map_add_def)
    qed
  qed
  show "owner m' = owner m ++ map_of (new_owners agent ns)"
  proof
    fix v
    have h: "held m' (KVecmap v) = (case map_of ?ops (KVecmap v) of None \<Rightarrow> held m (KVecmap v) | Some v \<Rightarrow> v)" by (rule held) simp_all
    show "owner m' v = (owner m ++ map_of (new_owners agent ns)) v"
    proof (cases "map_of (new_owners agent ns) v")
      case (Some e)
      then have "\<exists>i new vector. (v, i, new, vector) \<in> set ns \<and> e = \<lparr>vm_agent = agent, vm_id = i\<rparr>"
        using map_of_SomeD [OF Some] by (auto simp: new_owners_def)
      then have "name_fits (vm_id e)" "e = \<lparr>vm_agent = agent, vm_id = vm_id e\<rparr>" using assms(2) by (auto simp: item_fits_def)
      then show ?thesis using h Some mapping_encoded(2) [OF assms(1), of "vm_id e"] by (simp add: owner_def map_of_put_ops)
    qed (use h in \<open>simp add: owner_def map_of_put_ops map_add_def\<close>)
  qed
  show "held m' (KExpiry a t j) =
      (if a = agent \<and> (\<exists>v new vector. (v, j, new, vector) \<in> set ns \<and> nm_valid_until new = Some t) then Some [] else held m (KExpiry a t j))"
    if "name_fits a" "name_fits j" for a j t
  proof -
    have "held m' (KExpiry a t j) = (case map_of ?ops (KExpiry a t j) of None \<Rightarrow> held m (KExpiry a t j) | Some v \<Rightarrow> v)"
      by (rule held) (use memory_keys_ok that in simp_all)
    then show ?thesis unfolding map_of_put_ops by (simp only: if_distrib [of "case_option _ _"] option.case)
  qed
  show "held m' KMemoryMeta = Some (memory_meta_bytes next)" using held [of KMemoryMeta] by (simp add: map_of_put_ops)
  show "held m' (KAgent a) = (if a = agent then Some [] else held m (KAgent a))" if "name_fits a" for a
    using held [of "KAgent a"] registry_key_ok [OF that] by (simp add: map_of_put_ops)
qed

text \<open>The documents of the items.\<close>

lemma new_document:
  assumes "distinct (map fst docs)"
  shows "map_of (indexed_docs U docs) v = (case map_of docs v of None \<Rightarrow> None
    | Some content \<Rightarrow> if from_content U content = [] then None else Some (from_content U content))"
  using assms
proof (induction docs)
  case (Cons x docs)
  obtain w content where x: "x = (w, content)" by (cases x)
  have "map_of docs w = None" using Cons.prems by (simp add: x map_of_eq_None_iff)
  moreover have "indexed_docs U (x # docs) = (if from_content U content = [] then [] else [(w, from_content U content)]) @ indexed_docs U docs"
    by (simp add: indexed_docs_def x)
  ultimately show ?case using Cons by (auto simp: x)
qed (simp add: indexed_docs_def)

text \<open>The entries the full-text index stages.\<close>

lemma doc_entries_own:
  assumes "name_fits agent" "doc_ok d" "r = None \<or> r = Some d \<and> storable d" "oper \<in> set (doc_entries agent i d r)"
  shows "op_ok oper \<and> fts_key agent (fst oper)"
  using assms posting_fits storable_fits [of d agent i]
  by (auto simp: doc_entries_def op_ok_def key_ok_def doc_ok_def split: option.split)

lemma stats_ops_own:
  assumes "name_fits agent" "oper \<in> set (stats_ops agent s any)"
  shows "op_ok oper \<and> fts_key agent (fst oper)"
proof -
  have "encode_fts_stats s = Inr (projr (encode_fts_stats s))" by (simp add: encode_fts_stats_def)
  from stats_fit [OF this] assms show ?thesis by (auto simp: stats_ops_def op_ok_def key_ok_def split: if_splits)
qed

lemma fts_ops_own:
  assumes "name_fits agent"
  shows "\<forall>(i, d) \<in> set ds. storable d \<Longrightarrow> \<forall>oper \<in> set (insert_many_ops agent m ds). op_ok oper \<and> fts_key agent (fst oper)"
    "entries_ok m agent \<Longrightarrow> \<forall>oper \<in> set (delete_many_ops agent m vs). op_ok oper \<and> fts_key agent (fst oper)"
proof -
  show "\<forall>oper \<in> set (insert_many_ops agent m ds). op_ok oper \<and> fts_key agent (fst oper)" if d: "\<forall>(i, d) \<in> set ds. storable d"
  proof
    fix oper assume "oper \<in> set (insert_many_ops agent m ds)"
    then consider i d where "(i, d) \<in> set ds" "oper \<in> set (doc_entries agent i d (Some d))"
      | "oper \<in> set (stats_ops agent (fold (\<lambda>(i, d). count_doc d) ds (stats_of m agent)) (ds \<noteq> []))"
      by (auto simp: insert_many_ops_def ops_doc_entries)
    then show "op_ok oper \<and> fts_key agent (fst oper)"
    proof cases
      case 1
      then have "storable d" "doc_ok d" using d by (auto simp: storable_def)
      then show ?thesis using doc_entries_own [OF assms _ _ 1(2)] by simp
    qed (rule stats_ops_own [OF assms])
  qed
  show "\<forall>oper \<in> set (delete_many_ops agent m vs). op_ok oper \<and> fts_key agent (fst oper)" if e: "entries_ok m agent"
  proof
    fix oper assume "oper \<in> set (delete_many_ops agent m vs)"
    then consider i d where "(i, d) \<in> set (picked (corpus_of m agent) {} vs)" "oper \<in> set (doc_entries agent i d None)"
      | "oper \<in> set (stats_ops agent (fold (\<lambda>(i, d). uncount_doc d) (picked (corpus_of m agent) {} vs) (stats_of m agent)) (picked (corpus_of m agent) {} vs \<noteq> []))"
      by (auto simp: delete_many_ops_def ops_doc_entries Let_def)
    then show "op_ok oper \<and> fts_key agent (fst oper)"
    proof cases
      case 1
      then have "doc_ok d" using e by (auto simp: set_picked entries_ok_def)
      then show ?thesis using doc_entries_own [OF assms _ _ 1(2)] by simp
    qed (rule stats_ops_own [OF assms])
  qed
qed

text \<open>Another agent's index is untouched by the entries of the memory index and of this agent's documents.\<close>

lemma fts_other_agent:
  assumes "name_fits a" "\<And>k. key_ok k \<Longrightarrow> fts_key a k \<Longrightarrow> held m' k = held m k"
  shows "corpus_of m' a = corpus_of m a" "fts_ok m' a = fts_ok m a"
  using fts_frame [OF assms(2,1)] by simp_all

lemma fts_key_unique: "fts_key a k \<Longrightarrow> fts_key b k \<Longrightarrow> a = b"
  by (cases k) auto

lemma fts_after:
  assumes "typed_map m" "\<forall>a. name_fits a \<longrightarrow> fts_ok m a" "name_fits agent" "finite (dom m)"
    and "\<forall>oper \<in> set own. op_ok oper" "\<forall>(k, v) \<in> set own. key_ok k \<and> (\<forall>a. \<not> fts_key a k)"
    and "fops = insert_many_ops agent m ds \<and> (\<forall>(i, d) \<in> set ds. storable d) \<and> distinct (map fst ds)
           \<and> fst ` set ds \<inter> dom (corpus_of m agent) = {} \<and> corpus_fits (corpus_of m agent ++ map_of ds) \<and> C = corpus_of m agent ++ map_of ds
         \<or> fops = delete_many_ops agent m vs \<and> C = corpus_of m agent |` (- set vs)"
    and "\<forall>k. key_ok k \<longrightarrow> \<not> vector_key k \<longrightarrow> held m' k = held (apply_keys (own @ fops) m) k"
  shows "\<forall>a. name_fits a \<longrightarrow> fts_ok m' a" "corpus_of m' agent = C" "\<And>a. name_fits a \<Longrightarrow> a \<noteq> agent \<Longrightarrow> corpus_of m' a = corpus_of m a"
    "memory_agrees m' (apply_keys own m)"
proof -
  define m1 where "m1 = apply_keys own m"
  have t1: "typed_map m1" and f1: "finite (dom m1)" using assms(1,4,5) typed_apply_keys finite_apply_keys by (auto simp: m1_def)
  have same: "held m1 k = held m k" if "key_ok k" "fts_key a k" for k a
    unfolding m1_def using assms(6) that by (intro held_keys_other) auto
  note frame = fts_frame [OF same assms(3)]
  have ok1: "fts_ok m1 agent" using frame(4) assms(2,3) by simp
  have e1: "entries_ok m1 agent" using ok1 by (simp add: fts_ok_def)
  have ops: "fops = insert_many_ops agent m1 ds \<or> fops = delete_many_ops agent m1 vs"
    using assms(7) frame(1,2) by (auto simp: insert_many_ops_def delete_many_ops_def)
  define m2 where "m2 = apply_keys fops m1"
  have "fts_ok m2 agent \<and> corpus_of m2 agent = C \<and> (\<forall>k. key_ok k \<longrightarrow> \<not> fts_key agent k \<longrightarrow> held m2 k = held m1 k)"
    using assms(7)
  proof
    assume i: "fops = insert_many_ops agent m ds \<and> (\<forall>(i, d) \<in> set ds. storable d) \<and> distinct (map fst ds)
           \<and> fst ` set ds \<inter> dom (corpus_of m agent) = {} \<and> corpus_fits (corpus_of m agent ++ map_of ds) \<and> C = corpus_of m agent ++ map_of ds"
    have f: "fops = insert_many_ops agent m1 ds" using i frame(2) by (simp add: insert_many_ops_def)
    show ?thesis using insert_many_correct [OF t1 assms(3) ok1, of ds] i f1 frame(1) unfolding m2_def f Let_def by simp
  next
    assume d: "fops = delete_many_ops agent m vs \<and> C = corpus_of m agent |` (- set vs)"
    have f: "fops = delete_many_ops agent m1 vs" using d frame(1,2) by (simp add: delete_many_ops_def)
    show ?thesis using delete_many_correct [OF t1 assms(3) ok1 f1, of vs] d frame(1) unfolding m2_def f Let_def by simp
  qed
  then have m2: "fts_ok m2 agent" "corpus_of m2 agent = C" "\<And>k. key_ok k \<Longrightarrow> \<not> fts_key agent k \<Longrightarrow> held m2 k = held m1 k" by blast+
  have m': "held m' k = held m2 k" if "key_ok k" "\<not> vector_key k" for k using assms(8) that by (simp add: m2_def m1_def)
  have v: "\<not> vector_key k" if "fts_key a k" for a k using that by (cases k) simp_all
  have "corpus_of m' agent = corpus_of m2 agent" "fts_ok m' agent = fts_ok m2 agent"
    using fts_other_agent [OF assms(3), of m' m2] m' v by blast+
  then have ok: "fts_ok m' agent" and c: "corpus_of m' agent = C" using m2(1,2) by simp_all
  show "corpus_of m' agent = C" by (rule c)
  have other: "held m' k = held m k" if "key_ok k" "fts_key a k" "a \<noteq> agent" for k a
    using m' [OF that(1) v [OF that(2)]] m2(3) [OF that(1)] same [OF that(1,2)] fts_key_unique [OF that(2)] that(3) by auto
  then show "corpus_of m' a = corpus_of m a" if "name_fits a" "a \<noteq> agent" for a
    using fts_other_agent [OF that(1), of m' m] that(2) by blast
  show "\<forall>a. name_fits a \<longrightarrow> fts_ok m' a"
  proof (intro allI impI)
    fix a assume a: "name_fits a"
    show "fts_ok m' a"
    proof (cases "a = agent")
      case False
      then show ?thesis using fts_other_agent(2) [OF a, of m' m] other assms(2) a by blast
    qed (use ok in simp)
  qed
  show "memory_agrees m' (apply_keys own m)"
    unfolding memory_agrees_def m1_def [symmetric] using m' m2(3) by simp
qed

subsection \<open>A put keeps the invariant\<close>

text \<open>What the group must satisfy: names and texts that fit, new ids, and ids and counters that do not wrap.\<close>

definition puts_fit :: "unicode \<Rightarrow> (bytes \<rightharpoonup> bytes) \<Rightarrow> bytes \<Rightarrow> put_item list \<Rightarrow> u64 \<Rightarrow> bool" where
  "puts_fit U m agent items next \<longleftrightarrow> name_fits agent \<and> unicode_chars U
     \<and> (\<forall>(i, new, vector) \<in> set items. item_fits agent (i, new, vector) \<and> (\<exists>v. encode_doc_terms (from_content U (nm_content new)) = Inr v))
     \<and> unat next + length items < 2 ^ 64
     \<and> corpus_fits (corpus_of m agent ++ map_of (indexed_docs U (new_docs (numbered next items))))"

definition put_all_ops :: "unicode \<Rightarrow> (bytes \<rightharpoonup> bytes) \<Rightarrow> bytes \<Rightarrow> put_item list \<Rightarrow> u64 \<Rightarrow> key_op list" where
  "put_all_ops U m agent items next = put_ops agent (next + word_of_nat (length items)) (numbered next items)
     @ insert_many_ops agent m (indexed_docs U (new_docs (numbered next items)))"

lemma numbered_snd: "(v, x) \<in> set (numbered w xs) \<Longrightarrow> x \<in> set xs"
  using length_numbered(2) [of w xs] by (metis image_eqI list.set_map snd_conv)

lemma next_id: "unat next + length items < 2 ^ 64 \<Longrightarrow> unat (next + word_of_nat (length items) :: u64) = unat next + length items"
proof -
  assume "unat next + length items < 2 ^ 64"
  moreover from this have "unat (word_of_nat (length items) :: u64) = length items" by (simp add: unat_of_nat)
  ultimately show ?thesis by (subst unat_add_lem [THEN iffD1]) simp_all
qed

lemma numbered_ids: "map (\<lambda>(v, i, new, vector). i) (numbered w items) = map fst items"
  by (induction items arbitrary: w) auto

lemma put_storable:
  assumes "puts_fit U m agent items next"
  shows "\<forall>(i, d) \<in> set (indexed_docs U (new_docs (numbered next items))). storable d"
proof -
  have "\<forall>(v, content) \<in> set (new_docs (numbered next items)). chars_ok content \<and> (\<exists>v. encode_doc_terms (from_content U content) = Inr v)"
    using assms by (fastforce simp: new_docs_def puts_fit_def item_fits_def dest: numbered_snd)
  then show ?thesis by (rule indexed_storable [rotated]) (use assms in \<open>simp add: puts_fit_def\<close>)
qed

lemma put_companion:
  assumes "puts_fit U m agent items next"
  shows "companion (put_all_ops U m agent items next)"
proof -
  have a: "name_fits agent" and items: "\<forall>(v, x) \<in> set (numbered next items). item_fits agent x"
    using assms by (auto simp: puts_fit_def dest!: numbered_snd)
  have "op_ok oper \<and> \<not> vector_key (fst oper)" if staged: "oper \<in> set (put_all_ops U m agent items next)" for oper
  proof -
    consider "oper \<in> set (put_ops agent (next + word_of_nat (length items)) (numbered next items))"
      | "oper \<in> set (insert_many_ops agent m (indexed_docs U (new_docs (numbered next items))))" using staged unfolding put_all_ops_def set_append by blast
    then show ?thesis
    proof cases
      case 1
      then show ?thesis using bspec [OF put_ops_keys(1) [OF a items] 1] bspec [OF put_ops_keys(2) [OF a items] 1]
        by (simp add: case_prod_beta)
    next
      case 2
      then have "op_ok oper \<and> fts_key agent (fst oper)" using fts_ops_own(1) [OF a put_storable [OF assms]] by blast
      moreover have "\<not> vector_key k" if "fts_key agent k" for k using that by (cases k) simp_all
      ultimately show ?thesis by blast
    qed
  qed
  then show ?thesis by (force simp: companion_def)
qed

lemma put_mem_ok:
  assumes ok: "mem_ok U m next" and fit: "puts_fit U m agent items next" and fin: "finite (dom m)"
    and new: "distinct (map fst items)" "\<forall>(i, x) \<in> set items. memories m agent i = None"
    and m': "\<forall>k. key_ok k \<longrightarrow> \<not> vector_key k \<longrightarrow> held m' k = held (apply_keys (put_all_ops U m agent items next) m) k" "typed_map m'"
      "live_vectors (vector_nodes m') = live_vectors (vector_nodes m) ++ map_of (new_vectors (numbered next items))"
      "tombstones (vector_nodes m') = tombstones (vector_nodes m) - fst ` set (numbered next items)"
  shows "mem_ok U m' (next + word_of_nat (length items))"
    "\<And>j. name_fits j \<Longrightarrow> memories m' agent j = (memories m agent ++ map_of (new_records (numbered next items))) j"
    "\<And>a j. name_fits a \<Longrightarrow> name_fits j \<Longrightarrow> a \<noteq> agent \<Longrightarrow> memories m' a j = memories m a j"
proof -
  define ns where "ns = numbered next items"
  define next' where "next' = next + word_of_nat (length items)"
  let ?ds = "indexed_docs U (new_docs ns)" and ?own = "put_ops agent next' ns"
  have a: "name_fits agent" and wrap: "unat next + length items < 2 ^ 64" and items: "\<forall>(v, x) \<in> set ns. item_fits agent x"
    using fit by (auto simp: puts_fit_def ns_def dest!: numbered_snd)
  have next': "unat next' = unat next + length items" unfolding next'_def by (rule next_id [OF wrap])
  have above: "next \<le> v" "v < next'" if "v \<in> fst ` set ns" for v
    using numbered_bounds(1) [OF wrap] that next' by (auto simp: ns_def word_less_nat_alt)
  have dv: "distinct (map fst ns)" using numbered_bounds(2) [OF wrap] by (simp add: ns_def)
  have di: "distinct (map (\<lambda>(v, i, new, vector). i) ns)" using new(1) by (simp add: ns_def numbered_ids)
  have old: "v < next" if "v \<in> dom (owner m)" for v
    using that mem_okD(5,6) [OF ok] dom_split(1) [of "vector_nodes m"] by blast
  have fresh: "v \<notin> dom (owner m)" "corpus_of m agent v = None" if "v \<in> fst ` set ns" for v
  proof -
    show f: "v \<notin> dom (owner m)" using above(1) [OF that] old [of v] by (meson not_less)
    then show "corpus_of m agent v = None" using mem_okD(8) [OF ok a] by (cases "corpus_of m agent v") blast+
  qed
  have docs: "\<forall>(i, d) \<in> set ?ds. storable d" "distinct (map fst ?ds)" "fst ` set ?ds \<subseteq> fst ` set ns"
  proof -
    show "\<forall>(i, d) \<in> set ?ds. storable d" using put_storable [OF fit] by (simp add: ns_def)
    show "distinct (map fst ?ds)" by (rule fst_indexed(2)) (simp add: dv)
    have "set (map fst (new_docs ns)) = set (map fst ns)" by simp
    then show "fst ` set ?ds \<subseteq> fst ` set ns" using fst_indexed(1) [of U "new_docs ns"] unfolding set_map by simp
  qed
  have C: "fst ` set ?ds \<inter> dom (corpus_of m agent) = {}" using docs(3) fresh(2) by fastforce
  have t: "typed_map m" "\<forall>a. name_fits a \<longrightarrow> fts_ok m a" using mem_okD(1,2) [OF ok] by simp_all
  have own: "\<forall>oper \<in> set ?own. op_ok oper" "\<forall>(k, v) \<in> set ?own. key_ok k \<and> (\<forall>a. \<not> fts_key a k)"
    using put_ops_keys [OF a items] by fastforce+
  have mm: "\<forall>k. key_ok k \<longrightarrow> \<not> vector_key k \<longrightarrow> held m' k = held (apply_keys (?own @ insert_many_ops agent m ?ds) m) k"
    using m'(1) by (simp add: put_all_ops_def ns_def next'_def)
  have grp: "insert_many_ops agent m ?ds = insert_many_ops agent m ?ds \<and> (\<forall>(i, d) \<in> set ?ds. storable d) \<and> distinct (map fst ?ds)
      \<and> fst ` set ?ds \<inter> dom (corpus_of m agent) = {} \<and> corpus_fits (corpus_of m agent ++ map_of ?ds) \<and> corpus_of m agent ++ map_of ?ds = corpus_of m agent ++ map_of ?ds"
    using docs(1,2) C fit by (simp add: puts_fit_def ns_def)
  note fts = fts_after [where vs = "[]", OF t a fin own disjI1 [OF grp] mm]
  note view = put_views [OF a items dv di fts(4)]
  show new_mem: "memories m' agent j = (memories m agent ++ map_of (new_records (numbered next items))) j" if "name_fits j" for j
    using view(1) [OF a that] by (simp add: ns_def)
  show other_mem: "memories m' b j = memories m b j" if "name_fits b" "name_fits j" "b \<noteq> agent" for b j
    using view(1) that by simp
  have recs: "\<exists>v new vector. (v, j, new, vector) \<in> set ns \<and> r = stored_record new v" if "map_of (new_records ns) j = Some r" for j r
    using map_of_SomeD [OF that] by (auto simp: new_records_def)
  have rec_of: "map_of (new_records ns) i = Some (stored_record new v)" if "(v, i, new, vector) \<in> set ns" for v i new vector
    by (rule map_of_is_SomeI, simp add: di) (use that in \<open>force simp: new_records_def\<close>)
  have own_of: "map_of (new_owners agent ns) v = Some \<lparr>vm_agent = agent, vm_id = i\<rparr>" if "(v, i, new, vector) \<in> set ns" for v i new vector
    by (rule map_of_is_SomeI, simp add: dv) (use that in \<open>force simp: new_owners_def\<close>)
  have doc_of: "map_of ?ds v = (if from_content U (nm_content new) = [] then None else Some (from_content U (nm_content new)))"
    if "(v, i, new, vector) \<in> set ns" for v i new vector
  proof -
    have "map_of (new_docs ns) v = Some (nm_content new)"
      by (rule map_of_is_SomeI, simp add: dv) (use that in \<open>force simp: new_docs_def\<close>)
    then show ?thesis using new_document [of "new_docs ns" U v] dv by simp
  qed
  have free: "memories m agent i = None" if "(v, i, new, vector) \<in> set ns" for v i new vector
    using numbered_snd [of v "(i, new, vector)" "next" items] that new(2) by (auto simp: ns_def)
  have unowned: "map_of (new_owners agent ns) v = None" "map_of ?ds v = None" if "v \<notin> fst ` set ns" for v
    using that docs(3) by (force simp: map_of_eq_None_iff new_owners_def)+
  have ids: "v \<in> fst ` set ns" if "map_of (new_owners agent ns) v = Some e" for v e
    using map_of_SomeD [OF that] by (force simp: new_owners_def)
  have doms: "dom (map_of (new_owners agent ns)) = fst ` set ns" "dom (map_of (new_vectors ns)) = fst ` set ns"
    by (simp_all only: dom_map_of_conv_image_fst list.set_map [symmetric] new_lists)
  have later: "next \<le> next'" by (simp add: word_le_nat_alt next')
  have linked: "memory_linked U m' b j r" if "name_fits b" "name_fits j" "memories m' b j = Some r" for b j r
  proof (cases "b = agent \<and> map_of (new_records ns) j = Some r")
    case True
    then obtain v nw vector where v: "(v, j, nw, vector) \<in> set ns" "r = stored_record nw v" using recs by blast
    have vid: "mr_vec_id r = v" "mr_content r = utf8 (nm_content nw)" by (simp_all add: v(2) stored_record_def)
    have "v \<in> fst ` set ns" using v(1) by force
    then have "corpus_of m agent v = None" by (rule fresh(2))
    then have "corpus_of m' agent v = (if from_content U (nm_content nw) = [] then None else Some (from_content U (nm_content nw)))"
      unfolding fts(2) map_add_def doc_of [OF v(1)] by simp
    moreover have "chars_ok (nm_content nw)" using items v(1) by (auto simp: item_fits_def)
    ultimately show ?thesis using True own_of [OF v(1)] view(5) [OF a]
      by (auto simp: memory_linked_def vid view(2) document_def)
  next
    case False
    have m: "memories m b j = Some r"
      using that(3) new_mem [of j] other_mem [of b j] that(1,2) False by (cases "b = agent") (auto simp: map_add_Some_iff ns_def)
    note l = mem_okD(3) [OF ok that(1,2) m]
    have "mr_vec_id r \<in> dom (owner m)" using l by (auto simp: memory_linked_def)
    then have n: "mr_vec_id r \<notin> fst ` set ns" using fresh(1) by blast
    have "corpus_of m' b (mr_vec_id r) = corpus_of m b (mr_vec_id r)"
      using fts(3) [OF that(1)] unowned(2) [OF n] fts(2) by (cases "b = agent") (simp_all add: map_add_def)
    then show ?thesis using l unowned(1) [OF n] view(5) [OF that(1)] by (simp add: memory_linked_def view(2) map_add_def)
  qed
  show "mem_ok U m' (next + word_of_nat (length items))"
    unfolding mem_ok_def next'_def [symmetric]
  proof (intro conjI allI impI ballI)
    show "typed_map m'" by (rule m'(2))
    show "fts_ok m' b" if "name_fits b" for b using fts(1) that by blast
    show "memory_linked U m' b j r" if "name_fits b" "name_fits j" "memories m' b j = Some r" for b j r by (rule linked [OF that])
    show "dom (owner m') = dom (live_vectors (vector_nodes m'))"
      unfolding view(2) m'(3) dom_map_add mem_okD(5) [OF ok] ns_def [symmetric] doms ..
    show "case held m' KMemoryMeta of None \<Rightarrow> next' = 0 | Some b \<Rightarrow> decode_memory_meta b = Inr \<lparr>mm_next_vec_id = next'\<rparr>"
      by (simp add: view(4) memory_meta_encoded)
    show "v < next'" if "v \<in> dom (vector_nodes m')" for v
    proof (cases "v \<in> fst ` set ns")
      case False
      have "v \<in> dom (live_vectors (vector_nodes m)) \<union> tombstones (vector_nodes m)"
        using that False dom_split(1) [of "vector_nodes m'"] unfolding m'(3,4) ns_def [symmetric] dom_map_add doms by blast
      then have "v < next" using mem_okD(6) [OF ok] dom_split(1) [of "vector_nodes m"] by blast
      then show ?thesis using later by simp
    qed (rule above(2))
    show "held m' (KExpiry b t j) = (if \<exists>r. memories m' b j = Some r \<and> mr_valid_until r = Some t then Some [] else None)"
      if "name_fits b" "name_fits j" for b t j
    proof (cases "b = agent \<and> map_of (new_records ns) j \<noteq> None")
      case True
      then obtain r where r: "map_of (new_records ns) j = Some r" "b = agent" by auto
      then obtain v nw vector where v: "(v, j, nw, vector) \<in> set ns" "r = stored_record nw v" using recs by blast
      have "nm_valid_until nw' = nm_valid_until nw" if "(v', j, nw', vector') \<in> set ns" for v' nw' vector'
        using rec_of [OF that] rec_of [OF v(1)] by (auto simp: stored_record_def)
      then have due: "b = agent \<and> (\<exists>v new vector. (v, j, new, vector) \<in> set ns \<and> nm_valid_until new = Some t) \<longleftrightarrow> nm_valid_until nw = Some t"
        using v(1) r(2) by metis
      have now: "memories m' b j = Some r" "mr_valid_until r = nm_valid_until nw"
        using new_mem [OF that(2)] r by (simp_all add: v(2) ns_def stored_record_def)
      have "held m (KExpiry b t j) = None" using mem_okD(7) [OF ok that, of t] free [OF v(1)] r(2) by simp
      then show ?thesis using view(3) [OF that, of t] now unfolding due by simp
    next
      case False
      then have "memories m' b j = memories m b j" using new_mem [of j] other_mem [of b j] that by (cases "b = agent") (auto simp: map_add_def ns_def)
      moreover have "\<not> (b = agent \<and> (\<exists>v new vector. (v, j, new, vector) \<in> set ns \<and> nm_valid_until new = Some t))" using False rec_of by fastforce
      ultimately show ?thesis using view(3) [OF that, of t] mem_okD(7) [OF ok that] by (simp only: if_False)
    qed
    show "\<exists>i. owner m' v = Some \<lparr>vm_agent = b, vm_id = i\<rparr>" if nb: "name_fits b" and "corpus_of m' b v = Some d" for b v d
    proof (cases "corpus_of m b v")
      case None
      then have "b = agent" "map_of ?ds v = Some d" using that fts(2,3) by (cases "b = agent"; auto simp: map_add_Some_iff)+
      then have "v \<in> fst ` set ns" using docs(3) map_of_SomeD [of ?ds v d] by force
      then obtain x where "(v, x) \<in> set ns" by auto
      then show ?thesis using own_of \<open>b = agent\<close> by (cases x) (auto simp: view(2))
    next
      case (Some d')
      then obtain i where i: "owner m v = Some \<lparr>vm_agent = b, vm_id = i\<rparr>" using mem_okD(8) [OF ok nb] Some by blast
      then have "v \<notin> fst ` set ns" using fresh(1) by blast
      then show ?thesis using i unowned(1) by (simp add: view(2) map_add_def)
    qed
    fix v e assume e: "owner m' v = Some e"
    have "name_fits (vm_agent e) \<and> name_fits (vm_id e) \<and> (\<exists>r. memories m' (vm_agent e) (vm_id e) = Some r \<and> mr_vec_id r = v)"
    proof (cases "map_of (new_owners agent ns) v")
      case (Some e')
      then obtain x where x: "(v, x) \<in> set ns" using ids by force
      obtain i nw vector where xx: "x = (i, nw, vector)" by (cases x)
      have ee: "e = \<lparr>vm_agent = agent, vm_id = i\<rparr>" using e own_of [OF x [unfolded xx]] by (simp add: view(2))
      have "name_fits i" using items x by (auto simp: xx item_fits_def)
      then show ?thesis using a new_mem [of i] rec_of [OF x [unfolded xx]] by (simp add: ee ns_def stored_record_def)
    next
      case None
      then have "owner m v = Some e" using e by (simp add: view(2) map_add_def)
      note w = mem_okD(4) [OF ok this]
      then obtain r where r: "memories m (vm_agent e) (vm_id e) = Some r" "mr_vec_id r = v" by blast
      have "\<not> (vm_agent e = agent \<and> map_of (new_records ns) (vm_id e) \<noteq> None)" using r(1) recs free by fastforce
      then have "memories m' (vm_agent e) (vm_id e) = Some r"
        using r(1) new_mem [of "vm_id e"] other_mem [of "vm_agent e" "vm_id e"] w by (cases "vm_agent e = agent") (auto simp: map_add_def ns_def)
      then show ?thesis using w r(2) by blast
    qed
    then show "name_fits (vm_agent e)" "name_fits (vm_id e)" "\<exists>r. memories m' (vm_agent e) (vm_id e) = Some r \<and> mr_vec_id r = v" by blast+
  qed
qed

subsection \<open>Forgetting keeps the invariant\<close>

definition forget_ops :: "bytes \<Rightarrow> forget_item list \<Rightarrow> key_op list" where
  "forget_ops agent chunk = concat (map (\<lambda>(i, v, valid_until).
     [(KRecord agent i, None), (KVecmap v, None)] @ (case valid_until of None \<Rightarrow> [] | Some t \<Rightarrow> [(KExpiry agent t i, None)])) chunk)"

definition forget_all_ops :: "(bytes \<rightharpoonup> bytes) \<Rightarrow> bytes \<Rightarrow> forget_item list \<Rightarrow> key_op list" where
  "forget_all_ops m agent chunk = forget_ops agent chunk @ delete_many_ops agent m (map (\<lambda>(i, v, valid_until). v) chunk)"

text \<open>The items of a chunk are memories of the agent.\<close>

definition stored_chunk :: "(bytes \<rightharpoonup> bytes) \<Rightarrow> bytes \<Rightarrow> forget_item list \<Rightarrow> bool" where
  "stored_chunk m agent chunk \<longleftrightarrow> (\<forall>(i, v, valid_until) \<in> set chunk. name_fits i
     \<and> (\<exists>r. memories m agent i = Some r \<and> mr_vec_id r = v \<and> mr_valid_until r = valid_until))"

lemma held_deletes:
  assumes "\<forall>(k, v) \<in> set ops. key_ok k \<and> v = None" "key_ok k"
  shows "held (apply_keys ops m) k = (if k \<in> fst ` set ops then None else held m k)"
proof -
  have keys: "\<forall>(k, v) \<in> set ops. key_ok k" using assms(1) by auto
  show ?thesis
  proof (cases "map_of (rev ops) k")
    case None
    then have "k \<notin> fst ` set ops" by (simp add: map_of_eq_None_iff)
    then show ?thesis using None by (simp add: held_apply_keys [OF keys assms(2)])
  next
    case (Some v)
    then have "(k, v) \<in> set ops" using map_of_SomeD by fastforce
    then show ?thesis using Some assms(1) by (force simp: held_apply_keys [OF keys assms(2)])
  qed
qed

lemma forget_ops_keys:
  assumes "name_fits agent" "stored_chunk m agent chunk"
  shows "\<forall>(k, v) \<in> set (forget_ops agent chunk). key_ok k \<and> v = None \<and> \<not> vector_key k \<and> \<not> fts_key a k"
    "KRecord b j \<in> fst ` set (forget_ops agent chunk) \<longleftrightarrow> b = agent \<and> j \<in> fst ` set chunk"
    "KVecmap v \<in> fst ` set (forget_ops agent chunk) \<longleftrightarrow> v \<in> set (map (\<lambda>(i, v, valid_until). v) chunk)"
    "KExpiry b t j \<in> fst ` set (forget_ops agent chunk) \<longleftrightarrow> b = agent \<and> (\<exists>v. (j, v, Some t) \<in> set chunk)"
    "KMemoryMeta \<notin> fst ` set (forget_ops agent chunk)" "KAgent b \<notin> fst ` set (forget_ops agent chunk)"
proof -
  show "\<forall>(k, v) \<in> set (forget_ops agent chunk). key_ok k \<and> v = None \<and> \<not> vector_key k \<and> \<not> fts_key a k"
    using assms memory_keys_ok [OF assms(1)] by (fastforce simp: forget_ops_def stored_chunk_def split: option.splits)
  define F where "F = (\<lambda>(i, v, valid_until). [(KRecord agent i, None), (KVecmap v, None)]
      @ (case valid_until of None \<Rightarrow> [] | Some t \<Rightarrow> [(KExpiry agent t i, None :: bytes option)]))"
  have "forget_ops agent chunk = concat (map F chunk)" by (simp add: forget_ops_def F_def)
  then have "x \<in> fst ` set (forget_ops agent chunk) \<longleftrightarrow> (\<exists>y \<in> set chunk. x \<in> fst ` set (F y))" for x by auto
  moreover have "x \<in> fst ` set (F (i, v, u)) \<longleftrightarrow> x = KRecord agent i \<or> x = KVecmap v \<or> (\<exists>t. u = Some t \<and> x = KExpiry agent t i)" for x i v u
    by (cases u) (simp_all add: F_def)
  moreover have "(\<exists>y \<in> set chunk. Q y) \<longleftrightarrow> (\<exists>i v u. (i, v, u) \<in> set chunk \<and> Q (i, v, u))" for Q by force
  ultimately have mem: "x \<in> fst ` set (forget_ops agent chunk) \<longleftrightarrow>
      (\<exists>i v u. (i, v, u) \<in> set chunk \<and> (x = KRecord agent i \<or> x = KVecmap v \<or> (\<exists>t. u = Some t \<and> x = KExpiry agent t i)))" for x
    by simp
  show "KRecord b j \<in> fst ` set (forget_ops agent chunk) \<longleftrightarrow> b = agent \<and> j \<in> fst ` set chunk"
    "KVecmap v \<in> fst ` set (forget_ops agent chunk) \<longleftrightarrow> v \<in> set (map (\<lambda>(i, v, valid_until). v) chunk)"
    "KExpiry b t j \<in> fst ` set (forget_ops agent chunk) \<longleftrightarrow> b = agent \<and> (\<exists>v. (j, v, Some t) \<in> set chunk)"
    "KMemoryMeta \<notin> fst ` set (forget_ops agent chunk)" "KAgent b \<notin> fst ` set (forget_ops agent chunk)"
    unfolding mem by force+
qed

lemma forget_companion:
  assumes "mem_ok U m next" "name_fits agent" "stored_chunk m agent chunk"
  shows "companion (forget_all_ops m agent chunk)"
proof -
  have "entries_ok m agent" using mem_okD(2) [OF assms(1,2)] by (simp add: fts_ok_def)
  note fts = fts_ops_own(2) [OF assms(2) this]
  have v: "\<not> vector_key k" if "fts_key agent k" for k using that by (cases k) simp_all
  have "op_ok oper \<and> \<not> vector_key (fst oper)" if staged: "oper \<in> set (forget_all_ops m agent chunk)" for oper
  proof -
    consider "oper \<in> set (forget_ops agent chunk)" | "oper \<in> set (delete_many_ops agent m (map (\<lambda>(i, v, valid_until). v) chunk))"
      using staged unfolding forget_all_ops_def set_append by blast
    then show ?thesis
    proof cases
      case 1
      then show ?thesis using bspec [OF forget_ops_keys(1) [OF assms(2,3), of agent] 1] by (auto simp: op_ok_def)
    next
      case 2
      then show ?thesis using fts v by blast
    qed
  qed
  then show ?thesis by (force simp: companion_def)
qed

lemma forget_mem_ok:
  assumes ok: "mem_ok U m next" and a: "name_fits agent" and fin: "finite (dom m)" and chunk: "stored_chunk m agent chunk"
    and vs: "vs = map (\<lambda>(i, v, valid_until). v) chunk"
    and m': "\<forall>k. key_ok k \<longrightarrow> \<not> vector_key k \<longrightarrow> held m' k = held (apply_keys (forget_all_ops m agent chunk) m) k" "typed_map m'"
      "live_vectors (vector_nodes m') = live_vectors (vector_nodes m) |` (- set vs)"
      "tombstones (vector_nodes m') = tombstones (vector_nodes m) \<union> set vs \<inter> dom (live_vectors (vector_nodes m))"
  shows "mem_ok U m' next"
    "\<And>b j. name_fits b \<Longrightarrow> name_fits j \<Longrightarrow> memories m' b j = (if b = agent \<and> j \<in> fst ` set chunk then None else memories m b j)"
proof -
  let ?own = "forget_ops agent chunk"
  have t: "typed_map m" "\<forall>a. name_fits a \<longrightarrow> fts_ok m a" using mem_okD(1,2) [OF ok] by simp_all
  note keys = forget_ops_keys [OF a chunk]
  have own: "\<forall>oper \<in> set ?own. op_ok oper" "\<forall>(k, v) \<in> set ?own. key_ok k \<and> (\<forall>a. \<not> fts_key a k)"
    using keys(1) by (fastforce simp: op_ok_def)+
  have dels: "\<forall>(k, v) \<in> set ?own. key_ok k \<and> v = None" using keys(1) by fastforce
  have grp: "delete_many_ops agent m vs = delete_many_ops agent m vs \<and> corpus_of m agent |` (- set vs) = corpus_of m agent |` (- set vs)" by simp
  note fts = fts_after [where ds = "[]", OF t a fin own disjI2 [OF grp] m'(1) [unfolded forget_all_ops_def vs [symmetric]]]
  have held: "held m' k = (if k \<in> fst ` set ?own then None else held m k)" if "key_ok k" "\<not> vector_key k" "\<And>a. \<not> fts_key a k" for k
    using fts(4) that held_deletes [OF dels that(1)] by (simp add: memory_agrees_def)
  show mem: "memories m' b j = (if b = agent \<and> j \<in> fst ` set chunk then None else memories m b j)" if "name_fits b" "name_fits j" for b j
    using held [of "KRecord b j"] memory_keys_ok [OF that] by (simp add: memories_def keys(2))
  have own': "owner m' v = (if v \<in> set vs then None else owner m v)" for v
    using held [of "KVecmap v"] by (simp add: owner_def keys(3) vs)
  have exp: "held m' (KExpiry b t j) = (if b = agent \<and> (\<exists>v. (j, v, Some t) \<in> set chunk) then None else held m (KExpiry b t j))"
    if "name_fits b" "name_fits j" for b t j
    using held [of "KExpiry b t j"] memory_keys_ok [OF that] by (simp add: keys(4))
  have reg: "held m' (KAgent b) = held m (KAgent b)" if "name_fits b" for b
    using held [of "KAgent b"] registry_key_ok [OF that] by (simp add: keys(6))
  have meta: "held m' KMemoryMeta = held m KMemoryMeta" using held [of KMemoryMeta] by (simp add: keys(5))
  have owned: "\<exists>i. owner m v = Some \<lparr>vm_agent = agent, vm_id = i\<rparr> \<and> i \<in> fst ` set chunk" if dead: "v \<in> set vs" for v
  proof -
    obtain i u where i: "(i, v, u) \<in> set chunk" using dead by (auto simp: vs)
    then obtain r where r: "name_fits i" "memories m agent i = Some r" "mr_vec_id r = v" using chunk by (auto simp: stored_chunk_def)
    then show ?thesis using mem_okD(3) [OF ok a r(1,2)] i by (force simp: memory_linked_def)
  qed
  show "mem_ok U m' next"
    unfolding mem_ok_def
  proof (intro conjI allI impI ballI)
    show "typed_map m'" by (rule m'(2))
    show "fts_ok m' b" if "name_fits b" for b using fts(1) that by blast
    show "memory_linked U m' b j r" if b: "name_fits b" and j: "name_fits j" and r: "memories m' b j = Some r" for b j r
    proof -
      have old: "memories m b j = Some r" "\<not> (b = agent \<and> j \<in> fst ` set chunk)" using r mem [OF b j] by (auto split: if_splits)
      note l = mem_okD(3) [OF ok b j old(1)]
      have live: "mr_vec_id r \<notin> set vs" using owned [of "mr_vec_id r"] l old(2) by (auto simp: memory_linked_def)
      then have "corpus_of m' b (mr_vec_id r) = corpus_of m b (mr_vec_id r)"
        using fts(2) fts(3) [OF b] by (cases "b = agent") (simp_all add: restrict_map_def)
      then show ?thesis using l live reg [OF b] by (simp add: memory_linked_def own')
    qed
    have "dom (owner m') = dom (owner m) - set vs" by (auto simp: own' split: if_splits)
    then show "dom (owner m') = dom (live_vectors (vector_nodes m'))" unfolding m'(3) dom_restrict mem_okD(5) [OF ok] by blast
    show "v < next" if v: "v \<in> dom (vector_nodes m')" for v
    proof -
      have "v \<in> dom (live_vectors (vector_nodes m)) \<union> tombstones (vector_nodes m)"
        using v dom_split(1) [of "vector_nodes m'"] unfolding m'(3,4) dom_restrict by blast
      then show ?thesis using mem_okD(6) [OF ok] dom_split(1) [of "vector_nodes m"] by blast
    qed
    show "held m' (KExpiry b t j) = (if \<exists>r. memories m' b j = Some r \<and> mr_valid_until r = Some t then Some [] else None)"
      if n: "name_fits b" "name_fits j" for b t j
    proof (cases "b = agent \<and> j \<in> fst ` set chunk")
      case True
      then obtain v u where c: "(j, v, u) \<in> set chunk" by force
      then obtain r where r: "memories m agent j = Some r" "mr_valid_until r = u" using chunk by (auto simp: stored_chunk_def)
      have "held m' (KExpiry b t j) = None"
        using exp [OF n, of t] mem_okD(7) [OF ok n, of t] r c True by (auto split: if_splits)
      moreover have "memories m' b j = None" using True unfolding mem [OF n] by simp
      ultimately show ?thesis by simp
    next
      case False
      then have "\<not> (b = agent \<and> (\<exists>v. (j, v, Some t) \<in> set chunk))" by force
      then have "held m' (KExpiry b t j) = held m (KExpiry b t j)" unfolding exp [OF n] by (rule if_not_P)
      moreover have "memories m' b j = memories m b j" unfolding mem [OF n] by (rule if_not_P [OF False])
      ultimately show ?thesis using mem_okD(7) [OF ok n, of t] by (simp only:)
    qed
    show "\<exists>i. owner m' v = Some \<lparr>vm_agent = b, vm_id = i\<rparr>" if n: "name_fits b" and c: "corpus_of m' b v = Some d" for b v d
    proof (cases "b = agent")
      case True
      then have "v \<notin> set vs" "corpus_of m agent v = Some d" using c fts(2) by (auto simp: restrict_map_def split: if_splits)
      then show ?thesis using mem_okD(8) [OF ok a] True by (simp add: own')
    next
      case False
      then have "corpus_of m b v = Some d" using c fts(3) [OF n] by simp
      then obtain i where i: "owner m v = Some \<lparr>vm_agent = b, vm_id = i\<rparr>" using mem_okD(8) [OF ok n] by blast
      then have "v \<notin> set vs" using owned [of v] False by auto
      then show ?thesis using i by (simp add: own')
    qed
    show "case held m' KMemoryMeta of None \<Rightarrow> next = 0 | Some b \<Rightarrow> decode_memory_meta b = Inr \<lparr>mm_next_vec_id = next\<rparr>"
      unfolding meta by (rule mem_okD(9) [OF ok])
    fix v e assume "owner m' v = Some e"
    then have o: "owner m v = Some e" "v \<notin> set vs" by (auto simp: own' split: if_splits)
    note w = mem_okD(4) [OF ok o(1)]
    then obtain r where r: "memories m (vm_agent e) (vm_id e) = Some r" "mr_vec_id r = v" by blast
    have "\<not> (vm_agent e = agent \<and> vm_id e \<in> fst ` set chunk)"
    proof
      assume d: "vm_agent e = agent \<and> vm_id e \<in> fst ` set chunk"
      then obtain w u where c: "(vm_id e, w, u) \<in> set chunk" by force
      then have "w = v" using chunk r d by (auto simp: stored_chunk_def)
      then show False using c o(2) by (force simp: vs)
    qed
    then have "memories m' (vm_agent e) (vm_id e) = Some r" using r(1) w by (simp add: mem)
    then show "name_fits (vm_agent e)" "name_fits (vm_id e)" "\<exists>r. memories m' (vm_agent e) (vm_id e) = Some r \<and> mr_vec_id r = v"
      using w r(2) by blast+
  qed
qed

subsection \<open>Rewriting records keeps the invariant\<close>

text \<open>The keys a rewrite of an agent's records may touch.\<close>

fun rewrite_key :: "bytes \<Rightarrow> logical_key \<Rightarrow> bool" where
  "rewrite_key agent (KRecord a i) \<longleftrightarrow> a = agent"
| "rewrite_key agent (KExpiry a t i) \<longleftrightarrow> a = agent"
| "rewrite_key agent _ \<longleftrightarrow> False"

definition amends :: "(bytes \<rightharpoonup> bytes) \<Rightarrow> bytes \<Rightarrow> (bytes \<rightharpoonup> bytes) \<Rightarrow> bool" where
  "amends m agent m' \<longleftrightarrow> typed_map m' \<and> (\<forall>k. key_ok k \<longrightarrow> \<not> rewrite_key agent k \<longrightarrow> held m' k = held m k)
     \<and> (\<forall>i. name_fits i \<longrightarrow> (case memories m agent i of
          None \<Rightarrow> memories m' agent i = None
        | Some r \<Rightarrow> \<exists>r'. memories m' agent i = Some r' \<and> mr_vec_id r' = mr_vec_id r \<and> mr_content r' = mr_content r))
     \<and> (\<forall>t i. name_fits i \<longrightarrow> held m' (KExpiry agent t i) = (if \<exists>r. memories m' agent i = Some r \<and> mr_valid_until r = Some t then Some [] else None))"

lemma amends_frame:
  assumes "amends m agent m'"
  shows "owner m' = owner m" "vector_nodes m' = vector_nodes m" "held m' KMemoryMeta = held m KMemoryMeta"
    "name_fits b \<Longrightarrow> corpus_of m' b = corpus_of m b" "name_fits b \<Longrightarrow> fts_ok m' b = fts_ok m b" "name_fits b \<Longrightarrow> held m' (KAgent b) = held m (KAgent b)"
    "name_fits b \<Longrightarrow> name_fits i \<Longrightarrow> b \<noteq> agent \<Longrightarrow> memories m' b i = memories m b i \<and> held m' (KExpiry b t i) = held m (KExpiry b t i)"
    "held m' KVectorMeta = held m KVectorMeta"
proof -
  have same: "held m' k = held m k" if "key_ok k" "\<not> rewrite_key agent k" for k using assms that by (simp add: amends_def)
  show "owner m' = owner m" using same by (simp add: fun_eq_iff owner_def)
  have v: "\<not> rewrite_key agent k" if "vector_key k" for k using that by (cases k) simp_all
  show "vector_nodes m' = vector_nodes m" "held m' KVectorMeta = held m KVectorMeta" using vector_frame [of m' m] same v by blast+
  show "held m' KMemoryMeta = held m KMemoryMeta" using same by simp
  have f: "\<not> rewrite_key agent k" if "fts_key b k" for b k using that by (cases k) simp_all
  show "corpus_of m' b = corpus_of m b" "fts_ok m' b = fts_ok m b" if "name_fits b" for b
    using fts_other_agent [OF that, of m' m] same f by blast+
  show "held m' (KAgent b) = held m (KAgent b)" if "name_fits b" using same registry_key_ok [OF that] by simp
  show "memories m' b i = memories m b i \<and> held m' (KExpiry b t i) = held m (KExpiry b t i)" if "name_fits b" "name_fits i" "b \<noteq> agent"
    using same memory_keys_ok [OF that(1,2)] that(3) by (simp add: memories_def)
qed

lemma rewrite_mem_ok:
  assumes ok: "mem_ok U m next" and a: "name_fits agent" and re: "amends m agent m'"
  shows "mem_ok U m' next"
proof -
  note same = amends_frame [OF re]
  have mine: "case memories m agent i of
          None \<Rightarrow> memories m' agent i = None
        | Some r \<Rightarrow> \<exists>r'. memories m' agent i = Some r' \<and> mr_vec_id r' = mr_vec_id r \<and> mr_content r' = mr_content r" if "name_fits i" for i
    using re that by (simp add: amends_def)
  have kept: "\<exists>r. memories m b i = Some r \<and> mr_vec_id r' = mr_vec_id r \<and> mr_content r' = mr_content r"
    if n: "name_fits b" "name_fits i" and r: "memories m' b i = Some r'" for b i r'
    using mine [OF n(2)] same(7) [OF n] r by (cases "b = agent"; cases "memories m b i") auto
  have still: "\<exists>r'. memories m' b i = Some r' \<and> mr_vec_id r' = mr_vec_id r"
    if n: "name_fits b" "name_fits i" and r: "memories m b i = Some r" for b i r
    using mine [OF n(2)] same(7) [OF n] r by (cases "b = agent") auto
  show ?thesis
    unfolding mem_ok_def same(1,2,3)
  proof (intro conjI allI impI ballI)
    show "typed_map m'" using re by (simp add: amends_def)
    show "fts_ok m' b" if "name_fits b" for b using mem_okD(2) [OF ok that] same(5) [OF that] by simp
    show "memory_linked U m' b j r" if n: "name_fits b" "name_fits j" and r: "memories m' b j = Some r" for b j r
    proof -
      obtain r0 where r0: "memories m b j = Some r0" "mr_vec_id r = mr_vec_id r0" "mr_content r = mr_content r0" using kept [OF n r] by blast
      then show ?thesis using mem_okD(3) [OF ok n r0(1)] same(4,6) [OF n(1)] by (simp add: memory_linked_def same(1))
    qed
    show "dom (owner m) = dom (live_vectors (vector_nodes m))" by (rule mem_okD(5) [OF ok])
    show "v < next" if "v \<in> dom (vector_nodes m)" for v using mem_okD(6) [OF ok that] .
    show "held m' (KExpiry b t j) = (if \<exists>r. memories m' b j = Some r \<and> mr_valid_until r = Some t then Some [] else None)"
      if n: "name_fits b" "name_fits j" for b t j
    proof (cases "b = agent")
      case True
      then show ?thesis using re n(2) by (simp add: amends_def)
    next
      case False
      then show ?thesis using mem_okD(7) [OF ok n, of t] same(7) [OF n False, of t] by (simp only:)
    qed
    show "\<exists>i. owner m v = Some \<lparr>vm_agent = b, vm_id = i\<rparr>" if n: "name_fits b" and c: "corpus_of m' b v = Some d" for b v d
      using mem_okD(8) [OF ok n] c same(4) [OF n] by simp
    show "case held m KMemoryMeta of None \<Rightarrow> next = 0 | Some b \<Rightarrow> decode_memory_meta b = Inr \<lparr>mm_next_vec_id = next\<rparr>" by (rule mem_okD(9) [OF ok])
    fix v e assume "owner m v = Some e"
    note w = mem_okD(4) [OF ok this]
    then show "name_fits (vm_agent e)" "name_fits (vm_id e)" by simp_all
    obtain r where "memories m (vm_agent e) (vm_id e) = Some r" "mr_vec_id r = v" using w by blast
    then show "\<exists>r. memories m' (vm_agent e) (vm_id e) = Some r \<and> mr_vec_id r = v" using still [of "vm_agent e" "vm_id e" r] w by fastforce
  qed
qed

text \<open>The rewrite of one record and its expiry entry.\<close>

definition expiry_ops :: "bytes \<Rightarrow> bytes \<Rightarrow> i64 option \<Rightarrow> bytes option \<Rightarrow> key_op list" where
  "expiry_ops agent i valid_until v = (case valid_until of None \<Rightarrow> [] | Some t \<Rightarrow> [(KExpiry agent t i, v)])"

definition update_ops :: "bytes \<Rightarrow> bytes \<Rightarrow> i64 option \<Rightarrow> memory_record \<Rightarrow> key_op list" where
  "update_ops agent i previous r = (KRecord agent i, Some (record_bytes r))
     # (if previous \<noteq> mr_valid_until r then expiry_ops agent i previous None @ expiry_ops agent i (mr_valid_until r) (Some []) else [])"

lemma update_amends:
  assumes ok: "mem_ok U m next" and n: "name_fits agent" "name_fits i" and old: "memories m agent i = Some r0"
    and r: "record_fits r" "mr_vec_id r = mr_vec_id r0" "mr_content r = mr_content r0"
    and m': "m' = apply_keys (update_ops agent i (mr_valid_until r0) r) m"
  shows "amends m agent m'" "name_fits j \<Longrightarrow> memories m' agent j = (if j = i then Some r else memories m agent j)"
proof -
  let ?ops = "update_ops agent i (mr_valid_until r0) r"
  have opsok: "\<forall>oper \<in> set ?ops. op_ok oper"
    using memory_keys_ok [OF n] record_encoded(3) [OF r(1)]
    by (auto simp: update_ops_def expiry_ops_def op_ok_def value_fits_def split: option.splits)
  then have keys: "\<forall>(k, v) \<in> set ?ops. key_ok k" by (auto simp: op_ok_def)
  have dist: "distinct (map fst ?ops)" by (auto simp: update_ops_def expiry_ops_def split: option.split)
  have held: "held m' k = (case map_of ?ops k of None \<Rightarrow> held m k | Some v \<Rightarrow> v)" if "key_ok k" for k
    unfolding m' by (rule held_distinct_ops [OF keys dist that])
  have look: "map_of ?ops (KRecord agent j) = (if j = i then Some (Some (record_bytes r)) else None)"
    "map_of ?ops (KExpiry agent t j) = (if j = i \<and> mr_valid_until r0 \<noteq> mr_valid_until r
        then (if mr_valid_until r0 = Some t then Some None else if mr_valid_until r = Some t then Some (Some []) else None) else None)" for j t
    by (auto simp: update_ops_def expiry_ops_def split: option.split)
  have rec: "held m' (KRecord agent j) = (if j = i then Some (record_bytes r) else held m (KRecord agent j))" if "name_fits j" for j
    using held [OF memory_keys_ok(3) [OF n(1) that]] by (simp add: look)
  show mem: "memories m' agent j = (if j = i then Some r else memories m agent j)" if "name_fits j" for j
    using rec [OF that] record_encoded(2) [OF r(1)] by (simp add: memories_def)
  have "held m' k = held m k" if "key_ok k" "\<not> rewrite_key agent k" for k
  proof -
    have "map_of ?ops k = None" using that(2) by (cases k) (auto simp: update_ops_def expiry_ops_def split: option.split)
    then show ?thesis by (simp add: held [OF that(1)])
  qed
  moreover have "held m' (KExpiry agent t j) = (if \<exists>r. memories m' agent j = Some r \<and> mr_valid_until r = Some t then Some [] else None)" if "name_fits j" for t j
    using held [OF memory_keys_ok(4) [OF n(1) that], of t] mem_okD(7) [OF ok n(1) that, of t] old by (auto simp: look mem [OF that])
  moreover have "typed_map m'" unfolding m' by (rule typed_apply_keys [OF mem_okD(1) [OF ok] opsok])
  ultimately show "amends m agent m'"
    unfolding amends_def using mem old r(2,3) by (auto split: option.split)
qed

end
