(* ===== verification/Memory_Ops.thy ===== *)
theory Memory_Ops
  imports Memory_Inv
begin

text \<open>
  The operations of the memory index against its invariant: puts, forgets, updates and touches are
  atomic, keep the invariant and change the memories of the agent as their names say; the reads
  return what the invariant says the map holds.
\<close>

definition ready :: "vector_index_params \<Rightarrow> (bytes \<rightharpoonup> bytes) \<Rightarrow> vector_handle \<Rightarrow> bool" where
  "ready P m h \<longleftrightarrow> handle_ok m h \<and> ph_params h = P"

subsection \<open>Puts\<close>

text \<open>The duplicate check over the memories of the agent.\<close>

definition claim_id :: "(bytes \<rightharpoonup> bytes) \<Rightarrow> bytes \<Rightarrow> put_item \<Rightarrow> bytes list \<Rightarrow> bytes list engine_result" where
  "claim_id m agent = (\<lambda>(i, new, vector) prior.
     if memories m agent i \<noteq> None \<or> i \<in> set prior then Inl (DuplicateMemoryId agent i) else Inr (prior @ [i]))"

lemma reads_check_fresh:
  assumes "\<And>k. reads I (on_store (kv_get X k)) (Inr (m k))" "typed_map m" "name_fits agent" "\<forall>(i, x) \<in> set items. name_fits i"
  shows "reads I (ofold (check_fresh X agent) items prior) (rfold (claim_id m agent) items prior)"
  using assms(4)
proof (induction items arbitrary: prior)
  case (Cons x items)
  obtain i new vector where x: "x = (i, new, vector)" by (cases x)
  have n: "name_fits i" using Cons.prems by (simp add: x)
  have "reads I (check_fresh X agent x prior) (claim_id m agent x prior)"
    unfolding check_fresh_def claim_id_def x prod.case memory_keys_ok(1) [OF assms(3) n] obind_simps
    by (rule reads_obind_Inr [OF assms(1)]) (use memories_held(2) [OF assms(2,3) n] in \<open>auto simp: held_def\<close>)
  then show ?case using Cons by (auto intro: reads_obind)
qed simp

lemma claimed:
  "rfold (claim_id m agent) items prior = Inr ids \<Longrightarrow> distinct prior \<Longrightarrow>
     distinct (map fst items) \<and> (\<forall>(i, x) \<in> set items. memories m agent i = None \<and> i \<notin> set prior) \<and> ids = prior @ map fst items"
proof (induction items arbitrary: prior)
  case (Cons x items)
  obtain i new vector where x: "x = (i, new, vector)" by (cases x)
  have s: "memories m agent i = None" "i \<notin> set prior" "rfold (claim_id m agent) items (prior @ [i]) = Inr ids"
    using Cons.prems(1) by (auto simp: x claim_id_def split: if_splits)
  have "distinct (prior @ [i])" using s(2) Cons.prems(2) by simp
  from Cons.IH [OF s(3) this] show ?case using s(1,2) by (force simp: x)
qed simp

lemma stage_memories:
  assumes "name_fits agent" "\<forall>x \<in> set items. item_fits agent x"
  shows "rfold (stage_memory agent) items (v, extra, docs, vectors) =
    Inr (v + word_of_nat (length items), extra @ key_batch (concat (map (put_one_ops agent) (numbered v items))),
         docs @ new_docs (numbered v items), vectors @ new_vectors (numbered v items))"
  using assms(2)
proof (induction items arbitrary: v extra docs vectors)
  case (Cons x items)
  obtain i new vector where x: "x = (i, new, vector)" by (cases x)
  have f: "name_fits i" "record_fits (stored_record new v)" using Cons.prems record_fits_any [of new v] by (simp_all add: x item_fits_def)
  have "stage_memory agent x (v, extra, docs, vectors) =
    Inr (v + 1, extra @ key_batch (put_one_ops agent (v, x)), docs @ [(v, nm_content new)], vectors @ [(v, vector)])"
    by (simp add: x stage_memory_def memory_keys_ok [OF assms(1) f(1)] record_encoded(1) [OF f(2)] mapping_encoded(1) [OF assms(1) f(1)]
        put_one_ops_def stage_expiry_insert_def batch_put_def split: option.split)
  then show ?case using Cons by (simp add: new_docs_def new_vectors_def x)
qed (simp add: new_docs_def new_vectors_def)

lemma added_vectors:
  "rfold (add_vector d) vs M = Inr M' \<Longrightarrow> distinct (map fst vs) \<Longrightarrow> M' = M ++ map_of vs"
proof (induction vs arbitrary: M)
  case (Cons x vs)
  obtain i v where x: "x = (i, v)" by (cases x)
  have rest: "rfold (add_vector d) vs (M(i \<mapsto> v)) = Inr M'" using Cons.prems(1) by (auto simp: x add_vector_def split: if_splits)
  have "M' = M(i \<mapsto> v) ++ map_of vs" by (rule Cons.IH [OF rest]) (use Cons.prems(2) in simp)
  moreover have "i \<notin> dom (map_of vs)" using Cons.prems(2) by (simp add: x dom_map_of_conv_image_fst)
  ultimately show ?case by (simp add: x map_add_upd_left del: fun_upd_apply)
qed simp

lemma card_below: "A \<subseteq> {v :: u64. v < n} \<Longrightarrow> card A < 2 ^ 64"
proof -
  assume A: "A \<subseteq> {v :: u64. v < n}"
  have "card A = card (unat ` A)" by (rule card_image [symmetric]) (simp add: inj_on_def word_unat_eq_iff)
  also have "\<dots> \<le> card {..<unat n}" using A by (intro card_mono) (auto simp: word_less_nat_alt)
  also have "\<dots> < 2 ^ 64" unfolding card_lessThan by (rule order_less_le_trans [OF unsigned_less]) simp
  finally show ?thesis .
qed

lemma id_range_numbered:
  assumes "unat v + length items < 2 ^ 64"
  shows "id_range v (v + word_of_nat (length items)) = map fst (numbered v items)"
proof -
  have "map fst (numbered v items) = map (\<lambda>j. v + word_of_nat j) [0..<length items]"
  proof (induction items arbitrary: v)
    case (Cons x items)
    have "map (\<lambda>j. v + word_of_nat j) [0..<length (x # items)] = v # map (\<lambda>j. v + 1 + word_of_nat j) [0..<length items]"
      by (simp add: upt_conv_Cons map_Suc_upt [symmetric] add.assoc del: upt_Suc)
    then show ?case by (simp add: Cons)
  qed simp
  moreover have "v \<le> v + word_of_nat (length items)" using next_id [OF assms] by (simp add: word_le_nat_alt)
  moreover have "unat (word_of_nat (length items) :: u64) = length items" using assms by (simp add: unat_of_nat)
  ultimately show ?thesis by (simp add: id_range_def)
qed

text \<open>The batch of a put, and its room.\<close>

definition puts_room :: "unicode \<Rightarrow> vector_index_params \<Rightarrow> (bytes \<rightharpoonup> bytes) \<Rightarrow> bytes \<Rightarrow> put_item list \<Rightarrow> u64 \<Rightarrow> nat" where
  "puts_room U P m agent items next = vector_room P (length items * Suc (max 1 (vp_max_degree P)))
     + kvs_size (key_batch (put_all_ops U m agent items next))"

definition puts_batch :: "unicode \<Rightarrow> vector_index_params \<Rightarrow> (bytes \<rightharpoonup> bytes) \<Rightarrow> bytes \<Rightarrow> put_item list \<Rightarrow> u64 \<Rightarrow> bool" where
  "puts_batch U P m agent items next \<longleftrightarrow>
     length items * Suc (max 1 (vp_max_degree P)) + 1 + length (put_all_ops U m agent items next) \<le> MAX_BATCH_OPS"

text \<open>What the items stage, with the vector ids they get.\<close>

lemma put_staged:
  assumes "mem_ok U m next" "puts_fit U m agent items next"
  shows "rfold (stage_memory agent) items (next, [], [], []) =
      Inr (next + word_of_nat (length items), key_batch (concat (map (put_one_ops agent) (numbered next items))), new_docs (numbered next items), new_vectors (numbered next items))"
    "reads (peeks X runs st m) (stage_insert_many U X agent (new_docs (numbered next items))
        (batch_put (key_bytes (KAgent agent)) [] (batch_put memory_meta_key (memory_meta_bytes (next + word_of_nat (length items)))
           (key_batch (concat (map (put_one_ops agent) (numbered next items)))))))
      (Inr (key_batch (put_all_ops U m agent items next)))"
proof -
  have a: "name_fits agent" and items: "\<forall>x \<in> set items. item_fits agent x" using assms(2) by (auto simp: puts_fit_def)
  show "rfold (stage_memory agent) items (next, [], [], []) =
      Inr (next + word_of_nat (length items), key_batch (concat (map (put_one_ops agent) (numbered next items))), new_docs (numbered next items), new_vectors (numbered next items))"
    using stage_memories [OF a items, of "next" "[]" "[]" "[]"] by simp
  have b: "batch_put (key_bytes (KAgent agent)) [] (batch_put memory_meta_key (memory_meta_bytes (next + word_of_nat (length items)))
       (key_batch (concat (map (put_one_ops agent) (numbered next items)))))
     = key_batch (put_ops agent (next + word_of_nat (length items)) (numbered next items))"
    by (simp add: batch_put_def put_ops_def)
  show "reads (peeks X runs st m) (stage_insert_many U X agent (new_docs (numbered next items))
        (batch_put (key_bytes (KAgent agent)) [] (batch_put memory_meta_key (memory_meta_bytes (next + word_of_nat (length items)))
           (key_batch (concat (map (put_one_ops agent) (numbered next items)))))))
      (Inr (key_batch (put_all_ops U m agent items next)))"
    unfolding b put_all_ops_def key_batch_simps
    by (rule stage_insert_many_reads [OF mem_okD(1) [OF assms(1)] a put_storable [OF assms(2)]])
qed

lemma put_many_fails:
  assumes "handle_ok m h" "mem_ok U m next" "puts_fit U m agent items next" "items \<noteq> []"
    and "rfold (claim_id m agent) items [] = Inl e
      \<or> (\<exists>ids. rfold (claim_id m agent) items [] = Inr ids)
        \<and> rfold (add_vector (vp_dim (ph_params h))) (new_vectors (numbered next items)) (live_vectors (vector_nodes m)) = Inl e"
  shows "reads (vpeeks X runs st m h) (mi_put_many U F X rnd agent items next) (Inl e)"
proof -
  have a: "name_fits agent" and n: "\<forall>(i, x) \<in> set items. name_fits i" using assms(3) by (auto simp: puts_fit_def item_fits_def)
  have get: "reads (vpeeks X runs st m h) (on_store (kv_get X k)) (Inr (m k))" for k by (rule reads_vpeeks_store [OF engine.get_map])
  note check = reads_check_fresh [OF get mem_okD(1) [OF assms(2)] a n, of "[]"]
  note stage = reads_vpeeks_store [OF put_staged(2) [OF assms(2,3)]]
  show ?thesis
    using assms(5)
  proof (elim disjE conjE exE)
    assume "rfold (claim_id m agent) items [] = Inl e"
    then show ?thesis using reads_obind_Inl [OF check [unfolded \<open>rfold (claim_id m agent) items [] = Inl e\<close>]] assms(4)
      by (simp add: mi_put_many_def)
  next
    fix ids assume c: "rfold (claim_id m agent) items [] = Inr ids"
      and v: "rfold (add_vector (vp_dim (ph_params h))) (new_vectors (numbered next items)) (live_vectors (vector_nodes m)) = Inl e"
    note fail = insert_many_fails [OF assms(1) v, of X runs st F rnd]
    have "reads (vpeeks X runs st m h) (obind (ofold (check_fresh X agent) items []) (\<lambda>_.
        obind (olift (rfold (stage_memory agent) items (next, [], [], []))) (\<lambda>(_, extra, docs, vectors).
        let next' = next + word_of_nat (length items)
        in obind (olift (encode_memory_meta \<lparr>mm_next_vec_id = next'\<rparr>)) (\<lambda>meta.
           obind (olift (agent_key agent)) (\<lambda>registry.
           obind (on_store (stage_insert_many U X agent docs (batch_put registry [] (batch_put memory_meta_key meta extra)))) (\<lambda>extra.
           obind (pv_insert_many_with F X rnd vectors extra) (\<lambda>_.
             oret (id_range next next', next')))))))) (Inl e)"
      by (rule reads_obind_Inr [OF check [unfolded c]])
        (simp only: put_staged(1) [OF assms(2,3)] obind_simps prod.case Let_def memory_meta_encoded(1) conjunct1 [OF registry_key_ok [OF a]],
          rule reads_obind_Inr [OF stage], rule reads_obind_Inl [OF fail])
    then show ?thesis using assms(4) by (simp add: mi_put_many_def)
  qed
qed

lemma put_many_achieves:
  assumes at: "at X m (ready P m) runs sh" and draws: "draws_ok (crypto (fst sh)) rnd"
    and ok: "mem_ok U m next" and fit: "puts_fit U m agent items next" and some: "items \<noteq> []"
    and claim: "rfold (claim_id m agent) items [] = Inr ids"
    and vectors: "rfold (add_vector (vp_dim P)) (new_vectors (numbered next items)) (live_vectors (vector_nodes m)) = Inr M"
    and batch: "puts_batch U P m agent items next" and room: "room_for (fst sh) runs (puts_room U P m agent items next) 1"
  shows "\<exists>m' r. achieves X {m, m'} runs sh (mi_put_many U F X rnd agent items next) r m' (ready P m') (puts_room U P m agent items next) 1
    \<and> r = (map fst (numbered next items), next + word_of_nat (length items)) \<and> mem_ok U m' (next + word_of_nat (length items))
    \<and> (\<forall>j. name_fits j \<longrightarrow> memories m' agent j = (memories m agent ++ map_of (new_records (numbered next items))) j)
    \<and> (\<forall>b j. name_fits b \<longrightarrow> name_fits j \<longrightarrow> b \<noteq> agent \<longrightarrow> memories m' b j = memories m b j)
    \<and> live_vectors (vector_nodes m') = live_vectors (vector_nodes m) ++ map_of (new_vectors (numbered next items))"
proof -
  let ?ns = "numbered next items" and ?next = "next + word_of_nat (length items) :: u64" and ?ex = "put_all_ops U m agent items next"
  have a: "name_fits agent" and n: "\<forall>(i, x) \<in> set items. name_fits i" and wrap: "unat next + length items < 2 ^ 64"
    using fit by (auto simp: puts_fit_def item_fits_def)
  have fin: "finite (dom m)" using at finite_store_map by (auto simp: at_def split: prod.splits)
  have dist: "distinct (map fst (new_vectors ?ns))" using numbered_bounds(2) [OF wrap] by simp
  have M: "M = live_vectors (vector_nodes m) ++ map_of (new_vectors ?ns)" by (rule added_vectors [OF vectors dist])
  have new: "distinct (map fst items)" "\<forall>(i, x) \<in> set items. memories m agent i = None" using claimed [OF claim] by auto
  have fst: "fst ` set (new_vectors ?ns) = fst ` set ?ns" by (simp only: list.set_map [symmetric] new_lists)
  have "v < ?next" if "v \<in> dom M" for v
  proof -
    have "v \<in> dom (live_vectors (vector_nodes m)) \<or> v \<in> fst ` set ?ns" using that unfolding M dom_map_add dom_map_of_conv_image_fst fst by blast
    then show ?thesis
    proof
      assume "v \<in> dom (live_vectors (vector_nodes m))"
      then have "v < next" using mem_okD(6) [OF ok] dom_split(1) [of "vector_nodes m"] by blast
      then show ?thesis by (simp add: word_less_nat_alt next_id [OF wrap])
    qed (use numbered_bounds(1) [OF wrap] in \<open>auto simp: word_less_nat_alt next_id [OF wrap]\<close>)
  qed
  then have few: "card (dom M) < 2 ^ 64" by (intro card_below [where n = ?next]) auto
  have get: "reads (peeks_with X runs s m (ready P m)) (on_store (kv_get X k)) (Inr (m k))" for s k by (rule reads_on_store [OF engine.get_map])
  note check = reads_check_fresh [OF get mem_okD(1) [OF ok] a n, where prior = "[]", unfolded claim]
  note stage = reads_on_store [OF put_staged(2) [OF ok fit], where H = "ready P m"]
  have body: "mi_put_many U F X rnd agent items next = obind (ofold (check_fresh X agent) items []) (\<lambda>_.
      obind (on_store (stage_insert_many U X agent (new_docs ?ns) (batch_put (key_bytes (KAgent agent)) [] (batch_put memory_meta_key (memory_meta_bytes ?next)
           (key_batch (concat (map (put_one_ops agent) ?ns))))))) (\<lambda>extra.
      obind (pv_insert_many_with F X rnd (new_vectors ?ns) extra) (\<lambda>_. oret (map fst ?ns, ?next))))"
    using some by (simp only: mi_put_many_def if_False put_staged(1) [OF ok fit] obind_simps prod.case Let_def memory_meta_encoded(1)
        conjunct1 [OF registry_key_ok [OF a]] id_range_numbered [OF wrap])
  let ?Q = "\<lambda>m' r. r = (map fst ?ns, ?next) \<and> mem_ok U m' ?next
    \<and> (\<forall>j. name_fits j \<longrightarrow> memories m' agent j = (memories m agent ++ map_of (new_records ?ns)) j)
    \<and> (\<forall>b j. name_fits b \<longrightarrow> name_fits j \<longrightarrow> b \<noteq> agent \<longrightarrow> memories m' b j = memories m b j)
    \<and> live_vectors (vector_nodes m') = live_vectors (vector_nodes m) ++ map_of (new_vectors ?ns)"
  show ?thesis
    unfolding body
  proof (rule read_then_achieves [where Q = ?Q, OF check at], goal_cases)
    case (1 sh1)
    note one = 1
    show ?case
    proof (rule read_then_achieves [where Q = ?Q, OF stage one(1)], goal_cases)
      case (1 sh2)
      obtain st h where sh2: "sh2 = (st, h)" by (cases sh2)
      have at2: "at X m (handle_ok m) runs (st, h)" and P: "ph_params h = P" using 1(1) by (simp_all add: sh2 at_def ready_def)
      have d2: "draws_ok (crypto st) rnd" using draws one(2) 1(2) by (simp add: sh2)
      have r2: "room_for st runs (puts_room U P m agent items next) 1" using 1(3) [OF one(3) [OF room]] by (simp add: sh2)
      have ne: "new_vectors ?ns \<noteq> []" using some by (cases items) (simp_all add: new_vectors_def)
      have len: "length (new_vectors ?ns) = length items" by (simp add: new_vectors_def)
      obtain m' where m': "achieves X {m, m'} runs (st, h) (pv_insert_many_with F X rnd (new_vectors ?ns) (key_batch ?ex)) () m'
          (\<lambda>h'. handle_ok m' h' \<and> ph_params h' = P) (puts_room U P m agent items next) 1"
        "live_vectors (vector_nodes m') = M" "tombstones (vector_nodes m') = tombstones (vector_nodes m) - fst ` set (new_vectors ?ns)"
        "\<forall>k. key_ok k \<longrightarrow> \<not> vector_key k \<longrightarrow> held m' k = held (apply_keys ?ex m) k"
        using insert_many_achieves [where F = F, OF at2 d2 put_companion [OF fit] ne vectors [folded P] few] batch r2
        unfolding P len puts_batch_def puts_room_def by auto
      have typed: "typed_map m'" using achieves_at [OF m'(1)] by (auto simp: at_def handle_ok_def split: prod.splits)
      note mem = put_mem_ok [OF ok fit fin new m'(4) typed m'(2) [unfolded M] m'(3) [unfolded fst]]
      have "achieves X {m, m'} runs sh2 (obind (pv_insert_many_with F X rnd (new_vectors ?ns) (key_batch ?ex)) (\<lambda>_. oret (map fst ?ns, ?next)))
          (map fst ?ns, ?next) m' (ready P m') (puts_room U P m agent items next) 1"
        unfolding sh2
      proof (rule achieves_bind [OF m'(1), where ?e2.0 = 0 and ?n2.0 = 0], goal_cases)
        case (1 sh3 runs3)
        then have "at X m' (ready P m') runs3 sh3" by (simp add: ready_def [abs_def])
        then show ?case by (rule achieves_ret) simp
      qed simp_all
      then show ?case using mem m'(2) M by blast
    qed
  qed
qed

subsection \<open>Reading one memory\<close>

lemma get_reads:
  assumes "typed_map m" "name_fits agent" "name_fits i"
  shows "reads (peeks X runs st m) (mi_get X agent i) (Inr (memories m agent i))"
proof -
  have look: "m (key_bytes (KRecord agent i)) = held m (KRecord agent i)" by (simp add: held_def)
  have "(case m (key_bytes (KRecord agent i)) of None \<Rightarrow> Inr None | Some bs \<Rightarrow> rbind (decode_memory_record bs) (\<lambda>x. Inr (Some x))) = Inr (memories m agent i)"
    using memories_held [OF assms] unfolding look by (cases "held m (KRecord agent i)") (auto simp: memories_def)
  then show ?thesis using engine.decoded_map [of X runs st m "key_bytes (KRecord agent i)" decode_memory_record]
    by (simp add: mi_get_def memory_keys_ok [OF assms(2,3)])
qed

lemma resolve_reads:
  assumes "typed_map m"
  shows "reads (peeks X runs st m) (mi_resolve X v) (Inr (owner m v))"
proof -
  have look: "m (vecmap_key v) = held m (KVecmap v)" by (simp add: held_def)
  have "(case m (vecmap_key v) of None \<Rightarrow> Inr None | Some bs \<Rightarrow> rbind (decode_vec_map bs) (\<lambda>x. Inr (Some x))) = Inr (owner m v)"
  proof (cases "held m (KVecmap v)")
    case (Some b)
    then obtain e where "decode_vec_map b = Inr e" "owner m v = Some e" using owner_held(1) [OF assms] by blast
    then show ?thesis by (simp add: look Some)
  qed (simp add: look owner_def)
  then show ?thesis using engine.decoded_map [of X runs st m "vecmap_key v" decode_vec_map] by (simp add: mi_resolve_def)
qed

subsection \<open>Forgetting\<close>

lemma stage_forgets:
  assumes "name_fits agent" "\<forall>(i, x) \<in> set chunk. name_fits i"
  shows "rfold (\<lambda>(i, v, valid_until). stage_forget agent i v valid_until) chunk batch = Inr (batch @ key_batch (forget_ops agent chunk))"
  using assms(2)
proof (induction chunk arbitrary: batch)
  case (Cons x chunk)
  obtain i v u where x: "x = (i, v, u)" by (cases x)
  have n: "name_fits i" using Cons.prems by (simp add: x)
  have "stage_forget agent i v u batch = Inr (batch @ key_batch (forget_ops agent [x]))"
    by (simp add: x stage_forget_def stage_expiry_delete_def memory_keys_ok [OF assms(1) n] batch_delete_def forget_ops_def split: option.split)
  moreover have "forget_ops agent (x # chunk) = forget_ops agent [x] @ forget_ops agent chunk" by (simp add: forget_ops_def)
  ultimately show ?case using Cons by (simp add: x)
qed (simp add: forget_ops_def)

definition forgets_room :: "vector_index_params \<Rightarrow> (bytes \<rightharpoonup> bytes) \<Rightarrow> bytes \<Rightarrow> forget_item list \<Rightarrow> nat" where
  "forgets_room P m agent chunk = vector_room P (length chunk) + kvs_size (key_batch (forget_all_ops m agent chunk))"

definition forgets_batch :: "(bytes \<rightharpoonup> bytes) \<Rightarrow> bytes \<Rightarrow> forget_item list \<Rightarrow> bool" where
  "forgets_batch m agent chunk \<longleftrightarrow> length chunk + 1 + length (forget_all_ops m agent chunk) \<le> MAX_BATCH_OPS"

definition forgotten :: "unicode \<Rightarrow> (bytes \<rightharpoonup> bytes) \<Rightarrow> u64 \<Rightarrow> bytes \<Rightarrow> bytes set \<Rightarrow> (bytes \<rightharpoonup> bytes) \<Rightarrow> bool" where
  "forgotten U m next agent ids m' \<longleftrightarrow> mem_ok U m' next
     \<and> (\<forall>b j. name_fits b \<longrightarrow> name_fits j \<longrightarrow> memories m' b j = (if b = agent \<and> j \<in> ids then None else memories m b j))"

lemma chunk_achieves:
  assumes at: "at X m (ready P m) runs sh" and draws: "draws_ok (crypto (fst sh)) rnd"
    and ok: "mem_ok U m next" and a: "name_fits agent" and chunk: "stored_chunk m agent chunk"
    and batch: "forgets_batch m agent chunk" and room: "room_for (fst sh) runs (forgets_room P m agent chunk) 1"
  shows "\<exists>m' r. achieves X {m, m'} runs sh (apply_forget_chunk X rnd agent chunk) r m' (ready P m') (forgets_room P m agent chunk) 1
    \<and> r = word_of_nat (length chunk) \<and> forgotten U m next agent (fst ` set chunk) m'
    \<and> live_vectors (vector_nodes m') = live_vectors (vector_nodes m) |` (- set (map (\<lambda>(i, v, valid_until). v) chunk))
    \<and> (\<forall>b. name_fits b \<longrightarrow> b \<noteq> agent \<longrightarrow> corpus_of m' b = corpus_of m b)
    \<and> corpus_of m' agent = corpus_of m agent |` (- set (map (\<lambda>(i, v, valid_until). v) chunk))"
proof -
  let ?vs = "map (\<lambda>(i, v, valid_until). v) chunk" and ?ex = "forget_all_ops m agent chunk"
  have fin: "finite (dom m)" using at finite_store_map by (auto simp: at_def split: prod.splits)
  have n: "\<forall>(i, x) \<in> set chunk. name_fits i" using chunk by (auto simp: stored_chunk_def)
  have e: "entries_ok m agent" using mem_okD(2) [OF ok a] by (simp add: fts_ok_def)
  have stage: "reads (peeks_with X runs s m (ready P m)) (on_store (stage_delete_many X agent ?vs (key_batch (forget_ops agent chunk)))) (Inr (key_batch ?ex))" for s
    using reads_on_store [OF stage_delete_many_reads [OF mem_okD(1) [OF ok] a e]] by (simp add: forget_all_ops_def)
  have body: "apply_forget_chunk X rnd agent chunk = obind (on_store (stage_delete_many X agent ?vs (key_batch (forget_ops agent chunk)))) (\<lambda>extra.
      obind (pv_delete_many_with X rnd ?vs extra) (\<lambda>_. oret (word_of_nat (length chunk))))"
    using stage_forgets [OF a n, of "[]"] by (simp add: apply_forget_chunk_def Let_def)
  let ?Q = "\<lambda>m' r. r = word_of_nat (length chunk) \<and> forgotten U m next agent (fst ` set chunk) m'
    \<and> live_vectors (vector_nodes m') = live_vectors (vector_nodes m) |` (- set ?vs)
    \<and> (\<forall>b. name_fits b \<longrightarrow> b \<noteq> agent \<longrightarrow> corpus_of m' b = corpus_of m b) \<and> corpus_of m' agent = corpus_of m agent |` (- set ?vs)"
  show ?thesis
    unfolding body
  proof (rule read_then_achieves [where Q = ?Q, OF stage at], goal_cases)
    case (1 sh2)
    obtain st h where sh2: "sh2 = (st, h)" by (cases sh2)
    have at2: "at X m (handle_ok m) runs (st, h)" and P: "ph_params h = P" using 1(1) by (simp_all add: sh2 at_def ready_def)
    have d2: "draws_ok (crypto st) rnd" using draws 1(2) by (simp add: sh2)
    have r2: "room_for st runs (vector_room P (length ?vs) + kvs_size (key_batch ?ex)) 1" using 1(3) [OF room] by (simp add: sh2 forgets_room_def)
    have b2: "length ?vs + 1 + length ?ex \<le> MAX_BATCH_OPS" using batch by (simp add: forgets_batch_def)
    obtain m' c where m': "achieves X {m, m'} runs (st, h) (pv_delete_many_with X rnd ?vs (key_batch ?ex)) c m'
        (\<lambda>h'. handle_ok m' h' \<and> ph_params h' = P) (forgets_room P m agent chunk) 1"
      "live_vectors (vector_nodes m') = live_vectors (vector_nodes m) |` (- set ?vs)"
      "tombstones (vector_nodes m') = tombstones (vector_nodes m) \<union> set ?vs \<inter> dom (live_vectors (vector_nodes m))"
      "\<forall>k. key_ok k \<longrightarrow> \<not> vector_key k \<longrightarrow> held m' k = held (apply_keys ?ex m) k"
      using delete_many_achieves [OF at2 d2 forget_companion [OF ok a chunk] b2 r2 [folded P]] unfolding P by (auto simp: forgets_room_def)
    have typed: "typed_map m'" using achieves_at [OF m'(1)] by (auto simp: at_def handle_ok_def split: prod.splits)
    note mem = forget_mem_ok [OF ok a fin chunk refl m'(4) typed m'(2,3)]
    have grp: "delete_many_ops agent m ?vs = delete_many_ops agent m ?vs \<and> corpus_of m agent |` (- set ?vs) = corpus_of m agent |` (- set ?vs)" by simp
    have own: "\<forall>oper \<in> set (forget_ops agent chunk). op_ok oper" "\<forall>(k, v) \<in> set (forget_ops agent chunk). key_ok k \<and> (\<forall>a. \<not> fts_key a k)"
      using forget_ops_keys(1) [OF a chunk] by (fastforce simp: op_ok_def)+
    have allok: "\<forall>b. name_fits b \<longrightarrow> fts_ok m b" using mem_okD(2) [OF ok] by blast
    have others: "\<forall>b. name_fits b \<longrightarrow> b \<noteq> agent \<longrightarrow> corpus_of m' b = corpus_of m b"
      using fts_after(3) [where ds = "[]", OF mem_okD(1) [OF ok] allok a fin own disjI2 [OF grp] m'(4) [unfolded forget_all_ops_def]] by blast
    have mine: "corpus_of m' agent = corpus_of m agent |` (- set ?vs)"
      using fts_after(2) [where ds = "[]", OF mem_okD(1) [OF ok] allok a fin own disjI2 [OF grp] m'(4) [unfolded forget_all_ops_def]] by blast
    have "achieves X {m, m'} runs sh2 (obind (pv_delete_many_with X rnd ?vs (key_batch ?ex)) (\<lambda>_. oret (word_of_nat (length chunk))))
        (word_of_nat (length chunk) :: u64) m' (ready P m') (forgets_room P m agent chunk) 1"
      unfolding sh2
    proof (rule achieves_bind [OF m'(1), where ?e2.0 = 0 and ?n2.0 = 0], goal_cases)
      case (1 sh3 runs3)
      then have "at X m' (ready P m') runs3 sh3" by (simp add: ready_def [abs_def])
      then show ?case by (rule achieves_ret) simp
    qed simp_all
    then show ?case using mem m'(2) others mine unfolding forgotten_def by blast
  qed
qed

text \<open>Forgetting one memory is forgetting a chunk of one.\<close>

lemma rbind_rfold_Nil [simp]: "rbind r (rfold f []) = r"
  by (cases r) simp_all

lemma forget_is_chunk:
  "mi_forget X rnd agent i = obind (on_store (mi_get X agent i)) (\<lambda>found. case found of
     None \<Rightarrow> oret False
   | Some stored \<Rightarrow> obind (apply_forget_chunk X rnd agent [(i, mr_vec_id stored, mr_valid_until stored)]) (\<lambda>_. oret True))"
  unfolding mi_forget_def apply_forget_chunk_def stage_delete_def delete_one_group Let_def
  by (simp add: obind_assoc cong: option.case_cong)

lemma forget_achieves:
  assumes at: "at X m (ready P m) runs sh" and draws: "draws_ok (crypto (fst sh)) rnd"
    and ok: "mem_ok U m next" and n: "name_fits agent" "name_fits i" and r: "memories m agent i = Some r" "chunk = [(i, mr_vec_id r, mr_valid_until r)]"
    and batch: "forgets_batch m agent chunk" and room: "room_for (fst sh) runs (forgets_room P m agent chunk) 1"
  shows "\<exists>m' r'. achieves X {m, m'} runs sh (mi_forget X rnd agent i) r' m' (ready P m') (forgets_room P m agent chunk) 1
    \<and> r' = True \<and> forgotten U m next agent {i} m' \<and> live_vectors (vector_nodes m') = (live_vectors (vector_nodes m))(mr_vec_id r := None)"
proof -
  have get: "reads (peeks_with X runs s m (ready P m)) (on_store (mi_get X agent i)) (Inr (Some r))" for s
    using reads_on_store [OF get_reads [OF mem_okD(1) [OF ok] n]] r(1) by simp
  have chunk: "stored_chunk m agent chunk" using r n by (simp add: stored_chunk_def)
  let ?Q = "\<lambda>m' r'. r' = True \<and> forgotten U m next agent {i} m' \<and> live_vectors (vector_nodes m') = (live_vectors (vector_nodes m))(mr_vec_id r := None)"
  show ?thesis
    unfolding forget_is_chunk
  proof (rule read_then_achieves [where Q = ?Q, OF get at], goal_cases)
    case (1 sh2)
    have d2: "draws_ok (crypto (fst sh2)) rnd" using draws 1(2) by simp
    obtain m' where m': "achieves X {m, m'} runs sh2 (apply_forget_chunk X rnd agent chunk) (word_of_nat (length chunk)) m' (ready P m') (forgets_room P m agent chunk) 1"
      "forgotten U m next agent (fst ` set chunk) m'"
      "live_vectors (vector_nodes m') = live_vectors (vector_nodes m) |` (- set (map (\<lambda>(i, v, valid_until). v) chunk))"
      using chunk_achieves [OF 1(1) d2 ok n(1) chunk batch 1(3) [OF room]] by blast
    have "achieves X {m, m'} runs sh2 (obind (apply_forget_chunk X rnd agent chunk) (\<lambda>_. oret True)) True m' (ready P m') (forgets_room P m agent chunk) 1"
      by (rule achieves_bind [OF m'(1), where ?e2.0 = 0 and ?n2.0 = 0]) (auto intro: achieves_ret)
    moreover have "live_vectors (vector_nodes m') = (live_vectors (vector_nodes m))(mr_vec_id r := None)"
      unfolding m'(3) by (auto simp: r(2) restrict_map_def fun_eq_iff)
    ultimately show ?case using m'(2) by (auto simp: r(2))
  qed
qed

end
