(* ===== verification/Memory_Reads.thy ===== *)
theory Memory_Reads
  imports Memory_Ops
begin

text \<open>
  The operations of the memory index on the store alone: rewriting a record, touching the access times,
  the listings, the page of an agent, and opening the index.
\<close>

subsection \<open>Rewriting a record\<close>

lemma stored_fits:
  assumes "typed_map m" "name_fits agent" "name_fits i" "memories m agent i = Some r"
  shows "record_fits r"
proof -
  obtain v where h: "held m (KRecord agent i) = Some v" and d: "decode_memory_record v = Inr r"
    using assms(4) by (auto simp: memories_def split: option.splits sum.splits)
  have "value_fits (KRecord agent i) v" using typed_held [OF assms(1) _ h] assms(2,3) by (simp add: key_ok_def)
  then obtain r' where r': "encode_memory_record r' = Inr v" "utf8_valid (mr_layer r')" "utf8_valid (mr_content r')" "utf8_valid (mr_source r')"
    by (auto simp: value_fits_def elim!: value_kind_of.elims)
  then have "r' = r" using memory_record_roundtrip d by auto
  then show ?thesis using r' by (auto simp: record_fits_def)
qed

lemma update_staged:
  assumes "name_fits agent" "name_fits i"
  shows "(if previous \<noteq> mr_valid_until r
      then rbind (stage_expiry_delete agent i previous (batch_put (key_bytes (KRecord agent i)) (record_bytes r) []))
        (stage_expiry_insert agent i (mr_valid_until r))
      else Inr (batch_put (key_bytes (KRecord agent i)) (record_bytes r) [])) = Inr (key_batch (update_ops agent i previous r))"
  by (simp add: update_ops_def expiry_ops_def stage_expiry_delete_def stage_expiry_insert_def batch_put_def batch_delete_def
      memory_keys_ok [OF assms] split: option.split)

lemma update_commits:
  assumes st: "store_inv X st runs" "store_map runs (memtable st) = m" "draws_ok (crypto st) rnd" "typed_map m"
    and n: "name_fits agent" "name_fits i" and r: "record_fits r"
    and ops: "ops = update_ops agent i (Option.bind (memories m agent i) mr_valid_until) r"
    and room: "roomy st runs (kvs_size (key_batch ops))"
  shows "commits X st runs m (mi_update X rnd agent i r) () (apply_keys ops m) (kvs_size (key_batch ops))"
proof -
  have len: "length ops \<le> MAX_BATCH_OPS" by (simp add: ops update_ops_def expiry_ops_def MAX_BATCH_OPS_def split: option.split)
  show ?thesis
    unfolding mi_update_def memory_keys_ok(1) [OF n] record_encoded(1) [OF r] obind_simps Let_def
  proof (rule commits_obind_read [OF get_reads [OF st(4) n] st(1,2)])
    fix s assume "peeks X runs st m s"
    then obtain c where s: "s = st\<lparr>block_cache := c\<rparr>" "store_inv X s runs" "store_map runs (memtable s) = m" by (auto simp: peeks_def)
    show "commits X s runs m (obind (olift (if Option.bind (memories m agent i) mr_valid_until \<noteq> mr_valid_until r
            then rbind (stage_expiry_delete agent i (Option.bind (memories m agent i) mr_valid_until) (batch_put (key_bytes (KRecord agent i)) (record_bytes r) []))
              (stage_expiry_insert agent i (mr_valid_until r))
            else Inr (batch_put (key_bytes (KRecord agent i)) (record_bytes r) []))) (apply_batch X rnd)) () (apply_keys ops m) (kvs_size (key_batch ops))"
      unfolding update_staged [OF n] obind_simps ops [symmetric]
      by (rule commits_keys [OF s(2,3) _ _ len]) (use st(3) room in \<open>simp_all add: s(1) cache_irrelevant\<close>)
  qed
qed

text \<open>A record written for an id that has no memory is in no index: the invariant is gone, whatever the allocator.\<close>

lemma orphan_breaks:
  assumes ok: "mem_ok U m next" and n: "name_fits agent" "name_fits i" and none: "memories m agent i = None" and r: "record_fits r"
    and m': "m' = apply_keys (update_ops agent i None r) m"
  shows "memories m' agent i = Some r" "owner m' = owner m" "\<not> mem_ok U m' next'"
    "name_fits b \<Longrightarrow> name_fits j \<Longrightarrow> memories m' b j = (if b = agent \<and> j = i then Some r else memories m b j)"
proof -
  let ?ops = "update_ops agent i None r"
  have keys: "\<forall>(k, v) \<in> set ?ops. key_ok k" using memory_keys_ok [OF n] by (auto simp: update_ops_def expiry_ops_def split: option.split)
  have dist: "distinct (map fst ?ops)" by (auto simp: update_ops_def expiry_ops_def split: option.split)
  have held: "held m' k = (case map_of ?ops k of None \<Rightarrow> held m k | Some v \<Rightarrow> v)" if "key_ok k" for k
    unfolding m' by (rule held_distinct_ops [OF keys dist that])
  show mem: "memories m' agent i = Some r"
    using held [OF memory_keys_ok(3) [OF n]] record_encoded(2) [OF r] by (simp add: memories_def update_ops_def)
  show "memories m' b j = (if b = agent \<and> j = i then Some r else memories m b j)" if "name_fits b" "name_fits j" for b j
    using held [OF memory_keys_ok(3) [OF that]] mem by (auto simp: memories_def update_ops_def expiry_ops_def split: option.split)
  have "held m' (KVecmap v) = held m (KVecmap v)" for v
    using held [of "KVecmap v"] by (simp add: update_ops_def expiry_ops_def split: option.split)
  then show own: "owner m' = owner m" by (simp add: owner_def fun_eq_iff)
  show "\<not> mem_ok U m' next'"
  proof
    assume "mem_ok U m' next'"
    from mem_okD(3) [OF this n mem] have "owner m (mr_vec_id r) = Some \<lparr>vm_agent = agent, vm_id = i\<rparr>" by (simp add: memory_linked_def own)
    from mem_okD(4) [OF ok this] none show False by simp
  qed
qed

subsection \<open>Touching access times\<close>

definition touched :: "i64 \<Rightarrow> memory_record \<Rightarrow> memory_record" where
  "touched now r = r\<lparr>mr_last_access := now\<rparr>"

definition touch_ops :: "(bytes \<rightharpoonup> bytes) \<Rightarrow> bytes \<Rightarrow> i64 \<Rightarrow> bytes list \<Rightarrow> key_op list" where
  "touch_ops m agent now ids = concat (map (\<lambda>i. case memories m agent i of
     None \<Rightarrow> [] | Some r \<Rightarrow> [(KRecord agent i, Some (record_bytes (touched now r)))]) ids)"

lemma touched_fits: "record_fits (touched now r) \<longleftrightarrow> record_fits r"
  by (auto simp: record_fits_def touched_def encode_memory_record_def)

lemma touch_reads:
  assumes "typed_map m" "name_fits agent" "\<forall>i \<in> set ids. name_fits i"
  shows "reads (peeks X runs st m) (ofold (touch_one X agent now) ids batch) (Inr (batch @ key_batch (touch_ops m agent now ids)))"
  using assms(3)
proof (induction ids arbitrary: batch)
  case Nil
  then show ?case by (simp add: touch_ops_def)
next
  case (Cons i ids)
  have n: "name_fits i" using Cons.prems by simp
  have "reads (peeks X runs st m) (touch_one X agent now i batch) (Inr (batch @ key_batch (touch_ops m agent now [i])))"
    unfolding touch_one_def
  proof (rule reads_obind_Inr [OF get_reads [OF assms(1,2) n]])
    show "reads (peeks X runs st m) (case memories m agent i of None \<Rightarrow> oret batch
       | Some stored \<Rightarrow> obind (olift (record_key agent i)) (\<lambda>key. obind (olift (encode_memory_record (stored\<lparr>mr_last_access := now\<rparr>)))
           (\<lambda>value. oret (batch_put key value batch)))) (Inr (batch @ key_batch (touch_ops m agent now [i])))"
    proof (cases "memories m agent i")
      case (Some r)
      have "record_fits (r\<lparr>mr_last_access := now\<rparr>)" using stored_fits [OF assms(1,2) n Some] touched_fits [of now r] by (simp add: touched_def)
      then show ?thesis by (simp add: Some memory_keys_ok(1) [OF assms(2) n] record_encoded(1) batch_put_def touch_ops_def touched_def)
    qed (simp add: touch_ops_def)
  qed
  moreover have "touch_ops m agent now (i # ids) = touch_ops m agent now [i] @ touch_ops m agent now ids" by (simp add: touch_ops_def)
  ultimately show ?case
    using Cons.IH [of "batch @ key_batch (touch_ops m agent now [i])"] Cons.prems by (auto intro!: reads_obind_Inr)
qed

lemma map_of_touch_ops: "map_of (rev (touch_ops m agent now ids)) k = (case k of
     KRecord a i \<Rightarrow> if a = agent \<and> i \<in> set ids then map_option (\<lambda>r. Some (record_bytes (touched now r))) (memories m agent i) else None
   | _ \<Rightarrow> None)"
proof (induction ids rule: rev_induct)
  case (snoc i ids)
  have "touch_ops m agent now (ids @ [i]) = touch_ops m agent now ids @ touch_ops m agent now [i]" by (simp add: touch_ops_def)
  then show ?case using snoc by (auto simp: touch_ops_def split: option.split logical_key.split)
qed (simp add: touch_ops_def split: logical_key.split)

lemma touch_amends:
  assumes ok: "mem_ok U m next" and n: "name_fits agent" "\<forall>i \<in> set ids. name_fits i"
    and m': "m' = apply_keys (touch_ops m agent now ids) m"
  shows "amends m agent m'"
    "name_fits j \<Longrightarrow> memories m' agent j = (if j \<in> set ids then map_option (touched now) (memories m agent j) else memories m agent j)"
proof -
  let ?ops = "touch_ops m agent now ids"
  have opsok: "\<forall>oper \<in> set ?ops. op_ok oper"
    using n stored_fits [OF mem_okD(1) [OF ok] n(1)] touched_fits record_encoded(3) memory_keys_ok(3) [OF n(1)]
    by (auto simp: touch_ops_def op_ok_def split: option.splits)
  have held: "held m' k = (case map_of (rev ?ops) k of None \<Rightarrow> held m k | Some v \<Rightarrow> v)" if "key_ok k" for k
    unfolding m' by (rule held_apply_keys [OF _ that]) (use opsok in \<open>auto simp: op_ok_def\<close>)
  show mem: "memories m' agent j = (if j \<in> set ids then map_option (touched now) (memories m agent j) else memories m agent j)" if "name_fits j" for j
  proof (cases "memories m agent j")
    case None
    then show ?thesis using held [OF memory_keys_ok(3) [OF n(1) that]] by (simp add: map_of_touch_ops) (simp add: memories_def)
  next
    case (Some r)
    then have "record_fits (touched now r)" using stored_fits [OF mem_okD(1) [OF ok] n(1) that] touched_fits by blast
    then show ?thesis using held [OF memory_keys_ok(3) [OF n(1) that]] Some
      by (cases "j \<in> set ids") (simp_all add: map_of_touch_ops, simp_all add: memories_def record_encoded(2))
  qed
  have "held m' k = held m k" if "key_ok k" "\<not> rewrite_key agent k" for k
    using held [OF that(1)] that(2) by (cases k) (simp_all add: map_of_touch_ops)
  moreover have "held m' (KExpiry agent t j) = (if \<exists>r. memories m' agent j = Some r \<and> mr_valid_until r = Some t then Some [] else None)" if "name_fits j" for t j
    using held [OF memory_keys_ok(4) [OF n(1) that], of t] mem_okD(7) [OF ok n(1) that, of t]
    by (auto simp: map_of_touch_ops mem [OF that] touched_def)
  moreover have "typed_map m'" unfolding m' by (rule typed_apply_keys [OF mem_okD(1) [OF ok] opsok])
  ultimately show "amends m agent m'"
    unfolding amends_def using mem by (auto simp: touched_def split: option.split)
qed

lemma touch_commits:
  assumes st: "store_inv X st runs" "store_map runs (memtable st) = m" "draws_ok (crypto st) rnd" "typed_map m"
    and n: "name_fits agent" "\<forall>i \<in> set ids. name_fits i" and ops: "ops = touch_ops m agent now ids"
    and room: "roomy st runs (kvs_size (key_batch ops))" "length ops \<le> MAX_BATCH_OPS"
  shows "commits X st runs m (touch_last_access X rnd agent ids now) () (apply_keys ops m) (kvs_size (key_batch ops))"
  unfolding touch_last_access_def
proof (rule commits_obind_read [OF touch_reads [OF st(4) n, of X runs st now "[]", folded ops] st(1,2)])
  fix s assume "peeks X runs st m s"
  then obtain c where s: "s = st\<lparr>block_cache := c\<rparr>" "store_inv X s runs" "store_map runs (memtable s) = m" by (auto simp: peeks_def)
  show "commits X s runs m (if [] @ key_batch ops = [] then oret () else apply_batch X rnd ([] @ key_batch ops)) () (apply_keys ops m) (kvs_size (key_batch ops))"
  proof (cases "ops = []")
    case True
    then show ?thesis by (simp add: commits_none [OF s(2,3)] oret_def)
  next
    case False
    show ?thesis using commits_keys [OF s(2,3) _ _ room(2)] st(3) room(1) False by (simp add: s(1) cache_irrelevant)
  qed
qed

subsection \<open>Listing an agent\<close>

text \<open>The memories of an agent with an id satisfying \<open>P\<close>, in id order.\<close>

definition listing :: "(bytes \<rightharpoonup> bytes) \<Rightarrow> bytes \<Rightarrow> (bytes \<Rightarrow> bool) \<Rightarrow> (bytes \<times> memory_record) list" where
  "listing m agent P = map (\<lambda>i. (i, the (memories m agent i))) (sorted_list_of_set {i. name_fits i \<and> memories m agent i \<noteq> None \<and> P i})"

lemma sorted_list_prefixed:
  fixes p :: bytes
  assumes "finite I"
  shows "sorted_list_of_set ((@) p ` I) = map ((@) p) (sorted_list_of_set I)"
proof (rule sorted_distinct_set_unique)
  show "sorted (map ((@) p) (sorted_list_of_set I))" by (simp add: sorted_map)
  show "distinct (map ((@) p) (sorted_list_of_set I))" by (simp add: distinct_map inj_on_def)
qed (use assms in simp_all)

lemma sorted_list_below:
  fixes A B :: "'a :: linorder set"
  assumes "finite A" "finite B" "\<And>x y. x \<in> A \<Longrightarrow> y \<in> B \<Longrightarrow> x < y"
  shows "sorted_list_of_set (A \<union> B) = sorted_list_of_set A @ sorted_list_of_set B"
proof (rule sorted_distinct_set_unique)
  show "sorted (sorted_list_of_set A @ sorted_list_of_set B)" using assms by (auto simp: sorted_append intro: less_imp_le)
  show "distinct (sorted_list_of_set A @ sorted_list_of_set B)" using assms by fastforce
qed (use assms in simp_all)

lemma record_prefix: "name_fits agent \<Longrightarrow> record_agent_prefix agent = Inr p \<Longrightarrow> key_bytes (KRecord agent i) = p @ i"
  by (auto simp: key_bytes_def record_agent_prefix_def push_len_prefixed_Inr lp_def)

lemma rmap_take: "rmap f xs = Inr ys \<Longrightarrow> rmap f (take n xs) = Inr (take n ys)"
proof (induction xs arbitrary: n ys)
  case (Cons x xs)
  then show ?case by (cases n) (auto simp: rbind_eq_Inr)
qed simp

lemma rmap_mapped: "(\<And>x. x \<in> set xs \<Longrightarrow> f (g x) = Inr (h x)) \<Longrightarrow> rmap f (map g xs) = Inr (map h xs)"
  by (induction xs) simp_all

lemma listed_ids:
  assumes typed: "typed_map m" and fin: "finite (dom m)" and a: "name_fits agent" and p: "record_agent_prefix agent = Inr p"
  shows "{b \<in> dom m. prefix p b \<and> Q b} = (@) p ` {i. name_fits i \<and> memories m agent i \<noteq> None \<and> Q (p @ i)}"
    "finite {i. name_fits i \<and> memories m agent i \<noteq> None \<and> Q (p @ i)}"
proof -
  have key: "name_fits i \<Longrightarrow> (p @ i) \<in> dom m \<longleftrightarrow> memories m agent i \<noteq> None" for i
    using memories_held(2) [OF typed a, of i] record_prefix [OF a p, of i] by (auto simp: held_def)
  show e: "{b \<in> dom m. prefix p b \<and> Q b} = (@) p ` {i. name_fits i \<and> memories m agent i \<noteq> None \<and> Q (p @ i)}"
  proof (rule set_eqI, rule iffI)
    fix b assume b: "b \<in> {b \<in> dom m. prefix p b \<and> Q b}"
    then obtain v where v: "m b = Some v" by auto
    then obtain k where k: "key_ok k" "b = key_bytes k" "in_scan (SRecords agent) k"
      using b prefix_scanned [OF typed, of "SRecords agent" p b v] p by auto
    then obtain i where i: "k = KRecord agent i" by (cases k) auto
    then have "name_fits i" using k(1) by (simp add: key_ok_def)
    then show "b \<in> (@) p ` {i. name_fits i \<and> memories m agent i \<noteq> None \<and> Q (p @ i)}"
      using b k(2) i record_prefix [OF a p, of i] key [of i] by auto
  qed (use key in auto)
  have "finite ((@) p ` {i. name_fits i \<and> memories m agent i \<noteq> None \<and> Q (p @ i)})"
    unfolding e [symmetric] using fin by simp
  then show "finite {i. name_fits i \<and> memories m agent i \<noteq> None \<and> Q (p @ i)}" by (rule finite_imageD) (simp add: inj_on_def)
qed

lemma records_listed:
  assumes "typed_map m" "finite (dom m)" "name_fits agent" "record_agent_prefix agent = Inr p"
  shows "rmap (record_entry (length p)) (entries_of (\<lambda>b. prefix p b \<and> Q b) m) = Inr (listing m agent (\<lambda>i. Q (p @ i)))"
proof -
  let ?I = "{i. name_fits i \<and> memories m agent i \<noteq> None \<and> Q (p @ i)}"
  note ids = listed_ids [OF assms, of Q]
  have es: "entries_of (\<lambda>b. prefix p b \<and> Q b) m = map (\<lambda>i. (p @ i, the (m (p @ i)))) (sorted_list_of_set ?I)"
    unfolding entries_of_def ids(1) sorted_list_prefixed [OF ids(2)] by simp
  have one: "record_entry (length p) (p @ i, the (m (p @ i))) = Inr (i, the (memories m agent i))" if i: "i \<in> set (sorted_list_of_set ?I)" for i
  proof -
    have n: "name_fits i" and ne: "memories m agent i \<noteq> None" using i ids(2) by simp_all
    have k: "key_bytes (KRecord agent i) = p @ i" by (rule record_prefix [OF assms(3,4)])
    obtain v where v: "held m (KRecord agent i) = Some v" using memories_held(2) [OF assms(1,3) n] ne by auto
    have d: "decode_memory_record v = Inr (the (memories m agent i))" using memories_held(1) [OF assms(1,3) n v] by auto
    have "record_id (length p) (p @ i) = Some i"
      using decode_record [OF assms(4) memory_keys_ok(1) [OF assms(3) n]] n by (simp add: k name_fits_def)
    then show ?thesis using v d by (simp add: record_entry_def held_def k)
  qed
  show ?thesis unfolding es listing_def using one by (rule rmap_mapped)
qed

lemma scan_agent_reads:
  assumes "typed_map m" "finite (dom m)" "name_fits agent"
  shows "reads (peeks X runs st m) (scan_agent X agent) (Inr (listing m agent (\<lambda>i. True)))"
proof -
  obtain p where p: "record_agent_prefix agent = Inr p"
    using assms(3) by (auto simp: name_fits_def record_agent_prefix_def push_len_prefixed_Inr)
  show ?thesis
    unfolding scan_agent_def p obind_simps
    by (rule reads_obind_Inr [OF engine.scan_map]) (use records_listed [OF assms p, of "\<lambda>b. True"] in simp)
qed

subsection \<open>Pages of an agent\<close>

lemma listing_split:
  assumes "finite {i. name_fits i \<and> memories m agent i \<noteq> None \<and> P i}" "\<And>i. P i \<longleftrightarrow> (lo i \<or> hi i)" "\<And>i j. lo i \<Longrightarrow> hi j \<Longrightarrow> i < j"
  shows "listing m agent P = listing m agent lo @ listing m agent hi"
proof -
  let ?I = "\<lambda>P. {i. name_fits i \<and> memories m agent i \<noteq> None \<and> P i}"
  have "?I P = ?I lo \<union> ?I hi" using assms(2) by auto
  moreover have "finite (?I lo)" "finite (?I hi)" using finite_subset [OF _ assms(1)] assms(2) by (auto simp: subset_eq)
  ultimately show ?thesis using sorted_list_below [of "?I lo" "?I hi"] assms(3) by (simp add: listing_def)
qed

lemma agent_pages_take:
  assumes inv: "store_inv X st runs" "store_map runs (memtable st) = m" and typed: "typed_map m" and a: "name_fits agent"
    and p: "record_agent_prefix agent = Inr p" "record_agent_upper_bound agent = Inr stop"
  shows "p \<le> start \<Longrightarrow> fuel > card {k \<in> raw_keys st runs. start \<le> k \<and> k < stop} \<Longrightarrow>
    agent_pages X (length p) stop limit st fuel start out = Some (Inr (out @ take (limit - length out) (listing m agent (\<lambda>i. start \<le> p @ i))))"
proof (induction fuel arbitrary: start out)
  case (Suc fuel)
  have fin: "finite (dom m)" using finite_store_map [of runs "memtable st"] inv(2) by simp
  obtain up where up: "bump_last (rev p) = Some up" "stop = rev up"
    using p by (auto simp: record_agent_upper_bound_def split: option.splits)
  have inside: "p \<le> b \<and> b < stop \<longleftrightarrow> prefix p b" for b unfolding up(2) by (rule bump_last_bound [OF up(1)])
  have from_start: "(start \<le> b \<and> b < n) \<longleftrightarrow> (prefix p b \<and> start \<le> b \<and> b < n)" if "n \<le> stop" for b n
    using inside [of b] Suc.prems(1) that by (meson dual_order.strict_trans1 order_trans)
  show ?case
  proof (cases "limit \<le> length out")
    case False
    let ?L = "limit - length out"
    have L: "(?L = 0) = False" using False by simp
    obtain pg where pg: "scan_range_page X start stop ?L st = Inr pg" "sorted_keys (p_entries pg)"
      "case p_next_start pg of
         None \<Rightarrow> map_of (p_entries pg) = restricted (\<lambda>k. start \<le> k \<and> k < stop) m
       | Some n \<Rightarrow> map_of (p_entries pg) = restricted (\<lambda>k. start \<le> k \<and> k < n) m \<and> start < n \<and> n \<le> stop
           \<and> (\<exists>f. n = f @ [0] \<and> start \<le> f \<and> f < stop \<and> f \<in> raw_keys st runs)"
      using scan_range_page_ok [OF inv(1), of start stop ?L] unfolding raw_keys_def [symmetric] L if_False inv(2) by blast
    have entries: "rmap (record_entry (length p)) (take ?L (p_entries pg)) = Inr (take ?L (listing m agent (\<lambda>i. start \<le> p @ i \<and> p @ i < n)))"
      if "map_of (p_entries pg) = restricted (\<lambda>k. start \<le> k \<and> k < n) m" "n \<le> stop" for n
    proof -
      have "p_entries pg = entries_of (\<lambda>k. prefix p k \<and> start \<le> k \<and> k < n) m"
        using entries_of_unique [OF pg(2) that(1)] from_start [OF that(2)] by (simp add: entries_of_def)
      then show ?thesis by (simp add: rmap_take [OF records_listed [OF typed fin a p(1)]])
    qed
    show ?thesis
    proof (cases "p_next_start pg")
      case None
      have "p @ i < stop" for i using inside [of "p @ i"] by simp
      then have "(\<lambda>i. start \<le> p @ i \<and> p @ i < stop) = (\<lambda>i. start \<le> p @ i)" by simp
      then show ?thesis using pg(1,3) entries [of stop] None False by simp
    next
      case (Some n)
      then obtain f where f: "n = f @ [0]" "start \<le> f" "f < stop" "f \<in> raw_keys st runs" "start < n" "n \<le> stop"
        "map_of (p_entries pg) = restricted (\<lambda>k. start \<le> k \<and> k < n) m"
        using pg(3) by auto
      have "{k \<in> raw_keys st runs. n \<le> k \<and> k < stop} \<subset> {k \<in> raw_keys st runs. start \<le> k \<and> k < stop}"
        using f le_snoc_zero_next [of f f] by (auto dest: leD intro: less_imp_le less_le_trans)
      then have "card {k \<in> raw_keys st runs. n \<le> k \<and> k < stop} < card {k \<in> raw_keys st runs. start \<le> k \<and> k < stop}"
        by (intro psubset_card_mono) (simp_all add: finite_raw_keys)
      then have fuel: "fuel > card {k \<in> raw_keys st runs. n \<le> k \<and> k < stop}" using Suc.prems(2) by simp
      let ?lo = "listing m agent (\<lambda>i. start \<le> p @ i \<and> p @ i < n)" and ?hi = "listing m agent (\<lambda>i. n \<le> p @ i)"
      have split: "listing m agent (\<lambda>i. start \<le> p @ i) = ?lo @ ?hi"
      proof (rule listing_split)
        show "finite {i. name_fits i \<and> memories m agent i \<noteq> None \<and> start \<le> p @ i}" by (rule listed_ids(2) [OF typed fin a p(1)])
        show "start \<le> p @ i \<longleftrightarrow> (start \<le> p @ i \<and> p @ i < n \<or> n \<le> p @ i)" for i using f(5) by (auto simp: not_less intro: order_trans less_imp_le)
        show "i < j" if "start \<le> p @ i \<and> p @ i < n" "n \<le> p @ j" for i j
          using less_le_trans [of "p @ i" n "p @ j"] that by simp
      qed
      have below: "p \<le> n" using Suc.prems(1) f(5) by simp
      show ?thesis
        using pg(1) entries [OF f(7,6)] Some False Suc.IH [OF below fuel, of "out @ take ?L ?lo"]
        by (simp add: split min_def)
    qed
  qed simp
qed simp

lemma bump_last_some: "b \<in> set bs \<Longrightarrow> b < 0xff \<Longrightarrow> \<exists>up. bump_last bs = Some up"
  by (induction bs) auto

lemma record_upper_bound_total: "record_agent_prefix agent = Inr p \<Longrightarrow> \<exists>stop. record_agent_upper_bound agent = Inr stop"
proof -
  assume p: "record_agent_prefix agent = Inr p"
  then have "105 \<in> set (rev p)" by (auto simp: record_agent_prefix_def push_len_prefixed_Inr RECORD_PREFIX_def ascii_def)
  then obtain up where "bump_last (rev p) = Some up" using bump_last_some by fastforce
  then show ?thesis by (simp add: record_agent_upper_bound_def p)
qed

text \<open>The page after an id is the next \<open>limit\<close> memories in id order.\<close>

lemma page_reads:
  assumes inv: "store_inv X st runs" "store_map runs (memtable st) = m" and typed: "typed_map m" and a: "name_fits agent"
    and after: "case after_id of None \<Rightarrow> True | Some i \<Rightarrow> name_fits i" and fuel: "fuel > card (raw_keys st runs)"
  shows "scan_agent_page X fuel agent after_id limit st =
    Some (Inr (take limit (listing m agent (\<lambda>i. case after_id of None \<Rightarrow> True | Some j \<Rightarrow> j < i))))"
proof -
  obtain p where p: "record_agent_prefix agent = Inr p"
    using a by (auto simp: name_fits_def record_agent_prefix_def push_len_prefixed_Inr)
  then obtain stop where stop: "record_agent_upper_bound agent = Inr stop"
    using record_upper_bound_total [OF p] by blast
  let ?start = "case after_id of None \<Rightarrow> p | Some i \<Rightarrow> p @ i @ [0]"
  have few: "fuel > card {k \<in> raw_keys st runs. ?start \<le> k \<and> k < stop}"
    by (rule le_less_trans [OF card_mono fuel]) (simp_all add: finite_raw_keys Collect_restrict)
  have "p \<le> ?start" by (simp add: bytes_le_append split: option.split)
  note pages = agent_pages_take [OF inv typed a p stop this few, of limit "[]"]
  have "?start \<le> p @ i \<longleftrightarrow> (case after_id of None \<Rightarrow> True | Some j \<Rightarrow> j < i)" for i
  proof (cases after_id)
    case (Some j)
    have "j @ [0] \<le> i \<longleftrightarrow> j < i" using le_snoc_zero_next [of i j] not_less [of i "j @ [0]"] not_le [of i j] by argo
    then show ?thesis by (simp add: Some)
  qed (simp add: bytes_le_append)
  then show ?thesis
    using pages after memory_keys_ok(1) [OF a] record_prefix [OF a p]
    by (simp add: scan_agent_page_def p stop split: option.splits)
qed

subsection \<open>Due memories\<close>

text \<open>The expiry entries of an agent before an instant, in key order: by instant, then by id.\<close>

definition due_before :: "(bytes \<rightharpoonup> bytes) \<Rightarrow> bytes \<Rightarrow> i64 \<Rightarrow> (bytes \<times> i64) list \<Rightarrow> bool" where
  "due_before m agent t es \<longleftrightarrow> set es = {(i, u). name_fits i \<and> held m (KExpiry agent u i) \<noteq> None \<and> u <s t}
     \<and> sorted_wrt (\<lambda>(i, u) (j, w). u <s w \<or> u = w \<and> i < j) es"

lemma expiry_prefix: "name_fits agent \<Longrightarrow> expiry_agent_prefix agent = Inr q \<Longrightarrow> key_bytes (KExpiry agent t i) = q @ sortable t @ i"
  by (auto simp: key_bytes_def expiry_agent_prefix_def push_len_prefixed_Inr lp_def)

lemma sortable_append_less: "sortable u @ i < sortable w @ j \<longleftrightarrow> u <s w \<or> u = w \<and> i < j"
proof (cases "u = w")
  case False
  then consider "u <s w" | "w <s u" by (metis word_sless_alt linorder_less_linear signed_word_eqI)
  then show ?thesis
  proof cases
    case 1
    then show ?thesis using less_append_eq_length [of "sortable u" "sortable w" i j] by simp
  next
    case 2
    then have "sortable w @ j < sortable u @ i" "\<not> u <s w" using less_append_eq_length [of "sortable w" "sortable u" j i] by (simp_all add: word_sless_alt)
    then show ?thesis using False by (auto dest: less_asym)
  qed
qed (simp add: word_sless_alt)

lemma expiring_entries:
  assumes typed: "typed_map m" and fin: "finite (dom m)" and a: "name_fits agent" and q: "expiry_agent_prefix agent = Inr q"
  shows "rmap (\<lambda>(key, value). case expiry_decode (length q) key of None \<Rightarrow> Inl (Corrupt MemoryRecord) | Some (valid_until, i) \<Rightarrow> Inr (i, valid_until))
      (entries_of (\<lambda>k. q \<le> k \<and> k < q @ sortable t) m)
    = Inr (map (\<lambda>(b, v). case the (expiry_decode (length q) b) of (u, i) \<Rightarrow> (i, u)) (entries_of (\<lambda>k. q \<le> k \<and> k < q @ sortable t) m))"
    "due_before m agent t (map (\<lambda>(b, v). case the (expiry_decode (length q) b) of (u, i) \<Rightarrow> (i, u)) (entries_of (\<lambda>k. q \<le> k \<and> k < q @ sortable t) m))"
proof -
  let ?es = "entries_of (\<lambda>k. q \<le> k \<and> k < q @ sortable t) m" and ?f = "\<lambda>(b, v :: bytes). case the (expiry_decode (length q) b) of (u, i) \<Rightarrow> (i, u)"
  have key: "expiry_decode (length q) (q @ sortable u @ i) = Some (u, i)" if "name_fits i" for u i
    using decode_expiry [OF q memory_keys_ok(2) [OF a that]] that by (simp add: expiry_prefix [OF a q] name_fits_def)
  have entry: "\<exists>u i. b = q @ sortable u @ i \<and> name_fits i \<and> held m (KExpiry agent u i) = Some v \<and> u <s t" if "(b, v) \<in> set ?es" for b v
  proof -
    have b: "q \<le> b" "b < q @ sortable t" "m b = Some v" using that fin by (auto simp: set_entries_of)
    then have "prefix q b" by (blast dest: between_prefix)
    then obtain k where k: "key_ok k" "b = key_bytes k" "in_scan (SExpiry agent) k"
      using prefix_scanned [OF typed, of "SExpiry agent" q b v] b(3) q by auto
    then obtain u i where i: "k = KExpiry agent u i" by (cases k) auto
    have "u <s t" using b(2) k(2) i sortable_append_less [of u i t "[]"] by (simp add: expiry_prefix [OF a q] word_sless_alt)
    then show ?thesis using k i b(3) by (auto simp: expiry_prefix [OF a q] key_ok_def held_def)
  qed
  show "rmap (\<lambda>(key, value). case expiry_decode (length q) key of None \<Rightarrow> Inl (Corrupt MemoryRecord) | Some (valid_until, i) \<Rightarrow> Inr (i, valid_until)) ?es
      = Inr (map ?f ?es)"
  proof (rule rmap_all_Inr)
    fix x assume x: "x \<in> set ?es"
    obtain b v where xb: "x = (b, v)" by (cases x)
    with x entry obtain u i where "b = q @ sortable u @ i" "name_fits i" by blast
    then show "(case x of (key, value) \<Rightarrow> case expiry_decode (length q) key of None \<Rightarrow> Inl (Corrupt MemoryRecord) | Some (valid_until, i) \<Rightarrow> Inr (i, valid_until)) = Inr (?f x)"
      using key xb by simp
  qed
  have "set (map ?f ?es) = {(i, u). name_fits i \<and> held m (KExpiry agent u i) \<noteq> None \<and> u <s t}"
  proof (rule set_eqI, rule iffI)
    fix x assume "x \<in> set (map ?f ?es)"
    then obtain b v where "(b, v) \<in> set ?es" "x = ?f (b, v)" by auto
    from entry [OF this(1)] obtain u i where "b = q @ sortable u @ i" "name_fits i" "held m (KExpiry agent u i) = Some v" "u <s t" by blast
    with \<open>x = ?f (b, v)\<close> show "x \<in> {(i, u). name_fits i \<and> held m (KExpiry agent u i) \<noteq> None \<and> u <s t}" using key by simp
  next
    fix x assume "x \<in> {(i, u). name_fits i \<and> held m (KExpiry agent u i) \<noteq> None \<and> u <s t}"
    then obtain i u v where x: "x = (i, u)" "name_fits i" "held m (KExpiry agent u i) = Some v" "u <s t" by auto
    have "(q @ sortable u @ i, v) \<in> set ?es"
      using x(3,4) fin sortable_append_less [of u i t "[]"] by (simp add: set_entries_of held_def expiry_prefix [OF a q] bytes_le_append)
    then show "x \<in> set (map ?f ?es)" using key [OF x(2), of u] x(1) by force
  qed
  moreover have "sorted_wrt (\<lambda>(i, u) (j, w). u <s w \<or> u = w \<and> i < j) (map ?f ?es)"
    unfolding sorted_wrt_map
  proof (rule sorted_wrt_mono_rel)
    show "sorted_wrt (\<lambda>x y. fst x < fst y) ?es" using sorted_keys_entries_of [of _ m] by (simp add: sorted_keys_def sorted_wrt_map)
    fix x y assume in_es: "x \<in> set ?es" "y \<in> set ?es" and less: "fst x < fst y"
    obtain b v c w where xy: "x = (b, v)" "y = (c, w)" by (cases x; cases y)
    from entry [OF in_es(1) [unfolded xy]] obtain u i where b: "b = q @ sortable u @ i" "name_fits i" by blast
    from entry [OF in_es(2) [unfolded xy]] obtain u' j where c: "c = q @ sortable u' @ j" "name_fits j" by blast
    have "u <s u' \<or> u = u' \<and> i < j" using less sortable_append_less [of u i u' j] by (simp add: xy b c)
    then show "(\<lambda>(i, u) (j, w). u <s w \<or> u = w \<and> i < j) (?f x) (?f y)"
      by (simp add: xy b(1) c(1) key [OF b(2)] key [OF c(2)])
  qed
  ultimately show "due_before m agent t (map ?f ?es)" by (simp add: due_before_def)
qed

lemma scan_expiring_reads:
  assumes "typed_map m" "finite (dom m)" "name_fits agent"
  shows "\<exists>es. reads (peeks X runs st m) (scan_expiring X agent t) (Inr es) \<and> due_before m agent (saturating_succ t) es"
proof -
  obtain q where q: "expiry_agent_prefix agent = Inr q"
    using assms(3) by (auto simp: name_fits_def expiry_agent_prefix_def push_len_prefixed_Inr)
  note es = expiring_entries [OF assms q, of "saturating_succ t"]
  have "reads (peeks X runs st m) (scan_expiring X agent t) (Inr (map (\<lambda>(b, v). case the (expiry_decode (length q) b) of (u, i) \<Rightarrow> (i, u))
      (entries_of (\<lambda>k. q \<le> k \<and> k < q @ sortable (saturating_succ t)) m)))"
    unfolding scan_expiring_def expiry_upper_bound_def q obind_simps rbind.simps
    by (rule reads_obind_Inr [OF engine.range_map]) (simp add: es(1))
  then show ?thesis using es(2) by blast
qed

subsection \<open>Counting, and the agents\<close>

lemma prefix_space:
  assumes "typed_map m" "p \<in> set spaces"
  shows "{b \<in> dom m. prefix p b} = key_bytes ` {k. key_ok k \<and> key_space k = p \<and> held m k \<noteq> None}"
proof (rule set_eqI, rule iffI)
  fix b assume b: "b \<in> {b \<in> dom m. prefix p b}"
  then obtain v where v: "m b = Some v" by auto
  moreover have "reserved b" using b assms(2) by (auto simp: reserved_def)
  ultimately obtain k where k: "key_ok k" "b = key_bytes k" by (rule typed_mapD [OF assms(1)])
  have "key_space k = p" by (rule key_space_eq [OF encode_key_ok [OF k(1)] _ assms(2)]) (use b k(2) in simp)
  then show "b \<in> key_bytes ` {k. key_ok k \<and> key_space k = p \<and> held m k \<noteq> None}" using k v by (auto simp: held_def)
qed (auto simp: held_def key_bytes_def)

text \<open>The number of memories of all agents.\<close>

lemma count_all_reads:
  assumes "typed_map m" "finite (dom m)"
  shows "reads (peeks X runs st m) (count_all X)
    (Inr (word_of_nat (card {(agent, i). name_fits agent \<and> name_fits i \<and> memories m agent i \<noteq> None})))"
proof -
  let ?M = "{(agent, i). name_fits agent \<and> name_fits i \<and> memories m agent i \<noteq> None}" and ?K = "{k. key_ok k \<and> key_space k = RECORD_PREFIX \<and> held m k \<noteq> None}"
  have space: "RECORD_PREFIX \<in> set spaces" by (simp add: spaces_def)
  have "?K = (\<lambda>(agent, i). KRecord agent i) ` ?M"
  proof (rule set_eqI, rule iffI)
    fix k assume k: "k \<in> ?K"
    then obtain agent i where i: "k = KRecord agent i" by (cases k) (auto simp: space_defs ascii_def)
    then have n: "name_fits agent" "name_fits i" using k by (simp_all add: key_ok_def)
    have "held m (KRecord agent i) \<noteq> None" using k i by blast
    then have "memories m agent i \<noteq> None" unfolding memories_held(2) [OF assms(1) n] .
    then have "(agent, i) \<in> ?M" using n by blast
    then show "k \<in> (\<lambda>(agent, i). KRecord agent i) ` ?M" using i by force
  next
    fix k assume "k \<in> (\<lambda>(agent, i). KRecord agent i) ` ?M"
    then obtain agent i where i: "k = KRecord agent i" "name_fits agent" "name_fits i" "memories m agent i \<noteq> None" by auto
    have "held m k \<noteq> None" using i(4) unfolding memories_held(2) [OF assms(1) i(2,3)] i(1) .
    then show "k \<in> ?K" using i(1-3) by (simp add: key_ok_def)
  qed
  moreover have "inj_on (\<lambda>(agent, i). KRecord agent i) ?M" by (auto simp: inj_on_def)
  moreover have "inj_on key_bytes ?K" using key_bytes_inj by (auto simp: inj_on_def)
  ultimately have "card {b \<in> dom m. prefix RECORD_PREFIX b} = card ?M"
    unfolding prefix_space [OF assms(1) space] by (simp add: card_image)
  then show ?thesis
    unfolding count_all_def by (intro reads_obind_Inr [OF engine.scan_map]) (simp add: length_entries_of)
qed

text \<open>The registered agents; every agent with a memory is registered.\<close>

lemma list_agents_reads:
  assumes "typed_map m" "finite (dom m)"
  shows "\<exists>agents. reads (peeks X runs st m) (list_agents X) (Inr agents) \<and> distinct agents \<and> set agents = {agent. name_fits agent \<and> held m (KAgent agent) \<noteq> None}"
proof -
  let ?es = "entries_of (prefix REGISTRY_PREFIX) m" and ?f = "\<lambda>(b, v :: bytes). the (agent_decode b)"
  have space: "REGISTRY_PREFIX \<in> set spaces" by (simp add: spaces_def)
  have fin: "finite {b \<in> dom m. prefix REGISTRY_PREFIX b}" using assms(2) by simp
  have dec: "agent_decode (key_bytes (KAgent agent)) = Some agent" if "name_fits agent" for agent
    using decode_agent [of agent] registry_key_ok [OF that] that by (simp add: name_fits_def)
  have entry: "\<exists>agent. b = key_bytes (KAgent agent) \<and> name_fits agent \<and> held m (KAgent agent) = Some v" if "(b, v) \<in> set ?es" for b v
  proof -
    have b: "b \<in> {b \<in> dom m. prefix REGISTRY_PREFIX b}" "m b = Some v" using that by (auto simp: set_entries_of [OF fin])
    then obtain k where k: "key_ok k" "key_space k = REGISTRY_PREFIX" "b = key_bytes k" unfolding prefix_space [OF assms(1) space] by auto
    then obtain agent where "k = KAgent agent" by (cases k) (auto simp: space_defs ascii_def)
    then show ?thesis using k b(2) by (auto simp: key_ok_def held_def)
  qed
  have keys: "map fst ?es = map (\<lambda>x. key_bytes (KAgent (?f x))) ?es"
  proof (rule map_cong [OF refl])
    fix x assume x: "x \<in> set ?es"
    obtain b v where xb: "x = (b, v)" by (cases x)
    then show "fst x = key_bytes (KAgent (?f x))" using entry [of b v] x dec by auto
  qed
  have "distinct (map fst ?es)" by (rule sorted_keys_distinct) simp
  then have "distinct (map (\<lambda>b. key_bytes (KAgent b)) (map ?f ?es))" unfolding keys by (simp add: comp_def)
  then have "distinct (map ?f ?es)" by (rule distinct_map [THEN iffD1, THEN conjunct1])
  moreover have "set (map ?f ?es) = {agent. name_fits agent \<and> held m (KAgent agent) \<noteq> None}"
  proof (rule set_eqI, rule iffI)
    fix agent assume "agent \<in> set (map ?f ?es)"
    then obtain b v where bv: "(b, v) \<in> set ?es" "agent = ?f (b, v)" by auto
    then show "agent \<in> {agent. name_fits agent \<and> held m (KAgent agent) \<noteq> None}" using entry [OF bv(1)] dec by auto
  next
    fix agent assume agent: "agent \<in> {agent. name_fits agent \<and> held m (KAgent agent) \<noteq> None}"
    then obtain v where "held m (KAgent agent) = Some v" by auto
    then have "(key_bytes (KAgent agent), v) \<in> set ?es" by (simp add: set_entries_of [OF fin] held_def) (simp add: key_bytes_def)
    then show "agent \<in> set (map ?f ?es)" using dec agent by force
  qed
  moreover have "rmap (\<lambda>(key, value). case agent_decode key of None \<Rightarrow> Inl (Corrupt MemoryRecord) | Some agent \<Rightarrow> Inr agent) ?es = Inr (map ?f ?es)"
  proof (rule rmap_all_Inr)
    fix x assume x: "x \<in> set ?es"
    obtain b v where xb: "x = (b, v)" by (cases x)
    then show "(case x of (key, value) \<Rightarrow> case agent_decode key of None \<Rightarrow> Inl (Corrupt MemoryRecord) | Some agent \<Rightarrow> Inr agent) = Inr (?f x)"
      using entry [of b v] x dec by auto
  qed
  then have "reads (peeks X runs st m) (list_agents X) (Inr (map ?f ?es))"
    unfolding list_agents_def by (intro reads_obind_Inr [OF engine.scan_map]) simp
  ultimately show ?thesis by blast
qed

subsection \<open>Opening\<close>

lemma max_seen_spec:
  assumes "\<forall>(b, v) \<in> set es. id_of b \<noteq> None"
  shows "max_seen id_of es seen = (if es = [] then seen else Some (Max (set_option seen \<union> (\<lambda>(b, v). the (id_of b)) ` set es)))"
  using assms
proof (induction es arbitrary: seen)
  case (Cons x es)
  obtain b v i where x: "x = (b, v)" "id_of b = Some i" using Cons.prems by (cases x) auto
  let ?seen = "Some (case seen of None \<Rightarrow> i | Some n \<Rightarrow> max n i)"
  have "max_seen id_of (x # es) seen = max_seen id_of es ?seen" by (simp add: max_seen_def x)
  also have "\<dots> = (if es = [] then ?seen else Some (Max (set_option ?seen \<union> (\<lambda>(b, v). the (id_of b)) ` set es)))"
    using Cons by simp
  also have "\<dots> = Some (Max (insert i (set_option seen \<union> (\<lambda>(b, v). the (id_of b)) ` set es)))"
    by (cases "es = []"; cases seen) (simp_all add: max.assoc max.commute max.left_commute insert_commute)
  finally show ?case by (simp add: x)
qed (simp add: max_seen_def)

text \<open>The ids in use: the nodes of the graph, tombstones included, and the mapped ids.\<close>

definition used_ids :: "(bytes \<rightharpoonup> bytes) \<Rightarrow> u64 set" where
  "used_ids m = dom (vector_nodes m) \<union> dom (owner m)"

lemma space_ids:
  assumes "typed_map m" "finite (dom m)" "p \<in> set spaces" "\<And>k. key_space k = p \<Longrightarrow> \<exists>i. k = K i" "\<And>i. key_ok (K i)" "\<And>i. key_space (K i) = p"
    and "\<And>i. id_of (key_bytes (K i)) = Some i"
  shows "\<forall>(b, v) \<in> set (entries_of (prefix p) m). id_of b \<noteq> None"
    "(\<lambda>(b, v). the (id_of b)) ` set (entries_of (prefix p) m) = {i. held m (K i) \<noteq> None}"
proof -
  have fin: "finite {b \<in> dom m. prefix p b}" using assms(2) by simp
  have keys: "fst ` set (entries_of (prefix p) m) = key_bytes ` K ` {i. held m (K i) \<noteq> None}"
  proof -
    have "fst ` set (entries_of (prefix p) m) = {b \<in> dom m. prefix p b}" by (force simp: set_entries_of [OF fin])
    also have "\<dots> = key_bytes ` K ` {i. held m (K i) \<noteq> None}"
      unfolding prefix_space [OF assms(1,3)] image_image using assms(4-6) by (force simp: image_iff)
    finally show ?thesis .
  qed
  have "b \<in> fst ` set (entries_of (prefix p) m)" if "(b, v) \<in> set (entries_of (prefix p) m)" for b v using that by force
  then show "\<forall>(b, v) \<in> set (entries_of (prefix p) m). id_of b \<noteq> None" unfolding keys using assms(7) by fastforce
  have "(\<lambda>(b, v). the (id_of b)) ` set (entries_of (prefix p) m) = (\<lambda>b. the (id_of b)) ` fst ` set (entries_of (prefix p) m)"
    by (simp add: image_image case_prod_unfold)
  then show "(\<lambda>(b, v). the (id_of b)) ` set (entries_of (prefix p) m) = {i. held m (K i) \<noteq> None}"
    unfolding keys by (simp add: image_image assms(7))
qed

definition healed_id :: "(bytes \<rightharpoonup> bytes) \<Rightarrow> u64" where
  "healed_id m = (if used_ids m = {} then 0 else Max (used_ids m) + 1)"

lemma node_space: "key_space k = NODE_PREFIX \<longleftrightarrow> (\<exists>i. k = KVectorNode i)" "key_ok (KVectorNode i)" "key_bytes (KVectorNode i) = node_key i"
  by (cases k; simp add: space_defs ascii_def) (simp_all add: key_ok_def key_bytes_def node_key_def)

lemma vecmap_space: "key_space k = VECMAP_PREFIX \<longleftrightarrow> (\<exists>i. k = KVecmap i)"
  by (cases k; simp add: space_defs ascii_def)

text \<open>Healing looks at the nodes and the mappings only: what the allocator's own entry holds does not matter.\<close>

lemma entries_off: "\<not> P k \<Longrightarrow> entries_of P (m(k := x)) = entries_of P m"
proof -
  assume k: "\<not> P k"
  have "{b \<in> dom (m(k := x)). P b} = {b \<in> dom m. P b}" using k by (auto split: if_splits)
  moreover have "(m(k := x)) b = m b" if "b \<in> set (sorted_list_of_set {b \<in> dom m. P b})" for b
    using that k by (cases "finite {b \<in> dom m. P b}") auto
  ultimately show ?thesis unfolding entries_of_def by (intro map_cong) simp_all
qed

lemma meta_off: "\<not> prefix NODE_PREFIX memory_meta_key" "\<not> prefix VECMAP_PREFIX memory_meta_key"
  by (simp_all add: space_defs ascii_def memory_meta_key_def)

lemma heal_reads:
  assumes "typed_map m" "finite (dom m)"
  shows "reads (peeks X runs st (m(memory_meta_key := x))) (heal_next_vec_id X) (Inr (healed_id m))"
proof -
  let ?nodes = "entries_of (prefix NODE_PREFIX) m" and ?maps = "entries_of (prefix VECMAP_PREFIX) m"
  have spaces: "NODE_PREFIX \<in> set spaces" "VECMAP_PREFIX \<in> set spaces" by (simp_all add: spaces_def)
  have nodes: "\<forall>(b, v) \<in> set ?nodes. node_id b \<noteq> None" "(\<lambda>(b, v). the (node_id b)) ` set ?nodes = {i. held m (KVectorNode i) \<noteq> None}"
    using space_ids [OF assms spaces(1), of KVectorNode node_id] node_space by (simp_all add: decode_ids)
  have maps: "\<forall>(b, v) \<in> set ?maps. vecmap_id b \<noteq> None" "(\<lambda>(b, v). the (vecmap_id b)) ` set ?maps = {i. held m (KVecmap i) \<noteq> None}"
    using space_ids [OF assms spaces(2), of KVecmap vecmap_id] vecmap_space by (simp_all add: decode_ids)
  have used: "used_ids m = {i. held m (KVectorNode i) \<noteq> None} \<union> {i. held m (KVecmap i) \<noteq> None}"
  proof -
    have "dom (vector_nodes m) = {i. held m (KVectorNode i) \<noteq> None}" "dom (owner m) = {i. held m (KVecmap i) \<noteq> None}"
      unfolding dom_def vector_nodes_None [OF assms(1)] owner_held(2) [OF assms(1)] by (simp_all add: held_def node_space)
    then show ?thesis by (simp add: used_ids_def)
  qed
  have none: "?nodes = [] \<longleftrightarrow> {i. held m (KVectorNode i) \<noteq> None} = {}" "?maps = [] \<longleftrightarrow> {i. held m (KVecmap i) \<noteq> None} = {}"
    unfolding nodes(2) [symmetric] maps(2) [symmetric] by simp_all
  have "max_seen vecmap_id ?maps (max_seen node_id ?nodes None) = (if used_ids m = {} then None else Some (Max (used_ids m)))"
  proof (cases "?nodes = []")
    case True
    then show ?thesis using max_seen_spec [OF maps(1)] max_seen_spec [OF nodes(1)] none by (simp add: used maps(2))
  next
    case False
    have fin: "finite {i. held m (KVectorNode i) \<noteq> None}" "finite {i. held m (KVecmap i) \<noteq> None}"
      unfolding nodes(2) [symmetric] maps(2) [symmetric] by simp_all
    have "max_seen node_id ?nodes None = Some (Max {i. held m (KVectorNode i) \<noteq> None})"
      using max_seen_spec [OF nodes(1)] False by (simp add: nodes(2))
    then show ?thesis
      using max_seen_spec [OF maps(1)] none False fin by (simp add: used maps(2) Max_Un)
  qed
  then have "(case max_seen vecmap_id ?maps (max_seen node_id ?nodes None) of None \<Rightarrow> 0 | Some n \<Rightarrow> n + 1) = healed_id m"
    by (simp add: healed_id_def)
  then show ?thesis
    unfolding heal_next_vec_id_def by (intro reads_obind_Inr [OF engine.scan_map]) (simp add: entries_off meta_off)
qed

lemma word_less_succ: "(x :: u64) < - 1 \<Longrightarrow> y \<le> x \<Longrightarrow> y < x + 1"
proof -
  have "unat (- 1 :: u64) = 18446744073709551615" by (simp add: unsigned_minus_1_eq_mask mask_eq_exp_minus_1)
  then show "x < - 1 \<Longrightarrow> y \<le> x \<Longrightarrow> y < x + 1" by (simp add: word_less_nat_alt word_le_nat_alt unat_arith_simps)
qed

lemma healed_above:
  assumes "v \<in> used_ids m" "\<forall>w \<in> used_ids m. w < - 1"
  shows "v < healed_id m"
proof -
  have "finite (used_ids m)" by simp
  moreover have "Max (used_ids m) \<in> used_ids m" using assms(1) by (intro Max_in) auto
  ultimately have "v \<le> Max (used_ids m)" "Max (used_ids m) < - 1" using assms by simp_all
  then show ?thesis using assms(1) word_less_succ [of "Max (used_ids m)"] by (auto simp: healed_id_def)
qed

lemma open_reads:
  assumes "mem_ok U m next" "finite (dom m)"
  shows "reads (peeks X runs st m) (mi_open X) (Inr next)"
proof -
  have look: "m memory_meta_key = held m KMemoryMeta" by (simp add: held_def)
  have "reads (peeks X runs st m) (case m memory_meta_key of
       Some bs \<Rightarrow> (case decode_memory_meta bs of
           Inr stored \<Rightarrow> oret (mm_next_vec_id stored)
         | Inl e \<Rightarrow> if e = Corrupt MemoryIndexMeta then heal_next_vec_id X else olift (Inl e))
     | None \<Rightarrow> heal_next_vec_id X) (Inr next)"
  proof (cases "held m KMemoryMeta")
    case None
    then have "next = 0" using mem_okD(9) [OF assms(1)] by simp
    then have "dom (vector_nodes m) = {}" using mem_okD(6) [OF assms(1)] by auto
    then have "used_ids m = {}" using mem_okD(5) [OF assms(1)] dom_split(1) [of "vector_nodes m"] by (auto simp: used_ids_def)
    moreover have "m(memory_meta_key := None) = m" using None look by auto
    ultimately show ?thesis
      using heal_reads [OF mem_okD(1) [OF assms(1)] assms(2), where x = None and X = X and st = st and runs = runs] None \<open>next = 0\<close>
      by (simp add: look healed_id_def)
  next
    case (Some b)
    then show ?thesis using mem_okD(9) [OF assms(1)] by (simp add: look)
  qed
  then show ?thesis unfolding mi_open_def by (intro reads_obind_Inr [OF engine.get_map]) (simp add: option.case_eq_if)
qed

text \<open>Opening over a damaged or missing allocator entry.\<close>

lemma open_heals:
  assumes "mem_ok U m next" "finite (dom m)" "case x of None \<Rightarrow> True | Some b \<Rightarrow> decode_memory_meta b = Inl (Corrupt MemoryIndexMeta)"
  shows "reads (peeks X runs st (m(memory_meta_key := x))) (mi_open X) (Inr (healed_id m))"
    "healed_id m \<le> next" "v \<in> used_ids m \<Longrightarrow> v < healed_id m"
proof -
  show "reads (peeks X runs st (m(memory_meta_key := x))) (mi_open X) (Inr (healed_id m))"
    unfolding mi_open_def
    by (intro reads_obind_Inr [OF engine.get_map]) (use assms(3) heal_reads [OF mem_okD(1) [OF assms(1)] assms(2)] in \<open>auto split: option.splits\<close>)
  have below: "w < next" if "w \<in> used_ids m" for w
    using that mem_okD(5,6) [OF assms(1)] dom_split(1) [of "vector_nodes m"] by (auto simp: used_ids_def)
  have fin: "finite (used_ids m)" by simp
  have last: "w < - 1" if "w \<in> used_ids m" for w
    using below [OF that] word_order.extremum [of "next"] by (metis order_less_le_trans)
  then show "v < healed_id m" if "v \<in> used_ids m" using that healed_above by blast
  show "healed_id m \<le> next"
  proof (cases "used_ids m = {}")
    case False
    have "Max (used_ids m) < next" using below Max_in [OF fin False] by blast
    then show ?thesis using False by (simp add: healed_id_def inc_le)
  qed (simp add: healed_id_def)
qed

end
