(* ===== verification/Memory_Forget.thy ===== *)
theory Memory_Forget
  imports Memory_Reads
begin

text \<open>
  Forgetting many memories: \<open>forget_many\<close>, which cuts the ids into batches, and \<open>purge_agent\<close>, which
  removes an agent's memories one by one. Between two batches every memory is whole or gone.
\<close>

subsection \<open>Sizes\<close>

text \<open>A group that changes nothing it needs to know in advance: its result and its map come out of the run.\<close>

lemma bind_then_achieves:
  assumes "achieves X ms runs sh p x m1 H1 e1 n1"
    and "\<And>sh' runs'. at X m1 H1 runs' sh' \<Longrightarrow> crypto (fst sh') = crypto (fst sh) \<Longrightarrow>
      (\<And>e n. room_for (fst sh) runs (e1 + e) (n1 + n) \<Longrightarrow> room_for (fst sh') runs' e n) \<Longrightarrow>
      \<exists>m' r. achieves X ms runs' sh' (k x) r m' (H' m') e2 n2 \<and> Q m' r"
  shows "\<exists>m' r. achieves X ms runs sh (obind p k) r m' (H' m') (e1 + e2) (n1 + n2) \<and> Q m' r"
proof -
  obtain st1 runs1 h1 where s: "p sh = (Inr x, (st1, h1))" "passes X (fst sh) ms st1 runs1 m1" "H1 h1"
    "store_size st1 runs1 \<le> store_size (fst sh) runs + e1" "next_sst_id st1 \<le> next_sst_id (fst sh) + 2 * n1"
    using assms(1) by (auto simp: achieves_def)
  have "at X m1 H1 runs1 (st1, h1)" "crypto st1 = crypto (fst sh)" using s(2,3) by (simp_all add: at_def passes_def)
  moreover have "room_for (fst sh) runs (e1 + e') (n1 + n') \<Longrightarrow> room_for st1 runs1 e' n'" for e' n'
    using s(4,5) by (simp add: room_for_def)
  ultimately obtain m' r where "achieves X ms runs1 (st1, h1) (k x) r m' (H' m') e2 n2" and Q: "Q m' r"
    using assms(2) [of runs1 "(st1, h1)"] by auto
  then obtain st2 runs2 h2 where t: "k x (st1, h1) = (Inr r, (st2, h2))" "passes X st1 ms st2 runs2 m'" "H' m' h2"
    "store_size st2 runs2 \<le> store_size st1 runs1 + e2" "next_sst_id st2 \<le> next_sst_id st1 + 2 * n2"
    by (auto simp: achieves_def)
  have "passes X (fst sh) ms st2 runs2 m'" by (rule passes_trans [OF s(2) t(2)])
  then have "achieves X ms runs sh (obind p k) r m' (H' m') (e1 + e2) (n1 + n2)"
    using s(1,4,5) t(1,3-5) unfolding achieves_def obind_def
    by (intro exI [of _ st2] exI [of _ runs2] exI [of _ h2]) simp
  then show ?thesis using Q by blast
qed

text \<open>What a group of deletions stages depends only on the documents of its ids.\<close>

lemma picked_cong: "\<forall>v \<in> set is. C' v = C v \<Longrightarrow> picked C' seen is = picked C seen is"
  by (induction C seen "is" rule: picked.induct) (simp_all split: option.split)

lemma kvs_size_append [simp]: "kvs_size (a @ b) = kvs_size a + kvs_size b"
  by (simp add: kvs_size_def)

definition stats_size :: "bytes \<Rightarrow> nat" where
  "stats_size agent = kvs_size (key_batch (stats_ops agent fts_stats_default True))"

lemma stats_ops_size: "kvs_size (key_batch (stats_ops agent s any)) = (if any then stats_size agent else 0)"
  by (simp add: stats_size_def stats_ops_def kvs_size_def entry_wire_size_def encode_fts_stats_def)

definition doc_deletes :: "bytes \<Rightarrow> corpus \<Rightarrow> u64 \<Rightarrow> nat" where
  "doc_deletes agent C v = (case C v of None \<Rightarrow> 0 | Some d \<Rightarrow> kvs_size (key_batch (delete_ops agent (v, d))) + stats_size agent)"

lemma picked_deletes_size:
  "kvs_size (key_batch (concat (map (delete_ops agent) (picked C seen is)))) + (if picked C seen is = [] then 0 else stats_size agent)
     \<le> (\<Sum>v \<leftarrow> is. doc_deletes agent C v)"
  by (induction C seen "is" rule: picked.induct) (auto simp: doc_deletes_def split: option.split)

lemma delete_many_size:
  "kvs_size (key_batch (delete_many_ops agent m is)) \<le> (\<Sum>v \<leftarrow> is. doc_deletes agent (corpus_of m agent) v)"
  "kvs_size (key_batch (delete_many_ops agent m [v])) = doc_deletes agent (corpus_of m agent) v"
proof -
  show "kvs_size (key_batch (delete_many_ops agent m is)) \<le> (\<Sum>v \<leftarrow> is. doc_deletes agent (corpus_of m agent) v)"
    using picked_deletes_size [of agent "corpus_of m agent" "{}" "is"]
    by (auto simp: delete_many_ops_def Let_def stats_ops_size)
  show "kvs_size (key_batch (delete_many_ops agent m [v])) = doc_deletes agent (corpus_of m agent) v"
    by (simp add: delete_many_ops_def doc_deletes_def stats_ops_size split: option.split)
qed

text \<open>The cost of a memory, as a group of its own.\<close>

definition item_of :: "bytes \<Rightarrow> memory_record \<Rightarrow> forget_item" where
  "item_of i r = (i, mr_vec_id r, mr_valid_until r)"

definition forget_cost :: "vector_index_params \<Rightarrow> (bytes \<rightharpoonup> bytes) \<Rightarrow> bytes \<Rightarrow> bytes \<Rightarrow> nat" where
  "forget_cost P m agent i = (case memories m agent i of None \<Rightarrow> 0 | Some r \<Rightarrow> forgets_room P m agent [item_of i r])"

lemma forgets_room_Cons:
  "forgets_room P m agent [(i, v, u)] = node_room P + 68 + kvs_size (key_batch (forget_ops agent [(i, v, u)])) + doc_deletes agent (corpus_of m agent) v"
  by (simp add: forgets_room_def vector_room_def forget_all_ops_def delete_many_size(2))

lemma forgets_room_le:
  "chunk \<noteq> [] \<Longrightarrow> forgets_room P m agent chunk \<le> (\<Sum>x \<leftarrow> chunk. forgets_room P m agent [x])"
proof -
  let ?C = "corpus_of m agent"
  have "kvs_size (key_batch (forget_ops agent chunk)) + length chunk * node_room P + (\<Sum>v \<leftarrow> map (\<lambda>(i, v, u). v) chunk. doc_deletes agent ?C v)
      + length chunk * 68 = (\<Sum>x \<leftarrow> chunk. forgets_room P m agent [x])"
    by (induction chunk) (auto simp: forget_ops_def kvs_size_def forgets_room_Cons)
  moreover assume "chunk \<noteq> []"
  then have "68 \<le> length chunk * 68" by (cases chunk) simp_all
  ultimately show ?thesis
    using delete_many_size(1) [of agent m "map (\<lambda>(i, v, u). v) chunk"]
    by (simp add: forgets_room_def vector_room_def forget_all_ops_def)
qed

subsection \<open>Progress\<close>

text \<open>
  The memories \<open>S\<close> of the agent are gone from \<open>m\<close>, the others are whole: as far as a crash may tell, and
  with the documents of the others as they were.
\<close>

definition pruned :: "unicode \<Rightarrow> (bytes \<rightharpoonup> bytes) \<Rightarrow> u64 \<Rightarrow> bytes \<Rightarrow> bytes set \<Rightarrow> (bytes \<rightharpoonup> bytes) \<Rightarrow> bool" where
  "pruned U m next agent S m' \<longleftrightarrow> forgotten U m next agent S m'
     \<and> (\<forall>i r. name_fits i \<longrightarrow> i \<notin> S \<longrightarrow> memories m agent i = Some r \<longrightarrow> corpus_of m' agent (mr_vec_id r) = corpus_of m agent (mr_vec_id r))"

definition partly_gone :: "unicode \<Rightarrow> (bytes \<rightharpoonup> bytes) \<Rightarrow> u64 \<Rightarrow> bytes \<Rightarrow> bytes set \<Rightarrow> (bytes \<rightharpoonup> bytes) set" where
  "partly_gone U m next agent all = {m'. \<exists>S. S \<subseteq> all \<and> forgotten U m next agent S m'}"

lemma pruned_self: "mem_ok U m next \<Longrightarrow> pruned U m next agent {} m"
  by (simp add: pruned_def forgotten_def)

lemma pruned_partly: "pruned U m next agent S m' \<Longrightarrow> S \<subseteq> all \<Longrightarrow> m' \<in> partly_gone U m next agent all"
  by (auto simp: pruned_def partly_gone_def)

lemma pruned_memories:
  "pruned U m next agent S m' \<Longrightarrow> name_fits b \<Longrightarrow> name_fits i \<Longrightarrow> memories m' b i = (if b = agent \<and> i \<in> S then None else memories m b i)"
  "pruned U m next agent S m' \<Longrightarrow> mem_ok U m' next"
  by (simp_all add: pruned_def forgotten_def)

lemma cost_sum:
  assumes "stored_chunk m agent chunk" "distinct (map fst chunk)"
  shows "(\<Sum>x \<leftarrow> chunk. forgets_room P m agent [x]) = (\<Sum>i \<in> fst ` set chunk. forget_cost P m agent i)"
proof -
  have "forgets_room P m agent [x] = forget_cost P m agent (fst x)" if "x \<in> set chunk" for x
    using assms(1) that by (cases x) (auto simp: stored_chunk_def forget_cost_def item_of_def)
  then have "(\<Sum>x \<leftarrow> chunk. forgets_room P m agent [x]) = (\<Sum>i \<leftarrow> map fst chunk. forget_cost P m agent i)"
    by (auto simp: comp_def intro!: arg_cong [where f = sum_list])
  also have "\<dots> = (\<Sum>i \<in> set (map fst chunk). forget_cost P m agent i)" by (rule sum_list_distinct_conv_sum_set [OF assms(2)])
  finally show ?thesis by simp
qed

lemma chunk_prunes:
  assumes at: "at X m' (ready P m') runs sh" and draws: "draws_ok (crypto (fst sh)) rnd" and ok: "mem_ok U m next" and a: "name_fits agent"
    and pr: "pruned U m next agent S m'" and chunk: "stored_chunk m agent chunk" "distinct (map fst chunk)" "chunk \<noteq> []" "fst ` set chunk \<inter> S = {}"
    and all: "S \<union> fst ` set chunk \<subseteq> all" and batch: "forgets_batch m agent chunk"
    and room: "room_for (fst sh) runs (\<Sum>i \<in> fst ` set chunk. forget_cost P m agent i) 1"
  shows "\<exists>m''. achieves X (partly_gone U m next agent all) runs sh (apply_forget_chunk X rnd agent chunk) (word_of_nat (length chunk)) m'' (ready P m'')
      (\<Sum>i \<in> fst ` set chunk. forget_cost P m agent i) 1 \<and> pruned U m next agent (S \<union> fst ` set chunk) m''"
proof -
  let ?vs = "map (\<lambda>(i, v, valid_until). v) chunk"
  note mem = pruned_memories(1) [OF pr] and ok' = pruned_memories(2) [OF pr]
  have stored: "stored_chunk m' agent chunk"
    using chunk(1,4) mem [OF a] by (fastforce simp: stored_chunk_def)
  have docs: "corpus_of m' agent v = corpus_of m agent v" if "(i, v, u) \<in> set chunk" for i v u
    using pr chunk(1,4) that by (fastforce simp: pruned_def stored_chunk_def)
  have same: "picked (corpus_of m' agent) {} ?vs = picked (corpus_of m agent) {} ?vs"
    using docs by (intro picked_cong) auto
  have batch': "forgets_batch m' agent chunk"
    using batch by (simp add: forgets_batch_def forget_all_ops_def delete_many_ops_def Let_def same stats_ops_def split: if_splits)
  have "forgets_room P m' agent [x] = forgets_room P m agent [x]" if "x \<in> set chunk" for x
    using docs that by (cases x) (auto simp: forgets_room_Cons doc_deletes_def)
  then have "(\<Sum>x \<leftarrow> chunk. forgets_room P m' agent [x]) = (\<Sum>x \<leftarrow> chunk. forgets_room P m agent [x])"
    by (auto intro!: arg_cong [where f = sum_list])
  then have le: "forgets_room P m' agent chunk \<le> (\<Sum>i \<in> fst ` set chunk. forget_cost P m agent i)"
    using forgets_room_le [OF chunk(3), of P m' agent] cost_sum [OF chunk(1,2), of P] by simp
  obtain m'' where m'': "achieves X {m', m''} runs sh (apply_forget_chunk X rnd agent chunk) (word_of_nat (length chunk)) m'' (ready P m'') (forgets_room P m' agent chunk) 1"
    "forgotten U m' next agent (fst ` set chunk) m''" "corpus_of m'' agent = corpus_of m' agent |` (- set ?vs)"
    using chunk_achieves [OF at draws ok' a stored batch' room_mono [OF room le]] by blast
  have "corpus_of m'' agent (mr_vec_id r) = corpus_of m agent (mr_vec_id r)"
    if i: "name_fits i" "i \<notin> S \<union> fst ` set chunk" "memories m agent i = Some r" for i r
  proof -
    have "mr_vec_id r \<notin> set ?vs"
    proof
      assume "mr_vec_id r \<in> set ?vs"
      then obtain j u where j: "(j, mr_vec_id r, u) \<in> set chunk" by auto
      then obtain rj where "name_fits j" "memories m agent j = Some rj" "mr_vec_id rj = mr_vec_id r" using chunk(1) by (auto simp: stored_chunk_def)
      then have "i = j" using mem_okD(3) [OF ok a] i(1,3) unfolding memory_linked_def by (metis option.inject vec_map_entry.ext_inject)
      then show False using i(2) j by force
    qed
    moreover have "corpus_of m' agent (mr_vec_id r) = corpus_of m agent (mr_vec_id r)" using pr i by (simp add: pruned_def)
    ultimately show ?thesis by (simp add: m''(3))
  qed
  moreover have "forgotten U m next agent (S \<union> fst ` set chunk) m''"
    using m''(2) mem unfolding forgotten_def by auto
  ultimately have gone: "pruned U m next agent (S \<union> fst ` set chunk) m''" by (simp add: pruned_def)
  have "{m', m''} \<subseteq> partly_gone U m next agent all" using pruned_partly [OF pr] pruned_partly [OF gone all] all by simp
  then show ?thesis using achieves_mono [OF m''(1) _ _ le] gone by blast
qed

subsection \<open>Reading before a group is cut\<close>

lemma footprint_total:
  "name_fits agent \<Longrightarrow> \<forall>t \<in> set doc. name_fits (dt_term t) \<Longrightarrow>
    \<exists>n. rfold (\<lambda>t total. rbind (postings_key agent (dt_term t) v) (\<lambda>key. Inr (total + length key))) doc k = Inr n"
  by (induction doc arbitrary: k) (simp_all add: postings_key_ok)

lemma delete_footprint_reads:
  assumes "typed_map m" "name_fits agent" "entries_ok m agent"
  shows "\<exists>n. reads (peeks X runs st m) (delete_footprint X agent v) (Inr n)"
proof (cases "corpus_of m agent v")
  case None
  then have "held m (KDocTerms agent v) = None" using corpus_None [OF assms(1,2)] by simp
  then have "reads (peeks X runs st m) (delete_footprint X agent v) (Inr 0)"
    by (simp add: delete_footprint_def docterms_key_ok [OF assms(2)] reads_obind_Inr [OF doc_key_reads [OF assms(2)]])
  then show ?thesis by blast
next
  case (Some d)
  then obtain b where b: "held m (KDocTerms agent v) = Some b" "decode_doc_terms b = Inr d"
    using corpus_of_held(1) [OF assms(1,2)] by blast
  have "\<forall>t \<in> set d. name_fits (dt_term t)" using assms(3) Some by (auto simp: entries_ok_def doc_ok_def)
  then obtain n where "rfold (\<lambda>t total. rbind (postings_key agent (dt_term t) v) (\<lambda>key. Inr (total + length key))) d
      (length (key_bytes (KDocTerms agent v))) = Inr n" using footprint_total [OF assms(2)] by blast
  then have "reads (peeks X runs st m) (delete_footprint X agent v) (Inr n)"
    by (simp add: delete_footprint_def docterms_key_ok [OF assms(2)] reads_obind_Inr [OF doc_key_reads [OF assms(2)]] b)
  then show ?thesis by blast
qed

lemma reads_with_handle:
  "(\<And>h. H h \<Longrightarrow> reads (peeks_with X runs s m H) (k h) r) \<Longrightarrow> reads (peeks_with X runs s m H) (obind handle k) r"
  unfolding reads_def peeks_with_def obind_def handle_def by fastforce

lemma item_bytes_reads:
  assumes "mem_ok U m next" "name_fits agent" "name_fits i"
  shows "\<exists>b. reads (peeks_with X runs st m (ready P m)) (forget_item_bytes X agent i r) (Inr b)"
proof -
  have e: "entries_ok m agent" using mem_okD(2) [OF assms(1,2)] by (simp add: fts_ok_def)
  obtain n where n: "reads (peeks_with X runs st m (ready P m)) (on_store (delete_footprint X agent (mr_vec_id r))) (Inr n)"
    using reads_on_store delete_footprint_reads [OF mem_okD(1) [OF assms(1)] assms(2) e] by blast
  obtain key where key: "record_key agent i = Inr key" using memory_keys_ok [OF assms(2,3)] encode_key_ok [of "KRecord agent i"] by fastforce
  have exp: "\<exists>k. expiry_key agent t i = Inr k" for t using memory_keys_ok [OF assms(2,3)] encode_key_ok [of "KExpiry agent t i"] by fastforce
  define total where "total = length key + length (vecmap_key (mr_vec_id r))
    + (length (node_key 0) + vp_dim P * 4 + vp_max_degree P * 8 + 64) + n"
  have "reads (peeks_with X runs st m (ready P m)) (forget_item_bytes X agent i r)
      (case mr_valid_until r of None \<Rightarrow> Inr total | Some t \<Rightarrow> rbind (expiry_key agent t i) (\<lambda>key. Inr (total + length key)))"
    unfolding forget_item_bytes_def key obind_simps
  proof (rule reads_with_handle)
    fix h assume "ready P m h"
    then have "approx_tombstone_wire_bytes h = length (node_key 0) + vp_dim P * 4 + vp_max_degree P * 8 + 64"
      by (simp add: ready_def approx_tombstone_wire_bytes_def)
    note bytes = this
    show "reads (peeks_with X runs st m (ready P m)) (obind (on_store (delete_footprint X agent (mr_vec_id r))) (\<lambda>footprint.
          let item_bytes = length key + length (vecmap_key (mr_vec_id r)) + approx_tombstone_wire_bytes h + footprint
          in olift (case mr_valid_until r of None \<Rightarrow> Inr item_bytes | Some until \<Rightarrow> rbind (expiry_key agent until i) (\<lambda>key. Inr (item_bytes + length key)))))
        (case mr_valid_until r of None \<Rightarrow> Inr total | Some t \<Rightarrow> rbind (expiry_key agent t i) (\<lambda>key. Inr (total + length key)))"
      unfolding bytes total_def Let_def by (intro reads_obind_Inr [OF n]) simp
  qed
  moreover have "\<exists>b. (case mr_valid_until r of None \<Rightarrow> Inr total | Some t \<Rightarrow> rbind (expiry_key agent t i) (\<lambda>key. Inr (total + length key))) = Inr b"
  proof (cases "mr_valid_until r")
    case (Some t)
    then show ?thesis using exp [of t] by auto
  qed simp
  ultimately show ?thesis by metis
qed

subsection \<open>The loop\<close>

definition forget_rest :: "externals \<Rightarrow> (nat \<Rightarrow> nat \<Rightarrow> nat \<Rightarrow> bytes) \<Rightarrow> bytes \<Rightarrow> forget_options \<Rightarrow> bytes list \<Rightarrow> forget_state \<Rightarrow> (vstate, u64) op" where
  "forget_rest X rnds agent opts ids fs =
     obind (ofold (forget_next X rnds agent opts) ids fs) (\<lambda>fs.
     obind (if fs_chunk fs \<noteq> [] then flush_forgets X rnds agent fs else oret fs) (\<lambda>fs. oret (fs_removed fs)))"

lemma forget_rest_Cons: "forget_rest X rnds agent opts (i # ids) fs = obind (forget_next X rnds agent opts i fs) (forget_rest X rnds agent opts ids)"
  by (simp add: forget_rest_def [abs_def] obind_assoc)

lemma forget_many_rest: "mi_forget_many X rnds agent ids opts =
  forget_rest X rnds agent opts ids \<lparr>fs_seen = {}, fs_chunk = [], fs_bytes = CHUNK_OVERHEAD_BYTES, fs_removed = 0, fs_batches = 0\<rparr>"
  by (simp add: mi_forget_many_def forget_rest_def)

text \<open>What the loop keeps: \<open>S\<close> is gone, the pending group is of other memories, both were seen.\<close>

definition loop_ok :: "unicode \<Rightarrow> (bytes \<rightharpoonup> bytes) \<Rightarrow> u64 \<Rightarrow> bytes \<Rightarrow> nat \<Rightarrow> (bytes \<rightharpoonup> bytes) \<Rightarrow> bytes set \<Rightarrow> forget_state \<Rightarrow> bool" where
  "loop_ok U m next agent k m' S fs \<longleftrightarrow> pruned U m next agent S m' \<and> finite S \<and> fs_removed fs = word_of_nat (card S)
     \<and> stored_chunk m agent (fs_chunk fs) \<and> distinct (map fst (fs_chunk fs)) \<and> fst ` set (fs_chunk fs) \<inter> S = {}
     \<and> S \<union> fst ` set (fs_chunk fs) \<subseteq> fs_seen fs \<and> length (fs_chunk fs) \<le> k"

text \<open>The memories still to go.\<close>

definition to_go :: "(bytes \<rightharpoonup> bytes) \<Rightarrow> bytes \<Rightarrow> forget_state \<Rightarrow> bytes list \<Rightarrow> bytes set" where
  "to_go m agent fs ids = fst ` set (fs_chunk fs) \<union> {i \<in> set ids. memories m agent i \<noteq> None \<and> i \<notin> fs_seen fs}"

text \<open>Every group of at most \<open>k\<close> memories fits a batch.\<close>

definition groups_fit :: "(bytes \<rightharpoonup> bytes) \<Rightarrow> bytes \<Rightarrow> nat \<Rightarrow> bool" where
  "groups_fit m agent k \<longleftrightarrow> (\<forall>chunk. stored_chunk m agent chunk \<longrightarrow> distinct (map fst chunk) \<longrightarrow> length chunk \<le> k \<longrightarrow> forgets_batch m agent chunk)"

lemma flush_step:
  assumes at: "at X m' (ready P m') runs sh" and draws: "\<forall>j. draws_ok (crypto (fst sh)) (rnds j)" and ok: "mem_ok U m next" and a: "name_fits agent"
    and loop: "loop_ok U m next agent k m' S fs" and some: "fs_chunk fs \<noteq> []" and fit: "groups_fit m agent k"
    and all: "S \<union> fst ` set (fs_chunk fs) \<subseteq> all"
    and room: "room_for (fst sh) runs (\<Sum>i \<in> fst ` set (fs_chunk fs). forget_cost P m agent i) 1"
  shows "\<exists>m'' fs'. achieves X (partly_gone U m next agent all) runs sh (flush_forgets X rnds agent fs) fs' m'' (ready P m'')
      (\<Sum>i \<in> fst ` set (fs_chunk fs). forget_cost P m agent i) 1
    \<and> fs_chunk fs' = [] \<and> fs_seen fs' = fs_seen fs \<and> loop_ok U m next agent k m'' (S \<union> fst ` set (fs_chunk fs)) fs'"
proof -
  let ?G = "fst ` set (fs_chunk fs)"
  note l = loop [unfolded loop_ok_def]
  have batch: "forgets_batch m agent (fs_chunk fs)" using fit l by (simp add: groups_fit_def)
  obtain m'' where m'': "achieves X (partly_gone U m next agent all) runs sh (apply_forget_chunk X (rnds (fs_batches fs)) agent (fs_chunk fs))
      (word_of_nat (length (fs_chunk fs))) m'' (ready P m'') (\<Sum>i \<in> ?G. forget_cost P m agent i) 1" "pruned U m next agent (S \<union> ?G) m''"
    using chunk_prunes [OF at _ ok a _ _ _ some _ all batch room, of "rnds (fs_batches fs)"] l draws by blast
  let ?fs = "fs\<lparr>fs_removed := fs_removed fs + word_of_nat (length (fs_chunk fs)), fs_chunk := [], fs_bytes := CHUNK_OVERHEAD_BYTES, fs_batches := fs_batches fs + 1\<rparr>"
  have "m'' \<in> partly_gone U m next agent all" by (rule pruned_partly [OF m''(2) all])
  then have "achieves X (partly_gone U m next agent all) runs sh (flush_forgets X rnds agent fs) ?fs m'' (ready P m'')
      (\<Sum>i \<in> ?G. forget_cost P m agent i) 1"
    unfolding flush_forgets_def by (intro achieves_bind [OF m''(1), where ?e2.0 = 0 and ?n2.0 = 0]) (auto intro: achieves_ret)
  moreover have "card (S \<union> ?G) = card S + length (fs_chunk fs)"
    using l card_Un_disjoint [of S ?G] distinct_card [of "map fst (fs_chunk fs)"] by (auto simp: Int_commute)
  then have "loop_ok U m next agent k m'' (S \<union> ?G) ?fs" using l m''(2) by (simp add: loop_ok_def stored_chunk_def)
  ultimately show ?thesis by (intro exI [of _ m''] exI [of _ ?fs]) simp
qed

lemma loop_add:
  assumes "loop_ok U m next agent k m' S fs" "fs_chunk fs = [] \<or> length (fs_chunk fs) < k" "memories m agent i = Some r" "name_fits i"
    and "i \<in> fs_seen fs" "i \<notin> S" "i \<notin> fst ` set (fs_chunk fs)" "1 \<le> k"
  shows "loop_ok U m next agent k m' S (fs\<lparr>fs_chunk := fs_chunk fs @ [(i, mr_vec_id r, mr_valid_until r)], fs_bytes := b\<rparr>)"
  using assms by (auto simp: loop_ok_def stored_chunk_def)

text \<open>A run that removes \<open>go\<close> after \<open>S\<close>, and answers with the number of both.\<close>

definition clears :: "externals \<Rightarrow> unicode \<Rightarrow> vector_index_params \<Rightarrow> (bytes \<rightharpoonup> bytes) \<Rightarrow> u64 \<Rightarrow> bytes \<Rightarrow> bytes set \<Rightarrow> run list \<Rightarrow> vstate \<Rightarrow>
    (vstate, u64) op \<Rightarrow> bytes set \<Rightarrow> bytes set \<Rightarrow> bool" where
  "clears X U P m next agent all runs sh p S go \<longleftrightarrow>
     (\<exists>m'' r. achieves X (partly_gone U m next agent all) runs sh p r m'' (ready P m'') (\<Sum>i \<in> go. forget_cost P m agent i) (card go)
        \<and> r = word_of_nat (card (S \<union> go)) \<and> pruned U m next agent (S \<union> go) m'')"

lemma loop_last:
  assumes ok: "mem_ok U m next" and a: "name_fits agent" and draws: "\<forall>j. draws_ok (crypto (fst sh)) (rnds j)" and fit: "groups_fit m agent (max 1 (fo_max_items opts))"
    and at: "at X m' (ready P m') runs sh" and loop: "loop_ok U m next agent (max 1 (fo_max_items opts)) m' S fs"
    and all: "S \<union> to_go m agent fs [] \<subseteq> all"
    and room: "room_for (fst sh) runs (\<Sum>i \<in> to_go m agent fs []. forget_cost P m agent i) (card (to_go m agent fs []))"
  shows "clears X U P m next agent all runs sh (forget_rest X rnds agent opts [] fs) S (to_go m agent fs [])"
proof -
  note l = loop [unfolded loop_ok_def]
  have go: "to_go m agent fs [] = fst ` set (fs_chunk fs)" by (simp add: to_go_def)
  show ?thesis
  proof (cases "fs_chunk fs = []")
    case True
    have "m' \<in> partly_gone U m next agent all" using l all by (intro pruned_partly [of _ _ _ _ S]) auto
    then have "achieves X (partly_gone U m next agent all) runs sh (oret (fs_removed fs)) (word_of_nat (card S)) m' (ready P m') e n" for e n
      using achieves_ret [OF at] l by simp
    then show ?thesis using l True by (auto simp: forget_rest_def go clears_def)
  next
    case False
    have card: "1 \<le> card (fst ` set (fs_chunk fs))" using False by (simp add: Suc_le_eq card_gt_0_iff)
    have room1: "room_for (fst sh) runs (\<Sum>i \<in> fst ` set (fs_chunk fs). forget_cost P m agent i) 1"
      by (rule room_mono [OF room]) (use card in \<open>simp_all add: go\<close>)
    obtain m'' fs' where fl: "achieves X (partly_gone U m next agent all) runs sh (flush_forgets X rnds agent fs) fs' m'' (ready P m'')
        (\<Sum>i \<in> fst ` set (fs_chunk fs). forget_cost P m agent i) 1"
      "loop_ok U m next agent (max 1 (fo_max_items opts)) m'' (S \<union> fst ` set (fs_chunk fs)) fs'"
      using flush_step [OF at draws ok a loop False fit all [unfolded go] room1] by blast
    have "m'' \<in> partly_gone U m next agent all"
      using fl(2) all unfolding go loop_ok_def by (intro pruned_partly) auto
    then have "achieves X (partly_gone U m next agent all) runs sh (obind (flush_forgets X rnds agent fs) (\<lambda>fs. oret (fs_removed fs))) (fs_removed fs') m'' (ready P m'')
        (\<Sum>i \<in> fst ` set (fs_chunk fs). forget_cost P m agent i) (card (fst ` set (fs_chunk fs)))"
      by (intro achieves_bind [OF fl(1), where ?e2.0 = 0 and ?n2.0 = 0]) (use card in \<open>auto intro: achieves_ret\<close>)
    then show ?thesis using False fl(2) by (auto simp: forget_rest_def go loop_ok_def clears_def)
  qed
qed

text \<open>A full group is written before the next memory is added.\<close>

lemma loop_cut:
  assumes ok: "mem_ok U m next" and a: "name_fits agent" and draws: "\<forall>j. draws_ok (crypto (fst sh)) (rnds j)" and fit: "groups_fit m agent (max 1 (fo_max_items opts))"
    and at: "at X m' (ready P m') runs sh" and loop: "loop_ok U m next agent (max 1 (fo_max_items opts)) m' S fs" and some: "fs_chunk fs \<noteq> []"
    and i: "memories m agent i = Some r" "name_fits i" "i \<in> fs_seen fs" "i \<notin> S" "i \<notin> fst ` set (fs_chunk fs)"
    and rest: "rest = insert i {j \<in> set ids. memories m agent j \<noteq> None \<and> j \<notin> fs_seen fs}" and go: "go = fst ` set (fs_chunk fs) \<union> rest"
    and all: "S \<union> go \<subseteq> all" and room: "room_for (fst sh) runs (\<Sum>i \<in> go. forget_cost P m agent i) (card go)"
    and add: "add = (\<lambda>fs. fs\<lparr>fs_chunk := fs_chunk fs @ [(i, mr_vec_id r, mr_valid_until r)], fs_bytes := fs_bytes fs + b\<rparr>)"
    and IH: "\<And>m' runs' sh' S fs. at X m' (ready P m') runs' sh' \<Longrightarrow> crypto (fst sh') = crypto (fst sh) \<Longrightarrow>
      loop_ok U m next agent (max 1 (fo_max_items opts)) m' S fs \<Longrightarrow> S \<union> to_go m agent fs ids \<subseteq> all \<Longrightarrow>
      room_for (fst sh') runs' (\<Sum>i \<in> to_go m agent fs ids. forget_cost P m agent i) (card (to_go m agent fs ids)) \<Longrightarrow>
      clears X U P m next agent all runs' sh' (forget_rest X rnds agent opts ids fs) S (to_go m agent fs ids)"
  shows "clears X U P m next agent all runs sh (obind (flush_forgets X rnds agent fs) (\<lambda>fs. forget_rest X rnds agent opts ids (add fs))) S go"
proof -
  let ?G = "fst ` set (fs_chunk fs)" and ?MS = "partly_gone U m next agent all"
  note l = loop [unfolded loop_ok_def]
  have disjoint: "?G \<inter> rest = {}" using l i(5) by (auto simp: rest)
  have fin: "finite rest" by (simp add: rest)
  have split: "(\<Sum>i \<in> go. forget_cost P m agent i) = (\<Sum>i \<in> ?G. forget_cost P m agent i) + (\<Sum>i \<in> rest. forget_cost P m agent i)"
    "card go = card ?G + card rest" unfolding go using disjoint fin by (simp_all add: sum.union_disjoint card_Un_disjoint)
  have card: "1 \<le> card ?G" using some by (simp add: Suc_le_eq card_gt_0_iff)
  have "room_for (fst sh) runs (\<Sum>i \<in> ?G. forget_cost P m agent i) 1"
    by (rule room_mono [OF room]) (use card in \<open>simp_all add: split\<close>)
  moreover have "S \<union> ?G \<subseteq> all" using all by (auto simp: go)
  ultimately obtain m1 fs1 where fl: "achieves X ?MS runs sh (flush_forgets X rnds agent fs) fs1 m1 (ready P m1) (\<Sum>i \<in> ?G. forget_cost P m agent i) 1"
    "fs_chunk fs1 = []" "fs_seen fs1 = fs_seen fs" "loop_ok U m next agent (max 1 (fo_max_items opts)) m1 (S \<union> ?G) fs1"
    using flush_step [OF at draws ok a loop some fit] by blast
  have loop3: "loop_ok U m next agent (max 1 (fo_max_items opts)) m1 (S \<union> ?G) (add fs1)"
    unfolding add by (rule loop_add [OF fl(4) _ i(1,2)]) (use fl(2,3) i(3-5) in auto)
  have go3: "to_go m agent (add fs1) ids = rest" by (auto simp: to_go_def fl(2,3) add rest)
  have union: "(S \<union> ?G) \<union> rest = S \<union> go" unfolding go by (simp only: Un_assoc)
  have "\<exists>m'' r'. achieves X ?MS runs sh (obind (flush_forgets X rnds agent fs) (\<lambda>fs. forget_rest X rnds agent opts ids (add fs))) r' m'' (ready P m'')
        ((\<Sum>i \<in> ?G. forget_cost P m agent i) + (\<Sum>i \<in> rest. forget_cost P m agent i)) (1 + card rest)
      \<and> r' = word_of_nat (card (S \<union> go)) \<and> pruned U m next agent (S \<union> go) m''"
  proof (rule bind_then_achieves [OF fl(1)], goal_cases)
    case (1 sh4 runs4)
    have "room_for (fst sh4) runs4 (\<Sum>i \<in> rest. forget_cost P m agent i) (card rest)"
      by (rule 1(3), rule room_mono [OF room]) (use card in \<open>simp_all add: split\<close>)
    then show ?case using IH [OF 1(1,2) loop3, unfolded go3 union clears_def, OF all] by blast
  qed
  then obtain m'' r' where res: "achieves X ?MS runs sh (obind (flush_forgets X rnds agent fs) (\<lambda>fs. forget_rest X rnds agent opts ids (add fs))) r' m'' (ready P m'')
        ((\<Sum>i \<in> ?G. forget_cost P m agent i) + (\<Sum>i \<in> rest. forget_cost P m agent i)) (1 + card rest)"
    "r' = word_of_nat (card (S \<union> go)) \<and> pruned U m next agent (S \<union> go) m''" by blast
  have "achieves X ?MS runs sh (obind (flush_forgets X rnds agent fs) (\<lambda>fs. forget_rest X rnds agent opts ids (add fs))) r' m'' (ready P m'')
        (\<Sum>i \<in> go. forget_cost P m agent i) (card go)"
    by (rule achieves_mono [OF res(1)]) (use card in \<open>simp_all add: split\<close>)
  then show ?thesis using res(2) unfolding clears_def by blast
qed

lemma forget_loop:
  assumes ok: "mem_ok U m next" and a: "name_fits agent" and draws: "\<forall>j. draws_ok C (rnds j)" and fit: "groups_fit m agent (max 1 (fo_max_items opts))"
  shows "at X m' (ready P m') runs sh \<Longrightarrow> crypto (fst sh) = C \<Longrightarrow> loop_ok U m next agent (max 1 (fo_max_items opts)) m' S fs \<Longrightarrow>
    \<forall>i \<in> set ids. name_fits i \<Longrightarrow> S \<union> to_go m agent fs ids \<subseteq> all \<Longrightarrow>
    room_for (fst sh) runs (\<Sum>i \<in> to_go m agent fs ids. forget_cost P m agent i) (card (to_go m agent fs ids)) \<Longrightarrow>
    clears X U P m next agent all runs sh (forget_rest X rnds agent opts ids fs) S (to_go m agent fs ids)"
proof (induction ids arbitrary: m' runs sh S fs)
  case Nil
  then show ?case using loop_last [OF ok a _ fit] draws by blast
next
  case (Cons i ids)
  let ?k = "max 1 (fo_max_items opts)"
  note l = Cons.prems(3) [unfolded loop_ok_def]
  have n: "name_fits i" "\<forall>j \<in> set ids. name_fits j" using Cons.prems(4) by simp_all
  show ?case
  proof (cases "i \<in> fs_seen fs")
    case True
    then have go: "to_go m agent fs (i # ids) = to_go m agent fs ids" by (auto simp: to_go_def)
    have "forget_rest X rnds agent opts (i # ids) fs = forget_rest X rnds agent opts ids fs"
      by (simp add: forget_rest_Cons forget_next_def True)
    then show ?thesis using Cons.IH [OF Cons.prems(1-3) n(2) Cons.prems(5,6) [unfolded go]] by (simp add: go)
  next
    case new: False
    define fs2 where "fs2 = fs\<lparr>fs_seen := insert i (fs_seen fs)\<rparr>"
    have fs2: "fs_chunk fs2 = fs_chunk fs" "fs_seen fs2 = insert i (fs_seen fs)" by (simp_all add: fs2_def)
    have pr: "pruned U m next agent S m'" and unseen: "i \<notin> S" "i \<notin> fst ` set (fs_chunk fs2)" using l new by (auto simp: fs2)
    note mem = pruned_memories(1) [OF pr a n(1)] and ok' = pruned_memories(2) [OF pr]
    have loop2: "loop_ok U m next agent ?k m' S fs2" using l by (auto simp: loop_ok_def fs2_def)
    have get: "reads (peeks_with X runs s m' (ready P m')) (on_store (mi_get X agent i)) (Inr (memories m agent i))" for s
      using reads_on_store [OF get_reads [OF mem_okD(1) [OF ok'] a n(1)]] mem unseen by simp
    let ?add = "\<lambda>r b fs. fs\<lparr>fs_chunk := fs_chunk fs @ [(i, mr_vec_id r, mr_valid_until r)], fs_bytes := fs_bytes fs + b\<rparr>"
    let ?cut = "\<lambda>b. fs_chunk fs2 \<noteq> [] \<and> (length (fs_chunk fs2) \<ge> ?k \<or> fs_bytes fs2 + b > fo_max_wal_bytes opts)"
    let ?go = "to_go m agent fs (i # ids)"
    have "forget_next X rnds agent opts i fs = obind (on_store (mi_get X agent i)) (\<lambda>found. case found of None \<Rightarrow> oret fs2 | Some r \<Rightarrow>
               obind (forget_item_bytes X agent i r) (\<lambda>b. obind (if ?cut b then flush_forgets X rnds agent fs2 else oret fs2) (\<lambda>fs. oret (?add r b fs))))"
      by (simp only: forget_next_def new if_False fs2_def Let_def)
    then have body: "forget_rest X rnds agent opts (i # ids) fs = obind (on_store (mi_get X agent i)) (\<lambda>found. obind (case found of None \<Rightarrow> oret fs2 | Some r \<Rightarrow>
               obind (forget_item_bytes X agent i r) (\<lambda>b. obind (if ?cut b then flush_forgets X rnds agent fs2 else oret fs2) (\<lambda>fs. oret (?add r b fs))))
          (forget_rest X rnds agent opts ids))"
      by (simp only: forget_rest_Cons obind_assoc)
    show ?thesis
      unfolding body clears_def
    proof (rule read_then_achieves [OF get Cons.prems(1)], goal_cases)
      case (1 sh2)
      have C2: "crypto (fst sh2) = C" and room2: "room_for (fst sh2) runs (\<Sum>i \<in> ?go. forget_cost P m agent i) (card ?go)"
        using 1(2,3) Cons.prems(2,6) by simp_all
      show ?case
      proof (cases "memories m agent i")
        case None
        then have go: "?go = to_go m agent fs2 ids" by (auto simp: to_go_def fs2_def)
        show ?thesis using Cons.IH [OF 1(1) C2 loop2 n(2)] Cons.prems(5) room2 by (simp add: None go clears_def)
      next
        case (Some r)
        obtain b where b: "reads (peeks_with X runs (fst sh2) m' (ready P m')) (forget_item_bytes X agent i r) (Inr b)"
          using item_bytes_reads [OF ok' a n(1)] by blast
        show ?thesis
          unfolding Some option.case obind_assoc
        proof (rule read_then_achieves [OF b 1(1)], goal_cases)
          case (1 sh3)
          have C3: "crypto (fst sh3) = C" and room3: "room_for (fst sh3) runs (\<Sum>i \<in> ?go. forget_cost P m agent i) (card ?go)"
            using 1(2,3) C2 room2 by simp_all
          show ?case
          proof (cases "?cut b")
            case False
            then have "fs_chunk fs2 = [] \<or> length (fs_chunk fs2) < ?k" by (auto simp: not_le)
            from loop_add [OF loop2 this Some n(1)] have loop3: "loop_ok U m next agent ?k m' S (?add r b fs2)"
              using unseen by (auto simp: fs2)
            have go: "to_go m agent (?add r b fs2) ids = ?go" using Some new by (auto simp: to_go_def fs2)
            show ?thesis
              using Cons.IH [OF 1(1) C3 loop3 n(2), unfolded go clears_def, OF Cons.prems(5) room3] by (simp only: False if_False obind_simps)
          next
            case True
            have go: "?go = fst ` set (fs_chunk fs2) \<union> insert i {j \<in> set ids. memories m agent j \<noteq> None \<and> j \<notin> fs_seen fs2}"
              using Some new by (auto simp: to_go_def fs2)
            have "clears X U P m next agent all runs sh3 (obind (flush_forgets X rnds agent fs2) (\<lambda>fs. forget_rest X rnds agent opts ids (?add r b fs))) S ?go"
              by (rule loop_cut [OF ok a _ fit 1(1) loop2 _ Some n(1) _ unseen refl go Cons.prems(5) room3 refl])
                (use draws C3 True Cons.IH n(2) in \<open>simp_all add: fs2\<close>)
            then show ?thesis unfolding clears_def if_P [OF True] by (simp only: obind_simps)
          qed
        qed
      qed
    qed
  qed
qed

lemma forget_many_achieves:
  assumes at: "at X m (ready P m) runs sh" and draws: "\<forall>j. draws_ok (crypto (fst sh)) (rnds j)" and ok: "mem_ok U m next" and a: "name_fits agent"
    and fit: "groups_fit m agent (max 1 (fo_max_items opts))" and n: "\<forall>i \<in> set ids. name_fits i" and gone: "gone = {i \<in> set ids. memories m agent i \<noteq> None}"
    and room: "room_for (fst sh) runs (\<Sum>i \<in> gone. forget_cost P m agent i) (card gone)"
  shows "\<exists>m' r. achieves X (partly_gone U m next agent gone) runs sh (mi_forget_many X rnds agent ids opts) r m' (ready P m')
      (\<Sum>i \<in> gone. forget_cost P m agent i) (card gone) \<and> r = word_of_nat (card gone) \<and> pruned U m next agent gone m'"
proof -
  let ?fs = "\<lparr>fs_seen = {}, fs_chunk = [], fs_bytes = CHUNK_OVERHEAD_BYTES, fs_removed = 0, fs_batches = 0\<rparr>"
  have loop: "loop_ok U m next agent (max 1 (fo_max_items opts)) m {} ?fs" using pruned_self [OF ok] by (simp add: loop_ok_def stored_chunk_def)
  have go: "to_go m agent ?fs ids = gone" by (simp add: to_go_def gone)
  show ?thesis
    using forget_loop [OF ok a draws fit at refl loop n, of gone] room unfolding go forget_many_rest clears_def by simp
qed

subsection \<open>Purging\<close>

lemma purge_is_chunk: "purge_one X rnds agent (i, r) k =
    obind (apply_forget_chunk X (rnds k) agent [(i, mr_vec_id r, mr_valid_until r)]) (\<lambda>_. oret (k + 1))"
  unfolding purge_one_def apply_forget_chunk_def stage_delete_def delete_one_group Let_def
  by (simp add: obind_assoc)

lemma purge_loop:
  assumes ok: "mem_ok U m next" and a: "name_fits agent" and draws: "\<forall>j. draws_ok C (rnds j)" and fit: "groups_fit m agent 1"
  shows "at X m' (ready P m') runs sh \<Longrightarrow> crypto (fst sh) = C \<Longrightarrow> pruned U m next agent S m' \<Longrightarrow>
    \<forall>(i, r) \<in> set l. name_fits i \<and> memories m agent i = Some r \<and> i \<notin> S \<Longrightarrow> distinct (map fst l) \<Longrightarrow> S \<union> fst ` set l \<subseteq> all \<Longrightarrow>
    room_for (fst sh) runs (\<Sum>i \<leftarrow> map fst l. forget_cost P m agent i) (length l) \<Longrightarrow>
    \<exists>m'' r. achieves X (partly_gone U m next agent all) runs sh (ofold (purge_one X rnds agent) l k) r m'' (ready P m'')
        (\<Sum>i \<leftarrow> map fst l. forget_cost P m agent i) (length l) \<and> r = k + length l \<and> pruned U m next agent (S \<union> fst ` set l) m''"
proof (induction l arbitrary: m' runs sh S k)
  case Nil
  then have "m' \<in> partly_gone U m next agent all" by (intro pruned_partly [of _ _ _ _ S]) auto
  then show ?case using Nil.prems(3) by (intro exI [of _ m'] exI [of _ k]) (simp add: achieves_ret [OF Nil.prems(1)])
next
  case (Cons x l)
  obtain i r where x: "x = (i, r)" by (cases x)
  let ?item = "(i, mr_vec_id r, mr_valid_until r)"
  have i: "name_fits i" "memories m agent i = Some r" "i \<notin> S" using Cons.prems(4) by (simp_all add: x)
  have chunk: "stored_chunk m agent [?item]" "distinct (map fst [?item])" using i by (simp_all add: stored_chunk_def)
  then have batch: "forgets_batch m agent [?item]" using fit by (simp add: groups_fit_def)
  have room: "room_for (fst sh) runs (\<Sum>j \<in> fst ` set [?item]. forget_cost P m agent j) 1"
    by (rule room_mono [OF Cons.prems(7)]) (simp_all add: x)
  have all: "S \<union> fst ` set [?item] \<subseteq> all" using Cons.prems(6) by (simp add: x)
  obtain m1 where m1: "achieves X (partly_gone U m next agent all) runs sh (apply_forget_chunk X (rnds k) agent [?item]) 1 m1 (ready P m1)
      (forget_cost P m agent i) 1" "pruned U m next agent (insert i S) m1"
    using chunk_prunes [OF Cons.prems(1) _ ok a Cons.prems(3) chunk _ _ all batch room, of "rnds k"] draws Cons.prems(2) i(3) by auto
  have "\<exists>m'' r. achieves X (partly_gone U m next agent all) runs sh
        (obind (apply_forget_chunk X (rnds k) agent [?item]) (\<lambda>_. ofold (purge_one X rnds agent) l (k + 1))) r m'' (ready P m'')
        (forget_cost P m agent i + (\<Sum>i \<leftarrow> map fst l. forget_cost P m agent i)) (1 + length l)
      \<and> r = k + 1 + length l \<and> pruned U m next agent (insert i S \<union> fst ` set l) m''"
  proof (rule bind_then_achieves [OF m1(1)], goal_cases)
    case (1 sh2 runs2)
    have "room_for (fst sh2) runs2 (\<Sum>i \<leftarrow> map fst l. forget_cost P m agent i) (length l)"
      by (rule 1(3), rule room_mono [OF Cons.prems(7)]) (simp_all add: x)
    moreover have "\<forall>(j, r) \<in> set l. name_fits j \<and> memories m agent j = Some r \<and> j \<notin> insert i S"
      using Cons.prems(4,5) by (force simp: x)
    moreover have "distinct (map fst l)" "insert i S \<union> fst ` set l \<subseteq> all" using Cons.prems(5,6) by (simp_all add: x)
    moreover have "crypto (fst sh2) = C" using 1(2) Cons.prems(2) by simp
    ultimately show ?case using Cons.IH [OF 1(1) _ m1(2)] by blast
  qed
  then show ?case by (simp add: x purge_is_chunk obind_assoc)
qed

text \<open>Taking an agent without memories out of the registry.\<close>

lemma unregister_ok:
  assumes ok: "mem_ok U m next" and a: "name_fits agent" and none: "\<And>i. name_fits i \<Longrightarrow> memories m agent i = None"
    and m': "m' = apply_keys [(KAgent agent, None)] m"
  shows "mem_ok U m' next" "\<And>b i. name_fits b \<Longrightarrow> name_fits i \<Longrightarrow> memories m' b i = memories m b i" "ready P m h \<Longrightarrow> ready P m' h"
    "held m' (KAgent agent) = None"
proof -
  note reg = registry_key_ok [OF a]
  have same: "held m' k = held m k" if "key_ok k" "k \<noteq> KAgent agent" for k
    unfolding m' using that reg by (intro held_keys_other) auto
  have typed: "typed_map m'" unfolding m' using reg by (intro typed_apply_keys [OF mem_okD(1) [OF ok]]) (simp add: op_ok_def)
  show "held m' (KAgent agent) = None" unfolding m' using held_deletes [of "[(KAgent agent, None)]" "KAgent agent" m] reg by simp
  show mem: "memories m' b i = memories m b i" if "name_fits b" "name_fits i" for b i
    using same memory_keys_ok [OF that] by (simp add: memories_def)
  have vec: "held m' k = held m k" if "key_ok k" "vector_key k" for k using same [OF that(1)] that(2) by (cases k) simp_all
  show "ready P m' h" if "ready P m h" using that handle_ok_frame [OF _ vec typed] by (simp add: ready_def)
  have own: "owner m' = owner m" using same by (simp add: fun_eq_iff owner_def)
  have nodes: "vector_nodes m' = vector_nodes m" using vector_frame(1) vec by blast
  have "held m' k = held m k" if "key_ok k" "fts_key b k" for b k using same [OF that(1)] that(2) by (cases k) simp_all
  note fts = fts_other_agent [OF _ this]
  show "mem_ok U m' next"
    unfolding mem_ok_def own nodes
  proof (intro conjI allI impI ballI)
    show "typed_map m'" by (rule typed)
    show "fts_ok m' b" if "name_fits b" for b using mem_okD(2) [OF ok that] fts(2) [OF that] by simp
    show "memory_linked U m' b j r" if n: "name_fits b" "name_fits j" and r: "memories m' b j = Some r" for b j r
    proof -
      have old: "memories m b j = Some r" using r mem [OF n] by simp
      then have "b \<noteq> agent" using none [OF n(2)] by auto
      then have "held m' (KAgent b) = held m (KAgent b)" using same registry_key_ok [OF n(1)] by simp
      then show ?thesis using mem_okD(3) [OF ok n old] fts(1) [OF n(1)] by (simp add: memory_linked_def own)
    qed
    show "dom (owner m) = dom (live_vectors (vector_nodes m))" by (rule mem_okD(5) [OF ok])
    show "v < next" if "v \<in> dom (vector_nodes m)" for v using mem_okD(6) [OF ok that] .
    show "held m' (KExpiry b t j) = (if \<exists>r. memories m' b j = Some r \<and> mr_valid_until r = Some t then Some [] else None)"
      if n: "name_fits b" "name_fits j" for b t j
      using mem_okD(7) [OF ok n, of t] same [of "KExpiry b t j"] memory_keys_ok [OF n] mem [OF n] by simp
    show "\<exists>i. owner m v = Some \<lparr>vm_agent = b, vm_id = i\<rparr>" if n: "name_fits b" and c: "corpus_of m' b v = Some d" for b v d
      using mem_okD(8) [OF ok n] c fts(1) [OF n] by simp
    show "case held m' KMemoryMeta of None \<Rightarrow> next = 0 | Some b \<Rightarrow> decode_memory_meta b = Inr \<lparr>mm_next_vec_id = next\<rparr>"
      using mem_okD(9) [OF ok] same [of KMemoryMeta] by simp
    fix v e assume "owner m v = Some e"
    note w = mem_okD(4) [OF ok this]
    then show "name_fits (vm_agent e)" "name_fits (vm_id e)" by simp_all
    show "\<exists>r. memories m' (vm_agent e) (vm_id e) = Some r \<and> mr_vec_id r = v" using w mem by simp
  qed
qed

lemma delete_key_achieves:
  assumes "at X m H runs sh" "draws_ok (crypto (fst sh)) rnd" "room_for (fst sh) runs (entry_wire_size (k, None)) 1" "{m, m(k := None)} \<subseteq> ms"
    and "\<And>h. H h \<Longrightarrow> H' h"
  shows "achieves X ms runs sh (on_store (engine_delete X rnd k)) () (m(k := None)) H' (entry_wire_size (k, None)) 1"
proof -
  obtain st h where sh: "sh = (st, h)" by (cases sh)
  have s: "store_inv X st runs" "store_map runs (memtable st) = m" "H h" "roomy st runs (entry_wire_size (k, None))" "draws_ok (crypto st) rnd"
    using assms(1-3) by (simp_all add: sh at_def roomy_room)
  obtain st' runs' where "engine_delete X rnd k st = (Inr (), st')" "passes X st {m, m(k := None)} st' runs' (m(k := None))"
    "store_size st' runs' \<le> store_size st runs + entry_wire_size (k, None)" "next_sst_id st' \<le> next_sst_id st + 2"
    using engine_delete_steps [OF s(1,4,5,2)] by (auto simp: passes_steps)
  then show ?thesis using passes_mono [OF _ assms(4)] assms(5) [OF s(3)]
    unfolding achieves_def sh on_store_def by (intro exI [of _ st'] exI [of _ runs'] exI [of _ h]) auto
qed

text \<open>The memories of an agent, and what purging them takes.\<close>

definition all_ids :: "(bytes \<rightharpoonup> bytes) \<Rightarrow> bytes \<Rightarrow> bytes set" where
  "all_ids m agent = {i. name_fits i \<and> memories m agent i \<noteq> None}"

definition purge_room :: "vector_index_params \<Rightarrow> (bytes \<rightharpoonup> bytes) \<Rightarrow> bytes \<Rightarrow> nat" where
  "purge_room P m agent = (\<Sum>i \<in> all_ids m agent. forget_cost P m agent i) + entry_wire_size (key_bytes (KAgent agent), None)"

lemma finite_all_ids:
  assumes "typed_map m" "finite (dom m)" "name_fits agent"
  shows "finite (all_ids m agent)"
proof -
  have "all_ids m agent \<subseteq> {i. key_bytes (KRecord agent i) \<in> dom m \<and> name_fits i}"
  proof
    fix i assume "i \<in> all_ids m agent"
    then have i: "name_fits i" "memories m agent i \<noteq> None" by (simp_all add: all_ids_def)
    have "m (key_bytes (KRecord agent i)) \<noteq> None"
    proof
      assume "m (key_bytes (KRecord agent i)) = None"
      then have "held m (KRecord agent i) = None" by (simp only: held_def)
      with memories_held(2) [OF assms(1,3) i(1)] have "memories m agent i = None" by (rule iffD2)
      with i(2) show False by (rule notE)
    qed
    then show "i \<in> {i. key_bytes (KRecord agent i) \<in> dom m \<and> name_fits i}" using i(1) by (simp add: domIff)
  qed
  moreover have "inj_on (\<lambda>i. key_bytes (KRecord agent i)) {i. name_fits i}"
    by (intro inj_onI) (simp add: key_bytes_inj memory_keys_ok [OF assms(3)])
  then have "finite {i. key_bytes (KRecord agent i) \<in> dom m \<and> name_fits i}"
    using finite_vimage_IntI [OF assms(2), of "\<lambda>i. key_bytes (KRecord agent i)" "{i. name_fits i}"]
    by (simp add: vimage_def Int_def)
  ultimately show ?thesis by (rule finite_subset)
qed

lemma purge_achieves:
  assumes at: "at X m (ready P m) runs sh" and draws: "\<forall>j. draws_ok (crypto (fst sh)) (rnds j)" and ok: "mem_ok U m next" and a: "name_fits agent"
    and fit: "groups_fit m agent 1" and ids: "ids = all_ids m agent" and room: "room_for (fst sh) runs (purge_room P m agent) (card ids + 1)"
  shows "\<exists>m' r. achieves X (insert m' (partly_gone U m next agent ids)) runs sh (mi_purge_agent X rnds agent) r m' (ready P m')
      (purge_room P m agent) (card ids + 1) \<and> r = word_of_nat (card ids) \<and> forgotten U m next agent ids m' \<and> held m' (KAgent agent) = None"
proof -
  have typed: "typed_map m" and fin: "finite (dom m)" using mem_okD(1) [OF ok] at finite_store_map by (auto simp: at_def split: prod.splits)
  have finids: "finite ids" unfolding ids by (rule finite_all_ids [OF typed fin a])
  let ?l = "listing m agent (\<lambda>i. True)" and ?k = "key_bytes (KAgent agent)"
  have l: "map fst ?l = sorted_list_of_set ids" by (simp add: listing_def comp_def ids all_ids_def)
  then have lset: "fst ` set ?l = ids" "distinct (map fst ?l)" "length ?l = card ids"
    using finids by (metis set_sorted_list_of_set set_map, simp, metis length_map length_sorted_list_of_set)
  have stored: "\<forall>(i, r) \<in> set ?l. name_fits i \<and> memories m agent i = Some r \<and> i \<notin> {}"
    using finids by (auto simp: listing_def ids all_ids_def)
  have sum: "(\<Sum>i \<leftarrow> map fst ?l. forget_cost P m agent i) = (\<Sum>i \<in> ids. forget_cost P m agent i)"
    using sum_list_distinct_conv_sum_set [OF lset(2)] lset(1) by simp
  have key: "agent_key agent = Inr ?k" using encode_key_ok [of "KAgent agent"] registry_key_ok [OF a] by simp
  let ?Q = "\<lambda>m' r. r = word_of_nat (card ids) \<and> forgotten U m next agent ids m' \<and> held m' (KAgent agent) = None"
  let ?unreg = "\<lambda>k. obind (olift (agent_key agent)) (\<lambda>key. obind (on_store (engine_delete X (rnds k) key)) (\<lambda>_. oret (word_of_nat k :: u64)))"
  show ?thesis
    unfolding mi_purge_agent_def
  proof (rule read_then_achieves [where Q = ?Q, OF reads_on_store [OF scan_agent_reads [OF typed fin a]] at], goal_cases)
    case (1 sh2)
    have room2: "room_for (fst sh2) runs (\<Sum>i \<leftarrow> map fst ?l. forget_cost P m agent i) (length ?l)"
      unfolding sum lset(3) by (rule room_mono [OF 1(3) [OF room]]) (simp_all add: purge_room_def ids)
    obtain m1 where m1: "achieves X (partly_gone U m next agent ids) runs sh2 (ofold (purge_one X rnds agent) ?l 0) (card ids) m1 (ready P m1)
        (\<Sum>i \<in> ids. forget_cost P m agent i) (card ids)" "pruned U m next agent ids m1"
      using purge_loop [OF ok a _ fit 1(1) refl pruned_self [OF ok] stored lset(2) _ room2, of rnds ids 0] draws 1(2) lset sum by auto
    define m2 where "m2 = apply_keys [(KAgent agent, None)] m1"
    have eq: "m2 = m1(?k := None)" by (simp add: m2_def apply_keys_def apply_kv_def)
    have gone1: "memories m1 agent i = None" if "name_fits i" for i
      using pruned_memories(1) [OF m1(2) a that] that by (auto simp: ids all_ids_def)
    note un = unregister_ok [OF pruned_memories(2) [OF m1(2)] a gone1 m2_def]
    have gone: "forgotten U m next agent ids m2" using m1(2) un(1,2) by (simp add: pruned_def forgotten_def)
    have MS: "{m1, m2} \<subseteq> insert m2 (partly_gone U m next agent ids)" using pruned_partly [OF m1(2) order_refl] by simp
    have m1': "achieves X (insert m2 (partly_gone U m next agent ids)) runs sh2 (ofold (purge_one X rnds agent) ?l 0) (card ids) m1 (ready P m1)
        (\<Sum>i \<in> ids. forget_cost P m agent i) (card ids)" by (rule achieves_mono [OF m1(1)]) auto
    have "achieves X (insert m2 (partly_gone U m next agent ids)) runs sh2 (obind (ofold (purge_one X rnds agent) ?l 0) ?unreg) (word_of_nat (card ids)) m2 (ready P m2)
        (purge_room P m agent) (card ids + 1)"
    proof (rule achieves_bind [OF m1', where ?e2.0 = "entry_wire_size (?k, None)" and ?n2.0 = 1], goal_cases)
      case (1 sh3 runs3)
      have room3: "room_for (fst sh3) runs3 (entry_wire_size (?k, None)) 1"
        by (rule 1(3)) (use room \<open>\<And>e n. room_for (fst sh) runs e n \<Longrightarrow> room_for (fst sh2) runs e n\<close> in \<open>simp add: purge_room_def ids\<close>)
      have d3: "draws_ok (crypto (fst sh3)) (rnds (card ids))" using draws 1(2) \<open>crypto (fst sh2) = crypto (fst sh)\<close> by simp
      have "achieves X (insert m2 (partly_gone U m next agent ids)) runs3 sh3 (on_store (engine_delete X (rnds (card ids)) ?k)) () m2 (ready P m2)
          (entry_wire_size (?k, None)) 1"
        unfolding eq by (rule delete_key_achieves [OF 1(1) d3 room3]) (use MS un(3) in \<open>simp_all add: eq\<close>)
      then show ?case unfolding key obind_simps
        by (intro achieves_bind [where ?e2.0 = 0 and ?n2.0 = 0]) (auto intro: achieves_ret)
    qed (simp_all add: purge_room_def ids)
    then show ?case using gone un(4) by blast
  qed
qed

end
