(* ===== verification/Memory_Safe.thy ===== *)
theory Memory_Safe
  imports Memory_Forget
begin

text \<open>
  What the memory index promises: the theorems over its operations, and concrete instances of them.
\<close>

subsection \<open>Puts\<close>

definition puts_allowed :: "unicode \<Rightarrow> store \<Rightarrow> run list \<Rightarrow> (bytes \<rightharpoonup> bytes) \<Rightarrow> vector_index_params \<Rightarrow> bytes \<Rightarrow> put_item list \<Rightarrow> u64 \<Rightarrow> bool" where
  "puts_allowed U st runs m P agent items next \<longleftrightarrow> puts_fit U m agent items next \<and> puts_batch U P m agent items next
     \<and> room_for st runs (puts_room U P m agent items next) 1"

text \<open>
  C25. Putting a group of memories is atomic over all its structures. The group is refused with the
  source's error, and nothing is written, when an id is taken or repeated or a vector does not fit;
  otherwise one batch writes every record, mapping, expiry entry, posting, document, statistic and
  graph node, a crash on the way finds all of the group or none of it, the invariant that ties those
  structures together holds again, the ids allocated are the next ones in order, and no other agent's
  memory changes.
\<close>

theorem memory_puts_refine:
  assumes "at X m (handle_ok m) runs (st, h)" "draws_ok (crypto st) rnd" "mem_ok U m next" "items \<noteq> []"
    and "puts_allowed U st runs m (ph_params h) agent items next"
  shows "case rbind (rfold (claim_id m agent) items []) (\<lambda>_.
        rfold (add_vector (vp_dim (ph_params h))) (new_vectors (numbered next items)) (live_vectors (vector_nodes m))) of
      Inl e \<Rightarrow> \<exists>sh'. mi_put_many U F X rnd agent items next (st, h) = (Inl e, sh') \<and> at X m (handle_ok m) runs sh'
    | Inr M \<Rightarrow> \<exists>m' extra. achieves X {m, m'} runs (st, h) (mi_put_many U F X rnd agent items next)
          (map fst (numbered next items), next + word_of_nat (length items)) m' (ready (ph_params h) m') extra 1
        \<and> mem_ok U m' (next + word_of_nat (length items)) \<and> live_vectors (vector_nodes m') = M
        \<and> (\<forall>b i. name_fits b \<longrightarrow> name_fits i \<longrightarrow> memories m' b i
             = (if b = agent then (memories m agent ++ map_of (new_records (numbered next items))) i else memories m b i))"
proof -
  let ?claim = "rfold (claim_id m agent) items []"
    and ?added = "rfold (add_vector (vp_dim (ph_params h))) (new_vectors (numbered next items)) (live_vectors (vector_nodes m))"
  have ok: "handle_ok m h" and fit: "puts_fit U m agent items next" using assms(1,5) by (simp_all add: at_def puts_allowed_def)
  show ?thesis
  proof (cases "rbind ?claim (\<lambda>_. ?added)")
    case (Inl e)
    then have "?claim = Inl e \<or> (\<exists>ids. ?claim = Inr ids) \<and> ?added = Inl e" by (cases ?claim) simp_all
    from readsD [OF put_many_fails [OF ok assms(3) fit assms(4) this, where F = F and rnd = rnd] at_vpeeks [OF assms(1)]]
    obtain sh' where sh': "mi_put_many U F X rnd agent items next (st, h) = (Inl e, sh')" "vpeeks X runs st m h sh'" by blast
    have "at X m (handle_ok m) runs sh'" using vpeeks_at [OF sh'(2)] same_index_ok(2) [OF ok] by (auto simp: at_def)
    then show ?thesis using sh'(1) by (simp add: Inl)
  next
    case (Inr M)
    then obtain ids where ids: "?claim = Inr ids" "?added = Inr M" by (cases ?claim) simp_all
    have at: "at X m (ready (ph_params h) m) runs (st, h)" using assms(1) by (simp add: at_def ready_def)
    have M: "M = live_vectors (vector_nodes m) ++ map_of (new_vectors (numbered next items))"
    proof (rule added_vectors [OF ids(2)])
      have "unat next + length items < 2 ^ 64" using fit unfolding puts_fit_def by blast
      from numbered_bounds(2) [OF this] show "distinct (map fst (new_vectors (numbered next items)))" by simp
    qed
    obtain m' where "achieves X {m, m'} runs (st, h) (mi_put_many U F X rnd agent items next)
          (map fst (numbered next items), next + word_of_nat (length items)) m' (ready (ph_params h) m') (puts_room U (ph_params h) m agent items next) 1"
      "mem_ok U m' (next + word_of_nat (length items))"
      "\<forall>j. name_fits j \<longrightarrow> memories m' agent j = (memories m agent ++ map_of (new_records (numbered next items))) j"
      "\<forall>b j. name_fits b \<longrightarrow> name_fits j \<longrightarrow> b \<noteq> agent \<longrightarrow> memories m' b j = memories m b j" "live_vectors (vector_nodes m') = M"
      using put_many_achieves [OF at _ assms(3) fit assms(4) ids, of rnd F] assms(2,5) unfolding M puts_allowed_def by auto
    then show ?thesis unfolding Inr sum.case by (intro exI [of _ m'] exI [of _ "puts_room U (ph_params h) m agent items next"]) auto
  qed
qed

lemma toy_mem_ok: "mem_ok toy_unicode Map.empty 0"
proof -
  have "memories Map.empty agent i = None" "owner Map.empty v = None" for agent i v by (simp_all add: memories_def owner_def held_def)
  moreover have "fts_ok Map.empty agent" for agent
    by (simp add: fts_ok_def entries_ok_def counts_def stats_of_def held_def corpus_of_def fun_eq_iff posting_in_def fts_stats_default_def corpus_terms_def)
  moreover have "corpus_of Map.empty agent v = None" for agent v by (simp add: corpus_of_def held_def)
  ultimately show ?thesis by (simp add: mem_ok_def typed_map_def held_def dom_def)
qed

definition toy_memory :: new_memory where
  "toy_memory = \<lparr>nm_layer = [115], nm_content = [97, 98, 32, 97, 98], nm_source = [117], nm_valid_from = 1, nm_valid_until = Some 5,
     nm_importance = 0, nm_last_access = 1\<rparr>"

definition toy_puts :: "put_item list" where "toy_puts = [([105], toy_memory, [1])]"

lemma toy_record_fits: "record_fits (stored_record toy_memory v)"
  by (simp add: record_fits_def stored_record_def toy_memory_def utf8_char_def encode_memory_record_def fits32_def fits16_def)


lemma toy_numbered: "numbered 0 toy_puts = [(0, [105], toy_memory, [1])]" "length toy_puts = 1"
  by (simp_all add: toy_puts_def)

lemma toy_new: "new_docs (numbered 0 toy_puts) = [(0, [97, 98, 32, 97, 98])]" "new_vectors (numbered 0 toy_puts) = [(0, [1])]"
  "new_records (numbered 0 toy_puts) = [([105], stored_record toy_memory 0)]"
  by (simp_all add: toy_numbered new_docs_def new_vectors_def new_records_def toy_memory_def)

lemma toy_indexed0: "indexed_docs toy_unicode [(0, [97, 98, 32, 97, 98])] = [(0, toy_doc)]"
  by (simp add: indexed_docs_def toy_content) (simp add: toy_doc_def)

lemma toy_puts_fit: "puts_fit toy_unicode Map.empty [97] toy_puts 0"
proof -
  have "\<exists>v. encode_doc_terms toy_doc = Inr v"
    by (simp add: toy_doc_def encode_doc_terms_def encode_doc_term_def fits32_def fits16_def)
  moreover have "name_fits [105]" "nm_content toy_memory = [97, 98, 32, 97, 98]" by (simp_all add: name_fits_def toy_memory_def)
  ultimately show ?thesis
    by (simp add: puts_fit_def toy_new toy_indexed0 toy_fts toy_chars)
      (simp add: toy_puts_def item_fits_def toy_record_fits toy_content chars_ok_def scalar_def corpus_fits_def corpus_terms_def doc_length_def toy_doc_def)
qed

lemma toy_put_ops: "length (put_all_ops toy_unicode Map.empty [97] toy_puts 0) \<le> 20"
  "kvs_size (key_batch (put_all_ops toy_unicode Map.empty [97] toy_puts 0)) \<le> 1400"
proof -
  have ops: "put_all_ops toy_unicode Map.empty [97] toy_puts 0 =
    put_ops [97] 1 [(0, [105], toy_memory, [1])] @ insert_many_ops [97] Map.empty [(0, toy_doc)]"
    unfolding put_all_ops_def toy_new toy_indexed0 by (simp add: toy_numbered)
  show "length (put_all_ops toy_unicode Map.empty [97] toy_puts 0) \<le> 20"
    by (simp add: ops put_ops_def put_one_ops_def toy_memory_def insert_many_ops_def insert_ops_def stats_ops_def toy_doc_def)
  show "kvs_size (key_batch (put_all_ops toy_unicode Map.empty [97] toy_puts 0)) \<le> 1400"
    by (simp add: ops put_ops_def put_one_ops_def toy_memory_def insert_many_ops_def insert_ops_def stats_ops_def toy_doc_def entry_wire_size_def
        key_bytes_def lp_def space_defs ascii_def posting_bytes_def encode_fts_posting_def encode_fts_stats_def record_bytes_def encode_memory_record_def
        stored_record_def mapping_bytes_def encode_vec_map_def memory_meta_bytes_def encode_memory_meta_def doc_bytes_def encode_doc_terms_def encode_doc_term_def
        fits32_def fits16_def utf8_char_def)
qed


lemma toy_puts_allowed: "puts_allowed toy_unicode toy_store [] Map.empty (ph_params toy_handle) [97] toy_puts 0" "toy_puts \<noteq> []"
proof -
  have "puts_room toy_unicode toy_params Map.empty [97] toy_puts 0 \<le> 2048"
    using toy_put_ops(2) by (simp add: puts_room_def vector_room_def node_room_def toy_params_def toy_numbered(2))
  then have "room_for toy_store [] (puts_room toy_unicode toy_params Map.empty [97] toy_puts 0) 1"
    by (intro room_mono [OF toy_room]) simp_all
  moreover have "puts_batch toy_unicode toy_params Map.empty [97] toy_puts 0"
    using toy_put_ops(1) by (simp add: puts_batch_def toy_params_def toy_numbered(2) MAX_BATCH_OPS_def)
  ultimately show "puts_allowed toy_unicode toy_store [] Map.empty (ph_params toy_handle) [97] toy_puts 0"
    using toy_puts_fit by (simp add: puts_allowed_def toy_vector_fits(5))
qed (simp add: toy_puts_def)

lemma toy_claim: "rbind (rfold (claim_id Map.empty [97]) toy_puts []) (\<lambda>_.
     rfold (add_vector (vp_dim (ph_params toy_handle))) (new_vectors (numbered 0 toy_puts)) (live_vectors (vector_nodes Map.empty))) = Inr [0 \<mapsto> [1]]"
  unfolding toy_new toy_vector_fits(5)
  by (simp add: toy_puts_def claim_id_def memories_def held_def add_vector_def toy_params_def)

theorem memory_puts_refine_witness:
  "\<exists>m' extra. achieves toy_externals {Map.empty, m'} [] (toy_store, toy_handle) (mi_put_many toy_unicode toy_f32 toy_externals toy_rnd [97] toy_puts 0)
      ([0], 1) m' (ready toy_params m') extra 1
    \<and> mem_ok toy_unicode m' 1 \<and> memories m' [97] [105] = Some (stored_record toy_memory 0)"
proof -
  have n: "name_fits [97]" "name_fits [105]" by (simp_all add: name_fits_def)
  from memory_puts_refine [OF toy_vector_at toy_draws toy_mem_ok toy_puts_allowed(2,1), of toy_f32] n show ?thesis
    unfolding toy_claim sum.case unfolding toy_new toy_vector_fits(5) by (fastforce simp: toy_numbered)
qed

text \<open>A store with one memory.\<close>

lemma toy_remembered:
  obtains st runs m h where "at toy_externals m (ready toy_params m) runs (st, h)" "mem_ok toy_unicode m 1"
    "\<forall>i. name_fits i \<longrightarrow> memories m [97] i = (if i = [105] then Some (stored_record toy_memory 0) else None)"
    "live_vectors (vector_nodes m) = [0 \<mapsto> [1]]" "room_for st runs 2048 32" "m \<noteq> Map.empty"
proof -
  have at: "at toy_externals Map.empty (ready toy_params Map.empty) [] (toy_store, toy_handle)"
    using toy_vector_at toy_vector_fits(5) by (simp add: at_def ready_def)
  have "\<exists>ids. rfold (claim_id Map.empty [97]) toy_puts [] = Inr ids"
    "rfold (add_vector (vp_dim toy_params)) (new_vectors (numbered 0 toy_puts)) (live_vectors (vector_nodes Map.empty)) = Inr [0 \<mapsto> [1]]"
    using toy_claim unfolding toy_vector_fits(5) by (auto simp: rbind_eq_Inr)
  then obtain ids where claim: "rfold (claim_id Map.empty [97]) toy_puts [] = Inr ids"
    "rfold (add_vector (vp_dim toy_params)) (new_vectors (numbered 0 toy_puts)) (live_vectors (vector_nodes Map.empty)) = Inr [0 \<mapsto> [1]]" by blast
  have allowed: "puts_batch toy_unicode toy_params Map.empty [97] toy_puts 0"
    "room_for (fst (toy_store, toy_handle)) [] (puts_room toy_unicode toy_params Map.empty [97] toy_puts 0) 1"
    using toy_puts_allowed(1) by (simp_all add: puts_allowed_def toy_vector_fits(5))
  have room: "puts_room toy_unicode toy_params Map.empty [97] toy_puts 0 \<le> 2048"
    using toy_put_ops(2) by (simp add: puts_room_def vector_room_def node_room_def toy_params_def toy_numbered(2))
  have n: "name_fits [97]" by (simp add: name_fits_def)
  obtain m r where m: "achieves toy_externals {Map.empty, m} [] (toy_store, toy_handle) (mi_put_many toy_unicode toy_f32 toy_externals toy_rnd [97] toy_puts 0)
      r m (ready toy_params m) (puts_room toy_unicode toy_params Map.empty [97] toy_puts 0) 1"
    "mem_ok toy_unicode m (0 + word_of_nat (length toy_puts))"
    "\<forall>j. name_fits j \<longrightarrow> memories m [97] j = (memories Map.empty [97] ++ map_of (new_records (numbered 0 toy_puts))) j"
    "live_vectors (vector_nodes m) = live_vectors (vector_nodes Map.empty) ++ map_of (new_vectors (numbered 0 toy_puts))"
    using put_many_achieves [OF at _ toy_mem_ok toy_puts_fit toy_puts_allowed(2) claim allowed, of toy_rnd toy_f32] toy_draws by auto
  then obtain sh runs where sh: "passes toy_externals toy_store {Map.empty, m} (fst sh) runs m" "ready toy_params m (snd sh)"
    "store_size (fst sh) runs \<le> store_size toy_store [] + 2048" "next_sst_id (fst sh) \<le> next_sst_id toy_store + 2"
    using room unfolding achieves_def by fastforce
  show thesis
  proof (rule that [of m runs "fst sh" "snd sh"])
    show "at toy_externals m (ready toy_params m) runs (fst sh, snd sh)" using sh(1,2) by (cases sh) (simp add: at_def passes_def)
    show "room_for (fst sh) runs 2048 32" using sh(3,4) toy_room by (simp add: room_for_def)
    show "mem_ok toy_unicode m 1" using m(2) by (simp add: toy_numbered(2))
    show live: "live_vectors (vector_nodes m) = [0 \<mapsto> [1]]" using m(4) unfolding toy_new by simp
    show "m \<noteq> Map.empty"
    proof
      assume "m = Map.empty"
      then have "live_vectors (vector_nodes m) 0 = None" by simp
      then show False unfolding live by simp
    qed
    show "\<forall>i. name_fits i \<longrightarrow> memories m [97] i = (if i = [105] then Some (stored_record toy_memory 0) else None)"
      using m(3) unfolding toy_new by (simp add: memories_def held_def)
  qed
qed

subsection \<open>Rewriting and touching\<close>

text \<open>
  C29. Rewriting a memory's record and touching access times are atomic. An update of a memory that keeps
  the vector id and the content replaces that record, moves its expiry entry and keeps the invariant.
  Touching sets the access time of every id that has a memory, and of nothing else. But updating an id
  that has no memory is not refused: the record is written, no mapping, vector or document goes with it,
  and the invariant is lost, whatever the allocator says.
\<close>

theorem memory_rewrites_correct:
  assumes "store_inv X st runs" "store_map runs (memtable st) = m" "draws_ok (crypto st) rnd" "mem_ok U m next" "name_fits agent"
    and "name_fits i" "record_fits r" "\<forall>old. memories m agent i = Some old \<longrightarrow> mr_vec_id r = mr_vec_id old \<and> mr_content r = mr_content old"
    and "\<forall>j \<in> set ids. name_fits j" "length ids \<le> MAX_BATCH_OPS"
    and "roomy st runs (kvs_size (key_batch (update_ops agent i (Option.bind (memories m agent i) mr_valid_until) r))
           + kvs_size (key_batch (touch_ops m agent now ids)))"
  shows "(\<exists>m' extra. commits X st runs m (mi_update X rnd agent i r) () m' extra
        \<and> (\<forall>b j. name_fits b \<longrightarrow> name_fits j \<longrightarrow> memories m' b j = (if b = agent \<and> j = i then Some r else memories m b j))
        \<and> (case memories m agent i of Some old \<Rightarrow> mem_ok U m' next | None \<Rightarrow> owner m' = owner m \<and> (\<forall>next'. \<not> mem_ok U m' next')))
    \<and> (\<exists>m' extra. commits X st runs m (touch_last_access X rnd agent ids now) () m' extra \<and> mem_ok U m' next
        \<and> (\<forall>b j. name_fits b \<longrightarrow> name_fits j \<longrightarrow> memories m' b j
             = (if b = agent \<and> j \<in> set ids then map_option (touched now) (memories m b j) else memories m b j)))"
proof
  let ?until = "Option.bind (memories m agent i) mr_valid_until"
  let ?u = "update_ops agent i ?until r" and ?t = "touch_ops m agent now ids"
  note typed = mem_okD(1) [OF assms(4)]
  have len: "length ?t \<le> length ids" by (induction ids) (auto simp: touch_ops_def split: option.split)
  have rooms: "roomy st runs (kvs_size (key_batch ?u))" "roomy st runs (kvs_size (key_batch ?t))" using assms(11) by (simp_all add: roomy_def)
  have wrote: "commits X st runs m (mi_update X rnd agent i r) () (apply_keys ?u m) (kvs_size (key_batch ?u))"
    by (rule update_commits [OF assms(1-3) typed assms(5-7) _ rooms(1)]) simp
  have "(\<forall>b j. name_fits b \<longrightarrow> name_fits j \<longrightarrow> memories (apply_keys ?u m) b j = (if b = agent \<and> j = i then Some r else memories m b j))
      \<and> (case memories m agent i of Some old \<Rightarrow> mem_ok U (apply_keys ?u m) next
         | None \<Rightarrow> owner (apply_keys ?u m) = owner m \<and> (\<forall>next'. \<not> mem_ok U (apply_keys ?u m) next'))"
  proof (cases "memories m agent i")
    case (Some old)
    have eqs: "mr_vec_id r = mr_vec_id old" "mr_content r = mr_content old" and u: "?until = mr_valid_until old" using assms(8) Some by simp_all
    have am: "amends m agent (apply_keys ?u m)" unfolding u by (rule update_amends(1) [OF assms(4-6) Some assms(7) eqs refl])
    have "memories (apply_keys ?u m) b j = (if b = agent \<and> j = i then Some r else memories m b j)" if "name_fits b" "name_fits j" for b j
      using update_amends(2) [OF assms(4-6) Some assms(7) eqs refl that(2)] amends_frame(7) [OF am that] unfolding u by (cases "b = agent") auto
    then show ?thesis using rewrite_mem_ok [OF assms(4,5) am] by (simp add: Some)
  next
    case None
    then have u: "?until = None" by simp
    show ?thesis
      unfolding u by (simp only: None option.case) (use orphan_breaks [OF assms(4-6) None assms(7) refl] in blast)
  qed
  then show "\<exists>m' extra. commits X st runs m (mi_update X rnd agent i r) () m' extra
        \<and> (\<forall>b j. name_fits b \<longrightarrow> name_fits j \<longrightarrow> memories m' b j = (if b = agent \<and> j = i then Some r else memories m b j))
        \<and> (case memories m agent i of Some old \<Rightarrow> mem_ok U m' next | None \<Rightarrow> owner m' = owner m \<and> (\<forall>next'. \<not> mem_ok U m' next'))"
    using wrote by blast
  have "commits X st runs m (touch_last_access X rnd agent ids now) () (apply_keys ?t m) (kvs_size (key_batch ?t))"
    by (rule touch_commits [OF assms(1-3) typed assms(5,9) refl rooms(2)]) (use len assms(10) in simp)
  moreover have am: "amends m agent (apply_keys ?t m)" by (rule touch_amends(1) [OF assms(4,5,9) refl])
  moreover have "memories (apply_keys ?t m) b j = (if b = agent \<and> j \<in> set ids then map_option (touched now) (memories m b j) else memories m b j)"
    if "name_fits b" "name_fits j" for b j
    using touch_amends(2) [OF assms(4,5,9) refl that(2)] amends_frame(7) [OF am that] by (cases "b = agent") auto
  ultimately show "\<exists>m' extra. commits X st runs m (touch_last_access X rnd agent ids now) () m' extra \<and> mem_ok U m' next
        \<and> (\<forall>b j. name_fits b \<longrightarrow> name_fits j \<longrightarrow> memories m' b j
             = (if b = agent \<and> j \<in> set ids then map_option (touched now) (memories m b j) else memories m b j))"
    using rewrite_mem_ok [OF assms(4,5) am] by blast
qed

lemma toy_names: "name_fits [97]" "name_fits [105]" "name_fits [106]"
  by (simp_all add: name_fits_def)

definition toy_rewrite :: memory_record where
  "toy_rewrite = (stored_record toy_memory 0)\<lparr>mr_valid_until := Some 9\<rparr>"

lemma toy_rewrite_fits: "record_fits toy_rewrite" "length (record_bytes toy_rewrite) \<le> 80"
    "record_fits (touched 7 (stored_record toy_memory 0))" "length (record_bytes (touched 7 (stored_record toy_memory 0))) \<le> 80"
  by (simp_all add: record_fits_def record_bytes_def toy_rewrite_def touched_def stored_record_def toy_memory_def utf8_char_def encode_memory_record_def
      fits32_def fits16_def)

lemma toy_rewrite_until: "mr_valid_until toy_rewrite = Some 9" "mr_valid_until (stored_record toy_memory v) = Some 5"
  by (simp_all add: toy_rewrite_def stored_record_def toy_memory_def)

lemma toy_rewrite_room:
  assumes "room_for st runs 2048 32" "memories m [97] [105] = Some (stored_record toy_memory 0)" "memories m [97] [106] = None"
  shows "roomy st runs (kvs_size (key_batch (update_ops [97] [105] (Option.bind (memories m [97] [105]) mr_valid_until) toy_rewrite))
      + kvs_size (key_batch (touch_ops m [97] 7 [[106], [105]])))"
    "roomy st runs (kvs_size (key_batch (update_ops [97] [106] (Option.bind (memories m [97] [106]) mr_valid_until) toy_rewrite))
      + kvs_size (key_batch (touch_ops m [97] 7 [[106], [105]])))"
proof -
  have u: "kvs_size (key_batch (update_ops [97] i (Option.bind (memories m [97] i) mr_valid_until) toy_rewrite)) \<le> 900" if "i = [105] \<or> i = [106]" for i
    using toy_rewrite_fits(2) that assms(2,3)
    by (auto simp: update_ops_def expiry_ops_def toy_rewrite_until entry_wire_size_def key_bytes_def lp_def space_defs ascii_def)
  have "kvs_size (key_batch (touch_ops m [97] 7 [[106], [105]])) \<le> 900"
    using toy_rewrite_fits(4) assms(2,3) by (simp add: touch_ops_def entry_wire_size_def key_bytes_def lp_def space_defs ascii_def)
  then show "roomy st runs (kvs_size (key_batch (update_ops [97] [105] (Option.bind (memories m [97] [105]) mr_valid_until) toy_rewrite))
      + kvs_size (key_batch (touch_ops m [97] 7 [[106], [105]])))"
    "roomy st runs (kvs_size (key_batch (update_ops [97] [106] (Option.bind (memories m [97] [106]) mr_valid_until) toy_rewrite))
      + kvs_size (key_batch (touch_ops m [97] 7 [[106], [105]])))"
    using u [of "[105]"] u [of "[106]"] unfolding roomy_room by (auto intro!: room_mono [OF assms(1)])
qed

theorem memory_rewrites_correct_witness:
  "\<exists>st runs m m1 m2 m3 e1 e2 e3. memories m [97] [105] = Some (stored_record toy_memory 0) \<and> memories m [97] [106] = None
     \<and> commits toy_externals st runs m (mi_update toy_externals toy_rnd [97] [105] toy_rewrite) () m1 e1 \<and> mem_ok toy_unicode m1 1
     \<and> memories m1 [97] [105] = Some toy_rewrite
     \<and> commits toy_externals st runs m (touch_last_access toy_externals toy_rnd [97] [[106], [105]] 7) () m2 e2 \<and> mem_ok toy_unicode m2 1
     \<and> memories m2 [97] [105] = Some (touched 7 (stored_record toy_memory 0)) \<and> memories m2 [97] [106] = None
     \<and> commits toy_externals st runs m (mi_update toy_externals toy_rnd [97] [106] toy_rewrite) () m3 e3 \<and> \<not> mem_ok toy_unicode m3 1"
proof -
  obtain st runs m h where s: "at toy_externals m (ready toy_params m) runs (st, h)" "mem_ok toy_unicode m 1"
    "\<forall>i. name_fits i \<longrightarrow> memories m [97] i = (if i = [105] then Some (stored_record toy_memory 0) else None)"
    "live_vectors (vector_nodes m) = [0 \<mapsto> [1]]" "room_for st runs 2048 32" "m \<noteq> Map.empty"
    by (rule toy_remembered)
  have inv: "store_inv toy_externals st runs" "store_map runs (memtable st) = m" using s(1) by (simp_all add: at_def)
  have mem: "memories m [97] [105] = Some (stored_record toy_memory 0)" "memories m [97] [106] = None" using s(3) toy_names by simp_all
  have ids: "\<forall>j \<in> set [[106], [105]]. name_fits j" "length [[106], [105] :: bytes] \<le> MAX_BATCH_OPS"
    using toy_names by (simp_all add: MAX_BATCH_OPS_def)
  have keeps: "\<forall>old. memories m [97] [105] = Some old \<longrightarrow> mr_vec_id toy_rewrite = mr_vec_id old \<and> mr_content toy_rewrite = mr_content old"
    "\<forall>old. memories m [97] [106] = Some old \<longrightarrow> mr_vec_id toy_rewrite = mr_vec_id old \<and> mr_content toy_rewrite = mr_content old"
    by (simp_all add: toy_rewrite_def mem)
  note each = memory_rewrites_correct [OF inv toy_draws s(2) toy_names(1)]
  note both = each [OF toy_names(2) toy_rewrite_fits(1) keeps(1) ids toy_rewrite_room(1) [OF s(5) mem]]
  note orphan = conjunct1 [OF each [OF toy_names(3) toy_rewrite_fits(1) keeps(2) ids toy_rewrite_room(2) [OF s(5) mem]]]
  obtain m1 e1 where "commits toy_externals st runs m (mi_update toy_externals toy_rnd [97] [105] toy_rewrite) () m1 e1" "mem_ok toy_unicode m1 1"
    "memories m1 [97] [105] = Some toy_rewrite" using conjunct1 [OF both] toy_names unfolding mem option.case by auto
  moreover obtain m2 e2 where "commits toy_externals st runs m (touch_last_access toy_externals toy_rnd [97] [[106], [105]] 7) () m2 e2"
    "mem_ok toy_unicode m2 1" "memories m2 [97] [105] = Some (touched 7 (stored_record toy_memory 0))" "memories m2 [97] [106] = None"
    using conjunct2 [OF both] toy_names mem by auto
  moreover obtain m3 e3 where "commits toy_externals st runs m (mi_update toy_externals toy_rnd [97] [106] toy_rewrite) () m3 e3" "\<not> mem_ok toy_unicode m3 1"
    using orphan unfolding mem option.case by blast
  ultimately show ?thesis using mem by blast
qed

subsection \<open>Forgetting\<close>

text \<open>Room for forgetting the ids, and for purging the agent.\<close>

definition forgets_allowed :: "store \<Rightarrow> run list \<Rightarrow> (bytes \<rightharpoonup> bytes) \<Rightarrow> vector_index_params \<Rightarrow> bytes \<Rightarrow> bytes list \<Rightarrow> forget_options \<Rightarrow> bool" where
  "forgets_allowed st runs m P agent ids opts \<longleftrightarrow> groups_fit m agent (max 1 (fo_max_items opts)) \<and> (\<forall>i \<in> set ids. name_fits i)
     \<and> room_for st runs (\<Sum>i \<in> set ids. forget_cost P m agent i) (card (set ids) + 1)
     \<and> room_for st runs (purge_room P m agent) (card (all_ids m agent) + 1)"

text \<open>
  C26. Forgetting one memory, forgetting a group of ids and purging an agent all end without exactly the
  memories they name, in every structure at once: records, mappings, expiry entries, postings and live
  vectors of those are gone, all others stay, and the invariant holds. One memory goes in one batch. A
  group may take several, cut where the options say, and a crash between any two file operations finds
  each memory whole or gone; the result does not depend on the options, repeated and absent ids do not
  count, and the answer is the number of memories removed. Purging takes the agent out of the registry
  last, when its memories are gone.
\<close>

theorem memory_forgets_refine:
  assumes "at X m (handle_ok m) runs (st, h)" "\<forall>j. draws_ok (crypto st) (rnds j)" "mem_ok U m next" "name_fits agent"
    and "forgets_allowed st runs m (ph_params h) agent ids opts" "gone = {i \<in> set ids. memories m agent i \<noteq> None}" "all = all_ids m agent"
  shows "(\<forall>i \<in> set ids. \<exists>m' extra. achieves X {m, m'} runs (st, h) (mi_forget X (rnds 0) agent i) (i \<in> gone) m' (ready (ph_params h) m') extra 1
        \<and> forgotten U m next agent ({i} \<inter> gone) m')
    \<and> (\<exists>m' extra n. achieves X (partly_gone U m next agent gone) runs (st, h) (mi_forget_many X rnds agent ids opts) (word_of_nat (card gone))
          m' (ready (ph_params h) m') extra n \<and> forgotten U m next agent gone m')
    \<and> (\<exists>m' extra n. achieves X (insert m' (partly_gone U m next agent all)) runs (st, h) (mi_purge_agent X rnds agent) (word_of_nat (card all))
          m' (ready (ph_params h) m') extra n \<and> forgotten U m next agent all m' \<and> held m' (KAgent agent) = None)"
proof (intro conjI ballI)
  have at: "at X m (ready (ph_params h) m) runs (st, h)" using assms(1) by (simp add: at_def ready_def)
  have draws: "\<forall>j. draws_ok (crypto (fst (st, h))) (rnds j)" using assms(2) by simp
  note allowed = assms(5) [unfolded forgets_allowed_def]
  have fit: "groups_fit m agent (max 1 (fo_max_items opts))" and n: "\<forall>i \<in> set ids. name_fits i" using allowed by blast+
  have sub: "gone \<subseteq> set ids" and cost: "(\<Sum>i \<in> gone. forget_cost (ph_params h) m agent i) \<le> (\<Sum>i \<in> set ids. forget_cost (ph_params h) m agent i)"
    by (auto simp: assms(6) intro: sum_mono2)
  have room: "room_for (fst (st, h)) runs (\<Sum>i \<in> gone. forget_cost (ph_params h) m agent i) (card gone)"
    by (rule room_mono [of _ _ "\<Sum>i \<in> set ids. forget_cost (ph_params h) m agent i" "card (set ids) + 1"])
      (use allowed cost card_mono [OF finite_set sub] in simp_all)
  show "\<exists>m' extra n. achieves X (partly_gone U m next agent gone) runs (st, h) (mi_forget_many X rnds agent ids opts) (word_of_nat (card gone))
          m' (ready (ph_params h) m') extra n \<and> forgotten U m next agent gone m'"
    using forget_many_achieves [OF at draws assms(3,4) fit n assms(6) room] by (auto simp: pruned_def)
  have one: "groups_fit m agent 1" using fit by (auto simp: groups_fit_def)
  show "\<exists>m' extra n. achieves X (insert m' (partly_gone U m next agent all)) runs (st, h) (mi_purge_agent X rnds agent) (word_of_nat (card all))
          m' (ready (ph_params h) m') extra n \<and> forgotten U m next agent all m' \<and> held m' (KAgent agent) = None"
    using purge_achieves [OF at draws assms(3,4) one assms(7)] allowed assms(7) by auto
  fix i assume i: "i \<in> set ids"
  then have ni: "name_fits i" using n by blast
  show "\<exists>m' extra. achieves X {m, m'} runs (st, h) (mi_forget X (rnds 0) agent i) (i \<in> gone) m' (ready (ph_params h) m') extra 1
        \<and> forgotten U m next agent ({i} \<inter> gone) m'"
  proof (cases "memories m agent i")
    case None
    have get: "reads (peeks_with X runs (fst (st, h)) m (ready (ph_params h) m)) (on_store (mi_get X agent i)) (Inr None)"
      using reads_on_store [OF get_reads [OF mem_okD(1) [OF assms(3)] assms(4) ni]] None by simp
    have "achieves X {m} runs (st, h) (mi_forget X (rnds 0) agent i) False m (ready (ph_params h) m) 0 1"
      unfolding mi_forget_def by (rule achieves_after_read [OF get at]) (simp add: achieves_ret)
    moreover have "i \<notin> gone" "forgotten U m next agent {} m" using None assms(3) by (simp_all add: assms(6) forgotten_def)
    ultimately show ?thesis by (intro exI [of _ m] exI [of _ 0]) simp
  next
    case (Some r)
    have "forgets_batch m agent [(i, mr_vec_id r, mr_valid_until r)]" using one Some ni by (simp add: groups_fit_def stored_chunk_def)
    moreover have "forgets_room (ph_params h) m agent [(i, mr_vec_id r, mr_valid_until r)] = forget_cost (ph_params h) m agent i"
      by (simp add: forget_cost_def Some item_of_def)
    moreover have "forget_cost (ph_params h) m agent i \<le> (\<Sum>i \<in> set ids. forget_cost (ph_params h) m agent i)"
      using i by (intro member_le_sum) simp_all
    ultimately show ?thesis
      using forget_achieves [OF at _ assms(3,4) ni Some refl, of "rnds 0"] draws room_mono [of st runs _ "card (set ids) + 1"] allowed Some i
      by (fastforce simp: assms(6))
  qed
qed

lemma utf8_ascii:
  "chars_ok cs \<Longrightarrow> \<forall>b \<in> set (utf8 cs). unat b < 0x80 \<Longrightarrow> cs = map unat (utf8 cs)"
proof (induction cs)
  case (Cons c cs)
  have c: "c < 0x110000" using Cons.prems(1) by (simp add: chars_ok_def scalar_def)
  have "c < 0x80"
  proof (rule ccontr)
    assume big: "\<not> c < 0x80"
    have "\<exists>n r. utf8_char c = word_of_nat n # r \<and> 0x80 \<le> n \<and> n < 256" (is "\<exists>n r. ?Q n r")
    proof -
      have "?Q (0xC0 + c div 0x40) [word_of_nat (0x80 + c mod 0x40)]" if "c < 0x800" using that big by (simp add: utf8_char_def)
      moreover have "?Q (0xE0 + c div 0x1000) [word_of_nat (0x80 + c div 0x40 mod 0x40), word_of_nat (0x80 + c mod 0x40)]"
        if "0x800 \<le> c" "c < 0x10000" using that by (simp add: utf8_char_def)
      moreover have "?Q (0xF0 + c div 0x40000) [word_of_nat (0x80 + c div 0x1000 mod 0x40), word_of_nat (0x80 + c div 0x40 mod 0x40),
          word_of_nat (0x80 + c mod 0x40)]" if "0x10000 \<le> c" using that c by (simp add: utf8_char_def)
      ultimately show ?thesis by (meson linorder_not_less)
    qed
    then obtain n r where n: "utf8_char c = word_of_nat n # r" "0x80 \<le> n" "n < 256" by blast
    have "unat (word_of_nat n :: u8) < 0x80" using Cons.prems(2) n(1) by simp
    then show False using n(2,3) by (simp add: byte_of_nat)
  qed
  then show ?case using Cons by (simp add: chars_ok_def utf8_char_def byte_of_nat)
qed simp

lemma toy_forgets_allowed:
  assumes "mem_ok toy_unicode m 1" "\<forall>i. name_fits i \<longrightarrow> memories m [97] i = (if i = [105] then Some (stored_record toy_memory 0) else None)"
    and "room_for st runs 2048 32"
  shows "forgets_allowed st runs m toy_params [97] [[106], [105], [105]] default_forget_options"
proof -
  let ?r = "stored_record toy_memory 0" and ?chunk = "[([105], 0 :: u64, Some (5 :: i64))]"
  have r: "mr_vec_id ?r = 0" "mr_valid_until ?r = Some 5" "mr_content ?r = [97, 98, 32, 97, 98]"
    by (simp_all add: stored_record_def toy_memory_def utf8_char_def)
  have mem: "memories m [97] [105] = Some ?r" "memories m [97] [106] = None" using assms(2) toy_names by simp_all
  have "document toy_unicode (mr_content ?r) (corpus_of m [97] 0)"
    using mem_okD(3) [OF assms(1) toy_names(1,2) mem(1)] r(1) unfolding memory_linked_def by simp
  then obtain cs where cs: "chars_ok cs" "[97, 98, 32, 97, 98] = utf8 cs"
    "corpus_of m [97] 0 = (if from_content toy_unicode cs = [] then None else Some (from_content toy_unicode cs))"
    unfolding document_def r(3) by blast
  have "cs = [97, 98, 32, 97, 98]" using utf8_ascii [OF cs(1)] unfolding cs(2) [symmetric] by simp
  then have doc: "corpus_of m [97] 0 = Some toy_doc" using cs(3) unfolding toy_content [symmetric] by (simp add: toy_content toy_doc_def)
  have ops: "\<exists>s. forget_all_ops m [97] ?chunk = [(KRecord [97] [105], None), (KVecmap 0, None), (KExpiry [97] 5 [105], None),
      (KPosting [97] [97, 98] 0, None), (KDocTerms [97] 0, None), (KFtsMeta [97], Some (projr (encode_fts_stats s)))]"
    by (simp add: forget_all_ops_def forget_ops_def delete_many_ops_def doc delete_ops_def stats_ops_def toy_doc_def) (rule exI, rule refl)
  have only: "chunk = [] \<or> chunk = ?chunk" if "stored_chunk m [97] chunk" "distinct (map fst chunk)" for chunk
  proof -
    have "x = ([105], 0, Some 5)" if "x \<in> set chunk" for x
      using \<open>stored_chunk m [97] chunk\<close> that assms(2) r by (cases x) (force simp: stored_chunk_def split: if_split_asm)
    moreover have "chunk = [] \<or> length chunk = 1"
    proof (rule ccontr)
      assume "\<not> (chunk = [] \<or> length chunk = 1)"
      then obtain x y l where c: "chunk = x # y # l" by (metis One_nat_def length_0_conv length_Suc_conv list.exhaust)
      then show False using calculation [of x] calculation [of y] that(2) by simp
    qed
    ultimately show ?thesis by (auto simp: length_Suc_conv)
  qed
  have batches: "forgets_batch m [97] ?chunk" "forgets_batch m [97] []"
    using ops by (auto simp: forgets_batch_def MAX_BATCH_OPS_def forget_all_ops_def forget_ops_def delete_many_ops_def stats_ops_def)
  have groups: "groups_fit m [97] k" for k unfolding groups_fit_def using only batches by metis
  have cost: "forget_cost toy_params m [97] [105] \<le> 1024" "forget_cost toy_params m [97] [106] = 0"
    using ops by (auto simp: forget_cost_def mem item_of_def r forgets_room_def vector_room_def node_room_def toy_params_def entry_wire_size_def
        key_bytes_def lp_def space_defs ascii_def encode_fts_stats_def)
  have ids: "all_ids m [97] = {[105]}" using assms(2) toy_names(2) by (auto simp: all_ids_def split: if_split_asm)
  have "purge_room toy_params m [97] \<le> 2048"
    using cost(1) by (simp add: purge_room_def ids entry_wire_size_def key_bytes_def lp_def space_defs ascii_def)
  moreover have "(\<Sum>i \<in> set [[106], [105], [105]]. forget_cost toy_params m [97] i) \<le> 2048" using cost by simp
  ultimately show ?thesis
    using groups toy_names room_mono [OF assms(3)] by (simp add: forgets_allowed_def ids)
qed

theorem memory_forgets_refine_witness:
  "\<exists>st runs m h m1 e1 m2 e2 n2 m3 e3 n3. memories m [97] [105] = Some (stored_record toy_memory 0)
    \<and> achieves toy_externals {m, m1} runs (st, h) (mi_forget toy_externals toy_rnd [97] [105]) True m1 (ready toy_params m1) e1 1
    \<and> memories m1 [97] [105] = None
    \<and> achieves toy_externals (partly_gone toy_unicode m 1 [97] {[105]}) runs (st, h)
        (mi_forget_many toy_externals (\<lambda>_. toy_rnd) [97] [[106], [105], [105]] default_forget_options) 1 m2 (ready toy_params m2) e2 n2
    \<and> memories m2 [97] [105] = None
    \<and> achieves toy_externals (insert m3 (partly_gone toy_unicode m 1 [97] {[105]})) runs (st, h)
        (mi_purge_agent toy_externals (\<lambda>_. toy_rnd) [97]) 1 m3 (ready toy_params m3) e3 n3
    \<and> held m3 (KAgent [97]) = None"
proof -
  obtain st runs m h where s: "at toy_externals m (ready toy_params m) runs (st, h)" "mem_ok toy_unicode m 1"
    "\<forall>i. name_fits i \<longrightarrow> memories m [97] i = (if i = [105] then Some (stored_record toy_memory 0) else None)"
    "live_vectors (vector_nodes m) = [0 \<mapsto> [1]]" "room_for st runs 2048 32" "m \<noteq> Map.empty"
    by (rule toy_remembered)
  have at: "at toy_externals m (handle_ok m) runs (st, h)" and P: "ph_params h = toy_params" using s(1) by (simp_all add: at_def ready_def)
  have mem: "memories m [97] [105] = Some (stored_record toy_memory 0)" "memories m [97] [106] = None" using s(3) toy_names by simp_all
  have allowed: "forgets_allowed st runs m (ph_params h) [97] [[106], [105], [105]] default_forget_options"
    unfolding P by (rule toy_forgets_allowed [OF s(2,3,5)])
  have gone: "{[105]} = {i \<in> set [[106], [105], [105]]. memories m [97] i \<noteq> None}" using mem by auto
  have all: "{[105]} = all_ids m [97]" using s(3) toy_names(2) by (auto simp: all_ids_def split: if_split_asm)
  note three = memory_forgets_refine [OF at _ s(2) toy_names(1) allowed gone all, of "\<lambda>_. toy_rnd", unfolded P]
  have draws: "\<forall>j :: nat. draws_ok (crypto st) toy_rnd" using toy_draws by blast
  obtain m1 e1 where "achieves toy_externals {m, m1} runs (st, h) (mi_forget toy_externals toy_rnd [97] [105]) True m1 (ready toy_params m1) e1 1"
    "forgotten toy_unicode m 1 [97] {[105]} m1"
    using conjunct1 [OF three [OF draws]] by auto
  moreover obtain m2 e2 n2 where "achieves toy_externals (partly_gone toy_unicode m 1 [97] {[105]}) runs (st, h)
        (mi_forget_many toy_externals (\<lambda>_. toy_rnd) [97] [[106], [105], [105]] default_forget_options) 1 m2 (ready toy_params m2) e2 n2"
    "forgotten toy_unicode m 1 [97] {[105]} m2"
    using conjunct1 [OF conjunct2 [OF three [OF draws]]] by auto
  moreover obtain m3 e3 n3 where "achieves toy_externals (insert m3 (partly_gone toy_unicode m 1 [97] {[105]})) runs (st, h)
        (mi_purge_agent toy_externals (\<lambda>_. toy_rnd) [97]) 1 m3 (ready toy_params m3) e3 n3" "held m3 (KAgent [97]) = None"
    using conjunct2 [OF conjunct2 [OF three [OF draws]]] by auto
  moreover have "memories m' [97] [105] = None" if "forgotten toy_unicode m 1 [97] {[105]} m'" for m'
    using that toy_names by (simp add: forgotten_def)
  ultimately show ?thesis using mem(1) by blast
qed

subsection \<open>Reads\<close>

lemma below_succ: "u <s saturating_succ t \<longleftrightarrow> u \<le>s t \<and> u \<noteq> I64_MAX"
proof -
  have top: "w \<le>s I64_MAX" for w using sint_lt [of w] by (simp add: I64_MAX_def word_sle_eq)
  show ?thesis
  proof (cases "t = I64_MAX")
    case True
    then show ?thesis using top [of u] by (simp add: saturating_succ_def signed.less_le)
  next
    case False
    have "u \<noteq> I64_MAX" if "u \<le>s t" using False that top [of t] signed.order_antisym by blast
    then show ?thesis unfolding saturating_succ_def using sless_succ [OF False, of u] False by (simp only: if_False) blast
  qed
qed

text \<open>
  C27. What the index answers, over any store whose map keeps the invariant: get returns the memory and
  resolve the owner of a vector id; the scan of an agent returns all its memories in id order and a page
  the first \<open>limit\<close> of those after the cursor; the expiry query returns exactly the ids whose memory ends
  at \<open>t\<close> or before, sorted by instant and then id, except those that end at the largest instant; and the
  count is that of the memories of all agents.
\<close>

theorem memory_reads_correct:
  assumes "store_inv X st runs" "store_map runs (memtable st) = m" "mem_ok U m next" "name_fits agent" "name_fits i"
    and "case after_id of None \<Rightarrow> True | Some j \<Rightarrow> name_fits j" "card (raw_keys st runs) < fuel"
  shows "(\<exists>st'. mi_get X agent i st = (Inr (memories m agent i), st')) \<and> (\<exists>st'. mi_resolve X v st = (Inr (owner m v), st'))
    \<and> (\<exists>st'. scan_agent X agent st = (Inr (listing m agent (\<lambda>j. True)), st'))
    \<and> scan_agent_page X fuel agent after_id limit st
       = Some (Inr (take limit (listing m agent (\<lambda>j. case after_id of None \<Rightarrow> True | Some a \<Rightarrow> a < j))))
    \<and> (\<exists>es st'. scan_expiring X agent t st = (Inr es, st') \<and> sorted_wrt (\<lambda>(i, u) (j, w). u <s w \<or> u = w \<and> i < j) es
         \<and> set es = {(i, u). name_fits i \<and> (\<exists>r. memories m agent i = Some r \<and> mr_valid_until r = Some u) \<and> u \<le>s t \<and> u \<noteq> I64_MAX})
    \<and> (\<exists>st'. count_all X st = (Inr (word_of_nat (card {(b, j). name_fits b \<and> name_fits j \<and> memories m b j \<noteq> None})), st'))"
proof (intro conjI)
  note typed = mem_okD(1) [OF assms(3)]
  have fin: "finite (dom m)" using finite_store_map [of runs "memtable st"] assms(2) by simp
  note here = peeks_refl [OF assms(1,2)]
  show "\<exists>st'. mi_get X agent i st = (Inr (memories m agent i), st')" using readsD [OF get_reads [OF typed assms(4,5)] here] by blast
  show "\<exists>st'. mi_resolve X v st = (Inr (owner m v), st')" using readsD [OF resolve_reads [OF typed] here] by blast
  show "\<exists>st'. scan_agent X agent st = (Inr (listing m agent (\<lambda>j. True)), st')"
    using readsD [OF scan_agent_reads [OF typed fin assms(4)] here] by blast
  show "scan_agent_page X fuel agent after_id limit st
       = Some (Inr (take limit (listing m agent (\<lambda>j. case after_id of None \<Rightarrow> True | Some a \<Rightarrow> a < j))))"
    by (rule page_reads [OF assms(1,2) typed assms(4,6,7)])
  obtain es where es: "reads (peeks X runs st m) (scan_expiring X agent t) (Inr es)" "due_before m agent (saturating_succ t) es"
    using scan_expiring_reads [OF typed fin assms(4)] by blast
  have "set es = {(i, u). name_fits i \<and> (\<exists>r. memories m agent i = Some r \<and> mr_valid_until r = Some u) \<and> u \<le>s t \<and> u \<noteq> I64_MAX}"
    using es(2) mem_okD(7) [OF assms(3,4)] unfolding due_before_def by (auto simp: below_succ split: if_splits)
  then show "\<exists>es st'. scan_expiring X agent t st = (Inr es, st') \<and> sorted_wrt (\<lambda>(i, u) (j, w). u <s w \<or> u = w \<and> i < j) es
         \<and> set es = {(i, u). name_fits i \<and> (\<exists>r. memories m agent i = Some r \<and> mr_valid_until r = Some u) \<and> u \<le>s t \<and> u \<noteq> I64_MAX}"
    using readsD [OF es(1) here] es(2) unfolding due_before_def by blast
  show "\<exists>st'. count_all X st = (Inr (word_of_nat (card {(b, j). name_fits b \<and> name_fits j \<and> memories m b j \<noteq> None})), st')"
    using readsD [OF count_all_reads [OF typed fin] here] by blast
qed

theorem memory_reads_correct_witness:
  "\<exists>st runs m. store_map runs (memtable st) = m \<and> memories m [97] [105] = Some (stored_record toy_memory 0)
    \<and> (\<exists>st'. mi_get toy_externals [97] [105] st = (Inr (Some (stored_record toy_memory 0)), st'))
    \<and> (\<exists>st'. scan_agent toy_externals [97] st = (Inr [([105], stored_record toy_memory 0)], st'))
    \<and> scan_agent_page toy_externals (Suc (card (raw_keys st runs))) [97] (Some [106]) 5 st = Some (Inr [])
    \<and> (\<exists>es st'. scan_expiring toy_externals [97] 7 st = (Inr es, st') \<and> set es = {([105], 5)})"
proof -
  obtain st runs m h where s: "at toy_externals m (ready toy_params m) runs (st, h)" "mem_ok toy_unicode m 1"
    "\<forall>i. name_fits i \<longrightarrow> memories m [97] i = (if i = [105] then Some (stored_record toy_memory 0) else None)"
    "live_vectors (vector_nodes m) = [0 \<mapsto> [1]]" "room_for st runs 2048 32" "m \<noteq> Map.empty"
    by (rule toy_remembered)
  have inv: "store_inv toy_externals st runs" "store_map runs (memtable st) = m" using s(1) by (simp_all add: at_def)
  have mem: "memories m [97] [105] = Some (stored_record toy_memory 0)" using s(3) toy_names by simp
  have after: "case Some [106] of None \<Rightarrow> True | Some j \<Rightarrow> name_fits j" using toy_names(3) by simp
  note reads = memory_reads_correct [OF inv s(2) toy_names(1,2) after, of "Suc (card (raw_keys st runs))" 0 5 7, OF lessI]
  have ids: "{i. name_fits i \<and> memories m [97] i \<noteq> None \<and> P i} = (if P [105] then {[105]} else {})" for P
    using s(3) toy_names(2) by (auto split: if_split_asm)
  have list: "listing m [97] (\<lambda>j. True) = [([105], stored_record toy_memory 0)]" "listing m [97] (\<lambda>j. [106] < j) = []"
    unfolding listing_def ids by (simp_all add: mem)
  have due: "{(i, u). name_fits i \<and> (\<exists>r. memories m [97] i = Some r \<and> mr_valid_until r = Some u) \<and> u \<le>s 7 \<and> u \<noteq> I64_MAX} = {([105], 5)}" (is "?D = _")
  proof -
    have one: "i = [105] \<and> u = 5" if "name_fits i" "memories m [97] i = Some r" "mr_valid_until r = Some u" for i r u
      using that s(3) toy_rewrite_until(2) by (auto split: if_split_asm)
    have "(5 :: i64) \<le>s 7" "(5 :: i64) \<noteq> I64_MAX" by (simp_all add: I64_MAX_def word_sle_eq)
    then have "([105], 5) \<in> ?D" using mem toy_names(2) toy_rewrite_until(2) [of 0] by simp
    moreover have "p = ([105], 5)" if due: "p \<in> ?D" for p
    proof (cases p)
      case (Pair i u)
      then obtain r where "name_fits i" "memories m [97] i = Some r" "mr_valid_until r = Some u"
        using due [unfolded Pair mem_Collect_eq prod.case] by metis
      then show ?thesis using one Pair by simp
    qed
    ultimately show ?thesis by (intro equalityI subsetI) simp_all
  qed
  show ?thesis
    by (intro exI [of _ st] exI [of _ runs] exI [of _ m]) (use inv(2) mem reads [unfolded due list option.case mem] in auto)
qed

subsection \<open>Opening\<close>

text \<open>
  C28. Opening recovers the id allocator: from an intact entry the stored counter, from a missing or corrupt
  one a counter above every id any vector node or mapping uses, and never above the lost one, so that no
  later put reuses an id; an entry of an unknown version is an error. \<open>m\<close> is a map that keeps the invariant,
  \<open>x\<close> what the store holds in place of the allocator's entry.
\<close>

theorem memory_open_recovers:
  assumes "store_inv X st runs" "store_map runs (memtable st) = m(memory_meta_key := x)" "mem_ok U m next"
  shows "(x = m memory_meta_key \<longrightarrow> (\<exists>st'. mi_open X st = (Inr next, st')))
    \<and> ((case x of None \<Rightarrow> True | Some b \<Rightarrow> decode_memory_meta b = Inl (Corrupt MemoryIndexMeta)) \<longrightarrow>
         (\<exists>n st'. mi_open X st = (Inr n, st') \<and> n \<le> next \<and> (\<forall>v \<in> used_ids m. v < n)))
    \<and> (\<forall>b e. x = Some b \<and> decode_memory_meta b = Inl e \<and> e \<noteq> Corrupt MemoryIndexMeta \<longrightarrow> (\<exists>st'. mi_open X st = (Inl e, st')))"
proof (intro conjI impI allI)
  have "finite (dom (m(memory_meta_key := x)))" using finite_store_map [of runs "memtable st"] assms(2) by simp
  then have fin: "finite (dom m)" by (simp split: if_splits)
  note here = peeks_refl [OF assms(1,2)]
  show "\<exists>st'. mi_open X st = (Inr next, st')" if "x = m memory_meta_key"
  proof -
    have "m(memory_meta_key := x) = m" using that by simp
    then show ?thesis using readsD [OF open_reads [OF assms(3) fin]] here by metis
  qed
  show "\<exists>n st'. mi_open X st = (Inr n, st') \<and> n \<le> next \<and> (\<forall>v \<in> used_ids m. v < n)"
    if "case x of None \<Rightarrow> True | Some b \<Rightarrow> decode_memory_meta b = Inl (Corrupt MemoryIndexMeta)"
    using readsD [OF open_heals(1) [OF assms(3) fin that] here] open_heals(2,3) [OF assms(3) fin that] by blast
  show "\<exists>st'. mi_open X st = (Inl e, st')" if "x = Some b \<and> decode_memory_meta b = Inl e \<and> e \<noteq> Corrupt MemoryIndexMeta" for b e
  proof -
    have "reads (peeks X runs st (m(memory_meta_key := x))) (mi_open X) (Inl e)"
      unfolding mi_open_def by (intro reads_obind_Inr [OF engine.get_map]) (use that in simp)
    from readsD [OF this here] show ?thesis by blast
  qed
qed

theorem memory_open_recovers_witness:
  "\<exists>st m st' st''. used_ids m = {0} \<and> mem_ok toy_unicode m 1
    \<and> engine_put toy_externals toy_rnd memory_meta_key [0] st = (Inr (), st') \<and> mi_open toy_externals st' = (Inr 1, st'')"
proof -
  obtain st runs m h where s: "at toy_externals m (ready toy_params m) runs (st, h)" "mem_ok toy_unicode m 1"
    "\<forall>i. name_fits i \<longrightarrow> memories m [97] i = (if i = [105] then Some (stored_record toy_memory 0) else None)"
    "live_vectors (vector_nodes m) = [0 \<mapsto> [1]]" "room_for st runs 2048 32" "m \<noteq> Map.empty"
    by (rule toy_remembered)
  have inv: "store_inv toy_externals st runs" "store_map runs (memtable st) = m" using s(1) by (simp_all add: at_def)
  have "roomy st runs (entry_wire_size (memory_meta_key, Some [0]))" unfolding roomy_room
    by (rule room_mono [OF s(5)]) (simp_all add: entry_wire_size_def memory_meta_key_def space_defs ascii_def)
  then obtain st' runs' where st': "engine_put toy_externals toy_rnd memory_meta_key [0] st = (Inr (), st')"
    "store_inv toy_externals st' runs'" "store_map runs' (memtable st') = m(memory_meta_key := Some [0])"
    using commits_put [OF inv _ toy_draws] unfolding commits_def steps_to_def by blast
  have bad: "decode_memory_meta [0] = Inl (Corrupt MemoryIndexMeta)" by (simp add: decode_memory_meta_def block_open_def MEMORY_META_LEN_def)
  have below: "v < 1" if "v \<in> used_ids m" for v
    using that mem_okD(5,6) [OF s(2)] dom_split(1) [of "vector_nodes m"] by (auto simp: used_ids_def)
  have "0 \<in> dom (live_vectors (vector_nodes m))" by (simp add: s(4))
  then have used: "used_ids m = {0}"
    using below mem_okD(5) [OF s(2)] by (auto simp: used_ids_def word_less_1)
  obtain n st'' where n: "mi_open toy_externals st' = (Inr n, st'')" "n \<le> 1" "\<forall>v \<in> used_ids m. v < n"
    using memory_open_recovers [OF st'(2,3) s(2)] bad by auto
  have "0 < n" using n(3) used by simp
  then have "n = 1" using n(2) by (metis word_less_1 le_less less_irrefl)
  then show ?thesis using used s(2) st'(1) n(1) by blast
qed

end
