(* ===== verification/Spec2Isabelle.thy ===== *)
theory Spec2Isabelle
  imports Engine_Session Engine_Access Engine_Removal Graph_Index Fts_Index Vector_Open Memory_Safe
begin

text \<open>
  A model of BaseMyAI's storage engine (crate \<open>basemyai-engine\<close>), the embedded encrypted
  key-value store under the agent memory, and of the index layouts that live in its keyspace.

  Parts and theories. Paths are under \<open>src/crates/basemyai-engine/src\<close>.

  \<^item> \<open>Prelude\<close>: bytes, fixed-width little- and big-endian integers, slices, lexicographic order of
    keys, results (\<open>rbind\<close>, \<open>rmap\<close>); \<open>Engine_Error\<close>: \<open>error.rs\<close>.
  \<^item> \<open>Checksum\<close> (\<open>format/checksum.rs\<close>), \<open>Codec\<close> (the contract every checksummed record meets, as
    locales), \<open>Wal_Format\<close>, \<open>Sst_Format\<close>, \<open>Crypto_Format\<close> (\<open>format/\<close>): the on-disk layouts.
  \<^item> \<open>Crypto\<close> (\<open>crypto.rs\<close>): key derivation, wrapping and sealing. SHA-256 and the AEAD are
    external; they are the fields of the record \<open>externals\<close> and \<open>externals_ok\<close> states what the
    code relies on (what was sealed opens again under the same key, nonce and associated data, and
    the output lengths). That what one key sealed does not open under another is not among them: the
    theorems about wrong keys assume it for the two keys at hand (\<open>user_keys_apart\<close>).
  \<^item> \<open>Ordered_Map\<close>, \<open>Memtable\<close>, \<open>Wal_Store\<close>, \<open>Block_Cache\<close>, \<open>Bloom\<close>, \<open>Sst_Write\<close>, \<open>Sst_Read\<close>
    (\<open>store/\<close>): the parts of the engine.
  \<^item> \<open>Engine\<close> (\<open>store/engine.rs\<close>): the operations of \<open>Engine\<close>, in the order of the source, on the
    record \<open>store\<close>. Every file operation is appended to the ghost field \<open>trace\<close>; \<open>disk\<close> holds the
    files. \<open>Engine_Inv\<close> states the invariant \<open>store_inv\<close> (the tables on disk are the runs of a
    log-structured merge tree, and the log replays to the memtable) and the map a store denotes
    (\<open>store_map\<close>); \<open>Engine_Open\<close> is recovery.
  \<^item> \<open>Engine_Write\<close>, \<open>Engine_Read\<close>, \<open>Engine_Access\<close>, \<open>Engine_Removal\<close>, \<open>Engine_Session\<close>: what the
    operations guarantee. Each write is an atomic update of \<open>store_map\<close>, also when the process
    stops between any two file operations or inside a log append (\<open>crash_states\<close>); the reads
    return that map; sessions are the step relation \<open>engine_step\<close>, and \<open>client_session\<close> pins the
    answer of every call in one. \<open>engine_open_io\<close> and \<open>write_record_io\<close> keep what a failing open or
    append did to the files before it failed.
  \<^item> \<open>Keys\<close> (\<open>key/mod.rs\<close>): the keyspaces of the indexes. \<open>Record_Codecs\<close> (\<open>idx/\<close>): the layouts of
    their values.
  \<^item> \<open>Index_Ops\<close>, \<open>Index_Store\<close>, \<open>Index_Chunks\<close>: what the indexes use of the engine. An operation is a
    state transformer that returns a value or an error (\<open>op\<close>); \<open>kv_engine\<close> is the locale of the
    engine's reads, interpreted on the engine model; \<open>typed_map\<close> says that every reserved key holds a
    value of its kind; \<open>commits\<close> and \<open>achieves\<close> are the contracts of a write (result, map, growth of the
    store, and the maps a crash may recover to).
  \<^item> \<open>Graph_Traverse\<close>, \<open>Graph_Index\<close> (\<open>idx/graph/\<close>): the traversal over the locale of its provider, the
    RAM graph and the persisted graph as the two interpretations.
  \<^item> \<open>Tokenizer\<close>, \<open>Fts_Index\<close> (\<open>idx/fts/\<close>): text to terms, postings, statistics, BM25 search. The tables
    of Unicode are the record \<open>unicode\<close>, floating-point operations are fields of \<open>float_ops\<close>.
  \<^item> \<open>Vector_Graph\<close>, \<open>Vector_Ram\<close>, \<open>Vector_Index\<close>, \<open>Vector_Open\<close> (\<open>idx/vector/\<close>): search, pruning and
    planning over the locale of a node provider, the RAM index, the persisted index with its node
    cache, its consolidation, rebuild and open. Distances are the parameter \<open>f32_ops\<close>.
  \<^item> \<open>Memory_Index\<close>, \<open>Memory_Inv\<close>, \<open>Memory_Ops\<close>, \<open>Memory_Reads\<close>, \<open>Memory_Forget\<close>,
    \<open>Memory_Safe\<close> (\<open>idx/memory/\<close>): the index
    that ties the others together. \<open>mem_ok\<close> is its invariant: every memory has its mapping, live
    vector, document, expiry entry and agent entry, and nothing else has; the theorems say that each
    operation keeps it, in one batch, or between the batches of a group (\<open>partly_gone\<close>).

  Not modelled: store verification and repair (\<open>store/verify.rs\<close>, \<open>store/verify_logical.rs\<close>,
  \<open>store/repair.rs\<close>), the crash harness and failpoints, benches, the asynchronous facade
  (crate \<open>basemyai\<close>, except \<open>fts_match_expr\<close>), embeddings, and the servers, the command line and the
  bindings: they are diagnostics, transport or glue around what is modelled, or call external models.

  Fuel. Only the page loops take fuel (\<open>drain_pages\<close>, \<open>agent_pages\<close>); any number above that of the
  keys in the range is enough, and the theorems state the result with such a fuel.

  Bounds. Machine integers of the formats are words of their width; lengths are naturals and
  every cast that truncates is written out. \<open>STORE_LIMIT\<close> bounds the size of the store in the
  refinement theorems, so that no 32-bit length field or table offset overflows; table numbers
  stay below \<open>2 ^ 64\<close>.
\<close>

end
